(* ===== verification/Prelude.thy ===== *)
theory Prelude
  imports Complex_Main "HOL-Library.AList" "HOL-Library.Multiset" "HOL-Library.Word"
begin

text \<open>
  Shared vocabulary of the development.

  A JavaScript \<^verbatim>\<open>Map\<close> keeps its entries in insertion order and updates a key in place, so
  it is an association list with \<^verbatim>\<open>AList.update\<close> (in place when present, at the end
  otherwise) and \<^verbatim>\<open>AList.delete\<close>.  A \<^verbatim>\<open>Set\<close> is a duplicate-free list.  A thrown
  error is the left injection of a sum.  \<^verbatim>\<open>Array.prototype.sort\<close> with a consistent
  comparator is the stable sort, modelled as insertion from the right.

  The collections \<open>jsmap_simps\<close> and \<open>result_simps\<close> gather the rewriting facts the
  component theories pass to the simplifier.
\<close>

named_theorems jsmap_simps "lookup, membership and distinctness after map operations"
named_theorems result_simps "unfolding of the result combinators"

section \<open>Results\<close>

type_synonym ('e, 'a) result = "'e + 'a"

definition rbind :: "('e, 'a) result \<Rightarrow> ('a \<Rightarrow> ('e, 'b) result) \<Rightarrow> ('e, 'b) result" where
  "rbind r f = (case r of Inl e \<Rightarrow> Inl e | Inr a \<Rightarrow> f a)"

definition guard_or :: "bool \<Rightarrow> 'e \<Rightarrow> ('e, unit) result" where
  "guard_or b e = (if b then Inr () else Inl e)"

definition is_ok :: "('e, 'a) result \<Rightarrow> bool" where
  "is_ok r = (case r of Inl _ \<Rightarrow> False | Inr _ \<Rightarrow> True)"

lemma rbind_Inl [simp, result_simps]: "rbind (Inl e) f = Inl e"
  by (simp add: rbind_def)

lemma rbind_Inr [simp, result_simps]: "rbind (Inr a) f = f a"
  by (simp add: rbind_def)

lemma rbind_eq_Inr: "rbind r f = Inr b \<longleftrightarrow> (\<exists>a. r = Inr a \<and> f a = Inr b)"
  by (cases r) auto

lemma rbind_eq_Inl: "rbind r f = Inl e \<longleftrightarrow> r = Inl e \<or> (\<exists>a. r = Inr a \<and> f a = Inl e)"
  by (cases r) auto

lemma guard_or_simps [simp, result_simps]:
  "guard_or True e = Inr ()" "guard_or False e = Inl e"
  by (simp_all add: guard_or_def)

lemma is_ok_simps [simp, result_simps]: "is_ok (Inr a)" "\<not> is_ok (Inl e)"
  by (simp_all add: is_ok_def)

text \<open>Running a fallible function over a list stops at the first error.\<close>

fun traverse :: "('a \<Rightarrow> ('e, 'b) result) \<Rightarrow> 'a list \<Rightarrow> ('e, 'b list) result" where
  "traverse f [] = Inr []"
| "traverse f (x # xs) = rbind (f x) (\<lambda>y. rbind (traverse f xs) (\<lambda>ys. Inr (y # ys)))"

lemma traverse_cong [fundef_cong]:
  "xs = ys \<Longrightarrow> (\<And>x. x \<in> set ys \<Longrightarrow> f x = g x) \<Longrightarrow> traverse f xs = traverse g ys"
  by (induction ys arbitrary: xs) auto

lemma traverse_length: "traverse f xs = Inr ys \<Longrightarrow> length ys = length xs"
  by (induction xs arbitrary: ys) (auto simp: rbind_eq_Inr)

lemma traverse_all2: "traverse f xs = Inr ys \<Longrightarrow> list_all2 (\<lambda>x y. f x = Inr y) xs ys"
  by (induction xs arbitrary: ys) (auto simp: rbind_eq_Inr)

section \<open>Maps in insertion order\<close>

type_synonym ('k, 'v) jsmap = "('k \<times> 'v) list"

abbreviation js_get :: "('k, 'v) jsmap \<Rightarrow> 'k \<Rightarrow> 'v option" where
  "js_get m k \<equiv> map_of m k"

abbreviation js_set :: "'k \<Rightarrow> 'v \<Rightarrow> ('k, 'v) jsmap \<Rightarrow> ('k, 'v) jsmap" where
  "js_set k v m \<equiv> AList.update k v m"

abbreviation js_del :: "'k \<Rightarrow> ('k, 'v) jsmap \<Rightarrow> ('k, 'v) jsmap" where
  "js_del k m \<equiv> AList.delete k m"

definition js_has :: "('k, 'v) jsmap \<Rightarrow> 'k \<Rightarrow> bool" where
  "js_has m k \<longleftrightarrow> map_of m k \<noteq> None"

abbreviation js_keys :: "('k, 'v) jsmap \<Rightarrow> 'k list" where
  "js_keys m \<equiv> map fst m"

abbreviation js_values :: "('k, 'v) jsmap \<Rightarrow> 'v list" where
  "js_values m \<equiv> map snd m"

abbreviation js_wf :: "('k, 'v) jsmap \<Rightarrow> bool" where
  "js_wf m \<equiv> distinct (map fst m)"

declare map_of_eq_Some_iff [simp del]

lemma js_has_iff [jsmap_simps]: "js_has m k \<longleftrightarrow> k \<in> fst ` set m"
  by (simp add: js_has_def map_of_eq_None_iff)

lemma js_get_set [simp, jsmap_simps]: "js_get (js_set k v m) k' = (if k' = k then Some v else js_get m k')"
  by (simp add: update_conv')

lemma js_get_del [simp, jsmap_simps]: "js_get (js_del k m) k' = (if k' = k then None else js_get m k')"
  by (simp add: delete_conv')

lemma js_has_set [simp, jsmap_simps]: "js_has (js_set k v m) k' \<longleftrightarrow> k' = k \<or> js_has m k'"
  by (simp add: js_has_def)

lemma js_has_del [simp, jsmap_simps]: "js_has (js_del k m) k' \<longleftrightarrow> k' \<noteq> k \<and> js_has m k'"
  by (simp add: js_has_def)

lemma js_wf_set [simp, intro, jsmap_simps]: "js_wf m \<Longrightarrow> js_wf (js_set k v m)"
  by (rule distinct_update)

lemma js_wf_del [simp, intro, jsmap_simps]: "js_wf m \<Longrightarrow> js_wf (js_del k m)"
  by (rule distinct_delete)

lemma js_keys_set_keys [simp, jsmap_simps]:
  "fst ` set (js_set k v m) = insert k (fst ` set m)"
  by (simp add: dom_update)

lemma js_get_in_values: "js_get m k = Some v \<Longrightarrow> v \<in> set (js_values m)"
  by (force dest: map_of_SomeD)

lemma js_get_wf_iff: "js_wf m \<Longrightarrow> js_get m k = Some v \<longleftrightarrow> (k, v) \<in> set m"
  by (rule map_of_eq_Some_iff)

text \<open>Updating the values of a map in place (a loop over \<^verbatim>\<open>map.values()\<close> that mutates
  the objects) keeps the keys and their order.\<close>

definition js_mapv :: "('k \<Rightarrow> 'v \<Rightarrow> 'w) \<Rightarrow> ('k, 'v) jsmap \<Rightarrow> ('k, 'w) jsmap" where
  "js_mapv f m = map (\<lambda>(k, v). (k, f k v)) m"

lemma js_keys_mapv [simp, jsmap_simps]: "map fst (js_mapv f m) = map fst m"
  by (simp add: js_mapv_def case_prod_unfold comp_def)

lemma js_get_mapv [simp, jsmap_simps]: "js_get (js_mapv f m) k = map_option (f k) (js_get m k)"
  by (induction m) (auto simp: js_mapv_def)

lemma set_js_mapv: "set (js_mapv f m) = (\<lambda>(k, v). (k, f k v)) ` set m"
  by (simp add: js_mapv_def)

text \<open>Every entry satisfies a predicate of its key and value.\<close>

definition js_all :: "('k \<Rightarrow> 'v \<Rightarrow> bool) \<Rightarrow> ('k, 'v) jsmap \<Rightarrow> bool" where
  "js_all P m \<longleftrightarrow> (\<forall>k v. js_get m k = Some v \<longrightarrow> P k v)"

lemma js_all_Nil [simp, jsmap_simps]: "js_all P []"
  by (simp add: js_all_def)

lemma js_all_set [intro, jsmap_simps]: "js_all P m \<Longrightarrow> P k v \<Longrightarrow> js_all P (js_set k v m)"
  by (simp add: js_all_def)

lemma js_all_del [intro, jsmap_simps]: "js_all P m \<Longrightarrow> js_all P (js_del k m)"
  by (simp add: js_all_def)

lemma js_all_mapv [intro]:
  "js_all P m \<Longrightarrow> (\<And>k v. P k v \<Longrightarrow> Q k (f k v)) \<Longrightarrow> js_all Q (js_mapv f m)"
  by (auto simp: js_all_def)

lemma js_allD: "js_all P m \<Longrightarrow> js_get m k = Some v \<Longrightarrow> P k v"
  by (simp add: js_all_def)

lemma in_js_values_iff: "js_wf m \<Longrightarrow> v \<in> set (js_values m) \<longleftrightarrow> (\<exists>k. js_get m k = Some v)"
  by (force simp: map_of_eq_Some_iff)

lemma js_valuesE:
  assumes "v \<in> set (js_values m)" "js_wf m"
  obtains k where "js_get m k = Some v"
  using assms in_js_values_iff by fast

lemma js_all_values: "js_wf m \<Longrightarrow> js_all P m \<Longrightarrow> v \<in> set (js_values m) \<Longrightarrow> \<exists>k. P k v"
  unfolding js_all_def in_js_values_iff by blast

section \<open>Sets in insertion order\<close>

definition set_add :: "'a \<Rightarrow> 'a list \<Rightarrow> 'a list" where
  "set_add x xs = (if x \<in> set xs then xs else xs @ [x])"

definition set_del :: "'a \<Rightarrow> 'a list \<Rightarrow> 'a list" where
  "set_del x xs = filter (\<lambda>y. y \<noteq> x) xs"

lemma set_set_add [simp, jsmap_simps]: "set (set_add x xs) = insert x (set xs)"
  by (auto simp: set_add_def)

lemma distinct_set_add [simp, intro]: "distinct xs \<Longrightarrow> distinct (set_add x xs)"
  by (auto simp: set_add_def)

lemma set_set_del [simp, jsmap_simps]: "set (set_del x xs) = set xs - {x}"
  by (auto simp: set_del_def)

lemma distinct_set_del [simp, intro]: "distinct xs \<Longrightarrow> distinct (set_del x xs)"
  by (simp add: set_del_def)

text \<open>The array a \<^verbatim>\<open>Set\<close> built from an array spreads to.\<close>

definition js_uniq :: "'a list \<Rightarrow> 'a list" where
  "js_uniq xs = foldl (\<lambda>acc x. set_add x acc) [] xs"

lemma foldl_set_add:
  "set (foldl (\<lambda>acc x. set_add x acc) acc xs) = set acc \<union> set xs \<and>
   (distinct acc \<longrightarrow> distinct (foldl (\<lambda>acc x. set_add x acc) acc xs))"
  by (induction xs arbitrary: acc) auto

lemma set_js_uniq [simp]: "set (js_uniq xs) = set xs"
  using foldl_set_add [of "[]" xs] by (simp add: js_uniq_def)

lemma distinct_js_uniq [simp]: "distinct (js_uniq xs)"
  using foldl_set_add [of "[]" xs] by (simp add: js_uniq_def)

section \<open>Stable sorting with a comparator\<close>

text \<open>\<open>le x y\<close> is "the comparator returns at most zero on \<open>x\<close>, \<open>y\<close>".\<close>

fun insert_by :: "('a \<Rightarrow> 'a \<Rightarrow> bool) \<Rightarrow> 'a \<Rightarrow> 'a list \<Rightarrow> 'a list" where
  "insert_by le x [] = [x]"
| "insert_by le x (y # ys) = (if le x y then x # y # ys else y # insert_by le x ys)"

definition sort_by :: "('a \<Rightarrow> 'a \<Rightarrow> bool) \<Rightarrow> 'a list \<Rightarrow> 'a list" where
  "sort_by le xs = foldr (insert_by le) xs []"

lemma sort_by_simps [simp]:
  "sort_by le [] = []" "sort_by le (x # xs) = insert_by le x (sort_by le xs)"
  by (simp_all add: sort_by_def)

lemma mset_insert_by: "mset (insert_by le x xs) = add_mset x (mset xs)"
  by (induction xs) auto

lemma mset_sort_by: "mset (sort_by le xs) = mset xs"
  by (induction xs) (auto simp: mset_insert_by)

lemma set_sort_by [simp]: "set (sort_by le xs) = set xs"
  by (metis mset_sort_by set_mset_mset)

lemma length_sort_by [simp]: "length (sort_by le xs) = length xs"
  by (metis mset_sort_by size_mset)

lemma distinct_sort_by [simp]: "distinct (sort_by le xs) = distinct xs"
  by (metis mset_sort_by mset_eq_imp_distinct_iff)

lemma sort_by_eq_Nil [simp]: "sort_by le xs = [] \<longleftrightarrow> xs = []"
  by (metis length_sort_by length_0_conv)

lemma set_insert_by: "set (insert_by le x xs) = insert x (set xs)"
  by (induction xs) auto

lemma sorted_insert_by:
  assumes total: "\<And>a b. le a b \<or> le b a"
    and trans: "\<And>a b c. le a b \<Longrightarrow> le b c \<Longrightarrow> le a c"
    and "sorted_wrt le xs"
  shows "sorted_wrt le (insert_by le x xs)"
  using assms(3)
proof (induction xs)
  case (Cons y ys)
  then show ?case
    using total [of x y] by (auto simp: set_insert_by intro: trans)
qed simp

lemma sorted_sort_by:
  assumes total: "\<And>a b. le a b \<or> le b a"
    and trans: "\<And>a b c. le a b \<Longrightarrow> le b c \<Longrightarrow> le a c"
  shows "sorted_wrt le (sort_by le xs)"
proof (induction xs)
  case (Cons x xs)
  have "sorted_wrt le (insert_by le x (sort_by le xs))"
    using sorted_insert_by [OF total trans Cons.IH] .
  then show ?case by simp
qed simp

lemma hd_sort_by_least:
  assumes total: "\<And>a b. le a b \<or> le b a"
    and trans: "\<And>a b c. le a b \<Longrightarrow> le b c \<Longrightarrow> le a c"
    and y: "y \<in> set xs"
  shows "le (hd (sort_by le xs)) y"
proof -
  have sorted: "sorted_wrt le (sort_by le xs)"
    by (rule sorted_sort_by [OF total trans])
  have "y \<in> set (sort_by le xs)" using y by simp
  with sorted show ?thesis
    using total [of y y] by (cases "sort_by le xs") auto
qed

text \<open>Under a total order the result depends only on the elements, not on where they stood.\<close>

lemma sorted_mset_unique:
  assumes antisym: "\<And>a b. le a b \<Longrightarrow> le b a \<Longrightarrow> a = b"
  shows "sorted_wrt le xs \<Longrightarrow> sorted_wrt le ys \<Longrightarrow> mset xs = mset ys \<Longrightarrow> xs = ys"
proof (induction xs arbitrary: ys)
  case (Cons x xs)
  then obtain y zs where ys: "ys = y # zs" by (cases ys) auto
  have "x = y"
  proof (rule ccontr)
    assume "x \<noteq> y"
    moreover have "set (x # xs) = set (y # zs)" using Cons.prems(3) ys mset_eq_setD by blast
    ultimately have "y \<in> set xs" "x \<in> set zs" by auto
    with Cons.prems ys antisym [of x y] \<open>x \<noteq> y\<close> show False by simp
  qed
  with Cons ys show ?case by simp
qed simp

lemma sort_by_mset:
  assumes "\<And>a b. le a b \<or> le b a" "\<And>a b c. le a b \<Longrightarrow> le b c \<Longrightarrow> le a c" "\<And>a b. le a b \<Longrightarrow> le b a \<Longrightarrow> a = b"
    and "mset xs = mset ys"
  shows "sort_by le xs = sort_by le ys"
  using assms by (intro sorted_mset_unique [of le] sorted_sort_by) (simp_all add: mset_sort_by)

text \<open>Stability: elements the comparator cannot tell apart keep their order.\<close>

lemma filter_insert_by_in:
  assumes "P x" "\<And>y. P y \<Longrightarrow> le x y"
  shows "filter P (insert_by le x xs) = x # filter P xs"
  using assms by (induction xs) auto

lemma filter_insert_by_out: "\<not> P x \<Longrightarrow> filter P (insert_by le x xs) = filter P xs"
  by (induction xs) auto

lemma sort_by_stable:
  assumes "\<And>x y. P x \<Longrightarrow> P y \<Longrightarrow> le x y"
  shows "filter P (sort_by le xs) = filter P xs"
proof (induction xs)
  case (Cons x xs)
  then show ?case
    using assms filter_insert_by_in [of P x le] filter_insert_by_out [of P x le]
    by (cases "P x") simp_all
qed simp

section \<open>Slices and searches\<close>

text \<open>\<^verbatim>\<open>xs.slice(a, b)\<close> for non-negative bounds.\<close>

definition js_slice :: "nat \<Rightarrow> nat \<Rightarrow> 'a list \<Rightarrow> 'a list" where
  "js_slice a b xs = take (b - a) (drop a xs)"

lemma length_js_slice: "b \<le> length xs \<Longrightarrow> length (js_slice a b xs) = b - a"
  by (simp add: js_slice_def)

text \<open>\<^verbatim>\<open>xs.slice(a, b)\<close> for any integer bounds: a negative bound counts from the end.\<close>

definition rel_index :: "int \<Rightarrow> nat \<Rightarrow> nat" where
  "rel_index i n = (if i < 0 then nat (max 0 (int n + i)) else min (nat i) n)"

definition js_slice_int :: "int \<Rightarrow> int \<Rightarrow> 'a list \<Rightarrow> 'a list" where
  "js_slice_int a b xs = js_slice (rel_index a (length xs)) (rel_index b (length xs)) xs"

lemma js_slice_int_all: "js_slice_int 0 (int (length xs)) xs = xs"
  by (simp add: js_slice_int_def js_slice_def rel_index_def)

lemma set_js_slice_int: "set (js_slice_int a b xs) \<subseteq> set xs"
  by (auto simp: js_slice_int_def js_slice_def dest: in_set_takeD in_set_dropD)

lemma find_None_filter: "List.find P xs = None \<longleftrightarrow> filter P xs = []"
  by (induction xs) auto

section \<open>Splitting and joining strings\<close>

text \<open>\<^verbatim>\<open>s.split(c)\<close> for a one-character separator and \<^verbatim>\<open>xs.join(sep)\<close>.\<close>

fun split_on :: "'a \<Rightarrow> 'a list \<Rightarrow> 'a list list" where
  "split_on c [] = [[]]"
| "split_on c (x # xs) = (if x = c then [] # split_on c xs
     else case split_on c xs of [] \<Rightarrow> [[x]] | p # ps \<Rightarrow> (x # p) # ps)"

fun join_with :: "'a list \<Rightarrow> 'a list list \<Rightarrow> 'a list" where
  "join_with sep [] = []"
| "join_with sep [x] = x"
| "join_with sep (x # y # xs) = x @ sep @ join_with sep (y # xs)"

lemma split_on_nonempty [simp]: "split_on c xs \<noteq> []"
  by (induction xs) (auto split: list.split)

lemma split_on_none: "c \<notin> set xs \<Longrightarrow> split_on c xs = [xs]"
  by (induction xs) auto

lemma split_on_first: "c \<notin> set xs \<Longrightarrow> split_on c (xs @ c # ys) = xs # split_on c ys"
  by (induction xs) auto

lemma join_with_Cons: "ps \<noteq> [] \<Longrightarrow> join_with sep (p # ps) = p @ sep @ join_with sep ps"
  by (cases ps) simp_all

lemma join_split: "join_with [c] (split_on c xs) = xs"
proof (induction xs)
  case (Cons x xs)
  show ?case
  proof (cases "x = c")
    case False
    obtain p ps where ps: "split_on c xs = p # ps" by (cases "split_on c xs") simp_all
    with Cons have "join_with [c] (p # ps) = xs" by simp
    then show ?thesis using False ps by (cases ps) simp_all
  qed (simp add: join_with_Cons Cons)
qed simp

lemma split_on_parts: "p \<in> set (split_on c xs) \<Longrightarrow> c \<notin> set p"
proof (induction xs arbitrary: p)
  case (Cons x xs)
  obtain q qs where qs: "split_on c xs = q # qs" by (cases "split_on c xs") simp_all
  with Cons show ?case by (auto split: if_splits)
qed simp

lemma length_split_on: "length (split_on c xs) = Suc (count_list xs c)"
proof (induction xs)
  case (Cons x xs)
  obtain q qs where qs: "split_on c xs = q # qs" by (cases "split_on c xs") simp_all
  with Cons show ?case by simp
qed simp

end
