(* ===== verification/Queues.thy ===== *)
theory Queues
  imports Prelude
begin

text \<open>
  The queue package: \<^verbatim>\<open>InMemoryQueueBackend\<close> (packages/di-framework-queues/src/backend/memory.ts)
  and the handler registry it reads its defaults from
  (packages/di-framework-core/decorators/QueueHandler.ts).

  Times, delays and priorities are JavaScript numbers, taken as rationals (the retry delay of
  a job that was never dequeued is a half); attempts and retry counts are integers.
  The promise-returning methods run to completion without an interleaving point, so each is
  one state transformer.  The identifier the code draws from the clock, its counter and
  \<^verbatim>\<open>crypto.randomUUID()\<close> is the argument \<open>fresh\<close>.
\<close>

section \<open>The handler registry\<close>

record handler_options =
  ho_maxRetries :: "int option"
  ho_backoffMs :: "rat option"
  ho_timeoutMs :: "rat option"
  ho_concurrency :: "int option"

record 't handler_meta =
  hm_queueName :: string
  hm_methodName :: string
  hm_target :: 't
  hm_options :: handler_options

type_synonym 't handler_registry = "'t handler_meta list"

definition registry_register :: "'t handler_meta \<Rightarrow> 't handler_registry \<Rightarrow> 't handler_registry" where
  "registry_register h r = r @ [h]"

definition getForQueue :: "'t handler_registry \<Rightarrow> string \<Rightarrow> 't handler_meta list" where
  "getForQueue r q = filter (\<lambda>h. hm_queueName h = q) r"

definition registry_getAll :: "'t handler_registry \<Rightarrow> 't handler_meta list" where
  "registry_getAll r = r"

definition registry_clear :: "'t handler_registry \<Rightarrow> 't handler_registry" where
  "registry_clear r = []"

definition or_else :: "'a option \<Rightarrow> 'a option \<Rightarrow> 'a option" where
  "or_else a b = (case a of Some x \<Rightarrow> Some x | None \<Rightarrow> b)"

definition or_default :: "'a option \<Rightarrow> 'a \<Rightarrow> 'a" where
  "or_default a d = (case a of Some x \<Rightarrow> x | None \<Rightarrow> d)"

lemma or_default_simps [simp]: "or_default None d = d" "or_default (Some x) d = x"
  by (simp_all add: or_default_def)

lemma or_else_simps [simp]: "or_else None b = b" "or_else (Some x) b = Some x"
  by (simp_all add: or_else_def)

text \<open>The decorator \<^verbatim>\<open>@QueueHandler(queueName, options)\<close> fills every option in and registers.\<close>

definition QueueHandler_meta :: "string \<Rightarrow> handler_options \<Rightarrow> 't \<Rightarrow> string \<Rightarrow> 't handler_meta" where
  "QueueHandler_meta q opts tgt key =
     \<lparr>hm_queueName = q, hm_methodName = key, hm_target = tgt,
      hm_options = \<lparr>ho_maxRetries = Some (or_default (ho_maxRetries opts) 3),
                    ho_backoffMs = Some (or_default (ho_backoffMs opts) 1000),
                    ho_timeoutMs = Some (or_default (ho_timeoutMs opts) 30000),
                    ho_concurrency = Some (or_default (ho_concurrency opts) 1)\<rparr>\<rparr>"

section \<open>Jobs and the backend state\<close>

datatype job_status = Pending | Processing | Completed | DeadLetter

record 'p job =
  j_id :: string
  j_queueName :: string
  j_payload :: 'p
  j_status :: job_status
  j_priority :: rat
  j_attempts :: int
  j_maxRetries :: int
  j_backoffMs :: rat
  j_timeoutMs :: rat
  j_enqueuedAt :: rat
  j_availableAt :: rat
  j_leaseExpiresAt :: "rat option"
  j_startedAt :: "rat option"
  j_completedAt :: "rat option"
  j_failedAt :: "rat option"
  j_errorMessage :: "string option"
  j_errorStack :: "string option"
  j_idempotencyKey :: "string option"

record enqueue_options =
  eo_jobId :: "string option"
  eo_idempotencyKey :: "string option"
  eo_delayMs :: "rat option"
  eo_priority :: "rat option"
  eo_maxRetries :: "int option"
  eo_backoffMs :: "rat option"
  eo_timeoutMs :: "rat option"

definition no_options :: enqueue_options where
  "no_options = \<lparr>eo_jobId = None, eo_idempotencyKey = None, eo_delayMs = None, eo_priority = None,
     eo_maxRetries = None, eo_backoffMs = None, eo_timeoutMs = None\<rparr>"

record 'p backend =
  qb_jobs :: "(string, 'p job) jsmap"
  qb_virtualTime :: rat
  qb_nextId :: nat

text \<open>What a handler or a caller throws: an \<^verbatim>\<open>Error\<close> object or any other value, already a string.\<close>

datatype thrown = JsError string "string option" | JsOther string

definition new_backend :: "rat \<Rightarrow> 'p backend" where
  "new_backend t = \<lparr>qb_jobs = [], qb_virtualTime = t, qb_nextId = 1\<rparr>"

definition advanceTime :: "rat \<Rightarrow> 'p backend \<Rightarrow> (thrown, 'p backend) result" where
  "advanceTime ms b =
     (if ms < 0 then Inl (JsError ''Cannot advance time backwards'' None)
      else Inr (b\<lparr>qb_virtualTime := qb_virtualTime b + ms\<rparr>))"

section \<open>The operations\<close>

definition idem_match :: "string \<Rightarrow> string \<Rightarrow> 'p job \<Rightarrow> bool" where
  "idem_match q key j \<longleftrightarrow>
     j_queueName j = q \<and> j_idempotencyKey j = Some key \<and> j_status j \<noteq> DeadLetter"

definition enqueue ::
  "'t handler_registry \<Rightarrow> (rat \<Rightarrow> nat \<Rightarrow> string) \<Rightarrow> string \<Rightarrow> 'p \<Rightarrow> enqueue_options \<Rightarrow>
   'p backend \<Rightarrow> 'p job \<times> 'p backend" where
  "enqueue reg fresh q payload opts b =
     (let enqueuedAt = qb_virtualTime b;
          existing = (case eo_idempotencyKey opts of None \<Rightarrow> None
                      | Some key \<Rightarrow> List.find (idem_match q key) (js_values (qb_jobs b)))
      in case existing of
           Some j \<Rightarrow> (j, b)
         | None \<Rightarrow>
             (let (jid, n') = (case eo_jobId opts of
                                 Some i \<Rightarrow> (i, qb_nextId b)
                               | None \<Rightarrow> (fresh enqueuedAt (qb_nextId b), qb_nextId b + 1));
                  defaults = (case getForQueue reg q of [] \<Rightarrow> None | h # _ \<Rightarrow> Some (hm_options h));
                  j = \<lparr>j_id = jid, j_queueName = q, j_payload = payload, j_status = Pending,
                       j_priority = or_default (eo_priority opts) 0, j_attempts = 0,
                       j_maxRetries = or_default (or_else (eo_maxRetries opts)
                          (Option.bind defaults ho_maxRetries)) 3,
                       j_backoffMs = or_default (or_else (eo_backoffMs opts)
                          (Option.bind defaults ho_backoffMs)) 1000,
                       j_timeoutMs = or_default (or_else (eo_timeoutMs opts)
                          (Option.bind defaults ho_timeoutMs)) 30000,
                       j_enqueuedAt = enqueuedAt,
                       j_availableAt = enqueuedAt + or_default (eo_delayMs opts) 0,
                       j_leaseExpiresAt = None, j_startedAt = None, j_completedAt = None,
                       j_failedAt = None, j_errorMessage = None, j_errorStack = None,
                       j_idempotencyKey = eo_idempotencyKey opts\<rparr>
              in (j, b\<lparr>qb_jobs := js_set jid j (qb_jobs b), qb_nextId := n'\<rparr>)))"

definition eligible :: "string \<Rightarrow> rat \<Rightarrow> 'p job \<Rightarrow> bool" where
  "eligible q now j \<longleftrightarrow> j_queueName j = q \<and> j_status j = Pending \<and> j_availableAt j \<le> now"

text \<open>The comparator handed to \<^verbatim>\<open>sort\<close>: higher priority, then earlier availability, then age.\<close>

definition job_cmp :: "'p job \<Rightarrow> 'p job \<Rightarrow> rat" where
  "job_cmp a b =
     (if j_priority b \<noteq> j_priority a then j_priority b - j_priority a
      else if j_availableAt a \<noteq> j_availableAt b then j_availableAt a - j_availableAt b
      else j_enqueuedAt a - j_enqueuedAt b)"

definition job_before :: "'p job \<Rightarrow> 'p job \<Rightarrow> bool" where
  "job_before a b \<longleftrightarrow> job_cmp a b \<le> 0"

definition lease :: "rat \<Rightarrow> rat \<Rightarrow> 'p job \<Rightarrow> 'p job" where
  "lease now ttl j = j\<lparr>j_status := Processing, j_attempts := j_attempts j + 1,
     j_startedAt := Some now, j_leaseExpiresAt := Some (now + ttl)\<rparr>"

definition dequeue :: "string \<Rightarrow> rat \<Rightarrow> 'p backend \<Rightarrow> 'p job option \<times> 'p backend" where
  "dequeue q ttl b =
     (let now = qb_virtualTime b;
          es = filter (eligible q now) (js_values (qb_jobs b))
      in if es = [] then (None, b)
         else let chosen = lease now ttl (hd (sort_by job_before es))
              in (Some chosen, b\<lparr>qb_jobs := js_set (j_id chosen) chosen (qb_jobs b)\<rparr>))"

definition complete :: "string \<Rightarrow> string \<Rightarrow> 'p backend \<Rightarrow> 'p backend" where
  "complete q jid b =
     (case js_get (qb_jobs b) jid of
        None \<Rightarrow> b
      | Some j \<Rightarrow> if j_queueName j \<noteq> q then b
          else b\<lparr>qb_jobs := js_set jid
                  (j\<lparr>j_status := Completed, j_completedAt := Some (qb_virtualTime b),
                     j_leaseExpiresAt := None\<rparr>) (qb_jobs b)\<rparr>)"

definition js_pow2 :: "int \<Rightarrow> rat" where
  "js_pow2 n = (if 0 \<le> n then 2 ^ nat n else 1 / 2 ^ nat (- n))"

definition backoff_of :: "rat option \<Rightarrow> 'p job \<Rightarrow> rat" where
  "backoff_of retryAfterMs j = (case retryAfterMs of Some r \<Rightarrow> r
     | None \<Rightarrow> min (j_backoffMs j * js_pow2 (j_attempts j - 1)) 60000)"

definition record_failure :: "rat \<Rightarrow> thrown \<Rightarrow> 'p job \<Rightarrow> 'p job" where
  "record_failure now err j =
     j\<lparr>j_failedAt := Some now,
       j_errorMessage := Some (case err of JsError m _ \<Rightarrow> m | JsOther s \<Rightarrow> s),
       j_errorStack := (case err of JsError _ st \<Rightarrow> st | JsOther _ \<Rightarrow> None),
       j_leaseExpiresAt := None\<rparr>"

definition fail :: "string \<Rightarrow> string \<Rightarrow> thrown \<Rightarrow> rat option \<Rightarrow> 'p backend \<Rightarrow> 'p backend" where
  "fail q jid err retryAfterMs b =
     (case js_get (qb_jobs b) jid of
        None \<Rightarrow> b
      | Some j0 \<Rightarrow> if j_queueName j0 \<noteq> q then b
          else let now = qb_virtualTime b;
                   j = record_failure now err j0;
                   j' = (if j_attempts j < j_maxRetries j
                         then j\<lparr>j_status := Pending, j_availableAt := now + backoff_of retryAfterMs j\<rparr>
                         else j\<lparr>j_status := DeadLetter\<rparr>)
               in b\<lparr>qb_jobs := js_set jid j' (qb_jobs b)\<rparr>)"

text \<open>An optional queue name counts as absent when it is the empty string.\<close>

definition truthy :: "string option \<Rightarrow> bool" where
  "truthy q \<longleftrightarrow> q \<noteq> None \<and> q \<noteq> Some []"

definition lease_expired :: "rat \<Rightarrow> 'p job \<Rightarrow> bool" where
  "lease_expired now j = (case j_leaseExpiresAt j of None \<Rightarrow> True | Some t \<Rightarrow> t \<le> now)"

definition recoverable :: "string option \<Rightarrow> rat \<Rightarrow> 'p job \<Rightarrow> bool" where
  "recoverable q now j \<longleftrightarrow>
     \<not> (truthy q \<and> Some (j_queueName j) \<noteq> q) \<and> j_status j = Processing \<and> lease_expired now j"

definition recover_job :: "rat \<Rightarrow> 'p job \<Rightarrow> 'p job" where
  "recover_job now j =
     (let j1 = j\<lparr>j_leaseExpiresAt := None\<rparr>
      in if j_maxRetries j \<le> j_attempts j then j1\<lparr>j_status := DeadLetter\<rparr>
         else j1\<lparr>j_status := Pending, j_availableAt := now\<rparr>)"

definition recoverUnacknowledged :: "string option \<Rightarrow> 'p backend \<Rightarrow> nat \<times> 'p backend" where
  "recoverUnacknowledged q b =
     (let now = qb_virtualTime b
      in (length (filter (recoverable q now) (js_values (qb_jobs b))),
          b\<lparr>qb_jobs := js_mapv (\<lambda>_ j. if recoverable q now j then recover_job now j else j)
              (qb_jobs b)\<rparr>))"

definition getJob :: "string \<Rightarrow> string \<Rightarrow> 'p backend \<Rightarrow> 'p job option" where
  "getJob q jid b = (case js_get (qb_jobs b) jid of None \<Rightarrow> None
     | Some j \<Rightarrow> if j_queueName j = q then Some j else None)"

record jobs_filter =
  jf_status :: "job_status list option"  \<comment> \<open>a single status is a one-element list\<close>
  jf_limit :: "int option"
  jf_offset :: "int option"

definition listJobs :: "string \<Rightarrow> jobs_filter \<Rightarrow> 'p backend \<Rightarrow> 'p job list" where
  "listJobs q f b =
     (let results = filter (\<lambda>j. j_queueName j = q \<and>
            (case jf_status f of None \<Rightarrow> True | Some ss \<Rightarrow> j_status j \<in> set ss)) (js_values (qb_jobs b));
          sorted = sort_by (\<lambda>a b. j_enqueuedAt a - j_enqueuedAt b \<le> 0) results;
          offset = or_default (jf_offset f) 0;
          limit = or_default (jf_limit f) (int (length sorted))
      in js_slice_int offset (offset + limit) sorted)"

record queue_info =
  qi_pending :: nat
  qi_processing :: nat
  qi_completed :: nat
  qi_deadLetter :: nat
  qi_total :: nat

definition empty_info :: queue_info where
  "empty_info = \<lparr>qi_pending = 0, qi_processing = 0, qi_completed = 0, qi_deadLetter = 0, qi_total = 0\<rparr>"

definition count_job :: "job_status \<Rightarrow> queue_info \<Rightarrow> queue_info" where
  "count_job s i0 = (let i = i0\<lparr>qi_total := qi_total i0 + 1\<rparr> in
     case s of
       Pending \<Rightarrow> i\<lparr>qi_pending := qi_pending i + 1\<rparr>
     | Processing \<Rightarrow> i\<lparr>qi_processing := qi_processing i + 1\<rparr>
     | Completed \<Rightarrow> i\<lparr>qi_completed := qi_completed i + 1\<rparr>
     | DeadLetter \<Rightarrow> i\<lparr>qi_deadLetter := qi_deadLetter i + 1\<rparr>)"

definition listQueues :: "'p backend \<Rightarrow> (string, queue_info) jsmap" where
  "listQueues b = foldl (\<lambda>stats j.
       js_set (j_queueName j) (count_job (j_status j)
         (or_default (js_get stats (j_queueName j)) empty_info)) stats) [] (js_values (qb_jobs b))"

definition retryable :: "string \<Rightarrow> string option \<Rightarrow> 'p job \<Rightarrow> bool" where
  "retryable q jid j \<longleftrightarrow>
     j_queueName j = q \<and> (jid = None \<or> jid = Some (j_id j)) \<and> j_status j = DeadLetter"

definition retry_one :: "rat \<Rightarrow> 'p job \<Rightarrow> 'p job" where
  "retry_one now j = j\<lparr>j_status := Pending, j_availableAt := now,
     j_errorMessage := None, j_errorStack := None\<rparr>"

definition retryJob :: "string \<Rightarrow> string option \<Rightarrow> 'p backend \<Rightarrow> 'p job list \<times> 'p backend" where
  "retryJob q jid b =
     (let now = qb_virtualTime b
      in (map (retry_one now) (filter (retryable q jid) (js_values (qb_jobs b))),
          b\<lparr>qb_jobs := js_mapv (\<lambda>_ j. if retryable q jid j then retry_one now j else j) (qb_jobs b)\<rparr>))"

definition queue_close :: "'p backend \<Rightarrow> 'p backend" where
  "queue_close b = b\<lparr>qb_jobs := []\<rparr>"

text \<open>A handler reads and may change the backend, and completes or throws.\<close>

type_synonym 'p executor = "'p job \<Rightarrow> 'p backend \<Rightarrow> thrown option \<times> 'p backend"

fun try_queues :: "'p executor \<Rightarrow> string list \<Rightarrow> 'p backend \<Rightarrow> bool \<times> 'p backend" where
  "try_queues exec [] b = (False, b)"
| "try_queues exec (q # qs) b =
     (case dequeue q 30000 b of
        (None, b1) \<Rightarrow> try_queues exec qs b1
      | (Some j, b1) \<Rightarrow>
          (case exec j b1 of
             (None, b2) \<Rightarrow> (True, complete (j_queueName j) (j_id j) b2)
           | (Some err, b2) \<Rightarrow> (True, fail (j_queueName j) (j_id j) err None b2)))"

definition ready_queues :: "'p backend \<Rightarrow> string list" where
  "ready_queues b = js_uniq (map j_queueName
     (filter (\<lambda>j. j_status j = Pending \<and> j_availableAt j \<le> qb_virtualTime b) (js_values (qb_jobs b))))"

definition queue_step :: "'p executor option \<Rightarrow> string option \<Rightarrow> 'p executor option \<Rightarrow> 'p backend \<Rightarrow>
    (thrown, bool \<times> 'p backend) result" where
  "queue_step executor q handler b =
     (case or_else handler executor of
        None \<Rightarrow> Inl (JsError ''InMemoryQueueBackend.step requires a handler or registered executor'' None)
      | Some exec \<Rightarrow>
          Inr (try_queues exec (if truthy q then [the q] else ready_queues b) b))"

text \<open>The loop of \<^verbatim>\<open>drain\<close>: \<open>steps\<close> is \<^verbatim>\<open>maxSteps - count\<close>.\<close>

fun drain_loop :: "'p executor option \<Rightarrow> string option \<Rightarrow> 'p executor option \<Rightarrow> nat \<Rightarrow> nat \<Rightarrow>
    'p backend \<Rightarrow> (thrown, nat \<times> 'p backend) result" where
  "drain_loop executor q handler 0 n b = Inr (n, b)"
| "drain_loop executor q handler (Suc steps) n b =
     (case queue_step executor q handler b of
        Inl e \<Rightarrow> Inl e
      | Inr (stepped, b') \<Rightarrow>
          if stepped then drain_loop executor q handler steps (n + 1) b'
          else Inr (n, b'))"

definition drain :: "'p executor option \<Rightarrow> string option \<Rightarrow> nat \<Rightarrow> 'p executor option \<Rightarrow>
    'p backend \<Rightarrow> (thrown, nat \<times> 'p backend) result" where
  "drain executor q maxSteps handler b = drain_loop executor q handler maxSteps 0 b"

section \<open>The job invariant\<close>

text \<open>A job holds a lease exactly while it is being processed, under the key of its id, and has
  been attempted at least once by then.\<close>

definition job_ok :: "string \<Rightarrow> 'p job \<Rightarrow> bool" where
  "job_ok k j \<longleftrightarrow> k = j_id j \<and> 0 \<le> j_attempts j \<and>
     (j_status j = Processing \<longleftrightarrow> j_leaseExpiresAt j \<noteq> None) \<and>
     (j_status j = Processing \<longrightarrow> 1 \<le> j_attempts j)"

definition queue_inv :: "'p backend \<Rightarrow> bool" where
  "queue_inv b \<longleftrightarrow> js_wf (qb_jobs b) \<and> js_all job_ok (qb_jobs b)"

text \<open>The attempts budget: a job that may run again has an attempt left.\<close>

definition within_budget :: "string \<Rightarrow> 'p job \<Rightarrow> bool" where
  "within_budget k j \<longleftrightarrow> j_attempts j \<le> max 1 (j_maxRetries j) \<and>
     (j_status j = Pending \<longrightarrow> j_attempts j < max 1 (j_maxRetries j))"

lemma queue_inv_wf [dest]: "queue_inv b \<Longrightarrow> js_wf (qb_jobs b)"
  by (simp add: queue_inv_def)

lemma queue_inv_time [simp]: "queue_inv (b\<lparr>qb_virtualTime := t\<rparr>) = queue_inv b"
  by (simp add: queue_inv_def)

lemma queue_inv_new [simp]: "queue_inv (new_backend t)"
  by (simp add: queue_inv_def new_backend_def)

subsection \<open>What a dequeue does\<close>

lemma job_before_total: "job_before a b \<or> job_before b a"
  by (auto simp: job_before_def job_cmp_def)

lemma job_before_trans: "job_before a b \<Longrightarrow> job_before b c \<Longrightarrow> job_before a c"
  by (auto simp: job_before_def job_cmp_def split: if_splits)

lemma dequeue_None: "dequeue q ttl b = (None, b') \<longleftrightarrow>
    b' = b \<and> filter (eligible q (qb_virtualTime b)) (js_values (qb_jobs b)) = []"
  by (auto simp: dequeue_def Let_def)

lemma dequeue_NoneD: "dequeue q ttl b = (None, b') \<Longrightarrow> b' = b"
  by (simp add: dequeue_None)

lemma fst_dequeue_None: "fst (dequeue q ttl b) = None \<longleftrightarrow>
    filter (eligible q (qb_virtualTime b)) (js_values (qb_jobs b)) = []"
  by (simp add: dequeue_def Let_def)

lemma dequeue_Some:
  assumes "dequeue q ttl b = (Some j', b')"
  obtains j where "j \<in> set (js_values (qb_jobs b))" "eligible q (qb_virtualTime b) j"
    "\<And>i. i \<in> set (js_values (qb_jobs b)) \<Longrightarrow> eligible q (qb_virtualTime b) i \<Longrightarrow> job_before j i"
    "j' = lease (qb_virtualTime b) ttl j"
    "b' = b\<lparr>qb_jobs := js_set (j_id j) j' (qb_jobs b)\<rparr>"
proof -
  let ?es = "filter (eligible q (qb_virtualTime b)) (js_values (qb_jobs b))"
  let ?j = "hd (sort_by job_before ?es)"
  have ne: "?es \<noteq> []" and j': "j' = lease (qb_virtualTime b) ttl ?j"
    and b': "b' = b\<lparr>qb_jobs := js_set (j_id ?j) j' (qb_jobs b)\<rparr>"
    using assms by (auto simp: dequeue_def Let_def lease_def split: if_splits)
  have "?j \<in> set (sort_by job_before ?es)"
    using ne by (intro hd_in_set) simp
  then have "?j \<in> set ?es" by simp
  moreover have "job_before ?j i" if "i \<in> set ?es" for i
    by (rule hd_sort_by_least [OF job_before_total _ that]) (rule job_before_trans)
  ultimately show thesis
    using that [of ?j] j' b' by simp
qed

subsection \<open>Every operation keeps the invariant\<close>

lemma enqueue_jobs:
  assumes "enqueue reg fresh q p opts b = (j, b')"
  shows "b' = b \<or> (qb_jobs b' = js_set (j_id j) j (qb_jobs b) \<and> j_status j = Pending \<and>
           j_attempts j = 0 \<and> j_leaseExpiresAt j = None \<and> j_queueName j = q)"
  using assms
  by (auto simp: enqueue_def Let_def split: option.splits prod.splits)

lemma enqueue_inv: "queue_inv b \<Longrightarrow> queue_inv (snd (enqueue reg fresh q p opts b))"
  using enqueue_jobs [of reg fresh q p opts b]
  by (cases "enqueue reg fresh q p opts b")
     (fastforce simp: queue_inv_def job_ok_def intro: js_all_set)

lemma dequeue_inv:
  assumes inv: "queue_inv b"
  shows "queue_inv (snd (dequeue q ttl b))"
proof (cases "dequeue q ttl b")
  case (Pair r b')
  show ?thesis
  proof (cases r)
    case None
    with Pair dequeue_None [of q ttl b b'] inv show ?thesis by simp
  next
    case (Some j')
    with Pair have "dequeue q ttl b = (Some j', b')" by simp
    then show ?thesis
    proof (rule dequeue_Some)
      fix j assume j: "j \<in> set (js_values (qb_jobs b))"
        and j': "j' = lease (qb_virtualTime b) ttl j"
        and b': "b' = b\<lparr>qb_jobs := js_set (j_id j) j' (qb_jobs b)\<rparr>"
      from inv j obtain k where "job_ok k j"
        using js_all_values by (fastforce simp: queue_inv_def)
      then have "job_ok (j_id j) j'" by (auto simp: job_ok_def j' lease_def)
      with inv show ?thesis by (auto simp: queue_inv_def Pair b')
    qed
  qed
qed

lemma complete_inv: "queue_inv b \<Longrightarrow> queue_inv (complete q jid b)"
  by (auto simp: complete_def queue_inv_def job_ok_def dest: js_allD intro!: js_all_set
      split: option.splits)

lemma fail_inv: "queue_inv b \<Longrightarrow> queue_inv (fail q jid err r b)"
  by (auto simp: fail_def queue_inv_def job_ok_def record_failure_def Let_def dest: js_allD
      intro!: js_all_set split: option.splits)

lemma recover_inv: "queue_inv b \<Longrightarrow> queue_inv (snd (recoverUnacknowledged q b))"
  by (auto simp: recoverUnacknowledged_def queue_inv_def Let_def job_ok_def recover_job_def
      elim!: js_all_mapv)

lemma retry_inv: "queue_inv b \<Longrightarrow> queue_inv (snd (retryJob q jid b))"
  by (auto simp: retryJob_def queue_inv_def Let_def job_ok_def retry_one_def retryable_def
      elim!: js_all_mapv)

lemma close_inv [simp]: "queue_inv (queue_close b)"
  by (simp add: queue_inv_def queue_close_def)

section \<open>Runs of operations\<close>

text \<open>The calls a client can make, with the identifier drawn for an enqueue.\<close>

datatype 'p queue_op =
    OpEnqueue string string 'p enqueue_options
  | OpDequeue string rat
  | OpComplete string string
  | OpFail string string thrown "rat option"
  | OpRecover "string option"
  | OpRetry string "string option"
  | OpAdvance rat
  | OpClose

primrec queue_apply :: "'t handler_registry \<Rightarrow> 'p queue_op \<Rightarrow> 'p backend \<Rightarrow> 'p backend" where
  "queue_apply reg (OpEnqueue i q p opts) b = snd (enqueue reg (\<lambda>_ _. i) q p opts b)"
| "queue_apply reg (OpDequeue q ttl) b = snd (dequeue q ttl b)"
| "queue_apply reg (OpComplete q i) b = complete q i b"
| "queue_apply reg (OpFail q i e r) b = fail q i e r b"
| "queue_apply reg (OpRecover q) b = snd (recoverUnacknowledged q b)"
| "queue_apply reg (OpRetry q i) b = snd (retryJob q i b)"
| "queue_apply reg (OpAdvance ms) b = (case advanceTime ms b of Inl _ \<Rightarrow> b | Inr b' \<Rightarrow> b')"
| "queue_apply reg OpClose b = queue_close b"

definition queue_run :: "'t handler_registry \<Rightarrow> 'p queue_op list \<Rightarrow> 'p backend \<Rightarrow> 'p backend" where
  "queue_run reg ops b = foldl (\<lambda>s op. queue_apply reg op s) b ops"

lemma queue_run_simps [simp]:
  "queue_run reg [] b = b"
  "queue_run reg (op # ops) b = queue_run reg ops (queue_apply reg op b)"
  by (simp_all add: queue_run_def)

lemma queue_run_keeps:
  assumes "\<And>op b. op \<in> set ops \<Longrightarrow> P b \<Longrightarrow> P (queue_apply reg op b)" and "P b"
  shows "P (queue_run reg ops b)"
  using assms by (induction ops arbitrary: b) auto

lemma queue_apply_inv: "queue_inv b \<Longrightarrow> queue_inv (queue_apply reg op b)"
  by (cases op)
     (auto simp: enqueue_inv dequeue_inv complete_inv fail_inv recover_inv retry_inv
        advanceTime_def)

lemma queue_run_inv: "queue_inv b \<Longrightarrow> queue_inv (queue_run reg ops b)"
  by (rule queue_run_keeps [where P = queue_inv]) (rule queue_apply_inv)

subsection \<open>The attempts budget\<close>

definition budget_inv :: "'p backend \<Rightarrow> bool" where
  "budget_inv b \<longleftrightarrow> queue_inv b \<and> js_all within_budget (qb_jobs b)"

definition is_retry :: "'p queue_op \<Rightarrow> bool" where
  "is_retry op = (case op of OpRetry _ _ \<Rightarrow> True | _ \<Rightarrow> False)"

lemma enqueue_budget:
  "js_all within_budget (qb_jobs b) \<Longrightarrow> js_all within_budget (qb_jobs (snd (enqueue reg f q p opts b)))"
  using enqueue_jobs [of reg f q p opts b]
  by (cases "enqueue reg f q p opts b") (fastforce simp: within_budget_def intro!: js_all_set)

lemma dequeue_budget:
  assumes inv: "queue_inv b" and all: "js_all within_budget (qb_jobs b)"
  shows "js_all within_budget (qb_jobs (snd (dequeue q ttl b)))"
proof (cases "fst (dequeue q ttl b)")
  case None
  with all dequeue_None [of q ttl b b] show ?thesis
    by (metis dequeue_None prod.collapse)
next
  case (Some j')
  then have "dequeue q ttl b = (Some j', snd (dequeue q ttl b))" by (simp add: prod_eq_iff)
  then show ?thesis
  proof (rule dequeue_Some)
    fix j assume j: "j \<in> set (js_values (qb_jobs b))" "eligible q (qb_virtualTime b) j"
      and eqs: "j' = lease (qb_virtualTime b) ttl j"
        "snd (dequeue q ttl b) = b\<lparr>qb_jobs := js_set (j_id j) j' (qb_jobs b)\<rparr>"
    from j inv all obtain k where "within_budget k j"
      using js_all_values by (fastforce simp: queue_inv_def)
    with j have "within_budget (j_id j) j'"
      by (auto simp: within_budget_def eqs lease_def eligible_def)
    with all show ?thesis by (auto simp: eqs intro!: js_all_set)
  qed
qed

lemma fail_budget:
  "js_all within_budget (qb_jobs b) \<Longrightarrow> js_all within_budget (qb_jobs (fail q jid err r b))"
  by (auto simp: fail_def record_failure_def within_budget_def Let_def dest: js_allD
      intro!: js_all_set split: option.splits)

lemma complete_budget:
  "js_all within_budget (qb_jobs b) \<Longrightarrow> js_all within_budget (qb_jobs (complete q jid b))"
  by (auto simp: complete_def within_budget_def dest: js_allD intro!: js_all_set
      split: option.splits)

lemma recover_budget:
  "js_all within_budget (qb_jobs b) \<Longrightarrow>
   js_all within_budget (qb_jobs (snd (recoverUnacknowledged q b)))"
  by (auto simp: recoverUnacknowledged_def within_budget_def Let_def recover_job_def
      elim!: js_all_mapv)

lemma queue_apply_budget:
  assumes "budget_inv b" "\<not> is_retry op"
  shows "budget_inv (queue_apply reg op b)"
  using assms queue_apply_inv [of b reg op]
  by (cases op) (auto simp: budget_inv_def is_retry_def enqueue_budget dequeue_budget fail_budget
      complete_budget recover_budget advanceTime_def queue_close_def)

lemma queue_run_budget:
  "budget_inv b \<Longrightarrow> \<forall>op \<in> set ops. \<not> is_retry op \<Longrightarrow> budget_inv (queue_run reg ops b)"
  by (rule queue_run_keeps [where P = budget_inv]) (auto intro: queue_apply_budget)

section \<open>Leases are exclusive\<close>

text \<open>The operations that can put a leased job back into play: its own failure, a recovery sweep,
  and an enqueue that names its id.\<close>

definition may_release :: "string \<Rightarrow> 'p queue_op \<Rightarrow> bool" where
  "may_release jid op = (case op of
     OpFail _ i _ _ \<Rightarrow> i = jid
   | OpRecover _ \<Rightarrow> True
   | OpEnqueue i _ _ opts \<Rightarrow> (case eo_jobId opts of None \<Rightarrow> i = jid | Some i' \<Rightarrow> i' = jid)
   | _ \<Rightarrow> False)"

definition held :: "string \<Rightarrow> 'p backend \<Rightarrow> bool" where
  "held jid b \<longleftrightarrow> queue_inv b \<and>
     (\<forall>j. js_get (qb_jobs b) jid = Some j \<longrightarrow> j_status j = Processing \<or> j_status j = Completed)"

lemma held_dequeue_other:
  assumes held: "held jid b" and deq: "dequeue q ttl b = (Some j', b')"
  shows "j_id j' \<noteq> jid \<and> held jid b'"
  using deq
proof (rule dequeue_Some)
  fix j assume j: "j \<in> set (js_values (qb_jobs b))" "eligible q (qb_virtualTime b) j"
    and eqs: "j' = lease (qb_virtualTime b) ttl j" "b' = b\<lparr>qb_jobs := js_set (j_id j) j' (qb_jobs b)\<rparr>"
  have "js_wf (qb_jobs b)" using held by (simp add: held_def queue_inv_wf)
  with j(1) obtain k where k: "js_get (qb_jobs b) k = Some j" by (rule js_valuesE)
  with held have "k = j_id j" by (auto simp: held_def queue_inv_def job_ok_def dest: js_allD)
  with k held j(2) have "j_id j \<noteq> jid" by (auto simp: held_def eligible_def)
  moreover have "queue_inv b'" using dequeue_inv [of b q ttl] held deq by (simp add: held_def)
  ultimately show ?thesis using held by (auto simp: eqs held_def lease_def)
qed

lemma held_complete: "held jid b \<Longrightarrow> held jid (complete q i b)"
  using complete_inv [of b q i]
  by (auto simp: held_def complete_def split: option.splits if_splits)

lemma held_fail: "held jid b \<Longrightarrow> i \<noteq> jid \<Longrightarrow> held jid (fail q i e r b)"
  using fail_inv [of b q i e r]
  by (auto simp: held_def fail_def Let_def split: option.splits if_splits)

lemma held_retry: "held jid b \<Longrightarrow> held jid (snd (retryJob q i b))"
  using retry_inv [of b q i]
  by (auto simp: held_def retryJob_def Let_def retryable_def retry_one_def split: if_splits)

lemma held_enqueue:
  assumes held: "held jid b" and id: "\<not> may_release jid (OpEnqueue i q p opts)"
  shows "held jid (snd (enqueue reg (\<lambda>_ _. i) q p opts b))"
proof -
  have inv: "queue_inv (snd (enqueue reg (\<lambda>_ _. i) q p opts b))"
    using held by (simp add: held_def enqueue_inv)
  show ?thesis
    using inv held id
    by (auto simp: held_def enqueue_def Let_def may_release_def split: option.splits prod.splits)
qed

lemma held_apply:
  assumes "held jid b" "\<not> may_release jid op"
  shows "held jid (queue_apply reg op b)"
proof (cases op)
  case (OpDequeue q ttl)
  then show ?thesis
    using assms(1) held_dequeue_other [of jid b q ttl] dequeue_NoneD [of q ttl b]
    by (cases "dequeue q ttl b"; cases "fst (dequeue q ttl b)") auto
next
  case (OpAdvance ms)
  then show ?thesis using assms(1) by (auto simp: held_def advanceTime_def)
next
  case OpClose
  then show ?thesis by (simp add: held_def queue_close_def queue_inv_def)
qed (use assms in \<open>auto simp: may_release_def held_complete held_fail held_retry held_enqueue
       intro: held_enqueue [unfolded may_release_def]\<close>)

lemma held_run:
  "held jid b \<Longrightarrow> \<forall>op \<in> set ops. \<not> may_release jid op \<Longrightarrow> held jid (queue_run reg ops b)"
  by (rule queue_run_keeps [where P = "held jid"]) (auto intro: held_apply)

lemma dequeue_held:
  assumes inv: "queue_inv b" and deq: "dequeue q ttl b = (Some j, b')"
  shows "held (j_id j) b'"
  using deq
proof (rule dequeue_Some)
  fix j0 assume "j = lease (qb_virtualTime b) ttl j0"
    "b' = b\<lparr>qb_jobs := js_set (j_id j0) j (qb_jobs b)\<rparr>"
  then show ?thesis
    using dequeue_inv [OF inv, of q ttl] deq by (auto simp: held_def lease_def)
qed

section \<open>Draining\<close>

lemma ready_queue_dequeues:
  assumes "q \<in> set (ready_queues b)"
  shows "\<exists>j b'. dequeue q ttl b = (Some j, b')"
  using assms by (auto simp: ready_queues_def dequeue_def Let_def eligible_def filter_empty_conv)

lemma try_queues_False:
  "try_queues exec qs b = (False, b') \<Longrightarrow> b' = b \<and> (\<forall>q \<in> set qs. fst (dequeue q 30000 b) = None)"
proof (induction qs arbitrary: b)
  case (Cons q qs)
  then show ?case
    by (cases "dequeue q 30000 b"; cases "fst (dequeue q 30000 b)")
       (auto simp: dequeue_None fst_dequeue_None split: prod.splits option.splits)
qed simp

lemma drain_loop_idle:
  assumes "drain_loop ex None h k n b = Inr (n', b')" "n' < n + k"
  shows "ready_queues b' = []"
  using assms
proof (induction ex "None :: string option" h k n b rule: drain_loop.induct)
  case (2 ex h steps n b)
  from 2(2) obtain st b1 where step: "queue_step ex None h b = Inr (st, b1)"
    by (auto split: sum.splits)
  show ?case
  proof (cases st)
    case True
    with 2 step show ?thesis by auto
  next
    case False
    with step obtain exec where "try_queues exec (ready_queues b) b = (False, b1)"
      by (auto simp: queue_step_def truthy_def split: option.splits)
    then have "b1 = b \<and> (\<forall>q \<in> set (ready_queues b). fst (dequeue q 30000 b) = None)"
      by (rule try_queues_False)
    moreover have "ready_queues b = []"
    proof (rule ccontr)
      assume "ready_queues b \<noteq> []"
      then have "hd (ready_queues b) \<in> set (ready_queues b)" by simp
      with calculation ready_queue_dequeues [of "hd (ready_queues b)" b 30000]
      show False by fastforce
    qed
    ultimately show ?thesis using 2(2) step False by simp
  qed
qed simp

section \<open>Properties\<close>

text \<open>In every state a fresh backend can reach, a stored job sits under its own id, and it
  holds a lease exactly while it is being processed, after at least one attempt.\<close>

theorem lease_iff_processing:
  assumes "js_get (qb_jobs (queue_run reg ops (new_backend t))) k = Some j"
  shows "k = j_id j \<and> (j_status j = Processing \<longleftrightarrow> j_leaseExpiresAt j \<noteq> None) \<and>
    (j_status j = Processing \<longrightarrow> 1 \<le> j_attempts j)"
proof -
  have "queue_inv (queue_run reg ops (new_backend t))" by (rule queue_run_inv) simp
  then have "job_ok k j" using assms by (auto simp: queue_inv_def dest: js_allD)
  then show ?thesis by (auto simp: job_ok_def)
qed

definition demo_backend :: "nat queue_op list \<Rightarrow> nat backend" where
  "demo_backend ops = queue_run ([] :: nat handler_registry) ops (new_backend 0)"

definition demo_ops :: "nat queue_op list" where
  "demo_ops = [OpEnqueue ''a'' ''mail'' 7 no_options, OpDequeue ''mail'' 30000]"

lemma demo_state:
  "\<exists>j. js_get (qb_jobs (demo_backend demo_ops)) ''a'' = Some j
     \<and> j_attempts j = 1 \<and> j_status j = Processing"
  by (simp add: demo_backend_def demo_ops_def enqueue_def dequeue_def new_backend_def Let_def getForQueue_def
      no_options_def eligible_def lease_def)

lemma lease_iff_processing_witness:
  "\<exists>j. js_get (qb_jobs (demo_backend demo_ops)) ''a'' = Some j
     \<and> j_leaseExpiresAt j \<noteq> None"
proof -
  obtain j where "js_get (qb_jobs (demo_backend demo_ops))
      ''a'' = Some j" "j_status j = Processing"
    using demo_state by blast
  with lease_iff_processing [of "[] :: nat handler_registry" demo_ops 0 "''a''" j] demo_backend_def [of demo_ops] show ?thesis by auto
qed

text \<open>Without a manual retry, no job is attempted more often than its retry limit allows
  (a limit below one still allows the first attempt), in any order of calls.\<close>

theorem attempts_within_limit:
  assumes "\<forall>op \<in> set ops. \<not> is_retry op"
    and "js_get (qb_jobs (queue_run reg ops (new_backend t))) k = Some j"
  shows "j_attempts j \<le> max 1 (j_maxRetries j)"
proof -
  have "budget_inv (new_backend t :: 'a backend)"
    by (simp add: budget_inv_def) (simp add: new_backend_def)
  then have "budget_inv (queue_run reg ops (new_backend t))"
    using assms(1) by (rule queue_run_budget)
  with assms(2) show ?thesis by (auto simp: budget_inv_def within_budget_def dest: js_allD)
qed

lemma attempts_within_limit_witness:
  "\<exists>j. js_get (qb_jobs (demo_backend demo_ops)) ''a'' = Some j
     \<and> 1 \<le> max 1 (j_maxRetries j)"
proof -
  obtain j where j: "js_get (qb_jobs (demo_backend demo_ops))
      ''a'' = Some j" "j_attempts j = 1"
    using demo_state by blast
  have "\<forall>op \<in> set demo_ops. \<not> is_retry op" by (simp add: demo_ops_def is_retry_def)
  from attempts_within_limit [OF this j(1) [unfolded demo_backend_def]] j show ?thesis by auto
qed

definition tied :: "'p job \<Rightarrow> 'p job \<Rightarrow> bool" where
  "tied i j \<longleftrightarrow> job_before i j \<and> job_before j i"

lemma hd_filter_tied:
  assumes ne: "es \<noteq> []" and best: "\<And>i. i \<in> set es \<Longrightarrow> job_before (hd (sort_by job_before es)) i"
  shows "hd (filter (tied (hd (sort_by job_before es))) es) = hd (sort_by job_before es)"
proof -
  obtain z zs where zs: "sort_by job_before es = z # zs"
    using ne by (cases "sort_by job_before es") (metis sort_by_eq_Nil, blast)
  have "set (sort_by job_before es) = set es" by (rule set_sort_by)
  with zs best have "job_before z z" by auto
  then have "tied z z" by (simp add: tied_def)
  moreover have "filter (tied z) (sort_by job_before es) = filter (tied z) es"
    by (rule sort_by_stable) (auto simp: tied_def intro: job_before_trans)
  ultimately show ?thesis using zs by (metis filter.simps(2) list.sel(1))
qed

text \<open>A dequeue leases a due pending job of the queue that no other due job beats (priority,
  then availability, then age), and among equals the one stored first.\<close>

theorem dequeue_leases_best:
  assumes "dequeue q ttl b = (Some j', b')"
  shows "\<exists>j. j' = lease (qb_virtualTime b) ttl j \<and> eligible q (qb_virtualTime b) j \<and>
    (\<forall>i \<in> set (js_values (qb_jobs b)). eligible q (qb_virtualTime b) i \<longrightarrow> job_before j i) \<and>
    j = hd (filter (tied j) (filter (eligible q (qb_virtualTime b)) (js_values (qb_jobs b))))"
proof -
  define es where "es = filter (eligible q (qb_virtualTime b)) (js_values (qb_jobs b))"
  have ne: "es \<noteq> []" and j': "j' = lease (qb_virtualTime b) ttl (hd (sort_by job_before es))"
    using assms by (auto simp: dequeue_def Let_def es_def split: if_splits)
  have best: "job_before (hd (sort_by job_before es)) i" if "i \<in> set es" for i
    by (rule hd_sort_by_least [OF job_before_total _ that]) (rule job_before_trans)
  have "hd (sort_by job_before es) \<in> set (sort_by job_before es)"
    using ne by (intro hd_in_set) simp
  then have elem: "hd (sort_by job_before es) \<in> set es" by simp
  have "hd (filter (tied (hd (sort_by job_before es))) es) = hd (sort_by job_before es)"
    using best by (rule hd_filter_tied [OF ne])
  moreover have "eligible q (qb_virtualTime b) (hd (sort_by job_before es))"
    using elem by (simp add: es_def)
  moreover have "\<forall>i \<in> set (js_values (qb_jobs b)). eligible q (qb_virtualTime b) i \<longrightarrow>
      job_before (hd (sort_by job_before es)) i"
    using best by (simp add: es_def)
  ultimately show ?thesis unfolding es_def [symmetric] using j' by metis
qed

lemma dequeue_leases_best_witness:
  "\<exists>j j' b'. dequeue ''mail'' 30000 (demo_backend [OpEnqueue ''a'' ''mail'' 7 no_options]) = (Some j', b')
     \<and> eligible ''mail'' 0 j \<and> j' = lease 0 30000 j"
proof -
  let ?b = "demo_backend [OpEnqueue ''a'' ''mail'' 7 no_options]"
  have "fst (dequeue ''mail'' 30000 ?b) \<noteq> None" and t: "qb_virtualTime ?b = 0"
    by (simp_all add: demo_backend_def enqueue_def fst_dequeue_None new_backend_def Let_def
        getForQueue_def no_options_def eligible_def)
  then obtain j' b' where d: "dequeue ''mail'' 30000 ?b = (Some j', b')"
    by (cases "dequeue ''mail'' 30000 ?b") auto
  from dequeue_leases_best [OF d] t d show ?thesis by auto
qed

text \<open>C3: Once a job has been handed out, no sequence of calls hands it out again unless one of
  them fails that very job, sweeps expired leases, or enqueues under its id: two consumers
  never process one job at the same time.\<close>

theorem lease_is_exclusive:
  assumes "queue_inv b" and "dequeue q ttl b = (Some j, b1)"
    and "\<forall>op \<in> set ops. \<not> may_release (j_id j) op"
    and "dequeue q' ttl' (queue_run reg ops b1) = (Some j', b2)"
  shows "j_id j' \<noteq> j_id j"
  using held_dequeue_other [OF held_run [OF dequeue_held [OF assms(1,2)] assms(3)] assms(4)] by simp

definition demo_two :: "nat backend" where
  "demo_two = demo_backend
     [OpEnqueue ''a'' ''mail'' 7 no_options, OpEnqueue ''b'' ''mail'' 8 no_options]"

lemma demo_two_dequeues:
  "fst (dequeue ''mail'' 30000 demo_two) \<noteq> None \<and>
   fst (dequeue ''mail'' 5 (snd (dequeue ''mail'' 30000 demo_two))) \<noteq> None"
  by (simp add: demo_two_def demo_backend_def enqueue_def dequeue_def new_backend_def Let_def
      getForQueue_def no_options_def eligible_def lease_def job_before_def job_cmp_def)

lemma lease_is_exclusive_witness:
  "\<exists>j b1 j' b2. dequeue ''mail'' 30000 demo_two = (Some j, b1) \<and>
     dequeue ''mail'' 5 b1 = (Some j', b2) \<and> j_id j' \<noteq> j_id j"
proof -
  have inv: "queue_inv demo_two"
    unfolding demo_two_def demo_backend_def by (rule queue_run_inv) simp
  obtain j b1 j' b2 where j: "dequeue ''mail'' 30000 demo_two = (Some j, b1)"
    and j': "dequeue ''mail'' 5 b1 = (Some j', b2)"
    using demo_two_dequeues
    by (cases "dequeue ''mail'' 30000 demo_two";
        cases "dequeue ''mail'' 5 (snd (dequeue ''mail'' 30000 demo_two))") auto
  have "j_id j' \<noteq> j_id j"
    by (rule lease_is_exclusive [OF inv j, of "[]" "''mail''" 5 "[] :: nat handler_registry" j' b2])
       (simp_all add: j')
  with j j' show ?thesis by (intro exI conjI)
qed

text \<open>A failure report looks only at the attempts left, not at the status or at who holds the
  lease: a late failure of an already completed job makes it pending, so the job runs again.\<close>

theorem late_failure_requeues_completed:
  assumes "js_get (qb_jobs b) jid = Some j" "j_queueName j = q" "j_attempts j < j_maxRetries j"
  shows "\<exists>j'. js_get (qb_jobs (fail q jid err r (complete q jid b))) jid = Some j' \<and>
    j_status j' = Pending \<and> j_completedAt j' \<noteq> None \<and>
    j_availableAt j' = qb_virtualTime b + backoff_of r j"
  using assms by (auto simp: complete_def fail_def Let_def record_failure_def backoff_of_def
      split: option.splits)

lemma late_failure_requeues_completed_witness:
  "\<exists>j'. js_get (qb_jobs (fail ''mail'' ''a'' (JsOther ''late'') (Some 0) (complete ''mail'' ''a''
     (demo_backend demo_ops)))) ''a'' = Some j' \<and>
     j_status j' = Pending"
proof -
  have "\<exists>j. js_get (qb_jobs (demo_backend demo_ops)) ''a''
      = Some j \<and> j_queueName j = ''mail'' \<and> j_attempts j < j_maxRetries j"
    by (simp add: demo_backend_def demo_ops_def enqueue_def dequeue_def new_backend_def Let_def getForQueue_def
        no_options_def eligible_def lease_def)
  then show ?thesis using late_failure_requeues_completed by blast
qed

text \<open>A failed job with attempts left waits the exponential backoff, capped at a minute, and
  never less than its base delay or the cap, before it is due again.\<close>

theorem failure_backoff:
  assumes "js_get (qb_jobs b) jid = Some j" "j_queueName j = q"
    and "1 \<le> j_attempts j" "j_attempts j < j_maxRetries j" "0 \<le> j_backoffMs j"
  shows "\<exists>j'. js_get (qb_jobs (fail q jid err None b)) jid = Some j' \<and> j_status j' = Pending \<and>
    j_availableAt j' = qb_virtualTime b + min (j_backoffMs j * 2 ^ nat (j_attempts j - 1)) 60000 \<and>
    j_availableAt j' - qb_virtualTime b \<le> 60000 \<and>
    min (j_backoffMs j) 60000 \<le> j_availableAt j' - qb_virtualTime b"
proof -
  have "j_backoffMs j \<le> j_backoffMs j * 2 ^ nat (j_attempts j - 1)"
    using assms(5) by (simp add: mult_le_cancel_left1)
  then show ?thesis
    using assms by (auto simp: fail_def Let_def record_failure_def backoff_of_def js_pow2_def)
qed

lemma failure_backoff_witness:
  "\<exists>j'. js_get (qb_jobs (fail ''mail'' ''a'' (JsOther ''x'') None
     (demo_backend demo_ops))) ''a'' = Some j' \<and>
     j_availableAt j' \<le> 60000"
proof -
  let ?b = "demo_backend demo_ops"
  have t: "qb_virtualTime ?b = 0" and "\<exists>j. js_get (qb_jobs ?b) ''a'' = Some j \<and>
      j_queueName j = ''mail'' \<and> 1 \<le> j_attempts j \<and> j_attempts j < j_maxRetries j \<and> 0 \<le> j_backoffMs j"
    by (simp_all add: demo_backend_def demo_ops_def enqueue_def dequeue_def new_backend_def Let_def getForQueue_def
        no_options_def eligible_def lease_def)
  then show ?thesis using failure_backoff [of ?b "''a''" _ "''mail''" "JsOther ''x''"] by fastforce
qed

text \<open>A drain over all queues that stops before its step limit leaves no due pending job.\<close>

theorem drain_empties_ready_queues:
  assumes "drain executor None maxSteps handler b = Inr (n, b')" "n < maxSteps"
  shows "ready_queues b' = []"
  using drain_loop_idle [of executor handler maxSteps 0 b n b'] assms by (simp add: drain_def)

lemma drain_empties_ready_queues_witness:
  "\<exists>b'. drain None None 10 (Some (\<lambda>j s. (None, s)))
      (demo_backend [OpEnqueue ''a'' ''mail'' 7 no_options])
      = Inr (1, b') \<and> ready_queues b' = []"
proof -
  let ?b = "demo_backend [OpEnqueue ''a'' ''mail'' 7 no_options]"
  have "\<exists>b'. drain None None 10 (Some (\<lambda>j s. (None, s))) ?b = Inr (1, b')"
    by (simp add: demo_backend_def drain_def numeral_eq_Suc queue_step_def truthy_def ready_queues_def js_uniq_def
        set_add_def enqueue_def dequeue_def complete_def new_backend_def Let_def getForQueue_def
        no_options_def eligible_def lease_def)
  then show ?thesis using drain_empties_ready_queues [of None 10 _ ?b 1] by fastforce
qed

end
