(* ===== verification/Worker.thy ===== *)
theory Worker
  imports Queues
begin

text \<open>
  The queue worker (packages/di-framework-queues/src/worker.ts) and the handler choice of
  \<^verbatim>\<open>ContainerQueueDispatcher\<close> (packages/di-framework-queues/src/dispatcher.ts).

  The worker only calls its backend through the interface of
  packages/di-framework-queues/src/backend/contract.ts, so the sequential part
  (\<^verbatim>\<open>executeJob\<close>, \<^verbatim>\<open>processNext\<close>, \<^verbatim>\<open>pump\<close>) is written over a record of operations, and what it
  needs of a backend is the locale \<open>queue_backend\<close>, interpreted on the in-memory backend.
  The polling loop interleaves at its awaits and is a step relation.
\<close>

section \<open>The backend interface\<close>

record ('s, 'p) queue_ops =
  be_dequeue :: "string \<Rightarrow> rat \<Rightarrow> 's \<Rightarrow> (thrown, 'p job option) result \<times> 's"
  be_complete :: "string \<Rightarrow> string \<Rightarrow> 's \<Rightarrow> (thrown, unit) result \<times> 's"
  be_fail :: "string \<Rightarrow> string \<Rightarrow> thrown \<Rightarrow> 's \<Rightarrow> (thrown, unit) result \<times> 's"
  be_recover :: "string option \<Rightarrow> rat \<Rightarrow> 's \<Rightarrow> (thrown, nat) result \<times> 's"

type_synonym ('s, 'p) dispatcher = "string \<Rightarrow> 'p job \<Rightarrow> 's \<Rightarrow> (thrown, unit) result \<times> 's"

definition memory_ops :: "('p backend, 'p) queue_ops" where
  "memory_ops =
     \<lparr>be_dequeue = (\<lambda>q ttl b. let (r, b') = dequeue q ttl b in (Inr r, b')),
      be_complete = (\<lambda>q jid b. (Inr (), complete q jid b)),
      be_fail = (\<lambda>q jid err b. (Inr (), fail q jid err None b)),
      be_recover = (\<lambda>q ttl b. let (n, b') = recoverUnacknowledged q b in (Inr n, b'))\<rparr>"

section \<open>Running one job\<close>

definition executeJob :: "('s, 'p) queue_ops \<Rightarrow> ('s, 'p) dispatcher \<Rightarrow> string \<Rightarrow> 'p job \<Rightarrow> 's \<Rightarrow>
    (thrown, unit) result \<times> 's" where
  "executeJob ops dispatch q j s =
     (case dispatch q j s of
        (Inl err, s1) \<Rightarrow> be_fail ops q (j_id j) err s1
      | (Inr _, s1) \<Rightarrow>
          (case be_complete ops q (j_id j) s1 of
             (Inl err, s2) \<Rightarrow> be_fail ops q (j_id j) err s2
           | (Inr _, s2) \<Rightarrow> (Inr (), s2)))"

definition processNext :: "('s, 'p) queue_ops \<Rightarrow> ('s, 'p) dispatcher \<Rightarrow> rat \<Rightarrow> string \<Rightarrow> 's \<Rightarrow>
    (thrown, bool) result \<times> 's" where
  "processNext ops dispatch ttl q s =
     (case be_dequeue ops q ttl s of
        (Inl err, s1) \<Rightarrow> (Inl err, s1)
      | (Inr None, s1) \<Rightarrow> (Inr False, s1)
      | (Inr (Some j), s1) \<Rightarrow>
          (case executeJob ops dispatch q j s1 of
             (Inl err, s2) \<Rightarrow> (Inl err, s2)
           | (Inr _, s2) \<Rightarrow> (Inr True, s2)))"

text \<open>The inner loop of \<^verbatim>\<open>pump\<close> over one queue; \<open>k\<close> is \<^verbatim>\<open>maxJobsPerQueue - i\<close>.\<close>

fun pump_queue :: "('s, 'p) queue_ops \<Rightarrow> ('s, 'p) dispatcher \<Rightarrow> rat \<Rightarrow> string \<Rightarrow> nat \<Rightarrow> nat \<Rightarrow> 's \<Rightarrow>
    (thrown, nat) result \<times> 's" where
  "pump_queue ops dispatch ttl q 0 n s = (Inr n, s)"
| "pump_queue ops dispatch ttl q (Suc k) n s =
     (case processNext ops dispatch ttl q s of
        (Inl err, s1) \<Rightarrow> (Inl err, s1)
      | (Inr handled, s1) \<Rightarrow>
          if handled then pump_queue ops dispatch ttl q k (n + 1) s1 else (Inr n, s1))"

fun pump_queues :: "('s, 'p) queue_ops \<Rightarrow> ('s, 'p) dispatcher \<Rightarrow> rat \<Rightarrow> nat \<Rightarrow> string list \<Rightarrow> nat \<Rightarrow> 's \<Rightarrow>
    (thrown, nat) result \<times> 's" where
  "pump_queues ops dispatch ttl k [] n s = (Inr n, s)"
| "pump_queues ops dispatch ttl k (q # qs) n s =
     (case pump_queue ops dispatch ttl q k n s of
        (Inl err, s1) \<Rightarrow> (Inl err, s1)
      | (Inr n1, s1) \<Rightarrow> pump_queues ops dispatch ttl k qs n1 s1)"

definition registerAllDeclaredQueues :: "'t handler_registry \<Rightarrow> string list \<Rightarrow> string list" where
  "registerAllDeclaredQueues reg qs =
     foldl (\<lambda>acc h. set_add (hm_queueName h) acc) qs (registry_getAll reg)"

text \<open>The result, the worker's queue set and the backend; a failing recovery is ignored.\<close>

definition pump :: "('s, 'p) queue_ops \<Rightarrow> ('s, 'p) dispatcher \<Rightarrow> rat \<Rightarrow> 't handler_registry \<Rightarrow>
    nat \<Rightarrow> string list \<Rightarrow> 's \<Rightarrow> (thrown, nat) result \<times> string list \<times> 's" where
  "pump ops dispatch ttl reg maxJobsPerQueue qs s =
     (let qs' = (if qs = [] then registerAllDeclaredQueues reg qs else qs);
          (_, s1) = be_recover ops None ttl s;
          (r, s2) = pump_queues ops dispatch ttl maxJobsPerQueue qs' 0 s1
      in (r, qs', s2))"

section \<open>Dispatching a job\<close>

text \<open>
  The container is seen through its calls: \<open>cr_has\<close> answers for a target class or its name and
  is constantly false when the container has no \<^verbatim>\<open>has\<close>; \<open>cr_register\<close> is absent when it
  has no \<^verbatim>\<open>register\<close>, and then the class is constructed directly.
\<close>

record ('c, 't, 'i) container_ops =
  cr_has :: "'t \<Rightarrow> bool"
  cr_resolveClass :: "'t \<Rightarrow> 'c \<Rightarrow> (thrown, 'i) result \<times> 'c"
  cr_resolveName :: "'t \<Rightarrow> 'c \<Rightarrow> (thrown, 'i) result \<times> 'c"
  cr_register :: "('t \<Rightarrow> 'c \<Rightarrow> 'c) option"
  cr_new :: "'t \<Rightarrow> (thrown, 'i) result"

definition registerHandler :: "string \<Rightarrow> 't \<Rightarrow> string \<Rightarrow> handler_options \<Rightarrow>
    (string, 't handler_meta) jsmap \<Rightarrow> (string, 't handler_meta) jsmap" where
  "registerHandler q tgt meth opts custom =
     js_set q \<lparr>hm_queueName = q, hm_methodName = meth, hm_target = tgt, hm_options = opts\<rparr> custom"

definition select_handler :: "('t \<Rightarrow> bool) \<Rightarrow> (string, 't handler_meta) jsmap \<Rightarrow>
    't handler_registry \<Rightarrow> string \<Rightarrow> 't handler_meta option" where
  "select_handler has custom reg q =
     (case js_get custom q of
        Some h \<Rightarrow> Some h
      | None \<Rightarrow>
          (let registered = getForQueue reg q
           in if length registered = 1 then Some (hd registered)
              else if 1 < length registered then
                (case List.find (\<lambda>h. has (hm_target h)) registered of
                   Some h \<Rightarrow> Some h
                 | None \<Rightarrow> Some (last registered))
              else None))"

definition resolve_instance :: "('c, 't, 'i) container_ops \<Rightarrow> 't \<Rightarrow> 'c \<Rightarrow> (thrown, 'i) result \<times> 'c" where
  "resolve_instance cr tgt c =
     (case cr_resolveClass cr tgt c of
        (Inr i, c1) \<Rightarrow> (Inr i, c1)
      | (Inl _, c1) \<Rightarrow>
          (case cr_resolveName cr tgt c1 of
             (Inr i, c2) \<Rightarrow> (Inr i, c2)
           | (Inl _, c2) \<Rightarrow>
               (case cr_register cr of
                  Some reg \<Rightarrow> cr_resolveClass cr tgt (reg tgt c2)
                | None \<Rightarrow> (cr_new cr tgt, c2))))"

record job_metadata =
  jm_jobId :: string
  jm_queueName :: string
  jm_attempts :: int
  jm_maxRetries :: int
  jm_enqueuedAt :: rat
  jm_idempotencyKey :: "string option"

definition job_meta :: "'p job \<Rightarrow> job_metadata" where
  "job_meta j = \<lparr>jm_jobId = j_id j, jm_queueName = j_queueName j, jm_attempts = j_attempts j,
     jm_maxRetries = j_maxRetries j, jm_enqueuedAt = j_enqueuedAt j,
     jm_idempotencyKey = j_idempotencyKey j\<rparr>"

text \<open>
  A method call settles after some time, or never, with a result; \<^verbatim>\<open>Promise.race\<close> lets the
  timer win when it fires no later.  \<open>methods i m\<close> is \<open>None\<close> when the instance is falsy or
  has no such method.
\<close>

type_synonym 'r execution = "rat option \<times> (thrown, 'r) result"

datatype dispatch_error =
    NoHandlerRegistered string
  | NoSuchMethod string string
  | JobTimedOut string rat
  | Raised thrown

definition race_timeout :: "string \<Rightarrow> rat \<Rightarrow> 'r execution \<Rightarrow> (dispatch_error, 'r) result" where
  "race_timeout jid timeoutMs ex =
     (case ex of
        (None, _) \<Rightarrow> Inl (JobTimedOut jid timeoutMs)
      | (Some t, r) \<Rightarrow> if t < timeoutMs then map_sum Raised id r
                       else Inl (JobTimedOut jid timeoutMs))"

definition dispatch_job :: "('c, 't, 'i) container_ops \<Rightarrow>
    ('i \<Rightarrow> string \<Rightarrow> ('p \<Rightarrow> job_metadata \<Rightarrow> 'r execution) option) \<Rightarrow>
    (string, 't handler_meta) jsmap \<Rightarrow> 't handler_registry \<Rightarrow> string \<Rightarrow> 'p job \<Rightarrow> 'c \<Rightarrow>
    (dispatch_error, 'r) result \<times> 'c" where
  "dispatch_job cr methods custom reg q j c =
     (case select_handler (cr_has cr) custom reg q of
        None \<Rightarrow> (Inl (NoHandlerRegistered q), c)
      | Some h \<Rightarrow>
          (case resolve_instance cr (hm_target h) c of
             (Inl e, c1) \<Rightarrow> (Inl (Raised e), c1)
           | (Inr i, c1) \<Rightarrow>
               (case methods i (hm_methodName h) of
                  None \<Rightarrow> (Inl (NoSuchMethod q (hm_methodName h)), c1)
                | Some f \<Rightarrow>
                    (race_timeout (j_id j) (j_timeoutMs j) (f (j_payload j) (job_meta j)), c1))))"

section \<open>What the worker needs of a backend\<close>

text \<open>
  A dispatcher is \<open>harmless\<close> when it leaves the invariant and the stored job alone.
  \<open>inv\<close> is the backend's own invariant, \<open>look s jid\<close> the stored job.  A dequeue leases a job of
  the queue asked for; completing or failing a stored job of that queue settles it; each
  operation keeps the invariant.
\<close>

definition harmless :: "('s \<Rightarrow> bool) \<Rightarrow> ('s \<Rightarrow> string \<Rightarrow> 'p job option) \<Rightarrow> ('s, 'p) dispatcher \<Rightarrow> bool" where
  "harmless I lk dispatch \<longleftrightarrow> (\<forall>q j s. I s \<longrightarrow>
     I (snd (dispatch q j s)) \<and> lk (snd (dispatch q j s)) (j_id j) = lk s (j_id j))"

locale queue_backend =
  fixes ops :: "('s, 'p) queue_ops"
    and look :: "'s \<Rightarrow> string \<Rightarrow> 'p job option"
    and inv :: "'s \<Rightarrow> bool"
  assumes dequeue_job:
      "inv s \<Longrightarrow> be_dequeue ops q ttl s = (Inr (Some j), s') \<Longrightarrow>
       look s' (j_id j) = Some j \<and> j_queueName j = q \<and> j_status j = Processing"
    and complete_settles:
      "inv s \<Longrightarrow> look s jid = Some j \<Longrightarrow> j_queueName j = q \<Longrightarrow>
       be_complete ops q jid s = (Inr (), s') \<Longrightarrow>
       \<exists>j'. look s' jid = Some j' \<and> j_status j' = Completed"
    and fail_settles:
      "inv s \<Longrightarrow> look s jid = Some j \<Longrightarrow> j_queueName j = q \<Longrightarrow>
       be_fail ops q jid err s = (Inr (), s') \<Longrightarrow>
       \<exists>j'. look s' jid = Some j' \<and> j_status j' \<in> {Pending, DeadLetter}"
    and complete_atomic: "be_complete ops q jid s = (Inl err, s') \<Longrightarrow> s' = s"
    and dequeue_keeps: "inv s \<Longrightarrow> inv (snd (be_dequeue ops q ttl s))"
    and complete_keeps: "inv s \<Longrightarrow> inv (snd (be_complete ops q jid s))"
    and fail_keeps: "inv s \<Longrightarrow> inv (snd (be_fail ops q jid err s))"
    and recover_keeps: "inv s \<Longrightarrow> inv (snd (be_recover ops qo ttl s))"
begin

lemma executeJob_settles:
  assumes inv: "inv s" and job: "look s (j_id j) = Some j" "j_queueName j = q"
    and disp: "harmless inv look dispatch"
    and run: "executeJob ops dispatch q j s = (Inr (), s')"
  shows "\<exists>j'. look s' (j_id j) = Some j' \<and> j_status j' \<noteq> Processing"
proof -
  obtain r s1 where d: "dispatch q j s = (r, s1)" by fastforce
  with disp inv job have s1: "inv s1" "look s1 (j_id j) = Some j"
    by (metis harmless_def snd_conv)+
  show ?thesis
  proof (cases r)
    case (Inl err)
    with run d have "be_fail ops q (j_id j) err s1 = (Inr (), s')" by (simp add: executeJob_def)
    from fail_settles [OF s1 job(2) this] show ?thesis by auto
  next
    case (Inr u)
    obtain r2 s2 where c: "be_complete ops q (j_id j) s1 = (r2, s2)" by fastforce
    show ?thesis
    proof (cases r2)
      case (Inl err)
      with c have "s2 = s1" by (simp add: complete_atomic)
      with run d Inr c Inl have "be_fail ops q (j_id j) err s1 = (Inr (), s')"
        by (simp add: executeJob_def)
      from fail_settles [OF s1 job(2) this] show ?thesis by auto
    next
      case (Inr u)
      with run d \<open>r = Inr _\<close> c have "be_complete ops q (j_id j) s1 = (Inr (), s')"
        by (simp add: executeJob_def)
      from complete_settles [OF s1 job(2) this] show ?thesis by auto
    qed
  qed
qed

lemma processNext_settles:
  assumes "inv s" "harmless inv look dispatch" "processNext ops dispatch ttl q s = (Inr True, s')"
  shows "\<exists>j j' s1. be_dequeue ops q ttl s = (Inr (Some j), s1) \<and> look s' (j_id j) = Some j' \<and>
    j_status j' \<noteq> Processing"
proof -
  from assms(3) obtain j s1 where deq: "be_dequeue ops q ttl s = (Inr (Some j), s1)"
    and run: "executeJob ops dispatch q j s1 = (Inr (), s')"
    by (auto simp: processNext_def split: prod.splits sum.splits option.splits)
  have "inv s1" using dequeue_keeps [OF assms(1), of q ttl] deq by simp
  moreover note dequeue_job [OF assms(1) deq]
  ultimately show ?thesis
    using executeJob_settles [OF _ _ _ assms(2) run] deq by metis
qed

lemma executeJob_keeps:
  "inv s \<Longrightarrow> harmless inv look dispatch \<Longrightarrow> inv (snd (executeJob ops dispatch q j s))"
  using complete_keeps [of "snd (dispatch q j s)" q "j_id j"]
    fail_keeps [of "snd (dispatch q j s)" q "j_id j"]
    fail_keeps [of "snd (be_complete ops q (j_id j) (snd (dispatch q j s)))" q "j_id j"]
  by (auto simp: executeJob_def harmless_def split: prod.splits sum.splits)

lemma processNext_keeps:
  "inv s \<Longrightarrow> harmless inv look dispatch \<Longrightarrow> inv (snd (processNext ops dispatch ttl q s))"
proof -
  assume inv: "inv s" and disp: "harmless inv look dispatch"
  obtain r s1 where d: "be_dequeue ops q ttl s = (r, s1)" by fastforce
  with dequeue_keeps [OF inv, of q ttl] have s1: "inv s1" by simp
  have "inv (snd (executeJob ops dispatch q j s1))" for j by (rule executeJob_keeps [OF s1 disp])
  with s1 show ?thesis
    by (auto simp: processNext_def d split: sum.splits option.splits prod.splits) (metis snd_conv)+
qed

lemma pump_queue_keeps:
  "inv s \<Longrightarrow> harmless inv look dispatch \<Longrightarrow> inv (snd (pump_queue ops dispatch ttl q k n s))"
proof (induction k arbitrary: n s)
  case (Suc k)
  then show ?case
    using processNext_keeps [of s dispatch ttl q]
    by (cases "processNext ops dispatch ttl q s") (auto split: sum.splits)
qed simp

lemma pump_queues_keeps:
  "inv s \<Longrightarrow> harmless inv look dispatch \<Longrightarrow> inv (snd (pump_queues ops dispatch ttl k qs n s))"
proof (induction qs arbitrary: n s)
  case (Cons q qs)
  then show ?case
    using pump_queue_keeps [of s dispatch ttl q k n]
    by (cases "pump_queue ops dispatch ttl q k n s") (auto split: sum.splits)
qed simp

lemma pump_keeps:
  "inv s \<Longrightarrow> harmless inv look dispatch \<Longrightarrow> inv (snd (snd (pump ops dispatch ttl reg k qs s)))"
  using recover_keeps [of s None ttl]
  by (simp add: pump_def Let_def case_prod_beta pump_queues_keeps)

end

lemma pump_queue_count:
  "pump_queue ops dispatch ttl q k n s = (Inr n', s') \<Longrightarrow> n \<le> n' \<and> n' \<le> n + k"
proof (induction k arbitrary: n s)
  case (Suc k)
  then obtain h s1 where p: "processNext ops dispatch ttl q s = (Inr h, s1)"
    by (auto split: prod.splits sum.splits)
  show ?case
  proof (cases h)
    case True
    with Suc.prems p have "pump_queue ops dispatch ttl q k (n + 1) s1 = (Inr n', s')" by simp
    from Suc.IH [OF this] show ?thesis by simp
  next
    case False
    with Suc.prems p show ?thesis by simp
  qed
qed simp

lemma pump_queues_count:
  "pump_queues ops dispatch ttl k qs n s = (Inr n', s') \<Longrightarrow> n \<le> n' \<and> n' \<le> n + k * length qs"
proof (induction qs arbitrary: n s)
  case (Cons q qs)
  then obtain n1 s1 where q: "pump_queue ops dispatch ttl q k n s = (Inr n1, s1)"
    and qs: "pump_queues ops dispatch ttl k qs n1 s1 = (Inr n', s')"
    by (auto split: prod.splits sum.splits)
  from pump_queue_count [OF q] Cons.IH [OF qs] show ?case by auto
qed simp

section \<open>The in-memory backend is such a backend\<close>

lemma memory_ops_simps [simp]:
  "be_dequeue memory_ops q ttl b = (Inr (fst (dequeue q ttl b)), snd (dequeue q ttl b))"
  "be_complete memory_ops q jid b = (Inr (), complete q jid b)"
  "be_fail memory_ops q jid err b = (Inr (), fail q jid err None b)"
  "be_recover memory_ops qo ttl b = (Inr (fst (recoverUnacknowledged qo b)), snd (recoverUnacknowledged qo b))"
  by (simp_all add: memory_ops_def split: prod.splits)

interpretation memory_queue: queue_backend memory_ops "\<lambda>b jid. js_get (qb_jobs b) jid" queue_inv
proof unfold_locales
  fix s s' :: "'a backend" and q ttl and j :: "'a job"
  assume "be_dequeue memory_ops q ttl s = (Inr (Some j), s')"
  then have "dequeue q ttl s = (Some j, s')" by (simp add: prod_eq_iff)
  then show "js_get (qb_jobs s') (j_id j) = Some j \<and> j_queueName j = q \<and> j_status j = Processing"
    by (rule dequeue_Some) (simp add: lease_def eligible_def)
next
  fix s s' :: "'a backend" and q jid and j :: "'a job"
  assume "js_get (qb_jobs s) jid = Some j" "j_queueName j = q"
    "be_complete memory_ops q jid s = (Inr (), s')"
  then show "\<exists>j'. js_get (qb_jobs s') jid = Some j' \<and> j_status j' = Completed"
    by (auto simp: complete_def)
next
  fix s s' :: "'a backend" and q jid err and j :: "'a job"
  assume "js_get (qb_jobs s) jid = Some j" "j_queueName j = q"
    "be_fail memory_ops q jid err s = (Inr (), s')"
  then show "\<exists>j'. js_get (qb_jobs s') jid = Some j' \<and> j_status j' \<in> {Pending, DeadLetter}"
    by (auto simp: fail_def Let_def)
qed (simp_all add: dequeue_inv complete_inv fail_inv recover_inv)

section \<open>The polling loop\<close>

text \<open>
  One queue's loop in \<^verbatim>\<open>startQueueLoop\<close>, as the event loop interleaves it: \<open>ls_active\<close> is its
  counter, \<open>ls_pollers\<close> counts the \<^verbatim>\<open>poll\<close> calls suspended at \<^verbatim>\<open>await dequeue\<close>, \<open>ls_timer\<close>
  says whether a poll timer is pending (setting one clears the one before).  Each rule runs the
  code from one await to the next.
\<close>

record loop_state =
  ls_running :: bool
  ls_active :: nat
  ls_pollers :: nat
  ls_timer :: bool

definition loop_start :: loop_state where
  "loop_start = \<lparr>ls_running = True, ls_active = 0, ls_pollers = 0, ls_timer = True\<rparr>"

text \<open>The head of the while loop, reached at the start of a poll and after each job taken: ask
  for a job, or leave the loop and schedule the next poll.\<close>

definition loop_head :: "nat \<Rightarrow> loop_state \<Rightarrow> loop_state" where
  "loop_head c s = (if ls_running s \<and> ls_active s < c
     then s\<lparr>ls_pollers := ls_pollers s + 1\<rparr>
     else if ls_running s then s\<lparr>ls_timer := True\<rparr> else s)"

inductive loop_step :: "nat \<Rightarrow> loop_state \<Rightarrow> loop_state \<Rightarrow> bool" for c where
  timer_fires: "ls_timer s \<Longrightarrow> ls_running s \<Longrightarrow> loop_step c s (loop_head c (s\<lparr>ls_timer := False\<rparr>))"
| got_job: "0 < ls_pollers s \<Longrightarrow>
    loop_step c s (loop_head c (s\<lparr>ls_pollers := ls_pollers s - 1, ls_active := ls_active s + 1\<rparr>))"
| got_nothing: "0 < ls_pollers s \<Longrightarrow>
    loop_step c s (s\<lparr>ls_pollers := ls_pollers s - 1, ls_timer := ls_timer s \<or> ls_running s\<rparr>)"
| job_done: "0 < ls_active s \<Longrightarrow>
    loop_step c s (s\<lparr>ls_active := ls_active s - 1, ls_timer := ls_timer s \<or> ls_running s\<rparr>)"
| stopped: "ls_running s \<Longrightarrow> loop_step c s (s\<lparr>ls_running := False, ls_timer := False\<rparr>)"

definition loop_reaches :: "nat \<Rightarrow> loop_state \<Rightarrow> bool" where
  "loop_reaches c s \<longleftrightarrow> (loop_step c)\<^sup>*\<^sup>* loop_start s"

lemma loop_reaches_start [simp]: "loop_reaches c loop_start"
  by (simp add: loop_reaches_def)

lemma loop_reaches_step: "loop_reaches c s \<Longrightarrow> loop_step c s s' \<Longrightarrow> loop_reaches c s'"
  by (auto simp: loop_reaches_def)

definition single_inv :: "loop_state \<Rightarrow> bool" where
  "single_inv s \<longleftrightarrow> ls_active s + ls_pollers s \<le> 1 \<and> (ls_timer s \<longrightarrow> ls_pollers s = 0)"

lemma single_inv_step: "loop_step 1 s s' \<Longrightarrow> single_inv s \<Longrightarrow> single_inv s'"
  by (induction rule: loop_step.induct) (auto simp: single_inv_def loop_head_def)

lemma single_inv_reaches: "loop_reaches 1 s \<Longrightarrow> single_inv s"
  unfolding loop_reaches_def
proof (induction rule: rtranclp_induct)
  case base
  show ?case by (simp add: single_inv_def loop_start_def)
next
  case (step s s')
  from step(2,3) show ?case by (rule single_inv_step)
qed

definition loop_running :: "nat \<Rightarrow> nat \<Rightarrow> bool \<Rightarrow> loop_state" where
  "loop_running a p t = \<lparr>ls_running = True, ls_active = a, ls_pollers = p, ls_timer = t\<rparr>"

lemma take_job:
  assumes "loop_reaches c (loop_running a (Suc p) t)"
  shows "loop_reaches c (if a + 1 < c then loop_running (a + 1) (Suc p) t else loop_running (a + 1) p True)"
  using loop_reaches_step [OF assms got_job] by (auto simp: loop_running_def loop_head_def)

text \<open>A job that finishes while a poll is suspended starts a second poll beside it.\<close>

lemma more_pollers:
  assumes "2 \<le> c"
  shows "\<exists>t. loop_reaches c (loop_running 0 (Suc p) t)"
proof (induction p)
  case 0
  show ?case
    using loop_reaches_step [OF loop_reaches_start timer_fires, of c] assms
    by (auto simp: loop_start_def loop_running_def loop_head_def intro!: exI [of _ False])
next
  case (Suc p)
  then obtain t where "loop_reaches c (loop_running 0 (Suc p) t)" by blast
  from take_job [OF this] assms have "loop_reaches c (loop_running 1 (Suc p) t)" by simp
  from loop_reaches_step [OF this job_done]
  have r: "loop_reaches c (loop_running 0 (Suc p) True)" by (simp add: loop_running_def)
  show ?case
    using loop_reaches_step [OF r timer_fires] assms
    by (auto simp: loop_running_def loop_head_def intro!: exI [of _ False])
qed

lemma fill_up:
  assumes "2 \<le> c" "a < c"
  shows "\<exists>t. loop_reaches c (loop_running a (Suc p) t)"
  using assms(2)
proof (induction a)
  case 0
  then show ?case using more_pollers [OF assms(1)] by simp
next
  case (Suc a)
  then obtain t where "loop_reaches c (loop_running a (Suc p) t)" by auto
  from take_job [OF this] Suc.prems show ?case by auto
qed

lemma take_all:
  "loop_reaches c (loop_running a p t) \<Longrightarrow> c \<le> a + 1 \<Longrightarrow> \<exists>t. loop_reaches c (loop_running (a + p) 0 t)"
proof (induction p arbitrary: a t)
  case (Suc p)
  from take_job [OF Suc.prems(1)] Suc.prems(2) have "loop_reaches c (loop_running (a + 1) p True)" by simp
  from Suc.IH [OF this] Suc.prems(2) show ?case by simp
qed auto

section \<open>Properties\<close>

text \<open>When the worker reports a job of the in-memory queue as processed, that job is no longer
  leased: it is completed, pending again or a dead letter, whatever the handler did.\<close>

theorem processed_job_is_settled:
  assumes "queue_inv b" and "harmless queue_inv (\<lambda>b jid. js_get (qb_jobs b) jid) dispatch"
    and "processNext memory_ops dispatch ttl q b = (Inr True, b')"
  shows "\<exists>j j' b1. dequeue q ttl b = (Some j, b1) \<and> js_get (qb_jobs b') (j_id j) = Some j' \<and>
    j_status j' \<noteq> Processing"
  using memory_queue.processNext_settles [OF assms]
  by (fastforce simp: memory_ops_def split: prod.splits)

lemma processed_job_is_settled_witness:
  "\<exists>b' j'. processNext memory_ops (\<lambda>q j s. (Inl (JsOther ''boom''), s)) 30000 ''mail'' demo_two = (Inr True, b')
     \<and> js_get (qb_jobs b') ''a'' = Some j' \<and> j_status j' \<noteq> Processing"
proof -
  let ?d = "\<lambda>q j s. (Inl (JsOther ''boom''), s) :: (thrown, unit) result \<times> nat backend"
  have inv: "queue_inv demo_two"
    unfolding demo_two_def demo_backend_def by (rule queue_run_inv) simp
  have h: "harmless queue_inv (\<lambda>b jid. js_get (qb_jobs b) jid) ?d" by (simp add: harmless_def)
  have id: "map_option j_id (fst (dequeue ''mail'' 30000 demo_two)) = Some ''a''"
    by (simp add: demo_two_def demo_backend_def enqueue_def dequeue_def new_backend_def Let_def
        getForQueue_def no_options_def eligible_def lease_def job_before_def job_cmp_def)
  then obtain b' where p: "processNext memory_ops ?d 30000 ''mail'' demo_two = (Inr True, b')"
    by (auto simp: processNext_def executeJob_def)
  from processed_job_is_settled [OF inv h p] obtain j j' b1 where
    "dequeue ''mail'' 30000 demo_two = (Some j, b1)" "js_get (qb_jobs b') (j_id j) = Some j'"
    "j_status j' \<noteq> Processing" by blast
  with id p show ?thesis by (intro exI conjI) auto
qed

text \<open>A pump never processes more than the given number of jobs per queue.\<close>

theorem pump_bounded:
  assumes "pump ops dispatch ttl reg maxJobs qs s = (Inr n, qs', s')"
  shows "n \<le> maxJobs * length qs'"
  using assms pump_queues_count [of ops dispatch ttl maxJobs qs' 0]
  by (fastforce simp: pump_def Let_def split: prod.splits)

lemma pump_bounded_witness:
  "\<exists>b'. pump memory_ops (\<lambda>q j s. (Inr (), s)) 30000 ([] :: nat handler_registry) 5 [''none'']
     (new_backend 0 :: nat backend) = (Inr 0, [''none''], b') \<and> (0 :: nat) \<le> 5 * length [''none'']"
proof -
  have "\<exists>b'. pump memory_ops (\<lambda>q j s. (Inr (), s)) 30000 ([] :: nat handler_registry) 5 [''none'']
     (new_backend 0 :: nat backend) = (Inr 0, [''none''], b')"
    by (simp add: pump_def numeral_eq_Suc processNext_def recoverUnacknowledged_def
        dequeue_def new_backend_def Let_def js_mapv_def)
  then obtain b' where p: "pump memory_ops (\<lambda>q j s. (Inr (), s)) 30000 ([] :: nat handler_registry) 5
     [''none''] (new_backend 0 :: nat backend) = (Inr 0, [''none''], b')" by blast
  from p pump_bounded [OF p] show ?thesis by blast
qed

text \<open>With a queue concurrency of one, the polling loop runs at most one job at a time, however
  timers, dequeues, completions and a stop interleave.\<close>

theorem single_concurrency_respected:
  assumes "loop_reaches 1 s"
  shows "ls_active s \<le> 1"
  using single_inv_reaches [OF assms] by (simp add: single_inv_def)

lemma single_concurrency_respected_witness:
  "\<exists>s. loop_reaches 1 s \<and> 0 < ls_pollers s \<and> ls_active s \<le> 1"
proof -
  have r: "loop_reaches 1 (loop_head 1 (loop_start\<lparr>ls_timer := False\<rparr>))"
    by (rule loop_reaches_step [OF loop_reaches_start timer_fires]) (simp_all add: loop_start_def)
  from single_concurrency_respected [OF r] r show ?thesis
    by (intro exI conjI) (auto simp: loop_head_def loop_start_def)
qed

text \<open>C0: With any concurrency of two or more the limit is not a bound: \<^verbatim>\<open>poll\<close> tests the counter
  before it awaits the dequeue and raises it after, and a finishing job starts another poll
  meanwhile, so any number of jobs can be running at once.\<close>

theorem concurrency_limit_overrun:
  assumes "2 \<le> c"
  shows "\<exists>s. loop_reaches c s \<and> n < ls_active s"
proof -
  obtain t where "loop_reaches c (loop_running (c - 1) (Suc n) t)"
    using fill_up [OF assms, of "c - 1"] assms by auto
  from take_all [OF this] assms obtain t' where "loop_reaches c (loop_running (c - 1 + Suc n) 0 t')"
    by auto
  then show ?thesis using assms by (auto simp: loop_running_def intro!: exI)
qed

lemma concurrency_limit_overrun_witness: "\<exists>s. loop_reaches 2 s \<and> 7 < ls_active s"
  by (rule concurrency_limit_overrun) simp

end
