(* ===== verification/Bytes.thy ===== *)
theory Bytes
  imports Prelude
begin

text \<open>
  Bytes and base64url: \<^verbatim>\<open>di-framework-auth/src/crypto/base64url.ts\<close> and the integer helpers of
  \<^verbatim>\<open>di-framework-socket/src/security/bytes.ts\<close>.

  A JavaScript string is its list of UTF-16 code units, a \<^verbatim>\<open>Uint8Array\<close> a list of bytes.  The
  operands of \<^verbatim>\<open><<\<close>, \<^verbatim>\<open>>>>\<close>, \<^verbatim>\<open>|\<close> and \<^verbatim>\<open>&\<close> are 32-bit words, so the accumulator of the decoder
  wraps as it does in the engine.  A write past the end of a typed array is ignored, as
  \<^verbatim>\<open>list_update\<close> does.  The lemmas show that the single-pass decoder computes the group-wise
  decoding, and from it that decoding inverts encoding and that every accepted string is the
  encoding of what it decodes to.
\<close>

unbundle bit_operations_syntax

type_synonym byte = "8 word"
type_synonym jsstr = "16 word list"

definition js_str :: "string \<Rightarrow> jsstr" where
  "js_str s = map of_char s"

section \<open>base64url\<close>

definition ALPHABET :: jsstr where
  "ALPHABET = js_str ''ABCDEFGHIJKLMNOPQRSTUVWXYZabcdefghijklmnopqrstuvwxyz0123456789-_''"

definition LOOKUP :: "int list" where
  "LOOKUP = fold (\<lambda>i table. table[unat (ALPHABET ! i) := int i]) [0..<length ALPHABET] (replicate 128 (- 1))"

definition trailing_bits :: "nat \<Rightarrow> nat option" where
  "trailing_bits r = (if r = 2 then Some 4 else if r = 3 then Some 2 else None)"

datatype base64_error = BadLength nat | BadCharacter nat | TrailingBits

definition alpha :: "32 word \<Rightarrow> 16 word" where
  "alpha v = ALPHABET ! unat v"

fun base64UrlEncode :: "byte list \<Rightarrow> jsstr" where
  "base64UrlEncode (b0 # b1 # b2 # rest) =
     (let chunk = push_bit 16 (ucast b0 :: 32 word) OR push_bit 8 (ucast b1) OR ucast b2
      in alpha (drop_bit 18 chunk AND 63) # alpha (drop_bit 12 chunk AND 63)
         # alpha (drop_bit 6 chunk AND 63) # alpha (chunk AND 63) # base64UrlEncode rest)"
| "base64UrlEncode [b0] =
     (let chunk = push_bit 16 (ucast b0 :: 32 word)
      in [alpha (drop_bit 18 chunk AND 63), alpha (drop_bit 12 chunk AND 63)])"
| "base64UrlEncode [b0, b1] =
     (let chunk = push_bit 16 (ucast b0 :: 32 word) OR push_bit 8 (ucast b1)
      in [alpha (drop_bit 18 chunk AND 63), alpha (drop_bit 12 chunk AND 63),
          alpha (drop_bit 6 chunk AND 63)])"
| "base64UrlEncode [] = []"

definition char_value :: "16 word \<Rightarrow> int" where
  "char_value c = (if unat c < 128 then LOOKUP ! unat c else - 1)"

text \<open>The loop of the decoder: \<open>i\<close> is the index, then accumulator, pending bits, output index
  and output buffer.\<close>

type_synonym decoder = "32 word \<times> nat \<times> nat \<times> byte list"

fun decode_loop :: "nat \<Rightarrow> jsstr \<Rightarrow> decoder \<Rightarrow> (base64_error, decoder) result" where
  "decode_loop i [] st = Inr st"
| "decode_loop i (c # cs) (acc, bits, idx, out) =
     (let v = char_value c
      in if v < 0 then Inl (BadCharacter i)
         else (let acc' = push_bit 6 acc OR word_of_int v; bits' = bits + 6
               in if bits' \<ge> 8
                  then decode_loop (i + 1) cs
                    (acc', bits' - 8, idx + 1, out[idx := ucast (drop_bit (bits' - 8) acc' AND 255)])
                  else decode_loop (i + 1) cs (acc', bits', idx, out)))"

definition base64UrlDecode :: "jsstr \<Rightarrow> (base64_error, byte list) result" where
  "base64UrlDecode input =
     (let len = length input
      in if len mod 4 = 1 then Inl (BadLength len)
         else (let remainder = len mod 4;
                   byteLength = (len - remainder) div 4 * 3 + (if remainder = 0 then 0 else remainder - 1)
               in rbind (decode_loop 0 input (0, 0, 0, replicate byteLength 0))
                    (\<lambda>(acc, _, _, out).
                       case trailing_bits remainder of
                         None \<Rightarrow> Inr out
                       | Some n \<Rightarrow> if acc AND (push_bit n 1 - 1) \<noteq> 0 then Inl TrailingBits else Inr out)))"

definition isBase64Url :: "jsstr \<Rightarrow> bool" where
  "isBase64Url input = is_ok (base64UrlDecode input)"

section \<open>Concatenation and big-endian integers\<close>

text \<open>\<^verbatim>\<open>out.set(p, offset)\<close>.\<close>

definition bytes_set :: "byte list \<Rightarrow> nat \<Rightarrow> byte list \<Rightarrow> byte list" where
  "bytes_set out off p = take off out @ p @ drop (off + length p) out"

definition concatBytes :: "byte list list \<Rightarrow> byte list" where
  "concatBytes parts =
     fst (foldl (\<lambda>(out, off) p. (bytes_set out off p, off + length p))
       (replicate (foldl (\<lambda>total p. total + length p) 0 parts) 0, 0) parts)"

definition zeroize :: "byte list \<Rightarrow> byte list" where
  "zeroize bytes = map (\<lambda>_. 0) bytes"

datatype range_error = U64OutOfRange int | U64PastEnd

fun u64_fill :: "nat \<Rightarrow> int \<Rightarrow> byte list \<Rightarrow> byte list" where
  "u64_fill 0 x out = out"
| "u64_fill (Suc i) x out = u64_fill i (drop_bit 8 x) (out[i := word_of_int (x AND 255)])"

definition u64Be :: "int \<Rightarrow> (range_error, byte list) result" where
  "u64Be v = (if v < 0 \<or> v > 0xffffffffffffffff then Inl (U64OutOfRange v)
              else Inr (u64_fill 8 v (replicate 8 0)))"

definition readU64Be :: "byte list \<Rightarrow> nat \<Rightarrow> (range_error, int) result" where
  "readU64Be bytes off = (if length bytes < off + 8 then Inl U64PastEnd
     else Inr (foldl (\<lambda>v i. push_bit 8 v OR uint (bytes ! (off + i))) 0 [0..<8]))"

section \<open>Comparing byte by byte\<close>

lemma foldl_or_zero:
  "foldl (\<lambda>diff i. diff OR f i) (d :: byte) is = 0 \<longleftrightarrow> d = 0 \<and> (\<forall>i \<in> set is. f i = 0)"
proof (induction "is" arbitrary: d)
  case (Cons i js)
  have "d OR f i = 0 \<longleftrightarrow> d = 0 \<and> f i = 0"
    by (auto simp: bit_eq_iff bit_simps)
  with Cons show ?case by auto
qed simp

lemma xor_eq_0: "x XOR y = (0 :: byte) \<longleftrightarrow> x = y"
proof
  assume "x XOR y = 0"
  then have "(x XOR y) XOR y = y" by simp
  then show "x = y" by (simp add: xor.assoc)
qed simp

lemma nth_agree: "length xs = length ys \<Longrightarrow> (\<forall>i \<in> set [0..<length xs]. xs ! i = ys ! i) \<longleftrightarrow> xs = ys"
  by (auto intro: nth_equalityI)

section \<open>The alphabet and its reverse table\<close>

lemma length_ALPHABET: "length ALPHABET = 64"
  by (simp add: ALPHABET_def js_str_def)

lemma ALPHABET_codes:
  "ALPHABET = map word_of_nat ([65..<91] @ [97..<123] @ [48..<58] @ [45, 95])"
  by (simp add: ALPHABET_def js_str_def upt_rec)

lemma ALPHABET_nat: "map unat ALPHABET = [65..<91] @ [97..<123] @ [48..<58] @ [45, 95]"
proof -
  have "map unat ALPHABET = map (\<lambda>n. unat (word_of_nat n :: 16 word)) ([65..<91] @ [97..<123] @ [48..<58] @ [45, 95])"
    by (simp add: ALPHABET_codes)
  also have "\<dots> = map (\<lambda>n. n) ([65..<91] @ [97..<123] @ [48..<58] @ [45, 95])"
    by (rule map_cong) (auto simp: unat_of_nat take_bit_eq_mod)
  finally show ?thesis by simp
qed

definition alpha_code :: "nat \<Rightarrow> nat" where
  "alpha_code v = unat (ALPHABET ! v)"

lemma alpha_code_nth: "v < 64 \<Longrightarrow> alpha_code v = ([65..<91] @ [97..<123] @ [48..<58] @ [45, 95]) ! v"
  using ALPHABET_nat length_ALPHABET by (metis alpha_code_def nth_map)

lemma alpha_code_inj: "inj_on alpha_code {..<64}"
proof -
  have "distinct (map unat ALPHABET)" by (simp add: ALPHABET_nat)
  then show ?thesis
    by (auto simp: inj_on_def alpha_code_def distinct_conv_nth length_ALPHABET) 
qed

lemma alpha_code_bound: "v < 64 \<Longrightarrow> alpha_code v < 128"
proof -
  assume v: "v < 64"
  have "\<forall>c \<in> set (map unat ALPHABET). c < 128" by (auto simp only: ALPHABET_nat) auto
  with v show ?thesis by (auto simp: alpha_code_def length_ALPHABET)
qed

text \<open>Filling a table at distinct positions.\<close>

lemma fold_table:
  assumes "inj_on f {..<n}" "\<And>i. i < n \<Longrightarrow> f i < length t"
  shows "length (fold (\<lambda>i table. table[f i := g i]) [0..<n] t) = length t \<and>
    (\<forall>i<n. fold (\<lambda>i table. table[f i := g i]) [0..<n] t ! f i = g i) \<and>
    (\<forall>c. c \<notin> f ` {..<n} \<longrightarrow> fold (\<lambda>i table. table[f i := g i]) [0..<n] t ! c = t ! c)"
  using assms
proof (induction n)
  case (Suc n)
  then have ih: "inj_on f {..<n}" by (auto simp: inj_on_def)
  from Suc.prems(1) have "f i \<noteq> f n" "f n \<noteq> f i" if "i < n" for i
    using that inj_onD [OF Suc.prems(1), of i n] inj_onD [OF Suc.prems(1), of n i] by auto
  with Suc.IH [OF ih] Suc.prems(2) show ?case
    by (auto simp: nth_list_update less_Suc_eq lessThan_Suc)
qed simp

lemma LOOKUP_alpha_code: "v < 64 \<Longrightarrow> LOOKUP ! alpha_code v = int v"
  and LOOKUP_out: "c \<notin> alpha_code ` {..<64} \<Longrightarrow> c < 128 \<Longrightarrow> LOOKUP ! c = - 1"
  using fold_table [of alpha_code 64 "replicate 128 (- 1 :: int)" int] alpha_code_inj alpha_code_bound
  by (auto simp: LOOKUP_def length_ALPHABET alpha_code_def)

lemma char_value_alpha: "unat v < 64 \<Longrightarrow> char_value (alpha v) = uint v"
  using alpha_code_bound [of "unat v"] LOOKUP_alpha_code [of "unat v"]
  by (simp add: char_value_def alpha_def alpha_code_def)

lemma char_value_cases:
  assumes "\<not> char_value c < 0"
  obtains v where "c = alpha v" "unat v < 64" "char_value c = uint v"
proof -
  from assms have c: "unat c < 128" by (auto simp: char_value_def split: if_splits)
  have "unat c \<in> alpha_code ` {..<64}"
    using LOOKUP_out [of "unat c"] c assms by (auto simp: char_value_def)
  then obtain n where n: "n < 64" "unat c = alpha_code n" by auto
  define v where "v = (word_of_nat n :: 32 word)"
  have v: "unat v = n" using n(1) by (simp add: v_def unat_of_nat take_bit_eq_mod)
  have "c = alpha v" using n v by (simp add: alpha_def alpha_code_def word_unat_eq_iff)
  then show thesis using that char_value_alpha [of v] v n by simp
qed

section \<open>The group-wise specification\<close>

text \<open>Sextets of bytes and bytes of sextets, three to four at a time.\<close>

fun sextets :: "byte list \<Rightarrow> 32 word list" where
  "sextets (b0 # b1 # b2 # rest) =
     [ucast (drop_bit 2 b0), push_bit 4 (ucast (take_bit 2 b0)) OR ucast (drop_bit 4 b1),
      push_bit 2 (ucast (take_bit 4 b1)) OR ucast (drop_bit 6 b2), ucast (take_bit 6 b2)] @ sextets rest"
| "sextets [b0] = [ucast (drop_bit 2 b0), push_bit 4 (ucast (take_bit 2 b0))]"
| "sextets [b0, b1] =
     [ucast (drop_bit 2 b0), push_bit 4 (ucast (take_bit 2 b0)) OR ucast (drop_bit 4 b1),
      push_bit 2 (ucast (take_bit 4 b1))]"
| "sextets [] = []"

definition byte1 :: "32 word \<Rightarrow> 32 word \<Rightarrow> byte" where
  "byte1 v0 v1 = ucast (push_bit 2 v0 OR drop_bit 4 v1)"

definition byte2 :: "32 word \<Rightarrow> 32 word \<Rightarrow> byte" where
  "byte2 v1 v2 = ucast (push_bit 4 v1 OR drop_bit 2 v2)"

definition byte3 :: "32 word \<Rightarrow> 32 word \<Rightarrow> byte" where
  "byte3 v2 v3 = ucast (push_bit 6 v2 OR v3)"

fun octets :: "32 word list \<Rightarrow> byte list" where
  "octets (v0 # v1 # v2 # v3 # rest) = byte1 v0 v1 # byte2 v1 v2 # byte3 v2 v3 # octets rest"
| "octets [v0, v1, v2] = [byte1 v0 v1, byte2 v1 v2]"
| "octets [v0, v1] = [byte1 v0 v1]"
| "octets [v0] = []"
| "octets [] = []"

definition sextet :: "32 word \<Rightarrow> bool" where
  "sextet v \<longleftrightarrow> take_bit 6 v = v"

lemma sextet_iff: "sextet v \<longleftrightarrow> unat v < 64"
proof -
  have "sextet v \<longleftrightarrow> unat (take_bit 6 v) = unat v" by (simp add: sextet_def word_unat_eq_iff)
  then show ?thesis by (simp add: unsigned_take_bit_eq take_bit_nat_eq_self_iff)
qed

lemma sextet_bits: "sextet v \<Longrightarrow> bit v n \<Longrightarrow> n < 6"
  by (metis bit_take_bit_iff sextet_def)

lemma less8_cases:
  assumes "(n::nat) < 8"
  obtains "n = 0" | "n = 1" | "n = 2" | "n = 3" | "n = 4" | "n = 5" | "n = 6" | "n = 7"
  using assms by linarith

lemma and_mask6: "(w :: 32 word) AND 63 = take_bit 6 w"
  using take_bit_eq_mask [of 6 w] by (simp add: mask_eq_exp_minus_1)

lemma and_mask8: "(w :: 32 word) AND 255 = take_bit 8 w"
  using take_bit_eq_mask [of 8 w] by (simp add: mask_eq_exp_minus_1)

text \<open>The 24-bit chunk of the encoder, sextet by sextet.\<close>

lemma chunk_sextets:
  fixes b0 b1 b2 :: byte
  defines "chunk \<equiv> push_bit 16 (ucast b0 :: 32 word) OR push_bit 8 (ucast b1) OR ucast b2"
  shows "take_bit 6 (drop_bit 18 chunk) = ucast (drop_bit 2 b0)"
    and "take_bit 6 (drop_bit 12 chunk) = push_bit 4 (ucast (take_bit 2 b0)) OR ucast (drop_bit 4 b1)"
    and "take_bit 6 (drop_bit 6 chunk) = push_bit 2 (ucast (take_bit 4 b1)) OR ucast (drop_bit 6 b2)"
    and "take_bit 6 chunk = ucast (take_bit 6 b2)"
  unfolding chunk_def
  by (rule bit_word_eqI; auto simp: bit_simps dest: bit_imp_le_length)+

lemma encode_sextets: "base64UrlEncode bs = map alpha (sextets bs)"
proof (induction bs rule: base64UrlEncode.induct)
  case (1 b0 b1 b2 rest)
  then show ?case
    by (simp add: Let_def and_mask6 chunk_sextets del: take_bit_or drop_bit_or)
next
  case (2 b0)
  show ?case
    using chunk_sextets(1,2) [of b0 0 0] by (simp add: Let_def and_mask6)
next
  case (3 b0 b1)
  show ?case
    using chunk_sextets(1,2,3) [of b0 b1 0] by (simp add: Let_def and_mask6)
qed simp_all

lemma Suc_Suc_diff [simp]: "2 \<le> n \<Longrightarrow> Suc (Suc (n - 2)) = n" "\<not> n < 2 \<Longrightarrow> Suc (Suc (n - 2)) = n"
  by simp_all

lemma sextets_sextet: "v \<in> set (sextets bs) \<Longrightarrow> sextet v"
proof (induction bs rule: sextets.induct)
  case (1 b0 b1 b2 rest)
  then show ?case
    by (auto simp: sextet_def intro!: bit_word_eqI) (auto simp: bit_simps dest: bit_imp_le_length)
qed (auto simp: sextet_def intro!: bit_word_eqI, (auto simp: bit_simps dest: bit_imp_le_length)+)

lemma octets_sextets: "octets (sextets bs) = bs"
proof (induction bs rule: sextets.induct)
  case (1 b0 b1 b2 rest)
  then show ?case
    by (simp add: byte1_def byte2_def byte3_def)
       (intro conjI bit_word_eqI; auto simp: bit_simps dest: bit_imp_le_length)
qed (simp_all add: byte1_def byte2_def byte3_def,
     (intro conjI bit_word_eqI; auto simp: bit_simps dest: bit_imp_le_length)+)

text \<open>The bits the last group leaves over are zero in a canonical string.\<close>

fun trailing_zero :: "32 word list \<Rightarrow> bool" where
  "trailing_zero (v0 # v1 # v2 # v3 # rest) = trailing_zero rest"
| "trailing_zero [v0, v1, v2] = (take_bit 2 v2 = 0)"
| "trailing_zero [v0, v1] = (take_bit 4 v1 = 0)"
| "trailing_zero [v0] = False"
| "trailing_zero [] = True"

lemma take_zero_bits: "take_bit k (w :: 32 word) = 0 \<Longrightarrow> bit w n \<Longrightarrow> k \<le> n"
  by (metis bit_take_bit_iff bit_0_eq bot_apply bot_bool_def not_le)

lemma sextet_recover:
  "sextet v0 \<Longrightarrow> sextet v1 \<Longrightarrow> ucast (drop_bit 2 (byte1 v0 v1)) = v0"
  "sextet v1 \<Longrightarrow> sextet v2 \<Longrightarrow>
     push_bit 4 (ucast (take_bit 2 (byte1 v0 v1))) OR ucast (drop_bit 4 (byte2 v1 v2)) = v1"
  "sextet v2 \<Longrightarrow> sextet v3 \<Longrightarrow>
     push_bit 2 (ucast (take_bit 4 (byte2 v1 v2))) OR ucast (drop_bit 6 (byte3 v2 v3)) = v2"
  "sextet v3 \<Longrightarrow> ucast (take_bit 6 (byte3 v2 v3)) = v3"
  unfolding byte1_def byte2_def byte3_def
  by (intro bit_word_eqI; auto simp: bit_simps dest: sextet_bits; frule (1) sextet_bits; simp)+

lemma sextet_recover_last:
  assumes "sextet v0" "sextet v1"
  shows "take_bit 4 v1 = 0 \<Longrightarrow> push_bit 4 (ucast (take_bit 2 (byte1 v0 v1))) = v1"
    and "take_bit 2 v1 = 0 \<Longrightarrow> push_bit 2 (ucast (take_bit 4 (byte2 v0 v1))) = v1"
  using assms unfolding byte1_def byte2_def
  by (intro bit_word_eqI; auto simp: bit_simps dest: sextet_bits take_zero_bits;
      frule (1) sextet_bits; frule (1) take_zero_bits; simp)+

lemma sextets_octets:
  "\<forall>v \<in> set vs. sextet v \<Longrightarrow> trailing_zero vs \<Longrightarrow> sextets (octets vs) = vs"
  by (induction vs rule: octets.induct) (simp_all add: sextet_recover sextet_recover_last)

lemma trailing_zero_sextets: "trailing_zero (sextets bs)"
  by (induction bs rule: sextets.induct) (auto intro!: bit_word_eqI simp: bit_simps)

lemma length_octets: "length (octets vs) = length vs div 4 * 3
    + (if length vs mod 4 = 0 then 0 else length vs mod 4 - 1)"
  by (induction vs rule: octets.induct) simp_all

section \<open>The single-pass decoder computes the group-wise decoding\<close>

lemma char_value_sextet:
  "sextet v \<Longrightarrow> \<not> char_value (alpha v) < 0"
  "sextet v \<Longrightarrow> word_of_int (char_value (alpha v)) = v"
  by (simp_all add: sextet_iff char_value_alpha)

text \<open>The bytes the loop writes do not depend on what was shifted out before.\<close>

lemma accumulated_bytes:
  fixes acc :: "32 word"
  shows "ucast (drop_bit 4 (push_bit 6 (push_bit 6 acc OR v0) OR v1) AND 255) = byte1 v0 v1"
    and "sextet v2 \<Longrightarrow> sextet v1 \<Longrightarrow> ucast (drop_bit 2 (push_bit 6 (push_bit 6 (push_bit 6 acc OR v0) OR v1) OR v2) AND 255) = byte2 v1 v2"
    and "sextet v3 \<Longrightarrow> sextet v2 \<Longrightarrow> ucast ((push_bit 6 (push_bit 6 (push_bit 6 (push_bit 6 acc OR v0) OR v1) OR v2) OR v3) AND 255) = byte3 v2 v3"
  unfolding byte1_def byte2_def byte3_def and_mask8
  by (intro bit_word_eqI; auto simp: bit_simps dest: sextet_bits; frule (1) sextet_bits; simp)+

lemma update_fresh:
  "k > 0 \<Longrightarrow> (done @ replicate k z)[length done := b] = (done @ [b]) @ replicate (k - 1) z"
  by (cases k) (simp_all add: list_update_append)

lemma low_sextet: "sextet v \<Longrightarrow> take_bit 6 (push_bit 6 acc OR v) = v"
  by (intro bit_word_eqI) (auto simp: bit_simps dest: sextet_bits)

lemma decode_loop_sextets:
  "\<forall>v \<in> set vs. sextet v \<Longrightarrow> k = length (octets vs) \<Longrightarrow>
   \<exists>acc' bits'. decode_loop i (map alpha vs) (acc, 0, length dn, dn @ replicate k 0) =
       Inr (acc', bits', length dn + k, dn @ octets vs) \<and>
     (length vs mod 4 \<noteq> 0 \<longrightarrow> take_bit 6 acc' = last vs)"
proof (induction vs arbitrary: i acc dn k rule: octets.induct)
  case (1 v0 v1 v2 v3 rest)
  define acc4 where "acc4 = push_bit 6 (push_bit 6 (push_bit 6 (push_bit 6 acc OR v0) OR v1) OR v2) OR v3"
  let ?dn = "dn @ [byte1 v0 v1, byte2 v1 v2, byte3 v2 v3]"
  have "decode_loop i (map alpha (v0 # v1 # v2 # v3 # rest)) (acc, 0, length dn, dn @ replicate k 0) =
      decode_loop (Suc (Suc (Suc (Suc i)))) (map alpha rest) (acc4, 0, length ?dn, ?dn @ replicate (length (octets rest)) 0)"
    using 1(2,3)
    by (simp add: char_value_sextet accumulated_bytes acc4_def list_update_append low_sextet Let_def
        del: take_bit_or push_bit_or push_bit_push_bit drop_bit_or)
  with 1(1) [of "length (octets rest)" "Suc (Suc (Suc (Suc i)))" acc4 ?dn] 1(2,3) show ?case
    by (auto simp: last_ConsR)
next
  case (2 v0 v1 v2)
  then show ?case
    by (simp add: char_value_sextet accumulated_bytes list_update_append low_sextet Let_def
        del: take_bit_or push_bit_or push_bit_push_bit drop_bit_or)
next
  case (3 v0 v1)
  then show ?case
    by (simp add: char_value_sextet accumulated_bytes list_update_append low_sextet Let_def
        del: take_bit_or push_bit_or push_bit_push_bit drop_bit_or)
qed (auto simp: char_value_sextet low_sextet simp del: take_bit_or)

lemma decode_loop_values:
  "decode_loop i cs st = Inr st' \<Longrightarrow> \<exists>vs. cs = map alpha vs \<and> (\<forall>v \<in> set vs. sextet v)"
proof (induction cs arbitrary: i st)
  case (Cons c cs)
  then have c: "\<not> char_value c < 0" by (cases st) (auto simp: Let_def)
  then obtain v where v: "c = alpha v" "sextet v"
    by (auto elim: char_value_cases simp: sextet_iff)
  from Cons.prems c obtain i' st1 where "decode_loop i' cs st1 = Inr st'"
    by (cases st) (auto simp: Let_def split: if_splits)
  then obtain vs where "cs = map alpha vs" "\<forall>v \<in> set vs. sextet v"
    using Cons.IH by blast
  with v show ?case by (intro exI [of _ "v # vs"]) simp
qed simp

lemma trailing_zero_iff:
  "length vs mod 4 \<noteq> 1 \<Longrightarrow> trailing_zero vs \<longleftrightarrow>
     (case trailing_bits (length vs mod 4) of None \<Rightarrow> True | Some n \<Rightarrow> take_bit n (last vs) = 0)"
proof (induction vs rule: trailing_zero.induct)
  case (1 v0 v1 v2 v3 rest)
  have "length (v0 # v1 # v2 # v3 # rest) mod 4 = length rest mod 4" by simp
  with 1 show ?case by (cases rest) (simp_all add: trailing_bits_def)
qed (simp_all add: trailing_bits_def)

lemma decode_values:
  assumes vs: "\<forall>v \<in> set vs. sextet v"
  shows "base64UrlDecode (map alpha vs) =
    (if length vs mod 4 = 1 then Inl (BadLength (length vs))
     else if trailing_zero vs then Inr (octets vs) else Inl TrailingBits)"
proof (cases "length vs mod 4 = 1")
  case False
  have n: "length vs - length vs mod 4 = length vs div 4 * 4"
    by (simp add: minus_mod_eq_div_mult)
  obtain acc bits where loop: "decode_loop 0 (map alpha vs) (0, 0, 0, replicate (length (octets vs)) 0) =
      Inr (acc, bits, length (octets vs), octets vs)"
    and acc: "length vs mod 4 \<noteq> 0 \<longrightarrow> take_bit 6 acc = last vs"
    using decode_loop_sextets [OF vs refl, of 0 0 "[]"] by auto
  have low: "acc AND (push_bit k 1 - 1) = take_bit k (last vs)" if "trailing_bits (length vs mod 4) = Some k" for k
  proof -
    from that acc have "take_bit k (last vs) = take_bit k acc"
      by (auto simp: trailing_bits_def simp flip: acc split: if_splits)
    then show ?thesis by (simp add: take_bit_eq_mask mask_eq_exp_minus_1 push_bit_eq_mult)
  qed
  show ?thesis
    using False loop low trailing_zero_iff [OF False]
    by (simp add: base64UrlDecode_def Let_def n length_octets split: option.splits)
qed (simp add: base64UrlDecode_def)

lemma decode_ok_values:
  assumes "base64UrlDecode s = Inr bs"
  obtains vs where "s = map alpha vs" "\<forall>v \<in> set vs. sextet v" "trailing_zero vs" "bs = octets vs"
proof -
  from assms have "\<exists>st st'. decode_loop 0 s st = Inr st'"
    by (auto simp: base64UrlDecode_def Let_def rbind_eq_Inr simp del: split_paired_Ex split: if_splits)
  then obtain vs where vs: "s = map alpha vs" "\<forall>v \<in> set vs. sextet v"
    using decode_loop_values by blast
  with assms decode_values [OF vs(2)] show thesis
    by (auto intro!: that split: if_splits)
qed

lemma decode_encode [simp]: "base64UrlDecode (base64UrlEncode bs) = Inr bs"
proof -
  have "length (sextets bs) mod 4 \<noteq> 1"
    using trailing_zero_sextets [of bs] by (induction bs rule: sextets.induct) simp_all
  then show ?thesis
    using decode_values [of "sextets bs"] sextets_sextet
    by (simp add: encode_sextets trailing_zero_sextets octets_sextets)
qed

lemma set_base64: "set (base64UrlEncode bs) \<subseteq> set ALPHABET"
proof -
  obtain vs where vs: "base64UrlEncode bs = map alpha vs" "\<forall>v \<in> set vs. sextet v"
    using decode_ok_values [OF decode_encode] by metis
  then show ?thesis by (auto simp: alpha_def sextet_iff length_ALPHABET)
qed

section \<open>Big-endian integers and concatenation\<close>

definition be_value :: "byte list \<Rightarrow> int" where
  "be_value bs = foldl (\<lambda>v b. push_bit 8 v OR uint b) 0 bs"

fun be_bytes :: "nat \<Rightarrow> int \<Rightarrow> byte list" where
  "be_bytes 0 v = []"
| "be_bytes (Suc k) v = be_bytes k (drop_bit 8 v) @ [word_of_int v]"

lemma length_be_bytes [simp]: "length (be_bytes k v) = k"
  by (induction k arbitrary: v) simp_all

lemma be_value_bytes: "be_value (be_bytes k v) = take_bit (8 * k) v"
proof (induction k arbitrary: v)
  case (Suc k)
  have "push_bit 8 (take_bit (8 * k) (drop_bit 8 v)) OR take_bit 8 v = take_bit (8 * Suc k) v"
    by (rule bit_eqI) (auto simp: bit_simps)
  with Suc show ?case by (simp add: be_value_def uint_word_of_int_eq)
qed (simp add: be_value_def)

lemma take_bit_range: "0 \<le> v \<Longrightarrow> v < 2 ^ n \<Longrightarrow> take_bit n (v::int) = v"
  by (simp add: take_bit_int_eq_self)

lemma word_and_255: "(word_of_int (x AND 255) :: byte) = word_of_int x"
proof -
  have "x AND 255 = take_bit 8 x" by (simp add: take_bit_eq_mask mask_eq_exp_minus_1)
  then show ?thesis by (intro bit_word_eqI) (simp add: bit_simps)
qed

lemma u64_fill_bytes: "u64_fill k x (replicate k 0 @ rest) = be_bytes k x @ rest"
proof (induction k arbitrary: x rest)
  case (Suc k)
  have "(replicate (Suc k) 0 @ rest)[k := b] = replicate k 0 @ b # rest" for b :: byte
    by (simp add: list_update_append replicate_append_same [symmetric])
  with Suc show ?case by (simp add: word_and_255)
qed simp

lemma u64Be_bytes: "0 \<le> v \<Longrightarrow> v < 2 ^ 64 \<Longrightarrow> u64Be v = Inr (be_bytes 8 v)"
  using u64_fill_bytes [of 8 v "[]"] by (simp add: u64Be_def)

lemma readU64Be_at:
  assumes "length bs = 8"
  shows "readU64Be (pre @ bs @ post) (length pre) = Inr (be_value bs)"
proof -
  have "bs = map (\<lambda>i. (pre @ bs @ post) ! (length pre + i)) [0..<8]"
    using assms by (intro nth_equalityI) (simp_all add: nth_append)
  from arg_cong [OF this, of "foldl (\<lambda>v b. push_bit 8 v OR uint b) 0"]
  have "be_value bs = foldl (\<lambda>v i. push_bit 8 v OR uint ((pre @ bs @ post) ! (length pre + i))) 0 [0..<8]"
    unfolding be_value_def foldl_map .
  with assms show ?thesis by (simp add: readU64Be_def)
qed

lemma concatBytes_concat: "concatBytes parts = concat parts"
proof -
  have total: "foldl (\<lambda>total p. total + length p) n parts = n + length (concat parts)" for n :: nat
    by (induction parts arbitrary: n) simp_all
  have "fst (foldl (\<lambda>(out, off) p. (bytes_set out off p, off + length p))
          (done @ replicate (length (concat parts)) 0, length done) parts) = done @ concat parts" for "done" :: "byte list"
  proof (induction parts arbitrary: "done")
    case (Cons p parts)
    have "bytes_set (done @ replicate (length (concat (p # parts))) 0) (length done) p
        = (done @ p) @ replicate (length (concat parts)) 0"
      by (simp add: bytes_set_def)
    with Cons.IH [of "done @ p"] show ?case by simp
  qed simp
  from this [of "[]"] total [of 0] show ?thesis by (simp add: concatBytes_def)
qed

section \<open>Properties\<close>

text \<open>base64url is strict and canonical: a string decodes to some bytes exactly when it is
  the encoding of those bytes, so encoding round-trips and no two strings decode to the same
  bytes (no padding, foreign character or stray trailing bit is accepted).\<close>
theorem base64_decode_iff_encode: "base64UrlDecode s = Inr bs \<longleftrightarrow> s = base64UrlEncode bs"
proof
  assume "base64UrlDecode s = Inr bs"
  then show "s = base64UrlEncode bs"
    by (rule decode_ok_values) (simp add: encode_sextets sextets_octets)
next
  assume "s = base64UrlEncode bs"
  then show "base64UrlDecode s = Inr bs" by simp
qed

text \<open>C0: decoding reports the first character outside the alphabet: a string whose first
  foreign character stands at index \<open>length us\<close> is rejected with exactly that index, unless its
  length already rules it out.\<close>
theorem base64_first_bad_character:
  assumes "set us \<subseteq> set ALPHABET" "c \<notin> set ALPHABET"
  shows "base64UrlDecode (us @ c # ws) =
    (if (length us + length ws + 1) mod 4 = 1 then Inl (BadLength (length us + length ws + 1))
     else Inl (BadCharacter (length us)))"
proof -
  have bad: "char_value c < 0"
  proof (rule ccontr)
    assume "\<not> char_value c < 0"
    then obtain v where "c = alpha v" "unat v < 64" by (rule char_value_cases)
    with assms(2) show False by (simp add: alpha_def length_ALPHABET)
  qed
  have good: "\<not> char_value u < 0" if "u \<in> set ALPHABET" for u
  proof -
    from that obtain n where "n < 64" "u = ALPHABET ! n" by (auto simp: in_set_conv_nth length_ALPHABET)
    then show ?thesis
      using LOOKUP_alpha_code [of n] alpha_code_bound [of n] by (simp add: char_value_def alpha_code_def)
  qed
  have "decode_loop i (us @ c # ws) st = Inl (BadCharacter (i + length us))" for i st
    using assms(1)
  proof (induction us arbitrary: i st)
    case Nil
    with bad show ?case by (cases st) simp
  next
    case (Cons u us)
    with good show ?case by (cases st) (auto simp: Let_def)
  qed
  then show ?thesis by (simp add: base64UrlDecode_def Let_def)
qed

lemma base64_first_bad_character_witness:
  "base64UrlDecode (js_str ''YQ'' @ hd (js_str ''='') # js_str ''='') = Inl (BadCharacter 2)"
proof -
  have "set (js_str ''YQ'') \<subseteq> set ALPHABET" "hd (js_str ''='') \<notin> set ALPHABET"
    by (simp_all add: ALPHABET_def js_str_def)
  from base64_first_bad_character [OF this, of "js_str ''=''"] show ?thesis
    by (simp add: js_str_def)
qed

text \<open>a 64-bit counter round-trips: every integer in range is written as eight bytes, and
  reading at their position in any buffer gives the integer back.\<close>
theorem u64_roundtrip:
  assumes "0 \<le> v" "v < 2 ^ 64"
  shows "\<exists>bs. u64Be v = Inr bs \<and> length bs = 8 \<and> readU64Be (pre @ bs @ post) (length pre) = Inr v"
  using assms readU64Be_at [of "be_bytes 8 v" pre post]
  by (simp add: u64Be_bytes be_value_bytes take_bit_range)

lemma u64_roundtrip_witness:
  "\<exists>bs. u64Be 258 = Inr bs \<and> length bs = 8 \<and> readU64Be ([7] @ bs @ []) (length [7 :: byte]) = Inr 258"
  by (rule u64_roundtrip) simp_all

end
