(* ===== verification/Utf8.thy ===== *)
theory Utf8
  imports Bytes
begin

text \<open>
  The text codec of the standard library the sources rely on: \<^verbatim>\<open>TextEncoder\<close> and
  \<^verbatim>\<open>TextDecoder('utf-8', \<dots>)\<close> as the WHATWG encoding standard defines them, over UTF-16 code
  units.  A lone surrogate is encoded as U+FFFD; the decoder is the standard's state machine
  (code point so far, continuation bytes needed, bounds of the next byte) that rejects overlong
  forms, surrogates and values above U+10FFFF; with \<^verbatim>\<open>ignoreBOM: false\<close> a leading U+FEFF is
  dropped from the result.  The lemmas give both round trips.
\<close>

definition is_high :: "16 word \<Rightarrow> bool" where
  "is_high u \<longleftrightarrow> 0xD800 \<le> unat u \<and> unat u < 0xDC00"

definition is_low :: "16 word \<Rightarrow> bool" where
  "is_low u \<longleftrightarrow> 0xDC00 \<le> unat u \<and> unat u < 0xE000"

definition scalar :: "nat \<Rightarrow> bool" where
  "scalar cp \<longleftrightarrow> cp < 0xD800 \<or> (0xE000 \<le> cp \<and> cp < 0x110000)"

definition scalar_unit :: "16 word \<Rightarrow> nat" where
  "scalar_unit u = (if is_high u \<or> is_low u then 0xFFFD else unat u)"

fun scalars :: "jsstr \<Rightarrow> nat list" where
  "scalars (u # v # rest) =
     (if is_high u \<and> is_low v
      then (0x10000 + (unat u - 0xD800) * 0x400 + (unat v - 0xDC00)) # scalars rest
      else scalar_unit u # scalars (v # rest))"
| "scalars [u] = [scalar_unit u]"
| "scalars [] = []"

definition unit_of :: "nat \<Rightarrow> 16 word" where
  "unit_of n = word_of_nat n"

definition units_of :: "nat \<Rightarrow> jsstr" where
  "units_of cp = (if cp < 0x10000 then [unit_of cp]
     else [unit_of (0xD800 + (cp - 0x10000) div 0x400), unit_of (0xDC00 + (cp - 0x10000) mod 0x400)])"

definition byte_of :: "nat \<Rightarrow> byte" where
  "byte_of n = word_of_nat n"

definition utf8_bytes :: "nat \<Rightarrow> byte list" where
  "utf8_bytes cp = map byte_of
     (if cp < 0x80 then [cp]
      else if cp < 0x800 then [0xC0 + cp div 64, 0x80 + cp mod 64]
      else if cp < 0x10000 then [0xE0 + cp div 4096, 0x80 + cp div 64 mod 64, 0x80 + cp mod 64]
      else [0xF0 + cp div 262144, 0x80 + cp div 4096 mod 64, 0x80 + cp div 64 mod 64, 0x80 + cp mod 64])"

definition TextEncoder_encode :: "jsstr \<Rightarrow> byte list" where
  "TextEncoder_encode s = concat (map utf8_bytes (scalars s))"

type_synonym u8_pending = "nat \<times> nat \<times> nat \<times> nat"

definition u8_lead :: "nat \<Rightarrow> nat option + u8_pending" where
  "u8_lead b =
     (if b < 0x80 then Inl (Some b)
      else if 0xC2 \<le> b \<and> b \<le> 0xDF then Inr (b - 0xC0, 1, 0x80, 0xBF)
      else if 0xE0 \<le> b \<and> b \<le> 0xEF
        then Inr (b - 0xE0, 2, if b = 0xE0 then 0xA0 else 0x80, if b = 0xED then 0x9F else 0xBF)
      else if 0xF0 \<le> b \<and> b \<le> 0xF4
        then Inr (b - 0xF0, 3, if b = 0xF0 then 0x90 else 0x80, if b = 0xF4 then 0x8F else 0xBF)
      else Inl None)"

text \<open>The decoded items; \<open>None\<close> is a decoding error.\<close>

fun u8_run :: "u8_pending option \<Rightarrow> byte list \<Rightarrow> nat option list" where
  "u8_run None [] = []"
| "u8_run (Some p) [] = [None]"
| "u8_run None (b # bs) =
     (case u8_lead (unat b) of Inl t \<Rightarrow> t # u8_run None bs | Inr p \<Rightarrow> u8_run (Some p) bs)"
| "u8_run (Some (cp, n, lo, hi)) (b # bs) =
     (if unat b < lo \<or> hi < unat b
      then None # (case u8_lead (unat b) of Inl t \<Rightarrow> t # u8_run None bs | Inr p \<Rightarrow> u8_run (Some p) bs)
      else if n = 1 then Some (cp * 64 + unat b mod 64) # u8_run None bs
      else u8_run (Some (cp * 64 + unat b mod 64, n - 1, 0x80, 0xBF)) bs)"

fun strip_bom :: "nat list \<Rightarrow> nat list" where
  "strip_bom (cp # cps) = (if cp = 0xFEFF then cps else cp # cps)"
| "strip_bom [] = []"

definition from_scalars :: "nat list \<Rightarrow> jsstr" where
  "from_scalars cps = concat (map units_of cps)"

text \<open>\<^verbatim>\<open>new TextDecoder('utf-8', { fatal: true, ignoreBOM: false }).decode\<close>: the exception is the
  left value.\<close>

definition decode_fatal :: "byte list \<Rightarrow> (unit, jsstr) result" where
  "decode_fatal bs = (let items = u8_run None bs
     in if None \<in> set items then Inl () else Inr (from_scalars (strip_bom (map the items))))"

text \<open>\<^verbatim>\<open>new TextDecoder().decode\<close>: errors become U+FFFD.\<close>

definition decode_lenient :: "byte list \<Rightarrow> jsstr" where
  "decode_lenient bs =
     from_scalars (strip_bom (map (\<lambda>t. case t of None \<Rightarrow> 0xFFFD | Some cp \<Rightarrow> cp) (u8_run None bs)))"

section \<open>Encoding, then decoding\<close>

lemma unat_byte: "n < 256 \<Longrightarrow> unat (byte_of n) = n"
  by (simp add: byte_of_def unat_of_nat take_bit_eq_mod)

lemma unat_unit: "n < 65536 \<Longrightarrow> unat (unit_of n) = n"
  by (simp add: unit_of_def unat_of_nat take_bit_eq_mod)

lemma byte_of_unat [simp]: "byte_of (unat b) = b"
  by (simp add: byte_of_def)

lemma unit_of_unat [simp]: "unit_of (unat u) = u"
  by (simp add: unit_of_def)

lemma continuation_mod [simp]: "c < 64 \<Longrightarrow> (128 + c) mod 64 = (c :: nat)"
  using mod_mult_self1 [of c 2 64] by (simp add: add.commute)

lemma u8_run1: "a < 0x80 \<Longrightarrow> u8_run None (byte_of a # rest) = Some a # u8_run None rest"
  by (simp add: u8_lead_def unat_byte)

lemma u8_run2:
  "2 \<le> a \<Longrightarrow> a < 32 \<Longrightarrow> c < 64 \<Longrightarrow>
   u8_run None (byte_of (0xC0 + a) # byte_of (0x80 + c) # rest) = Some (a * 64 + c) # u8_run None rest"
  by (simp add: u8_lead_def unat_byte mod_simps)

lemma u8_run3:
  "a < 16 \<Longrightarrow> b < 64 \<Longrightarrow> c < 64 \<Longrightarrow> a = 0 \<longrightarrow> 32 \<le> b \<Longrightarrow> a = 13 \<longrightarrow> b < 32 \<Longrightarrow>
   u8_run None (byte_of (0xE0 + a) # byte_of (0x80 + b) # byte_of (0x80 + c) # rest) =
     Some (a * 4096 + b * 64 + c) # u8_run None rest"
  by (auto simp: u8_lead_def unat_byte)

lemma u8_run4:
  "a < 5 \<Longrightarrow> b < 64 \<Longrightarrow> c < 64 \<Longrightarrow> d < 64 \<Longrightarrow> a = 0 \<longrightarrow> 16 \<le> b \<Longrightarrow> a = 4 \<longrightarrow> b < 16 \<Longrightarrow>
   u8_run None (byte_of (0xF0 + a) # byte_of (0x80 + b) # byte_of (0x80 + c) # byte_of (0x80 + d) # rest) =
     Some (a * 262144 + b * 4096 + c * 64 + d) # u8_run None rest"
  by (auto simp: u8_lead_def unat_byte)

lemma utf8_bytes_cases:
  assumes "scalar cp"
  obtains "cp < 0x80" "utf8_bytes cp = [byte_of cp]"
  | a c where "2 \<le> a" "a < 32" "c < 64" "cp = a * 64 + c"
      "utf8_bytes cp = [byte_of (0xC0 + a), byte_of (0x80 + c)]"
  | a b c where "a < 16" "b < 64" "c < 64" "a = 0 \<longrightarrow> 32 \<le> b" "a = 13 \<longrightarrow> b < 32" "cp = a * 4096 + b * 64 + c"
      "utf8_bytes cp = [byte_of (0xE0 + a), byte_of (0x80 + b), byte_of (0x80 + c)]"
  | a b c d where "a < 5" "b < 64" "c < 64" "d < 64" "a = 0 \<longrightarrow> 16 \<le> b" "a = 4 \<longrightarrow> b < 16"
      "cp = a * 262144 + b * 4096 + c * 64 + d"
      "utf8_bytes cp = [byte_of (0xF0 + a), byte_of (0x80 + b), byte_of (0x80 + c), byte_of (0x80 + d)]"
proof -
  consider (1) "cp < 0x80" | (2) "0x80 \<le> cp" "cp < 0x800" | (3) "0x800 \<le> cp" "cp < 0x10000" | (4) "0x10000 \<le> cp"
    by linarith
  then show thesis
  proof cases
    case 1
    then show thesis using that(1) by (simp add: utf8_bytes_def)
  next
    case 2
    then show thesis
      using that(2) [of "cp div 64" "cp mod 64"] by (simp add: utf8_bytes_def less_mult_imp_div_less)
  next
    case 3
    define x c where "x = cp div 64" and "c = cp mod 64"
    define a b where "a = x div 64" and "b = x mod 64"
    have eqs: "cp = x * 64 + c" "x = a * 64 + b" "c < 64" "b < 64"
      by (simp_all add: x_def c_def a_def b_def)
    have "cp div 4096 = a" by (simp add: x_def a_def div_mult2_eq [symmetric])
    then have bytes: "utf8_bytes cp = [byte_of (0xE0 + a), byte_of (0x80 + b), byte_of (0x80 + c)]"
      using 3 by (simp add: utf8_bytes_def x_def c_def b_def)
    have "a < 16" "a = 0 \<longrightarrow> 32 \<le> b" using eqs 3 by linarith+
    moreover have "a = 13 \<longrightarrow> b < 32" using eqs assms unfolding scalar_def by linarith
    moreover have "cp = a * 4096 + b * 64 + c" using eqs by linarith
    ultimately show thesis using that(3) eqs(3,4) bytes by blast
  next
    case 4
    define x d where "x = cp div 64" and "d = cp mod 64"
    define y c where "y = x div 64" and "c = x mod 64"
    define a b where "a = y div 64" and "b = y mod 64"
    have eqs: "cp = x * 64 + d" "x = y * 64 + c" "y = a * 64 + b" "d < 64" "c < 64" "b < 64"
      by (simp_all add: x_def c_def a_def b_def d_def y_def)
    have "cp div 4096 = y" "cp div 262144 = a" by (simp_all add: x_def y_def a_def div_mult2_eq [symmetric])
    then have bytes: "utf8_bytes cp = [byte_of (0xF0 + a), byte_of (0x80 + b), byte_of (0x80 + c), byte_of (0x80 + d)]"
      using 4 by (simp add: utf8_bytes_def x_def c_def b_def d_def)
    from assms 4 have "cp < 0x110000" by (simp add: scalar_def)
    with 4 eqs have "a < 5" "a = 0 \<longrightarrow> 16 \<le> b" "a = 4 \<longrightarrow> b < 16" by linarith+
    moreover have "cp = a * 262144 + b * 4096 + c * 64 + d" using eqs by linarith
    ultimately show thesis using that(4) eqs(4,5,6) bytes by blast
  qed
qed

lemma u8_run_bytes:
  assumes "scalar cp"
  shows "u8_run None (utf8_bytes cp @ rest) = Some cp # u8_run None rest"
  using assms by (rule utf8_bytes_cases) (simp_all only: append.simps u8_run1 u8_run2 u8_run3 u8_run4)

section \<open>Decoding, then encoding\<close>

lemma divmod64: "c < 64 \<Longrightarrow> (x * 64 + c) div 64 = (x :: nat)" "c < 64 \<Longrightarrow> (x * 64 + c) mod 64 = c"
  by simp_all

lemma utf8_bytes2: "2 \<le> a \<Longrightarrow> a < 32 \<Longrightarrow> c < 64 \<Longrightarrow>
    utf8_bytes (a * 64 + c) = [byte_of (0xC0 + a), byte_of (0x80 + c)] \<and> scalar (a * 64 + c)"
  by (simp add: utf8_bytes_def scalar_def)

lemma utf8_bytes3:
  assumes "a < 16" "b < 64" "c < 64" "a = 0 \<longrightarrow> 32 \<le> b" "a = 13 \<longrightarrow> b < 32"
  shows "utf8_bytes (a * 4096 + b * 64 + c) = [byte_of (0xE0 + a), byte_of (0x80 + b), byte_of (0x80 + c)] \<and>
    scalar (a * 4096 + b * 64 + c)"
proof -
  let ?n = "a * 4096 + b * 64 + c"
  have x: "?n = (a * 64 + b) * 64 + c" by simp
  have "?n div 64 = a * 64 + b" "?n mod 64 = c" unfolding x by (simp_all only: divmod64 assms)
  moreover have "?n div 4096 = ?n div 64 div 64" by (simp add: div_mult2_eq [symmetric])
  with calculation(1) have "?n div 4096 = a" "?n div 64 mod 64 = b"
    by (simp_all only: divmod64 assms)
  moreover have "\<not> ?n < 0x800" "?n < 0x10000"
    using assms by (cases "a = 0"; linarith)+
  moreover have "scalar ?n"
  proof -
    consider "a < 13" | "a = 13" | "13 < a" by linarith
    then show ?thesis using assms by cases (simp_all add: scalar_def)
  qed
  ultimately show ?thesis using assms by (simp add: utf8_bytes_def)
qed

lemma utf8_bytes4:
  assumes "a < 5" "b < 64" "c < 64" "d < 64" "a = 0 \<longrightarrow> 16 \<le> b" "a = 4 \<longrightarrow> b < 16"
  shows "utf8_bytes (a * 262144 + b * 4096 + c * 64 + d) =
      [byte_of (0xF0 + a), byte_of (0x80 + b), byte_of (0x80 + c), byte_of (0x80 + d)] \<and>
    scalar (a * 262144 + b * 4096 + c * 64 + d)"
proof -
  let ?n = "a * 262144 + b * 4096 + c * 64 + d"
  define y x where "y = a * 64 + b" and "x = y * 64 + c"
  have n: "?n = x * 64 + d" by (simp add: x_def y_def)
  have 1: "?n div 64 = x" "?n mod 64 = d" unfolding n by (simp_all only: divmod64 assms)
  have 2: "x div 64 = y" "x mod 64 = c" "y div 64 = a" "y mod 64 = b" unfolding x_def y_def by (simp_all only: divmod64 assms)
  have "?n div 4096 = ?n div 64 div 64" "?n div 262144 = ?n div 64 div 64 div 64"
    by (simp_all add: div_mult2_eq [symmetric])
  with 1 2 have "?n div 4096 = y" "?n div 262144 = a" by simp_all
  moreover have "\<not> ?n < 0x10000" "?n < 0x110000"
    using assms by (cases "a = 0"; linarith)+
  ultimately show ?thesis using 1 2 by (simp add: utf8_bytes_def scalar_def)
qed

lemma u8_run_pending:
  assumes "None \<notin> set (u8_run (Some (cp, n, lo, hi)) bs)" "0x80 \<le> lo" "hi \<le> 0xBF"
  obtains k rest where "bs = byte_of (0x80 + k) # rest" "lo \<le> 0x80 + k" "0x80 + k \<le> hi" "k < 64"
    "u8_run (Some (cp, n, lo, hi)) bs = (if n = 1 then Some (cp * 64 + k) # u8_run None rest
       else u8_run (Some (cp * 64 + k, n - 1, 0x80, 0xBF)) rest)"
proof (cases bs)
  case (Cons c rest)
  with assms have c: "lo \<le> unat c" "unat c \<le> hi" by (auto split: if_splits)
  show thesis
    using that [of "unat c - 0x80" rest] c assms(2,3) Cons continuation_mod [of "unat c - 0x80"]
    by (simp add: le_imp_diff_is_add)
qed (use assms in simp)

lemma u8_run_canonical:
  "None \<notin> set (u8_run None bs) \<Longrightarrow>
   \<exists>cps. u8_run None bs = map Some cps \<and> concat (map utf8_bytes cps) = bs \<and> (\<forall>cp \<in> set cps. scalar cp)"
proof (induction bs rule: length_induct)
  case (1 bs)
  note canon = 1(2)
  have extend: "\<exists>cps. u8_run None bs = map Some cps \<and> concat (map utf8_bytes cps) = bs \<and> (\<forall>cp \<in> set cps. scalar cp)"
    if "u8_run None bs = Some cp # u8_run None rest" "bs = utf8_bytes cp @ rest" "scalar cp" "utf8_bytes cp \<noteq> []" for cp rest
  proof -
    from that 1 obtain cps where "u8_run None rest = map Some cps" "concat (map utf8_bytes cps) = rest"
      "\<forall>cp \<in> set cps. scalar cp" by (metis (no_types, lifting) append_is_Nil_conv length_append length_greater_0_conv less_add_same_cancel2 list.set_intros(2))
    with that show ?thesis by (intro exI [of _ "cp # cps"]) simp
  qed
  show ?case
  proof (cases bs)
    case (Cons b rest)
    consider (1) "unat b < 0x80" | (2) "0xC2 \<le> unat b" "unat b \<le> 0xDF" | (3) "0xE0 \<le> unat b" "unat b \<le> 0xEF"
      | (4) "0xF0 \<le> unat b" "unat b \<le> 0xF4"
      using Cons canon by (auto simp: u8_lead_def split: if_splits)
    then show ?thesis
    proof cases
      case 1
      then show ?thesis
        using Cons by (intro extend [of "unat b" rest]) (simp_all add: u8_lead_def utf8_bytes_def scalar_def)
    next
      case 2
      define a where "a = unat b - 0xC0"
      have b: "b = byte_of (0xC0 + a)" "2 \<le> a" "a < 32" using 2 by (auto simp: a_def)
      have run: "u8_run None bs = u8_run (Some (a, 1, 0x80, 0xBF)) rest"
        using 2 Cons by (simp add: u8_lead_def a_def)
      obtain c r where "rest = byte_of (0x80 + c) # r" "c < 64"
          "u8_run (Some (a, 1, 0x80, 0xBF)) rest = Some (a * 64 + c) # u8_run None r"
        using canon by (auto simp: run elim!: u8_run_pending)
      then show ?thesis using run Cons b utf8_bytes2 [of a c] by (intro extend [of "a * 64 + c" r]) simp_all
    next
      case 3
      define a where "a = unat b - 0xE0"
      define lo hi where "lo = (if a = 0 then 0xA0 else 0x80 :: nat)" and "hi = (if a = 13 then 0x9F else 0xBF :: nat)"
      have b: "b = byte_of (0xE0 + a)" "a < 16" using 3 by (auto simp: a_def)
      have run: "u8_run None bs = u8_run (Some (a, 2, lo, hi)) rest"
        using 3 Cons by (auto simp: u8_lead_def a_def lo_def hi_def)
      obtain k r where k: "rest = byte_of (0x80 + k) # r" "lo \<le> 0x80 + k" "0x80 + k \<le> hi" "k < 64"
          "u8_run (Some (a, 2, lo, hi)) rest = u8_run (Some (a * 64 + k, 1, 0x80, 0xBF)) r"
        using canon by (auto simp: run lo_def hi_def elim!: u8_run_pending)
      obtain c r' where c: "r = byte_of (0x80 + c) # r'" "c < 64"
          "u8_run (Some (a * 64 + k, 1, 0x80, 0xBF)) r = Some ((a * 64 + k) * 64 + c) # u8_run None r'"
        using canon by (auto simp: run k(5) elim!: u8_run_pending)
      have "a = 0 \<longrightarrow> 32 \<le> k" "a = 13 \<longrightarrow> k < 32" using k(2,3) by (auto simp: lo_def hi_def)
      then show ?thesis using run Cons b k c utf8_bytes3 [of a k c]
        by (intro extend [of "a * 4096 + k * 64 + c" r']) simp_all
    next
      case 4
      define a where "a = unat b - 0xF0"
      define lo hi where "lo = (if a = 0 then 0x90 else 0x80 :: nat)" and "hi = (if a = 4 then 0x8F else 0xBF :: nat)"
      have b: "b = byte_of (0xF0 + a)" "a < 5" using 4 by (auto simp: a_def)
      have run: "u8_run None bs = u8_run (Some (a, 3, lo, hi)) rest"
        using 4 Cons by (auto simp: u8_lead_def a_def lo_def hi_def)
      obtain k r where k: "rest = byte_of (0x80 + k) # r" "lo \<le> 0x80 + k" "0x80 + k \<le> hi" "k < 64"
          "u8_run (Some (a, 3, lo, hi)) rest = u8_run (Some (a * 64 + k, 2, 0x80, 0xBF)) r"
        using canon by (auto simp: run lo_def hi_def elim!: u8_run_pending)
      obtain c r' where c: "r = byte_of (0x80 + c) # r'" "c < 64"
          "u8_run (Some (a * 64 + k, 2, 0x80, 0xBF)) r = u8_run (Some ((a * 64 + k) * 64 + c, 1, 0x80, 0xBF)) r'"
        using canon by (auto simp: run k(5) elim!: u8_run_pending)
      obtain d r'' where d: "r' = byte_of (0x80 + d) # r''" "d < 64"
          "u8_run (Some ((a * 64 + k) * 64 + c, 1, 0x80, 0xBF)) r' = Some (((a * 64 + k) * 64 + c) * 64 + d) # u8_run None r''"
        using canon by (auto simp: run k(5) c(3) elim!: u8_run_pending)
      have "a = 0 \<longrightarrow> 16 \<le> k" "a = 4 \<longrightarrow> k < 16" using k(2,3) by (auto simp: lo_def hi_def)
      then show ?thesis using run Cons b k c d utf8_bytes4 [of a k c d]
        by (intro extend [of "a * 262144 + k * 4096 + c * 64 + d" r'']) simp_all
    qed
  qed simp
qed

section \<open>UTF-16\<close>

text \<open>A string is well formed when every surrogate is part of a pair.\<close>

fun well_formed :: "jsstr \<Rightarrow> bool" where
  "well_formed (u # v # rest) =
     (if is_high u \<and> is_low v then well_formed rest
      else \<not> is_high u \<and> \<not> is_low u \<and> well_formed (v # rest))"
| "well_formed [u] = (\<not> is_high u \<and> \<not> is_low u)"
| "well_formed [] = True"

lemma unat_unit_bound: "unat (u :: 16 word) < 0x10000"
proof -
  have "(unsigned u :: nat) < 2 ^ LENGTH(16)" by (rule unsigned_less)
  then show ?thesis by simp
qed

lemma units_pair:
  assumes "is_high u" "is_low v"
  shows "units_of (0x10000 + (unat u - 0xD800) * 0x400 + (unat v - 0xDC00)) = [u, v]"
    and "scalar (0x10000 + (unat u - 0xD800) * 0x400 + (unat v - 0xDC00))"
proof -
  define h l where "h = unat u - 0xD800" and "l = unat v - 0xDC00"
  have bounds: "l < 0x400" "h < 0x400" using assms by (auto simp: is_high_def is_low_def h_def l_def)
  have uv: "unit_of (0xD800 + h) = u" "unit_of (0xDC00 + l) = v"
    using assms by (auto simp: is_high_def is_low_def h_def l_def)
  show "units_of (0x10000 + (unat u - 0xD800) * 0x400 + (unat v - 0xDC00)) = [u, v]"
    using bounds uv unfolding h_def [symmetric] l_def [symmetric] by (simp add: units_of_def)
  have "h * 0x400 \<le> 0x3FF * 0x400" using bounds by (intro mult_right_mono) auto
  with bounds show "scalar (0x10000 + (unat u - 0xD800) * 0x400 + (unat v - 0xDC00))"
    unfolding h_def [symmetric] l_def [symmetric] by (simp add: scalar_def)
qed

lemma units_single: "\<not> is_high u \<Longrightarrow> \<not> is_low u \<Longrightarrow> scalar_unit u = unat u \<and> units_of (unat u) = [u] \<and> scalar (unat u)"
  using unat_unit_bound [of u] by (auto simp: scalar_unit_def units_of_def is_high_def is_low_def scalar_def)

lemma scalars_scalar: "cp \<in> set (scalars s) \<Longrightarrow> scalar cp"
proof (induction s rule: scalars.induct)
  case (1 u v rest)
  then show ?case
    using units_pair(2) [of u v] units_single [of u] by (auto simp: scalar_unit_def scalar_def split: if_splits)
next
  case (2 u)
  then show ?case using units_single [of u] by (auto simp: scalar_unit_def scalar_def split: if_splits)
qed simp

lemma from_scalars_scalars: "well_formed s \<Longrightarrow> from_scalars (scalars s) = s"
proof (induction s rule: scalars.induct)
  case (1 u v rest)
  then show ?case
    using units_pair(1) [of u v] units_single [of u] by (auto simp: from_scalars_def split: if_splits)
qed (auto simp: from_scalars_def units_single)

lemma scalars_units:
  assumes "scalar cp"
  shows "scalars (units_of cp @ rest) = cp # scalars rest"
proof (cases "cp < 0x10000")
  case True
  then have "\<not> is_high (unit_of cp)" "\<not> is_low (unit_of cp)"
    using assms by (auto simp: is_high_def is_low_def scalar_def unat_unit)
  with True show ?thesis
    by (cases rest) (simp_all add: units_of_def scalar_unit_def unat_unit)
next
  case False
  define q r where "q = (cp - 0x10000) div 0x400" and "r = (cp - 0x10000) mod 0x400"
  have cp: "cp = 0x10000 + q * 0x400 + r" "r < 0x400" using False by (simp_all add: q_def r_def)
  from assms False have "cp < 0x110000" by (simp add: scalar_def)
  with cp have q: "q < 0x400" by linarith
  then have "is_high (unit_of (0xD800 + q))" "is_low (unit_of (0xDC00 + r))"
    using cp(2) by (auto simp: is_high_def is_low_def unat_unit)
  moreover have "units_of cp = [unit_of (0xD800 + q), unit_of (0xDC00 + r)]"
    using False by (simp add: units_of_def q_def r_def)
  ultimately show ?thesis using q cp by (simp add: unat_unit)
qed

lemma scalars_from_scalars: "\<forall>cp \<in> set cps. scalar cp \<Longrightarrow> scalars (from_scalars cps) = cps"
  by (induction cps) (simp_all add: from_scalars_def scalars_units)

lemma u8_run_scalars: "\<forall>cp \<in> set cps. scalar cp \<Longrightarrow> u8_run None (concat (map utf8_bytes cps)) = map Some cps"
  by (induction cps) (simp_all add: u8_run_bytes)

section \<open>Round trips of strings\<close>

definition starts_with_bom :: "jsstr \<Rightarrow> bool" where
  "starts_with_bom s \<longleftrightarrow> s \<noteq> [] \<and> hd s = 0xFEFF"

lemma not_bom_strip: "well_formed s \<Longrightarrow> \<not> starts_with_bom s \<Longrightarrow> strip_bom (scalars s) = scalars s"
proof (cases s rule: scalars.cases)
  case (1 u v rest)
  assume "well_formed s" "\<not> starts_with_bom s"
  moreover have "unat u = 0xFEFF \<longleftrightarrow> u = 0xFEFF" by (simp add: word_unat_eq_iff)
  ultimately show ?thesis using 1 units_single [of u] by (auto simp: starts_with_bom_def split: if_splits)
next
  case (2 u)
  assume "well_formed s" "\<not> starts_with_bom s"
  moreover have "unat u = 0xFEFF \<longleftrightarrow> u = 0xFEFF" by (simp add: word_unat_eq_iff)
  ultimately show ?thesis using 2 units_single [of u] by (auto simp: starts_with_bom_def)
qed simp

lemma decode_fatal_encode:
  "decode_fatal (TextEncoder_encode s) = Inr (from_scalars (strip_bom (scalars s)))"
  using u8_run_scalars [of "scalars s"] scalars_scalar [of _ s]
  by (simp add: decode_fatal_def TextEncoder_encode_def comp_def)

lemma decode_fatal_roundtrip:
  "well_formed s \<Longrightarrow> \<not> starts_with_bom s \<Longrightarrow> decode_fatal (TextEncoder_encode s) = Inr s"
  by (simp add: decode_fatal_encode not_bom_strip from_scalars_scalars)

text \<open>A leading byte order mark is lost.\<close>

lemma decode_fatal_bom:
  "well_formed s \<Longrightarrow> decode_fatal (TextEncoder_encode (0xFEFF # s)) = Inr s"
proof -
  assume "well_formed s"
  moreover have "scalars (0xFEFF # s) = 0xFEFF # scalars s"
    by (cases s) (simp_all add: is_high_def is_low_def scalar_unit_def)
  ultimately show ?thesis by (simp add: decode_fatal_encode from_scalars_scalars)
qed

definition bom_bytes :: "byte list" where
  "bom_bytes = [0xEF, 0xBB, 0xBF]"

text \<open>What the strict decoder accepts is the encoding of its result, up to a byte order mark.\<close>

lemma decode_fatal_canonical:
  assumes "decode_fatal bs = Inr s"
  shows "bs = TextEncoder_encode s \<or> bs = bom_bytes @ TextEncoder_encode s"
proof -
  have "None \<notin> set (u8_run None bs)"
    using assms by (auto simp: decode_fatal_def Let_def split: if_splits)
  then obtain cps where cps: "u8_run None bs = map Some cps" "concat (map utf8_bytes cps) = bs"
      "\<forall>cp \<in> set cps. scalar cp"
    using u8_run_canonical by blast
  then have s: "s = from_scalars (strip_bom cps)"
    using assms by (auto simp: decode_fatal_def Let_def comp_def split: if_splits)
  show ?thesis
  proof (cases "\<exists>rest. cps = 0xFEFF # rest")
    case True
    then obtain rest where "cps = 0xFEFF # rest" by blast
    moreover have "utf8_bytes 0xFEFF = bom_bytes" by (simp add: utf8_bytes_def bom_bytes_def byte_of_def)
    ultimately show ?thesis
      using s cps by (auto simp: TextEncoder_encode_def scalars_from_scalars)
  next
    case False
    then have "strip_bom cps = cps" by (cases cps) auto
    then show ?thesis using s cps by (simp add: TextEncoder_encode_def scalars_from_scalars)
  qed
qed

section \<open>base64url of strings\<close>

datatype b64_string_error = B64 base64_error | InvalidText

definition base64UrlEncodeString :: "jsstr \<Rightarrow> jsstr" where
  "base64UrlEncodeString input = base64UrlEncode (TextEncoder_encode input)"

definition base64UrlDecodeString :: "jsstr \<Rightarrow> (b64_string_error, jsstr) result" where
  "base64UrlDecodeString input =
     (case base64UrlDecode input of
        Inl e \<Rightarrow> Inl (B64 e)
      | Inr bs \<Rightarrow> (case decode_fatal bs of Inl _ \<Rightarrow> Inl InvalidText | Inr s \<Rightarrow> Inr s))"

text \<open>a well-formed string survives the base64url string codec unchanged, except that one
  leading byte order mark is dropped by the decoder.\<close>
theorem base64_string_roundtrip:
  assumes "well_formed s"
  shows "base64UrlDecodeString (base64UrlEncodeString s) = Inr (if starts_with_bom s then tl s else s)"
proof -
  have "decode_fatal (TextEncoder_encode s) = Inr (if starts_with_bom s then tl s else s)"
  proof (cases "starts_with_bom s")
    case True
    then obtain t where "s = 0xFEFF # t" by (cases s) (auto simp: starts_with_bom_def)
    with True assms show ?thesis
      by (cases t) (auto simp: decode_fatal_bom is_high_def is_low_def)
  qed (simp add: assms decode_fatal_roundtrip)
  then show ?thesis
    by (simp add: base64UrlDecodeString_def base64UrlEncodeString_def)
qed

lemma base64_string_roundtrip_witness:
  "base64UrlDecodeString (base64UrlEncodeString (0xFEFF # js_str ''ok'')) = Inr (js_str ''ok'')"
  using base64_string_roundtrip [of "0xFEFF # js_str ''ok''"]
  by (simp add: js_str_def starts_with_bom_def is_high_def is_low_def)

lemma decode_lenient_roundtrip:
  "well_formed s \<Longrightarrow> \<not> starts_with_bom s \<Longrightarrow> decode_lenient (TextEncoder_encode s) = s"
  using u8_run_scalars [of "scalars s"] scalars_scalar [of _ s]
  by (simp add: decode_lenient_def TextEncoder_encode_def comp_def not_bom_strip from_scalars_scalars)

end
