(* ===== verification/Frames.thy ===== *)
theory Frames
  imports Utf8
begin

text \<open>
  Application frames and their wire formats:
  \<^verbatim>\<open>di-framework-socket/src/core/frame.ts\<close> and \<^verbatim>\<open>core/framing.ts\<close>.

  A framer is its buffer and its limit; \<open>push\<close> returns what the method returns or throws,
  together with the framer left behind.  The lemmas show that a stream cut into chunks at any
  place is reassembled, that the buffer stays bounded, that a poisoned stream fails for good,
  and that the datagram envelope round-trips.
\<close>

section \<open>Frames\<close>

datatype frame_kind = TextKind | BinaryKind

record socket_frame =
  f_kind :: frame_kind
  f_data :: "byte list"
  f_text :: "jsstr option"

datatype frame_error =
    CannotReinterpret frame_kind frame_kind
  | UnknownKindByte nat
  | MalformedText
  | FrameTooLong nat
  | MissingKindByte
  | PayloadTooLong nat
  | SessionIdTooLong
  | EnvelopeTooShort
  | MagicMismatch
  | UnsupportedVersion
  | EnvelopeTruncated

datatype send_input = SendString jsstr | SendBytes "byte list" | SendFrame socket_frame

definition textFrame :: "jsstr \<Rightarrow> socket_frame" where
  "textFrame text = \<lparr>f_kind = TextKind, f_data = TextEncoder_encode text, f_text = Some text\<rparr>"

definition binaryFrame :: "byte list \<Rightarrow> socket_frame" where
  "binaryFrame data = \<lparr>f_kind = BinaryKind, f_data = data, f_text = None\<rparr>"

definition text_of_bytes :: "byte list \<Rightarrow> (frame_error, socket_frame) result" where
  "text_of_bytes bytes = (case decode_fatal bytes of Inl _ \<Rightarrow> Inl MalformedText | Inr s \<Rightarrow> Inr (textFrame s))"

definition toFrame :: "send_input \<Rightarrow> frame_kind option \<Rightarrow> (frame_error, socket_frame) result" where
  "toFrame input kind =
     (case input of
        SendFrame f \<Rightarrow>
          (case kind of
             Some k \<Rightarrow> if k \<noteq> f_kind f then Inl (CannotReinterpret (f_kind f) k) else Inr f
           | None \<Rightarrow> Inr f)
      | SendString s \<Rightarrow>
          (case (case kind of None \<Rightarrow> TextKind | Some k \<Rightarrow> k) of
             BinaryKind \<Rightarrow> Inr (binaryFrame (TextEncoder_encode s))
           | TextKind \<Rightarrow> Inr (textFrame s))
      | SendBytes bytes \<Rightarrow>
          (case (case kind of None \<Rightarrow> BinaryKind | Some k \<Rightarrow> k) of
             TextKind \<Rightarrow> text_of_bytes bytes
           | BinaryKind \<Rightarrow> Inr (binaryFrame bytes)))"

definition kindToByte :: "frame_kind \<Rightarrow> byte" where
  "kindToByte k = (if k = TextKind then 0 else 1)"

definition kindFromByte :: "byte \<Rightarrow> (frame_error, frame_kind) result" where
  "kindFromByte b = (if b = 0 then Inr TextKind else if b = 1 then Inr BinaryKind
                     else Inl (UnknownKindByte (unat b)))"

definition kindToWire :: "frame_kind \<Rightarrow> string" where
  "kindToWire k = (case k of TextKind \<Rightarrow> ''text'' | BinaryKind \<Rightarrow> ''binary'')"

text \<open>\<open>None\<close> stands for a value that is not a string.\<close>

definition kindFromWire :: "string option \<Rightarrow> frame_kind" where
  "kindFromWire v = (if v = Some ''text'' then TextKind else if v = Some ''binary'' then BinaryKind
                     else BinaryKind)"

section \<open>Length-prefix framing\<close>

definition MAX_DEFAULT :: nat where
  "MAX_DEFAULT = 1048576"

record framer =
  fr_buffer :: "byte list"
  fr_max :: nat

definition new_framer :: "nat \<Rightarrow> framer" where
  "new_framer maxPayloadBytes = \<lparr>fr_buffer = [], fr_max = maxPayloadBytes\<rparr>"

definition framer_reset :: "framer \<Rightarrow> framer" where
  "framer_reset fr = fr\<lparr>fr_buffer := []\<rparr>"

definition prefix_length :: "byte list \<Rightarrow> nat" where
  "prefix_length buf = unat (((push_bit 24 (ucast (buf ! 0)) OR push_bit 16 (ucast (buf ! 1)))
     OR push_bit 8 (ucast (buf ! 2))) OR ucast (buf ! 3) :: 32 word)"

definition decodeFramedBody :: "byte list \<Rightarrow> (frame_error, socket_frame) result" where
  "decodeFramedBody body =
     rbind (kindFromByte (body ! 0)) (\<lambda>kind.
       let payload = drop 1 body
       in if kind = TextKind then text_of_bytes payload else Inr (binaryFrame payload))"

text \<open>The loop of \<open>push\<close>: the buffer and the frames collected so far.\<close>

function push_loop :: "nat \<Rightarrow> byte list \<Rightarrow> socket_frame list \<Rightarrow> (frame_error, socket_frame list) result \<times> byte list" where
  "push_loop mx buf frames =
     (if length buf < 4 then (Inr frames, buf)
      else let len = prefix_length buf in
        if len > mx + 1 then (Inl (FrameTooLong len), buf)
        else if len < 1 then (Inl MissingKindByte, buf)
        else if length buf < 4 + len then (Inr frames, buf)
        else case decodeFramedBody (js_slice 4 (4 + len) buf) of
               Inl e \<Rightarrow> (Inl e, buf)
             | Inr f \<Rightarrow> push_loop mx (drop (4 + len) buf) (frames @ [f]))"
  by pat_completeness auto
termination
  by (relation "measure (\<lambda>(mx, buf, frames). length buf)") auto

declare push_loop.simps [simp del]

definition push :: "byte list \<Rightarrow> framer \<Rightarrow> (frame_error, socket_frame list) result \<times> framer" where
  "push chunk fr = (case push_loop (fr_max fr) (fr_buffer fr @ chunk) [] of
     (r, buf) \<Rightarrow> (r, fr\<lparr>fr_buffer := buf\<rparr>))"

text \<open>The argument of the encoders: a frame, or bytes with the kind to give them.\<close>

datatype frame_arg = Frame socket_frame | Bytes "byte list" frame_kind

definition encodeLengthPrefix :: "frame_arg \<Rightarrow> nat \<Rightarrow> (frame_error, byte list) result" where
  "encodeLengthPrefix frame maxPayloadBytes =
     rbind (case frame of
              Bytes b kind \<Rightarrow> if kind = TextKind then text_of_bytes b
                              else Inr \<lparr>f_kind = kind, f_data = b, f_text = None\<rparr>
            | Frame f \<Rightarrow> Inr f) (\<lambda>f.
       if length (f_data f) > maxPayloadBytes then Inl (PayloadTooLong (length (f_data f)))
       else let bodyLen = word_of_nat (1 + length (f_data f)) :: 32 word
            in Inr ([ucast (drop_bit 24 bodyLen AND 255), ucast (drop_bit 16 bodyLen AND 255),
                     ucast (drop_bit 8 bodyLen AND 255), ucast (bodyLen AND 255),
                     kindToByte (f_kind f)] @ f_data f))"

section \<open>Datagram envelopes\<close>

definition UDP_MAGIC :: "byte list" where
  "UDP_MAGIC = [0xdf, 0x53]"

definition UDP_ENVELOPE_VERSION :: byte where
  "UDP_ENVELOPE_VERSION = 1"

definition encodeUdpEnvelope :: "jsstr \<Rightarrow> int \<Rightarrow> frame_arg \<Rightarrow> (frame_error, byte list) result" where
  "encodeUdpEnvelope sessionId seq frame =
     rbind (case frame of
              Bytes b kind \<Rightarrow> if kind = TextKind then text_of_bytes b else Inr (binaryFrame b)
            | Frame f \<Rightarrow> Inr f) (\<lambda>f.
       let sid = TextEncoder_encode sessionId
       in if length sid > 255 then Inl SessionIdTooLong
          else Inr ([UDP_MAGIC ! 0, UDP_MAGIC ! 1, UDP_ENVELOPE_VERSION, kindToByte (f_kind f),
                     word_of_nat (length sid)] @ sid
                    @ map (\<lambda>i. word_of_int (drop_bit ((7 - i) * 8) seq AND 255)) [0..<8]
                    @ f_data f))"

record envelope =
  env_sessionId :: jsstr
  env_seq :: int
  env_frame :: socket_frame

definition decodeUdpEnvelope :: "byte list \<Rightarrow> (frame_error, envelope) result" where
  "decodeUdpEnvelope datagram =
     (if length datagram < 2 + 1 + 1 + 1 + 8 then Inl EnvelopeTooShort
      else if datagram ! 0 \<noteq> UDP_MAGIC ! 0 \<or> datagram ! 1 \<noteq> UDP_MAGIC ! 1 then Inl MagicMismatch
      else if datagram ! 2 \<noteq> UDP_ENVELOPE_VERSION then Inl UnsupportedVersion
      else rbind (kindFromByte (datagram ! 3)) (\<lambda>kind.
        let sidLen = unat (datagram ! 4)
        in if length datagram < 5 + sidLen + 8 then Inl EnvelopeTruncated
           else let sessionId = decode_lenient (js_slice 5 (5 + sidLen) datagram);
                    seqOff = 5 + sidLen;
                    seq = foldl (\<lambda>v i. push_bit 8 v OR uint (datagram ! (seqOff + i))) 0 [0..<8];
                    payload = drop (seqOff + 8) datagram
                in rbind (if kind = TextKind then text_of_bytes payload else Inr (binaryFrame payload)) (\<lambda>f.
                     Inr \<lparr>env_sessionId = sessionId, env_seq = seq, env_frame = f\<rparr>)))"

section \<open>One frame\<close>

text \<open>A frame the wire formats preserve: binary, or text whose string is well formed and has no
  leading byte order mark.\<close>

definition wire_frame :: "socket_frame \<Rightarrow> bool" where
  "wire_frame f = (case f_text f of
     None \<Rightarrow> f = binaryFrame (f_data f)
   | Some s \<Rightarrow> f = textFrame s \<and> well_formed s \<and> \<not> starts_with_bom s)"

lemma text_of_bytes_encode:
  "well_formed s \<Longrightarrow> \<not> starts_with_bom s \<Longrightarrow> text_of_bytes (TextEncoder_encode s) = Inr (textFrame s)"
  by (simp add: text_of_bytes_def decode_fatal_roundtrip)

lemma wire_frame_cases [consumes 1, case_names TextFrame BinaryFrame]:
  assumes "wire_frame f"
  obtains s where "f = textFrame s" "well_formed s" "\<not> starts_with_bom s" | d where "f = binaryFrame d"
  using assms by (cases "f_text f") (auto simp: wire_frame_def)

lemma kindFromByte_kindToByte [simp]: "kindFromByte (kindToByte k) = Inr k"
  by (cases k) (simp_all add: kindFromByte_def kindToByte_def)

lemma kindFromWire_kindToWire: "kindFromWire (Some (kindToWire k)) = k"
  by (cases k) (simp_all add: kindFromWire_def kindToWire_def)

text \<open>Reading a payload of a known kind.\<close>

definition payload_frame :: "frame_kind \<Rightarrow> byte list \<Rightarrow> (frame_error, socket_frame) result" where
  "payload_frame k payload = (if k = TextKind then text_of_bytes payload else Inr (binaryFrame payload))"

lemma payload_wire_frame: "wire_frame f \<Longrightarrow> payload_frame (f_kind f) (f_data f) = Inr f"
  by (cases f rule: wire_frame_cases) (simp_all add: payload_frame_def textFrame_def binaryFrame_def
      text_of_bytes_encode [unfolded textFrame_def])

lemma decodeFramedBody_encoded: "wire_frame f \<Longrightarrow> decodeFramedBody (kindToByte (f_kind f) # f_data f) = Inr f"
  using payload_wire_frame [of f] by (simp add: decodeFramedBody_def payload_frame_def)

definition be4 :: "32 word \<Rightarrow> byte list" where
  "be4 w = [ucast (drop_bit 24 w AND 255), ucast (drop_bit 16 w AND 255), ucast (drop_bit 8 w AND 255), ucast (w AND 255)]"

lemma shifted_bit: "bit w n \<Longrightarrow> \<not> bit w (k + (n - k)) \<Longrightarrow> n < k"
  by (rule ccontr) simp

lemma prefix_length_be4: "prefix_length (be4 w @ rest) = unat w"
proof -
  have "((push_bit 24 (ucast (ucast (drop_bit 24 w AND 255) :: byte)) OR push_bit 16 (ucast (ucast (drop_bit 16 w AND 255) :: byte)))
     OR push_bit 8 (ucast (ucast (drop_bit 8 w AND 255) :: byte))) OR ucast (ucast (w AND 255) :: byte) = w"
    unfolding and_mask8 by (rule bit_word_eqI) (auto simp: bit_simps dest: shifted_bit)
  then show ?thesis by (simp only: prefix_length_def be4_def append.simps nth_Cons_0 nth_Cons_numeral) (simp add: numeral_eq_Suc)
qed

lemma prefix_length_take: "4 \<le> length buf \<Longrightarrow> prefix_length (buf @ c) = prefix_length buf"
  by (auto simp: prefix_length_def nth_append)

lemma encodeLengthPrefix_Frame:
  "length (f_data f) \<le> mx \<Longrightarrow>
   encodeLengthPrefix (Frame f) mx = Inr (be4 (word_of_nat (1 + length (f_data f))) @ kindToByte (f_kind f) # f_data f)"
  by (simp add: encodeLengthPrefix_def be4_def Let_def)

section \<open>The framer on a stream\<close>

lemma length_be4 [simp]: "length (be4 w) = 4"
  by (simp add: be4_def)

lemma push_loop_frame:
  assumes f: "wire_frame f" "length (f_data f) \<le> mx" and mx: "mx < 2 ^ 32 - 1"
    and enc: "encodeLengthPrefix (Frame f) mx = Inr bs"
  shows "push_loop mx (bs @ rest) frames = push_loop mx rest (frames @ [f])"
proof -
  define n where "n = 1 + length (f_data f)"
  have bs: "bs = be4 (word_of_nat n) @ kindToByte (f_kind f) # f_data f"
    using enc encodeLengthPrefix_Frame [OF f(2)] by (simp add: n_def)
  have len: "prefix_length (bs @ rest) = n"
    using f(2) mx by (simp add: bs prefix_length_be4 n_def unat_of_nat take_bit_eq_mod del: of_nat_add of_nat_Suc)
  have slice: "js_slice 4 (4 + n) (bs @ rest) = kindToByte (f_kind f) # f_data f" "drop (4 + n) (bs @ rest) = rest"
    by (simp_all add: bs js_slice_def n_def)
  show ?thesis
    using f(2) decodeFramedBody_encoded [OF f(1)] slice
    by (subst push_loop.simps) (simp add: len Let_def, simp add: bs n_def)
qed

lemma push_loop_frames:
  assumes "\<forall>f \<in> set fs. wire_frame f \<and> length (f_data f) \<le> mx" "mx < 2 ^ 32 - 1"
    and "traverse (\<lambda>f. encodeLengthPrefix (Frame f) mx) fs = Inr bss"
  shows "push_loop mx (concat bss) frames = (Inr (frames @ fs), [])"
  using assms
proof (induction fs arbitrary: bss frames)
  case Nil
  then show ?case by (simp add: push_loop.simps)
next
  case (Cons f fs)
  then show ?case by (auto simp: rbind_eq_Inr push_loop_frame)
qed

text \<open>Cutting the input: the loop on a longer buffer resumes where it stopped, and an error does
  not depend on what follows.\<close>

lemma push_loop_resume:
  "push_loop mx buf frames = (r, buf') \<Longrightarrow>
   push_loop mx (buf @ c) frames =
     (case r of Inl e \<Rightarrow> (Inl e, buf' @ c) | Inr fs \<Rightarrow> push_loop mx (buf' @ c) fs)"
proof (induction mx buf frames rule: push_loop.induct)
  case (1 mx buf frames)
  let ?len = "prefix_length buf"
  show ?case
  proof (cases "length buf < 4 \<or> ?len > mx + 1 \<or> ?len < 1 \<or> length buf < 4 + ?len")
    case True
    consider (wait) "length buf < 4 \<or> (?len \<le> mx + 1 \<and> 1 \<le> ?len \<and> length buf < 4 + ?len)"
      | (bad) "4 \<le> length buf" "?len > mx + 1 \<or> ?len < 1"
      using True by linarith
    then show ?thesis
    proof cases
      case wait
      then have "push_loop mx buf frames = (Inr frames, buf)"
        by (subst push_loop.simps) (auto simp: Let_def)
      with 1(2) show ?thesis by auto
    next
      case bad
      then show ?thesis
        using 1(2) by (subst push_loop.simps, subst (asm) push_loop.simps)
          (auto simp: Let_def prefix_length_take split: if_splits)
    qed
  next
    case False
    then have take: "prefix_length (buf @ c) = ?len" "js_slice 4 (4 + ?len) (buf @ c) = js_slice 4 (4 + ?len) buf"
        "drop (4 + ?len) (buf @ c) = drop (4 + ?len) buf @ c"
      by (simp_all add: prefix_length_take js_slice_def)
    show ?thesis
    proof (cases "decodeFramedBody (js_slice 4 (4 + ?len) buf)")
      case (Inl e)
      then have "push_loop mx buf frames = (Inl e, buf)" "push_loop mx (buf @ c) frames = (Inl e, buf @ c)"
        using False by (subst push_loop.simps; simp add: Let_def not_less take)+
      with 1(2) show ?thesis by auto
    next
      case (Inr f)
      have step: "push_loop mx buf frames = push_loop mx (drop (4 + ?len) buf) (frames @ [f])"
        using False Inr by (subst push_loop.simps) (simp add: Let_def not_less)
      have "push_loop mx (buf @ c) frames = push_loop mx (drop (4 + ?len) buf @ c) (frames @ [f])"
        using False Inr by (subst push_loop.simps) (simp add: Let_def not_less take)
      with 1(1) [OF _ refl _ _ _ Inr] False step 1(2) show ?thesis by (simp add: not_less)
    qed
  qed
qed

lemma push_loop_acc:
  "push_loop mx buf (pre @ frames) =
     (case push_loop mx buf frames of (Inl e, b) \<Rightarrow> (Inl e, b) | (Inr fs, b) \<Rightarrow> (Inr (pre @ fs), b))"
proof (induction mx buf frames rule: push_loop.induct)
  case (1 mx buf frames)
  let ?len = "prefix_length buf"
  show ?case
  proof (cases "length buf < 4 \<or> ?len > mx + 1 \<or> ?len < 1 \<or> length buf < 4 + ?len")
    case True
    then show ?thesis by (subst (1 2) push_loop.simps) (auto simp: Let_def)
  next
    case False
    then show ?thesis
      using 1 [OF _ refl] by (subst (1 2) push_loop.simps)
        (auto simp: Let_def not_less split: sum.split)
  qed
qed

text \<open>A buffer that holds no complete frame and no visible error.\<close>

definition quiescent :: "framer \<Rightarrow> bool" where
  "quiescent fr \<longleftrightarrow> push_loop (fr_max fr) (fr_buffer fr) [] = (Inr [], fr_buffer fr)"

lemma push_loop_quiescent:
  "push_loop mx buf frames = (Inr fs, buf') \<Longrightarrow> push_loop mx buf' [] = (Inr [], buf')"
proof (induction mx buf frames rule: push_loop.induct)
  case (1 mx buf frames)
  let ?len = "prefix_length buf"
  show ?case
  proof (cases "length buf < 4 \<or> ?len > mx + 1 \<or> ?len < 1 \<or> length buf < 4 + ?len")
    case True
    with 1(2) have "buf' = buf"
      by (subst (asm) push_loop.simps) (auto simp: Let_def split: if_splits)
    with True 1(2) show ?thesis
      by (subst push_loop.simps, subst (asm) push_loop.simps) (auto simp: Let_def split: if_splits)
  next
    case False
    with 1(2) obtain f where f: "decodeFramedBody (js_slice 4 (4 + ?len) buf) = Inr f"
      "push_loop mx (drop (4 + ?len) buf) (frames @ [f]) = (Inr fs, buf')"
      by (subst (asm) push_loop.simps) (auto simp: Let_def not_less split: sum.splits)
    from 1(1) [OF _ refl _ _ _ f(1) f(2)] False show ?thesis by (simp add: not_less)
  qed
qed

lemma push_quiescent: "push c fr = (Inr fs, fr') \<Longrightarrow> quiescent fr'"
  by (auto simp: push_def quiescent_def dest: push_loop_quiescent split: prod.splits)

lemma push_max: "push c fr = (r, fr') \<Longrightarrow> fr_max fr' = fr_max fr"
  by (auto simp: push_def split: prod.splits)

lemma push_resume:
  "push (c1 @ c2) fr =
     (case push c1 fr of
        (Inl e, fr1) \<Rightarrow> (Inl e, fr1\<lparr>fr_buffer := fr_buffer fr1 @ c2\<rparr>)
      | (Inr fs1, fr1) \<Rightarrow> (case push c2 fr1 of
            (Inl e, fr2) \<Rightarrow> (Inl e, fr2) | (Inr fs2, fr2) \<Rightarrow> (Inr (fs1 @ fs2), fr2)))"
proof -
  obtain r b where run: "push_loop (fr_max fr) (fr_buffer fr @ c1) [] = (r, b)" by fastforce
  note resume = push_loop_resume [OF run, of c2]
  show ?thesis
  proof (cases r)
    case (Inl e)
    with run resume show ?thesis by (simp add: push_def)
  next
    case (Inr fs)
    obtain r2 b2 where run2: "push_loop (fr_max fr) (b @ c2) [] = (r2, b2)" by fastforce
    from push_loop_acc [of "fr_max fr" "b @ c2" fs "[]"]
    have "push_loop (fr_max fr) (b @ c2) fs =
        (case r2 of Inl e \<Rightarrow> (Inl e, b2) | Inr fs2 \<Rightarrow> (Inr (fs @ fs2), b2))"
      by (simp only: append_Nil2 run2 prod.case)
    with run run2 resume Inr show ?thesis by (cases r2) (simp_all add: push_def)
  qed
qed

section \<open>Feeding a list of chunks\<close>

fun push_all :: "byte list list \<Rightarrow> framer \<Rightarrow> (frame_error, socket_frame list) result \<times> framer" where
  "push_all [] fr = (Inr [], fr)"
| "push_all (c # cs) fr =
     (case push c fr of
        (Inl e, fr1) \<Rightarrow> (Inl e, fr1)
      | (Inr fs, fr1) \<Rightarrow> (case push_all cs fr1 of
            (Inl e, fr2) \<Rightarrow> (Inl e, fr2) | (Inr gs, fr2) \<Rightarrow> (Inr (fs @ gs), fr2)))"

lemma push_all_concat:
  "quiescent fr \<Longrightarrow> push (concat cs) fr = (Inr fs, fr') \<Longrightarrow> push_all cs fr = (Inr fs, fr')"
proof (induction cs arbitrary: fr fs)
  case Nil
  then show ?case by (auto simp: push_def quiescent_def)
next
  case (Cons c cs)
  obtain r fr1 where c: "push c fr = (r, fr1)" by fastforce
  with Cons.prems(2) obtain fs1 where r: "r = Inr fs1"
    by (cases r) (auto simp: push_resume)
  obtain fs2 where fs2: "push (concat cs) fr1 = (Inr fs2, fr')" "fs = fs1 @ fs2"
    using Cons.prems(2) c r by (auto simp: push_resume split: prod.splits sum.splits)
  from Cons.IH [OF push_quiescent fs2(1)] c r fs2(2) show ?case by simp
qed

lemma push_loop_grows: "push_loop mx buf (f # fs) \<noteq> (Inr [], b)"
  using push_loop_acc [of mx buf "[f]" fs] by (auto split: prod.splits sum.splits)

lemma push_loop_poisoned:
  "push_loop mx buf frames = (Inl e, buf') \<Longrightarrow> push_loop mx (buf' @ c) gs = (Inl e, buf' @ c)"
proof (induction mx buf frames rule: push_loop.induct)
  case (1 mx buf frames)
  let ?len = "prefix_length buf"
  show ?case
  proof (cases "length buf < 4 \<or> ?len > mx + 1 \<or> ?len < 1 \<or> length buf < 4 + ?len")
    case True
    with 1(2) show ?thesis
      by (subst push_loop.simps, subst (asm) push_loop.simps)
        (auto simp: Let_def prefix_length_take split: if_splits)
  next
    case False
    show ?thesis
    proof (cases "decodeFramedBody (js_slice 4 (4 + ?len) buf)")
      case (Inl e')
      have "js_slice 4 (4 + ?len) (buf @ c) = js_slice 4 (4 + ?len) buf"
        using False by (simp add: js_slice_def)
      with False Inl 1(2) show ?thesis
        by (subst push_loop.simps, subst (asm) push_loop.simps)
          (auto simp: Let_def prefix_length_take not_less)
    next
      case (Inr f)
      with False 1(2) have "push_loop mx (drop (4 + ?len) buf) (frames @ [f]) = (Inl e, buf')"
        by (subst (asm) push_loop.simps) (simp add: Let_def not_less)
      from 1(1) [OF _ refl _ _ _ Inr this] False show ?thesis by (simp add: not_less)
    qed
  qed
qed

text \<open>a stream of frames survives any fragmentation: however the concatenated encodings are
  cut into chunks, feeding the chunks to a fresh framer delivers exactly the frames, in order,
  and leaves the buffer empty.\<close>
theorem framer_reassembles:
  assumes "\<forall>f \<in> set fs. wire_frame f \<and> length (f_data f) \<le> mx" and "mx < 2 ^ 32 - 1"
    and "traverse (\<lambda>f. encodeLengthPrefix (Frame f) mx) fs = Inr bss"
    and "concat chunks = concat bss"
  shows "push_all chunks (new_framer mx) = (Inr fs, new_framer mx)"
proof (rule push_all_concat)
  show "quiescent (new_framer mx)"
    by (simp add: quiescent_def new_framer_def push_loop.simps)
  show "push (concat chunks) (new_framer mx) = (Inr fs, new_framer mx)"
    using push_loop_frames [OF assms(1-3), of "[]"] assms(4) by (simp add: push_def new_framer_def)
qed

definition demo_frames :: "socket_frame list" where
  "demo_frames = [textFrame (js_str ''hi''), binaryFrame [1, 2, 3]]"

definition demo_stream :: "byte list" where
  "demo_stream = [0, 0, 0, 3, 0, 104, 105, 0, 0, 0, 4, 1, 1, 2, 3]"

lemma wire_demo: "\<forall>f \<in> set demo_frames. wire_frame f \<and> length (f_data f) \<le> 16"
  by (simp add: demo_frames_def wire_frame_def textFrame_def binaryFrame_def js_str_def is_high_def is_low_def
      starts_with_bom_def TextEncoder_encode_def scalar_unit_def utf8_bytes_def)

lemma demo_encoded:
  "traverse (\<lambda>f. encodeLengthPrefix (Frame f) 16) demo_frames = Inr [take 7 demo_stream, drop 7 demo_stream]"
  by (simp add: demo_frames_def demo_stream_def textFrame_def binaryFrame_def js_str_def is_high_def is_low_def
      TextEncoder_encode_def scalar_unit_def utf8_bytes_def byte_of_def encodeLengthPrefix_Frame be4_def kindToByte_def)

lemma framer_reassembles_witness:
  "push_all [take 2 demo_stream, drop 2 demo_stream] (new_framer 16) = (Inr demo_frames, new_framer 16)"
  by (rule framer_reassembles [OF wire_demo _ demo_encoded]) simp_all

text \<open>the framer never holds more than one frame back: after a push that returns, what is
  buffered is shorter than a length field and the largest admissible body.\<close>
theorem framer_buffer_bounded:
  assumes "push c fr = (Inr fs, fr')"
  shows "length (fr_buffer fr') < 4 + (fr_max fr + 1)"
proof -
  from push_quiescent [OF assms] push_max [OF assms]
  have "push_loop (fr_max fr) (fr_buffer fr') [] = (Inr [], fr_buffer fr')" by (simp add: quiescent_def)
  then show ?thesis
    by (subst (asm) push_loop.simps) (auto simp: Let_def push_loop_grows split: if_splits sum.splits)
qed

lemma framer_buffer_bounded_witness:
  "length (fr_buffer (snd (push [0, 0] (new_framer 16)))) < 4 + (16 + 1)"
proof -
  have "push [0, 0] (new_framer 16) = (Inr [], \<lparr>fr_buffer = [0, 0], fr_max = 16\<rparr>)"
    by (simp add: push_def new_framer_def push_loop.simps)
  from framer_buffer_bounded [OF this] this show ?thesis by (simp add: new_framer_def)
qed

text \<open>a poisoned stream fails for good: once a push throws, every later push throws the same
  error, whatever arrives, until the framer is reset.\<close>
theorem framer_fail_stop:
  assumes "push c fr = (Inl e, fr')"
  shows "push_all (c' # cs) fr' = (Inl e, snd (push c' fr')) \<and>
    push_all cs (framer_reset fr') = push_all cs (new_framer (fr_max fr))"
  using assms push_loop_poisoned [of "fr_max fr" _ "[]" e "fr_buffer fr'" c' "[]"]
  by (cases fr) (auto simp: push_def framer_reset_def new_framer_def split: prod.splits)

lemma framer_fail_stop_witness:
  "fst (push_all [demo_stream] (snd (push [0, 0, 0, 0] (new_framer 16)))) = Inl MissingKindByte"
proof -
  have "push [0, 0, 0, 0] (new_framer 16) = (Inl MissingKindByte, \<lparr>fr_buffer = [0, 0, 0, 0], fr_max = 16\<rparr>)"
    by (simp add: push_def new_framer_def push_loop.simps prefix_length_def)
  from framer_fail_stop [OF this, of demo_stream "[]"] this show ?thesis by simp
qed

section \<open>Datagrams\<close>

lemma be_bytes_map: "be_bytes k v = map (\<lambda>i. word_of_int (drop_bit ((k - 1 - i) * 8) v)) [0..<k]"
proof (induction k arbitrary: v)
  case (Suc k)
  have "(k - i) * 8 = (k - 1 - i) * 8 + 8" if "i < k" for i using that by simp
  then show ?case using Suc [of "drop_bit 8 v"] by (auto simp: ac_simps)
qed simp

lemma seq_at:
  "length bs = 8 \<Longrightarrow>
   foldl (\<lambda>v i. push_bit 8 v OR uint ((pre @ bs @ post) ! (length pre + i))) 0 [0..<8] = be_value bs"
  using readU64Be_at [of bs pre post] by (simp add: readU64Be_def)

lemma drop_prefix: "k = length xs \<Longrightarrow> drop k (xs @ ys) = ys"
  by simp

text \<open>C0: a datagram round-trips: the envelope of any preservable frame under a session id of at most
  255 bytes decodes to the same session id, the sequence number modulo \<open>2 ^ 64\<close>, and the frame.\<close>
theorem envelope_roundtrip:
  assumes "wire_frame f" "well_formed sid" "\<not> starts_with_bom sid" "length (TextEncoder_encode sid) \<le> 255"
  shows "rbind (encodeUdpEnvelope sid seq (Frame f)) decodeUdpEnvelope =
    Inr \<lparr>env_sessionId = sid, env_seq = seq mod 2 ^ 64, env_frame = f\<rparr>"
proof -
  define s where "s = TextEncoder_encode sid"
  define hdr where "hdr = [UDP_MAGIC ! 0, UDP_MAGIC ! 1, UDP_ENVELOPE_VERSION, kindToByte (f_kind f), word_of_nat (length s)]"
  define d where "d = hdr @ s @ be_bytes 8 seq @ f_data f"
  have enc: "encodeUdpEnvelope sid seq (Frame f) = Inr d"
    using assms(4) be_bytes_map [of 8 seq]
    by (simp add: encodeUdpEnvelope_def d_def hdr_def s_def [symmetric] word_and_255 Let_def)
  have n: "unat (word_of_nat (length s) :: byte) = length s"
    using assms(4) by (simp add: s_def unat_of_nat take_bit_eq_mod)
  have at: "d ! 0 = UDP_MAGIC ! 0" "d ! 1 = UDP_MAGIC ! 1" "d ! 2 = UDP_ENVELOPE_VERSION"
    "d ! 3 = kindToByte (f_kind f)" "d ! 4 = word_of_nat (length s)"
    by (simp_all add: d_def hdr_def numeral_eq_Suc)
  have pos: "5 + length s + 8 = length (hdr @ s @ be_bytes 8 seq)" by (simp add: hdr_def)
  have "d = (hdr @ s @ be_bytes 8 seq) @ f_data f" by (simp add: d_def)
  then have rest: "drop (5 + length s + 8) d = f_data f"
    using drop_prefix [OF pos, of "f_data f"] by simp
  have parts: "js_slice 5 (5 + length s) d = s" "length d = 13 + length s + length (f_data f)"
    by (simp_all add: d_def hdr_def js_slice_def)
  have "be_value (be_bytes 8 seq) = seq mod 2 ^ 64" by (simp add: be_value_bytes take_bit_eq_mod)
  then have seq: "foldl (\<lambda>v i. push_bit 8 v OR uint (d ! (5 + length s + i))) 0 [0..<8] = seq mod 2 ^ 64"
    using seq_at [of "be_bytes 8 seq" "hdr @ s" "f_data f"] by (simp add: d_def hdr_def)
  have "decodeUdpEnvelope d = Inr \<lparr>env_sessionId = sid, env_seq = seq mod 2 ^ 64, env_frame = f\<rparr>"
    using payload_wire_frame [OF assms(1)] decode_lenient_roundtrip [OF assms(2,3)] seq
    by (cases "f_kind f = TextKind") (simp_all add: decodeUdpEnvelope_def at at(2) [simplified] n parts rest [simplified] Let_def payload_frame_def s_def [symmetric] del: upt.simps)
  with enc show ?thesis by simp
qed

lemma envelope_roundtrip_witness:
  "rbind (encodeUdpEnvelope (js_str ''ab'') (2 ^ 64 + 5) (Frame (binaryFrame [9]))) decodeUdpEnvelope =
    Inr \<lparr>env_sessionId = js_str ''ab'', env_seq = 5, env_frame = binaryFrame [9]\<rparr>"
  using envelope_roundtrip [of "binaryFrame [9]" "js_str ''ab''" "2 ^ 64 + 5"]
  by (simp add: wire_frame_def binaryFrame_def js_str_def is_high_def is_low_def starts_with_bom_def
      TextEncoder_encode_def scalar_unit_def utf8_bytes_def)

end
