(* ===== verification/Channel.thy ===== *)
theory Channel
  imports Frames
begin

text \<open>
  The sealed application channel of a secure socket session:
  \<^verbatim>\<open>di-framework-socket/src/security/aead.ts\<close> and \<^verbatim>\<open>security/sealed-wire.ts\<close>.

  AES-GCM is WebCrypto's and enters as a pair of functions, assumed to be a correct cipher where
  a lemma needs it.  \<open>open\<close> awaits the decryption between the replay check and the update of
  the counter, so it is modelled in two halves, \<open>open_begin\<close> and \<open>open_finish\<close>; a schedule is a
  list of such events.  Run one after the other, the accepted counters strictly increase;
  overlapped, one message is delivered twice and the counter may move backwards.
\<close>

section \<open>The cipher\<close>

record aes =
  aes_encrypt :: "byte list \<Rightarrow> byte list \<Rightarrow> byte list \<Rightarrow> byte list \<Rightarrow> byte list"
  aes_decrypt :: "byte list \<Rightarrow> byte list \<Rightarrow> byte list \<Rightarrow> byte list \<Rightarrow> byte list option"

text \<open>Arguments: key, initialisation vector, additional data, text.\<close>

definition aes_correct :: "aes \<Rightarrow> bool" where
  "aes_correct A \<longleftrightarrow> (\<forall>k iv ad p. aes_decrypt A k iv ad (aes_encrypt A k iv ad p) = Some p \<and>
     length (aes_encrypt A k iv ad p) = length p + 16)"

section \<open>The channel\<close>

datatype aead_error =
    BadKeyLength nat
  | ChannelDestroyed
  | ReplayedCounter
  | MalformedCiphertext
  | CiphertextTooShort
  | DecryptionFailed
  | CounterOutOfRange int

record channel =
  ch_sessionId :: jsstr
  ch_key :: "byte list"
  ch_keyBytes :: "byte list"
  ch_send :: int
  ch_recv :: int
  ch_destroyed :: bool

record snapshot =
  sn_sessionId :: jsstr
  sn_key :: "byte list"
  sn_send :: int
  sn_recv :: int

definition NONCE_BYTES :: nat where
  "NONCE_BYTES = 12"

definition importAesGcmKey :: "byte list \<Rightarrow> (aead_error, byte list) result" where
  "importAesGcmKey raw = (if length raw \<noteq> 32 then Inl (BadKeyLength (length raw)) else Inr raw)"

definition channel_of :: "byte list \<Rightarrow> jsstr \<Rightarrow> (aead_error, channel) result" where
  "channel_of encryptionKeyBytes sessionId =
     rbind (importAesGcmKey encryptionKeyBytes) (\<lambda>key.
       Inr \<lparr>ch_sessionId = sessionId, ch_key = key, ch_keyBytes = encryptionKeyBytes,
            ch_send = 0, ch_recv = 0, ch_destroyed = False\<rparr>)"

definition channel_restore :: "snapshot \<Rightarrow> (aead_error, channel) result" where
  "channel_restore sn = rbind (channel_of (sn_key sn) (sn_sessionId sn)) (\<lambda>ch.
     Inr (ch\<lparr>ch_send := sn_send sn, ch_recv := sn_recv sn\<rparr>))"

definition exportSnapshot :: "channel \<Rightarrow> (aead_error, snapshot) result" where
  "exportSnapshot ch = (if ch_destroyed ch then Inl ChannelDestroyed
     else Inr \<lparr>sn_sessionId = ch_sessionId ch, sn_key = ch_keyBytes ch,
               sn_send = ch_send ch, sn_recv = ch_recv ch\<rparr>)"

definition kindByte :: "frame_kind \<Rightarrow> byte list" where
  "kindByte kind = [if kind = TextKind then 0 else 1]"

definition aad :: "channel \<Rightarrow> int \<Rightarrow> frame_kind \<Rightarrow> (aead_error, byte list) result" where
  "aad ch counter kind = (case u64Be counter of
     Inl _ \<Rightarrow> Inl (CounterOutOfRange counter)
   | Inr ctr \<Rightarrow> Inr (concatBytes [TextEncoder_encode (ch_sessionId ch), ctr, kindByte kind]))"

record sealed =
  se_counter :: int
  se_kind :: frame_kind
  se_ciphertextB64 :: jsstr

text \<open>\<open>nonce\<close> is what \<^verbatim>\<open>randomBytes(NONCE_BYTES)\<close> returns.\<close>

definition seal :: "aes \<Rightarrow> byte list \<Rightarrow> byte list \<Rightarrow> frame_kind \<Rightarrow> channel \<Rightarrow> (aead_error, sealed) result \<times> channel" where
  "seal A nonce plaintext kind ch =
     (if ch_destroyed ch then (Inl ChannelDestroyed, ch)
      else let counter = ch_send ch; ch1 = ch\<lparr>ch_send := ch_send ch + 1\<rparr>
        in (rbind (aad ch1 counter kind) (\<lambda>ad.
              Inr \<lparr>se_counter = counter, se_kind = kind,
                   se_ciphertextB64 = base64UrlEncode (concatBytes [nonce, aes_encrypt A (ch_key ch1) nonce ad plaintext])\<rparr>),
            ch1))"

text \<open>The first half of \<open>open\<close>: everything up to the awaited decryption, whose outcome is
  already determined.  The second half: what runs when the decryption settles.\<close>

definition open_begin :: "aes \<Rightarrow> int \<Rightarrow> jsstr \<Rightarrow> frame_kind \<Rightarrow> channel \<Rightarrow> (aead_error, int \<times> byte list option) result" where
  "open_begin A c ciphertextB64 kind ch =
     (if ch_destroyed ch then Inl ChannelDestroyed
      else if c < ch_recv ch then Inl ReplayedCounter
      else case base64UrlDecode ciphertextB64 of
        Inl _ \<Rightarrow> Inl MalformedCiphertext
      | Inr raw \<Rightarrow>
          if length raw \<le> NONCE_BYTES then Inl CiphertextTooShort
          else (case aad ch c kind of
                  Inl _ \<Rightarrow> Inr (c, None)
                | Inr ad \<Rightarrow> Inr (c, aes_decrypt A (ch_key ch) (take NONCE_BYTES raw) ad (drop NONCE_BYTES raw))))"

definition open_finish :: "int \<times> byte list option \<Rightarrow> channel \<Rightarrow> (aead_error, byte list) result \<times> channel" where
  "open_finish pending ch = (case pending of
     (c, None) \<Rightarrow> (Inl DecryptionFailed, ch)
   | (c, Some plaintext) \<Rightarrow> (Inr plaintext, ch\<lparr>ch_recv := c + 1\<rparr>))"

definition channel_open :: "aes \<Rightarrow> int \<Rightarrow> jsstr \<Rightarrow> frame_kind \<Rightarrow> channel \<Rightarrow> (aead_error, byte list) result \<times> channel" where
  "channel_open A c ciphertextB64 kind ch = (case open_begin A c ciphertextB64 kind ch of
     Inl e \<Rightarrow> (Inl e, ch)
   | Inr pending \<Rightarrow> open_finish pending ch)"

definition channel_destroy :: "channel \<Rightarrow> channel" where
  "channel_destroy ch = (if ch_destroyed ch then ch
     else ch\<lparr>ch_destroyed := True, ch_keyBytes := zeroize (ch_keyBytes ch)\<rparr>)"

section \<open>The binary wire format of sealed frames\<close>

datatype wire_error =
    WireTooShort
  | WireMagicMismatch
  | WireVersion
  | WireKind frame_error
  | WireCounter int

definition SEALED_MAGIC :: "byte list" where
  "SEALED_MAGIC = [0xdf, 0x53]"

definition SEALED_WIRE_VERSION :: byte where
  "SEALED_WIRE_VERSION = 1"

record sealed_parts =
  sp_kind :: frame_kind
  sp_counter :: int
  sp_body :: "byte list"

definition encodeSealedBinary :: "sealed_parts \<Rightarrow> (wire_error, byte list) result" where
  "encodeSealedBinary parts =
     (case u64Be (sp_counter parts) of
        Inl _ \<Rightarrow> Inl (WireCounter (sp_counter parts))
      | Inr ctr \<Rightarrow>
          let header = bytes_set ((replicate 12 0)[0 := SEALED_MAGIC ! 0, 1 := SEALED_MAGIC ! 1,
                         2 := SEALED_WIRE_VERSION, 3 := kindToByte (sp_kind parts)]) 4 ctr
          in Inr (concatBytes [header, sp_body parts]))"

definition decodeSealedBinary :: "byte list \<Rightarrow> (wire_error, sealed_parts) result" where
  "decodeSealedBinary raw =
     (if length raw < 2 + 1 + 1 + 8 + NONCE_BYTES + 16 then Inl WireTooShort
      else if raw ! 0 \<noteq> SEALED_MAGIC ! 0 \<or> raw ! 1 \<noteq> SEALED_MAGIC ! 1 then Inl WireMagicMismatch
      else if raw ! 2 \<noteq> SEALED_WIRE_VERSION then Inl WireVersion
      else case kindFromByte (raw ! 3) of
        Inl e \<Rightarrow> Inl (WireKind e)
      | Inr kind \<Rightarrow>
          Inr \<lparr>sp_kind = kind,
               sp_counter = foldl (\<lambda>counter i. push_bit 8 counter OR uint (raw ! (4 + i))) 0 [0..<8],
               sp_body = drop 12 raw\<rparr>)"

definition frameFromOpened :: "frame_kind \<Rightarrow> byte list \<Rightarrow> (frame_error, socket_frame) result" where
  "frameFromOpened kind plaintext =
     (if kind = TextKind then text_of_bytes plaintext else Inr (binaryFrame plaintext))"

section \<open>Schedules\<close>

text \<open>A message as it arrives, and the two events an arriving message causes.\<close>

type_synonym message = "int \<times> jsstr \<times> frame_kind"

datatype event = Begin message | Finish nat

text \<open>Running channel, messages in flight, and the counters and plaintexts delivered so far.\<close>

record schedule =
  sc_channel :: channel
  sc_flight :: "(int \<times> byte list option) list"
  sc_delivered :: "(int \<times> byte list) list"

definition event_step :: "aes \<Rightarrow> event \<Rightarrow> schedule \<Rightarrow> schedule" where
  "event_step A e s = (case e of
     Begin (c, b64, kind) \<Rightarrow>
       (case open_begin A c b64 kind (sc_channel s) of
          Inl _ \<Rightarrow> s
        | Inr pending \<Rightarrow> s\<lparr>sc_flight := sc_flight s @ [pending]\<rparr>)
   | Finish i \<Rightarrow>
       (if i < length (sc_flight s)
        then (case open_finish (sc_flight s ! i) (sc_channel s) of
            (Inl _, ch) \<Rightarrow> s\<lparr>sc_channel := ch, sc_flight := take i (sc_flight s) @ drop (i + 1) (sc_flight s)\<rparr>
          | (Inr plaintext, ch) \<Rightarrow>
              s\<lparr>sc_channel := ch, sc_flight := take i (sc_flight s) @ drop (i + 1) (sc_flight s),
                sc_delivered := sc_delivered s @ [(fst (sc_flight s ! i), plaintext)]\<rparr>)
        else s))"

definition run_events :: "aes \<Rightarrow> event list \<Rightarrow> schedule \<Rightarrow> schedule" where
  "run_events A es s = foldl (\<lambda>s e. event_step A e s) s es"

definition idle_schedule :: "channel \<Rightarrow> schedule" where
  "idle_schedule ch = \<lparr>sc_channel = ch, sc_flight = [], sc_delivered = []\<rparr>"

text \<open>One message after the other: each begins only when nothing is in flight.\<close>

definition serial :: "message list \<Rightarrow> event list" where
  "serial ms = concat (map (\<lambda>m. [Begin m, Finish 0]) ms)"

section \<open>Sealing, then opening\<close>

fun seal_all :: "aes \<Rightarrow> (byte list \<times> byte list \<times> frame_kind) list \<Rightarrow> channel \<Rightarrow> (aead_error, message list) result" where
  "seal_all A [] ch = Inr []"
| "seal_all A ((nonce, p, kind) # rest) ch =
     (case seal A nonce p kind ch of
        (Inl e, _) \<Rightarrow> Inl e
      | (Inr s, ch1) \<Rightarrow> rbind (seal_all A rest ch1) (\<lambda>ms.
          Inr ((se_counter s, se_ciphertextB64 s, se_kind s) # ms)))"

lemma aad_in_range:
  "0 \<le> c \<Longrightarrow> c < 2 ^ 64 \<Longrightarrow> aad ch c kind = Inr (TextEncoder_encode (ch_sessionId ch) @ be_bytes 8 c @ kindByte kind)"
  by (simp add: aad_def u64Be_bytes concatBytes_concat)

lemma aad_depends: "ch_sessionId ch = ch_sessionId ch' \<Longrightarrow> aad ch c kind = aad ch' c kind"
  by (simp add: aad_def split: sum.split)

lemma open_begin_depends:
  "ch_recv ch \<le> c \<Longrightarrow> ch_recv ch' \<le> c \<Longrightarrow> ch_sessionId ch = ch_sessionId ch' \<Longrightarrow> ch_key ch = ch_key ch' \<Longrightarrow>
   ch_destroyed ch = ch_destroyed ch' \<Longrightarrow> open_begin A c b64 kind ch = open_begin A c b64 kind ch'"
  using aad_depends [of ch ch' c kind] by (auto simp: open_begin_def split: sum.split)

lemma seal_cases:
  assumes "seal A nonce p kind ch = (Inr s, ch1)"
  shows "\<not> ch_destroyed ch" "ch1 = ch\<lparr>ch_send := ch_send ch + 1\<rparr>" "se_counter s = ch_send ch" "se_kind s = kind"
    and "\<exists>ad. aad ch (ch_send ch) kind = Inr ad \<and>
           se_ciphertextB64 s = base64UrlEncode (nonce @ aes_encrypt A (ch_key ch) nonce ad p)"
  using assms aad_depends [of "ch\<lparr>ch_send := ch_send ch + 1\<rparr>" ch]
  by (auto simp: seal_def Let_def rbind_eq_Inr concatBytes_concat split: if_splits)

lemma open_sealed:
  assumes A: "aes_correct A" and n: "length nonce = NONCE_BYTES"
    and s: "seal A nonce p kind tx = (Inr s, tx1)"
    and rx: "\<not> ch_destroyed rx" "ch_recv rx \<le> ch_send tx" "ch_sessionId rx = ch_sessionId tx" "ch_key rx = ch_key tx"
  shows "open_begin A (se_counter s) (se_ciphertextB64 s) (se_kind s) rx = Inr (ch_send tx, Some p)"
proof -
  from seal_cases [OF s] obtain ad where ad: "aad tx (ch_send tx) kind = Inr ad"
    and b64: "se_ciphertextB64 s = base64UrlEncode (nonce @ aes_encrypt A (ch_key tx) nonce ad p)" by blast
  have "aad rx (ch_send tx) kind = Inr ad" using ad aad_depends [OF rx(3)] by simp
  then show ?thesis
    using A n rx seal_cases(3,4) [OF s] by (simp add: open_begin_def b64 aes_correct_def)
qed

lemma run_serial_Cons:
  "sc_flight s = [] \<Longrightarrow>
   run_events A (serial (m # ms)) s =
     run_events A (serial ms) (case open_begin A (fst m) (fst (snd m)) (snd (snd m)) (sc_channel s) of
        Inl _ \<Rightarrow> s
      | Inr (c, None) \<Rightarrow> s
      | Inr (c, Some p) \<Rightarrow> s\<lparr>sc_channel := (sc_channel s)\<lparr>ch_recv := c + 1\<rparr>, sc_delivered := sc_delivered s @ [(c, p)]\<rparr>)"
  by (cases s; cases m) (auto simp: serial_def run_events_def event_step_def open_finish_def
      split: sum.split prod.split option.split)

lemma run_serial_Nil: "run_events A (serial []) s = s"
  by (simp add: serial_def run_events_def)

lemma serial_delivers:
  assumes "aes_correct A" "\<forall>(nonce, p, kind) \<in> set xs. length nonce = NONCE_BYTES"
    and "seal_all A xs tx = Inr ms" and "\<not> ch_destroyed rx" "ch_recv rx \<le> ch_send tx"
    and "ch_sessionId rx = ch_sessionId tx" "ch_key rx = ch_key tx"
  shows "map snd (sc_delivered (run_events A (serial ms) \<lparr>sc_channel = rx, sc_flight = [], sc_delivered = ds\<rparr>))
    = map snd ds @ map (\<lambda>(nonce, p, kind). p) xs"
  using assms
proof (induction xs arbitrary: tx rx ms ds)
  case Nil
  then show ?case by (simp add: run_serial_Nil)
next
  case (Cons x xs)
  obtain nonce p kind where x: "x = (nonce, p, kind)" by (cases x) auto
  with Cons.prems(3) obtain s tx1 ms1 where s: "seal A nonce p kind tx = (Inr s, tx1)"
    and ms1: "seal_all A xs tx1 = Inr ms1" "ms = (se_counter s, se_ciphertextB64 s, se_kind s) # ms1"
    by (auto simp: rbind_eq_Inr split: prod.splits sum.splits)
  have n: "length nonce = NONCE_BYTES" using Cons.prems(2) x by simp
  note op = open_sealed [OF Cons.prems(1) n s Cons.prems(4-7)]
  note tx1 = seal_cases(2) [OF s]
  have "map snd (sc_delivered (run_events A (serial ms1)
      \<lparr>sc_channel = rx\<lparr>ch_recv := ch_send tx + 1\<rparr>, sc_flight = [], sc_delivered = ds @ [(ch_send tx, p)]\<rparr>))
    = map snd (ds @ [(ch_send tx, p)]) @ map (\<lambda>(nonce, p, kind). p) xs"
    using Cons.prems(1,2,4,6,7) ms1(1) tx1 by (intro Cons.IH [of tx1]) auto
  then show ?case using op ms1(2) x by (simp add: run_serial_Cons)
qed

lemma open_begin_recv: "open_begin A c b64 kind ch = Inr (c', r) \<Longrightarrow> ch_recv ch \<le> c \<and> c' = c"
  by (auto simp: open_begin_def split: if_splits sum.splits)

section \<open>A toy cipher for the examples\<close>

definition toy_tag :: "byte list \<Rightarrow> byte list \<Rightarrow> byte list \<Rightarrow> byte list \<Rightarrow> byte list" where
  "toy_tag k iv ad p = replicate 16 (sum_list (k @ iv @ ad @ p))"

definition toy_aes :: aes where
  "toy_aes = \<lparr>aes_encrypt = (\<lambda>k iv ad p. p @ toy_tag k iv ad p),
     aes_decrypt = (\<lambda>k iv ad c. let p = take (length c - 16) c
        in if c = p @ toy_tag k iv ad p then Some p else None)\<rparr>"

lemma toy_aes_correct: "aes_correct toy_aes"
  by (simp add: aes_correct_def toy_aes_def toy_tag_def Let_def)

definition demo_channel :: channel where
  "demo_channel = \<lparr>ch_sessionId = js_str ''s'', ch_key = replicate 32 7, ch_keyBytes = replicate 32 7,
     ch_send = 0, ch_recv = 0, ch_destroyed = False\<rparr>"

definition demo_messages :: "(byte list \<times> byte list \<times> frame_kind) list" where
  "demo_messages = [(replicate 12 1, [104, 105], TextKind), (replicate 12 2, [0], BinaryKind)]"

lemma demo_seals: "is_ok (seal_all toy_aes demo_messages demo_channel)"
  by (simp add: demo_messages_def demo_channel_def seal_def aad_in_range Let_def)

lemma demo_nonces: "\<forall>(nonce, p, kind) \<in> set demo_messages. length nonce = NONCE_BYTES"
  by (simp add: demo_messages_def NONCE_BYTES_def)

definition demo_wire :: "nat \<Rightarrow> message" where
  "demo_wire i = (case seal_all toy_aes demo_messages demo_channel of Inl _ \<Rightarrow> (0, [], TextKind) | Inr ms \<Rightarrow> ms ! i)"

lemma demo_open0: "open_begin toy_aes 0 (fst (snd (demo_wire 0))) TextKind demo_channel = Inr (0, Some [104, 105])"
  and demo_open1: "open_begin toy_aes 1 (fst (snd (demo_wire 1))) BinaryKind demo_channel = Inr (1, Some [0])"
  using toy_aes_correct
  by (simp_all add: demo_wire_def demo_messages_def demo_channel_def seal_def aad_in_range Let_def
      open_begin_def NONCE_BYTES_def concatBytes_concat aes_correct_def)

section \<open>Properties\<close>

text \<open>sealed messages opened in the order they were sealed are all delivered, in order and
  unchanged, whatever the initial counters, as long as the receiver is not ahead of the sender.\<close>
theorem channel_delivers_in_order:
  assumes "aes_correct A" and "\<forall>(nonce, p, kind) \<in> set xs. length nonce = NONCE_BYTES"
    and "seal_all A xs tx = Inr ms" and "\<not> ch_destroyed rx" "ch_recv rx \<le> ch_send tx"
    and "ch_sessionId rx = ch_sessionId tx" "ch_key rx = ch_key tx"
  shows "map snd (sc_delivered (run_events A (serial ms) (idle_schedule rx))) = map (\<lambda>(nonce, p, kind). p) xs"
  using serial_delivers [OF assms, of "[]"] by (simp add: idle_schedule_def)

lemma channel_delivers_in_order_witness:
  "\<exists>ms. seal_all toy_aes demo_messages demo_channel = Inr ms \<and>
     map snd (sc_delivered (run_events toy_aes (serial ms) (idle_schedule demo_channel))) = [[104, 105], [0]]"
proof -
  from demo_seals obtain ms where ms: "seal_all toy_aes demo_messages demo_channel = Inr ms"
    by (cases "seal_all toy_aes demo_messages demo_channel") auto
  from channel_delivers_in_order [OF toy_aes_correct demo_nonces ms, of demo_channel] ms show ?thesis
    by (simp add: demo_channel_def demo_messages_def)
qed

lemma serial_increasing:
  assumes "sorted_wrt (<) (map fst ds)" "\<forall>d \<in> set ds. fst d < ch_recv ch"
  shows "sorted_wrt (<) (map fst (sc_delivered (run_events A (serial ms) \<lparr>sc_channel = ch, sc_flight = [], sc_delivered = ds\<rparr>)))"
  using assms
proof (induction ms arbitrary: ch ds)
  case Nil
  then show ?case by (simp add: run_serial_Nil)
next
  case (Cons m ms)
  let ?o = "open_begin A (fst m) (fst (snd m)) (snd (snd m)) ch"
  show ?case
  proof (cases "\<exists>c p. ?o = Inr (c, Some p)")
    case True
    then obtain c p where o: "?o = Inr (c, Some p)" by blast
    then have "ch_recv ch \<le> c" using open_begin_recv by blast
    with Cons.prems have "sorted_wrt (<) (map fst (ds @ [(c, p)]))" "\<forall>d \<in> set (ds @ [(c, p)]). fst d < c + 1"
      by (auto simp: sorted_wrt_append)
    then show ?thesis
      using o Cons.IH [of "ds @ [(c, p)]" "ch\<lparr>ch_recv := c + 1\<rparr>"] by (simp add: run_serial_Cons)
  next
    case False
    then show ?thesis using Cons by (auto simp: run_serial_Cons split: sum.split prod.split option.split)
  qed
qed

text \<open>no replay on a serial channel: whatever messages are presented, if each is opened after the
  previous one has settled, the counters of the delivered messages strictly increase.\<close>
theorem serial_opens_never_replay:
  "sorted_wrt (<) (map fst (sc_delivered (run_events A (serial ms) (idle_schedule ch))))"
  using serial_increasing [of "[]" ch A ms] by (simp add: idle_schedule_def)

text \<open>the replay check is not atomic: of two copies of one authentic message that arrive before the
  first has been decrypted, both are delivered.\<close>
theorem overlapped_opens_replay:
  assumes "open_begin A c b64 kind ch = Inr (c, Some p)"
  shows "sc_delivered (run_events A [Begin (c, b64, kind), Begin (c, b64, kind), Finish 0, Finish 0] (idle_schedule ch))
    = [(c, p), (c, p)]"
  using assms by (simp add: run_events_def event_step_def idle_schedule_def open_finish_def)

lemma overlapped_opens_replay_witness:
  "let m = (0, fst (snd (demo_wire 0)), TextKind)
   in map snd (sc_delivered (run_events toy_aes [Begin m, Begin m, Finish 0, Finish 0] (idle_schedule demo_channel)))
        = [[104, 105], [104, 105]]"
  using overlapped_opens_replay [OF demo_open0] by simp

text \<open>the receive counter can go back: when two messages overlap and the later one settles first, the
  counter ends below a counter that was already delivered, and that message is accepted again.\<close>
theorem overlapped_opens_rewind:
  assumes "open_begin A c b64 kind ch = Inr (c, Some p)" "open_begin A d b64' kind' ch = Inr (d, Some q)" "d < c"
    and "sc = run_events A [Begin (c, b64, kind), Begin (d, b64', kind'), Finish 0, Finish 0] (idle_schedule ch)"
  shows "ch_recv (sc_channel sc) = d + 1 \<and> (c, p) \<in> set (sc_delivered sc) \<and>
    open_begin A c b64 kind (sc_channel sc) = Inr (c, Some p)"
proof -
  have "ch_recv (sc_channel sc) = d + 1" "sc_delivered sc = [(c, p), (d, q)]"
    "sc_channel sc = ch\<lparr>ch_recv := d + 1\<rparr>"
    using assms by (simp_all add: run_events_def event_step_def idle_schedule_def open_finish_def)
  moreover have "open_begin A c b64 kind (ch\<lparr>ch_recv := d + 1\<rparr>) = Inr (c, Some p)"
    using assms(1,3) open_begin_recv [OF assms(1)] open_begin_depends [of "ch\<lparr>ch_recv := d + 1\<rparr>" c ch A b64 kind]
    by simp
  ultimately show ?thesis by simp
qed

lemma overlapped_opens_rewind_witness:
  "ch_recv (sc_channel (run_events toy_aes
     [Begin (1, fst (snd (demo_wire 1)), BinaryKind), Begin (0, fst (snd (demo_wire 0)), TextKind), Finish 0, Finish 0]
     (idle_schedule demo_channel))) = 1"
  using overlapped_opens_rewind [OF demo_open1 demo_open0 _ refl] by simp

lemma sealed_header:
  "length ctr = 8 \<Longrightarrow>
   bytes_set ((replicate 12 0)[0 := a, 1 := b, 2 := c, 3 := d]) 4 ctr = [a, b, c, d] @ ctr"
  by (simp add: bytes_set_def numeral_eq_Suc)

lemma sealed_binary_fields:
  assumes "0 \<le> sp_counter x" "sp_counter x < 2 ^ 64" "28 \<le> length (sp_body x)"
  shows "\<exists>raw. encodeSealedBinary x = Inr raw \<and> decodeSealedBinary raw = Inr x"
proof -
  define hdr where "hdr = [SEALED_MAGIC ! 0, SEALED_MAGIC ! 1, SEALED_WIRE_VERSION, kindToByte (sp_kind x)]"
  define raw where "raw = hdr @ be_bytes 8 (sp_counter x) @ sp_body x"
  have enc: "encodeSealedBinary x = Inr raw"
    using assms sealed_header [of "be_bytes 8 (sp_counter x)"]
    by (simp add: encodeSealedBinary_def u64Be_bytes concatBytes_concat raw_def hdr_def Let_def)
  have at: "raw ! 0 = SEALED_MAGIC ! 0" "raw ! 1 = SEALED_MAGIC ! 1" "raw ! 2 = SEALED_WIRE_VERSION"
    "raw ! 3 = kindToByte (sp_kind x)" "length raw = 12 + length (sp_body x)"
    by (simp_all add: raw_def hdr_def numeral_eq_Suc)
  have ctr: "foldl (\<lambda>v i. push_bit 8 v OR uint (raw ! (4 + i))) 0 [0..<8] = sp_counter x"
    using seq_at [of "be_bytes 8 (sp_counter x)" hdr "sp_body x"] assms
    by (simp add: raw_def hdr_def be_value_bytes take_bit_range)
  have body: "drop 12 raw = sp_body x"
    using drop_prefix [of 12 "hdr @ be_bytes 8 (sp_counter x)" "sp_body x"] by (simp add: raw_def hdr_def)
  have "decodeSealedBinary raw = Inr \<lparr>sp_kind = sp_kind x, sp_counter = sp_counter x, sp_body = sp_body x\<rparr>"
    using assms(3) by (simp add: decodeSealedBinary_def at at(2) [simplified] ctr body NONCE_BYTES_def del: upt.simps)
  with enc show ?thesis by simp
qed

text \<open>the sealed wire format round-trips for every counter in range and every body that holds at least
  an initialisation vector and a tag.\<close>
theorem sealed_binary_roundtrip:
  assumes "0 \<le> sp_counter x" "sp_counter x < 2 ^ 64" "28 \<le> length (sp_body x)"
  shows "\<exists>raw. encodeSealedBinary x = Inr raw \<and> decodeSealedBinary raw = Inr x"
  using assms by (rule sealed_binary_fields)

lemma sealed_binary_roundtrip_witness:
  "\<exists>raw. encodeSealedBinary \<lparr>sp_kind = TextKind, sp_counter = 300, sp_body = replicate 30 5\<rparr> = Inr raw \<and>
     decodeSealedBinary raw = Inr \<lparr>sp_kind = TextKind, sp_counter = 300, sp_body = replicate 30 5\<rparr>"
  by (rule sealed_binary_roundtrip) simp_all

end
