(* ===== verification/Handshake.thy ===== *)
theory Handshake
  imports Channel
begin

text \<open>
  The key agreement of a secure socket session:
  \<^verbatim>\<open>di-framework-socket/src/security/handshake.ts\<close> with \<^verbatim>\<open>ecdh.ts\<close>, \<^verbatim>\<open>kdf.ts\<close>,
  \<^verbatim>\<open>compare.ts\<close> and the messages of \<^verbatim>\<open>protocol.ts\<close>.

  The WebCrypto primitives are the fields of a record; the lemmas that need them assume the
  documented symmetry of Diffie-Hellman.  A handler returns its message or its error together
  with the endpoint, including the fields it had already assigned when it threw.  Random nonces
  and key pairs are arguments of \<open>create\<close>.  The lemmas show that an undisturbed run agrees on
  one key, that keys leave an endpoint only after its peer's MAC has been verified, and what a
  second response does to a confirmed provider.
\<close>

section \<open>Primitives\<close>

record ('sk, 'pk) crypto =
  cr_import :: "byte list \<Rightarrow> 'pk option"
  cr_derive :: "'sk \<Rightarrow> 'pk \<Rightarrow> byte list option"
  cr_hkdf :: "byte list \<Rightarrow> byte list \<Rightarrow> byte list \<Rightarrow> nat \<Rightarrow> byte list"
  cr_hmac :: "byte list \<Rightarrow> byte list \<Rightarrow> byte list"
  cr_blind :: "byte list \<Rightarrow> byte list"

record 'sk key_pair =
  kp_private :: 'sk
  kp_publicB64 :: jsstr

definition PROTOCOL_VERSION :: int where
  "PROTOCOL_VERSION = 1"

definition SUITE_V1 :: jsstr where
  "SUITE_V1 = js_str ''ECDH-P-256+HKDF-SHA-256+AES-256-GCM''"

definition KDF_encryption :: jsstr where
  "KDF_encryption = js_str ''di-framework/socket:v1:encryption''"

definition KDF_confirmation :: jsstr where
  "KDF_confirmation = js_str ''di-framework/socket:v1:confirmation''"

datatype handshake_error =
    NotInitialized
  | UnexpectedMessage
  | VersionMismatch
  | SessionMismatch
  | SuiteMismatch
  | PubkeyMismatch
  | PrematureConfirmation
  | ConfirmationFailed
  | NotConfirmed
  | HandshakeDestroyed
  | MissingTranscript
  | BadBase64 base64_error
  | InvalidPoint
  | DeriveFailed
  | HkdfLength int

definition decode_b64 :: "jsstr \<Rightarrow> (handshake_error, byte list) result" where
  "decode_b64 s = (case base64UrlDecode s of Inl e \<Rightarrow> Inl (BadBase64 e) | Inr bs \<Rightarrow> Inr bs)"

definition importEcdhPublicKey :: "('sk, 'pk) crypto \<Rightarrow> jsstr \<Rightarrow> (handshake_error, 'pk) result" where
  "importEcdhPublicKey C publicKeyB64 = rbind (decode_b64 publicKeyB64) (\<lambda>raw.
     if length raw \<noteq> 65 \<or> raw ! 0 \<noteq> 4 then Inl InvalidPoint
     else case cr_import C raw of None \<Rightarrow> Inl InvalidPoint | Some pk \<Rightarrow> Inr pk)"

definition deriveSharedSecret :: "('sk, 'pk) crypto \<Rightarrow> 'sk \<Rightarrow> 'pk \<Rightarrow> (handshake_error, byte list) result" where
  "deriveSharedSecret C sk pk = (case cr_derive C sk pk of None \<Rightarrow> Inl DeriveFailed | Some s \<Rightarrow> Inr s)"

definition hkdf :: "('sk, 'pk) crypto \<Rightarrow> byte list \<Rightarrow> byte list \<Rightarrow> jsstr \<Rightarrow> int \<Rightarrow> (handshake_error, byte list) result" where
  "hkdf C ikm salt label len =
     (if len \<le> 0 \<or> len > 255 * 32 then Inl (HkdfLength len)
      else Inr (cr_hkdf C ikm salt (TextEncoder_encode label) (nat (len * 8))))"

definition timingSafeEqual :: "('sk, 'pk) crypto \<Rightarrow> byte list \<Rightarrow> byte list \<Rightarrow> bool" where
  "timingSafeEqual C a b =
     (let da = cr_blind C a; db = cr_blind C b
      in foldl (\<lambda>diff i. diff OR (da ! i XOR db ! i)) 0 [0..<length da] = 0)"

record internal_keys =
  ik_encryption :: "byte list"
  ik_confirmation :: "byte list"

definition deriveSessionKeys :: "('sk, 'pk) crypto \<Rightarrow> byte list \<Rightarrow> byte list \<Rightarrow> byte list \<Rightarrow> (handshake_error, internal_keys) result" where
  "deriveSessionKeys C sharedSecret providerNonce consumerNonce =
     (let salt = concatBytes [providerNonce, consumerNonce]
      in rbind (hkdf C sharedSecret salt KDF_encryption 32) (\<lambda>enc.
         rbind (hkdf C sharedSecret salt KDF_confirmation 32) (\<lambda>conf.
           Inr \<lparr>ik_encryption = enc, ik_confirmation = conf\<rparr>)))"

section \<open>Messages\<close>

record handshake_init =
  hi_version :: int
  hi_sessionId :: jsstr
  hi_publicKey :: jsstr
  hi_providerNonce :: jsstr
  hi_supportedSuites :: "jsstr list"

record handshake_response =
  hr_version :: int
  hr_sessionId :: jsstr
  hr_publicKey :: jsstr
  hr_consumerNonce :: jsstr
  hr_selectedSuite :: jsstr

record confirmation_request =
  cq_sessionId :: jsstr
  cq_confirmationMac :: jsstr

record key_confirmation =
  kc_sessionId :: jsstr
  kc_publicKey :: jsstr
  kc_confirmationMac :: jsstr

datatype message_body =
    InitMsg handshake_init
  | ResponseMsg handshake_response
  | ConfRequestMsg confirmation_request
  | ConfirmationMsg key_confirmation
  | SealedMsg
  | ErrorMsg jsstr jsstr

section \<open>Endpoints\<close>

text \<open>The two classes hold the same fields; \<open>ep_peerPublicKey\<close> is \<^verbatim>\<open>consumerPublicKeyB64\<close> of the
  provider and \<^verbatim>\<open>providerPublicKeyB64\<close> of the consumer.\<close>

record 'sk endpoint =
  ep_keyPair :: "'sk key_pair option"
  ep_sessionId :: "jsstr option"
  ep_providerNonce :: "byte list option"
  ep_consumerNonce :: "byte list option"
  ep_peerPublicKey :: "jsstr option"
  ep_sharedSecret :: "byte list option"
  ep_keys :: "internal_keys option"
  ep_confirmed :: bool
  ep_destroyed :: bool

record material =
  mt_sessionId :: jsstr
  mt_key :: "byte list"

definition empty_endpoint :: "jsstr option \<Rightarrow> 'sk endpoint" where
  "empty_endpoint sid = \<lparr>ep_keyPair = None, ep_sessionId = sid, ep_providerNonce = None, ep_consumerNonce = None,
     ep_peerPublicKey = None, ep_sharedSecret = None, ep_keys = None, ep_confirmed = False, ep_destroyed = False\<rparr>"

definition provider_create :: "'sk key_pair \<Rightarrow> byte list \<Rightarrow> byte list \<Rightarrow> 'sk endpoint" where
  "provider_create kp sidBytes nonce =
     (empty_endpoint (Some []))\<lparr>ep_keyPair := Some kp, ep_sessionId := Some (base64UrlEncode sidBytes),
       ep_providerNonce := Some nonce\<rparr>"

definition consumer_create :: "'sk key_pair \<Rightarrow> byte list \<Rightarrow> 'sk endpoint" where
  "consumer_create kp nonce =
     (empty_endpoint None)\<lparr>ep_keyPair := Some kp, ep_consumerNonce := Some nonce\<rparr>"

text \<open>A JavaScript string field used as a condition: neither null nor empty.\<close>

definition truthy :: "jsstr option \<Rightarrow> bool" where
  "truthy s = (case s of None \<Rightarrow> False | Some t \<Rightarrow> t \<noteq> [])"

text \<open>The transcripts, given the provider's and the consumer's public key as the endpoint holds them.\<close>

definition transcript :: "byte list \<Rightarrow> byte list \<Rightarrow> jsstr \<Rightarrow> jsstr \<Rightarrow> jsstr \<Rightarrow> (handshake_error, byte list) result" where
  "transcript nonce1 nonce2 pub1 pub2 sid =
     rbind (decode_b64 pub1) (\<lambda>p1. rbind (decode_b64 pub2) (\<lambda>p2.
       Inr (concatBytes [nonce1, nonce2, p1, p2, TextEncoder_encode sid])))"

definition provider_transcripts :: "bool \<Rightarrow> 'sk endpoint \<Rightarrow> (handshake_error, byte list) result" where
  "provider_transcripts own p =
     (case (ep_providerNonce p, ep_consumerNonce p, ep_keyPair p, ep_peerPublicKey p) of
        (Some pn, Some cn, Some kp, Some peer) \<Rightarrow>
          (if peer = [] then Inl MissingTranscript
           else let sid = (case ep_sessionId p of Some s \<Rightarrow> s | None \<Rightarrow> [])
                in if own then transcript pn cn (kp_publicB64 kp) peer sid
                   else transcript cn pn peer (kp_publicB64 kp) sid)
      | _ \<Rightarrow> Inl MissingTranscript)"

definition consumer_transcripts :: "bool \<Rightarrow> 'sk endpoint \<Rightarrow> (handshake_error, byte list) result" where
  "consumer_transcripts own c =
     (case (ep_providerNonce c, ep_consumerNonce c, ep_keyPair c, ep_peerPublicKey c) of
        (Some pn, Some cn, Some kp, Some peer) \<Rightarrow>
          (if peer = [] then Inl MissingTranscript
           else let sid = (case ep_sessionId c of Some s \<Rightarrow> s | None \<Rightarrow> [])
                in if own then transcript cn pn (kp_publicB64 kp) peer sid
                   else transcript pn cn peer (kp_publicB64 kp) sid)
      | _ \<Rightarrow> Inl MissingTranscript)"

section \<open>The provider\<close>

definition provider_start :: "'sk endpoint \<Rightarrow> (handshake_error, handshake_init) result" where
  "provider_start p =
     (if ep_destroyed p then Inl HandshakeDestroyed
      else case (ep_keyPair p, ep_providerNonce p) of
        (Some kp, Some pn) \<Rightarrow>
          Inr \<lparr>hi_version = PROTOCOL_VERSION,
               hi_sessionId = (case ep_sessionId p of Some s \<Rightarrow> s | None \<Rightarrow> []),
               hi_publicKey = kp_publicB64 kp, hi_providerNonce = base64UrlEncode pn,
               hi_supportedSuites = [SUITE_V1]\<rparr>
      | _ \<Rightarrow> Inl NotInitialized)"

definition provider_handleResponse ::
  "('sk, 'pk) crypto \<Rightarrow> handshake_response \<Rightarrow> 'sk endpoint \<Rightarrow> (handshake_error, confirmation_request) result \<times> 'sk endpoint" where
  "provider_handleResponse C m p =
     (if ep_destroyed p then (Inl HandshakeDestroyed, p)
      else case (ep_keyPair p, ep_providerNonce p) of
        (Some kp, Some pn) \<Rightarrow>
          (if hr_version m \<noteq> PROTOCOL_VERSION then (Inl VersionMismatch, p)
           else if Some (hr_sessionId m) \<noteq> ep_sessionId p then (Inl SessionMismatch, p)
           else if hr_selectedSuite m \<noteq> SUITE_V1 then (Inl SuiteMismatch, p)
           else case decode_b64 (hr_consumerNonce m) of
             Inl e \<Rightarrow> (Inl e, p)
           | Inr cn \<Rightarrow>
               let p1 = p\<lparr>ep_consumerNonce := Some cn, ep_peerPublicKey := Some (hr_publicKey m)\<rparr>
               in case importEcdhPublicKey C (hr_publicKey m) of
                    Inl e \<Rightarrow> (Inl e, p1)
                  | Inr peer \<Rightarrow>
                      (case deriveSharedSecret C (kp_private kp) peer of
                         Inl e \<Rightarrow> (Inl e, p1)
                       | Inr ss \<Rightarrow>
                           let p2 = p1\<lparr>ep_sharedSecret := Some ss\<rparr>
                           in case deriveSessionKeys C ss pn cn of
                                Inl e \<Rightarrow> (Inl e, p2)
                              | Inr ks \<Rightarrow>
                                  let p3 = p2\<lparr>ep_keys := Some ks\<rparr>
                                  in (rbind (provider_transcripts True p3) (\<lambda>t.
                                        Inr \<lparr>cq_sessionId = (case ep_sessionId p3 of Some s \<Rightarrow> s | None \<Rightarrow> []),
                                             cq_confirmationMac = base64UrlEncode (cr_hmac C (ik_confirmation ks) t)\<rparr>),
                                      p3)))
      | _ \<Rightarrow> (Inl NotInitialized, p))"

definition provider_handleConfirmation ::
  "('sk, 'pk) crypto \<Rightarrow> key_confirmation \<Rightarrow> 'sk endpoint \<Rightarrow> (handshake_error, unit) result \<times> 'sk endpoint" where
  "provider_handleConfirmation C m p =
     (if ep_destroyed p then (Inl HandshakeDestroyed, p)
      else case ep_keys p of
        None \<Rightarrow> (Inl PrematureConfirmation, p)
      | Some ks \<Rightarrow>
          if \<not> truthy (ep_peerPublicKey p) \<or> ep_keyPair p = None then (Inl PrematureConfirmation, p)
          else if Some (kc_sessionId m) \<noteq> ep_sessionId p then (Inl SessionMismatch, p)
          else if Some (kc_publicKey m) \<noteq> ep_peerPublicKey p then (Inl PubkeyMismatch, p)
          else (case rbind (provider_transcripts False p) (\<lambda>t.
                       rbind (decode_b64 (kc_confirmationMac m)) (\<lambda>received.
                         guard_or (timingSafeEqual C (cr_hmac C (ik_confirmation ks) t) received) ConfirmationFailed)) of
                  Inl e \<Rightarrow> (Inl e, p)
                | Inr _ \<Rightarrow> (Inr (), p\<lparr>ep_confirmed := True\<rparr>)))"

definition provider_exportKeys :: "'sk endpoint \<Rightarrow> (handshake_error, material) result" where
  "provider_exportKeys p =
     (if \<not> ep_confirmed p then Inl NotConfirmed
      else case ep_keys p of
        None \<Rightarrow> Inl NotConfirmed
      | Some ks \<Rightarrow> Inr \<lparr>mt_sessionId = (case ep_sessionId p of Some s \<Rightarrow> s | None \<Rightarrow> []), mt_key = ik_encryption ks\<rparr>)"

definition endpoint_destroy :: "'sk endpoint \<Rightarrow> 'sk endpoint" where
  "endpoint_destroy p =
     (if ep_destroyed p then p
      else p\<lparr>ep_destroyed := True, ep_providerNonce := map_option zeroize (ep_providerNonce p),
             ep_consumerNonce := map_option zeroize (ep_consumerNonce p),
             ep_sharedSecret := map_option zeroize (ep_sharedSecret p),
             ep_keys := None, ep_confirmed := False\<rparr>)"

section \<open>The consumer\<close>

definition consumer_handleInit ::
  "('sk, 'pk) crypto \<Rightarrow> handshake_init \<Rightarrow> 'sk endpoint \<Rightarrow> (handshake_error, handshake_response) result \<times> 'sk endpoint" where
  "consumer_handleInit C m c =
     (if ep_destroyed c then (Inl HandshakeDestroyed, c)
      else case (ep_keyPair c, ep_consumerNonce c) of
        (Some kp, Some cn) \<Rightarrow>
          (if hi_version m \<noteq> PROTOCOL_VERSION then (Inl VersionMismatch, c)
           else if SUITE_V1 \<notin> set (hi_supportedSuites m) then (Inl SuiteMismatch, c)
           else let c1 = c\<lparr>ep_sessionId := Some (hi_sessionId m)\<rparr>
           in case decode_b64 (hi_providerNonce m) of
             Inl e \<Rightarrow> (Inl e, c1)
           | Inr pn \<Rightarrow>
               let c2 = c1\<lparr>ep_providerNonce := Some pn, ep_peerPublicKey := Some (hi_publicKey m)\<rparr>
               in case importEcdhPublicKey C (hi_publicKey m) of
                    Inl e \<Rightarrow> (Inl e, c2)
                  | Inr peer \<Rightarrow>
                      (case deriveSharedSecret C (kp_private kp) peer of
                         Inl e \<Rightarrow> (Inl e, c2)
                       | Inr ss \<Rightarrow>
                           let c3 = c2\<lparr>ep_sharedSecret := Some ss\<rparr>
                           in case deriveSessionKeys C ss pn cn of
                                Inl e \<Rightarrow> (Inl e, c3)
                              | Inr ks \<Rightarrow>
                                  (Inr \<lparr>hr_version = PROTOCOL_VERSION, hr_sessionId = hi_sessionId m,
                                        hr_publicKey = kp_publicB64 kp, hr_consumerNonce = base64UrlEncode cn,
                                        hr_selectedSuite = SUITE_V1\<rparr>,
                                   c3\<lparr>ep_keys := Some ks\<rparr>)))
      | _ \<Rightarrow> (Inl NotInitialized, c))"

definition consumer_handleConfirmationRequest ::
  "('sk, 'pk) crypto \<Rightarrow> confirmation_request \<Rightarrow> 'sk endpoint \<Rightarrow> (handshake_error, key_confirmation) result \<times> 'sk endpoint" where
  "consumer_handleConfirmationRequest C m c =
     (if ep_destroyed c then (Inl HandshakeDestroyed, c)
      else case (ep_keys c, ep_keyPair c, ep_sessionId c) of
        (Some ks, Some kp, Some sid) \<Rightarrow>
          (if sid = [] \<or> \<not> truthy (ep_peerPublicKey c) \<or> ep_providerNonce c = None \<or> ep_consumerNonce c = None
           then (Inl PrematureConfirmation, c)
           else if cq_sessionId m \<noteq> sid then (Inl SessionMismatch, c)
           else (case rbind (consumer_transcripts False c) (\<lambda>t.
                        rbind (decode_b64 (cq_confirmationMac m)) (\<lambda>received.
                        rbind (guard_or (timingSafeEqual C (cr_hmac C (ik_confirmation ks) t) received) ConfirmationFailed) (\<lambda>_.
                          consumer_transcripts True c))) of
                   Inl e \<Rightarrow> (Inl e, c)
                 | Inr t \<Rightarrow> (Inr \<lparr>kc_sessionId = sid, kc_publicKey = kp_publicB64 kp,
                                  kc_confirmationMac = base64UrlEncode (cr_hmac C (ik_confirmation ks) t)\<rparr>,
                            c\<lparr>ep_confirmed := True\<rparr>)))
      | _ \<Rightarrow> (Inl PrematureConfirmation, c))"

definition consumer_exportKeys :: "'sk endpoint \<Rightarrow> (handshake_error, material) result" where
  "consumer_exportKeys c =
     (if \<not> ep_confirmed c then Inl NotConfirmed
      else case (ep_keys c, ep_sessionId c) of
        (Some ks, Some sid) \<Rightarrow> (if sid = [] then Inl NotConfirmed
                               else Inr \<lparr>mt_sessionId = sid, mt_key = ik_encryption ks\<rparr>)
      | _ \<Rightarrow> Inl NotConfirmed)"

section \<open>A complete run\<close>

definition runHandshakePair ::
  "('sk, 'pk) crypto \<Rightarrow> 'sk endpoint \<Rightarrow> 'sk endpoint \<Rightarrow> (handshake_error, material \<times> material) result" where
  "runHandshakePair C p c =
     rbind (provider_start p) (\<lambda>init.
     case consumer_handleInit C init c of (r1, c1) \<Rightarrow> rbind r1 (\<lambda>response.
     case provider_handleResponse C response p of (r2, p1) \<Rightarrow> rbind r2 (\<lambda>confReq.
     case consumer_handleConfirmationRequest C confReq c1 of (r3, c2) \<Rightarrow> rbind r3 (\<lambda>conf.
     case provider_handleConfirmation C conf p1 of (r4, p2) \<Rightarrow> rbind r4 (\<lambda>_.
     rbind (provider_exportKeys p2) (\<lambda>pm. rbind (consumer_exportKeys c2) (\<lambda>cm. Inr (pm, cm))))))))"

section \<open>Lemmas on the primitives\<close>

lemma decode_b64_encode [simp]: "decode_b64 (base64UrlEncode bs) = Inr bs"
  by (simp add: decode_b64_def)

lemma timingSafeEqual_refl [simp]: "timingSafeEqual C a a"
  unfolding timingSafeEqual_def Let_def foldl_or_zero by simp

text \<open>The comparison accepts exactly the byte strings with the same blinded image.\<close>

lemma timingSafeEqual_iff:
  assumes "length (cr_blind C a) = length (cr_blind C b)"
  shows "timingSafeEqual C a b \<longleftrightarrow> cr_blind C a = cr_blind C b"
  unfolding timingSafeEqual_def Let_def foldl_or_zero xor_eq_0 nth_agree [OF assms] by simp

definition session_keys :: "('sk, 'pk) crypto \<Rightarrow> byte list \<Rightarrow> byte list \<Rightarrow> byte list \<Rightarrow> internal_keys" where
  "session_keys C ss pn cn =
     \<lparr>ik_encryption = cr_hkdf C ss (pn @ cn) (TextEncoder_encode KDF_encryption) 256,
      ik_confirmation = cr_hkdf C ss (pn @ cn) (TextEncoder_encode KDF_confirmation) 256\<rparr>"

lemma deriveSessionKeys_eq [simp]: "deriveSessionKeys C ss pn cn = Inr (session_keys C ss pn cn)"
  by (simp add: deriveSessionKeys_def session_keys_def hkdf_def concatBytes_concat Let_def)

text \<open>A key pair whose public half is a valid encoded point.\<close>

definition valid_pair :: "('sk, 'pk) crypto \<Rightarrow> 'sk key_pair \<Rightarrow> 'pk \<Rightarrow> byte list \<Rightarrow> bool" where
  "valid_pair C kp pk raw \<longleftrightarrow> kp_publicB64 kp = base64UrlEncode raw \<and> length raw = 65 \<and> raw ! 0 = 4 \<and>
     cr_import C raw = Some pk"

lemma import_valid: "valid_pair C kp pk raw \<Longrightarrow> importEcdhPublicKey C (kp_publicB64 kp) = Inr pk"
  by (simp add: valid_pair_def importEcdhPublicKey_def)

lemma base64_nonempty [simp]: "base64UrlEncode bs = [] \<longleftrightarrow> bs = []"
  by (cases bs rule: base64UrlEncode.cases) (simp_all add: Let_def)

lemma valid_pair_pub: "valid_pair C kp pk raw \<Longrightarrow> kp_publicB64 kp \<noteq> [] \<and> decode_b64 (kp_publicB64 kp) = Inr raw"
  by (auto simp: valid_pair_def)

section \<open>Agreement\<close>

text \<open>C35: an undisturbed handshake succeeds: with the symmetric shared secret of Diffie-Hellman, both sides
  confirm and export the same session id and the same encryption key.\<close>
theorem handshake_agrees:
  assumes "valid_pair C kpP pkP rawP" "valid_pair C kpC pkC rawC"
    and "cr_derive C (kp_private kpP) pkC = Some ss" "cr_derive C (kp_private kpC) pkP = Some ss"
    and "sid \<noteq> []"
  shows "runHandshakePair C (provider_create kpP sid pn) (consumer_create kpC cn) =
    (let mt = \<lparr>mt_sessionId = base64UrlEncode sid, mt_key = ik_encryption (session_keys C ss pn cn)\<rparr>
     in Inr (mt, mt))"
proof -
  note pubs = valid_pair_pub [OF assms(1)] valid_pair_pub [OF assms(2)] import_valid [OF assms(1)] import_valid [OF assms(2)]
  show ?thesis
    using assms(3-5) pubs
    by (simp add: runHandshakePair_def provider_create_def consumer_create_def empty_endpoint_def provider_start_def
        consumer_handleInit_def provider_handleResponse_def consumer_handleConfirmationRequest_def
        provider_handleConfirmation_def provider_exportKeys_def consumer_exportKeys_def
        deriveSharedSecret_def provider_transcripts_def consumer_transcripts_def transcript_def truthy_def Let_def)
qed

section \<open>Toy primitives for the examples\<close>

definition toy_crypto :: "(byte, byte) crypto" where
  "toy_crypto = \<lparr>cr_import = (\<lambda>raw. Some (raw ! 1)), cr_derive = (\<lambda>sk pk. Some [sk + pk]),
     cr_hkdf = (\<lambda>ikm salt label n. take (n div 8) (ikm @ salt @ label @ replicate 32 0)),
     cr_hmac = (\<lambda>k d. [sum_list (k @ d)]), cr_blind = (\<lambda>d. d)\<rparr>"

definition toy_pair :: "byte \<Rightarrow> byte key_pair" where
  "toy_pair sk = \<lparr>kp_private = sk, kp_publicB64 = base64UrlEncode (4 # sk # replicate 63 0)\<rparr>"

lemma toy_valid: "valid_pair toy_crypto (toy_pair sk) sk (4 # sk # replicate 63 0)"
  by (simp add: valid_pair_def toy_crypto_def toy_pair_def)

lemma handshake_agrees_witness:
  "\<exists>mt. runHandshakePair toy_crypto (provider_create (toy_pair 3) [1, 2] [5]) (consumer_create (toy_pair 9) [6])
     = Inr (mt, mt) \<and> mt_sessionId mt = js_str ''AQI''"
proof -
  have "cr_derive toy_crypto (kp_private (toy_pair 3)) 9 = Some [12]"
    "cr_derive toy_crypto (kp_private (toy_pair 9)) 3 = Some [12]"
    by (simp_all add: toy_crypto_def toy_pair_def)
  moreover have "base64UrlEncode [1, 2] = js_str ''AQI''"
    by (simp add: alpha_def ALPHABET_def js_str_def Let_def)
  ultimately show ?thesis
    using handshake_agrees [OF toy_valid toy_valid, of 3 9 "[12]" "[1, 2]" "[5]" "[6]"] by (simp add: Let_def)
qed

section \<open>A provider among arbitrary messages\<close>

datatype provider_op = OpResponse handshake_response | OpConfirmation key_confirmation | OpDestroy

fun provider_step :: "('sk, 'pk) crypto \<Rightarrow> provider_op \<Rightarrow> 'sk endpoint \<Rightarrow> 'sk endpoint" where
  "provider_step C (OpResponse m) p = snd (provider_handleResponse C m p)"
| "provider_step C (OpConfirmation m) p = snd (provider_handleConfirmation C m p)"
| "provider_step C OpDestroy p = endpoint_destroy p"

definition provider_run :: "('sk, 'pk) crypto \<Rightarrow> provider_op list \<Rightarrow> 'sk endpoint \<Rightarrow> 'sk endpoint" where
  "provider_run C ops p = foldl (\<lambda>p op. provider_step C op p) p ops"

lemma provider_run_snoc: "provider_run C (ops @ [op]) p = provider_step C op (provider_run C ops p)"
  by (simp add: provider_run_def)

lemma handleResponse_keeps_confirmed:
  "ep_confirmed (snd (provider_handleResponse C m p)) = ep_confirmed p"
  by (simp add: provider_handleResponse_def Let_def split: option.split sum.split)

lemma handleConfirmation_cases:
  "provider_handleConfirmation C m p = (Inr (), p\<lparr>ep_confirmed := True\<rparr>) \<or>
   (\<exists>e. provider_handleConfirmation C m p = (Inl e, p))"
  by (auto simp: provider_handleConfirmation_def split: option.split sum.split)

text \<open>The MAC of a confirmation matches the provider's own computation.\<close>

definition mac_verified :: "('sk, 'pk) crypto \<Rightarrow> key_confirmation \<Rightarrow> 'sk endpoint \<Rightarrow> bool" where
  "mac_verified C m p \<longleftrightarrow> (case (ep_keys p, provider_transcripts False p, decode_b64 (kc_confirmationMac m)) of
     (Some ks, Inr t, Inr received) \<Rightarrow> timingSafeEqual C (cr_hmac C (ik_confirmation ks) t) received
   | _ \<Rightarrow> False)"

lemma handleConfirmation_ok_mac:
  "fst (provider_handleConfirmation C m p) = Inr () \<Longrightarrow> mac_verified C m p"
  by (auto simp: provider_handleConfirmation_def mac_verified_def rbind_eq_Inr guard_or_def
      split: option.splits sum.splits if_splits)

lemma confirmed_has_mac:
  "ep_confirmed (provider_run C ops p) \<Longrightarrow> \<not> ep_confirmed p \<Longrightarrow>
   \<exists>pre m post. ops = pre @ OpConfirmation m # post \<and> mac_verified C m (provider_run C pre p)"
proof (induction ops rule: rev_induct)
  case (snoc op ops)
  let ?p = "provider_run C ops p"
  show ?case
  proof (cases "ep_confirmed ?p")
    case True
    then show ?thesis using snoc by fastforce
  next
    case False
    then obtain m where op: "op = OpConfirmation m"
      using snoc.prems by (cases op) (auto simp: provider_run_snoc handleResponse_keeps_confirmed endpoint_destroy_def split: if_splits)
    have "fst (provider_handleConfirmation C m ?p) = Inr ()"
      using handleConfirmation_cases [of C m ?p] False snoc.prems(1) op by (auto simp: provider_run_snoc)
    then show ?thesis using handleConfirmation_ok_mac op by blast
  qed
qed (simp add: provider_run_def)

text \<open>The well-formed response of the owner of a key pair.\<close>

definition response_of :: "jsstr \<Rightarrow> 'sk key_pair \<Rightarrow> byte list \<Rightarrow> handshake_response" where
  "response_of sid kp cn = \<lparr>hr_version = PROTOCOL_VERSION, hr_sessionId = sid, hr_publicKey = kp_publicB64 kp,
     hr_consumerNonce = base64UrlEncode cn, hr_selectedSuite = SUITE_V1\<rparr>"

lemma handleResponse_valid:
  assumes "\<not> ep_destroyed p" "ep_sessionId p = Some sid" "ep_keyPair p = Some kp" "ep_providerNonce p = Some pn"
    and "valid_pair C kp pkP rawP" "valid_pair C kpA pkA rawA" "cr_derive C (kp_private kp) pkA = Some ss"
  shows "provider_step C (OpResponse (response_of sid kpA cn)) p =
    p\<lparr>ep_consumerNonce := Some cn, ep_peerPublicKey := Some (kp_publicB64 kpA), ep_sharedSecret := Some ss,
      ep_keys := Some (session_keys C ss pn cn)\<rparr>"
  using assms(1-4,7) valid_pair_pub [OF assms(5)] valid_pair_pub [OF assms(6)] import_valid [OF assms(6)]
  by (simp add: provider_handleResponse_def deriveSharedSecret_def response_of_def provider_transcripts_def
      transcript_def Let_def)

text \<open>A concrete exchange: the response and the confirmation of the consumer with private key 9.\<close>

definition demo_response :: "byte \<Rightarrow> handshake_response" where
  "demo_response sk = response_of (base64UrlEncode [1, 2]) (toy_pair sk) [6]"

definition demo_confirmation :: "byte \<Rightarrow> key_confirmation" where
  "demo_confirmation sk = \<lparr>kc_sessionId = base64UrlEncode [1, 2], kc_publicKey = kp_publicB64 (toy_pair sk),
     kc_confirmationMac = base64UrlEncode (cr_hmac toy_crypto (ik_confirmation (session_keys toy_crypto [3 + sk] [5] [6]))
       ([6] @ [5] @ (4 # sk # replicate 63 0) @ (4 # 3 # replicate 63 0) @ TextEncoder_encode (base64UrlEncode [1, 2])))\<rparr>"

definition demo_provider :: "byte endpoint" where
  "demo_provider = provider_create (toy_pair 3) [1, 2] [5]"

definition demo_confirmed :: "byte endpoint" where
  "demo_confirmed = demo_provider\<lparr>ep_consumerNonce := Some [6], ep_peerPublicKey := Some (kp_publicB64 (toy_pair 9)),
     ep_sharedSecret := Some [12], ep_keys := Some (session_keys toy_crypto [12] [5] [6]), ep_confirmed := True\<rparr>"

lemma toy_derive: "cr_derive toy_crypto (kp_private (toy_pair a)) b = Some [a + b]"
  by (simp add: toy_crypto_def toy_pair_def)

lemma toy_derives:
  "cr_derive toy_crypto (kp_private (toy_pair 3)) 9 = Some [12]"
  "cr_derive toy_crypto (kp_private (toy_pair 3)) 77 = Some [80]"
  using toy_derive [of 3 9] toy_derive [of 3 77] by simp_all

lemma demo_run:
  "provider_run toy_crypto [OpResponse (demo_response 9), OpConfirmation (demo_confirmation 9)] demo_provider = demo_confirmed"
proof -
  have p: "provider_step toy_crypto (OpResponse (demo_response 9)) demo_provider = demo_confirmed\<lparr>ep_confirmed := False\<rparr>"
    unfolding demo_response_def
    by (subst handleResponse_valid [OF _ _ _ _ toy_valid [of 3] toy_valid [of 9] toy_derives(1)])
      (simp_all add: demo_provider_def demo_confirmed_def provider_create_def empty_endpoint_def)
  have "provider_step toy_crypto (OpConfirmation (demo_confirmation 9)) (demo_confirmed\<lparr>ep_confirmed := False\<rparr>) = demo_confirmed"
    using valid_pair_pub [OF toy_valid [of 9]] valid_pair_pub [OF toy_valid [of 3]]
    by (simp add: demo_confirmed_def demo_provider_def provider_create_def empty_endpoint_def demo_confirmation_def
        provider_handleConfirmation_def provider_transcripts_def transcript_def truthy_def concatBytes_concat
        del: base64UrlEncode.simps)
  with p show ?thesis by (simp add: provider_run_def)
qed

text \<open>keys leave the provider only after a verified MAC: whatever messages a fresh provider handles, if
  it exports keys then one of them was a confirmation whose MAC matched, under the confirmation key the
  provider held at that moment, the transcript of both nonces, both public keys and the session id.\<close>
theorem export_needs_verified_mac:
  assumes "provider_exportKeys (provider_run C ops (provider_create kp sid pn)) = Inr mt"
  shows "\<exists>pre m post. ops = pre @ OpConfirmation m # post \<and>
    mac_verified C m (provider_run C pre (provider_create kp sid pn))"
proof (rule confirmed_has_mac)
  show "ep_confirmed (provider_run C ops (provider_create kp sid pn))"
    using assms by (simp add: provider_exportKeys_def split: if_splits)
  show "\<not> ep_confirmed (provider_create kp sid pn)"
    by (simp add: provider_create_def empty_endpoint_def)
qed

lemma export_needs_verified_mac_witness:
  "\<exists>pre m post. [OpResponse (demo_response 9), OpConfirmation (demo_confirmation 9)] = pre @ OpConfirmation m # post \<and>
    mac_verified toy_crypto m (provider_run toy_crypto pre (provider_create (toy_pair 3) [1, 2] [5]))"
proof -
  have "provider_exportKeys demo_confirmed = Inr \<lparr>mt_sessionId = base64UrlEncode [1, 2],
      mt_key = ik_encryption (session_keys toy_crypto [12] [5] [6])\<rparr>"
    by (simp add: provider_exportKeys_def demo_confirmed_def demo_provider_def provider_create_def del: base64UrlEncode.simps)
  then have "provider_exportKeys (provider_run toy_crypto
      [OpResponse (demo_response 9), OpConfirmation (demo_confirmation 9)] demo_provider) =
      Inr \<lparr>mt_sessionId = base64UrlEncode [1, 2], mt_key = ik_encryption (session_keys toy_crypto [12] [5] [6])\<rparr>"
    by (simp only: demo_run)
  then show ?thesis unfolding demo_provider_def by (rule export_needs_verified_mac)
qed

text \<open>the confirmation does not stick to the keys it confirmed: a second well-formed response, from anyone,
  replaces the keys of a confirmed provider without clearing the confirmation, and what it exports from
  then on is the key shared with the sender of that response.\<close>
theorem confirmed_keys_replaced:
  assumes "ep_confirmed p" "\<not> ep_destroyed p" "ep_sessionId p = Some sid" "ep_keyPair p = Some kp" "ep_providerNonce p = Some pn"
    and "valid_pair C kp pkP rawP" "valid_pair C kpA pkA rawA" "cr_derive C (kp_private kp) pkA = Some ss"
  shows "provider_exportKeys (provider_step C (OpResponse (response_of sid kpA cn)) p) =
    Inr \<lparr>mt_sessionId = sid, mt_key = ik_encryption (session_keys C ss pn cn)\<rparr>"
  using assms(1,3) handleResponse_valid [OF assms(2-)]
  by (simp add: provider_exportKeys_def)

lemma confirmed_keys_replaced_witness:
  "provider_exportKeys (provider_step toy_crypto (OpResponse (demo_response 77))
     (provider_run toy_crypto [OpResponse (demo_response 9), OpConfirmation (demo_confirmation 9)] demo_provider)) =
   Inr \<lparr>mt_sessionId = base64UrlEncode [1, 2], mt_key = ik_encryption (session_keys toy_crypto [80] [5] [6])\<rparr>"
  unfolding demo_run demo_response_def [of 77]
  by (rule confirmed_keys_replaced [OF _ _ _ _ _ toy_valid [of 3] toy_valid [of 77] toy_derives(2)])
    (simp_all add: demo_provider_def demo_confirmed_def provider_create_def empty_endpoint_def del: base64UrlEncode.simps)

end
