(* ===== verification/Session.thy ===== *)
theory Session
  imports Handshake
begin

text \<open>
  Secure socket sessions: \<^verbatim>\<open>di-framework-socket/src/security/session.ts\<close>.

  A session is a state machine over the frames of a duplex.  A handler runs to its end in one
  step, except where it awaits the key import or a decryption: the material \<open>finishOpen\<close> was
  called with is kept in \<open>ss_pending\<close> until an \<open>EvResume\<close> continues it, and a sealed frame whose
  decryption \<open>onSealedFrame\<close> awaits is kept in \<open>ss_opening\<close>, with the number of the channel it was
  begun on, until an \<open>EvOpened\<close> settles it; frames and calls may come in between, and
  decryptions settle in any order.  JSON is the standard library's and enters as the functions
  of a record.  Messages sent and frames delivered to the handlers are collected in order.
\<close>

section \<open>State\<close>

datatype session_role = ProviderRole | ConsumerRole

datatype session_state = Handshaking | SessionOpen | SessionClosed | SessionFailed

record sealed_fields =
  sf_sessionId :: "jsstr option"
  sf_kind :: "jsstr option"
  sf_counter :: "jsstr option"
  sf_payload :: "jsstr option"

text \<open>\<open>js_parse\<close> is \<open>parseProtocolMessage\<close> (none when it throws), \<open>js_sealed\<close> the string fields of a
  JSON object whose type is that of a sealed message.\<close>

record json_io =
  js_parse :: "jsstr \<Rightarrow> message_body option"
  js_encode :: "message_body \<Rightarrow> jsstr"
  js_sealed :: "jsstr \<Rightarrow> sealed_fields option"
  js_encodeSealed :: "jsstr \<Rightarrow> frame_kind \<Rightarrow> jsstr \<Rightarrow> jsstr \<Rightarrow> jsstr"
  js_bigint :: "jsstr \<Rightarrow> int option"
  js_decimal :: "int \<Rightarrow> jsstr"

datatype session_error =
    HsError handshake_error
  | WrongFrameKind
  | PeerError jsstr jsstr
  | SessionNotOpen
  | InvalidMessage
  | SealedSessionMismatch
  | WireError wire_error
  | ChannelError aead_error
  | FrameError frame_error
  | Base64Error base64_error
  | BadNumber jsstr
  | BadSnapshot

datatype promise = Unsettled | Resolved | Rejected session_error

record 'sk session =
  ss_role :: session_role
  ss_state :: session_state
  ss_channel :: "channel option"
  ss_provider :: "'sk endpoint option"
  ss_consumer :: "'sk endpoint option"
  ss_subscribed :: bool
  ss_open :: promise
  ss_pending :: "material list"
  ss_channelNo :: nat
  ss_opening :: "(nat \<times> frame_kind \<times> int \<times> byte list option) list"
  ss_outbox :: "socket_frame list"
  ss_delivered :: "socket_frame list"
  ss_transportClosed :: bool

record session_snapshot =
  sv_v :: int
  sv_sessionId :: jsstr
  sv_key :: jsstr
  sv_sendCounter :: jsstr
  sv_recvCounter :: jsstr

definition new_session :: "session_role \<Rightarrow> 'sk session" where
  "new_session role = \<lparr>ss_role = role, ss_state = Handshaking, ss_channel = None, ss_provider = None,
     ss_consumer = None, ss_subscribed = False, ss_open = Unsettled, ss_pending = [], ss_channelNo = 0, ss_opening = [], ss_outbox = [],
     ss_delivered = [], ss_transportClosed = False\<rparr>"

definition settle :: "promise \<Rightarrow> 'sk session \<Rightarrow> 'sk session" where
  "settle r s = (if ss_open s = Unsettled then s\<lparr>ss_open := r\<rparr> else s)"

definition emit :: "socket_frame \<Rightarrow> 'sk session \<Rightarrow> 'sk session" where
  "emit f s = s\<lparr>ss_outbox := ss_outbox s @ [f]\<rparr>"

section \<open>Failing and closing\<close>

definition session_fail :: "session_error \<Rightarrow> 'sk session \<Rightarrow> 'sk session" where
  "session_fail err s =
     (if ss_state s = SessionFailed \<or> ss_state s = SessionClosed then s
      else (settle (Rejected err) (s\<lparr>ss_state := SessionFailed\<rparr>))
             \<lparr>ss_channel := map_option channel_destroy (ss_channel s),
              ss_provider := map_option endpoint_destroy (ss_provider s),
              ss_consumer := map_option endpoint_destroy (ss_consumer s),
              ss_subscribed := False\<rparr>)"

definition session_close :: "bool \<Rightarrow> 'sk session \<Rightarrow> 'sk session" where
  "session_close closeTransport s =
     (if ss_state s = SessionClosed then s
      else s\<lparr>ss_state := SessionClosed, ss_subscribed := False, ss_channel := None, ss_provider := None,
             ss_consumer := None, ss_transportClosed := ss_transportClosed s \<or> closeTransport\<rparr>)"

section \<open>Opening\<close>

definition begin_provider :: "json_io \<Rightarrow> 'sk endpoint \<Rightarrow> 'sk session \<Rightarrow> (session_error, unit) result \<times> 'sk session" where
  "begin_provider J p s =
     (let s1 = s\<lparr>ss_subscribed := True, ss_provider := Some p\<rparr>
      in if ss_state s1 = Handshaking
         then (case provider_start p of
                 Inl e \<Rightarrow> (Inl (HsError e), s1)
               | Inr m \<Rightarrow> (Inr (), emit (textFrame (js_encode J (InitMsg m))) s1))
         else (Inr (), s1))"

definition begin_consumer :: "'sk endpoint \<Rightarrow> 'sk session \<Rightarrow> (session_error, unit) result \<times> 'sk session" where
  "begin_consumer c s = (Inr (), s\<lparr>ss_subscribed := True, ss_consumer := Some c\<rparr>)"

text \<open>The end of \<open>finishOpen\<close>, after the key import.\<close>

definition finish_open :: "material \<Rightarrow> 'sk session \<Rightarrow> 'sk session" where
  "finish_open m s = (case channel_of (mt_key m) (mt_sessionId m) of
     Inl e \<Rightarrow> session_fail (ChannelError e) s
   | Inr ch \<Rightarrow> settle Resolved (s\<lparr>ss_channel := Some ch, ss_channelNo := Suc (ss_channelNo s), ss_state := SessionOpen\<rparr>))"

section \<open>Sealed frames\<close>

definition deliver :: "frame_kind \<Rightarrow> byte list \<Rightarrow> 'sk session \<Rightarrow> (session_error, unit) result \<times> 'sk session" where
  "deliver kind plain s = (case frameFromOpened kind plain of
     Inl e \<Rightarrow> (Inl (FrameError e), s)
   | Inr app \<Rightarrow> (Inr (), s\<lparr>ss_delivered := ss_delivered s @ [app]\<rparr>))"

text \<open>\<open>open_frame\<close> is \<^verbatim>\<open>onSealedFrame\<close> up to the decryption it awaits, \<open>open_settled\<close> what runs when that settles:
  the state is not looked at again, and the counter advances in the channel the decryption was begun on.\<close>

definition open_frame :: "aes \<Rightarrow> channel \<Rightarrow> int \<Rightarrow> byte list \<Rightarrow> frame_kind \<Rightarrow> 'sk session \<Rightarrow> (session_error, unit) result \<times> 'sk session" where
  "open_frame A ch counter body kind s =
     (case open_begin A counter (base64UrlEncode body) kind ch of
        Inl e \<Rightarrow> (Inl (ChannelError e), s)
      | Inr pending \<Rightarrow> (Inr (), s\<lparr>ss_opening := ss_opening s @ [(ss_channelNo s, kind, pending)]\<rparr>))"

definition advance_channel :: "nat \<Rightarrow> int \<times> byte list option \<Rightarrow> 'sk session \<Rightarrow> 'sk session" where
  "advance_channel n pending s =
     (if n = ss_channelNo s then s\<lparr>ss_channel := map_option (\<lambda>ch. snd (open_finish pending ch)) (ss_channel s)\<rparr> else s)"

definition open_settled :: "nat \<Rightarrow> 'sk session \<Rightarrow> (session_error, unit) result \<times> 'sk session" where
  "open_settled i s =
     (if i < length (ss_opening s)
      then (case ss_opening s ! i of (n, kind, pending) \<Rightarrow>
        let s1 = s\<lparr>ss_opening := take i (ss_opening s) @ drop (Suc i) (ss_opening s)\<rparr>
        in (case snd pending of
              None \<Rightarrow> (Inl (ChannelError DecryptionFailed), s1)
            | Some plain \<Rightarrow> deliver kind plain (advance_channel n pending s1)))
      else (Inr (), s))"

record sealed_json =
  sj_sessionId :: jsstr
  sj_kind :: frame_kind
  sj_counter :: int
  sj_body :: "byte list"

text \<open>\<open>None\<close> is the result \<^verbatim>\<open>null\<close>.\<close>

definition tryParseSealedJson :: "json_io \<Rightarrow> jsstr \<Rightarrow> (session_error, sealed_json option) result" where
  "tryParseSealedJson J txt = (case js_sealed J txt of
     None \<Rightarrow> Inr None
   | Some p \<Rightarrow> (case (sf_sessionId p, sf_counter p, sf_payload p) of
        (Some sid, Some ctr, Some payload) \<Rightarrow>
          (case js_bigint J ctr of
             None \<Rightarrow> Inl (BadNumber ctr)
           | Some n \<Rightarrow> (case base64UrlDecode payload of
                Inl e \<Rightarrow> Inl (Base64Error e)
              | Inr body \<Rightarrow> Inr (Some \<lparr>sj_sessionId = sid,
                    sj_kind = (if sf_kind p = Some (js_str ''text'') then TextKind else BinaryKind),
                    sj_counter = n, sj_body = body\<rparr>)))
      | _ \<Rightarrow> Inr None))"

definition onSealedFrame :: "json_io \<Rightarrow> aes \<Rightarrow> socket_frame \<Rightarrow> channel \<Rightarrow> 'sk session \<Rightarrow> (session_error, unit) result \<times> 'sk session" where
  "onSealedFrame J A frame ch s =
     (if f_kind frame = BinaryKind
      then (case decodeSealedBinary (f_data frame) of
              Inl e \<Rightarrow> (Inl (WireError e), s)
            | Inr d \<Rightarrow> open_frame A ch (sp_counter d) (sp_body d) (sp_kind d) s)
      else if truthy (f_text frame)
      then (case tryParseSealedJson J (the (f_text frame)) of
              Inl e \<Rightarrow> (Inl e, s)
            | Inr None \<Rightarrow> (Inl InvalidMessage, s)
            | Inr (Some d) \<Rightarrow>
                if sj_sessionId d \<noteq> ch_sessionId ch then (Inl SealedSessionMismatch, s)
                else open_frame A ch (sj_counter d) (sj_body d) (sj_kind d) s)
      else (Inl InvalidMessage, s))"

section \<open>Incoming frames\<close>

definition provider_message :: "json_io \<Rightarrow> ('sk, 'pk) crypto \<Rightarrow> message_body \<Rightarrow> 'sk endpoint \<Rightarrow> 'sk session \<Rightarrow> (session_error, unit) result \<times> 'sk session" where
  "provider_message J C m p s = (case m of
     ResponseMsg r \<Rightarrow>
       (case provider_handleResponse C r p of
          (Inl e, p1) \<Rightarrow> (Inl (HsError e), s\<lparr>ss_provider := Some p1\<rparr>)
        | (Inr q, p1) \<Rightarrow> (Inr (), emit (textFrame (js_encode J (ConfRequestMsg q))) (s\<lparr>ss_provider := Some p1\<rparr>)))
   | ConfirmationMsg k \<Rightarrow>
       (case provider_handleConfirmation C k p of
          (Inl e, p1) \<Rightarrow> (Inl (HsError e), s\<lparr>ss_provider := Some p1\<rparr>)
        | (Inr _, p1) \<Rightarrow>
            (case provider_exportKeys p1 of
               Inl e \<Rightarrow> (Inl (HsError e), s\<lparr>ss_provider := Some p1\<rparr>)
             | Inr mt \<Rightarrow> (Inr (), s\<lparr>ss_provider := Some p1, ss_pending := ss_pending s @ [mt]\<rparr>)))
   | _ \<Rightarrow> (Inr (), s))"

definition consumer_message :: "json_io \<Rightarrow> ('sk, 'pk) crypto \<Rightarrow> message_body \<Rightarrow> 'sk endpoint \<Rightarrow> 'sk session \<Rightarrow> (session_error, unit) result \<times> 'sk session" where
  "consumer_message J C m c s = (case m of
     InitMsg i \<Rightarrow>
       (case consumer_handleInit C i c of
          (Inl e, c1) \<Rightarrow> (Inl (HsError e), s\<lparr>ss_consumer := Some c1\<rparr>)
        | (Inr r, c1) \<Rightarrow> (Inr (), emit (textFrame (js_encode J (ResponseMsg r))) (s\<lparr>ss_consumer := Some c1\<rparr>)))
   | ConfRequestMsg q \<Rightarrow>
       (case consumer_handleConfirmationRequest C q c of
          (Inl e, c1) \<Rightarrow> (Inl (HsError e), s\<lparr>ss_consumer := Some c1\<rparr>)
        | (Inr k, c1) \<Rightarrow>
            let s1 = emit (textFrame (js_encode J (ConfirmationMsg k))) (s\<lparr>ss_consumer := Some c1\<rparr>)
            in (case consumer_exportKeys c1 of
                  Inl e \<Rightarrow> (Inl (HsError e), s1)
                | Inr mt \<Rightarrow> (Inr (), s1\<lparr>ss_pending := ss_pending s1 @ [mt]\<rparr>)))
   | _ \<Rightarrow> (Inr (), s))"

definition onFrame :: "json_io \<Rightarrow> aes \<Rightarrow> ('sk, 'pk) crypto \<Rightarrow> socket_frame \<Rightarrow> 'sk session \<Rightarrow> (session_error, unit) result \<times> 'sk session" where
  "onFrame J A C frame s =
     (if ss_state s = SessionClosed \<or> ss_state s = SessionFailed then (Inr (), s)
      else if ss_state s = SessionOpen \<and> ss_channel s \<noteq> None
      then onSealedFrame J A frame (the (ss_channel s)) s
      else if f_kind frame \<noteq> TextKind \<or> f_text frame = None
      then (if ss_state s = Handshaking
            then (if f_data frame = [] then (Inr (), s) else (Inl WrongFrameKind, s))
            else (Inr (), s))
      else case js_parse J (the (f_text frame)) of
        None \<Rightarrow> (Inr (), s)
      | Some (ErrorMsg code msg) \<Rightarrow> (Inl (PeerError code msg), s)
      | Some m \<Rightarrow>
          (case (ss_role s, ss_provider s, ss_consumer s) of
             (ProviderRole, Some p, _) \<Rightarrow> provider_message J C m p s
           | (ConsumerRole, _, Some c) \<Rightarrow> consumer_message J C m c s
           | _ \<Rightarrow> (Inr (), s)))"

section \<open>Sending\<close>

definition session_send :: "aes \<Rightarrow> byte list \<Rightarrow> send_input \<Rightarrow> frame_kind option \<Rightarrow> 'sk session \<Rightarrow> (session_error, unit) result \<times> 'sk session" where
  "session_send A nonce input kind s =
     (if ss_state s \<noteq> SessionOpen then (Inl SessionNotOpen, s)
      else case ss_channel s of
        None \<Rightarrow> (Inl SessionNotOpen, s)
      | Some ch \<Rightarrow>
          (case (case input of SendFrame f \<Rightarrow> Inr f | _ \<Rightarrow> toFrame input kind) of
             Inl e \<Rightarrow> (Inl (FrameError e), s)
           | Inr f \<Rightarrow>
               (case seal A nonce (f_data f) (f_kind f) ch of
                  (Inl e, ch1) \<Rightarrow> (Inl (ChannelError e), s\<lparr>ss_channel := Some ch1\<rparr>)
                | (Inr x, ch1) \<Rightarrow>
                    let s1 = s\<lparr>ss_channel := Some ch1\<rparr>
                    in case base64UrlDecode (se_ciphertextB64 x) of
                         Inl e \<Rightarrow> (Inl (Base64Error e), s1)
                       | Inr body \<Rightarrow>
                           (case encodeSealedBinary \<lparr>sp_kind = se_kind x, sp_counter = se_counter x, sp_body = body\<rparr> of
                              Inl e \<Rightarrow> (Inl (WireError e), s1)
                            | Inr wire \<Rightarrow> (Inr (), emit (binaryFrame wire) s1)))))"

definition sendSealedText :: "json_io \<Rightarrow> aes \<Rightarrow> byte list \<Rightarrow> send_input \<Rightarrow> frame_kind option \<Rightarrow> 'sk session \<Rightarrow> (session_error, unit) result \<times> 'sk session" where
  "sendSealedText J A nonce input kind s =
     (if ss_state s \<noteq> SessionOpen then (Inl SessionNotOpen, s)
      else case ss_channel s of
        None \<Rightarrow> (Inl SessionNotOpen, s)
      | Some ch \<Rightarrow>
          (case (case input of SendFrame f \<Rightarrow> Inr f | _ \<Rightarrow> toFrame input kind) of
             Inl e \<Rightarrow> (Inl (FrameError e), s)
           | Inr f \<Rightarrow>
               (case seal A nonce (f_data f) (f_kind f) ch of
                  (Inl e, ch1) \<Rightarrow> (Inl (ChannelError e), s\<lparr>ss_channel := Some ch1\<rparr>)
                | (Inr x, ch1) \<Rightarrow>
                    let s1 = s\<lparr>ss_channel := Some ch1\<rparr>
                    in case base64UrlDecode (se_ciphertextB64 x) of
                         Inl e \<Rightarrow> (Inl (Base64Error e), s1)
                       | Inr body \<Rightarrow>
                           (Inr (), emit (textFrame (js_encodeSealed J (ch_sessionId ch1) (se_kind x)
                               (js_decimal J (se_counter x)) (base64UrlEncode body))) s1))))"

section \<open>Hibernation\<close>

definition session_exportSnapshot :: "json_io \<Rightarrow> 'sk session \<Rightarrow> (session_error, session_snapshot) result" where
  "session_exportSnapshot J s =
     (if ss_state s \<noteq> SessionOpen then Inl SessionNotOpen
      else case ss_channel s of
        None \<Rightarrow> Inl SessionNotOpen
      | Some ch \<Rightarrow> (case exportSnapshot ch of
           Inl e \<Rightarrow> Inl (ChannelError e)
         | Inr sn \<Rightarrow> Inr \<lparr>sv_v = 1, sv_sessionId = sn_sessionId sn, sv_key = base64UrlEncode (sn_key sn),
                          sv_sendCounter = js_decimal J (sn_send sn), sv_recvCounter = js_decimal J (sn_recv sn)\<rparr>))"

definition rehydrate :: "json_io \<Rightarrow> session_snapshot \<Rightarrow> (session_error, 'sk session) result" where
  "rehydrate J sv =
     (if sv_v sv \<noteq> 1 then Inl BadSnapshot
      else case base64UrlDecode (sv_key sv) of
        Inl e \<Rightarrow> Inl (Base64Error e)
      | Inr key \<Rightarrow>
          (case (js_bigint J (sv_sendCounter sv), js_bigint J (sv_recvCounter sv)) of
             (Some snd_ctr, Some rcv_ctr) \<Rightarrow>
               (case channel_restore \<lparr>sn_sessionId = sv_sessionId sv, sn_key = key, sn_send = snd_ctr, sn_recv = rcv_ctr\<rparr> of
                  Inl e \<Rightarrow> Inl (ChannelError e)
                | Inr ch \<Rightarrow> Inr ((new_session ProviderRole)\<lparr>ss_channel := Some ch, ss_state := SessionOpen,
                      ss_subscribed := True, ss_open := Resolved\<rparr>))
           | (None, _) \<Rightarrow> Inl (BadNumber (sv_sendCounter sv))
           | (_, None) \<Rightarrow> Inl (BadNumber (sv_recvCounter sv))))"

section \<open>Events\<close>

datatype session_event =
    EvFrame socket_frame
  | EvResume
  | EvOpened nat
  | EvSend "byte list" send_input "frame_kind option"
  | EvClose bool

definition session_step :: "json_io \<Rightarrow> aes \<Rightarrow> ('sk, 'pk) crypto \<Rightarrow> session_event \<Rightarrow> 'sk session \<Rightarrow> 'sk session" where
  "session_step J A C e s = (case e of
     EvFrame f \<Rightarrow>
       (if ss_subscribed s
        then (case onFrame J A C f s of (Inl err, s1) \<Rightarrow> session_fail err s1 | (Inr _, s1) \<Rightarrow> s1)
        else s)
   | EvResume \<Rightarrow> (case ss_pending s of [] \<Rightarrow> s | m # ms \<Rightarrow> finish_open m (s\<lparr>ss_pending := ms\<rparr>))
   | EvOpened i \<Rightarrow> (case open_settled i s of (Inl err, s1) \<Rightarrow> session_fail err s1 | (Inr _, s1) \<Rightarrow> s1)
   | EvSend nonce input kind \<Rightarrow> snd (session_send A nonce input kind s)
   | EvClose t \<Rightarrow> session_close t s)"

definition session_run :: "json_io \<Rightarrow> aes \<Rightarrow> ('sk, 'pk) crypto \<Rightarrow> session_event list \<Rightarrow> 'sk session \<Rightarrow> 'sk session" where
  "session_run J A C es s = foldl (\<lambda>s e. session_step J A C e s) s es"

section \<open>Two sessions over a faithful duplex\<close>

text \<open>The frames a step adds to the outbox, delivered to the other side in order.\<close>

definition fresh_output :: "'sk session \<Rightarrow> 'sk session \<Rightarrow> socket_frame list" where
  "fresh_output before after = drop (length (ss_outbox before)) (ss_outbox after)"

text \<open>Frames that arrive one after the other, each decryption settling before the next frame.\<close>

definition feed :: "json_io \<Rightarrow> aes \<Rightarrow> ('sk, 'pk) crypto \<Rightarrow> socket_frame list \<Rightarrow> 'sk session \<Rightarrow> 'sk session" where
  "feed J A C fs s = session_run J A C (concat (map (\<lambda>f. [EvFrame f, EvOpened 0]) fs)) s"

definition connect_pair :: "json_io \<Rightarrow> aes \<Rightarrow> ('sk, 'pk) crypto \<Rightarrow> 'sk endpoint \<Rightarrow> 'sk endpoint \<Rightarrow> 'sk session \<times> 'sk session" where
  "connect_pair J A C p c =
     (let c0 = snd (begin_consumer c (new_session ConsumerRole));
          p0 = snd (begin_provider J p (new_session ProviderRole));
          c1 = feed J A C (ss_outbox p0) c0;
          p1 = feed J A C (fresh_output c0 c1) p0;
          c2 = feed J A C (fresh_output p0 p1) c1;
          p2 = feed J A C (fresh_output c1 c2) p1
      in (session_step J A C EvResume p2, session_step J A C EvResume c2))"

text \<open>Two sessions and the frames on their way to each; the provider is the end \<open>True\<close>.  Either end sends and takes up
  the next frame on its way at any time.\<close>

record 'sk link =
  lk_end :: "bool \<Rightarrow> 'sk session"
  lk_queue :: "bool \<Rightarrow> socket_frame list"

datatype link_event = LinkSend bool "byte list" socket_frame | LinkArrive bool

definition link_step :: "json_io \<Rightarrow> aes \<Rightarrow> ('sk, 'pk) crypto \<Rightarrow> 'sk link \<Rightarrow> link_event \<Rightarrow> 'sk link" where
  "link_step J A C l e = (case e of
     LinkSend side nonce f \<Rightarrow>
       let s1 = session_step J A C (EvSend nonce (SendFrame f) None) (lk_end l side)
       in l\<lparr>lk_end := (lk_end l)(side := s1),
            lk_queue := (lk_queue l)((\<not> side) := lk_queue l (\<not> side) @ fresh_output (lk_end l side) s1)\<rparr>
   | LinkArrive side \<Rightarrow>
       (case lk_queue l side of
          [] \<Rightarrow> l
        | w # ws \<Rightarrow> l\<lparr>lk_end := (lk_end l)(side := feed J A C [w] (lk_end l side)), lk_queue := (lk_queue l)(side := ws)\<rparr>))"

definition link_run :: "json_io \<Rightarrow> aes \<Rightarrow> ('sk, 'pk) crypto \<Rightarrow> link_event list \<Rightarrow> 'sk link \<Rightarrow> 'sk link" where
  "link_run J A C es l = foldl (link_step J A C) l es"

definition link_open :: "'sk session \<times> 'sk session \<Rightarrow> 'sk link" where
  "link_open ends = \<lparr>lk_end = (\<lambda>side. if side then fst ends else snd ends), lk_queue = (\<lambda>_. [])\<rparr>"

text \<open>The frames one end sends in a history, in order.\<close>

definition sent_by :: "bool \<Rightarrow> link_event list \<Rightarrow> socket_frame list" where
  "sent_by side es = concat (map (\<lambda>e. case e of LinkSend x _ f \<Rightarrow> if x = side then [f] else [] | LinkArrive _ \<Rightarrow> []) es)"

definition sendable :: "link_event \<Rightarrow> bool" where
  "sendable e \<longleftrightarrow> (case e of LinkSend _ nonce f \<Rightarrow> wire_frame f \<and> length nonce = NONCE_BYTES | LinkArrive _ \<Rightarrow> True)"

definition json_ok :: "json_io \<Rightarrow> bool" where
  "json_ok J \<longleftrightarrow> (\<forall>m. js_parse J (js_encode J m) = Some m)"

lemma feed_one: "feed J A C [f] s = session_step J A C (EvOpened 0) (session_step J A C (EvFrame f) s)"
  by (simp add: feed_def session_run_def)

lemma frameFromOpened_wire: "wire_frame f \<Longrightarrow> frameFromOpened (f_kind f) (f_data f) = Inr f"
  using payload_wire_frame by (simp add: frameFromOpened_def payload_frame_def)

lemma sealed_wire_roundtrip:
  assumes "0 \<le> c" "c < 2 ^ 64" "28 \<le> length body"
  obtains raw where "encodeSealedBinary \<lparr>sp_kind = k, sp_counter = c, sp_body = body\<rparr> = Inr raw"
    "decodeSealedBinary raw = Inr \<lparr>sp_kind = k, sp_counter = c, sp_body = body\<rparr>"
  using assms sealed_binary_fields [of "\<lparr>sp_kind = k, sp_counter = c, sp_body = body\<rparr>"] by auto

text \<open>An end that can talk, over a channel that nothing is being opened on.\<close>

definition talking :: "'sk session \<Rightarrow> channel \<Rightarrow> bool" where
  "talking s ch \<longleftrightarrow> ss_state s = SessionOpen \<and> ss_subscribed s \<and> ss_opening s = [] \<and> ss_channel s = Some ch \<and> \<not> ch_destroyed ch"

text \<open>A frame on the wire that carries an application frame under a counter, for a session id and key.\<close>

definition carries :: "aes \<Rightarrow> jsstr \<Rightarrow> byte list \<Rightarrow> int \<Rightarrow> socket_frame \<Rightarrow> socket_frame \<Rightarrow> bool" where
  "carries A sid key c f w \<longleftrightarrow> wire_frame f \<and> f_kind w = BinaryKind \<and>
     (\<exists>body. decodeSealedBinary (f_data w) = Inr \<lparr>sp_kind = f_kind f, sp_counter = c, sp_body = body\<rparr> \<and>
        (\<forall>ch. ch_sessionId ch = sid \<and> ch_key ch = key \<and> \<not> ch_destroyed ch \<and> ch_recv ch \<le> c \<longrightarrow>
           open_begin A c (base64UrlEncode body) (f_kind f) ch = Inr (c, Some (f_data f))))"

lemma talk_send:
  assumes A: "aes_correct A" and f: "wire_frame f" and nonce: "length nonce = NONCE_BYTES"
    and tx: "talking tx ct" and range: "0 \<le> ch_send ct" "ch_send ct < 2 ^ 64"
  obtains w where "session_step J A C (EvSend nonce (SendFrame f) None) tx =
      tx\<lparr>ss_channel := Some (ct\<lparr>ch_send := ch_send ct + 1\<rparr>), ss_outbox := ss_outbox tx @ [w]\<rparr>"
    "carries A (ch_sessionId ct) (ch_key ct) (ch_send ct) f w"
proof -
  have ch: "ss_channel tx = Some ct" "\<not> ch_destroyed ct" "ss_state tx = SessionOpen"
    using tx by (simp_all add: talking_def)
  obtain x ct1 where x: "seal A nonce (f_data f) (f_kind f) ct = (Inr x, ct1)"
    using ch(2) range by (simp add: seal_def aad_in_range Let_def)
  note sx = seal_cases [OF x]
  obtain ad where b64: "se_ciphertextB64 x = base64UrlEncode (nonce @ aes_encrypt A (ch_key ct) nonce ad (f_data f))"
    using sx(5) by blast
  define body where "body = nonce @ aes_encrypt A (ch_key ct) nonce ad (f_data f)"
  have "28 \<le> length body" using A nonce by (simp add: body_def aes_correct_def NONCE_BYTES_def)
  with range obtain raw where raw: "encodeSealedBinary \<lparr>sp_kind = f_kind f, sp_counter = ch_send ct, sp_body = body\<rparr> = Inr raw"
    "decodeSealedBinary raw = Inr \<lparr>sp_kind = f_kind f, sp_counter = ch_send ct, sp_body = body\<rparr>"
    by (rule sealed_wire_roundtrip)
  have "session_step J A C (EvSend nonce (SendFrame f) None) tx =
      tx\<lparr>ss_channel := Some (ct\<lparr>ch_send := ch_send ct + 1\<rparr>), ss_outbox := ss_outbox tx @ [binaryFrame raw]\<rparr>"
    using ch x raw(1) sx b64 by (simp add: session_step_def session_send_def emit_def body_def Let_def)
  moreover have "open_begin A (ch_send ct) (base64UrlEncode body) (f_kind f) ch = Inr (ch_send ct, Some (f_data f))"
    if "ch_sessionId ch = ch_sessionId ct" "ch_key ch = ch_key ct" "\<not> ch_destroyed ch" "ch_recv ch \<le> ch_send ct" for ch
    using open_sealed [OF A nonce x that(3,4,1,2)] sx b64 by (simp add: body_def)
  then have "carries A (ch_sessionId ct) (ch_key ct) (ch_send ct) f (binaryFrame raw)"
    using f raw(2) by (auto simp: carries_def binaryFrame_def)
  ultimately show ?thesis
    by (rule that)
qed

lemma talk_arrive:
  assumes rx: "talking rx cr" and w: "carries A (ch_sessionId cr) (ch_key cr) c f w" "ch_recv cr \<le> c"
  shows "feed J A C [w] rx = rx\<lparr>ss_channel := Some (cr\<lparr>ch_recv := c + 1\<rparr>), ss_delivered := ss_delivered rx @ [f]\<rparr>"
proof -
  have ch: "ss_channel rx = Some cr" "\<not> ch_destroyed cr" "ss_state rx = SessionOpen" "ss_subscribed rx" "ss_opening rx = []"
    using rx by (simp_all add: talking_def)
  obtain body where body: "decodeSealedBinary (f_data w) = Inr \<lparr>sp_kind = f_kind f, sp_counter = c, sp_body = body\<rparr>"
      "open_begin A c (base64UrlEncode body) (f_kind f) cr = Inr (c, Some (f_data f))" "f_kind w = BinaryKind" "wire_frame f"
    using w ch(2) unfolding carries_def by blast
  have "session_step J A C (EvFrame w) rx = rx\<lparr>ss_opening := [(ss_channelNo rx, f_kind f, c, Some (f_data f))]\<rparr>"
    using ch body by (simp add: session_step_def onFrame_def onSealedFrame_def open_frame_def)
  then show ?thesis
    using ch frameFromOpened_wire [OF body(4)]
    by (simp add: feed_one session_step_def open_settled_def advance_channel_def open_finish_def deliver_def)
qed

fun in_transit :: "aes \<Rightarrow> jsstr \<Rightarrow> byte list \<Rightarrow> int \<Rightarrow> socket_frame list \<Rightarrow> socket_frame list \<Rightarrow> bool" where
  "in_transit A sid key c [] ws \<longleftrightarrow> ws = []"
| "in_transit A sid key c (f # fs) ws \<longleftrightarrow> (case ws of [] \<Rightarrow> False | w # ws' \<Rightarrow> carries A sid key c f w \<and> in_transit A sid key (c + 1) fs ws')"

lemma in_transit_snoc: "in_transit A sid key c fs ws \<Longrightarrow> carries A sid key (c + int (length fs)) f w \<Longrightarrow> in_transit A sid key c (fs @ [f]) (ws @ [w])"
  by (induction fs arbitrary: c ws) (auto split: list.splits simp: algebra_simps)

lemma in_transit_length: "in_transit A sid key c fs ws \<Longrightarrow> length fs = length ws"
  by (induction fs arbitrary: c ws) (auto split: list.splits)

text \<open>One direction: what was sent and not yet delivered is on its way, under consecutive counters.\<close>

definition line_ok :: "aes \<Rightarrow> channel \<Rightarrow> channel \<Rightarrow> socket_frame list \<Rightarrow> socket_frame list \<Rightarrow> socket_frame list \<Rightarrow> bool" where
  "line_ok A ct cr sent done ws \<longleftrightarrow> ch_sessionId ct = ch_sessionId cr \<and> ch_key ct = ch_key cr \<and> 0 \<le> ch_recv cr \<and> ch_send ct = int (length sent) \<and>
     (\<exists>rest. sent = done @ rest \<and> in_transit A (ch_sessionId cr) (ch_key cr) (ch_recv cr) rest ws \<and> ch_recv cr + int (length rest) = ch_send ct)"

definition link_ok :: "aes \<Rightarrow> link_event list \<Rightarrow> 'sk link \<Rightarrow> bool" where
  "link_ok A es l \<longleftrightarrow> (\<exists>ch. \<forall>side. talking (lk_end l side) (ch side) \<and>
     line_ok A (ch (\<not> side)) (ch side) (sent_by (\<not> side) es) (ss_delivered (lk_end l side)) (lk_queue l side))"

lemma line_ok_sent:
  assumes "line_ok A ct cr sent done ws" "carries A (ch_sessionId ct) (ch_key ct) (ch_send ct) f w"
  shows "line_ok A (ct\<lparr>ch_send := ch_send ct + 1\<rparr>) cr (sent @ [f]) done (ws @ [w])"
proof -
  obtain rest where rest: "sent = done @ rest" "in_transit A (ch_sessionId cr) (ch_key cr) (ch_recv cr) rest ws"
      "ch_recv cr + int (length rest) = ch_send ct"
    using assms(1) by (auto simp: line_ok_def)
  then have "in_transit A (ch_sessionId cr) (ch_key cr) (ch_recv cr) (rest @ [f]) (ws @ [w])"
    using assms by (intro in_transit_snoc) (simp_all add: line_ok_def)
  then show ?thesis
    using assms(1) rest unfolding line_ok_def by (intro conjI exI[of _ "rest @ [f]"]) simp_all
qed

lemma line_ok_arrived:
  assumes "line_ok A ct cr sent done (w # ws)"
  obtains f where "carries A (ch_sessionId cr) (ch_key cr) (ch_recv cr) f w"
    "line_ok A ct (cr\<lparr>ch_recv := ch_recv cr + 1\<rparr>) sent (done @ [f]) ws"
proof -
  obtain rest where rest: "sent = done @ rest" "in_transit A (ch_sessionId cr) (ch_key cr) (ch_recv cr) rest (w # ws)"
      "ch_recv cr + int (length rest) = ch_send ct"
    using assms by (auto simp: line_ok_def)
  then obtain f rs where f: "rest = f # rs"
    by (cases rest) auto
  show ?thesis
    using assms rest unfolding f line_ok_def by (intro that[of f]) (auto simp: line_ok_def)
qed

lemma line_ok_cong:
  "line_ok A ct cr sent done ws \<Longrightarrow> ch_sessionId ct' = ch_sessionId ct \<Longrightarrow> ch_key ct' = ch_key ct \<Longrightarrow> ch_send ct' = ch_send ct \<Longrightarrow>
    ch_sessionId cr' = ch_sessionId cr \<Longrightarrow> ch_key cr' = ch_key cr \<Longrightarrow> ch_recv cr' = ch_recv cr \<Longrightarrow> line_ok A ct' cr' sent done ws"
  by (auto simp: line_ok_def)

lemma sent_by_snoc: "sent_by side (es @ [e]) = sent_by side es @ (case e of LinkSend x _ f \<Rightarrow> if x = side then [f] else [] | LinkArrive _ \<Rightarrow> [])"
  by (simp add: sent_by_def)

lemma link_ok_step:
  assumes A: "aes_correct A" and l: "link_ok A es l" and e: "sendable e" and few: "\<forall>side. int (length (sent_by side (es @ [e]))) \<le> 2 ^ 64"
  shows "link_ok A (es @ [e]) (link_step J A C l e)"
proof -
  obtain ch where talk: "\<And>side. talking (lk_end l side) (ch side)"
    and line: "\<And>side. line_ok A (ch (\<not> side)) (ch side) (sent_by (\<not> side) es) (ss_delivered (lk_end l side)) (lk_queue l side)"
    using l unfolding link_ok_def by blast
  show ?thesis
  proof (cases e)
    case (LinkSend x nonce f)
    have send: "ch_send (ch x) = int (length (sent_by x es))"
      using line[of "\<not> x"] by (simp add: line_ok_def)
    have "int (length (sent_by x es)) < 2 ^ 64"
      using few[rule_format, of x] LinkSend by (simp add: sent_by_snoc)
    then obtain w where w: "session_step J A C (EvSend nonce (SendFrame f) None) (lk_end l x) =
        (lk_end l x)\<lparr>ss_channel := Some ((ch x)\<lparr>ch_send := ch_send (ch x) + 1\<rparr>), ss_outbox := ss_outbox (lk_end l x) @ [w]\<rparr>"
        "carries A (ch_sessionId (ch x)) (ch_key (ch x)) (ch_send (ch x)) f w"
      using e LinkSend send by (auto simp: sendable_def intro: talk_send[OF A _ _ talk[of x], of f nonce J C])
    let ?ch = "ch(x := (ch x)\<lparr>ch_send := ch_send (ch x) + 1\<rparr>)"
    have sent: "line_ok A (?ch (\<not> (\<not> x))) (?ch (\<not> x)) (sent_by x es @ [f]) (ss_delivered (lk_end l (\<not> x))) (lk_queue l (\<not> x) @ [w])"
      using line_ok_sent[OF _ w(2)] line[of "\<not> x"] by simp
    have other: "line_ok A (?ch (\<not> x)) (?ch x) (sent_by (\<not> x) es) (ss_delivered (lk_end l x)) (lk_queue l x)"
      by (rule line_ok_cong[OF line[of x]]) simp_all
    show ?thesis
      unfolding link_ok_def
    proof (intro exI[of _ ?ch] allI)
      fix side
      show "talking (lk_end (link_step J A C l e) side) (?ch side) \<and>
          line_ok A (?ch (\<not> side)) (?ch side) (sent_by (\<not> side) (es @ [e])) (ss_delivered (lk_end (link_step J A C l e) side)) (lk_queue (link_step J A C l e) side)"
        using sent other talk[of side] talk[of x] w(1) LinkSend
        by (cases "side = x") (auto simp: link_step_def Let_def fresh_output_def talking_def sent_by_snoc)
    qed
  next
    case (LinkArrive x)
    show ?thesis
    proof (cases "lk_queue l x")
      case Nil
      then show ?thesis
        using talk line LinkArrive by (auto simp: link_ok_def link_step_def sent_by_snoc)
    next
      case (Cons w ws)
      then obtain f where f: "carries A (ch_sessionId (ch x)) (ch_key (ch x)) (ch_recv (ch x)) f w"
          "line_ok A (ch (\<not> x)) ((ch x)\<lparr>ch_recv := ch_recv (ch x) + 1\<rparr>) (sent_by (\<not> x) es) (ss_delivered (lk_end l x) @ [f]) ws"
        using line[of x] line_ok_arrived by metis
      note fed = talk_arrive[OF talk[of x] f(1), of J C, simplified]
      let ?ch = "ch(x := (ch x)\<lparr>ch_recv := ch_recv (ch x) + 1\<rparr>)"
      have other: "line_ok A (?ch x) (?ch (\<not> x)) (sent_by x es) (ss_delivered (lk_end l (\<not> x))) (lk_queue l (\<not> x))"
        by (rule line_ok_cong[OF line[of "\<not> x", simplified]]) simp_all
      show ?thesis
        unfolding link_ok_def
      proof (intro exI[of _ ?ch] allI)
        fix side
        show "talking (lk_end (link_step J A C l e) side) (?ch side) \<and>
            line_ok A (?ch (\<not> side)) (?ch side) (sent_by (\<not> side) (es @ [e])) (ss_delivered (lk_end (link_step J A C l e) side)) (lk_queue (link_step J A C l e) side)"
          using f(2) other talk[of side] talk[of x] fed LinkArrive Cons
          by (cases "side = x") (auto simp: link_step_def talking_def sent_by_snoc)
      qed
    qed
  qed
qed

lemma link_run_snoc: "link_run J A C (es @ [e]) l = link_step J A C (link_run J A C es l) e"
  by (simp add: link_run_def)

lemma link_ok_run:
  assumes "aes_correct A" "link_ok A [] l"
  shows "\<forall>e \<in> set es. sendable e \<Longrightarrow> \<forall>side. int (length (sent_by side es)) \<le> 2 ^ 64 \<Longrightarrow> link_ok A es (link_run J A C es l)"
proof (induction es rule: rev_induct)
  case Nil
  then show ?case
    using assms(2) by (simp add: link_run_def)
next
  case (snoc e es)
  have "int (length (sent_by side es)) \<le> 2 ^ 64" for side
    using snoc.prems(2)[rule_format, of side] by (simp add: sent_by_snoc)
  then have "link_ok A es (link_run J A C es l)"
    using snoc by simp
  then show ?case
    unfolding link_run_snoc using snoc.prems by (intro link_ok_step[OF assms(1)]) simp_all
qed

text \<open>The handshake opens both sessions.\<close>

lemma connect_pair_open:
  assumes "json_ok J" "valid_pair C kpP pkP rawP" "valid_pair C kpC pkC rawC"
    and "cr_derive C (kp_private kpP) pkC = Some ss" "cr_derive C (kp_private kpC) pkP = Some ss"
    and "sid \<noteq> []" "length (ik_encryption (session_keys C ss pn cn)) = 32"
    and "connect_pair J A C (provider_create kpP sid pn) (consumer_create kpC cn) = (p, c)"
  shows "ss_open p = Resolved \<and> ss_open c = Resolved \<and> link_ok A [] (link_open (p, c))"
proof -
  note pubs = valid_pair_pub [OF assms(2)] valid_pair_pub [OF assms(3)] import_valid [OF assms(2)] import_valid [OF assms(3)]
  have J: "js_parse J (js_encode J m) = Some m" for m using assms(1) by (simp add: json_ok_def)
  have "ss_open p = Resolved \<and> ss_open c = Resolved \<and> (\<exists>chp chc. talking p chp \<and> talking c chc \<and>
      line_ok A chc chp [] (ss_delivered p) [] \<and> line_ok A chp chc [] (ss_delivered c) [])"
    using assms(4-8) pubs
    by (simp add: connect_pair_def begin_consumer_def begin_provider_def new_session_def provider_create_def
        consumer_create_def empty_endpoint_def provider_start_def emit_def feed_one fresh_output_def
        session_step_def onFrame_def textFrame_def J consumer_message_def provider_message_def
        consumer_handleInit_def provider_handleResponse_def consumer_handleConfirmationRequest_def
        provider_handleConfirmation_def provider_exportKeys_def consumer_exportKeys_def
        deriveSharedSecret_def provider_transcripts_def consumer_transcripts_def transcript_def truthy_def
        finish_open_def channel_of_def importAesGcmKey_def settle_def open_settled_def Let_def) (auto simp: talking_def line_ok_def)
  then obtain chp chc where ends: "talking p chp" "talking c chc" "line_ok A chc chp [] (ss_delivered p) []"
      "line_ok A chp chc [] (ss_delivered c) []" and st: "ss_open p = Resolved" "ss_open c = Resolved"
    by blast
  have "link_ok A [] (link_open (p, c))"
    unfolding link_ok_def by (rule exI[of _ "\<lambda>side. if side then chp else chc"]) (simp add: ends link_open_def sent_by_def)
  with st show ?thesis by simp
qed

section \<open>A toy JSON codec for the examples\<close>

definition put_str :: "jsstr \<Rightarrow> jsstr" where
  "put_str s = concat (map (\<lambda>c. [1, c]) s) @ [0]"

fun get_str :: "jsstr \<Rightarrow> (jsstr \<times> jsstr) option" where
  "get_str [] = None"
| "get_str (t # r) = (if t = 0 then Some ([], r) else case r of [] \<Rightarrow> None
     | c # r' \<Rightarrow> map_option (\<lambda>(s, q). (c # s, q)) (get_str r'))"

lemma get_put_str [simp]: "get_str (put_str s @ r) = Some (s, r)"
  by (induction s) (simp_all add: put_str_def)

definition put_int :: "int \<Rightarrow> jsstr" where
  "put_int n = (if n < 0 then 1 else 0) # put_str (replicate (nat \<bar>n\<bar>) 0)"

definition get_int :: "jsstr \<Rightarrow> (int \<times> jsstr) option" where
  "get_int s = (case s of [] \<Rightarrow> None | g # r \<Rightarrow>
     map_option (\<lambda>(d, q). ((if g = 1 then - 1 else 1) * int (length d), q)) (get_str r))"

lemma get_put_int [simp]: "get_int (put_int n @ r) = Some (n, r)"
  by (simp add: get_int_def put_int_def)

fun put_strs :: "jsstr list \<Rightarrow> jsstr" where
  "put_strs [] = [0]"
| "put_strs (s # ss) = 1 # put_str s @ put_strs ss"

fun get_strs :: "nat \<Rightarrow> jsstr \<Rightarrow> jsstr list option" where
  "get_strs 0 s = None"
| "get_strs (Suc n) [] = None"
| "get_strs (Suc n) (t # r) = (if t = 0 then Some [] else case get_str r of None \<Rightarrow> None
     | Some (s, q) \<Rightarrow> map_option ((#) s) (get_strs n q))"

lemma get_put_strs: "length ss < n \<Longrightarrow> get_strs n (put_strs ss) = Some ss"
proof (induction ss arbitrary: n)
  case (Cons s ss)
  then show ?case by (cases n) simp_all
qed (metis Suc_pred get_strs.simps(3) list.size(3) put_strs.simps(1))

lemma length_put_strs: "length ss < length (put_strs ss)"
  by (induction ss) simp_all

definition toy_encode :: "message_body \<Rightarrow> jsstr" where
  "toy_encode m = (case m of
     InitMsg i \<Rightarrow> 0 # put_int (hi_version i) @ put_str (hi_sessionId i) @ put_str (hi_publicKey i)
                  @ put_str (hi_providerNonce i) @ put_strs (hi_supportedSuites i)
   | ResponseMsg r \<Rightarrow> 1 # put_int (hr_version r) @ put_str (hr_sessionId r) @ put_str (hr_publicKey r)
                  @ put_str (hr_consumerNonce r) @ put_str (hr_selectedSuite r)
   | ConfRequestMsg q \<Rightarrow> 2 # put_str (cq_sessionId q) @ put_str (cq_confirmationMac q)
   | ConfirmationMsg k \<Rightarrow> 3 # put_str (kc_sessionId k) @ put_str (kc_publicKey k) @ put_str (kc_confirmationMac k)
   | SealedMsg \<Rightarrow> [4]
   | ErrorMsg c e \<Rightarrow> 5 # put_str c @ put_str e)"

definition toy_parse :: "jsstr \<Rightarrow> message_body option" where
  "toy_parse s = (case s of [] \<Rightarrow> None | t # r \<Rightarrow>
     if t = 0 then Option.bind (get_int r) (\<lambda>(v, r). Option.bind (get_str r) (\<lambda>(a, r). Option.bind (get_str r) (\<lambda>(b, r).
         Option.bind (get_str r) (\<lambda>(c, r). Option.bind (get_strs (length r) r) (\<lambda>d.
           Some (InitMsg \<lparr>hi_version = v, hi_sessionId = a, hi_publicKey = b, hi_providerNonce = c, hi_supportedSuites = d\<rparr>))))))
     else if t = 1 then Option.bind (get_int r) (\<lambda>(v, r). Option.bind (get_str r) (\<lambda>(a, r). Option.bind (get_str r) (\<lambda>(b, r).
         Option.bind (get_str r) (\<lambda>(c, r). Option.bind (get_str r) (\<lambda>(d, r).
           Some (ResponseMsg \<lparr>hr_version = v, hr_sessionId = a, hr_publicKey = b, hr_consumerNonce = c, hr_selectedSuite = d\<rparr>))))))
     else if t = 2 then Option.bind (get_str r) (\<lambda>(a, r). Option.bind (get_str r) (\<lambda>(b, r).
           Some (ConfRequestMsg \<lparr>cq_sessionId = a, cq_confirmationMac = b\<rparr>)))
     else if t = 3 then Option.bind (get_str r) (\<lambda>(a, r). Option.bind (get_str r) (\<lambda>(b, r). Option.bind (get_str r) (\<lambda>(c, r).
           Some (ConfirmationMsg \<lparr>kc_sessionId = a, kc_publicKey = b, kc_confirmationMac = c\<rparr>))))
     else if t = 4 then Some SealedMsg
     else Option.bind (get_str r) (\<lambda>(a, r). Option.bind (get_str r) (\<lambda>(b, r). Some (ErrorMsg a b))))"

definition toy_json :: json_io where
  "toy_json = \<lparr>js_parse = toy_parse, js_encode = toy_encode, js_sealed = (\<lambda>_. None),
     js_encodeSealed = (\<lambda>_ _ _ _. []), js_bigint = (\<lambda>s. map_option fst (get_int s)), js_decimal = put_int\<rparr>"

lemma get_put_str_end [simp]: "get_str (put_str s) = Some (s, [])"
  using get_put_str [of s "[]"] by simp

lemma get_put_int_end [simp]: "get_int (put_int n) = Some (n, [])"
  using get_put_int [of n "[]"] by simp

lemma toy_json_ok: "json_ok toy_json"
  unfolding json_ok_def
proof
  fix m
  show "js_parse toy_json (js_encode toy_json m) = Some m"
    by (cases m) (simp_all add: toy_json_def toy_parse_def toy_encode_def get_put_strs length_put_strs)
qed

section \<open>Properties\<close>

text \<open>C1: secure sessions work end to end: over a faithful duplex the handshake opens both sessions and resolves both
  promises; then, however the two ends send and take up frames, each end stays open and has been handed, in order and
  unchanged, all frames that the other sent except the last ones, which are still on their way.  The frames sent are
  those whose text survives UTF-8 (\<open>wire_frame\<close>), a send is awaited before the next, and so is each frame taken up.\<close>
theorem session_end_to_end:
  assumes "json_ok J" "aes_correct A" "valid_pair C kpP pkP rawP" "valid_pair C kpC pkC rawC"
    and "cr_derive C (kp_private kpP) pkC = Some ss" "cr_derive C (kp_private kpC) pkP = Some ss"
    and "sid \<noteq> []" "length (ik_encryption (session_keys C ss pn cn)) = 32"
    and "connect_pair J A C (provider_create kpP sid pn) (consumer_create kpC cn) = (p, c)"
    and "\<forall>e \<in> set es. sendable e" "\<forall>side. int (length (sent_by side es)) \<le> 2 ^ 64"
    and "l = link_run J A C es (link_open (p, c))"
  shows "ss_open p = Resolved \<and> ss_open c = Resolved \<and> (\<forall>side. ss_state (lk_end l side) = SessionOpen \<and>
    (\<exists>rest. sent_by (\<not> side) es = ss_delivered (lk_end l side) @ rest \<and> length rest = length (lk_queue l side)))"
proof -
  note opened = connect_pair_open [OF assms(1,3-9)]
  then have "link_ok A es l"
    using link_ok_run [OF assms(2)] assms(10-12) by blast
  then have "\<exists>rest. sent_by (\<not> side) es = ss_delivered (lk_end l side) @ rest \<and> length rest = length (lk_queue l side)"
      "ss_state (lk_end l side) = SessionOpen" for side
    unfolding link_ok_def line_ok_def talking_def using in_transit_length by metis+
  with opened show ?thesis by blast
qed

lemma session_end_to_end_witness:
  "case connect_pair toy_json toy_aes toy_crypto (provider_create (toy_pair 3) [1, 2] [5]) (consumer_create (toy_pair 9) [6]) of
     (p, c) \<Rightarrow> \<exists>rest. [binaryFrame [42], binaryFrame [43]] =
       ss_delivered (lk_end (link_run toy_json toy_aes toy_crypto [LinkSend True (replicate 12 1) (binaryFrame [42]),
         LinkSend True (replicate 12 2) (binaryFrame [43]), LinkArrive False] (link_open (p, c))) False) @ rest"
proof -
  obtain p c where pc: "connect_pair toy_json toy_aes toy_crypto (provider_create (toy_pair 3) [1, 2] [5])
      (consumer_create (toy_pair 9) [6]) = (p, c)" by fastforce
  have d: "cr_derive toy_crypto (kp_private (toy_pair 9)) 3 = Some [12]" using toy_derive [of 9 3] by simp
  have k: "length (ik_encryption (session_keys toy_crypto [12] [5] [6])) = 32"
    by (simp add: session_keys_def toy_crypto_def)
  let ?es = "[LinkSend True (replicate 12 1) (binaryFrame [42]), LinkSend True (replicate 12 2) (binaryFrame [43]), LinkArrive False]"
  have w: "\<forall>e \<in> set ?es. sendable e" "\<forall>side. int (length (sent_by side ?es)) \<le> 2 ^ 64" "sent_by True ?es = [binaryFrame [42], binaryFrame [43]]"
    by (simp_all add: sendable_def wire_frame_def binaryFrame_def NONCE_BYTES_def sent_by_def)
  note main = session_end_to_end [OF toy_json_ok toy_aes_correct toy_valid [of 3] toy_valid [of 9] toy_derives(1) d _ k pc w(1,2) refl]
  have "\<exists>rest. sent_by (\<not> False) ?es = ss_delivered (lk_end (link_run toy_json toy_aes toy_crypto ?es (link_open (p, c))) False) @ rest"
    using main[THEN conjunct2, THEN conjunct2, rule_format, of False] by blast
  then have "\<exists>rest. sent_by True ?es = ss_delivered (lk_end (link_run toy_json toy_aes toy_crypto ?es (link_open (p, c))) False) @ rest"
    by simp
  then show ?thesis
    unfolding pc w(3) by simp
qed

section \<open>What is delivered\<close>

text \<open>The counter, body and kind of a frame that passes for a sealed one on a channel.\<close>

definition sealed_content :: "json_io \<Rightarrow> channel \<Rightarrow> socket_frame \<Rightarrow> (int \<times> byte list \<times> frame_kind) option" where
  "sealed_content J ch f =
     (if f_kind f = BinaryKind
      then (case decodeSealedBinary (f_data f) of Inl _ \<Rightarrow> None | Inr d \<Rightarrow> Some (sp_counter d, sp_body d, sp_kind d))
      else if truthy (f_text f)
      then (case tryParseSealedJson J (the (f_text f)) of
              Inr (Some d) \<Rightarrow> if sj_sessionId d = ch_sessionId ch then Some (sj_counter d, sj_body d, sj_kind d) else None
            | _ \<Rightarrow> None)
      else None)"

text \<open>A frame that begins a decryption in a state.\<close>

definition begun :: "json_io \<Rightarrow> aes \<Rightarrow> 'sk session \<Rightarrow> session_event \<Rightarrow> frame_kind \<times> int \<times> byte list option \<Rightarrow> bool" where
  "begun J A s e pending \<longleftrightarrow> ss_state s = SessionOpen \<and> ss_subscribed s \<and>
     (\<exists>f ch ctr body kind. e = EvFrame f \<and> ss_channel s = Some ch \<and> sealed_content J ch f = Some (ctr, body, kind) \<and>
        fst pending = kind \<and> open_begin A ctr (base64UrlEncode body) kind ch = Inr (snd pending))"

lemma onFrame_effects:
  assumes "onFrame J A C f s = (r, s1)" "ss_subscribed s"
  shows "ss_delivered s1 = ss_delivered s \<and> (ss_opening s1 = ss_opening s \<or>
    (\<exists>n pending. begun J A s (EvFrame f) pending \<and> ss_opening s1 = ss_opening s @ [(n, pending)]))"
proof (cases "ss_state s = SessionOpen \<and> ss_channel s \<noteq> None")
  case True
  then obtain ch where ch: "ss_channel s = Some ch" by blast
  with True assms(1) have run: "onSealedFrame J A f ch s = (r, s1)" by (simp add: onFrame_def)
  show ?thesis
  proof (cases "sealed_content J ch f")
    case None
    with run have "s1 = s"
      by (auto simp: onSealedFrame_def sealed_content_def split: if_splits sum.splits option.splits)
    then show ?thesis by simp
  next
    case (Some x)
    obtain ctr body kind where x: "x = (ctr, body, kind)" by (cases x)
    have "open_frame A ch ctr body kind s = (r, s1)"
      using run Some unfolding x
      by (auto simp: onSealedFrame_def sealed_content_def split: if_splits sum.splits option.splits)
    then show ?thesis
      using True ch Some x assms(2) by (auto simp: open_frame_def begun_def split: sum.splits)
  qed
next
  case False
  then show ?thesis
    using assms(1)
    by (auto simp: onFrame_def provider_message_def consumer_message_def emit_def Let_def
        split: if_splits option.splits message_body.splits session_role.splits sum.splits prod.splits)
qed

lemma session_keeps [simp]:
  "ss_delivered (session_fail e s) = ss_delivered s" "ss_opening (session_fail e s) = ss_opening s"
  "ss_delivered (session_close t s) = ss_delivered s" "ss_opening (session_close t s) = ss_opening s"
  "ss_delivered (finish_open m s) = ss_delivered s" "ss_opening (finish_open m s) = ss_opening s"
  "ss_delivered (snd (session_send A nonce input kind s)) = ss_delivered s" "ss_opening (snd (session_send A nonce input kind s)) = ss_opening s"
  by (simp_all add: session_fail_def session_close_def finish_open_def session_send_def settle_def emit_def Let_def
      split: sum.split option.split prod.split send_input.split)

lemma deliver_effects:
  assumes "deliver kind plain s = (r, s1)"
  shows "ss_opening s1 = ss_opening s \<and>
    (ss_delivered s1 = ss_delivered s \<or> (\<exists>app. frameFromOpened kind plain = Inr app \<and> ss_delivered s1 = ss_delivered s @ [app]))"
  using assms by (auto simp: deliver_def split: sum.splits)

lemma advance_keeps [simp]:
  "ss_opening (advance_channel n p s) = ss_opening s" "ss_delivered (advance_channel n p s) = ss_delivered s"
  by (simp_all add: advance_channel_def)

lemma open_settled_effects:
  assumes "open_settled i s = (r, s1)" "i < length (ss_opening s)"
  shows "ss_opening s1 = take i (ss_opening s) @ drop (Suc i) (ss_opening s) \<and> (ss_delivered s1 = ss_delivered s \<or>
    (\<exists>n kind c plain app. ss_opening s ! i = (n, kind, c, Some plain) \<and> frameFromOpened kind plain = Inr app \<and>
       ss_delivered s1 = ss_delivered s @ [app]))"
proof -
  obtain n kind c p where entry: "ss_opening s ! i = (n, kind, c, p)" by (cases "ss_opening s ! i")
  show ?thesis
  proof (cases p)
    case None
    then show ?thesis using assms entry by (auto simp: open_settled_def Let_def)
  next
    case (Some plain)
    then have "deliver kind plain (advance_channel n (c, p) (s\<lparr>ss_opening := take i (ss_opening s) @ drop (Suc i) (ss_opening s)\<rparr>)) = (r, s1)"
      using assms entry by (simp add: open_settled_def Let_def)
    from deliver_effects [OF this] show ?thesis using entry Some by auto
  qed
qed

lemma session_step_effects:
  fixes s :: "'sk session"
  assumes "s1 = session_step J A C e s"
  obtains (Same) "ss_opening s1 = ss_opening s" "ss_delivered s1 = ss_delivered s"
  | (Begun) n pending where "begun J A s e pending" "ss_opening s1 = ss_opening s @ [(n, pending)]" "ss_delivered s1 = ss_delivered s"
  | (Settled) i where "i < length (ss_opening s)" "ss_opening s1 = take i (ss_opening s) @ drop (Suc i) (ss_opening s)"
      "ss_delivered s1 = ss_delivered s"
  | (Delivered) i n kind c plain app where "i < length (ss_opening s)" "ss_opening s1 = take i (ss_opening s) @ drop (Suc i) (ss_opening s)"
      "ss_opening s ! i = (n, kind, c, Some plain)" "frameFromOpened kind plain = Inr app" "ss_delivered s1 = ss_delivered s @ [app]"
proof (cases e)
  case (EvFrame f)
  obtain r t where run: "onFrame J A C f s = (r, t)" by fastforce
  show ?thesis
  proof (cases "ss_subscribed s")
    case True
    have "ss_opening s1 = ss_opening t" "ss_delivered s1 = ss_delivered t"
      using True assms EvFrame run by (cases r; simp add: session_step_def)+
    then show ?thesis using onFrame_effects [OF run True] EvFrame Same Begun by metis
  qed (use assms EvFrame Same in \<open>simp add: session_step_def\<close>)
next
  case (EvOpened i)
  obtain r t where run: "open_settled i s = (r, t)" by fastforce
  have "ss_opening s1 = ss_opening t" "ss_delivered s1 = ss_delivered t"
    using assms EvOpened run by (cases r; simp add: session_step_def)+
  moreover have "t = s" if "\<not> i < length (ss_opening s)"
    using that run by (simp add: open_settled_def)
  ultimately show ?thesis using open_settled_effects [OF run] Same Settled Delivered by metis
qed (use assms Same in \<open>auto simp: session_step_def split: list.splits\<close>)

text \<open>The event at a position of a history begins the decryption of an entry, or leads to a delivered frame.\<close>

definition origin_begun :: "json_io \<Rightarrow> aes \<Rightarrow> ('sk, 'pk) crypto \<Rightarrow> session_event list \<Rightarrow> 'sk session \<Rightarrow> nat \<Rightarrow> frame_kind \<times> int \<times> byte list option \<Rightarrow> bool" where
  "origin_begun J A C es s0 n pending \<longleftrightarrow> n < length es \<and> begun J A (session_run J A C (take n es) s0) (es ! n) pending"

definition origin :: "json_io \<Rightarrow> aes \<Rightarrow> ('sk, 'pk) crypto \<Rightarrow> session_event list \<Rightarrow> 'sk session \<Rightarrow> nat \<Rightarrow> socket_frame \<Rightarrow> bool" where
  "origin J A C es s0 n app \<longleftrightarrow> (\<exists>kind c plain. origin_begun J A C es s0 n (kind, c, Some plain) \<and> frameFromOpened kind plain = Inr app)"

lemma origin_snoc: "origin_begun J A C es s0 n p \<Longrightarrow> origin_begun J A C (es @ [e]) s0 n p" "origin J A C es s0 n app \<Longrightarrow> origin J A C (es @ [e]) s0 n app"
  by (auto simp: origin_def origin_begun_def nth_append)

lemma delivered_origins:
  assumes "ss_opening s0 = []" "ss_delivered s0 = []"
  shows "\<exists>os ps. distinct (os @ ps) \<and>
    list_all2 (\<lambda>n x. origin_begun J A C es s0 n (snd x)) os (ss_opening (session_run J A C es s0)) \<and>
    list_all2 (origin J A C es s0) ps (ss_delivered (session_run J A C es s0))"
proof (induction es rule: rev_induct)
  case Nil
  show ?case using assms by (simp add: session_run_def)
next
  case (snoc e es)
  let ?s = "session_run J A C es s0" and ?s1 = "session_run J A C (es @ [e]) s0"
  obtain os ps where dist: "distinct (os @ ps)"
    and os: "list_all2 (\<lambda>n x. origin_begun J A C es s0 n (snd x)) os (ss_opening ?s)"
    and ps: "list_all2 (origin J A C es s0) ps (ss_delivered ?s)"
    using snoc.IH by blast
  have os': "list_all2 (\<lambda>n x. origin_begun J A C (es @ [e]) s0 n (snd x)) os (ss_opening ?s)"
    and ps': "list_all2 (origin J A C (es @ [e]) s0) ps (ss_delivered ?s)"
    using list_all2_mono [OF os] list_all2_mono [OF ps] origin_snoc by (metis (no_types, lifting))+
  have step: "?s1 = session_step J A C e ?s" by (simp add: session_run_def)
  have removed: "list_all2 (\<lambda>n x. origin_begun J A C (es @ [e]) s0 n (snd x)) (take i os @ drop (Suc i) os)
      (take i (ss_opening ?s) @ drop (Suc i) (ss_opening ?s))" for i
    using os' by (intro list_all2_appendI list_all2_takeI list_all2_dropI)
  have split: "os = take i os @ os ! i # drop (Suc i) os" if "i < length (ss_opening ?s)" for i
    using that list_all2_lengthD [OF os] by (simp add: id_take_nth_drop)
  from step show ?case
  proof (cases rule: session_step_effects)
    case Same
    then show ?thesis using dist os' ps' by (intro exI [of _ os] exI [of _ ps]) simp
  next
    case (Begun n pending)
    have "length es \<notin> set os \<union> set ps"
      using os ps by (auto simp: list_all2_conv_all_nth origin_def origin_begun_def in_set_conv_nth)
    moreover have "origin_begun J A C (es @ [e]) s0 (length es) pending"
      using Begun(1) by (simp add: origin_begun_def)
    ultimately show ?thesis
      using dist os' ps' Begun(2,3) by (intro exI [of _ "os @ [length es]"] exI [of _ ps]) (auto intro: list_all2_appendI)
  next
    case (Settled i)
    have "distinct ((take i os @ drop (Suc i) os) @ ps)"
      using dist by (subst (asm) split [OF Settled(1)]) auto
    then show ?thesis
      using removed ps' Settled(2,3) by (metis (no_types, lifting))
  next
    case (Delivered i n kind c plain app)
    have "distinct ((take i os @ drop (Suc i) os) @ (ps @ [os ! i]))"
      using dist by (subst (asm) split [OF Delivered(1)]) auto
    moreover have "origin_begun J A C (es @ [e]) s0 (os ! i) (snd (ss_opening ?s ! i))"
      using os' Delivered(1) by (simp add: list_all2_conv_all_nth)
    then have "origin J A C (es @ [e]) s0 (os ! i) app"
      using Delivered(3,4) by (auto simp: origin_def)
    then have "list_all2 (origin J A C (es @ [e]) s0) (ps @ [os ! i]) (ss_delivered ?s1)"
      unfolding Delivered(5) using ps' by (intro list_all2_appendI) simp_all
    ultimately show ?thesis
      using removed Delivered(2) by (metis (no_types, lifting))
  qed
qed

lemma begun_plain:
  assumes "begun J A s e (kind, c, Some plain)"
  shows "\<exists>f ch body ad. e = EvFrame f \<and> ss_state s = SessionOpen \<and> ss_channel s = Some ch \<and> \<not> ch_destroyed ch \<and>
    sealed_content J ch f = Some (c, body, kind) \<and> ch_recv ch \<le> c \<and> aad ch c kind = Inr ad \<and>
    aes_decrypt A (ch_key ch) (take NONCE_BYTES body) ad (drop NONCE_BYTES body) = Some plain"
  using assms by (auto simp: begun_def open_begin_def split: if_splits sum.splits)

text \<open>C6: nothing unauthenticated is delivered: in every history, whatever decryptions overlap, each frame handed to the
  application stems from a different sealed frame that arrived while the session was open, whose counter was not below
  the next one expected then and whose ciphertext the cipher accepted under the session's key with that session id,
  counter and kind; and it is the plaintext.\<close>
theorem delivered_is_authentic:
  assumes "ss_opening s0 = []" "ss_delivered s0 = []"
  shows "\<exists>ps. distinct ps \<and> length ps = length (ss_delivered (session_run J A C es s0)) \<and>
    (\<forall>i < length ps. ps ! i < length es \<and> (let s = session_run J A C (take (ps ! i) es) s0 in
       ss_state s = SessionOpen \<and> (\<exists>f ch c body kind ad plain. es ! (ps ! i) = EvFrame f \<and> ss_channel s = Some ch \<and> \<not> ch_destroyed ch \<and>
         sealed_content J ch f = Some (c, body, kind) \<and> ch_recv ch \<le> c \<and> aad ch c kind = Inr ad \<and>
         aes_decrypt A (ch_key ch) (take NONCE_BYTES body) ad (drop NONCE_BYTES body) = Some plain \<and>
         frameFromOpened kind plain = Inr (ss_delivered (session_run J A C es s0) ! i))))"
proof -
  obtain os ps where ps: "distinct (os @ ps)" "list_all2 (origin J A C es s0) ps (ss_delivered (session_run J A C es s0))"
    using delivered_origins [OF assms, of J A C es] by blast
  have "ps ! i < length es \<and> (let s = session_run J A C (take (ps ! i) es) s0 in
       ss_state s = SessionOpen \<and> (\<exists>f ch c body kind ad plain. es ! (ps ! i) = EvFrame f \<and> ss_channel s = Some ch \<and> \<not> ch_destroyed ch \<and>
         sealed_content J ch f = Some (c, body, kind) \<and> ch_recv ch \<le> c \<and> aad ch c kind = Inr ad \<and>
         aes_decrypt A (ch_key ch) (take NONCE_BYTES body) ad (drop NONCE_BYTES body) = Some plain \<and>
         frameFromOpened kind plain = Inr (ss_delivered (session_run J A C es s0) ! i)))" if "i < length ps" for i
  proof -
    have "origin J A C es s0 (ps ! i) (ss_delivered (session_run J A C es s0) ! i)"
      using ps(2) that by (simp add: list_all2_conv_all_nth)
    then obtain kind c plain where o: "ps ! i < length es" "begun J A (session_run J A C (take (ps ! i) es) s0) (es ! (ps ! i)) (kind, c, Some plain)"
        "frameFromOpened kind plain = Inr (ss_delivered (session_run J A C es s0) ! i)"
      unfolding origin_def origin_begun_def by blast
    from begun_plain [OF o(2)] o(1,3) show ?thesis unfolding Let_def by blast
  qed
  then show ?thesis using ps list_all2_lengthD by (intro exI [of _ ps]) auto
qed

definition demo_receiver :: "byte session" where
  "demo_receiver = (new_session ConsumerRole)\<lparr>ss_state := SessionOpen, ss_subscribed := True, ss_channel := Some demo_channel\<rparr>"

lemma demo_sent:
  obtains w where "carries toy_aes (ch_sessionId demo_channel) (ch_key demo_channel) 0 (binaryFrame [42]) w"
proof -
  have "wire_frame (binaryFrame [42])" "talking demo_receiver demo_channel" "ch_send demo_channel = 0"
    by (simp_all add: wire_frame_def binaryFrame_def talking_def demo_receiver_def demo_channel_def new_session_def)
  then show ?thesis
    using talk_send [OF toy_aes_correct, of "binaryFrame [42]" "replicate 12 1" demo_receiver demo_channel toy_json toy_crypto] that
    by (auto simp: NONCE_BYTES_def)
qed

lemma delivered_is_authentic_witness:
  "\<exists>w ps. ss_delivered (session_run toy_json toy_aes toy_crypto [EvFrame w, EvOpened 0] demo_receiver) = [binaryFrame [42]] \<and>
     length ps = 1 \<and> ps ! 0 < length [EvFrame w, EvOpened 0]"
proof -
  obtain w where w: "carries toy_aes (ch_sessionId demo_channel) (ch_key demo_channel) 0 (binaryFrame [42]) w"
    by (rule demo_sent)
  have "talking demo_receiver demo_channel" "ch_recv demo_channel = 0" and none: "ss_opening demo_receiver = []" "ss_delivered demo_receiver = []"
    by (simp_all add: talking_def demo_receiver_def demo_channel_def new_session_def)
  then have d: "ss_delivered (session_run toy_json toy_aes toy_crypto [EvFrame w, EvOpened 0] demo_receiver) = [binaryFrame [42]]"
    using talk_arrive [OF _ w, of demo_receiver toy_json toy_crypto] by (simp add: feed_def)
  with delivered_is_authentic [OF none, of toy_json toy_aes toy_crypto "[EvFrame w, EvOpened 0]"] show ?thesis
    by (metis One_nat_def lessI length_Cons list.size(3))
qed

text \<open>The state is not looked at again when a decryption settles: a frame that arrived before \<^verbatim>\<open>close()\<close> is still handed to
  the application after it.\<close>

theorem delivered_after_close:
  assumes "ss_opening s = [(n, kind, c, Some plain)]" "frameFromOpened kind plain = Inr app" "s' = session_run J A C [EvClose t, EvOpened 0] s"
  shows "ss_state s' = SessionClosed \<and> ss_delivered s' = ss_delivered s @ [app]"
  using assms
  by (simp add: session_run_def session_step_def session_close_def open_settled_def deliver_def advance_channel_def Let_def)

lemma delivered_after_close_witness:
  "ss_delivered (session_run toy_json toy_aes toy_crypto [EvClose True, EvOpened 0]
     (demo_receiver\<lparr>ss_opening := [(0, BinaryKind, 0, Some [42])]\<rparr>)) = [binaryFrame [42]]"
proof -
  have "ss_opening (demo_receiver\<lparr>ss_opening := [(0, BinaryKind, 0, Some [42])]\<rparr>) = [(0, BinaryKind, 0, Some [42])]"
      "frameFromOpened BinaryKind [42] = Inr (binaryFrame [42])"
    by (simp_all add: frameFromOpened_def)
  from delivered_after_close [OF this refl, of toy_json toy_aes toy_crypto True] show ?thesis
    by (simp add: demo_receiver_def new_session_def)
qed

text \<open>closing does not stay closed: if the last handshake message has been verified but the key import is
  still awaited, a session that is closed meanwhile comes back open, with a live channel.\<close>
theorem closed_session_reopens:
  assumes "ss_pending s = [m]" "length (mt_key m) = 32" "s' = session_run J A C [EvClose t, EvResume] s"
  shows "ss_state s' = SessionOpen \<and> (\<exists>ch. ss_channel s' = Some ch \<and> \<not> ch_destroyed ch \<and> ch_key ch = mt_key m)"
  using assms
  by (simp add: session_run_def session_step_def session_close_def finish_open_def channel_of_def
      importAesGcmKey_def settle_def)

definition demo_material :: material where
  "demo_material = \<lparr>mt_sessionId = js_str ''s'', mt_key = replicate 32 7\<rparr>"

definition demo_session :: "byte session" where
  "demo_session = (new_session ProviderRole)\<lparr>ss_subscribed := True, ss_provider := Some demo_confirmed,
     ss_pending := [demo_material]\<rparr>"

lemma closed_session_reopens_witness:
  "ss_state (session_run toy_json toy_aes toy_crypto [EvClose True, EvResume] demo_session) = SessionOpen"
proof -
  have "ss_pending demo_session = [demo_material]" "length (mt_key demo_material) = 32"
    by (simp_all add: demo_session_def demo_material_def)
  from closed_session_reopens [OF this refl] show ?thesis by blast
qed

text \<open>application data sent right after the handshake kills the session: a sealed frame that reaches the
  provider while it still awaits the key import rejects the connection for good, and the session ends up open
  but deaf.\<close>
theorem early_data_kills_session:
  assumes "ss_state s = Handshaking" "ss_subscribed s" "ss_open s = Unsettled" "ss_pending s = [m]" "length (mt_key m) = 32"
    and "f_kind f = BinaryKind" "f_data f \<noteq> []" "s' = session_run J A C [EvFrame f, EvResume] s"
  shows "ss_open s' = Rejected WrongFrameKind \<and> ss_state s' = SessionOpen \<and> \<not> ss_subscribed s'"
  using assms
  by (simp add: session_run_def session_step_def onFrame_def session_fail_def finish_open_def channel_of_def
      importAesGcmKey_def settle_def)

lemma early_data_kills_session_witness:
  "ss_open (session_run toy_json toy_aes toy_crypto [EvFrame (binaryFrame [1]), EvResume] demo_session) = Rejected WrongFrameKind"
proof -
  have "ss_state demo_session = Handshaking" "ss_subscribed demo_session" "ss_open demo_session = Unsettled"
    "ss_pending demo_session = [demo_material]" "length (mt_key demo_material) = 32"
    by (simp_all add: demo_session_def demo_material_def new_session_def)
  then show ?thesis
    by (rule early_data_kills_session [OF _ _ _ _ _ _ _ refl, THEN conjunct1]) (simp_all add: binaryFrame_def)
qed

text \<open>C0: closing during the handshake leaves the caller waiting: the promise of \<open>connect\<close> is never settled,
  whatever happens afterwards.\<close>
theorem close_never_settles:
  assumes "ss_open s = Unsettled" "ss_pending s = []" "ss_state s \<noteq> SessionClosed"
  shows "ss_open (session_run J A C es (session_close t s)) = Unsettled"
proof -
  have "ss_open s' = Unsettled \<and> ss_state s' = SessionClosed \<and> ss_pending s' = [] \<and> \<not> ss_subscribed s' \<Longrightarrow>
    ss_open (session_run J A C es s') = Unsettled" for s'
  proof (induction es arbitrary: s')
    case (Cons e es)
    let ?s1 = "session_step J A C e s'"
    have "ss_open ?s1 = Unsettled \<and> ss_state ?s1 = SessionClosed \<and> ss_pending ?s1 = [] \<and> \<not> ss_subscribed ?s1"
      using Cons.prems
      by (cases e) (auto simp: session_step_def session_send_def session_close_def open_settled_def deliver_def
          advance_channel_def session_fail_def Let_def split: option.splits sum.splits prod.splits)
    with Cons.IH [of ?s1] show ?case by (simp add: session_run_def)
  qed (simp add: session_run_def)
  with assms show ?thesis by (simp add: session_close_def)
qed

lemma close_never_settles_witness:
  "ss_open (session_run toy_json toy_aes toy_crypto [EvFrame (binaryFrame []), EvResume]
     (session_close True (new_session ProviderRole :: byte session))) = Unsettled"
  by (rule close_never_settles) (simp_all add: new_session_def)

section \<open>Hibernation\<close>

text \<open>hibernation is lossless: a session rebuilt from the snapshot of an open session has the same channel:
  session id, key and both counters.\<close>
theorem hibernation_roundtrip:
  assumes "session_exportSnapshot J s = Inr sv" "ss_channel s = Some ch" "\<forall>n. js_bigint J (js_decimal J n) = Some n"
    and "length (ch_key ch) = 32" "ch_keyBytes ch = ch_key ch"
  shows "\<exists>s'. rehydrate J sv = Inr s' \<and> ss_state s' = SessionOpen \<and> ss_channel s' = Some ch"
  using assms
  by (cases ch) (auto simp: session_exportSnapshot_def exportSnapshot_def rehydrate_def channel_restore_def channel_of_def
      importAesGcmKey_def split: if_splits)

definition demo_open_session :: "byte session" where
  "demo_open_session = (new_session ProviderRole)\<lparr>ss_state := SessionOpen, ss_channel := Some (demo_channel\<lparr>ch_send := 5\<rparr>)\<rparr>"

lemma hibernation_roundtrip_witness:
  "\<exists>sv s'. session_exportSnapshot toy_json demo_open_session = Inr sv \<and> (rehydrate toy_json sv :: (session_error, byte session) result) = Inr s' \<and>
     ss_channel s' = Some (demo_channel\<lparr>ch_send := 5\<rparr>)"
proof -
  obtain sv where sv: "session_exportSnapshot toy_json demo_open_session = Inr sv"
    by (simp add: session_exportSnapshot_def demo_open_session_def exportSnapshot_def demo_channel_def)
  have "ss_channel demo_open_session = Some (demo_channel\<lparr>ch_send := 5\<rparr>)" by (simp add: demo_open_session_def)
  moreover have "\<forall>n. js_bigint toy_json (js_decimal toy_json n) = Some n" by (simp add: toy_json_def)
  ultimately show ?thesis
    using hibernation_roundtrip [OF sv, of "demo_channel\<lparr>ch_send := 5\<rparr>"] sv by (auto simp: demo_channel_def)
qed

end
