(* ===== verification/AuthStores.thy ===== *)
theory AuthStores
  imports Bytes
begin

text \<open>
  The in-memory stores of the auth package:
  \<^verbatim>\<open>di-framework-auth/src/providers/memory.ts\<close> over the records of \<^verbatim>\<open>providers/types.ts\<close>.

  Each store is a record of its maps; each method is a function on it.  Methods do not await, so
  each is one atomic step and interleavings of callers are lists of calls.  Times are integers
  (seconds); \<open>now\<close> is an argument of the methods that read the clock.  \<^verbatim>\<open>trim\<close> and
  \<^verbatim>\<open>toLowerCase\<close> are the standard library's and are arguments of the user store.
\<close>

section \<open>Users\<close>

record text_ops =
  tx_trim :: "string \<Rightarrow> string"
  tx_lower :: "string \<Rightarrow> string"

record 'm user =
  u_id :: string
  u_identifier :: string
  u_identifierKey :: "string option"
  u_displayName :: "string option"
  u_emailVerified :: "bool option"
  u_disabled :: "bool option"
  u_webauthnUserHandle :: "string option"
  u_createdAt :: int
  u_metadata :: "'m option"

text \<open>A partial record: \<open>None\<close> leaves the field as it is.\<close>

record 'm user_patch =
  up_identifier :: "string option"
  up_displayName :: "string option"
  up_emailVerified :: "bool option"
  up_disabled :: "bool option"
  up_webauthnUserHandle :: "string option"
  up_createdAt :: "int option"
  up_metadata :: "'m option"

record 'm user_store =
  us_byId :: "(string, 'm user) jsmap"
  us_byIdentifier :: "(string, string) jsmap"
  us_byHandle :: "(string, string) jsmap"

datatype user_error = UserExists string | IdentifierTaken string

definition normalizeIdentifier :: "text_ops \<Rightarrow> string \<Rightarrow> string" where
  "normalizeIdentifier T identifier = tx_lower T (tx_trim T identifier)"

definition withIdentifierKey :: "text_ops \<Rightarrow> 'm user \<Rightarrow> 'm user" where
  "withIdentifierKey T u =
     (let identifier = tx_trim T (u_identifier u)
      in u\<lparr>u_identifier := identifier, u_identifierKey := Some (tx_lower T identifier)\<rparr>)"

definition users_empty :: "'m user_store" where
  "users_empty = \<lparr>us_byId = [], us_byIdentifier = [], us_byHandle = []\<rparr>"

definition present :: "string option \<Rightarrow> bool" where
  "present s = (case s of None \<Rightarrow> False | Some t \<Rightarrow> t \<noteq> '''')"

definition user_index :: "text_ops \<Rightarrow> 'm user \<Rightarrow> 'm user_store \<Rightarrow> 'm user_store" where
  "user_index T u st =
     (let st1 = st\<lparr>us_byIdentifier := js_set (normalizeIdentifier T (u_identifier u)) (u_id u) (us_byIdentifier st)\<rparr>
      in if present (u_webauthnUserHandle u)
         then st1\<lparr>us_byHandle := js_set (the (u_webauthnUserHandle u)) (u_id u) (us_byHandle st1)\<rparr>
         else st1)"

definition findById :: "string \<Rightarrow> 'm user_store \<Rightarrow> 'm user option" where
  "findById uid st = js_get (us_byId st) uid"

definition findByIdentifier :: "text_ops \<Rightarrow> string \<Rightarrow> 'm user_store \<Rightarrow> 'm user option" where
  "findByIdentifier T identifier st =
     (let uid = js_get (us_byIdentifier st) (normalizeIdentifier T identifier)
      in if present uid then js_get (us_byId st) (the uid) else None)"

definition findByWebAuthnHandle :: "string \<Rightarrow> 'm user_store \<Rightarrow> 'm user option" where
  "findByWebAuthnHandle handle st =
     (let uid = js_get (us_byHandle st) handle
      in if present uid then js_get (us_byId st) (the uid) else None)"

definition user_create :: "text_ops \<Rightarrow> 'm user \<Rightarrow> 'm user_store \<Rightarrow> (user_error, 'm user) result \<times> 'm user_store" where
  "user_create T u st =
     (if js_has (us_byId st) (u_id u) then (Inl (UserExists (u_id u)), st)
      else if js_has (us_byIdentifier st) (normalizeIdentifier T (u_identifier u))
      then (Inl (IdentifierTaken (u_identifier u)), st)
      else let stored = withIdentifierKey T u
           in (Inr stored, user_index T stored (st\<lparr>us_byId := js_set (u_id stored) stored (us_byId st)\<rparr>)))"

definition override :: "'a option \<Rightarrow> 'a \<Rightarrow> 'a" where
  "override new old = (case new of None \<Rightarrow> old | Some v \<Rightarrow> v)"

definition override_opt :: "'a option \<Rightarrow> 'a option \<Rightarrow> 'a option" where
  "override_opt new old = (case new of None \<Rightarrow> old | Some v \<Rightarrow> Some v)"

definition apply_patch :: "'m user_patch \<Rightarrow> 'm user \<Rightarrow> 'm user" where
  "apply_patch p u = u\<lparr>
     u_identifier := override (up_identifier p) (u_identifier u),
     u_displayName := override_opt (up_displayName p) (u_displayName u),
     u_emailVerified := override_opt (up_emailVerified p) (u_emailVerified u),
     u_disabled := override_opt (up_disabled p) (u_disabled u),
     u_webauthnUserHandle := override_opt (up_webauthnUserHandle p) (u_webauthnUserHandle u),
     u_createdAt := override (up_createdAt p) (u_createdAt u),
     u_metadata := override_opt (up_metadata p) (u_metadata u)\<rparr>"

definition user_update :: "text_ops \<Rightarrow> string \<Rightarrow> 'm user_patch \<Rightarrow> 'm user_store \<Rightarrow> 'm user option \<times> 'm user_store" where
  "user_update T uid patch st = (case js_get (us_byId st) uid of
     None \<Rightarrow> (None, st)
   | Some existing \<Rightarrow>
       let st1 = (if present (up_identifier patch) \<and>
                     normalizeIdentifier T (the (up_identifier patch)) \<noteq> normalizeIdentifier T (u_identifier existing)
                  then st\<lparr>us_byIdentifier := js_del (normalizeIdentifier T (u_identifier existing)) (us_byIdentifier st)\<rparr>
                  else st);
           updated = withIdentifierKey T ((apply_patch patch existing)\<lparr>u_id := uid\<rparr>)
       in (Some updated, user_index T updated (st1\<lparr>us_byId := js_set uid updated (us_byId st1)\<rparr>)))"

definition user_delete :: "text_ops \<Rightarrow> string \<Rightarrow> 'm user_store \<Rightarrow> bool \<times> 'm user_store" where
  "user_delete T uid st = (case js_get (us_byId st) uid of
     None \<Rightarrow> (False, st)
   | Some existing \<Rightarrow>
       let st1 = st\<lparr>us_byId := js_del uid (us_byId st),
                    us_byIdentifier := js_del (normalizeIdentifier T (u_identifier existing)) (us_byIdentifier st)\<rparr>
       in (True, if present (u_webauthnUserHandle existing)
                 then st1\<lparr>us_byHandle := js_del (the (u_webauthnUserHandle existing)) (us_byHandle st1)\<rparr>
                 else st1))"

section \<open>Sessions\<close>

record 'm session_record =
  se_id :: string
  se_subject :: string
  se_createdAt :: int
  se_authTime :: int
  se_lastSeenAt :: int
  se_absoluteExpiresAt :: int
  se_amr :: "string list option"
  se_acr :: "string option"
  se_csrfSecret :: "string option"
  se_metadata :: "'m option"

record 'm session_store =
  sst_sessions :: "(string, 'm session_record) jsmap"
  sst_bySubject :: "(string, string list) jsmap"

definition sessions_empty :: "'m session_store" where
  "sessions_empty = \<lparr>sst_sessions = [], sst_bySubject = []\<rparr>"

definition session_get :: "string \<Rightarrow> 'm session_store \<Rightarrow> 'm session_record option" where
  "session_get uid st = js_get (sst_sessions st) uid"

text \<open>\<^verbatim>\<open>map.get(k)?.add(v)\<close> on a map of sets, creating the set when it is missing.\<close>

definition multi_add :: "'k \<Rightarrow> 'v \<Rightarrow> ('k, 'v list) jsmap \<Rightarrow> ('k, 'v list) jsmap" where
  "multi_add k v m = js_set k (set_add v (case js_get m k of None \<Rightarrow> [] | Some s \<Rightarrow> s)) m"

definition multi_remove :: "'k \<Rightarrow> 'v \<Rightarrow> ('k, 'v list) jsmap \<Rightarrow> ('k, 'v list) jsmap" where
  "multi_remove k v m = (case js_get m k of None \<Rightarrow> m | Some s \<Rightarrow> js_set k (set_del v s) m)"

definition session_create :: "'m session_record \<Rightarrow> 'm session_store \<Rightarrow> 'm session_record \<times> 'm session_store" where
  "session_create s st =
     (s, st\<lparr>sst_sessions := js_set (se_id s) s (sst_sessions st),
            sst_bySubject := multi_add (se_subject s) (se_id s) (sst_bySubject st)\<rparr>)"

definition session_touch :: "string \<Rightarrow> int \<Rightarrow> 'm session_store \<Rightarrow> 'm session_store" where
  "session_touch uid lastSeenAt st = (case js_get (sst_sessions st) uid of
     None \<Rightarrow> st
   | Some s \<Rightarrow> st\<lparr>sst_sessions := js_set uid (s\<lparr>se_lastSeenAt := lastSeenAt\<rparr>) (sst_sessions st)\<rparr>)"

definition session_delete :: "string \<Rightarrow> 'm session_store \<Rightarrow> bool \<times> 'm session_store" where
  "session_delete uid st = (case js_get (sst_sessions st) uid of
     None \<Rightarrow> (False, st)
   | Some s \<Rightarrow> (True, st\<lparr>sst_sessions := js_del uid (sst_sessions st),
                         sst_bySubject := multi_remove (se_subject s) uid (sst_bySubject st)\<rparr>))"

text \<open>Deleting a list of keys, counting those that were present.\<close>

definition delete_counting :: "'k list \<Rightarrow> ('k, 'v) jsmap \<Rightarrow> nat \<times> ('k, 'v) jsmap" where
  "delete_counting ids m =
     foldl (\<lambda>(n, m) uid. (if js_has m uid then n + 1 else n, js_del uid m)) (0, m) ids"

definition session_deleteBySubject :: "string \<Rightarrow> 'm session_store \<Rightarrow> nat \<times> 'm session_store" where
  "session_deleteBySubject subject st = (case js_get (sst_bySubject st) subject of
     None \<Rightarrow> (0, st)
   | Some ids \<Rightarrow> (case delete_counting ids (sst_sessions st) of
       (n, m) \<Rightarrow> (n, st\<lparr>sst_sessions := m, sst_bySubject := js_del subject (sst_bySubject st)\<rparr>)))"

definition session_purgeExpired :: "int \<Rightarrow> 'm session_store \<Rightarrow> nat \<times> 'm session_store" where
  "session_purgeExpired t st =
     foldl (\<lambda>(n, st) (uid, s).
         if se_absoluteExpiresAt s \<le> t
         then (n + 1, st\<lparr>sst_sessions := js_del uid (sst_sessions st),
                         sst_bySubject := multi_remove (se_subject s) uid (sst_bySubject st)\<rparr>)
         else (n, st)) (0, st) (sst_sessions st)"

section \<open>Credentials\<close>

record password_credential =
  pc_id :: string
  pc_userId :: string
  pc_hash :: string
  pc_createdAt :: int
  pc_updatedAt :: int

record webauthn_credential =
  wc_id :: string
  wc_userId :: string
  wc_publicKeyCose :: string
  wc_algorithm :: int
  wc_signCount :: int
  wc_backupEligible :: bool
  wc_backupState :: bool
  wc_uvInitialized :: bool
  wc_aaguid :: "string option"
  wc_transports :: "string list option"
  wc_attestationFormat :: "jsstr option"
  wc_createdAt :: int
  wc_lastUsedAt :: "int option"
  wc_disabled :: "bool option"
  wc_version :: int

record api_key_credential =
  ak_id :: string
  ak_userId :: string
  ak_label :: "string option"
  ak_createdAt :: int
  ak_expiresAt :: "int option"
  ak_lastUsedAt :: "int option"
  ak_disabled :: "bool option"

record credential_store =
  cs_passwords :: "(string, password_credential) jsmap"
  cs_webauthn :: "(string, webauthn_credential) jsmap"
  cs_apiKeys :: "(string, api_key_credential) jsmap"

definition findPassword :: "string \<Rightarrow> credential_store \<Rightarrow> password_credential option" where
  "findPassword userId st = js_get (cs_passwords st) userId"

definition savePassword :: "password_credential \<Rightarrow> credential_store \<Rightarrow> credential_store" where
  "savePassword c st = st\<lparr>cs_passwords := js_set (pc_userId c) c (cs_passwords st)\<rparr>"

definition deletePassword :: "string \<Rightarrow> credential_store \<Rightarrow> bool \<times> credential_store" where
  "deletePassword userId st = (js_has (cs_passwords st) userId, st\<lparr>cs_passwords := js_del userId (cs_passwords st)\<rparr>)"

definition findWebAuthn :: "string \<Rightarrow> credential_store \<Rightarrow> webauthn_credential option" where
  "findWebAuthn cid st = js_get (cs_webauthn st) cid"

definition listWebAuthn :: "string \<Rightarrow> credential_store \<Rightarrow> webauthn_credential list" where
  "listWebAuthn userId st = filter (\<lambda>c. wc_userId c = userId) (js_values (cs_webauthn st))"

definition saveWebAuthn :: "webauthn_credential \<Rightarrow> credential_store \<Rightarrow> credential_store" where
  "saveWebAuthn c st = st\<lparr>cs_webauthn := js_set (wc_id c) c (cs_webauthn st)\<rparr>"

definition deleteWebAuthn :: "string \<Rightarrow> credential_store \<Rightarrow> bool \<times> credential_store" where
  "deleteWebAuthn cid st = (js_has (cs_webauthn st) cid, st\<lparr>cs_webauthn := js_del cid (cs_webauthn st)\<rparr>)"

definition updateSignCount :: "string \<Rightarrow> int \<Rightarrow> int \<Rightarrow> int \<Rightarrow> bool option \<Rightarrow> credential_store \<Rightarrow> bool \<times> credential_store" where
  "updateSignCount cid signCount expectedVersion lastUsedAt backupState st =
     (case js_get (cs_webauthn st) cid of
        None \<Rightarrow> (False, st)
      | Some c \<Rightarrow>
          if wc_version c \<noteq> expectedVersion then (False, st)
          else (True, st\<lparr>cs_webauthn := js_set cid
                  (c\<lparr>wc_signCount := signCount, wc_lastUsedAt := Some lastUsedAt,
                     wc_backupState := override backupState (wc_backupState c),
                     wc_version := wc_version c + 1\<rparr>) (cs_webauthn st)\<rparr>))"

definition findApiKey :: "string \<Rightarrow> credential_store \<Rightarrow> api_key_credential option" where
  "findApiKey k st = js_get (cs_apiKeys st) k"

definition listApiKeys :: "string \<Rightarrow> credential_store \<Rightarrow> api_key_credential list" where
  "listApiKeys userId st = filter (\<lambda>c. ak_userId c = userId) (js_values (cs_apiKeys st))"

definition saveApiKey :: "api_key_credential \<Rightarrow> credential_store \<Rightarrow> credential_store" where
  "saveApiKey c st = st\<lparr>cs_apiKeys := js_set (ak_id c) c (cs_apiKeys st)\<rparr>"

definition deleteApiKey :: "string \<Rightarrow> credential_store \<Rightarrow> bool \<times> credential_store" where
  "deleteApiKey k st = (js_has (cs_apiKeys st) k, st\<lparr>cs_apiKeys := js_del k (cs_apiKeys st)\<rparr>)"

section \<open>Single-use state\<close>

record 'd state_entry =
  sy_purpose :: string
  sy_key :: string
  sy_data :: 'd
  sy_expiresAt :: int

type_synonym 'd state_store = "(string, 'd state_entry) jsmap"

definition compose :: "string \<Rightarrow> string \<Rightarrow> string" where
  "compose purpose key = purpose @ '' '' @ key"

definition state_put :: "'d state_entry \<Rightarrow> 'd state_store \<Rightarrow> 'd state_store" where
  "state_put e st = js_set (compose (sy_purpose e) (sy_key e)) e st"

definition state_consume :: "int \<Rightarrow> string \<Rightarrow> string \<Rightarrow> 'd state_store \<Rightarrow> 'd state_entry option \<times> 'd state_store" where
  "state_consume now purpose key st =
     (let composed = compose purpose key
      in case js_get st composed of
           None \<Rightarrow> (None, st)
         | Some e \<Rightarrow> (if sy_expiresAt e \<le> now then None else Some e, js_del composed st))"

definition state_purgeExpired :: "int \<Rightarrow> 'd state_store \<Rightarrow> nat \<times> 'd state_store" where
  "state_purgeExpired t st = foldl (\<lambda>(n, m) (k, e).
     if sy_expiresAt e \<le> t then (n + 1, js_del k m) else (n, m)) (0, st) st"

section \<open>Refresh tokens\<close>

record 'm refresh_record =
  rt_id :: string
  rt_subject :: string
  rt_familyId :: string
  rt_createdAt :: int
  rt_expiresAt :: int
  rt_rotatedAt :: "int option"
  rt_authTime :: int
  rt_amr :: "string list option"
  rt_metadata :: "'m option"

datatype 'm rotate_result =
    Rotated "'m refresh_record"
  | Reused "'m refresh_record"
  | NotFound
  | Expired "'m refresh_record"

record 'm refresh_store =
  rs_tokens :: "(string, 'm refresh_record) jsmap"
  rs_byFamily :: "(string, string list) jsmap"
  rs_bySubject :: "(string, string list) jsmap"

definition refresh_empty :: "'m refresh_store" where
  "refresh_empty = \<lparr>rs_tokens = [], rs_byFamily = [], rs_bySubject = []\<rparr>"

definition refresh_track :: "'m refresh_record \<Rightarrow> 'm refresh_store \<Rightarrow> 'm refresh_store" where
  "refresh_track r st = st\<lparr>rs_byFamily := multi_add (rt_familyId r) (rt_id r) (rs_byFamily st),
                          rs_bySubject := multi_add (rt_subject r) (rt_id r) (rs_bySubject st)\<rparr>"

definition refresh_issue :: "'m refresh_record \<Rightarrow> 'm refresh_store \<Rightarrow> 'm refresh_record \<times> 'm refresh_store" where
  "refresh_issue r st = (r, refresh_track r (st\<lparr>rs_tokens := js_set (rt_id r) r (rs_tokens st)\<rparr>))"

definition refresh_find :: "string \<Rightarrow> 'm refresh_store \<Rightarrow> 'm refresh_record option" where
  "refresh_find tid st = js_get (rs_tokens st) tid"

definition refresh_rotate ::
  "int \<Rightarrow> string \<Rightarrow> 'm refresh_record \<Rightarrow> int \<Rightarrow> 'm refresh_store \<Rightarrow> 'm rotate_result \<times> 'm refresh_store" where
  "refresh_rotate now tid next rotatedAt st = (case js_get (rs_tokens st) tid of
     None \<Rightarrow> (NotFound, st)
   | Some r \<Rightarrow>
       if rt_rotatedAt r \<noteq> None then (Reused r, st)
       else if rt_expiresAt r \<le> now then (Expired r, st)
       else (Rotated next, refresh_track next (st\<lparr>rs_tokens :=
               js_set (rt_id next) next (js_set tid (r\<lparr>rt_rotatedAt := Some rotatedAt\<rparr>) (rs_tokens st))\<rparr>)))"

definition refresh_revokeFamily :: "string \<Rightarrow> 'm refresh_store \<Rightarrow> nat \<times> 'm refresh_store" where
  "refresh_revokeFamily familyId st = (case js_get (rs_byFamily st) familyId of
     None \<Rightarrow> (0, st)
   | Some ids \<Rightarrow> (case delete_counting ids (rs_tokens st) of
       (n, m) \<Rightarrow> (n, st\<lparr>rs_tokens := m, rs_byFamily := js_del familyId (rs_byFamily st)\<rparr>)))"

definition refresh_revokeBySubject :: "string \<Rightarrow> 'm refresh_store \<Rightarrow> nat \<times> 'm refresh_store" where
  "refresh_revokeBySubject subject st = (case js_get (rs_bySubject st) subject of
     None \<Rightarrow> (0, st)
   | Some ids \<Rightarrow> (case delete_counting ids (rs_tokens st) of
       (n, m) \<Rightarrow> (n, st\<lparr>rs_tokens := m, rs_bySubject := js_del subject (rs_bySubject st)\<rparr>)))"

definition refresh_purgeExpired :: "int \<Rightarrow> 'm refresh_store \<Rightarrow> nat \<times> 'm refresh_store" where
  "refresh_purgeExpired t st = (case foldl (\<lambda>(n, m) (k, r).
       if rt_expiresAt r \<le> t then (n + 1, js_del k m) else (n, m)) (0, rs_tokens st) (rs_tokens st) of
     (n, m) \<Rightarrow> (n, st\<lparr>rs_tokens := m\<rparr>))"

section \<open>Signing keys\<close>

record 'j signing_key =
  sk_kid :: string
  sk_algorithm :: string
  sk_privateJwk :: 'j
  sk_publicJwk :: 'j
  sk_createdAt :: int
  sk_notAfter :: "int option"
  sk_expiresAt :: "int option"

record 'j key_store =
  ks_keys :: "(string, 'j signing_key) jsmap"
  ks_current :: "string option"

definition keys_empty :: "'j key_store" where
  "keys_empty = \<lparr>ks_keys = [], ks_current = None\<rparr>"

text \<open>A numeric field used as a condition: neither missing nor zero.\<close>

definition nonzero :: "int option \<Rightarrow> bool" where
  "nonzero x = (case x of None \<Rightarrow> False | Some n \<Rightarrow> n \<noteq> 0)"

text \<open>\<open>None\<close> is the exception.\<close>

definition key_current :: "'j key_store \<Rightarrow> 'j signing_key option" where
  "key_current st = (if present (ks_current st) then js_get (ks_keys st) (the (ks_current st)) else None)"

definition key_before :: "string option \<Rightarrow> 'j signing_key \<Rightarrow> 'j signing_key \<Rightarrow> bool" where
  "key_before current a b =
     (if Some (sk_kid a) = current then True
      else if Some (sk_kid b) = current then False
      else sk_createdAt b \<le> sk_createdAt a)"

definition key_all :: "int \<Rightarrow> 'j key_store \<Rightarrow> 'j signing_key list" where
  "key_all now st = sort_by (key_before (ks_current st))
     (filter (\<lambda>k. \<not> nonzero (sk_expiresAt k) \<or> the (sk_expiresAt k) > now) (js_values (ks_keys st)))"

definition key_find :: "string \<Rightarrow> 'j key_store \<Rightarrow> 'j signing_key option" where
  "key_find kid st = js_get (ks_keys st) kid"

definition key_save :: "int \<Rightarrow> 'j signing_key \<Rightarrow> 'j key_store \<Rightarrow> 'j key_store" where
  "key_save now k st =
     (let st1 = st\<lparr>ks_keys := js_set (sk_kid k) k (ks_keys st)\<rparr>
      in if \<not> nonzero (sk_notAfter k) \<or> the (sk_notAfter k) > now then st1\<lparr>ks_current := Some (sk_kid k)\<rparr> else st1)"

definition key_delete :: "string \<Rightarrow> 'j key_store \<Rightarrow> bool \<times> 'j key_store" where
  "key_delete kid st =
     (js_has (ks_keys st) kid,
      st\<lparr>ks_current := (if ks_current st = Some kid then None else ks_current st), ks_keys := js_del kid (ks_keys st)\<rparr>)"

section \<open>Login throttle\<close>

record bucket =
  bk_count :: int
  bk_resetAt :: int

record throttle =
  th_maxAttempts :: int
  th_windowSeconds :: int
  th_buckets :: "(string, bucket) jsmap"

record throttle_decision =
  td_allowed :: bool
  td_remaining :: int
  td_retryAfter :: int

definition throttle_new :: "int option \<Rightarrow> int option \<Rightarrow> throttle" where
  "throttle_new maxAttempts windowSeconds =
     \<lparr>th_maxAttempts = override maxAttempts 10, th_windowSeconds = override windowSeconds 900, th_buckets = []\<rparr>"

definition throttle_read :: "int \<Rightarrow> string \<Rightarrow> throttle \<Rightarrow> bucket" where
  "throttle_read now key th =
     (let fresh = \<lparr>bk_count = 0, bk_resetAt = now + th_windowSeconds th\<rparr>
      in case js_get (th_buckets th) key of
           None \<Rightarrow> fresh
         | Some b \<Rightarrow> if bk_resetAt b \<le> now then fresh else b)"

definition throttle_decide :: "int \<Rightarrow> bucket \<Rightarrow> throttle \<Rightarrow> throttle_decision" where
  "throttle_decide now b th =
     (let allowed = bk_count b < th_maxAttempts th
      in \<lparr>td_allowed = allowed, td_remaining = max 0 (th_maxAttempts th - bk_count b),
          td_retryAfter = (if allowed then 0 else max 1 (bk_resetAt b - now))\<rparr>)"

definition throttle_check :: "int \<Rightarrow> string \<Rightarrow> throttle \<Rightarrow> throttle_decision" where
  "throttle_check now key th = throttle_decide now (throttle_read now key th) th"

definition throttle_fail :: "int \<Rightarrow> string \<Rightarrow> throttle \<Rightarrow> throttle_decision \<times> throttle" where
  "throttle_fail now key th =
     (let b = throttle_read now key th; updated = b\<lparr>bk_count := bk_count b + 1\<rparr>
      in (throttle_decide now updated th, th\<lparr>th_buckets := js_set key updated (th_buckets th)\<rparr>))"

definition throttle_reset :: "string \<Rightarrow> throttle \<Rightarrow> throttle" where
  "throttle_reset key th = th\<lparr>th_buckets := js_del key (th_buckets th)\<rparr>"

section \<open>The identifier index\<close>

definition trims :: "text_ops \<Rightarrow> bool" where
  "trims T \<longleftrightarrow> (\<forall>s. tx_trim T (tx_trim T s) = tx_trim T s)"

text \<open>Every user is found under its own normalised identifier, and every index entry leads to a user
  with that identifier.\<close>

definition users_ok :: "text_ops \<Rightarrow> 'm user_store \<Rightarrow> bool" where
  "users_ok T st \<longleftrightarrow>
     (\<forall>i u. js_get (us_byId st) i = Some u \<longrightarrow> u_id u = i \<and> i \<noteq> '''' \<and>
        js_get (us_byIdentifier st) (normalizeIdentifier T (u_identifier u)) = Some i) \<and>
     (\<forall>k i. js_get (us_byIdentifier st) k = Some i \<longrightarrow>
        (\<exists>u. js_get (us_byId st) i = Some u \<and> normalizeIdentifier T (u_identifier u) = k))"

lemma users_okD:
  "users_ok T st \<Longrightarrow> js_get (us_byId st) i = Some u \<Longrightarrow>
     u_id u = i \<and> i \<noteq> '''' \<and> js_get (us_byIdentifier st) (normalizeIdentifier T (u_identifier u)) = Some i"
  "users_ok T st \<Longrightarrow> js_get (us_byIdentifier st) k = Some i \<Longrightarrow>
     \<exists>u. js_get (us_byId st) i = Some u \<and> normalizeIdentifier T (u_identifier u) = k"
  by (simp_all add: users_ok_def)

lemma user_index_maps [simp]:
  "us_byId (user_index T u st) = us_byId st"
  "us_byIdentifier (user_index T u st) = js_set (normalizeIdentifier T (u_identifier u)) (u_id u) (us_byIdentifier st)"
  by (simp_all add: user_index_def Let_def)

lemma withIdentifierKey_fields [simp]:
  "u_id (withIdentifierKey T u) = u_id u"
  "u_webauthnUserHandle (withIdentifierKey T u) = u_webauthnUserHandle u"
  by (simp_all add: withIdentifierKey_def Let_def)

lemma normalize_withKey [simp]:
  "trims T \<Longrightarrow> normalizeIdentifier T (u_identifier (withIdentifierKey T u)) = normalizeIdentifier T (u_identifier u)"
  by (simp add: withIdentifierKey_def normalizeIdentifier_def trims_def Let_def)

lemma users_ok_empty: "users_ok T users_empty"
  by (simp add: users_ok_def users_empty_def)

lemma users_ok_create:
  assumes "users_ok T st" "trims T" "u_id u \<noteq> ''''"
  shows "users_ok T (snd (user_create T u st))"
proof (cases "js_has (us_byId st) (u_id u) \<or> js_has (us_byIdentifier st) (normalizeIdentifier T (u_identifier u))")
  case False
  then have "js_get (us_byId st) (u_id u) = None" "js_get (us_byIdentifier st) (normalizeIdentifier T (u_identifier u)) = None"
    by (auto simp: js_has_def)
  then have "\<forall>j v. js_get (us_byId st) j = Some v \<longrightarrow> j \<noteq> u_id u \<and>
      normalizeIdentifier T (u_identifier v) \<noteq> normalizeIdentifier T (u_identifier u)"
    using users_okD(1) [OF assms(1)] by fastforce
  moreover have "\<forall>k i. js_get (us_byIdentifier st) k = Some i \<longrightarrow> i \<noteq> u_id u"
    using users_okD(2) [OF assms(1)] \<open>js_get (us_byId st) (u_id u) = None\<close> by fastforce
  ultimately show ?thesis
    using False assms by (auto simp: user_create_def Let_def users_ok_def)
qed (auto simp: user_create_def assms(1))

text \<open>The identifier an update gives the user.\<close>

definition patched_identifier :: "'m user_patch \<Rightarrow> 'm user \<Rightarrow> string" where
  "patched_identifier p u = override (up_identifier p) (u_identifier u)"

lemma apply_patch_identifier [simp]: "u_identifier (apply_patch p u) = patched_identifier p u"
  by (simp add: apply_patch_def patched_identifier_def)

lemma normalize_withKey_id:
  "trims T \<Longrightarrow> normalizeIdentifier T (u_identifier (withIdentifierKey T (apply_patch p u\<lparr>u_id := i\<rparr>))) =
     normalizeIdentifier T (patched_identifier p u)"
  by simp

lemma user_update_store:
  assumes "js_get (us_byId st) i = Some u" "trims T" "up_identifier p \<noteq> Some ''''"
  defines "k \<equiv> normalizeIdentifier T (patched_identifier p u)" and "k0 \<equiv> normalizeIdentifier T (u_identifier u)"
  shows "\<exists>u'. u_id u' = i \<and> normalizeIdentifier T (u_identifier u') = k \<and> fst (user_update T i p st) = Some u' \<and>
    us_byId (snd (user_update T i p st)) = js_set i u' (us_byId st) \<and>
    us_byIdentifier (snd (user_update T i p st)) = js_set k i (if k = k0 then us_byIdentifier st else js_del k0 (us_byIdentifier st))"
proof -
  have "present (up_identifier p) \<and> normalizeIdentifier T (the (up_identifier p)) \<noteq> k0 \<longleftrightarrow> k \<noteq> k0"
    using assms(3) by (cases "up_identifier p") (auto simp: present_def k_def k0_def patched_identifier_def override_def)
  then show ?thesis
    using assms(1,2) normalize_withKey_id [OF assms(2)]
    by (auto simp: user_update_def Let_def k_def k0_def)
qed

lemma users_ok_update:
  assumes ok: "users_ok T st" and T: "trims T" and u: "js_get (us_byId st) i = Some u" and p: "up_identifier p \<noteq> Some ''''"
    and free: "\<forall>j v. js_get (us_byId st) j = Some v \<longrightarrow> j \<noteq> i \<longrightarrow>
      normalizeIdentifier T (u_identifier v) \<noteq> normalizeIdentifier T (patched_identifier p u)"
  shows "users_ok T (snd (user_update T i p st))"
proof -
  define k k0 where "k = normalizeIdentifier T (patched_identifier p u)" and "k0 = normalizeIdentifier T (u_identifier u)"
  define st' where "st' = snd (user_update T i p st)"
  obtain u' where u': "u_id u' = i" "normalizeIdentifier T (u_identifier u') = k" "us_byId st' = js_set i u' (us_byId st)"
    "us_byIdentifier st' = js_set k i (if k = k0 then us_byIdentifier st else js_del k0 (us_byIdentifier st))"
    using user_update_store [OF u T p] by (auto simp: k_def k0_def st'_def)
  have i: "i \<noteq> ''''" "js_get (us_byIdentifier st) k0 = Some i" using users_okD(1) [OF ok u] by (simp_all add: k0_def)
  have "users_ok T st'"
    unfolding users_ok_def
  proof (intro conjI allI impI)
    fix j v assume v: "js_get (us_byId st') j = Some v"
    show "u_id v = j" "j \<noteq> ''''" using v u' i users_okD(1) [OF ok, of j v] by (auto split: if_splits)
    show "js_get (us_byIdentifier st') (normalizeIdentifier T (u_identifier v)) = Some j"
      using v u' i users_okD(1) [OF ok, of j v] free by (auto simp: k_def split: if_splits)
  next
    fix l j assume l: "js_get (us_byIdentifier st') l = Some j"
    show "\<exists>v. js_get (us_byId st') j = Some v \<and> normalizeIdentifier T (u_identifier v) = l"
    proof (cases "l = k")
      case False
      then have lj: "js_get (us_byIdentifier st) l = Some j" and "l \<noteq> k0" using l u'(4) by (auto split: if_splits)
      from users_okD(2) [OF ok lj] obtain v where v: "js_get (us_byId st) j = Some v" "normalizeIdentifier T (u_identifier v) = l" by blast
      with u \<open>l \<noteq> k0\<close> have "j \<noteq> i" by (auto simp: k0_def)
      with v u' show ?thesis by auto
    qed (use l u' in auto)
  qed
  then show ?thesis by (simp add: st'_def)
qed

lemma users_ok_delete:
  assumes ok: "users_ok T st"
  shows "users_ok T (snd (user_delete T i st))"
proof (cases "js_get (us_byId st) i")
  case (Some u)
  note i = users_okD(1) [OF ok Some]
  have "js_get (us_byId st) j = Some v \<Longrightarrow> j \<noteq> i \<Longrightarrow> normalizeIdentifier T (u_identifier v) \<noteq> normalizeIdentifier T (u_identifier u)" for j v
    using users_okD(1) [OF ok, of j v] i by auto
  moreover have "js_get (us_byIdentifier st) k = Some i \<Longrightarrow> k = normalizeIdentifier T (u_identifier u)" for k
    using users_okD(2) [OF ok, of k i] Some by auto
  ultimately show ?thesis
    using Some ok by (auto simp: user_delete_def Let_def users_ok_def)
qed (simp add: user_delete_def ok)

section \<open>Properties of the user store\<close>

datatype 'm user_op = UCreate "'m user" | UUpdate string "'m user_patch" | UDelete string

text \<open>An operation that does not give a user the identifier of another one.\<close>

definition user_op_ok :: "text_ops \<Rightarrow> 'm user_op \<Rightarrow> 'm user_store \<Rightarrow> bool" where
  "user_op_ok T op st = (case op of
     UCreate u \<Rightarrow> u_id u \<noteq> ''''
   | UUpdate i p \<Rightarrow> up_identifier p \<noteq> Some '''' \<and>
       (case js_get (us_byId st) i of None \<Rightarrow> True
        | Some u \<Rightarrow> \<forall>v \<in> set (js_values (us_byId st)). u_id v \<noteq> i \<longrightarrow>
            normalizeIdentifier T (u_identifier v) \<noteq> normalizeIdentifier T (patched_identifier p u))
   | UDelete i \<Rightarrow> True)"

definition user_step :: "text_ops \<Rightarrow> 'm user_op \<Rightarrow> 'm user_store \<Rightarrow> 'm user_store" where
  "user_step T op st = (case op of
     UCreate u \<Rightarrow> snd (user_create T u st)
   | UUpdate i p \<Rightarrow> snd (user_update T i p st)
   | UDelete i \<Rightarrow> snd (user_delete T i st))"

inductive users_reach :: "text_ops \<Rightarrow> 'm user_store \<Rightarrow> bool" for T where
  start: "users_reach T users_empty"
| step: "users_reach T st \<Longrightarrow> user_op_ok T op st \<Longrightarrow> users_reach T (user_step T op st)"

lemma users_reach_ok: "users_reach T st \<Longrightarrow> trims T \<Longrightarrow> users_ok T st"
proof (induction rule: users_reach.induct)
  case start
  show ?case by (rule users_ok_empty)
next
  case (step st op)
  then have ok: "users_ok T st" by blast
  show ?case
  proof (cases op)
    case (UCreate u)
    with step ok show ?thesis by (simp add: user_step_def user_op_ok_def users_ok_create)
  next
    case (UUpdate i p)
    show ?thesis
    proof (cases "js_get (us_byId st) i")
      case (Some u)
      have "\<forall>j v. js_get (us_byId st) j = Some v \<longrightarrow> j \<noteq> i \<longrightarrow>
          normalizeIdentifier T (u_identifier v) \<noteq> normalizeIdentifier T (patched_identifier p u)"
        using step(2) UUpdate Some users_okD(1) [OF ok] js_get_in_values [of "us_byId st"]
        by (fastforce simp: user_op_ok_def)
      with step UUpdate Some ok show ?thesis by (auto simp: user_step_def user_op_ok_def intro!: users_ok_update)
    qed (simp add: UUpdate user_step_def user_update_def ok)
  next
    case (UDelete i)
    with ok show ?thesis by (simp add: user_step_def users_ok_delete)
  qed
qed

text \<open>identifiers identify: as long as no update takes over another user's identifier, looking up any
  spelling of a stored user's identifier finds exactly that user, and a user found by an identifier has it.\<close>
theorem identifier_lookup_exact:
  assumes "users_reach T st" "trims T"
  shows "findByIdentifier T s st = Some u \<longleftrightarrow>
    (findById (u_id u) st = Some u \<and> normalizeIdentifier T (u_identifier u) = normalizeIdentifier T s)"
proof -
  note ok = users_reach_ok [OF assms]
  show ?thesis
  proof
    assume "findByIdentifier T s st = Some u"
    then obtain i where i: "js_get (us_byIdentifier st) (normalizeIdentifier T s) = Some i" "js_get (us_byId st) i = Some u"
      by (auto simp: findByIdentifier_def present_def Let_def split: if_splits option.splits)
    from users_okD(2) [OF ok i(1)] users_okD(1) [OF ok i(2)] i(2)
    show "findById (u_id u) st = Some u \<and> normalizeIdentifier T (u_identifier u) = normalizeIdentifier T s"
      by (auto simp: findById_def)
  next
    assume u: "findById (u_id u) st = Some u \<and> normalizeIdentifier T (u_identifier u) = normalizeIdentifier T s"
    with users_okD(1) [OF ok, of "u_id u" u] show "findByIdentifier T s st = Some u"
      by (simp add: findById_def findByIdentifier_def present_def Let_def)
  qed
qed

text \<open>update does not keep identifiers unique: giving a user the identifier of another one succeeds, leaves
  both with it, and the shared identifier then finds the user that took it over.\<close>
theorem update_takes_over_identifier:
  assumes "users_reach T st" "trims T" "findById i st = Some u" "findById j st = Some v" "i \<noteq> j"
    and "up_identifier p = Some (u_identifier u)" "u_identifier u \<noteq> ''''"
  shows "\<exists>v'. findByIdentifier T (u_identifier u) (snd (user_update T j p st)) = Some v' \<and> u_id v' = j \<and>
    findById i (snd (user_update T j p st)) = Some u"
proof -
  note ok = users_reach_ok [OF assms(1,2)]
  have v: "js_get (us_byId st) j = Some v" and u: "js_get (us_byId st) i = Some u"
    using assms by (simp_all add: findById_def)
  have j: "j \<noteq> ''''" using users_okD(1) [OF ok v] by simp
  have k: "patched_identifier p v = u_identifier u" using assms(6) by (simp add: patched_identifier_def override_def)
  obtain v' where "u_id v' = j" "us_byId (snd (user_update T j p st)) = js_set j v' (us_byId st)"
    "js_get (us_byIdentifier (snd (user_update T j p st))) (normalizeIdentifier T (u_identifier u)) = Some j"
    using user_update_store [OF v assms(2), of p] assms(6,7) k by auto
  then show ?thesis
    using u j assms(5) by (simp add: findById_def findByIdentifier_def present_def Let_def)
qed

definition demo_text :: text_ops where
  "demo_text = \<lparr>tx_trim = dropWhile (\<lambda>c. c = CHR '' ''), tx_lower = (\<lambda>s. s)\<rparr>"

definition demo_user :: "string \<Rightarrow> string \<Rightarrow> unit user" where
  "demo_user i s = \<lparr>u_id = i, u_identifier = s, u_identifierKey = None, u_displayName = None, u_emailVerified = None,
     u_disabled = None, u_webauthnUserHandle = None, u_createdAt = 0, u_metadata = None\<rparr>"

definition demo_users :: "unit user_store" where
  "demo_users = user_step demo_text (UCreate (demo_user ''2'' ''bob'')) (user_step demo_text (UCreate (demo_user ''1'' '' ann'')) users_empty)"

definition demo_patch :: "string \<Rightarrow> unit user_patch" where
  "demo_patch s = \<lparr>up_identifier = Some s, up_displayName = None, up_emailVerified = None, up_disabled = None,
     up_webauthnUserHandle = None, up_createdAt = None, up_metadata = None\<rparr>"

lemma demo_trims: "trims demo_text"
  by (simp add: trims_def demo_text_def dropWhile_idem)

lemma demo_users_reach: "users_reach demo_text demo_users"
  unfolding demo_users_def
  by (intro users_reach.step users_reach.start) (simp_all add: user_op_ok_def demo_user_def)

lemma demo_users_byId:
  "findById ''1'' demo_users = Some ((demo_user ''1'' ''ann'')\<lparr>u_identifierKey := Some ''ann''\<rparr>)"
  "findById ''2'' demo_users = Some ((demo_user ''2'' ''bob'')\<lparr>u_identifierKey := Some ''bob''\<rparr>)"
  by (simp_all add: demo_users_def user_step_def user_create_def users_empty_def demo_user_def demo_text_def
      normalizeIdentifier_def withIdentifierKey_def js_has_def user_index_def present_def findById_def Let_def)

lemma identifier_lookup_exact_witness:
  "findByIdentifier demo_text ''  ann'' demo_users = Some ((demo_user ''1'' ''ann'')\<lparr>u_identifierKey := Some ''ann''\<rparr>)"
  using demo_users_byId(1)
  by (subst identifier_lookup_exact [OF demo_users_reach demo_trims])
    (simp add: demo_user_def normalizeIdentifier_def demo_text_def)

lemma update_takes_over_identifier_witness:
  "\<exists>v. findByIdentifier demo_text ''ann'' (snd (user_update demo_text ''2'' (demo_patch ''ann'') demo_users)) = Some v \<and>
     u_id v = ''2''"
  using update_takes_over_identifier [OF demo_users_reach demo_trims demo_users_byId, of "demo_patch ''ann''"]
  by (auto simp: demo_patch_def demo_user_def)

section \<open>Single use\<close>

datatype 'd state_op = SPut "'d state_entry" | SConsume int string string | SPurge int

definition state_step :: "'d state_op \<Rightarrow> 'd state_store \<Rightarrow> 'd state_store" where
  "state_step op st = (case op of
     SPut e \<Rightarrow> state_put e st
   | SConsume now p k \<Rightarrow> snd (state_consume now p k st)
   | SPurge t \<Rightarrow> snd (state_purgeExpired t st))"

definition state_run :: "'d state_op list \<Rightarrow> 'd state_store \<Rightarrow> 'd state_store" where
  "state_run ops st = foldl (\<lambda>st op. state_step op st) st ops"

lemma foldl_delete_get:
  "js_get (snd (foldl (\<lambda>(n, m) (k, e). if P e then (n + 1, js_del k m) else (n, m)) (a, m) xs)) key = Some e \<Longrightarrow>
   js_get m key = Some e"
proof (induction xs arbitrary: a m)
  case (Cons x xs)
  obtain k v where x: "x = (k, v)" by (cases x) auto
  show ?case
  proof (cases "P v")
    case True
    with Cons.prems x have "js_get (snd (foldl (\<lambda>(n, m) (k, e). if P e then (n + 1, js_del k m) else (n, m))
        (a + 1, js_del k m) xs)) key = Some e" by simp
    from Cons.IH [OF this] show ?thesis by (auto split: if_splits)
  next
    case False
    with Cons x show ?thesis by simp
  qed
qed simp

lemma state_step_none:
  assumes "js_get st (compose p k) = None" "\<forall>e. op = SPut e \<longrightarrow> compose (sy_purpose e) (sy_key e) \<noteq> compose p k"
  shows "js_get (state_step op st) (compose p k) = None"
proof (cases op)
  case (SPurge t)
  then show ?thesis
    using assms(1) foldl_delete_get [of "\<lambda>e. sy_expiresAt e \<le> t" 0 st st "compose p k"]
    by (cases "js_get (state_step op st) (compose p k)") (auto simp: state_step_def state_purgeExpired_def)
qed (use assms in \<open>auto simp: state_step_def state_put_def state_consume_def Let_def split: option.split\<close>)

definition spaceless :: "string \<Rightarrow> bool" where
  "spaceless p \<longleftrightarrow> CHR '' '' \<notin> set p"

lemma takeWhile_compose: "spaceless p \<Longrightarrow> takeWhile (\<lambda>c. c \<noteq> CHR '' '') (compose p k) = p"
  by (induction p) (auto simp: compose_def spaceless_def)

lemma compose_inj: "spaceless p \<Longrightarrow> spaceless q \<Longrightarrow> compose p k = compose q l \<longleftrightarrow> p = q \<and> k = l"
  using takeWhile_compose [of p k] takeWhile_compose [of q l] by (auto simp: compose_def)

text \<open>state is single use: once an entry has been asked for, successfully or not, no later request for it
  succeeds, whatever else happens to the store, until something is put under its purpose and key again.\<close>
theorem state_single_use:
  assumes "\<forall>e. SPut e \<in> set ops \<longrightarrow> compose (sy_purpose e) (sy_key e) \<noteq> compose p k"
  shows "fst (state_consume now2 p k (state_run ops (snd (state_consume now1 p k st)))) = None"
proof -
  have "js_get (state_run ops st') (compose p k) = None" if "js_get st' (compose p k) = None" for st'
    using that assms
  proof (induction ops arbitrary: st')
    case (Cons op ops)
    then have "js_get (state_step op st') (compose p k) = None" by (intro state_step_none) auto
    with Cons show ?case by (simp add: state_run_def)
  qed (simp add: state_run_def)
  moreover have "js_get (snd (state_consume now1 p k st)) (compose p k) = None"
    by (simp add: state_consume_def Let_def split: option.split)
  ultimately have "js_get (state_run ops (snd (state_consume now1 p k st))) (compose p k) = None" by blast
  then show ?thesis by (simp add: state_consume_def [of now2] Let_def)
qed

lemma state_single_use_witness:
  "let e = \<lparr>sy_purpose = ''oauth-state'', sy_key = ''abc'', sy_data = (), sy_expiresAt = 100\<rparr>
   in fst (state_consume 50 ''oauth-state'' ''abc'' (state_run [SPurge 10]
        (snd (state_consume 40 ''oauth-state'' ''abc'' (state_put e []))))) = None"
  using state_single_use [of "[SPurge 10]"] by simp

text \<open>purposes can be confused: the composed key does not delimit the purpose, so a request for one purpose
  returns an entry put for another one whose name continues with the start of the key after a space.\<close>
theorem state_purposes_confused:
  assumes "sy_expiresAt e > now" "sy_purpose e = p @ '' '' @ k1" "sy_key e = k2"
  shows "fst (state_consume now p (k1 @ '' '' @ k2) (state_put e st)) = Some e"
  using assms by (simp add: state_consume_def state_put_def compose_def Let_def)

lemma state_purposes_confused_witness:
  "let e = \<lparr>sy_purpose = ''reset email'', sy_key = ''7'', sy_data = (), sy_expiresAt = 100\<rparr>
   in fst (state_consume 50 ''reset'' ''email 7'' (state_put e [])) = Some e"
  using state_purposes_confused [of 50 "\<lparr>sy_purpose = ''reset email'', sy_key = ''7'', sy_data = (), sy_expiresAt = 100\<rparr>" "''reset''" "''email''" "''7''" "[]"]
  by simp

section \<open>Compare and swap\<close>

datatype credential_op =
    CSave webauthn_credential
  | CDelete string
  | CUpdate string int int int "bool option"
  | CSavePassword password_credential
  | CSaveApiKey api_key_credential

definition credential_step :: "credential_op \<Rightarrow> credential_store \<Rightarrow> credential_store" where
  "credential_step op st = (case op of
     CSave c \<Rightarrow> saveWebAuthn c st
   | CDelete i \<Rightarrow> snd (deleteWebAuthn i st)
   | CUpdate i n v t b \<Rightarrow> snd (updateSignCount i n v t b st)
   | CSavePassword c \<Rightarrow> savePassword c st
   | CSaveApiKey c \<Rightarrow> saveApiKey c st)"

definition credential_run :: "credential_op list \<Rightarrow> credential_store \<Rightarrow> credential_store" where
  "credential_run ops st = foldl (\<lambda>st op. credential_step op st) st ops"

definition touches :: "string \<Rightarrow> credential_op \<Rightarrow> bool" where
  "touches i op = (case op of CSave c \<Rightarrow> wc_id c = i | CDelete j \<Rightarrow> j = i | _ \<Rightarrow> False)"

definition version_above :: "string \<Rightarrow> int \<Rightarrow> credential_store \<Rightarrow> bool" where
  "version_above i v st = (case js_get (cs_webauthn st) i of None \<Rightarrow> True | Some c \<Rightarrow> v < wc_version c)"

lemma version_above_step: "version_above i v st \<Longrightarrow> \<not> touches i op \<Longrightarrow> version_above i v (credential_step op st)"
  by (cases op) (auto simp: version_above_def credential_step_def touches_def saveWebAuthn_def deleteWebAuthn_def
      updateSignCount_def savePassword_def saveApiKey_def split: option.splits)

lemma version_above_run:
  "version_above i v st \<Longrightarrow> \<forall>op \<in> set ops. \<not> touches i op \<Longrightarrow> version_above i v (credential_run ops st)"
proof (induction ops arbitrary: st)
  case (Cons op ops)
  then have "version_above i v (credential_step op st)" by (intro version_above_step) simp_all
  with Cons show ?case by (simp add: credential_run_def)
qed (simp add: credential_run_def)

text \<open>the sign counter is a compare and swap: of two updates of one credential that expect the same version,
  however many other calls come between (short of saving or deleting that credential), at most one succeeds.\<close>
theorem sign_count_updated_once:
  assumes "\<forall>op \<in> set ops. \<not> touches i op" and "updateSignCount i n1 v t1 b1 st = (True, st1)"
  shows "fst (updateSignCount i n2 v t2 b2 (credential_run ops st1)) = False"
proof -
  have "version_above i v st1"
    using assms(2) by (auto simp: updateSignCount_def version_above_def split: option.splits if_splits)
  from version_above_run [OF this assms(1)] show ?thesis
    by (auto simp: updateSignCount_def version_above_def split: option.splits)
qed

definition demo_credential :: webauthn_credential where
  "demo_credential = \<lparr>wc_id = ''c'', wc_userId = ''u'', wc_publicKeyCose = ''k'', wc_algorithm = - 7, wc_signCount = 4,
     wc_backupEligible = False, wc_backupState = False, wc_uvInitialized = True,
     wc_aaguid = None, wc_transports = None, wc_attestationFormat = None, wc_createdAt = 0, wc_lastUsedAt = None,
     wc_disabled = None, wc_version = 1\<rparr>"

definition demo_credentials :: credential_store where
  "demo_credentials = saveWebAuthn demo_credential \<lparr>cs_passwords = [], cs_webauthn = [], cs_apiKeys = []\<rparr>"

lemma sign_count_updated_once_witness:
  "fst (updateSignCount ''c'' 5 1 10 None demo_credentials) \<and>
   fst (updateSignCount ''c'' 5 1 11 None (credential_run [CUpdate ''d'' 1 1 1 None] (snd (updateSignCount ''c'' 5 1 10 None demo_credentials)))) = False"
proof -
  have ok: "fst (updateSignCount ''c'' 5 1 10 None demo_credentials)"
    by (simp add: updateSignCount_def demo_credentials_def saveWebAuthn_def demo_credential_def)
  then obtain st1 where st1: "updateSignCount ''c'' 5 1 10 None demo_credentials = (True, st1)" by (metis prod.collapse)
  from sign_count_updated_once [OF _ st1, of "[CUpdate ''d'' 1 1 1 None]" 5 11 None] ok st1 show ?thesis
    by (simp add: touches_def)
qed

section \<open>Throttling\<close>

definition fail_all :: "string \<Rightarrow> int list \<Rightarrow> throttle \<Rightarrow> throttle" where
  "fail_all key ts th = foldl (\<lambda>th t. snd (throttle_fail t key th)) th ts"

lemma fail_all_bucket:
  assumes "\<forall>x \<in> set ts. x < r" "js_get (th_buckets th) key = Some \<lparr>bk_count = c, bk_resetAt = r\<rparr>"
  shows "js_get (th_buckets (fail_all key ts th)) key = Some \<lparr>bk_count = c + int (length ts), bk_resetAt = r\<rparr> \<and>
    th_maxAttempts (fail_all key ts th) = th_maxAttempts th \<and> th_windowSeconds (fail_all key ts th) = th_windowSeconds th"
  using assms
proof (induction ts arbitrary: th c)
  case (Cons x ts)
  then have "js_get (th_buckets (snd (throttle_fail x key th))) key = Some \<lparr>bk_count = c + 1, bk_resetAt = r\<rparr>"
    by (simp add: throttle_fail_def throttle_read_def Let_def)
  from Cons.IH [OF _ this] Cons.prems show ?case
    by (simp add: fail_all_def) (simp add: throttle_fail_def Let_def)
qed (simp add: fail_all_def)

text \<open>the throttle counts one fixed window: after failures that all fall into the window opened by the first,
  a check inside the window is allowed exactly while fewer than the maximum have failed, it names what
  remains and how long to wait, and a check after the window starts afresh.\<close>
theorem throttle_window:
  assumes "js_get (th_buckets th) key = None" "\<forall>x \<in> set ts. x < t + th_windowSeconds th" "0 < th_windowSeconds th"
  shows "throttle_check now key (fail_all key (t # ts) th) = (if now < t + th_windowSeconds th
     then let n = 1 + int (length ts) in
       \<lparr>td_allowed = (n < th_maxAttempts th), td_remaining = max 0 (th_maxAttempts th - n),
        td_retryAfter = (if n < th_maxAttempts th then 0 else max 1 (t + th_windowSeconds th - now))\<rparr>
     else throttle_check now key th)"
proof -
  define th' where "th' = fail_all key (t # ts) th"
  define th1 where "th1 = snd (throttle_fail t key th)"
  have "js_get (th_buckets th1) key = Some \<lparr>bk_count = 1, bk_resetAt = t + th_windowSeconds th\<rparr>"
    and keep: "th_maxAttempts th1 = th_maxAttempts th" "th_windowSeconds th1 = th_windowSeconds th"
    using assms(1) by (simp_all add: th1_def throttle_fail_def throttle_read_def Let_def)
  from fail_all_bucket [OF assms(2) this(1)]
  have "js_get (th_buckets th') key = Some \<lparr>bk_count = 1 + int (length ts), bk_resetAt = t + th_windowSeconds th\<rparr>"
    "th_maxAttempts th' = th_maxAttempts th" "th_windowSeconds th' = th_windowSeconds th"
    using keep by (simp_all add: th'_def fail_all_def th1_def)
  then show ?thesis
    using assms(1) unfolding th'_def [symmetric]
    by (simp add: throttle_check_def throttle_read_def throttle_decide_def Let_def)
qed

lemma throttle_window_witness:
  "td_allowed (throttle_check 20 ''k'' (fail_all ''k'' [10, 11] (throttle_new (Some 2) (Some 60)))) = False \<and>
   td_retryAfter (throttle_check 20 ''k'' (fail_all ''k'' [10, 11] (throttle_new (Some 2) (Some 60)))) = 50"
  using throttle_window [of "throttle_new (Some 2) (Some 60)" "''k''" "[11]" 10 20]
  by (simp add: throttle_new_def override_def Let_def)

section \<open>Signing keys\<close>

text \<open>the current key can be unpublished: once the key last saved has expired, it is still the one new tokens
  are signed with, but the published key set no longer contains it.\<close>
theorem current_key_unpublished:
  assumes "sk_notAfter k = None \<or> (\<exists>n. sk_notAfter k = Some n \<and> saved < n)" "sk_kid k \<noteq> ''''"
    and "sk_expiresAt k = Some e" "e \<noteq> 0" "e \<le> now"
  shows "key_current (key_save saved k st) = Some k \<and> k \<notin> set (key_all now (key_save saved k st))"
  using assms by (auto simp: key_save_def key_current_def key_all_def nonzero_def present_def Let_def split: option.splits)

definition demo_key :: "unit signing_key" where
  "demo_key = \<lparr>sk_kid = ''k1'', sk_algorithm = ''ES256'', sk_privateJwk = (), sk_publicJwk = (), sk_createdAt = 0,
     sk_notAfter = Some 50, sk_expiresAt = Some 100\<rparr>"

lemma current_key_unpublished_witness:
  "key_current (key_save 10 demo_key keys_empty) = Some demo_key \<and> demo_key \<notin> set (key_all 200 (key_save 10 demo_key keys_empty))"
  by (rule current_key_unpublished [where e = 100]) (simp_all add: demo_key_def)

end
