(* ===== verification/LoginSessions.thy ===== *)
theory LoginSessions
  imports AuthStores
begin

text \<open>
  Server-side login sessions: \<^verbatim>\<open>di-framework-auth/src/session/manager.ts\<close> and
  \<^verbatim>\<open>session/policy.ts\<close>.

  The manager is written over the operations of a session store; what it needs of a store is the
  locale \<open>session_backend\<close>, interpreted on the in-memory store.  \<open>hash\<close> stands for the SHA-256 of
  WebCrypto; fresh tokens are arguments.  The lemmas show the two clocks at work, that
  regeneration and revocation kill the old token, and that a touch interval at least as long as
  the inactivity timeout ends active sessions.
\<close>

section \<open>Policy\<close>

record session_policy =
  sp_absoluteTimeout :: int
  sp_inactivityTimeout :: int
  sp_touchInterval :: int

record partial_policy =
  pp_absoluteTimeout :: "int option"
  pp_inactivityTimeout :: "int option"
  pp_touchInterval :: "int option"

definition AAL1_POLICY :: session_policy where
  "AAL1_POLICY = \<lparr>sp_absoluteTimeout = 30 * 24 * 60 * 60, sp_inactivityTimeout = 0, sp_touchInterval = 300\<rparr>"

definition AAL2_POLICY :: session_policy where
  "AAL2_POLICY = \<lparr>sp_absoluteTimeout = 12 * 60 * 60, sp_inactivityTimeout = 30 * 60, sp_touchInterval = 60\<rparr>"

definition AAL3_POLICY :: session_policy where
  "AAL3_POLICY = \<lparr>sp_absoluteTimeout = 12 * 60 * 60, sp_inactivityTimeout = 15 * 60, sp_touchInterval = 60\<rparr>"

datatype policy_error = AbsoluteNotPositive | InactivityNegative

definition resolveSessionPolicy :: "partial_policy \<Rightarrow> (policy_error, session_policy) result" where
  "resolveSessionPolicy p =
     (let resolved = \<lparr>sp_absoluteTimeout = override (pp_absoluteTimeout p) (sp_absoluteTimeout AAL2_POLICY),
                      sp_inactivityTimeout = override (pp_inactivityTimeout p) (sp_inactivityTimeout AAL2_POLICY),
                      sp_touchInterval = override (pp_touchInterval p) (sp_touchInterval AAL2_POLICY)\<rparr>
      in if sp_absoluteTimeout resolved \<le> 0 then Inl AbsoluteNotPositive
         else if sp_inactivityTimeout resolved < 0 then Inl InactivityNegative
         else Inr resolved)"

section \<open>The manager\<close>

record ('s, 'm) session_ops =
  so_get :: "string \<Rightarrow> 's \<Rightarrow> 'm session_record option"
  so_create :: "'m session_record \<Rightarrow> 's \<Rightarrow> 'm session_record \<times> 's"
  so_touch :: "string \<Rightarrow> int \<Rightarrow> 's \<Rightarrow> 's"
  so_delete :: "string \<Rightarrow> 's \<Rightarrow> bool \<times> 's"
  so_deleteBySubject :: "string \<Rightarrow> 's \<Rightarrow> nat \<times> 's"

record 'm principal =
  pr_sub :: string
  pr_method :: string
  pr_authTime :: int
  pr_sessionId :: "string option"
  pr_expiresAt :: "int option"
  pr_amr :: "string list option"
  pr_acr :: "string option"
  pr_claims :: "'m option"

record 'm create_input =
  ci_subject :: string
  ci_amr :: "string list option"
  ci_acr :: "string option"
  ci_authTime :: "int option"
  ci_metadata :: "'m option"

record 'm session_changes =
  cg_subject :: "string option"
  cg_amr :: "string list option"
  cg_acr :: "string option"
  cg_authTime :: "int option"
  cg_metadata :: "'m option"

record 'm issued_session =
  is_token :: string
  is_record :: "'m session_record"
  is_principal :: "'m principal"

datatype expiry = AbsoluteExpiry | InactivityExpiry

datatype 'm session_lookup =
    Active "'m session_record" "'m principal"
  | SessionNotFound
  | SessionExpired expiry

text \<open>What the manager is configured with: the store, the hash, the policy and whether it mints CSRF secrets.\<close>

record ('s, 'm) manager =
  mg_ops :: "('s, 'm) session_ops"
  mg_hash :: "string \<Rightarrow> string"
  mg_policy :: session_policy
  mg_csrf :: bool

definition toPrincipal :: "'m session_record \<Rightarrow> 'm principal" where
  "toPrincipal r = \<lparr>pr_sub = se_subject r, pr_method = ''session'', pr_authTime = se_authTime r,
     pr_sessionId = Some (se_id r), pr_expiresAt = Some (se_absoluteExpiresAt r), pr_amr = se_amr r,
     pr_acr = (if present (se_acr r) then se_acr r else None), pr_claims = se_metadata r\<rparr>"

definition expiryReason :: "session_policy \<Rightarrow> 'm session_record \<Rightarrow> int \<Rightarrow> expiry option" where
  "expiryReason pol r t =
     (if se_absoluteExpiresAt r \<le> t then Some AbsoluteExpiry
      else if sp_inactivityTimeout pol > 0 \<and> se_lastSeenAt r + sp_inactivityTimeout pol \<le> t then Some InactivityExpiry
      else None)"

definition mint_record :: "('s, 'm) manager \<Rightarrow> string \<Rightarrow> string \<Rightarrow> 'm create_input \<Rightarrow> int \<Rightarrow> 'm session_record" where
  "mint_record M token csrf inp t =
     (let authTime = override (ci_authTime inp) t
      in \<lparr>se_id = mg_hash M token, se_subject = ci_subject inp, se_createdAt = t, se_authTime = authTime,
          se_lastSeenAt = t, se_absoluteExpiresAt = authTime + sp_absoluteTimeout (mg_policy M),
          se_amr = ci_amr inp, se_acr = (if present (ci_acr inp) then ci_acr inp else None),
          se_csrfSecret = (if mg_csrf M then Some csrf else None), se_metadata = ci_metadata inp\<rparr>)"

definition mint :: "('s, 'm) manager \<Rightarrow> string \<Rightarrow> string \<Rightarrow> 'm create_input \<Rightarrow> int \<Rightarrow> 's \<Rightarrow> 'm issued_session \<times> 's" where
  "mint M token csrf inp t s =
     (case so_create (mg_ops M) (mint_record M token csrf inp t) s of
        (stored, s1) \<Rightarrow> (\<lparr>is_token = token, is_record = stored, is_principal = toPrincipal stored\<rparr>, s1))"

definition session_resolve :: "('s, 'm) manager \<Rightarrow> int \<Rightarrow> string \<Rightarrow> 's \<Rightarrow> 'm session_lookup \<times> 's" where
  "session_resolve M now token s =
     (if token = '''' then (SessionNotFound, s)
      else let i = mg_hash M token
        in case so_get (mg_ops M) i s of
             None \<Rightarrow> (SessionNotFound, s)
           | Some r \<Rightarrow>
               (case expiryReason (mg_policy M) r now of
                  Some reason \<Rightarrow> (SessionExpired reason, snd (so_delete (mg_ops M) i s))
                | None \<Rightarrow>
                    (Active r (toPrincipal r),
                     if now - se_lastSeenAt r \<ge> sp_touchInterval (mg_policy M) then so_touch (mg_ops M) i now s else s)))"

definition session_regenerate ::
  "('s, 'm) manager \<Rightarrow> int \<Rightarrow> string \<Rightarrow> string \<Rightarrow> 'm session_changes \<Rightarrow> string \<Rightarrow> 's \<Rightarrow> 'm issued_session option \<times> 's" where
  "session_regenerate M now newToken csrf ch token s =
     (let i = mg_hash M token
      in case so_get (mg_ops M) i s of
           None \<Rightarrow> (None, s)
         | Some r \<Rightarrow>
             if expiryReason (mg_policy M) r now \<noteq> None then (None, snd (so_delete (mg_ops M) i s))
             else (case mint M newToken csrf
                     \<lparr>ci_subject = override (cg_subject ch) (se_subject r),
                      ci_amr = override_opt (cg_amr ch) (se_amr r),
                      ci_acr = (let a = override_opt (cg_acr ch) (se_acr r) in if present a then a else None),
                      ci_authTime = Some (override (cg_authTime ch) (se_authTime r)),
                      ci_metadata = override_opt (cg_metadata ch) (se_metadata r)\<rparr> now s of
                     (issued, s1) \<Rightarrow> (Some issued, snd (so_delete (mg_ops M) i s1))))"

definition session_revoke :: "('s, 'm) manager \<Rightarrow> string \<Rightarrow> 's \<Rightarrow> bool \<times> 's" where
  "session_revoke M token s = so_delete (mg_ops M) (mg_hash M token) s"

definition session_revokeAll :: "('s, 'm) manager \<Rightarrow> string \<Rightarrow> 's \<Rightarrow> nat \<times> 's" where
  "session_revokeAll M subject s = so_deleteBySubject (mg_ops M) subject s"

section \<open>Runs of the manager\<close>

datatype 'm session_action =
    AResolve int string
  | ACreate int string string "'m create_input"
  | ARegenerate int string string "'m session_changes" string
  | ARevoke string
  | ARevokeAll string

definition session_act :: "('s, 'm) manager \<Rightarrow> 'm session_action \<Rightarrow> 's \<Rightarrow> 's" where
  "session_act M a s = (case a of
     AResolve t token \<Rightarrow> snd (session_resolve M t token s)
   | ACreate t token csrf inp \<Rightarrow> snd (mint M token csrf inp t s)
   | ARegenerate t newToken csrf ch token \<Rightarrow> snd (session_regenerate M t newToken csrf ch token s)
   | ARevoke token \<Rightarrow> snd (session_revoke M token s)
   | ARevokeAll subject \<Rightarrow> snd (session_revokeAll M subject s))"

definition session_acts :: "('s, 'm) manager \<Rightarrow> 'm session_action list \<Rightarrow> 's \<Rightarrow> 's" where
  "session_acts M acts s = foldl (\<lambda>s a. session_act M a s) s acts"

text \<open>The token an action mints does not hash to \<open>i\<close>.\<close>

definition mints_other :: "('s, 'm) manager \<Rightarrow> string \<Rightarrow> 'm session_action \<Rightarrow> bool" where
  "mints_other M i a = (case a of
     ACreate t token csrf inp \<Rightarrow> mg_hash M token \<noteq> i
   | ARegenerate t newToken csrf ch token \<Rightarrow> mg_hash M newToken \<noteq> i
   | _ \<Rightarrow> True)"

text \<open>The outcomes of resolving one token at a list of times.\<close>

fun resolve_all :: "('s, 'm) manager \<Rightarrow> string \<Rightarrow> int list \<Rightarrow> 's \<Rightarrow> 'm session_lookup list \<times> 's" where
  "resolve_all M token [] s = ([], s)"
| "resolve_all M token (t # ts) s =
     (case session_resolve M t token s of (l, s1) \<Rightarrow>
        (case resolve_all M token ts s1 of (ls, s2) \<Rightarrow> (l # ls, s2)))"

definition is_active :: "'m session_lookup \<Rightarrow> bool" where
  "is_active l = (case l of Active _ _ \<Rightarrow> True | _ \<Rightarrow> False)"

definition expires_by :: "('s, 'm) session_ops \<Rightarrow> int \<Rightarrow> string \<Rightarrow> 's \<Rightarrow> bool" where
  "expires_by ops e i s = (case so_get ops i s of None \<Rightarrow> True | Some r \<Rightarrow> se_absoluteExpiresAt r \<le> e)"

section \<open>What the manager needs of a store\<close>

locale session_backend =
  fixes ops :: "('s, 'm) session_ops"
  assumes get_create: "so_create ops r s = (r', s') \<Longrightarrow>
      r' = r \<and> so_get ops i s' = (if i = se_id r then Some r else so_get ops i s)"
    and get_touch: "so_get ops i (so_touch ops j t s) =
      (if i = j then map_option (\<lambda>r. r\<lparr>se_lastSeenAt := t\<rparr>) (so_get ops i s) else so_get ops i s)"
    and get_delete: "so_get ops i (snd (so_delete ops j s)) = (if i = j then None else so_get ops i s)"
    and get_deleteBySubject:
      "so_get ops i (snd (so_deleteBySubject ops subj s)) = None \<or> so_get ops i (snd (so_deleteBySubject ops subj s)) = so_get ops i s"
begin

lemma get_mint: "mg_ops M = ops \<Longrightarrow> mint M token csrf inp t s = (x, s') \<Longrightarrow>
    is_token x = token \<and> is_record x = mint_record M token csrf inp t \<and>
    so_get ops i s' = (if i = mg_hash M token then Some (mint_record M token csrf inp t) else so_get ops i s)"
  using get_create [of "mint_record M token csrf inp t" s]
  by (auto simp: mint_def mint_record_def Let_def split: prod.splits)

lemma resolve_active:
  assumes "mg_ops M = ops" "session_resolve M t token s = (Active r p, s')"
  shows "so_get ops (mg_hash M token) s = Some r \<and> expiryReason (mg_policy M) r t = None \<and>
    s' = (if t - se_lastSeenAt r \<ge> sp_touchInterval (mg_policy M) then so_touch ops (mg_hash M token) t s else s)"
  using assms by (auto simp: session_resolve_def Let_def split: if_splits option.splits)

lemma expires_by_act:
  assumes M: "mg_ops M = ops" and "expires_by ops e i s" "mints_other M i a"
  shows "expires_by ops e i (session_act M a s)"
proof -
  have del: "expires_by ops e i s' \<Longrightarrow> expires_by ops e i (snd (so_delete ops j s'))" for j s'
    by (simp add: expires_by_def get_delete)
  have mint: "expires_by ops e i (snd (mint M token csrf inp t s))" if "mg_hash M token \<noteq> i" for token csrf inp t
    using get_mint [OF M, of token csrf inp t s] that assms(2)
    by (cases "mint M token csrf inp t s") (auto simp: expires_by_def split: option.splits)
  show ?thesis
  proof (cases a)
    case (AResolve t token)
    then show ?thesis
      using assms(2)
      by (auto simp: M session_act_def session_resolve_def Let_def expires_by_def get_touch get_delete split: option.splits)
  next
    case (ARegenerate t nt csrf ch token)
    with assms(3) have "mg_hash M nt \<noteq> i" by (simp add: mints_other_def)
    with ARegenerate show ?thesis
      using assms(2) del mint [of nt]
      by (auto simp: M session_act_def session_regenerate_def Let_def case_prod_beta split: option.split)
  next
    case (ARevokeAll subj)
    then show ?thesis
      using assms(2) get_deleteBySubject [of i subj s]
      by (auto simp: M session_act_def session_revokeAll_def expires_by_def split: option.splits)
  qed (use assms(2,3) mint del in \<open>auto simp: M session_act_def session_revoke_def mints_other_def\<close>)
qed

lemma expires_by_acts:
  "mg_ops M = ops \<Longrightarrow> expires_by ops e i s \<Longrightarrow> \<forall>a \<in> set acts. mints_other M i a \<Longrightarrow> expires_by ops e i (session_acts M acts s)"
proof (induction acts arbitrary: s)
  case (Cons a acts)
  then have "expires_by ops e i (session_act M a s)" by (intro expires_by_act) simp_all
  with Cons show ?case by (simp add: session_acts_def)
qed (simp add: session_acts_def)

lemma absolute_ceiling:
  assumes M: "mg_ops M = ops" and mint: "mint M token csrf inp t s = (x, s1)"
    and acts: "\<forall>a \<in> set acts. mints_other M (mg_hash M token) a"
    and late: "override (ci_authTime inp) t + sp_absoluteTimeout (mg_policy M) \<le> t'"
  shows "\<not> is_active (fst (session_resolve M t' token (session_acts M acts s1)))"
proof -
  define e where "e = override (ci_authTime inp) t + sp_absoluteTimeout (mg_policy M)"
  have "expires_by ops e (mg_hash M token) s1"
    using get_mint [OF M mint, of "mg_hash M token"] by (simp add: expires_by_def mint_record_def e_def Let_def)
  note e = expires_by_acts [OF M this acts]
  show ?thesis
  proof
    assume "is_active (fst (session_resolve M t' token (session_acts M acts s1)))"
    then obtain r p s' where "session_resolve M t' token (session_acts M acts s1) = (Active r p, s')"
      by (cases "session_resolve M t' token (session_acts M acts s1)") (auto simp: is_active_def split: session_lookup.splits)
    from resolve_active [OF M this] e late show False
      by (auto simp: expires_by_def expiryReason_def e_def split: if_splits)
  qed
qed

lemma regenerate_swaps:
  assumes M: "mg_ops M = ops" and reg: "session_regenerate M t nt csrf ch token s = (Some x, s')"
    and fresh: "mg_hash M nt \<noteq> mg_hash M token"
  shows "session_resolve M t' token s' = (SessionNotFound, s') \<and> is_token x = nt \<and>
    so_get ops (mg_hash M nt) s' = Some (is_record x)"
proof -
  from reg M obtain r inp s1 where "so_get ops (mg_hash M token) s = Some r" and mint: "mint M nt csrf inp t s = (x, s1)"
    and s': "s' = snd (so_delete ops (mg_hash M token) s1)"
    by (auto simp: session_regenerate_def Let_def split: option.splits if_splits prod.splits)
  then have "so_get ops (mg_hash M token) s' = None" "so_get ops (mg_hash M nt) s' = Some (is_record x)"
    using fresh get_mint [OF M mint] by (simp_all add: get_delete)
  then show ?thesis using M get_mint [OF M mint] by (simp add: session_resolve_def)
qed

lemma idle_cutoff:
  assumes M: "mg_ops M = ops" and pol: "0 < sp_inactivityTimeout (mg_policy M)" "sp_inactivityTimeout (mg_policy M) \<le> sp_touchInterval (mg_policy M)"
    and r: "so_get ops (mg_hash M token) s = Some r"
  shows "se_lastSeenAt r + sp_inactivityTimeout (mg_policy M) \<le> t \<Longrightarrow>
    \<not> is_active (fst (session_resolve M t token (snd (resolve_all M token ts s))))"
  using r
proof (induction ts arbitrary: s)
  case Nil
  then show ?case
    using resolve_active [OF M, of t token s] pol
    by (cases "session_resolve M t token s") (auto simp: is_active_def expiryReason_def split: session_lookup.splits if_splits)
next
  case (Cons x ts)
  obtain l s1 where res: "session_resolve M x token s = (l, s1)" by fastforce
  show ?case
  proof (cases "s1 = s")
    case True
    with Cons res show ?thesis by (simp add: case_prod_beta)
  next
    case False
    have none: "so_get ops (mg_hash M token) s2 = None \<Longrightarrow> \<not> is_active (fst (session_resolve M t token (snd (resolve_all M token us s2))))" for us s2
    proof (induction us arbitrary: s2)
      case (Cons u us)
      then have "session_resolve M u token s2 = (SessionNotFound, s2)" using M by (simp add: session_resolve_def)
      with Cons show ?case by (simp add: case_prod_beta)
    qed (use M in \<open>simp add: session_resolve_def is_active_def\<close>)
    have "so_get ops (mg_hash M token) s1 = None"
      using False res Cons.prems M pol get_delete [of "mg_hash M token" "mg_hash M token" s]
      by (auto simp: session_resolve_def Let_def expiryReason_def split: if_splits option.splits)
    with none res show ?thesis by (simp add: case_prod_beta)
  qed
qed

end

text \<open>A store that also finds the sessions of a subject, as long as no id is used twice.\<close>

locale indexed_session_backend = session_backend ops
  for ops :: "('s, 'm) session_ops" +
  fixes ok :: "'s \<Rightarrow> bool"
  assumes deleteBySubject_exact: "ok s \<Longrightarrow> so_get ops i s = Some r \<Longrightarrow>
      so_get ops i (snd (so_deleteBySubject ops subj s)) = (if se_subject r = subj then None else Some r)"
    and ok_create: "ok s \<Longrightarrow> so_get ops (se_id r) s = None \<Longrightarrow> ok (snd (so_create ops r s))"
    and ok_touch: "ok s \<Longrightarrow> ok (so_touch ops i t s)"
    and ok_delete: "ok s \<Longrightarrow> ok (snd (so_delete ops i s))"
    and ok_deleteBySubject: "ok s \<Longrightarrow> ok (snd (so_deleteBySubject ops subj s))"
begin

lemma ok_act:
  assumes M: "mg_ops M = ops" and ok: "ok s" and fresh: "\<forall>token. mints_other M (mg_hash M token) a \<or> so_get ops (mg_hash M token) s = None"
  shows "ok (session_act M a s)"
proof -
  have mint: "ok (snd (mint M token csrf inp t s))" if "so_get ops (mg_hash M token) s = None" for token csrf inp t
    using ok_create [OF ok, of "mint_record M token csrf inp t"] that
    by (simp add: mint_def M mint_record_def Let_def case_prod_beta)
  show ?thesis
  proof (cases a)
    case (AResolve t token)
    then show ?thesis
      using ok by (auto simp: M session_act_def session_resolve_def Let_def ok_touch ok_delete split: option.split)
  next
    case (ARegenerate t nt csrf ch token)
    with fresh have "so_get ops (mg_hash M nt) s = None" by (auto simp: mints_other_def)
    with ARegenerate show ?thesis
      using ok mint [of nt]
      by (auto simp: M session_act_def session_regenerate_def Let_def case_prod_beta ok_delete split: option.split)
  qed (use assms mint in \<open>auto simp: M session_act_def session_revoke_def session_revokeAll_def mints_other_def ok_delete ok_deleteBySubject\<close>)
qed

lemma revoke_all_exact:
  assumes "mg_ops M = ops" "ok s"
  shows "so_get ops i (snd (session_revokeAll M subj s)) =
    (case so_get ops i s of None \<Rightarrow> None | Some r \<Rightarrow> if se_subject r = subj then None else Some r)"
proof (cases "so_get ops i s")
  case None
  then show ?thesis using assms(1) get_deleteBySubject [of i subj s] by (auto simp: session_revokeAll_def)
next
  case (Some r)
  then show ?thesis using assms(1) deleteBySubject_exact [OF assms(2) Some] by (simp add: session_revokeAll_def)
qed

end

section \<open>The in-memory store is such a store\<close>

definition memory_sessions :: "('m session_store, 'm) session_ops" where
  "memory_sessions = \<lparr>so_get = session_get, so_create = session_create, so_touch = session_touch,
     so_delete = session_delete, so_deleteBySubject = session_deleteBySubject\<rparr>"

lemma memory_sessions_sel [simp]:
  "so_get memory_sessions = session_get" "so_create memory_sessions = session_create"
  "so_touch memory_sessions = session_touch" "so_delete memory_sessions = session_delete"
  "so_deleteBySubject memory_sessions = session_deleteBySubject"
  by (simp_all add: memory_sessions_def)

lemma delete_counting_get: "js_get (snd (delete_counting ids m)) k = (if k \<in> set ids then None else js_get m k)"
proof -
  have "js_get (snd (foldl (\<lambda>(n, m) i. (if js_has m i then n + 1 else n, js_del i m)) (a, m) ids)) k =
      (if k \<in> set ids then None else js_get m k)" for a :: nat
    by (induction ids arbitrary: a m) auto
  then show ?thesis by (simp add: delete_counting_def)
qed

lemma multi_add_get: "js_get (multi_add k v m) l =
    (if l = k then Some (set_add v (case js_get m k of None \<Rightarrow> [] | Some s \<Rightarrow> s)) else js_get m l)"
  by (simp add: multi_add_def)

lemma multi_remove_get: "js_get (multi_remove k v m) l =
    (if l = k then map_option (set_del v) (js_get m k) else js_get m l)"
  by (auto simp: multi_remove_def split: option.split)

definition sessions_ok :: "'m session_store \<Rightarrow> bool" where
  "sessions_ok st \<longleftrightarrow>
     (\<forall>i r. js_get (sst_sessions st) i = Some r \<longrightarrow> se_id r = i \<and>
        (\<exists>ids. js_get (sst_bySubject st) (se_subject r) = Some ids \<and> i \<in> set ids)) \<and>
     (\<forall>subj ids i. js_get (sst_bySubject st) subj = Some ids \<longrightarrow> i \<in> set ids \<longrightarrow>
        (\<exists>r. js_get (sst_sessions st) i = Some r \<and> se_subject r = subj))"

lemma sessions_okD:
  "sessions_ok st \<Longrightarrow> js_get (sst_sessions st) i = Some r \<Longrightarrow> se_id r = i"
  "sessions_ok st \<Longrightarrow> js_get (sst_sessions st) i = Some r \<Longrightarrow> \<exists>ids. js_get (sst_bySubject st) (se_subject r) = Some ids \<and> i \<in> set ids"
  "sessions_ok st \<Longrightarrow> js_get (sst_bySubject st) subj = Some ids \<Longrightarrow> i \<in> set ids \<Longrightarrow>
     \<exists>r. js_get (sst_sessions st) i = Some r \<and> se_subject r = subj"
  by (simp_all add: sessions_ok_def)

lemma sessions_okI:
  "(\<And>i r. js_get (sst_sessions st) i = Some r \<Longrightarrow> se_id r = i \<and> (\<exists>ids. js_get (sst_bySubject st) (se_subject r) = Some ids \<and> i \<in> set ids)) \<Longrightarrow>
   (\<And>subj ids i. js_get (sst_bySubject st) subj = Some ids \<Longrightarrow> i \<in> set ids \<Longrightarrow> \<exists>r. js_get (sst_sessions st) i = Some r \<and> se_subject r = subj) \<Longrightarrow>
   sessions_ok st"
  by (simp add: sessions_ok_def)

lemma sessions_ok_create:
  assumes ok: "sessions_ok s" and new: "js_get (sst_sessions s) (se_id r) = None"
  shows "sessions_ok (snd (session_create r s))"
proof (rule sessions_okI)
  fix i q assume "js_get (sst_sessions (snd (session_create r s))) i = Some q"
  then show "se_id q = i \<and> (\<exists>ids. js_get (sst_bySubject (snd (session_create r s))) (se_subject q) = Some ids \<and> i \<in> set ids)"
    using sessions_okD(1,2) [OF ok, of i q] by (auto simp: session_create_def multi_add_get split: if_splits)
next
  fix subj ids i assume ids: "js_get (sst_bySubject (snd (session_create r s))) subj = Some ids" "i \<in> set ids"
  show "\<exists>q. js_get (sst_sessions (snd (session_create r s))) i = Some q \<and> se_subject q = subj"
  proof (cases "i = se_id r")
    case True
    have "se_subject r = subj"
    proof (rule ccontr)
      assume "se_subject r \<noteq> subj"
      with ids sessions_okD(3) [OF ok, of subj ids i] new True show False
        by (simp add: session_create_def multi_add_get)
    qed
    with True show ?thesis by (simp add: session_create_def)
  next
    case False
    have "\<exists>ids'. js_get (sst_bySubject s) subj = Some ids' \<and> i \<in> set ids'"
      using ids False by (auto simp: session_create_def multi_add_get split: if_splits option.splits)
    with sessions_okD(3) [OF ok, of subj _ i] False show ?thesis by (auto simp: session_create_def)
  qed
qed

lemma sessions_ok_delete:
  assumes ok: "sessions_ok s"
  shows "sessions_ok (snd (session_delete i s))"
proof (cases "js_get (sst_sessions s) i")
  case (Some r)
  show ?thesis
  proof (rule sessions_okI)
    fix j q assume "js_get (sst_sessions (snd (session_delete i s))) j = Some q"
    then show "se_id q = j \<and> (\<exists>ids. js_get (sst_bySubject (snd (session_delete i s))) (se_subject q) = Some ids \<and> j \<in> set ids)"
      using Some sessions_okD(1,2) [OF ok, of j q] by (auto simp: session_delete_def multi_remove_get split: if_splits)
  next
    fix subj ids j assume ids: "js_get (sst_bySubject (snd (session_delete i s))) subj = Some ids" "j \<in> set ids"
    then obtain ids' where ids': "js_get (sst_bySubject s) subj = Some ids'" "j \<in> set ids'" "subj = se_subject r \<longrightarrow> j \<noteq> i"
      using Some by (auto simp: session_delete_def multi_remove_get split: if_splits)
    with sessions_okD(3) [OF ok ids'(1,2)] Some
    show "\<exists>q. js_get (sst_sessions (snd (session_delete i s))) j = Some q \<and> se_subject q = subj"
      by (auto simp: session_delete_def)
  qed
qed (simp add: session_delete_def ok)

lemma deleteBySubject_sessions:
  assumes "js_get (sst_bySubject s) subj = Some ids"
  shows "sst_bySubject (snd (session_deleteBySubject subj s)) = js_del subj (sst_bySubject s)"
    and "js_get (sst_sessions (snd (session_deleteBySubject subj s))) i = (if i \<in> set ids then None else js_get (sst_sessions s) i)"
  using assms delete_counting_get [of ids "sst_sessions s" i]
  by (simp_all add: session_deleteBySubject_def case_prod_beta)

lemma sessions_ok_deleteBySubject:
  assumes ok: "sessions_ok s"
  shows "sessions_ok (snd (session_deleteBySubject subj s))"
proof (cases "js_get (sst_bySubject s) subj")
  case (Some ids)
  note d = deleteBySubject_sessions [OF Some]
  show ?thesis
  proof (rule sessions_okI)
    fix j q assume "js_get (sst_sessions (snd (session_deleteBySubject subj s))) j = Some q"
    then have "j \<notin> set ids" "js_get (sst_sessions s) j = Some q" by (auto simp: d split: if_splits)
    with sessions_okD(1,2) [OF ok this(2)] Some
    show "se_id q = j \<and> (\<exists>ids. js_get (sst_bySubject (snd (session_deleteBySubject subj s))) (se_subject q) = Some ids \<and> j \<in> set ids)"
      by (auto simp: d(1))
  next
    fix sub' ids' j assume ids': "js_get (sst_bySubject (snd (session_deleteBySubject subj s))) sub' = Some ids'" "j \<in> set ids'"
    then have "sub' \<noteq> subj" and old: "js_get (sst_bySubject s) sub' = Some ids'" by (auto simp: d(1) split: if_splits)
    with sessions_okD(3) [OF ok old ids'(2)] sessions_okD(3) [OF ok Some, of j]
    show "\<exists>q. js_get (sst_sessions (snd (session_deleteBySubject subj s))) j = Some q \<and> se_subject q = sub'"
      by (auto simp: d(2))
  qed
qed (simp add: session_deleteBySubject_def ok)

lemma deleteBySubject_exact:
  assumes ok: "sessions_ok s" and r: "js_get (sst_sessions s) i = Some r"
  shows "js_get (sst_sessions (snd (session_deleteBySubject subj s))) i = (if se_subject r = subj then None else Some r)"
proof (cases "js_get (sst_bySubject s) subj")
  case None
  with sessions_okD(2) [OF ok r] r show ?thesis by (auto simp: session_deleteBySubject_def)
next
  case (Some ids)
  with sessions_okD(2) [OF ok r] sessions_okD(3) [OF ok Some, of i] r show ?thesis
    by (auto simp: deleteBySubject_sessions(2) [OF Some])
qed

interpretation mem_sessions: indexed_session_backend "memory_sessions :: ('m session_store, 'm) session_ops" sessions_ok
proof unfold_locales
  fix r :: "'m session_record" and s s' :: "'m session_store" and r' i
  assume "so_create memory_sessions r s = (r', s')"
  then show "r' = r \<and> so_get memory_sessions i s' = (if i = se_id r then Some r else so_get memory_sessions i s)"
    by (auto simp: session_create_def session_get_def)
next
  fix i j t and s :: "'m session_store"
  show "so_get memory_sessions i (so_touch memory_sessions j t s) =
      (if i = j then map_option (\<lambda>r. r\<lparr>se_lastSeenAt := t\<rparr>) (so_get memory_sessions i s) else so_get memory_sessions i s)"
    by (auto simp: session_touch_def session_get_def split: option.split)
next
  fix i j and s :: "'m session_store"
  show "so_get memory_sessions i (snd (so_delete memory_sessions j s)) = (if i = j then None else so_get memory_sessions i s)"
    by (auto simp: session_delete_def session_get_def split: option.split)
next
  fix i subj and s :: "'m session_store"
  show "so_get memory_sessions i (snd (so_deleteBySubject memory_sessions subj s)) = None \<or>
      so_get memory_sessions i (snd (so_deleteBySubject memory_sessions subj s)) = so_get memory_sessions i s"
    using delete_counting_get [of "the (js_get (sst_bySubject s) subj)" "sst_sessions s" i]
    by (auto simp: session_deleteBySubject_def session_get_def case_prod_beta split: option.split)
next
  fix s :: "'m session_store" and i r subj
  assume "sessions_ok s" "so_get memory_sessions i s = Some r"
  then show "so_get memory_sessions i (snd (so_deleteBySubject memory_sessions subj s)) = (if se_subject r = subj then None else Some r)"
    by (simp add: session_get_def deleteBySubject_exact)
next
  fix s :: "'m session_store" and r :: "'m session_record"
  assume "sessions_ok s" "so_get memory_sessions (se_id r) s = None"
  then show "sessions_ok (snd (so_create memory_sessions r s))" by (simp add: session_get_def sessions_ok_create)
next
  fix s :: "'m session_store" and i t
  assume ok: "sessions_ok s"
  show "sessions_ok (so_touch memory_sessions i t s)"
  proof (rule sessions_okI)
    fix j q assume "js_get (sst_sessions (so_touch memory_sessions i t s)) j = Some q"
    then show "se_id q = j \<and> (\<exists>ids. js_get (sst_bySubject (so_touch memory_sessions i t s)) (se_subject q) = Some ids \<and> j \<in> set ids)"
      using sessions_okD(1,2) [OF ok] by (auto simp: session_touch_def split: option.splits if_splits)
  next
    fix subj ids j assume "js_get (sst_bySubject (so_touch memory_sessions i t s)) subj = Some ids" "j \<in> set ids"
    then show "\<exists>q. js_get (sst_sessions (so_touch memory_sessions i t s)) j = Some q \<and> se_subject q = subj"
      using sessions_okD(3) [OF ok, of subj ids j] by (auto simp: session_touch_def split: option.splits)
  qed
qed (simp_all add: sessions_ok_delete sessions_ok_deleteBySubject)

section \<open>Properties\<close>

text \<open>one authentication is bounded: whatever is done with a session after it was created, by resolving,
  regenerating and revoking any sessions, its token is not active any more once the absolute timeout has
  passed since the authentication.\<close>
theorem session_absolute_ceiling:
  assumes "mg_ops M = memory_sessions" "mint M token csrf inp t s = (x, s1)"
    and "\<forall>a \<in> set acts. mints_other M (mg_hash M token) a"
    and "override (ci_authTime inp) t + sp_absoluteTimeout (mg_policy M) \<le> t'"
  shows "\<not> is_active (fst (session_resolve M t' token (session_acts M acts s1)))"
  by (rule mem_sessions.absolute_ceiling [OF assms])

definition demo_manager :: "int \<Rightarrow> int \<Rightarrow> (unit session_store, unit) manager" where
  "demo_manager idle touch = \<lparr>mg_ops = memory_sessions, mg_hash = (\<lambda>t. t @ ''#''),
     mg_policy = \<lparr>sp_absoluteTimeout = 1000, sp_inactivityTimeout = idle, sp_touchInterval = touch\<rparr>, mg_csrf = True\<rparr>"

definition demo_input :: "string \<Rightarrow> unit create_input" where
  "demo_input subj = \<lparr>ci_subject = subj, ci_amr = None, ci_acr = None, ci_authTime = None, ci_metadata = None\<rparr>"

lemma session_absolute_ceiling_witness:
  "\<not> is_active (fst (session_resolve (demo_manager 0 60) 1010 ''tok''
     (session_acts (demo_manager 0 60) [AResolve 500 ''tok'', ARevoke ''x'', AResolve 999 ''tok'']
       (snd (mint (demo_manager 0 60) ''tok'' ''c'' (demo_input ''u'') 10 sessions_empty)))))"
proof -
  obtain x s1 where m: "mint (demo_manager 0 60) ''tok'' ''c'' (demo_input ''u'') 10 sessions_empty = (x, s1)" by fastforce
  from session_absolute_ceiling [OF _ m, of "[AResolve 500 ''tok'', ARevoke ''x'', AResolve 999 ''tok'']" 1010] m show ?thesis
    by (simp add: demo_manager_def demo_input_def mints_other_def override_def)
qed

text \<open>regeneration prevents fixation: after it the old token finds nothing at any time, and the new token's
  record is the one just issued.\<close>
theorem regenerate_kills_old_token:
  assumes "mg_ops M = memory_sessions" "session_regenerate M t nt csrf ch token s = (Some x, s')" "mg_hash M nt \<noteq> mg_hash M token"
  shows "session_resolve M t' token s' = (SessionNotFound, s') \<and> is_token x = nt \<and> session_get (mg_hash M nt) s' = Some (is_record x)"
  using mem_sessions.regenerate_swaps [OF assms] by simp

definition no_changes :: "unit session_changes" where
  "no_changes = \<lparr>cg_subject = None, cg_amr = None, cg_acr = None, cg_authTime = None, cg_metadata = None\<rparr>"

lemma regenerate_kills_old_token_witness:
  "\<exists>x s'. session_regenerate (demo_manager 0 60) 20 ''new'' ''c'' no_changes ''tok''
       (snd (mint (demo_manager 0 60) ''tok'' ''c'' (demo_input ''u'') 10 sessions_empty)) = (Some x, s') \<and>
     fst (session_resolve (demo_manager 0 60) 21 ''tok'' s') = SessionNotFound"
proof -
  obtain x s' where r: "session_regenerate (demo_manager 0 60) 20 ''new'' ''c'' no_changes ''tok''
       (snd (mint (demo_manager 0 60) ''tok'' ''c'' (demo_input ''u'') 10 sessions_empty)) = (Some x, s')"
    by (simp add: session_regenerate_def mint_def demo_manager_def demo_input_def mint_record_def session_create_def
        session_get_def sessions_empty_def expiryReason_def override_def Let_def)
  from regenerate_kills_old_token [OF _ r, of 21] r show ?thesis by (simp add: demo_manager_def)
qed

text \<open>a touch interval that is not shorter than the inactivity timeout makes the timeout absolute: however
  often the session is used, it ends one inactivity timeout after it was last seen.\<close>
theorem idle_timeout_ignores_activity:
  assumes "mg_ops M = memory_sessions" "0 < sp_inactivityTimeout (mg_policy M)"
    and "sp_inactivityTimeout (mg_policy M) \<le> sp_touchInterval (mg_policy M)"
    and "session_get (mg_hash M token) s = Some r" "se_lastSeenAt r + sp_inactivityTimeout (mg_policy M) \<le> t"
  shows "\<not> is_active (fst (session_resolve M t token (snd (resolve_all M token ts s))))"
  using mem_sessions.idle_cutoff [OF assms(1-3), of token s r t ts] assms(4,5) by simp

lemma idle_timeout_ignores_activity_witness:
  "\<not> is_active (fst (session_resolve (demo_manager 60 60) 70 ''tok'' (snd (resolve_all (demo_manager 60 60) ''tok'' [30, 50, 69]
       (snd (mint (demo_manager 60 60) ''tok'' ''c'' (demo_input ''u'') 10 sessions_empty))))))"
  by (rule idle_timeout_ignores_activity [where r = "mint_record (demo_manager 60 60) ''tok'' ''c'' (demo_input ''u'') 10"])
    (simp_all add: demo_manager_def mint_def mint_record_def session_create_def session_get_def sessions_empty_def Let_def)

text \<open>The reachable stores, when no fresh token collides with a stored id.\<close>

inductive sessions_reach :: "('m session_store, 'm) manager \<Rightarrow> 'm session_store \<Rightarrow> bool" for M where
  start: "sessions_reach M sessions_empty"
| act: "sessions_reach M s \<Longrightarrow> \<forall>token. mints_other M (mg_hash M token) a \<or> session_get (mg_hash M token) s = None \<Longrightarrow>
    sessions_reach M (session_act M a s)"

lemma sessions_reach_ok: "sessions_reach M s \<Longrightarrow> mg_ops M = memory_sessions \<Longrightarrow> sessions_ok s"
proof (induction rule: sessions_reach.induct)
  case start
  show ?case by (simp add: sessions_ok_def sessions_empty_def)
next
  case (act s a)
  then show ?case by (intro mem_sessions.ok_act) simp_all
qed

text \<open>signing out everywhere is exact: revoking a subject in any reachable store removes every session of the
  subject and leaves every other session as it was.\<close>
theorem sign_out_everywhere:
  assumes "sessions_reach M s" "mg_ops M = memory_sessions"
  shows "session_get i (snd (session_revokeAll M subj s)) =
    (case session_get i s of None \<Rightarrow> None | Some r \<Rightarrow> if se_subject r = subj then None else Some r)"
  using mem_sessions.revoke_all_exact [OF assms(2) sessions_reach_ok [OF assms], of i subj] by simp

lemma sign_out_everywhere_witness:
  "session_get ''a#'' (snd (session_revokeAll (demo_manager 0 60) ''u''
     (session_act (demo_manager 0 60) (ACreate 10 ''a'' ''c'' (demo_input ''u'')) sessions_empty))) = None"
proof -
  have "sessions_reach (demo_manager 0 60) (session_act (demo_manager 0 60) (ACreate 10 ''a'' ''c'' (demo_input ''u'')) sessions_empty)"
    by (intro sessions_reach.act sessions_reach.start) (simp add: session_get_def sessions_empty_def)
  from sign_out_everywhere [OF this, of "''a#''" "''u''"] show ?thesis
    by (simp add: demo_manager_def session_act_def mint_def mint_record_def session_create_def session_get_def
        demo_input_def Let_def)
qed

end
