(* ===== verification/RefreshTokens.thy ===== *)
theory RefreshTokens
  imports LoginSessions
begin

text \<open>
  Refresh tokens with rotation and reuse detection:
  \<^verbatim>\<open>di-framework-auth/src/tokens/refresh.ts\<close>.

  The service is written over the operations of a refresh-token store, whose contract is the
  locale \<open>refresh_backend\<close>; the in-memory store is interpreted as one.  \<open>rotate\<close> awaits between
  reading the presented token and the store's compare-and-swap, so it has two halves and the
  interleavings of several requests are lists of store calls.  Tokens are strings, \<open>hash\<close> is the
  SHA-256 of WebCrypto.
\<close>

section \<open>The service\<close>

record ('s, 'm) refresh_ops =
  ro_issue :: "'m refresh_record \<Rightarrow> 's \<Rightarrow> 'm refresh_record \<times> 's"
  ro_find :: "string \<Rightarrow> 's \<Rightarrow> 'm refresh_record option"
  ro_rotate :: "int \<Rightarrow> string \<Rightarrow> 'm refresh_record \<Rightarrow> int \<Rightarrow> 's \<Rightarrow> 'm rotate_result \<times> 's"
  ro_revokeFamily :: "string \<Rightarrow> 's \<Rightarrow> nat \<times> 's"
  ro_revokeBySubject :: "string \<Rightarrow> 's \<Rightarrow> nat \<times> 's"

record ('s, 'm) refresh_service =
  rv_ops :: "('s, 'm) refresh_ops"
  rv_hash :: "string \<Rightarrow> string"
  rv_ttl :: int

record 'm issue_input =
  ii_subject :: string
  ii_authTime :: "int option"
  ii_amr :: "string list option"
  ii_familyId :: "string option"
  ii_metadata :: "'m option"

record 'm issued_refresh =
  ir_token :: string
  ir_record :: "'m refresh_record"

record 'm refreshed =
  rf_token :: string
  rf_record :: "'m refresh_record"
  rf_principal :: "'m principal"

datatype refresh_error = InvalidToken | TokenReused string | TokenExpired int

definition refresh_mint :: "('s, 'm) refresh_service \<Rightarrow> string \<Rightarrow> string \<Rightarrow> string \<Rightarrow> int \<Rightarrow> string list option \<Rightarrow> 'm option \<Rightarrow> int \<Rightarrow> 'm refresh_record" where
  "refresh_mint V token subject familyId authTime amr metadata t =
     \<lparr>rt_id = rv_hash V token, rt_subject = subject, rt_familyId = familyId, rt_createdAt = t,
      rt_expiresAt = t + rv_ttl V, rt_rotatedAt = None, rt_authTime = authTime, rt_amr = amr, rt_metadata = metadata\<rparr>"

text \<open>\<open>freshFamily\<close> is what \<^verbatim>\<open>randomId()\<close> returns.\<close>

definition service_issue :: "('s, 'm) refresh_service \<Rightarrow> int \<Rightarrow> string \<Rightarrow> string \<Rightarrow> 'm issue_input \<Rightarrow> 's \<Rightarrow> 'm issued_refresh \<times> 's" where
  "service_issue V now token freshFamily inp s =
     (case ro_issue (rv_ops V)
         (refresh_mint V token (ii_subject inp) (override (ii_familyId inp) freshFamily) (override (ii_authTime inp) now)
            (ii_amr inp) (ii_metadata inp) now) s of
        (r, s1) \<Rightarrow> (\<lparr>ir_token = token, ir_record = r\<rparr>, s1))"

definition burnFamily :: "('s, 'm) refresh_service \<Rightarrow> 'm refresh_record \<Rightarrow> 's \<Rightarrow> refresh_error \<times> 's" where
  "burnFamily V r s = (TokenReused (rt_familyId r), snd (ro_revokeFamily (rv_ops V) (rt_familyId r) s))"

text \<open>Up to the compare-and-swap: the presented record, or the error.\<close>

definition rotate_begin :: "('s, 'm) refresh_service \<Rightarrow> int \<Rightarrow> string \<Rightarrow> 's \<Rightarrow> (refresh_error, 'm refresh_record) result \<times> 's" where
  "rotate_begin V now token s =
     (case ro_find (rv_ops V) (rv_hash V token) s of
        None \<Rightarrow> (Inl InvalidToken, s)
      | Some current \<Rightarrow>
          if rt_rotatedAt current \<noteq> None
          then (case burnFamily V current s of (e, s1) \<Rightarrow> (Inl e, s1))
          else if rt_expiresAt current \<le> now then (Inl (TokenExpired (rt_expiresAt current)), s)
          else (Inr current, s))"

definition successor :: "('s, 'm) refresh_service \<Rightarrow> int \<Rightarrow> string \<Rightarrow> 'm refresh_record \<Rightarrow> 'm refresh_record" where
  "successor V now nextToken current =
     refresh_mint V nextToken (rt_subject current) (rt_familyId current) (rt_authTime current) (rt_amr current) (rt_metadata current) now"

text \<open>From the compare-and-swap on; \<open>clock\<close> is the store's own reading of the time.\<close>

definition rotate_swap ::
  "('s, 'm) refresh_service \<Rightarrow> int \<Rightarrow> int \<Rightarrow> string \<Rightarrow> string \<Rightarrow> 'm refresh_record \<Rightarrow> 's \<Rightarrow> (refresh_error, 'm refreshed) result \<times> 's" where
  "rotate_swap V now clock token nextToken current s =
     (let next = successor V now nextToken current
      in case ro_rotate (rv_ops V) clock (rv_hash V token) next now s of
           (Rotated _, s1) \<Rightarrow>
             (Inr \<lparr>rf_token = nextToken, rf_record = next,
                   rf_principal = \<lparr>pr_sub = rt_subject next, pr_method = ''bearer'', pr_authTime = rt_authTime next,
                     pr_sessionId = None, pr_expiresAt = None, pr_amr = rt_amr next, pr_acr = None, pr_claims = None\<rparr>\<rparr>, s1)
         | (Reused r, s1) \<Rightarrow> (case burnFamily V r s1 of (e, s2) \<Rightarrow> (Inl e, s2))
         | (Expired r, s1) \<Rightarrow> (Inl (TokenExpired (rt_expiresAt r)), s1)
         | (NotFound, s1) \<Rightarrow> (Inl InvalidToken, s1))"

definition service_rotate ::
  "('s, 'm) refresh_service \<Rightarrow> int \<Rightarrow> int \<Rightarrow> string \<Rightarrow> string \<Rightarrow> 's \<Rightarrow> (refresh_error, 'm refreshed) result \<times> 's" where
  "service_rotate V now clock token nextToken s = (case rotate_begin V now token s of
     (Inl e, s1) \<Rightarrow> (Inl e, s1)
   | (Inr current, s1) \<Rightarrow> rotate_swap V now clock token nextToken current s1)"

definition service_revoke :: "('s, 'm) refresh_service \<Rightarrow> string \<Rightarrow> 's \<Rightarrow> 's" where
  "service_revoke V token s = (case ro_find (rv_ops V) (rv_hash V token) s of
     None \<Rightarrow> s
   | Some r \<Rightarrow> snd (ro_revokeFamily (rv_ops V) (rt_familyId r) s))"

definition service_revokeAll :: "('s, 'm) refresh_service \<Rightarrow> string \<Rightarrow> 's \<Rightarrow> nat \<times> 's" where
  "service_revokeAll V subject s = ro_revokeBySubject (rv_ops V) subject s"

section \<open>What the service needs of a store\<close>

definition family_gone :: "('s, 'm) refresh_ops \<Rightarrow> string \<Rightarrow> 's \<Rightarrow> bool" where
  "family_gone ops f s \<longleftrightarrow> (\<forall>i r. ro_find ops i s = Some r \<longrightarrow> rt_familyId r \<noteq> f)"

locale refresh_backend =
  fixes ops :: "('s, 'm) refresh_ops"
    and ok :: "'s \<Rightarrow> bool"
  assumes rotate_cases: "ro_rotate ops now i next t s = (res, s') \<Longrightarrow>
      (case ro_find ops i s of
         None \<Rightarrow> res = NotFound \<and> s' = s
       | Some r \<Rightarrow>
           if rt_rotatedAt r \<noteq> None then res = Reused r \<and> s' = s
           else if rt_expiresAt r \<le> now then res = Expired r \<and> s' = s
           else res = Rotated next \<and> (\<forall>j. ro_find ops j s' = (if j = rt_id next then Some next
                  else if j = i then Some (r\<lparr>rt_rotatedAt := Some t\<rparr>) else ro_find ops j s)))"
    and revokeFamily_gone: "ok s \<Longrightarrow> family_gone ops f (snd (ro_revokeFamily ops f s))"
    and ok_rotate: "ok s \<Longrightarrow> ok (snd (ro_rotate ops now i next t s))"
    and ok_revokeFamily: "ok s \<Longrightarrow> ok (snd (ro_revokeFamily ops f s))"
begin

lemma spent_burns:
  assumes "rv_ops V = ops" "ok s" "ro_find ops (rv_hash V token) s = Some r" "rt_rotatedAt r \<noteq> None"
  shows "\<exists>s'. service_rotate V now clock token nt s = (Inl (TokenReused (rt_familyId r)), s') \<and> family_gone ops (rt_familyId r) s'"
  using assms revokeFamily_gone [OF assms(2)] by (simp add: service_rotate_def rotate_begin_def burnFamily_def)

text \<open>The second half of a rotation that lost the race burns the family as well.\<close>

lemma lost_swap_burns:
  assumes "rv_ops V = ops" "ok s" "ro_find ops (rv_hash V token) s = Some r" "rt_rotatedAt r \<noteq> None"
  shows "\<exists>s'. rotate_swap V now clock token nt current s = (Inl (TokenReused (rt_familyId r)), s') \<and> family_gone ops (rt_familyId r) s'"
proof -
  obtain res s1 where run: "ro_rotate ops clock (rv_hash V token) (successor V now nt current) now s = (res, s1)" by fastforce
  from rotate_cases [OF run] assms have "res = Reused r" "s1 = s" by simp_all
  with run assms revokeFamily_gone [OF assms(2)] show ?thesis by (simp add: rotate_swap_def burnFamily_def Let_def)
qed

lemma rotate_succeeds:
  assumes "rv_ops V = ops" "ro_find ops (rv_hash V token) s = Some r" "rt_rotatedAt r = None" "now < rt_expiresAt r" "clock < rt_expiresAt r"
  shows "\<exists>x s'. service_rotate V now clock token nt s = (Inr x, s') \<and> rf_token x = nt \<and> rf_record x = successor V now nt r \<and>
    ro_find ops (rv_hash V nt) s' = Some (successor V now nt r) \<and>
    (rv_hash V nt \<noteq> rv_hash V token \<longrightarrow> ro_find ops (rv_hash V token) s' = Some (r\<lparr>rt_rotatedAt := Some now\<rparr>))"
proof -
  obtain res s1 where run: "ro_rotate ops clock (rv_hash V token) (successor V now nt r) now s = (res, s1)" by fastforce
  from rotate_cases [OF run] assms
  have "res = Rotated (successor V now nt r)"
    "\<forall>j. ro_find ops j s1 = (if j = rv_hash V nt then Some (successor V now nt r)
        else if j = rv_hash V token then Some (r\<lparr>rt_rotatedAt := Some now\<rparr>) else ro_find ops j s)"
    by (simp_all add: successor_def refresh_mint_def)
  with run assms show ?thesis by (simp add: service_rotate_def rotate_begin_def rotate_swap_def Let_def)
qed

end

section \<open>The in-memory store is such a store\<close>

definition memory_refresh :: "('m refresh_store, 'm) refresh_ops" where
  "memory_refresh = \<lparr>ro_issue = refresh_issue, ro_find = refresh_find, ro_rotate = refresh_rotate,
     ro_revokeFamily = refresh_revokeFamily, ro_revokeBySubject = refresh_revokeBySubject\<rparr>"

lemma memory_refresh_sel [simp]:
  "ro_issue memory_refresh = refresh_issue" "ro_find memory_refresh = refresh_find" "ro_rotate memory_refresh = refresh_rotate"
  "ro_revokeFamily memory_refresh = refresh_revokeFamily" "ro_revokeBySubject memory_refresh = refresh_revokeBySubject"
  by (simp_all add: memory_refresh_def)

text \<open>Every stored token is listed under its family and its own id.\<close>

definition refresh_ok :: "'m refresh_store \<Rightarrow> bool" where
  "refresh_ok st \<longleftrightarrow> (\<forall>i r. js_get (rs_tokens st) i = Some r \<longrightarrow> rt_id r = i \<and>
     (\<exists>ids. js_get (rs_byFamily st) (rt_familyId r) = Some ids \<and> i \<in> set ids))"

lemma refresh_okD: "refresh_ok st \<Longrightarrow> js_get (rs_tokens st) i = Some r \<Longrightarrow> rt_id r = i \<and>
    (\<exists>ids. js_get (rs_byFamily st) (rt_familyId r) = Some ids \<and> i \<in> set ids)"
  by (simp add: refresh_ok_def)

lemma refresh_ok_mono:
  assumes "refresh_ok st" "\<And>i r. js_get (rs_tokens st') i = Some r \<Longrightarrow> js_get (rs_tokens st) i = Some r" "rs_byFamily st' = rs_byFamily st"
  shows "refresh_ok st'"
  using assms by (fastforce simp: refresh_ok_def)

lemma multi_add_keeps: "js_get m k = Some ids \<Longrightarrow> i \<in> set ids \<Longrightarrow> \<exists>ids'. js_get (multi_add l v m) k = Some ids' \<and> i \<in> set ids'"
  by (auto simp: multi_add_get)

lemma multi_add_new: "\<exists>ids. js_get (multi_add k v m) k = Some ids \<and> v \<in> set ids"
  by (simp add: multi_add_get)

lemma refresh_ok_issue: "refresh_ok st \<Longrightarrow> refresh_ok (snd (refresh_issue r st))"
  by (auto simp: refresh_ok_def refresh_issue_def refresh_track_def multi_add_new intro: multi_add_keeps)

lemma refresh_ok_rotate: "refresh_ok st \<Longrightarrow> refresh_ok (snd (refresh_rotate now i next t st))"
  by (auto simp: refresh_ok_def refresh_rotate_def refresh_track_def multi_add_new intro: multi_add_keeps split: option.split)

lemma revokeFamily_tokens:
  "js_get (rs_byFamily st) f = Some ids \<Longrightarrow>
   js_get (rs_tokens (snd (refresh_revokeFamily f st))) i = (if i \<in> set ids then None else js_get (rs_tokens st) i) \<and>
   rs_byFamily (snd (refresh_revokeFamily f st)) = js_del f (rs_byFamily st)"
  by (simp add: refresh_revokeFamily_def case_prod_beta delete_counting_get)

lemma refresh_ok_revokeFamily:
  assumes ok: "refresh_ok st"
  shows "refresh_ok (snd (refresh_revokeFamily f st))"
proof (cases "js_get (rs_byFamily st) f")
  case (Some ids)
  show ?thesis
    unfolding refresh_ok_def
  proof (intro allI impI)
    fix i r assume "js_get (rs_tokens (snd (refresh_revokeFamily f st))) i = Some r"
    then have i: "i \<notin> set ids" "js_get (rs_tokens st) i = Some r"
      using revokeFamily_tokens [OF Some, of i] by (auto split: if_splits)
    with refresh_okD [OF ok i(2)] Some
    show "rt_id r = i \<and> (\<exists>ids. js_get (rs_byFamily (snd (refresh_revokeFamily f st))) (rt_familyId r) = Some ids \<and> i \<in> set ids)"
      using revokeFamily_tokens [OF Some] by auto
  qed
qed (simp add: refresh_revokeFamily_def ok)

lemma refresh_family_gone:
  assumes ok: "refresh_ok st"
  shows "family_gone memory_refresh f (snd (refresh_revokeFamily f st))"
  unfolding family_gone_def
proof (intro allI impI notI)
  fix i r assume r: "ro_find memory_refresh i (snd (refresh_revokeFamily f st)) = Some r" "rt_familyId r = f"
  show False
  proof (cases "js_get (rs_byFamily st) f")
    case None
    with r refresh_okD [OF ok, of i r] show False by (simp add: refresh_find_def refresh_revokeFamily_def)
  next
    case (Some ids)
    with r refresh_okD [OF ok, of i r] revokeFamily_tokens [OF Some, of i] show False
      by (auto simp: refresh_find_def split: if_splits)
  qed
qed

interpretation mem_refresh: refresh_backend "memory_refresh :: ('m refresh_store, 'm) refresh_ops" refresh_ok
proof unfold_locales
  fix now i nx t res and s s' :: "'m refresh_store"
  assume "ro_rotate memory_refresh now i nx t s = (res, s')"
  then show "case ro_find memory_refresh i s of
         None \<Rightarrow> res = NotFound \<and> s' = s
       | Some r \<Rightarrow>
           if rt_rotatedAt r \<noteq> None then res = Reused r \<and> s' = s
           else if rt_expiresAt r \<le> now then res = Expired r \<and> s' = s
           else res = Rotated nx \<and> (\<forall>j. ro_find memory_refresh j s' = (if j = rt_id nx then Some nx
                  else if j = i then Some (r\<lparr>rt_rotatedAt := Some t\<rparr>) else ro_find memory_refresh j s))"
    by (auto simp: refresh_rotate_def refresh_find_def refresh_track_def split: option.split if_splits)
qed (simp_all add: refresh_ok_rotate refresh_ok_revokeFamily refresh_family_gone)

section \<open>Interleaved requests\<close>

text \<open>The store calls of any number of concurrent requests, in the order they happen.\<close>

datatype 'm store_call =
    CallIssue "'m refresh_record"
  | CallRotate int string "'m refresh_record" int
  | CallRevokeFamily string
  | CallRevokeSubject string
  | CallPurge int

definition store_call :: "'m store_call \<Rightarrow> 'm refresh_store \<Rightarrow> 'm refresh_store" where
  "store_call c st = (case c of
     CallIssue r \<Rightarrow> snd (refresh_issue r st)
   | CallRotate now i nx t \<Rightarrow> snd (refresh_rotate now i nx t st)
   | CallRevokeFamily f \<Rightarrow> snd (refresh_revokeFamily f st)
   | CallRevokeSubject u \<Rightarrow> snd (refresh_revokeBySubject u st)
   | CallPurge t \<Rightarrow> snd (refresh_purgeExpired t st))"

definition store_calls :: "'m store_call list \<Rightarrow> 'm refresh_store \<Rightarrow> 'm refresh_store" where
  "store_calls cs st = foldl (\<lambda>st c. store_call c st) st cs"

text \<open>A call that writes no new record under an id.\<close>

definition not_reissued :: "string \<Rightarrow> 'm store_call \<Rightarrow> bool" where
  "not_reissued i c = (case c of CallIssue r \<Rightarrow> rt_id r \<noteq> i | CallRotate now j nx t \<Rightarrow> rt_id nx \<noteq> i | _ \<Rightarrow> True)"

definition spent :: "string \<Rightarrow> 'm refresh_store \<Rightarrow> bool" where
  "spent i st \<longleftrightarrow> (case js_get (rs_tokens st) i of None \<Rightarrow> True | Some r \<Rightarrow> rt_rotatedAt r \<noteq> None)"

lemma purge_get: "js_get (rs_tokens (snd (refresh_purgeExpired t st))) i = Some r \<Longrightarrow> js_get (rs_tokens st) i = Some r"
  using foldl_delete_get [of "\<lambda>r. rt_expiresAt r \<le> t" 0 "rs_tokens st" "rs_tokens st" i r]
  by (simp add: refresh_purgeExpired_def case_prod_beta)

lemma revoke_get:
  "js_get (rs_tokens (snd (refresh_revokeFamily f st))) i = Some r \<Longrightarrow> js_get (rs_tokens st) i = Some r"
  "js_get (rs_tokens (snd (refresh_revokeBySubject u st))) i = Some r \<Longrightarrow> js_get (rs_tokens st) i = Some r"
  by (auto simp: refresh_revokeFamily_def refresh_revokeBySubject_def case_prod_beta delete_counting_get split: option.splits if_splits)

lemma spent_call:
  assumes "spent i st" "not_reissued i c"
  shows "spent i (store_call c st)"
proof (cases c)
  case (CallPurge t)
  then show ?thesis using assms purge_get [of t st i] by (auto simp: spent_def store_call_def split: option.splits)
next
  case (CallRevokeFamily f)
  then show ?thesis using assms revoke_get(1) [of f st i] by (auto simp: spent_def store_call_def split: option.splits)
next
  case (CallRevokeSubject u)
  then show ?thesis using assms revoke_get(2) [of u st i] by (auto simp: spent_def store_call_def split: option.splits)
qed (use assms in \<open>auto simp: spent_def store_call_def not_reissued_def refresh_issue_def refresh_track_def refresh_rotate_def split: option.splits\<close>)

lemma spent_calls: "spent i st \<Longrightarrow> \<forall>c \<in> set cs. not_reissued i c \<Longrightarrow> spent i (store_calls cs st)"
proof (induction cs arbitrary: st)
  case (Cons c cs)
  then have "spent i (store_call c st)" by (intro spent_call) simp_all
  with Cons show ?case by (simp add: store_calls_def)
qed (simp add: store_calls_def)

section \<open>The live tokens of a family\<close>

definition live_ids :: "string \<Rightarrow> 'm refresh_store \<Rightarrow> string set" where
  "live_ids f st = {i. \<exists>r. js_get (rs_tokens st) i = Some r \<and> rt_familyId r = f \<and> rt_rotatedAt r = None}"

text \<open>The calls the service makes: an issue, into a new family or into one it is given, and a rotation whose successor
  inherits the family of the token it replaces.\<close>

definition service_call :: "'m store_call \<Rightarrow> 'm refresh_store \<Rightarrow> bool" where
  "service_call c st = (case c of
     CallRotate now i nx t \<Rightarrow>
       (case js_get (rs_tokens st) i of None \<Rightarrow> True | Some r \<Rightarrow> rt_familyId nx = rt_familyId r)
   | _ \<Rightarrow> True)"

text \<open>The stores that histories of such calls leave, newest call first.\<close>

inductive refresh_reach :: "'m store_call list \<Rightarrow> 'm refresh_store \<Rightarrow> bool" where
  start: "refresh_reach [] refresh_empty"
| call: "refresh_reach cs st \<Longrightarrow> service_call c st \<Longrightarrow> refresh_reach (c # cs) (store_call c st)"

definition issues_into :: "string \<Rightarrow> 'm store_call \<Rightarrow> bool" where
  "issues_into f c = (case c of CallIssue r \<Rightarrow> rt_familyId r = f | _ \<Rightarrow> False)"

definition issue_count :: "string \<Rightarrow> 'm store_call list \<Rightarrow> nat" where
  "issue_count f cs = length (filter (issues_into f) cs)"

lemma refresh_ok_call:
  assumes ok: "refresh_ok st"
  shows "refresh_ok (store_call c st)"
proof (cases c)
  case (CallRevokeSubject u)
  have "refresh_ok (snd (refresh_revokeBySubject u st))"
    by (rule refresh_ok_mono [OF ok revoke_get(2)])
      (simp_all add: refresh_revokeBySubject_def case_prod_beta split: option.split)
  then show ?thesis by (simp add: CallRevokeSubject store_call_def)
next
  case (CallPurge t)
  have "refresh_ok (snd (refresh_purgeExpired t st))"
    by (rule refresh_ok_mono [OF ok purge_get]) (simp_all add: refresh_purgeExpired_def case_prod_beta)
  then show ?thesis by (simp add: CallPurge store_call_def)
qed (use ok in \<open>simp_all add: store_call_def refresh_ok_issue refresh_ok_rotate refresh_ok_revokeFamily\<close>)

lemma finite_live [simp]: "finite (live_ids f st)"
proof -
  have "live_ids f st \<subseteq> fst ` set (rs_tokens st)"
    by (force simp: live_ids_def dest: map_of_SomeD)
  then show ?thesis by (rule finite_subset) simp
qed

lemma live_fewer:
  assumes "\<And>i r. js_get (rs_tokens st') i = Some r \<Longrightarrow> js_get (rs_tokens st) i = Some r"
  shows "card (live_ids f st') \<le> card (live_ids f st)"
proof (rule card_mono [OF finite_live])
  show "live_ids f st' \<subseteq> live_ids f st" using assms by (fastforce simp: live_ids_def)
qed

lemma live_issue: "card (live_ids f (snd (refresh_issue r st))) \<le> card (live_ids f st) + (if rt_familyId r = f then 1 else 0)"
proof (cases "rt_familyId r = f")
  case True
  have "live_ids f (snd (refresh_issue r st)) \<subseteq> insert (rt_id r) (live_ids f st)"
    by (auto simp: live_ids_def refresh_issue_def refresh_track_def)
  then have "card (live_ids f (snd (refresh_issue r st))) \<le> card (insert (rt_id r) (live_ids f st))"
    by (rule card_mono [rotated]) simp
  also have "\<dots> \<le> Suc (card (live_ids f st))" by (rule card_insert_le_m1) simp_all
  finally show ?thesis using True by simp
next
  case False
  then have "live_ids f (snd (refresh_issue r st)) \<subseteq> live_ids f st"
    by (auto simp: live_ids_def refresh_issue_def refresh_track_def split: if_splits)
  then show ?thesis using False by (simp add: card_mono)
qed

lemma live_rotate:
  assumes "service_call (CallRotate now i nx t) st"
  shows "card (live_ids f (snd (refresh_rotate now i nx t st))) \<le> card (live_ids f st)"
proof (cases "\<exists>r. js_get (rs_tokens st) i = Some r \<and> rt_rotatedAt r = None \<and> now < rt_expiresAt r")
  case True
  then obtain r where r: "js_get (rs_tokens st) i = Some r" "rt_rotatedAt r = None" "now < rt_expiresAt r" by blast
  have fam: "rt_familyId nx = rt_familyId r" using assms r by (simp add: service_call_def)
  have get: "js_get (rs_tokens (snd (refresh_rotate now i nx t st))) j = (if j = rt_id nx then Some nx
      else if j = i then Some (r\<lparr>rt_rotatedAt := Some t\<rparr>) else js_get (rs_tokens st) j)" for j
    using r by (simp add: refresh_rotate_def refresh_track_def)
  show ?thesis
  proof (cases "rt_familyId r = f")
    case True
    have i: "i \<in> live_ids f st" using r True by (simp add: live_ids_def)
    have "live_ids f (snd (refresh_rotate now i nx t st)) \<subseteq> insert (rt_id nx) (live_ids f st - {i})"
      by (auto simp: live_ids_def get split: if_splits)
    then have "card (live_ids f (snd (refresh_rotate now i nx t st))) \<le> card (insert (rt_id nx) (live_ids f st - {i}))"
      by (rule card_mono [rotated]) simp
    also have "\<dots> \<le> Suc (card (live_ids f st - {i}))" by (rule card_insert_le_m1) simp_all
    also have "\<dots> = card (live_ids f st)" by (rule card_Suc_Diff1 [OF finite_live i])
    finally show ?thesis .
  next
    case False
    then have "live_ids f (snd (refresh_rotate now i nx t st)) \<subseteq> live_ids f st"
      using fam by (auto simp: live_ids_def get split: if_splits)
    then show ?thesis by (simp add: card_mono)
  qed
next
  case False
  then have "snd (refresh_rotate now i nx t st) = st"
    by (auto simp: refresh_rotate_def split: option.split)
  then show ?thesis by simp
qed

lemma live_call:
  assumes "service_call c st"
  shows "card (live_ids f (store_call c st)) \<le> card (live_ids f st) + (if issues_into f c then 1 else 0)"
proof (cases c)
  case (CallIssue r)
  then show ?thesis using live_issue [of f r st] by (simp add: store_call_def issues_into_def)
next
  case (CallRotate now i nx t)
  then show ?thesis using live_rotate [of now i nx t st f] assms by (simp add: store_call_def issues_into_def)
next
  case (CallRevokeFamily g)
  then show ?thesis using live_fewer [OF revoke_get(1) [of g st]] by (simp add: store_call_def issues_into_def)
next
  case (CallRevokeSubject u)
  then show ?thesis using live_fewer [OF revoke_get(2) [of u st]] by (simp add: store_call_def issues_into_def)
next
  case (CallPurge u)
  then show ?thesis using live_fewer [OF purge_get [of u st]] by (simp add: store_call_def issues_into_def)
qed

lemma refresh_reach_inv: "refresh_reach cs st \<Longrightarrow> refresh_ok st \<and> card (live_ids f st) \<le> issue_count f cs"
proof (induction rule: refresh_reach.induct)
  case start
  show ?case by (simp add: refresh_ok_def live_ids_def refresh_empty_def)
next
  case (call cs st c)
  then show ?case
    using refresh_ok_call [of st c] live_call [OF call(2), of f] by (auto simp: issue_count_def)
qed

section \<open>Properties\<close>

text \<open>The store after one issue and one rotation, for the instances below.\<close>

definition sample_record :: "string \<Rightarrow> unit refresh_record" where
  "sample_record i = \<lparr>rt_id = i, rt_subject = ''u'', rt_familyId = ''f'', rt_createdAt = 0, rt_expiresAt = 100,
     rt_rotatedAt = None, rt_authTime = 0, rt_amr = None, rt_metadata = None\<rparr>"

definition sample_service :: "(unit refresh_store, unit) refresh_service" where
  "sample_service = \<lparr>rv_ops = memory_refresh, rv_hash = (\<lambda>t. t), rv_ttl = 100\<rparr>"

definition sample_refresh :: "unit refresh_store" where
  "sample_refresh = store_call (CallRotate 1 ''a'' (sample_record ''b'') 1) (store_call (CallIssue (sample_record ''a'')) refresh_empty)"

lemmas sample_simps = sample_refresh_def sample_record_def sample_service_def store_call_def refresh_issue_def refresh_rotate_def
  refresh_track_def refresh_empty_def refresh_find_def multi_add_def

lemma sample_reach: "refresh_reach [CallRotate 1 ''a'' (sample_record ''b'') 1, CallIssue (sample_record ''a'')] sample_refresh"
  unfolding sample_refresh_def
proof (rule refresh_reach.call [OF refresh_reach.call [OF refresh_reach.start]])
  show "service_call (CallIssue (sample_record ''a'')) refresh_empty"
    by (simp add: service_call_def)
  show "service_call (CallRotate 1 ''a'' (sample_record ''b'') 1) (store_call (CallIssue (sample_record ''a'')) refresh_empty)"
    by (simp add: service_call_def sample_simps)
qed

lemma sample_find:
  "refresh_find ''a'' sample_refresh = Some (sample_record ''a''\<lparr>rt_rotatedAt := Some 1\<rparr>)"
  "refresh_find ''b'' sample_refresh = Some (sample_record ''b'')"
  by (simp_all add: sample_simps)

text \<open>C25: presenting a refresh token that was already rotated fails with the reuse error and removes every token of
  its family from the store, so neither the thief nor the client can go on: no later presentation of any token of
  the family is recognised.\<close>

theorem reuse_burns_family:
  assumes "rv_ops V = memory_refresh" "refresh_ok st" "refresh_find (rv_hash V token) st = Some r" "rt_rotatedAt r \<noteq> None"
  shows "\<exists>st'. service_rotate V now clock token nt st = (Inl (TokenReused (rt_familyId r)), st') \<and>
    (\<forall>i q. refresh_find i st = Some q \<and> rt_familyId q = rt_familyId r \<longrightarrow>
       (\<forall>token' clock' now' nt'. rv_hash V token' = i \<longrightarrow>
          service_rotate V now' clock' token' nt' st' = (Inl InvalidToken, st')))"
proof -
  obtain st' where run: "service_rotate V now clock token nt st = (Inl (TokenReused (rt_familyId r)), st')"
    and gone: "family_gone memory_refresh (rt_familyId r) st'"
    using mem_refresh.spent_burns [of V st token r now clock nt] assms by auto
  have st': "st' = snd (refresh_revokeFamily (rt_familyId r) st)"
    using run assms by (simp add: service_rotate_def rotate_begin_def burnFamily_def)
  have none: "refresh_find i st' = None" if "refresh_find i st = Some q" "rt_familyId q = rt_familyId r" for i q
  proof (cases "refresh_find i st'")
    case (Some q')
    with st' have "refresh_find i st = Some q'" using revoke_get(1) by (auto simp: refresh_find_def)
    with that Some gone show ?thesis by (simp add: family_gone_def)
  qed simp
  show ?thesis
    using run none assms(1) by (auto simp: service_rotate_def rotate_begin_def)
qed

lemma reuse_burns_family_witness:
  "\<exists>st'. service_rotate sample_service 2 2 ''a'' ''c'' sample_refresh = (Inl (TokenReused ''f''), st') \<and>
     service_rotate sample_service 3 3 ''b'' ''d'' st' = (Inl InvalidToken, st')"
proof -
  have V: "rv_ops sample_service = memory_refresh" "rv_hash sample_service = (\<lambda>t. t)" by (simp_all add: sample_service_def)
  obtain st' where st': "service_rotate sample_service 2 2 ''a'' ''c'' sample_refresh = (Inl (TokenReused ''f''), st')"
    "\<forall>i q. refresh_find i sample_refresh = Some q \<and> rt_familyId q = ''f'' \<longrightarrow>
       (\<forall>token' clock' now' nt'. token' = i \<longrightarrow>
          service_rotate sample_service now' clock' token' nt' st' = (Inl InvalidToken, st'))"
    using reuse_burns_family [OF V(1), of sample_refresh "''a''" "sample_record ''a''\<lparr>rt_rotatedAt := Some 1\<rparr>" 2 2 "''c''"]
      refresh_reach_inv [OF sample_reach] V(2) sample_find
    by (auto simp: sample_record_def)
  from st'(2) sample_find(2) have "service_rotate sample_service 3 3 ''b'' ''d'' st' = (Inl InvalidToken, st')"
    by (simp add: sample_record_def)
  with st'(1) show ?thesis by blast
qed

text \<open>however the store calls of concurrent requests interleave, once a token has been exchanged no later
  exchange of the same token succeeds: of two racing refreshes exactly one obtains a successor (given that no
  new record is minted under the same hash).\<close>

theorem token_exchanged_once:
  assumes "refresh_rotate now i nx t st = (Rotated n, st1)" "rt_id nx \<noteq> i" "\<forall>c \<in> set cs. not_reissued i c"
  shows "fst (refresh_rotate now' i nx' t' (store_calls cs st1)) \<noteq> Rotated n'"
proof -
  have "spent i st1"
    using assms(1,2) by (auto simp: refresh_rotate_def refresh_track_def spent_def split: option.splits if_splits)
  from spent_calls [OF this assms(3)] show ?thesis
    by (auto simp: spent_def refresh_rotate_def split: option.splits)
qed

lemma token_exchanged_once_witness:
  "fst (refresh_rotate 5 ''a'' (sample_record ''c'') 5
     (store_calls [CallPurge 2] (snd (refresh_rotate 1 ''a'' (sample_record ''b'') 1 (snd (refresh_issue (sample_record ''a'') refresh_empty))))))
   \<noteq> Rotated (sample_record ''c'')"
  using token_exchanged_once [of 1 "''a''" "sample_record ''b''" 1 "snd (refresh_issue (sample_record ''a'') refresh_empty)"
      "sample_record ''b''" "snd (refresh_rotate 1 ''a'' (sample_record ''b'') 1 (snd (refresh_issue (sample_record ''a'') refresh_empty)))"
      "[CallPurge 2]" 5 "sample_record ''c''" 5 "sample_record ''c''"]
  by (simp add: not_reissued_def sample_simps)

text \<open>C4: in every store that issues, rotations, revocations and purges leave, in any interleaving, a family has at most
  as many live tokens as were issued into it: a rotation never adds one, so a family that was issued into once
  has at most one.\<close>

theorem live_tokens_within_issues:
  assumes "refresh_reach cs st"
  shows "card (live_ids f st) \<le> issue_count f cs \<and>
    (issue_count f cs \<le> 1 \<longrightarrow> (\<forall>i j r q. refresh_find i st = Some r \<and> rt_familyId r = f \<and> rt_rotatedAt r = None \<and>
       refresh_find j st = Some q \<and> rt_familyId q = f \<and> rt_rotatedAt q = None \<longrightarrow> i = j \<and> r = q))"
proof (intro conjI impI allI)
  show card: "card (live_ids f st) \<le> issue_count f cs" using refresh_reach_inv [OF assms] by blast
  fix i j r q
  assume once: "issue_count f cs \<le> 1" and "refresh_find i st = Some r \<and> rt_familyId r = f \<and> rt_rotatedAt r = None \<and>
       refresh_find j st = Some q \<and> rt_familyId q = f \<and> rt_rotatedAt q = None"
  then have "i \<in> live_ids f st" "j \<in> live_ids f st" and found: "refresh_find i st = Some r" "refresh_find j st = Some q"
    by (auto simp: live_ids_def refresh_find_def)
  moreover have "card (live_ids f st) \<le> Suc 0" using card once by simp
  ultimately show "i = j" by (simp add: card_le_Suc0_iff_eq)
  then show "r = q" using found by simp
qed

lemma live_tokens_within_issues_witness:
  "\<not> (\<exists>r. refresh_find ''c'' sample_refresh = Some r \<and> rt_rotatedAt r = None \<and> rt_familyId r = ''f'')"
proof
  assume "\<exists>r. refresh_find ''c'' sample_refresh = Some r \<and> rt_rotatedAt r = None \<and> rt_familyId r = ''f''"
  then obtain r where r: "refresh_find ''c'' sample_refresh = Some r" "rt_rotatedAt r = None" "rt_familyId r = ''f''" by blast
  have b: "rt_rotatedAt (sample_record ''b'') = None" "rt_familyId (sample_record ''b'') = ''f''" by (simp_all add: sample_record_def)
  have "issue_count ''f'' [CallRotate 1 ''a'' (sample_record ''b'') 1, CallIssue (sample_record ''a'')] \<le> 1"
    by (simp add: issue_count_def issues_into_def)
  from live_tokens_within_issues [OF sample_reach, THEN conjunct2, rule_format, OF this, of "''c''" r "''b''" "sample_record ''b''"]
  have "''c'' = ''b''" using r b sample_find(2) by blast
  then show False by simp
qed

end
