(* ===== verification/ActorIdentity.thy ===== *)
theory ActorIdentity
  imports Prelude
begin

text \<open>
  How actors are named, filed, looked up and authorised:
  \<^verbatim>\<open>di-framework-actors/src/storage/path.ts\<close>, the registry and
  \<^verbatim>\<open>getCompositeId\<close> of \<^verbatim>\<open>runtime/runtime.ts\<close>, and
  \<^verbatim>\<open>distributed/authorization.ts\<close>.

  Strings are lists of characters.  A file path is the list of its segments below the root (POSIX);
  the SHA-256 digest is a parameter giving the hexadecimal string.
\<close>

section \<open>Identities\<close>

definition truthy :: "string option \<Rightarrow> bool" where
  "truthy s \<longleftrightarrow> s \<noteq> None \<and> s \<noteq> Some ''''"

lemma truthy_simps [simp]: "truthy (Some s) \<longleftrightarrow> s \<noteq> ''''" "\<not> truthy None"
  by (simp_all add: truthy_def)

definition trimUnderscores :: "string \<Rightarrow> string" where
  "trimUnderscores v = rev (dropWhile (\<lambda>c. c = CHR ''_'') (rev (dropWhile (\<lambda>c. c = CHR ''_'') v)))"

record identity =
  id_namespace :: "string option"
  id_actorName :: string
  id_actorKey :: string

definition canonicalActorIdentity :: "identity \<Rightarrow> string" where
  "canonicalActorIdentity i = (case id_namespace i of None \<Rightarrow> '''' | Some n \<Rightarrow> n) @ [CHR 0x00] @ id_actorName i @ [CHR 0x00] @ id_actorKey i"

definition parseActorIdentity :: "string \<Rightarrow> identity" where
  "parseActorIdentity s = (case split_on CHR '':'' s of
     [a] \<Rightarrow> \<lparr>id_namespace = None, id_actorName = a, id_actorKey = ''''\<rparr>
   | [a, b] \<Rightarrow> \<lparr>id_namespace = None, id_actorName = a, id_actorKey = b\<rparr>
   | a # b # rest \<Rightarrow> \<lparr>id_namespace = Some a, id_actorName = b, id_actorKey = join_with '':'' rest\<rparr>
   | [] \<Rightarrow> \<lparr>id_namespace = None, id_actorName = '''', id_actorKey = ''''\<rparr>)"

definition compositeId :: "string option \<Rightarrow> string \<Rightarrow> string \<Rightarrow> string" where
  "compositeId ns name key = (case ns of
     Some n \<Rightarrow> if n \<noteq> '''' then n @ '':'' @ name @ '':'' @ key else name @ '':'' @ key
   | None \<Rightarrow> name @ '':'' @ key)"

section \<open>Files\<close>

definition safe_char :: "char \<Rightarrow> bool" where
  "safe_char c \<longleftrightarrow> (let n = (of_char c :: nat) in
     (97 \<le> n \<and> n \<le> 122) \<or> (65 \<le> n \<and> n \<le> 90) \<or> (48 \<le> n \<and> n \<le> 57) \<or> c = CHR ''_'' \<or> c = CHR ''-'')"

definition sanitize :: "string \<Rightarrow> string" where
  "sanitize s = map (\<lambda>c. if safe_char c then c else CHR ''_'') s"

text \<open>\<^verbatim>\<open>x || fallback\<close> on strings.\<close>

definition or_else :: "string \<Rightarrow> string \<Rightarrow> string" where
  "or_else s d = (if s = '''' then d else s)"

text \<open>\<^verbatim>\<open>path.resolve\<close> of one more argument, and \<^verbatim>\<open>path.relative\<close>.\<close>

definition resolve_seg :: "string list \<Rightarrow> string \<Rightarrow> string list" where
  "resolve_seg acc seg = (if seg = '''' \<or> seg = ''.'' then acc else if seg = ''..'' then butlast acc else acc @ [seg])"

definition path_resolve :: "string list \<Rightarrow> string \<Rightarrow> string list" where
  "path_resolve base arg = foldl resolve_seg (if arg \<noteq> '''' \<and> hd arg = CHR ''/'' then [] else base) (split_on CHR ''/'' arg)"

fun path_relative :: "string list \<Rightarrow> string list \<Rightarrow> string list" where
  "path_relative (x # xs) (y # ys) = (if x = y then path_relative xs ys else replicate (Suc (length xs)) ''..'' @ y # ys)"
| "path_relative [] ys = ys"
| "path_relative (x # xs) [] = replicate (Suc (length xs)) ''..''"

datatype location = MemoryUri string | FilePath "string list"

datatype path_error = PathTraversal

definition actorIdentityToPath ::
  "(string \<Rightarrow> string) \<Rightarrow> string list \<Rightarrow> bool \<Rightarrow> identity \<Rightarrow> (path_error, location) result" where
  "actorIdentityToPath sha256 resolvedBase inMemory i =
     (let safeNamespace = or_else (trimUnderscores (sanitize (case id_namespace i of
             None \<Rightarrow> ''default'' | Some n \<Rightarrow> or_else n ''default''))) ''default'';
          safeActorName = or_else (trimUnderscores (sanitize (id_actorName i))) ''actor'';
          hashPrefix = take 32 (sha256 (canonicalActorIdentity i))
      in if inMemory
         then Inr (MemoryUri (''file:actor_'' @ safeNamespace @ ''_'' @ safeActorName @ ''_'' @ hashPrefix @ ''?mode=memory&cache=shared''))
         else
           let safePrefix = take 32 (sanitize (id_actorKey i));
               fileName = (if safePrefix \<noteq> '''' then safePrefix @ ''_'' @ hashPrefix @ ''.db'' else hashPrefix @ ''.db'');
               targetPath = path_resolve (path_resolve (path_resolve resolvedBase safeNamespace) safeActorName) fileName;
               relativePath = path_relative resolvedBase targetPath
           in if relativePath \<noteq> [] \<and> hd relativePath = ''..'' then Inl PathTraversal else Inr (FilePath targetPath))"

datatype identity_error = IdentityCollision string string string

definition assertStoredActorIdentity :: "string option \<Rightarrow> string \<Rightarrow> string \<Rightarrow> (identity_error, unit) result" where
  "assertStoredActorIdentity stored requested filePath = (case stored of
     None \<Rightarrow> Inr ()
   | Some s \<Rightarrow> guard_or (s = requested) (IdentityCollision requested s filePath))"

section \<open>Authorisation boundaries\<close>

record binding_rules =
  br_allowedNamespaces :: "string list option"
  br_allowedActorTypes :: "string list option"
  br_allowedMethods :: "(string, string list) jsmap option"
  br_allowedCallers :: "string list option"

record rpc_request =
  rq_callerId :: "string option"
  rq_namespace :: "string option"
  rq_actorType :: string
  rq_method :: string

datatype denial = CallerDenied | NamespaceDenied | ActorTypeDenied | MethodDenied

definition listed :: "string list option \<Rightarrow> bool" where
  "listed l \<longleftrightarrow> (case l of None \<Rightarrow> False | Some xs \<Rightarrow> length xs > 0)"

definition authorize :: "binding_rules \<Rightarrow> rpc_request \<Rightarrow> (denial, bool) result" where
  "authorize rules rq =
     rbind (if listed (br_allowedCallers rules)
            then guard_or (truthy (rq_callerId rq) \<and> the (rq_callerId rq) \<in> set (the (br_allowedCallers rules))) CallerDenied else Inr ()) (\<lambda>_.
     rbind (if listed (br_allowedNamespaces rules)
            then guard_or ((case rq_namespace rq of None \<Rightarrow> ''default'' | Some n \<Rightarrow> n) \<in> set (the (br_allowedNamespaces rules))) NamespaceDenied else Inr ()) (\<lambda>_.
     rbind (if listed (br_allowedActorTypes rules)
            then guard_or (rq_actorType rq \<in> set (the (br_allowedActorTypes rules))) ActorTypeDenied else Inr ()) (\<lambda>_.
     rbind (case br_allowedMethods rules of None \<Rightarrow> Inr ()
            | Some ms \<Rightarrow> (case js_get ms (rq_actorType rq) of None \<Rightarrow> Inr ()
                | Some allowed \<Rightarrow> guard_or (rq_method rq \<in> set allowed) MethodDenied)) (\<lambda>_.
     Inr True))))"

section \<open>Facts about files\<close>

definition plain_segment :: "string \<Rightarrow> bool" where
  "plain_segment seg \<longleftrightarrow> seg \<noteq> '''' \<and> CHR ''/'' \<notin> set seg \<and> seg \<noteq> ''.'' \<and> seg \<noteq> ''..''"

lemma not_safe [simp]: "\<not> safe_char (CHR ''/'')" "\<not> safe_char (CHR ''.'')"
  by (simp_all add: safe_char_def)

lemma safe_underscore [simp]: "safe_char (CHR ''_'')"
  by (simp add: safe_char_def)

lemma sanitize_safe: "list_all safe_char (sanitize s)"
  by (induction s) (simp_all add: sanitize_def)

lemma set_trim: "set (trimUnderscores v) \<subseteq> set v"
  by (auto simp: trimUnderscores_def dest!: set_dropWhileD)

lemma trim_safe: "list_all safe_char v \<Longrightarrow> list_all safe_char (trimUnderscores v)"
  using set_trim by (auto simp: list_all_iff)

lemma safe_plain: "list_all safe_char s \<Longrightarrow> s \<noteq> '''' \<Longrightarrow> plain_segment s"
  by (cases s) (auto simp: plain_segment_def list_all_iff)

lemma or_else_safe: "list_all safe_char s \<Longrightarrow> list_all safe_char d \<Longrightarrow> d \<noteq> '''' \<Longrightarrow> plain_segment (or_else s d)"
  by (simp add: or_else_def safe_plain)

lemma safe_defaults: "list_all safe_char ''default''" "list_all safe_char ''actor''"
  by (simp_all add: safe_char_def)

lemma resolve_plain:
  assumes "plain_segment seg"
  shows "path_resolve base seg = base @ [seg]"
proof -
  have "seg \<noteq> ''''" "CHR ''/'' \<notin> set seg" using assms by (simp_all add: plain_segment_def)
  then have "hd seg \<noteq> CHR ''/''" by (cases seg) auto
  with assms \<open>CHR ''/'' \<notin> set seg\<close> show ?thesis
    by (simp add: path_resolve_def split_on_none resolve_seg_def plain_segment_def)
qed

lemma relative_append: "path_relative base (base @ xs) = xs"
  by (induction base) simp_all

lemma file_plain:
  assumes "list_all safe_char p" "list_all safe_char h" "h \<noteq> ''''"
  shows "plain_segment (if p \<noteq> '''' then p @ ''_'' @ h @ ''.db'' else h @ ''.db'')"
  using assms by (cases p; cases h) (auto simp: plain_segment_def list_all_iff)

lemma file_path:
  assumes "list_all safe_char (sha256 (canonicalActorIdentity i))" "sha256 (canonicalActorIdentity i) \<noteq> ''''"
  shows "\<exists>ns name p. actorIdentityToPath sha256 base False i = Inr (FilePath (base @ [ns, name, p @ take 32 (sha256 (canonicalActorIdentity i)) @ ''.db''])) \<and>
    plain_segment ns \<and> plain_segment name \<and> plain_segment (p @ take 32 (sha256 (canonicalActorIdentity i)) @ ''.db'')"
proof -
  define h where "h = take 32 (sha256 (canonicalActorIdentity i))"
  define ns where "ns = or_else (trimUnderscores (sanitize (case id_namespace i of
             None \<Rightarrow> ''default'' | Some n \<Rightarrow> or_else n ''default''))) ''default''"
  define name where "name = or_else (trimUnderscores (sanitize (id_actorName i))) ''actor''"
  define pre where "pre = take 32 (sanitize (id_actorKey i))"
  define leaf where "leaf = (if pre \<noteq> '''' then pre @ ''_'' @ h @ ''.db'' else h @ ''.db'')"
  have "list_all safe_char h" "h \<noteq> ''''"
    using assms by (auto simp: h_def list_all_iff dest: in_set_takeD)
  moreover have "list_all safe_char pre"
    using sanitize_safe by (auto simp: pre_def list_all_iff dest: in_set_takeD)
  ultimately have plain_leaf: "plain_segment leaf" unfolding leaf_def by (rule file_plain [rotated])
  have ns: "plain_segment ns" unfolding ns_def by (rule or_else_safe [OF trim_safe [OF sanitize_safe] safe_defaults(1)]) simp
  have name: "plain_segment name" unfolding name_def by (rule or_else_safe [OF trim_safe [OF sanitize_safe] safe_defaults(2)]) simp
  have target: "path_resolve (path_resolve (path_resolve base ns) name) leaf = base @ [ns, name, leaf]"
    by (simp add: resolve_plain ns name plain_leaf)
  have "ns \<noteq> ''..''" using ns by (simp add: plain_segment_def)
  then have "actorIdentityToPath sha256 base False i = Inr (FilePath (base @ [ns, name, leaf]))"
    by (simp add: actorIdentityToPath_def Let_def target relative_append
        flip: h_def ns_def name_def pre_def leaf_def)
  moreover have "leaf = (if pre \<noteq> '''' then pre @ ''_'' else '''') @ h @ ''.db''" by (simp add: leaf_def)
  ultimately show ?thesis using ns name plain_leaf unfolding h_def by metis
qed

section \<open>Properties\<close>

text \<open>The database file of an actor always lies three plain segments below the base directory, whatever
  characters its namespace, name and key are made of: the traversal guard is never reached.\<close>

theorem actor_file_contained:
  assumes "\<And>s. list_all safe_char (sha256 s) \<and> sha256 s \<noteq> ''''"
  shows "\<exists>ns name file. actorIdentityToPath sha256 base False i = Inr (FilePath (base @ [ns, name, file])) \<and>
    plain_segment ns \<and> plain_segment name \<and> plain_segment file"
  using file_path [of sha256 i base] assms by blast

text \<open>Two identities share a file only if the first 32 digits of their digests are equal, even where their
  sanitised names coincide.\<close>

theorem shared_file_shared_digest:
  assumes "\<And>s. list_all safe_char (sha256 s) \<and> length (sha256 s) = 64"
    and "actorIdentityToPath sha256 base False i = actorIdentityToPath sha256 base False j"
  shows "take 32 (sha256 (canonicalActorIdentity i)) = take 32 (sha256 (canonicalActorIdentity j))"
proof -
  have ne: "sha256 s \<noteq> ''''" for s using assms(1) [of s] by auto
  obtain ns name p where "actorIdentityToPath sha256 base False i = Inr (FilePath (base @ [ns, name, p @ take 32 (sha256 (canonicalActorIdentity i)) @ ''.db'']))"
    using file_path [of sha256 i base] assms(1) ne by blast
  moreover obtain ns' name' q where "actorIdentityToPath sha256 base False j = Inr (FilePath (base @ [ns', name', q @ take 32 (sha256 (canonicalActorIdentity j)) @ ''.db'']))"
    using file_path [of sha256 j base] assms(1) ne by blast
  ultimately have "p @ take 32 (sha256 (canonicalActorIdentity i)) @ ''.db'' = q @ take 32 (sha256 (canonicalActorIdentity j)) @ ''.db''"
    using assms(2) by simp
  then have "p @ take 32 (sha256 (canonicalActorIdentity i)) = q @ take 32 (sha256 (canonicalActorIdentity j))"
    by (simp flip: append_assoc)
  moreover have "length (take 32 (sha256 (canonicalActorIdentity i))) = length (take 32 (sha256 (canonicalActorIdentity j)))"
    using assms(1) by simp
  ultimately show ?thesis by (simp add: append_eq_append_conv)
qed

lemma zeros: "list_all safe_char (replicate 64 (CHR ''0'')) \<and> length (replicate 64 (CHR ''0'')) = 64"
  by (simp add: list_all_length safe_char_def)

lemma actor_file_contained_witness:
  "\<exists>ns name leaf. actorIdentityToPath (\<lambda>_. replicate 64 (CHR ''0'')) [''srv''] False
     \<lparr>id_namespace = Some ''..'', id_actorName = ''../etc'', id_actorKey = ''passwd''\<rparr> =
     Inr (FilePath ([''srv''] @ [ns, name, leaf])) \<and> plain_segment ns \<and> plain_segment name \<and> plain_segment leaf"
  by (rule actor_file_contained) (use zeros in auto)

lemma shared_file_shared_digest_witness:
  "take 32 ((\<lambda>_. replicate 64 (CHR ''0'')) (canonicalActorIdentity \<lparr>id_namespace = None, id_actorName = ''A'', id_actorKey = ''k''\<rparr>)) =
   take 32 ((\<lambda>_. replicate 64 (CHR ''0'')) (canonicalActorIdentity \<lparr>id_namespace = None, id_actorName = ''_A'', id_actorKey = ''k''\<rparr>))"
  by (rule shared_file_shared_digest [where base = "[]"])
    (use zeros in \<open>simp_all add: actorIdentityToPath_def sanitize_def trimUnderscores_def safe_char_def\<close>)

text \<open>A composite id determines the identity it was built from as long as no part that is followed by a
  separator contains one: parsing gives the namespace, the name and the key back.\<close>

theorem composite_id_roundtrip:
  assumes "CHR '':'' \<notin> set name" "\<forall>n. ns = Some n \<longrightarrow> n \<noteq> '''' \<and> CHR '':'' \<notin> set n" "ns = None \<Longrightarrow> CHR '':'' \<notin> set key"
  shows "parseActorIdentity (compositeId ns name key) = \<lparr>id_namespace = ns, id_actorName = name, id_actorKey = key\<rparr>"
proof (cases ns)
  case None
  then show ?thesis using assms(1,3)
    by (simp add: compositeId_def parseActorIdentity_def split_on_first split_on_none)
next
  case (Some n)
  with assms(2) have n: "n \<noteq> ''''" "CHR '':'' \<notin> set n" by simp_all
  obtain p ps where ps: "split_on CHR '':'' key = p # ps" by (cases "split_on CHR '':'' key") simp_all
  then have "join_with '':'' (p # ps) = key" using join_split [of "CHR '':''" key] by simp
  with Some n assms(1) ps show ?thesis
    by (simp add: compositeId_def parseActorIdentity_def split_on_first)
qed

lemma composite_id_roundtrip_witness:
  "parseActorIdentity (compositeId (Some ''shop'') ''Cart'' ''a:1'') =
     \<lparr>id_namespace = Some ''shop'', id_actorName = ''Cart'', id_actorKey = ''a:1''\<rparr>"
  by (rule composite_id_roundtrip) simp_all

text \<open>Without a namespace the key is not separated from the rest: the actor \<open>name\<close> with key \<open>x:y\<close> has the
  same composite id, hence the same mailbox, instance and storage, as the actor \<open>x\<close> with key \<open>y\<close> of the
  namespace \<open>name\<close>.\<close>

theorem composite_ids_collide:
  assumes "name \<noteq> ''''" "CHR '':'' \<notin> set name" "CHR '':'' \<notin> set x"
  shows "compositeId None name (x @ '':'' @ y) = compositeId (Some name) x y \<and>
    parseActorIdentity (compositeId None name (x @ '':'' @ y)) = \<lparr>id_namespace = Some name, id_actorName = x, id_actorKey = y\<rparr>"
proof -
  have eq: "compositeId None name (x @ '':'' @ y) = compositeId (Some name) x y" using assms(1) by (simp add: compositeId_def)
  obtain p ps where ps: "split_on CHR '':'' y = p # ps" by (cases "split_on CHR '':'' y") simp_all
  then have "join_with '':'' (p # ps) = y" using join_split [of "CHR '':''" y] by simp
  with assms ps have "parseActorIdentity (compositeId (Some name) x y) = \<lparr>id_namespace = Some name, id_actorName = x, id_actorKey = y\<rparr>"
    by (simp add: compositeId_def parseActorIdentity_def split_on_first)
  with eq show ?thesis by simp
qed

lemma composite_ids_collide_witness:
  "compositeId None ''Account'' ''eu:7'' = compositeId (Some ''Account'') ''eu'' ''7''"
  using composite_ids_collide [of "''Account''" "''eu''" "''7''"] by simp

text \<open>A request passes exactly when it is inside all four boundaries; a whitelist that is present but empty
  restricts nothing, except the method list of an actor type, which then allows no method.\<close>

theorem authorize_exact:
  "authorize rules rq = Inr True \<longleftrightarrow>
    (\<forall>cs. br_allowedCallers rules = Some cs \<and> cs \<noteq> [] \<longrightarrow> (\<exists>c. rq_callerId rq = Some c \<and> c \<noteq> '''' \<and> c \<in> set cs)) \<and>
    (\<forall>ns. br_allowedNamespaces rules = Some ns \<and> ns \<noteq> [] \<longrightarrow> (case rq_namespace rq of None \<Rightarrow> ''default'' | Some n \<Rightarrow> n) \<in> set ns) \<and>
    (\<forall>ts. br_allowedActorTypes rules = Some ts \<and> ts \<noteq> [] \<longrightarrow> rq_actorType rq \<in> set ts) \<and>
    (\<forall>m l. br_allowedMethods rules = Some m \<and> js_get m (rq_actorType rq) = Some l \<longrightarrow> rq_method rq \<in> set l)"
proof -
  have caller: "(if listed (br_allowedCallers rules)
            then guard_or (truthy (rq_callerId rq) \<and> the (rq_callerId rq) \<in> set (the (br_allowedCallers rules))) CallerDenied else Inr ()) = Inr () \<longleftrightarrow>
      (\<forall>cs. br_allowedCallers rules = Some cs \<and> cs \<noteq> [] \<longrightarrow> (\<exists>c. rq_callerId rq = Some c \<and> c \<noteq> '''' \<and> c \<in> set cs))"
    by (cases "rq_callerId rq") (auto simp: listed_def guard_or_def split: option.split)
  have ns: "(if listed (br_allowedNamespaces rules)
            then guard_or ((case rq_namespace rq of None \<Rightarrow> ''default'' | Some n \<Rightarrow> n) \<in> set (the (br_allowedNamespaces rules))) NamespaceDenied else Inr ()) = Inr () \<longleftrightarrow>
      (\<forall>ns. br_allowedNamespaces rules = Some ns \<and> ns \<noteq> [] \<longrightarrow> (case rq_namespace rq of None \<Rightarrow> ''default'' | Some n \<Rightarrow> n) \<in> set ns)"
    by (auto simp: listed_def guard_or_def split: option.splits)
  have ty: "(if listed (br_allowedActorTypes rules)
            then guard_or (rq_actorType rq \<in> set (the (br_allowedActorTypes rules))) ActorTypeDenied else Inr ()) = Inr () \<longleftrightarrow>
      (\<forall>ts. br_allowedActorTypes rules = Some ts \<and> ts \<noteq> [] \<longrightarrow> rq_actorType rq \<in> set ts)"
    by (auto simp: listed_def guard_or_def split: option.splits)
  have meth: "(case br_allowedMethods rules of None \<Rightarrow> Inr ()
            | Some ms \<Rightarrow> (case js_get ms (rq_actorType rq) of None \<Rightarrow> Inr ()
                | Some allowed \<Rightarrow> guard_or (rq_method rq \<in> set allowed) MethodDenied)) = Inr () \<longleftrightarrow>
      (\<forall>m l. br_allowedMethods rules = Some m \<and> js_get m (rq_actorType rq) = Some l \<longrightarrow> rq_method rq \<in> set l)"
    by (auto simp: guard_or_def split: option.splits)
  have unit: "(\<exists>a. r = Inr a \<and> f a = Inr b) \<longleftrightarrow> r = Inr () \<and> f () = Inr b" for r :: "(denial, unit) result" and f and b :: bool
    by auto
  show ?thesis
    by (simp add: authorize_def rbind_eq_Inr unit caller ns ty meth split del: if_split)
qed

lemma authorize_exact_witness:
  "authorize \<lparr>br_allowedNamespaces = Some [], br_allowedActorTypes = Some [''Cart''], br_allowedMethods = None, br_allowedCallers = Some [''web'']\<rparr>
     \<lparr>rq_callerId = Some ''web'', rq_namespace = None, rq_actorType = ''Cart'', rq_method = ''add''\<rparr> = Inr True"
  unfolding authorize_exact by simp

section \<open>The registry\<close>

text \<open>A class is its constructor's identity with the metadata its decorator left.  In \<open>rgy_byName\<close>,
  \<open>None\<close> is the mark \<^verbatim>\<open>'ambiguous'\<close>.\<close>

record actor_class =
  ac_ctor :: nat
  ac_name :: string
  ac_namespace :: "string option"

record registration =
  rg_name :: string
  rg_namespace :: "string option"
  rg_class :: actor_class

record registry =
  rgy_byName :: "(string, registration option) jsmap"
  rgy_byQualified :: "(string, registration) jsmap"
  rgy_byCtor :: "(nat, registration) jsmap"
  rgy_groups :: "(string, registration list) jsmap"
  rgy_default :: "string option"

definition registry_new :: "string option \<Rightarrow> registry" where
  "registry_new ns = \<lparr>rgy_byName = [], rgy_byQualified = [], rgy_byCtor = [], rgy_groups = [], rgy_default = ns\<rparr>"

definition first_some :: "'a option \<Rightarrow> 'a option \<Rightarrow> 'a option" where
  "first_some a b = (case a of None \<Rightarrow> b | Some x \<Rightarrow> Some x)"

fun find_idx :: "('a \<Rightarrow> bool) \<Rightarrow> 'a list \<Rightarrow> nat option" where
  "find_idx P [] = None"
| "find_idx P (x # xs) = (if P x then Some 0 else map_option Suc (find_idx P xs))"

definition qualifiedName :: "string option \<Rightarrow> string \<Rightarrow> string" where
  "qualifiedName ns name = (case ns of Some n \<Rightarrow> if n \<noteq> '''' then n @ '':'' @ name else name | None \<Rightarrow> name)"

definition register_class :: "string option \<Rightarrow> string option \<Rightarrow> actor_class \<Rightarrow> registry \<Rightarrow> registry" where
  "register_class optName optNs c R =
     (let name = (case optName of Some n \<Rightarrow> n | None \<Rightarrow> ac_name c);
          ns = first_some optNs (first_some (ac_namespace c) (rgy_default R));
          reg = \<lparr>rg_name = name, rg_namespace = ns, rg_class = c\<rparr>;
          group = (case js_get (rgy_groups R) name of Some g \<Rightarrow> g | None \<Rightarrow> []);
          existing = find_idx (\<lambda>r. ac_ctor (rg_class r) = ac_ctor c \<or> (rg_namespace r = ns \<and> rg_name r = name)) group;
          byCtor = (case existing of Some i \<Rightarrow> js_del (ac_ctor (rg_class (group ! i))) (rgy_byCtor R) | None \<Rightarrow> rgy_byCtor R);
          group' = (case existing of Some i \<Rightarrow> group[i := reg] | None \<Rightarrow> group @ [reg])
      in R\<lparr>rgy_byQualified := js_set (qualifiedName ns name) reg (rgy_byQualified R),
           rgy_groups := js_set name group' (rgy_groups R),
           rgy_byCtor := js_set (ac_ctor c) reg byCtor,
           rgy_byName := js_set name (if length group' > 1 then None else Some reg) (rgy_byName R)\<rparr>)"

datatype registry_error = Ambiguous string "string list"

definition resolve_ctor :: "nat \<Rightarrow> registry \<Rightarrow> registration option" where
  "resolve_ctor c R = js_get (rgy_byCtor R) c"

definition resolve_plain_name :: "string \<Rightarrow> registry \<Rightarrow> (registry_error, registration option) result" where
  "resolve_plain_name name R = (case js_get (rgy_byName R) name of
     None \<Rightarrow> Inr None
   | Some (Some r) \<Rightarrow> Inr (Some r)
   | Some None \<Rightarrow> Inl (Ambiguous name (map (\<lambda>r. case rg_namespace r of Some n \<Rightarrow> or_else n ''default'' | None \<Rightarrow> ''default'')
        (case js_get (rgy_groups R) name of Some g \<Rightarrow> g | None \<Rightarrow> []))))"

definition resolveRegistration :: "string \<Rightarrow> string option \<Rightarrow> registry \<Rightarrow> (registry_error, registration option) result" where
  "resolveRegistration name ns R =
     (let coloned = CHR '':'' \<in> set name;
          inNs = (if truthy ns \<and> \<not> coloned then js_get (rgy_byQualified R) (the ns @ '':'' @ name) else None);
          inDefault = (if truthy (rgy_default R) then js_get (rgy_byQualified R) (the (rgy_default R) @ '':'' @ name) else None)
      in case inNs of Some r \<Rightarrow> Inr (Some r)
       | None \<Rightarrow>
           if coloned then Inr (js_get (rgy_byQualified R) name)
           else case inDefault of Some r \<Rightarrow> Inr (Some r)
             | None \<Rightarrow> resolve_plain_name name R)"

definition isRegistered :: "string \<Rightarrow> registry \<Rightarrow> bool" where
  "isRegistered name R = (if CHR '':'' \<in> set name then js_has (rgy_byQualified R) name
     else (truthy (rgy_default R) \<and> js_has (rgy_byQualified R) (the (rgy_default R) @ '':'' @ name)) \<or> js_has (rgy_byName R) name)"

inductive registry_reach :: "string option \<Rightarrow> registry \<Rightarrow> bool" for ns where
  empty: "registry_reach ns (registry_new ns)"
| add: "registry_reach ns R \<Longrightarrow> registry_reach ns (register_class optName optNs c R)"

text \<open>What the by-name index holds for a name, by the group of registrations that share it.\<close>

definition index_of :: "registration list option \<Rightarrow> registration option option" where
  "index_of g = (case g of None \<Rightarrow> None | Some [r] \<Rightarrow> Some (Some r) | Some _ \<Rightarrow> Some None)"

lemma find_idx_less: "find_idx P xs = Some i \<Longrightarrow> i < length xs"
  by (induction xs arbitrary: i) (auto split: if_splits)

lemma index_of_update:
  assumes "case existing of Some i \<Rightarrow> i < length g | None \<Rightarrow> True"
  shows "index_of (Some (case existing of Some i \<Rightarrow> g[i := r] | None \<Rightarrow> g @ [r])) =
     Some (if length (case existing of Some i \<Rightarrow> g[i := r] | None \<Rightarrow> g @ [r]) > 1 then None else Some r)"
proof (cases existing)
  case None
  then show ?thesis by (cases g) (auto simp: index_of_def split: list.split)
next
  case (Some i)
  with assms show ?thesis by (cases g; cases i) (auto simp: index_of_def split: list.split)
qed

lemma registry_index: "registry_reach ns R \<Longrightarrow> js_get (rgy_byName R) name = index_of (js_get (rgy_groups R) name)"
proof (induction rule: registry_reach.induct)
  case empty
  show ?case by (simp add: registry_new_def index_of_def)
next
  case (add R optName optNs c)
  have "case find_idx P xs of Some i \<Rightarrow> i < length xs | None \<Rightarrow> True" for P :: "registration \<Rightarrow> bool" and xs
    using find_idx_less by (auto split: option.split)
  from index_of_update [OF this] add.IH show ?case
    by (simp add: register_class_def Let_def)
qed

lemma registry_default: "registry_reach ns R \<Longrightarrow> rgy_default R = ns"
  by (induction rule: registry_reach.induct) (simp_all add: registry_new_def register_class_def Let_def)

text \<open>In every registry built by registrations, an unqualified name resolves to a class only when exactly one
  registration carries it; when several do the lookup is an error and never picks one of them.\<close>

theorem unqualified_lookup_never_guesses:
  assumes "registry_reach None R" "CHR '':'' \<notin> set name"
  shows "(resolveRegistration name None R = Inr (Some r) \<longleftrightarrow> js_get (rgy_groups R) name = Some [r]) \<and>
    ((\<exists>e. resolveRegistration name None R = Inl e) \<longleftrightarrow> (\<exists>g. js_get (rgy_groups R) name = Some g \<and> length g \<noteq> 1))"
proof -
  have plain: "resolveRegistration name None R = resolve_plain_name name R"
    using assms(2) registry_default [OF assms(1)] by (simp add: resolveRegistration_def Let_def)
  note ix = registry_index [OF assms(1), of name]
  show ?thesis
    unfolding plain by (auto simp: resolve_plain_name_def ix index_of_def split: option.split list.split)
qed

definition sample_class :: "nat \<Rightarrow> string option \<Rightarrow> actor_class" where
  "sample_class i ns = \<lparr>ac_ctor = i, ac_name = ''Cart'', ac_namespace = ns\<rparr>"

lemma unqualified_lookup_never_guesses_witness:
  "resolveRegistration ''Cart'' None (register_class None None (sample_class 1 (Some ''shop'')) (registry_new None)) =
     Inr (Some \<lparr>rg_name = ''Cart'', rg_namespace = Some ''shop'', rg_class = sample_class 1 (Some ''shop'')\<rparr>)"
  using unqualified_lookup_never_guesses [OF registry_reach.add [OF registry_reach.empty], of "''Cart''" None None "sample_class 1 (Some ''shop'')"
      "\<lparr>rg_name = ''Cart'', rg_namespace = Some ''shop'', rg_class = sample_class 1 (Some ''shop'')\<rparr>"]
  by (simp add: register_class_def registry_new_def sample_class_def first_some_def Let_def)

end
