(* ===== verification/ActorStorage.thy ===== *)
theory ActorStorage
  imports Prelude
begin

text \<open>
  The in-memory actor storage, its transactions and its ownership records:
  \<^verbatim>\<open>di-framework-actors/src/storage/memory.ts\<close>.

  Stored values are structured-cloneable data, on which \<^verbatim>\<open>cloneValue\<close> is the identity of the
  model; \<open>JUndef\<close> is \<^verbatim>\<open>undefined\<close>, which is a legal value of a key and also what a missing
  key reads as.  A closed transaction and a refused commit are errors.  \<^verbatim>\<open>commit\<close> awaits the
  ownership record before it writes, so it has two halves.
\<close>

section \<open>Committed storage\<close>

datatype 'v jsv = JUndef | JVal 'v

type_synonym 'v cells = "(string, 'v jsv) jsmap"

record ownership =
  ow_ownerId :: string
  ow_generation :: nat
  ow_acquiredAt :: int
  ow_leaseExpiresAt :: "int option"

record 'v idem =
  id_response :: 'v
  id_createdAt :: int

record 'v storage =
  st_state :: "(string, 'v cells) jsmap"
  st_ownership :: "(string, ownership) jsmap"
  st_idempotency :: "(string, (string, 'v idem) jsmap) jsmap"

definition storage_new :: "'v storage" where
  "storage_new = \<lparr>st_state = [], st_ownership = [], st_idempotency = []\<rparr>"

definition getActorMap :: "string \<Rightarrow> (string, 'v cells) jsmap \<Rightarrow> 'v cells" where
  "getActorMap a m = (case js_get m a of None \<Rightarrow> [] | Some c \<Rightarrow> c)"

definition cell :: "'v jsv option \<Rightarrow> 'v jsv" where
  "cell v = (case v of None \<Rightarrow> JUndef | Some x \<Rightarrow> x)"

definition as_get :: "string \<Rightarrow> string \<Rightarrow> 'v storage \<Rightarrow> 'v jsv" where
  "as_get a k st = (case js_get (st_state st) a of None \<Rightarrow> JUndef
     | Some m \<Rightarrow> if \<not> js_has m k then JUndef else cell (js_get m k))"

definition as_set :: "string \<Rightarrow> string \<Rightarrow> 'v jsv \<Rightarrow> 'v storage \<Rightarrow> 'v storage" where
  "as_set a k v st = st\<lparr>st_state := js_set a (js_set k v (getActorMap a (st_state st))) (st_state st)\<rparr>"

definition as_delete :: "string \<Rightarrow> string \<Rightarrow> 'v storage \<Rightarrow> bool \<times> 'v storage" where
  "as_delete a k st = (case js_get (st_state st) a of None \<Rightarrow> (False, st)
     | Some m \<Rightarrow> (js_has m k, st\<lparr>st_state := js_set a (js_del k m) (st_state st)\<rparr>))"

definition as_has :: "string \<Rightarrow> string \<Rightarrow> 'v storage \<Rightarrow> bool" where
  "as_has a k st = (case js_get (st_state st) a of None \<Rightarrow> False | Some m \<Rightarrow> js_has m k)"

definition as_keys :: "string \<Rightarrow> 'v storage \<Rightarrow> string list" where
  "as_keys a st = (case js_get (st_state st) a of None \<Rightarrow> [] | Some m \<Rightarrow> js_keys m)"

definition as_entries :: "string \<Rightarrow> 'v storage \<Rightarrow> (string \<times> 'v jsv) list" where
  "as_entries a st = (case js_get (st_state st) a of None \<Rightarrow> [] | Some m \<Rightarrow> m)"

definition as_clear :: "string \<Rightarrow> 'v storage \<Rightarrow> 'v storage" where
  "as_clear a st = st\<lparr>st_state := js_del a (st_state st)\<rparr>"

definition as_clearAll :: "'v storage \<Rightarrow> 'v storage" where
  "as_clearAll st = st\<lparr>st_state := []\<rparr>"

definition getIdempotencyRecord :: "string \<Rightarrow> string \<Rightarrow> 'v storage \<Rightarrow> 'v idem option" where
  "getIdempotencyRecord a rid st = (case js_get (st_idempotency st) a of None \<Rightarrow> None | Some m \<Rightarrow> js_get m rid)"

definition setIdempotencyRecord :: "int \<Rightarrow> string \<Rightarrow> string \<Rightarrow> 'v \<Rightarrow> 'v storage \<Rightarrow> 'v storage" where
  "setIdempotencyRecord now a rid resp st = (let m = (case js_get (st_idempotency st) a of None \<Rightarrow> [] | Some m \<Rightarrow> m) in
     st\<lparr>st_idempotency := js_set a (js_set rid \<lparr>id_response = resp, id_createdAt = now\<rparr> m) (st_idempotency st)\<rparr>)"

text \<open>\<^verbatim>\<open>_applyTransactionCommit\<close>: the actor's map is created even when nothing is staged, and
  dropped when it ends up empty.\<close>

definition applyTransactionCommit :: "string \<Rightarrow> bool \<Rightarrow> 'v cells \<Rightarrow> string list \<Rightarrow> 'v storage \<Rightarrow> 'v storage" where
  "applyTransactionCommit a clearAll sets deletes st =
     (let state = (if clearAll then js_del a (st_state st) else st_state st);
          m = foldl (\<lambda>m k. js_del k m) (getActorMap a state) deletes;
          m' = foldl (\<lambda>m (k, v). js_set k v m) m sets
      in st\<lparr>st_state := (if m' = [] then js_del a (js_set a m' state) else js_set a m' state)\<rparr>)"

section \<open>Ownership\<close>

datatype ownership_error = Conflict string nat "int option"

definition getOwnership :: "string \<Rightarrow> 'v storage \<Rightarrow> ownership option" where
  "getOwnership a st = js_get (st_ownership st) a"

text \<open>A time-to-live of zero is falsy and means no lease.\<close>

definition lease_end :: "int \<Rightarrow> int option \<Rightarrow> int option" where
  "lease_end now ttl = (case ttl of None \<Rightarrow> None | Some t \<Rightarrow> if t = 0 then None else Some (now + t))"

definition lease_expired :: "int \<Rightarrow> ownership \<Rightarrow> bool" where
  "lease_expired now r = (case ow_leaseExpiresAt r of None \<Rightarrow> False | Some t \<Rightarrow> t < now)"

definition acquireOwnership ::
  "int \<Rightarrow> string \<Rightarrow> string \<Rightarrow> int option \<Rightarrow> bool \<Rightarrow> 'v storage \<Rightarrow> (ownership_error, ownership) result \<times> 'v storage" where
  "acquireOwnership now a owner ttl force st =
     (let put = (\<lambda>r. (Inr r, st\<lparr>st_ownership := js_set a r (st_ownership st)\<rparr>));
          fresh = (\<lambda>g. \<lparr>ow_ownerId = owner, ow_generation = g, ow_acquiredAt = now, ow_leaseExpiresAt = lease_end now ttl\<rparr>)
      in case js_get (st_ownership st) a of
           None \<Rightarrow> put (fresh 1)
         | Some r \<Rightarrow>
             if ow_ownerId r = owner then put (r\<lparr>ow_acquiredAt := now, ow_leaseExpiresAt := lease_end now ttl\<rparr>)
             else if lease_expired now r \<or> force then put (fresh (ow_generation r + 1))
             else (Inl (Conflict (ow_ownerId r) (ow_generation r) (ow_leaseExpiresAt r)), st))"

definition releaseOwnership :: "string \<Rightarrow> string \<Rightarrow> 'v storage \<Rightarrow> bool \<times> 'v storage" where
  "releaseOwnership a owner st = (case js_get (st_ownership st) a of
     None \<Rightarrow> (False, st)
   | Some r \<Rightarrow> if ow_ownerId r = owner then (True, st\<lparr>st_ownership := js_del a (st_ownership st)\<rparr>) else (False, st))"

section \<open>Transactions\<close>

record 'v tx =
  tx_actorId :: string
  tx_ownerId :: "string option"
  tx_generation :: "nat option"
  tx_sets :: "'v cells"
  tx_deletes :: "string list"
  tx_idem :: "(string \<times> 'v) option"
  tx_clearAll :: bool
  tx_closed :: bool

datatype tx_error = TxClosed | StaleOwnerWrite nat nat string

definition beginTransaction :: "string \<Rightarrow> string option \<Rightarrow> nat option \<Rightarrow> 'v tx" where
  "beginTransaction a owner gen = \<lparr>tx_actorId = a, tx_ownerId = owner, tx_generation = gen, tx_sets = [], tx_deletes = [],
     tx_idem = None, tx_clearAll = False, tx_closed = False\<rparr>"

definition assertOpen :: "'v tx \<Rightarrow> (tx_error, unit) result" where
  "assertOpen t = guard_or (\<not> tx_closed t) TxClosed"

definition tx_setIdempotencyRecord :: "string \<Rightarrow> 'v \<Rightarrow> 'v tx \<Rightarrow> (tx_error, 'v tx) result" where
  "tx_setIdempotencyRecord rid resp t = rbind (assertOpen t) (\<lambda>_. Inr (t\<lparr>tx_idem := Some (rid, resp)\<rparr>))"

definition tx_getIdempotencyRecord :: "int \<Rightarrow> string \<Rightarrow> 'v tx \<Rightarrow> 'v storage \<Rightarrow> (tx_error, 'v idem option) result" where
  "tx_getIdempotencyRecord now rid t st = rbind (assertOpen t) (\<lambda>_.
     case tx_idem t of
       Some (r, resp) \<Rightarrow> if r = rid then Inr (Some \<lparr>id_response = resp, id_createdAt = now\<rparr>)
                         else Inr (getIdempotencyRecord (tx_actorId t) rid st)
     | None \<Rightarrow> Inr (getIdempotencyRecord (tx_actorId t) rid st))"

definition tx_get :: "string \<Rightarrow> 'v tx \<Rightarrow> 'v storage \<Rightarrow> (tx_error, 'v jsv) result" where
  "tx_get k t st = rbind (assertOpen t) (\<lambda>_.
     if k \<in> set (tx_deletes t) then Inr JUndef
     else if js_has (tx_sets t) k then Inr (cell (js_get (tx_sets t) k))
     else if tx_clearAll t then Inr JUndef
     else Inr (as_get (tx_actorId t) k st))"

definition tx_set :: "string \<Rightarrow> 'v jsv \<Rightarrow> 'v tx \<Rightarrow> (tx_error, 'v tx) result" where
  "tx_set k v t = rbind (assertOpen t) (\<lambda>_.
     Inr (t\<lparr>tx_deletes := set_del k (tx_deletes t), tx_sets := js_set k v (tx_sets t)\<rparr>))"

definition tx_delete :: "string \<Rightarrow> 'v tx \<Rightarrow> 'v storage \<Rightarrow> (tx_error, bool \<times> 'v tx) result" where
  "tx_delete k t st = rbind (assertOpen t) (\<lambda>_.
     let hadStaged = js_has (tx_sets t) k;
         t' = t\<lparr>tx_sets := js_del k (tx_sets t), tx_deletes := set_add k (tx_deletes t)\<rparr>
     in Inr (if hadStaged then True else if tx_clearAll t then False else as_has (tx_actorId t) k st, t'))"

definition tx_has :: "string \<Rightarrow> 'v tx \<Rightarrow> 'v storage \<Rightarrow> (tx_error, bool) result" where
  "tx_has k t st = rbind (assertOpen t) (\<lambda>_.
     Inr (if k \<in> set (tx_deletes t) then False
          else if js_has (tx_sets t) k then True
          else if tx_clearAll t then False
          else as_has (tx_actorId t) k st))"

definition tx_keys :: "'v tx \<Rightarrow> 'v storage \<Rightarrow> (tx_error, string list) result" where
  "tx_keys t st = rbind (assertOpen t) (\<lambda>_.
     Inr (foldl (\<lambda>ks k. set_add k ks)
        (if tx_clearAll t then [] else js_uniq (filter (\<lambda>k. k \<notin> set (tx_deletes t)) (as_keys (tx_actorId t) st)))
        (js_keys (tx_sets t))))"

definition tx_entries :: "'v tx \<Rightarrow> 'v storage \<Rightarrow> (tx_error, (string \<times> 'v) list) result" where
  "tx_entries t st = rbind (assertOpen t) (\<lambda>_. rbind (tx_keys t st) (\<lambda>ks.
     rbind (traverse (\<lambda>k. rbind (tx_get k t st) (\<lambda>v. Inr (k, v))) ks) (\<lambda>kvs.
       Inr (concat (map (\<lambda>(k, v). case v of JUndef \<Rightarrow> [] | JVal x \<Rightarrow> [(k, x)]) kvs)))))"

definition tx_clear :: "'v tx \<Rightarrow> (tx_error, 'v tx) result" where
  "tx_clear t = rbind (assertOpen t) (\<lambda>_. Inr (t\<lparr>tx_sets := [], tx_deletes := [], tx_clearAll := True\<rparr>))"

text \<open>The first half of \<^verbatim>\<open>commit\<close>: everything up to and including the check of the ownership
  record that was read.\<close>

definition owner_given :: "string option \<Rightarrow> bool" where
  "owner_given s \<longleftrightarrow> s \<noteq> None \<and> s \<noteq> Some ''''"

definition commit_check :: "'v tx \<Rightarrow> 'v storage \<Rightarrow> (tx_error, unit) result" where
  "commit_check t st = rbind (assertOpen t) (\<lambda>_. case tx_generation t of
     None \<Rightarrow> Inr ()
   | Some g \<Rightarrow> (case getOwnership (tx_actorId t) st of
       None \<Rightarrow> Inr ()
     | Some cur \<Rightarrow> guard_or (\<not> (ow_generation cur > g \<or> (owner_given (tx_ownerId t) \<and> Some (ow_ownerId cur) \<noteq> tx_ownerId t)))
                     (StaleOwnerWrite g (ow_generation cur) (ow_ownerId cur))))"

definition commit_apply :: "int \<Rightarrow> 'v tx \<Rightarrow> 'v storage \<Rightarrow> 'v tx \<times> 'v storage" where
  "commit_apply now t st =
     (let st1 = applyTransactionCommit (tx_actorId t) (tx_clearAll t) (tx_sets t) (tx_deletes t) st;
          st2 = (case tx_idem t of None \<Rightarrow> st1 | Some (rid, resp) \<Rightarrow> setIdempotencyRecord now (tx_actorId t) rid resp st1)
      in (t\<lparr>tx_closed := True\<rparr>, st2))"

definition tx_commit :: "int \<Rightarrow> 'v tx \<Rightarrow> 'v storage \<Rightarrow> (tx_error, 'v tx \<times> 'v storage) result" where
  "tx_commit now t st = rbind (commit_check t st) (\<lambda>_. Inr (commit_apply now t st))"

definition tx_rollback :: "'v tx \<Rightarrow> (tx_error, 'v tx) result" where
  "tx_rollback t = rbind (assertOpen t) (\<lambda>_. Inr (t\<lparr>tx_sets := [], tx_deletes := [], tx_clearAll := False, tx_closed := True\<rparr>))"

section \<open>The contract of a key-value store\<close>

datatype 'v kv_op = Put string "'v jsv" | Remove string | Wipe

type_synonym 'v view = "string \<Rightarrow> 'v jsv option"

definition spec_op :: "'v kv_op \<Rightarrow> 'v view \<Rightarrow> 'v view" where
  "spec_op op m = (case op of Put k v \<Rightarrow> m(k \<mapsto> v) | Remove k \<Rightarrow> m(k := None) | Wipe \<Rightarrow> Map.empty)"

locale kv_store =
  fixes look :: "'s \<Rightarrow> 'v view"
    and put :: "string \<Rightarrow> 'v jsv \<Rightarrow> 's \<Rightarrow> 's"
    and remove :: "string \<Rightarrow> 's \<Rightarrow> 's"
    and wipe :: "'s \<Rightarrow> 's"
    and ok :: "'s \<Rightarrow> bool"
  assumes look_put: "ok s \<Longrightarrow> look (put k v s) = (look s)(k \<mapsto> v)"
    and look_remove: "ok s \<Longrightarrow> look (remove k s) = (look s)(k := None)"
    and look_wipe: "ok s \<Longrightarrow> look (wipe s) = Map.empty"
    and ok_put: "ok s \<Longrightarrow> ok (put k v s)"
    and ok_remove: "ok s \<Longrightarrow> ok (remove k s)"
    and ok_wipe: "ok s \<Longrightarrow> ok (wipe s)"
begin

definition op1 :: "'v kv_op \<Rightarrow> 's \<Rightarrow> 's" where
  "op1 op s = (case op of Put k v \<Rightarrow> put k v s | Remove k \<Rightarrow> remove k s | Wipe \<Rightarrow> wipe s)"

lemma ops_refine: "ok s \<Longrightarrow> ok (fold op1 ops s) \<and> look (fold op1 ops s) = fold spec_op ops (look s)"
proof (induction ops arbitrary: s)
  case (Cons op ops)
  have step: "ok (op1 op s)" "look (op1 op s) = spec_op op (look s)"
    using Cons.prems
    by (simp_all add: op1_def spec_op_def look_put look_remove look_wipe ok_put ok_remove ok_wipe split: kv_op.split)
  show ?case using Cons.IH [OF step(1)] step(2) by simp
qed simp

end

section \<open>Committed storage fulfils it\<close>

definition look_storage :: "string \<Rightarrow> 'v storage \<Rightarrow> 'v view" where
  "look_storage a st = js_get (getActorMap a (st_state st))"

lemma as_get_look: "as_get a k st = cell (look_storage a st k)"
  by (simp add: as_get_def look_storage_def getActorMap_def cell_def js_has_def split: option.split)

lemma as_has_look: "as_has a k st \<longleftrightarrow> look_storage a st k \<noteq> None"
  by (simp add: as_has_def look_storage_def getActorMap_def js_has_def split: option.split)

lemma as_keys_look: "set (as_keys a st) = dom (look_storage a st)"
  by (cases "js_get (st_state st) a") (simp_all add: as_keys_def look_storage_def getActorMap_def dom_map_of_conv_image_fst)

lemma look_as_set: "look_storage b (as_set a k v st) = (if b = a then (look_storage a st)(k \<mapsto> v) else look_storage b st)"
  by (rule ext) (simp add: as_set_def look_storage_def getActorMap_def)

lemma look_as_delete: "look_storage b (snd (as_delete a k st)) = (if b = a then (look_storage a st)(k := None) else look_storage b st)"
  by (rule ext) (simp add: as_delete_def look_storage_def getActorMap_def split: option.split)

lemma look_as_clear: "look_storage b (as_clear a st) = (if b = a then Map.empty else look_storage b st)"
  by (rule ext) (simp add: as_clear_def look_storage_def getActorMap_def)

interpretation direct: kv_store "look_storage a" "as_set a" "\<lambda>k st. snd (as_delete a k st)" "as_clear a" "\<lambda>_. True" for a
  by unfold_locales (simp_all add: look_as_set look_as_delete look_as_clear)

definition direct_op :: "string \<Rightarrow> 'v kv_op \<Rightarrow> 'v storage \<Rightarrow> 'v storage" where
  "direct_op a op st = (case op of Put k v \<Rightarrow> as_set a k v st | Remove k \<Rightarrow> snd (as_delete a k st) | Wipe \<Rightarrow> as_clear a st)"

definition direct_run :: "string \<Rightarrow> 'v kv_op list \<Rightarrow> 'v storage \<Rightarrow> 'v storage" where
  "direct_run a ops st = fold (direct_op a) ops st"

lemma direct_op1: "direct_op a = direct.op1 a"
  by (intro ext) (simp add: direct_op_def direct.op1_def)

lemma look_direct_run: "look_storage a (direct_run a ops st) = fold spec_op ops (look_storage a st)"
  using direct.ops_refine [where s = st and a = a and ops = ops] by (simp add: direct_run_def direct_op1)

lemma look_direct_other: "b \<noteq> a \<Longrightarrow> look_storage b (direct_run a ops st) = look_storage b st"
  unfolding direct_run_def
proof (induction ops arbitrary: st)
  case (Cons op ops)
  have "look_storage b (direct_op a op st) = look_storage b st"
    using Cons.prems by (cases op) (simp_all add: direct_op_def look_as_set look_as_delete look_as_clear)
  with Cons show ?case by simp
qed simp

section \<open>So does a transaction over it\<close>

definition tx_ok :: "'v tx \<Rightarrow> bool" where
  "tx_ok t \<longleftrightarrow> js_wf (tx_sets t) \<and> (\<forall>k. js_has (tx_sets t) k \<longrightarrow> k \<notin> set (tx_deletes t))"

definition look_tx :: "'v storage \<Rightarrow> 'v tx \<Rightarrow> 'v view" where
  "look_tx st t = (\<lambda>k. case js_get (tx_sets t) k of Some v \<Rightarrow> Some v
     | None \<Rightarrow> if k \<in> set (tx_deletes t) \<or> tx_clearAll t then None else look_storage (tx_actorId t) st k)"

definition stage_set :: "string \<Rightarrow> 'v jsv \<Rightarrow> 'v tx \<Rightarrow> 'v tx" where
  "stage_set k v t = t\<lparr>tx_deletes := set_del k (tx_deletes t), tx_sets := js_set k v (tx_sets t)\<rparr>"

definition stage_delete :: "string \<Rightarrow> 'v tx \<Rightarrow> 'v tx" where
  "stage_delete k t = t\<lparr>tx_sets := js_del k (tx_sets t), tx_deletes := set_add k (tx_deletes t)\<rparr>"

definition stage_clear :: "'v tx \<Rightarrow> 'v tx" where
  "stage_clear t = t\<lparr>tx_sets := [], tx_deletes := [], tx_clearAll := True\<rparr>"

lemma tx_open_ops:
  assumes "\<not> tx_closed t"
  shows "tx_set k v t = Inr (stage_set k v t)"
    and "tx_clear t = Inr (stage_clear t)"
    and "\<exists>b. tx_delete k t st = Inr (b, stage_delete k t)"
  using assms by (simp_all add: tx_set_def tx_clear_def tx_delete_def stage_set_def stage_clear_def stage_delete_def assertOpen_def Let_def)

interpretation overlay: kv_store "look_tx (st :: 'v storage)" stage_set stage_delete stage_clear tx_ok for st
proof unfold_locales
  fix t :: "'v tx" and k v
  assume ok: "tx_ok t"
  show "look_tx st (stage_set k v t) = (look_tx st t)(k \<mapsto> v)"
    by (rule ext) (simp add: look_tx_def stage_set_def split: option.split)
  show "look_tx st (stage_delete k t) = (look_tx st t)(k := None)"
    by (rule ext) (simp add: look_tx_def stage_delete_def split: option.split)
  show "look_tx st (stage_clear t) = Map.empty"
    by (rule ext) (simp add: look_tx_def stage_clear_def)
  show "tx_ok (stage_set k v t)" using ok by (simp add: tx_ok_def stage_set_def)
  show "tx_ok (stage_delete k t)" using ok by (simp add: tx_ok_def stage_delete_def)
  show "tx_ok (stage_clear t)" using ok by (simp add: tx_ok_def stage_clear_def js_has_def)
qed

text \<open>A run of calls on the transaction object, stopping at the first error.\<close>

definition tx_op :: "'v storage \<Rightarrow> 'v kv_op \<Rightarrow> 'v tx \<Rightarrow> (tx_error, 'v tx) result" where
  "tx_op st op t = (case op of Put k v \<Rightarrow> tx_set k v t
     | Remove k \<Rightarrow> rbind (tx_delete k t st) (\<lambda>(_, t'). Inr t') | Wipe \<Rightarrow> tx_clear t)"

fun tx_run :: "'v storage \<Rightarrow> 'v kv_op list \<Rightarrow> 'v tx \<Rightarrow> (tx_error, 'v tx) result" where
  "tx_run st [] t = Inr t"
| "tx_run st (op # ops) t = rbind (tx_op st op t) (tx_run st ops)"

lemma stage_keeps [simp]:
  "tx_closed (overlay.op1 op t) = tx_closed t" "tx_actorId (overlay.op1 op t) = tx_actorId t"
  "tx_ownerId (overlay.op1 op t) = tx_ownerId t" "tx_generation (overlay.op1 op t) = tx_generation t"
  by (simp_all add: overlay.op1_def stage_set_def stage_delete_def stage_clear_def split: kv_op.split)

lemma tx_op_open: "\<not> tx_closed t \<Longrightarrow> tx_op st op t = Inr (overlay.op1 op t)"
proof (cases op)
  case (Remove k)
  assume "\<not> tx_closed t"
  with tx_open_ops(3) [of t k st] Remove show ?thesis by (auto simp: tx_op_def overlay.op1_def)
qed (simp_all add: tx_op_def overlay.op1_def tx_open_ops)

lemma tx_run_open: "\<not> tx_closed t \<Longrightarrow> tx_run st ops t = Inr (fold overlay.op1 ops t)"
  by (induction ops arbitrary: t) (simp_all add: tx_op_open)

lemma fold_stage_keeps [simp]:
  "tx_closed (fold overlay.op1 ops t) = tx_closed t" "tx_actorId (fold overlay.op1 ops t) = tx_actorId t"
  "tx_ownerId (fold overlay.op1 ops t) = tx_ownerId t" "tx_generation (fold overlay.op1 ops t) = tx_generation t"
  by (induction ops arbitrary: t) simp_all

section \<open>Committing\<close>

lemma foldl_del_get: "js_get (foldl (\<lambda>m k. js_del k m) m ks) k = (if k \<in> set ks then None else js_get m k)"
  by (induction ks arbitrary: m) auto

lemma foldl_set_get:
  "js_wf kvs \<Longrightarrow> js_get (foldl (\<lambda>m (k, v). js_set k v m) m kvs) k = (case js_get kvs k of Some v \<Rightarrow> Some v | None \<Rightarrow> js_get m k)"
proof (induction kvs arbitrary: m)
  case (Cons kv kvs)
  obtain k' v where kv: "kv = (k', v)" by fastforce
  have "js_get kvs k' = None" using Cons.prems kv by (simp add: map_of_eq_None_iff)
  with Cons kv show ?case by (simp split: option.split)
qed simp

lemma look_apply:
  assumes "js_wf sets"
  shows "look_storage b (applyTransactionCommit a c sets dels st) =
    (if b = a then (\<lambda>k. case js_get sets k of Some v \<Rightarrow> Some v
        | None \<Rightarrow> if k \<in> set dels \<or> c then None else look_storage a st k)
     else look_storage b st)"
proof -
  define m where "m = foldl (\<lambda>m k. js_del k m) (getActorMap a (if c then js_del a (st_state st) else st_state st)) dels"
  define m' where "m' = foldl (\<lambda>m (k, v). js_set k v m) m sets"
  have m: "js_get m k = (if k \<in> set dels \<or> c then None else look_storage a st k)" for k
    by (simp add: m_def foldl_del_get look_storage_def getActorMap_def)
  have m': "js_get m' k = (case js_get sets k of Some v \<Rightarrow> Some v | None \<Rightarrow> js_get m k)" for k
    unfolding m'_def by (rule foldl_set_get [OF assms])
  define state where "state = (if c then js_del a (st_state st) else st_state st)"
  have result: "st_state (applyTransactionCommit a c sets dels st) = (if m' = [] then js_del a (js_set a m' state) else js_set a m' state)"
    by (simp add: applyTransactionCommit_def Let_def m_def m'_def state_def)
  have "getActorMap b (st_state (applyTransactionCommit a c sets dels st)) = (if b = a then m' else getActorMap b (st_state st))"
    unfolding result by (simp add: getActorMap_def state_def)
  then have "look_storage b (applyTransactionCommit a c sets dels st) = (if b = a then js_get m' else look_storage b st)"
    by (simp add: look_storage_def)
  then show ?thesis by (auto simp: m' m fun_eq_iff split: option.split)
qed

lemma look_setIdempotency [simp]: "look_storage b (setIdempotencyRecord now a rid resp st) = look_storage b st"
  by (simp add: look_storage_def setIdempotencyRecord_def Let_def)

lemma look_commit:
  assumes "tx_ok t"
  shows "look_storage b (snd (commit_apply now t st)) = (if b = tx_actorId t then look_tx st t else look_storage b st)"
  using assms by (cases "tx_idem t") (auto simp: commit_apply_def Let_def tx_ok_def look_apply look_tx_def fun_eq_iff)

lemma fresh_ok: "tx_ok (beginTransaction a ow g)" "\<not> tx_closed (beginTransaction a ow g)" "tx_actorId (beginTransaction a ow g) = a"
  by (simp_all add: tx_ok_def beginTransaction_def js_has_def)

lemma look_fresh: "look_tx st (beginTransaction a ow g) = look_storage a st"
  by (simp add: look_tx_def beginTransaction_def fun_eq_iff)

lemma tx_run_fresh:
  assumes "tx_run st ops (beginTransaction a ow g) = Inr t"
  shows "tx_ok t" "\<not> tx_closed t" "tx_actorId t = a" "look_tx st t = look_storage a (direct_run a ops st)"
proof -
  have t: "t = fold overlay.op1 ops (beginTransaction a ow g)"
    using assms by (simp add: tx_run_open fresh_ok)
  then show "\<not> tx_closed t" "tx_actorId t = a" by (simp_all add: fresh_ok)
  show "tx_ok t" "look_tx st t = look_storage a (direct_run a ops st)"
    using overlay.ops_refine [OF fresh_ok(1), of ops] look_fresh look_direct_run t by metis+
qed

section \<open>Fencing\<close>

datatype ownership_op = OAcquire int string "int option" bool | ORelease string

definition ownership_step :: "string \<Rightarrow> ownership_op \<Rightarrow> 'v storage \<Rightarrow> 'v storage" where
  "ownership_step a op st = (case op of
     OAcquire now w ttl force \<Rightarrow> snd (acquireOwnership now a w ttl force st)
   | ORelease w \<Rightarrow> snd (releaseOwnership a w st))"

definition fenced :: "string \<Rightarrow> string \<Rightarrow> nat \<Rightarrow> 'v storage \<Rightarrow> bool" where
  "fenced a w g st \<longleftrightarrow> (\<exists>r. getOwnership a st = Some r \<and> g \<le> ow_generation r \<and> (ow_generation r = g \<longrightarrow> ow_ownerId r = w))"

lemma fenced_acquire: "fenced a w g st \<Longrightarrow> fenced a w g (snd (acquireOwnership now a w' ttl force st))"
  by (auto simp: fenced_def acquireOwnership_def getOwnership_def Let_def)

lemma fenced_steps:
  "fenced a w g st \<Longrightarrow> \<forall>op \<in> set ops. \<exists>now w' ttl force. op = OAcquire now w' ttl force \<Longrightarrow>
   fenced a w g (fold (ownership_step a) ops st)"
proof (induction ops arbitrary: st)
  case (Cons op ops)
  then obtain now w' ttl force where "op = OAcquire now w' ttl force" by auto
  then have "fenced a w g (ownership_step a op st)" using Cons.prems(1) fenced_acquire by (simp add: ownership_step_def)
  with Cons show ?case by simp
qed simp

section \<open>Properties\<close>

text \<open>C5: A committed transaction has, for every actor and key, exactly the effect of performing its
  operations directly on the storage as it is at the commit; what other actors stored meanwhile is untouched.\<close>

theorem transaction_commits_as_batch:
  assumes "tx_run st ops (beginTransaction a ow g) = Inr t" "tx_commit now t st1 = Inr (t', st2)"
  shows "as_get b k st2 = as_get b k (direct_run a ops st1) \<and> as_has b k st2 = as_has b k (direct_run a ops st1) \<and>
    set (as_keys b st2) = set (as_keys b (direct_run a ops st1))"
proof -
  have t: "t = fold overlay.op1 ops (beginTransaction a ow g)"
    using assms(1) by (simp add: tx_run_open fresh_ok)
  have "tx_run st1 ops (beginTransaction a ow g) = Inr t" by (simp add: t tx_run_open fresh_ok)
  note run = tx_run_fresh [OF this]
  have "st2 = snd (commit_apply now t st1)" using assms(2) by (auto simp: tx_commit_def rbind_eq_Inr)
  then have "look_storage b st2 = look_storage b (direct_run a ops st1)"
    using run by (simp add: look_commit look_direct_other)
  then show ?thesis by (simp add: as_get_look as_has_look as_keys_look)
qed

text \<open>Inside a transaction every read answers as if the operations staged so far had been performed
  directly: \<^verbatim>\<open>get\<close> and \<^verbatim>\<open>has\<close> agree and \<^verbatim>\<open>keys\<close> lists each key once.\<close>

theorem transaction_reads_own_writes:
  assumes "tx_run st ops (beginTransaction a ow g) = Inr t"
  shows "tx_get k t st = Inr (as_get a k (direct_run a ops st)) \<and> tx_has k t st = Inr (as_has a k (direct_run a ops st)) \<and>
    (\<exists>ks. tx_keys t st = Inr ks \<and> distinct ks \<and> set ks = set (as_keys a (direct_run a ops st)))"
proof -
  note run = tx_run_fresh [OF assms]
  have view: "look_storage a (direct_run a ops st) = look_tx st t" using run(4) by simp
  have open_t: "assertOpen t = Inr ()" using run(2) by (simp add: assertOpen_def)
  have staged: "js_has (tx_sets t) k \<Longrightarrow> k \<notin> set (tx_deletes t)" for k using run(1) by (simp add: tx_ok_def)
  have "tx_get k t st = Inr (cell (look_tx st t k))"
    using staged [of k] run(3)
    by (auto simp: tx_get_def open_t look_tx_def js_has_def cell_def as_get_look split: option.split)
  moreover have "tx_has k t st = Inr (look_tx st t k \<noteq> None)"
    using staged [of k] run(3) by (auto simp: tx_has_def open_t look_tx_def js_has_def as_has_look split: option.split)
  moreover have "\<exists>ks. tx_keys t st = Inr ks \<and> distinct ks \<and> set ks = dom (look_tx st t)"
  proof -
    define base where "base = (if tx_clearAll t then [] else js_uniq (filter (\<lambda>k. k \<notin> set (tx_deletes t)) (as_keys (tx_actorId t) st)))"
    define ks where "ks = foldl (\<lambda>ks k. set_add k ks) base (js_keys (tx_sets t))"
    have "distinct base" by (simp add: base_def)
    then have ks: "distinct ks" "set ks = set base \<union> fst ` set (tx_sets t)"
      using foldl_set_add [of base "js_keys (tx_sets t)"] by (simp_all add: ks_def)
    have "set base \<union> dom (js_get (tx_sets t)) = dom (look_tx st t)"
      by (auto simp: base_def look_tx_def as_keys_look split: option.splits if_splits)
    with ks have "set ks = dom (look_tx st t)" by (simp add: dom_map_of_conv_image_fst)
    moreover have "tx_keys t st = Inr ks" by (simp add: tx_keys_def open_t ks_def base_def)
    ultimately show ?thesis using ks(1) by blast
  qed
  ultimately show ?thesis by (simp add: as_get_look as_has_look as_keys_look view)
qed

text \<open>C34: Fencing is exact while nobody releases: a transaction begun by an owner under its generation passes
  the commit check if and only if the actor is still held by that owner under that very generation, whatever
  acquisitions, renewals and forced takeovers happened in between.\<close>

theorem commit_is_fenced:
  assumes "getOwnership a st = Some r" "ow_ownerId r = w" "w \<noteq> ''''"
    and "tx_run st0 ops (beginTransaction a (Some w) (Some (ow_generation r))) = Inr t"
    and "\<forall>op \<in> set acts. \<exists>now w' ttl force. op = OAcquire now w' ttl force"
  shows "commit_check t (fold (ownership_step a) acts st) = Inr () \<longleftrightarrow>
    (\<exists>r1. getOwnership a (fold (ownership_step a) acts st) = Some r1 \<and> ow_ownerId r1 = w \<and> ow_generation r1 = ow_generation r)"
proof -
  have t: "t = fold overlay.op1 ops (beginTransaction a (Some w) (Some (ow_generation r)))"
    using assms(4) by (simp add: tx_run_open fresh_ok)
  have keep: "\<not> tx_closed t" "tx_actorId t = a" "tx_ownerId t = Some w" "tx_generation t = Some (ow_generation r)"
    unfolding t fold_stage_keeps by (simp_all add: beginTransaction_def)
  have "fenced a w (ow_generation r) st" using assms(1,2) by (simp add: fenced_def)
  then obtain r1 where "getOwnership a (fold (ownership_step a) acts st) = Some r1" "ow_generation r \<le> ow_generation r1"
    "ow_generation r1 = ow_generation r \<longrightarrow> ow_ownerId r1 = w"
    using fenced_steps [OF _ assms(5), of a w "ow_generation r" st] unfolding fenced_def by blast
  with keep assms(3) show ?thesis
    by (auto simp: commit_check_def assertOpen_def guard_or_def owner_given_def)
qed

text \<open>A release ends the fencing: after another host has taken the actor over by force, and released it
  again, the generation restarts at one, and once the first host re-acquires the actor, a transaction it had begun
  before the takeover passes the check.\<close>

theorem release_resets_fence:
  assumes "\<not> tx_closed t" "tx_actorId t = a" "tx_ownerId t = Some w" "tx_generation t = Some (Suc g)" "w \<noteq> w'"
  shows "commit_check t (fold (ownership_step a) [OAcquire n1 w' ttl1 True, ORelease w', OAcquire n2 w ttl2 False] st) = Inr ()"
proof -
  define st1 where "st1 = snd (acquireOwnership n1 a w' ttl1 True st)"
  have "\<exists>r. getOwnership a st1 = Some r \<and> ow_ownerId r = w'"
    by (simp add: st1_def acquireOwnership_def getOwnership_def Let_def split: option.split)
  then obtain r where r: "getOwnership a st1 = Some r" "ow_ownerId r = w'" by blast
  define st2 where "st2 = snd (releaseOwnership a w' st1)"
  have none: "getOwnership a st2 = None" using r by (simp add: st2_def releaseOwnership_def getOwnership_def)
  have "getOwnership a (snd (acquireOwnership n2 a w ttl2 False st2)) =
      Some \<lparr>ow_ownerId = w, ow_generation = 1, ow_acquiredAt = n2, ow_leaseExpiresAt = lease_end n2 ttl2\<rparr>"
    using none by (simp add: acquireOwnership_def getOwnership_def Let_def)
  with assms show ?thesis
    by (simp add: ownership_step_def commit_check_def assertOpen_def flip: st1_def st2_def)
qed

section \<open>Instances\<close>

definition sample_ops :: "nat kv_op list" where
  "sample_ops = [Put ''x'' (JVal 1), Remove ''y'', Put ''z'' JUndef]"

definition sample_storage :: "nat storage" where
  "sample_storage = as_set ''a'' ''y'' (JVal 7) storage_new"

definition sample_owned :: "nat storage" where
  "sample_owned = snd (acquireOwnership 0 ''a'' ''h1'' (Some 10) False sample_storage)"

definition sample_tx :: "string option \<Rightarrow> nat option \<Rightarrow> nat tx" where
  "sample_tx w g = (beginTransaction ''a'' w g)\<lparr>tx_sets := [(''x'', JVal 1), (''z'', JUndef)], tx_deletes := [''y'']\<rparr>"

lemma sample_run: "tx_run sample_storage sample_ops (beginTransaction ''a'' w g) = Inr (sample_tx w g)"
  by (simp add: sample_ops_def sample_tx_def tx_op_def tx_set_def tx_delete_def beginTransaction_def assertOpen_def set_del_def set_add_def)

lemma transaction_commits_as_batch_witness:
  "as_get ''a'' ''y'' (snd (commit_apply 5 (sample_tx None None) sample_storage)) = JUndef"
proof -
  have "tx_commit 5 (sample_tx None None) sample_storage = Inr (fst (commit_apply 5 (sample_tx None None) sample_storage),
      snd (commit_apply 5 (sample_tx None None) sample_storage))"
    by (simp add: tx_commit_def commit_check_def assertOpen_def sample_tx_def beginTransaction_def)
  from transaction_commits_as_batch [OF sample_run this, of "''a''" "''y''"] show ?thesis
    by (simp add: direct_run_def direct_op_def sample_ops_def as_get_look look_as_set look_as_delete cell_def)
qed

lemma transaction_reads_own_writes_witness:
  "tx_get ''x'' (sample_tx None None) sample_storage = Inr (JVal 1) \<and> tx_has ''z'' (sample_tx None None) sample_storage = Inr True"
  using transaction_reads_own_writes [OF sample_run, of "''x''" None None] transaction_reads_own_writes [OF sample_run, of "''z''" None None]
  by (simp add: direct_run_def direct_op_def sample_ops_def as_get_look as_has_look look_as_set look_as_delete cell_def)

lemma commit_is_fenced_witness:
  "commit_check (sample_tx (Some ''h1'') (Some 1)) (fold (ownership_step ''a'') [OAcquire 20 ''h2'' None False] sample_owned) \<noteq> Inr ()"
proof -
  have own: "getOwnership ''a'' sample_owned =
      Some \<lparr>ow_ownerId = ''h1'', ow_generation = 1, ow_acquiredAt = 0, ow_leaseExpiresAt = Some 10\<rparr>"
    by (simp add: sample_owned_def sample_storage_def storage_new_def as_set_def acquireOwnership_def getOwnership_def lease_end_def Let_def)
  then have taken: "getOwnership ''a'' (fold (ownership_step ''a'') [OAcquire 20 ''h2'' None False] sample_owned) =
      Some \<lparr>ow_ownerId = ''h2'', ow_generation = 2, ow_acquiredAt = 20, ow_leaseExpiresAt = None\<rparr>"
    by (simp add: ownership_step_def acquireOwnership_def getOwnership_def lease_expired_def lease_end_def Let_def)
  have run: "tx_run sample_storage sample_ops (beginTransaction ''a'' (Some ''h1'') (Some (ow_generation
      \<lparr>ow_ownerId = ''h1'', ow_generation = 1, ow_acquiredAt = 0, ow_leaseExpiresAt = Some 10\<rparr>))) = Inr (sample_tx (Some ''h1'') (Some 1))"
    using sample_run [of "Some ''h1''" "Some 1"] by simp
  have acts: "\<forall>op \<in> set [OAcquire 20 ''h2'' None False]. \<exists>now w' ttl force. op = OAcquire now w' ttl force" by auto
  have iff: "commit_check (sample_tx (Some ''h1'') (Some 1)) (fold (ownership_step ''a'') [OAcquire 20 ''h2'' None False] sample_owned) = Inr () \<longleftrightarrow>
    (\<exists>r1. getOwnership ''a'' (fold (ownership_step ''a'') [OAcquire 20 ''h2'' None False] sample_owned) = Some r1 \<and>
      ow_ownerId r1 = ''h1'' \<and> ow_generation r1 = 1)"
    using commit_is_fenced [OF own, where w = "''h1''", OF _ _ run acts] by simp
  show ?thesis unfolding iff taken by simp
qed

lemma release_resets_fence_witness:
  "commit_check (sample_tx (Some ''h1'') (Some 1))
     (fold (ownership_step ''a'') [OAcquire 1 ''h2'' None True, ORelease ''h2'', OAcquire 2 ''h1'' None False] sample_owned) = Inr ()"
  by (rule release_resets_fence [where g = 0]) (simp_all add: sample_tx_def beginTransaction_def)

end
