(* ===== verification/Mailbox.thy ===== *)
theory Mailbox
  imports Prelude "HOL-Library.Sublist"
begin

text \<open>
  The mailbox of an actor, which serialises its invocations:
  \<^verbatim>\<open>di-framework-actors/src/runtime/mailbox.ts\<close>.

  A task is a token whose promise settles with an outcome.  \<^verbatim>\<open>processQueue\<close> is an async
  loop: it runs synchronously up to the await of a task, and continues in a later turn after the
  task has settled.  Its suspended invocations are kept in a list, so that at most one of them
  exists is a theorem.  The lists \<open>mb_accepted\<close>, \<open>mb_started\<close> and \<open>mb_settled\<close> record what
  the callers observe.
\<close>

section \<open>The mailbox\<close>

datatype 't suspended = Awaiting 't | Resuming

datatype ('r, 'e) outcome = Resolved 'r | Rejected 'e

record ('t, 'r, 'e) mailbox =
  mb_queue :: "'t list"
  mb_maxQueueLength :: "nat option"
  mb_processing :: bool
  mb_runningCalls :: nat
  mb_admissionClosed :: bool
  mb_loops :: "'t suspended list"
  mb_accepted :: "'t list"
  mb_started :: "'t list"
  mb_settled :: "('t \<times> ('r, 'e) outcome) list"

definition mailbox_new :: "nat option \<Rightarrow> ('t, 'r, 'e) mailbox" where
  "mailbox_new maxQ = \<lparr>mb_queue = [], mb_maxQueueLength = maxQ, mb_processing = False, mb_runningCalls = 0,
     mb_admissionClosed = False, mb_loops = [], mb_accepted = [], mb_started = [], mb_settled = []\<rparr>"

text \<open>The head of the loop: shift and start the next task, or leave the loop.\<close>

definition loop_head :: "('t, 'r, 'e) mailbox \<Rightarrow> ('t, 'r, 'e) mailbox" where
  "loop_head m = (case mb_queue m of
     [] \<Rightarrow> m\<lparr>mb_processing := False\<rparr>
   | t # q \<Rightarrow> m\<lparr>mb_queue := q, mb_runningCalls := Suc (mb_runningCalls m),
              mb_loops := mb_loops m @ [Awaiting t], mb_started := mb_started m @ [t]\<rparr>)"

definition processQueue :: "('t, 'r, 'e) mailbox \<Rightarrow> ('t, 'r, 'e) mailbox" where
  "processQueue m = (if mb_processing m then m else loop_head (m\<lparr>mb_processing := True\<rparr>))"

datatype admission = Admitted | AdmissionClosed | Backpressure nat nat

definition enqueue :: "'t \<Rightarrow> ('t, 'r, 'e) mailbox \<Rightarrow> admission \<times> ('t, 'r, 'e) mailbox" where
  "enqueue t m = (if mb_admissionClosed m then (AdmissionClosed, m)
     else case mb_maxQueueLength m of
       Some n \<Rightarrow> if length (mb_queue m) \<ge> n then (Backpressure (length (mb_queue m)) n, m)
                 else (Admitted, processQueue (m\<lparr>mb_queue := mb_queue m @ [t], mb_accepted := mb_accepted m @ [t]\<rparr>))
     | None \<Rightarrow> (Admitted, processQueue (m\<lparr>mb_queue := mb_queue m @ [t], mb_accepted := mb_accepted m @ [t]\<rparr>)))"

text \<open>The wrapped task settles its promise and lowers the counter; the loop that awaits it will resume.\<close>

definition finish :: "'t \<Rightarrow> ('r, 'e) outcome \<Rightarrow> ('t, 'r, 'e) mailbox \<Rightarrow> ('t, 'r, 'e) mailbox" where
  "finish t r m = (if Awaiting t \<in> set (mb_loops m)
     then m\<lparr>mb_runningCalls := mb_runningCalls m - 1, mb_settled := mb_settled m @ [(t, r)],
            mb_loops := remove1 (Awaiting t) (mb_loops m) @ [Resuming]\<rparr>
     else m)"

definition resume :: "('t, 'r, 'e) mailbox \<Rightarrow> ('t, 'r, 'e) mailbox" where
  "resume m = (if Resuming \<in> set (mb_loops m) then loop_head (m\<lparr>mb_loops := remove1 Resuming (mb_loops m)\<rparr>) else m)"

definition stopAdmission :: "('t, 'r, 'e) mailbox \<Rightarrow> ('t, 'r, 'e) mailbox" where
  "stopAdmission m = m\<lparr>mb_admissionClosed := True\<rparr>"

definition resumeAdmission :: "('t, 'r, 'e) mailbox \<Rightarrow> ('t, 'r, 'e) mailbox" where
  "resumeAdmission m = m\<lparr>mb_admissionClosed := False\<rparr>"

definition failPending :: "'e \<Rightarrow> ('t, 'r, 'e) mailbox \<Rightarrow> nat \<times> ('t, 'r, 'e) mailbox" where
  "failPending e m = (length (mb_queue m), m\<lparr>mb_settled := mb_settled m @ map (\<lambda>t. (t, Rejected e)) (mb_queue m), mb_queue := []\<rparr>)"

definition mailbox_clear :: "'e \<Rightarrow> ('t, 'r, 'e) mailbox \<Rightarrow> ('t, 'r, 'e) mailbox" where
  "mailbox_clear cleared m = m\<lparr>mb_queue := [], mb_settled := mb_settled m @ map (\<lambda>t. (t, Rejected cleared)) (mb_queue m)\<rparr>"

definition isBusy :: "('t, 'r, 'e) mailbox \<Rightarrow> bool" where
  "isBusy m \<longleftrightarrow> mb_processing m \<or> mb_runningCalls m > 0"

text \<open>The condition \<^verbatim>\<open>drain\<close> polls for, and its loop over the successive polls: the clock and
  the mailbox as found at each.\<close>

definition undrained :: "('t, 'r, 'e) mailbox \<Rightarrow> bool" where
  "undrained m \<longleftrightarrow> length (mb_queue m) > 0 \<or> mb_runningCalls m > 0 \<or> mb_processing m"

datatype drain_result = Drained | DrainTimeout | StillPolling

fun drain :: "int \<Rightarrow> int \<Rightarrow> (int \<times> ('t, 'r, 'e) mailbox) list \<Rightarrow> drain_result" where
  "drain timeoutMs start [] = StillPolling"
| "drain timeoutMs start ((now, m) # polls) =
     (if \<not> undrained m then Drained
      else if now - start \<ge> timeoutMs then DrainTimeout
      else drain timeoutMs start polls)"

section \<open>Runs\<close>

datatype ('t, 'r, 'e) mb_event =
    Enqueue 't
  | Finish 't "('r, 'e) outcome"
  | Resume
  | StopAdmission
  | ResumeAdmission
  | FailPending 'e
  | Clear 'e

definition mb_step :: "('t, 'r, 'e) mb_event \<Rightarrow> ('t, 'r, 'e) mailbox \<Rightarrow> ('t, 'r, 'e) mailbox" where
  "mb_step ev m = (case ev of
     Enqueue t \<Rightarrow> snd (enqueue t m)
   | Finish t r \<Rightarrow> finish t r m
   | Resume \<Rightarrow> resume m
   | StopAdmission \<Rightarrow> stopAdmission m
   | ResumeAdmission \<Rightarrow> resumeAdmission m
   | FailPending e \<Rightarrow> snd (failPending e m)
   | Clear e \<Rightarrow> mailbox_clear e m)"

definition mb_run :: "('t, 'r, 'e) mb_event list \<Rightarrow> ('t, 'r, 'e) mailbox \<Rightarrow> ('t, 'r, 'e) mailbox" where
  "mb_run evs m = fold mb_step evs m"

lemma mb_run_simps [simp]: "mb_run [] m = m" "mb_run (ev # evs) m = mb_run evs (mb_step ev m)"
  "mb_run (evs @ evs') m = mb_run evs' (mb_run evs m)"
  by (simp_all add: mb_run_def)

text \<open>The running tasks, and the shape of the loop list: nothing, one awaited task, or one continuation.\<close>

definition running :: "('t, 'r, 'e) mailbox \<Rightarrow> 't list" where
  "running m = concat (map (\<lambda>s. case s of Awaiting t \<Rightarrow> [t] | Resuming \<Rightarrow> []) (mb_loops m))"

definition mb_ok :: "('t, 'r, 'e) mailbox \<Rightarrow> bool" where
  "mb_ok m \<longleftrightarrow> (mb_loops m = [] \<and> \<not> mb_processing m \<and> mb_queue m = [] \<and> mb_runningCalls m = 0) \<or>
     (\<exists>t. mb_loops m = [Awaiting t] \<and> mb_processing m \<and> mb_runningCalls m = 1) \<or>
     (mb_loops m = [Resuming] \<and> mb_processing m \<and> mb_runningCalls m = 0)"

lemma mb_okE:
  assumes "mb_ok m"
  obtains (idle) "mb_loops m = []" "\<not> mb_processing m" "mb_queue m = []" "mb_runningCalls m = 0"
    | (busy) t where "mb_loops m = [Awaiting t]" "mb_processing m" "mb_runningCalls m = 1"
    | (resuming) "mb_loops m = [Resuming]" "mb_processing m" "mb_runningCalls m = 0"
  using assms by (auto simp: mb_ok_def)

lemma mb_ok_new: "mb_ok (mailbox_new maxQ)"
  by (simp add: mb_ok_def mailbox_new_def)

lemmas mailbox_defs = mb_step_def enqueue_def processQueue_def loop_head_def finish_def resume_def stopAdmission_def
  resumeAdmission_def failPending_def mailbox_clear_def

lemma mb_ok_step: "mb_ok m \<Longrightarrow> mb_ok (mb_step ev m)"
  by (erule mb_okE; cases ev)
    (auto simp: mailbox_defs mb_ok_def split: list.split option.split)

lemma mb_ok_run: "mb_ok m \<Longrightarrow> mb_ok (mb_run evs m)"
  by (induction evs arbitrary: m) (simp_all add: mb_ok_step)

section \<open>What the callers see\<close>

text \<open>Every accepted task is waiting, running or settled, each exactly once; tasks start in the order in which they
  were accepted.\<close>

definition mb_book :: "('t, 'r, 'e) mailbox \<Rightarrow> bool" where
  "mb_book m \<longleftrightarrow> distinct (mb_accepted m) \<and>
     mset (map fst (mb_settled m)) + mset (running m) + mset (mb_queue m) = mset (mb_accepted m) \<and>
     subseq (mb_started m @ mb_queue m) (mb_accepted m)"

definition fresh_event :: "('t, 'r, 'e) mb_event \<Rightarrow> ('t, 'r, 'e) mailbox \<Rightarrow> bool" where
  "fresh_event ev m = (case ev of Enqueue t \<Rightarrow> t \<notin> set (mb_accepted m) | _ \<Rightarrow> True)"

fun fresh_run :: "('t, 'r, 'e) mb_event list \<Rightarrow> ('t, 'r, 'e) mailbox \<Rightarrow> bool" where
  "fresh_run [] m = True"
| "fresh_run (ev # evs) m = (fresh_event ev m \<and> fresh_run evs (mb_step ev m))"

lemma subseq_drop_suffix: "subseq (xs @ ys) zs \<Longrightarrow> subseq xs zs"
  by (meson subseq_order.trans prefix_imp_subseq prefixI)

lemma subseq_snoc: "subseq (xs @ ys) zs \<Longrightarrow> subseq (xs @ ys @ [x]) (zs @ [x])"
  using list_emb_append_mono [of "(=)" "xs @ ys" zs "[x]" "[x]"] by simp

lemma mb_book_step:
  assumes "mb_ok m" "mb_book m" "fresh_event ev m"
  shows "mb_book (mb_step ev m)"
  using assms(1)
proof (cases rule: mb_okE)
  case idle
  then show ?thesis using assms(2,3)
    by (cases ev) (auto simp: mailbox_defs mb_book_def running_def fresh_event_def split: option.split)
next
  case (busy t)
  then show ?thesis using assms(2,3)
    by (cases ev) (auto simp: mailbox_defs mb_book_def running_def fresh_event_def o_def split: option.split
        dest: subseq_drop_suffix subseq_snoc)
next
  case resuming
  then show ?thesis using assms(2,3)
    by (cases ev) (auto simp: mailbox_defs mb_book_def running_def fresh_event_def o_def split: option.split list.split
        dest: subseq_drop_suffix subseq_snoc)
qed

lemma mb_book_run: "mb_ok m \<Longrightarrow> mb_book m \<Longrightarrow> fresh_run evs m \<Longrightarrow> mb_book (mb_run evs m)"
  by (induction evs arbitrary: m) (simp_all add: mb_ok_step mb_book_step)

lemma mb_book_new: "mb_book (mailbox_new maxQ)"
  by (simp add: mb_book_def mailbox_new_def running_def)

section \<open>Draining\<close>

text \<open>Letting the running task finish, or the loop resume, again and again.\<close>

definition drive_event :: "('t \<Rightarrow> ('r, 'e) outcome) \<Rightarrow> ('t, 'r, 'e) mailbox \<Rightarrow> ('t, 'r, 'e) mb_event" where
  "drive_event res m = (case running m of t # _ \<Rightarrow> Finish t (res t) | [] \<Rightarrow> Resume)"

fun drive :: "nat \<Rightarrow> ('t \<Rightarrow> ('r, 'e) outcome) \<Rightarrow> ('t, 'r, 'e) mailbox \<Rightarrow> ('t, 'r, 'e) mailbox" where
  "drive 0 res m = m"
| "drive (Suc n) res m = drive n res (mb_step (drive_event res m) m)"

definition work :: "('t, 'r, 'e) mailbox \<Rightarrow> nat" where
  "work m = 2 * length (mb_queue m) + (if mb_loops m = [] then 0 else if running m = [] then 1 else 2)"

lemma drive_keeps: "mb_ok m \<Longrightarrow> mb_book m \<Longrightarrow> mb_ok (drive n res m) \<and> mb_book (drive n res m) \<and> mb_accepted (drive n res m) = mb_accepted m"
proof (induction n arbitrary: m)
  case (Suc n)
  have "fresh_event (drive_event res m) m" by (simp add: fresh_event_def drive_event_def split: list.split)
  moreover have "mb_accepted (mb_step (drive_event res m) m) = mb_accepted m"
    by (auto simp: drive_event_def mailbox_defs split: list.split)
  ultimately show ?case using Suc by (simp add: mb_ok_step mb_book_step)
qed simp

lemma work_decreases:
  assumes "mb_ok m" "work m \<noteq> 0"
  shows "work (mb_step (drive_event res m) m) < work m"
  using assms(1)
proof (cases rule: mb_okE)
  case idle
  with assms(2) show ?thesis by (simp add: work_def)
next
  case (busy t)
  then show ?thesis by (simp add: work_def drive_event_def running_def mailbox_defs)
next
  case resuming
  then show ?thesis by (cases "mb_queue m") (simp_all add: work_def drive_event_def running_def mailbox_defs)
qed

lemma drive_works: "mb_ok m \<Longrightarrow> work m \<le> n \<Longrightarrow> work (drive n res m) = 0"
proof (induction n arbitrary: m)
  case (Suc n)
  show ?case
  proof (cases "work m = 0")
    case True
    with Suc.prems(1) have "work (mb_step (drive_event res m) m) = 0"
      by (auto simp: mb_ok_def work_def drive_event_def running_def mailbox_defs split: if_splits)
    with Suc show ?thesis by (simp add: mb_ok_step)
  next
    case False
    with work_decreases [OF Suc.prems(1)] Suc.prems(2) have "work (mb_step (drive_event res m) m) \<le> n" by (meson less_Suc_eq_le order_less_le_trans)
    with Suc show ?thesis by (simp add: mb_ok_step)
  qed
qed simp

lemma no_work:
  assumes "mb_ok m" "work m = 0"
  shows "\<not> undrained m \<and> running m = [] \<and> mb_queue m = []"
  using assms(1) by (cases rule: mb_okE) (use assms(2) in \<open>auto simp: work_def running_def undrained_def\<close>)

section \<open>Properties\<close>

text \<open>In every run of the mailbox at most one task runs at a time, the counter reports it, and tasks are started
  in the order in which their calls were accepted.\<close>

theorem mailbox_serialises:
  assumes "m = mb_run evs (mailbox_new maxQ)" "fresh_run evs (mailbox_new maxQ)"
  shows "length (running m) \<le> 1 \<and> mb_runningCalls m = length (running m) \<and> subseq (mb_started m) (mb_accepted m)"
proof -
  have ok: "mb_ok m" unfolding assms(1) by (rule mb_ok_run [OF mb_ok_new])
  have "mb_book m" unfolding assms(1) by (rule mb_book_run [OF mb_ok_new mb_book_new assms(2)])
  then have "subseq (mb_started m) (mb_accepted m)" by (auto simp: mb_book_def dest: subseq_drop_suffix)
  with ok show ?thesis by (auto simp: mb_ok_def running_def)
qed

text \<open>C26: No accepted call is lost: from every reachable state, once the running task settles and the loop
  continues, at most twice per waiting call and twice more, the mailbox is drained and every accepted call has
  settled exactly once.\<close>

theorem accepted_calls_settle_once:
  assumes "fresh_run evs (mailbox_new maxQ)" "m = mb_run evs (mailbox_new maxQ)" "n \<ge> 2 * length (mb_queue m) + 2"
  shows "\<not> undrained (drive n res m) \<and> mset (map fst (mb_settled (drive n res m))) = mset (mb_accepted m) \<and>
    distinct (map fst (mb_settled (drive n res m)))"
proof -
  have ok: "mb_ok m" unfolding assms(2) by (rule mb_ok_run [OF mb_ok_new])
  have book: "mb_book m" unfolding assms(2) by (rule mb_book_run [OF mb_ok_new mb_book_new assms(1)])
  note keep = drive_keeps [OF ok book, of n res]
  have "work m \<le> n" using assms(3) by (simp add: work_def)
  from no_work [OF _ drive_works [OF ok this]] keep
  have drained: "\<not> undrained (drive n res m)" "running (drive n res m) = []" "mb_queue (drive n res m) = []" by blast+
  with keep have all: "mset (map fst (mb_settled (drive n res m))) = mset (mb_accepted m)" "distinct (mb_accepted m)"
    by (auto simp: mb_book_def)
  then have "distinct (map fst (mb_settled (drive n res m)))" by (metis mset_eq_imp_distinct_iff)
  with all drained show ?thesis by blast
qed

text \<open>The queue never grows past the configured capacity, and a call that would exceed it is refused with
  the mailbox unchanged.\<close>

lemma queue_bound_step:
  assumes "mb_maxQueueLength m = Some n" "length (mb_queue m) \<le> n"
  shows "mb_maxQueueLength (mb_step ev m) = Some n \<and> length (mb_queue (mb_step ev m)) \<le> n"
proof (cases ev)
  case (Enqueue t)
  show ?thesis
    using assms by (cases "mb_queue m") (auto simp: Enqueue mailbox_defs split: list.split)
qed (use assms in \<open>auto simp: mailbox_defs split: list.split\<close>)

theorem mailbox_capacity:
  "length (mb_queue (mb_run evs (mailbox_new (Some n)))) \<le> n"
proof -
  have "mb_maxQueueLength m = Some n \<Longrightarrow> length (mb_queue m) \<le> n \<Longrightarrow> length (mb_queue (mb_run evs m)) \<le> n"
    for m :: "('a, 'b, 'c) mailbox"
    by (induction evs arbitrary: m) (use queue_bound_step in auto)
  then show ?thesis by (simp add: mailbox_new_def)
qed

section \<open>Instances\<close>

definition sample_events :: "(nat, nat, string) mb_event list" where
  "sample_events = [Enqueue 1, Enqueue 2, Enqueue 3, Finish 1 (Resolved 10), Resume]"

lemma sample_fresh: "fresh_run sample_events (mailbox_new None)"
  by (simp add: sample_events_def mailbox_new_def fresh_event_def mailbox_defs)

lemma mailbox_serialises_witness:
  "length (running (mb_run sample_events (mailbox_new None))) \<le> 1"
  using mailbox_serialises [OF refl sample_fresh] by blast

lemma accepted_calls_settle_once_witness:
  "mset (map fst (mb_settled (drive 8 (\<lambda>t. Resolved t) (mb_run sample_events (mailbox_new None))))) = mset [1, 2, 3]"
proof -
  have "mb_queue (mb_run sample_events (mailbox_new None)) = [3]" "mb_accepted (mb_run sample_events (mailbox_new None)) = [1, 2, 3]"
    by (simp_all add: sample_events_def mailbox_new_def mailbox_defs)
  then show ?thesis using accepted_calls_settle_once [OF sample_fresh refl, of 8 "\<lambda>t. Resolved t"] by simp
qed

end
