(* ===== verification/ActorRuntime.thy ===== *)
theory ActorRuntime
  imports ActorIdentity ActorStorage Mailbox
begin

text \<open>
  The actor runtime over its mailboxes and its storage:
  \<^verbatim>\<open>di-framework-actors/src/runtime/runtime.ts\<close>.

  The first part is the life of mailboxes and instances under \<^verbatim>\<open>invoke\<close>,
  \<^verbatim>\<open>deactivate\<close>, \<^verbatim>\<open>reload\<close> and \<^verbatim>\<open>reset\<close>: a mailbox that is removed
  from the map while one of its tasks is running lives on in that task, so removed mailboxes are kept.
  The second part is what one invocation does inside its mailbox turn; the method of the actor is a
  function from the storage to the operations it stages and its outcome, and migrations are a
  parameter.
\<close>

section \<open>Mailboxes and instances\<close>

record ('t, 'r, 'e) rt_state =
  rt_maxMailboxSize :: "nat option"
  rt_mailboxes :: "(string, ('t, 'r, 'e) mailbox) jsmap"
  rt_removed :: "(string \<times> ('t, 'r, 'e) mailbox) list"
  rt_instances :: "string list"
  rt_deactivating :: "string list"

definition runtime_new :: "nat option \<Rightarrow> ('t, 'r, 'e) rt_state" where
  "runtime_new maxQ = \<lparr>rt_maxMailboxSize = maxQ, rt_mailboxes = [], rt_removed = [], rt_instances = [], rt_deactivating = []\<rparr>"

definition getOrCreateMailbox :: "string \<Rightarrow> ('t, 'r, 'e) rt_state \<Rightarrow> ('t, 'r, 'e) mailbox" where
  "getOrCreateMailbox a s = (case js_get (rt_mailboxes s) a of Some m \<Rightarrow> m | None \<Rightarrow> mailbox_new (rt_maxMailboxSize s))"

definition rt_enqueue :: "string \<Rightarrow> 't \<Rightarrow> ('t, 'r, 'e) rt_state \<Rightarrow> admission \<times> ('t, 'r, 'e) rt_state" where
  "rt_enqueue a t s = (case enqueue t (getOrCreateMailbox a s) of
     (r, m) \<Rightarrow> (r, s\<lparr>rt_mailboxes := js_set a m (rt_mailboxes s)\<rparr>))"

text \<open>\<^verbatim>\<open>mailbox.clear(); this.mailboxes.delete(id)\<close>\<close>

definition drop_mailbox :: "'e \<Rightarrow> string \<Rightarrow> ('t, 'r, 'e) rt_state \<Rightarrow> ('t, 'r, 'e) rt_state" where
  "drop_mailbox e a s = (case js_get (rt_mailboxes s) a of
     None \<Rightarrow> s
   | Some m \<Rightarrow> s\<lparr>rt_mailboxes := js_del a (rt_mailboxes s), rt_removed := rt_removed s @ [(a, mailbox_clear e m)]\<rparr>)"

text \<open>\<^verbatim>\<open>deactivate\<close> up to the await of the actor's own hook, and from there.\<close>

definition deactivate_begin :: "string \<Rightarrow> ('t, 'r, 'e) rt_state \<Rightarrow> ('t, 'r, 'e) rt_state" where
  "deactivate_begin a s = (if a \<in> set (rt_instances s) then s\<lparr>rt_deactivating := rt_deactivating s @ [a]\<rparr> else s)"

definition deactivate_end :: "'e \<Rightarrow> string \<Rightarrow> ('t, 'r, 'e) rt_state \<Rightarrow> ('t, 'r, 'e) rt_state" where
  "deactivate_end e a s = (if a \<in> set (rt_deactivating s)
     then drop_mailbox e a (s\<lparr>rt_deactivating := remove1 a (rt_deactivating s), rt_instances := set_del a (rt_instances s)\<rparr>)
     else s)"

text \<open>\<^verbatim>\<open>reload\<close> closes the mailbox, waits until it is drained, and only then releases it;
  \<^verbatim>\<open>reset\<close> closes and drops it at once.\<close>

definition reload_stop :: "string \<Rightarrow> ('t, 'r, 'e) rt_state \<Rightarrow> ('t, 'r, 'e) rt_state" where
  "reload_stop a s = (case js_get (rt_mailboxes s) a of
     None \<Rightarrow> s | Some m \<Rightarrow> s\<lparr>rt_mailboxes := js_set a (stopAdmission m) (rt_mailboxes s)\<rparr>)"

definition reload_abort :: "string \<Rightarrow> ('t, 'r, 'e) rt_state \<Rightarrow> ('t, 'r, 'e) rt_state" where
  "reload_abort a s = (case js_get (rt_mailboxes s) a of
     None \<Rightarrow> s | Some m \<Rightarrow> s\<lparr>rt_mailboxes := js_set a (resumeAdmission m) (rt_mailboxes s)\<rparr>)"

definition reload_fail_pending :: "'e \<Rightarrow> string \<Rightarrow> ('t, 'r, 'e) rt_state \<Rightarrow> ('t, 'r, 'e) rt_state" where
  "reload_fail_pending e a s = (case js_get (rt_mailboxes s) a of
     None \<Rightarrow> s | Some m \<Rightarrow> s\<lparr>rt_mailboxes := js_set a (snd (failPending e m)) (rt_mailboxes s)\<rparr>)"

definition reload_release :: "'e \<Rightarrow> string \<Rightarrow> ('t, 'r, 'e) rt_state \<Rightarrow> ('t, 'r, 'e) rt_state" where
  "reload_release e a s = (case js_get (rt_mailboxes s) a of
     None \<Rightarrow> s\<lparr>rt_instances := set_del a (rt_instances s)\<rparr>
   | Some m \<Rightarrow> if undrained m then s
       else drop_mailbox e a (s\<lparr>rt_instances := set_del a (rt_instances s)\<rparr>))"

definition reset_actor :: "'e \<Rightarrow> 'e \<Rightarrow> string \<Rightarrow> ('t, 'r, 'e) rt_state \<Rightarrow> ('t, 'r, 'e) rt_state" where
  "reset_actor e_reset e a s = (case js_get (rt_mailboxes s) a of
     None \<Rightarrow> s\<lparr>rt_instances := set_del a (rt_instances s)\<rparr>
   | Some m \<Rightarrow> drop_mailbox e a (s\<lparr>rt_mailboxes := js_set a (snd (failPending e_reset (stopAdmission m))) (rt_mailboxes s),
                 rt_instances := set_del a (rt_instances s)\<rparr>))"

datatype ('t, 'r, 'e) rt_event =
    RInvoke string 't
  | RMailbox string "('t, 'r, 'e) mb_event"
  | RRemoved nat "('t, 'r, 'e) mb_event"
  | RActivate string
  | RDiscard string
  | RDeactivateBegin string
  | RDeactivateEnd 'e string
  | RReloadStop string
  | RReloadAbort string
  | RReloadFail 'e string
  | RReloadRelease 'e string
  | RReset 'e 'e string

text \<open>The events inside a mailbox that do not come from the runtime: a task settles, the loop goes on.\<close>

definition internal :: "('t, 'r, 'e) mb_event \<Rightarrow> bool" where
  "internal ev = (case ev of Finish t r \<Rightarrow> True | Resume \<Rightarrow> True | _ \<Rightarrow> False)"

definition rt_step :: "('t, 'r, 'e) rt_event \<Rightarrow> ('t, 'r, 'e) rt_state \<Rightarrow> ('t, 'r, 'e) rt_state" where
  "rt_step ev s = (case ev of
     RInvoke a t \<Rightarrow> snd (rt_enqueue a t s)
   | RMailbox a me \<Rightarrow> (case js_get (rt_mailboxes s) a of
       Some m \<Rightarrow> if internal me then s\<lparr>rt_mailboxes := js_set a (mb_step me m) (rt_mailboxes s)\<rparr> else s | None \<Rightarrow> s)
   | RRemoved i me \<Rightarrow> if i < length (rt_removed s) \<and> internal me
       then s\<lparr>rt_removed := (rt_removed s)[i := (fst (rt_removed s ! i), mb_step me (snd (rt_removed s ! i)))]\<rparr> else s
   | RActivate a \<Rightarrow> s\<lparr>rt_instances := set_add a (rt_instances s)\<rparr>
   | RDiscard a \<Rightarrow> s\<lparr>rt_instances := set_del a (rt_instances s)\<rparr>
   | RDeactivateBegin a \<Rightarrow> deactivate_begin a s
   | RDeactivateEnd e a \<Rightarrow> deactivate_end e a s
   | RReloadStop a \<Rightarrow> reload_stop a s
   | RReloadAbort a \<Rightarrow> reload_abort a s
   | RReloadFail e a \<Rightarrow> reload_fail_pending e a s
   | RReloadRelease e a \<Rightarrow> reload_release e a s
   | RReset er e a \<Rightarrow> reset_actor er e a s)"

definition rt_run :: "('t, 'r, 'e) rt_event list \<Rightarrow> ('t, 'r, 'e) rt_state \<Rightarrow> ('t, 'r, 'e) rt_state" where
  "rt_run evs s = fold rt_step evs s"

text \<open>The tasks of an actor that are running: in its mailbox, and in mailboxes it had before.\<close>

definition running_of :: "string \<Rightarrow> ('t, 'r, 'e) rt_state \<Rightarrow> 't list" where
  "running_of a s = (case js_get (rt_mailboxes s) a of None \<Rightarrow> [] | Some m \<Rightarrow> running m) @
     concat (map (\<lambda>(b, m). if b = a then running m else []) (rt_removed s))"

definition drops_busy :: "('t, 'r, 'e) rt_event \<Rightarrow> bool" where
  "drops_busy ev = (case ev of RDeactivateEnd e a \<Rightarrow> True | RReset er e a \<Rightarrow> True | _ \<Rightarrow> False)"

definition rt_ok :: "('t, 'r, 'e) rt_state \<Rightarrow> bool" where
  "rt_ok s \<longleftrightarrow> js_all (\<lambda>a m. mb_ok m) (rt_mailboxes s) \<and> (\<forall>(b, m) \<in> set (rt_removed s). mb_loops m = [])"

section \<open>One activation at a time\<close>

lemma rt_ok_new: "rt_ok (runtime_new maxQ)"
  by (simp add: rt_ok_def runtime_new_def)

lemma ok_mailbox: "rt_ok s \<Longrightarrow> js_get (rt_mailboxes s) a = Some m \<Longrightarrow> mb_ok m"
  by (auto simp: rt_ok_def dest: js_allD)

lemma ok_getOrCreate: "rt_ok s \<Longrightarrow> mb_ok (getOrCreateMailbox a s)"
  by (simp add: getOrCreateMailbox_def mb_ok_new ok_mailbox split: option.split)

lemma ok_enqueue: "mb_ok m \<Longrightarrow> mb_ok (snd (enqueue t m))"
  using mb_ok_step [of m "Enqueue t"] by (simp add: mb_step_def)

lemma ok_stop: "mb_ok m \<Longrightarrow> mb_ok (stopAdmission m)" "mb_ok m \<Longrightarrow> mb_ok (resumeAdmission m)" "mb_ok m \<Longrightarrow> mb_ok (snd (failPending e m))"
  using mb_ok_step [of m StopAdmission] mb_ok_step [of m ResumeAdmission] mb_ok_step [of m "FailPending e"] by (simp_all add: mb_step_def)

lemma ok_put: "rt_ok s \<Longrightarrow> mb_ok m \<Longrightarrow> rt_ok (s\<lparr>rt_mailboxes := js_set a m (rt_mailboxes s)\<rparr>)"
  by (simp add: rt_ok_def js_all_set)

lemma ok_fields [simp]:
  "rt_ok (s\<lparr>rt_instances := x\<rparr>) = rt_ok s" "rt_ok (s\<lparr>rt_deactivating := d\<rparr>) = rt_ok s"
  by (simp_all add: rt_ok_def)

lemma ok_drop:
  assumes "rt_ok s" "\<And>m. js_get (rt_mailboxes s) a = Some m \<Longrightarrow> \<not> undrained m"
  shows "rt_ok (drop_mailbox e a s)"
proof (cases "js_get (rt_mailboxes s) a")
  case (Some m)
  have "mb_loops m = []" using assms(2) [OF Some] ok_mailbox [OF assms(1) Some] by (auto simp: undrained_def mb_ok_def)
  then show ?thesis using assms(1) Some by (auto simp: drop_mailbox_def rt_ok_def mailbox_clear_def js_all_del)
qed (use assms(1) in \<open>simp add: drop_mailbox_def\<close>)

lemma idle_internal: "mb_loops m = [] \<Longrightarrow> internal me \<Longrightarrow> mb_loops (mb_step me m) = []"
  by (cases me) (simp_all add: internal_def mb_step_def finish_def resume_def)

lemma ok_removed:
  assumes "rt_ok s" "i < length (rt_removed s)" "internal me"
  shows "rt_ok (s\<lparr>rt_removed := (rt_removed s)[i := (fst (rt_removed s ! i), mb_step me (snd (rt_removed s ! i)))]\<rparr>)"
proof -
  have "rt_removed s ! i \<in> set (rt_removed s)" using assms(2) by simp
  then have "mb_loops (snd (rt_removed s ! i)) = []" using assms(1) by (auto simp: rt_ok_def)
  then have "mb_loops (mb_step me (snd (rt_removed s ! i))) = []" using assms(3) by (rule idle_internal)
  then show ?thesis using assms(1) by (auto simp: rt_ok_def dest!: set_update_subset_insert [THEN subsetD])
qed

lemma rt_ok_step:
  assumes ok: "rt_ok s" and ev: "\<not> drops_busy ev"
  shows "rt_ok (rt_step ev s)"
proof (cases ev)
  case (RInvoke a t)
  with ok show ?thesis
    by (simp add: rt_step_def rt_enqueue_def case_prod_beta ok_put ok_enqueue ok_getOrCreate)
next
  case (RMailbox a me)
  with ok show ?thesis by (auto simp: rt_step_def ok_put mb_ok_step ok_mailbox split: option.split)
next
  case (RRemoved i me)
  with ok show ?thesis by (simp add: rt_step_def ok_removed)
next
  case (RReloadStop a)
  with ok show ?thesis by (auto simp: rt_step_def reload_stop_def ok_put ok_stop ok_mailbox split: option.split)
next
  case (RReloadAbort a)
  with ok show ?thesis by (auto simp: rt_step_def reload_abort_def ok_put ok_stop ok_mailbox split: option.split)
next
  case (RReloadFail e a)
  with ok show ?thesis by (auto simp: rt_step_def reload_fail_pending_def ok_put ok_stop ok_mailbox split: option.split)
next
  case (RReloadRelease e a)
  with ok show ?thesis by (auto simp: rt_step_def reload_release_def intro!: ok_drop split: option.split)
qed (use ok ev in \<open>simp_all add: rt_step_def deactivate_begin_def drops_busy_def\<close>)

lemma rt_ok_run: "rt_ok s \<Longrightarrow> \<forall>ev \<in> set evs. \<not> drops_busy ev \<Longrightarrow> rt_ok (rt_run evs s)"
  unfolding rt_run_def by (induction evs arbitrary: s) (simp_all add: rt_ok_step)

lemma ok_running: "mb_ok m \<Longrightarrow> length (running m) \<le> 1"
  by (auto simp: mb_ok_def running_def)

lemma ok_running_of:
  assumes "rt_ok s"
  shows "length (running_of a s) \<le> 1"
proof -
  have none: "concat (map (\<lambda>(b, m). if b = a then running m else []) (rt_removed s)) = []"
    using assms by (auto simp: rt_ok_def running_def)
  show ?thesis unfolding running_of_def none append_Nil2
    using ok_mailbox [OF assms, THEN ok_running] by (simp split: option.split)
qed

text \<open>Calls of one actor never overlap, through any number of invocations, failures, reloads and reload
  timeouts, as long as nobody calls \<^verbatim>\<open>deactivate\<close> or \<^verbatim>\<open>reset\<close>.\<close>

theorem actor_calls_never_overlap:
  assumes "\<forall>ev \<in> set evs. \<not> drops_busy ev"
  shows "length (running_of a (rt_run evs (runtime_new maxQ))) \<le> 1"
  by (rule ok_running_of [OF rt_ok_run [OF rt_ok_new assms]])

text \<open>\<^verbatim>\<open>deactivate\<close> does not wait for a running call: it drops the mailbox under it, and the next
  invocation of the same actor starts at once in a new mailbox, so that two calls of one actor run concurrently.\<close>

theorem deactivate_overlaps_calls:
  assumes "js_get (rt_mailboxes s) a = Some m" "running m = [t]" "a \<in> set (rt_instances s)" "rt_maxMailboxSize s \<noteq> Some 0"
  shows "running_of a (rt_run [RDeactivateBegin a, RDeactivateEnd e a, RInvoke a t'] s) =
    t' # concat (map (\<lambda>(b, m). if b = a then running m else []) (rt_removed s)) @ [t]"
proof -
  have run: "running (snd (enqueue t' (mailbox_new (rt_maxMailboxSize s)))) = [t']"
    using assms(4) by (cases "rt_maxMailboxSize s") (simp_all add: mailbox_new_def mailbox_defs running_def)
  have clear: "running (mailbox_clear e m) = [t]" using assms(2) by (simp add: running_def mailbox_clear_def)
  show ?thesis using assms(1,3) run clear
    by (simp add: rt_run_def rt_step_def deactivate_begin_def deactivate_end_def drop_mailbox_def rt_enqueue_def
        getOrCreateMailbox_def running_of_def case_prod_beta)
qed

definition busy_actor :: "(nat, nat, string) rt_state" where
  "busy_actor = rt_run [RInvoke ''a'' 1, RActivate ''a''] (runtime_new None)"

lemma busy_actor_mailbox: "\<exists>m. js_get (rt_mailboxes busy_actor) ''a'' = Some m \<and> running m = [1]"
  by (simp add: busy_actor_def rt_run_def rt_step_def runtime_new_def rt_enqueue_def getOrCreateMailbox_def mailbox_new_def mailbox_defs running_def)

lemma actor_calls_never_overlap_witness:
  "length (running_of ''a'' (rt_run [RInvoke ''a'' (1::nat), RInvoke ''a'' 2, RReloadStop ''a'',
     RMailbox ''a'' (Finish 1 (Resolved (10::nat))), RReloadRelease ''cleared'' ''a''] (runtime_new None))) \<le> 1"
  by (rule actor_calls_never_overlap) (simp add: drops_busy_def)

lemma deactivate_overlaps_calls_witness:
  "running_of ''a'' (rt_run [RDeactivateBegin ''a'', RDeactivateEnd ''cleared'' ''a'', RInvoke ''a'' 2] busy_actor) = [2, 1]"
proof -
  obtain m where m: "js_get (rt_mailboxes busy_actor) ''a'' = Some m" "running m = [1]" using busy_actor_mailbox by blast
  have "rt_removed busy_actor = []" "''a'' \<in> set (rt_instances busy_actor)" "rt_maxMailboxSize busy_actor \<noteq> Some 0"
    by (simp_all add: busy_actor_def rt_run_def rt_step_def runtime_new_def rt_enqueue_def case_prod_beta)
  with deactivate_overlaps_calls [OF m, of "''cleared''" 2] show ?thesis by simp
qed

section \<open>One invocation\<close>

datatype 'e exec_error =
    DeadlineExceeded
  | MigrationFailed 'e
  | OwnershipRefused ownership_error
  | NotOwner string
  | MethodThrew 'e
  | CommitRefused tx_error

record ('v, 'e) rt_config =
  rc_ownerId :: "string option"
  rc_autoAcquire :: bool
  rc_leaseTtlMs :: "int option"
  rc_migrate :: "string \<Rightarrow> 'v storage \<Rightarrow> ('e, unit) result \<times> 'v storage"

record ('v, 'e) call =
  cl_deadline :: "int option"
  cl_requestId :: "string option"
  cl_generation :: "nat option"
  cl_method :: "'v storage \<Rightarrow> 'v kv_op list \<times> ('e, 'v) result"

definition past_deadline :: "int \<Rightarrow> ('v, 'e) call \<Rightarrow> bool" where
  "past_deadline now c \<longleftrightarrow> (case cl_deadline c of None \<Rightarrow> False | Some d \<Rightarrow> now > d)"

text \<open>The checks before the mailbox; the ancestors are the enclosing invocations with their \<^verbatim>\<open>active\<close>
  flags.\<close>

datatype admission_error = Reentrant string | DeadlineBeforeStart | Unauthorized denial

definition invoke_admission ::
  "int \<Rightarrow> binding_rules option \<Rightarrow> rpc_request \<Rightarrow> (string \<times> bool) list \<Rightarrow> string \<Rightarrow> ('v, 'e) call \<Rightarrow> (admission_error, unit) result" where
  "invoke_admission now policy rq ancestors cid c =
     rbind (guard_or (\<not> (\<exists>(i, active) \<in> set ancestors. active \<and> i = cid)) (Reentrant cid)) (\<lambda>_.
     rbind (guard_or (\<not> past_deadline now c) DeadlineBeforeStart) (\<lambda>_.
     case policy of None \<Rightarrow> Inr ()
     | Some rules \<Rightarrow> (case authorize rules rq of Inl d \<Rightarrow> Inl (Unauthorized d) | Inr _ \<Rightarrow> Inr ())))"

definition resolve_generation ::
  "int \<Rightarrow> ('v, 'e) rt_config \<Rightarrow> string \<Rightarrow> ('v, 'e) call \<Rightarrow> 'v storage \<Rightarrow> ('e exec_error, nat option) result \<times> 'v storage" where
  "resolve_generation now C a c st = (case rc_ownerId C of
     None \<Rightarrow> (Inr (cl_generation c), st)
   | Some w \<Rightarrow>
       if w = '''' then (Inr (cl_generation c), st)
       else if rc_autoAcquire C then
         (case acquireOwnership now a w (rc_leaseTtlMs C) False st of
            (Inl e, st1) \<Rightarrow> (Inl (OwnershipRefused e), st1)
          | (Inr r, st1) \<Rightarrow> (Inr (Some (ow_generation r)), st1))
       else (case getOwnership a st of
            None \<Rightarrow> (Inr (cl_generation c), st)
          | Some cur \<Rightarrow> if ow_ownerId cur \<noteq> w \<and> \<not> lease_expired now cur then (Inl (NotOwner (ow_ownerId cur)), st)
                        else (Inr (Some (ow_generation cur)), st)))"

definition cached_response :: "string \<Rightarrow> ('v, 'e) call \<Rightarrow> 'v storage \<Rightarrow> 'v option" where
  "cached_response a c st = (case cl_requestId c of None \<Rightarrow> None
     | Some rid \<Rightarrow> if rid = '''' then None else map_option id_response (getIdempotencyRecord a rid st))"

definition stage_response :: "('v, 'e) call \<Rightarrow> 'v \<Rightarrow> 'v tx \<Rightarrow> (tx_error, 'v tx) result" where
  "stage_response c r t = (case cl_requestId c of None \<Rightarrow> Inr t
     | Some rid \<Rightarrow> if rid = '''' then Inr t else tx_setIdempotencyRecord rid r t)"

text \<open>The transaction: run the method, stage the response, commit; any error rolls it back.\<close>

definition run_transaction ::
  "int \<Rightarrow> ('v, 'e) rt_config \<Rightarrow> string \<Rightarrow> nat option \<Rightarrow> ('v, 'e) call \<Rightarrow> 'v storage \<Rightarrow> ('e exec_error, 'v) result \<times> 'v storage" where
  "run_transaction now C a gen c st =
     (case cl_method c st of (ops, out) \<Rightarrow>
        (case tx_run st ops (beginTransaction a (rc_ownerId C) gen) of
           Inl e \<Rightarrow> (Inl (CommitRefused e), st)
         | Inr t \<Rightarrow> (case out of
             Inl e \<Rightarrow> (Inl (MethodThrew e), st)
           | Inr r \<Rightarrow> (case rbind (stage_response c r t) (\<lambda>t'. tx_commit now t' st) of
               Inl e \<Rightarrow> (Inl (CommitRefused e), st)
             | Inr (_, st') \<Rightarrow> (Inr r, st')))))"

definition execute ::
  "int \<Rightarrow> ('v, 'e) rt_config \<Rightarrow> string \<Rightarrow> ('v, 'e) call \<Rightarrow> 'v storage \<Rightarrow> ('e exec_error, 'v) result \<times> 'v storage" where
  "execute now C a c st =
     (if past_deadline now c then (Inl DeadlineExceeded, st)
      else case cached_response a c st of
        Some r \<Rightarrow> (Inr r, st)
      | None \<Rightarrow> (case rc_migrate C a st of
          (Inl e, st1) \<Rightarrow> (Inl (MigrationFailed e), st1)
        | (Inr _, st1) \<Rightarrow> (case resolve_generation now C a c st1 of
            (Inl e, st2) \<Rightarrow> (Inl e, st2)
          | (Inr gen, st2) \<Rightarrow> run_transaction now C a gen c st2)))"

definition execute_all :: "('v, 'e) rt_config \<Rightarrow> (int \<times> string \<times> ('v, 'e) call) list \<Rightarrow> 'v storage \<Rightarrow> 'v storage" where
  "execute_all C calls st = foldl (\<lambda>st (now, a, c). snd (execute now C a c st)) st calls"

section \<open>Failures and retries\<close>

lemma acquire_keeps [simp]:
  "st_state (snd (acquireOwnership now a w ttl force st)) = st_state st"
  "st_idempotency (snd (acquireOwnership now a w ttl force st)) = st_idempotency st"
  by (simp_all add: acquireOwnership_def Let_def split: option.split)

lemma acquire_result: "acquireOwnership now a w ttl force st = (x, st') \<Longrightarrow> st_state st' = st_state st \<and> st_idempotency st' = st_idempotency st"
  using acquire_keeps [of now a w ttl force st] by simp

lemma resolve_generation_keeps [simp]:
  "st_state (snd (resolve_generation now C a c st)) = st_state st"
  "st_idempotency (snd (resolve_generation now C a c st)) = st_idempotency st"
  by (auto simp: resolve_generation_def dest: acquire_result split: option.split prod.split sum.split)

lemma run_transaction_failed: "run_transaction now C a gen c st = (Inl e, st') \<Longrightarrow> st' = st"
  by (auto simp: run_transaction_def split: prod.splits sum.splits)

lemma run_transaction_stores:
  assumes "run_transaction now C a gen c st = (Inr r, st')"
  shows "st_idempotency st' = (case cl_requestId c of
      Some rid \<Rightarrow> if rid = '''' then st_idempotency st else st_idempotency (setIdempotencyRecord now a rid r st)
    | None \<Rightarrow> st_idempotency st)"
proof -
  from assms obtain ops t t' where ops: "tx_run st ops (beginTransaction a (rc_ownerId C) gen) = Inr t"
    and st: "stage_response c r t = Inr t'" and cm: "\<exists>x. tx_commit now t' st = Inr (x, st')"
    by (auto simp: run_transaction_def rbind_eq_Inr split: prod.splits sum.splits)
  have t: "t = fold overlay.op1 ops (beginTransaction a (rc_ownerId C) gen)" using ops by (simp add: tx_run_open fresh_ok)
  have none: "tx_idem t = None" unfolding t by (rule fold_invariant [where P = "\<lambda>t. tx_idem t = None" and Q = "\<lambda>_. True"])
    (auto simp: beginTransaction_def overlay.op1_def stage_set_def stage_delete_def stage_clear_def split: kv_op.split)
  have act: "tx_actorId t = a" "\<not> tx_closed t" using t by (simp_all add: fresh_ok)
  have "st' = snd (commit_apply now t' st)" using cm by (auto simp: tx_commit_def rbind_eq_Inr)
  with st none act show ?thesis
    by (auto simp: commit_apply_def Let_def stage_response_def tx_setIdempotencyRecord_def assertOpen_def
        setIdempotencyRecord_def applyTransactionCommit_def split: option.splits if_splits)
qed

lemma resolve_result:
  "resolve_generation now C a c st = (x, st') \<Longrightarrow> st_state st' = st_state st \<and> st_idempotency st' = st_idempotency st"
  using resolve_generation_keeps [of now C a c st] by simp

lemma get_set_idempotency:
  "getIdempotencyRecord b rid' (setIdempotencyRecord now a rid r st) =
     (if b = a \<and> rid' = rid then Some \<lparr>id_response = r, id_createdAt = now\<rparr> else getIdempotencyRecord b rid' st)"
  by (auto simp: getIdempotencyRecord_def setIdempotencyRecord_def Let_def split: option.split)

lemma get_idempotency_cong: "st_idempotency st' = st_idempotency st \<Longrightarrow> getIdempotencyRecord a rid st' = getIdempotencyRecord a rid st"
  by (simp add: getIdempotencyRecord_def)

definition migrations_keep_records :: "('v, 'e) rt_config \<Rightarrow> bool" where
  "migrations_keep_records C \<longleftrightarrow> (\<forall>a st. st_idempotency (snd (rc_migrate C a st)) = st_idempotency st)"

lemma execute_early:
  assumes "execute now C a c st = (res, st')" "past_deadline now c \<or> cached_response a c st \<noteq> None"
  shows "st' = st \<and> (res = Inl DeadlineExceeded \<or> (\<exists>r. cached_response a c st = Some r \<and> res = Inr r))"
  using assms by (cases "past_deadline now c"; cases "cached_response a c st") (auto simp: execute_def)

lemma execute_cases:
  assumes "execute now C a c st = (res, st')" "migrations_keep_records C"
  obtains (unchanged) "st_idempotency st' = st_idempotency st" "\<forall>r. res = Inr r \<longrightarrow> cached_response a c st = Some r \<and> st' = st"
    | (ran) r st2 where "res = Inr r" "cached_response a c st = None" "st_idempotency st2 = st_idempotency st"
        "st_idempotency st' = (case cl_requestId c of
           Some rid \<Rightarrow> if rid = '''' then st_idempotency st2 else st_idempotency (setIdempotencyRecord now a rid r st2)
         | None \<Rightarrow> st_idempotency st2)"
proof (cases "past_deadline now c \<or> cached_response a c st \<noteq> None")
  case True
  from execute_early [OF assms(1) this] show ?thesis by (intro unchanged) auto
next
  case False
  obtain m st1 where mig: "rc_migrate C a st = (m, st1)" by fastforce
  with assms(2) have k1: "st_idempotency st1 = st_idempotency st" by (metis migrations_keep_records_def snd_conv)
  obtain g st2 where gen: "resolve_generation now C a c st1 = (g, st2)" by fastforce
  with k1 have k2: "st_idempotency st2 = st_idempotency st" by (auto dest: resolve_result)
  show ?thesis
  proof (cases m)
    case (Inl e)
    with False mig assms(1) k1 unchanged show ?thesis by (auto simp: execute_def)
  next
    case (Inr u)
    show ?thesis
    proof (cases g)
      case (Inl e)
      with Inr False mig gen assms(1) k2 unchanged show ?thesis by (auto simp: execute_def)
    next
      case (Inr gen')
      with \<open>m = Inr u\<close> False mig gen assms(1) have run: "run_transaction now C a gen' c st2 = (res, st')"
        by (simp add: execute_def)
      show ?thesis
      proof (cases res)
        case (Inl e)
        with run k2 unchanged show ?thesis by (auto dest: run_transaction_failed)
      next
        case (Inr r)
        with run have "run_transaction now C a gen' c st2 = (Inr r, st')" by simp
        from ran [OF Inr _ k2 run_transaction_stores [OF this]] False show ?thesis by simp
      qed
    qed
  qed
qed

lemma execute_keeps_record:
  assumes "migrations_keep_records C" "getIdempotencyRecord a rid st = Some x"
  shows "getIdempotencyRecord a rid (snd (execute now C b c st)) = Some x"
proof -
  obtain res st' where ex: "execute now C b c st = (res, st')" by fastforce
  show ?thesis
  proof (cases rule: execute_cases [OF ex assms(1)])
    case 1
    then show ?thesis using ex assms(2) by (simp add: getIdempotencyRecord_def)
  next
    case (2 r st2)
    have keep: "getIdempotencyRecord a rid st2 = Some x" using 2(3) assms(2) by (simp add: getIdempotencyRecord_def)
    have other: "cl_requestId c = Some rid' \<Longrightarrow> rid' \<noteq> '''' \<Longrightarrow> \<not> (a = b \<and> rid = rid')" for rid'
      using 2(2) assms(2) by (auto simp: cached_response_def)
    have "getIdempotencyRecord a rid st' = Some x"
    proof (cases "cl_requestId c")
      case (Some rid')
      show ?thesis
      proof (cases "rid' = ''''")
        case False
        with Some 2(4) have "st_idempotency st' = st_idempotency (setIdempotencyRecord now b rid' r st2)" by simp
        from get_idempotency_cong [OF this] other [OF Some False] keep show ?thesis
          by (auto simp: get_set_idempotency)
      qed (use Some 2(4) keep in \<open>simp add: getIdempotencyRecord_def\<close>)
    qed (use 2(4) keep in \<open>simp add: getIdempotencyRecord_def\<close>)
    with ex show ?thesis by simp
  qed
qed

lemma execute_all_keeps_record:
  "migrations_keep_records C \<Longrightarrow> getIdempotencyRecord a rid st = Some x \<Longrightarrow> getIdempotencyRecord a rid (execute_all C calls st) = Some x"
proof (induction calls arbitrary: st)
  case (Cons k calls)
  obtain now b c where k: "k = (now, b, c)" by (cases k) auto
  from Cons.IH [OF Cons.prems(1) execute_keeps_record [OF Cons.prems(1,2)], of now b c]
  show ?case by (simp add: k execute_all_def)
qed (simp add: execute_all_def)

lemma execute_records:
  assumes "migrations_keep_records C" "execute now C a c st = (Inr r, st')" "cl_requestId c = Some rid" "rid \<noteq> ''''"
  shows "\<exists>x. getIdempotencyRecord a rid st' = Some x \<and> id_response x = r"
proof (cases rule: execute_cases [OF assms(2,1)])
  case 1
  then show ?thesis using assms(3,4) by (auto simp: cached_response_def)
next
  case (2 r' st2)
  then have "st_idempotency st' = st_idempotency (setIdempotencyRecord now a rid r st2)" using assms(3,4) by simp
  from get_idempotency_cong [OF this] show ?thesis by (simp add: get_set_idempotency)
qed

text \<open>C2: A request that succeeded under a request id is never executed again: after any further invocations, of any
  actors, a retry under the id answers with the first response and leaves the storage as it is.\<close>

theorem retried_request_runs_once:
  assumes "migrations_keep_records C" "execute now C a c st = (Inr r, st1)" "cl_requestId c = Some rid" "rid \<noteq> ''''"
    and "cl_requestId c' = Some rid" "\<not> past_deadline now' c'"
  shows "execute now' C a c' (execute_all C calls st1) = (Inr r, execute_all C calls st1)"
proof -
  obtain x where "getIdempotencyRecord a rid st1 = Some x" "id_response x = r"
    using execute_records [OF assms(1-4)] by blast
  from execute_all_keeps_record [OF assms(1) this(1)] this(2) assms(4-6) show ?thesis
    by (simp add: execute_def cached_response_def)
qed

text \<open>An invocation that fails, for whatever reason, leaves the state and the idempotency records of every actor as
  they were (migrations that change nothing given).\<close>

theorem failed_invocation_changes_nothing:
  assumes "execute now C a c st = (Inl e, st')" "\<And>st. snd (rc_migrate C a st) = st"
  shows "st_state st' = st_state st \<and> st_idempotency st' = st_idempotency st"
proof (cases "past_deadline now c \<or> cached_response a c st \<noteq> None")
  case True
  from execute_early [OF assms(1) this] show ?thesis by simp
next
  case False
  obtain m where mig: "rc_migrate C a st = (m, st)" using assms(2) by (metis prod.collapse)
  obtain g st2 where gen: "resolve_generation now C a c st = (g, st2)" by fastforce
  note keep = resolve_result [OF gen]
  show ?thesis
  proof (cases m)
    case (Inr u)
    show ?thesis
    proof (cases g)
      case (Inl e')
      with Inr False mig gen assms(1) keep show ?thesis by (auto simp: execute_def)
    next
      case (Inr gen')
      with \<open>m = Inr u\<close> False mig gen assms(1) have "run_transaction now C a gen' c st2 = (Inl e, st')" by (simp add: execute_def)
      with keep show ?thesis by (auto dest: run_transaction_failed)
    qed
  qed (use False mig assms(1) in \<open>auto simp: execute_def\<close>)
qed

section \<open>Instances\<close>

definition plain_config :: "(nat, string) rt_config" where
  "plain_config = \<lparr>rc_ownerId = Some ''h1'', rc_autoAcquire = True, rc_leaseTtlMs = None, rc_migrate = \<lambda>_ st. (Inr (), st)\<rparr>"

definition increment :: "string \<Rightarrow> (nat, string) call" where
  "increment rid = \<lparr>cl_deadline = None, cl_requestId = Some rid, cl_generation = None,
     cl_method = \<lambda>st. let n = (case as_get ''a'' ''n'' st of JVal n \<Rightarrow> n + 1 | JUndef \<Rightarrow> 1) in ([Put ''n'' (JVal n)], Inr n)\<rparr>"

definition faulty :: "(nat, string) call" where
  "faulty = \<lparr>cl_deadline = None, cl_requestId = None, cl_generation = None, cl_method = \<lambda>st. ([Put ''n'' (JVal 9)], Inl ''boom'')\<rparr>"

lemmas execution_defs = plain_config_def execute_def past_deadline_def cached_response_def resolve_generation_def run_transaction_def
  getIdempotencyRecord_def storage_new_def acquireOwnership_def Let_def tx_op_def tx_set_def beginTransaction_def
  assertOpen_def set_del_def as_get_def stage_response_def tx_setIdempotencyRecord_def tx_commit_def commit_check_def getOwnership_def
  owner_given_def

lemma plain_keeps: "migrations_keep_records plain_config"
  by (simp add: migrations_keep_records_def plain_config_def)

lemma increment_runs: "\<exists>st1. execute 0 plain_config ''a'' (increment ''r1'') storage_new = (Inr 1, st1)"
  by (simp add: execution_defs increment_def case_prod_beta)

lemma retried_request_runs_once_witness:
  "\<exists>st1. fst (execute 9 plain_config ''a'' (increment ''r1'') (execute_all plain_config [(5, ''a'', increment ''r2'')] st1)) = Inr 1"
proof -
  obtain st1 where first: "execute 0 plain_config ''a'' (increment ''r1'') storage_new = (Inr 1, st1)" using increment_runs by blast
  have "execute 9 plain_config ''a'' (increment ''r1'') (execute_all plain_config [(5, ''a'', increment ''r2'')] st1) =
      (Inr 1, execute_all plain_config [(5, ''a'', increment ''r2'')] st1)"
    by (rule retried_request_runs_once [OF plain_keeps first, of "''r1''"]) (simp_all add: increment_def past_deadline_def)
  then show ?thesis by (metis fst_conv)
qed

lemma failed_invocation_changes_nothing_witness:
  "\<exists>st'. execute 0 plain_config ''a'' faulty storage_new = (Inl (MethodThrew ''boom''), st') \<and> st_state st' = []"
proof -
  have "\<exists>st'. execute 0 plain_config ''a'' faulty storage_new = (Inl (MethodThrew ''boom''), st')"
    by (simp add: execution_defs faulty_def)
  then obtain st' where failed: "execute 0 plain_config ''a'' faulty storage_new = (Inl (MethodThrew ''boom''), st')" by blast
  from failed_invocation_changes_nothing [OF this] failed show ?thesis by (simp add: plain_config_def storage_new_def)
qed

end
