(* ===== verification/Strings.thy ===== *)
theory Strings
  imports Bytes
begin

text \<open>
  JavaScript strings beyond their bytes: the order of code units
  (\<^verbatim>\<open>compareCodeUnits\<close> of \<^verbatim>\<open>shared/compare.ts\<close> and \<^verbatim>\<open><\<close> on strings), white space and \<^verbatim>\<open>trim\<close>.
\<close>

section \<open>Literals\<close>

lemma js_str_inject [simp]: "js_str a = js_str b \<longleftrightarrow> a = b"
proof
  assume eq: "js_str a = js_str b"
  have small: "take_bit 16 (of_char c :: nat) = of_char c" for c :: char
    by (rule take_bit_nat_eq_self, rule order_less_trans [OF nat_of_char_less_256]) simp
  have "unat (of_char c :: 16 word) = of_char c" for c :: char
    by (subst of_nat_of_char [symmetric]) (simp add: unsigned_of_nat small)
  then have "inj (of_char :: char \<Rightarrow> 16 word)"
    by (intro injI) (metis of_char_eq_iff)
  with eq show "a = b" by (simp add: js_str_def inj_map_eq_map)
qed simp

section \<open>The order of code units\<close>

fun units_less :: "jsstr \<Rightarrow> jsstr \<Rightarrow> bool" where
  "units_less [] ys = (ys \<noteq> [])"
| "units_less (x # xs) [] = False"
| "units_less (x # xs) (y # ys) = (x < y \<or> (x = y \<and> units_less xs ys))"

definition units_le :: "jsstr \<Rightarrow> jsstr \<Rightarrow> bool" where
  "units_le x y \<longleftrightarrow> \<not> units_less y x"

definition compareCodeUnits :: "jsstr \<Rightarrow> jsstr \<Rightarrow> int" where
  "compareCodeUnits x y = (if units_less x y then - 1 else if units_less y x then 1 else 0)"

definition sort_units :: "jsstr list \<Rightarrow> jsstr list" where
  "sort_units xs = sort_by (\<lambda>x y. compareCodeUnits x y \<le> 0) xs"

lemma units_less_trans: "units_less x y \<Longrightarrow> units_less y z \<Longrightarrow> units_less x z"
proof (induction x arbitrary: y z)
  case (Cons a x)
  then show ?case by (cases y; cases z) (auto intro: less_trans)
next
  case Nil
  then show ?case by (cases y; cases z) auto
qed

lemma units_less_irrefl [simp]: "\<not> units_less x x"
  by (induction x) auto

lemma units_less_total: "x \<noteq> y \<Longrightarrow> units_less x y \<or> units_less y x"
  by (induction x y rule: units_less.induct) (auto simp: neq_Nil_conv)

lemma compareCodeUnits_le: "compareCodeUnits x y \<le> 0 \<longleftrightarrow> units_le x y"
  using units_less_trans [of x y x] units_less_irrefl [of x] by (auto simp: compareCodeUnits_def units_le_def)

lemma units_le_total: "units_le x y \<or> units_le y x"
  using units_less_trans [of x y x] units_less_irrefl [of x] by (auto simp: units_le_def)

lemma units_le_trans: "units_le x y \<Longrightarrow> units_le y z \<Longrightarrow> units_le x z"
  using units_less_total [of x y] units_less_trans [of z x y] by (auto simp: units_le_def)

lemma units_le_antisym: "units_le x y \<Longrightarrow> units_le y x \<Longrightarrow> x = y"
  using units_less_total [of x y] by (auto simp: units_le_def)

lemma sort_units_le: "sort_units xs = sort_by units_le xs"
  by (simp add: sort_units_def compareCodeUnits_le)

lemma set_sort_units [simp]: "set (sort_units xs) = set xs"
  by (simp add: sort_units_def)

lemma length_sort_units [simp]: "length (sort_units xs) = length xs"
  by (simp add: sort_units_def)

lemma sort_units_Nil [simp]: "sort_units xs = [] \<longleftrightarrow> xs = []"
  by (simp add: sort_units_def)

text \<open>Sorting forgets the order.\<close>

lemma sort_units_mset: "mset xs = mset ys \<Longrightarrow> sort_units xs = sort_units ys"
  unfolding sort_units_le
  by (rule sort_by_mset) (use units_le_total units_le_trans units_le_antisym in blast)+

lemma sort_units_idem [simp]: "sort_units (sort_units xs) = sort_units xs"
  by (rule sort_units_mset) (simp add: sort_units_def mset_sort_by)

section \<open>White space\<close>

definition js_space :: "16 word \<Rightarrow> bool" where
  "js_space c \<longleftrightarrow> 9 \<le> c \<and> c \<le> 13 \<or> c = 32 \<or> c = 0xA0 \<or> c = 0x1680 \<or> 0x2000 \<le> c \<and> c \<le> 0x200A \<or>
     c = 0x2028 \<or> c = 0x2029 \<or> c = 0x202F \<or> c = 0x205F \<or> c = 0x3000 \<or> c = 0xFEFF"

definition js_trim :: "jsstr \<Rightarrow> jsstr" where
  "js_trim s = rev (dropWhile js_space (rev (dropWhile js_space s)))"

end
