(* ===== verification/Cbor.thy ===== *)
theory Cbor
  imports Utf8 Strings
begin

text \<open>
  The CBOR decoder for attestation objects and authenticator data:
  \<^verbatim>\<open>di-framework-auth/src/webauthn/cbor.ts\<close> and
  \<^verbatim>\<open>authenticator-data.ts\<close>.

  A cursor is the input with an offset.  \<^verbatim>\<open>decodeValue\<close> recurses on the number of nesting
  levels still allowed, so its termination is the depth limit; the loops over elements and map
  entries run on the announced count.  A JavaScript number is an integer here, since floating-point
  items are rejected; a bigint is a constructor of its own.
\<close>

section \<open>Values and limits\<close>

datatype cbor =
    CNum int
  | CBig int
  | CText jsstr
  | CBool bool
  | CNull
  | CUndef
  | CBytes "byte list"
  | CArray "cbor list"
  | CMap "(cbor \<times> cbor) list"

record limits =
  lm_maxDepth :: nat
  lm_maxElements :: nat
  lm_maxStringBytes :: nat

definition DEFAULTS :: limits where
  "DEFAULTS = \<lparr>lm_maxDepth = 16, lm_maxElements = 1024, lm_maxStringBytes = 65536\<rparr>"

datatype cbor_error =
    Truncated nat nat
  | NonCanonicalArgument
  | IndefiniteLength
  | ReservedInfo nat
  | TooLong nat
  | TooDeep
  | BadUtf8
  | BadMapKey
  | DuplicateMapKey cbor
  | KeyOrder
  | TagRejected
  | FloatRejected
  | UnsupportedSimple nat
  | TrailingData nat

section \<open>Reading\<close>

text \<open>The big-endian unsigned integers a \<^verbatim>\<open>DataView\<close> reads.\<close>

definition nat_of_bytes :: "byte list \<Rightarrow> nat" where
  "nat_of_bytes bs = foldl (\<lambda>v b. v * 256 + unat b) 0 bs"

definition need :: "byte list \<Rightarrow> nat \<Rightarrow> nat \<Rightarrow> (cbor_error, unit) result" where
  "need bs off n = guard_or (off + n \<le> length bs) (Truncated n off)"

datatype arg = ANum nat | ABig nat

definition arg_nat :: "arg \<Rightarrow> nat" where
  "arg_nat a = (case a of ANum n \<Rightarrow> n | ABig n \<Rightarrow> n)"

definition read_wide :: "byte list \<Rightarrow> nat \<Rightarrow> nat \<Rightarrow> nat \<Rightarrow> (cbor_error, nat \<times> nat) result" where
  "read_wide bs off k least = rbind (need bs off k) (\<lambda>_.
     let value = nat_of_bytes (take k (drop off bs))
     in if value < least then Inl NonCanonicalArgument else Inr (value, off + k))"

definition readArgument :: "byte list \<Rightarrow> nat \<Rightarrow> nat \<Rightarrow> (cbor_error, arg \<times> nat) result" where
  "readArgument bs off additional =
     (if additional < 24 then Inr (ANum additional, off)
      else if additional = 24 then rbind (read_wide bs off 1 24) (\<lambda>(v, off'). Inr (ANum v, off'))
      else if additional = 25 then rbind (read_wide bs off 2 0x100) (\<lambda>(v, off'). Inr (ANum v, off'))
      else if additional = 26 then rbind (read_wide bs off 4 0x10000) (\<lambda>(v, off'). Inr (ANum v, off'))
      else if additional = 27 then rbind (read_wide bs off 8 0x100000000) (\<lambda>(v, off'). Inr (ABig v, off'))
      else if additional = 31 then Inl IndefiniteLength
      else Inl (ReservedInfo additional))"

definition asLength :: "arg \<Rightarrow> nat \<Rightarrow> (cbor_error, nat) result" where
  "asLength a limit = (case a of ABig n \<Rightarrow> Inl (TooLong n)
     | ANum n \<Rightarrow> if n > limit then Inl (TooLong n) else Inr n)"

section \<open>Map keys\<close>

definition key_rank :: "cbor \<Rightarrow> int" where
  "key_rank k = (case k of CNum i \<Rightarrow> if i \<ge> 0 then 0 else 1 | CBig i \<Rightarrow> if i \<ge> 0 then 0 else 1 | CText _ \<Rightarrow> 3 | _ \<Rightarrow> 4)"

definition canonicalKeyOrder :: "cbor \<Rightarrow> cbor \<Rightarrow> int" where
  "canonicalKeyOrder a b =
     (if key_rank a \<noteq> key_rank b then key_rank a - key_rank b
      else case (a, b) of
        (CNum i, CNum j) \<Rightarrow> \<bar>i\<bar> - \<bar>j\<bar>
      | (CText s, CText t) \<Rightarrow>
          if length s \<noteq> length t then int (length s) - int (length t)
          else if units_less s t then -1 else if units_less t s then 1 else 0
      | _ \<Rightarrow> 0)"

text \<open>\<^verbatim>\<open>typeof key === 'object' && key !== null\<close>\<close>

definition object_key :: "cbor \<Rightarrow> bool" where
  "object_key k = (case k of CBytes _ \<Rightarrow> True | CArray _ \<Rightarrow> True | CMap _ \<Rightarrow> True | _ \<Rightarrow> False)"

section \<open>The decoder\<close>

type_synonym cbor_reader = "nat \<Rightarrow> (cbor_error, cbor \<times> nat) result"

fun read_items :: "cbor_reader \<Rightarrow> nat \<Rightarrow> nat \<Rightarrow> (cbor_error, cbor list \<times> nat) result" where
  "read_items rd 0 off = Inr ([], off)"
| "read_items rd (Suc n) off = rbind (rd off) (\<lambda>(v, off1).
     rbind (read_items rd n off1) (\<lambda>(vs, off2). Inr (v # vs, off2)))"

fun read_entries ::
  "cbor_reader \<Rightarrow> nat \<Rightarrow> cbor \<Rightarrow> (cbor \<times> cbor) list \<Rightarrow> nat \<Rightarrow> (cbor_error, (cbor \<times> cbor) list \<times> nat) result" where
  "read_entries rd 0 prev m off = Inr (m, off)"
| "read_entries rd (Suc n) prev m off = rbind (rd off) (\<lambda>(k, off1).
     if object_key k then Inl BadMapKey
     else if js_has m k then Inl (DuplicateMapKey k)
     else if prev \<noteq> CUndef \<and> canonicalKeyOrder prev k > 0 then Inl KeyOrder
     else rbind (rd off1) (\<lambda>(v, off2). read_entries rd n k (js_set k v m) off2))"

text \<open>The item with major type \<open>major\<close> and additional information \<open>info\<close>; \<open>rd\<close> reads a nested item.\<close>

definition decode_item :: "limits \<Rightarrow> byte list \<Rightarrow> cbor_reader \<Rightarrow> nat \<Rightarrow> nat \<Rightarrow> nat \<Rightarrow> (cbor_error, cbor \<times> nat) result" where
  "decode_item L bs rd major info off =
     (if major = 0 then rbind (readArgument bs off info) (\<lambda>(a, off').
        Inr (case a of ANum n \<Rightarrow> CNum (int n) | ABig n \<Rightarrow> if n \<le> 2 ^ 53 - 1 then CNum (int n) else CBig (int n), off'))
      else if major = 1 then rbind (readArgument bs off info) (\<lambda>(a, off').
        Inr (case a of ANum n \<Rightarrow> CNum (- 1 - int n) | ABig n \<Rightarrow> CBig (- 1 - int n), off'))
      else if major = 2 then rbind (readArgument bs off info) (\<lambda>(a, off1).
        rbind (asLength a (lm_maxStringBytes L)) (\<lambda>n. rbind (need bs off1 n) (\<lambda>_.
          Inr (CBytes (js_slice off1 (off1 + n) bs), off1 + n))))
      else if major = 3 then rbind (readArgument bs off info) (\<lambda>(a, off1).
        rbind (asLength a (lm_maxStringBytes L)) (\<lambda>n. rbind (need bs off1 n) (\<lambda>_.
          case decode_fatal (js_slice off1 (off1 + n) bs) of Inl _ \<Rightarrow> Inl BadUtf8 | Inr s \<Rightarrow> Inr (CText s, off1 + n))))
      else if major = 4 then rbind (readArgument bs off info) (\<lambda>(a, off1).
        rbind (asLength a (lm_maxElements L)) (\<lambda>n. rbind (read_items rd n off1) (\<lambda>(vs, off2). Inr (CArray vs, off2))))
      else if major = 5 then rbind (readArgument bs off info) (\<lambda>(a, off1).
        rbind (asLength a (lm_maxElements L)) (\<lambda>n. rbind (read_entries rd n CUndef [] off1) (\<lambda>(m, off2). Inr (CMap m, off2))))
      else if major = 6 then Inl TagRejected
      else if info = 20 then Inr (CBool False, off)
      else if info = 21 then Inr (CBool True, off)
      else if info = 22 then Inr (CNull, off)
      else if info = 23 then Inr (CUndef, off)
      else if info = 25 \<or> info = 26 \<or> info = 27 then Inl FloatRejected
      else Inl (UnsupportedSimple info))"

primrec decodeValue :: "nat \<Rightarrow> limits \<Rightarrow> byte list \<Rightarrow> cbor_reader" where
  "decodeValue 0 = (\<lambda>L bs off. Inl TooDeep)"
| "decodeValue (Suc levels) = (\<lambda>L bs off. rbind (need bs off 1) (\<lambda>_.
     let initial = unat (bs ! off) in
     decode_item L bs (decodeValue levels L bs) (initial div 32) (initial mod 32) (off + 1)))"

definition decodeCborAt :: "limits \<Rightarrow> byte list \<Rightarrow> nat \<Rightarrow> (cbor_error, cbor \<times> nat) result" where
  "decodeCborAt L bs off = rbind (decodeValue (Suc (lm_maxDepth L)) L bs off) (\<lambda>(v, off'). Inr (v, off' - off))"

definition decodeCbor :: "limits \<Rightarrow> byte list \<Rightarrow> (cbor_error, cbor) result" where
  "decodeCbor L bs = rbind (decodeCborAt L bs 0) (\<lambda>(v, n).
     if n \<noteq> length bs then Inl (TrailingData (length bs - n)) else Inr v)"

text \<open>The typed accessors.  A map lookup misses an absent key and an entry of another type alike.\<close>

datatype cbor_type_error = NotAMap string | MissingOrWrongType string

definition asCborMap :: "cbor \<Rightarrow> string \<Rightarrow> (cbor_type_error, (cbor, cbor) jsmap) result" where
  "asCborMap v what = (case v of CMap m \<Rightarrow> Inr m | _ \<Rightarrow> Inl (NotAMap what))"

definition cborBytes :: "(cbor, cbor) jsmap \<Rightarrow> cbor \<Rightarrow> string \<Rightarrow> (cbor_type_error, byte list) result" where
  "cborBytes m key what = (case js_get m key of Some (CBytes b) \<Rightarrow> Inr b | _ \<Rightarrow> Inl (MissingOrWrongType what))"

definition cborText :: "(cbor, cbor) jsmap \<Rightarrow> cbor \<Rightarrow> string \<Rightarrow> (cbor_type_error, jsstr) result" where
  "cborText m key what = (case js_get m key of Some (CText s) \<Rightarrow> Inr s | _ \<Rightarrow> Inl (MissingOrWrongType what))"

definition cborInt :: "(cbor, cbor) jsmap \<Rightarrow> cbor \<Rightarrow> string \<Rightarrow> (cbor_type_error, int) result" where
  "cborInt m key what = (case js_get m key of Some (CNum i) \<Rightarrow> Inr i | _ \<Rightarrow> Inl (MissingOrWrongType what))"

section \<open>The shortest encoding\<close>

text \<open>Every head in its shortest form, and the entries of a map in the order the value lists them: the key order is
  stated apart, as \<open>keys_ordered\<close>.\<close>

fun bytes_of_nat :: "nat \<Rightarrow> nat \<Rightarrow> byte list" where
  "bytes_of_nat 0 n = []"
| "bytes_of_nat (Suc k) n = bytes_of_nat k (n div 256) @ [word_of_nat n]"

definition head :: "nat \<Rightarrow> nat \<Rightarrow> byte list" where
  "head major n =
     (if n < 24 then [word_of_nat (major * 32 + n)]
      else if n < 0x100 then word_of_nat (major * 32 + 24) # bytes_of_nat 1 n
      else if n < 0x10000 then word_of_nat (major * 32 + 25) # bytes_of_nat 2 n
      else if n < 0x100000000 then word_of_nat (major * 32 + 26) # bytes_of_nat 4 n
      else word_of_nat (major * 32 + 27) # bytes_of_nat 8 n)"

definition encode_int :: "int \<Rightarrow> byte list" where
  "encode_int i = (if i \<ge> 0 then head 0 (nat i) else head 1 (nat (- 1 - i)))"

fun encode :: "cbor \<Rightarrow> byte list" where
  "encode (CNum i) = encode_int i"
| "encode (CBig i) = encode_int i"
| "encode (CBytes b) = head 2 (length b) @ b"
| "encode (CText s) = head 3 (length (TextEncoder_encode s)) @ TextEncoder_encode s"
| "encode (CArray vs) = head 4 (length vs) @ concat (map encode vs)"
| "encode (CMap m) = head 5 (length m) @ concat (map (\<lambda>(k, v). encode k @ encode v) m)"
| "encode (CBool b) = [if b then 0xF5 else 0xF4]"
| "encode CNull = [0xF6]"
| "encode CUndef = [0xF7]"

section \<open>Reading gives back the encoding\<close>

lemma nat_of_bytes_snoc: "nat_of_bytes (bs @ [b]) = nat_of_bytes bs * 256 + unat b"
  by (simp add: nat_of_bytes_def)

lemma unat_byte_less: "unat (b :: byte) < 256"
  using unsigned_less [of b, where 'a = nat] by simp

lemma bytes_of_nat_of_bytes: "bytes_of_nat (length bs) (nat_of_bytes bs) = bs"
proof (induction bs rule: rev_induct)
  case (snoc b bs)
  have "word_of_nat (nat_of_bytes bs * 256 + unat b) = b"
  proof -
    have "(256 :: byte) = 0" by simp
    then have "word_of_nat (nat_of_bytes bs) * 256 + b = b" by (metis add_0 mult_zero_right)
    then show ?thesis by simp
  qed
  with snoc show ?case using unat_byte_less [of b] by (simp add: nat_of_bytes_snoc)
qed simp

lemma nat_of_bytes_less: "nat_of_bytes bs < 256 ^ length bs"
proof (induction bs rule: rev_induct)
  case (snoc b bs)
  then have "Suc (nat_of_bytes bs) * 256 \<le> 256 ^ length bs * 256" by (intro mult_le_mono1) simp
  then show ?case using unat_byte_less [of b] by (simp add: nat_of_bytes_snoc)
qed (simp add: nat_of_bytes_def)

lemma js_slice_join: "a \<le> b \<Longrightarrow> b \<le> c \<Longrightarrow> js_slice a b bs @ js_slice b c bs = js_slice a c bs"
proof -
  assume le: "a \<le> b" "b \<le> c"
  have "take (b - a + (c - b)) (drop a bs) = take (b - a) (drop a bs) @ take (c - b) (drop (b - a) (drop a bs))"
    by (rule take_add)
  with le show ?thesis by (simp add: js_slice_def)
qed

lemma js_slice_empty [simp]: "js_slice a a bs = []"
  by (simp add: js_slice_def)

lemma js_slice_one: "a < length bs \<Longrightarrow> js_slice a (a + 1) bs = [bs ! a]"
  by (simp add: js_slice_def take_Suc_conv_app_nth hd_drop_conv_nth take_Suc)

lemma initial_byte: "word_of_nat (unat b div 32 * 32 + unat b mod 32) = (b :: byte)"
  by simp

lemma read_wide_sound:
  assumes "read_wide bs off k least = Inr (v, off')"
  shows "off' = off + k \<and> off' \<le> length bs \<and> least \<le> v \<and> v < 256 ^ k \<and> bytes_of_nat k v = js_slice off off' bs"
proof -
  have len: "length (take k (drop off bs)) = k" and v: "v = nat_of_bytes (take k (drop off bs))"
    and "off' = off + k" "off + k \<le> length bs" "least \<le> v"
    using assms by (auto simp: read_wide_def need_def guard_or_def Let_def split: if_splits)
  then show ?thesis
    using bytes_of_nat_of_bytes [of "take k (drop off bs)"] nat_of_bytes_less [of "take k (drop off bs)"]
    by (simp add: js_slice_def)
qed

lemma readArgument_sound:
  assumes "readArgument bs off info = Inr (a, off')" "off \<le> length bs"
  shows "off \<le> off' \<and> off' \<le> length bs \<and> head major (arg_nat a) = word_of_nat (major * 32 + info) # js_slice off off' bs \<and>
    (case a of ANum n \<Rightarrow> n < 2 ^ 32 | ABig n \<Rightarrow> 2 ^ 32 \<le> n)"
proof -
  consider "info < 24" "a = ANum info" "off' = off"
    | v where "info = 24" "a = ANum v" "read_wide bs off 1 24 = Inr (v, off')"
    | v where "info = 25" "a = ANum v" "read_wide bs off 2 0x100 = Inr (v, off')"
    | v where "info = 26" "a = ANum v" "read_wide bs off 4 0x10000 = Inr (v, off')"
    | v where "info = 27" "a = ABig v" "read_wide bs off 8 0x100000000 = Inr (v, off')"
    using assms(1) by (auto simp: readArgument_def rbind_eq_Inr split: if_splits)
  then show ?thesis
  proof cases
    case 1
    with assms(2) show ?thesis by (simp add: arg_nat_def head_def)
  next
    case (2 v)
    with read_wide_sound [OF 2(3)] show ?thesis by (simp add: arg_nat_def head_def)
  next
    case (3 v)
    with read_wide_sound [OF 3(3)] show ?thesis by (simp add: arg_nat_def head_def)
  next
    case (4 v)
    with read_wide_sound [OF 4(3)] show ?thesis by (simp add: arg_nat_def head_def)
  next
    case (5 v)
    with read_wide_sound [OF 5(3)] show ?thesis by (simp add: arg_nat_def head_def)
  qed
qed

definition bom_free :: "byte list \<Rightarrow> bool" where
  "bom_free bs \<longleftrightarrow> (\<forall>i. take 3 (drop i bs) \<noteq> bom_bytes)"

lemma text_slice:
  assumes "bom_free bs" "decode_fatal (js_slice a (a + n) bs) = Inr s"
  shows "TextEncoder_encode s = js_slice a (a + n) bs"
proof -
  have "js_slice a (a + n) bs \<noteq> bom_bytes @ xs" for xs
  proof
    assume bom: "js_slice a (a + n) bs = bom_bytes @ xs"
    then have "take 3 (take n (drop a bs)) = bom_bytes" by (simp add: js_slice_def bom_bytes_def)
    moreover have "n \<ge> 3" using arg_cong [OF bom, of length] by (simp add: js_slice_def bom_bytes_def)
    ultimately have "take 3 (drop a bs) = bom_bytes" by (simp add: min_def)
    with assms(1) show False by (simp add: bom_free_def)
  qed
  with decode_fatal_canonical [OF assms(2)] show ?thesis by metis
qed

definition sound_reader :: "byte list \<Rightarrow> cbor_reader \<Rightarrow> bool" where
  "sound_reader bs rd \<longleftrightarrow> (\<forall>off v off'. rd off = Inr (v, off') \<longrightarrow>
     off < off' \<and> off' \<le> length bs \<and> (bom_free bs \<longrightarrow> encode v = js_slice off off' bs))"

lemma sound_readerD:
  "sound_reader bs rd \<Longrightarrow> rd off = Inr (v, off') \<Longrightarrow> off < off' \<and> off' \<le> length bs \<and> (bom_free bs \<longrightarrow> encode v = js_slice off off' bs)"
  by (simp add: sound_reader_def)

lemma read_items_sound:
  assumes "sound_reader bs rd"
  shows "read_items rd n off = Inr (vs, off') \<Longrightarrow> off \<le> length bs \<Longrightarrow>
    length vs = n \<and> off \<le> off' \<and> off' \<le> length bs \<and> (bom_free bs \<longrightarrow> concat (map encode vs) = js_slice off off' bs)"
proof (induction n arbitrary: off vs off')
  case (Suc n)
  then obtain v off1 ws where v: "rd off = Inr (v, off1)" and ws: "read_items rd n off1 = Inr (ws, off')" "vs = v # ws"
    by (auto simp: rbind_eq_Inr)
  note one = sound_readerD [OF assms v]
  note rest = Suc.IH [OF ws(1)]
  from one rest ws(2) js_slice_join [of off off1 off' bs] show ?case by auto
qed simp

lemma js_set_new: "\<not> js_has m k \<Longrightarrow> js_set k v m = m @ [(k, v)]"
  by (induction m) (auto simp: js_has_def split: if_splits)

lemma read_entries_sound:
  assumes "sound_reader bs rd"
  shows "read_entries rd n prev m off = Inr (m', off') \<Longrightarrow> off \<le> length bs \<Longrightarrow>
    \<exists>new. m' = m @ new \<and> length new = n \<and> off \<le> off' \<and> off' \<le> length bs \<and>
      (bom_free bs \<longrightarrow> concat (map (\<lambda>(k, v). encode k @ encode v) new) = js_slice off off' bs)"
proof (induction n arbitrary: prev m off)
  case (Suc n)
  from Suc.prems(1) obtain k off1 v off2 where k: "rd off = Inr (k, off1)" and v: "rd off1 = Inr (v, off2)"
    and new: "\<not> js_has m k" and rest: "read_entries rd n k (js_set k v m) off2 = Inr (m', off')"
    by (auto simp: rbind_eq_Inr split: if_splits)
  note one = sound_readerD [OF assms k] and two = sound_readerD [OF assms v]
  from two have "off2 \<le> length bs" by simp
  from Suc.IH [OF rest this] obtain new where more: "m' = js_set k v m @ new" "length new = n" "off2 \<le> off'" "off' \<le> length bs"
    "bom_free bs \<longrightarrow> concat (map (\<lambda>(k, v). encode k @ encode v) new) = js_slice off2 off' bs" by blast
  have "js_slice off off1 bs @ js_slice off1 off2 bs @ js_slice off2 off' bs = js_slice off off' bs"
    using one two more by (simp add: js_slice_join)
  with one two more show ?case
    by (intro exI [of _ "(k, v) # new"]) (auto simp: js_set_new [OF new])
qed simp

lemma text_case: "(case x of Inl _ \<Rightarrow> Inl e | Inr s \<Rightarrow> Inr (f s)) = Inr r \<longleftrightarrow> (\<exists>s. x = Inr s \<and> f s = r)"
  by (cases x) auto

lemma decode_item_sound:
  assumes rd: "sound_reader bs rd" and off: "off \<le> length bs" and info: "info < 32" "major < 8"
    and run: "decode_item L bs rd major info off = Inr (v, off')"
  shows "off \<le> off' \<and> off' \<le> length bs \<and> (bom_free bs \<longrightarrow> encode v = word_of_nat (major * 32 + info) # js_slice off off' bs)"
proof -
  have arg: "readArgument bs off info = Inr (a, off1) \<Longrightarrow> off \<le> off1 \<and> off1 \<le> length bs \<and>
      head m (arg_nat a) = word_of_nat (m * 32 + info) # js_slice off off1 bs" for a off1 m
    using readArgument_sound [OF _ off] by blast
  have len: "asLength a l = Inr n \<Longrightarrow> arg_nat a = n" for a l n
    by (cases a) (auto simp: asLength_def arg_nat_def split: if_splits)
  have bytes: "need bs off1 n = Inr () \<Longrightarrow> off1 + n \<le> length bs" for off1 n
    by (auto simp: need_def guard_or_def split: if_splits)
  consider "major = 0" | "major = 1" | "major = 2" | "major = 3" | "major = 4" | "major = 5" | "major = 6" | "major = 7"
    using info(2) by linarith
  then show ?thesis
  proof cases
    case 1
    then obtain a where a: "readArgument bs off info = Inr (a, off')"
      and v: "v = (case a of ANum n \<Rightarrow> CNum (int n) | ABig n \<Rightarrow> if n \<le> 2 ^ 53 - 1 then CNum (int n) else CBig (int n))"
      using run by (auto simp: decode_item_def rbind_eq_Inr)
    have "encode v = head 0 (arg_nat a)" by (cases a) (simp_all add: v arg_nat_def encode_int_def)
    with arg [OF a, of 0] 1 show ?thesis by simp
  next
    case 2
    then obtain a where a: "readArgument bs off info = Inr (a, off')"
      and v: "v = (case a of ANum n \<Rightarrow> CNum (- 1 - int n) | ABig n \<Rightarrow> CBig (- 1 - int n))"
      using run by (auto simp: decode_item_def rbind_eq_Inr)
    have "encode v = head 1 (arg_nat a)" by (cases a) (simp_all add: v arg_nat_def encode_int_def)
    with arg [OF a, of 1] 2 show ?thesis by simp
  next
    case 3
    then obtain a off1 n where a: "readArgument bs off info = Inr (a, off1)" "asLength a (lm_maxStringBytes L) = Inr n"
      "need bs off1 n = Inr ()" and v: "v = CBytes (js_slice off1 (off1 + n) bs)" "off' = off1 + n"
      using run by (auto simp: decode_item_def rbind_eq_Inr)
    from arg [OF a(1), of 2] len [OF a(2)] bytes [OF a(3)] js_slice_join [of off off1 off' bs] show ?thesis
      by (auto simp: 3 v length_js_slice)
  next
    case 4
    then obtain a off1 n s where a: "readArgument bs off info = Inr (a, off1)" "asLength a (lm_maxStringBytes L) = Inr n"
      "need bs off1 n = Inr ()" and s: "decode_fatal (js_slice off1 (off1 + n) bs) = Inr s" and v: "v = CText s" "off' = off1 + n"
      using run by (auto simp: decode_item_def rbind_eq_Inr text_case)
    from arg [OF a(1), of 3] len [OF a(2)] bytes [OF a(3)] js_slice_join [of off off1 off' bs] text_slice [OF _ s] show ?thesis
      by (auto simp: 4 v length_js_slice)
  next
    case 5
    then obtain a off1 n vs where a: "readArgument bs off info = Inr (a, off1)" "asLength a (lm_maxElements L) = Inr n"
      and vs: "read_items rd n off1 = Inr (vs, off')" and v: "v = CArray vs"
      using run by (auto simp: decode_item_def rbind_eq_Inr)
    from arg [OF a(1), of 4] have "off1 \<le> length bs" by simp
    from read_items_sound [OF rd vs this] arg [OF a(1), of 4] len [OF a(2)] js_slice_join [of off off1 off' bs] show ?thesis
      by (auto simp: 5 v)
  next
    case 6
    then obtain a off1 n m where a: "readArgument bs off info = Inr (a, off1)" "asLength a (lm_maxElements L) = Inr n"
      and m: "read_entries rd n CUndef [] off1 = Inr (m, off')" and v: "v = CMap m"
      using run by (auto simp: decode_item_def rbind_eq_Inr)
    from arg [OF a(1), of 5] have "off1 \<le> length bs" by simp
    from read_entries_sound [OF rd m this] arg [OF a(1), of 5] len [OF a(2)] js_slice_join [of off off1 off' bs] show ?thesis
      by (auto simp: 6 v)
  next
    case 7
    with run show ?thesis by (simp add: decode_item_def)
  next
    case 8
    with run off show ?thesis by (auto simp: decode_item_def split: if_splits)
  qed
qed

lemma decodeValue_sound: "sound_reader bs (decodeValue levels L bs)"
proof (induction levels)
  case (Suc levels)
  show ?case
    unfolding sound_reader_def
  proof (intro allI impI)
    fix off v off'
    assume "decodeValue (Suc levels) L bs off = Inr (v, off')"
    then have off: "off < length bs"
      and run: "decode_item L bs (decodeValue levels L bs) (unat (bs ! off) div 32) (unat (bs ! off) mod 32) (off + 1) = Inr (v, off')"
      by (auto simp: rbind_eq_Inr need_def guard_or_def Let_def split: if_splits)
    have major: "unat (bs ! off) div 32 < 8" using unat_byte_less [of "bs ! off"] by (simp add: less_mult_imp_div_less)
    from decode_item_sound [OF Suc _ _ major run] off
    have "off + 1 \<le> off'" "off' \<le> length bs" "bom_free bs \<longrightarrow> encode v = [bs ! off] @ js_slice (off + 1) off' bs" by auto
    then show "off < off' \<and> off' \<le> length bs \<and> (bom_free bs \<longrightarrow> encode v = js_slice off off' bs)"
      using js_slice_one [OF off] js_slice_join [of off "off + 1" off' bs] by auto
  qed
qed (simp add: sound_reader_def)

section \<open>Resource bounds\<close>

fun nodes :: "cbor \<Rightarrow> nat" where
  "nodes (CArray vs) = 1 + sum_list (map nodes vs)"
| "nodes (CMap m) = 1 + sum_list (map (\<lambda>(k, v). nodes k + nodes v) m)"
| "nodes _ = 1"

fun nesting :: "cbor \<Rightarrow> nat" where
  "nesting (CArray vs) = 1 + foldr max (map nesting vs) 0"
| "nesting (CMap m) = 1 + foldr max (map (\<lambda>(k, v). max (nesting k) (nesting v)) m) 0"
| "nesting _ = 1"

definition bounded_reader :: "nat \<Rightarrow> cbor_reader \<Rightarrow> bool" where
  "bounded_reader d rd \<longleftrightarrow> (\<forall>off v off'. rd off = Inr (v, off') \<longrightarrow> off + nodes v \<le> off' \<and> nesting v \<le> d)"

lemma bounded_readerD: "bounded_reader d rd \<Longrightarrow> rd off = Inr (v, off') \<Longrightarrow> off + nodes v \<le> off' \<and> nesting v \<le> d"
  by (simp add: bounded_reader_def)

lemma read_items_bounded:
  assumes "bounded_reader d rd"
  shows "read_items rd n off = Inr (vs, off') \<Longrightarrow> off + sum_list (map nodes vs) \<le> off' \<and> foldr max (map nesting vs) 0 \<le> d"
proof (induction n arbitrary: off vs)
  case (Suc n)
  then obtain v off1 ws where v: "rd off = Inr (v, off1)" and ws: "read_items rd n off1 = Inr (ws, off')" "vs = v # ws"
    by (auto simp: rbind_eq_Inr)
  from bounded_readerD [OF assms v] Suc.IH [OF ws(1)] ws(2) show ?case by auto
qed simp

lemma read_entries_bounded:
  assumes "bounded_reader d rd"
  shows "read_entries rd n prev m off = Inr (m', off') \<Longrightarrow>
    \<exists>new. m' = m @ new \<and> off + sum_list (map (\<lambda>(k, v). nodes k + nodes v) new) \<le> off' \<and>
      foldr max (map (\<lambda>(k, v). max (nesting k) (nesting v)) new) 0 \<le> d"
proof (induction n arbitrary: prev m off)
  case (Suc n)
  from Suc.prems(1) obtain k off1 v off2 where k: "rd off = Inr (k, off1)" and v: "rd off1 = Inr (v, off2)"
    and new: "\<not> js_has m k" and rest: "read_entries rd n k (js_set k v m) off2 = Inr (m', off')"
    by (auto simp: rbind_eq_Inr split: if_splits)
  from Suc.IH [OF rest] obtain new where "m' = js_set k v m @ new"
    "off2 + sum_list (map (\<lambda>(k, v). nodes k + nodes v) new) \<le> off'"
    "foldr max (map (\<lambda>(k, v). max (nesting k) (nesting v)) new) 0 \<le> d" by blast
  with bounded_readerD [OF assms k] bounded_readerD [OF assms v] show ?case
    by (intro exI [of _ "(k, v) # new"]) (auto simp: js_set_new [OF new])
qed simp

lemma readArgument_forward: "readArgument bs off info = Inr (a, off') \<Longrightarrow> off \<le> off'"
  by (auto simp: readArgument_def rbind_eq_Inr dest!: read_wide_sound split: if_splits)

lemma decode_item_bounded:
  assumes rd: "bounded_reader d rd" and run: "decode_item L bs rd major info off = Inr (v, off')"
  shows "off + nodes v \<le> Suc off' \<and> nesting v \<le> Suc d"
proof -
  note forward = readArgument_forward
  consider "major = 0 \<or> major = 1" | "major = 2" | "major = 3" | "major = 4" | "major = 5" | "major > 5"
    by linarith
  then show ?thesis
  proof cases
    case 1
    then obtain a where a: "readArgument bs off info = Inr (a, off')"
      and v: "v = (case a of ANum n \<Rightarrow> CNum (int n) | ABig n \<Rightarrow> if n \<le> 2 ^ 53 - 1 then CNum (int n) else CBig (int n)) \<or>
        v = (case a of ANum n \<Rightarrow> CNum (- 1 - int n) | ABig n \<Rightarrow> CBig (- 1 - int n))"
      using run by (auto simp: decode_item_def rbind_eq_Inr)
    have "nodes v = 1 \<and> nesting v = 1" using v by (cases a) auto
    with forward [OF a] show ?thesis by simp
  next
    case 2
    then obtain a off1 where "readArgument bs off info = Inr (a, off1)" "off1 \<le> off'" "nodes v = 1 \<and> nesting v = 1"
      using run by (auto simp: decode_item_def rbind_eq_Inr)
    with forward show ?thesis by fastforce
  next
    case 3
    then obtain a off1 where "readArgument bs off info = Inr (a, off1)" "off1 \<le> off'" "nodes v = 1 \<and> nesting v = 1"
      using run by (auto simp: decode_item_def rbind_eq_Inr text_case)
    with forward show ?thesis by fastforce
  next
    case 4
    then obtain a off1 n vs where "readArgument bs off info = Inr (a, off1)" "read_items rd n off1 = Inr (vs, off')" "v = CArray vs"
      using run by (auto simp: decode_item_def rbind_eq_Inr)
    with forward read_items_bounded [OF rd] show ?thesis by fastforce
  next
    case 5
    then obtain a off1 n m where "readArgument bs off info = Inr (a, off1)" "read_entries rd n CUndef [] off1 = Inr (m, off')" "v = CMap m"
      using run by (auto simp: decode_item_def rbind_eq_Inr)
    with forward read_entries_bounded [OF rd] show ?thesis by fastforce
  next
    case 6
    with run show ?thesis by (auto simp: decode_item_def split: if_splits)
  qed
qed

lemma decodeValue_bounded: "bounded_reader levels (decodeValue levels L bs)"
proof (induction levels)
  case (Suc levels)
  show ?case
    unfolding bounded_reader_def
  proof (intro allI impI)
    fix off v off'
    assume "decodeValue (Suc levels) L bs off = Inr (v, off')"
    then have "decode_item L bs (decodeValue levels L bs) (unat (bs ! off) div 32) (unat (bs ! off) mod 32) (off + 1) = Inr (v, off')"
      by (auto simp: rbind_eq_Inr Let_def)
    from decode_item_bounded [OF Suc this] show "off + nodes v \<le> off' \<and> nesting v \<le> Suc levels" by simp
  qed
qed (simp add: bounded_reader_def)

section \<open>The order of map entries\<close>

lemma read_entries_extends: "read_entries rd n prev m off = Inr (m', off') \<Longrightarrow> \<exists>new. m' = m @ new"
proof (induction n arbitrary: prev m off)
  case (Suc n)
  then obtain k off2 v where new: "\<not> js_has m k" and "read_entries rd n k (js_set k v m) off2 = Inr (m', off')"
    by (auto simp: rbind_eq_Inr split: if_splits)
  from Suc.IH [OF this(2)] show ?case by (auto simp: js_set_new [OF new])
qed simp

definition plain_key :: "cbor \<Rightarrow> bool" where
  "plain_key k = (case k of CNum _ \<Rightarrow> True | CText _ \<Rightarrow> True | _ \<Rightarrow> False)"

definition key_less :: "cbor \<Rightarrow> cbor \<Rightarrow> bool" where
  "key_less a b \<longleftrightarrow> canonicalKeyOrder a b < 0"

lemma key_less_irrefl: "\<not> key_less a a"
  by (simp add: key_less_def canonicalKeyOrder_def split: cbor.split)

lemma key_order_total: "plain_key a \<Longrightarrow> plain_key b \<Longrightarrow> a \<noteq> b \<Longrightarrow> \<not> canonicalKeyOrder a b > 0 \<Longrightarrow> key_less a b"
  using units_less_total by (cases a; cases b) (auto simp: plain_key_def key_less_def canonicalKeyOrder_def key_rank_def split: if_splits)

lemma key_less_trans: "plain_key a \<Longrightarrow> plain_key b \<Longrightarrow> plain_key c \<Longrightarrow> key_less a b \<Longrightarrow> key_less b c \<Longrightarrow> key_less a c"
  by (cases a; cases b; cases c)
    (auto simp: plain_key_def key_less_def canonicalKeyOrder_def key_rank_def split: if_splits dest: units_less_trans)


lemma key_less_asym: "plain_key a \<Longrightarrow> plain_key b \<Longrightarrow> key_less a b \<Longrightarrow> \<not> key_less b a"
  using key_less_trans [of a b a] key_less_irrefl by blast

definition entries_sorted :: "(cbor \<times> cbor) list \<Rightarrow> bool" where
  "entries_sorted m = sorted_wrt (\<lambda>p q. key_less (fst p) (fst q)) m"

definition plain_keys :: "(cbor \<times> cbor) list \<Rightarrow> bool" where
  "plain_keys m = list_all (plain_key \<circ> fst) m"

lemma entries_sorted_snoc:
  assumes "entries_sorted (m @ [(a, x)])" "plain_keys (m @ [(a, x)])" "plain_key k" "key_less a k"
  shows "entries_sorted (m @ [(a, x), (k, v)])"
proof -
  have "key_less (fst p) k" if "p \<in> set m" for p
    using assms that key_less_trans [of "fst p" a k] by (auto simp: entries_sorted_def sorted_wrt_append plain_keys_def list_all_iff)
  with assms show ?thesis by (auto simp: entries_sorted_def sorted_wrt_append)
qed

lemma read_entries_sorted:
  "read_entries rd n prev m off = Inr (m', off') \<Longrightarrow> plain_keys m' \<Longrightarrow>
   (m = [] \<and> prev = CUndef \<or> (\<exists>m0 x. m = m0 @ [(prev, x)])) \<Longrightarrow> entries_sorted m \<Longrightarrow> entries_sorted m'"
proof (induction n arbitrary: prev m off)
  case (Suc n)
  from Suc.prems(1) obtain k off1 v off2 where new: "\<not> js_has m k" and order: "prev = CUndef \<or> \<not> canonicalKeyOrder prev k > 0"
    and rest: "read_entries rd n k (js_set k v m) off2 = Inr (m', off')"
    by (auto simp: rbind_eq_Inr split: if_splits)
  have set: "js_set k v m = m @ [(k, v)]" by (rule js_set_new [OF new])
  from read_entries_extends [OF rest] obtain new where m': "m' = m @ (k, v) # new" by (auto simp: set)
  have "entries_sorted (m @ [(k, v)])"
  proof (cases "m = []")
    case False
    with Suc.prems(3) obtain m0 x where m: "m = m0 @ [(prev, x)]" by blast
    have plain: "plain_key prev" "plain_key k" "plain_keys m" using Suc.prems(2) by (simp_all add: m' m plain_keys_def)
    from new have "prev \<noteq> k" by (auto simp: js_has_def m)
    with order plain have "key_less prev k" by (auto intro: key_order_total simp: plain_key_def)
    with Suc.prems(4) plain show ?thesis unfolding m by (auto intro: entries_sorted_snoc)
  qed (simp add: entries_sorted_def)
  with Suc.IH [OF rest Suc.prems(2)] show ?case by (auto simp: set)
qed simp

lemma same_entries_same_list:
  "entries_sorted m \<Longrightarrow> entries_sorted m' \<Longrightarrow> plain_keys m \<Longrightarrow> plain_keys m' \<Longrightarrow> set m = set m' \<Longrightarrow> m = m'"
proof (induction m arbitrary: m')
  case (Cons p ps)
  then obtain q qs where m': "m' = q # qs" by (cases m') auto
  have below: "\<And>x. x \<in> set ps \<Longrightarrow> key_less (fst p) (fst x)" "\<And>x. x \<in> set qs \<Longrightarrow> key_less (fst q) (fst x)"
    and plain: "plain_key (fst p)" "plain_key (fst q)"
    using Cons.prems by (auto simp: m' entries_sorted_def plain_keys_def)
  have "p = q"
  proof (rule ccontr)
    assume "p \<noteq> q"
    with Cons.prems(5) have "p \<in> set qs" "q \<in> set ps" by (auto simp: m')
    with below key_less_asym [OF plain] show False by blast
  qed
  moreover have "p \<notin> set ps" "q \<notin> set qs" using below key_less_irrefl by blast+
  ultimately have "set ps = set qs" using Cons.prems(5) by (auto simp: m')
  with Cons.IH [of qs] Cons.prems \<open>p = q\<close> show ?case by (simp add: m' entries_sorted_def plain_keys_def)
qed simp


text \<open>No map of a value has an array, a map or a byte string as a key, or a key twice, or a key that the decoder's
  comparison puts before its predecessor; a key after \<^verbatim>\<open>undefined\<close> is not compared.\<close>

definition follows_key :: "cbor \<Rightarrow> cbor \<Rightarrow> bool" where
  "follows_key a b \<longleftrightarrow> a = CUndef \<or> canonicalKeyOrder a b \<le> 0"

definition entries_ordered :: "(cbor \<times> cbor) list \<Rightarrow> bool" where
  "entries_ordered m \<longleftrightarrow> distinct (map fst m) \<and> list_all (\<lambda>k. \<not> object_key k) (map fst m) \<and> successively follows_key (map fst m)"

fun keys_ordered :: "cbor \<Rightarrow> bool" where
  "keys_ordered (CArray vs) \<longleftrightarrow> (\<forall>v \<in> set vs. keys_ordered v)"
| "keys_ordered (CMap m) \<longleftrightarrow> entries_ordered m \<and> (\<forall>p \<in> set m. keys_ordered (snd p))"
| "keys_ordered v \<longleftrightarrow> True"

definition ordered_reader :: "cbor_reader \<Rightarrow> bool" where
  "ordered_reader rd \<longleftrightarrow> (\<forall>off v off'. rd off = Inr (v, off') \<longrightarrow> keys_ordered v)"

lemma ordered_readerD: "ordered_reader rd \<Longrightarrow> rd off = Inr (v, off') \<Longrightarrow> keys_ordered v"
  unfolding ordered_reader_def by blast

lemma read_items_ordered:
  assumes "ordered_reader rd"
  shows "read_items rd n off = Inr (vs, off') \<Longrightarrow> \<forall>v \<in> set vs. keys_ordered v"
  by (induction n arbitrary: off vs) (auto simp: rbind_eq_Inr dest: ordered_readerD [OF assms])

lemma entries_ordered_snoc:
  assumes "entries_ordered m" "\<not> js_has m k" "\<not> object_key k" "m = [] \<or> follows_key (fst (last m)) k"
  shows "entries_ordered (m @ [(k, v)])"
  using assms by (auto simp: entries_ordered_def successively_append_iff last_map js_has_def map_of_eq_None_iff)

lemma read_entries_ordered:
  assumes "ordered_reader rd"
  shows "read_entries rd n prev m off = Inr (m', off') \<Longrightarrow> entries_ordered m \<Longrightarrow> \<forall>p \<in> set m. keys_ordered (snd p) \<Longrightarrow>
    (if m = [] then prev = CUndef else fst (last m) = prev) \<Longrightarrow> keys_ordered (CMap m')"
proof (induction n arbitrary: prev m off)
  case (Suc n)
  from Suc.prems(1) obtain k off1 v off2 where k: "rd off = Inr (k, off1)" "\<not> object_key k" and v: "rd off1 = Inr (v, off2)"
    and new: "\<not> js_has m k" and order: "prev = CUndef \<or> \<not> canonicalKeyOrder prev k > 0"
    and rest: "read_entries rd n k (js_set k v m) off2 = Inr (m', off')"
    by (auto simp: rbind_eq_Inr split: if_splits)
  have "m = [] \<or> follows_key (fst (last m)) k"
    using order Suc.prems(4) by (auto simp: follows_key_def split: if_splits)
  then have "entries_ordered (js_set k v m)"
    unfolding js_set_new [OF new] by (rule entries_ordered_snoc [OF Suc.prems(2) new k(2)])
  moreover have "\<forall>p \<in> set (js_set k v m). keys_ordered (snd p)"
    using Suc.prems(3) assms v by (auto simp: js_set_new [OF new] ordered_reader_def)
  ultimately show ?case
    using Suc.IH [OF rest] by (simp add: js_set_new [OF new])
qed simp

lemma decode_item_ordered:
  assumes rd: "ordered_reader rd" and run: "decode_item L bs rd major info off = Inr (v, off')"
  shows "keys_ordered v"
proof -
  have num: "keys_ordered (case a of ANum n \<Rightarrow> CNum (f n) | ABig n \<Rightarrow> if P n then CNum (g n) else CBig (h n))"
      "keys_ordered (case a of ANum n \<Rightarrow> CNum (f n) | ABig n \<Rightarrow> CBig (h n))" for a f g h P
    by (cases a; simp)+
  consider "major = 4" | "major = 5" | "major \<noteq> 4" "major \<noteq> 5" by blast
  then show ?thesis
  proof cases
    case 1
    then show ?thesis
      using run read_items_ordered [OF rd] by (auto simp: decode_item_def rbind_eq_Inr)
  next
    case 2
    then obtain n off1 m where "read_entries rd n CUndef [] off1 = Inr (m, off')" "v = CMap m"
      using run by (auto simp: decode_item_def rbind_eq_Inr)
    with read_entries_ordered [OF rd this(1)] show ?thesis by (simp add: entries_ordered_def)
  next
    case 3
    with run show ?thesis
      using num by (auto simp: decode_item_def rbind_eq_Inr text_case split: if_splits)
  qed
qed

lemma decodeValue_ordered: "ordered_reader (decodeValue levels L bs)"
proof (induction levels)
  case (Suc levels)
  show ?case
    unfolding ordered_reader_def
  proof (intro allI impI)
    fix off v off'
    assume "decodeValue (Suc levels) L bs off = Inr (v, off')"
    then have "decode_item L bs (decodeValue levels L bs) (unat (bs ! off) div 32) (unat (bs ! off) mod 32) (off + 1) = Inr (v, off')"
      by (auto simp: rbind_eq_Inr Let_def)
    then show "keys_ordered v" by (rule decode_item_ordered [OF Suc])
  qed
qed (simp add: ordered_reader_def)

section \<open>What the decoder accepts\<close>

text \<open>The decoder as rewrite rules for inputs given byte by byte.\<close>

lemma decodeValue_step:
  "decodeValue levels L bs off = (if levels = 0 then Inl TooDeep
     else if off + 1 \<le> length bs
     then decode_item L bs (decodeValue (levels - 1) L bs) (unat (bs ! off) div 32) (unat (bs ! off) mod 32) (off + 1)
     else Inl (Truncated 1 off))"
  by (cases levels) (simp_all add: need_def guard_or_def rbind_def Let_def)

lemma read_items_step:
  "read_items rd n off = (if n = 0 then Inr ([], off) else rbind (rd off) (\<lambda>(v, off1).
     rbind (read_items rd (n - 1) off1) (\<lambda>(vs, off2). Inr (v # vs, off2))))"
  by (cases n) simp_all

lemma read_entries_step:
  "read_entries rd n prev m off = (if n = 0 then Inr (m, off) else rbind (rd off) (\<lambda>(k, off1).
     if object_key k then Inl BadMapKey
     else if js_has m k then Inl (DuplicateMapKey k)
     else if prev \<noteq> CUndef \<and> canonicalKeyOrder prev k > 0 then Inl KeyOrder
     else rbind (rd off1) (\<lambda>(v, off2). read_entries rd (n - 1) k (js_set k v m) off2)))"
  by (cases n) (simp_all cong del: if_weak_cong)

lemmas decoder_rules =
  decodeCbor_def decodeCborAt_def decodeValue_step read_items_step read_entries_step decode_item_def readArgument_def
  read_wide_def asLength_def need_def guard_or_def DEFAULTS_def canonicalKeyOrder_def key_rank_def object_key_def
  nat_of_bytes_def js_slice_def js_has_def decode_fatal_def u8_lead_def from_scalars_def units_of_def unit_of_def

lemma decodeCbor_run:
  assumes "decodeCbor L bs = Inr v"
  shows "decodeValue (Suc (lm_maxDepth L)) L bs 0 = Inr (v, length bs)"
  using assms by (auto simp: decodeCbor_def decodeCborAt_def rbind_eq_Inr simp del: decodeValue.simps split: if_splits)

lemma decodeCbor_encode: "bom_free bs \<Longrightarrow> decodeCbor L bs = Inr v \<Longrightarrow> bs = encode v"
  using sound_readerD [OF decodeValue_sound decodeCbor_run] by (simp add: js_slice_def)

lemma decodeCbor_ordered: "decodeCbor L bs = Inr v \<Longrightarrow> keys_ordered v"
  using decodeValue_ordered decodeCbor_run unfolding ordered_reader_def by blast

text \<open>C36: Every accepted input without a byte order mark is the shortest encoding of what it decodes to, with the keys of
  every map in the order of the decoder's comparison, and none twice; so two accepted inputs with the same value are the
  same bytes.  (That order leaves simple values and what follows \<^verbatim>\<open>undefined\<close> free: \<open>cbor_map_order_gaps\<close>.)\<close>

theorem cbor_accepts_only_canonical:
  assumes "bom_free bs" "decodeCbor L bs = Inr v"
  shows "encode v = bs \<and> keys_ordered v"
  using decodeCbor_encode [OF assms] decodeCbor_ordered [OF assms(2)] by simp

lemma bom_free_lead:
  assumes "0xEF \<notin> set bs"
  shows "bom_free bs"
  unfolding bom_free_def
proof (intro allI notI)
  fix i
  assume "take 3 (drop i bs) = bom_bytes"
  then have "0xEF \<in> set (take 3 (drop i bs))" by (simp add: bom_bytes_def)
  with assms show False using in_set_takeD in_set_dropD by fast
qed

lemma cbor_accepts_only_canonical_witness:
  "decodeCbor DEFAULTS [0xA2, 1, 0x20, 0x61, 0x61, 3] = Inr (CMap [(CNum 1, CNum (- 1)), (CText [0x61], CNum 3)]) \<and>
   keys_ordered (CMap [(CNum 1, CNum (- 1)), (CText [0x61], CNum 3)])"
proof -
  have run: "decodeCbor DEFAULTS [0xA2, 1, 0x20, 0x61, 0x61, 3] = Inr (CMap [(CNum 1, CNum (- 1)), (CText [0x61], CNum 3)])"
    by (simp add: decoder_rules)
  from cbor_accepts_only_canonical [OF bom_free_lead run] run show ?thesis by simp
qed

text \<open>An item read at an offset takes at least one byte, ends inside the input, has no more nodes than
  bytes and is no deeper than the limit allows.\<close>

theorem cbor_work_bounded:
  assumes "decodeCborAt L bs off = Inr (v, n)"
  shows "0 < n \<and> off + n \<le> length bs \<and> nodes v \<le> n \<and> nesting v \<le> lm_maxDepth L + 1"
proof -
  from assms obtain off' where run: "decodeValue (Suc (lm_maxDepth L)) L bs off = Inr (v, off')" and n: "n = off' - off"
    by (auto simp: decodeCborAt_def rbind_eq_Inr simp del: decodeValue.simps)
  from sound_readerD [OF decodeValue_sound run] bounded_readerD [OF decodeValue_bounded run] n show ?thesis by auto
qed

lemma cbor_work_bounded_witness: "nodes (CArray [CNull, CNull]) \<le> 3 \<and> decodeCborAt DEFAULTS [0, 0x82, 0xF6, 0xF6] 1 = Inr (CArray [CNull, CNull], 3)"
proof -
  have run: "decodeCborAt DEFAULTS [0, 0x82, 0xF6, 0xF6] 1 = Inr (CArray [CNull, CNull], 3)" by (simp add: decoder_rules)
  from cbor_work_bounded [OF run] run show ?thesis by simp
qed

lemma decode_item_map:
  assumes "decode_item L bs rd major info off = Inr (CMap m, off')"
  obtains n off1 where "read_entries rd n CUndef [] off1 = Inr (m, off')"
proof (cases "major = 5")
  case True
  with assms that show ?thesis by (auto simp: decode_item_def rbind_eq_Inr)
next
  case False
  have "(case a of ANum n \<Rightarrow> CNum (f n) | ABig n \<Rightarrow> g n) \<noteq> CMap m" if "\<And>n. g n \<noteq> CMap m" for a f g
    using that by (cases a) auto
  with False assms show ?thesis by (auto simp: decode_item_def rbind_eq_Inr text_case split: if_splits arg.splits)
qed

lemma decode_map_sorted:
  assumes "decodeCbor L bs = Inr (CMap m)" "plain_keys m"
  shows "entries_sorted m"
proof -
  from decodeCbor_run [OF assms(1)] obtain rd major info where "decode_item L bs rd major info 1 = Inr (CMap m, length bs)"
    by (auto simp: rbind_eq_Inr Let_def)
  then obtain off n where "read_entries rd n CUndef [] off = Inr (m, length bs)"
    using decode_item_map by blast
  from read_entries_sorted [OF this assms(2)] show ?thesis by (simp add: entries_sorted_def)
qed

text \<open>Two accepted maps with the same entries, in whatever order, are the same bytes when their keys are
  text strings and integers below 2^53.\<close>

theorem cbor_map_one_encoding:
  assumes "bom_free bs" "decodeCbor L bs = Inr (CMap m)" "plain_keys m"
    and "bom_free bs'" "decodeCbor L bs' = Inr (CMap m')" "plain_keys m'"
    and "set m = set m'"
  shows "bs = bs'"
proof -
  have "m = m'" using same_entries_same_list assms decode_map_sorted by blast
  with decodeCbor_encode [OF assms(1,2)] decodeCbor_encode [OF assms(4,5)] show ?thesis by simp
qed

lemma cbor_map_one_encoding_witness:
  "\<exists>bs m. bs = [0xA2, 1, 2, 0x61, 0x61, 3] \<and> m = [(CNum 1, CNum 2), (CText [0x61], CNum 3)] \<and>
     decodeCbor DEFAULTS bs = Inr (CMap m) \<and> encode (CMap m) = bs"
proof (intro exI conjI)
  let ?bs = "[0xA2, 1, 2, 0x61, 0x61, 3] :: byte list" and ?m = "[(CNum 1, CNum 2), (CText [0x61], CNum 3)]"
  have enc: "encode (CMap ?m) = ?bs" by (simp add: head_def encode_int_def TextEncoder_encode_def utf8_bytes_def byte_of_def scalar_unit_def is_high_def is_low_def)
  show run: "decodeCbor DEFAULTS ?bs = Inr (CMap ?m)" by (simp add: decoder_rules)
  have bom: "bom_free ?bs" by (simp add: bom_free_lead)
  have plain: "plain_keys ?m" by (simp add: plain_keys_def plain_key_def)
  have "decodeCbor DEFAULTS (encode (CMap ?m)) = Inr (CMap ?m)" "bom_free (encode (CMap ?m))"
    unfolding enc by (fact run, fact bom)
  from cbor_map_one_encoding [OF this(2,1) plain bom run plain refl] show "encode (CMap ?m) = ?bs" .
qed (rule refl)+

text \<open>Keys that are simple values escape the order check, and so does whatever follows an \<open>undefined\<close>
  key: one set of entries has two accepted encodings.\<close>

theorem cbor_map_order_gaps:
  "decodeCbor DEFAULTS [0xA2, 0xF4, 1, 0xF5, 2] = Inr (CMap [(CBool False, CNum 1), (CBool True, CNum 2)]) \<and>
   decodeCbor DEFAULTS [0xA2, 0xF5, 2, 0xF4, 1] = Inr (CMap [(CBool True, CNum 2), (CBool False, CNum 1)])"
  by (simp add: decoder_rules)

text \<open>A text string that begins with a byte order mark loses it, so two encodings give one value.\<close>

theorem cbor_text_drops_bom:
  "decodeCbor DEFAULTS [0x64, 0xEF, 0xBB, 0xBF, 0x61] = Inr (CText [0x61]) \<and> decodeCbor DEFAULTS [0x61, 0x61] = Inr (CText [0x61])"
  by (simp add: decoder_rules)

text \<open>CTAP2 compares keys by the length of their encoding; the decoder compares UTF-16 lengths, so it
  refuses the canonical order of \<open>zz\<close> and a one-unit character of two bytes.\<close>

theorem cbor_key_order_by_units:
  "decodeCbor DEFAULTS [0xA2, 0x62, 0x7A, 0x7A, 1, 0x62, 0xC3, 0xA9, 2] = Inl KeyOrder"
  by (simp add: decoder_rules)

end
