(* ===== verification/Json.thy ===== *)
theory Json
  imports Bytes Complex_Main
begin

text \<open>
  \<^verbatim>\<open>JSON.parse\<close> of the standard library (ECMA-404), on UTF-16 code units.

  A number is the rational its literal denotes: the rounding of literals that no double represents
  is not modelled.  A later member of an object replaces an earlier one of the same name.  Every
  function returns the rest of its input, and the recursion is on the length of what is left.
\<close>

datatype json =
    JNull
  | JBool bool
  | JNum rat
  | JStr jsstr
  | JArr "json list"
  | JObj "(jsstr, json) jsmap"

definition json_ws :: "jsstr \<Rightarrow> jsstr" where
  "json_ws s = dropWhile (\<lambda>c. c = 32 \<or> c = 9 \<or> c = 10 \<or> c = 13) s"

definition digit :: "16 word \<Rightarrow> bool" where
  "digit c \<longleftrightarrow> 48 \<le> c \<and> c \<le> 57"

definition hex_digit :: "16 word \<Rightarrow> 16 word option" where
  "hex_digit c = (if 48 \<le> c \<and> c \<le> 57 then Some (c - 48)
     else if 65 \<le> c \<and> c \<le> 70 then Some (c - 55)
     else if 97 \<le> c \<and> c \<le> 102 then Some (c - 87)
     else None)"

definition escape_unit :: "16 word \<Rightarrow> 16 word option" where
  "escape_unit c = map_of [(34, 34), (92, 92), (47, 47), (98, 8), (102, 12), (110, 10), (114, 13), (116, 9)] c"

text \<open>What follows a backslash.\<close>

definition json_escape :: "jsstr \<Rightarrow> (16 word \<times> jsstr) option" where
  "json_escape s = (case s of
       [] \<Rightarrow> None
     | e # rest \<Rightarrow>
         if e = 117 then
           (case map hex_digit (take 4 rest) of
              [Some a, Some b, Some c, Some d] \<Rightarrow> Some (((a * 16 + b) * 16 + c) * 16 + d, drop 4 rest)
            | _ \<Rightarrow> None)
         else map_option (\<lambda>u. (u, rest)) (escape_unit e))"

lemma json_escape_consumes [termination_simp]: "json_escape s = Some (u, r) \<Longrightarrow> length r < length s"
  by (auto simp: json_escape_def split: list.splits if_splits option.splits)

text \<open>The characters of a string up to its closing quote.\<close>

fun json_chars :: "jsstr \<Rightarrow> (jsstr \<times> jsstr) option" where
  "json_chars [] = None"
| "json_chars (c # cs) =
     (if c = 34 then Some ([], cs)
      else if c < 32 then None
      else if c = 92 then
        (case json_escape cs of None \<Rightarrow> None | Some (u, rest) \<Rightarrow> map_option (apfst (Cons u)) (json_chars rest))
      else map_option (apfst (Cons c)) (json_chars cs))"

definition json_digits :: "jsstr \<Rightarrow> (jsstr \<times> jsstr) option" where
  "json_digits s = (let ds = takeWhile digit s in if ds = [] then None else Some (ds, dropWhile digit s))"

definition json_integer :: "jsstr \<Rightarrow> (jsstr \<times> jsstr) option" where
  "json_integer s = (case s of [] \<Rightarrow> None | c # cs \<Rightarrow> if c = 48 then Some ([c], cs) else json_digits s)"

definition digits_value :: "jsstr \<Rightarrow> nat" where
  "digits_value ds = foldl (\<lambda>v d. v * 10 + (unat d - 48)) 0 ds"

text \<open>The digits after the decimal point, and the exponent.\<close>

definition json_fraction :: "jsstr \<Rightarrow> (jsstr \<times> jsstr) option" where
  "json_fraction s = (case s of c # cs \<Rightarrow> if c = 46 then json_digits cs else Some ([], s)
     | [] \<Rightarrow> Some ([], []))"

definition json_exponent :: "jsstr \<Rightarrow> (int \<times> jsstr) option" where
  "json_exponent s = (case s of
       c # cs \<Rightarrow>
         if c = 101 \<or> c = 69 then
           (case cs of
              d # ds \<Rightarrow> if d = 43 \<or> d = 45
                        then map_option (apfst (\<lambda>x. (if d = 45 then -1 else 1) * int (digits_value x))) (json_digits ds)
                        else map_option (apfst (\<lambda>x. int (digits_value x))) (json_digits cs)
            | [] \<Rightarrow> None)
         else Some (0, s)
     | [] \<Rightarrow> Some (0, []))"

definition pow10 :: "int \<Rightarrow> rat" where
  "pow10 e = (if e \<ge> 0 then 10 ^ nat e else 1 / 10 ^ nat (- e))"

definition number_value :: "bool \<Rightarrow> jsstr \<Rightarrow> jsstr \<Rightarrow> int \<Rightarrow> rat" where
  "number_value negative ds fr e =
     (if negative then -1 else 1) * of_nat (digits_value (ds @ fr)) * pow10 (e - int (length fr))"

definition json_number :: "jsstr \<Rightarrow> (json \<times> jsstr) option" where
  "json_number s =
     (let sign = takeWhile (\<lambda>c. c = 45) (take 1 s)
      in case json_integer (drop (length sign) s) of None \<Rightarrow> None
       | Some (ds, s1) \<Rightarrow> (case json_fraction s1 of None \<Rightarrow> None
       | Some (fr, s2) \<Rightarrow> (case json_exponent s2 of None \<Rightarrow> None
       | Some (e, s3) \<Rightarrow> Some (JNum (number_value (sign \<noteq> []) ds fr e), s3))))"

definition json_word :: "string \<Rightarrow> json \<Rightarrow> jsstr \<Rightarrow> (json \<times> jsstr) option" where
  "json_word w v s = (if take (length w) s = js_str w then Some (v, drop (length w) s) else None)"

text \<open>A value, the elements of an array after a value was read, and the members of an object from
  the quote of a name on.\<close>

function (sequential) json_value :: "jsstr \<Rightarrow> (json \<times> jsstr) option"
  and json_elements :: "jsstr \<Rightarrow> (json list \<times> jsstr) option"
  and json_members :: "(jsstr, json) jsmap \<Rightarrow> jsstr \<Rightarrow> (json \<times> jsstr) option" where
  "json_value [] = None"
| "json_value (c # cs) =
     (if c = 34 then map_option (apfst JStr) (json_chars cs)
      else if c = 91 then
        (case json_ws cs of
           d # ds \<Rightarrow> if d = 93 then Some (JArr [], ds)
                     else if length (d # ds) \<le> length cs then map_option (apfst JArr) (json_elements (d # ds)) else None
         | [] \<Rightarrow> None)
      else if c = 123 then
        (case json_ws cs of
           d # ds \<Rightarrow> if d = 125 then Some (JObj [], ds)
                     else if length (d # ds) \<le> length cs then json_members [] (d # ds) else None
         | [] \<Rightarrow> None)
      else if c = 116 then json_word ''true'' (JBool True) (c # cs)
      else if c = 102 then json_word ''false'' (JBool False) (c # cs)
      else if c = 110 then json_word ''null'' JNull (c # cs)
      else json_number (c # cs))"
| "json_elements s =
     (case json_value s of
        None \<Rightarrow> None
      | Some (v, r) \<Rightarrow>
          (case json_ws r of
             [] \<Rightarrow> None
           | c # cs \<Rightarrow>
               if c = 93 then Some ([v], cs)
               else if c = 44 \<and> length (json_ws cs) < length s
               then map_option (apfst (Cons v)) (json_elements (json_ws cs))
               else None))"
| "json_members m s =
     (case s of
        q # qs \<Rightarrow>
          if q = 34 then
            (case json_chars qs of
               None \<Rightarrow> None
             | Some (k, r) \<Rightarrow>
                 (case json_ws r of
                    [] \<Rightarrow> None
                  | c # cs \<Rightarrow>
                      if c = 58 \<and> length (json_ws cs) < length s then
                        (case json_value (json_ws cs) of
                           None \<Rightarrow> None
                         | Some (v, r2) \<Rightarrow>
                             (case json_ws r2 of
                                [] \<Rightarrow> None
                              | d # ds \<Rightarrow>
                                  if d = 125 then Some (JObj (js_set k v m), ds)
                                  else if d = 44 \<and> length (json_ws ds) < length s
                                  then json_members (js_set k v m) (json_ws ds)
                                  else None))
                      else None))
          else None
      | [] \<Rightarrow> None)"
  by pat_completeness auto
termination
  by (relation "measure (\<lambda>x. case x of Inl s \<Rightarrow> 2 * length s | Inr (Inl s) \<Rightarrow> 2 * length s + 1 | Inr (Inr (m, s)) \<Rightarrow> 2 * length s + 1)")
    auto

declare json_elements.simps [simp del] json_members.simps [simp del]

definition JSON_parse :: "jsstr \<Rightarrow> json option" where
  "JSON_parse s = (case json_value (json_ws s) of None \<Rightarrow> None | Some (v, r) \<Rightarrow> if json_ws r = [] then Some v else None)"


section \<open>Every parser consumes\<close>

text \<open>So the length guards in the recursion never refuse an input.\<close>

lemma length_json_ws: "length (json_ws s) \<le> length s"
  by (simp add: json_ws_def length_dropWhile_le)

lemma apfst_eq_Some: "map_option (apfst f) x = Some (v, r) \<longleftrightarrow> (\<exists>u. x = Some (u, r) \<and> v = f u)"
  by (cases x) auto

lemma json_chars_consumes: "json_chars s = Some (cs, r) \<Longrightarrow> length r < length s"
proof (induction s arbitrary: cs rule: json_chars.induct)
  case (2 c s)
  consider "c = 34" | "c = 92" | "c \<noteq> 34" "c \<noteq> 92" by blast
  then show ?case
  proof cases
    case 2
    with "2.prems" obtain u rest ds where u: "json_escape s = Some (u, rest)" and ds: "json_chars rest = Some (ds, r)"
      by (auto simp: apfst_eq_Some split: option.splits if_splits)
    from "2.IH"(1) [OF _ _ _ u refl ds] 2 json_escape_consumes [OF u] show ?thesis by simp
  next
    case 3
    with "2.prems" obtain ds where ds: "json_chars s = Some (ds, r)" and ok: "\<not> c < 32" by (auto simp: apfst_eq_Some split: if_splits)
    from "2.IH"(2) [OF _ _ _ ds] 3 ok show ?thesis by simp
  qed (use "2.prems" in simp)
qed simp

lemma json_digits_consumes: "json_digits s = Some (ds, r) \<Longrightarrow> length r < length s"
  by (cases s) (auto simp: json_digits_def Let_def less_Suc_eq_le length_dropWhile_le split: if_splits)

lemma json_integer_consumes: "json_integer s = Some (ds, r) \<Longrightarrow> length r < length s"
  by (auto simp: json_integer_def dest: json_digits_consumes split: list.splits if_splits)

lemma json_fraction_shrinks: "json_fraction s = Some (ds, r) \<Longrightarrow> length r \<le> length s"
  by (auto simp: json_fraction_def dest: json_digits_consumes split: list.splits if_splits)

lemma json_exponent_shrinks: "json_exponent s = Some (ds, r) \<Longrightarrow> length r \<le> length s"
  by (auto simp: json_exponent_def dest!: json_digits_consumes split: list.splits if_splits)

lemma json_number_consumes: "json_number s = Some (v, r) \<Longrightarrow> length r < length s"
  by (fastforce simp: json_number_def Let_def dest: json_integer_consumes json_fraction_shrinks json_exponent_shrinks split: option.splits)

lemma json_word_consumes: "json_word w v s = Some (u, r) \<Longrightarrow> w \<noteq> [] \<Longrightarrow> length r < length s"
  by (cases s) (auto simp: json_word_def js_str_def split: if_splits)

lemma ws_less: "json_ws r = c # cs \<Longrightarrow> length cs < length r"
  using length_json_ws [of r] by simp

lemma json_parsers_consume:
  "json_value s = Some (v, r) \<Longrightarrow> length r < length s"
  "json_elements t = Some (vs, r') \<Longrightarrow> length r' < length t"
  "json_members m u = Some (w, r'') \<Longrightarrow> length r'' < length u"
proof (induction s and t and m u arbitrary: v r and vs r' and w r'' rule: json_value_json_elements_json_members.induct)
  case (2 c cs)
  consider "c = 34" | "c = 91" | "c = 123" | "c \<noteq> 34" "c \<noteq> 91" "c \<noteq> 123" by blast
  then show ?case
  proof cases
    case 1
    with "2.prems" show ?thesis by (auto simp: apfst_eq_Some dest: json_chars_consumes)
  next
    case 2
    with "2.prems" obtain d ds where ws: "json_ws cs = d # ds"
      and "d = 93 \<and> r = ds \<or> d \<noteq> 93 \<and> length (d # ds) \<le> length cs \<and> (\<exists>vs. json_elements (d # ds) = Some (vs, r))"
      by (auto simp: apfst_eq_Some split: list.splits if_splits)
    with ws_less [OF ws] 2 "2.IH"(1) [OF _ _ ws] show ?thesis by fastforce
  next
    case 3
    with "2.prems" obtain d ds where ws: "json_ws cs = d # ds"
      and "d = 125 \<and> r = ds \<or> d \<noteq> 125 \<and> length (d # ds) \<le> length cs \<and> json_members [] (d # ds) = Some (v, r)"
      by (auto split: list.splits if_splits)
    with ws_less [OF ws] 3 "2.IH"(2) [OF _ _ _ ws] show ?thesis by fastforce
  next
    case 4
    with "2.prems" show ?thesis by (auto split: if_splits dest: json_number_consumes json_word_consumes)
  qed
next
  case (3 s)
  from "3.prems" obtain v r c cs where v: "json_value s = Some (v, r)" and ws: "json_ws r = c # cs"
    and rest: "r' = cs \<or> c = 44 \<and> c \<noteq> 93 \<and> length (json_ws cs) < length s \<and> (\<exists>us. json_elements (json_ws cs) = Some (us, r'))"
    by (subst (asm) json_elements.simps) (auto simp: apfst_eq_Some split: list.splits if_splits option.splits)
  from "3.IH"(1) [OF v] ws_less [OF ws] rest "3.IH"(2) [OF v refl ws] show ?case by fastforce
next
  case (4 m s)
  from "4.prems" obtain q qs k r c cs v r2 d ds where s: "s = q # qs" "q = 34" and k: "json_chars qs = Some (k, r)" and ws: "json_ws r = c # cs"
    and c: "c = 58 \<and> length (json_ws cs) < length s" and v: "json_value (json_ws cs) = Some (v, r2)" and ws2: "json_ws r2 = d # ds"
    and rest: "r'' = ds \<or> d \<noteq> 125 \<and> d = 44 \<and> length (json_ws ds) < length s \<and> json_members (js_set k v m) (json_ws ds) = Some (w, r'')"
    by (subst (asm) json_members.simps) (auto split: list.splits if_splits option.splits)
  have "length ds < length s"
    using "4.IH"(1) [OF s k refl ws c v] ws_less [OF ws2] c by simp
  with rest "4.IH"(2) [OF s k refl ws c v refl ws2] show ?case by fastforce
qed simp

lemma guards_hold:
  "json_value s = Some (v, r) \<Longrightarrow> json_ws r = c # cs \<Longrightarrow> length (json_ws cs) < length s"
  "json_chars qs = Some (k, r) \<Longrightarrow> json_ws r = c # cs \<Longrightarrow> length (json_ws cs) < length (q # qs)"
  using json_parsers_consume(1) [of s v r] json_chars_consumes [of qs k r] ws_less [of r c cs] length_json_ws [of cs] by simp_all

end
