(* ===== verification/Jws.thy ===== *)
theory Jws
  imports Utf8 Json Strings
begin

text \<open>
  JSON Web Signatures and JSON Web Tokens: \<^verbatim>\<open>di-framework-auth/src/tokens/algorithms.ts\<close>,
  \<^verbatim>\<open>jws.ts\<close> and \<^verbatim>\<open>jwt.ts\<close>.

  WebCrypto enters as a record of functions: the algorithm name a key is bound to, and
  verification, whose \<open>None\<close> is a rejected promise.  Errors are the branches of \<^verbatim>\<open>invalid\<close> and
  \<^verbatim>\<open>reject\<close>.  The lemmas show that an accepted token was verified under an algorithm of the
  caller's list with a key bound to that algorithm, over exactly the bytes before the last dot, and
  what an accepted claim set satisfies.
\<close>

section \<open>Algorithms\<close>

datatype signature_algorithm =
  HS256 | HS384 | HS512 | ES256 | ES384 | ES512 | RS256 | RS384 | RS512 | PS256 | PS384 | PS512 | EdDSA

datatype digest = SHA_256 | SHA_384 | SHA_512

datatype import_params =
    ImportHMAC digest
  | ImportECDSA string
  | ImportRSASSA digest
  | ImportRSAPSS digest
  | ImportEd25519

datatype sign_params = SignHMAC | SignECDSA digest | SignRSASSA | SignRSAPSS nat | SignEd25519

record algorithm_spec =
  sp_importParams :: import_params
  sp_signParams :: sign_params
  sp_kty :: string
  sp_curve :: "string option"
  sp_ecdsaSignatureBytes :: "nat option"
  sp_digest :: digest

definition hmac_spec :: "digest \<Rightarrow> algorithm_spec" where
  "hmac_spec d = \<lparr>sp_importParams = ImportHMAC d, sp_signParams = SignHMAC, sp_kty = ''oct'', sp_curve = None,
     sp_ecdsaSignatureBytes = None, sp_digest = d\<rparr>"

definition ecdsa_spec :: "string \<Rightarrow> nat \<Rightarrow> digest \<Rightarrow> algorithm_spec" where
  "ecdsa_spec c n d = \<lparr>sp_importParams = ImportECDSA c, sp_signParams = SignECDSA d, sp_kty = ''EC'', sp_curve = Some c,
     sp_ecdsaSignatureBytes = Some n, sp_digest = d\<rparr>"

definition rsassa_spec :: "digest \<Rightarrow> algorithm_spec" where
  "rsassa_spec d = \<lparr>sp_importParams = ImportRSASSA d, sp_signParams = SignRSASSA, sp_kty = ''RSA'', sp_curve = None,
     sp_ecdsaSignatureBytes = None, sp_digest = d\<rparr>"

definition pss_spec :: "digest \<Rightarrow> nat \<Rightarrow> algorithm_spec" where
  "pss_spec d salt = \<lparr>sp_importParams = ImportRSAPSS d, sp_signParams = SignRSAPSS salt, sp_kty = ''RSA'', sp_curve = None,
     sp_ecdsaSignatureBytes = None, sp_digest = d\<rparr>"

fun algorithmSpec :: "signature_algorithm \<Rightarrow> algorithm_spec" where
  "algorithmSpec HS256 = hmac_spec SHA_256"
| "algorithmSpec HS384 = hmac_spec SHA_384"
| "algorithmSpec HS512 = hmac_spec SHA_512"
| "algorithmSpec ES256 = ecdsa_spec ''P-256'' 64 SHA_256"
| "algorithmSpec ES384 = ecdsa_spec ''P-384'' 96 SHA_384"
| "algorithmSpec ES512 = ecdsa_spec ''P-521'' 132 SHA_512"
| "algorithmSpec RS256 = rsassa_spec SHA_256"
| "algorithmSpec RS384 = rsassa_spec SHA_384"
| "algorithmSpec RS512 = rsassa_spec SHA_512"
| "algorithmSpec PS256 = pss_spec SHA_256 32"
| "algorithmSpec PS384 = pss_spec SHA_384 48"
| "algorithmSpec PS512 = pss_spec SHA_512 64"
| "algorithmSpec EdDSA = \<lparr>sp_importParams = ImportEd25519, sp_signParams = SignEd25519, sp_kty = ''OKP'',
     sp_curve = Some ''Ed25519'', sp_ecdsaSignatureBytes = None, sp_digest = SHA_512\<rparr>"

definition ALGORITHMS :: "(string \<times> signature_algorithm) list" where
  "ALGORITHMS = [(''HS256'', HS256), (''HS384'', HS384), (''HS512'', HS512), (''ES256'', ES256), (''ES384'', ES384),
     (''ES512'', ES512), (''RS256'', RS256), (''RS384'', RS384), (''RS512'', RS512), (''PS256'', PS256),
     (''PS384'', PS384), (''PS512'', PS512), (''EdDSA'', EdDSA)]"

text \<open>\<^verbatim>\<open>isSignatureAlgorithm\<close> with the algorithm it recognises.\<close>

definition signature_algorithm_of :: "json option \<Rightarrow> signature_algorithm option" where
  "signature_algorithm_of v =
     (case v of Some (JStr s) \<Rightarrow> map_of (map (apfst js_str) ALGORITHMS) s | _ \<Rightarrow> None)"

definition params_name :: "sign_params \<Rightarrow> string" where
  "params_name p = (case p of SignHMAC \<Rightarrow> ''HMAC'' | SignECDSA _ \<Rightarrow> ''ECDSA'' | SignRSASSA \<Rightarrow> ''RSASSA-PKCS1-v1_5''
     | SignRSAPSS _ \<Rightarrow> ''RSA-PSS'' | SignEd25519 \<Rightarrow> ''Ed25519'')"

section \<open>ECDSA signature encodings\<close>

datatype der_error =
  NotASequence | UnsupportedDerLength | DerLengthMismatch | NotAnInteger | BadIntegerLength | IntegerTooLarge | TrailingDer

fun strip_zeros :: "byte list \<Rightarrow> byte list" where
  "strip_zeros (b0 # b1 # bs) = (if b0 = 0 then strip_zeros (b1 # bs) else b0 # b1 # bs)"
| "strip_zeros bs = bs"

definition byte_at :: "byte list \<Rightarrow> nat \<Rightarrow> byte option" where
  "byte_at bs i = (if i < length bs then Some (bs ! i) else None)"

text \<open>A cursor is \<open>None\<close> once a missing length byte has turned the offset into \<^verbatim>\<open>NaN\<close>.\<close>

definition readInteger :: "byte list \<Rightarrow> nat \<Rightarrow> nat option \<Rightarrow> (der_error, byte list \<times> nat option) result" where
  "readInteger der half cursor =
     (case cursor of
        None \<Rightarrow> Inl NotAnInteger
      | Some off \<Rightarrow>
          if byte_at der off \<noteq> Some 2 then Inl NotAnInteger
          else (case byte_at der (off + 1) of
             None \<Rightarrow> Inr ([], None)
           | Some b \<Rightarrow>
               let len = unat b; start = off + 2
               in if len = 0 \<or> start + len > length der then Inl BadIntegerLength
                  else let v = strip_zeros (js_slice start (start + len) der)
                       in if length v > half then Inl IntegerTooLarge else Inr (v, Some (start + len))))"

text \<open>The length octets of the sequence: the announced length and the offset after them.\<close>

definition sequence_length :: "byte list \<Rightarrow> (der_error, nat option \<times> nat) result" where
  "sequence_length der =
     (case byte_at der 1 of
        None \<Rightarrow> Inr (None, 2)
      | Some b \<Rightarrow>
          if b AND 0x80 \<noteq> 0
          then if b AND 0x7f \<noteq> 1 then Inl UnsupportedDerLength else Inr (map_option unat (byte_at der 2), 3)
          else Inr (Some (unat b), 2))"

definition derToP1363 :: "byte list \<Rightarrow> nat \<Rightarrow> (der_error, byte list) result" where
  "derToP1363 der signatureBytes =
     (let half = signatureBytes div 2
      in rbind (guard_or (byte_at der 0 = Some 0x30) NotASequence) (\<lambda>_.
         rbind (sequence_length der) (\<lambda>(len, off).
         rbind (guard_or (map_option (\<lambda>n. off + n) len = Some (length der)) DerLengthMismatch) (\<lambda>_.
         rbind (readInteger der half (Some off)) (\<lambda>(r, cur1).
         rbind (readInteger der half cur1) (\<lambda>(s, cur2).
         rbind (guard_or (cur2 = Some (length der)) TrailingDer) (\<lambda>_.
           Inr (bytes_set (bytes_set (replicate signatureBytes 0) (half - length r) r) (signatureBytes - length s) s))))))))"

definition encodeInteger :: "byte list \<Rightarrow> byte list" where
  "encodeInteger v =
     (let trimmed = strip_zeros v;
          signed = (if trimmed \<noteq> [] \<and> hd trimmed AND 0x80 \<noteq> 0 then 0 # trimmed else trimmed)
      in 2 # word_of_nat (length signed) # signed)"

definition p1363ToDer :: "byte list \<Rightarrow> byte list" where
  "p1363ToDer raw =
     (let half = length raw div 2; body = encodeInteger (take half raw) @ encodeInteger (drop half raw)
      in 0x30 # word_of_nat (length body) # body)"


section \<open>Verifying a JWS\<close>

datatype jws_error =
    EmptyAllowlist
  | SegmentCount nat
  | NoHeaderSegment
  | HeaderNotJson
  | HeaderNotObject
  | EmbeddedKey string
  | CriticalParameters
  | UnencodedPayload
  | UnsupportedAlg
  | AlgNotPermitted
  | KeyUnavailable
  | KeyAlgMismatch
  | SignatureNotBase64
  | DerSignature der_error
  | VerifyRejected
  | SignatureInvalid
  | PayloadNotBase64

type_synonym json_object = "(jsstr, json) jsmap"

record jws_header =
  jh_alg :: signature_algorithm
  jh_members :: json_object

record verified_jws =
  vj_header :: jws_header
  vj_payload :: "byte list"
  vj_signingInput :: jsstr

text \<open>The WebCrypto operations on keys of type \<open>'k\<close>: \<^verbatim>\<open>key.algorithm.name\<close>, \<^verbatim>\<open>subtle.sign\<close> and
  \<^verbatim>\<open>subtle.verify\<close>.\<close>

record 'k key_ops =
  ko_name :: "'k \<Rightarrow> string option"
  ko_sign :: "sign_params \<Rightarrow> 'k \<Rightarrow> byte list \<Rightarrow> byte list"
  ko_verify :: "sign_params \<Rightarrow> 'k \<Rightarrow> byte list \<Rightarrow> byte list \<Rightarrow> bool option"

datatype 'k key_source = FixedKey 'k | KeyResolver "jws_header \<Rightarrow> 'k option"

definition parse_json_bytes :: "byte list \<Rightarrow> json option" where
  "parse_json_bytes bs = (case decode_fatal bs of Inl _ \<Rightarrow> None | Inr s \<Rightarrow> JSON_parse s)"

definition jwk_members :: "json_object \<Rightarrow> (jws_error, unit) result" where
  "jwk_members h =
     (if js_has h (js_str ''jwk'') then Inl (EmbeddedKey ''jwk'')
      else if js_has h (js_str ''jku'') then Inl (EmbeddedKey ''jku'')
      else if js_has h (js_str ''x5u'') then Inl (EmbeddedKey ''x5u'')
      else Inr ())"

definition checkHeader :: "json_object \<Rightarrow> (jws_error, jws_header) result" where
  "checkHeader h =
     rbind (jwk_members h) (\<lambda>_.
     if js_get h (js_str ''crit'') \<notin> {None, Some (JArr [])} then Inl CriticalParameters
     else if js_get h (js_str ''b64'') = Some (JBool False) then Inl UnencodedPayload
     else case signature_algorithm_of (js_get h (js_str ''alg'')) of
            None \<Rightarrow> Inl UnsupportedAlg
          | Some a \<Rightarrow> Inr \<lparr>jh_alg = a, jh_members = h\<rparr>)"

definition decodeJwsHeader :: "jsstr \<Rightarrow> (jws_error, jws_header) result" where
  "decodeJwsHeader token =
     (let first = takeWhile (\<lambda>c. c \<noteq> 46) token
      in if 46 \<notin> set token \<or> first = [] then Inl NoHeaderSegment
         else case base64UrlDecode first of
                Inl _ \<Rightarrow> Inl HeaderNotJson
              | Inr bs \<Rightarrow> (case parse_json_bytes bs of
                    None \<Rightarrow> Inl HeaderNotJson
                  | Some (JObj h) \<Rightarrow> checkHeader h
                  | Some _ \<Rightarrow> Inl HeaderNotObject))"

definition signature_bytes :: "signature_algorithm \<Rightarrow> jsstr \<Rightarrow> (jws_error, byte list) result" where
  "signature_bytes a encoded =
     (case base64UrlDecode encoded of
        Inl _ \<Rightarrow> Inl SignatureNotBase64
      | Inr signature \<Rightarrow>
          (case sp_ecdsaSignatureBytes (algorithmSpec a) of
             None \<Rightarrow> Inr signature
           | Some n \<Rightarrow> if length signature \<noteq> n
                       then (case derToP1363 signature n of Inl e \<Rightarrow> Inl (DerSignature e) | Inr raw \<Rightarrow> Inr raw)
                       else Inr signature))"

definition resolve_key :: "'k key_source \<Rightarrow> jws_header \<Rightarrow> (jws_error, 'k) result" where
  "resolve_key src header = (case src of
       FixedKey k \<Rightarrow> Inr k
     | KeyResolver f \<Rightarrow> (case f header of None \<Rightarrow> Inl KeyUnavailable | Some k \<Rightarrow> Inr k))"

definition check_signature :: "'k key_ops \<Rightarrow> signature_algorithm \<Rightarrow> 'k \<Rightarrow> byte list \<Rightarrow> byte list \<Rightarrow> (jws_error, unit) result" where
  "check_signature K a key signature input =
     (case ko_verify K (sp_signParams (algorithmSpec a)) key signature input of
        None \<Rightarrow> Inl VerifyRejected
      | Some ok \<Rightarrow> guard_or ok SignatureInvalid)"

definition verifyJws ::
  "'k key_ops \<Rightarrow> signature_algorithm list \<Rightarrow> 'k key_source \<Rightarrow> jsstr \<Rightarrow> (jws_error, verified_jws) result" where
  "verifyJws K algorithms src token =
     (if algorithms = [] then Inl EmptyAllowlist
      else case split_on 46 token of
        [encodedHeader, encodedPayload, encodedSignature] \<Rightarrow>
          rbind (decodeJwsHeader token) (\<lambda>header.
          if jh_alg header \<notin> set algorithms then Inl AlgNotPermitted
          else rbind (resolve_key src header) (\<lambda>key.
          if ko_name K key \<noteq> Some (params_name (sp_signParams (algorithmSpec (jh_alg header)))) then Inl KeyAlgMismatch
          else rbind (signature_bytes (jh_alg header) encodedSignature) (\<lambda>signature.
          let signingInput = encodedHeader @ 46 # encodedPayload
          in rbind (check_signature K (jh_alg header) key signature (TextEncoder_encode signingInput)) (\<lambda>_.
             case base64UrlDecode encodedPayload of
               Inl _ \<Rightarrow> Inl PayloadNotBase64
             | Inr payload \<Rightarrow> Inr \<lparr>vj_header = header, vj_payload = payload, vj_signingInput = signingInput\<rparr>))))
      | segments \<Rightarrow> Inl (SegmentCount (length segments)))"

section \<open>Signing\<close>

record 'k sign_jws_options =
  sg_algorithm :: signature_algorithm
  sg_key :: 'k
  sg_kid :: "jsstr option"
  sg_typ :: "jsstr option"
  sg_header :: json_object

definition algorithm_name :: "signature_algorithm \<Rightarrow> string" where
  "algorithm_name a = (case List.find (\<lambda>(_, b). b = a) ALGORITHMS of None \<Rightarrow> [] | Some (n, _) \<Rightarrow> n)"

definition set_present :: "string \<Rightarrow> jsstr option \<Rightarrow> json_object \<Rightarrow> json_object" where
  "set_present name v members = (case v of None \<Rightarrow> members | Some s \<Rightarrow> js_set (js_str name) (JStr s) members)"

definition signing_header :: "'k sign_jws_options \<Rightarrow> json_object" where
  "signing_header opts =
     set_present ''typ'' (sg_typ opts) (set_present ''kid'' (sg_kid opts)
       (js_set (js_str ''alg'') (JStr (js_str (algorithm_name (sg_algorithm opts)))) (sg_header opts)))"

text \<open>\<open>stringify\<close> is \<^verbatim>\<open>JSON.stringify\<close> of an object.\<close>

definition signJws :: "'k key_ops \<Rightarrow> (json_object \<Rightarrow> jsstr) \<Rightarrow> byte list \<Rightarrow> 'k sign_jws_options \<Rightarrow> jsstr" where
  "signJws K stringify payload opts =
     (let encodedHeader = base64UrlEncodeString (stringify (signing_header opts));
          encodedPayload = base64UrlEncode payload;
          signingInput = encodedHeader @ 46 # encodedPayload;
          signature = ko_sign K (sp_signParams (algorithmSpec (sg_algorithm opts))) (sg_key opts) (TextEncoder_encode signingInput)
      in signingInput @ 46 # base64UrlEncode signature)"

section \<open>Verifying a JWT\<close>

datatype jwt_error =
    BadTolerance int
  | Jws jws_error
  | PayloadNotJson
  | PayloadNotObject
  | IssuerMismatch
  | AudienceMismatch
  | SubjectMismatch
  | NotANumber string
  | Expired
  | NoExpiry
  | NotYetValid
  | NoIssueTime
  | TooOld

datatype one_or_many = One jsstr | Many "jsstr list"

definition permitted_of :: "one_or_many \<Rightarrow> jsstr list" where
  "permitted_of v = (case v of One s \<Rightarrow> [s] | Many ss \<Rightarrow> ss)"

record 'k verify_jwt_options =
  vo_algorithms :: "signature_algorithm list"
  vo_key :: "'k key_source"
  vo_issuer :: "one_or_many option"
  vo_audience :: "one_or_many option"
  vo_subject :: "jsstr option"
  vo_requireExpiry :: "bool option"
  vo_clockToleranceSeconds :: "int option"
  vo_maxTokenAgeSeconds :: "int option"

definition claim :: "json_object \<Rightarrow> string \<Rightarrow> json option" where
  "claim c name = js_get c (js_str name)"

definition check_issuer :: "one_or_many option \<Rightarrow> json_object \<Rightarrow> (jwt_error, unit) result" where
  "check_issuer o_issuer c = (case o_issuer of None \<Rightarrow> Inr ()
     | Some p \<Rightarrow> (case claim c ''iss'' of
          Some (JStr s) \<Rightarrow> guard_or (s \<in> set (permitted_of p)) IssuerMismatch
        | _ \<Rightarrow> Inl IssuerMismatch))"

definition audiences :: "json_object \<Rightarrow> json list" where
  "audiences c = (case claim c ''aud'' of None \<Rightarrow> [] | Some (JArr xs) \<Rightarrow> xs | Some x \<Rightarrow> [x])"

definition check_audience :: "one_or_many option \<Rightarrow> json_object \<Rightarrow> (jwt_error, unit) result" where
  "check_audience o_audience c = (case o_audience of None \<Rightarrow> Inr ()
     | Some p \<Rightarrow> guard_or (list_ex (\<lambda>v. v \<in> JStr ` set (permitted_of p)) (audiences c)) AudienceMismatch)"

definition check_subject :: "jsstr option \<Rightarrow> json_object \<Rightarrow> (jwt_error, unit) result" where
  "check_subject o_subject c = (case o_subject of None \<Rightarrow> Inr ()
     | Some s \<Rightarrow> guard_or (claim c ''sub'' = Some (JStr s)) SubjectMismatch)"

definition check_expiry :: "bool option \<Rightarrow> int \<Rightarrow> int \<Rightarrow> json_object \<Rightarrow> (jwt_error, unit) result" where
  "check_expiry required tolerance now c = (case claim c ''exp'' of
       None \<Rightarrow> guard_or (required = Some False) NoExpiry
     | Some (JNum e) \<Rightarrow> guard_or (\<not> e + of_int tolerance \<le> of_int now) Expired
     | Some _ \<Rightarrow> Inl (NotANumber ''exp''))"

definition check_not_before :: "int \<Rightarrow> int \<Rightarrow> json_object \<Rightarrow> (jwt_error, unit) result" where
  "check_not_before tolerance now c = (case claim c ''nbf'' of
       None \<Rightarrow> Inr ()
     | Some (JNum n) \<Rightarrow> guard_or (\<not> n - of_int tolerance > of_int now) NotYetValid
     | Some _ \<Rightarrow> Inl (NotANumber ''nbf''))"

definition check_issued_at :: "int option \<Rightarrow> int \<Rightarrow> int \<Rightarrow> json_object \<Rightarrow> (jwt_error, unit) result" where
  "check_issued_at maxAge tolerance now c =
     (case claim c ''iat'' of
        Some (JNum i) \<Rightarrow> (case maxAge of None \<Rightarrow> Inr ()
          | Some a \<Rightarrow> guard_or (\<not> i + of_int a + of_int tolerance \<le> of_int now) TooOld)
      | Some _ \<Rightarrow> Inl (NotANumber ''iat'')
      | None \<Rightarrow> guard_or (maxAge = None) NoIssueTime)"

definition verifyJwt ::
  "'k key_ops \<Rightarrow> 'k verify_jwt_options \<Rightarrow> int \<Rightarrow> jsstr \<Rightarrow> (jwt_error, jws_header \<times> json_object) result" where
  "verifyJwt K opts now token =
     (let tolerance = (case vo_clockToleranceSeconds opts of None \<Rightarrow> 30 | Some t \<Rightarrow> t)
      in if tolerance < 0 \<or> tolerance > 300 then Inl (BadTolerance tolerance)
         else case verifyJws K (vo_algorithms opts) (vo_key opts) token of
           Inl e \<Rightarrow> Inl (Jws e)
         | Inr jws \<Rightarrow> (case parse_json_bytes (vj_payload jws) of
             None \<Rightarrow> Inl PayloadNotJson
           | Some (JObj c) \<Rightarrow>
               rbind (check_issuer (vo_issuer opts) c) (\<lambda>_.
               rbind (check_audience (vo_audience opts) c) (\<lambda>_.
               rbind (check_subject (vo_subject opts) c) (\<lambda>_.
               rbind (check_expiry (vo_requireExpiry opts) tolerance now c) (\<lambda>_.
               rbind (check_not_before tolerance now c) (\<lambda>_.
               rbind (check_issued_at (vo_maxTokenAgeSeconds opts) tolerance now c) (\<lambda>_.
                 Inr (vj_header jws, c)))))))
           | Some _ \<Rightarrow> Inl PayloadNotObject))"

definition decodeJwtUnsafe :: "jsstr \<Rightarrow> json option" where
  "decodeJwtUnsafe token =
     (case split_on 46 token of
        [_, encodedPayload, _] \<Rightarrow>
          (case base64UrlDecodeString encodedPayload of Inl _ \<Rightarrow> None | Inr s \<Rightarrow> JSON_parse s)
      | _ \<Rightarrow> None)"


section \<open>The DER conversion\<close>

lemma length_strip_zeros: "length (strip_zeros v) \<le> length v"
  by (induction v rule: strip_zeros.induct) auto

lemma strip_zeros_pad: "replicate (length v - length (strip_zeros v)) 0 @ strip_zeros v = v"
proof (induction v rule: strip_zeros.induct)
  case (1 b0 b1 bs)
  then show ?case
    using length_strip_zeros [of "b1 # bs"] by (simp add: Suc_diff_le)
qed auto

lemma strip_zeros_idem [simp]: "strip_zeros (strip_zeros v) = strip_zeros v"
  by (induction v rule: strip_zeros.induct) auto

lemma strip_zeros_nonempty: "v \<noteq> [] \<Longrightarrow> strip_zeros v \<noteq> []"
  by (induction v rule: strip_zeros.induct) auto

lemma strip_zeros_head: "b \<noteq> 0 \<Longrightarrow> strip_zeros (b # bs) = b # bs"
  by (cases bs) simp_all

lemma readInteger_length:
  assumes "readInteger der half cur = Inr (v, cur')"
  shows "length v \<le> half"
  using assms by (auto simp: readInteger_def Let_def split: option.splits if_splits)

lemma padded_halves:
  assumes "length r \<le> half" "length s \<le> half" "n = half + half"
  shows "bytes_set (bytes_set (replicate n 0) (half - length r) r) (n - length s) s =
    (replicate (half - length r) 0 @ r) @ (replicate (half - length s) 0 @ s)"
  using assms by (simp add: bytes_set_def take_replicate drop_replicate)

lemma derToP1363_halves:
  assumes "derToP1363 der n = Inr raw" "even n"
  obtains r s where "length r \<le> n div 2" "length s \<le> n div 2"
    "raw = (replicate (n div 2 - length r) 0 @ r) @ (replicate (n div 2 - length s) 0 @ s)"
proof -
  from assms(1) obtain r cur1 s cur2 off where "readInteger der (n div 2) (Some off) = Inr (r, cur1)"
    "readInteger der (n div 2) cur1 = Inr (s, cur2)"
    and raw: "raw = bytes_set (bytes_set (replicate n 0) (n div 2 - length r) r) (n - length s) s"
    by (auto simp: derToP1363_def Let_def rbind_eq_Inr)
  then have len: "length r \<le> n div 2" "length s \<le> n div 2" by (auto dest: readInteger_length)
  with that [OF this] padded_halves [OF len, of n] assms(2) raw show ?thesis by (simp add: mult_2 [symmetric])
qed

lemma derToP1363_length: "derToP1363 der n = Inr raw \<Longrightarrow> even n \<Longrightarrow> length raw = n"
  by (erule derToP1363_halves) (auto simp: mult_2 [symmetric])

lemma encodeInteger_form:
  obtains sgn where "encodeInteger v = 2 # word_of_nat (length (sgn @ strip_zeros v)) # sgn @ strip_zeros v"
    "length (sgn @ strip_zeros v) \<le> length v + 1" "strip_zeros (sgn @ strip_zeros v) = strip_zeros v"
proof -
  define sgn :: "byte list" where "sgn = (if strip_zeros v \<noteq> [] \<and> hd (strip_zeros v) AND 0x80 \<noteq> 0 then [0] else [])"
  have "strip_zeros (sgn @ strip_zeros v) = strip_zeros v"
    by (cases "strip_zeros v") (use strip_zeros_idem [of v] in \<open>auto simp: sgn_def simp del: strip_zeros_idem\<close>)
  moreover have "length (sgn @ strip_zeros v) \<le> length v + 1"
    using length_strip_zeros [of v] by (simp add: sgn_def)
  ultimately show ?thesis
    using that [of sgn] by (simp add: encodeInteger_def sgn_def Let_def)
qed

lemma byte_at_append: "byte_at (xs @ b # ys) (length xs) = Some b"
  by (simp add: byte_at_def)

lemma readInteger_encode:
  assumes "pre = length xs" "der = xs @ encodeInteger v @ rest" "v \<noteq> []" "length v \<le> half" "half < 255"
  shows "readInteger der half (Some pre) = Inr (strip_zeros v, Some (length xs + length (encodeInteger v)))"
proof -
  obtain sgn where enc: "encodeInteger v = 2 # word_of_nat (length (sgn @ strip_zeros v)) # sgn @ strip_zeros v"
    and len: "length (sgn @ strip_zeros v) \<le> length v + 1" and strip: "strip_zeros (sgn @ strip_zeros v) = strip_zeros v"
    by (rule encodeInteger_form)
  define w where "w = sgn @ strip_zeros v"
  have der: "der = xs @ 2 # word_of_nat (length w) # w @ rest" using assms(2) enc by (simp add: w_def)
  have b0: "byte_at der pre = Some 2" using assms(1) by (simp add: der byte_at_append)
  have b1: "byte_at der (pre + 1) = Some (word_of_nat (length w))"
    using byte_at_append [of "xs @ [2]" "word_of_nat (length w)" "w @ rest"] by (simp add: der assms(1))
  have small: "length w < 256" using len assms(4,5) by (simp add: w_def)
  then have un: "unat (word_of_nat (length w) :: byte) = length w"
    by (simp add: unat_of_nat take_bit_eq_mod)
  have "w \<noteq> []" using strip_zeros_nonempty [OF assms(3)] by (simp add: w_def)
  moreover have "js_slice (pre + 2) (pre + 2 + length w) der = w" by (simp add: der assms(1) js_slice_def)
  moreover have "length (strip_zeros w) \<le> half" using strip length_strip_zeros [of v] assms(4) by (simp add: w_def)
  moreover have "\<not> length der < pre + 2 + length w" by (simp add: der assms(1))
  moreover have "length (encodeInteger v) = length w + 2" by (simp add: enc w_def)
  ultimately show ?thesis
    using b0 b1 strip [folded w_def] by (simp add: readInteger_def un assms(1))
qed

lemma and_mask_bit7:
  assumes "\<not> bit w 7"
  shows "w AND 0x80 = (0 :: byte)"
proof -
  have "\<not> bit (w AND 2 ^ 7) n" for n
    using assms by (auto simp: bit_and_iff bit_exp_iff simp del: power_numeral)
  then have "w AND 2 ^ 7 = 0" by (intro bit_eqI) (simp add: bit_simps del: power_numeral)
  then show ?thesis by simp
qed

theorem der_roundtrip:
  assumes "even (length raw)" "0 < length raw" "length raw \<le> 120"
  shows "derToP1363 (p1363ToDer raw) (length raw) = Inr raw"
proof -
  define half where "half = length raw div 2"
  define u v where "u = take half raw" and "v = drop half raw"
  have raw: "raw = u @ v" "length u = half" "length v = half" "half > 0" "half \<le> 60" "length raw = half + half"
  proof -
    have double: "half + half = length raw" using assms(1) by (simp add: half_def mult_2 [symmetric])
    with assms(2) show "half > 0" by linarith
    from double assms(3) show "half \<le> 60" by linarith
    from double show "raw = u @ v" "length u = half" "length v = half" "length raw = half + half"
      by (simp_all add: u_def v_def half_def [symmetric])
  qed
  define body where "body = encodeInteger u @ encodeInteger v"
  have ne: "u \<noteq> []" "v \<noteq> []" using raw by auto
  have le: "length (encodeInteger x) \<le> length x + 3" for x
    by (rule encodeInteger_form [of x]) simp
  have small: "length body < 128" using raw le [of u] le [of v] by (simp add: body_def)
  have der: "p1363ToDer raw = 0x30 # word_of_nat (length body) # body"
    by (simp add: p1363ToDer_def Let_def body_def u_def v_def half_def)
  have un: "unat (word_of_nat (length body) :: byte) = length body"
    using small by (simp add: unat_of_nat take_bit_eq_mod)
  have high: "(word_of_nat (length body) :: byte) AND 0x80 = 0"
  proof -
    have "\<not> bit (unat (word_of_nat (length body) :: byte)) 7"
      using small by (simp only: un) (simp add: bit_iff_odd)
    then have "\<not> bit (word_of_nat (length body) :: byte) 7" by (simp add: bit_unsigned_iff)
    then show ?thesis using and_mask_bit7 by blast
  qed
  have seq: "sequence_length (p1363ToDer raw) = Inr (Some (length body), 2)"
    using high un by (simp add: sequence_length_def der byte_at_def)
  have r: "readInteger (p1363ToDer raw) half (Some 2) = Inr (strip_zeros u, Some (2 + length (encodeInteger u)))"
    using readInteger_encode [of 2 "[0x30, word_of_nat (length body)]" "p1363ToDer raw" u "encodeInteger v" half] ne raw(2,5)
    by (simp add: der [unfolded body_def] body_def)
  have s: "readInteger (p1363ToDer raw) half (Some (2 + length (encodeInteger u))) = Inr (strip_zeros v, Some (length (p1363ToDer raw)))"
    using readInteger_encode [of "2 + length (encodeInteger u)" "0x30 # word_of_nat (length body) # encodeInteger u" "p1363ToDer raw" v "[]" half] ne raw(3,5)
    by (simp add: der [unfolded body_def] body_def)
  have "bytes_set (bytes_set (replicate (length raw) 0) (half - length (strip_zeros u)) (strip_zeros u)) (length raw - length (strip_zeros v)) (strip_zeros v) = raw"
    using padded_halves [of "strip_zeros u" half "strip_zeros v" "length raw"] raw length_strip_zeros [of u] length_strip_zeros [of v]
      strip_zeros_pad [of u] strip_zeros_pad [of v] by simp
  moreover have "byte_at (p1363ToDer raw) 0 = Some 0x30" "length (p1363ToDer raw) = 2 + length body"
    by (simp_all add: der byte_at_def)
  ultimately show ?thesis
    using s by (simp add: derToP1363_def guard_or_def half_def [symmetric] r seq)
qed


lemma der_roundtrip_witness:
  "\<exists>raw. raw = [0, 0x80, 0, 1] \<and> p1363ToDer raw = [0x30, 7, 2, 2, 0, 0x80, 2, 1, 1] \<and> derToP1363 (p1363ToDer raw) (length raw) = Inr raw"
proof (intro exI conjI)
  show "p1363ToDer [0, 0x80, 0, 1] = [0x30, 7, 2, 2, 0, 0x80, 2, 1, 1]"
    by (simp add: p1363ToDer_def encodeInteger_def Let_def)
  show "derToP1363 (p1363ToDer [0, 0x80, 0, 1]) (length [0 :: byte, 0x80, 0, 1]) = Inr [0, 0x80, 0, 1]"
    by (rule der_roundtrip) simp_all
qed (rule refl)

lemmas der_rules = derToP1363_def byte_at_def sequence_length_def readInteger_def Let_def rbind_def guard_or_def js_slice_def bytes_set_def

theorem der_output_width:
  "derToP1363 der (2 * half) = Inr raw \<Longrightarrow> length raw = 2 * half"
  using derToP1363_length by simp

lemma der_output_width_witness:
  "derToP1363 [0x30, 6, 2, 1, 1, 2, 1, 2] (2 * 2) = Inr [0, 1, 0, 2] \<and> length [0 :: byte, 1, 0, 2] = 2 * 2"
proof -
  have run: "derToP1363 [0x30, 6, 2, 1, 1, 2, 1, 2] (2 * 2) = Inr [0, 1, 0, 2]"
    by (simp add: der_rules)
  from run der_output_width [OF run] show ?thesis by simp
qed

text \<open>A P-521 signature whose integers fill their width does not survive: the sequence is longer than 127
  bytes and its length octet is written as if it were short.\<close>

theorem es512_der_rejected:
  "derToP1363 (p1363ToDer (replicate 132 0xFF)) 132 = Inl UnsupportedDerLength"
proof -
  have "replicate 66 0xFF = (0xFF :: byte) # replicate 65 0xFF" using replicate_Suc [of 65 "0xFF :: byte"] by simp
  then have strip: "strip_zeros (replicate 66 0xFF) = replicate 66 0xFF" using strip_zeros_head [of "0xFF" "replicate 65 0xFF"] by simp
  have enc: "encodeInteger (replicate 66 0xFF) = 2 # 67 # 0 # replicate 66 0xFF"
    by (simp add: encodeInteger_def strip Let_def)
  have "take 66 (replicate 132 (0xFF :: byte)) = replicate 66 0xFF" "drop 66 (replicate 132 (0xFF :: byte)) = replicate 66 0xFF"
    by (simp_all add: take_replicate drop_replicate)
  then have "p1363ToDer (replicate 132 0xFF) = 0x30 # 138 # encodeInteger (replicate 66 0xFF) @ encodeInteger (replicate 66 0xFF)"
    by (simp add: p1363ToDer_def enc Let_def)
  then show ?thesis
    by (simp add: derToP1363_def byte_at_def sequence_length_def rbind_def guard_or_def)
qed

text \<open>Padding an integer with zero bytes, or writing the length in the long form, changes the DER bytes but
  not the signature read from them.\<close>

theorem der_malleable:
  "derToP1363 [0x30, 6, 2, 1, 1, 2, 1, 2] 4 = Inr [0, 1, 0, 2] \<and>
   derToP1363 [0x30, 8, 2, 2, 0, 1, 2, 2, 0, 2] 4 = Inr [0, 1, 0, 2] \<and>
   derToP1363 [0x30, 0x81, 6, 2, 1, 1, 2, 1, 2] 4 = Inr [0, 1, 0, 2]"
  by (simp add: der_rules)


section \<open>What an accepted JWS satisfies\<close>

lemma guard_ok [simp]: "guard_or b e = Inr u \<longleftrightarrow> b"
  by (simp add: guard_or_def)

lemma checkHeader_alg:
  assumes "checkHeader h = Inr hdr"
  shows "jh_members hdr = h \<and> signature_algorithm_of (js_get h (js_str ''alg'')) = Some (jh_alg hdr) \<and>
    \<not> js_has h (js_str ''jwk'') \<and> \<not> js_has h (js_str ''jku'') \<and> \<not> js_has h (js_str ''x5u'') \<and>
    js_get h (js_str ''crit'') \<in> {None, Some (JArr [])} \<and> js_get h (js_str ''b64'') \<noteq> Some (JBool False)"
  using assms by (auto simp: checkHeader_def jwk_members_def rbind_eq_Inr split: if_splits option.splits)

lemma decodeJwsHeader_checked:
  assumes "decodeJwsHeader token = Inr hdr"
  shows "checkHeader (jh_members hdr) = Inr hdr"
proof -
  obtain h where "checkHeader h = Inr hdr"
    using assms by (auto simp: decodeJwsHeader_def Let_def split: if_splits sum.splits option.splits json.splits)
  with checkHeader_alg [OF this] show ?thesis by simp
qed

lemma split3: "split_on 46 token = [h, p, s] \<Longrightarrow> token = h @ 46 # p @ 46 # s"
  using join_split [of 46 token] by simp

lemma verifyJws_accepts:
  assumes "verifyJws K algs src token = Inr jws"
  shows "\<exists>h p s key signature. token = h @ 46 # p @ 46 # s \<and> split_on 46 token = [h, p, s] \<and> vj_signingInput jws = h @ 46 # p \<and>
    decodeJwsHeader token = Inr (vj_header jws) \<and> jh_alg (vj_header jws) \<in> set algs \<and>
    resolve_key src (vj_header jws) = Inr key \<and>
    ko_name K key = Some (params_name (sp_signParams (algorithmSpec (jh_alg (vj_header jws))))) \<and>
    signature_bytes (jh_alg (vj_header jws)) s = Inr signature \<and>
    ko_verify K (sp_signParams (algorithmSpec (jh_alg (vj_header jws)))) key signature (TextEncoder_encode (h @ 46 # p)) = Some True \<and>
    base64UrlDecode p = Inr (vj_payload jws)"
proof -
  have "algs \<noteq> []" using assms by (auto simp: verifyJws_def)
  obtain h p s where seg: "split_on 46 token = [h, p, s]"
    using assms \<open>algs \<noteq> []\<close> by (auto simp: verifyJws_def split: list.splits)
  have sig: "check_signature K a key sg inp = Inr u \<longleftrightarrow> ko_verify K (sp_signParams (algorithmSpec a)) key sg inp = Some True" for a key sg inp u
    by (auto simp: check_signature_def split: option.splits)
  from assms obtain key signature where
    "decodeJwsHeader token = Inr (vj_header jws)" "jh_alg (vj_header jws) \<in> set algs"
    "resolve_key src (vj_header jws) = Inr key"
    "ko_name K key = Some (params_name (sp_signParams (algorithmSpec (jh_alg (vj_header jws)))))"
    "signature_bytes (jh_alg (vj_header jws)) s = Inr signature"
    "ko_verify K (sp_signParams (algorithmSpec (jh_alg (vj_header jws)))) key signature (TextEncoder_encode (h @ 46 # p)) = Some True"
    "base64UrlDecode p = Inr (vj_payload jws)" "vj_signingInput jws = h @ 46 # p"
    by (auto simp: verifyJws_def seg rbind_eq_Inr Let_def sig split: if_splits sum.splits)
  with seg split3 [OF seg] show ?thesis by blast
qed


text \<open>C8: A token is accepted only when its algorithm is on the caller's list, the resolved key is bound to
  that algorithm, and the signature verifies over exactly the two segments before the last dot; the
  header then carries no key of its own and no critical parameter.\<close>

theorem jws_accepts_only_verified:
  assumes "verifyJws K algs src token = Inr jws"
  shows "\<exists>key input s signature a. a = jh_alg (vj_header jws) \<and> a \<in> set algs \<and>
    resolve_key src (vj_header jws) = Inr key \<and> ko_name K key = Some (params_name (sp_signParams (algorithmSpec a))) \<and>
    token = input @ 46 # s \<and> vj_signingInput jws = input \<and> signature_bytes a s = Inr signature \<and>
    ko_verify K (sp_signParams (algorithmSpec a)) key signature (TextEncoder_encode input) = Some True \<and>
    \<not> js_has (jh_members (vj_header jws)) (js_str ''jwk'') \<and>
    js_get (jh_members (vj_header jws)) (js_str ''crit'') \<in> {None, Some (JArr [])}"
proof -
  from verifyJws_accepts [OF assms] obtain h p s key signature where
    facts: "token = h @ 46 # p @ 46 # s" "vj_signingInput jws = h @ 46 # p" "decodeJwsHeader token = Inr (vj_header jws)"
    "jh_alg (vj_header jws) \<in> set algs" "resolve_key src (vj_header jws) = Inr key"
    "ko_name K key = Some (params_name (sp_signParams (algorithmSpec (jh_alg (vj_header jws)))))"
    "signature_bytes (jh_alg (vj_header jws)) s = Inr signature"
    "ko_verify K (sp_signParams (algorithmSpec (jh_alg (vj_header jws)))) key signature (TextEncoder_encode (h @ 46 # p)) = Some True"
    by blast
  from checkHeader_alg [OF decodeJwsHeader_checked [OF facts(3)]] facts show ?thesis
    by (intro exI [of _ key] exI [of _ "h @ 46 # p"] exI [of _ s] exI [of _ signature] exI [of _ "jh_alg (vj_header jws)"]) simp
qed

lemma base64_no_dot: "46 \<notin> set (base64UrlEncode bs)"
proof -
  have "46 \<notin> set (map unat ALPHABET)" by (simp add: ALPHABET_nat)
  then have "46 \<notin> set ALPHABET" by (auto simp: image_iff)
  with set_base64 [of bs] show ?thesis by blast
qed

lemma split_compact:
  "split_on 46 (base64UrlEncode a @ 46 # base64UrlEncode b @ 46 # base64UrlEncode c) = [base64UrlEncode a, base64UrlEncode b, base64UrlEncode c]"
  by (simp add: split_on_first split_on_none base64_no_dot)

lemma takeWhile_compact: "takeWhile (\<lambda>c. c \<noteq> 46) (base64UrlEncode a @ 46 # rest) = base64UrlEncode a"
  using base64_no_dot [of a] by (auto simp: takeWhile_append)

definition json_text :: "jsstr \<Rightarrow> json \<Rightarrow> bool" where
  "json_text s v \<longleftrightarrow> well_formed s \<and> \<not> starts_with_bom s \<and> JSON_parse s = Some v"

lemma parse_json_text: "json_text s v \<Longrightarrow> parse_json_bytes (TextEncoder_encode s) = Some v"
  by (simp add: json_text_def parse_json_bytes_def decode_fatal_roundtrip)

lemma algorithm_of_name: "signature_algorithm_of (Some (JStr (js_str (algorithm_name a)))) = Some a"
  by (cases a) (simp_all add: signature_algorithm_of_def algorithm_name_def ALGORITHMS_def js_str_def)

definition plain_header :: "json_object \<Rightarrow> bool" where
  "plain_header h \<longleftrightarrow> (\<forall>n \<in> {''jwk'', ''jku'', ''x5u'', ''crit'', ''b64''}. js_get h (js_str n) = None)"

lemma get_set_present: "name \<noteq> n \<Longrightarrow> js_get (set_present name v h) (js_str n) = js_get h (js_str n)"
  by (auto simp: set_present_def split: option.splits)

lemma checkHeader_signing:
  assumes "plain_header (sg_header opts)"
  shows "checkHeader (signing_header opts) = Inr \<lparr>jh_alg = sg_algorithm opts, jh_members = signing_header opts\<rparr>"
proof -
  have other: "js_get (signing_header opts) (js_str n) = js_get (sg_header opts) (js_str n)" if "n \<in> {''jwk'', ''jku'', ''x5u'', ''crit'', ''b64''}" for n
    using that by (auto simp: signing_header_def get_set_present)
  have alg: "js_get (signing_header opts) (js_str ''alg'') = Some (JStr (js_str (algorithm_name (sg_algorithm opts))))"
    by (simp add: signing_header_def get_set_present)
  show ?thesis
    using assms other by (simp add: checkHeader_def jwk_members_def alg algorithm_of_name js_has_def plain_header_def rbind_def)
qed


text \<open>The contract of WebCrypto that signing relies on.\<close>

definition signs_for :: "'k key_ops \<Rightarrow> signature_algorithm \<Rightarrow> 'k \<Rightarrow> 'k \<Rightarrow> bool" where
  "signs_for K a key public \<longleftrightarrow> ko_name K public = Some (params_name (sp_signParams (algorithmSpec a))) \<and>
     (\<forall>m. ko_verify K (sp_signParams (algorithmSpec a)) public (ko_sign K (sp_signParams (algorithmSpec a)) key m) m = Some True \<and>
       sp_ecdsaSignatureBytes (algorithmSpec a) \<in> {None, Some (length (ko_sign K (sp_signParams (algorithmSpec a)) key m))})"

abbreviation signs_well :: "'k key_ops \<Rightarrow> signature_algorithm \<Rightarrow> 'k \<Rightarrow> bool" where
  "signs_well K a key \<equiv> signs_for K a key key"

lemma signed_segments:
  "split_on 46 (signJws K stringify payload opts) =
    [base64UrlEncodeString (stringify (signing_header opts)), base64UrlEncode payload,
     base64UrlEncode (ko_sign K (sp_signParams (algorithmSpec (sg_algorithm opts))) (sg_key opts)
       (TextEncoder_encode (base64UrlEncodeString (stringify (signing_header opts)) @ 46 # base64UrlEncode payload)))]"
  by (simp add: signJws_def Let_def base64UrlEncodeString_def split_compact)

lemma decode_signed_header:
  assumes "plain_header (sg_header opts)" "json_text (stringify (signing_header opts)) (JObj (signing_header opts))"
  shows "decodeJwsHeader (signJws K stringify payload opts) = Inr \<lparr>jh_alg = sg_algorithm opts, jh_members = signing_header opts\<rparr>"
proof -
  let ?h = "base64UrlEncodeString (stringify (signing_header opts))" and ?token = "signJws K stringify payload opts"
  have first: "takeWhile (\<lambda>c. c \<noteq> 46) ?token = ?h" "46 \<in> set ?token"
    by (simp_all add: signJws_def Let_def base64UrlEncodeString_def takeWhile_compact)
  have decoded: "base64UrlDecode ?h = Inr (TextEncoder_encode (stringify (signing_header opts)))"
    by (simp add: base64UrlEncodeString_def)
  have json: "parse_json_bytes (TextEncoder_encode (stringify (signing_header opts))) = Some (JObj (signing_header opts))"
    by (rule parse_json_text) (rule assms)
  have "?h \<noteq> []"
  proof
    assume "?h = []"
    with decoded have "TextEncoder_encode (stringify (signing_header opts)) = []"
      using decode_encode [of "[]"] by simp
    with json show False by (simp add: parse_json_bytes_def decode_fatal_def from_scalars_def JSON_parse_def json_ws_def)
  qed
  then show ?thesis
    using checkHeader_signing [OF assms(1)] decoded json first(2) by (simp add: decodeJwsHeader_def first(1) Let_def)
qed

lemma signed_token_verifies:
  assumes "signs_for K (sg_algorithm opts) (sg_key opts) public" "sg_algorithm opts \<in> set algs" "plain_header (sg_header opts)"
    and "json_text (stringify (signing_header opts)) (JObj (signing_header opts))"
    and "resolve_key src \<lparr>jh_alg = sg_algorithm opts, jh_members = signing_header opts\<rparr> = Inr public"
  shows "map_sum id (\<lambda>j. (vj_header j, vj_payload j)) (verifyJws K algs src (signJws K stringify payload opts)) =
    Inr (\<lparr>jh_alg = sg_algorithm opts, jh_members = signing_header opts\<rparr>, payload)"
proof -
  define a where "a = sg_algorithm opts"
  define h where "h = base64UrlEncodeString (stringify (signing_header opts))"
  define p where "p = base64UrlEncode payload"
  define sg where "sg = ko_sign K (sp_signParams (algorithmSpec a)) (sg_key opts) (TextEncoder_encode (h @ 46 # p))"
  have "split_on 46 (signJws K stringify payload opts) = [h, p, base64UrlEncode sg]"
    unfolding signed_segments h_def p_def sg_def a_def by (rule refl)
  moreover have "signature_bytes a (base64UrlEncode sg) = Inr sg"
    using assms(1) by (auto simp: signature_bytes_def signs_for_def sg_def a_def split: option.splits)
  moreover have "check_signature K a public sg (TextEncoder_encode (h @ 46 # p)) = Inr ()"
    using assms(1) by (simp add: check_signature_def signs_for_def sg_def a_def guard_or_def)
  moreover have "algs \<noteq> []" using assms(2) by auto
  ultimately show ?thesis
    using assms(1,2,5) decode_signed_header[where opts = opts and stringify = stringify, OF assms(3,4)] by (simp add: verifyJws_def signs_for_def a_def p_def Let_def)
qed

lemma signed_token_payload:
  assumes "signs_well K (sg_algorithm opts) (sg_key opts)" "sg_algorithm opts \<in> set algs" "plain_header (sg_header opts)"
    and "json_text (stringify (signing_header opts)) (JObj (signing_header opts))"
  shows "map_sum id vj_payload (verifyJws K algs (FixedKey (sg_key opts)) (signJws K stringify payload opts)) = Inr payload"
  using signed_token_verifies[where opts = opts and stringify = stringify, OF assms, of "FixedKey (sg_key opts)" payload]
  by (cases "verifyJws K algs (FixedKey (sg_key opts)) (signJws K stringify payload opts)") (simp_all add: resolve_key_def)

text \<open>A token made by \<^verbatim>\<open>signJws\<close> verifies under the same key to the signed payload, when the algorithm is
  allowed and the extra header members name none the verifier refuses.\<close>

theorem jws_sign_verify:
  assumes "signs_well K (sg_algorithm opts) (sg_key opts)" "sg_algorithm opts \<in> set algs" "plain_header (sg_header opts)"
    and "json_text (stringify (signing_header opts)) (JObj (signing_header opts))"
  shows "map_sum id vj_payload (verifyJws K algs (FixedKey (sg_key opts)) (signJws K stringify payload opts)) = Inr payload"
  by (rule signed_token_payload) (rule assms)+

section \<open>What an accepted JWT satisfies\<close>

definition tolerance_of :: "'k verify_jwt_options \<Rightarrow> int" where
  "tolerance_of opts = (case vo_clockToleranceSeconds opts of None \<Rightarrow> 30 | Some t \<Rightarrow> t)"

definition issuer_ok :: "one_or_many option \<Rightarrow> json_object \<Rightarrow> bool" where
  "issuer_ok wanted c \<longleftrightarrow> (case wanted of None \<Rightarrow> True | Some p \<Rightarrow> (\<exists>s \<in> set (permitted_of p). claim c ''iss'' = Some (JStr s)))"

definition audience_ok :: "one_or_many option \<Rightarrow> json_object \<Rightarrow> bool" where
  "audience_ok wanted c \<longleftrightarrow> (case wanted of None \<Rightarrow> True | Some p \<Rightarrow> (\<exists>s \<in> set (permitted_of p). JStr s \<in> set (audiences c)))"

definition subject_ok :: "jsstr option \<Rightarrow> json_object \<Rightarrow> bool" where
  "subject_ok wanted c \<longleftrightarrow> (case wanted of None \<Rightarrow> True | Some s \<Rightarrow> claim c ''sub'' = Some (JStr s))"

text \<open>The time claims at \<open>now\<close> with a tolerance.\<close>

definition times_ok :: "bool option \<Rightarrow> int option \<Rightarrow> int \<Rightarrow> int \<Rightarrow> json_object \<Rightarrow> bool" where
  "times_ok required maxAge tol now c \<longleftrightarrow>
     (case claim c ''exp'' of None \<Rightarrow> required = Some False | Some v \<Rightarrow> (\<exists>e. v = JNum e \<and> of_int now < e + of_int tol)) \<and>
     (case claim c ''nbf'' of None \<Rightarrow> True | Some v \<Rightarrow> (\<exists>n. v = JNum n \<and> n - of_int tol \<le> of_int now)) \<and>
     (case claim c ''iat'' of None \<Rightarrow> maxAge = None
        | Some v \<Rightarrow> (\<exists>i. v = JNum i \<and> (case maxAge of None \<Rightarrow> True | Some a \<Rightarrow> of_int now < i + of_int a + of_int tol)))"

lemma check_issuer_ok: "check_issuer w c = Inr u \<longleftrightarrow> issuer_ok w c"
  by (auto simp: check_issuer_def issuer_ok_def split: option.splits json.splits)

lemma check_audience_ok: "check_audience w c = Inr u \<longleftrightarrow> audience_ok w c"
  by (auto simp: check_audience_def audience_ok_def list_ex_iff split: option.splits)

lemma check_subject_ok: "check_subject w c = Inr u \<longleftrightarrow> subject_ok w c"
  by (auto simp: check_subject_def subject_ok_def split: option.splits)

lemma check_times_ok:
  "check_expiry r tol now c = Inr () \<and> check_not_before tol now c = Inr () \<and> check_issued_at m tol now c = Inr () \<longleftrightarrow>
   times_ok r m tol now c"
  by (auto simp: check_expiry_def check_not_before_def check_issued_at_def times_ok_def not_le not_less
      split: option.splits json.splits)

text \<open>C28: A JWT is accepted exactly when its tolerance is in range, its JWS is, its payload is a JSON object
  and every claim the options constrain passes.\<close>

theorem jwt_accepted_iff:
  "verifyJwt K opts now token = Inr (hdr, c) \<longleftrightarrow>
     tolerance_of opts \<in> {0..300} \<and>
     (\<exists>jws. verifyJws K (vo_algorithms opts) (vo_key opts) token = Inr jws \<and> hdr = vj_header jws \<and>
        parse_json_bytes (vj_payload jws) = Some (JObj c)) \<and>
     issuer_ok (vo_issuer opts) c \<and> audience_ok (vo_audience opts) c \<and> subject_ok (vo_subject opts) c \<and>
     times_ok (vo_requireExpiry opts) (vo_maxTokenAgeSeconds opts) (tolerance_of opts) now c"
proof -
  have unit: "(\<exists>u. x = Inr u \<and> P) \<longleftrightarrow> x = Inr () \<and> P" for x :: "(jwt_error, unit) result" and P by auto
  show ?thesis
    unfolding check_times_ok [symmetric] check_issuer_ok [of _ _ "()", symmetric] check_audience_ok [of _ _ "()", symmetric]
      check_subject_ok [of _ _ "()", symmetric] verifyJwt_def tolerance_of_def [symmetric] Let_def
    by (auto simp: rbind_eq_Inr not_less split: sum.splits option.splits json.splits)
qed


text \<open>What the unverified reader shows of an accepted token is what was verified.\<close>

theorem jwt_unsafe_decode_agrees:
  assumes "verifyJwt K opts now token = Inr (hdr, c)"
  shows "decodeJwtUnsafe token = Some (JObj c)"
proof -
  have "\<exists>jws. verifyJws K (vo_algorithms opts) (vo_key opts) token = Inr jws \<and> parse_json_bytes (vj_payload jws) = Some (JObj c)"
    using assms by (auto simp: verifyJwt_def Let_def rbind_eq_Inr split: if_splits sum.splits option.splits json.splits)
  then obtain jws where jws: "verifyJws K (vo_algorithms opts) (vo_key opts) token = Inr jws"
    and json: "parse_json_bytes (vj_payload jws) = Some (JObj c)" by blast
  from verifyJws_accepts [OF jws] obtain h p s where "split_on 46 token = [h, p, s]" "base64UrlDecode p = Inr (vj_payload jws)" by blast
  with json show ?thesis
    by (auto simp: decodeJwtUnsafe_def parse_json_bytes_def base64UrlDecodeString_def split: sum.splits)
qed

section \<open>A token for the examples\<close>

text \<open>The header of a token signed with HS256, the claims \<open>{"sub":"u"}\<close>, and keys that verify everything
  they are bound to.\<close>

definition demo_header_text :: "json_object \<Rightarrow> jsstr" where
  "demo_header_text _ = js_str ''{\"alg\":\"HS256\"}''"

definition demo_keys :: "unit key_ops" where
  "demo_keys = \<lparr>ko_name = (\<lambda>_. Some ''HMAC''), ko_sign = (\<lambda>_ _ _. [7]), ko_verify = (\<lambda>_ _ s _. Some (s = [7]))\<rparr>"

definition demo_signing :: "unit sign_jws_options" where
  "demo_signing = \<lparr>sg_algorithm = HS256, sg_key = (), sg_kid = None, sg_typ = None, sg_header = []\<rparr>"

definition demo_payload :: "byte list" where
  "demo_payload = TextEncoder_encode (js_str ''{\"sub\":\"u\"}'')"

definition demo_options :: "unit verify_jwt_options" where
  "demo_options = \<lparr>vo_algorithms = [HS256], vo_key = FixedKey (), vo_issuer = None, vo_audience = None, vo_subject = Some (js_str ''u''),
     vo_requireExpiry = Some False, vo_clockToleranceSeconds = None, vo_maxTokenAgeSeconds = None\<rparr>"

lemmas json_rules = JSON_parse_def json_ws_def json_members.simps json_elements.simps

lemma demo_header_json: "json_text (demo_header_text h) (JObj (signing_header demo_signing))"
  by (simp add: json_text_def demo_header_text_def js_str_def signing_header_def set_present_def demo_signing_def
      algorithm_name_def ALGORITHMS_def starts_with_bom_def is_high_def is_low_def json_rules)

lemma demo_payload_json: "parse_json_bytes demo_payload = Some (JObj [(js_str ''sub'', JStr (js_str ''u''))])"
  unfolding demo_payload_def
  by (rule parse_json_text)
    (simp add: json_text_def js_str_def starts_with_bom_def is_high_def is_low_def json_rules)

lemma demo_signs_well: "signs_well demo_keys HS256 ()"
  by (simp add: signs_for_def demo_keys_def hmac_spec_def params_name_def)

definition demo_token :: jsstr where
  "demo_token = signJws demo_keys demo_header_text demo_payload demo_signing"

lemma jws_sign_verify_witness:
  "map_sum id vj_payload (verifyJws demo_keys [ES256, HS256] (FixedKey (sg_key demo_signing)) demo_token) = Inr demo_payload"
  unfolding demo_token_def
  by (rule jws_sign_verify)
    (use demo_signs_well demo_header_json in \<open>simp_all add: demo_signing_def plain_header_def\<close>)

lemma demo_token_accepted:
  obtains jws where "verifyJws demo_keys [HS256] (FixedKey ()) demo_token = Inr jws" "vj_payload jws = demo_payload"
proof -
  have "map_sum id vj_payload (verifyJws demo_keys [HS256] (FixedKey (sg_key demo_signing)) demo_token) = Inr demo_payload"
    unfolding demo_token_def
    by (rule signed_token_payload)
      (use demo_signs_well demo_header_json in \<open>simp_all add: demo_signing_def plain_header_def\<close>)
  then show ?thesis
    using that by (cases "verifyJws demo_keys [HS256] (FixedKey ()) demo_token") (simp_all add: demo_signing_def)
qed

lemma jws_accepts_only_verified_witness:
  "\<exists>input s. demo_token = input @ 46 # s \<and> signature_bytes HS256 s = Inr [7]"
proof -
  from demo_token_accepted obtain jws where jws: "verifyJws demo_keys [HS256] (FixedKey ()) demo_token = Inr jws" by blast
  from jws_accepts_only_verified [OF this] obtain input s signature where "demo_token = input @ 46 # s"
    "signature_bytes HS256 s = Inr signature" "signature = [7]"
    by (auto simp: demo_keys_def)
  then show ?thesis by blast
qed

lemma demo_jwt_accepted: "\<exists>hdr. verifyJwt demo_keys demo_options 100 demo_token = Inr (hdr, [(js_str ''sub'', JStr (js_str ''u''))])"
proof -
  from demo_token_accepted obtain jws where jws: "verifyJws demo_keys [HS256] (FixedKey ()) demo_token = Inr jws" "vj_payload jws = demo_payload" .
  have "claim [(js_str ''sub'', JStr (js_str ''u''))] n = (if n = ''sub'' then Some (JStr (js_str ''u'')) else None)" for n
    by (simp add: claim_def)
  then show ?thesis
    by (simp add: verifyJwt_def demo_options_def jws demo_payload_json check_issuer_def check_audience_def check_subject_def
        check_expiry_def check_not_before_def check_issued_at_def guard_or_def rbind_def)
qed

lemma jwt_unsafe_decode_agrees_witness:
  "decodeJwtUnsafe demo_token = Some (JObj [(js_str ''sub'', JStr (js_str ''u''))])"
  using jwt_unsafe_decode_agrees demo_jwt_accepted by blast

end
