(* ===== verification/WebAuthnData.thy ===== *)
theory WebAuthnData
  imports Cbor Jws
begin

text \<open>
  What an authenticator sends: COSE keys, authenticator data and client data
  (\<^verbatim>\<open>di-framework-auth/src/webauthn/cose.ts\<close>, \<^verbatim>\<open>authenticator-data.ts\<close>, \<^verbatim>\<open>client-data.ts\<close>).

  WebCrypto and \<^verbatim>\<open>URL\<close> enter as a record of functions.  The lemmas show that authenticator data
  is read without a byte left over or read twice, and what client data must satisfy to be accepted.
\<close>

section \<open>The platform\<close>

datatype cose_jwk = JwkEC jsstr jsstr | JwkRSA jsstr jsstr | JwkOKP jsstr

text \<open>\<open>wx_import\<close> and \<open>wx_verify\<close> give \<open>None\<close> where the promise is rejected; \<open>wx_blind\<close> is the HMAC
  under the blinding key of the process; \<open>wx_origin\<close> is \<^verbatim>\<open>new URL(value).origin\<close>, \<open>None\<close> when it throws;
  \<open>wx_eddsa\<close> says whether the runtime can generate Ed25519 keys.\<close>

record 'k webauthn_platform =
  wx_import :: "cose_jwk \<Rightarrow> 'k option"
  wx_verify :: "sign_params \<Rightarrow> 'k \<Rightarrow> byte list \<Rightarrow> byte list \<Rightarrow> bool option"
  wx_sha256 :: "byte list \<Rightarrow> byte list"
  wx_blind :: "byte list \<Rightarrow> byte list"
  wx_origin :: "jsstr \<Rightarrow> jsstr option"
  wx_eddsa :: bool

definition blind_equal :: "'k webauthn_platform \<Rightarrow> byte list \<Rightarrow> byte list \<Rightarrow> bool" where
  "blind_equal W a b =
     (let da = wx_blind W a; db = wx_blind W b
      in foldl (\<lambda>diff i. diff OR (da ! i XOR (if i < length db then db ! i else 0))) 0 [0..<length da] = 0)"

section \<open>Errors\<close>

datatype webauthn_error =
    BadBase64 base64_error
  | BadCbor cbor_error
  | NotCborMap string
  | CoseFail string
  | BadDer der_error
  | CryptoRejected
  | Malformed string
  | OriginMismatch string
  | ChallengeNotFound string
  | CredentialExists
  | CredentialNotFound string
  | CloneDetected
  | AttestationUnsupported
  | InvalidSignature

definition base64_bytes :: "jsstr \<Rightarrow> (webauthn_error, byte list) result" where
  "base64_bytes s = (case base64UrlDecode s of Inl e \<Rightarrow> Inl (BadBase64 e) | Inr b \<Rightarrow> Inr b)"

section \<open>COSE keys\<close>

record cose_key =
  ck_kty :: int
  ck_alg :: int
  ck_raw :: "byte list"
  ck_crv :: "int option"
  ck_x :: "byte list option"
  ck_y :: "byte list option"
  ck_n :: "byte list option"
  ck_e :: "byte list option"

definition cbor_map_of :: "byte list \<Rightarrow> string \<Rightarrow> (webauthn_error, (cbor, cbor) jsmap) result" where
  "cbor_map_of bs what = (case decodeCbor DEFAULTS bs of Inl e \<Rightarrow> Inl (BadCbor e)
     | Inr v \<Rightarrow> (case asCborMap v what of Inl _ \<Rightarrow> Inl (NotCborMap what) | Inr m \<Rightarrow> Inr m))"

definition numberAt :: "(cbor, cbor) jsmap \<Rightarrow> int \<Rightarrow> string \<Rightarrow> (webauthn_error, int) result" where
  "numberAt m label what = (case js_get m (CNum label) of Some (CNum i) \<Rightarrow> Inr i | _ \<Rightarrow> Inl (CoseFail what))"

definition bytesAt :: "(cbor, cbor) jsmap \<Rightarrow> int \<Rightarrow> string \<Rightarrow> (webauthn_error, byte list) result" where
  "bytesAt m label what = (case js_get m (CNum label) of Some (CBytes b) \<Rightarrow> Inr b | _ \<Rightarrow> Inl (CoseFail what))"

definition parseCoseKey :: "byte list \<Rightarrow> (webauthn_error, cose_key) result" where
  "parseCoseKey bytes =
     rbind (cbor_map_of bytes ''COSE key'') (\<lambda>m.
     rbind (numberAt m 1 ''kty'') (\<lambda>kty.
     rbind (numberAt m 3 ''alg'') (\<lambda>alg.
     let key = \<lparr>ck_kty = kty, ck_alg = alg, ck_raw = bytes, ck_crv = None, ck_x = None, ck_y = None, ck_n = None, ck_e = None\<rparr>
     in if kty = 2 then
          rbind (numberAt m (-1) ''crv'') (\<lambda>crv.
          rbind (bytesAt m (-2) ''x'') (\<lambda>x.
          rbind (bytesAt m (-3) ''y'') (\<lambda>y. Inr (key\<lparr>ck_crv := Some crv, ck_x := Some x, ck_y := Some y\<rparr>))))
        else if kty = 1 then
          rbind (numberAt m (-1) ''crv'') (\<lambda>crv.
          rbind (bytesAt m (-2) ''x'') (\<lambda>x. Inr (key\<lparr>ck_crv := Some crv, ck_x := Some x\<rparr>)))
        else if kty = 3 then
          rbind (bytesAt m (-1) ''n'') (\<lambda>n.
          rbind (bytesAt m (-2) ''e'') (\<lambda>e. Inr (key\<lparr>ck_n := Some n, ck_e := Some e\<rparr>)))
        else Inl (CoseFail ''kty unsupported''))))"

definition isSupportedCoseAlgorithm :: "int \<Rightarrow> bool" where
  "isSupportedCoseAlgorithm alg \<longleftrightarrow> alg = - 7 \<or> alg = - 257 \<or> alg = - 8"

definition import_jwk :: "'k webauthn_platform \<Rightarrow> cose_jwk \<Rightarrow> (webauthn_error, 'k) result" where
  "import_jwk W jwk = (case wx_import W jwk of None \<Rightarrow> Inl CryptoRejected | Some k \<Rightarrow> Inr k)"

definition importCoseKey :: "'k webauthn_platform \<Rightarrow> cose_key \<Rightarrow> (webauthn_error, 'k) result" where
  "importCoseKey W key =
     (if ck_alg key = - 7 then
        (if ck_kty key \<noteq> 2 \<or> ck_crv key \<noteq> Some 1 then Inl (CoseFail ''ES256 requires P-256'')
         else case (ck_x key, ck_y key) of
           (Some x, Some y) \<Rightarrow>
             if length x \<noteq> 32 \<or> length y \<noteq> 32 then Inl (CoseFail ''coordinates'')
             else import_jwk W (JwkEC (base64UrlEncode x) (base64UrlEncode y))
         | _ \<Rightarrow> Inl (CoseFail ''coordinates''))
      else if ck_alg key = - 257 then
        (if ck_kty key \<noteq> 3 then Inl (CoseFail ''RS256 requires RSA'')
         else case (ck_n key, ck_e key) of
           (Some modulus, Some e) \<Rightarrow>
             let significant = (if byte_at modulus 0 = Some 0 then drop 1 modulus else modulus)
             in if length significant < 256 then Inl (CoseFail ''modulus'')
                else import_jwk W (JwkRSA (base64UrlEncode significant) (base64UrlEncode e))
         | _ \<Rightarrow> Inl (CoseFail ''TypeError''))
      else if ck_alg key = - 8 then
        (if ck_kty key \<noteq> 1 \<or> ck_crv key \<noteq> Some 6 then Inl (CoseFail ''EdDSA requires Ed25519'')
         else if \<not> wx_eddsa W then Inl (CoseFail ''runtime'')
         else case ck_x key of
           Some x \<Rightarrow> if length x \<noteq> 32 then Inl (CoseFail ''Ed25519 key'') else import_jwk W (JwkOKP (base64UrlEncode x))
         | None \<Rightarrow> Inl (CoseFail ''Ed25519 key''))
      else Inl (CoseFail ''algorithm''))"

definition run_verify :: "'k webauthn_platform \<Rightarrow> sign_params \<Rightarrow> 'k \<Rightarrow> byte list \<Rightarrow> byte list \<Rightarrow> (webauthn_error, bool) result" where
  "run_verify W p key signature input = (case wx_verify W p key signature input of None \<Rightarrow> Inl CryptoRejected | Some b \<Rightarrow> Inr b)"

definition verifyCoseSignature :: "'k webauthn_platform \<Rightarrow> cose_key \<Rightarrow> byte list \<Rightarrow> byte list \<Rightarrow> (webauthn_error, bool) result" where
  "verifyCoseSignature W key signature signedData =
     rbind (importCoseKey W key) (\<lambda>cryptoKey.
     if ck_alg key = - 7 then
       (if length signature = 64 then run_verify W (SignECDSA SHA_256) cryptoKey signature signedData
        else case derToP1363 signature 64 of
          Inl e \<Rightarrow> Inl (BadDer e)
        | Inr raw \<Rightarrow> run_verify W (SignECDSA SHA_256) cryptoKey raw signedData)
     else if ck_alg key = - 257 then run_verify W SignRSASSA cryptoKey signature signedData
     else if ck_alg key = - 8 then run_verify W SignEd25519 cryptoKey signature signedData
     else Inl (CoseFail ''algorithm''))"

section \<open>Authenticator data\<close>

record flags =
  fl_up :: bool
  fl_uv :: bool
  fl_be :: bool
  fl_bs :: bool
  fl_at :: bool
  fl_ed :: bool
  fl_raw :: byte

definition parseFlags :: "byte \<Rightarrow> flags" where
  "parseFlags b = \<lparr>fl_up = b AND 0x01 \<noteq> 0, fl_uv = b AND 0x04 \<noteq> 0, fl_be = b AND 0x08 \<noteq> 0, fl_bs = b AND 0x10 \<noteq> 0,
     fl_at = b AND 0x40 \<noteq> 0, fl_ed = b AND 0x80 \<noteq> 0, fl_raw = b\<rparr>"

record attested_data =
  at_aaguid :: "byte list"
  at_aaguidHex :: string
  at_credentialId :: "byte list"
  at_credentialIdBase64Url :: jsstr
  at_credentialPublicKey :: "byte list"
  at_coseKey :: cose_key

record auth_data =
  ad_rpIdHash :: "byte list"
  ad_flags :: flags
  ad_signCount :: nat
  ad_attested :: "attested_data option"
  ad_extensions :: "(cbor, cbor) jsmap option"
  ad_bytes :: "byte list"

definition toHex :: "byte list \<Rightarrow> string" where
  "toHex bytes = concat (map (\<lambda>b. [''0123456789abcdef'' ! (unat b div 16), ''0123456789abcdef'' ! (unat b mod 16)]) bytes)"

definition decode_at :: "byte list \<Rightarrow> nat \<Rightarrow> (webauthn_error, cbor \<times> nat) result" where
  "decode_at bytes off = (case decodeCborAt DEFAULTS bytes off of Inl e \<Rightarrow> Inl (BadCbor e) | Inr r \<Rightarrow> Inr r)"

text \<open>The attested credential data from offset 37 on, and the offset after it.\<close>

definition parse_attested :: "byte list \<Rightarrow> (webauthn_error, attested_data \<times> nat) result" where
  "parse_attested bytes =
     rbind (guard_or (37 + 16 + 2 \<le> length bytes) (Malformed ''attested data truncated'')) (\<lambda>_.
     let aaguid = js_slice 37 (37 + 16) bytes; idLength = nat_of_bytes (js_slice 53 55 bytes)
     in rbind (guard_or (idLength \<le> 1023) (Malformed ''credential id length'')) (\<lambda>_.
        rbind (guard_or (55 + idLength \<le> length bytes) (Malformed ''credential id truncated'')) (\<lambda>_.
        let credentialId = js_slice 55 (55 + idLength) bytes; off = 55 + idLength
        in rbind (decode_at bytes off) (\<lambda>(_, bytesRead).
           let publicKey = js_slice off (off + bytesRead) bytes
           in rbind (parseCoseKey publicKey) (\<lambda>key.
              Inr (\<lparr>at_aaguid = aaguid, at_aaguidHex = toHex aaguid, at_credentialId = credentialId,
                    at_credentialIdBase64Url = base64UrlEncode credentialId, at_credentialPublicKey = publicKey,
                    at_coseKey = key\<rparr>, off + bytesRead))))))"

definition parse_extensions :: "byte list \<Rightarrow> nat \<Rightarrow> (webauthn_error, (cbor, cbor) jsmap \<times> nat) result" where
  "parse_extensions bytes off =
     rbind (decode_at bytes off) (\<lambda>(v, bytesRead). case v of
       CMap m \<Rightarrow> Inr (m, off + bytesRead)
     | _ \<Rightarrow> Inl (Malformed ''extension data is not a map''))"

definition parseAuthenticatorData :: "byte list \<Rightarrow> (webauthn_error, auth_data) result" where
  "parseAuthenticatorData bytes =
     rbind (guard_or (37 \<le> length bytes) (Malformed ''authenticator data too short'')) (\<lambda>_.
     let flags = parseFlags (bytes ! 32)
     in rbind (if fl_at flags then map_sum id (apfst Some) (parse_attested bytes) else Inr (None, 37)) (\<lambda>(attested, off).
        rbind (if fl_ed flags then map_sum id (apfst Some) (parse_extensions bytes off) else Inr (None, off)) (\<lambda>(ext, off').
        rbind (guard_or (off' = length bytes) (Malformed ''trailing bytes'')) (\<lambda>_.
          Inr \<lparr>ad_rpIdHash = js_slice 0 32 bytes, ad_flags = flags, ad_signCount = nat_of_bytes (js_slice 33 37 bytes),
               ad_attested = attested, ad_extensions = ext, ad_bytes = bytes\<rparr>))))"

definition rpIdHashMatches :: "'k webauthn_platform \<Rightarrow> byte list \<Rightarrow> jsstr \<Rightarrow> bool" where
  "rpIdHashMatches W rpIdHash rpId = blind_equal W rpIdHash (wx_sha256 W (TextEncoder_encode rpId))"

section \<open>Client data\<close>

record client_data =
  cd_type :: jsstr
  cd_challenge :: jsstr
  cd_origin :: jsstr
  cd_crossOrigin :: "bool option"
  cd_topOrigin :: "jsstr option"
  cd_raw :: jsstr
  cd_bytes :: "byte list"

record client_expectations =
  ce_type :: jsstr
  ce_challenge :: jsstr
  ce_origins :: "jsstr list"
  ce_allowCrossOrigin :: "bool option"
  ce_topOrigins :: "jsstr list option"

definition text_member :: "json_object \<Rightarrow> string \<Rightarrow> string \<Rightarrow> (webauthn_error, jsstr) result" where
  "text_member m name what = (case js_get m (js_str name) of Some (JStr s) \<Rightarrow> Inr s | _ \<Rightarrow> Inl (Malformed what))"

definition parseClientData :: "byte list \<Rightarrow> (webauthn_error, client_data) result" where
  "parseClientData bytes =
     (if take 3 bytes = [0xEF, 0xBB, 0xBF] then Inl (Malformed ''BOM'')
      else case decode_fatal bytes of
        Inl _ \<Rightarrow> Inl (Malformed ''UTF-8'')
      | Inr raw \<Rightarrow>
          if take 1 raw = [0xFEFF] then Inl (Malformed ''BOM'')
          else (case JSON_parse raw of
             None \<Rightarrow> Inl (Malformed ''JSON'')
           | Some (JObj m) \<Rightarrow>
               rbind (text_member m ''type'' ''type'') (\<lambda>ty.
               rbind (text_member m ''challenge'' ''challenge'') (\<lambda>challenge.
               rbind (text_member m ''origin'' ''origin'') (\<lambda>origin.
                 Inr \<lparr>cd_type = ty, cd_challenge = challenge, cd_origin = origin,
                      cd_crossOrigin = (case js_get m (js_str ''crossOrigin'') of Some (JBool b) \<Rightarrow> Some b | _ \<Rightarrow> None),
                      cd_topOrigin = (case js_get m (js_str ''topOrigin'') of Some (JStr s) \<Rightarrow> Some s | _ \<Rightarrow> None),
                      cd_raw = raw, cd_bytes = bytes\<rparr>)))
           | Some _ \<Rightarrow> Inl (Malformed ''object'')))"

definition normalizeOrigin :: "'k webauthn_platform \<Rightarrow> jsstr \<Rightarrow> jsstr option" where
  "normalizeOrigin W v = wx_origin W v"

definition challenge_pair :: "jsstr \<Rightarrow> jsstr \<Rightarrow> (webauthn_error, byte list \<times> byte list) result" where
  "challenge_pair a b = (case (base64UrlDecode a, base64UrlDecode b) of (Inr x, Inr y) \<Rightarrow> Inr (x, y)
     | _ \<Rightarrow> Inl (Malformed ''challenge encoding''))"

definition verifyClientData :: "'k webauthn_platform \<Rightarrow> client_data \<Rightarrow> client_expectations \<Rightarrow> (webauthn_error, unit) result" where
  "verifyClientData W parsed expected =
     rbind (guard_or (cd_type parsed = ce_type expected) (Malformed ''type'')) (\<lambda>_.
     rbind (challenge_pair (cd_challenge parsed) (ce_challenge expected)) (\<lambda>(actual, issued).
     rbind (guard_or (blind_equal W actual issued) (ChallengeNotFound ''mismatch'')) (\<lambda>_.
     case normalizeOrigin W (cd_origin parsed) of
       None \<Rightarrow> Inl (OriginMismatch ''not a URL'')
     | Some origin \<Rightarrow>
         if origin = [] then Inl (OriginMismatch ''not a URL'')
         else rbind (guard_or (origin \<in> set (List.map_filter (normalizeOrigin W) (ce_origins expected))) (OriginMismatch ''origin'')) (\<lambda>_.
              rbind (guard_or (\<not> (cd_crossOrigin parsed = Some True \<and> ce_allowCrossOrigin expected \<noteq> Some True)) (OriginMismatch ''cross-origin'')) (\<lambda>_.
              case cd_topOrigin parsed of
                None \<Rightarrow> Inr ()
              | Some t \<Rightarrow>
                  (case normalizeOrigin W t of
                     None \<Rightarrow> Inl (OriginMismatch ''topOrigin'')
                   | Some topOrigin \<Rightarrow>
                       guard_or (topOrigin \<noteq> [] \<and> Some topOrigin \<in> normalizeOrigin W ` set (case ce_topOrigins expected of None \<Rightarrow> [] | Some ts \<Rightarrow> ts))
                         (OriginMismatch ''topOrigin'')))))))"


section \<open>Comparing under the blinding key\<close>

lemma blind_equal_iff:
  assumes "length (wx_blind W a) = length (wx_blind W b)"
  shows "blind_equal W a b \<longleftrightarrow> wx_blind W a = wx_blind W b"
  unfolding blind_equal_def Let_def foldl_or_zero xor_eq_0 nth_agree [OF assms, symmetric] by (simp add: assms)

lemma blind_equal_refl [simp]: "blind_equal W a a"
  by (simp add: blind_equal_iff)

section \<open>Authenticator data is read without overlap or rest\<close>

lemma decode_at_encode:
  assumes "decode_at bytes off = Inr (v, n)" "bom_free bytes"
  shows "0 < n \<and> off + n \<le> length bytes \<and> js_slice off (off + n) bytes = encode v"
proof -
  from assms(1) obtain off' where run: "decodeValue (Suc (lm_maxDepth DEFAULTS)) DEFAULTS bytes off = Inr (v, off')" and n: "n = off' - off"
    by (auto simp: decode_at_def decodeCborAt_def rbind_eq_Inr simp del: decodeValue.simps split: sum.splits)
  from sound_readerD [OF decodeValue_sound run] n assms(2) show ?thesis by simp
qed

definition attested_bytes :: "attested_data \<Rightarrow> byte list" where
  "attested_bytes a = at_aaguid a @ bytes_of_nat 2 (length (at_credentialId a)) @ at_credentialId a @ at_credentialPublicKey a"

definition auth_data_bytes :: "auth_data \<Rightarrow> byte list" where
  "auth_data_bytes d = ad_rpIdHash d @ [fl_raw (ad_flags d)] @ bytes_of_nat 4 (ad_signCount d) @
     (case ad_attested d of None \<Rightarrow> [] | Some a \<Rightarrow> attested_bytes a) @
     (case ad_extensions d of None \<Rightarrow> [] | Some m \<Rightarrow> encode (CMap m))"

lemma slice_number: "off + k \<le> length bs \<Longrightarrow> bytes_of_nat k (nat_of_bytes (js_slice off (off + k) bs)) = js_slice off (off + k) bs"
  using bytes_of_nat_of_bytes [of "js_slice off (off + k) bs"] by (simp add: length_js_slice)

lemma parse_attested_bytes:
  assumes "parse_attested bytes = Inr (a, off)" "bom_free bytes"
  shows "37 \<le> off \<and> off \<le> length bytes \<and> attested_bytes a = js_slice 37 off bytes \<and> length (at_aaguid a) = 16 \<and>
    length (at_credentialId a) \<le> 1023 \<and> parseCoseKey (at_credentialPublicKey a) = Inr (at_coseKey a)"
proof -
  define n where "n = nat_of_bytes (js_slice 53 55 bytes)"
  from assms(1) obtain v k key where len: "37 + 16 + 2 \<le> length bytes" "n \<le> 1023" "55 + n \<le> length bytes"
    and k: "decode_at bytes (55 + n) = Inr (v, k)" and key: "parseCoseKey (js_slice (55 + n) (55 + n + k) bytes) = Inr key"
    and a: "at_aaguid a = js_slice 37 (37 + 16) bytes" "at_credentialId a = js_slice 55 (55 + n) bytes"
      "at_credentialPublicKey a = js_slice (55 + n) (55 + n + k) bytes" "at_coseKey a = key"
    and off: "off = 55 + n + k"
    by (auto simp: parse_attested_def Let_def rbind_eq_Inr n_def)
  from decode_at_encode [OF k assms(2)] have end': "55 + n + k \<le> length bytes" by simp
  have idlen: "length (at_credentialId a) = n" using len by (simp add: a length_js_slice)
  have "bytes_of_nat 2 n = js_slice 53 55 bytes" using slice_number [of 53 2 bytes] len by (simp add: n_def)
  then have "attested_bytes a = js_slice 37 53 bytes @ js_slice 53 55 bytes @ js_slice 55 (55 + n) bytes @ js_slice (55 + n) (55 + n + k) bytes"
    unfolding attested_bytes_def idlen by (simp add: a)
  also have "\<dots> = js_slice 37 off bytes" by (simp add: js_slice_join off)
  finally show ?thesis using len end' key by (simp add: a off length_js_slice)
qed

lemma parse_extensions_cases:
  assumes "parse_extensions bytes off = Inr (m, off')"
  obtains n where "decode_at bytes off = Inr (CMap m, n)" "off' = off + n"
proof -
  from assms obtain v n where "decode_at bytes off = Inr (v, n)" "(case v of CMap m \<Rightarrow> Inr (m, off + n) | _ \<Rightarrow> Inl (Malformed ''extension data is not a map'')) = Inr (m, off')"
    by (auto simp: parse_extensions_def rbind_eq_Inr simp del: split_paired_Ex)
  with that show ?thesis by (cases v) auto
qed

lemma parse_extensions_bytes:
  assumes "parse_extensions bytes off = Inr (m, off')" "bom_free bytes"
  shows "off < off' \<and> off' \<le> length bytes \<and> encode (CMap m) = js_slice off off' bytes"
proof -
  obtain n where n: "decode_at bytes off = Inr (CMap m, n)" "off' = off + n"
    using parse_extensions_cases [OF assms(1)] .
  with decode_at_encode [OF n(1) assms(2)] show ?thesis by simp
qed

lemma raw_parseFlags [simp]: "fl_raw (parseFlags b) = b"
  by (simp add: parseFlags_def)

lemma parse_auth_data_bytes:
  assumes "parseAuthenticatorData bytes = Inr d" "bom_free bytes"
  shows "auth_data_bytes d = bytes \<and> length (ad_rpIdHash d) = 32 \<and> ad_bytes d = bytes \<and>
    (fl_at (ad_flags d) \<longleftrightarrow> ad_attested d \<noteq> None) \<and> (fl_ed (ad_flags d) \<longleftrightarrow> ad_extensions d \<noteq> None)"
proof -
  define fl where "fl = parseFlags (bytes ! 32)"
  from assms(1) obtain att off ext where len: "37 \<le> length bytes"
    and att: "(if fl_at fl then map_sum id (apfst Some) (parse_attested bytes) else Inr (None, 37)) = Inr (att, off)"
    and ext: "(if fl_ed fl then map_sum id (apfst Some) (parse_extensions bytes off) else Inr (None, off)) = Inr (ext, length bytes)"
    and d: "d = \<lparr>ad_rpIdHash = js_slice 0 32 bytes, ad_flags = fl, ad_signCount = nat_of_bytes (js_slice 33 37 bytes),
               ad_attested = att, ad_extensions = ext, ad_bytes = bytes\<rparr>"
    by (auto simp: parseAuthenticatorData_def Let_def rbind_eq_Inr fl_def simp del: split_paired_Ex)
  have att': "37 \<le> off \<and> off \<le> length bytes \<and> (case att of None \<Rightarrow> [] | Some a \<Rightarrow> attested_bytes a) = js_slice 37 off bytes \<and> (fl_at fl \<longleftrightarrow> att \<noteq> None)"
  proof (cases "fl_at fl")
    case True
    with att obtain a where "parse_attested bytes = Inr (a, off)" "att = Some a"
      by (cases "parse_attested bytes") auto
    with parse_attested_bytes [OF this(1) assms(2)] True show ?thesis by simp
  qed (use att len in auto)
  have ext': "(case ext of None \<Rightarrow> [] | Some m \<Rightarrow> encode (CMap m)) = js_slice off (length bytes) bytes \<and> (fl_ed fl \<longleftrightarrow> ext \<noteq> None)"
  proof (cases "fl_ed fl")
    case True
    with ext obtain m where "parse_extensions bytes off = Inr (m, length bytes)" "ext = Some m"
      by (cases "parse_extensions bytes off") auto
    with parse_extensions_bytes [OF this(1) assms(2)] True show ?thesis by simp
  qed (use ext in auto)
  have "auth_data_bytes d = js_slice 0 32 bytes @ js_slice 32 33 bytes @ js_slice 33 37 bytes @ js_slice 37 off bytes @ js_slice off (length bytes) bytes"
    using att' ext' slice_number [of 33 4 bytes] js_slice_one [of 32 bytes] len by (simp add: auth_data_bytes_def d fl_def)
  also have "\<dots> = js_slice 0 (length bytes) bytes" using att' len by (simp add: js_slice_join)
  finally show ?thesis using att' ext' len by (simp add: d length_js_slice) (simp add: js_slice_def)
qed


text \<open>Accepted authenticator data is, byte for byte, the concatenation of its parts: nothing is left over,
  nothing is read twice, and a part is present exactly when its flag is set.\<close>

theorem auth_data_partition:
  assumes "parseAuthenticatorData bytes = Inr d" "bom_free bytes"
  shows "bytes = auth_data_bytes d \<and> length (ad_rpIdHash d) = 32 \<and>
    (fl_at (ad_flags d) \<longleftrightarrow> ad_attested d \<noteq> None) \<and> (fl_ed (ad_flags d) \<longleftrightarrow> ad_extensions d \<noteq> None)"
  using parse_auth_data_bytes [OF assms] by simp

definition demo_auth_data :: "byte list" where
  "demo_auth_data = replicate 32 9 @ [0x81, 0, 0, 0, 5, 0xA0]"

lemma demo_auth_data_ok:
  "parseAuthenticatorData demo_auth_data = Inr \<lparr>ad_rpIdHash = replicate 32 9, ad_flags = parseFlags 0x81, ad_signCount = 5,
     ad_attested = None, ad_extensions = Some [], ad_bytes = demo_auth_data\<rparr>"
proof -
  have get: "demo_auth_data ! 32 = 0x81" "length demo_auth_data = 38" by (simp_all add: demo_auth_data_def nth_append)
  have "js_slice 33 37 demo_auth_data = [0, 0, 0, 5]" "js_slice 0 32 demo_auth_data = replicate 32 9"
    by (simp_all add: demo_auth_data_def js_slice_def)
  moreover have "demo_auth_data ! 37 = 0xA0" by (simp add: demo_auth_data_def nth_append)
  then have "decode_at demo_auth_data 37 = Inr (CMap [], 1)"
    using get by (simp add: decode_at_def decoder_rules)
  then have "parse_extensions demo_auth_data 37 = Inr ([], 38)"
    by (simp add: parse_extensions_def rbind_def)
  moreover have "parseFlags 0x81 = \<lparr>fl_up = True, fl_uv = False, fl_be = False, fl_bs = False, fl_at = False, fl_ed = True, fl_raw = 0x81\<rparr>"
    by (simp add: parseFlags_def)
  ultimately show ?thesis
    using get by (simp add: parseAuthenticatorData_def rbind_def guard_or_def nat_of_bytes_def)
qed

lemma auth_data_partition_witness: "\<exists>d. parseAuthenticatorData demo_auth_data = Inr d \<and> demo_auth_data = auth_data_bytes d"
proof -
  have "bom_free demo_auth_data" by (rule bom_free_lead) (simp add: demo_auth_data_def)
  from auth_data_partition [OF demo_auth_data_ok this] demo_auth_data_ok show ?thesis by blast
qed

section \<open>What accepted client data satisfies\<close>

lemma verifyClientData_ok:
  assumes "verifyClientData W parsed expected = Inr ()"
  shows "cd_type parsed = ce_type expected \<and>
    (\<exists>actual issued. base64UrlDecode (cd_challenge parsed) = Inr actual \<and> base64UrlDecode (ce_challenge expected) = Inr issued \<and>
       blind_equal W actual issued) \<and>
    (\<exists>allowed. allowed \<in> set (ce_origins expected) \<and> normalizeOrigin W allowed \<noteq> None \<and>
       normalizeOrigin W (cd_origin parsed) = normalizeOrigin W allowed) \<and>
    (cd_crossOrigin parsed = Some True \<longrightarrow> ce_allowCrossOrigin expected = Some True)"
proof -
  from assms obtain actual issued where ty: "cd_type parsed = ce_type expected"
    and pair: "challenge_pair (cd_challenge parsed) (ce_challenge expected) = Inr (actual, issued)" and eq: "blind_equal W actual issued"
    by (auto simp: verifyClientData_def rbind_eq_Inr)
  obtain origin where origin: "normalizeOrigin W (cd_origin parsed) = Some origin"
    and mem: "origin \<in> set (List.map_filter (normalizeOrigin W) (ce_origins expected))"
    and cross: "\<not> (cd_crossOrigin parsed = Some True \<and> ce_allowCrossOrigin expected \<noteq> Some True)"
    using assms by (auto simp: verifyClientData_def rbind_eq_Inr split: option.splits if_splits)
  from mem obtain allowed where "allowed \<in> set (ce_origins expected)" "normalizeOrigin W allowed = Some origin"
    by (auto simp: map_filter_def)
  with pair eq ty origin cross show ?thesis
    by (auto simp: challenge_pair_def split: sum.splits)
qed

text \<open>Origins are compared after normalisation, and every origin of a scheme without a host normalises to
  the same string: with one such origin on the allowlist, all of them pass.\<close>

theorem opaque_origins_collide:
  assumes "wx_origin W a = Some opaque" "wx_origin W b = Some opaque" "opaque \<noteq> []"
  shows "verifyClientData W \<lparr>cd_type = ty, cd_challenge = base64UrlEncode c, cd_origin = b, cd_crossOrigin = None, cd_topOrigin = None,
       cd_raw = raw, cd_bytes = bytes\<rparr>
     \<lparr>ce_type = ty, ce_challenge = base64UrlEncode c, ce_origins = [a], ce_allowCrossOrigin = None, ce_topOrigins = None\<rparr> = Inr ()"
  using assms by (simp add: verifyClientData_def challenge_pair_def normalizeOrigin_def rbind_def guard_or_def map_filter_def)

definition demo_platform :: "unit webauthn_platform" where
  "demo_platform = \<lparr>wx_import = (\<lambda>_. Some ()), wx_verify = (\<lambda>_ _ _ _. Some True), wx_sha256 = (\<lambda>_. replicate 32 9),
     wx_blind = (\<lambda>b. b), wx_origin = (\<lambda>u. if take 8 u = js_str ''https://'' then Some u else Some (js_str ''null'')), wx_eddsa = False\<rparr>"

lemma opaque_origins_collide_witness:
  "verifyClientData demo_platform \<lparr>cd_type = [1], cd_challenge = base64UrlEncode [7], cd_origin = js_str ''evil:x'', cd_crossOrigin = None,
       cd_topOrigin = None, cd_raw = [], cd_bytes = []\<rparr>
     \<lparr>ce_type = [1], ce_challenge = base64UrlEncode [7], ce_origins = [js_str ''android:apk-key-hash:k''],
      ce_allowCrossOrigin = None, ce_topOrigins = None\<rparr> = Inr ()"
  by (rule opaque_origins_collide [where opaque = "js_str ''null''"]) (simp_all add: demo_platform_def js_str_def)

end
