(* ===== verification/WebAuthn.thy ===== *)
theory WebAuthn
  imports WebAuthnData LoginSessions
begin

text \<open>
  The registration and authentication ceremonies: \<^verbatim>\<open>di-framework-auth/src/webauthn/service.ts\<close>.

  The service works on three stores: credentials, single-use ceremony state and users.  Every
  operation returns its result with the stores; random values and the clock are arguments.  An
  attempt to authenticate is also split where it awaits a store: it takes its challenge, reads and
  checks, and swaps the counter, in steps that those of other attempts, the issuing of challenges,
  registrations and the saving of new credentials interleave with.  The lemmas show that a challenge
  serves one attempt, that an accepted assertion was checked in full, and that in every interleaving
  the signature counter of a credential only grows.
\<close>

section \<open>Configuration and state\<close>

datatype attestation_preference = AttNone | AttIndirect | AttDirect
datatype clone_reaction = CloneThrow | CloneWarn

record attestation_result =
  ar_fmt :: jsstr
  ar_verified :: bool
  ar_trustPath :: jsstr

type_synonym attestation_hook =
  "jsstr \<Rightarrow> (cbor, cbor) jsmap \<Rightarrow> auth_data \<Rightarrow> byte list \<Rightarrow> (webauthn_error, bool \<times> jsstr) result"

record webauthn_config =
  wf_rpId :: jsstr
  wf_rpName :: jsstr
  wf_origins :: "jsstr list"
  wf_challengeBytes :: "nat option"
  wf_challengeTtlSeconds :: "int option"
  wf_registrationTimeoutMs :: "int option"
  wf_authenticationTimeoutMs :: "int option"
  wf_pubKeyCredParams :: "int list option"
  wf_attestation :: "attestation_preference option"
  wf_supportedAttestationFormats :: "jsstr list option"
  wf_userVerification :: "string option"
  wf_residentKey :: "string option"
  wf_requireUserVerification :: "bool option"
  wf_onCloneDetected :: "clone_reaction option"
  wf_verifyAttestation :: "attestation_hook option"

record ceremony =
  cy_challenge :: jsstr
  cy_userId :: "string option"
  cy_userVerification :: "string option"
  cy_allowCredentialIds :: "string list option"

record 'm webauthn_stores =
  ws_credentials :: credential_store
  ws_state :: "ceremony state_store"
  ws_users :: "'m user_store"

definition REGISTRATION_PURPOSE :: string where
  "REGISTRATION_PURPOSE = ''webauthn-registration''"

definition AUTHENTICATION_PURPOSE :: string where
  "AUTHENTICATION_PURPOSE = ''webauthn-authentication''"

definition pubKeyCredParams :: "webauthn_config \<Rightarrow> int list" where
  "pubKeyCredParams cfg = override (wf_pubKeyCredParams cfg) [- 7, - 257]"

definition supportedFormats :: "webauthn_config \<Rightarrow> jsstr list" where
  "supportedFormats cfg = override (wf_supportedAttestationFormats cfg) [js_str ''none'', js_str ''packed'']"

definition challenge_size :: "webauthn_config \<Rightarrow> nat" where
  "challenge_size cfg = override (wf_challengeBytes cfg) 32"

definition requireUv :: "webauthn_config \<Rightarrow> bool" where
  "requireUv cfg \<longleftrightarrow> wf_requireUserVerification cfg = Some True"

datatype config_error = ChallengeTooShort nat | UnsupportedParam int

text \<open>The checks of the factory.\<close>

definition webAuthnService :: "webauthn_config \<Rightarrow> (config_error, unit) result" where
  "webAuthnService cfg =
     (if challenge_size cfg < 16 then Inl (ChallengeTooShort (challenge_size cfg))
      else case List.find (\<lambda>a. \<not> isSupportedCoseAlgorithm a) (pubKeyCredParams cfg) of
             Some a \<Rightarrow> Inl (UnsupportedParam a)
           | None \<Rightarrow> Inr ())"

section \<open>Challenges\<close>

text \<open>Fresh randomness: the challenge bytes and the challenge key.\<close>

record fresh =
  fr_challenge :: "byte list"
  fr_key :: string
  fr_handle :: string

definition challenge_expiry :: "webauthn_config \<Rightarrow> int \<Rightarrow> int" where
  "challenge_expiry cfg now = now + override (wf_challengeTtlSeconds cfg) 300"

definition issueChallenge ::
  "webauthn_config \<Rightarrow> fresh \<Rightarrow> int \<Rightarrow> string \<Rightarrow> ceremony \<Rightarrow> 'm webauthn_stores \<Rightarrow> jsstr \<times> 'm webauthn_stores" where
  "issueChallenge cfg fr now purpose data st =
     (let challenge = base64UrlEncode (fr_challenge fr)
      in (challenge, st\<lparr>ws_state := state_put \<lparr>sy_purpose = purpose, sy_key = fr_key fr,
            sy_data = data\<lparr>cy_challenge := challenge\<rparr>, sy_expiresAt = challenge_expiry cfg now\<rparr> (ws_state st)\<rparr>))"

definition consumeChallenge ::
  "int \<Rightarrow> string \<Rightarrow> string \<Rightarrow> 'm webauthn_stores \<Rightarrow> (webauthn_error, ceremony) result \<times> 'm webauthn_stores" where
  "consumeChallenge now purpose key st =
     (let (entry, s) = state_consume now purpose key (ws_state st)
      in (case entry of None \<Rightarrow> Inl (ChallengeNotFound ''used'') | Some e \<Rightarrow> Inr (sy_data e), st\<lparr>ws_state := s\<rparr>))"

section \<open>Options\<close>

type_synonym descriptor = "string \<times> string list option"

record creation_options =
  co_rp :: "jsstr \<times> jsstr"
  co_user :: "string \<times> string \<times> string"
  co_challenge :: jsstr
  co_params :: "int list"
  co_timeout :: int
  co_exclude :: "descriptor list"
  co_residentKey :: string
  co_userVerification :: string
  co_attachment :: "string option"
  co_attestation :: attestation_preference

record registration_input =
  ri_userId :: string
  ri_username :: string
  ri_displayName :: "string option"
  ri_excludeCredentials :: "descriptor list option"
  ri_attachment :: "string option"

definition empty_ceremony :: ceremony where
  "empty_ceremony = \<lparr>cy_challenge = [], cy_userId = None, cy_userVerification = None, cy_allowCredentialIds = None\<rparr>"

definition handle_patch :: "string \<Rightarrow> 'm user_patch" where
  "handle_patch h = \<lparr>up_identifier = None, up_displayName = None, up_emailVerified = None, up_disabled = None,
     up_webauthnUserHandle = Some h, up_createdAt = None, up_metadata = None\<rparr>"

definition descriptor_of :: "webauthn_credential \<Rightarrow> descriptor" where
  "descriptor_of c = (wc_id c, wc_transports c)"

definition generateRegistrationOptions ::
  "text_ops \<Rightarrow> webauthn_config \<Rightarrow> fresh \<Rightarrow> int \<Rightarrow> registration_input \<Rightarrow> 'm webauthn_stores \<Rightarrow>
     (webauthn_error, string \<times> int \<times> creation_options) result \<times> 'm webauthn_stores" where
  "generateRegistrationOptions T cfg fr now i st =
     (case findById (ri_userId i) (ws_users st) of
        None \<Rightarrow> (Inl (CredentialNotFound ''no user''), st)
      | Some user \<Rightarrow>
          let (handle, st1) =
                (if present (u_webauthnUserHandle user) then (the (u_webauthnUserHandle user), st)
                 else (fr_handle fr, st\<lparr>ws_users := snd (user_update T (u_id user) (handle_patch (fr_handle fr)) (ws_users st))\<rparr>));
              (challenge, st2) = issueChallenge cfg fr now REGISTRATION_PURPOSE (empty_ceremony\<lparr>cy_userId := Some (u_id user)\<rparr>) st1;
              existing = override (ri_excludeCredentials i) (map descriptor_of (listWebAuthn (u_id user) (ws_credentials st2)))
          in (Inr (fr_key fr, challenge_expiry cfg now,
                \<lparr>co_rp = (wf_rpId cfg, wf_rpName cfg), co_user = (handle, ri_username i, override (ri_displayName i) (ri_username i)),
                 co_challenge = challenge, co_params = pubKeyCredParams cfg, co_timeout = override (wf_registrationTimeoutMs cfg) 300000,
                 co_exclude = existing, co_residentKey = override (wf_residentKey cfg) ''preferred'',
                 co_userVerification = override (wf_userVerification cfg) ''preferred'', co_attachment = ri_attachment i,
                 co_attestation = override (wf_attestation cfg) AttNone\<rparr>), st2))"

record request_options =
  ro_challenge :: jsstr
  ro_rpId :: jsstr
  ro_timeout :: int
  ro_userVerification :: string
  ro_allowCredentials :: "descriptor list option"

definition generateAuthenticationOptions ::
  "webauthn_config \<Rightarrow> fresh \<Rightarrow> int \<Rightarrow> string option \<Rightarrow> string option \<Rightarrow> 'm webauthn_stores \<Rightarrow>
     (string \<times> int \<times> request_options) \<times> 'm webauthn_stores" where
  "generateAuthenticationOptions cfg fr now userId userVerification st =
     (let allowCredentials = (if present userId then Some (listWebAuthn (the userId) (ws_credentials st)) else None);
          data = \<lparr>cy_challenge = [], cy_userId = (if present userId then userId else None),
            cy_userVerification = (if present userVerification then userVerification else None),
            cy_allowCredentialIds = map_option (map wc_id) allowCredentials\<rparr>;
          (challenge, st1) = issueChallenge cfg fr now AUTHENTICATION_PURPOSE data st
      in ((fr_key fr, challenge_expiry cfg now,
           \<lparr>ro_challenge = challenge, ro_rpId = wf_rpId cfg, ro_timeout = override (wf_authenticationTimeoutMs cfg) 60000,
            ro_userVerification = override userVerification (override (wf_userVerification cfg) ''preferred''),
            ro_allowCredentials = map_option (\<lambda>cs. map descriptor_of (filter (\<lambda>c. wc_disabled c \<noteq> Some True) cs)) allowCredentials\<rparr>), st1))"


section \<open>Registration\<close>

definition ascii :: "jsstr \<Rightarrow> string" where
  "ascii s = map (\<lambda>u. char_of (unat u)) s"

definition packed_attestation ::
  "'k webauthn_platform \<Rightarrow> webauthn_config \<Rightarrow> jsstr \<Rightarrow> (cbor, cbor) jsmap \<Rightarrow> auth_data \<Rightarrow> byte list \<Rightarrow> cose_key \<Rightarrow>
     (webauthn_error, attestation_result) result" where
  "packed_attestation W cfg fmt attStmt authData clientDataHash coseKey =
     (if js_has attStmt (CText (js_str ''x5c'')) then
        (if override (wf_attestation cfg) AttNone = AttDirect then Inl AttestationUnsupported
         else Inr \<lparr>ar_fmt = fmt, ar_verified = False, ar_trustPath = js_str ''none''\<rparr>)
      else case js_get attStmt (CText (js_str ''alg'')) of
        Some (CNum alg) \<Rightarrow>
          (case js_get attStmt (CText (js_str ''sig'')) of
             Some (CBytes sig) \<Rightarrow>
               if alg \<noteq> ck_alg coseKey then Inl (Malformed ''self-attestation alg'')
               else rbind (verifyCoseSignature W coseKey sig (concatBytes [ad_bytes authData, clientDataHash])) (\<lambda>valid.
                      if \<not> valid then Inl InvalidSignature
                      else Inr \<lparr>ar_fmt = fmt, ar_verified = True, ar_trustPath = js_str ''self''\<rparr>)
           | _ \<Rightarrow> Inl (Malformed ''no sig''))
      | _ \<Rightarrow> Inl (Malformed ''no alg''))"

definition verifyAttestationStatement ::
  "'k webauthn_platform \<Rightarrow> webauthn_config \<Rightarrow> jsstr \<Rightarrow> (cbor, cbor) jsmap \<Rightarrow> auth_data \<Rightarrow> byte list \<Rightarrow> cose_key \<Rightarrow>
     (webauthn_error, attestation_result) result" where
  "verifyAttestationStatement W cfg fmt attStmt authData clientDataHash coseKey =
     (case wf_verifyAttestation cfg of
        Some custom \<Rightarrow> rbind (custom fmt attStmt authData clientDataHash) (\<lambda>(verified, trustPath).
          Inr \<lparr>ar_fmt = fmt, ar_verified = verified, ar_trustPath = trustPath\<rparr>)
      | None \<Rightarrow>
          if fmt \<notin> set (supportedFormats cfg) then Inl AttestationUnsupported
          else if fmt = js_str ''none'' then
            (if attStmt \<noteq> [] then Inl (Malformed ''attStmt not empty'')
             else Inr \<lparr>ar_fmt = fmt, ar_verified = False, ar_trustPath = js_str ''none''\<rparr>)
          else if fmt = js_str ''packed'' then packed_attestation W cfg fmt attStmt authData clientDataHash coseKey
          else Inl AttestationUnsupported)"

record registration_response =
  rr_clientDataJSON :: jsstr
  rr_attestationObject :: jsstr
  rr_transports :: "string list option"

definition attestation_parts :: "jsstr \<Rightarrow> (webauthn_error, jsstr \<times> (cbor, cbor) jsmap \<times> byte list) result" where
  "attestation_parts encoded =
     rbind (base64_bytes encoded) (\<lambda>bytes.
     rbind (cbor_map_of bytes ''attestationObject'') (\<lambda>m.
       case js_get m (CText (js_str ''fmt'')) of
         Some (CText fmt) \<Rightarrow>
           (case js_get m (CText (js_str ''authData'')) of
              Some (CBytes authData) \<Rightarrow>
                (case js_get m (CText (js_str ''attStmt'')) of
                   Some (CMap attStmt) \<Rightarrow> Inr (fmt, attStmt, authData)
                 | _ \<Rightarrow> Inl (Malformed ''no attStmt''))
            | _ \<Rightarrow> Inl (Malformed ''no authData''))
       | _ \<Rightarrow> Inl (Malformed ''no fmt'')))"

definition expectations :: "webauthn_config \<Rightarrow> string \<Rightarrow> jsstr \<Rightarrow> client_expectations" where
  "expectations cfg ty challenge = \<lparr>ce_type = js_str ty, ce_challenge = challenge, ce_origins = wf_origins cfg,
     ce_allowCrossOrigin = None, ce_topOrigins = None\<rparr>"

definition registration_checks :: "'k webauthn_platform \<Rightarrow> webauthn_config \<Rightarrow> auth_data \<Rightarrow> (webauthn_error, attested_data) result" where
  "registration_checks W cfg d =
     rbind (guard_or (rpIdHashMatches W (ad_rpIdHash d) (wf_rpId cfg)) (OriginMismatch ''rpIdHash'')) (\<lambda>_.
     rbind (guard_or (fl_up (ad_flags d)) (Malformed ''user presence'')) (\<lambda>_.
     rbind (guard_or (\<not> (requireUv cfg \<and> \<not> fl_uv (ad_flags d))) (Malformed ''user verification'')) (\<lambda>_.
     case ad_attested d of
       None \<Rightarrow> Inl (Malformed ''no attested data'')
     | Some a \<Rightarrow>
         rbind (guard_or (fl_at (ad_flags d)) (Malformed ''no attested data'')) (\<lambda>_.
         rbind (guard_or (\<not> (fl_bs (ad_flags d) \<and> \<not> fl_be (ad_flags d))) (Malformed ''backup state'')) (\<lambda>_.
         rbind (guard_or (ck_alg (at_coseKey a) \<in> set (pubKeyCredParams cfg)) (Malformed ''algorithm not offered'')) (\<lambda>_.
           Inr a))))))"

text \<open>What is checked of a registration once its challenge is consumed.\<close>

definition check_registration ::
  "'k webauthn_platform \<Rightarrow> webauthn_config \<Rightarrow> ceremony \<Rightarrow> registration_response \<Rightarrow>
     (webauthn_error, auth_data \<times> attested_data \<times> attestation_result) result" where
  "check_registration W cfg cy resp =
     rbind (base64_bytes (rr_clientDataJSON resp)) (\<lambda>cdBytes.
     rbind (parseClientData cdBytes) (\<lambda>cd.
     rbind (verifyClientData W cd (expectations cfg ''webauthn.create'' (cy_challenge cy))) (\<lambda>_.
     rbind (attestation_parts (rr_attestationObject resp)) (\<lambda>(fmt, attStmt, authDataBytes).
     rbind (parseAuthenticatorData authDataBytes) (\<lambda>d.
     rbind (registration_checks W cfg d) (\<lambda>a.
     rbind (verifyAttestationStatement W cfg fmt attStmt d (wx_sha256 W (cd_bytes cd)) (at_coseKey a)) (\<lambda>att.
       Inr (d, a, att))))))))"

definition new_credential :: "int \<Rightarrow> string \<Rightarrow> auth_data \<Rightarrow> attested_data \<Rightarrow> jsstr \<Rightarrow> string list option \<Rightarrow> webauthn_credential" where
  "new_credential now userId d a fmt transports =
     \<lparr>wc_id = ascii (at_credentialIdBase64Url a), wc_userId = userId,
      wc_publicKeyCose = ascii (base64UrlEncode (at_credentialPublicKey a)), wc_algorithm = ck_alg (at_coseKey a),
      wc_signCount = int (ad_signCount d), wc_backupEligible = fl_be (ad_flags d), wc_backupState = fl_bs (ad_flags d),
      wc_uvInitialized = fl_uv (ad_flags d), wc_aaguid = Some (at_aaguidHex a), wc_transports = transports,
      wc_attestationFormat = Some fmt, wc_createdAt = now, wc_lastUsedAt = None, wc_disabled = None, wc_version = 0\<rparr>"

definition verifyRegistrationResponse ::
  "'k webauthn_platform \<Rightarrow> webauthn_config \<Rightarrow> int \<Rightarrow> registration_response \<Rightarrow> string \<Rightarrow> 'm webauthn_stores \<Rightarrow>
     (webauthn_error, webauthn_credential \<times> attestation_result \<times> flags) result \<times> 'm webauthn_stores" where
  "verifyRegistrationResponse W cfg now resp key st =
     (let (taken, st1) = consumeChallenge now REGISTRATION_PURPOSE key st
      in (rbind taken (\<lambda>cy.
          if \<not> present (cy_userId cy) then Inl (ChallengeNotFound ''no user'')
          else rbind (check_registration W cfg cy resp) (\<lambda>(d, a, att).
            if findWebAuthn (ascii (at_credentialIdBase64Url a)) (ws_credentials st1) \<noteq> None then Inl CredentialExists
            else Inr (new_credential now (the (cy_userId cy)) d a (ar_fmt att) (rr_transports resp), att, ad_flags d))), st1))"

section \<open>Authentication\<close>

record authentication_response =
  au_id :: string
  au_clientDataJSON :: jsstr
  au_authenticatorData :: jsstr
  au_signature :: jsstr
  au_userHandle :: "string option"

record verified_authentication =
  va_credentialId :: string
  va_userId :: string
  va_newSignCount :: int
  va_signCountSupported :: bool
  va_cloneWarning :: bool
  va_backupStateChanged :: bool
  va_flags :: flags
  va_principal :: "unit principal"

text \<open>The credential of a response, with the checks that tie it to the ceremony and the user handle.\<close>

definition select_credential ::
  "ceremony \<Rightarrow> authentication_response \<Rightarrow> 'm webauthn_stores \<Rightarrow> (webauthn_error, webauthn_credential) result" where
  "select_credential cy resp st =
     (case findWebAuthn (au_id resp) (ws_credentials st) of
        None \<Rightarrow> Inl (CredentialNotFound ''not recognised'')
      | Some c \<Rightarrow>
          if wc_disabled c = Some True then Inl (CredentialNotFound ''disabled'')
          else if (case cy_allowCredentialIds cy of None \<Rightarrow> False | Some ids \<Rightarrow> au_id resp \<notin> set ids)
          then Inl (CredentialNotFound ''not allowed'')
          else if present (cy_userId cy) \<and> the (cy_userId cy) \<noteq> wc_userId c then Inl (CredentialNotFound ''other user'')
          else if present (au_userHandle resp) \<and>
            (case findByWebAuthnHandle (the (au_userHandle resp)) (ws_users st) of None \<Rightarrow> True | Some u \<Rightarrow> u_id u \<noteq> wc_userId c)
          then Inl (CredentialNotFound ''user handle'')
          else Inr c)"

definition assertion_checks ::
  "'k webauthn_platform \<Rightarrow> webauthn_config \<Rightarrow> ceremony \<Rightarrow> webauthn_credential \<Rightarrow> auth_data \<Rightarrow> (webauthn_error, unit) result" where
  "assertion_checks W cfg cy c d =
     rbind (guard_or (rpIdHashMatches W (ad_rpIdHash d) (wf_rpId cfg)) (OriginMismatch ''rpIdHash'')) (\<lambda>_.
     rbind (guard_or (fl_up (ad_flags d)) (Malformed ''user presence'')) (\<lambda>_.
     rbind (guard_or (\<not> ((requireUv cfg \<or> cy_userVerification cy = Some ''required'') \<and> \<not> fl_uv (ad_flags d)))
       (Malformed ''user verification'')) (\<lambda>_.
     rbind (guard_or (fl_be (ad_flags d) = wc_backupEligible c) (Malformed ''backup eligibility'')) (\<lambda>_.
       guard_or (\<not> (fl_bs (ad_flags d) \<and> \<not> fl_be (ad_flags d))) (Malformed ''backup state'')))))"

definition sign_count_supported :: "webauthn_credential \<Rightarrow> auth_data \<Rightarrow> bool" where
  "sign_count_supported c d \<longleftrightarrow> \<not> (wc_signCount c = 0 \<and> ad_signCount d = 0)"

definition count_regressed :: "webauthn_credential \<Rightarrow> auth_data \<Rightarrow> bool" where
  "count_regressed c d \<longleftrightarrow> sign_count_supported c d \<and> int (ad_signCount d) \<le> wc_signCount c"

text \<open>Everything up to the compare-and-swap.\<close>

definition check_assertion ::
  "'k webauthn_platform \<Rightarrow> webauthn_config \<Rightarrow> ceremony \<Rightarrow> authentication_response \<Rightarrow> 'm webauthn_stores \<Rightarrow>
     (webauthn_error, webauthn_credential \<times> auth_data) result" where
  "check_assertion W cfg cy resp st =
     rbind (select_credential cy resp st) (\<lambda>c.
     rbind (base64_bytes (au_clientDataJSON resp)) (\<lambda>cdBytes.
     rbind (parseClientData cdBytes) (\<lambda>cd.
     rbind (verifyClientData W cd (expectations cfg ''webauthn.get'' (cy_challenge cy))) (\<lambda>_.
     rbind (base64_bytes (au_authenticatorData resp)) (\<lambda>adBytes.
     rbind (parseAuthenticatorData adBytes) (\<lambda>d.
     rbind (assertion_checks W cfg cy c d) (\<lambda>_.
     rbind (base64_bytes (js_str (wc_publicKeyCose c))) (\<lambda>keyBytes.
     rbind (parseCoseKey keyBytes) (\<lambda>coseKey.
     rbind (base64_bytes (au_signature resp)) (\<lambda>signature.
     rbind (verifyCoseSignature W coseKey signature (concatBytes [adBytes, wx_sha256 W (cd_bytes cd)])) (\<lambda>valid.
     rbind (guard_or valid InvalidSignature) (\<lambda>_.
     rbind (guard_or (\<not> (count_regressed c d \<and> override (wf_onCloneDetected cfg) CloneThrow = CloneThrow)) CloneDetected) (\<lambda>_.
       Inr (c, d))))))))))))))"

text \<open>The compare-and-swap, and what is returned after it.\<close>

definition finish_authentication ::
  "webauthn_credential \<Rightarrow> auth_data \<Rightarrow> int \<Rightarrow> 'm webauthn_stores \<Rightarrow> (webauthn_error, verified_authentication) result \<times> 'm webauthn_stores" where
  "finish_authentication c d now st =
     (let (swapped, credentials) =
            updateSignCount (wc_id c) (int (ad_signCount d)) (wc_version c) now (Some (fl_bs (ad_flags d))) (ws_credentials st);
          st2 = st\<lparr>ws_credentials := credentials\<rparr>
      in if \<not> swapped then (Inl CloneDetected, st2)
         else (Inr \<lparr>va_credentialId = wc_id c, va_userId = wc_userId c, va_newSignCount = int (ad_signCount d),
                 va_signCountSupported = sign_count_supported c d, va_cloneWarning = count_regressed c d,
                 va_backupStateChanged = (fl_bs (ad_flags d) \<noteq> wc_backupState c), va_flags = ad_flags d,
                 va_principal = \<lparr>pr_sub = wc_userId c, pr_method = ''webauthn'', pr_authTime = now, pr_sessionId = None,
                   pr_expiresAt = None,
                   pr_amr = Some (if fl_uv (ad_flags d) then [''hwk'', ''user'', ''mfa''] else [''hwk'']),
                   pr_acr = None, pr_claims = None\<rparr>\<rparr>, st2))"

definition verifyAuthenticationResponse ::
  "'k webauthn_platform \<Rightarrow> webauthn_config \<Rightarrow> int \<Rightarrow> authentication_response \<Rightarrow> string \<Rightarrow> 'm webauthn_stores \<Rightarrow>
     (webauthn_error, verified_authentication) result \<times> 'm webauthn_stores" where
  "verifyAuthenticationResponse W cfg now resp key st =
     (let (taken, st1) = consumeChallenge now AUTHENTICATION_PURPOSE key st
      in case rbind taken (\<lambda>cy. check_assertion W cfg cy resp st1) of
           Inl e \<Rightarrow> (Inl e, st1)
         | Inr (c, d) \<Rightarrow> finish_authentication c d now st1)"

section \<open>Interleaved attempts\<close>

text \<open>Attempts that have taken their challenge, attempts that have checked their assertion and await the swap, and the
  accepted assertions in order.\<close>

record 'm web_world =
  ww_stores :: "'m webauthn_stores"
  ww_taken :: "(ceremony \<times> authentication_response) list"
  ww_checked :: "(webauthn_credential \<times> auth_data) list"
  ww_accepted :: "verified_authentication list"

datatype web_event =
    RegistrationOptions fresh int registration_input
  | AuthenticationOptions fresh int "string option" "string option"
  | VerifyRegistration int registration_response string
  | SaveCredential webauthn_credential
  | TakeChallenge int authentication_response string
  | CheckAssertion nat
  | SwapCount nat int

definition take_challenge :: "int \<Rightarrow> authentication_response \<Rightarrow> string \<Rightarrow> 'm web_world \<Rightarrow> 'm web_world" where
  "take_challenge now resp key w =
     (let (taken, st) = consumeChallenge now AUTHENTICATION_PURPOSE key (ww_stores w); w1 = w\<lparr>ww_stores := st\<rparr>
      in case taken of Inl _ \<Rightarrow> w1 | Inr cy \<Rightarrow> w1\<lparr>ww_taken := ww_taken w @ [(cy, resp)]\<rparr>)"

definition check_taken :: "'k webauthn_platform \<Rightarrow> webauthn_config \<Rightarrow> nat \<Rightarrow> 'm web_world \<Rightarrow> 'm web_world" where
  "check_taken W cfg i w =
     (if i < length (ww_taken w)
      then let w1 = w\<lparr>ww_taken := take i (ww_taken w) @ drop (Suc i) (ww_taken w)\<rparr>
           in case check_assertion W cfg (fst (ww_taken w ! i)) (snd (ww_taken w ! i)) (ww_stores w) of
                Inl _ \<Rightarrow> w1
              | Inr cd \<Rightarrow> w1\<lparr>ww_checked := ww_checked w @ [cd]\<rparr>
      else w)"

definition swap_checked :: "nat \<Rightarrow> int \<Rightarrow> 'm web_world \<Rightarrow> 'm web_world" where
  "swap_checked i now w =
     (if i < length (ww_checked w)
      then let (r, st) = finish_authentication (fst (ww_checked w ! i)) (snd (ww_checked w ! i)) now (ww_stores w);
               w1 = w\<lparr>ww_stores := st, ww_checked := take i (ww_checked w) @ drop (Suc i) (ww_checked w)\<rparr>
           in case r of Inl _ \<Rightarrow> w1 | Inr va \<Rightarrow> w1\<lparr>ww_accepted := ww_accepted w @ [va]\<rparr>
      else w)"

text \<open>The application saves a credential it has registered, under an identifier that is not taken.\<close>

definition web_step :: "text_ops \<Rightarrow> 'k webauthn_platform \<Rightarrow> webauthn_config \<Rightarrow> 'm web_world \<Rightarrow> web_event \<Rightarrow> 'm web_world" where
  "web_step T W cfg w e =
     (case e of
        RegistrationOptions fr now i \<Rightarrow> w\<lparr>ww_stores := snd (generateRegistrationOptions T cfg fr now i (ww_stores w))\<rparr>
      | AuthenticationOptions fr now u v \<Rightarrow> w\<lparr>ww_stores := snd (generateAuthenticationOptions cfg fr now u v (ww_stores w))\<rparr>
      | VerifyRegistration now resp key \<Rightarrow> w\<lparr>ww_stores := snd (verifyRegistrationResponse W cfg now resp key (ww_stores w))\<rparr>
      | SaveCredential c \<Rightarrow>
          (if findWebAuthn (wc_id c) (ws_credentials (ww_stores w)) = None
           then w\<lparr>ww_stores := (ww_stores w)\<lparr>ws_credentials := saveWebAuthn c (ws_credentials (ww_stores w))\<rparr>\<rparr> else w)
      | TakeChallenge now resp key \<Rightarrow> take_challenge now resp key w
      | CheckAssertion i \<Rightarrow> check_taken W cfg i w
      | SwapCount i now \<Rightarrow> swap_checked i now w)"

definition web_run :: "text_ops \<Rightarrow> 'k webauthn_platform \<Rightarrow> webauthn_config \<Rightarrow> web_event list \<Rightarrow> 'm web_world \<Rightarrow> 'm web_world" where
  "web_run T W cfg es w = foldl (web_step T W cfg) w es"

definition web_world_of :: "'m webauthn_stores \<Rightarrow> 'm web_world" where
  "web_world_of st = \<lparr>ww_stores = st, ww_taken = [], ww_checked = [], ww_accepted = []\<rparr>"

section \<open>Challenges are consumed by the attempt\<close>

lemma state_consume_gone: "snd (state_consume now p k st) = js_del (compose p k) st"
  by (auto simp: state_consume_def Let_def map_of_eq_None_iff split: option.splits)

lemma snd_consumeChallenge: "snd (consumeChallenge now p k st) = st\<lparr>ws_state := js_del (compose p k) (ws_state st)\<rparr>"
  by (simp add: consumeChallenge_def case_prod_beta state_consume_gone)

lemma consumeChallenge_missing:
  "js_get (ws_state st) (compose p k) = None \<Longrightarrow> fst (consumeChallenge now p k st) = Inl (ChallengeNotFound ''used'')"
  by (simp add: consumeChallenge_def state_consume_def Let_def)

lemma consumeChallenge_ok:
  assumes "fst (consumeChallenge now p k st) = Inr cy"
  obtains e where "js_get (ws_state st) (compose p k) = Some e" "now < sy_expiresAt e" "sy_data e = cy"
  using assms by (auto simp: consumeChallenge_def state_consume_def Let_def split: option.splits if_splits)

lemma registration_state:
  "snd (verifyRegistrationResponse W cfg now resp key st) = snd (consumeChallenge now REGISTRATION_PURPOSE key st)"
  by (simp add: verifyRegistrationResponse_def case_prod_beta)

lemma authentication_state:
  "ws_state (snd (verifyAuthenticationResponse W cfg now resp key st)) = js_del (compose AUTHENTICATION_PURPOSE key) (ws_state st)"
  by (simp add: verifyAuthenticationResponse_def finish_authentication_def case_prod_beta Let_def snd_consumeChallenge split: sum.splits)


text \<open>The key under which a step stores a challenge.\<close>

definition issued_key :: "web_event \<Rightarrow> string option" where
  "issued_key e = (case e of
     RegistrationOptions fr _ _ \<Rightarrow> Some (compose REGISTRATION_PURPOSE (fr_key fr))
   | AuthenticationOptions fr _ _ _ \<Rightarrow> Some (compose AUTHENTICATION_PURPOSE (fr_key fr))
   | _ \<Rightarrow> None)"

lemma finish_state: "ws_state (snd (finish_authentication c d now st)) = ws_state st"
  by (simp add: finish_authentication_def case_prod_beta Let_def)

lemma web_step_state:
  "js_get (ws_state (ww_stores (web_step T W cfg w e))) k = None \<or>
   js_get (ws_state (ww_stores (web_step T W cfg w e))) k = js_get (ws_state (ww_stores w)) k \<or> issued_key e = Some k"
proof (cases e)
  case (RegistrationOptions fr now i)
  then show ?thesis
    by (auto simp: web_step_def issued_key_def generateRegistrationOptions_def issueChallenge_def state_put_def Let_def split: option.split)
next
  case (AuthenticationOptions fr now u v)
  then show ?thesis
    by (simp add: web_step_def issued_key_def generateAuthenticationOptions_def issueChallenge_def state_put_def Let_def)
next
  case (TakeChallenge now resp key)
  then have "ws_state (ww_stores (web_step T W cfg w e)) = js_del (compose AUTHENTICATION_PURPOSE key) (ws_state (ww_stores w))"
    by (simp add: web_step_def take_challenge_def case_prod_beta Let_def snd_consumeChallenge split: sum.split)
  then show ?thesis by simp
next
  case (SwapCount i now)
  then show ?thesis
    by (simp add: web_step_def swap_checked_def case_prod_beta Let_def finish_state split: sum.split)
qed (simp_all add: web_step_def registration_state snd_consumeChallenge check_taken_def Let_def split: sum.split)

text \<open>Whatever came of an attempt to authenticate with a challenge, and whatever follows, the same challenge is refused,
  as long as its random key is not drawn again.\<close>

theorem challenge_serves_one_attempt:
  assumes "snd (verifyAuthenticationResponse W cfg now resp key st) = ww_stores w"
    and "\<forall>e \<in> set es. issued_key e \<noteq> Some (compose AUTHENTICATION_PURPOSE key)"
  shows "fst (verifyAuthenticationResponse W cfg now' resp' key (ww_stores (web_run T W cfg es w))) = Inl (ChallengeNotFound ''used'')"
proof -
  let ?k = "compose AUTHENTICATION_PURPOSE key"
  have "js_get (ws_state (ww_stores w)) ?k = None"
    using authentication_state [of W cfg now resp key st] assms(1) by simp
  then have "js_get (ws_state (ww_stores (web_run T W cfg es w))) ?k = None"
    using assms(2)
  proof (induction es arbitrary: w)
    case (Cons e es)
    then have "js_get (ws_state (ww_stores (web_step T W cfg w e))) ?k = None"
      using web_step_state [of T W cfg w e ?k] by auto
    with Cons show ?case by (simp add: web_run_def)
  qed (simp add: web_run_def)
  then show ?thesis
    by (simp add: verifyAuthenticationResponse_def case_prod_beta Let_def consumeChallenge_missing rbind_def)
qed

section \<open>What an accepted assertion satisfies\<close>

lemma select_credential_ok:
  assumes "select_credential cy resp st = Inr c"
  shows "findWebAuthn (au_id resp) (ws_credentials st) = Some c \<and> wc_disabled c \<noteq> Some True \<and>
    (\<forall>ids. cy_allowCredentialIds cy = Some ids \<longrightarrow> au_id resp \<in> set ids) \<and>
    (present (cy_userId cy) \<longrightarrow> cy_userId cy = Some (wc_userId c)) \<and>
    (present (au_userHandle resp) \<longrightarrow> (\<exists>u. findByWebAuthnHandle (the (au_userHandle resp)) (ws_users st) = Some u \<and> u_id u = wc_userId c))"
  using assms by (auto simp: select_credential_def present_def split: option.splits if_splits)

lemma finish_authentication_ok:
  assumes "finish_authentication c d now st = (Inr va, st')"
  shows "fst (updateSignCount (wc_id c) (int (ad_signCount d)) (wc_version c) now (Some (fl_bs (ad_flags d))) (ws_credentials st))"
    "ws_credentials st' = snd (updateSignCount (wc_id c) (int (ad_signCount d)) (wc_version c) now (Some (fl_bs (ad_flags d))) (ws_credentials st))"
    "va_credentialId va = wc_id c \<and> va_userId va = wc_userId c \<and> va_newSignCount va = int (ad_signCount d) \<and>
     va_cloneWarning va = count_regressed c d \<and> va_flags va = ad_flags d \<and> pr_sub (va_principal va) = wc_userId c"
  using assms by (auto simp: finish_authentication_def case_prod_beta Let_def split: if_splits)

lemma verifyAuthentication_ok:
  assumes "verifyAuthenticationResponse W cfg now resp key st = (Inr va, st')"
  obtains cy c d where "fst (consumeChallenge now AUTHENTICATION_PURPOSE key st) = Inr cy"
    "check_assertion W cfg cy resp (snd (consumeChallenge now AUTHENTICATION_PURPOSE key st)) = Inr (c, d)"
    "finish_authentication c d now (snd (consumeChallenge now AUTHENTICATION_PURPOSE key st)) = (Inr va, st')"
  using assms by (auto simp: verifyAuthenticationResponse_def case_prod_beta Let_def rbind_eq_Inr split: sum.splits)

lemma check_assertion_ok:
  assumes "check_assertion W cfg cy resp st = Inr (c, d)"
  obtains cdBytes cd adBytes key signature where "select_credential cy resp st = Inr c" "base64UrlDecode (au_clientDataJSON resp) = Inr cdBytes"
    "parseClientData cdBytes = Inr cd" "verifyClientData W cd (expectations cfg ''webauthn.get'' (cy_challenge cy)) = Inr ()"
    "base64UrlDecode (au_authenticatorData resp) = Inr adBytes" "parseAuthenticatorData adBytes = Inr d" "assertion_checks W cfg cy c d = Inr ()"
    "rbind (base64_bytes (js_str (wc_publicKeyCose c))) parseCoseKey = Inr key" "base64UrlDecode (au_signature resp) = Inr signature"
    "verifyCoseSignature W key signature (adBytes @ wx_sha256 W (cd_bytes cd)) = Inr True"
    "\<not> (count_regressed c d \<and> override (wf_onCloneDetected cfg) CloneThrow = CloneThrow)"
proof -
  have b64: "base64_bytes s = Inr b \<longleftrightarrow> base64UrlDecode s = Inr b" for s b
    by (auto simp: base64_bytes_def split: sum.splits)
  show ?thesis
    using assms that by (auto simp: check_assertion_def rbind_eq_Inr concatBytes_concat b64)
qed

text \<open>C27: An assertion is accepted only if it passed every check: its challenge was issued for authentication, had not
  expired and is gone afterwards; the credential is known, enabled, allowed by the ceremony, of its user and of the user
  handle sent along; the client data sent are those of this ceremony and an allowed origin; the authenticator data sent
  are of the relying party, with the user present, verified where the service or the ceremony requires it, the backup
  flags consistent with the credential, and a counter that has not regressed if that is an error; the signature sent is
  by the stored key over both; and the stored counter is now the one that was sent.\<close>

theorem assertion_fully_checked:
  assumes "verifyAuthenticationResponse W cfg now resp key st = (Inr va, st')"
  shows "\<exists>e c cdBytes cd adBytes d coseKey signature.
    js_get (ws_state st) (compose AUTHENTICATION_PURPOSE key) = Some e \<and> now < sy_expiresAt e \<and>
    js_get (ws_state st') (compose AUTHENTICATION_PURPOSE key) = None \<and>
    findWebAuthn (au_id resp) (ws_credentials st) = Some c \<and> wc_disabled c \<noteq> Some True \<and>
    (\<forall>ids. cy_allowCredentialIds (sy_data e) = Some ids \<longrightarrow> au_id resp \<in> set ids) \<and>
    (present (cy_userId (sy_data e)) \<longrightarrow> cy_userId (sy_data e) = Some (wc_userId c)) \<and>
    (present (au_userHandle resp) \<longrightarrow>
      (\<exists>u. findByWebAuthnHandle (the (au_userHandle resp)) (ws_users st) = Some u \<and> u_id u = wc_userId c)) \<and>
    base64UrlDecode (au_clientDataJSON resp) = Inr cdBytes \<and> parseClientData cdBytes = Inr cd \<and>
    verifyClientData W cd (expectations cfg ''webauthn.get'' (cy_challenge (sy_data e))) = Inr () \<and>
    base64UrlDecode (au_authenticatorData resp) = Inr adBytes \<and> parseAuthenticatorData adBytes = Inr d \<and>
    rpIdHashMatches W (ad_rpIdHash d) (wf_rpId cfg) \<and> fl_up (ad_flags d) \<and>
    (requireUv cfg \<or> cy_userVerification (sy_data e) = Some ''required'' \<longrightarrow> fl_uv (ad_flags d)) \<and>
    fl_be (ad_flags d) = wc_backupEligible c \<and> (fl_bs (ad_flags d) \<longrightarrow> fl_be (ad_flags d)) \<and>
    (override (wf_onCloneDetected cfg) CloneThrow = CloneThrow \<longrightarrow>
      int (ad_signCount d) > wc_signCount c \<or> wc_signCount c = 0 \<and> ad_signCount d = 0) \<and>
    rbind (base64_bytes (js_str (wc_publicKeyCose c))) parseCoseKey = Inr coseKey \<and> base64UrlDecode (au_signature resp) = Inr signature \<and>
    verifyCoseSignature W coseKey signature (adBytes @ wx_sha256 W (cd_bytes cd)) = Inr True \<and>
    va_userId va = wc_userId c \<and> pr_sub (va_principal va) = wc_userId c \<and> va_flags va = ad_flags d \<and> va_newSignCount va = int (ad_signCount d) \<and>
    (\<exists>c'. findWebAuthn (wc_id c) (ws_credentials st') = Some c' \<and> wc_signCount c' = int (ad_signCount d))"
proof -
  from verifyAuthentication_ok [OF assms] obtain cy c d where cy: "fst (consumeChallenge now AUTHENTICATION_PURPOSE key st) = Inr cy"
    and check: "check_assertion W cfg cy resp (snd (consumeChallenge now AUTHENTICATION_PURPOSE key st)) = Inr (c, d)"
    and fin: "finish_authentication c d now (snd (consumeChallenge now AUTHENTICATION_PURPOSE key st)) = (Inr va, st')" .
  from consumeChallenge_ok [OF cy] obtain e where e: "js_get (ws_state st) (compose AUTHENTICATION_PURPOSE key) = Some e"
    "now < sy_expiresAt e" "sy_data e = cy" .
  from check_assertion_ok [OF check] obtain cdBytes cd adBytes coseKey signature where
    sel: "select_credential cy resp (snd (consumeChallenge now AUTHENTICATION_PURPOSE key st)) = Inr c" and
    parts: "base64UrlDecode (au_clientDataJSON resp) = Inr cdBytes" "parseClientData cdBytes = Inr cd"
    "verifyClientData W cd (expectations cfg ''webauthn.get'' (cy_challenge cy)) = Inr ()"
    "base64UrlDecode (au_authenticatorData resp) = Inr adBytes" "parseAuthenticatorData adBytes = Inr d"
    "rbind (base64_bytes (js_str (wc_publicKeyCose c))) parseCoseKey = Inr coseKey" "base64UrlDecode (au_signature resp) = Inr signature"
    "verifyCoseSignature W coseKey signature (adBytes @ wx_sha256 W (cd_bytes cd)) = Inr True" and
    count: "\<not> (count_regressed c d \<and> override (wf_onCloneDetected cfg) CloneThrow = CloneThrow)" and
    checks: "assertion_checks W cfg cy c d = Inr ()" .
  from checks have flags: "rpIdHashMatches W (ad_rpIdHash d) (wf_rpId cfg)" "fl_up (ad_flags d)"
    "requireUv cfg \<or> cy_userVerification cy = Some ''required'' \<longrightarrow> fl_uv (ad_flags d)"
    "fl_be (ad_flags d) = wc_backupEligible c" "fl_bs (ad_flags d) \<longrightarrow> fl_be (ad_flags d)"
    by (auto simp: assertion_checks_def rbind_eq_Inr)
  have regress: "override (wf_onCloneDetected cfg) CloneThrow = CloneThrow \<longrightarrow>
      int (ad_signCount d) > wc_signCount c \<or> wc_signCount c = 0 \<and> ad_signCount d = 0"
    using count by (auto simp: count_regressed_def sign_count_supported_def)
  have gone: "js_get (ws_state st') (compose AUTHENTICATION_PURPOSE key) = None"
    using authentication_state [of W cfg now resp key st] assms by simp
  have stored: "\<exists>c'. findWebAuthn (wc_id c) (ws_credentials st') = Some c' \<and> wc_signCount c' = int (ad_signCount d)"
    using finish_authentication_ok(1,2) [OF fin] by (auto simp: updateSignCount_def findWebAuthn_def split: option.splits if_splits)
  note found = select_credential_ok [OF sel, unfolded snd_consumeChallenge, simplified]
  show ?thesis
    using e gone found parts flags regress finish_authentication_ok(3) [OF fin] stored
    by (intro exI [of _ e] exI [of _ c] exI [of _ cdBytes] exI [of _ cd] exI [of _ adBytes] exI [of _ d] exI [of _ coseKey] exI [of _ signature])
      simp
qed

section \<open>The signature counter only grows\<close>

definition credentials_keyed :: "'m webauthn_stores \<Rightarrow> bool" where
  "credentials_keyed st \<longleftrightarrow> (\<forall>k c. findWebAuthn k (ws_credentials st) = Some c \<longrightarrow> wc_id c = k)"

definition grows :: "credential_store \<Rightarrow> credential_store \<Rightarrow> bool" where
  "grows a b \<longleftrightarrow> (\<forall>k c. findWebAuthn k a = Some c \<longrightarrow> (\<exists>c'. findWebAuthn k b = Some c' \<and> wc_signCount c \<le> wc_signCount c' \<and>
     wc_version c \<le> wc_version c' \<and> wc_id c' = wc_id c \<and> wc_userId c' = wc_userId c \<and> wc_publicKeyCose c' = wc_publicKeyCose c))"

lemma grows_refl [simp]: "grows a a"
  by (auto simp: grows_def)

lemma growsD:
  assumes "grows a b" "findWebAuthn k a = Some c"
  obtains c' where "findWebAuthn k b = Some c'" "wc_signCount c \<le> wc_signCount c'" "wc_version c \<le> wc_version c'"
    "wc_id c' = wc_id c" "wc_userId c' = wc_userId c" "wc_publicKeyCose c' = wc_publicKeyCose c"
  using assms by (auto simp: grows_def)

lemma grows_trans:
  assumes "grows a b" "grows b c"
  shows "grows a c"
  unfolding grows_def
proof (intro allI impI)
  fix k x
  assume "findWebAuthn k a = Some x"
  from growsD [OF assms(1) this] obtain y where y: "findWebAuthn k b = Some y" "wc_signCount x \<le> wc_signCount y" "wc_version x \<le> wc_version y"
    "wc_id y = wc_id x" "wc_userId y = wc_userId x" "wc_publicKeyCose y = wc_publicKeyCose x" .
  from growsD [OF assms(2) y(1)] obtain z where "findWebAuthn k c = Some z" "wc_signCount y \<le> wc_signCount z" "wc_version y \<le> wc_version z"
    "wc_id z = wc_id y" "wc_userId z = wc_userId y" "wc_publicKeyCose z = wc_publicKeyCose y" .
  with y show "\<exists>z. findWebAuthn k c = Some z \<and> wc_signCount x \<le> wc_signCount z \<and> wc_version x \<le> wc_version z \<and>
    wc_id z = wc_id x \<and> wc_userId z = wc_userId x \<and> wc_publicKeyCose z = wc_publicKeyCose x" by simp
qed

lemma updateSignCount_cases:
  assumes "updateSignCount i n v now b a = (r, a')"
  obtains (Refused) "\<not> r" "a' = a"
  | (Swapped) c c' where r "findWebAuthn i a = Some c" "wc_version c = v" "wc_signCount c' = n" "wc_version c' = v + 1" "wc_id c' = wc_id c"
      "wc_userId c' = wc_userId c" "wc_publicKeyCose c' = wc_publicKeyCose c"
      "\<And>k. findWebAuthn k a' = (if k = i then Some c' else findWebAuthn k a)"
proof (cases "\<exists>c. findWebAuthn i a = Some c \<and> wc_version c = v")
  case True
  then obtain c where c: "findWebAuthn i a = Some c" "wc_version c = v" by blast
  show ?thesis
    using assms c
    by (intro Swapped [of c "c\<lparr>wc_signCount := n, wc_lastUsedAt := Some now, wc_backupState := override b (wc_backupState c),
        wc_version := wc_version c + 1\<rparr>"]) (auto simp: updateSignCount_def findWebAuthn_def)
next
  case False
  then show ?thesis
    using assms Refused by (auto simp: updateSignCount_def findWebAuthn_def split: option.splits if_splits)
qed

lemma count_accepted:
  assumes "check_assertion W cfg cy resp st = Inr (c, d)" "override (wf_onCloneDetected cfg) CloneThrow = CloneThrow"
  shows "findWebAuthn (au_id resp) (ws_credentials st) = Some c \<and> (wc_signCount c < int (ad_signCount d) \<or> wc_signCount c = 0 \<and> ad_signCount d = 0)"
proof -
  from check_assertion_ok [OF assms(1)] assms(2) have "\<not> count_regressed c d" "select_credential cy resp st = Inr c" by metis+
  then show ?thesis
    using select_credential_ok by (auto simp: count_regressed_def sign_count_supported_def)
qed

text \<open>A checked attempt holds a state its credential once had, the current one if the versions agree; every accepted
  counter is at most the stored one, and those of a credential increase.\<close>

definition increasing :: "verified_authentication \<Rightarrow> verified_authentication \<Rightarrow> bool" where
  "increasing a b \<longleftrightarrow> (va_credentialId a = va_credentialId b \<longrightarrow>
     va_newSignCount a < va_newSignCount b \<or> va_newSignCount a = 0 \<and> va_newSignCount b = 0)"

definition attempt_ok :: "credential_store \<Rightarrow> webauthn_credential \<times> auth_data \<Rightarrow> bool" where
  "attempt_ok cs cd \<longleftrightarrow> (\<exists>c'. findWebAuthn (wc_id (fst cd)) cs = Some c' \<and> wc_version (fst cd) \<le> wc_version c' \<and>
     (wc_version (fst cd) = wc_version c' \<longrightarrow> wc_signCount (fst cd) = wc_signCount c')) \<and>
     (wc_signCount (fst cd) < int (ad_signCount (snd cd)) \<or> wc_signCount (fst cd) = 0 \<and> ad_signCount (snd cd) = 0)"

definition counted_ok :: "credential_store \<Rightarrow> verified_authentication \<Rightarrow> bool" where
  "counted_ok cs va \<longleftrightarrow> 0 \<le> va_newSignCount va \<and> (\<exists>c'. findWebAuthn (va_credentialId va) cs = Some c' \<and> va_newSignCount va \<le> wc_signCount c')"

definition web_inv :: "'m web_world \<Rightarrow> bool" where
  "web_inv w \<longleftrightarrow> credentials_keyed (ww_stores w) \<and> (\<forall>cd \<in> set (ww_checked w). attempt_ok (ws_credentials (ww_stores w)) cd) \<and>
     (\<forall>va \<in> set (ww_accepted w). counted_ok (ws_credentials (ww_stores w)) va) \<and> sorted_wrt increasing (ww_accepted w)"

lemma web_inv_same:
  assumes "web_inv w" "ws_credentials (ww_stores w') = ws_credentials (ww_stores w)" "set (ww_checked w') \<subseteq> set (ww_checked w)" "ww_accepted w' = ww_accepted w"
  shows "web_inv w'"
  using assms by (auto simp: web_inv_def credentials_keyed_def)

text \<open>What a successful swap, and what the saving of a new credential, leaves of the other attempts.\<close>

lemma swap_keeps:
  assumes "findWebAuthn i a = Some c" "wc_version c' = wc_version c + 1" "wc_signCount c \<le> wc_signCount c'" "wc_id c' = wc_id c"
    "wc_userId c' = wc_userId c" "wc_publicKeyCose c' = wc_publicKeyCose c" "\<And>k. findWebAuthn k b = (if k = i then Some c' else findWebAuthn k a)"
  shows "attempt_ok a cd \<Longrightarrow> attempt_ok b cd" "counted_ok a va \<Longrightarrow> counted_ok b va" "grows a b"
  using assms by (fastforce simp: attempt_ok_def counted_ok_def grows_def)+

lemma save_keeps:
  assumes "findWebAuthn (wc_id c) a = None"
  shows "attempt_ok a cd \<Longrightarrow> attempt_ok (saveWebAuthn c a) cd" "counted_ok a va \<Longrightarrow> counted_ok (saveWebAuthn c a) va" "grows a (saveWebAuthn c a)"
  using assms by (auto simp: attempt_ok_def counted_ok_def grows_def findWebAuthn_def saveWebAuthn_def)

lemma options_credentials:
  "ws_credentials (snd (generateRegistrationOptions T cfg fr now i st)) = ws_credentials st"
  "ws_credentials (snd (generateAuthenticationOptions cfg fr now u v st)) = ws_credentials st"
  "ws_credentials (snd (verifyRegistrationResponse W cfg now' resp key st)) = ws_credentials st"
  by (auto simp: generateRegistrationOptions_def generateAuthenticationOptions_def issueChallenge_def registration_state snd_consumeChallenge
      Let_def split: option.split)

lemma web_step_inv:
  assumes "web_inv w" "override (wf_onCloneDetected cfg) CloneThrow = CloneThrow"
  shows "web_inv (web_step T W cfg w e) \<and> grows (ws_credentials (ww_stores w)) (ws_credentials (ww_stores (web_step T W cfg w e)))"
proof (cases e)
  case (SaveCredential c)
  show ?thesis
  proof (cases "findWebAuthn (wc_id c) (ws_credentials (ww_stores w))")
    case None
    then show ?thesis
      using assms(1) save_keeps [OF None] SaveCredential
      by (auto simp: web_step_def web_inv_def credentials_keyed_def) (auto simp: findWebAuthn_def saveWebAuthn_def split: if_splits)
  qed (use assms(1) SaveCredential in \<open>simp add: web_step_def\<close>)
next
  case (TakeChallenge now resp key)
  let ?w' = "web_step T W cfg w e"
  have "ws_credentials (ww_stores ?w') = ws_credentials (ww_stores w)" "ww_checked ?w' = ww_checked w" "ww_accepted ?w' = ww_accepted w"
    using TakeChallenge by (simp_all add: web_step_def take_challenge_def case_prod_beta Let_def snd_consumeChallenge split: sum.split)
  then show ?thesis
    using web_inv_same [OF assms(1), of ?w'] by simp
next
  case (CheckAssertion i)
  let ?w' = "web_step T W cfg w e"
  show ?thesis
  proof (cases "i < length (ww_taken w) \<and> (\<exists>c d. check_assertion W cfg (fst (ww_taken w ! i)) (snd (ww_taken w ! i)) (ww_stores w) = Inr (c, d))")
    case True
    then obtain c d where check: "check_assertion W cfg (fst (ww_taken w ! i)) (snd (ww_taken w ! i)) (ww_stores w) = Inr (c, d)" by blast
    have "wc_id c = au_id (snd (ww_taken w ! i))"
      using count_accepted [OF check assms(2)] assms(1) by (simp add: web_inv_def credentials_keyed_def)
    then have "attempt_ok (ws_credentials (ww_stores w)) (c, d)"
      using count_accepted [OF check assms(2)] by (auto simp: attempt_ok_def)
    then show ?thesis
      using assms(1) True check CheckAssertion by (auto simp: web_step_def check_taken_def Let_def web_inv_def credentials_keyed_def)
  next
    case False
    then have "ww_stores ?w' = ww_stores w" "ww_checked ?w' = ww_checked w" "ww_accepted ?w' = ww_accepted w"
      using CheckAssertion by (auto simp: web_step_def check_taken_def Let_def split: sum.split)
    then show ?thesis
      using web_inv_same [OF assms(1), of ?w'] by simp
  qed
next
  case (SwapCount i now)
  let ?w' = "web_step T W cfg w e"
  show ?thesis
  proof (cases "i < length (ww_checked w)")
    case True
    obtain c d where cd: "ww_checked w ! i = (c, d)" by (cases "ww_checked w ! i")
    have rest: "set (take i (ww_checked w) @ drop (Suc i) (ww_checked w)) \<subseteq> set (ww_checked w)"
      using set_take_subset set_drop_subset by (metis Un_least set_append)
    have ok: "attempt_ok (ws_credentials (ww_stores w)) (c, d)"
      using assms(1) True cd nth_mem unfolding web_inv_def by metis
    obtain r a where up: "updateSignCount (wc_id c) (int (ad_signCount d)) (wc_version c) now (Some (fl_bs (ad_flags d))) (ws_credentials (ww_stores w)) = (r, a)"
      by fastforce
    from up show ?thesis
    proof (cases rule: updateSignCount_cases)
      case Refused
      then have "ws_credentials (ww_stores ?w') = ws_credentials (ww_stores w)" "set (ww_checked ?w') \<subseteq> set (ww_checked w)" "ww_accepted ?w' = ww_accepted w"
        using SwapCount True cd up rest by (simp_all add: web_step_def swap_checked_def finish_authentication_def Let_def)
      then show ?thesis
        using web_inv_same [OF assms(1), of ?w'] by simp
    next
      case (Swapped c0 c')
      have count: "wc_signCount c0 = wc_signCount c" "wc_signCount c < int (ad_signCount d) \<or> wc_signCount c = 0 \<and> ad_signCount d = 0"
        using ok Swapped(2,3) by (auto simp: attempt_ok_def)
      note keeps = swap_keeps [OF Swapped(2) _ _ Swapped(6-8) Swapped(9)]
      have ver: "wc_version c' = wc_version c0 + 1" "wc_signCount c0 \<le> wc_signCount c'"
        using Swapped(3-5) count by auto
      obtain va where w': "ww_accepted ?w' = ww_accepted w @ [va]" "va_credentialId va = wc_id c" "va_newSignCount va = int (ad_signCount d)"
          "ws_credentials (ww_stores ?w') = a" "ww_checked ?w' = take i (ww_checked w) @ drop (Suc i) (ww_checked w)"
        using SwapCount True cd up Swapped(1) by (simp add: web_step_def swap_checked_def finish_authentication_def Let_def)
      have new: "counted_ok a va" "increasing v va" if "v \<in> set (ww_accepted w)" for v
        using assms(1) that Swapped(2,4,9) w'(2,3) count by (fastforce simp: web_inv_def counted_ok_def increasing_def)+
      have new1: "counted_ok a va"
        using Swapped(4,9) w'(2,3) by (simp add: counted_ok_def)
      have "credentials_keyed (ww_stores ?w')"
        using assms(1) Swapped(2,6,9) w'(4) by (auto simp: web_inv_def credentials_keyed_def)
      moreover have "\<forall>x \<in> set (ww_checked ?w'). attempt_ok a x"
        using assms(1) rest keeps(1) [OF ver] w'(5) by (auto simp: web_inv_def)
      moreover have "\<forall>v \<in> set (ww_accepted ?w'). counted_ok a v"
        using assms(1) keeps(2) [OF ver] new1 w'(1) by (auto simp: web_inv_def)
      moreover have "sorted_wrt increasing (ww_accepted ?w')"
        using assms(1) new(2) w'(1) by (simp add: web_inv_def sorted_wrt_append)
      ultimately show ?thesis
        using keeps(3) [OF ver] w'(4) by (simp add: web_inv_def)
    qed
  next
    case False
    then show ?thesis
      using assms(1) SwapCount by (simp add: web_step_def swap_checked_def)
  qed
qed (use web_inv_same [OF assms(1), of "web_step T W cfg w e"] in \<open>simp_all add: web_step_def options_credentials\<close>)

lemma web_run_inv:
  assumes "override (wf_onCloneDetected cfg) CloneThrow = CloneThrow"
  shows "web_inv w \<Longrightarrow> web_inv (web_run T W cfg es w) \<and> grows (ws_credentials (ww_stores w)) (ws_credentials (ww_stores (web_run T W cfg es w)))"
proof (induction es arbitrary: w)
  case (Cons e es)
  then show ?case
    using web_step_inv [OF Cons.prems assms, of T W e] by (auto simp: web_run_def intro: grows_trans)
qed (simp add: web_run_def)

lemma web_inv_start: "credentials_keyed st \<Longrightarrow> web_inv (web_world_of st)"
  by (simp add: web_inv_def web_world_of_def)

text \<open>In every interleaving no credential loses its key or owner, and no signature counter decreases, unless regressions
  are configured to be mere warnings.\<close>

theorem sign_count_never_decreases:
  assumes "credentials_keyed st" "override (wf_onCloneDetected cfg) CloneThrow = CloneThrow"
  shows "grows (ws_credentials st) (ws_credentials (ww_stores (web_run T W cfg es (web_world_of st))))"
  using web_run_inv [OF assms(2) web_inv_start [OF assms(1)], of T W es] by (simp add: web_world_of_def)

text \<open>C7: In every interleaving of attempts, split where they await the stores, with one another and with the issuing of
  challenges, registrations and the saving of new credentials, the accepted assertions of a credential have increasing
  counters, unless its authenticator has none and both are zero: of replays and clones of a counter at most one is
  accepted, however they race.  Regressions are configured to be errors.\<close>

theorem accepted_counts_increase:
  assumes "credentials_keyed st" "override (wf_onCloneDetected cfg) CloneThrow = CloneThrow"
    and "accepted = ww_accepted (web_run T W cfg es (web_world_of st))" "i < j" "j < length accepted"
    and "va_credentialId (accepted ! i) = va_credentialId (accepted ! j)"
  shows "va_newSignCount (accepted ! i) < va_newSignCount (accepted ! j) \<or>
    va_newSignCount (accepted ! i) = 0 \<and> va_newSignCount (accepted ! j) = 0"
proof -
  have "sorted_wrt increasing accepted"
    using web_run_inv [OF assms(2) web_inv_start [OF assms(1)], of T W es] assms(3) by (simp add: web_inv_def)
  then have "increasing (accepted ! i) (accepted ! j)"
    using assms(4,5) by (simp add: sorted_wrt_iff_nth_less)
  then show ?thesis
    using assms(6) by (simp add: increasing_def)
qed

section \<open>Registered keys\<close>

lemma js_str_ascii: "(\<forall>u \<in> set s. unat u < 256) \<Longrightarrow> js_str (ascii s) = s"
proof (induction s)
  case (Cons u s)
  have "of_char (char_of (unat u) :: char) = (of_nat (unat u mod 256) :: 16 word)"
    by (metis of_char_of of_nat_of_char)
  with Cons show ?case by (simp add: js_str_def ascii_def)
qed (simp add: js_str_def ascii_def)

lemma js_str_base64: "js_str (ascii (base64UrlEncode bs)) = base64UrlEncode bs"
proof (rule js_str_ascii)
  have "\<forall>n \<in> set (map unat ALPHABET). n < 256" by (simp add: ALPHABET_nat)
  with set_base64 [of bs] show "\<forall>u \<in> set (base64UrlEncode bs). unat u < 256" by auto
qed

lemma parse_auth_data_key:
  assumes "parseAuthenticatorData bytes = Inr d" "ad_attested d = Some a"
  shows "parseCoseKey (at_credentialPublicKey a) = Inr (at_coseKey a) \<and> at_credentialIdBase64Url a = base64UrlEncode (at_credentialId a)"
proof -
  have "\<exists>off. parse_attested bytes = Inr (a, off)"
    using assms by (cases "parse_attested bytes") (auto simp: parseAuthenticatorData_def Let_def rbind_eq_Inr split: if_splits)
  then show ?thesis
    by (auto simp: parse_attested_def Let_def rbind_eq_Inr)
qed

text \<open>A verified registration yields, for the user of the ceremony, a credential not yet registered whose
  stored key parses to a key of an offered algorithm.\<close>

theorem registered_key_usable:
  assumes "verifyRegistrationResponse W cfg now resp key st = (Inr (c, att, fl), st')"
  shows "\<exists>e coseKey. js_get (ws_state st) (compose REGISTRATION_PURPOSE key) = Some e \<and> now < sy_expiresAt e \<and>
    cy_userId (sy_data e) = Some (wc_userId c) \<and> findWebAuthn (wc_id c) (ws_credentials st) = None \<and>
    rbind (base64_bytes (js_str (wc_publicKeyCose c))) parseCoseKey = Inr coseKey \<and>
    ck_alg coseKey = wc_algorithm c \<and> wc_algorithm c \<in> set (pubKeyCredParams cfg) \<and> fl_up fl \<and> wc_version c = 0"
proof -
  from assms obtain cy d a where cy: "fst (consumeChallenge now REGISTRATION_PURPOSE key st) = Inr cy" and user: "present (cy_userId cy)"
    and check: "check_registration W cfg cy resp = Inr (d, a, att)"
    and new: "findWebAuthn (ascii (at_credentialIdBase64Url a)) (ws_credentials st) = None"
    and c: "c = new_credential now (the (cy_userId cy)) d a (ar_fmt att) (rr_transports resp)" and fl: "fl = ad_flags d"
    by (auto simp: verifyRegistrationResponse_def case_prod_beta Let_def rbind_eq_Inr snd_consumeChallenge split: if_splits)
  from consumeChallenge_ok [OF cy] obtain e where e: "js_get (ws_state st) (compose REGISTRATION_PURPOSE key) = Some e"
    "now < sy_expiresAt e" "sy_data e = cy" .
  from check obtain bytes where d: "parseAuthenticatorData bytes = Inr d" and checks: "registration_checks W cfg d = Inr a"
    by (auto simp: check_registration_def rbind_eq_Inr)
  from checks have a: "ad_attested d = Some a" "ck_alg (at_coseKey a) \<in> set (pubKeyCredParams cfg)" "fl_up (ad_flags d)"
    by (auto simp: registration_checks_def rbind_eq_Inr split: option.splits)
  from parse_auth_data_key [OF d a(1)] have "rbind (base64_bytes (js_str (wc_publicKeyCose c))) parseCoseKey = Inr (at_coseKey a)"
    by (simp add: c new_credential_def js_str_base64 base64_bytes_def rbind_def)
  with e user new a c fl show ?thesis
    by (auto simp: new_credential_def present_def split: option.splits)
qed


section \<open>A ceremony for the examples\<close>

text \<open>An Ed25519 credential with counter 4, a challenge of two bytes, and a platform that verifies everything.\<close>

definition demo_key_bytes :: "byte list" where
  "demo_key_bytes = [0xA4, 1, 1, 3, 0x27, 0x20, 6, 0x21, 0x58, 0x20,
     1, 2, 3, 4, 5, 6, 7, 8, 1, 2, 3, 4, 5, 6, 7, 8, 1, 2, 3, 4, 5, 6, 7, 8, 1, 2, 3, 4, 5, 6, 7, 8]"

definition demo_x :: "byte list" where
  "demo_x = [1, 2, 3, 4, 5, 6, 7, 8, 1, 2, 3, 4, 5, 6, 7, 8, 1, 2, 3, 4, 5, 6, 7, 8, 1, 2, 3, 4, 5, 6, 7, 8]"

definition demo_assertion_data :: "byte \<Rightarrow> byte list" where
  "demo_assertion_data n = replicate 32 9 @ [1, 0, 0, 0, n]"

definition demo_client_text :: jsstr where
  "demo_client_text = js_str ''{\"type\":\"webauthn.get\",\"challenge\":\"Bwc\",\"origin\":\"https://a\"}''"

definition demo_web_platform :: "unit webauthn_platform" where
  "demo_web_platform = demo_platform\<lparr>wx_eddsa := True\<rparr>"

definition demo_config :: webauthn_config where
  "demo_config = \<lparr>wf_rpId = js_str ''a'', wf_rpName = js_str ''A'', wf_origins = [js_str ''https://a''], wf_challengeBytes = None,
     wf_challengeTtlSeconds = None, wf_registrationTimeoutMs = None, wf_authenticationTimeoutMs = None,
     wf_pubKeyCredParams = None, wf_attestation = None, wf_supportedAttestationFormats = None, wf_userVerification = None,
     wf_residentKey = None, wf_requireUserVerification = None, wf_onCloneDetected = None, wf_verifyAttestation = None\<rparr>"

definition demo_passkey :: webauthn_credential where
  "demo_passkey = demo_credential\<lparr>wc_publicKeyCose := ascii (base64UrlEncode demo_key_bytes)\<rparr>"

definition demo_entry :: "string \<Rightarrow> ceremony state_entry" where
  "demo_entry k = \<lparr>sy_purpose = AUTHENTICATION_PURPOSE, sy_key = k,
     sy_data = empty_ceremony\<lparr>cy_challenge := base64UrlEncode [7, 7]\<rparr>, sy_expiresAt = 100\<rparr>"

definition demo_stores :: "unit webauthn_stores" where
  "demo_stores = \<lparr>ws_credentials = saveWebAuthn demo_passkey \<lparr>cs_passwords = [], cs_webauthn = [], cs_apiKeys = []\<rparr>,
     ws_state = state_put (demo_entry ''k1'') (state_put (demo_entry ''k2'') []), ws_users = users_empty\<rparr>"

definition demo_response :: "byte \<Rightarrow> authentication_response" where
  "demo_response n = \<lparr>au_id = ''c'', au_clientDataJSON = base64UrlEncode (TextEncoder_encode demo_client_text),
     au_authenticatorData = base64UrlEncode (demo_assertion_data n), au_signature = base64UrlEncode [1], au_userHandle = None\<rparr>"

lemma demo_key_parses:
  "parseCoseKey demo_key_bytes = Inr \<lparr>ck_kty = 1, ck_alg = - 8, ck_raw = demo_key_bytes, ck_crv = Some 6, ck_x = Some demo_x,
     ck_y = None, ck_n = None, ck_e = None\<rparr>"
proof -
  have "decodeCbor DEFAULTS demo_key_bytes = Inr (CMap [(CNum 1, CNum 1), (CNum 3, CNum (- 8)), (CNum (- 1), CNum 6), (CNum (- 2), CBytes demo_x)])"
    by (simp add: decoder_rules demo_key_bytes_def demo_x_def)
  then show ?thesis
    by (simp add: parseCoseKey_def cbor_map_of_def asCborMap_def numberAt_def bytesAt_def rbind_def)
qed

lemma demo_client_json: "JSON_parse demo_client_text = Some (JObj [(js_str ''type'', JStr (js_str ''webauthn.get'')),
    (js_str ''challenge'', JStr (js_str ''Bwc'')), (js_str ''origin'', JStr (js_str ''https://a''))])"
  by (simp add: demo_client_text_def js_str_def json_rules)


lemma demo_challenge: "base64UrlEncode [7, 7] = js_str ''Bwc''"
  by (simp add: alpha_def ALPHABET_def js_str_def Let_def)

lemma demo_client_parses:
  "\<exists>cd. parseClientData (TextEncoder_encode demo_client_text) = Inr cd \<and> cd_type cd = js_str ''webauthn.get'' \<and>
     cd_challenge cd = js_str ''Bwc'' \<and> cd_origin cd = js_str ''https://a'' \<and> cd_crossOrigin cd = None \<and> cd_topOrigin cd = None"
proof -
  have "decode_fatal (TextEncoder_encode demo_client_text) = Inr demo_client_text"
    by (rule decode_fatal_roundtrip) (simp_all add: demo_client_text_def js_str_def starts_with_bom_def is_high_def is_low_def)
  moreover have "take 3 (TextEncoder_encode demo_client_text) \<noteq> [0xEF, 0xBB, 0xBF]"
    by (simp add: demo_client_text_def js_str_def TextEncoder_encode_def utf8_bytes_def byte_of_def scalar_unit_def is_high_def is_low_def)
  moreover have "take 1 demo_client_text \<noteq> [0xFEFF]" by (simp add: demo_client_text_def js_str_def)
  ultimately show ?thesis
    by (simp add: parseClientData_def demo_client_json text_member_def rbind_def)
qed

lemma demo_assertion_parses:
  "parseAuthenticatorData (demo_assertion_data n) = Inr \<lparr>ad_rpIdHash = replicate 32 9, ad_flags = parseFlags 1,
     ad_signCount = unat n, ad_attested = None, ad_extensions = None, ad_bytes = demo_assertion_data n\<rparr>"
proof -
  have get: "demo_assertion_data n ! 32 = 1" "length (demo_assertion_data n) = 37" by (simp_all add: demo_assertion_data_def nth_append)
  have "js_slice 33 37 (demo_assertion_data n) = [0, 0, 0, n]" "js_slice 0 32 (demo_assertion_data n) = replicate 32 9"
    by (simp_all add: demo_assertion_data_def js_slice_def)
  moreover have "parseFlags 1 = \<lparr>fl_up = True, fl_uv = False, fl_be = False, fl_bs = False, fl_at = False, fl_ed = False, fl_raw = 1\<rparr>"
    by (simp add: parseFlags_def)
  ultimately show ?thesis
    using get by (simp add: parseAuthenticatorData_def rbind_def guard_or_def nat_of_bytes_def)
qed

text \<open>Client data of type \<open>ty\<close> for the challenge of the examples passes.\<close>

lemma demo_client_accepted:
  assumes "cd_type cd = js_str ty" "cd_challenge cd = js_str ''Bwc''" "cd_origin cd = js_str ''https://a''" "cd_crossOrigin cd = None" "cd_topOrigin cd = None"
    and "wf_origins cfg = [js_str ''https://a'']"
  shows "verifyClientData demo_web_platform cd (expectations cfg ty (base64UrlEncode [7, 7])) = Inr ()"
proof -
  have "base64UrlDecode (js_str ''Bwc'') = Inr [7, 7]" using decode_encode [of "[7, 7]"] unfolding demo_challenge .
  moreover have "wx_origin demo_web_platform (js_str ''https://a'') = Some (js_str ''https://a'')" "js_str ''https://a'' \<noteq> []"
    by (simp_all add: demo_web_platform_def demo_platform_def js_str_def)
  ultimately show ?thesis
    unfolding demo_challenge
    by (simp add: verifyClientData_def assms expectations_def challenge_pair_def rbind_def guard_or_def normalizeOrigin_def map_filter_def)
qed

lemma demo_check:
  assumes "findWebAuthn ''c'' (ws_credentials st) = Some c" "wc_id c = ''c''" "wc_disabled c = None" "\<not> wc_backupEligible c"
    "wc_publicKeyCose c = wc_publicKeyCose demo_passkey" "wc_signCount c < int (unat n)"
  shows "check_assertion demo_web_platform demo_config (empty_ceremony\<lparr>cy_challenge := base64UrlEncode [7, 7]\<rparr>) (demo_response n) st =
    Inr (c, \<lparr>ad_rpIdHash = replicate 32 9, ad_flags = parseFlags 1, ad_signCount = unat n, ad_attested = None, ad_extensions = None,
      ad_bytes = demo_assertion_data n\<rparr>)"
proof -
  obtain cd where cd: "parseClientData (TextEncoder_encode demo_client_text) = Inr cd" "cd_type cd = js_str ''webauthn.get''"
    "cd_challenge cd = js_str ''Bwc''" "cd_origin cd = js_str ''https://a''" "cd_crossOrigin cd = None" "cd_topOrigin cd = None"
    using demo_client_parses by blast
  define d where "d = \<lparr>ad_rpIdHash = replicate 32 9, ad_flags = parseFlags 1, ad_signCount = unat n, ad_attested = None,
    ad_extensions = None, ad_bytes = demo_assertion_data n\<rparr>"
  have fl: "parseFlags 1 = \<lparr>fl_up = True, fl_uv = False, fl_be = False, fl_bs = False, fl_at = False, fl_ed = False, fl_raw = 1\<rparr>"
    by (simp add: parseFlags_def)
  have select: "select_credential (empty_ceremony\<lparr>cy_challenge := base64UrlEncode [7, 7]\<rparr>) (demo_response n) st = Inr c"
    using assms by (simp add: select_credential_def empty_ceremony_def demo_response_def present_def)
  have client: "verifyClientData demo_web_platform cd (expectations demo_config ''webauthn.get'' (base64UrlEncode [7, 7])) = Inr ()"
    by (rule demo_client_accepted) (simp_all add: cd demo_config_def)
  have checks: "assertion_checks demo_web_platform demo_config (empty_ceremony\<lparr>cy_challenge := base64UrlEncode [7, 7]\<rparr>) c d = Inr ()"
    using assms(4) by (simp add: assertion_checks_def rpIdHashMatches_def demo_web_platform_def demo_platform_def rbind_def guard_or_def d_def fl
        requireUv_def demo_config_def empty_ceremony_def)
  have key: "base64_bytes (js_str (wc_publicKeyCose c)) = Inr demo_key_bytes"
    by (simp add: assms(5) demo_passkey_def js_str_base64 base64_bytes_def)
  have sig: "verifyCoseSignature demo_web_platform \<lparr>ck_kty = 1, ck_alg = - 8, ck_raw = demo_key_bytes, ck_crv = Some 6, ck_x = Some demo_x,
     ck_y = None, ck_n = None, ck_e = None\<rparr> s m = Inr True" for s m
    by (simp add: verifyCoseSignature_def importCoseKey_def import_jwk_def run_verify_def demo_web_platform_def demo_platform_def rbind_def demo_x_def)
  have count: "\<not> count_regressed c d" using assms(6) by (simp add: count_regressed_def d_def)
  have b64: "base64_bytes (base64UrlEncode bs) = Inr bs" for bs by (simp add: base64_bytes_def)
  have resp: "au_clientDataJSON (demo_response n) = base64UrlEncode (TextEncoder_encode demo_client_text)"
    "au_authenticatorData (demo_response n) = base64UrlEncode (demo_assertion_data n)" "au_signature (demo_response n) = base64UrlEncode [1]"
    by (simp_all add: demo_response_def)
  show ?thesis
    unfolding check_assertion_def select resp b64 d_def [symmetric]
    using client checks key count
    by (simp add: rbind_def cd(1) demo_assertion_parses d_def [symmetric] demo_key_parses sig guard_or_def
        del: base64UrlEncode.simps)
qed


definition demo_after :: "byte \<Rightarrow> string \<Rightarrow> unit webauthn_stores \<Rightarrow> (webauthn_error, verified_authentication) result \<times> unit webauthn_stores" where
  "demo_after n k st = verifyAuthenticationResponse demo_web_platform demo_config 50 (demo_response n) k st"

lemma demo_accept:
  assumes "findWebAuthn ''c'' (ws_credentials st) = Some c" "wc_id c = ''c''" "wc_disabled c = None" "\<not> wc_backupEligible c"
    "wc_publicKeyCose c = wc_publicKeyCose demo_passkey" "wc_signCount c < int (unat n)"
    and "js_get (ws_state st) (compose AUTHENTICATION_PURPOSE k) = Some (demo_entry k)"
  shows "\<exists>va c'. demo_after n k st = (Inr va, snd (demo_after n k st)) \<and> va_newSignCount va = int (unat n) \<and>
    findWebAuthn ''c'' (ws_credentials (snd (demo_after n k st))) = Some c' \<and> wc_id c' = ''c'' \<and> wc_disabled c' = None \<and>
    \<not> wc_backupEligible c' \<and> wc_publicKeyCose c' = wc_publicKeyCose demo_passkey \<and> wc_signCount c' = int (unat n) \<and>
    ws_state (snd (demo_after n k st)) = js_del (compose AUTHENTICATION_PURPOSE k) (ws_state st)"
proof -
  have taken: "consumeChallenge 50 AUTHENTICATION_PURPOSE k st =
    (Inr (empty_ceremony\<lparr>cy_challenge := base64UrlEncode [7, 7]\<rparr>), st\<lparr>ws_state := js_del (compose AUTHENTICATION_PURPOSE k) (ws_state st)\<rparr>)"
    by (simp add: consumeChallenge_def state_consume_def assms(7) demo_entry_def Let_def del: base64UrlEncode.simps)
  have check: "check_assertion demo_web_platform demo_config (empty_ceremony\<lparr>cy_challenge := base64UrlEncode [7, 7]\<rparr>) (demo_response n)
      (st\<lparr>ws_state := js_del (compose AUTHENTICATION_PURPOSE k) (ws_state st)\<rparr>) =
    Inr (c, \<lparr>ad_rpIdHash = replicate 32 9, ad_flags = parseFlags 1, ad_signCount = unat n, ad_attested = None, ad_extensions = None,
      ad_bytes = demo_assertion_data n\<rparr>)"
    using assms by (intro demo_check) simp_all
  show ?thesis
    using assms(1-5)
    by (simp add: demo_after_def verifyAuthenticationResponse_def finish_authentication_def taken rbind_def check updateSignCount_def findWebAuthn_def Let_def
        del: base64UrlEncode.simps)
qed

lemma demo_first:
  "\<exists>va. demo_after 5 ''k1'' demo_stores = (Inr va, snd (demo_after 5 ''k1'' demo_stores)) \<and> va_newSignCount va = 5"
  using demo_accept [of demo_stores demo_passkey 5 "''k1''"]
  by (auto simp: demo_stores_def findWebAuthn_def saveWebAuthn_def demo_passkey_def demo_credential_def state_put_def demo_entry_def compose_def)

lemma demo_second:
  "\<exists>va1 st1 va2 st2. demo_after 5 ''k1'' demo_stores = (Inr va1, st1) \<and> demo_after 6 ''k2'' st1 = (Inr va2, st2)"
proof -
  have "\<exists>c. findWebAuthn ''c'' (ws_credentials (snd (demo_after 5 ''k1'' demo_stores))) = Some c \<and> wc_id c = ''c'' \<and> wc_disabled c = None \<and>
    \<not> wc_backupEligible c \<and> wc_publicKeyCose c = wc_publicKeyCose demo_passkey \<and> wc_signCount c = 5 \<and>
    ws_state (snd (demo_after 5 ''k1'' demo_stores)) = js_del (compose AUTHENTICATION_PURPOSE ''k1'') (ws_state demo_stores)"
    using demo_accept [of demo_stores demo_passkey 5 "''k1''"]
    by (auto simp: demo_stores_def findWebAuthn_def saveWebAuthn_def demo_passkey_def demo_credential_def state_put_def demo_entry_def compose_def)
  moreover have "js_get (js_del (compose AUTHENTICATION_PURPOSE ''k1'') (ws_state demo_stores)) (compose AUTHENTICATION_PURPOSE ''k2'') = Some (demo_entry ''k2'')"
    by (simp add: demo_stores_def state_put_def demo_entry_def compose_def)
  ultimately obtain c where "findWebAuthn ''c'' (ws_credentials (snd (demo_after 5 ''k1'' demo_stores))) = Some c" "wc_id c = ''c''"
    "wc_disabled c = None" "\<not> wc_backupEligible c" "wc_publicKeyCose c = wc_publicKeyCose demo_passkey" "wc_signCount c < int (unat (6 :: byte))"
    "js_get (ws_state (snd (demo_after 5 ''k1'' demo_stores))) (compose AUTHENTICATION_PURPOSE ''k2'') = Some (demo_entry ''k2'')"
    by auto
  from demo_accept [OF this] demo_first show ?thesis by metis
qed

lemma demo_keyed: "credentials_keyed demo_stores"
  by (auto simp: credentials_keyed_def demo_stores_def findWebAuthn_def saveWebAuthn_def demo_passkey_def split: if_splits)

lemma challenge_serves_one_attempt_witness:
  "fst (demo_after 6 ''k1'' (ww_stores (web_run demo_text demo_web_platform demo_config [] (web_world_of (snd (demo_after 5 ''k1'' demo_stores)))))) =
    Inl (ChallengeNotFound ''used'')"
  unfolding demo_after_def by (rule challenge_serves_one_attempt) (simp_all add: web_world_of_def)

lemma assertion_fully_checked_witness:
  "\<exists>c. findWebAuthn ''c'' (ws_credentials demo_stores) = Some c \<and> wc_disabled c \<noteq> Some True"
proof -
  from demo_first obtain va st1 where "verifyAuthenticationResponse demo_web_platform demo_config 50 (demo_response 5) ''k1'' demo_stores = (Inr va, st1)"
    unfolding demo_after_def by metis
  from assertion_fully_checked [OF this] show ?thesis by (simp add: demo_response_def) blast
qed

text \<open>An attempt that nothing interferes with is the operation.\<close>

lemma serial_attempt:
  assumes "verifyAuthenticationResponse W cfg now resp key (ww_stores w) = (Inr va, st')" "ww_taken w = []" "ww_checked w = []"
  shows "web_run T W cfg [TakeChallenge now resp key, CheckAssertion 0, SwapCount 0 now] w =
    w\<lparr>ww_stores := st', ww_taken := [], ww_checked := [], ww_accepted := ww_accepted w @ [va]\<rparr>"
proof -
  from verifyAuthentication_ok [OF assms(1)] obtain cy c d where cy: "fst (consumeChallenge now AUTHENTICATION_PURPOSE key (ww_stores w)) = Inr cy"
    "check_assertion W cfg cy resp (snd (consumeChallenge now AUTHENTICATION_PURPOSE key (ww_stores w))) = Inr (c, d)"
    "finish_authentication c d now (snd (consumeChallenge now AUTHENTICATION_PURPOSE key (ww_stores w))) = (Inr va, st')" .
  then show ?thesis
    using assms(2,3) by (simp add: web_run_def web_step_def take_challenge_def check_taken_def swap_checked_def case_prod_beta Let_def)
qed

lemma accepted_id:
  assumes "verifyAuthenticationResponse W cfg now resp key st = (Inr va, st')" "credentials_keyed st"
    "override (wf_onCloneDetected cfg) CloneThrow = CloneThrow"
  shows "va_credentialId va = au_id resp"
proof -
  from verifyAuthentication_ok [OF assms(1)] obtain cy c d where
    "check_assertion W cfg cy resp (snd (consumeChallenge now AUTHENTICATION_PURPOSE key st)) = Inr (c, d)"
    "finish_authentication c d now (snd (consumeChallenge now AUTHENTICATION_PURPOSE key st)) = (Inr va, st')" .
  from finish_authentication_ok(3) [OF this(2)] count_accepted [OF this(1) assms(3)] assms(2) show ?thesis
    by (simp add: snd_consumeChallenge credentials_keyed_def)
qed

lemma demo_throws: "override (wf_onCloneDetected demo_config) CloneThrow = CloneThrow"
  by (simp add: demo_config_def override_def)

definition demo_attempt :: "byte \<Rightarrow> string \<Rightarrow> web_event list" where
  "demo_attempt n k = [TakeChallenge 50 (demo_response n) k, CheckAssertion 0, SwapCount 0 50]"

lemma sign_count_never_decreases_witness:
  "grows (ws_credentials demo_stores)
    (ws_credentials (ww_stores (web_run demo_text demo_web_platform demo_config (demo_attempt 5 ''k1'') (web_world_of demo_stores))))"
  by (rule sign_count_never_decreases [OF demo_keyed demo_throws])

lemma accepted_counts_increase_witness:
  "\<exists>va1 va2. ww_accepted (web_run demo_text demo_web_platform demo_config (demo_attempt 5 ''k1'' @ demo_attempt 6 ''k2'') (web_world_of demo_stores)) = [va1, va2] \<and>
     (va_newSignCount va1 < va_newSignCount va2 \<or> va_newSignCount va1 = 0 \<and> va_newSignCount va2 = 0)"
proof -
  from demo_second obtain va1 st1 va2 st2 where run: "verifyAuthenticationResponse demo_web_platform demo_config 50 (demo_response 5) ''k1'' demo_stores = (Inr va1, st1)"
      "verifyAuthenticationResponse demo_web_platform demo_config 50 (demo_response 6) ''k2'' st1 = (Inr va2, st2)"
    unfolding demo_after_def by blast
  let ?w1 = "web_run demo_text demo_web_platform demo_config (demo_attempt 5 ''k1'') (web_world_of demo_stores)"
  have w1: "?w1 = \<lparr>ww_stores = st1, ww_taken = [], ww_checked = [], ww_accepted = [va1]\<rparr>"
    unfolding demo_attempt_def by (subst serial_attempt) (use run(1) in \<open>simp_all add: web_world_of_def\<close>)
  then have keyed: "credentials_keyed st1"
    using web_run_inv [OF demo_throws web_inv_start [OF demo_keyed], of demo_text demo_web_platform "demo_attempt 5 ''k1''"] by (simp add: web_inv_def)
  have "web_run demo_text demo_web_platform demo_config (demo_attempt 6 ''k2'') ?w1 =
      \<lparr>ww_stores = st2, ww_taken = [], ww_checked = [], ww_accepted = [va1, va2]\<rparr>"
    unfolding w1 unfolding demo_attempt_def by (subst serial_attempt) (use run(2) in simp_all)
  then have acc: "[va1, va2] = ww_accepted (web_run demo_text demo_web_platform demo_config (demo_attempt 5 ''k1'' @ demo_attempt 6 ''k2'') (web_world_of demo_stores))"
    by (simp add: web_run_def)
  have "va_credentialId va1 = va_credentialId va2"
    using accepted_id [OF run(1) demo_keyed demo_throws] accepted_id [OF run(2) keyed demo_throws] by (simp add: demo_response_def)
  with accepted_counts_increase [OF demo_keyed demo_throws acc, of 0 1] acc show ?thesis by (metis One_nat_def Suc_1 length_Cons lessI list.size(3) nth_Cons_0 nth_Cons_Suc zero_less_one)
qed


definition demo_registration_data :: "byte list" where
  "demo_registration_data = replicate 32 9 @ [0x41, 0, 0, 0, 1] @ replicate 16 0 @ [0, 1, 0x2A] @ demo_key_bytes"

definition demo_attestation_object :: "byte list" where
  "demo_attestation_object = [0xA3, 0x63, 0x66, 0x6D, 0x74, 0x64, 0x6E, 0x6F, 0x6E, 0x65, 0x67, 0x61, 0x74, 0x74, 0x53, 0x74, 0x6D, 0x74, 0xA0,
     0x68, 0x61, 0x75, 0x74, 0x68, 0x44, 0x61, 0x74, 0x61, 0x58, 98] @ demo_registration_data"

definition demo_create_text :: jsstr where
  "demo_create_text = js_str ''{\"type\":\"webauthn.create\",\"challenge\":\"Bwc\",\"origin\":\"https://a\"}''"

definition demo_create_config :: webauthn_config where
  "demo_create_config = demo_config\<lparr>wf_pubKeyCredParams := Some [- 8]\<rparr>"

definition demo_registration :: registration_response where
  "demo_registration = \<lparr>rr_clientDataJSON = base64UrlEncode (TextEncoder_encode demo_create_text),
     rr_attestationObject = base64UrlEncode demo_attestation_object, rr_transports = None\<rparr>"

definition demo_create_stores :: "unit webauthn_stores" where
  "demo_create_stores = \<lparr>ws_credentials = \<lparr>cs_passwords = [], cs_webauthn = [], cs_apiKeys = []\<rparr>,
     ws_state = state_put \<lparr>sy_purpose = REGISTRATION_PURPOSE, sy_key = ''k'',
       sy_data = empty_ceremony\<lparr>cy_userId := Some ''u'', cy_challenge := base64UrlEncode [7, 7]\<rparr>, sy_expiresAt = 100\<rparr> [],
     ws_users = users_empty\<rparr>"

lemma demo_attestation_decodes: "decodeCbor DEFAULTS demo_attestation_object = Inr (CMap [(CText (js_str ''fmt''), CText (js_str ''none'')),
    (CText (js_str ''attStmt''), CMap []), (CText (js_str ''authData''), CBytes demo_registration_data)])"
  by (simp add: decoder_rules demo_attestation_object_def demo_registration_data_def demo_key_bytes_def js_str_def)


definition demo_attested :: attested_data where
  "demo_attested = \<lparr>at_aaguid = replicate 16 0, at_aaguidHex = toHex (replicate 16 0), at_credentialId = [0x2A],
     at_credentialIdBase64Url = base64UrlEncode [0x2A], at_credentialPublicKey = demo_key_bytes,
     at_coseKey = \<lparr>ck_kty = 1, ck_alg = - 8, ck_raw = demo_key_bytes, ck_crv = Some 6, ck_x = Some demo_x,
       ck_y = None, ck_n = None, ck_e = None\<rparr>\<rparr>"

lemma demo_registration_bytes:
  "demo_registration_data = [9, 9, 9, 9, 9, 9, 9, 9, 9, 9, 9, 9, 9, 9, 9, 9, 9, 9, 9, 9, 9, 9, 9, 9, 9, 9, 9, 9, 9, 9, 9, 9,
     0x41, 0, 0, 0, 1, 0, 0, 0, 0, 0, 0, 0, 0, 0, 0, 0, 0, 0, 0, 0, 0, 0, 1, 0x2A, 0xA4, 1, 1, 3, 0x27, 0x20, 6, 0x21, 0x58, 0x20,
     1, 2, 3, 4, 5, 6, 7, 8, 1, 2, 3, 4, 5, 6, 7, 8, 1, 2, 3, 4, 5, 6, 7, 8, 1, 2, 3, 4, 5, 6, 7, 8]"
  by (simp add: demo_registration_data_def demo_key_bytes_def numeral_eq_Suc)

lemma demo_attested_parses: "parse_attested demo_registration_data = Inr (demo_attested, 98)"
proof -
  have len: "length demo_registration_data = 98" by (simp add: demo_registration_data_def demo_key_bytes_def)
  have slices: "js_slice 37 53 demo_registration_data = replicate 16 0" "js_slice 53 55 demo_registration_data = [0, 1]"
    "js_slice 55 56 demo_registration_data = [0x2A]" "js_slice 56 98 demo_registration_data = demo_key_bytes"
    by (simp_all add: demo_registration_data_def demo_key_bytes_def js_slice_def)
  have "decode_at demo_registration_data 56 =
    Inr (CMap [(CNum 1, CNum 1), (CNum 3, CNum (- 8)), (CNum (- 1), CNum 6), (CNum (- 2), CBytes demo_x)], 42)"
    unfolding demo_registration_bytes by (simp add: decode_at_def decoder_rules demo_x_def)
  with slices len demo_key_parses show ?thesis
    by (simp add: parse_attested_def rbind_def guard_or_def Let_def nat_of_bytes_def demo_attested_def del: base64UrlEncode.simps)
qed

lemma demo_registration_parses:
  "parseAuthenticatorData demo_registration_data = Inr \<lparr>ad_rpIdHash = replicate 32 9, ad_flags = parseFlags 0x41,
     ad_signCount = Suc 0, ad_attested = Some demo_attested, ad_extensions = None, ad_bytes = demo_registration_data\<rparr>"
proof -
  have get: "demo_registration_data ! 32 = 0x41" "length demo_registration_data = 98"
    by (simp_all add: demo_registration_data_def demo_key_bytes_def nth_append)
  have "js_slice 33 37 demo_registration_data = [0, 0, 0, 1]" "js_slice 0 32 demo_registration_data = replicate 32 9"
    by (simp_all add: demo_registration_data_def js_slice_def)
  moreover have "parseFlags 0x41 = \<lparr>fl_up = True, fl_uv = False, fl_be = False, fl_bs = False, fl_at = True, fl_ed = False, fl_raw = 0x41\<rparr>"
    by (simp add: parseFlags_def)
  ultimately show ?thesis
    using get by (simp add: parseAuthenticatorData_def rbind_def guard_or_def nat_of_bytes_def demo_attested_parses)
qed

lemma demo_create_parses:
  "\<exists>cd. parseClientData (TextEncoder_encode demo_create_text) = Inr cd \<and> cd_type cd = js_str ''webauthn.create'' \<and>
     cd_challenge cd = js_str ''Bwc'' \<and> cd_origin cd = js_str ''https://a'' \<and> cd_crossOrigin cd = None \<and> cd_topOrigin cd = None"
proof -
  have "decode_fatal (TextEncoder_encode demo_create_text) = Inr demo_create_text"
    by (rule decode_fatal_roundtrip) (simp_all add: demo_create_text_def js_str_def starts_with_bom_def is_high_def is_low_def)
  moreover have "take 3 (TextEncoder_encode demo_create_text) \<noteq> [0xEF, 0xBB, 0xBF]"
    by (simp add: demo_create_text_def js_str_def TextEncoder_encode_def utf8_bytes_def byte_of_def scalar_unit_def is_high_def is_low_def)
  moreover have "take 1 demo_create_text \<noteq> [0xFEFF]" by (simp add: demo_create_text_def js_str_def)
  moreover have "JSON_parse demo_create_text = Some (JObj [(js_str ''type'', JStr (js_str ''webauthn.create'')),
    (js_str ''challenge'', JStr (js_str ''Bwc'')), (js_str ''origin'', JStr (js_str ''https://a''))])"
    by (simp add: demo_create_text_def js_str_def json_rules)
  ultimately show ?thesis
    by (simp add: parseClientData_def text_member_def rbind_def)
qed

lemma demo_registration_accepted:
  "\<exists>r st'. verifyRegistrationResponse demo_web_platform demo_create_config 50 demo_registration ''k'' demo_create_stores = (Inr r, st')"
proof -
  obtain cd where cd: "parseClientData (TextEncoder_encode demo_create_text) = Inr cd" "cd_type cd = js_str ''webauthn.create''"
    "cd_challenge cd = js_str ''Bwc''" "cd_origin cd = js_str ''https://a''" "cd_crossOrigin cd = None" "cd_topOrigin cd = None"
    using demo_create_parses by blast
  have client: "verifyClientData demo_web_platform cd (expectations demo_create_config ''webauthn.create'' (base64UrlEncode [7, 7])) = Inr ()"
    by (rule demo_client_accepted) (simp_all add: cd demo_create_config_def demo_config_def)
  have taken: "consumeChallenge 50 REGISTRATION_PURPOSE ''k'' demo_create_stores =
    (Inr (empty_ceremony\<lparr>cy_userId := Some ''u'', cy_challenge := base64UrlEncode [7, 7]\<rparr>), demo_create_stores\<lparr>ws_state := []\<rparr>)"
    by (simp add: consumeChallenge_def state_consume_def demo_create_stores_def state_put_def compose_def Let_def del: base64UrlEncode.simps)
  have parts: "attestation_parts (base64UrlEncode demo_attestation_object) = Inr (js_str ''none'', [], demo_registration_data)"
    by (simp add: attestation_parts_def base64_bytes_def cbor_map_of_def demo_attestation_decodes asCborMap_def rbind_def)
  have checks: "registration_checks demo_web_platform demo_create_config \<lparr>ad_rpIdHash = replicate 32 9, ad_flags = parseFlags 0x41,
     ad_signCount = Suc 0, ad_attested = Some demo_attested, ad_extensions = None, ad_bytes = demo_registration_data\<rparr> = Inr demo_attested"
    by (simp add: registration_checks_def rpIdHashMatches_def demo_web_platform_def demo_platform_def rbind_def guard_or_def parseFlags_def
        requireUv_def demo_create_config_def demo_config_def demo_attested_def pubKeyCredParams_def override_def)
  have att: "verifyAttestationStatement demo_web_platform demo_create_config (js_str ''none'') [] d h k =
    Inr \<lparr>ar_fmt = js_str ''none'', ar_verified = False, ar_trustPath = js_str ''none''\<rparr>" for d h k
    by (simp add: verifyAttestationStatement_def demo_create_config_def demo_config_def supportedFormats_def override_def)
  have check: "check_registration demo_web_platform demo_create_config (empty_ceremony\<lparr>cy_userId := Some ''u'', cy_challenge := base64UrlEncode [7, 7]\<rparr>)
      demo_registration = Inr (\<lparr>ad_rpIdHash = replicate 32 9, ad_flags = parseFlags 0x41, ad_signCount = Suc 0,
        ad_attested = Some demo_attested, ad_extensions = None, ad_bytes = demo_registration_data\<rparr>, demo_attested,
        \<lparr>ar_fmt = js_str ''none'', ar_verified = False, ar_trustPath = js_str ''none''\<rparr>)"
    using client
    by (simp add: check_registration_def demo_registration_def base64_bytes_def cd(1) parts demo_registration_parses checks att rbind_def
        del: base64UrlEncode.simps)
  show ?thesis
    unfolding verifyRegistrationResponse_def taken case_prod_conv Let_def
    using check by (simp add: rbind_def present_def findWebAuthn_def demo_create_stores_def del: base64UrlEncode.simps)
qed

lemma registered_key_usable_witness:
  "\<exists>c att fl st'. verifyRegistrationResponse demo_web_platform demo_create_config 50 demo_registration ''k'' demo_create_stores = (Inr (c, att, fl), st') \<and>
     wc_algorithm c \<in> set (pubKeyCredParams demo_create_config)"
proof -
  from demo_registration_accepted obtain c att fl st' where
    run: "verifyRegistrationResponse demo_web_platform demo_create_config 50 demo_registration ''k'' demo_create_stores = (Inr (c, att, fl), st')"
    by (metis prod_cases3)
  from registered_key_usable [OF run] run show ?thesis by blast
qed

end
