(* ===== verification/Authz.thy ===== *)
theory Authz
  imports Json Strings
begin

text \<open>
  Resource policies: \<^verbatim>\<open>di-framework-authz/src/evaluator.ts\<close>, \<^verbatim>\<open>registry.ts\<close> and \<^verbatim>\<open>manager.ts\<close>.

  JSON values are those of theory Json, \<open>None\<close> being \<^verbatim>\<open>undefined\<close>.  A class is an identity with a
  name; the locale order of \<^verbatim>\<open>localeCompare\<close> is an argument.  The lemmas show that a decision depends
  only on which rules apply and never on their order, that an applicable denial always wins, what a
  compiled document guarantees, and that the manager denies whatever it cannot load.
\<close>

section \<open>Documents\<close>

datatype condition =
    OwnerCond jsstr jsstr
  | HasRole "jsstr list"
  | HasScope "jsstr list"
  | EqualsCond jsstr json

datatype effect = Allow | Deny

record policy_rule =
  ru_id :: jsstr
  ru_effect :: effect
  ru_actions :: "jsstr list"
  ru_conditions :: "condition list"

record resource_policy =
  po_name :: jsstr
  po_resource :: jsstr
  po_rules :: "policy_rule list"

type_synonym policy_document = "resource_policy list"

record policy_subject =
  su_id :: "jsstr option"
  su_roles :: "jsstr list"
  su_scopes :: "jsstr list"
  su_claims :: "(jsstr, json) jsmap"

datatype category = AllowRuleMatched | ExplicitDeny | NoMatchingAllow | ResourceUnavailable

record decision =
  dc_allowed :: bool
  dc_category :: category
  dc_ruleIds :: "jsstr list"

section \<open>Paths\<close>

definition ident_start :: "16 word \<Rightarrow> bool" where
  "ident_start c \<longleftrightarrow> 65 \<le> c \<and> c \<le> 90 \<or> 97 \<le> c \<and> c \<le> 122 \<or> c = 95 \<or> c = 36"

definition ident_part :: "16 word \<Rightarrow> bool" where
  "ident_part c \<longleftrightarrow> ident_start c \<or> 48 \<le> c \<and> c \<le> 57"

definition ident :: "jsstr \<Rightarrow> bool" where
  "ident s \<longleftrightarrow> s \<noteq> [] \<and> ident_start (hd s) \<and> list_all ident_part (tl s)"

text \<open>\<^verbatim>\<open>/^(subject|resource)(\.[A-Za-z_$][\w$]*)+$/\<close>\<close>

definition safe_path :: "jsstr \<Rightarrow> bool" where
  "safe_path p \<longleftrightarrow> (case split_on 46 p of
       [] \<Rightarrow> False
     | base # parts \<Rightarrow> (base = js_str ''subject'' \<or> base = js_str ''resource'') \<and> parts \<noteq> [] \<and> list_all ident parts)"

text \<open>The subject as the object that paths are read from.\<close>

definition subject_value :: "policy_subject \<Rightarrow> json" where
  "subject_value s = JObj
     ((case su_id s of None \<Rightarrow> [] | Some i \<Rightarrow> [(js_str ''id'', JStr i)]) @
      [(js_str ''roles'', JArr (map JStr (su_roles s))), (js_str ''scopes'', JArr (map JStr (su_scopes s))),
       (js_str ''claims'', JObj (su_claims s))])"

fun read_parts :: "json option \<Rightarrow> jsstr list \<Rightarrow> json option" where
  "read_parts v [] = v"
| "read_parts v (p # ps) = (case v of
     Some (JObj m) \<Rightarrow> (case js_get m p of None \<Rightarrow> None | Some w \<Rightarrow> read_parts (Some w) ps)
   | Some (JArr xs) \<Rightarrow> if p = js_str ''length'' then read_parts (Some (JNum (of_nat (length xs)))) ps else None
   | _ \<Rightarrow> None)"

definition readPath :: "jsstr \<Rightarrow> policy_subject \<Rightarrow> json option \<Rightarrow> json option" where
  "readPath path subject resource =
     (if \<not> safe_path path then None
      else case split_on 46 path of
        base # parts \<Rightarrow> read_parts (if base = js_str ''subject'' then Some (subject_value subject) else resource) parts
      | [] \<Rightarrow> None)"

section \<open>Structural equality\<close>

lemma size_member: "map_of m k = Some v \<Longrightarrow> size (v :: json) < Suc (size_list (size_prod (\<lambda>_. 0) size) m)"
  by (induction m) (auto split: if_splits)

lemma size_element: "(x, y) \<in> set (zip xs ys) \<Longrightarrow> size (x :: json) < Suc (size_list size xs)"
  by (induction xs ys rule: list_induct2') auto

function structuralEqual :: "json \<Rightarrow> json \<Rightarrow> bool" where
  "structuralEqual a b = (case (a, b) of
     (JArr xs, JArr ys) \<Rightarrow> length xs = length ys \<and> list_all (\<lambda>(x, y). structuralEqual x y) (zip xs ys)
   | (JObj m, JObj n) \<Rightarrow>
       sort_units (js_keys m) = sort_units (js_keys n) \<and>
       list_all (\<lambda>k. case js_get m k of None \<Rightarrow> False
         | Some x \<Rightarrow> (case js_get n k of None \<Rightarrow> False | Some y \<Rightarrow> structuralEqual x y)) (js_keys m)
   | _ \<Rightarrow> a = b)"
  by pat_completeness auto
termination
  by (relation "measure (\<lambda>(a, b). size a)") (auto simp: size_element size_member)

declare structuralEqual.simps [simp del]


section \<open>Evaluation\<close>

definition structural_match :: "json option \<Rightarrow> json option \<Rightarrow> bool" where
  "structural_match a b = (case (a, b) of (Some x, Some y) \<Rightarrow> structuralEqual x y | _ \<Rightarrow> False)"

definition matches :: "condition \<Rightarrow> policy_subject \<Rightarrow> json option \<Rightarrow> bool" where
  "matches c subject resource = (case c of
     OwnerCond sp rp \<Rightarrow> structural_match (readPath sp subject resource) (readPath rp subject resource)
   | HasRole roles \<Rightarrow> list_ex (\<lambda>r. r \<in> set (su_roles subject)) roles
   | HasScope scopes \<Rightarrow> list_all (\<lambda>s. s \<in> set (su_scopes subject)) scopes
   | EqualsCond path v \<Rightarrow> structural_match (readPath path subject resource) (Some v))"

definition applies :: "jsstr \<Rightarrow> policy_subject \<Rightarrow> json option \<Rightarrow> policy_rule \<Rightarrow> bool" where
  "applies action subject resource r \<longleftrightarrow>
     action \<in> set (ru_actions r) \<and> list_all (\<lambda>c. matches c subject resource) (ru_conditions r)"

datatype authz_error =
    NoPolicy jsstr
  | MetadataRequired
  | NoProvider jsstr
  | ProviderBroken
  | LoadFailed

definition decide :: "policy_rule list \<Rightarrow> jsstr \<Rightarrow> policy_subject \<Rightarrow> json option \<Rightarrow> decision" where
  "decide rules action subject v =
     (let applicable = filter (applies action subject v) rules;
          denies = sort_units (map ru_id (filter (\<lambda>r. ru_effect r = Deny) applicable))
      in if denies \<noteq> [] then \<lparr>dc_allowed = False, dc_category = ExplicitDeny, dc_ruleIds = denies\<rparr>
         else let allows = sort_units (map ru_id (filter (\<lambda>r. ru_effect r = Allow) applicable))
              in if allows \<noteq> [] then \<lparr>dc_allowed = True, dc_category = AllowRuleMatched, dc_ruleIds = allows\<rparr>
                 else \<lparr>dc_allowed = False, dc_category = NoMatchingAllow, dc_ruleIds = []\<rparr>)"

definition evaluatePolicy ::
  "policy_document \<Rightarrow> jsstr \<Rightarrow> jsstr \<Rightarrow> policy_subject \<Rightarrow> json option \<Rightarrow> (authz_error, decision) result" where
  "evaluatePolicy doc resource action subject v =
     (case List.find (\<lambda>p. po_resource p = resource) doc of
        None \<Rightarrow> Inl (NoPolicy resource)
      | Some p \<Rightarrow> Inr (decide (po_rules p) action subject v))"

section \<open>The registry\<close>

record target =
  tg_identity :: nat
  tg_name :: jsstr

record draft_rule =
  dr_effect :: "effect option"
  dr_actions :: "jsstr list"
  dr_conditions :: "condition list"

record draft_policy =
  dp_name :: jsstr
  dp_resource :: jsstr
  dp_rules :: "(jsstr, draft_rule) jsmap"

type_synonym registry = "(nat, draft_policy) jsmap"

datatype registry_error =
    EmptyResource
  | AlreadyRegistered jsstr
  | DuplicateResource jsstr
  | EmptyActions
  | MixedEffects jsstr
  | UnsafePath jsstr
  | EmptyConditionValues
  | MissingPolicy jsstr
  | NoEffect jsstr jsstr
  | NoActions jsstr jsstr
  | DuplicateRuleId jsstr

definition has_resource :: "target \<Rightarrow> registry \<Rightarrow> bool" where
  "has_resource t reg = (case js_get reg (tg_identity t) of None \<Rightarrow> False | Some p \<Rightarrow> dp_resource p \<noteq> [])"

definition reg_policy :: "target \<Rightarrow> jsstr \<Rightarrow> registry \<Rightarrow> (registry_error, registry) result" where
  "reg_policy t resource reg =
     (if js_trim resource = [] then Inl EmptyResource
      else if has_resource t reg then Inl (AlreadyRegistered (tg_name t))
      else if list_ex (\<lambda>p. dp_resource p = resource) (js_values reg) then Inl (DuplicateResource resource)
      else Inr (case js_get reg (tg_identity t) of
          Some p \<Rightarrow> js_set (tg_identity t) (p\<lparr>dp_resource := resource\<rparr>) reg
        | None \<Rightarrow> js_set (tg_identity t) \<lparr>dp_name = tg_name t, dp_resource = resource, dp_rules = []\<rparr> reg))"

definition policy_draft :: "target \<Rightarrow> registry \<Rightarrow> draft_policy" where
  "policy_draft t reg = (case js_get reg (tg_identity t) of Some p \<Rightarrow> p
     | None \<Rightarrow> \<lparr>dp_name = tg_name t, dp_resource = [], dp_rules = []\<rparr>)"

definition rule_draft :: "draft_policy \<Rightarrow> jsstr \<Rightarrow> draft_rule" where
  "rule_draft p m = (case js_get (dp_rules p) m of Some r \<Rightarrow> r
     | None \<Rightarrow> \<lparr>dr_effect = None, dr_actions = [], dr_conditions = []\<rparr>)"

text \<open>\<^verbatim>\<open>draft\<close> gets or creates the rule; the caller then changes it in place.\<close>

definition put_draft :: "target \<Rightarrow> jsstr \<Rightarrow> draft_rule \<Rightarrow> registry \<Rightarrow> registry" where
  "put_draft t m r reg =
     (let p = policy_draft t reg in js_set (tg_identity t) (p\<lparr>dp_rules := js_set m r (dp_rules p)\<rparr>) reg)"

definition reg_rule :: "target \<Rightarrow> jsstr \<Rightarrow> effect \<Rightarrow> jsstr list \<Rightarrow> registry \<Rightarrow> (registry_error, registry) result" where
  "reg_rule t m e actions reg =
     (if actions = [] \<or> list_ex (\<lambda>a. js_trim a = []) actions then Inl EmptyActions
      else let r = rule_draft (policy_draft t reg) m
           in if dr_effect r \<notin> {None, Some e} then Inl (MixedEffects m)
              else Inr (put_draft t m (r\<lparr>dr_effect := Some e, dr_actions := dr_actions r @ actions\<rparr>) reg))"

definition condition_paths :: "condition \<Rightarrow> jsstr list" where
  "condition_paths c = (case c of OwnerCond s r \<Rightarrow> [s, r] | EqualsCond p _ \<Rightarrow> [p] | _ \<Rightarrow> [])"

definition reg_condition :: "target \<Rightarrow> jsstr \<Rightarrow> condition \<Rightarrow> registry \<Rightarrow> (registry_error, registry) result" where
  "reg_condition t m c reg =
     (case List.find (\<lambda>p. \<not> safe_path p) (condition_paths c) of
        Some p \<Rightarrow> Inl (UnsafePath p)
      | None \<Rightarrow>
          if c = HasRole [] \<or> c = HasScope [] then Inl EmptyConditionValues
          else let r = rule_draft (policy_draft t reg) m
               in Inr (put_draft t m (r\<lparr>dr_conditions := dr_conditions r @ [c]\<rparr>) reg))"

definition resourceFor :: "target \<Rightarrow> registry \<Rightarrow> jsstr option" where
  "resourceFor t reg = (case js_get reg (tg_identity t) of None \<Rightarrow> None
     | Some p \<Rightarrow> if dp_resource p = [] then None else Some (dp_resource p))"

fun compile_rules ::
  "jsstr \<Rightarrow> jsstr list \<Rightarrow> (jsstr \<times> draft_rule) list \<Rightarrow> (registry_error, policy_rule list \<times> jsstr list) result" where
  "compile_rules name ids [] = Inr ([], ids)"
| "compile_rules name ids ((m, d) # ds) =
     (case dr_effect d of
        None \<Rightarrow> Inl (NoEffect name m)
      | Some e \<Rightarrow>
          let i = name @ 46 # m
          in if dr_actions d = [] then Inl (NoActions name m)
             else if i \<in> set ids then Inl (DuplicateRuleId i)
             else rbind (compile_rules name (set_add i ids) ds) (\<lambda>(rules, ids').
               Inr (\<lparr>ru_id = i, ru_effect = e, ru_actions = sort_units (js_uniq (dr_actions d)), ru_conditions = dr_conditions d\<rparr> # rules, ids')))"

fun compile_policies ::
  "(jsstr \<Rightarrow> jsstr \<Rightarrow> bool) \<Rightarrow> jsstr list \<Rightarrow> jsstr list \<Rightarrow> draft_policy list \<Rightarrow> (registry_error, policy_document) result" where
  "compile_policies loc resources ids [] = Inr []"
| "compile_policies loc resources ids (p # ps) =
     (if dp_resource p = [] then Inl (MissingPolicy (dp_name p))
      else if dp_resource p \<in> set resources then Inl (DuplicateResource (dp_resource p))
      else rbind (compile_rules (dp_name p) ids (sort_by (\<lambda>a b. loc (fst a) (fst b)) (dp_rules p))) (\<lambda>(rules, ids').
           rbind (compile_policies loc (set_add (dp_resource p) resources) ids' ps) (\<lambda>doc.
             Inr (\<lparr>po_name = dp_name p, po_resource = dp_resource p, po_rules = rules\<rparr> # doc))))"

text \<open>\<open>loc a b\<close> is \<^verbatim>\<open>a.localeCompare(b) <= 0\<close>.\<close>

definition compile :: "(jsstr \<Rightarrow> jsstr \<Rightarrow> bool) \<Rightarrow> registry \<Rightarrow> (registry_error, policy_document) result" where
  "compile loc reg = compile_policies loc [] [] (sort_by (\<lambda>a b. loc (dp_name a) (dp_name b)) (js_values reg))"

section \<open>The authorization manager\<close>

record authz_principal =
  ap_sub :: jsstr
  ap_scope :: "jsstr list option"
  ap_claims :: "(jsstr, json) jsmap option"

record authz_metadata =
  am_resource :: "jsstr option"
  am_action :: "jsstr option"
  am_id :: "jsstr option"
  am_idParam :: "jsstr option"
  am_collection :: bool

definition defaultSubject :: "authz_principal \<Rightarrow> policy_subject" where
  "defaultSubject p =
     \<lparr>su_id = Some (ap_sub p),
      su_roles = (case ap_claims p of None \<Rightarrow> [] | Some c \<Rightarrow> (case js_get c (js_str ''roles'') of
          Some (JArr rs) \<Rightarrow> if list_all (\<lambda>r. case r of JStr _ \<Rightarrow> True | _ \<Rightarrow> False) rs
            then map (\<lambda>r. case r of JStr s \<Rightarrow> s | _ \<Rightarrow> []) rs else []
        | _ \<Rightarrow> [])),
      su_scopes = (case ap_scope p of None \<Rightarrow> [] | Some s \<Rightarrow> s),
      su_claims = (case ap_claims p of None \<Rightarrow> [] | Some c \<Rightarrow> c)\<rparr>"

text \<open>A configured provider: an object that loads a resource (\<open>None\<close> is \<^verbatim>\<open>null\<close> or \<^verbatim>\<open>undefined\<close>, an error a
  rejected promise), or what the container makes of a class or token.\<close>

type_synonym loader = "jsstr \<Rightarrow> (authz_error, json option) result"

record authz_manager =
  az_document :: policy_document
  az_providers :: "(jsstr, loader option) jsmap"
  az_mapSubject :: "(authz_principal \<Rightarrow> policy_subject) option"

definition deny :: "category \<Rightarrow> decision" where
  "deny c = \<lparr>dc_allowed = False, dc_category = c, dc_ruleIds = []\<rparr>"

definition request_id :: "authz_metadata \<Rightarrow> (jsstr, jsstr) jsmap \<Rightarrow> jsstr option" where
  "request_id md params =
     (case (case am_id md of Some i \<Rightarrow> Some i
            | None \<Rightarrow> js_get params (case am_idParam md of None \<Rightarrow> js_str ''id'' | Some n \<Rightarrow> n)) of
        Some i \<Rightarrow> if i = [] then None else Some i
      | None \<Rightarrow> None)"

definition evaluate_for :: "authz_manager \<Rightarrow> authz_principal \<Rightarrow> jsstr \<Rightarrow> jsstr \<Rightarrow> json option \<Rightarrow> (authz_error, decision) result" where
  "evaluate_for az p resource action v =
     rbind (evaluatePolicy (az_document az) resource action
       ((case az_mapSubject az of None \<Rightarrow> defaultSubject | Some f \<Rightarrow> f) p) v) (\<lambda>d.
     Inr (d\<lparr>dc_ruleIds := sort_units (dc_ruleIds d)\<rparr>))"

definition authorize ::
  "authz_manager \<Rightarrow> authz_principal option \<Rightarrow> authz_metadata option \<Rightarrow> (jsstr, jsstr) jsmap \<Rightarrow> (authz_error, decision) result" where
  "authorize az who metadata params =
     (case metadata of None \<Rightarrow> Inl MetadataRequired | Some md \<Rightarrow>
      (case (am_resource md, am_action md) of
         (Some resource, Some action) \<Rightarrow>
           if resource = [] \<or> action = [] then Inl MetadataRequired
           else if \<not> list_ex (\<lambda>p. po_resource p = resource) (az_document az) then Inl (NoPolicy resource)
           else (case who of
               None \<Rightarrow> Inr (deny NoMatchingAllow)
             | Some p \<Rightarrow>
                 if am_collection md then evaluate_for az p resource action None
                 else (case request_id md params of
                     None \<Rightarrow> Inr (deny ResourceUnavailable)
                   | Some i \<Rightarrow>
                       (case js_get (az_providers az) resource of
                          None \<Rightarrow> Inl (NoProvider resource)
                        | Some None \<Rightarrow> Inl ProviderBroken
                        | Some (Some load) \<Rightarrow>
                            rbind (load i) (\<lambda>v.
                              if v = None \<or> v = Some JNull then Inr (deny ResourceUnavailable)
                              else evaluate_for az p resource action v))))
       | _ \<Rightarrow> Inl MetadataRequired))"


section \<open>Structural equality is an equivalence\<close>

lemma structuralEqual_refl: "structuralEqual a a"
proof (induction a)
  case (JArr xs)
  then show ?case
    by (subst structuralEqual.simps) (auto simp: list_all_iff set_zip)
next
  case (JObj m)
  have "structuralEqual x x" if "js_get m k = Some x" for k x
  proof (rule JObj.IH)
    show "(k, x) \<in> set m" using that by (rule map_of_SomeD)
    show "x \<in> Basic_BNFs.snds (k, x)" by (simp add: Basic_BNFs.snds.simps)
  qed
  then show ?case
    by (subst structuralEqual.simps) (auto simp: list_all_iff map_of_eq_None_iff split: option.splits)
qed (subst structuralEqual.simps; simp)+

lemma structuralEqual_sym: "structuralEqual a b \<Longrightarrow> structuralEqual b a"
proof (induction a b rule: structuralEqual.induct)
  case (1 a b)
  show ?case
  proof (cases "(\<exists>xs ys. a = JArr xs \<and> b = JArr ys) \<or> (\<exists>m n. a = JObj m \<and> b = JObj n)")
    case False
    with "1.prems" have "a = b" by (subst (asm) structuralEqual.simps) (auto split: json.splits)
    then show ?thesis by (simp add: structuralEqual_refl)
  next
    case True
    then show ?thesis
    proof (elim disjE exE conjE)
      fix xs ys
      assume ab: "a = JArr xs" "b = JArr ys"
      with "1.prems" have len: "length xs = length ys" and all: "\<forall>(x, y) \<in> set (zip xs ys). structuralEqual x y"
        by (subst (asm) structuralEqual.simps, auto simp: list_all_iff)+
      have "structuralEqual y x" if "(y, x) \<in> set (zip ys xs)" for x y
      proof -
        from that len have "(x, y) \<in> set (zip xs ys)" by (auto simp: set_zip)
        with "1.IH"(1) [OF refl ab this refl] all show ?thesis by auto
      qed
      then show ?thesis unfolding ab using len by (subst structuralEqual.simps) (auto simp: list_all_iff)
    next
      fix m n
      assume ab: "a = JObj m" "b = JObj n"
      with "1.prems" have keys: "sort_units (js_keys m) = sort_units (js_keys n)"
        and all: "\<And>k. k \<in> set (js_keys m) \<Longrightarrow> \<exists>x y. js_get m k = Some x \<and> js_get n k = Some y \<and> structuralEqual x y"
        by (subst (asm) structuralEqual.simps, force simp: list_all_iff split: option.splits)+
      from keys have same: "set (js_keys m) = set (js_keys n)" by (metis set_sort_units)
      have "\<exists>y x. js_get n k = Some y \<and> js_get m k = Some x \<and> structuralEqual y x" if "k \<in> set (js_keys n)" for k
      proof -
        from that same have k: "k \<in> set (js_keys m)" by blast
        from all [OF k] obtain x y where xy: "js_get m k = Some x" "js_get n k = Some y" "structuralEqual x y" by blast
        with "1.IH"(2) [OF refl ab k] show ?thesis by auto
      qed
      then show ?thesis unfolding ab using keys by (subst structuralEqual.simps) (force simp: list_all_iff split: option.splits)
    qed
  qed
qed


section \<open>Decisions\<close>

definition rule_applies :: "resource_policy \<Rightarrow> effect \<Rightarrow> jsstr \<Rightarrow> policy_subject \<Rightarrow> json option \<Rightarrow> bool" where
  "rule_applies p e action subject v \<longleftrightarrow> (\<exists>r \<in> set (po_rules p). ru_effect r = e \<and> applies action subject v r)"

text \<open>C37: A decision allows exactly when some applicable rule allows and none denies; it names exactly the applicable
  rules of the deciding effect: the denying ones when one denies, although allowing rules may apply too, and otherwise
  the allowing ones.\<close>

theorem deny_overrides:
  assumes "List.find (\<lambda>p. po_resource p = resource) doc = Some p" "evaluatePolicy doc resource action subject v = Inr d"
  shows "(dc_allowed d \<longleftrightarrow> rule_applies p Allow action subject v \<and> \<not> rule_applies p Deny action subject v) \<and>
    set (dc_ruleIds d) = {ru_id r | r. r \<in> set (po_rules p) \<and> applies action subject v r \<and>
      ru_effect r = (if rule_applies p Deny action subject v then Deny else Allow)}"
  using assms by (auto simp: evaluatePolicy_def decide_def Let_def rule_applies_def filter_empty_conv split: if_splits)

lemma decide_mset: "mset rules = mset rules' \<Longrightarrow> decide rules = decide rules'"
proof (intro ext)
  fix action subject v
  assume same: "mset rules = mset rules'"
  have "sort_units (map ru_id (filter P (filter Q rules))) = sort_units (map ru_id (filter P (filter Q rules')))" for P Q
    by (rule sort_units_mset) (simp only: mset_map mset_filter same)
  then show "decide rules action subject v = decide rules' action subject v" by (simp only: decide_def Let_def)
qed

text \<open>The decision and the rules it names do not depend on the order in which a policy lists its rules.\<close>

theorem rule_order_irrelevant:
  assumes "mset rules = mset rules'"
  shows "evaluatePolicy (before @ p\<lparr>po_rules := rules\<rparr> # after) resource action subject v =
    evaluatePolicy (before @ p\<lparr>po_rules := rules'\<rparr> # after) resource action subject v"
proof -
  have find: "List.find P (before @ q # after) = (case List.find P before of Some x \<Rightarrow> Some x | None \<Rightarrow> if P q then Some q else List.find P after)" for P q
    by (induction before) auto
  show ?thesis
    by (simp add: evaluatePolicy_def find decide_mset [OF assms] split: option.split)
qed

definition demo_rule :: "string \<Rightarrow> effect \<Rightarrow> condition list \<Rightarrow> policy_rule" where
  "demo_rule i e cs = \<lparr>ru_id = js_str i, ru_effect = e, ru_actions = [js_str ''read''], ru_conditions = cs\<rparr>"

definition demo_policy :: "policy_rule list \<Rightarrow> resource_policy" where
  "demo_policy rules = \<lparr>po_name = js_str ''P'', po_resource = js_str ''doc'', po_rules = rules\<rparr>"

definition demo_subject :: policy_subject where
  "demo_subject = \<lparr>su_id = Some (js_str ''u''), su_roles = [js_str ''staff''], su_scopes = [], su_claims = [(js_str ''team'', JNull)]\<rparr>"

lemma deny_overrides_witness:
  "\<exists>d. evaluatePolicy [demo_policy [demo_rule ''P.a'' Allow [], demo_rule ''P.d'' Deny [HasRole [js_str ''staff'']]]] (js_str ''doc'') (js_str ''read'') demo_subject None = Inr d \<and>
     \<not> dc_allowed d"
proof -
  let ?p = "demo_policy [demo_rule ''P.a'' Allow [], demo_rule ''P.d'' Deny [HasRole [js_str ''staff'']]]"
  have find: "List.find (\<lambda>p. po_resource p = js_str ''doc'') [?p] = Some ?p" by (simp add: demo_policy_def)
  have applies: "rule_applies ?p Deny (js_str ''read'') demo_subject None"
    by (simp add: rule_applies_def demo_policy_def demo_rule_def applies_def matches_def demo_subject_def)
  obtain d where d: "evaluatePolicy [?p] (js_str ''doc'') (js_str ''read'') demo_subject None = Inr d"
    using find unfolding evaluatePolicy_def by simp
  from deny_overrides [OF find d] applies d show ?thesis by blast
qed

lemma rule_order_irrelevant_witness:
  "evaluatePolicy ([] @ demo_policy [] \<lparr>po_rules := [demo_rule ''P.a'' Allow [], demo_rule ''P.d'' Deny []]\<rparr> # []) (js_str ''doc'') (js_str ''read'') demo_subject None =
   evaluatePolicy ([] @ demo_policy [] \<lparr>po_rules := [demo_rule ''P.d'' Deny [], demo_rule ''P.a'' Allow []]\<rparr> # []) (js_str ''doc'') (js_str ''read'') demo_subject None"
  by (rule rule_order_irrelevant) simp

text \<open>An owner condition holds between two nulls: a subject whose attribute is null owns every resource whose
  attribute is null.\<close>

theorem null_owners_match:
  "matches (OwnerCond (js_str ''subject.claims.team'') (js_str ''resource.owner'')) demo_subject (Some (JObj [(js_str ''owner'', JNull)]))"
proof -
  have "readPath (js_str ''subject.claims.team'') demo_subject r = Some JNull" for r
    by (simp add: readPath_def safe_path_def js_str_def ident_def ident_start_def ident_part_def demo_subject_def subject_value_def)
  moreover have "readPath (js_str ''resource.owner'') demo_subject (Some (JObj [(js_str ''owner'', JNull)])) = Some JNull"
    by (simp add: readPath_def safe_path_def js_str_def ident_def ident_start_def ident_part_def)
  ultimately show ?thesis by (simp add: matches_def structural_match_def structuralEqual_refl)
qed

section \<open>Compiled documents\<close>

text \<open>A rule stems from a draft with its effect, actions and conditions.\<close>

definition rule_from :: "draft_policy list \<Rightarrow> policy_rule \<Rightarrow> bool" where
  "rule_from ps r \<longleftrightarrow> ru_actions r \<noteq> [] \<and> (\<exists>dp \<in> set ps. \<exists>d \<in> snd ` set (dp_rules dp). dr_effect d = Some (ru_effect r) \<and>
     set (ru_actions r) = set (dr_actions d) \<and> ru_conditions r = dr_conditions d)"

lemma rule_from_mono: "rule_from ps r \<Longrightarrow> rule_from (p # ps) r"
  by (auto simp: rule_from_def)

definition rule_ids :: "policy_document \<Rightarrow> jsstr list" where
  "rule_ids doc = concat (map (\<lambda>p. map ru_id (po_rules p)) doc)"

lemma compile_rules_ok:
  assumes "compile_rules name ids ds = Inr (rules, ids')" "set ds \<subseteq> set (dp_rules p)"
  shows "distinct (map ru_id rules) \<and> set (map ru_id rules) \<inter> set ids = {} \<and> set ids' = set ids \<union> set (map ru_id rules) \<and>
    (\<forall>r \<in> set rules. rule_from [p] r)"
  using assms
proof (induction name ids ds arbitrary: rules rule: compile_rules.induct)
  case (2 name ids m d ds)
  from "2.prems"(1) obtain e more where e: "dr_effect d = Some e" and ok: "dr_actions d \<noteq> []" "name @ 46 # m \<notin> set ids"
    and more: "compile_rules name (set_add (name @ 46 # m) ids) ds = Inr (more, ids')"
    and rules: "rules = \<lparr>ru_id = name @ 46 # m, ru_effect = e, ru_actions = sort_units (js_uniq (dr_actions d)), ru_conditions = dr_conditions d\<rparr> # more"
    by (auto simp: Let_def rbind_eq_Inr split: option.splits if_splits)
  have "js_uniq (dr_actions d) \<noteq> []" using ok(1) set_js_uniq [of "dr_actions d"] by (metis set_empty)
  moreover have "d \<in> snd ` set (dp_rules p)" using "2.prems"(2) by force
  ultimately have "rule_from [p] (hd rules)" using e by (auto simp: rules rule_from_def)
  with "2.IH" [OF e refl ok more] "2.prems"(2) ok show ?case by (auto simp: rules)
qed simp

lemma compile_policies_ok:
  assumes "compile_policies loc resources ids ps = Inr doc"
  shows "distinct (map po_resource doc) \<and> set (map po_resource doc) \<inter> set resources = {} \<and>
    distinct (rule_ids doc) \<and> set (rule_ids doc) \<inter> set ids = {} \<and>
    (\<forall>p \<in> set doc. \<forall>r \<in> set (po_rules p). rule_from ps r)"
  using assms
proof (induction ps arbitrary: resources ids doc)
  case (Cons p ps)
  from Cons.prems obtain rules ids' more where r: "dp_resource p \<noteq> []" "dp_resource p \<notin> set resources"
    and rules: "compile_rules (dp_name p) ids (sort_by (\<lambda>a b. loc (fst a) (fst b)) (dp_rules p)) = Inr (rules, ids')"
    and more: "compile_policies loc (set_add (dp_resource p) resources) ids' ps = Inr more"
    and doc: "doc = \<lparr>po_name = dp_name p, po_resource = dp_resource p, po_rules = rules\<rparr> # more"
    by (auto simp: rbind_eq_Inr split: if_splits)
  have a: "distinct (map ru_id rules)" "set (map ru_id rules) \<inter> set ids = {}" "set ids' = set ids \<union> set (map ru_id rules)"
    "\<forall>r \<in> set rules. rule_from [p] r"
    using compile_rules_ok [OF rules, of p] by simp_all
  note b = Cons.IH [OF more]
  have ids: "rule_ids doc = map ru_id rules @ rule_ids more" by (simp add: doc rule_ids_def)
  have "rule_from (p # ps) x" if "x \<in> set rules" for x
    using a(4) that by (auto simp: rule_from_def)
  moreover have "rule_from (p # ps) x" if "q \<in> set more" "x \<in> set (po_rules q)" for q x
    using b that by (blast intro: rule_from_mono)
  moreover have "distinct (rule_ids doc)" "set (rule_ids doc) \<inter> set ids = {}" using a b by (auto simp: ids)
  moreover have "distinct (map po_resource doc)" "set (map po_resource doc) \<inter> set resources = {}" using b r by (auto simp: doc)
  ultimately show ?case by (simp add: doc)
qed (simp add: rule_ids_def)


text \<open>The registries that decorators can build.\<close>

inductive registered :: "registry \<Rightarrow> bool" where
  empty: "registered []"
| policy: "registered reg \<Longrightarrow> reg_policy t resource reg = Inr reg' \<Longrightarrow> registered reg'"
| rule: "registered reg \<Longrightarrow> reg_rule t m e actions reg = Inr reg' \<Longrightarrow> registered reg'"
| condition: "registered reg \<Longrightarrow> reg_condition t m c reg = Inr reg' \<Longrightarrow> registered reg'"

definition condition_ok :: "condition \<Rightarrow> bool" where
  "condition_ok c \<longleftrightarrow> list_all safe_path (condition_paths c) \<and> c \<noteq> HasRole [] \<and> c \<noteq> HasScope []"

definition draft_ok :: "draft_rule \<Rightarrow> bool" where
  "draft_ok d \<longleftrightarrow> list_all condition_ok (dr_conditions d) \<and> list_all (\<lambda>a. js_trim a \<noteq> []) (dr_actions d)"

definition drafts_ok :: "registry \<Rightarrow> bool" where
  "drafts_ok reg \<longleftrightarrow> (\<forall>(i, p) \<in> set reg. \<forall>(m, d) \<in> set (dp_rules p). draft_ok d)"

lemma set_js_set: "set (js_set k v m) \<subseteq> insert (k, v) (set m)"
  by (induction m) auto

lemma rule_draft_ok: "drafts_ok reg \<Longrightarrow> draft_ok (rule_draft (policy_draft t reg) m)"
  by (fastforce simp: rule_draft_def policy_draft_def drafts_ok_def draft_ok_def dest: map_of_SomeD split: option.splits)

lemma put_draft_ok:
  assumes "drafts_ok reg" "draft_ok r"
  shows "drafts_ok (put_draft t m r reg)"
proof -
  have "\<forall>(m', d) \<in> set (dp_rules (policy_draft t reg)). draft_ok d"
    using assms(1) by (fastforce simp: policy_draft_def drafts_ok_def dest: map_of_SomeD split: option.splits)
  with assms(2) have "\<forall>(m', d) \<in> set (js_set m r (dp_rules (policy_draft t reg))). draft_ok d"
    using set_js_set [of m r "dp_rules (policy_draft t reg)"] by fastforce
  with assms(1) show ?thesis
    unfolding drafts_ok_def put_draft_def Let_def
    using set_js_set [of "tg_identity t" "policy_draft t reg\<lparr>dp_rules := js_set m r (dp_rules (policy_draft t reg))\<rparr>" reg] by fastforce
qed

lemma registered_drafts_ok: "registered reg \<Longrightarrow> drafts_ok reg"
proof (induction rule: registered.induct)
  case (policy reg t resource reg')
  then show ?case
    using set_js_set by (fastforce simp: reg_policy_def drafts_ok_def dest: map_of_SomeD split: if_splits option.splits)
next
  case (rule reg t m e actions reg')
  then show ?case
    using rule_draft_ok [OF rule.IH, of t m]
    by (auto simp: reg_rule_def Let_def draft_ok_def list_all_iff list_ex_iff intro!: put_draft_ok split: if_splits)
next
  case (condition reg t m c reg')
  then show ?case
    using rule_draft_ok [OF condition.IH, of t m]
    by (auto simp: reg_condition_def Let_def draft_ok_def condition_ok_def list_all_iff find_None_iff intro!: put_draft_ok split: if_splits option.splits)
qed (simp add: drafts_ok_def)

text \<open>A document compiled from what the decorators registered has one policy per resource and one rule per
  identifier; every rule has an action, none of them blank, and reads only safe paths.\<close>

theorem compiled_document_sound:
  assumes "registered reg" "compile loc reg = Inr doc"
  shows "distinct (map po_resource doc) \<and> distinct (rule_ids doc) \<and>
    list_all (\<lambda>p. list_all (\<lambda>r. ru_actions r \<noteq> [] \<and> list_all (\<lambda>a. js_trim a \<noteq> []) (ru_actions r) \<and> list_all condition_ok (ru_conditions r)) (po_rules p)) doc"
proof -
  from compile_policies_ok [OF assms(2) [unfolded compile_def]] have
    distinct: "distinct (map po_resource doc)" "distinct (rule_ids doc)" and
    from_drafts: "\<forall>p \<in> set doc. \<forall>r \<in> set (po_rules p). rule_from (js_values reg) r"
    by (auto simp: rule_from_def)
  have "ru_actions r \<noteq> [] \<and> list_all (\<lambda>a. js_trim a \<noteq> []) (ru_actions r) \<and> list_all condition_ok (ru_conditions r)"
    if "rule_from (js_values reg) r" for r
  proof -
    from that obtain dp m d i where "(i, dp) \<in> set reg" "(m, d) \<in> set (dp_rules dp)" "set (ru_actions r) = set (dr_actions d)"
      "ru_conditions r = dr_conditions d" "ru_actions r \<noteq> []" by (auto simp: rule_from_def)
    moreover have "draft_ok d" using registered_drafts_ok [OF assms(1)] calculation(1,2) by (fastforce simp: drafts_ok_def)
    ultimately show ?thesis by (simp add: draft_ok_def list_all_iff)
  qed
  then have "\<forall>p \<in> set doc. \<forall>r \<in> set (po_rules p). ru_actions r \<noteq> [] \<and> list_all (\<lambda>a. js_trim a \<noteq> []) (ru_actions r) \<and>
      list_all condition_ok (ru_conditions r)" using from_drafts by blast
  with distinct show ?thesis unfolding list_all_iff [of _ doc] list_all_iff [of _ "po_rules _"] by blast
qed

definition demo_target :: target where
  "demo_target = \<lparr>tg_identity = 0, tg_name = js_str ''P''\<rparr>"

lemma compiled_document_sound_witness:
  "\<exists>reg doc. registered reg \<and> compile units_le reg = Inr doc \<and> rule_ids doc = [js_str ''P.m''] \<and> distinct (map po_resource doc)"
proof -
  have blank: "js_trim (js_str ''doc'') \<noteq> []" "js_trim (js_str ''read'') \<noteq> []" by (simp_all add: js_trim_def js_str_def js_space_def)
  have nonempty: "js_str ''doc'' \<noteq> []" by (simp add: js_str_def)
  obtain reg1 where r1: "reg_policy demo_target (js_str ''doc'') [] = Inr reg1" and e1: "reg1 = [(0, \<lparr>dp_name = js_str ''P'', dp_resource = js_str ''doc'', dp_rules = []\<rparr>)]"
    using blank by (simp add: reg_policy_def has_resource_def demo_target_def)
  obtain reg2 where r2: "reg_rule demo_target (js_str ''m'') Allow [js_str ''read''] reg1 = Inr reg2"
    and e2: "reg2 = [(0, \<lparr>dp_name = js_str ''P'', dp_resource = js_str ''doc'',
      dp_rules = [(js_str ''m'', \<lparr>dr_effect = Some Allow, dr_actions = [js_str ''read''], dr_conditions = []\<rparr>)]\<rparr>)]"
    using blank by (simp add: reg_rule_def e1 demo_target_def rule_draft_def policy_draft_def put_draft_def Let_def)
  have reg: "registered reg2" by (rule registered.rule [OF registered.policy [OF registered.empty r1] r2])
  have "js_str ''P'' @ 46 # js_str ''m'' = js_str ''P.m''" by (simp add: js_str_def)
  then obtain doc where doc: "compile units_le reg2 = Inr doc" "rule_ids doc = [js_str ''P.m'']"
    using nonempty by (simp add: compile_def e2 rbind_def rule_ids_def Let_def)
  from compiled_document_sound [OF reg doc(1)] reg doc show ?thesis by blast
qed

section \<open>The manager\<close>

text \<open>C30: Access is granted only to a principal, by a policy for the named resource that evaluates to a permission:
  either on a value that the resource's provider loaded under the request's identifier and that is neither null nor
  undefined, or, when the operation is declared one on the collection, without any value.\<close>

theorem authorize_denies_by_default:
  assumes "authorize az who metadata params = Inr d" "dc_allowed d"
  shows "\<exists>p md resource action v. who = Some p \<and> metadata = Some md \<and> am_resource md = Some resource \<and> am_action md = Some action \<and>
    map_sum id dc_allowed (evaluatePolicy (az_document az) resource action
      ((case az_mapSubject az of None \<Rightarrow> defaultSubject | Some f \<Rightarrow> f) p) v) = Inr True \<and>
    (am_collection md \<and> v = None \<or>
     (\<exists>i load. request_id md params = Some i \<and> js_get (az_providers az) resource = Some (Some load) \<and> load i = Inr v \<and> v \<noteq> None \<and> v \<noteq> Some JNull))"
proof -
  have eval: "evaluate_for az p r a v = Inr d \<Longrightarrow> map_sum id dc_allowed (evaluatePolicy (az_document az) r a
      ((case az_mapSubject az of None \<Rightarrow> defaultSubject | Some f \<Rightarrow> f) p) v) = Inr True" for p r a v
    using assms(2) by (auto simp: evaluate_for_def rbind_eq_Inr)
  have denied: "d \<noteq> deny c" for c
    using assms(2) by (auto simp: deny_def)
  from assms(1) obtain md resource action p where "metadata = Some md" "am_resource md = Some resource" "am_action md = Some action" "who = Some p"
    by (auto simp: authorize_def denied split: option.splits if_splits)
  moreover have "(am_collection md \<and> evaluate_for az p resource action None = Inr d) \<or>
    (\<exists>i load v. request_id md params = Some i \<and> js_get (az_providers az) resource = Some (Some load) \<and> load i = Inr v \<and>
       v \<noteq> None \<and> v \<noteq> Some JNull \<and> evaluate_for az p resource action v = Inr d)"
    using assms(1) calculation by (auto simp: authorize_def denied rbind_eq_Inr split: option.splits if_splits)
  ultimately show ?thesis using eval by blast
qed


lemma authorize_denies_by_default_witness:
  "\<exists>az d. authorize az (Some \<lparr>ap_sub = js_str ''u'', ap_scope = None, ap_claims = None\<rparr>)
       (Some \<lparr>am_resource = Some (js_str ''doc''), am_action = Some (js_str ''read''), am_id = Some (js_str ''1''), am_idParam = None, am_collection = False\<rparr>) [] = Inr d \<and>
     dc_allowed d \<and> js_get (az_providers az) (js_str ''doc'') \<noteq> None"
proof -
  define az where "az = \<lparr>az_document = [demo_policy [demo_rule ''P.a'' Allow []]],
    az_providers = [(js_str ''doc'', Some (\<lambda>_. Inr (Some (JBool True))))], az_mapSubject = None\<rparr>"
  define md where "md = \<lparr>am_resource = Some (js_str ''doc''), am_action = Some (js_str ''read''), am_id = Some (js_str ''1''), am_idParam = None, am_collection = False\<rparr>"
  have ne: "js_str ''doc'' \<noteq> []" "js_str ''read'' \<noteq> []" "js_str ''1'' \<noteq> []" by (simp_all add: js_str_def)
  obtain d where d: "authorize az (Some \<lparr>ap_sub = js_str ''u'', ap_scope = None, ap_claims = None\<rparr>) (Some md) [] = Inr d" "dc_allowed d"
    using ne by (simp add: authorize_def az_def md_def request_id_def evaluate_for_def evaluatePolicy_def decide_def demo_policy_def demo_rule_def
        applies_def rbind_def Let_def)
  from authorize_denies_by_default [OF d] have "js_get (az_providers az) (js_str ''doc'') \<noteq> None" by (auto simp: md_def)
  with d show ?thesis unfolding md_def by blast
qed

end
