(* ===== verification/Container.thy ===== *)
theory Container
  imports Prelude
begin

text \<open>
  The dependency injection container: \<^verbatim>\<open>di-framework-core/container.ts\<close>.

  Classes are numbered; what decorators recorded about them is a table.  Instances are allocated in
  a heap with the arguments their constructor received and the properties injected into them, so
  identity is visible.  Constructors and factories run as data (they return or throw) and do not
  call the container back; listeners only receive.  Resolution recurses with fuel, and the lemmas
  show how much is enough, that the resolution stack is restored on every path, that a singleton
  once cached never changes, and where arguments and names go wrong.  Classes carry no
  \<^verbatim>\<open>@Cron\<close>, \<^verbatim>\<open>@Publisher\<close> or \<^verbatim>\<open>@Telemetry\<close> metadata: the wrapping of methods and the timers are
  left out.
\<close>

section \<open>Classes\<close>

datatype key = Token string | Class nat

datatype param_type = NoType | ObjectType | ClassType nat

record class_info =
  cl_name :: string
  cl_paramTypes :: "param_type list"
  cl_paramNames :: "string list"
  cl_paramInject :: "(nat, key) jsmap"
  cl_propInject :: "(string, key) jsmap"
  cl_protoInject :: "(string, key) jsmap"
  cl_subscribers :: "(string \<times> string list) list"
  cl_telemetryListeners :: "string list"

datatype val = Undefined | Instance nat | Datum nat

text \<open>\<open>w_constructs c args\<close> and \<open>w_makes f\<close> say whether the constructor or the factory returns.\<close>

record world =
  w_class :: "nat \<Rightarrow> class_info"
  w_constructs :: "nat \<Rightarrow> val list \<Rightarrow> bool"
  w_makes :: "nat \<Rightarrow> bool"

section \<open>State\<close>

datatype service_type = ClassService nat | FactoryService nat | ValueService val | BindingService string "string option"

record definition_entry =
  df_type :: service_type
  df_singleton :: bool
  df_instance :: val
  df_hasInstance :: bool

datatype origin = FromClass nat | FromFactory nat | FromBinding string "string option"

record instance_entry =
  in_origin :: origin
  in_args :: "val list"
  in_props :: "(string, val) jsmap"

datatype listener = UserListener nat | SubscriberMethod nat string | TelemetryMethod nat string

datatype cron_mode = InProcess | External

record container =
  ct_services :: "(key, definition_entry) jsmap"
  ct_stack :: "key list"
  ct_listeners :: "(string, listener list) jsmap"
  ct_heap :: "(nat, instance_entry) jsmap"
  ct_next :: nat
  ct_deliveries :: "(string \<times> listener) list"
  ct_cronMode :: cron_mode

datatype di_error =
    Circular key
  | NotRegistered key
  | CannotResolve nat
  | ConstructorThrew nat
  | FactoryThrew nat

definition container_new :: "cron_mode \<Rightarrow> container" where
  "container_new mode = \<lparr>ct_services = [], ct_stack = [], ct_listeners = [], ct_heap = [], ct_next = 0, ct_deliveries = [], ct_cronMode = mode\<rparr>"

section \<open>Events\<close>

definition on :: "string \<Rightarrow> listener \<Rightarrow> container \<Rightarrow> container" where
  "on event l st = st\<lparr>ct_listeners := js_set event
     (set_add l (case js_get (ct_listeners st) event of None \<Rightarrow> [] | Some ls \<Rightarrow> ls)) (ct_listeners st)\<rparr>"

definition off :: "string \<Rightarrow> listener \<Rightarrow> container \<Rightarrow> container" where
  "off event l st = (case js_get (ct_listeners st) event of None \<Rightarrow> st
     | Some ls \<Rightarrow> st\<lparr>ct_listeners := js_set event (set_del l ls) (ct_listeners st)\<rparr>)"

text \<open>A listener that throws is logged and does not keep the others from being called.\<close>

definition emit :: "string \<Rightarrow> container \<Rightarrow> container" where
  "emit event st = (case js_get (ct_listeners st) event of None \<Rightarrow> st
     | Some ls \<Rightarrow> st\<lparr>ct_deliveries := ct_deliveries st @ map (\<lambda>l. (event, l)) ls\<rparr>)"

section \<open>Registration\<close>

definition fresh_definition :: "service_type \<Rightarrow> bool \<Rightarrow> definition_entry" where
  "fresh_definition ty singleton = \<lparr>df_type = ty, df_singleton = singleton, df_instance = Undefined, df_hasInstance = False\<rparr>"

definition set_service :: "key \<Rightarrow> definition_entry \<Rightarrow> container \<Rightarrow> container" where
  "set_service k d st = st\<lparr>ct_services := js_set k d (ct_services st)\<rparr>"

definition register :: "world \<Rightarrow> nat \<Rightarrow> bool \<Rightarrow> container \<Rightarrow> container" where
  "register W c singleton st =
     emit ''registered'' (set_service (Class c) (fresh_definition (ClassService c) singleton)
       (set_service (Token (cl_name (w_class W c))) (fresh_definition (ClassService c) singleton) st))"

definition registerFactory :: "world \<Rightarrow> key \<Rightarrow> service_type \<Rightarrow> bool \<Rightarrow> container \<Rightarrow> container" where
  "registerFactory W k f singleton st =
     (case k of
        Token t \<Rightarrow> emit ''registered'' (set_service k (fresh_definition f singleton) st)
      | Class c \<Rightarrow> emit ''registered'' (set_service (Token (cl_name (w_class W c))) (fresh_definition f singleton)
          (set_service k (fresh_definition f singleton) st)))"

definition registerValue :: "world \<Rightarrow> key \<Rightarrow> val \<Rightarrow> container \<Rightarrow> container" where
  "registerValue W k v st =
     (let d = \<lparr>df_type = ValueService v, df_singleton = True, df_instance = v, df_hasInstance = True\<rparr>;
          st1 = set_service k d st
      in emit ''registered'' (case k of Token t \<Rightarrow> st1 | Class c \<Rightarrow> set_service (Token (cl_name (w_class W c))) d st1))"

definition has :: "key \<Rightarrow> container \<Rightarrow> bool" where
  "has k st = js_has (ct_services st) k"

definition clear :: "container \<Rightarrow> container" where
  "clear st = (emit ''cleared'' (st\<lparr>ct_services := []\<rparr>))\<lparr>ct_listeners := []\<rparr>"

definition getServiceNames :: "container \<Rightarrow> string list" where
  "getServiceNames st = List.map_filter (\<lambda>(k, _). case k of Token t \<Rightarrow> Some t | Class _ \<Rightarrow> None) (ct_services st)"

text \<open>\<open>mode\<close> is what the environment gives a new container.\<close>

definition fork :: "bool \<Rightarrow> cron_mode \<Rightarrow> container \<Rightarrow> container" where
  "fork carry mode st =
     (container_new mode)\<lparr>ct_services := js_mapv (\<lambda>k d. if carry then d else d\<lparr>df_instance := Undefined, df_hasInstance := False\<rparr>) (ct_services st),
        ct_heap := ct_heap st, ct_next := ct_next st\<rparr>"

section \<open>Instantiation\<close>

type_synonym outcome = "((di_error, val) result \<times> container) option"
type_synonym resolver = "key \<Rightarrow> container \<Rightarrow> outcome"

definition allocate :: "origin \<Rightarrow> val list \<Rightarrow> container \<Rightarrow> nat \<times> container" where
  "allocate o' args st = (ct_next st, st\<lparr>ct_next := ct_next st + 1,
     ct_heap := js_set (ct_next st) \<lparr>in_origin = o', in_args = args, in_props = []\<rparr> (ct_heap st)\<rparr>)"

definition truthy :: "key \<Rightarrow> bool" where
  "truthy k \<longleftrightarrow> k \<noteq> Token ''''"

definition param_type_at :: "class_info \<Rightarrow> nat \<Rightarrow> param_type" where
  "param_type_at ci i = (if i < length (cl_paramTypes ci) then cl_paramTypes ci ! i else NoType)"

text \<open>What parameter \<open>i\<close> is resolved from: a key, nothing, or a type nobody registered.\<close>

datatype dependency = FromKey key | Unknown | Missing

definition param_dependency :: "world \<Rightarrow> class_info \<Rightarrow> nat \<Rightarrow> container \<Rightarrow> dependency" where
  "param_dependency W ci i st =
     (case js_get (cl_paramInject ci) i of
        Some k \<Rightarrow> if truthy k then FromKey k else Unknown
      | None \<Rightarrow>
          (case param_type_at ci i of
             ClassType t \<Rightarrow>
               if has (Class t) st then FromKey (Class t)
               else if has (Token (cl_name (w_class W t))) st then FromKey (Token (cl_name (w_class W t)))
               else Missing
           | _ \<Rightarrow> Unknown))"

text \<open>The loop over the parameters: an unknown one pushes nothing.\<close>

fun resolve_params :: "world \<Rightarrow> resolver \<Rightarrow> nat \<Rightarrow> (nat, val) jsmap \<Rightarrow> nat list \<Rightarrow> val list \<Rightarrow> container \<Rightarrow>
    ((di_error, val list) result \<times> container) option" where
  "resolve_params W res c overrides [] deps st = Some (Inr deps, st)"
| "resolve_params W res c overrides (i # is) deps st =
     (case js_get overrides i of
        Some v \<Rightarrow> resolve_params W res c overrides is (deps @ [v]) st
      | None \<Rightarrow>
          (case param_dependency W (w_class W c) i st of
             Unknown \<Rightarrow> resolve_params W res c overrides is deps st
           | Missing \<Rightarrow> Some (Inl (CannotResolve c), st)
           | FromKey k \<Rightarrow>
               (case res k st of
                  None \<Rightarrow> None
                | Some (Inl e, st') \<Rightarrow> Some (Inl e, st')
                | Some (Inr v, st') \<Rightarrow> resolve_params W res c overrides is (deps @ [v]) st')))"

definition set_prop :: "nat \<Rightarrow> string \<Rightarrow> val \<Rightarrow> container \<Rightarrow> container" where
  "set_prop i name v st = (case js_get (ct_heap st) i of None \<Rightarrow> st
     | Some e \<Rightarrow> st\<lparr>ct_heap := js_set i (e\<lparr>in_props := js_set name v (in_props e)\<rparr>) (ct_heap st)\<rparr>)"

text \<open>The loop over the injected properties: any error is caught and logged.\<close>

fun inject_props :: "resolver \<Rightarrow> nat \<Rightarrow> (string \<times> key) list \<Rightarrow> container \<Rightarrow> container option" where
  "inject_props res i [] st = Some st"
| "inject_props res i ((name, k) # ps) st =
     (if \<not> truthy k then inject_props res i ps st
      else (case res k st of
          None \<Rightarrow> None
        | Some (Inl e, st') \<Rightarrow> inject_props res i ps st'
        | Some (Inr v, st') \<Rightarrow> inject_props res i ps (set_prop i name v st')))"

text \<open>The properties of the class and of its prototype; a name that starts like the entry of a parameter is passed over.\<close>

definition param_prefix :: string where
  "param_prefix = ''param_''"

definition all_props :: "class_info \<Rightarrow> (string, key) jsmap" where
  "all_props ci = filter (\<lambda>(n, k). take (length param_prefix) n \<noteq> param_prefix)
     (foldl (\<lambda>m (n, k). js_set n k m) (cl_propInject ci) (cl_protoInject ci))"

text \<open>A subscriber is wrapped in a closure of its own, so it is never a duplicate.\<close>

definition on_closure :: "string \<Rightarrow> listener \<Rightarrow> container \<Rightarrow> container" where
  "on_closure event l st = st\<lparr>ct_listeners := js_set event
     ((case js_get (ct_listeners st) event of None \<Rightarrow> [] | Some ls \<Rightarrow> ls) @ [l]) (ct_listeners st)\<rparr>"

definition apply_listeners :: "class_info \<Rightarrow> nat \<Rightarrow> container \<Rightarrow> container" where
  "apply_listeners ci i st =
     foldl (\<lambda>s (event, methods). foldl (\<lambda>s m. on_closure event (SubscriberMethod i m) s) s methods)
       (foldl (\<lambda>s m. on_closure ''telemetry'' (TelemetryMethod i m) s) st (cl_telemetryListeners ci)) (cl_subscribers ci)"

definition param_count :: "class_info \<Rightarrow> nat" where
  "param_count ci = max (length (cl_paramTypes ci)) (length (cl_paramNames ci))"

definition instantiate :: "world \<Rightarrow> resolver \<Rightarrow> service_type \<Rightarrow> (nat, val) jsmap \<Rightarrow> container \<Rightarrow> outcome" where
  "instantiate W res ty overrides st =
     (case ty of
        ValueService v \<Rightarrow> Some (Inr v, st)
      | FactoryService f \<Rightarrow> if w_makes W f then let (i, st') = allocate (FromFactory f) [] st in Some (Inr (Instance i), st')
                            else Some (Inl (FactoryThrew f), st)
      | BindingService b caller \<Rightarrow> let (i, st') = allocate (FromBinding b caller) [] st in Some (Inr (Instance i), st')
      | ClassService c \<Rightarrow>
          (let ci = w_class W c
           in case resolve_params W res c overrides [0..<param_count ci] [] st of
             None \<Rightarrow> None
           | Some (Inl e, st1) \<Rightarrow> Some (Inl e, st1)
           | Some (Inr args, st1) \<Rightarrow>
               if \<not> w_constructs W c args then Some (Inl (ConstructorThrew c), st1)
               else let (i, st2) = allocate (FromClass c) args st1; st3 = apply_listeners ci i st2
                    in (case inject_props res i (all_props ci) st3 of
                          None \<Rightarrow> None
                        | Some st4 \<Rightarrow> Some (Inr (Instance i), st4))))"

section \<open>Resolution\<close>

definition binding_prefix :: string where
  "binding_prefix = ''service-binding:''"

definition join_colon :: "string list \<Rightarrow> string" where
  "join_colon parts = join_with '':'' parts"

definition binding_parts :: "string \<Rightarrow> string option \<times> string" where
  "binding_parts t = (case split_on (CHR '':'') t of
       p0 # p1 # p2 # ps \<Rightarrow> (Some p1, join_colon (p2 # ps))
     | [p0, p1] \<Rightarrow> (None, p1)
     | _ \<Rightarrow> (None, ''''))"

datatype lookup = Found definition_entry container | Redirect key | Absent

text \<open>The definition of a key; an unknown service-binding token is redirected to the global token of the
  binding, or registered on the spot.\<close>

definition find_definition :: "world \<Rightarrow> key \<Rightarrow> container \<Rightarrow> lookup" where
  "find_definition W k st =
     (case js_get (ct_services st) k of
        Some d \<Rightarrow> Found d st
      | None \<Rightarrow>
          (case k of
             Class c \<Rightarrow> Absent
           | Token t \<Rightarrow>
               if take (length binding_prefix) t \<noteq> binding_prefix then Absent
               else let (caller, bindingName) = binding_parts t; globalToken = Token (binding_prefix @ bindingName)
                    in if has globalToken st \<and> k \<noteq> globalToken then Redirect globalToken
                       else let d = fresh_definition (BindingService bindingName caller) True
                            in Found d (registerFactory W k (BindingService bindingName caller) True st)))"

definition push :: "key \<Rightarrow> container \<Rightarrow> container" where
  "push k st = st\<lparr>ct_stack := set_add k (ct_stack st)\<rparr>"

definition pop :: "key \<Rightarrow> container \<Rightarrow> container" where
  "pop k st = st\<lparr>ct_stack := set_del k (ct_stack st)\<rparr>"

definition cache :: "key \<Rightarrow> val \<Rightarrow> container \<Rightarrow> container" where
  "cache k v st = (case js_get (ct_services st) k of None \<Rightarrow> st
     | Some d \<Rightarrow> if df_singleton d then set_service k (d\<lparr>df_instance := v, df_hasInstance := True\<rparr>) st else st)"

definition settle :: "key \<Rightarrow> outcome \<Rightarrow> outcome" where
  "settle k out = (case out of
       None \<Rightarrow> None
     | Some (Inl e, st) \<Rightarrow> Some (Inl e, pop k st)
     | Some (Inr v, st) \<Rightarrow> Some (Inr v, pop k (emit ''resolved'' (cache k v st))))"

primrec resolve :: "nat \<Rightarrow> world \<Rightarrow> key \<Rightarrow> container \<Rightarrow> outcome" where
  "resolve 0 = (\<lambda>W k st. None)"
| "resolve (Suc fuel) = (\<lambda>W k st.
     if k \<in> set (ct_stack st) then Some (Inl (Circular k), st)
     else (case find_definition W k st of
         Absent \<Rightarrow> Some (Inl (NotRegistered k), st)
       | Redirect g \<Rightarrow> resolve fuel W g st
       | Found d st1 \<Rightarrow>
           if df_singleton d \<and> df_hasInstance d then Some (Inr (df_instance d), emit ''resolved'' st1)
           else settle k (instantiate W (resolve fuel W) (df_type d) [] (push k st1))))"

definition construct :: "nat \<Rightarrow> world \<Rightarrow> nat \<Rightarrow> (nat, val) jsmap \<Rightarrow> container \<Rightarrow> outcome" where
  "construct fuel W c overrides st =
     (if Class c \<in> set (ct_stack st) then Some (Inl (Circular (Class c)), st)
      else case instantiate W (resolve fuel W) (ClassService c) overrides (push (Class c) st) of
        None \<Rightarrow> None
      | Some (Inl e, st') \<Rightarrow> Some (Inl e, pop (Class c) st')
      | Some (Inr v, st') \<Rightarrow> Some (Inr v, pop (Class c) (emit ''constructed'' st')))"

section \<open>What an operation leaves alone\<close>

text \<open>
  \<open>grows st st'\<close>: objects keep their origin and their constructor arguments, registrations keep their kind, an
  instance once cached stays, and no class is registered.  \<open>frame\<close> adds that the stack is restored.
\<close>

definition kept :: "definition_entry \<Rightarrow> definition_entry \<Rightarrow> bool" where
  "kept d d' \<longleftrightarrow> df_type d' = df_type d \<and> df_singleton d' = df_singleton d \<and>
     (df_singleton d \<and> df_hasInstance d \<longrightarrow> d' = d)"

definition same_object :: "instance_entry \<Rightarrow> instance_entry \<Rightarrow> bool" where
  "same_object e e' \<longleftrightarrow> in_origin e' = in_origin e \<and> in_args e' = in_args e"

definition grows :: "container \<Rightarrow> container \<Rightarrow> bool" where
  "grows st st' \<longleftrightarrow> ct_next st \<le> ct_next st' \<and>
     (\<forall>i e. js_get (ct_heap st) i = Some e \<longrightarrow> (\<exists>e'. js_get (ct_heap st') i = Some e' \<and> same_object e e')) \<and>
     (\<forall>k d. js_get (ct_services st) k = Some d \<longrightarrow> (\<exists>d'. js_get (ct_services st') k = Some d' \<and> kept d d')) \<and>
     (\<forall>k c d'. js_get (ct_services st') k = Some d' \<and> df_type d' = ClassService c \<longrightarrow>
        (\<exists>d. js_get (ct_services st) k = Some d \<and> kept d d'))"

definition frame :: "container \<Rightarrow> container \<Rightarrow> bool" where
  "frame st st' \<longleftrightarrow> grows st st' \<and> ct_stack st' = ct_stack st"

text \<open>Every object has a number below the next one.\<close>

definition heap_ok :: "container \<Rightarrow> bool" where
  "heap_ok st \<longleftrightarrow> (\<forall>i. js_has (ct_heap st) i \<longrightarrow> i < ct_next st)"

text \<open>A value is of a service's kind: a class yields one of its own objects.\<close>

fun has_type :: "container \<Rightarrow> service_type \<Rightarrow> val \<Rightarrow> bool" where
  "has_type st (ValueService u) v = (v = u)"
| "has_type st (ClassService c) v = (\<exists>i e. v = Instance i \<and> js_get (ct_heap st) i = Some e \<and> in_origin e = FromClass c)"
| "has_type st (FactoryService f) v = (\<exists>i e. v = Instance i \<and> js_get (ct_heap st) i = Some e \<and> in_origin e = FromFactory f)"
| "has_type st (BindingService b cl) v = (\<exists>i e. v = Instance i \<and> js_get (ct_heap st) i = Some e \<and> in_origin e = FromBinding b cl)"

definition well_typed :: "container \<Rightarrow> bool" where
  "well_typed st \<longleftrightarrow> heap_ok st \<and>
     (\<forall>k d. js_get (ct_services st) k = Some d \<and> df_hasInstance d \<longrightarrow> has_type st (df_type d) (df_instance d))"

lemma kept_refl [simp]: "kept d d"
  by (simp add: kept_def)

lemma kept_trans: "kept a b \<Longrightarrow> kept b c \<Longrightarrow> kept a c"
  by (auto simp: kept_def)

lemma kept_type: "kept d d' \<Longrightarrow> df_type d' = df_type d"
  by (simp add: kept_def)

lemma same_object_refl [simp]: "same_object e e"
  by (simp add: same_object_def)

lemma same_object_trans: "same_object a b \<Longrightarrow> same_object b c \<Longrightarrow> same_object a c"
  by (simp add: same_object_def)

lemma ct_grows_refl [simp]: "grows st st"
  by (auto simp: grows_def)

lemma grows_next: "grows st st' \<Longrightarrow> ct_next st \<le> ct_next st'"
  by (simp add: grows_def)

lemma grows_heap:
  "grows st st' \<Longrightarrow> js_get (ct_heap st) i = Some e \<Longrightarrow> \<exists>e'. js_get (ct_heap st') i = Some e' \<and> same_object e e'"
  by (simp add: grows_def)

lemma grows_service:
  "grows st st' \<Longrightarrow> js_get (ct_services st) k = Some d \<Longrightarrow> \<exists>d'. js_get (ct_services st') k = Some d' \<and> kept d d'"
  by (simp add: grows_def)

lemma grows_class:
  "grows st st' \<Longrightarrow> js_get (ct_services st') k = Some d' \<Longrightarrow> df_type d' = ClassService c \<Longrightarrow>
     \<exists>d. js_get (ct_services st) k = Some d \<and> kept d d'"
  unfolding grows_def by blast

lemma ct_grows_trans:
  assumes "grows a b" "grows b c"
  shows "grows a c"
  unfolding grows_def
proof (intro conjI allI impI; (elim conjE)?)
  show "ct_next a \<le> ct_next c"
    using grows_next assms by (meson order_trans)
next
  fix i e
  assume "js_get (ct_heap a) i = Some e"
  then show "\<exists>e'. js_get (ct_heap c) i = Some e' \<and> same_object e e'"
    using assms by (meson grows_heap same_object_trans)
next
  fix k d
  assume "js_get (ct_services a) k = Some d"
  then show "\<exists>d'. js_get (ct_services c) k = Some d' \<and> kept d d'"
    using assms by (meson grows_service kept_trans)
next
  fix k n d'
  assume d': "js_get (ct_services c) k = Some d'" "df_type d' = ClassService n"
  then obtain d1 where d1: "js_get (ct_services b) k = Some d1" "kept d1 d'"
    using assms(2) by (meson grows_class)
  then have "df_type d1 = ClassService n"
    using d' by (simp add: kept_type)
  then show "\<exists>d. js_get (ct_services a) k = Some d \<and> kept d d'"
    using assms(1) d1 by (meson grows_class kept_trans)
qed

lemma frame_refl [simp]: "frame st st"
  by (simp add: frame_def)

lemma frame_trans [trans]: "frame a b \<Longrightarrow> frame b c \<Longrightarrow> frame a c"
  unfolding frame_def using ct_grows_trans by auto

text \<open>Events touch the listeners and the deliveries only.\<close>

lemma emit_simps [simp]:
  "ct_services (emit event st) = ct_services st" "ct_stack (emit event st) = ct_stack st"
  "ct_heap (emit event st) = ct_heap st" "ct_next (emit event st) = ct_next st"
  "ct_listeners (emit event st) = ct_listeners st"
  by (simp_all add: emit_def split: option.split)

lemma on_simps [simp]:
  "ct_services (on event l st) = ct_services st" "ct_stack (on event l st) = ct_stack st"
  "ct_heap (on event l st) = ct_heap st" "ct_next (on event l st) = ct_next st"
  by (simp_all add: on_def)

lemma on_closure_simps [simp]:
  "ct_services (on_closure event l st) = ct_services st" "ct_stack (on_closure event l st) = ct_stack st"
  "ct_heap (on_closure event l st) = ct_heap st" "ct_next (on_closure event l st) = ct_next st"
  by (simp_all add: on_closure_def)

lemma off_simps [simp]:
  "ct_services (off event l st) = ct_services st" "ct_stack (off event l st) = ct_stack st"
  "ct_heap (off event l st) = ct_heap st" "ct_next (off event l st) = ct_next st"
  by (simp_all add: off_def split: option.split)

lemma foldl_field:
  assumes "\<And>s x. g (f s x) = g s"
  shows "g (foldl f s xs) = g s"
  by (induction xs arbitrary: s) (simp_all add: assms)

lemma apply_listeners_simps [simp]:
  "ct_services (apply_listeners ci i st) = ct_services st" "ct_stack (apply_listeners ci i st) = ct_stack st"
  "ct_heap (apply_listeners ci i st) = ct_heap st" "ct_next (apply_listeners ci i st) = ct_next st"
  by (simp_all add: apply_listeners_def foldl_field split: prod.split)

lemma set_service_simps [simp]:
  "ct_services (set_service k d st) = js_set k d (ct_services st)" "ct_stack (set_service k d st) = ct_stack st"
  "ct_heap (set_service k d st) = ct_heap st" "ct_next (set_service k d st) = ct_next st"
  by (simp_all add: set_service_def)

lemma push_pop_simps [simp]:
  "ct_services (push k st) = ct_services st" "ct_heap (push k st) = ct_heap st" "ct_next (push k st) = ct_next st"
  "ct_services (pop k st) = ct_services st" "ct_heap (pop k st) = ct_heap st" "ct_next (pop k st) = ct_next st"
  "ct_stack (push k st) = set_add k (ct_stack st)" "ct_stack (pop k st) = set_del k (ct_stack st)"
  by (simp_all add: push_def pop_def)

lemma set_del_add: "k \<notin> set xs \<Longrightarrow> set_del k (set_add k xs) = xs"
  by (auto simp: set_del_def set_add_def filter_id_conv)

lemma grows_origin:
  assumes "grows st st'" "js_get (ct_heap st) i = Some e"
  shows "\<exists>e'. js_get (ct_heap st') i = Some e' \<and> in_origin e' = in_origin e"
  using grows_heap[OF assms] by (auto simp: same_object_def)

lemma has_type_grows:
  assumes "has_type st ty v" "grows st st'"
  shows "has_type st' ty v"
proof (cases ty)
  case (ValueService u)
  then show ?thesis
    using assms(1) by simp
next
  case (ClassService c)
  then show ?thesis
    using assms(1) grows_origin[OF assms(2)] by simp metis
next
  case (FactoryService f)
  then show ?thesis
    using assms(1) grows_origin[OF assms(2)] by simp metis
next
  case (BindingService b cl)
  then show ?thesis
    using assms(1) grows_origin[OF assms(2)] by simp metis
qed

lemma well_typed_heap: "well_typed st \<Longrightarrow> heap_ok st"
  by (simp add: well_typed_def)

lemma well_typed_service:
  "well_typed st \<Longrightarrow> js_get (ct_services st) k = Some d \<Longrightarrow> df_hasInstance d \<Longrightarrow> has_type st (df_type d) (df_instance d)"
  unfolding well_typed_def by blast

text \<open>A step that leaves the services alone and the heap growing keeps the container well typed.\<close>

lemma well_typed_step:
  assumes "well_typed st" "grows st st'" "heap_ok st'" "ct_services st' = ct_services st"
  shows "well_typed st'"
  using assms by (auto simp: well_typed_def intro: has_type_grows)

lemma frame_emit: "frame st (emit event st)"
  by (simp add: frame_def grows_def)

lemma frame_on: "frame st (on event l st)"
  by (simp add: frame_def grows_def)

lemma frame_off: "frame st (off event l st)"
  by (simp add: frame_def grows_def)

lemma frame_apply_listeners: "frame st (apply_listeners ci i st)"
  by (simp add: frame_def grows_def)

lemma grows_push: "grows st (push k st)"
  by (simp add: grows_def)

lemma grows_pop: "grows st (pop k st)"
  by (simp add: grows_def)

lemma well_typed_quiet:
  assumes "well_typed st" "ct_services st' = ct_services st" "ct_heap st' = ct_heap st" "ct_next st' = ct_next st"
  shows "well_typed st'"
proof (rule well_typed_step[OF assms(1) _ _ assms(2)])
  show "grows st st'"
    by (simp add: grows_def assms(2,3,4))
  show "heap_ok st'"
    using well_typed_heap[OF assms(1)] by (simp add: heap_ok_def assms(3,4))
qed

lemma well_typed_emit [simp, intro]: "well_typed st \<Longrightarrow> well_typed (emit event st)"
  by (rule well_typed_quiet) simp_all

lemma well_typed_on [simp, intro]: "well_typed st \<Longrightarrow> well_typed (on event l st)"
  by (rule well_typed_quiet) simp_all

lemma well_typed_off [simp, intro]: "well_typed st \<Longrightarrow> well_typed (off event l st)"
  by (rule well_typed_quiet) simp_all

lemma well_typed_apply [simp, intro]: "well_typed st \<Longrightarrow> well_typed (apply_listeners ci i st)"
  by (rule well_typed_quiet) simp_all

lemma well_typed_push [simp, intro]: "well_typed st \<Longrightarrow> well_typed (push k st)"
  by (rule well_typed_quiet) simp_all

lemma well_typed_pop [simp, intro]: "well_typed st \<Longrightarrow> well_typed (pop k st)"
  by (rule well_typed_quiet) simp_all

lemma allocate_simps [simp]:
  "fst (allocate og args st) = ct_next st"
  "ct_services (snd (allocate og args st)) = ct_services st"
  "ct_stack (snd (allocate og args st)) = ct_stack st"
  "ct_next (snd (allocate og args st)) = Suc (ct_next st)"
  "js_get (ct_heap (snd (allocate og args st))) j =
     (if j = ct_next st then Some \<lparr>in_origin = og, in_args = args, in_props = []\<rparr> else js_get (ct_heap st) j)"
  "js_has (ct_heap (snd (allocate og args st))) j \<longleftrightarrow> j = ct_next st \<or> js_has (ct_heap st) j"
  by (simp_all add: allocate_def)

lemma heap_ok_next: "heap_ok st \<Longrightarrow> js_get (ct_heap st) i = Some e \<Longrightarrow> i < ct_next st"
  by (simp add: heap_ok_def js_has_def)

lemma frame_allocate:
  assumes "heap_ok st"
  shows "frame st (snd (allocate og args st))"
proof -
  have "js_get (ct_heap st) (ct_next st) = None"
    using heap_ok_next[OF assms, of "ct_next st"] by (cases "js_get (ct_heap st) (ct_next st)") auto
  then show ?thesis
    by (auto simp: frame_def grows_def)
qed

lemma well_typed_allocate:
  assumes "well_typed st"
  shows "well_typed (snd (allocate og args st))"
proof (rule well_typed_step[OF assms])
  show "grows st (snd (allocate og args st))"
    using frame_allocate[OF well_typed_heap[OF assms]] by (simp add: frame_def)
  show "heap_ok (snd (allocate og args st))"
    using well_typed_heap[OF assms] by (auto simp: heap_ok_def less_Suc_eq)
qed simp

lemma fresh_object:
  assumes "well_typed st"
  shows "frame st (snd (allocate og args st))" "well_typed (snd (allocate og args st))"
  using frame_allocate well_typed_heap well_typed_allocate assms by auto

lemma set_prop_simps [simp]:
  "ct_services (set_prop i n v st) = ct_services st" "ct_stack (set_prop i n v st) = ct_stack st"
  "ct_next (set_prop i n v st) = ct_next st"
  by (simp_all add: set_prop_def split: option.split)

lemma frame_set_prop: "frame st (set_prop i n v st)"
  by (auto simp: frame_def grows_def set_prop_def same_object_def split: option.split)

lemma well_typed_set_prop [simp, intro]:
  assumes "well_typed st"
  shows "well_typed (set_prop i n v st)"
proof (rule well_typed_step[OF assms])
  show "grows st (set_prop i n v st)"
    using frame_set_prop by (simp add: frame_def)
  show "heap_ok (set_prop i n v st)"
    using well_typed_heap[OF assms] heap_ok_next[OF well_typed_heap[OF assms]]
    by (auto simp: heap_ok_def set_prop_def split: option.split)
qed simp

section \<open>The resolver contract\<close>

text \<open>
  What \<open>instantiate\<close> relies on when it resolves a dependency: the container stays well typed and everything
  but fresh registrations, caches and objects is as before.
\<close>

locale resolver =
  fixes res :: resolver
  assumes res_frame: "well_typed st \<Longrightarrow> res k st = Some (r, st') \<Longrightarrow> frame st st'"
    and res_typed: "well_typed st \<Longrightarrow> res k st = Some (r, st') \<Longrightarrow> well_typed st'"
begin

lemma params_keep:
  "well_typed st \<Longrightarrow> resolve_params W res c ov is deps st = Some (r, st') \<Longrightarrow> frame st st' \<and> well_typed st'"
proof (induction "is" arbitrary: deps st)
  case (Cons i "is")
  show ?case
    using Cons.prems Cons.IH
    by (auto split: option.splits dependency.splits prod.splits sum.splits
        dest: res_frame res_typed intro: frame_trans)
qed simp

lemma props_keep:
  "well_typed st \<Longrightarrow> inject_props res i ps st = Some st' \<Longrightarrow> frame st st' \<and> well_typed st'"
proof (induction ps arbitrary: st)
  case (Cons p ps)
  obtain n k where p: "p = (n, k)"
    by (cases p)
  consider "\<not> truthy k" | e st1 where "truthy k" "res k st = Some (Inl e, st1)"
    | v st1 where "truthy k" "res k st = Some (Inr v, st1)"
    using Cons.prems p by (auto split: if_splits option.splits prod.splits sum.splits)
  then show ?case
  proof cases
    case 1
    then show ?thesis
      using Cons p by simp
  next
    case 2
    then show ?thesis
      using Cons p res_frame[OF Cons.prems(1) 2(2)] res_typed[OF Cons.prems(1) 2(2)] frame_trans by auto
  next
    case 3
    have st1: "frame st st1" "well_typed st1"
      using res_frame[OF Cons.prems(1) 3(2)] res_typed[OF Cons.prems(1) 3(2)] by auto
    have "inject_props res i ps (set_prop i n v st1) = Some st'"
      using Cons.prems p 3 by simp
    then have "frame (set_prop i n v st1) st' \<and> well_typed st'"
      using Cons.IH st1(2) by blast
    then show ?thesis
      using st1(1) frame_set_prop frame_trans by blast
  qed
qed simp

lemma instantiate_class:
  assumes "well_typed st" "instantiate W res (ClassService c) ov st = Some (Inr v, st')"
  obtains args st1 st3 where
    "resolve_params W res c ov [0..<param_count (w_class W c)] [] st = Some (Inr args, st1)"
    "w_constructs W c args" "v = Instance (ct_next st1)" "frame st st1" "well_typed st1"
    "st3 = apply_listeners (w_class W c) (ct_next st1) (snd (allocate (FromClass c) args st1))"
    "inject_props res (ct_next st1) (all_props (w_class W c)) st3 = Some st'"
    "well_typed st3" "frame st1 st3"
proof -
  obtain args st1 where ps:
      "resolve_params W res c ov [0..<param_count (w_class W c)] [] st = Some (Inr args, st1)"
    using assms(2) by (auto simp: instantiate_def Let_def split: option.splits prod.splits sum.splits)
  have st1: "frame st st1" "well_typed st1"
    using params_keep[OF assms(1) ps] by auto
  let ?st3 = "apply_listeners (w_class W c) (ct_next st1) (snd (allocate (FromClass c) args st1))"
  have st3: "well_typed ?st3" "frame st1 ?st3"
    using well_typed_allocate[OF st1(2)] frame_allocate[OF well_typed_heap[OF st1(2)]]
      frame_trans[OF _ frame_apply_listeners] by auto
  have "v = Instance (ct_next st1) \<and> w_constructs W c args \<and>
      inject_props res (ct_next st1) (all_props (w_class W c)) ?st3 = Some st'"
    using assms(2) ps by (auto simp: instantiate_def Let_def allocate_def split: option.splits if_splits)
  then show thesis
    using that[OF ps] st1 st3 by blast
qed

lemma instantiate_error:
  assumes "well_typed st" "instantiate W res ty ov st = Some (Inl e, st')"
  shows "frame st st' \<and> well_typed st'"
proof (cases ty)
  case (ClassService c)
  then show ?thesis
    using assms params_keep[OF assms(1)]
    by (auto simp: instantiate_def Let_def allocate_def split: option.splits prod.splits sum.splits if_splits)
qed (use assms in \<open>auto simp: instantiate_def allocate_def split: if_splits\<close>)

lemma instantiate_ok:
  assumes "well_typed st" "instantiate W res ty ov st = Some (Inr v, st')"
  shows "frame st st' \<and> well_typed st' \<and> has_type st' ty v"
proof (cases ty)
  case (ClassService c)
  obtain args st1 st3 where i:
    "v = Instance (ct_next st1)" "frame st st1"
    "st3 = apply_listeners (w_class W c) (ct_next st1) (snd (allocate (FromClass c) args st1))"
    "inject_props res (ct_next st1) (all_props (w_class W c)) st3 = Some st'"
    "well_typed st3" "frame st1 st3"
    using instantiate_class assms ClassService by metis
  have st': "frame st3 st'" "well_typed st'"
    using props_keep[OF i(5,4)] by auto
  have "has_type st3 ty v"
    using i(1,3) ClassService by simp
  then have "has_type st' ty v"
    using st'(1) has_type_grows by (simp add: frame_def)
  then show ?thesis
    using i(2,6) st' frame_trans by blast
next
  case (FactoryService f)
  then have "v = Instance (ct_next st)" "st' = snd (allocate (FromFactory f) [] st)"
    using assms(2) by (auto simp: instantiate_def allocate_def split: if_splits)
  then show ?thesis
    using FactoryService fresh_object[OF assms(1)] by simp
next
  case (BindingService b cl)
  then have "v = Instance (ct_next st)" "st' = snd (allocate (FromBinding b cl) [] st)"
    using assms(2) by (auto simp: instantiate_def allocate_def split: if_splits)
  then show ?thesis
    using BindingService fresh_object[OF assms(1)] by simp
qed (use assms in \<open>auto simp: instantiate_def\<close>)

end

section \<open>Resolution keeps the contract\<close>

lemma registerFactory_token_simps [simp]:
  "ct_services (registerFactory W (Token t) f s st) = js_set (Token t) (fresh_definition f s) (ct_services st)"
  "ct_heap (registerFactory W (Token t) f s st) = ct_heap st"
  "ct_next (registerFactory W (Token t) f s st) = ct_next st"
  "ct_stack (registerFactory W (Token t) f s st) = ct_stack st"
  by (simp_all add: registerFactory_def)

lemma fresh_definition_simps [simp]:
  "df_type (fresh_definition ty s) = ty" "df_singleton (fresh_definition ty s) = s" "\<not> df_hasInstance (fresh_definition ty s)"
  by (simp_all add: fresh_definition_def)

lemma find_known: "js_get (ct_services st) k = Some d \<Longrightarrow> find_definition W k st = Found d st"
  by (simp add: find_definition_def)

lemma find_class: "js_get (ct_services st) (Class c) = None \<Longrightarrow> find_definition W (Class c) st = Absent"
  by (simp add: find_definition_def)

lemma find_token:
  assumes "js_get (ct_services st) (Token t) = None" "binding_parts t = (caller, b)"
  shows "find_definition W (Token t) st =
    (if take (length binding_prefix) t \<noteq> binding_prefix then Absent
     else if has (Token (binding_prefix @ b)) st \<and> t \<noteq> binding_prefix @ b then Redirect (Token (binding_prefix @ b))
     else Found (fresh_definition (BindingService b caller) True)
            (registerFactory W (Token t) (BindingService b caller) True st))"
  by (simp add: find_definition_def assms Let_def)

lemma found_cases:
  assumes "find_definition W k st = Found d st1"
  obtains (known) "js_get (ct_services st) k = Some d" "st1 = st"
  | (bound) t b cl where "k = Token t" "js_get (ct_services st) k = None" "d = fresh_definition (BindingService b cl) True"
      "st1 = registerFactory W k (BindingService b cl) True st"
proof (cases "js_get (ct_services st) k")
  case None
  then obtain t where t: "k = Token t"
    using assms by (cases k) (simp_all add: find_class)
  obtain cl b where b: "binding_parts t = (cl, b)"
    by (cases "binding_parts t")
  have none: "js_get (ct_services st) (Token t) = None"
    using None t by blast
  have found: "find_definition W (Token t) st = Found d st1"
    using assms t by blast
  have d: "d = fresh_definition (BindingService b cl) True"
    using found by (simp add: find_token[OF none b] split: if_splits)
  have s: "st1 = registerFactory W k (BindingService b cl) True st"
    using found by (simp add: t find_token[OF none b] split: if_splits)
  show thesis
    by (rule bound[OF t None d s])
next
  case (Some d')
  then have "d' = d" "st1 = st"
    using assms by (simp_all add: find_known[OF Some])
  then show thesis
    using known[OF _ \<open>st1 = st\<close>] Some by blast
qed

lemma unknown_key:
  assumes "\<nexists>d st1. find_definition W k st = Found d st1"
  shows "js_get (ct_services st) k = None"
  using assms find_known by (cases "js_get (ct_services st) k") auto

lemma redirect_cases:
  assumes "find_definition W k st = Redirect g"
  shows "has g st"
proof -
  have "js_get (ct_services st) k = None"
    using assms unknown_key[of W k st] by simp
  moreover from this obtain t where t: "k = Token t"
    using assms by (cases k) (simp_all add: find_class)
  moreover obtain cl b where "binding_parts t = (cl, b)"
    by (cases "binding_parts t")
  ultimately show ?thesis
    using assms by (auto simp: find_token split: if_splits)
qed

lemma found_keeps:
  assumes "find_definition W k st = Found d st1"
  shows "frame st st1" "well_typed st \<Longrightarrow> well_typed st1" "js_get (ct_services st1) k = Some d"
proof -
  show fr: "frame st st1"
    using assms by (cases rule: found_cases) (auto simp: frame_def grows_def)
  show "js_get (ct_services st1) k = Some d"
    using assms by (cases rule: found_cases) auto
  show "well_typed st1" if wt: "well_typed st"
    using assms
  proof (cases rule: found_cases)
    case bound
    have "heap_ok st1"
      using well_typed_heap[OF wt] bound by (simp add: heap_ok_def)
    then show ?thesis
      using bound has_type_grows[OF well_typed_service[OF wt]] fr
      by (auto simp: well_typed_def frame_def split: if_splits)
  qed (use wt in simp)
qed

lemma cache_simps [simp]:
  "ct_stack (cache k v st) = ct_stack st" "ct_heap (cache k v st) = ct_heap st" "ct_next (cache k v st) = ct_next st"
  by (simp_all add: cache_def split: option.split)

lemma cache_services:
  assumes "js_get (ct_services st) k = Some d"
  shows "js_get (ct_services (cache k v st)) k' =
    (if k' = k \<and> df_singleton d then Some (d\<lparr>df_instance := v, df_hasInstance := True\<rparr>) else js_get (ct_services st) k')"
  using assms by (auto simp: cache_def)

lemma grows_cache:
  assumes "grows st0 st" "js_get (ct_services st0) k = Some d" "\<not> (df_singleton d \<and> df_hasInstance d)"
  shows "grows st0 (cache k v st)"
proof -
  obtain d1 where d1: "js_get (ct_services st) k = Some d1" "kept d d1"
    using grows_service[OF assms(1,2)] by auto
  have sv: "\<exists>d'. js_get (ct_services (cache k v st)) j = Some d' \<and> kept c d'"
    if "js_get (ct_services st0) j = Some c" for j c
    using grows_service[OF assms(1) that] assms(2,3) d1 that by (auto simp: cache_services[OF d1(1)] kept_def)
  have cl: "\<exists>c. js_get (ct_services st0) j = Some c \<and> kept c d'"
    if "js_get (ct_services (cache k v st)) j = Some d'" "df_type d' = ClassService n" for j d' n
    using that assms(2,3) d1 grows_class[OF assms(1)]
    by (cases "j = k \<and> df_singleton d1") (auto simp: cache_services[OF d1(1)] kept_def)
  show ?thesis
    unfolding grows_def using sv cl grows_next[OF assms(1)] grows_heap[OF assms(1)] by auto
qed

lemma well_typed_cache:
  assumes "well_typed st" "js_get (ct_services st) k = Some d" "has_type st (df_type d) v"
  shows "well_typed (cache k v st)"
proof -
  have same: "has_type (cache k v st) ty u" if "has_type st ty u" for ty u
    using that by (cases ty) auto
  show ?thesis
    using assms same by (auto simp: well_typed_def heap_ok_def cache_services[OF assms(2)])
qed

lemma settle_keeps:
  assumes wt: "well_typed st1" and d: "js_get (ct_services st1) k = Some d" "\<not> (df_singleton d \<and> df_hasInstance d)"
    and k: "k \<notin> set (ct_stack st1)" and st2: "frame (push k st1) st2" "well_typed st2"
    and ty: "\<And>v. r = Inr v \<Longrightarrow> has_type st2 (df_type d) v"
    and out: "settle k (Some (r, st2)) = Some (r', st')"
  shows "r' = r" "frame st1 st'" "well_typed st'"
    "r = Inr v \<Longrightarrow> has_type st' (df_type d) v"
    "r = Inr v \<Longrightarrow> df_singleton d \<Longrightarrow> \<exists>d'. js_get (ct_services st') k = Some d' \<and> kept d d' \<and> df_hasInstance d' \<and> df_instance d' = v"
proof -
  have g: "grows st1 st2"
    using st2(1)[unfolded frame_def] ct_grows_trans[OF grows_push] by blast
  obtain d2 where d2: "js_get (ct_services st2) k = Some d2" "kept d d2"
    using grows_service[OF g d(1)] by auto
  have stack: "set_del k (ct_stack st2) = ct_stack st1"
    using st2(1) set_del_add[OF k] by (simp add: frame_def)
  show "r' = r"
    using out by (auto simp: settle_def split: sum.splits)
  show "frame st1 st'"
  proof (cases r)
    case (Inl e)
    then show ?thesis
      using out g stack ct_grows_trans[OF g grows_pop] by (auto simp: settle_def frame_def)
  next
    case (Inr v)
    have "grows st1 (cache k v st2)"
      by (rule grows_cache[OF g d])
    moreover have "st' = pop k (emit ''resolved'' (cache k v st2))"
      using out Inr by (simp add: settle_def)
    ultimately show ?thesis
      using stack frame_emit[of "cache k v st2" "''resolved''"] grows_pop ct_grows_trans by (auto simp: frame_def)
  qed
  show "well_typed st'"
  proof (cases r)
    case (Inr v)
    then have "has_type st2 (df_type d2) v"
      using ty d2(2) by (simp add: kept_type)
    then show ?thesis
      using out Inr well_typed_cache[OF st2(2) d2(1)] by (auto simp: settle_def)
  qed (use out st2 in \<open>auto simp: settle_def\<close>)
  show "has_type st' (df_type d) v" if "r = Inr v"
  proof -
    have "st' = pop k (emit ''resolved'' (cache k v st2))"
      using out that by (simp add: settle_def)
    then show ?thesis
      using ty[OF that] by (cases "df_type d") auto
  qed
  show "\<exists>d'. js_get (ct_services st') k = Some d' \<and> kept d d' \<and> df_hasInstance d' \<and> df_instance d' = v"
    if "r = Inr v" "df_singleton d"
    using out that d2 d(2) by (auto simp: settle_def cache_services[OF d2(1)] kept_def)
qed

lemma resolve_found:
  assumes "k \<notin> set (ct_stack st)" "find_definition W k st = Found d st1" "\<not> (df_singleton d \<and> df_hasInstance d)"
    "resolve (Suc fuel) W k st = Some (r, st')"
  obtains r2 st2 where "instantiate W (resolve fuel W) (df_type d) [] (push k st1) = Some (r2, st2)"
    "settle k (Some (r2, st2)) = Some (r, st')"
proof -
  have "settle k (instantiate W (resolve fuel W) (df_type d) [] (push k st1)) = Some (r, st')"
    using assms by (simp split: if_splits)
  then show thesis
    using that by (cases "instantiate W (resolve fuel W) (df_type d) [] (push k st1)") (auto simp: settle_def)
qed

lemma resolve_keeps:
  "well_typed st \<Longrightarrow> resolve fuel W k st = Some (r, st') \<Longrightarrow> frame st st' \<and> well_typed st'"
proof (induction fuel arbitrary: k st r st')
  case (Suc fuel)
  have res: "resolver (resolve fuel W)"
    using Suc.IH by unfold_locales blast+
  show ?case
  proof (cases "k \<in> set (ct_stack st)")
    case False
    show ?thesis
    proof (cases "find_definition W k st")
      case (Found d st1)
      note f = found_keeps[OF Found] and fresh = False
      show ?thesis
      proof (cases "df_singleton d \<and> df_hasInstance d")
        case True
        then have "st' = emit ''resolved'' st1"
          using Suc.prems(2) Found fresh by simp
        then show ?thesis
          using f(1,2) Suc.prems(1) frame_emit frame_trans by blast
      next
        case False
        obtain r2 st2 where i: "instantiate W (resolve fuel W) (df_type d) [] (push k st1) = Some (r2, st2)"
            "settle k (Some (r2, st2)) = Some (r, st')"
          using resolve_found[OF fresh Found False Suc.prems(2)] .
        have wt: "well_typed (push k st1)"
          using f(2) Suc.prems(1) by auto
        have "frame (push k st1) st2 \<and> well_typed st2 \<and> (\<forall>v. r2 = Inr v \<longrightarrow> has_type st2 (df_type d) v)"
          using i(1) resolver.instantiate_ok[OF res wt] resolver.instantiate_error[OF res wt] by (cases r2) auto
        moreover have "k \<notin> set (ct_stack st1)"
          using f(1) fresh by (simp add: frame_def)
        ultimately show ?thesis
          using settle_keeps(2,3)[OF f(2)[OF Suc.prems(1)] f(3) False _ _ _ _ i(2)] frame_trans[OF f(1)] by auto
      qed
    next
      case (Redirect g)
      then show ?thesis
        using Suc False by simp
    next
      case Absent
      then show ?thesis
        using Suc.prems False by simp
    qed
  qed (use Suc.prems in simp)
qed simp

interpretation resolution: resolver "resolve fuel W" for fuel W
  using resolve_keeps by unfold_locales blast+

section \<open>Resolution terminates\<close>

text \<open>
  The keys that can make resolution recurse are the registered classes that are not being resolved.
  Every one of them costs a step, and a redirect before it another.
\<close>

definition open_classes :: "container \<Rightarrow> key set" where
  "open_classes st = {k. \<exists>d c. js_get (ct_services st) k = Some d \<and> df_type d = ClassService c} - set (ct_stack st)"

lemma finite_open_classes [simp]: "finite (open_classes st)"
proof -
  have "open_classes st \<subseteq> fst ` set (ct_services st)"
    by (auto simp: open_classes_def dest!: map_of_SomeD intro: rev_image_eqI)
  then show ?thesis
    using finite_subset by blast
qed

lemma card_open_classes: "card (open_classes st) \<le> length (ct_services st)"
proof -
  have "open_classes st \<subseteq> fst ` set (ct_services st)"
    by (auto simp: open_classes_def dest!: map_of_SomeD intro: rev_image_eqI)
  then have "card (open_classes st) \<le> card (fst ` set (ct_services st))"
    by (simp add: card_mono)
  also have "\<dots> \<le> length (ct_services st)"
    using card_image_le[of "set (ct_services st)" fst] card_length[of "ct_services st"] by simp
  finally show ?thesis .
qed

lemma frame_open_classes:
  assumes "frame st st'"
  shows "open_classes st' \<subseteq> open_classes st"
proof
  fix k
  assume "k \<in> open_classes st'"
  then obtain d' c where d': "js_get (ct_services st') k = Some d'" "df_type d' = ClassService c" "k \<notin> set (ct_stack st')"
    by (auto simp: open_classes_def)
  then obtain d where "js_get (ct_services st) k = Some d" "kept d d'"
    using assms[unfolded frame_def] grows_class by blast
  moreover from this have "df_type d = ClassService c"
    using d'(2) by (simp add: kept_type)
  ultimately show "k \<in> open_classes st"
    using d'(3) assms by (simp add: open_classes_def frame_def)
qed

text \<open>A resolver that answers on every container no larger than \<open>n\<close>.\<close>

definition answers :: "nat \<Rightarrow> resolver \<Rightarrow> bool" where
  "answers n res \<longleftrightarrow> (\<forall>k st. well_typed st \<longrightarrow> card (open_classes st) \<le> n \<longrightarrow> (\<exists>r st'. res k st = Some (r, st')))"

lemma answersD:
  "answers n res \<Longrightarrow> well_typed st \<Longrightarrow> card (open_classes st) \<le> n \<Longrightarrow> \<exists>r st'. res k st = Some (r, st')"
  unfolding answers_def by blast

lemma frame_card: "frame st st' \<Longrightarrow> card (open_classes st') \<le> card (open_classes st)"
  by (simp add: card_mono frame_open_classes)

context resolver
begin

lemma params_answer:
  assumes "answers n res"
  shows "well_typed st \<Longrightarrow> card (open_classes st) \<le> n \<Longrightarrow> \<exists>r st'. resolve_params W res c ov is deps st = Some (r, st')"
proof (induction "is" arbitrary: deps st)
  case (Cons i "is")
  have step: "\<exists>r st'. resolve_params W res c ov is ds st1 = Some (r, st')"
    if "res k st = Some (Inr v, st1)" for k v st1 ds
    using Cons.IH res_typed[OF Cons.prems(1) that] frame_card[OF res_frame[OF Cons.prems(1) that]] Cons.prems(2)
    by (meson order_trans)
  show ?case
  proof (cases "js_get ov i")
    case (Some v)
    then show ?thesis
      using Cons by simp
  next
    case None
    show ?thesis
    proof (cases "param_dependency W (w_class W c) i st")
      case (FromKey k)
      obtain r1 st1 where "res k st = Some (r1, st1)"
        using answersD[OF assms Cons.prems] by blast
      then show ?thesis
        using None FromKey step by (cases r1) auto
    qed (use None Cons in auto)
  qed
qed simp

lemma props_answer:
  assumes "answers n res"
  shows "well_typed st \<Longrightarrow> card (open_classes st) \<le> n \<Longrightarrow> \<exists>st'. inject_props res i ps st = Some st'"
proof (induction ps arbitrary: st)
  case (Cons p ps)
  obtain name k where p: "p = (name, k)"
    by (cases p)
  obtain r st1 where r: "res k st = Some (r, st1)"
    using answersD[OF assms Cons.prems] by blast
  have st1: "well_typed st1" "card (open_classes st1) \<le> n"
    using res_typed[OF Cons.prems(1) r] frame_card[OF res_frame[OF Cons.prems(1) r]] Cons.prems(2) by auto
  have "card (open_classes (set_prop i name v st1)) \<le> n" for v
    using frame_card[OF frame_set_prop] st1(2) order_trans by blast
  then have "\<exists>st'. inject_props res i ps (set_prop i name v st1) = Some st'" for v
    using Cons.IH st1(1) by blast
  moreover have "\<exists>st'. inject_props res i ps st1 = Some st'"
    using Cons.IH st1 by blast
  ultimately show ?case
    using p r Cons by (cases r) auto
qed simp

lemma instantiate_answers:
  assumes "answers n res" "well_typed st" "card (open_classes st) \<le> n"
  shows "\<exists>r st'. instantiate W res ty ov st = Some (r, st')"
proof (cases ty)
  case (ClassService c)
  let ?ci = "w_class W c"
  obtain r1 st1 where r1: "resolve_params W res c ov [0..<param_count ?ci] [] st = Some (r1, st1)"
    using params_answer[OF assms] by blast
  have st1: "frame st st1" "well_typed st1"
    using params_keep[OF assms(2) r1] by auto
  let ?st3 = "\<lambda>args. apply_listeners ?ci (ct_next st1) (snd (allocate (FromClass c) args st1))"
  have "frame st (?st3 args)" "well_typed (?st3 args)" for args
    using fresh_object[OF st1(2)] frame_apply_listeners frame_trans st1(1) by blast+
  then have "\<exists>st'. inject_props res (ct_next st1) (all_props ?ci) (?st3 args) = Some st'" for args
    using props_answer[OF assms(1)] frame_card assms(3) order_trans by meson
  then obtain st4 where "inject_props res (ct_next st1) (all_props ?ci) (?st3 args) = Some (st4 args)" for args
    by metis
  then show ?thesis
    using ClassService r1 by (cases r1) (simp_all add: instantiate_def Let_def allocate_def)
qed (auto simp: instantiate_def allocate_def)

end

text \<open>Two levels of nesting for every open class, one more for a redirect and one to answer.\<close>

lemma resolve_answers:
  "well_typed st \<Longrightarrow> 2 * card (open_classes st) + (if has k st then 1 else 2) \<le> fuel \<Longrightarrow>
     \<exists>r st'. resolve fuel W k st = Some (r, st')"
proof (induction fuel arbitrary: k st rule: less_induct)
  case (less fuel)
  obtain f where f: "fuel = Suc f"
    using less.prems by (cases fuel) (auto split: if_splits)
  show ?case
  proof (cases "k \<in> set (ct_stack st)")
    case False
    show ?thesis
    proof (cases "find_definition W k st")
      case (Found d st1)
      note g = found_keeps[OF Found]
      show ?thesis
      proof (cases "df_singleton d \<and> df_hasInstance d")
        case stale: False
        have wt: "well_typed (push k st1)"
          using g less.prems by auto
        have "\<exists>r st'. instantiate W (resolve f W) (df_type d) [] (push k st1) = Some (r, st')"
        proof (cases "\<exists>c. df_type d = ClassService c")
          case True
          then have "k \<in> open_classes st1"
            using g(1,3) False by (auto simp: open_classes_def frame_def)
          moreover have "open_classes (push k st1) = open_classes st1 - {k}"
            by (auto simp: open_classes_def)
          ultimately have "Suc (card (open_classes (push k st1))) = card (open_classes st1)"
            using card_Suc_Diff1[OF finite_open_classes] by metis
          then have n: "Suc (card (open_classes (push k st1))) \<le> card (open_classes st)"
            using frame_card[OF g(1)] by simp
          have "answers (card (open_classes (push k st1))) (resolve f W)"
            unfolding answers_def using less.IH[of f] n less.prems(2) f by (auto split: if_splits)
          then show ?thesis
            using resolution.instantiate_answers wt by blast
        qed (cases "df_type d", auto simp: instantiate_def allocate_def)
        then obtain r st' where "instantiate W (resolve f W) (df_type d) [] (push k st1) = Some (r, st')"
          by blast
        then show ?thesis
          using f False Found stale by (cases r) (auto simp: settle_def)
      qed (use f False Found in auto)
    next
      case (Redirect key)
      have "has key st" "\<not> has k st"
        using redirect_cases[OF Redirect] unknown_key[of W k st] Redirect by (auto simp: has_def js_has_def)
      then show ?thesis
        using less.IH[of f st key] less.prems f False Redirect by simp
    qed (use f False in auto)
  qed (use f in simp)
qed

lemma construct_keeps:
  assumes "well_typed st" "construct fuel W c ov st = Some (r, st')"
  shows "frame st st' \<and> well_typed st'"
proof (cases "Class c \<in> set (ct_stack st)")
  case False
  have wt: "well_typed (push (Class c) st)"
    using assms(1) by auto
  obtain r2 st2 where i: "instantiate W (resolve fuel W) (ClassService c) ov (push (Class c) st) = Some (r2, st2)"
    using assms(2) False by (auto simp: construct_def split: option.splits)
  have st2: "frame (push (Class c) st) st2" "well_typed st2"
    using resolution.instantiate_ok[OF wt] resolution.instantiate_error[OF wt] i by (cases r2; blast)+
  have stack: "set_del (Class c) (ct_stack st2) = ct_stack st"
    using st2(1) set_del_add[OF False] by (simp add: frame_def)
  have g: "grows st st2"
    using st2(1)[unfolded frame_def] ct_grows_trans[OF grows_push] by blast
  have "st' = pop (Class c) st2 \<or> st' = pop (Class c) (emit ''constructed'' st2)"
    using assms(2) False i by (auto simp: construct_def split: sum.splits)
  then show ?thesis
    using g stack st2(2) ct_grows_trans[OF g grows_pop] frame_emit[of st2 "''constructed''"]
      ct_grows_trans[OF g] ct_grows_trans[OF _ grows_pop] by (auto simp: frame_def)
qed (use assms in \<open>simp add: construct_def\<close>)

section \<open>Reachable containers\<close>

inductive reachable :: "world \<Rightarrow> container \<Rightarrow> bool" for W where
  start: "reachable W (container_new mode)"
| register: "reachable W st \<Longrightarrow> reachable W (register W c s st)"
| registerFactory: "reachable W st \<Longrightarrow> reachable W (registerFactory W k f s st)"
| registerValue: "reachable W st \<Longrightarrow> reachable W (registerValue W k v st)"
| on: "reachable W st \<Longrightarrow> reachable W (on event l st)"
| off: "reachable W st \<Longrightarrow> reachable W (off event l st)"
| emit: "reachable W st \<Longrightarrow> reachable W (emit event st)"
| clear: "reachable W st \<Longrightarrow> reachable W (clear st)"
| fork: "reachable W st \<Longrightarrow> reachable W (fork carry mode st)"
| resolve: "reachable W st \<Longrightarrow> resolve fuel W k st = Some (r, st') \<Longrightarrow> reachable W st'"
| construct: "reachable W st \<Longrightarrow> construct fuel W c ov st = Some (r, st') \<Longrightarrow> reachable W st'"

lemma has_type_heap: "ct_heap st' = ct_heap st \<Longrightarrow> has_type st' ty v = has_type st ty v"
  by (cases ty) simp_all

lemma well_typed_set_service:
  assumes "well_typed st" "df_hasInstance d \<Longrightarrow> has_type st (df_type d) (df_instance d)"
  shows "well_typed (set_service k d st)"
  using assms has_type_heap[of "set_service k d st" st]
  by (auto simp: well_typed_def heap_ok_def split: if_splits)

lemma reachable_ok: "reachable W st \<Longrightarrow> well_typed st \<and> ct_stack st = []"
proof (induction rule: reachable.induct)
  case (start mode)
  then show ?case
    by (simp add: container_new_def well_typed_def heap_ok_def js_has_def)
next
  case (register st c s)
  then show ?case
    by (auto simp: Container.register_def intro!: well_typed_set_service)
next
  case (registerFactory st k f s)
  then show ?case
    by (cases k) (auto simp: Container.registerFactory_def intro!: well_typed_set_service)
next
  case (registerValue st k v)
  then show ?case
    by (cases k) (auto simp: registerValue_def Let_def intro!: well_typed_set_service)
next
  case (clear st)
  then show ?case
    by (simp add: clear_def well_typed_def heap_ok_def)
next
  case (fork st carry mode)
  then show ?case
    using has_type_heap[of "fork carry mode st" st]
    by (auto simp: fork_def container_new_def well_typed_def heap_ok_def)
next
  case (resolve st fuel k r st')
  then show ?case
    using resolve_keeps by (auto simp: frame_def)
next
  case (construct st fuel c ov r st')
  then show ?case
    using construct_keeps by (auto simp: frame_def)
qed auto

text \<open>
  What may happen to a container between two uses of the service \<open>key\<close>: any operation, except that \<open>key\<close> itself is
  not registered anew and the container is not cleared.  A registration under a class is one under its name as well.
\<close>

definition keys_of :: "world \<Rightarrow> key \<Rightarrow> key set" where
  "keys_of W k = (case k of Token t \<Rightarrow> {Token t} | Class c \<Rightarrow> {Class c, Token (cl_name (w_class W c))})"

inductive later :: "world \<Rightarrow> key \<Rightarrow> container \<Rightarrow> container \<Rightarrow> bool" for W and key and st where
  same: "later W key st st"
| register: "later W key st s \<Longrightarrow> key \<notin> keys_of W (Class c) \<Longrightarrow> later W key st (register W c singleton s)"
| registerFactory: "later W key st s \<Longrightarrow> key \<notin> keys_of W k \<Longrightarrow> later W key st (registerFactory W k f singleton s)"
| registerValue: "later W key st s \<Longrightarrow> key \<notin> keys_of W k \<Longrightarrow> later W key st (registerValue W k v s)"
| resolve: "later W key st s \<Longrightarrow> resolve fuel W k s = Some (r, s') \<Longrightarrow> later W key st s'"
| construct: "later W key st s \<Longrightarrow> construct fuel W c ov s = Some (r, s') \<Longrightarrow> later W key st s'"
| on: "later W key st s \<Longrightarrow> later W key st (on event l s)"
| off: "later W key st s \<Longrightarrow> later W key st (off event l s)"
| emit: "later W key st s \<Longrightarrow> later W key st (emit event s)"

text \<open>A container between two operations that holds the cached entry \<open>d\<close> under \<open>key\<close>.\<close>

definition holds_cached :: "key \<Rightarrow> definition_entry \<Rightarrow> container \<Rightarrow> bool" where
  "holds_cached key d s \<longleftrightarrow> well_typed s \<and> ct_stack s = [] \<and> js_get (ct_services s) key = Some d"

lemma holds_cached_frame:
  assumes "holds_cached key d s" "df_singleton d" "df_hasInstance d" "frame s s'" "well_typed s'"
  shows "holds_cached key d s'"
  using assms grows_service[of s s' key d] by (auto simp: holds_cached_def frame_def kept_def)

lemma holds_cached_set_service:
  assumes "holds_cached key d s" "key \<noteq> k" "df_hasInstance d' \<Longrightarrow> has_type s (df_type d') (df_instance d')"
  shows "holds_cached key d (set_service k d' s)"
  using assms well_typed_set_service[of s d' k] by (simp add: holds_cached_def)

lemma holds_cached_emit: "holds_cached key d s \<Longrightarrow> holds_cached key d (Container.emit event s)"
  using frame_emit[of s event] by (simp add: holds_cached_def)

lemma holds_cached_register:
  assumes "holds_cached key d s" "key \<notin> keys_of W (Class c)"
  shows "holds_cached key d (Container.register W c singleton s)"
  unfolding Container.register_def using assms
  by (intro holds_cached_emit holds_cached_set_service) (simp_all add: keys_of_def fresh_definition_def)

lemma holds_cached_registerFactory:
  assumes "holds_cached key d s" "key \<notin> keys_of W k"
  shows "holds_cached key d (Container.registerFactory W k f singleton s)"
proof (cases k)
  case (Token t)
  show ?thesis
    unfolding Container.registerFactory_def Token key.case using assms Token
    by (intro holds_cached_emit holds_cached_set_service) (simp_all add: keys_of_def fresh_definition_def)
next
  case (Class c)
  show ?thesis
    unfolding Container.registerFactory_def Class key.case using assms Class
    by (intro holds_cached_emit holds_cached_set_service) (simp_all add: keys_of_def fresh_definition_def)
qed

lemma holds_cached_registerValue:
  assumes "holds_cached key d s" "key \<notin> keys_of W k"
  shows "holds_cached key d (Container.registerValue W k v s)"
proof (cases k)
  case (Token t)
  show ?thesis
    unfolding Container.registerValue_def Let_def Token key.case using assms Token
    by (intro holds_cached_emit holds_cached_set_service) (simp_all add: keys_of_def)
next
  case (Class c)
  show ?thesis
    unfolding Container.registerValue_def Let_def Class key.case using assms Class
    by (intro holds_cached_emit holds_cached_set_service) (simp_all add: keys_of_def)
qed

lemma later_holds_cached:
  assumes "later W key st s" "holds_cached key d st" "df_singleton d" "df_hasInstance d"
  shows "holds_cached key d s"
  using assms(1)
proof (induction rule: later.induct)
  case same
  show ?case
    by (rule assms(2))
next
  case (register s c singleton)
  show ?case
    by (rule holds_cached_register[OF register.IH register.hyps(2)])
next
  case (registerFactory s k f singleton)
  show ?case
    by (rule holds_cached_registerFactory[OF registerFactory.IH registerFactory.hyps(2)])
next
  case (registerValue s k v)
  show ?case
    by (rule holds_cached_registerValue[OF registerValue.IH registerValue.hyps(2)])
next
  case (resolve s fuel k r s')
  have "well_typed s"
    using resolve.IH by (simp add: holds_cached_def)
  then have "frame s s'" "well_typed s'"
    using resolve_keeps[OF _ resolve.hyps(2)] by auto
  then show ?case
    by (rule holds_cached_frame[OF resolve.IH assms(3,4)])
next
  case (construct s fuel c ov r s')
  have "well_typed s"
    using construct.IH by (simp add: holds_cached_def)
  then have "frame s s'" "well_typed s'"
    using construct_keeps[OF _ construct.hyps(2)] by auto
  then show ?case
    by (rule holds_cached_frame[OF construct.IH assms(3,4)])
next
  case (on s event l)
  then show ?case
    using frame_on[of s event l] by (simp add: holds_cached_frame[OF on.IH assms(3,4)] holds_cached_def)
next
  case (off s event l)
  then show ?case
    using frame_off[of s event l] by (simp add: holds_cached_frame[OF off.IH assms(3,4)] holds_cached_def)
next
  case (emit s event)
  show ?case
    by (rule holds_cached_emit[OF emit.IH])
qed

lemma resolve_known:
  assumes wt: "well_typed st" and d: "js_get (ct_services st) k = Some d"
    and out: "resolve fuel W k st = Some (Inr v, st')"
  shows "has_type st' (df_type d) v"
    "df_singleton d \<Longrightarrow> \<exists>d'. js_get (ct_services st') k = Some d' \<and> df_singleton d' \<and> df_hasInstance d' \<and> df_instance d' = v"
proof -
  obtain f where f: "fuel = Suc f"
    using out by (cases fuel) auto
  have nk: "k \<notin> set (ct_stack st)"
    using out f by (auto split: if_splits)
  note Found = find_known[OF d, of W]
  have "has_type st' (df_type d) v \<and>
    (df_singleton d \<longrightarrow> (\<exists>d'. js_get (ct_services st') k = Some d' \<and> df_singleton d' \<and> df_hasInstance d' \<and> df_instance d' = v))"
  proof (cases "df_singleton d \<and> df_hasInstance d")
    case True
    then have "v = df_instance d" "st' = emit ''resolved'' st"
      using out f nk Found by simp_all
    moreover have "has_type (emit ''resolved'' st) (df_type d) (df_instance d)"
      using well_typed_service[OF wt d] True has_type_heap[of "emit ''resolved'' st" st] by simp
    ultimately show ?thesis
      using True d by simp
  next
    case False
    obtain r2 st2 where i: "instantiate W (resolve f W) (df_type d) [] (push k st) = Some (r2, st2)"
        "settle k (Some (r2, st2)) = Some (Inr v, st')"
      using resolve_found[OF nk Found False] out f by metis
    have wt': "well_typed (push k st)"
      using wt by auto
    have st2: "frame (push k st) st2 \<and> well_typed st2 \<and> (\<forall>v. r2 = Inr v \<longrightarrow> has_type st2 (df_type d) v)"
      using i(1) resolution.instantiate_ok[OF wt'] resolution.instantiate_error[OF wt'] by (cases r2) auto
    then have r2: "r2 = Inr v"
      using settle_keeps(1)[OF wt d False nk _ _ _ i(2)] by simp
    have "has_type st' (df_type d) v"
      using settle_keeps(4)[OF wt d False nk _ _ _ i(2) r2] st2 r2 by auto
    moreover have "\<exists>d'. js_get (ct_services st') k = Some d' \<and> kept d d' \<and> df_hasInstance d' \<and> df_instance d' = v"
      if "df_singleton d"
      using settle_keeps(5)[OF wt d False nk _ _ _ i(2) r2 that] st2 r2 by auto
    ultimately show ?thesis
      by (auto simp: kept_def)
  qed
  then show "has_type st' (df_type d) v"
    "df_singleton d \<Longrightarrow> \<exists>d'. js_get (ct_services st') k = Some d' \<and> df_singleton d' \<and> df_hasInstance d' \<and> df_instance d' = v"
    by auto
qed

section \<open>Properties\<close>

text \<open>Two classes: the first takes the second.\<close>

definition plain_class :: "string \<Rightarrow> param_type list \<Rightarrow> class_info" where
  "plain_class name types = \<lparr>cl_name = name, cl_paramTypes = types, cl_paramNames = [], cl_paramInject = [],
     cl_propInject = [], cl_protoInject = [], cl_subscribers = [], cl_telemetryListeners = []\<rparr>"

definition demo_world :: "param_type list \<Rightarrow> world" where
  "demo_world types = \<lparr>w_class = (\<lambda>c. if c = 0 then plain_class ''A'' types else plain_class ''B'' []),
     w_constructs = (\<lambda>_ _. True), w_makes = (\<lambda>_. True)\<rparr>"

definition demo_container :: "param_type list \<Rightarrow> container" where
  "demo_container types = register (demo_world types) 1 True (register (demo_world types) 0 True (container_new InProcess))"

lemma demo_reachable: "reachable (demo_world types) (demo_container types)"
  unfolding demo_container_def
  by (rule reachable.register[OF reachable.register[OF reachable.start]])

lemmas container_rules =
  demo_container_def demo_world_def plain_class_def register_def container_new_def set_service_def fresh_definition_def
  emit_def find_definition_def instantiate_def param_count_def param_dependency_def param_type_at_def has_def js_has_def
  allocate_def apply_listeners_def all_props_def param_prefix_def settle_def cache_def push_def pop_def set_add_def set_del_def truthy_def
  upt_rec numeral_eq_Suc construct_def set_prop_def

text \<open>C13: Resolving and constructing end, whatever the classes ask for, cycles included: the calls of \<open>resolve\<close> are
  never nested deeper than twice the number of registrations and two more, which bounds the depth of the recursion
  (a transient service may be built many times over, so not the number of calls), and no key is left on the resolution
  stack.  Constructors and factories are those that do not call the container themselves.\<close>

theorem resolution_terminates:
  assumes "reachable W st" "2 * length (ct_services st) + 2 \<le> fuel"
  shows "(\<exists>r st'. resolve fuel W k st = Some (r, st') \<and> ct_stack st' = []) \<and>
    (\<exists>r st'. construct fuel W c overrides st = Some (r, st') \<and> ct_stack st' = [])"
proof
  have ok: "well_typed st" "ct_stack st = []"
    using reachable_ok[OF assms(1)] by auto
  have n: "2 * card (open_classes st) + 2 \<le> fuel"
    using assms(2) card_open_classes[of st] by simp
  obtain r st' where "resolve fuel W k st = Some (r, st')"
    using resolve_answers[OF ok(1)] n by fastforce
  then show "\<exists>r st'. resolve fuel W k st = Some (r, st') \<and> ct_stack st' = []"
    using resolve_keeps[OF ok(1)] ok(2) by (auto simp: frame_def)
  have wt: "well_typed (push (Class c) st)"
    using ok(1) by auto
  have "card (open_classes (push (Class c) st)) \<le> card (open_classes st)"
    by (intro card_mono finite_open_classes) (auto simp: open_classes_def)
  then have "answers (card (open_classes (push (Class c) st))) (resolve fuel W)"
    unfolding answers_def using resolve_answers[of _ _ fuel W] n by fastforce
  then obtain r2 st2 where "instantiate W (resolve fuel W) (ClassService c) overrides (push (Class c) st) = Some (r2, st2)"
    using resolution.instantiate_answers[OF _ wt] by blast
  then have "\<exists>r st'. construct fuel W c overrides st = Some (r, st')"
    using ok(2) by (cases r2) (auto simp: construct_def)
  then show "\<exists>r st'. construct fuel W c overrides st = Some (r, st') \<and> ct_stack st' = []"
    using construct_keeps[OF ok(1)] ok(2) by (auto simp: frame_def)
qed

lemma resolution_terminates_witness:
  "\<exists>r st'. resolve 10 (demo_world [ClassType 1]) (Class 0) (demo_container [ClassType 1]) = Some (r, st') \<and> ct_stack st' = []"
proof -
  have "2 * length (ct_services (demo_container [ClassType 1])) + 2 \<le> 10"
    by (simp add: container_rules)
  then show ?thesis
    using resolution_terminates[OF demo_reachable] by blast
qed

text \<open>A resolved service is of its registered kind: a class yields an object of that very class, a factory one
  that the factory made, a value the value.\<close>

theorem resolved_service_has_its_type:
  assumes "reachable W st" "js_get (ct_services st) k = Some d" "resolve fuel W k st = Some (Inr v, st')"
  shows "has_type st' (df_type d) v"
  using resolve_known(1) reachable_ok assms by blast

lemma resolved_service_has_its_type_witness:
  "\<exists>st'. resolve 10 (demo_world [ClassType 1]) (Token ''A'') (demo_container [ClassType 1]) = Some (Inr (Instance 1), st') \<and>
     has_type st' (ClassService 0) (Instance 1)"
proof -
  obtain st' where r: "resolve 10 (demo_world [ClassType 1]) (Token ''A'') (demo_container [ClassType 1]) =
      Some (Inr (Instance 1), st')"
    by (simp add: container_rules)
  have "js_get (ct_services (demo_container [ClassType 1])) (Token ''A'') = Some (fresh_definition (ClassService 0) True)"
    by (simp add: container_rules)
  then show ?thesis
    using resolved_service_has_its_type[OF demo_reachable _ r] r by (auto simp: fresh_definition_def)
qed

text \<open>C29: A singleton is one object: once resolved, every later resolution of the key returns the same instance and
  does not construct, whatever was resolved, constructed, subscribed or registered under other keys in between, until
  that very key is registered anew or the container is cleared.\<close>

theorem singleton_is_one_instance:
  assumes "reachable W st" "js_get (ct_services st) k = Some d" "df_singleton d"
    "resolve fuel W k st = Some (Inr v, st1)" "later W k st1 st2"
  shows "resolve (Suc n) W k st2 = Some (Inr v, emit ''resolved'' st2)"
proof -
  have ok: "well_typed st" "ct_stack st = []"
    using reachable_ok[OF assms(1)] by auto
  have st1: "frame st st1" "well_typed st1"
    using resolve_keeps[OF ok(1) assms(4)] by auto
  obtain d1 where d1: "js_get (ct_services st1) k = Some d1" "df_singleton d1" "df_hasInstance d1" "df_instance d1 = v"
    using resolve_known(2)[OF ok(1) assms(2,4,3)] by blast
  then have "holds_cached k d1 st1"
    using st1 ok(2) by (simp add: holds_cached_def frame_def)
  then have "js_get (ct_services st2) k = Some d1" "ct_stack st2 = []"
    using later_holds_cached[OF assms(5)] d1(2,3) by (auto simp: holds_cached_def)
  then show ?thesis
    using find_known d1 by simp
qed

lemma singleton_is_one_instance_witness:
  "\<exists>st1. resolve 10 (demo_world [ClassType 1]) (Class 0) (demo_container [ClassType 1]) = Some (Inr (Instance 1), st1) \<and>
     (let st2 = registerValue (demo_world [ClassType 1]) (Token ''other'') Undefined st1
      in resolve (Suc 4) (demo_world [ClassType 1]) (Class 0) st2 = Some (Inr (Instance 1), emit ''resolved'' st2))"
proof -
  let ?W = "demo_world [ClassType 1]" and ?st = "demo_container [ClassType 1]"
  obtain st1 where r: "resolve 10 ?W (Class 0) ?st = Some (Inr (Instance 1), st1)"
    by (simp add: container_rules)
  have d: "js_get (ct_services ?st) (Class 0) = Some (fresh_definition (ClassService 0) True)"
    by (simp add: container_rules)
  let ?st2 = "registerValue ?W (Token ''other'') Undefined st1"
  have "later ?W (Class 0) st1 ?st2"
    by (rule later.registerValue[OF later.same]) (simp add: keys_of_def)
  then have "resolve (Suc 4) ?W (Class 0) ?st2 = Some (Inr (Instance 1), emit ''resolved'' ?st2)"
    using singleton_is_one_instance[OF demo_reachable d _ r] by (metis fresh_definition_simps(2))
  then show ?thesis
    using r by (auto simp: Let_def)
qed

text \<open>A parameter nothing is known about is left out rather than left undefined: \<open>A\<close> declares an untyped
  parameter and a \<open>B\<close>, and its constructor gets the \<open>B\<close> as its first argument and nothing as its second.\<close>

theorem unknown_parameter_shifts_arguments:
  "case resolve 10 (demo_world [ObjectType, ClassType 1]) (Class 0) (demo_container [ObjectType, ClassType 1]) of
     Some (Inr (Instance i), st) \<Rightarrow> map_option in_args (js_get (ct_heap st) i) = Some [Instance 0] | _ \<Rightarrow> False"
  by (simp add: container_rules)

text \<open>A class is registered twice, under its name and under itself, with a cache each: a singleton resolved by
  name and by class is two objects.\<close>

theorem name_and_class_are_two_singletons:
  "case resolve 10 (demo_world []) (Class 1) (demo_container []) of
     Some (Inr v, st) \<Rightarrow>
       (case resolve 10 (demo_world []) (Token ''B'') st of Some (Inr w, _) \<Rightarrow> v = Instance 0 \<and> w = Instance 1 | _ \<Rightarrow> False)
   | _ \<Rightarrow> False"
  by (simp add: container_rules)

end
