(* ===== verification/AsciiText.thy ===== *)
theory AsciiText
  imports Prelude
begin

text \<open>
  Text that the sources scan character by character: names of methods, versions, expressions.  A string is a list
  of characters below 256; case conversion is that of ASCII.  \<open>js_number\<close> is \<^verbatim>\<open>Number(s)\<close> (ECMA-262,
  StringToNumber) on literals with a finite value; \<open>None\<close> is \<^verbatim>\<open>NaN\<close> (the literal \<^verbatim>\<open>Infinity\<close>
  is left out).
\<close>

text \<open>\<^verbatim>\<open>x ?? y\<close>\<close>

definition nullish :: "'a option \<Rightarrow> 'a \<Rightarrow> 'a" where
  "nullish x y = (case x of None \<Rightarrow> y | Some v \<Rightarrow> v)"

lemma nullish_simps [simp]: "nullish None y = y" "nullish (Some v) y = v"
  by (simp_all add: nullish_def)

section \<open>Character classes\<close>

definition code :: "char \<Rightarrow> nat" where
  "code c = of_char c"

definition is_digit :: "char \<Rightarrow> bool" where
  "is_digit c \<longleftrightarrow> 48 \<le> code c \<and> code c \<le> 57"

definition is_upper :: "char \<Rightarrow> bool" where
  "is_upper c \<longleftrightarrow> 65 \<le> code c \<and> code c \<le> 90"

definition is_lower :: "char \<Rightarrow> bool" where
  "is_lower c \<longleftrightarrow> 97 \<le> code c \<and> code c \<le> 122"

definition is_space :: "char \<Rightarrow> bool" where
  "is_space c \<longleftrightarrow> 9 \<le> code c \<and> code c \<le> 13 \<or> code c = 32 \<or> code c = 160"

definition lower_char :: "char \<Rightarrow> char" where
  "lower_char c = (if is_upper c then char_of (code c + 32) else c)"

definition upper_char :: "char \<Rightarrow> char" where
  "upper_char c = (if is_lower c then char_of (code c - 32) else c)"

definition lower :: "string \<Rightarrow> string" where
  "lower s = map lower_char s"

definition trim :: "string \<Rightarrow> string" where
  "trim s = rev (dropWhile is_space (rev (dropWhile is_space s)))"

lemmas char_rules = code_def is_digit_def is_upper_def is_lower_def is_space_def lower_char_def upper_char_def

lemma code_inject: "code c = code d \<longleftrightarrow> c = d"
  by (simp add: code_def)

lemma digit_not_space: "is_digit c \<Longrightarrow> \<not> is_space c"
  by (auto simp: is_digit_def is_space_def)

lemma upper_not_lower: "is_upper c \<Longrightarrow> \<not> is_lower c"
  by (auto simp: is_upper_def is_lower_def)

lemma upper_not_digit: "is_upper c \<Longrightarrow> \<not> is_digit c"
  by (auto simp: is_upper_def is_digit_def)

lemma dropWhile_none: "\<forall>x \<in> set s. \<not> P x \<Longrightarrow> dropWhile P s = s"
  by (cases s) auto

lemma trim_no_space: "list_all (\<lambda>c. \<not> is_space c) s \<Longrightarrow> trim s = s"
  by (simp add: trim_def list_all_iff dropWhile_none)

section \<open>Searching\<close>

definition starts_with :: "string \<Rightarrow> string \<Rightarrow> bool" where
  "starts_with p s \<longleftrightarrow> take (length p) s = p"

definition ends_with :: "string \<Rightarrow> string \<Rightarrow> bool" where
  "ends_with p s \<longleftrightarrow> length p \<le> length s \<and> drop (length s - length p) s = p"

fun contains_str :: "string \<Rightarrow> string \<Rightarrow> bool" where
  "contains_str p [] \<longleftrightarrow> p = []"
| "contains_str p (c # s) \<longleftrightarrow> starts_with p (c # s) \<or> contains_str p s"

fun str_less :: "string \<Rightarrow> string \<Rightarrow> bool" where
  "str_less [] ys \<longleftrightarrow> ys \<noteq> []"
| "str_less (x # xs) [] \<longleftrightarrow> False"
| "str_less (x # xs) (y # ys) \<longleftrightarrow> code x < code y \<or> (x = y \<and> str_less xs ys)"

lemma starts_with_append [simp]: "starts_with p (p @ s)"
  by (simp add: starts_with_def)

lemma starts_withE: "starts_with p s \<Longrightarrow> \<exists>t. s = p @ t"
  unfolding starts_with_def by (metis append_take_drop_id)

lemma ends_with_iff: "ends_with p s \<longleftrightarrow> (\<exists>t. s = t @ p)"
  unfolding ends_with_def
  by (metis append_eq_conv_conj append_take_drop_id diff_add_inverse2 diff_le_self le_add2 length_append length_drop)

lemma str_less_irrefl [simp]: "\<not> str_less s s"
  by (induction s) auto

lemma str_less_trans: "str_less a b \<Longrightarrow> str_less b c \<Longrightarrow> str_less a c"
proof (induction a b arbitrary: c rule: str_less.induct)
  case (1 ys)
  then show ?case by (cases c; cases ys) auto
next
  case (3 x xs y ys)
  then show ?case by (cases c) (auto dest: less_trans)
qed simp

lemma str_less_total: "str_less a b \<or> a = b \<or> str_less b a"
proof (induction a b rule: str_less.induct)
  case (3 x xs y ys)
  then show ?case using code_inject[of x y] by (auto simp: neq_iff)
qed auto

section \<open>Numbers\<close>

definition digits_val :: "string \<Rightarrow> nat" where
  "digits_val s = foldl (\<lambda>v c. v * 10 + (code c - 48)) 0 s"

definition all_digits :: "string \<Rightarrow> bool" where
  "all_digits s \<longleftrightarrow> s \<noteq> [] \<and> list_all is_digit s"

definition hex_val :: "char \<Rightarrow> nat option" where
  "hex_val c = (if is_digit c then Some (code c - 48)
     else if 97 \<le> code c \<and> code c \<le> 102 then Some (code c - 87)
     else if 65 \<le> code c \<and> code c \<le> 70 then Some (code c - 55) else None)"

fun radix_val :: "nat \<Rightarrow> nat \<Rightarrow> string \<Rightarrow> nat option" where
  "radix_val b v [] = Some v"
| "radix_val b v (c # s) = (case hex_val c of None \<Rightarrow> None | Some d \<Rightarrow> if d < b then radix_val b (v * b + d) s else None)"

definition scale10 :: "nat \<Rightarrow> int \<Rightarrow> rat" where
  "scale10 n e = (if e \<ge> 0 then of_nat n * 10 ^ nat e else of_nat n / 10 ^ nat (- e))"

text \<open>An optional sign and the rest.\<close>

definition take_sign :: "string \<Rightarrow> int \<times> string" where
  "take_sign s = (case s of c # t \<Rightarrow> if c = CHR ''-'' then (-1, t) else if c = CHR ''+'' then (1, t) else (1, s) | [] \<Rightarrow> (1, s))"

definition exponent_val :: "string \<Rightarrow> int option" where
  "exponent_val s = (case s of [] \<Rightarrow> Some 0
     | c # t \<Rightarrow> if c = CHR ''e'' \<or> c = CHR ''E''
                then (case take_sign t of (sg, ds) \<Rightarrow> if all_digits ds then Some (sg * int (digits_val ds)) else None)
                else None)"

definition decimal_val :: "string \<Rightarrow> rat option" where
  "decimal_val s =
     (let ip = takeWhile is_digit s; r = dropWhile is_digit s;
          (fp, r') = (case r of c # t \<Rightarrow> if c = CHR ''.'' then (takeWhile is_digit t, dropWhile is_digit t) else ([], r) | [] \<Rightarrow> ([], r))
      in if ip @ fp = [] then None
         else map_option (\<lambda>e. scale10 (digits_val (ip @ fp)) (e - int (length fp))) (exponent_val r'))"

definition prefixed_val :: "string \<Rightarrow> rat option option" where
  "prefixed_val s = (case s of z # x # ds \<Rightarrow>
       if z \<noteq> CHR ''0'' then None
       else if x = CHR ''x'' \<or> x = CHR ''X'' then Some (if ds = [] then None else map_option of_nat (radix_val 16 0 ds))
       else if x = CHR ''o'' \<or> x = CHR ''O'' then Some (if ds = [] then None else map_option of_nat (radix_val 8 0 ds))
       else if x = CHR ''b'' \<or> x = CHR ''B'' then Some (if ds = [] then None else map_option of_nat (radix_val 2 0 ds))
       else None
     | _ \<Rightarrow> None)"

definition js_number :: "string \<Rightarrow> rat option" where
  "js_number s =
     (let t = trim s
      in if t = [] then Some 0
         else case prefixed_val t of Some r \<Rightarrow> r
            | None \<Rightarrow> (case take_sign t of (sg, ds) \<Rightarrow> map_option ((*) (of_int sg)) (decimal_val ds)))"

text \<open>A run of digits is read as the number it denotes.\<close>

lemma digit_chars: "is_digit c \<Longrightarrow> c \<notin> {CHR ''-'', CHR ''+'', CHR ''.'', CHR ''x'', CHR ''X'', CHR ''o'', CHR ''O'', CHR ''b'', CHR ''B'', CHR ''_''}"
  by (auto simp: is_digit_def code_def)

lemma all_digits_ne [simp]: "all_digits s \<Longrightarrow> s \<noteq> []"
  by (simp add: all_digits_def)

lemma trim_digits: "all_digits s \<Longrightarrow> trim s = s"
  by (intro trim_no_space) (auto simp: all_digits_def list_all_iff dest: digit_not_space)

lemma decimal_val_digits:
  assumes "all_digits s"
  shows "decimal_val s = Some (of_nat (digits_val s))"
proof -
  have "takeWhile is_digit s = s" "dropWhile is_digit s = []"
    using assms by (auto simp: all_digits_def list_all_iff takeWhile_eq_all_conv)
  then show ?thesis
    unfolding decimal_val_def Let_def
    using all_digits_ne[OF assms] by (simp only: list.case) (simp add: exponent_val_def scale10_def)
qed

lemma js_number_digits:
  assumes "all_digits s"
  shows "js_number s = Some (of_nat (digits_val s))"
proof -
  obtain c t where s: "s = c # t" "is_digit c"
    using assms by (cases s) (auto simp: all_digits_def)
  have "x \<notin> {CHR ''x'', CHR ''X'', CHR ''o'', CHR ''O'', CHR ''b'', CHR ''B''}" if "t = x # ds" for x ds
    using that assms s digit_chars[of x] by (simp add: all_digits_def)
  then have "prefixed_val s = None"
    by (cases t) (simp_all add: prefixed_val_def s(1))
  moreover have "take_sign s = (1, s)"
    using digit_chars[OF s(2)] by (simp add: take_sign_def s(1))
  ultimately show ?thesis
    using assms by (simp add: js_number_def trim_digits decimal_val_digits)
qed

section \<open>Splitting\<close>

text \<open>\<^verbatim>\<open>s.split(/[...]/)\<close> for a class of separators.\<close>

fun split_if :: "('a \<Rightarrow> bool) \<Rightarrow> 'a list \<Rightarrow> 'a list list" where
  "split_if P [] = [[]]"
| "split_if P (x # xs) = (if P x then [] # split_if P xs
     else case split_if P xs of [] \<Rightarrow> [[x]] | p # ps \<Rightarrow> (x # p) # ps)"

lemma split_if_ne [simp]: "split_if P xs \<noteq> []"
  by (induction xs) (auto split: list.split)

lemma split_if_none: "\<forall>x \<in> set xs. \<not> P x \<Longrightarrow> split_if P xs = [xs]"
  by (induction xs) auto

lemma split_if_first: "\<forall>x \<in> set xs. \<not> P x \<Longrightarrow> P c \<Longrightarrow> split_if P (xs @ c # ys) = xs # split_if P ys"
  by (induction xs) auto

lemma split_if_join:
  assumes "P c" "ps \<noteq> []" "\<forall>p \<in> set ps. \<forall>x \<in> set p. \<not> P x"
  shows "split_if P (join_with [c] ps) = ps"
  using assms(2,3)
proof (induction ps)
  case (Cons p ps)
  show ?case
  proof (cases ps)
    case Nil
    then show ?thesis using Cons.prems by (simp add: split_if_none)
  next
    case (Cons q qs)
    then show ?thesis using Cons.prems Cons.IH assms(1) by (simp add: split_if_first)
  qed
qed simp

end
