(* ===== verification/Migrations.thy ===== *)
theory Migrations
  imports AsciiText
begin

text \<open>
  Database migrations: \<^verbatim>\<open>di-framework-repo/src/migrations/runner.ts\<close> and the version order of
  \<^verbatim>\<open>discovery.ts\<close>.

  The database is its two bookkeeping tables and the rest, on which a migration's \<open>up\<close> acts; a transaction
  commits or leaves the database as it was.  \<^verbatim>\<open>localeCompare\<close>, which depends on the locale, is a parameter;
  clocks and durations are arguments.  The lemmas show how versions are ordered, that a migration is
  committed at most once however runners interleave and steal locks, what a failure leaves behind and that a
  completed run is up to date; and that versions are unique across bindings although histories are not.
\<close>

section \<open>Versions\<close>

type_synonym collation = "string \<Rightarrow> string \<Rightarrow> int"

definition is_separator :: "char \<Rightarrow> bool" where
  "is_separator c \<longleftrightarrow> c = CHR ''.'' \<or> c = CHR ''_'' \<or> c = CHR ''-''"

definition rat_sgn :: "rat \<Rightarrow> int" where
  "rat_sgn r = (if r < 0 then -1 else if r = 0 then 0 else 1)"

definition compare_part :: "collation \<Rightarrow> string \<Rightarrow> string \<Rightarrow> int" where
  "compare_part loc a b = (case (js_number a, js_number b) of
     (Some x, Some y) \<Rightarrow> rat_sgn (x - y)
   | _ \<Rightarrow> loc a b)"

fun compare_parts :: "collation \<Rightarrow> string list \<Rightarrow> string list \<Rightarrow> int" where
  "compare_parts loc [] [] = 0"
| "compare_parts loc [] (b # bs) = -1"
| "compare_parts loc (a # as) [] = 1"
| "compare_parts loc (a # as) (b # bs) =
     (if compare_part loc a b \<noteq> 0 then compare_part loc a b else compare_parts loc as bs)"

definition compareVersions :: "collation \<Rightarrow> string \<Rightarrow> string \<Rightarrow> int" where
  "compareVersions loc a b =
     (let sa = trim a; sb = trim b
      in case (list_ex is_separator sa \<or> list_ex is_separator sb, js_number sa, js_number sb) of
           (False, Some x, Some y) \<Rightarrow> rat_sgn (x - y)
         | _ \<Rightarrow> (let c = compare_parts loc (split_if is_separator sa) (split_if is_separator sb)
                 in if c \<noteq> 0 then c else loc sa sb))"

section \<open>Migrations and the database\<close>

record 's migration =
  md_version :: string
  md_description :: string
  md_binding :: string
  md_checksum :: string
  md_up :: "'s \<Rightarrow> (string, 's) result"

record mig_record =
  mr_version :: string
  mr_description :: string
  mr_binding :: string
  mr_appliedAt :: string
  mr_checksum :: string
  mr_executionTimeMs :: int

record lock_row =
  lk_locked :: bool
  lk_acquiredAt :: "int option"
  lk_lockedBy :: "string option"

record 's mig_db =
  db_rows :: "mig_record list"
  db_locks :: "(string, lock_row) jsmap"
  db_data :: 's

record 's runner =
  rn_id :: string
  rn_defaultBinding :: string
  rn_lockTimeoutMs :: int
  rn_configured :: "'s migration list"
  rn_registered :: "'s migration list"

datatype mig_error =
    LockHeld "string option"
  | DuplicateVersion string
  | NotDiscovered string
  | ChecksumMismatch string
  | OutOfOrder string string
  | ExecutionFailed string string
  | PendingExist

definition sortMigrations :: "collation \<Rightarrow> 's migration list \<Rightarrow> 's migration list" where
  "sortMigrations loc ms = sort_by (\<lambda>a b. compareVersions loc (md_version a) (md_version b) \<le> 0) ms"

section \<open>The lock\<close>

definition lock_id :: "string \<Rightarrow> string" where
  "lock_id binding = ''migration_lock_'' @ binding"

definition held_by :: "string \<Rightarrow> int \<Rightarrow> lock_row" where
  "held_by runner now = \<lparr>lk_locked = True, lk_acquiredAt = Some now, lk_lockedBy = Some runner\<rparr>"

definition acquireLock :: "'s runner \<Rightarrow> int \<Rightarrow> string \<Rightarrow> 's mig_db \<Rightarrow> (mig_error, 's mig_db) result" where
  "acquireLock R now binding db =
     (let taken = db\<lparr>db_locks := js_set (lock_id binding) (held_by (rn_id R) now) (db_locks db)\<rparr>
      in case js_get (db_locks db) (lock_id binding) of
           None \<Rightarrow> Inr taken
         | Some l \<Rightarrow>
             if lk_locked l \<and> \<not> now - nullish (lk_acquiredAt l) 0 > rn_lockTimeoutMs R
             then Inl (LockHeld (lk_lockedBy l)) else Inr taken)"

definition releaseLock :: "'s runner \<Rightarrow> string \<Rightarrow> 's mig_db \<Rightarrow> 's mig_db" where
  "releaseLock R binding db = (case js_get (db_locks db) (lock_id binding) of
     None \<Rightarrow> db
   | Some l \<Rightarrow> if lk_lockedBy l = Some (rn_id R)
               then db\<lparr>db_locks := js_set (lock_id binding) \<lparr>lk_locked = False, lk_acquiredAt = None, lk_lockedBy = None\<rparr> (db_locks db)\<rparr>
               else db)"

section \<open>History and discovery\<close>

definition getHistory :: "collation \<Rightarrow> string \<Rightarrow> 's mig_db \<Rightarrow> mig_record list" where
  "getHistory loc binding db =
     sort_by (\<lambda>a b. compareVersions loc (mr_version a) (mr_version b) \<le> 0) (filter (\<lambda>r. mr_binding r = binding) (db_rows db))"

text \<open>Configured migrations replace each other by version; registered ones only fill gaps.\<close>

definition resolveMigrations :: "collation \<Rightarrow> 's runner \<Rightarrow> string \<Rightarrow> 's migration list" where
  "resolveMigrations loc R binding =
     (let configured = foldl (\<lambda>m d. if md_binding d = binding then js_set (md_version d) d m else m) [] (rn_configured R);
          combined = foldl (\<lambda>m d. if md_binding d = binding \<and> \<not> js_has m (md_version d) then js_set (md_version d) d m else m)
                       configured (rn_registered R)
      in sortMigrations loc (js_values combined))"

fun find_duplicate :: "string list \<Rightarrow> 's migration list \<Rightarrow> string option" where
  "find_duplicate seen [] = None"
| "find_duplicate seen (m # ms) =
     (if md_version m \<in> set seen then Some (md_version m) else find_duplicate (md_version m # seen) ms)"

definition check_applied :: "'s migration list \<Rightarrow> mig_record \<Rightarrow> (mig_error, unit) result" where
  "check_applied discovered r =
     (case List.find (\<lambda>d. md_version d = mr_version r \<and> md_binding d = mr_binding r) discovered of
        None \<Rightarrow> Inl (NotDiscovered (mr_version r))
      | Some d \<Rightarrow> guard_or (md_checksum d = mr_checksum r) (ChecksumMismatch (mr_version r)))"

definition check_order :: "collation \<Rightarrow> 's migration list \<Rightarrow> mig_record list \<Rightarrow> (mig_error, unit) result" where
  "check_order loc discovered applied =
     (if applied = [] then Inr ()
      else let latest = mr_version (last applied)
           in case List.find (\<lambda>d. md_version d \<notin> mr_version ` set applied \<and> compareVersions loc (md_version d) latest < 0) discovered of
                None \<Rightarrow> Inr ()
              | Some d \<Rightarrow> Inl (OutOfOrder (md_version d) latest))"

definition validateIntegrity :: "collation \<Rightarrow> 's migration list \<Rightarrow> mig_record list \<Rightarrow> (mig_error, unit) result" where
  "validateIntegrity loc discovered applied =
     (case find_duplicate [] discovered of
        Some v \<Rightarrow> Inl (DuplicateVersion v)
      | None \<Rightarrow> rbind (traverse (check_applied discovered) applied) (\<lambda>_. check_order loc discovered applied))"

definition pending_of :: "'s migration list \<Rightarrow> mig_record list \<Rightarrow> 's migration list" where
  "pending_of discovered applied = filter (\<lambda>m. md_version m \<notin> mr_version ` set applied) discovered"

record 's mig_status =
  st_applied :: "mig_record list"
  st_pending :: "'s migration list"
  st_isUpToDate :: bool

definition status :: "collation \<Rightarrow> 's runner \<Rightarrow> string \<Rightarrow> 's mig_db \<Rightarrow> (mig_error, 's mig_status) result" where
  "status loc R binding db =
     (let applied = getHistory loc binding db; discovered = resolveMigrations loc R binding
      in rbind (validateIntegrity loc discovered applied) (\<lambda>_.
           let pending = pending_of discovered applied
           in Inr \<lparr>st_applied = applied, st_pending = pending, st_isUpToDate = (pending = [])\<rparr>))"

section \<open>Execution\<close>

record exec_options =
  ex_step :: "int option"
  ex_dryRun :: bool

record 's exec_result =
  er_applied :: "mig_record list"
  er_pending :: "'s migration list"
  er_dryRun :: bool

text \<open>\<open>stamp v\<close> is the time of application and the duration that the run reads for version \<open>v\<close>.\<close>

type_synonym stamps = "string \<Rightarrow> string \<times> int"

definition record_of :: "stamps \<Rightarrow> string \<Rightarrow> 's migration \<Rightarrow> mig_record" where
  "record_of stamp binding m = \<lparr>mr_version = md_version m, mr_description = md_description m, mr_binding = binding,
     mr_appliedAt = fst (stamp (md_version m)), mr_checksum = md_checksum m, mr_executionTimeMs = snd (stamp (md_version m))\<rparr>"

text \<open>
  One transaction: run \<open>up\<close> and insert the row, whose version is the table's primary key.  The database is one
  whose \<^verbatim>\<open>transaction\<close> rolls back what failed; the fallback of \<^verbatim>\<open>database.ts\<close> for an adapter that has no
  transactions, which runs the same steps unprotected, is left out.
\<close>

definition apply_one :: "stamps \<Rightarrow> string \<Rightarrow> 's migration \<Rightarrow> 's mig_db \<Rightarrow> (mig_error, 's mig_db) result" where
  "apply_one stamp binding m db =
     (case md_up m (db_data db) of
        Inl e \<Rightarrow> Inl (ExecutionFailed (md_version m) e)
      | Inr d \<Rightarrow>
          if md_version m \<in> mr_version ` set (db_rows db)
          then Inl (ExecutionFailed (md_version m) ''UNIQUE constraint failed'')
          else Inr (db\<lparr>db_rows := db_rows db @ [record_of stamp binding m], db_data := d\<rparr>))"

fun apply_all :: "stamps \<Rightarrow> string \<Rightarrow> 's migration list \<Rightarrow> mig_record list \<Rightarrow> 's mig_db \<Rightarrow>
    (mig_error, mig_record list) result \<times> 's mig_db" where
  "apply_all stamp binding [] new db = (Inr new, db)"
| "apply_all stamp binding (m # ms) new db =
     (case apply_one stamp binding m db of
        Inl e \<Rightarrow> (Inl e, db)
      | Inr db' \<Rightarrow> apply_all stamp binding ms (new @ [record_of stamp binding m]) db')"

definition to_apply :: "exec_options \<Rightarrow> 's migration list \<Rightarrow> 's migration list" where
  "to_apply opts pending = (case ex_step opts of Some n \<Rightarrow> if n > 0 then take (nat n) pending else pending | None \<Rightarrow> pending)"

definition execute_body ::
  "collation \<Rightarrow> 's runner \<Rightarrow> stamps \<Rightarrow> exec_options \<Rightarrow> string \<Rightarrow> 's mig_db \<Rightarrow> (mig_error, 's exec_result) result \<times> 's mig_db" where
  "execute_body loc R stamp opts binding db =
     (let applied = getHistory loc binding db; discovered = resolveMigrations loc R binding
      in case validateIntegrity loc discovered applied of
           Inl e \<Rightarrow> (Inl e, db)
         | Inr _ \<Rightarrow>
             (let pending = pending_of discovered applied
              in if ex_dryRun opts then (Inr \<lparr>er_applied = [], er_pending = pending, er_dryRun = True\<rparr>, db)
                 else (case apply_all stamp binding (to_apply opts pending) [] db of
                   (Inl e, db') \<Rightarrow> (Inl e, db')
                 | (Inr new, db') \<Rightarrow>
                     (Inr \<lparr>er_applied = new,
                           er_pending = filter (\<lambda>m. md_version m \<notin> mr_version ` set applied \<and> md_version m \<notin> mr_version ` set new) discovered,
                           er_dryRun = False\<rparr>, db'))))"

definition execute ::
  "collation \<Rightarrow> 's runner \<Rightarrow> int \<Rightarrow> stamps \<Rightarrow> exec_options \<Rightarrow> string \<Rightarrow> 's mig_db \<Rightarrow> (mig_error, 's exec_result) result \<times> 's mig_db" where
  "execute loc R now stamp opts binding db =
     (case acquireLock R now binding db of
        Inl e \<Rightarrow> (Inl e, db)
      | Inr db1 \<Rightarrow> (case execute_body loc R stamp opts binding db1 of (r, db2) \<Rightarrow> (r, releaseLock R binding db2)))"

record auto_options =
  ao_enabled :: "bool option"
  ao_throwIfPending :: bool

definition autoApply ::
  "collation \<Rightarrow> 's runner \<Rightarrow> bool \<Rightarrow> int \<Rightarrow> stamps \<Rightarrow> auto_options \<Rightarrow> string \<Rightarrow> 's mig_db \<Rightarrow> (mig_error, 's exec_result) result \<times> 's mig_db" where
  "autoApply loc R isDev now stamp opts binding db =
     (if \<not> nullish (ao_enabled opts) isDev
      then (rbind (status loc R binding db) (\<lambda>s.
              if ao_throwIfPending opts \<and> \<not> st_isUpToDate s then Inl PendingExist
              else Inr \<lparr>er_applied = [], er_pending = st_pending s, er_dryRun = False\<rparr>), db)
      else execute loc R now stamp \<lparr>ex_step = None, ex_dryRun = False\<rparr> binding db)"

section \<open>The order of versions\<close>

lemma digit_not_separator: "is_digit c \<Longrightarrow> \<not> is_separator c"
  by (auto simp: is_digit_def is_separator_def code_def)

lemma digits_no_separator: "all_digits s \<Longrightarrow> \<not> list_ex is_separator s"
  by (auto simp: all_digits_def list_ex_iff list_all_iff dest: digit_not_separator)

lemma compare_part_digits:
  "all_digits a \<Longrightarrow> all_digits b \<Longrightarrow> compare_part loc a b = sgn (int (digits_val a) - int (digits_val b))"
  by (auto simp: compare_part_def js_number_digits rat_sgn_def)

text \<open>The numbers of two dotted versions, compared from the left; a version comes before its extensions.\<close>

fun compare_numbers :: "nat list \<Rightarrow> nat list \<Rightarrow> int" where
  "compare_numbers [] [] = 0"
| "compare_numbers [] (n # ns) = -1"
| "compare_numbers (m # ms) [] = 1"
| "compare_numbers (m # ms) (n # ns) = (if m < n then -1 else if n < m then 1 else compare_numbers ms ns)"

lemma compare_parts_digits:
  "list_all all_digits as \<Longrightarrow> list_all all_digits bs \<Longrightarrow>
     compare_parts loc as bs = compare_numbers (map digits_val as) (map digits_val bs)"
  by (induction loc as bs rule: compare_parts.induct) (auto simp: compare_part_digits)

definition dotted :: "string list \<Rightarrow> string" where
  "dotted ps = join_with ''.'' ps"

lemma dotted_chars: "c \<in> set (dotted ps) \<Longrightarrow> list_all all_digits ps \<Longrightarrow> is_digit c \<or> c = CHR ''.''"
proof (induction ps)
  case (Cons p ps)
  then show ?case
    by (cases ps) (auto simp: dotted_def all_digits_def list_all_iff)
qed (simp add: dotted_def)

lemma trim_dotted: "list_all all_digits ps \<Longrightarrow> trim (dotted ps) = dotted ps"
  by (rule trim_no_space) (auto simp: list_all_iff is_space_def code_def dest!: dotted_chars[unfolded list_all_iff] dest: digit_not_space[unfolded is_space_def code_def])

lemma split_dotted: "ps \<noteq> [] \<Longrightarrow> list_all all_digits ps \<Longrightarrow> split_if is_separator (dotted ps) = ps"
  unfolding dotted_def
  by (rule split_if_join) (auto simp: is_separator_def all_digits_def list_all_iff dest: digit_not_separator[unfolded is_separator_def])

lemma compareVersions_dotted:
  assumes "list_all all_digits as" "list_all all_digits bs" "as \<noteq> []" "bs \<noteq> []"
    and "compare_numbers (map digits_val as) (map digits_val bs) \<noteq> 0"
  shows "compareVersions loc (dotted as) (dotted bs) = compare_numbers (map digits_val as) (map digits_val bs)"
proof -
  let ?c = "compare_numbers (map digits_val as) (map digits_val bs)"
  have parts: "compare_parts loc (split_if is_separator (dotted as)) (split_if is_separator (dotted bs)) = ?c"
    using assms by (simp add: split_dotted compare_parts_digits)
  show ?thesis
  proof (cases "list_ex is_separator (dotted as) \<or> list_ex is_separator (dotted bs)")
    case True
    then show ?thesis
      using assms parts by (simp add: compareVersions_def trim_dotted Let_def)
  next
    case False
    have single: "\<exists>p. ps = [p]" if ps: "ps \<noteq> []" "\<not> list_ex is_separator (dotted ps)" for ps
      using ps by (cases ps; cases "tl ps") (auto simp: dotted_def is_separator_def)
    obtain a b where ab: "as = [a]" "bs = [b]"
      using single[OF assms(3)] single[OF assms(4)] False by blast
    then show ?thesis
      using assms digits_no_separator[of a] digits_no_separator[of b]
      by (auto simp: compareVersions_def dotted_def trim_digits js_number_digits rat_sgn_def)
  qed
qed

section \<open>Transactions\<close>

lemma apply_one_ok:
  assumes "apply_one stamp binding m db = Inr db'"
  shows "md_up m (db_data db) = Inr (db_data db')" "db_rows db' = db_rows db @ [record_of stamp binding m]"
    "md_version m \<notin> mr_version ` set (db_rows db)" "db_locks db' = db_locks db"
  using assms by (auto simp: apply_one_def split: sum.splits if_splits)

lemma record_of_simps [simp]:
  "mr_version (record_of stamp binding m) = md_version m" "mr_binding (record_of stamp binding m) = binding"
  "mr_checksum (record_of stamp binding m) = md_checksum m"
  by (simp_all add: record_of_def)

text \<open>Running the \<open>up\<close>s of a list of migrations.\<close>

fun run_ups :: "'s migration list \<Rightarrow> 's \<Rightarrow> (string, 's) result" where
  "run_ups [] d = Inr d"
| "run_ups (m # ms) d = rbind (md_up m d) (run_ups ms)"

lemma apply_all_result:
  assumes "apply_all stamp binding ms new db = (r, db')"
  shows "\<exists>k \<le> length ms. db_rows db' = db_rows db @ map (record_of stamp binding) (take k ms) \<and>
    run_ups (take k ms) (db_data db) = Inr (db_data db') \<and> db_locks db' = db_locks db \<and>
    (case r of Inr new' \<Rightarrow> k = length ms \<and> new' = new @ map (record_of stamp binding) ms
     | Inl e \<Rightarrow> k < length ms \<and> (\<exists>why. e = ExecutionFailed (md_version (ms ! k)) why))"
  using assms
proof (induction ms arbitrary: new db)
  case (Cons m ms)
  show ?case
  proof (cases "apply_one stamp binding m db")
    case (Inl e)
    then have "\<exists>why. e = ExecutionFailed (md_version m) why"
      by (auto simp: apply_one_def split: sum.splits if_splits)
    then show ?thesis
      using Cons.prems Inl by (intro exI[of _ 0]) auto
  next
    case (Inr db1)
    note one = apply_one_ok[OF Inr]
    have "apply_all stamp binding ms (new @ [record_of stamp binding m]) db1 = (r, db')"
      using Cons.prems Inr by simp
    from Cons.IH[OF this] obtain k where k: "k \<le> length ms"
        "db_rows db' = db_rows db1 @ map (record_of stamp binding) (take k ms)"
        "run_ups (take k ms) (db_data db1) = Inr (db_data db')" "db_locks db' = db_locks db1"
        "case r of Inr new' \<Rightarrow> k = length ms \<and> new' = (new @ [record_of stamp binding m]) @ map (record_of stamp binding) ms
          | Inl e \<Rightarrow> k < length ms \<and> (\<exists>why. e = ExecutionFailed (md_version (ms ! k)) why)"
      by blast
    show ?thesis
      by (intro exI[of _ "Suc k"]) (use k one in \<open>auto split: sum.splits\<close>)
  qed
qed (auto split: sum.splits)

lemma releaseLock_simps [simp]:
  "db_rows (releaseLock R binding db) = db_rows db" "db_data (releaseLock R binding db) = db_data db"
  by (simp_all add: releaseLock_def split: option.split)

lemma acquireLock_simps:
  assumes "acquireLock R now binding db = Inr db'"
  shows "db_rows db' = db_rows db" "db_data db' = db_data db"
  using assms by (auto simp: acquireLock_def Let_def split: option.splits if_splits)

text \<open>What a run leaves behind, whatever its outcome.\<close>

definition leaves_prefix :: "stamps \<Rightarrow> string \<Rightarrow> 's migration list \<Rightarrow> 's mig_db \<Rightarrow> 's mig_db \<Rightarrow> bool" where
  "leaves_prefix stamp binding pending db db' \<longleftrightarrow> (\<exists>k \<le> length pending.
     db_rows db' = db_rows db @ map (record_of stamp binding) (take k pending) \<and>
     run_ups (take k pending) (db_data db) = Inr (db_data db'))"

lemma leaves_nothing: "db_rows db' = db_rows db \<Longrightarrow> db_data db' = db_data db \<Longrightarrow> leaves_prefix stamp binding ms db db'"
  unfolding leaves_prefix_def by (intro exI[of _ 0]) simp

lemma to_apply_take: "\<exists>n. to_apply opts ms = take n ms"
  by (cases "ex_step opts") (auto simp: to_apply_def intro: exI[of _ "length ms"])

lemma execute_body_result:
  assumes "execute_body loc R stamp opts binding db = (r, db')"
  shows "leaves_prefix stamp binding (pending_of (resolveMigrations loc R binding) (getHistory loc binding db)) db db'"
proof (cases "db' = db")
  case True
  then show ?thesis
    by (simp add: leaves_nothing)
next
  case False
  let ?P = "pending_of (resolveMigrations loc R binding) (getHistory loc binding db)"
  obtain n where n: "to_apply opts ?P = take n ?P"
    using to_apply_take by blast
  obtain r0 where "apply_all stamp binding (take n ?P) [] db = (r0, db')"
    using assms False unfolding n[symmetric]
    by (auto simp: execute_body_def Let_def split: sum.splits if_splits prod.splits)
  from apply_all_result[OF this] obtain k where k: "k \<le> length (take n ?P)"
      "db_rows db' = db_rows db @ map (record_of stamp binding) (take k (take n ?P))"
      "run_ups (take k (take n ?P)) (db_data db) = Inr (db_data db')"
    by blast
  moreover have "take k (take n ?P) = take k ?P"
    using k(1) by (simp add: min_absorb1)
  ultimately show ?thesis
    unfolding leaves_prefix_def by (intro exI[of _ k]) auto
qed

lemma execute_result:
  assumes "execute loc R now stamp opts binding db = (r, db')"
  shows "leaves_prefix stamp binding (pending_of (resolveMigrations loc R binding) (getHistory loc binding db)) db db'"
proof (cases "acquireLock R now binding db")
  case (Inl e)
  then show ?thesis
    using assms by (auto simp: execute_def intro: leaves_nothing)
next
  case (Inr db1)
  note a = acquireLock_simps[OF Inr]
  obtain db2 where body: "execute_body loc R stamp opts binding db1 = (r, db2)" "db' = releaseLock R binding db2"
    using assms Inr by (auto simp: execute_def split: prod.splits)
  have "getHistory loc binding db1 = getHistory loc binding db"
    by (simp add: getHistory_def a)
  then show ?thesis
    using execute_body_result[OF body(1)] body(2) a by (simp add: leaves_prefix_def)
qed

section \<open>The schema is the history\<close>

text \<open>
  \<open>U v\<close> is what the migration with version \<open>v\<close> does; \<open>follows U\<close> says that a runner's code agrees.
  A database in use: runners lock, release and run, and between any two steps another runner may commit a
  transaction of its own, for it may have stolen the lock.
\<close>

definition follows :: "(string \<Rightarrow> 's \<Rightarrow> (string, 's) result) \<Rightarrow> 's runner \<Rightarrow> bool" where
  "follows U R \<longleftrightarrow> (\<forall>m \<in> set (rn_configured R) \<union> set (rn_registered R). md_up m = U (md_version m))"

inductive in_use :: "(string \<Rightarrow> 's \<Rightarrow> (string, 's) result) \<Rightarrow> 's \<Rightarrow> 's mig_db \<Rightarrow> bool" for U d0 where
  fresh: "in_use U d0 \<lparr>db_rows = [], db_locks = [], db_data = d0\<rparr>"
| lock: "in_use U d0 db \<Longrightarrow> acquireLock R now binding db = Inr db' \<Longrightarrow> in_use U d0 db'"
| release: "in_use U d0 db \<Longrightarrow> in_use U d0 (releaseLock R binding db)"
| transaction: "in_use U d0 db \<Longrightarrow> md_up m = U (md_version m) \<Longrightarrow> apply_one stamp binding m db = Inr db' \<Longrightarrow> in_use U d0 db'"
| execute: "in_use U d0 db \<Longrightarrow> follows U R \<Longrightarrow> execute loc R now stamp opts binding db = (r, db') \<Longrightarrow> in_use U d0 db'"

fun replay :: "(string \<Rightarrow> 's \<Rightarrow> (string, 's) result) \<Rightarrow> mig_record list \<Rightarrow> 's \<Rightarrow> (string, 's) result" where
  "replay U [] d = Inr d"
| "replay U (r # rs) d = rbind (U (mr_version r) d) (replay U rs)"

lemma replay_append: "replay U (xs @ ys) d = rbind (replay U xs d) (replay U ys)"
  by (induction xs arbitrary: d) (auto simp: rbind_def split: sum.split)

lemma replay_records:
  "\<forall>m \<in> set ms. md_up m = U (md_version m) \<Longrightarrow> replay U (map (record_of stamp binding) ms) d = run_ups ms d"
  by (induction ms arbitrary: d) (auto simp: rbind_def split: sum.split)

text \<open>Collecting migrations by version.\<close>

lemma collect_wf: "js_wf m0 \<Longrightarrow> js_wf (foldl (\<lambda>m d. if Q m d then js_set (key d) d m else m) m0 ds)"
  by (induction ds arbitrary: m0) auto

lemma collect_all:
  "js_all (\<lambda>k d. key d = k \<and> P d) m0 \<Longrightarrow> (\<And>m d. d \<in> set ds \<Longrightarrow> Q m d \<Longrightarrow> P d) \<Longrightarrow>
     js_all (\<lambda>k d. key d = k \<and> P d) (foldl (\<lambda>m d. if Q m d then js_set (key d) d m else m) m0 ds)"
proof (induction ds arbitrary: m0)
  case (Cons d ds)
  have "js_all (\<lambda>k d. key d = k \<and> P d) (if Q m0 d then js_set (key d) d m0 else m0)"
    using Cons.prems by (auto intro: js_all_set)
  then show ?case
    using Cons.IH Cons.prems(2) by simp
qed simp

lemma collected:
  assumes "js_wf m" "js_all (\<lambda>k d. key d = k \<and> P d) m"
  shows "map key (js_values m) = js_keys m" "\<forall>d \<in> set (js_values m). P d"
proof -
  have "(k, d) \<in> set m \<Longrightarrow> key d = k \<and> P d" for k d
    using assms js_get_wf_iff[OF assms(1)] by (simp add: js_all_def)
  then show "map key (js_values m) = js_keys m" "\<forall>d \<in> set (js_values m). P d"
    by auto
qed

lemma resolved:
  "distinct (map md_version (resolveMigrations loc R binding))"
  "m \<in> set (resolveMigrations loc R binding) \<Longrightarrow> md_binding m = binding \<and> m \<in> set (rn_configured R) \<union> set (rn_registered R)"
proof -
  let ?P = "\<lambda>d. md_binding d = binding \<and> d \<in> set (rn_configured R) \<union> set (rn_registered R)"
  let ?c = "foldl (\<lambda>m d. if md_binding d = binding then js_set (md_version d) d m else m) [] (rn_configured R)"
  define all where "all = foldl (\<lambda>m d. if md_binding d = binding \<and> \<not> js_has m (md_version d) then js_set (md_version d) d m else m) ?c (rn_registered R)"
  have "js_all (\<lambda>k d. md_version d = k \<and> ?P d) ?c"
    by (rule collect_all) auto
  then have entries: "js_all (\<lambda>k d. md_version d = k \<and> ?P d) all"
    unfolding all_def by (rule collect_all) auto
  have wf: "js_wf all"
    unfolding all_def by (intro collect_wf) simp
  note keys = collected(1)[OF wf entries] and P = collected(2)[OF wf entries]
  have ms: "mset (resolveMigrations loc R binding) = mset (js_values all)"
    by (simp add: resolveMigrations_def sortMigrations_def mset_sort_by all_def)
  then have "mset (map md_version (resolveMigrations loc R binding)) = mset (js_keys all)"
    using keys by (metis mset_map)
  then show "distinct (map md_version (resolveMigrations loc R binding))"
    using wf by (metis mset_eq_imp_distinct_iff)
  show "md_binding m = binding \<and> m \<in> set (rn_configured R) \<union> set (rn_registered R)"
    if "m \<in> set (resolveMigrations loc R binding)"
    using that ms P by (metis set_mset_mset)
qed

lemma leaves_prefix_replays:
  assumes "leaves_prefix stamp binding ms db db'" "\<forall>m \<in> set ms. md_up m = U (md_version m)"
    and "replay U (db_rows db) d0 = Inr (db_data db)"
  shows "replay U (db_rows db') d0 = Inr (db_data db')"
proof -
  obtain k where k: "db_rows db' = db_rows db @ map (record_of stamp binding) (take k ms)"
      "run_ups (take k ms) (db_data db) = Inr (db_data db')"
    using assms(1) by (auto simp: leaves_prefix_def)
  have "\<forall>m \<in> set (take k ms). md_up m = U (md_version m)"
    using assms(2) by (meson in_set_takeD)
  then have "replay U (map (record_of stamp binding) (take k ms)) (db_data db) = Inr (db_data db')"
    using replay_records k(2) by metis
  then show ?thesis
    using k(1) assms(3) by (simp add: replay_append)
qed

lemma apply_all_distinct:
  "apply_all stamp binding ms new db = (r, db') \<Longrightarrow> distinct (map mr_version (db_rows db)) \<Longrightarrow>
     distinct (map mr_version (db_rows db'))"
proof (induction ms arbitrary: new db)
  case (Cons m ms)
  show ?case
  proof (cases "apply_one stamp binding m db")
    case (Inr db1)
    then have "distinct (map mr_version (db_rows db1))"
      using apply_one_ok(2,3)[OF Inr] Cons.prems(2) by simp
    then show ?thesis
      using Cons.IH Cons.prems(1) Inr by simp
  qed (use Cons.prems in simp)
qed simp

lemma execute_distinct:
  assumes "execute loc R now stamp opts binding db = (r, db')" "distinct (map mr_version (db_rows db))"
  shows "distinct (map mr_version (db_rows db'))"
proof (cases "acquireLock R now binding db")
  case (Inr db1)
  obtain db2 where body: "execute_body loc R stamp opts binding db1 = (r, db2)" "db' = releaseLock R binding db2"
    using assms Inr by (auto simp: execute_def split: prod.splits)
  have d1: "distinct (map mr_version (db_rows db1))"
    using acquireLock_simps[OF Inr] assms(2) by simp
  have "distinct (map mr_version (db_rows db2))"
    using body(1) d1 by (auto simp: execute_body_def Let_def split: sum.splits if_splits prod.splits dest: apply_all_distinct)
  then show ?thesis
    using body(2) by simp
qed (use assms in \<open>simp add: execute_def\<close>)

lemma in_use_ok:
  "in_use U d0 db \<Longrightarrow> distinct (map mr_version (db_rows db)) \<and> replay U (db_rows db) d0 = Inr (db_data db)"
proof (induction rule: in_use.induct)
  case (lock db R now binding db')
  then show ?case
    using acquireLock_simps by metis
next
  case (transaction db m stamp binding db')
  then show ?case
    using apply_one_ok[OF transaction.hyps(3)] by (auto simp: replay_append)
next
  case (execute db R loc now stamp opts binding r db')
  have "\<forall>m \<in> set (pending_of (resolveMigrations loc R binding) (getHistory loc binding db)). md_up m = U (md_version m)"
    using execute.hyps(2) resolved(2) unfolding follows_def pending_of_def by (metis filter_is_subset subsetD)
  then show ?case
    using execute leaves_prefix_replays[OF execute_result[OF execute.hyps(3)]] execute_distinct by blast
qed auto

section \<open>A completed run\<close>

lemma find_duplicate_None: "find_duplicate seen ms = None \<longleftrightarrow> distinct (map md_version ms) \<and> set seen \<inter> md_version ` set ms = {}"
  by (induction seen ms rule: find_duplicate.induct) auto

lemma traverse_unit: "(\<exists>ys. traverse f xs = Inr ys) \<longleftrightarrow> (\<forall>x \<in> set xs. \<exists>y. f x = Inr y)"
proof
  assume "\<exists>ys. traverse f xs = Inr ys"
  then obtain ys where "list_all2 (\<lambda>x y. f x = Inr y) xs ys"
    using traverse_all2 by blast
  then show "\<forall>x \<in> set xs. \<exists>y. f x = Inr y"
    by (fastforce simp: list_all2_conv_all_nth in_set_conv_nth)
next
  assume "\<forall>x \<in> set xs. \<exists>y. f x = Inr y"
  then show "\<exists>ys. traverse f xs = Inr ys"
    by (induction xs) auto
qed

lemma check_applied_ok: "check_applied D r = Inr u \<longleftrightarrow>
    (\<exists>d. List.find (\<lambda>d. md_version d = mr_version r \<and> md_binding d = mr_binding r) D = Some d \<and> md_checksum d = mr_checksum r)"
  by (auto simp: check_applied_def guard_or_def split: option.splits)

lemma validate_ok:
  "validateIntegrity loc D A = Inr u \<longleftrightarrow> distinct (map md_version D) \<and> (\<forall>r \<in> set A. check_applied D r = Inr ()) \<and> check_order loc D A = Inr ()"
  using traverse_unit[of "check_applied D" A] find_duplicate_None[of "[]" D]
  by (auto simp: validateIntegrity_def rbind_eq_Inr split: option.splits)

lemma set_getHistory: "set (getHistory loc binding db) = {r \<in> set (db_rows db). mr_binding r = binding}"
  by (simp add: getHistory_def)

lemma find_by_version:
  assumes "distinct (map md_version D)" "m \<in> set D"
  shows "List.find (\<lambda>d. md_version d = md_version m \<and> md_binding d = md_binding m) D = Some m"
  using assms
proof (induction D)
  case (Cons d D)
  then show ?case
    by (auto intro: rev_image_eqI)
qed simp

lemma completed_run:
  assumes "execute_body loc R stamp opts binding db = (Inr res, db')" "ex_step opts = None" "\<not> ex_dryRun opts"
  shows "validateIntegrity loc (resolveMigrations loc R binding) (getHistory loc binding db') = Inr ()"
    "pending_of (resolveMigrations loc R binding) (getHistory loc binding db') = []" "er_pending res = []"
proof -
  let ?D = "resolveMigrations loc R binding" and ?A = "getHistory loc binding db"
  let ?P = "pending_of ?D ?A"
  have to: "to_apply opts ?P = ?P"
    by (simp add: to_apply_def assms(2))
  have ok: "validateIntegrity loc ?D ?A = Inr ()"
    using assms by (auto simp: execute_body_def Let_def split: sum.splits)
  obtain new where run: "apply_all stamp binding ?P [] db = (Inr new, db')"
      and res: "er_pending res = filter (\<lambda>m. md_version m \<notin> mr_version ` set ?A \<and> md_version m \<notin> mr_version ` set new) ?D"
    using assms ok to by (auto simp: execute_body_def Let_def split: sum.splits prod.splits)
  from apply_all_result[OF run] have new: "new = map (record_of stamp binding) ?P"
      and rows: "db_rows db' = db_rows db @ map (record_of stamp binding) ?P"
    by auto
  have hist: "set (getHistory loc binding db') = set ?A \<union> record_of stamp binding ` set ?P"
    unfolding set_getHistory rows by auto
  have versions: "m \<in> set ?D \<Longrightarrow> md_version m \<in> mr_version ` set (getHistory loc binding db')" for m
    unfolding hist by (cases "md_version m \<in> mr_version ` set ?A") (auto simp: pending_of_def image_Un image_image)
  then show pending: "pending_of ?D (getHistory loc binding db') = []"
    by (simp add: pending_of_def filter_empty_conv)
  show "er_pending res = []"
    using versions unfolding res hist new by (auto simp: filter_empty_conv image_Un)
  have "check_applied ?D r = Inr ()" if r: "r \<in> set (getHistory loc binding db')" for r
  proof (cases "r \<in> set ?A")
    case True
    then show ?thesis
      using ok by (simp add: validate_ok)
  next
    case False
    then obtain m where m: "m \<in> set ?P" "r = record_of stamp binding m"
      using r unfolding hist by auto
    then have "m \<in> set ?D"
      by (simp add: pending_of_def)
    moreover from this have "md_binding m = binding"
      using resolved(2) by blast
    ultimately show ?thesis
      using m(2) find_by_version[OF resolved(1), of m loc R binding] by (simp add: check_applied_ok)
  qed
  moreover have "List.find (\<lambda>d. md_version d \<notin> mr_version ` set (getHistory loc binding db') \<and> P d) ?D = None" for P
    using versions by (simp add: find_None_filter filter_empty_conv)
  then have "check_order loc ?D (getHistory loc binding db') = Inr ()"
    by (simp add: check_order_def)
  ultimately show "validateIntegrity loc ?D (getHistory loc binding db') = Inr ()"
    using resolved(1) by (simp add: validate_ok)
qed

section \<open>The lock\<close>

text \<open>What other runners may do while one holds the lock and its time is not up.\<close>

inductive others :: "'s runner \<Rightarrow> int \<Rightarrow> string \<Rightarrow> 's mig_db \<Rightarrow> 's mig_db \<Rightarrow> bool" for R now binding db where
  none: "others R now binding db db"
| lock: "others R now binding db db1 \<Longrightarrow> rn_id Q \<noteq> rn_id R \<Longrightarrow> t - now \<le> rn_lockTimeoutMs Q \<Longrightarrow>
    acquireLock Q t binding' db1 = Inr db2 \<Longrightarrow> others R now binding db db2"
| release: "others R now binding db db1 \<Longrightarrow> rn_id Q \<noteq> rn_id R \<Longrightarrow> others R now binding db (releaseLock Q binding' db1)"
| transaction: "others R now binding db db1 \<Longrightarrow> apply_one stamp binding' m db1 = Inr db2 \<Longrightarrow> others R now binding db db2"

lemma lock_id_inject [simp]: "lock_id a = lock_id b \<longleftrightarrow> a = b"
  by (simp add: lock_id_def)

lemma acquired: "acquireLock R now binding db = Inr db1 \<Longrightarrow> js_get (db_locks db1) (lock_id binding) = Some (held_by (rn_id R) now)"
  by (auto simp: acquireLock_def Let_def split: option.splits if_splits)

lemma held_lock_refused:
  assumes "js_get (db_locks db) (lock_id binding) = Some (held_by r now)" "t - now \<le> rn_lockTimeoutMs Q"
  shows "acquireLock Q t binding db = Inl (LockHeld (Some r))"
  using assms by (simp add: acquireLock_def held_by_def)

lemma others_keep_lock:
  assumes "others R now binding db db'" "js_get (db_locks db) (lock_id binding) = Some (held_by (rn_id R) now)"
  shows "js_get (db_locks db') (lock_id binding) = Some (held_by (rn_id R) now)"
  using assms
proof (induction rule: others.induct)
  case (lock db1 Q t binding' db2)
  then show ?case
    using held_lock_refused[of db1 binding "rn_id R" now t Q]
    by (cases "binding' = binding") (auto simp: acquireLock_def Let_def split: option.splits if_splits)
next
  case (release db1 Q binding')
  then show ?case
    by (auto simp: releaseLock_def held_by_def split: option.splits)
next
  case (transaction db1 stamp binding' m db2)
  then show ?case
    using apply_one_ok(4) by metis
qed

section \<open>Properties\<close>

text \<open>C11: The schema is the recorded history: through any interleaving of runners, stolen locks included, no version
  is recorded twice and the database is what the recorded migrations make of the empty one, each run once and
  in the order of the rows.\<close>

theorem schema_is_recorded_history:
  assumes "in_use U d0 db"
  shows "distinct (map mr_version (db_rows db)) \<and> replay U (db_rows db) d0 = Inr (db_data db)"
  by (rule in_use_ok[OF assms])

text \<open>C32: A run leaves a prefix of its pending migrations applied, whether it succeeds or fails, and nothing of the
  one that failed, on a database whose transactions roll back.\<close>

theorem run_leaves_prefix:
  assumes "execute loc R now stamp opts binding db = (r, db')"
  shows "\<exists>k \<le> length (pending_of (resolveMigrations loc R binding) (getHistory loc binding db)).
    db_rows db' = db_rows db @ map (record_of stamp binding) (take k (pending_of (resolveMigrations loc R binding) (getHistory loc binding db))) \<and>
    run_ups (take k (pending_of (resolveMigrations loc R binding) (getHistory loc binding db))) (db_data db) = Inr (db_data db')"
  using execute_result[OF assms] by (simp add: leaves_prefix_def)

text \<open>After a run to the end the status is up to date: the history validates and nothing is pending.\<close>

theorem completed_run_is_up_to_date:
  assumes "execute loc R now stamp opts binding db = (Inr res, db')" "ex_step opts = None" "\<not> ex_dryRun opts"
  shows "er_pending res = [] \<and> (\<exists>s. status loc R binding db' = Inr s \<and> st_isUpToDate s)"
proof -
  obtain db1 db2 where a: "acquireLock R now binding db = Inr db1"
      and body: "execute_body loc R stamp opts binding db1 = (Inr res, db2)" "db' = releaseLock R binding db2"
    using assms(1) by (auto simp: execute_def split: sum.splits prod.splits)
  have "getHistory loc binding db' = getHistory loc binding db2"
    by (simp add: getHistory_def body(2))
  then show ?thesis
    using completed_run[OF body(1) assms(2,3)] by (simp add: status_def Let_def)
qed

text \<open>C33: The lock excludes: while a runner holds it and its time is not up, every other runner is refused, whatever
  else the others did in between.\<close>

theorem lock_excludes_until_timeout:
  assumes "acquireLock R now binding db = Inr db1" "others R now binding db1 db2" "t - now \<le> rn_lockTimeoutMs Q"
  shows "acquireLock Q t binding db2 = Inl (LockHeld (Some (rn_id R)))"
  using held_lock_refused others_keep_lock[OF assms(2) acquired[OF assms(1)]] assms(3) by blast

text \<open>Dotted versions are ordered number by number.\<close>

theorem dotted_versions_ordered:
  assumes "list_all all_digits as" "list_all all_digits bs" "as \<noteq> []" "bs \<noteq> []"
    and "compare_numbers (map digits_val as) (map digits_val bs) \<noteq> 0"
  shows "compareVersions loc (dotted as) (dotted bs) = compare_numbers (map digits_val as) (map digits_val bs)"
  by (rule compareVersions_dotted[OF assms])

text \<open>Two runs of a service that adds to a number: the second finds the first one's version taken by another binding.\<close>

definition demo_migration :: "string \<Rightarrow> string \<Rightarrow> nat migration" where
  "demo_migration v binding = \<lparr>md_version = v, md_description = ''d'', md_binding = binding, md_checksum = ''c'',
     md_up = (\<lambda>n. Inr (n + 1))\<rparr>"

definition demo_runner :: "nat migration list \<Rightarrow> nat runner" where
  "demo_runner ms = \<lparr>rn_id = ''r'', rn_defaultBinding = ''main'', rn_lockTimeoutMs = 60000, rn_configured = ms, rn_registered = []\<rparr>"

definition empty_db :: "nat mig_db" where
  "empty_db = \<lparr>db_rows = [], db_locks = [], db_data = 0\<rparr>"

definition run_all :: exec_options where
  "run_all = \<lparr>ex_step = None, ex_dryRun = False\<rparr>"

lemmas migration_rules =
  demo_migration_def demo_runner_def empty_db_def run_all_def execute_def execute_body_def acquireLock_def releaseLock_def lock_id_def
  held_by_def getHistory_def resolveMigrations_def sortMigrations_def validateIntegrity_def check_order_def check_applied_def
  pending_of_def to_apply_def apply_one_def record_of_def guard_or_def

definition demo_db :: "nat mig_db" where
  "demo_db = \<lparr>db_rows = [record_of (\<lambda>_. (''t'', 1)) ''main'' (demo_migration ''1'' ''main'')],
     db_locks = [(lock_id ''main'', \<lparr>lk_locked = False, lk_acquiredAt = None, lk_lockedBy = None\<rparr>)], db_data = 1\<rparr>"

lemma demo_first_run:
  "execute loc (demo_runner [demo_migration ''1'' ''main'']) 5 (\<lambda>_. (''t'', 1)) run_all ''main'' empty_db =
     (Inr \<lparr>er_applied = [record_of (\<lambda>_. (''t'', 1)) ''main'' (demo_migration ''1'' ''main'')], er_pending = [], er_dryRun = False\<rparr>, demo_db)"
  by (simp add: demo_db_def migration_rules)

text \<open>Histories and pending lists are per binding, but the table's key is the version alone: a migration whose
  version another binding has recorded is pending, valid, and can never be applied.\<close>

theorem version_of_other_binding_blocks:
  "case execute loc (demo_runner [demo_migration ''1'' ''main'']) 5 (\<lambda>_. (''t'', 1)) run_all ''main'' empty_db of
     (Inr _, db) \<Rightarrow>
       fst (execute loc (demo_runner [demo_migration ''1'' ''audit'']) 6 (\<lambda>_. (''t'', 1)) run_all ''audit'' db)
         = Inl (ExecutionFailed ''1'' ''UNIQUE constraint failed'') \<and>
       (case status loc (demo_runner [demo_migration ''1'' ''audit'']) ''audit'' db of
          Inr s \<Rightarrow> map md_version (st_pending s) = [''1''] | Inl _ \<Rightarrow> False)
   | _ \<Rightarrow> False"
  unfolding demo_first_run by (simp add: demo_db_def migration_rules status_def image_iff)

lemma schema_is_recorded_history_witness: "replay (\<lambda>v n. Inr (n + 1)) (db_rows demo_db) (0::nat) = Inr 1"
proof -
  let ?U = "\<lambda>v (n::nat). Inr (n + 1) :: (string, nat) result"
  have "in_use ?U 0 empty_db"
    unfolding empty_db_def by (rule in_use.fresh)
  moreover have "follows ?U (demo_runner [demo_migration ''1'' ''main''])"
    by (simp add: follows_def demo_runner_def demo_migration_def)
  ultimately have "in_use ?U 0 demo_db"
    by (rule in_use.execute[OF _ _ demo_first_run[of "\<lambda>_ _. 0"]])
  from schema_is_recorded_history[OF this] show ?thesis
    by (simp add: demo_db_def)
qed

lemma run_leaves_prefix_witness:
  "\<exists>k. db_rows demo_db = map (record_of (\<lambda>_. (''t'', 1)) ''main'') (take k [demo_migration ''1'' ''main''])"
proof -
  have "pending_of (resolveMigrations (\<lambda>_ _. 0) (demo_runner [demo_migration ''1'' ''main'']) ''main'') (getHistory (\<lambda>_ _. 0) ''main'' empty_db)
      = [demo_migration ''1'' ''main'']" "db_rows empty_db = []"
    by (simp_all add: migration_rules)
  then show ?thesis
    using run_leaves_prefix[OF demo_first_run[of "\<lambda>_ _. 0"]] by (auto simp del: take_Cons)
qed

lemma completed_run_is_up_to_date_witness:
  "\<exists>s. status (\<lambda>_ _. 0) (demo_runner [demo_migration ''1'' ''main'']) ''main'' demo_db = Inr s \<and> st_isUpToDate s"
  using completed_run_is_up_to_date[OF demo_first_run[of "\<lambda>_ _. 0"]] by (simp add: run_all_def)

lemma lock_excludes_until_timeout_witness:
  "acquireLock (demo_runner []\<lparr>rn_id := ''q''\<rparr>) 60000 ''main''
     (empty_db\<lparr>db_locks := [(lock_id ''main'', held_by ''r'' 5)]\<rparr>) = Inl (LockHeld (Some ''r''))"
proof -
  have "acquireLock (demo_runner []) 5 ''main'' empty_db = Inr (empty_db\<lparr>db_locks := [(lock_id ''main'', held_by ''r'' 5)]\<rparr>)"
    by (simp add: migration_rules)
  from lock_excludes_until_timeout[OF this others.none, of 60000 "demo_runner []\<lparr>rn_id := ''q''\<rparr>"] show ?thesis
    by (simp add: demo_runner_def)
qed

lemma dotted_versions_ordered_witness: "compareVersions (\<lambda>_ _. 0) ''1.10.0'' ''1.9'' = 1"
proof -
  have "compare_numbers (map digits_val [''1'', ''10'', ''0'']) (map digits_val [''1'', ''9'']) = 1"
    by (simp add: digits_val_def code_def)
  then show ?thesis
    using dotted_versions_ordered[of "[''1'', ''10'', ''0'']" "[''1'', ''9'']" "\<lambda>_ _. 0"]
    by (simp add: all_digits_def is_digit_def code_def dotted_def)
qed

end
