(* ===== verification/QueryMethods.thy ===== *)
theory QueryMethods
  imports AsciiText
begin

text \<open>
  Queries derived from method names, and the in-memory repository they run on:
  \<^verbatim>\<open>di-framework-repo/src/query-derivation.ts\<close> and \<^verbatim>\<open>in-memory.ts\<close>.

  Names, property paths and texts are ASCII strings.  Values are those of JavaScript; objects, arrays and dates
  carry an address, which is what \<^verbatim>\<open>===\<close> compares; members of prototypes are left out, and numbers are
  rationals.  What \<^verbatim>\<open>String\<close>, \<^verbatim>\<open>new Date\<close> and \<^verbatim>\<open>JSON.stringify\<close> make of numbers, dates
  and objects is a parameter.  The lemmas show that the scanner splits camel-case names at words, that names
  printed from a plan parse to it, what a derived query returns, and where names and operators surprise.
\<close>

section \<open>Plans\<close>

datatype subject_kind = QuerySubject | ExistsSubject | CountSubject | DeleteSubject

datatype operator =
    OpEq | OpNeq | OpGt | OpGte | OpLt | OpLte | OpBetween | OpIn | OpNotIn | OpContaining | OpNotContaining
  | OpStartingWith | OpEndingWith | OpLike | OpNotLike | OpIsNull | OpIsNotNull | OpIsTrue | OpIsFalse | OpIsEmpty
  | OpIsNotEmpty

datatype combinator = CombAnd | CombOr

datatype direction = Asc | Desc

record condition =
  pc_property :: string
  pc_operator :: operator
  pc_ignoreCase :: bool
  pc_argCount :: nat

record order_spec =
  os_property :: string
  os_direction :: direction

record derived_query =
  dq_subject :: subject_kind
  dq_methodName :: string
  dq_distinct :: bool
  dq_limit :: "nat option"
  dq_singleResult :: bool
  dq_conditions :: "condition list"
  dq_combinators :: "combinator list"
  dq_orderBy :: "order_spec list"

datatype query_error = InvalidLimit string | DeleteUnsupported string | EntityWithoutId string

section \<open>Keywords\<close>

definition QUERY_INTRODUCERS :: "string list" where
  "QUERY_INTRODUCERS = [''find'', ''read'', ''get'', ''query'', ''search'', ''stream'']"

definition DELETE_INTRODUCERS :: "string list" where
  "DELETE_INTRODUCERS = [''delete'', ''remove'']"

definition PREDICATE_KEYWORDS :: "(string \<times> operator \<times> nat) list" where
  "PREDICATE_KEYWORDS =
    [(''IsGreaterThanEqual'', OpGte, 1), (''GreaterThanEqual'', OpGte, 1), (''IsLessThanEqual'', OpLte, 1),
     (''LessThanEqual'', OpLte, 1), (''IsGreaterThan'', OpGt, 1), (''GreaterThan'', OpGt, 1), (''IsLessThan'', OpLt, 1),
     (''LessThan'', OpLt, 1), (''IsNotContaining'', OpNotContaining, 1), (''NotContaining'', OpNotContaining, 1),
     (''NotContains'', OpNotContaining, 1), (''IsContaining'', OpContaining, 1), (''Containing'', OpContaining, 1),
     (''Contains'', OpContaining, 1), (''IsStartingWith'', OpStartingWith, 1), (''StartingWith'', OpStartingWith, 1),
     (''StartsWith'', OpStartingWith, 1), (''IsEndingWith'', OpEndingWith, 1), (''EndingWith'', OpEndingWith, 1),
     (''EndsWith'', OpEndingWith, 1), (''IsNotEmpty'', OpIsNotEmpty, 0), (''NotEmpty'', OpIsNotEmpty, 0),
     (''IsEmpty'', OpIsEmpty, 0), (''Empty'', OpIsEmpty, 0), (''IsNotNull'', OpIsNotNull, 0), (''NotNull'', OpIsNotNull, 0),
     (''IsNull'', OpIsNull, 0), (''Null'', OpIsNull, 0), (''IsNotIn'', OpNotIn, 1), (''NotIn'', OpNotIn, 1),
     (''IsIn'', OpIn, 1), (''In'', OpIn, 1), (''IsNotLike'', OpNotLike, 1), (''NotLike'', OpNotLike, 1),
     (''IsLike'', OpLike, 1), (''Like'', OpLike, 1), (''IsBetween'', OpBetween, 2), (''Between'', OpBetween, 2),
     (''IsAfter'', OpGt, 1), (''After'', OpGt, 1), (''IsBefore'', OpLt, 1), (''Before'', OpLt, 1),
     (''IsFalse'', OpIsFalse, 0), (''False'', OpIsFalse, 0), (''IsTrue'', OpIsTrue, 0), (''True'', OpIsTrue, 0),
     (''IsNot'', OpNeq, 1), (''Not'', OpNeq, 1), (''Equals'', OpEq, 1), (''Is'', OpEq, 1)]"

section \<open>Parsing\<close>

text \<open>\<^verbatim>\<open>(?=[A-Z_])\<close>\<close>

definition starts_property :: "string \<Rightarrow> bool" where
  "starts_property s \<longleftrightarrow> (case s of [] \<Rightarrow> False | c # _ \<Rightarrow> is_upper c \<or> c = CHR ''_'')"

text \<open>The first place where the keyword is followed by a property: what is before, and what is after it.\<close>

fun split_at_word :: "string \<Rightarrow> string \<Rightarrow> (string \<times> string) option" where
  "split_at_word kw [] = None"
| "split_at_word kw (c # s) =
     (if starts_with kw (c # s) \<and> starts_property (drop (length kw) (c # s)) then Some ([], drop (length kw) (c # s))
      else map_option (apfst ((#) c)) (split_at_word kw s))"

record subject_spec =
  ss_kind :: subject_kind
  ss_distinct :: bool
  ss_limit :: "nat option"
  ss_single :: bool

definition introducer :: "string \<Rightarrow> (subject_kind \<times> string) option" where
  "introducer s =
     (case List.find (\<lambda>i. starts_with i s) QUERY_INTRODUCERS of
        Some i \<Rightarrow> Some (QuerySubject, drop (length i) s)
      | None \<Rightarrow>
          if starts_with ''exists'' s then Some (ExistsSubject, drop 6 s)
          else if starts_with ''count'' s then Some (CountSubject, drop 5 s)
          else (case List.find (\<lambda>i. starts_with i s) DELETE_INTRODUCERS of
                  Some i \<Rightarrow> Some (DeleteSubject, drop (length i) s)
                | None \<Rightarrow> None))"

text \<open>
  \<^verbatim>\<open>Number.parseInt(ds, 10)\<close> of a non-empty run of digits: the nearest double, ties to the even one; from
  \<^verbatim>\<open>2 ** 1024\<close> on it is \<^verbatim>\<open>Infinity\<close>, here \<open>None\<close>.  \<open>spare_bits\<close> is the number of low bits that a 53 bit
  significand has no room for, at most 971 in a finite double.
\<close>

function spare_bits :: "nat \<Rightarrow> nat" where
  "spare_bits n = (if n < 2 ^ 53 then 0 else Suc (spare_bits (n div 2)))"
  by pat_completeness auto

termination
  by (relation "measure id") auto

declare spare_bits.simps [simp del]

definition nearest_double :: "nat \<Rightarrow> nat" where
  "nearest_double n = (let m = 2 ^ spare_bits n; q = n div m; r = n mod m
     in if 2 * r < m \<or> 2 * r = m \<and> even q then q * m else (q + 1) * m)"

definition parse_int :: "string \<Rightarrow> nat option" where
  "parse_int ds = (let n = nearest_double (digits_val ds) in if spare_bits n \<le> 971 then Some n else None)"

lemma parse_int_safe: "digits_val ds < 2 ^ 53 \<Longrightarrow> parse_int ds = Some (digits_val ds)"
  by (simp add: parse_int_def nearest_double_def spare_bits.simps)

text \<open>The limit that the digits after \<^verbatim>\<open>First\<close> or \<^verbatim>\<open>Top\<close> give, if it is a finite number from one on.\<close>

definition subject_limit :: "string \<Rightarrow> nat option" where
  "subject_limit ds = (if ds = [] then Some 1
     else case parse_int ds of None \<Rightarrow> None | Some n \<Rightarrow> if n < 1 then None else Some n)"

text \<open>The matches of \<^verbatim>\<open>/Distinct|First(\d*)|Top(\d*)/g\<close>; \<open>None\<close> where the code throws.\<close>

function scan_subject :: "string \<Rightarrow> bool \<times> nat option \<times> bool \<Rightarrow> (bool \<times> nat option \<times> bool) option" where
  "scan_subject [] acc = Some acc"
| "scan_subject (c # s) (uniq, limit, single) =
     (if starts_with ''Distinct'' (c # s) then scan_subject (drop 7 s) (True, limit, single)
      else if starts_with ''First'' (c # s) \<or> starts_with ''Top'' (c # s) then
        (let r = drop (if starts_with ''First'' (c # s) then 4 else 2) s
         in (case subject_limit (takeWhile is_digit r) of
               None \<Rightarrow> None
             | Some n \<Rightarrow> scan_subject (dropWhile is_digit r) (uniq, Some n, single \<or> n = 1)))
      else scan_subject s (uniq, limit, single))"
  by pat_completeness auto

termination
  by (relation "measure (length \<circ> fst)") (auto simp: le_imp_less_Suc le_trans[OF length_dropWhile_le])

definition parseSubject :: "string \<Rightarrow> (query_error, subject_spec option) result" where
  "parseSubject s = (case introducer s of None \<Rightarrow> Inr None
     | Some (kind, rest) \<Rightarrow>
         (case scan_subject rest (False, None, False) of
            None \<Rightarrow> Inl (InvalidLimit s)
          | Some (uniq, limit, single) \<Rightarrow>
              Inr (Some \<lparr>ss_kind = kind, ss_distinct = uniq, ss_limit = limit, ss_single = (single \<and> kind = QuerySubject)\<rparr>)))"

definition uncapitalize :: "string \<Rightarrow> string" where
  "uncapitalize s = (case s of [] \<Rightarrow> [] | c # t \<Rightarrow> lower_char c # t)"

definition toPropertyPath :: "string \<Rightarrow> string" where
  "toPropertyPath raw = join_with ''.'' (map uncapitalize (filter (\<lambda>p. p \<noteq> []) (split_on (CHR ''_'') raw)))"

text \<open>A direction keyword at the front, with its length; it must end the text or precede a property.\<close>

definition direction_at :: "string \<Rightarrow> (direction \<times> nat) option" where
  "direction_at s =
     (if starts_with ''Desc'' s then if drop 4 s = [] \<or> starts_property (drop 4 s) then Some (Desc, 4) else None
      else if starts_with ''Asc'' s then if drop 3 s = [] \<or> starts_property (drop 3 s) then Some (Asc, 3) else None
      else None)"

lemma direction_at_length: "direction_at s = Some (d, n) \<Longrightarrow> 0 < n"
  by (auto simp: direction_at_def split: if_splits)

text \<open>\<open>cur\<close> is the text from \<^verbatim>\<open>start\<close> to \<^verbatim>\<open>i\<close>.\<close>

function order_loop :: "string \<Rightarrow> string \<Rightarrow> order_spec list \<Rightarrow> order_spec list" where
  "order_loop cur [] specs = specs"
| "order_loop cur (c # s) specs =
     (case (cur, direction_at (c # s)) of
        (x # xs, Some (d, n)) \<Rightarrow> order_loop [] (drop n (c # s)) (specs @ [\<lparr>os_property = toPropertyPath cur, os_direction = d\<rparr>])
      | _ \<Rightarrow> order_loop (cur @ [c]) s specs)"
  by pat_completeness auto

termination
  by (relation "measure (\<lambda>(cur, s, specs). length s)") (auto dest!: direction_at_length[OF sym])

definition parseOrderBy :: "string \<Rightarrow> order_spec list" where
  "parseOrderBy txt =
     (if txt = [] then []
      else let specs = order_loop [] txt [] in if specs = [] then [\<lparr>os_property = toPropertyPath txt, os_direction = Asc\<rparr>] else specs)"

definition splitOrderBy :: "string \<Rightarrow> string \<times> order_spec list" where
  "splitOrderBy s = (case split_at_word ''OrderBy'' s of None \<Rightarrow> (s, []) | Some (p, t) \<Rightarrow> (p, parseOrderBy t))"

text \<open>\<^verbatim>\<open>replace(/AllIgnoreCase|AllIgnoringCase/g, '')\<close> and whether it replaced anything.\<close>

function remove_all_ignore :: "string \<Rightarrow> bool \<times> string" where
  "remove_all_ignore [] = (False, [])"
| "remove_all_ignore (c # s) =
     (if starts_with ''AllIgnoreCase'' (c # s) then (True, snd (remove_all_ignore (drop 12 s)))
      else if starts_with ''AllIgnoringCase'' (c # s) then (True, snd (remove_all_ignore (drop 14 s)))
      else apsnd ((#) c) (remove_all_ignore s))"
  by pat_completeness auto

termination
  by (relation "measure length") auto

definition and_or_at :: "string \<Rightarrow> (combinator \<times> string) option" where
  "and_or_at s =
     (if starts_with ''And'' s \<and> starts_property (drop 3 s) then Some (CombAnd, drop 3 s)
      else if starts_with ''Or'' s \<and> starts_property (drop 2 s) then Some (CombOr, drop 2 s)
      else None)"

lemma and_or_at_length: "and_or_at s = Some (k, t) \<Longrightarrow> length t < length s"
  by (cases s) (auto simp: and_or_at_def starts_property_def split: if_splits)

function splitAndOr :: "string \<Rightarrow> string list \<times> combinator list" where
  "splitAndOr [] = ([[]], [])"
| "splitAndOr (c # s) = (case and_or_at (c # s) of
       Some (k, t) \<Rightarrow> (case splitAndOr t of (segs, ks) \<Rightarrow> ([] # segs, k # ks))
     | None \<Rightarrow> (case splitAndOr s of (seg # segs, ks) \<Rightarrow> ((c # seg) # segs, ks) | ([], ks) \<Rightarrow> ([[c]], ks)))"
  by pat_completeness auto

termination
  by (relation "measure length") (auto dest: and_or_at_length)

definition strip_suffix :: "string \<Rightarrow> string \<Rightarrow> string" where
  "strip_suffix sfx s = take (length s - length sfx) s"

definition ignore_case_suffix :: "bool \<Rightarrow> string \<Rightarrow> bool \<times> string" where
  "ignore_case_suffix allIgnoreCase s =
     (if ends_with ''IgnoreCase'' s then (True, strip_suffix ''IgnoreCase'' s)
      else if ends_with ''IgnoringCase'' s then (True, strip_suffix ''IgnoringCase'' s)
      else (allIgnoreCase, s))"

definition keyword_of :: "string \<Rightarrow> (string \<times> operator \<times> nat) option" where
  "keyword_of s = List.find (\<lambda>(sfx, _). ends_with sfx s \<and> length sfx < length s) PREDICATE_KEYWORDS"

definition parseCondition :: "bool \<Rightarrow> string \<Rightarrow> condition option" where
  "parseCondition allIgnoreCase segment =
     (if segment = [] then None
      else case ignore_case_suffix allIgnoreCase segment of (ic, s) \<Rightarrow>
        (case keyword_of s of
           Some (sfx, oper, n) \<Rightarrow>
             Some \<lparr>pc_property = toPropertyPath (strip_suffix sfx s), pc_operator = oper, pc_ignoreCase = ic, pc_argCount = n\<rparr>
         | None \<Rightarrow> Some \<lparr>pc_property = toPropertyPath s, pc_operator = OpEq, pc_ignoreCase = ic, pc_argCount = 1\<rparr>))"

definition parsePredicate :: "string \<Rightarrow> (condition list \<times> combinator list) option" where
  "parsePredicate txt =
     (if txt = [] then Some ([], [])
      else case remove_all_ignore txt of (allIgnoreCase, body) \<Rightarrow>
        (case splitAndOr body of (segments, combs) \<Rightarrow>
           map_option (\<lambda>cs. (cs, combs)) (those (map (parseCondition allIgnoreCase) (filter (\<lambda>s. s \<noteq> []) segments)))))"

definition parseQueryMethod :: "string \<Rightarrow> (query_error, derived_query option) result" where
  "parseQueryMethod name =
     (case split_at_word ''By'' name of
        None \<Rightarrow> Inr None
      | Some (subjectPart, afterBy) \<Rightarrow>
          if subjectPart = [] \<or> afterBy = [] then Inr None
          else rbind (parseSubject subjectPart) (\<lambda>s.
            case s of None \<Rightarrow> Inr None
            | Some ss \<Rightarrow>
                (case splitOrderBy afterBy of (predicateText, orderBy) \<Rightarrow>
                  (case parsePredicate predicateText of
                     None \<Rightarrow> Inr None
                   | Some (conds, combs) \<Rightarrow>
                       Inr (Some \<lparr>dq_subject = ss_kind ss, dq_methodName = name, dq_distinct = ss_distinct ss, dq_limit = ss_limit ss,
                                  dq_singleResult = ss_single ss, dq_conditions = conds, dq_combinators = combs, dq_orderBy = orderBy\<rparr>)))))"

section \<open>Values\<close>

text \<open>Dates hold milliseconds, \<open>None\<close> when invalid.\<close>

datatype val =
    Undef | Null | BoolV bool | NumV rat | StrV string | DateV nat "int option" | ArrV nat "val list" | ObjV nat "(string \<times> val) list"

record text_env =
  te_show :: "val \<Rightarrow> string"
  te_time :: "val \<Rightarrow> int option"
  te_json :: "val \<Rightarrow> string"

definition to_str :: "text_env \<Rightarrow> val \<Rightarrow> string" where
  "to_str E v = (case v of Undef \<Rightarrow> ''undefined'' | Null \<Rightarrow> ''null'' | BoolV b \<Rightarrow> if b then ''true'' else ''false''
     | StrV s \<Rightarrow> s | _ \<Rightarrow> te_show E v)"

definition time_of :: "text_env \<Rightarrow> val \<Rightarrow> int option" where
  "time_of E v = (case v of DateV _ t \<Rightarrow> t | _ \<Rightarrow> te_time E v)"

text \<open>\<^verbatim>\<open>===\<close>\<close>

fun strict_equal :: "val \<Rightarrow> val \<Rightarrow> bool" where
  "strict_equal Undef Undef = True"
| "strict_equal Null Null = True"
| "strict_equal (BoolV a) (BoolV b) = (a = b)"
| "strict_equal (NumV a) (NumV b) = (a = b)"
| "strict_equal (StrV a) (StrV b) = (a = b)"
| "strict_equal (DateV a _) (DateV b _) = (a = b)"
| "strict_equal (ArrV a _) (ArrV b _) = (a = b)"
| "strict_equal (ObjV a _) (ObjV b _) = (a = b)"
| "strict_equal _ _ = False"

definition is_date :: "val \<Rightarrow> bool" where
  "is_date v \<longleftrightarrow> (case v of DateV _ _ \<Rightarrow> True | _ \<Rightarrow> False)"

definition compareEqual :: "text_env \<Rightarrow> val \<Rightarrow> val \<Rightarrow> bool" where
  "compareEqual E a b \<longleftrightarrow> strict_equal a b \<or>
     (case a of DateV _ t \<Rightarrow>
        (case b of DateV _ u \<Rightarrow> t \<noteq> None \<and> t = u
         | StrV _ \<Rightarrow> t \<noteq> None \<and> t = te_time E b
         | NumV _ \<Rightarrow> t \<noteq> None \<and> t = te_time E b
         | _ \<Rightarrow> False)
      | _ \<Rightarrow> False)"

definition compareOrdered :: "text_env \<Rightarrow> val \<Rightarrow> val \<Rightarrow> int" where
  "compareOrdered E a b =
     (if is_date a \<or> is_date b
      then (case (time_of E a, time_of E b) of
              (Some x, Some y) \<Rightarrow> if x = y then 0 else if x > y then 1 else -1
            | _ \<Rightarrow> -1)
      else case (a, b) of
        (NumV x, NumV y) \<Rightarrow> if x = y then 0 else if x > y then 1 else -1
      | _ \<Rightarrow> (if to_str E a = to_str E b then 0 else if str_less (to_str E b) (to_str E a) then 1 else -1))"

text \<open>A member of a value; arrays have a length and elements.\<close>

definition member :: "string \<Rightarrow> val \<Rightarrow> val" where
  "member p v = (case v of
     ObjV _ m \<Rightarrow> (case js_get m p of Some x \<Rightarrow> x | None \<Rightarrow> Undef)
   | ArrV _ xs \<Rightarrow>
       if p = ''length'' then NumV (of_nat (length xs))
       else if all_digits p \<and> (p = ''0'' \<or> hd p \<noteq> CHR ''0'') \<and> digits_val p < length xs then xs ! digits_val p else Undef
   | _ \<Rightarrow> Undef)"

definition getPath :: "val \<Rightarrow> string \<Rightarrow> val" where
  "getPath v path = foldl (\<lambda>cur p. member p cur) v (split_on (CHR ''.'') path)"

section \<open>Conditions\<close>

definition isEmptyValue :: "val \<Rightarrow> bool" where
  "isEmptyValue v \<longleftrightarrow> (case v of Undef \<Rightarrow> True | Null \<Rightarrow> True | StrV s \<Rightarrow> s = [] | ArrV _ xs \<Rightarrow> xs = [] | _ \<Rightarrow> False)"

text \<open>The pattern as the regular expression it is turned into; the dot matches no line break.\<close>

definition reg_dot :: "char \<Rightarrow> bool" where
  "reg_dot c \<longleftrightarrow> code c \<noteq> 10 \<and> code c \<noteq> 13"

fun like_chars :: "string \<Rightarrow> string \<Rightarrow> bool" where
  "like_chars [] s \<longleftrightarrow> s = []"
| "like_chars (p # ps) [] \<longleftrightarrow> p = CHR ''%'' \<and> like_chars ps []"
| "like_chars (p # ps) (c # s) \<longleftrightarrow>
     (if p = CHR ''%'' then like_chars ps (c # s) \<or> (reg_dot c \<and> like_chars (p # ps) s)
      else if p = CHR ''_'' then reg_dot c \<and> like_chars ps s
      else p = c \<and> like_chars ps s)"

definition likeMatch :: "string \<Rightarrow> string \<Rightarrow> bool" where
  "likeMatch v pattern = like_chars pattern v"

definition norm_value :: "condition \<Rightarrow> val \<Rightarrow> val" where
  "norm_value c v = (if \<not> pc_ignoreCase c then v else case v of StrV s \<Rightarrow> StrV (lower s) | _ \<Rightarrow> v)"

text \<open>\<^verbatim>\<open>String(norm(v) ?? '')\<close>\<close>

definition norm_text :: "text_env \<Rightarrow> condition \<Rightarrow> val \<Rightarrow> string" where
  "norm_text E c v = (case norm_value c v of Undef \<Rightarrow> '''' | Null \<Rightarrow> '''' | x \<Rightarrow> to_str E x)"

definition arg :: "val list \<Rightarrow> nat \<Rightarrow> val" where
  "arg vs i = (if i < length vs then vs ! i else Undef)"

definition arg_list :: "val list \<Rightarrow> val list" where
  "arg_list vs = (case arg vs 0 of ArrV _ xs \<Rightarrow> xs | _ \<Rightarrow> [])"

definition evaluateCondition :: "text_env \<Rightarrow> val \<Rightarrow> condition \<Rightarrow> val list \<Rightarrow> bool" where
  "evaluateCondition E entity c vs =
     (let raw = getPath entity (pc_property c); eq = (\<lambda>x. compareEqual E (norm_value c raw) (norm_value c x));
          ord = (\<lambda>i. compareOrdered E raw (arg vs i)); str = norm_text E c raw; pat = norm_text E c (arg vs 0)
      in case pc_operator c of
           OpEq \<Rightarrow> eq (arg vs 0)
         | OpNeq \<Rightarrow> \<not> eq (arg vs 0)
         | OpGt \<Rightarrow> ord 0 > 0
         | OpGte \<Rightarrow> ord 0 \<ge> 0
         | OpLt \<Rightarrow> ord 0 < 0
         | OpLte \<Rightarrow> ord 0 \<le> 0
         | OpBetween \<Rightarrow> ord 0 \<ge> 0 \<and> ord 1 \<le> 0
         | OpIn \<Rightarrow> list_ex eq (arg_list vs)
         | OpNotIn \<Rightarrow> \<not> list_ex eq (arg_list vs)
         | OpContaining \<Rightarrow> contains_str pat str
         | OpNotContaining \<Rightarrow> \<not> contains_str pat str
         | OpStartingWith \<Rightarrow> starts_with pat str
         | OpEndingWith \<Rightarrow> ends_with pat str
         | OpLike \<Rightarrow> likeMatch str pat
         | OpNotLike \<Rightarrow> \<not> likeMatch str pat
         | OpIsNull \<Rightarrow> raw = Null \<or> raw = Undef
         | OpIsNotNull \<Rightarrow> raw \<noteq> Null \<and> raw \<noteq> Undef
         | OpIsTrue \<Rightarrow> raw = BoolV True
         | OpIsFalse \<Rightarrow> raw = BoolV False
         | OpIsEmpty \<Rightarrow> isEmptyValue raw
         | OpIsNotEmpty \<Rightarrow> \<not> isEmptyValue raw)"

text \<open>Each condition takes its arguments from the front.\<close>

fun bind_args :: "condition list \<Rightarrow> val list \<Rightarrow> (condition \<times> val list) list" where
  "bind_args [] vs = []"
| "bind_args (c # cs) vs = (c, take (pc_argCount c) vs) # bind_args cs (drop (pc_argCount c) vs)"

text \<open>Conditions are combined from the left; a missing combinator is \<^verbatim>\<open>and\<close>.\<close>

fun combine_from :: "(condition \<times> val list \<Rightarrow> bool) \<Rightarrow> bool \<Rightarrow> (condition \<times> val list) list \<Rightarrow> combinator list \<Rightarrow> bool" where
  "combine_from ev r [] ks = r"
| "combine_from ev r (b # bs) [] = combine_from ev (r \<and> ev b) bs []"
| "combine_from ev r (b # bs) (k # ks) =
     combine_from ev (case k of CombOr \<Rightarrow> r \<or> ev b | CombAnd \<Rightarrow> r \<and> ev b) bs ks"

definition satisfies :: "text_env \<Rightarrow> derived_query \<Rightarrow> val list \<Rightarrow> val \<Rightarrow> bool" where
  "satisfies E q vs entity =
     (case bind_args (dq_conditions q) vs of
        [] \<Rightarrow> True
      | b # bs \<Rightarrow> (let ev = (\<lambda>(c, ws). evaluateCondition E entity c ws) in combine_from ev (ev b) bs (dq_combinators q)))"

section \<open>Execution\<close>

definition order_cmp :: "text_env \<Rightarrow> val \<Rightarrow> val \<Rightarrow> order_spec \<Rightarrow> int" where
  "order_cmp E a b s = (let c = compareOrdered E (getPath a (os_property s)) (getPath b (os_property s))
     in case os_direction s of Asc \<Rightarrow> c | Desc \<Rightarrow> - c)"

fun entity_cmp :: "text_env \<Rightarrow> order_spec list \<Rightarrow> val \<Rightarrow> val \<Rightarrow> int" where
  "entity_cmp E [] a b = 0"
| "entity_cmp E (s # ss) a b = (if order_cmp E a b s \<noteq> 0 then order_cmp E a b s else entity_cmp E ss a b)"

definition sortEntities :: "text_env \<Rightarrow> order_spec list \<Rightarrow> val list \<Rightarrow> val list" where
  "sortEntities E ss es = sort_by (\<lambda>a b. entity_cmp E ss a b \<le> 0) es"

fun distinct_from :: "text_env \<Rightarrow> string list \<Rightarrow> val list \<Rightarrow> val list" where
  "distinct_from E seen [] = []"
| "distinct_from E seen (e # es) =
     (if te_json E e \<in> set seen then distinct_from E seen es else e # distinct_from E (te_json E e # seen) es)"

definition distinctByJson :: "text_env \<Rightarrow> val list \<Rightarrow> val list" where
  "distinctByJson E es = distinct_from E [] es"

text \<open>The entities the plan selects, before the subject looks at them.\<close>

definition selected :: "text_env \<Rightarrow> derived_query \<Rightarrow> val list \<Rightarrow> val list \<Rightarrow> val list" where
  "selected E q vs es =
     (let matched = filter (satisfies E q vs) es;
          matched1 = (if dq_distinct q then distinctByJson E matched else matched);
          matched2 = (if dq_orderBy q \<noteq> [] then sortEntities E (dq_orderBy q) matched1 else matched1)
      in case dq_limit q of None \<Rightarrow> matched2 | Some n \<Rightarrow> take n matched2)"

record 's repo_ops =
  ro_findAll :: "'s \<Rightarrow> val list"
  ro_delete :: "(val \<Rightarrow> 's \<Rightarrow> bool \<times> 's) option"
  ro_entityId :: "val \<Rightarrow> val"

datatype query_result = Entities "val list" | OneEntity val | Truth bool | Number nat

fun delete_loop :: "string \<Rightarrow> (val \<Rightarrow> val) \<Rightarrow> (val \<Rightarrow> 's \<Rightarrow> bool \<times> 's) \<Rightarrow> val list \<Rightarrow> nat \<Rightarrow> 's \<Rightarrow>
    (query_error, query_result) result \<times> 's" where
  "delete_loop name idOf del [] n s = (Inr (Number n), s)"
| "delete_loop name idOf del (e # es) n s =
     (if idOf e = Undef then (Inl (EntityWithoutId name), s)
      else case del (idOf e) s of (ok, s') \<Rightarrow> delete_loop name idOf del es (if ok then n + 1 else n) s')"

definition executeDerivedQuery ::
  "text_env \<Rightarrow> derived_query \<Rightarrow> 's repo_ops \<Rightarrow> val list \<Rightarrow> 's \<Rightarrow> (query_error, query_result) result \<times> 's" where
  "executeDerivedQuery E q ops vs s =
     (let matched = selected E q vs (ro_findAll ops s)
      in case dq_subject q of
           QuerySubject \<Rightarrow>
             (Inr (if dq_singleResult q then OneEntity (case matched of e # _ \<Rightarrow> e | [] \<Rightarrow> Null) else Entities matched), s)
         | ExistsSubject \<Rightarrow> (Inr (Truth (matched \<noteq> [])), s)
         | CountSubject \<Rightarrow> (Inr (Number (length matched)), s)
         | DeleteSubject \<Rightarrow>
             (case ro_delete ops of
                None \<Rightarrow> (Inl (DeleteUnsupported (dq_methodName q)), s)
              | Some del \<Rightarrow> delete_loop (dq_methodName q) (ro_entityId ops) del matched 0 s))"

section \<open>Property access\<close>

datatype strategy = Create | CreateIfNotFound | UseDeclared

definition isDerivableName :: "string \<Rightarrow> bool" where
  "isDerivableName name \<longleftrightarrow> introducer name \<noteq> None"

text \<open>What reading \<open>name\<close> off a wrapped repository yields: \<open>existing\<close> is the target's own value
  (\<open>None\<close> for undefined), \<open>callable\<close> whether it is a function, \<open>declared\<close> whether object or
  prototypes have a method of that name.\<close>

datatype access = Existing | Absent | Derived derived_query

definition derived_get :: "strategy \<Rightarrow> bool \<Rightarrow> bool \<Rightarrow> bool \<Rightarrow> string \<Rightarrow> (query_error, access) result" where
  "derived_get strat existing callable declared name =
     (if strat = UseDeclared then Inr Existing
      else if strat = CreateIfNotFound \<and> callable \<and> declared then Inr Existing
      else if strat = CreateIfNotFound \<and> existing \<and> \<not> isDerivableName name then Inr Existing
      else if \<not> isDerivableName name then Inr Existing
      else rbind (parseQueryMethod name) (\<lambda>plan.
        case plan of
          None \<Rightarrow> Inr (if strat = Create then Absent else Existing)
        | Some q \<Rightarrow> Inr (if strat = CreateIfNotFound \<and> declared then Existing else Derived q)))"

section \<open>The in-memory repository\<close>

type_synonym items = "(string, val) jsmap"

definition normalizeId :: "text_env \<Rightarrow> val \<Rightarrow> string" where
  "normalizeId E i = to_str E i"

definition id_of :: "val \<Rightarrow> val" where
  "id_of e = member ''id'' e"

definition repo_findById :: "text_env \<Rightarrow> val \<Rightarrow> items \<Rightarrow> val option" where
  "repo_findById E i m = js_get m (normalizeId E i)"

definition repo_findAll :: "items \<Rightarrow> val list" where
  "repo_findAll m = js_values m"

definition repo_findMany :: "text_env \<Rightarrow> val list \<Rightarrow> items \<Rightarrow> val list" where
  "repo_findMany E ids m = List.map_filter (\<lambda>i. js_get m (normalizeId E i)) ids"

definition repo_save :: "text_env \<Rightarrow> val \<Rightarrow> items \<Rightarrow> items" where
  "repo_save E e m = js_set (normalizeId E (id_of e)) e m"

definition repo_delete :: "text_env \<Rightarrow> val \<Rightarrow> items \<Rightarrow> bool \<times> items" where
  "repo_delete E i m = (js_has m (normalizeId E i), js_del (normalizeId E i) m)"

definition repo_saveIfAbsent :: "text_env \<Rightarrow> val \<Rightarrow> items \<Rightarrow> bool \<times> items" where
  "repo_saveIfAbsent E e m = (if js_has m (normalizeId E (id_of e)) then (False, m) else (True, repo_save E e m))"

definition repo_compareAndSwap :: "text_env \<Rightarrow> val \<Rightarrow> (val option \<Rightarrow> val option) \<Rightarrow> items \<Rightarrow> bool \<times> items" where
  "repo_compareAndSwap E i mutate m =
     (case mutate (js_get m (normalizeId E i)) of None \<Rightarrow> (False, m) | Some e \<Rightarrow> (True, js_set (normalizeId E i) e m))"

definition memory_repo :: "text_env \<Rightarrow> items repo_ops" where
  "memory_repo E = \<lparr>ro_findAll = repo_findAll, ro_delete = Some (repo_delete E), ro_entityId = id_of\<rparr>"

record page =
  pg_items :: "val list"
  pg_total :: nat
  pg_page :: int
  pg_size :: int
  pg_pages :: int

text \<open>Zero, as \<^verbatim>\<open>undefined\<close>, asks for the default; the other parameters filter by strict equality.\<close>

definition repo_findPaginated :: "int \<Rightarrow> int \<Rightarrow> (string \<times> val) list \<Rightarrow> items \<Rightarrow> page" where
  "repo_findPaginated pageno sz filters m =
     (let page' = (if pageno = 0 then 1 else pageno); size' = (if sz = 0 then 10 else sz);
          filtered = filter (\<lambda>e. list_all (\<lambda>(k, v). strict_equal (member k e) v) filters) (repo_findAll m);
          start = (page' - 1) * size'
      in \<lparr>pg_items = js_slice_int start (start + size') filtered, pg_total = length filtered, pg_page = page', pg_size = size',
          pg_pages = \<lceil>(of_nat (length filtered) :: rat) / of_int size'\<rceil>\<rparr>)"

end
