(* ===== verification/QueryNames.thy ===== *)
theory QueryNames
  imports QueryMethods
begin

text \<open>
  Camel-case names as lists of words: the scanner of \<^verbatim>\<open>query-derivation.ts\<close>, which looks for
  keywords at every character, finds them exactly at words, and a name printed from a plan parses to it.
\<close>

section \<open>Words\<close>

definition tail_char :: "char \<Rightarrow> bool" where
  "tail_char c \<longleftrightarrow> \<not> is_upper c \<and> c \<noteq> CHR ''_''"

definition word :: "string \<Rightarrow> bool" where
  "word w \<longleftrightarrow> (case w of [] \<Rightarrow> False | c # cs \<Rightarrow> is_upper c \<and> list_all tail_char cs)"

definition words :: "string list \<Rightarrow> bool" where
  "words ws \<longleftrightarrow> list_all word ws"

lemma words_simps [simp]:
  "words []" "words (w # ws) \<longleftrightarrow> word w \<and> words ws" "words (xs @ ys) \<longleftrightarrow> words xs \<and> words ys"
  by (simp_all add: words_def)

lemma word_Cons: "word (c # cs) \<longleftrightarrow> is_upper c \<and> list_all tail_char cs"
  by (simp add: word_def)

lemma not_word_Nil [simp]: "\<not> word []"
  by (simp add: word_def)

lemma wordE:
  assumes "word w"
  obtains c cs where "w = c # cs" "is_upper c" "list_all tail_char cs"
  using assms by (cases w) (auto simp: word_Cons)

lemma words_starts: "words ws \<Longrightarrow> concat ws = [] \<or> (\<exists>c s. concat ws = c # s \<and> is_upper c)"
  by (cases ws) (auto elim: wordE)

lemma words_empty [simp]: "words ws \<Longrightarrow> concat ws = [] \<longleftrightarrow> ws = []"
  by (cases ws) (auto elim: wordE)

lemma starts_property_words: "words ws \<Longrightarrow> starts_property (concat ws) \<longleftrightarrow> ws \<noteq> []"
  by (cases ws) (auto simp: starts_property_def elim: wordE)

lemma tail_not_start: "tail_char c \<Longrightarrow> \<not> starts_property (c # s)"
  by (simp add: starts_property_def tail_char_def)

lemma starts_with_Cons [simp]: "starts_with (k # ks) (c # s) \<longleftrightarrow> c = k \<and> starts_with ks s"
  by (auto simp: starts_with_def)

lemma starts_with_Nil [simp]: "starts_with [] s" "\<not> starts_with (k # ks) []"
  by (simp_all add: starts_with_def)

text \<open>The keyword at a word: its tail is the tail of the word.\<close>

lemma tail_match:
  assumes "list_all tail_char ks" "list_all tail_char cs" "rest = [] \<or> (\<exists>c s. rest = c # s \<and> is_upper c)"
  shows "starts_with ks (cs @ rest) \<and> starts_property (drop (length ks) (cs @ rest)) \<longleftrightarrow> ks = cs \<and> rest \<noteq> []"
  using assms(1,2)
proof (induction ks arbitrary: cs)
  case Nil
  then show ?case
    using assms(3) by (cases cs) (auto simp: starts_property_def tail_char_def)
next
  case (Cons k ks)
  then show ?case
    using assms(3) by (cases cs) (auto simp: tail_char_def)
qed

lemma word_match:
  assumes "word k" "word w" "words ws"
  shows "starts_with k (w @ concat ws) \<and> starts_property (drop (length k) (w @ concat ws)) \<longleftrightarrow> k = w \<and> ws \<noteq> []"
proof -
  obtain a ks b cs where k: "k = a # ks" "list_all tail_char ks" and w: "w = b # cs" "list_all tail_char cs"
    using assms by (metis wordE)
  show ?thesis
    using tail_match[OF k(2) w(2) words_starts[OF assms(3)]] k(1) w(1) words_empty[OF assms(3)] by auto
qed

lemma prefix_match:
  assumes "list_all tail_char ks" "list_all tail_char cs" "is_upper a" "rest = [] \<or> (\<exists>c s. rest = c # s \<and> is_upper c)"
  shows "starts_with (ks @ a # K) (cs @ rest) \<longleftrightarrow> ks = cs \<and> starts_with (a # K) rest"
  using assms(1,2)
proof (induction ks arbitrary: cs)
  case Nil
  then show ?case
    using assms(3,4) by (cases cs) (auto simp: tail_char_def)
next
  case (Cons k ks)
  then show ?case
    using assms(4) by (cases cs) (auto simp: tail_char_def)
qed

lemma words_match_first:
  assumes "word k" "word w" "words ks" "words ws" "ks \<noteq> []"
  shows "starts_with (k @ concat ks) (w @ concat ws) \<longleftrightarrow> k = w \<and> starts_with (concat ks) (concat ws)"
proof -
  obtain a kt b wt where k: "k = a # kt" "list_all tail_char kt" and w: "w = b # wt" "list_all tail_char wt"
    using assms by (metis wordE)
  obtain c K where ck: "concat ks = c # K" "is_upper c"
    using words_starts[OF assms(3)] words_empty[OF assms(3)] assms(5) by auto
  show ?thesis
    using prefix_match[OF k(2) w(2) ck(2) words_starts[OF assms(4)], of K] k(1) w(1) ck(1) by auto
qed

text \<open>A keyword of several words, followed by another word.\<close>

lemma words_match:
  assumes "words ks" "words ws" "ks \<noteq> []"
  shows "starts_with (concat ks) (concat ws) \<and> starts_property (drop (length (concat ks)) (concat ws)) \<longleftrightarrow>
    (\<exists>rest. ws = ks @ rest \<and> rest \<noteq> [])"
  using assms
proof (induction ks arbitrary: ws)
  case (Cons k ks)
  show ?case
  proof (cases ws)
    case Nil
    then show ?thesis
      using Cons.prems by (cases k) (auto simp: word_def)
  next
    case (Cons w vs)
    show ?thesis
    proof (cases "ks = []")
      case True
      then show ?thesis
        using word_match[of k w vs] Cons Cons.prems by auto
    next
      case False
      have first: "starts_with (concat (k # ks)) (concat ws) \<longleftrightarrow> k = w \<and> starts_with (concat ks) (concat vs)"
        using words_match_first[of k w ks vs] False Cons Cons.prems by simp
      show ?thesis
        using Cons.IH[of vs] first Cons Cons.prems False by auto
    qed
  qed
qed simp

text \<open>No keyword starts inside a word.\<close>

lemma no_match_inside: "tail_char c \<Longrightarrow> word k \<Longrightarrow> \<not> starts_with (k @ K) (c # s)"
  by (auto simp: tail_char_def elim!: wordE)

section \<open>Splitting at words\<close>

fun split_words :: "string list \<Rightarrow> string list \<Rightarrow> (string list \<times> string list) option" where
  "split_words ks [] = None"
| "split_words ks (w # ws) =
     (if take (length ks) (w # ws) = ks \<and> length ks < length (w # ws) then Some ([], drop (length ks) (w # ws))
      else map_option (apfst ((#) w)) (split_words ks ws))"

lemma split_at_tail:
  assumes "list_all tail_char cs" "word k"
  shows "split_at_word (k @ K) (cs @ s) = map_option (apfst ((@) cs)) (split_at_word (k @ K) s)"
  using assms(1)
proof (induction cs)
  case Nil
  then show ?case
    by (cases "split_at_word (k @ K) s") auto
next
  case (Cons c cs)
  then show ?case
    using no_match_inside[OF _ assms(2), of c K "cs @ s"]
    by (cases "split_at_word (k @ K) s") auto
qed

lemma proper_prefix_iff: "(\<exists>rest. ws = ks @ rest \<and> rest \<noteq> []) \<longleftrightarrow> take (length ks) ws = ks \<and> length ks < length ws"
  by (metis append_eq_conv_conj append_take_drop_id drop_eq_Nil leD leI)

text \<open>The scanner splits a camel-case name at the first place where the words of the keyword occur.\<close>

lemma split_at_words:
  assumes "words ks" "ks \<noteq> []" "words ws"
  shows "split_at_word (concat ks) (concat ws) = map_option (map_prod concat concat) (split_words ks ws)"
  using assms(3)
proof (induction ws)
  case (Cons w ws)
  obtain k K where k: "concat ks = k @ K" "word k"
    using assms(1,2) by (cases ks) auto
  obtain c cs where w: "w = c # cs" "list_all tail_char cs"
    using Cons.prems by (metis words_simps(2) wordE)
  have match: "starts_with (concat ks) (c # cs @ concat ws) \<and> starts_property (drop (length (concat ks)) (c # cs @ concat ws)) \<longleftrightarrow>
      take (length ks) (w # ws) = ks \<and> length ks < length (w # ws)"
    using words_match[OF assms(1) Cons.prems assms(2)] unfolding proper_prefix_iff by (simp only: w(1) concat.simps append_Cons)
  show ?case
  proof (cases "take (length ks) (w # ws) = ks \<and> length ks < length (w # ws)")
    case True
    then have "w # ws = ks @ drop (length ks) (w # ws)"
      by (metis append_take_drop_id)
    then have "c # cs @ concat ws = concat ks @ concat (drop (length ks) (w # ws))"
      using w(1) by (metis append_Cons concat.simps(2) concat_append)
    then have "drop (length (concat ks)) (c # cs @ concat ws) = concat (drop (length ks) (w # ws))"
      by simp
    then show ?thesis
      using True match w(1) by simp
  next
    case False
    have no: "\<not> (starts_with (concat ks) (c # cs @ concat ws) \<and> starts_property (drop (length (concat ks)) (c # cs @ concat ws)))"
      using False match by blast
    have "split_at_word (concat ks) (c # cs @ concat ws) = map_option (apfst ((#) c)) (split_at_word (concat ks) (cs @ concat ws))"
      by (subst split_at_word.simps(2)) (simp only: no if_False)
    also have "split_at_word (concat ks) (cs @ concat ws) = map_option (apfst ((@) cs)) (split_at_word (concat ks) (concat ws))"
      unfolding k(1) by (rule split_at_tail[OF w(2) k(2)])
    also have "split_at_word (concat ks) (concat ws) = map_option (map_prod concat concat) (split_words ks ws)"
      using Cons by simp
    finally show ?thesis
      using False w(1) by (cases "split_words ks ws") auto
  qed
qed simp

lemma split_words_found: "k \<notin> set xs \<Longrightarrow> rest \<noteq> [] \<Longrightarrow> split_words (k # ks) (xs @ k # ks @ rest) = Some (xs, rest)"
  by (induction xs) (auto simp: neq_Nil_conv)

lemma split_words_none: "k \<notin> set xs \<Longrightarrow> split_words (k # ks) xs = None"
  by (induction xs) auto

text \<open>\<open>And\<close> and \<open>Or\<close> as words.\<close>

fun split_comb :: "string list \<Rightarrow> string list list \<times> combinator list" where
  "split_comb [] = ([[]], [])"
| "split_comb (w # ws) =
     (case split_comb ws of (seg # segs, ks) \<Rightarrow>
        if w = ''And'' \<and> ws \<noteq> [] then ([] # seg # segs, CombAnd # ks)
        else if w = ''Or'' \<and> ws \<noteq> [] then ([] # seg # segs, CombOr # ks)
        else ((w # seg) # segs, ks)
      | ([], ks) \<Rightarrow> ([], ks))"

lemma splitAndOr_ne: "fst (splitAndOr s) \<noteq> []"
  by (induction s rule: splitAndOr.induct) (auto split: option.splits list.splits prod.splits)

lemma split_comb_ne: "fst (split_comb ws) \<noteq> []"
  by (induction ws) (auto split: list.splits prod.splits)

lemma and_or_tail: "tail_char c \<Longrightarrow> and_or_at (c # s) = None"
  by (auto simp: and_or_at_def tail_char_def is_upper_def code_def)

lemma keyword_words: "word ''And''" "word ''Or''" "word ''By''" "word ''Order''" "word ''Asc''" "word ''Desc''" "word ''All''"
    "word ''Ignore''" "word ''Ignoring''" "word ''Case''" "word ''Distinct''"
  by (simp_all add: word_def tail_char_def is_upper_def code_def)

lemma and_or_word:
  assumes "word w" "words ws"
  shows "and_or_at (w @ concat ws) =
    (if w = ''And'' \<and> ws \<noteq> [] then Some (CombAnd, concat ws) else if w = ''Or'' \<and> ws \<noteq> [] then Some (CombOr, concat ws) else None)"
proof -
  have lens: "length ''And'' = 3" "length ''Or'' = 2"
    by simp_all
  have a: "starts_with ''And'' (w @ concat ws) \<and> starts_property (drop 3 (w @ concat ws)) \<longleftrightarrow> w = ''And'' \<and> ws \<noteq> []"
    using word_match[OF keyword_words(1) assms] unfolding lens by blast
  have orr: "starts_with ''Or'' (w @ concat ws) \<and> starts_property (drop 2 (w @ concat ws)) \<longleftrightarrow> w = ''Or'' \<and> ws \<noteq> []"
    using word_match[OF keyword_words(2) assms] unfolding lens by blast
  show ?thesis
    unfolding and_or_at_def a orr by simp
qed

lemma splitAndOr_tail:
  "list_all tail_char cs \<Longrightarrow> splitAndOr s = (seg # segs, ks) \<Longrightarrow> splitAndOr (cs @ s) = ((cs @ seg) # segs, ks)"
  by (induction cs) (auto simp: and_or_tail)

lemma splitAndOr_words: "words ws \<Longrightarrow> splitAndOr (concat ws) = map_prod (map concat) id (split_comb ws)"
proof (induction ws)
  case (Cons w ws)
  obtain c cs where w: "w = c # cs" "list_all tail_char cs"
    using Cons.prems by (metis words_simps(2) wordE)
  obtain seg segs ks where rest: "split_comb ws = (seg # segs, ks)"
    using split_comb_ne[of ws] by (cases "split_comb ws"; cases "fst (split_comb ws)") auto
  have IH: "splitAndOr (concat ws) = (concat seg # map concat segs, ks)"
    using Cons rest by simp
  have tail: "splitAndOr (cs @ concat ws) = ((cs @ concat seg) # map concat segs, ks)"
    by (rule splitAndOr_tail[OF w(2) IH])
  have front: "and_or_at (c # cs @ concat ws) =
      (if w = ''And'' \<and> ws \<noteq> [] then Some (CombAnd, concat ws) else if w = ''Or'' \<and> ws \<noteq> [] then Some (CombOr, concat ws) else None)"
    using and_or_word[of w ws] Cons.prems w(1) by simp
  have "splitAndOr (c # cs @ concat ws) =
      (if w = ''And'' \<and> ws \<noteq> [] then ([] # concat seg # map concat segs, CombAnd # ks)
       else if w = ''Or'' \<and> ws \<noteq> [] then ([] # concat seg # map concat segs, CombOr # ks)
       else ((c # cs @ concat seg) # map concat segs, ks))"
    by (subst splitAndOr.simps(2)) (simp only: front, simp add: IH tail)
  then show ?case
    using w(1) rest by simp
qed simp

text \<open>Joining segments by combinators, and back.\<close>

definition comb_word :: "combinator \<Rightarrow> string" where
  "comb_word k = (case k of CombAnd \<Rightarrow> ''And'' | CombOr \<Rightarrow> ''Or'')"

fun join_comb :: "string list list \<Rightarrow> combinator list \<Rightarrow> string list" where
  "join_comb [] ks = []"
| "join_comb [seg] ks = seg"
| "join_comb (seg # segs) [] = seg"
| "join_comb (seg # segs) (k # ks) = seg @ comb_word k # join_comb segs ks"

definition no_comb :: "string list \<Rightarrow> bool" where
  "no_comb seg \<longleftrightarrow> ''And'' \<notin> set seg \<and> ''Or'' \<notin> set seg"

lemma split_comb_plain:
  assumes "no_comb seg"
  shows "split_comb (seg @ ws) = (case split_comb ws of (s # ss, ks) \<Rightarrow> ((seg @ s) # ss, ks) | ([], ks) \<Rightarrow> ([], ks))"
  using assms split_comb_ne[of ws]
  by (induction seg) (auto simp: no_comb_def split: prod.splits list.splits)

lemma split_comb_join:
  assumes "segs \<noteq> []" "length ks = length segs - 1" "list_all no_comb segs" "[] \<notin> set segs"
  shows "split_comb (join_comb segs ks) = (segs, ks)"
  using assms
proof (induction segs ks rule: join_comb.induct)
  case (2 seg ks)
  then show ?case
    using split_comb_plain[of seg "[]"] by simp
next
  case (4 seg s2 segs k ks)
  have IH: "split_comb (join_comb (s2 # segs) ks) = (s2 # segs, ks)"
    using 4 by simp
  have ne: "join_comb (s2 # segs) ks \<noteq> []"
    using 4(5) by (cases segs; cases ks) auto
  have "split_comb (comb_word k # join_comb (s2 # segs) ks) = ([] # s2 # segs, k # ks)"
    using IH ne by (cases k) (simp_all add: comb_word_def)
  then show ?case
    using 4(4) split_comb_plain[of seg] by simp
qed auto

section \<open>The order of results\<close>

lemma tail_match_end:
  assumes "list_all tail_char ks" "list_all tail_char cs" "rest = [] \<or> (\<exists>c s. rest = c # s \<and> is_upper c)"
  shows "starts_with ks (cs @ rest) \<and> (drop (length ks) (cs @ rest) = [] \<or> starts_property (drop (length ks) (cs @ rest))) \<longleftrightarrow> ks = cs"
  using assms(1,2)
proof (induction ks arbitrary: cs)
  case Nil
  then show ?case
    using assms(3) by (cases cs) (auto simp: starts_property_def tail_char_def)
next
  case (Cons k ks)
  then show ?case
    using assms(3) by (cases cs) (auto simp: tail_char_def)
qed

lemma word_match_end:
  assumes "word k" "word w" "words ws"
  shows "starts_with k (w @ concat ws) \<and> (drop (length k) (w @ concat ws) = [] \<or> starts_property (drop (length k) (w @ concat ws))) \<longleftrightarrow> k = w"
proof -
  obtain a ks b cs where k: "k = a # ks" "list_all tail_char ks" and w: "w = b # cs" "list_all tail_char cs"
    using assms by (metis wordE)
  show ?thesis
    using tail_match_end[OF k(2) w(2) words_starts[OF assms(3)]] k(1) w(1) by auto
qed

definition dir_word :: "direction \<Rightarrow> string" where
  "dir_word d = (case d of Asc \<Rightarrow> ''Asc'' | Desc \<Rightarrow> ''Desc'')"

lemma direction_word:
  assumes "word w" "words ws"
  shows "direction_at (w @ concat ws) =
    (if w = ''Desc'' then Some (Desc, 4) else if w = ''Asc'' then Some (Asc, 3) else None)"
proof -
  have lens: "length ''Desc'' = 4" "length ''Asc'' = 3"
    by simp_all
  have desc: "starts_with ''Desc'' (w @ concat ws) \<and> (drop 4 (w @ concat ws) = [] \<or> starts_property (drop 4 (w @ concat ws))) \<longleftrightarrow> w = ''Desc''"
    using word_match_end[OF keyword_words(6) assms] unfolding lens by blast
  have asc: "starts_with ''Asc'' (w @ concat ws) \<and> (drop 3 (w @ concat ws) = [] \<or> starts_property (drop 3 (w @ concat ws))) \<longleftrightarrow> w = ''Asc''"
    using word_match_end[OF keyword_words(5) assms] unfolding lens by blast
  have ex: "starts_with ''Desc'' (w @ concat ws) \<Longrightarrow> w \<noteq> ''Asc''"
    by auto
  have gen: "direction_at x = (if starts_with ''Desc'' x \<and> (drop 4 x = [] \<or> starts_property (drop 4 x)) then Some (Desc, 4)
      else if (starts_with ''Asc'' x \<and> (drop 3 x = [] \<or> starts_property (drop 3 x))) \<and> \<not> starts_with ''Desc'' x then Some (Asc, 3) else None)" for x
    by (simp add: direction_at_def)
  show ?thesis
    unfolding gen desc asc using ex by auto
qed

lemma direction_tail: "tail_char c \<Longrightarrow> direction_at (c # s) = None"
  by (auto simp: direction_at_def tail_char_def is_upper_def code_def)

lemma order_loop_tail: "list_all tail_char cs \<Longrightarrow> order_loop cur (cs @ s) specs = order_loop (cur @ cs) s specs"
proof (induction cs arbitrary: cur)
  case (Cons c cs)
  then show ?case
    by (auto simp: direction_tail split: list.splits)
qed simp

definition no_dir :: "string list \<Rightarrow> bool" where
  "no_dir P \<longleftrightarrow> ''Asc'' \<notin> set P \<and> ''Desc'' \<notin> set P"

lemma order_loop_words:
  "words P \<Longrightarrow> words ws \<Longrightarrow> no_dir P \<Longrightarrow> order_loop cur (concat P @ concat ws) specs = order_loop (cur @ concat P) (concat ws) specs"
proof (induction P arbitrary: cur)
  case (Cons w P)
  obtain c cs where w: "w = c # cs" "list_all tail_char cs"
    using Cons.prems by (metis words_simps(2) wordE)
  have "direction_at (w @ concat (P @ ws)) = None"
    using direction_word[of w "P @ ws"] Cons.prems by (auto simp: no_dir_def)
  then have "order_loop cur (w @ concat P @ concat ws) specs = order_loop (cur @ [c]) (cs @ concat P @ concat ws) specs"
    by (simp add: w(1) split: list.splits)
  also have "\<dots> = order_loop (cur @ w) (concat P @ concat ws) specs"
    using order_loop_tail[OF w(2)] w(1) by simp
  also have "\<dots> = order_loop ((cur @ w) @ concat P) (concat ws) specs"
    using Cons by (simp add: no_dir_def)
  finally show ?case
    by simp
qed simp

definition order_words :: "(string list \<times> direction) list \<Rightarrow> string list" where
  "order_words os = concat (map (\<lambda>(P, d). P @ [dir_word d]) os)"

definition order_plan :: "string list \<times> direction \<Rightarrow> order_spec" where
  "order_plan o' = \<lparr>os_property = toPropertyPath (concat (fst o')), os_direction = snd o'\<rparr>"

definition order_ok :: "string list \<times> direction \<Rightarrow> bool" where
  "order_ok o' \<longleftrightarrow> fst o' \<noteq> [] \<and> words (fst o') \<and> no_dir (fst o')"

lemma words_order: "list_all order_ok os \<Longrightarrow> words (order_words os)"
  by (induction os) (auto simp: order_words_def order_ok_def dir_word_def keyword_words split: direction.split)

lemma order_loop_plan:
  "list_all order_ok os \<Longrightarrow> order_loop [] (concat (order_words os)) specs = specs @ map order_plan os"
proof (induction os arbitrary: specs)
  case (Cons o' os)
  obtain P d where o': "o' = (P, d)"
    by (cases o')
  have P: "P \<noteq> []" "words P" "no_dir P"
    using Cons.prems by (simp_all add: o' order_ok_def)
  have rest: "words (order_words os)"
    using words_order[of os] Cons.prems by simp
  let ?tail = "dir_word d @ concat (order_words os)"
  obtain x xs where cur: "concat P = x # xs"
    using P words_empty[of P] by (metis neq_Nil_conv)
  have dir: "direction_at ?tail = Some (d, length (dir_word d))"
    using direction_word[OF _ rest, of "dir_word d"] keyword_words by (cases d) (simp_all add: dir_word_def)
  obtain c s where tail: "?tail = c # s"
    by (cases d) (simp_all add: dir_word_def)
  have "words (dir_word d # order_words os)"
    using rest keyword_words by (cases d) (simp_all add: dir_word_def)
  from order_loop_words[OF P(2) this P(3), of "[]" specs]
  have "order_loop [] (concat P @ ?tail) specs = order_loop (concat P) ?tail specs"
    by simp
  also have "\<dots> = order_loop [] (drop (length (dir_word d)) ?tail) (specs @ [order_plan o'])"
    using dir cur unfolding tail by (simp add: order_plan_def o' del: starts_with_Cons)
  finally show ?case
    using Cons by (simp add: o' order_words_def)
qed (simp add: order_words_def)

section \<open>Operators at the end of a condition\<close>

lemma split_at_upper:
  assumes "words ws" "concat ws = t @ s" "s = [] \<or> is_upper (hd s)"
  shows "\<exists>X Y. ws = X @ Y \<and> concat X = t \<and> concat Y = s"
  using assms
proof (induction ws arbitrary: t)
  case (Cons w ws)
  obtain c cs where w: "w = c # cs" "list_all tail_char cs"
    using Cons.prems by (metis words_simps(2) wordE)
  show ?case
  proof (cases t)
    case Nil
    then show ?thesis
      using Cons.prems(2) by (intro exI[of _ "[]"] exI[of _ "w # ws"]) simp
  next
    case (Cons c' t')
    then have eq: "cs @ concat ws = t' @ s"
      using Cons.prems w(1) by simp
    have "length cs \<le> length t'"
    proof (rule ccontr)
      assume len: "\<not> length cs \<le> length t'"
      then have "s = drop (length t') cs @ concat ws"
        using eq by (metis append_eq_append_conv_if append_eq_conv_conj linorder_not_le nat_le_linear)
      moreover have "drop (length t') cs \<noteq> []"
        using len by simp
      ultimately have "s \<noteq> []" "hd s \<in> set cs"
        by (auto simp: hd_append dest: in_set_dropD intro!: in_set_dropD[of _ "length t'"] hd_in_set)
      then show False
        using w(2) Cons.prems(3) by (auto simp: list_all_iff tail_char_def)
    qed
    then obtain t2 where t': "t' = cs @ t2"
      using eq by (metis append_eq_append_conv2 append_eq_append_conv_if append_take_drop_id)
    then have "concat ws = t2 @ s"
      using eq by simp
    then obtain X Y where "ws = X @ Y" "concat X = t2" "concat Y = s"
      using Cons.IH Cons.prems by auto
    then show ?thesis
      using Cons Cons.prems t' w(1) by (intro exI[of _ "w # X"] exI[of _ Y]) auto
  qed
qed auto

lemma words_inject: "words X \<Longrightarrow> words Y \<Longrightarrow> concat X = concat Y \<Longrightarrow> X = Y"
proof (induction X arbitrary: Y)
  case (Cons w X)
  then obtain v Y' where Y: "Y = v # Y'"
    by (cases Y) (auto elim: wordE)
  have "starts_with w (v @ concat Y') \<and> (drop (length w) (v @ concat Y') = [] \<or> starts_property (drop (length w) (v @ concat Y')))"
    using Cons.prems Y starts_property_words[of X] by (metis append_eq_conv_conj concat.simps(2) starts_with_append words_empty words_simps(2))
  then have "w = v"
    using word_match_end[of w v Y'] Cons.prems Y by auto
  then show ?case
    using Cons Y by simp
next
  case Nil
  then show ?case
    using words_empty[of Y] by (metis concat.simps(1))
qed

lemma ends_with_words:
  assumes "words S" "S \<noteq> []" "words ws"
  shows "ends_with (concat S) (concat ws) \<longleftrightarrow> (\<exists>X. ws = X @ S)"
proof
  assume "ends_with (concat S) (concat ws)"
  then obtain t where t: "concat ws = t @ concat S"
    by (auto simp: ends_with_iff)
  have "is_upper (hd (concat S))"
    using words_starts[OF assms(1)] words_empty[OF assms(1)] assms(2) by auto
  then obtain X Y where XY: "ws = X @ Y" "concat Y = concat S"
    using split_at_upper[OF assms(3) t] by blast
  then show "\<exists>X. ws = X @ S"
    using words_inject[of Y S] assms(1,3) by auto
qed (auto simp: ends_with_iff)

fun to_words :: "string \<Rightarrow> string list" where
  "to_words [] = []"
| "to_words (c # s) = (case s of [] \<Rightarrow> [[c]]
     | d # _ \<Rightarrow> if is_upper d then [c] # to_words s else (case to_words s of [] \<Rightarrow> [[c]] | w # ws \<Rightarrow> (c # w) # ws))"

text \<open>The keyword a printed condition uses for each operator; equality needs none.\<close>

definition op_words :: "operator \<Rightarrow> string list" where
  "op_words oper = (case oper of
     OpEq \<Rightarrow> [] | OpNeq \<Rightarrow> [''Not''] | OpGt \<Rightarrow> [''Greater'', ''Than''] | OpGte \<Rightarrow> [''Greater'', ''Than'', ''Equal'']
   | OpLt \<Rightarrow> [''Less'', ''Than''] | OpLte \<Rightarrow> [''Less'', ''Than'', ''Equal''] | OpBetween \<Rightarrow> [''Between''] | OpIn \<Rightarrow> [''In'']
   | OpNotIn \<Rightarrow> [''Not'', ''In''] | OpContaining \<Rightarrow> [''Containing''] | OpNotContaining \<Rightarrow> [''Not'', ''Containing'']
   | OpStartingWith \<Rightarrow> [''Starting'', ''With''] | OpEndingWith \<Rightarrow> [''Ending'', ''With''] | OpLike \<Rightarrow> [''Like'']
   | OpNotLike \<Rightarrow> [''Not'', ''Like''] | OpIsNull \<Rightarrow> [''Null''] | OpIsNotNull \<Rightarrow> [''Not'', ''Null''] | OpIsTrue \<Rightarrow> [''True'']
   | OpIsFalse \<Rightarrow> [''False''] | OpIsEmpty \<Rightarrow> [''Empty''] | OpIsNotEmpty \<Rightarrow> [''Not'', ''Empty''])"

definition op_args :: "operator \<Rightarrow> nat" where
  "op_args oper = (case oper of OpBetween \<Rightarrow> 2 | OpIsNull \<Rightarrow> 0 | OpIsNotNull \<Rightarrow> 0 | OpIsTrue \<Rightarrow> 0 | OpIsFalse \<Rightarrow> 0
     | OpIsEmpty \<Rightarrow> 0 | OpIsNotEmpty \<Rightarrow> 0 | _ \<Rightarrow> 1)"

definition is_suffix :: "string list \<Rightarrow> string list \<Rightarrow> bool" where
  "is_suffix S K \<longleftrightarrow> length S \<le> length K \<and> drop (length K - length S) K = S"

definition keyword_list :: "string list" where
  "keyword_list = map fst PREDICATE_KEYWORDS"

definition reserved :: "string list" where
  "reserved = concat (map to_words keyword_list) @ [''And'', ''Or'', ''All'', ''Ignore'', ''Ignoring'', ''Case'', ''Order'', ''By'', ''Asc'', ''Desc'']"

definition plain :: "string list \<Rightarrow> bool" where
  "plain P \<longleftrightarrow> P \<noteq> [] \<and> words P \<and> list_all (\<lambda>w. w \<notin> set reserved) P"

lemma keyword_list_words:
  "s \<in> set keyword_list \<Longrightarrow> words (to_words s) \<and> concat (to_words s) = s \<and> to_words s \<noteq> []"
proof -
  have "list_all (\<lambda>s. words (to_words s) \<and> concat (to_words s) = s \<and> to_words s \<noteq> []) keyword_list"
    by (simp add: keyword_list_def PREDICATE_KEYWORDS_def words_def word_def tail_char_def is_upper_def code_def)
  then show "s \<in> set keyword_list \<Longrightarrow> words (to_words s) \<and> concat (to_words s) = s \<and> to_words s \<noteq> []"
    by (simp add: list_all_iff)
qed

lemma is_suffix_iff: "is_suffix S K \<longleftrightarrow> (\<exists>Y. K = Y @ S)"
  unfolding is_suffix_def
  by (metis append_eq_conv_conj append_take_drop_id diff_add_inverse2 le_add2 length_append length_drop diff_diff_cancel)

lemma first_keyword:
  "List.find (\<lambda>(s, _). is_suffix (to_words s) (op_words oper)) PREDICATE_KEYWORDS =
     (if oper = OpEq then None else Some (concat (op_words oper), oper, op_args oper))"
  by (cases oper) (simp_all add: PREDICATE_KEYWORDS_def op_words_def op_args_def is_suffix_def is_upper_def code_def)

lemma suffix_plain:
  assumes "plain P" "set S \<subseteq> set reserved"
  shows "(\<exists>X. P @ K = X @ S \<and> X \<noteq> []) \<longleftrightarrow> is_suffix S K"
proof
  assume "\<exists>X. P @ K = X @ S \<and> X \<noteq> []"
  then obtain X where "P @ K = X @ S"
    by blast
  then consider us where "P = X @ us" "us @ K = S" | us where "P @ us = X" "K = us @ S"
    by (auto simp: append_eq_append_conv2)
  then show "is_suffix S K"
  proof cases
    case 1
    then have "us = []"
      using assms by (cases us) (auto simp: plain_def list_all_iff)
    then show ?thesis
      using 1 by (auto simp: is_suffix_iff)
  qed (auto simp: is_suffix_iff)
next
  assume "is_suffix S K"
  then obtain Y where "K = Y @ S"
    by (auto simp: is_suffix_iff)
  then show "\<exists>X. P @ K = X @ S \<and> X \<noteq> []"
    using assms(1) by (intro exI[of _ "P @ Y"]) (simp add: plain_def)
qed

lemma op_words_words: "words (op_words oper)"
  by (cases oper) (simp_all add: op_words_def word_def tail_char_def is_upper_def code_def)

lemma op_words_plain: "w \<in> set (op_words oper) \<Longrightarrow> w \<notin> {''And'', ''Or'', ''All'', ''Case'', ''Order'', ''By''}"
  by (cases oper) (auto simp: op_words_def)

lemma find_cong': "(\<And>x. x \<in> set xs \<Longrightarrow> Q x = R x) \<Longrightarrow> List.find Q xs = List.find R xs"
  by (induction xs) auto

lemma keyword_of_words:
  assumes "plain P"
  shows "keyword_of (concat (P @ op_words oper)) = (if oper = OpEq then None else Some (concat (op_words oper), oper, op_args oper))"
proof -
  let ?s = "concat (P @ op_words oper)"
  have match: "(ends_with sfx ?s \<and> length sfx < length ?s) = is_suffix (to_words sfx) (op_words oper)"
    if "sfx \<in> set keyword_list" for sfx
  proof -
    note S = keyword_list_words[OF that]
    have res: "set (to_words sfx) \<subseteq> set reserved"
      using that by (auto simp: reserved_def)
    have all: "words (P @ op_words oper)"
      using assms op_words_words by (simp add: plain_def)
    have "ends_with sfx ?s \<longleftrightarrow> (\<exists>X. P @ op_words oper = X @ to_words sfx)"
      using ends_with_words[OF _ _ all, of "to_words sfx"] S by simp
    moreover have "length sfx < length ?s \<longleftrightarrow> X \<noteq> []" if "P @ op_words oper = X @ to_words sfx" for X
    proof -
      have "words X"
        using all that by simp
      have "?s = concat X @ sfx"
        using that S by (metis concat_append)
      then show ?thesis
        using words_empty[OF \<open>words X\<close>] by (metis append_self_conv2 length_append less_add_same_cancel2 length_greater_0_conv)
    qed
    ultimately show ?thesis
      using suffix_plain[OF assms res, of "op_words oper"] by blast
  qed
  have "keyword_of ?s = List.find (\<lambda>(s, _). is_suffix (to_words s) (op_words oper)) PREDICATE_KEYWORDS"
    unfolding keyword_of_def
  proof (rule find_cong')
    fix x
    assume "x \<in> set PREDICATE_KEYWORDS"
    then have "fst x \<in> set keyword_list"
      by (simp add: keyword_list_def)
    from match[OF this]
    show "(case x of (sfx, _) \<Rightarrow> ends_with sfx ?s \<and> length sfx < length ?s) = (case x of (s, _) \<Rightarrow> is_suffix (to_words s) (op_words oper))"
      by (simp only: case_prod_beta)
  qed
  then show ?thesis
    by (simp add: first_keyword)
qed

definition ignore_words :: "bool \<Rightarrow> string list" where
  "ignore_words ic = (if ic then [''Ignore'', ''Case''] else [])"

type_synonym cond_spec = "string list \<times> operator \<times> bool"

definition cond_words :: "cond_spec \<Rightarrow> string list" where
  "cond_words c = (case c of (P, oper, ic) \<Rightarrow> P @ op_words oper @ ignore_words ic)"

definition cond_plan :: "cond_spec \<Rightarrow> condition" where
  "cond_plan c = (case c of (P, oper, ic) \<Rightarrow>
     \<lparr>pc_property = uncapitalize (concat P), pc_operator = oper, pc_ignoreCase = ic, pc_argCount = op_args oper\<rparr>)"

lemma strip_suffix_append [simp]: "strip_suffix sfx (t @ sfx) = t"
  by (simp add: strip_suffix_def)

lemma ignore_case_append: "ignore_case_suffix ic (t @ ''IgnoreCase'') = (True, t)"
  using strip_suffix_append[of "''IgnoreCase''" t] by (simp add: ignore_case_suffix_def ends_with_iff)

lemma plain_words: "plain P \<Longrightarrow> words P"
  by (simp add: plain_def)

lemma plain_not: "plain P \<Longrightarrow> w \<in> set reserved \<Longrightarrow> w \<notin> set P"
  by (auto simp: plain_def list_all_iff)

lemma reserved_words: "{''And'', ''Or'', ''All'', ''Ignore'', ''Ignoring'', ''Case'', ''Order'', ''By'', ''Asc'', ''Desc''} \<subseteq> set reserved"
  by (simp add: reserved_def)

lemma ignore_suffix_words:
  assumes "plain P"
  shows "ignore_case_suffix False (concat (cond_words (P, oper, ic))) = (ic, concat (P @ op_words oper))"
proof (cases ic)
  case True
  have "concat (cond_words (P, oper, ic)) = concat (P @ op_words oper) @ ''IgnoreCase''"
    by (simp add: cond_words_def ignore_words_def True)
  then show ?thesis
    using True ignore_case_append by metis
next
  case False
  have all: "words (P @ op_words oper)"
    using assms op_words_words by (simp add: plain_def)
  have no: "''Case'' \<notin> set (P @ op_words oper)"
    using plain_not[OF assms, of "''Case''"] reserved_words op_words_plain[of "''Case''" oper] by auto
  have "\<not> ends_with (concat [i, ''Case'']) (concat (P @ op_words oper))" if "word i" for i
    using ends_with_words[OF _ _ all, of "[i, ''Case'']"] that keyword_words no by (metis in_set_conv_decomp append.assoc append_Cons append_Nil list.distinct(1) words_simps(1,2))
  from this[of "''Ignore''"] this[of "''Ignoring''"] show ?thesis
    using False keyword_words by (simp add: ignore_case_suffix_def cond_words_def ignore_words_def)
qed

lemma word_no_underscore: "words ws \<Longrightarrow> CHR ''_'' \<notin> set (concat ws)"
proof (induction ws)
  case (Cons w ws)
  then have "CHR ''_'' \<notin> set w"
    by (auto simp: list_all_iff tail_char_def is_upper_def code_def elim!: wordE)
  then show ?case
    using Cons by simp
qed simp

lemma property_words: "words P \<Longrightarrow> P \<noteq> [] \<Longrightarrow> toPropertyPath (concat P) = uncapitalize (concat P)"
  using split_on_none[OF word_no_underscore, of P] words_empty[of P] by (simp add: toPropertyPath_def)

lemma parse_condition_words:
  assumes "plain P"
  shows "parseCondition False (concat (cond_words (P, oper, ic))) = Some (cond_plan (P, oper, ic))"
proof -
  have P: "words P" "P \<noteq> []"
    using assms by (simp_all add: plain_def)
  have "words (cond_words (P, oper, ic))" "cond_words (P, oper, ic) \<noteq> []"
    using P op_words_words keyword_words by (simp_all add: cond_words_def ignore_words_def)
  then have ne: "concat (cond_words (P, oper, ic)) \<noteq> []"
    using words_empty by blast
  define x where "x = concat (P @ op_words oper)"
  have x: "ignore_case_suffix False (concat (cond_words (P, oper, ic))) = (ic, x)"
      "keyword_of x = (if oper = OpEq then None else Some (concat (op_words oper), oper, op_args oper))"
    unfolding x_def by (rule ignore_suffix_words[OF assms], rule keyword_of_words[OF assms])
  show ?thesis
  proof (cases "oper = OpEq")
    case True
    then have "x = concat P" "op_args oper = 1"
      by (simp_all add: x_def op_words_def op_args_def)
    then show ?thesis
      using x ne True property_words[OF P] by (simp add: parseCondition_def cond_plan_def del: concat_eq_Nil_conv)
  next
    case False
    have "strip_suffix (concat (op_words oper)) x = concat P"
      by (simp add: x_def)
    then show ?thesis
      using x ne False property_words[OF P] by (simp add: parseCondition_def cond_plan_def del: concat_eq_Nil_conv)
  qed
qed

section \<open>Predicates and names\<close>

lemma remove_all_words: "words ws \<Longrightarrow> ''All'' \<notin> set ws \<Longrightarrow> remove_all_ignore (concat ws) = (False, concat ws)"
proof (induction ws)
  case (Cons w ws)
  obtain c cs where w: "w = c # cs" "list_all tail_char cs"
    using Cons.prems by (metis words_simps(2) wordE)
  have tail: "list_all tail_char ds \<Longrightarrow> remove_all_ignore (ds @ concat ws) = (False, ds @ concat ws)" for ds
  proof (induction ds)
    case (Cons d ds)
    have "\<not> starts_with (''All'' @ ''IgnoreCase'') (d # ds @ concat ws)" "\<not> starts_with (''All'' @ ''IgnoringCase'') (d # ds @ concat ws)"
      using no_match_inside[OF _ keyword_words(7), of d] Cons.prems by auto
    then show ?case
      using Cons by (simp del: starts_with_Cons)
  qed (use Cons in simp)
  have "\<not> starts_with (''All'' @ concat [''Ignore'', ''Case'']) (w @ concat ws)" "\<not> starts_with (''All'' @ concat [''Ignoring'', ''Case'']) (w @ concat ws)"
    using words_match_first[OF keyword_words(7), of w "[''Ignore'', ''Case'']" ws]
      words_match_first[OF keyword_words(7), of w "[''Ignoring'', ''Case'']" ws] Cons.prems keyword_words by auto
  then show ?case
    using tail[OF w(2)] w(1) by (simp del: starts_with_Cons)
qed simp

lemma parse_predicate_words:
  assumes "cs \<noteq> []" "length ks = length cs - 1" "list_all (\<lambda>(P, _). plain P) cs"
  shows "parsePredicate (concat (join_comb (map cond_words cs) ks)) = Some (map cond_plan cs, ks)"
proof -
  let ?segs = "map cond_words cs" and ?ws = "join_comb (map cond_words cs) ks"
  have seg: "words S" "S \<noteq> []" "''All'' \<notin> set S" "no_comb S" "\<exists>P oper ic. plain P \<and> S = cond_words (P, oper, ic)"
    if "S \<in> set ?segs" for S
  proof -
    from that have "S \<in> cond_words ` set cs"
      by simp
    then obtain c where c: "c \<in> set cs" "S = cond_words c"
      by (elim imageE)
    obtain P oper ic where e: "c = (P, oper, ic)"
      by (cases c)
    have S: "S = cond_words (P, oper, ic)" "plain P"
      using c assms(3) by (auto simp: list_all_iff e)
    show "words S" "S \<noteq> []"
      using S op_words_words keyword_words by (auto simp: cond_words_def ignore_words_def plain_def)
    show "''All'' \<notin> set S" "no_comb S"
      using S plain_not[OF S(2)] reserved_words op_words_plain[of _ oper] by (auto simp: cond_words_def ignore_words_def no_comb_def)
    show "\<exists>P oper ic. plain P \<and> S = cond_words (P, oper, ic)"
      using S by blast
  qed
  have split: "split_comb ?ws = (?segs, ks)"
    by (rule split_comb_join) (use assms seg in \<open>auto simp: list_all_iff\<close>)
  have words: "words (join_comb Ss qs) \<and> ''All'' \<notin> set (join_comb Ss qs)" if "\<forall>S \<in> set Ss. words S \<and> ''All'' \<notin> set S" for Ss qs
    using that keyword_words
    by (induction Ss qs rule: join_comb.induct) (auto simp: comb_word_def split: combinator.split)
  have ws: "words ?ws" "''All'' \<notin> set ?ws" "?ws \<noteq> []"
    using words[of ?segs ks] seg split assms(1) by (auto simp: split_comb.simps)
  have "those (map (parseCondition False) (filter (\<lambda>s. s \<noteq> []) (map concat ?segs))) = Some (map cond_plan cs)"
  proof -
    have "filter (\<lambda>s. s \<noteq> []) (map concat ?segs) = map concat ?segs"
      using seg words_empty by (auto simp: filter_id_conv)
    moreover have "map (parseCondition False) (map concat ?segs) = map (Some \<circ> cond_plan) cs"
      unfolding map_map
    proof (rule map_cong[OF refl])
      show "(parseCondition False \<circ> (concat \<circ> cond_words)) c = (Some \<circ> cond_plan) c" if "c \<in> set cs" for c
        using assms(3) that by (cases c) (force simp: list_all_iff intro: parse_condition_words)
    qed
    moreover have "those (map (Some \<circ> cond_plan) xs) = Some (map cond_plan xs)" for xs
      by (induction xs) auto
    ultimately show ?thesis
      by (simp only:)
  qed
  then show ?thesis
    using remove_all_words[OF ws(1,2)] splitAndOr_words[OF ws(1)] split words_empty[OF ws(1)] ws(3)
    by (auto simp: parsePredicate_def)
qed

section \<open>Printing and parsing\<close>

record query_spec =
  qs_subject :: subject_kind
  qs_distinct :: bool
  qs_limit :: "string option"
  qs_conditions :: "cond_spec list"
  qs_combinators :: "combinator list"
  qs_orders :: "(string list \<times> direction) list"

definition limit_ok :: "string \<Rightarrow> bool" where
  "limit_ok ds \<longleftrightarrow> all_digits ds \<and> 0 < digits_val ds \<and> digits_val ds < 2 ^ 53"

definition spec_ok :: "query_spec \<Rightarrow> bool" where
  "spec_ok q \<longleftrightarrow> qs_conditions q \<noteq> [] \<and> length (qs_combinators q) = length (qs_conditions q) - 1 \<and>
     list_all (\<lambda>(P, _). plain P) (qs_conditions q) \<and> list_all order_ok (qs_orders q) \<and>
     (case qs_limit q of None \<Rightarrow> True | Some ds \<Rightarrow> limit_ok ds)"

definition introducer_of :: "subject_kind \<Rightarrow> string" where
  "introducer_of k = (case k of QuerySubject \<Rightarrow> ''find'' | ExistsSubject \<Rightarrow> ''exists'' | CountSubject \<Rightarrow> ''count'' | DeleteSubject \<Rightarrow> ''delete'')"

definition subject_words :: "query_spec \<Rightarrow> string list" where
  "subject_words q = (if qs_distinct q then [''Distinct''] else []) @ (case qs_limit q of None \<Rightarrow> [] | Some ds \<Rightarrow> [''Top'' @ ds])"

definition order_part :: "query_spec \<Rightarrow> string list" where
  "order_part q = (if qs_orders q = [] then [] else [''Order'', ''By''] @ order_words (qs_orders q))"

definition predicate_words :: "query_spec \<Rightarrow> string list" where
  "predicate_words q = join_comb (map cond_words (qs_conditions q)) (qs_combinators q)"

definition print_query :: "query_spec \<Rightarrow> string" where
  "print_query q = introducer_of (qs_subject q) @ concat (subject_words q) @ ''By'' @ concat (predicate_words q @ order_part q)"

definition plan_of :: "query_spec \<Rightarrow> derived_query" where
  "plan_of q = \<lparr>dq_subject = qs_subject q, dq_methodName = print_query q, dq_distinct = qs_distinct q,
     dq_limit = map_option digits_val (qs_limit q),
     dq_singleResult = (qs_subject q = QuerySubject \<and> map_option digits_val (qs_limit q) = Some 1),
     dq_conditions = map cond_plan (qs_conditions q), dq_combinators = qs_combinators q,
     dq_orderBy = map order_plan (qs_orders q)\<rparr>"

lemma digits_tail: "all_digits ds \<Longrightarrow> list_all tail_char ds"
  by (auto simp: all_digits_def list_all_iff tail_char_def is_digit_def is_upper_def code_def)

lemma subject_words_words: "spec_ok q \<Longrightarrow> words (subject_words q) \<and> ''By'' \<notin> set (subject_words q)"
  using keyword_words digits_tail
  by (auto simp: subject_words_def spec_ok_def limit_ok_def word_Cons tail_char_def is_upper_def code_def split: option.splits)

lemma scan_top:
  "scan_subject (''Top'' @ ds) (u, l, s) =
    (case subject_limit (takeWhile is_digit ds) of None \<Rightarrow> None
     | Some n \<Rightarrow> scan_subject (dropWhile is_digit ds) (u, Some n, s \<or> n = 1))"
  by (simp add: Let_def)

lemma all_digits_take:
  assumes "all_digits ds"
  shows "takeWhile is_digit ds = ds" "dropWhile is_digit ds = []" "ds \<noteq> []"
  using assms unfolding all_digits_def list_all_iff takeWhile_eq_all_conv dropWhile_eq_Nil_conv by blast+

lemma scan_limit:
  assumes "all_digits ds" "0 < digits_val ds" "digits_val ds < 2 ^ 53"
  shows "scan_subject (''Top'' @ ds) (u, l, s) = Some (u, Some (digits_val ds), s \<or> digits_val ds = 1)"
  unfolding scan_top all_digits_take(1,2)[OF assms(1)]
  using all_digits_take(3)[OF assms(1)] parse_int_safe[OF assms(3)] assms(2) by (simp add: subject_limit_def)

lemma scan_distinct: "scan_subject (''Distinct'' @ r) (u, l, s) = scan_subject r (True, l, s)"
  by simp

lemma parse_subject_words:
  assumes "spec_ok q"
  shows "parseSubject (introducer_of (qs_subject q) @ concat (subject_words q)) =
    Inr (Some \<lparr>ss_kind = qs_subject q, ss_distinct = qs_distinct q, ss_limit = map_option digits_val (qs_limit q),
               ss_single = (qs_subject q = QuerySubject \<and> map_option digits_val (qs_limit q) = Some 1)\<rparr>)"
proof -
  let ?rest = "concat (subject_words q)"
  have intro: "introducer (introducer_of (qs_subject q) @ ?rest) = Some (qs_subject q, ?rest)"
    by (cases "qs_subject q") (simp_all add: introducer_def introducer_of_def QUERY_INTRODUCERS_def DELETE_INTRODUCERS_def)
  have scan: "scan_subject ?rest (False, None, False) =
      Some (qs_distinct q, map_option digits_val (qs_limit q), map_option digits_val (qs_limit q) = Some 1)"
  proof (cases "qs_limit q")
    case None
    then show ?thesis
      by (simp add: subject_words_def)
  next
    case (Some ds)
    then have ds: "all_digits ds" "0 < digits_val ds" "digits_val ds < 2 ^ 53"
      using assms by (auto simp: spec_ok_def limit_ok_def)
    show ?thesis
    proof (cases "qs_distinct q")
      case True
      then have r: "?rest = ''Distinct'' @ ''Top'' @ ds"
        using Some by (simp add: subject_words_def)
      show ?thesis
        unfolding r scan_distinct scan_limit[OF ds] using True Some ds by simp
    next
      case False
      then have r: "?rest = ''Top'' @ ds"
        using Some by (simp add: subject_words_def)
      show ?thesis
        unfolding r scan_limit[OF ds] using False Some ds by simp
    qed
  qed
  then show ?thesis
    by (auto simp: parseSubject_def intro)
qed

lemma order_part_words:
  assumes "spec_ok q"
  shows "words (order_part q)" "splitOrderBy (concat (predicate_words q @ order_part q)) = (concat (predicate_words q), map order_plan (qs_orders q))"
    "words (predicate_words q)" "predicate_words q \<noteq> []"
proof -
  have q: "qs_conditions q \<noteq> []" "length (qs_combinators q) = length (qs_conditions q) - 1"
      "list_all (\<lambda>(P, _). plain P) (qs_conditions q)" "list_all order_ok (qs_orders q)"
    using assms by (simp_all add: spec_ok_def)
  have each: "words S \<and> ''Order'' \<notin> set S \<and> S \<noteq> []" if "S \<in> set (map cond_words (qs_conditions q))" for S
  proof -
    from that have "S \<in> cond_words ` set (qs_conditions q)"
      by simp
    then obtain c where c: "c \<in> set (qs_conditions q)" "S = cond_words c"
      by (elim imageE)
    obtain P oper ic where e: "c = (P, oper, ic)"
      by (cases c)
    have "plain P"
      using c(1) q(3) by (auto simp: list_all_iff e)
    then show ?thesis
      using c(2) op_words_words keyword_words plain_not[of P "''Order''"] reserved_words op_words_plain[of _ oper]
      by (auto simp: e cond_words_def ignore_words_def plain_def)
  qed
  have join: "words (join_comb Ss qs) \<and> ''Order'' \<notin> set (join_comb Ss qs)" if "\<forall>S \<in> set Ss. words S \<and> ''Order'' \<notin> set S" for Ss qs
    using that keyword_words
    by (induction Ss qs rule: join_comb.induct) (auto simp: comb_word_def split: combinator.split)
  show pw: "words (predicate_words q)"
    using join each by (simp add: predicate_words_def)
  show ne: "predicate_words q \<noteq> []"
    using q(1) each by (cases "qs_conditions q"; cases "tl (qs_conditions q)"; cases "qs_combinators q") (auto simp: predicate_words_def)
  have no: "''Order'' \<notin> set (predicate_words q)"
    using join each by (simp add: predicate_words_def)
  show ow: "words (order_part q)"
    using words_order[OF q(4)] keyword_words by (simp add: order_part_def)
  have kw: "words [''Order'', ''By'']" "concat [''Order'', ''By''] = ''OrderBy''"
    using keyword_words by simp_all
  have split: "split_at_word ''OrderBy'' (concat (predicate_words q @ order_part q)) =
      map_option (map_prod concat concat) (split_words [''Order'', ''By''] (predicate_words q @ order_part q))"
    using split_at_words[OF kw(1) _, of "predicate_words q @ order_part q"] pw ow kw(2) by simp
  show "splitOrderBy (concat (predicate_words q @ order_part q)) = (concat (predicate_words q), map order_plan (qs_orders q))"
  proof (cases "qs_orders q = []")
    case True
    then show ?thesis
      unfolding splitOrderBy_def split using split_words_none[OF no] by (simp add: order_part_def)
  next
    case False
    have owne: "order_words (qs_orders q) \<noteq> []"
      using False by (cases "qs_orders q") (auto simp: order_words_def split: prod.splits)
    have "split_words [''Order'', ''By''] (predicate_words q @ order_part q) = Some (predicate_words q, order_words (qs_orders q))"
      using split_words_found[OF no owne, of "[''By'']"] False by (simp add: order_part_def)
    moreover have "parseOrderBy (concat (order_words (qs_orders q))) = map order_plan (qs_orders q)"
    proof -
      have "concat (order_words (qs_orders q)) \<noteq> []"
        using words_empty[OF words_order[OF q(4)]] owne by blast
      then show ?thesis
        using order_loop_plan[OF q(4), of "[]"] False by (simp add: parseOrderBy_def Let_def del: concat_eq_Nil_conv)
    qed
    ultimately show ?thesis
      unfolding splitOrderBy_def split by simp
  qed
qed

lemma intro_lower: "list_all tail_char (introducer_of k)"
  by (cases k) (simp_all add: introducer_of_def tail_char_def is_upper_def code_def)

text \<open>C12: A method name printed from a plan parses to it: any subject, distinct or not, with a limit from one to
  2^53 or none, one or more conditions with any operator, ignoring case or not, joined by any combinators, and any
  orders.  The properties are top-level ones (no nested paths) whose capitalised words are no words of the grammar
  (those of the keywords, And, Or, All, Ignore, Ignoring, Case, Order, By, Asc, Desc), so that a name is no ambiguity;
  a plan without a condition is not printed.\<close>

theorem printed_query_parses:
  assumes "spec_ok q"
  shows "parseQueryMethod (print_query q) = Inr (Some (plan_of q))"
proof -
  note ow = order_part_words[OF assms]
  have sw: "words (subject_words q)" "''By'' \<notin> set (subject_words q)"
    using subject_words_words[OF assms] by simp_all
  let ?tail = "predicate_words q @ order_part q"
  have name: "print_query q = introducer_of (qs_subject q) @ concat (subject_words q @ ''By'' # ?tail)"
    by (simp add: print_query_def)
  have all: "words (subject_words q @ ''By'' # ?tail)"
    using sw ow keyword_words by simp
  have "split_at_word (concat [''By'']) (concat (subject_words q @ ''By'' # ?tail)) =
      Some (concat (subject_words q), concat ?tail)"
    using split_at_words[OF _ _ all, of "[''By'']"] split_words_found[OF sw(2), of ?tail "[]"] ow(4) keyword_words
    by simp
  then have split: "split_at_word ''By'' (print_query q) = Some (introducer_of (qs_subject q) @ concat (subject_words q), concat ?tail)"
    unfolding name using split_at_tail[OF intro_lower keyword_words(3), of "[]"] by simp
  have ne: "introducer_of (qs_subject q) \<noteq> []" "concat ?tail \<noteq> []"
    using words_empty[of ?tail] ow by (cases "qs_subject q"; simp add: introducer_of_def; blast)+
  have pred: "parsePredicate (concat (predicate_words q)) = Some (map cond_plan (qs_conditions q), qs_combinators q)"
    unfolding predicate_words_def using assms by (intro parse_predicate_words) (simp_all add: spec_ok_def)
  show ?thesis
    unfolding parseQueryMethod_def split
    using ne by (simp add: parse_subject_words[OF assms] ow(2) pred plan_of_def del: concat_eq_Nil_conv concat_append)
qed

lemma printed_query_parses_witness:
  "let q = \<lparr>qs_subject = QuerySubject, qs_distinct = True, qs_limit = Some ''3'',
       qs_conditions = [([''First'' @ ''ly'', ''Name''], OpStartingWith, True), ([''Age''], OpGte, False)],
       qs_combinators = [CombOr], qs_orders = [([''Age''], Desc), ([''Name''], Asc)]\<rparr>
   in parseQueryMethod (print_query q) = Inr (Some (plan_of q)) \<and> dq_limit (plan_of q) = Some 3"
proof -
  let ?q = "\<lparr>qs_subject = QuerySubject, qs_distinct = True, qs_limit = Some ''3'',
       qs_conditions = [([''First'' @ ''ly'', ''Name''], OpStartingWith, True), ([''Age''], OpGte, False)],
       qs_combinators = [CombOr], qs_orders = [([''Age''], Desc), ([''Name''], Asc)]\<rparr>"
  have three: "limit_ok ''3''" "digits_val ''3'' = 3"
    by (simp_all add: limit_ok_def all_digits_def is_digit_def digits_val_def code_def)
  have "list_all (\<lambda>(P, _). plain P) (qs_conditions ?q) \<and> list_all order_ok (qs_orders ?q)"
    by code_simp
  then have "spec_ok ?q" "dq_limit (plan_of ?q) = Some 3"
    using three by (simp_all add: spec_ok_def plan_of_def)
  then show ?thesis
    using printed_query_parses[of ?q] by (simp only: Let_def simp_thms)
qed

end
