(* ===== verification/QueryResults.thy ===== *)
theory QueryResults imports QueryNames begin

text \<open>
  What derived queries return, on any repository and on the in-memory one: which entities a plan selects and in
  which order, what deleting leaves, how pages cut a list, and names and operators with a surprising meaning.
\<close>

section \<open>Selection\<close>

lemma distinct_from_subset: "set (distinct_from E seen es) \<subseteq> set es"
  by (induction E seen es rule: distinct_from.induct) auto

lemma distinct_distinct_from: "distinct es \<Longrightarrow> distinct (distinct_from E seen es)"
proof (induction E seen es rule: distinct_from.induct)
  case (2 E seen e es)
  then show ?case
    using distinct_from_subset[of E "te_json E e # seen" es] by auto
qed simp

lemma set_selected: "set (selected E q vs es) \<subseteq> {e \<in> set es. satisfies E q vs e}"
  using distinct_from_subset[of E "[]" "filter (satisfies E q vs) es"]
  by (auto simp: selected_def Let_def distinctByJson_def sortEntities_def split: option.splits if_splits dest!: in_set_takeD)

lemma distinct_selected: "distinct es \<Longrightarrow> distinct (selected E q vs es)"
  by (auto simp: selected_def Let_def distinctByJson_def sortEntities_def distinct_distinct_from split: option.splits)

lemma selected_mset:
  assumes "\<not> dq_distinct q" "dq_limit q = None"
  shows "mset (selected E q vs es) = mset (filter (satisfies E q vs) es)"
  using assms by (simp add: selected_def Let_def sortEntities_def mset_sort_by)

lemma selected_length:
  assumes "\<not> dq_distinct q"
  shows "length (selected E q vs es) =
    (case dq_limit q of None \<Rightarrow> length (filter (satisfies E q vs) es)
     | Some n \<Rightarrow> min n (length (filter (satisfies E q vs) es)))"
  using assms by (auto simp: selected_def Let_def sortEntities_def split: option.splits)

text \<open>Without a limit a find returns the entities that satisfy the conditions, each as often as it is stored;
  a count returns how many they are and an exists whether there are any.  None of them changes the repository.\<close>

theorem derived_query_returns_matches:
  assumes "\<not> dq_distinct q" "dq_limit q = None" "\<not> dq_singleResult q"
  shows "\<exists>xs. mset xs = filter_mset (satisfies E q vs) (mset (ro_findAll ops s)) \<and>
    executeDerivedQuery E (q\<lparr>dq_subject := QuerySubject\<rparr>) ops vs s = (Inr (Entities xs), s) \<and>
    executeDerivedQuery E (q\<lparr>dq_subject := CountSubject\<rparr>) ops vs s = (Inr (Number (length xs)), s) \<and>
    executeDerivedQuery E (q\<lparr>dq_subject := ExistsSubject\<rparr>) ops vs s = (Inr (Truth (xs \<noteq> [])), s)"
proof -
  have sat: "satisfies E (q\<lparr>dq_subject := k\<rparr>) vs = satisfies E q vs" for k
    by (rule ext) (simp add: satisfies_def Let_def split: list.split)
  have same: "selected E (q\<lparr>dq_subject := k\<rparr>) vs es = selected E q vs es" for k es
    by (simp add: selected_def sat Let_def cong: if_cong)
  show ?thesis
    using assms selected_mset[OF assms(1,2), of E vs "ro_findAll ops s"]
    by (intro exI[of _ "selected E q vs (ro_findAll ops s)"]) (simp add: executeDerivedQuery_def same)
qed

section \<open>Order\<close>

definition number_key :: "order_spec \<Rightarrow> val \<Rightarrow> rat option" where
  "number_key s e = (case getPath e (os_property s) of NumV x \<Rightarrow> Some (case os_direction s of Asc \<Rightarrow> x | Desc \<Rightarrow> - x) | _ \<Rightarrow> None)"

text \<open>Every property ordered by holds a number.\<close>

definition numeric :: "order_spec list \<Rightarrow> val list \<Rightarrow> bool" where
  "numeric ss es \<longleftrightarrow> list_all (\<lambda>s. list_all (\<lambda>e. number_key s e \<noteq> None) es) ss"

lemma order_cmp_numbers:
  assumes "number_key s a = Some x" "number_key s b = Some y"
  shows "order_cmp E a b s = (if x = y then 0 else if x > y then 1 else -1)"
  using assms
  by (auto simp: number_key_def order_cmp_def Let_def compareOrdered_def is_date_def split: val.splits direction.splits)

lemma numeric_keys:
  assumes "numeric (s # ss) es" "a \<in> set es"
  obtains x where "number_key s a = Some x" "numeric ss es"
  using assms by (auto simp: numeric_def list_all_iff)

lemma entity_cmp_total:
  assumes "numeric ss es" "a \<in> set es" "b \<in> set es"
  shows "entity_cmp E ss a b \<le> 0 \<or> entity_cmp E ss b a \<le> 0"
  using assms(1)
proof (induction ss)
  case (Cons s ss)
  obtain x where x: "number_key s a = Some x" "numeric ss es"
    using numeric_keys[OF Cons.prems assms(2)] .
  obtain y where y: "number_key s b = Some y"
    using numeric_keys[OF Cons.prems assms(3)] .
  show ?case
    using Cons.IH[OF x(2)] by (simp add: order_cmp_numbers[OF x(1) y] order_cmp_numbers[OF y x(1)])
qed simp

lemma entity_cmp_trans:
  assumes "numeric ss es" "a \<in> set es" "b \<in> set es" "c \<in> set es" "entity_cmp E ss a b \<le> 0" "entity_cmp E ss b c \<le> 0"
  shows "entity_cmp E ss a c \<le> 0"
  using assms(1,5,6)
proof (induction ss)
  case (Cons s ss)
  obtain x where x: "number_key s a = Some x" "numeric ss es"
    using numeric_keys[OF Cons.prems(1) assms(2)] .
  obtain y where y: "number_key s b = Some y"
    using numeric_keys[OF Cons.prems(1) assms(3)] .
  obtain z where z: "number_key s c = Some z"
    using numeric_keys[OF Cons.prems(1) assms(4)] .
  show ?case
    using Cons.IH[OF x(2)] Cons.prems(2,3)
    by (simp add: order_cmp_numbers[OF x(1) y] order_cmp_numbers[OF x(1) z] order_cmp_numbers[OF y z] split: if_splits)
qed simp

lemma sorted_insert_by_on:
  assumes "\<And>a b. a \<in> S \<Longrightarrow> b \<in> S \<Longrightarrow> le a b \<or> le b a"
    and "\<And>a b c. a \<in> S \<Longrightarrow> b \<in> S \<Longrightarrow> c \<in> S \<Longrightarrow> le a b \<Longrightarrow> le b c \<Longrightarrow> le a c"
    and "sorted_wrt le xs" "x \<in> S" "set xs \<subseteq> S"
  shows "sorted_wrt le (insert_by le x xs)"
  using assms(3,5)
proof (induction xs)
  case (Cons y ys)
  then have y: "y \<in> S" "\<forall>z \<in> set ys. le y z" "set ys \<subseteq> S" and IH: "sorted_wrt le (insert_by le x ys)"
    by simp_all
  show ?case
  proof (cases "le x y")
    case True
    then have "\<forall>z \<in> set ys. le x z"
      using y assms(2)[OF assms(4) y(1)] by blast
    then show ?thesis
      using True Cons.prems by simp
  next
    case False
    then have "le y x"
      using assms(1)[OF assms(4) y(1)] by blast
    then show ?thesis
      using False y IH by (simp add: set_insert_by)
  qed
qed simp

lemma sorted_sort_by_on:
  assumes "\<And>a b. a \<in> S \<Longrightarrow> b \<in> S \<Longrightarrow> le a b \<or> le b a"
    and "\<And>a b c. a \<in> S \<Longrightarrow> b \<in> S \<Longrightarrow> c \<in> S \<Longrightarrow> le a b \<Longrightarrow> le b c \<Longrightarrow> le a c"
  shows "set xs \<subseteq> S \<Longrightarrow> sorted_wrt le (sort_by le xs)"
proof (induction xs)
  case (Cons x xs)
  then have *: "sorted_wrt le (sort_by le xs)" "x \<in> S" "set (sort_by le xs) \<subseteq> S"
    by simp_all
  have "sorted_wrt le (insert_by le x (sort_by le xs))"
    by (rule sorted_insert_by_on[of S]) (fact assms *)+
  then show ?case
    by simp
qed simp

lemma numeric_subset: "numeric ss es \<Longrightarrow> set xs \<subseteq> set es \<Longrightarrow> numeric ss xs"
  by (auto simp: numeric_def list_all_iff)

text \<open>A find with an order and a limit on numbers returns as many matches as there are, up to the limit, in order,
  and none of the matches it leaves out comes before one it returns.\<close>

theorem limited_query_returns_least:
  assumes "dq_subject q = QuerySubject" "\<not> dq_singleResult q" "\<not> dq_distinct q" "dq_limit q = Some n" "dq_orderBy q \<noteq> []"
    "numeric (dq_orderBy q) (ro_findAll ops s)"
  shows "\<exists>xs rest. executeDerivedQuery E q ops vs s = (Inr (Entities xs), s) \<and>
    mset (xs @ rest) = filter_mset (satisfies E q vs) (mset (ro_findAll ops s)) \<and>
    length xs = min n (size (filter_mset (satisfies E q vs) (mset (ro_findAll ops s)))) \<and>
    sorted_wrt (\<lambda>a b. entity_cmp E (dq_orderBy q) a b \<le> 0) (xs @ rest)"
proof -
  let ?m = "filter (satisfies E q vs) (ro_findAll ops s)" and ?le = "\<lambda>a b. entity_cmp E (dq_orderBy q) a b \<le> 0"
  let ?sorted = "sort_by ?le ?m"
  have "numeric (dq_orderBy q) ?m"
    by (rule numeric_subset[OF assms(6)]) auto
  then have sorted: "sorted_wrt ?le ?sorted"
    using entity_cmp_total entity_cmp_trans sorted_sort_by_on[of "set ?m" ?le ?m] by blast
  have ex: "executeDerivedQuery E q ops vs s = (Inr (Entities (take n ?sorted)), s)"
    using assms by (simp add: executeDerivedQuery_def selected_def Let_def sortEntities_def)
  have "mset (take n ?sorted @ drop n ?sorted) = filter_mset (satisfies E q vs) (mset (ro_findAll ops s))"
    "size (filter_mset (satisfies E q vs) (mset (ro_findAll ops s))) = length ?m"
    by (simp_all add: mset_sort_by flip: mset_filter size_mset)
  then show ?thesis
    using ex sorted by (intro exI[of _ "take n ?sorted"] exI[of _ "drop n ?sorted"]) (simp add: min.commute)
qed

section \<open>Deleting from the in-memory repository\<close>

text \<open>Every entity is stored under its own id: saving keeps this.\<close>

definition keyed :: "text_env \<Rightarrow> items \<Rightarrow> bool" where
  "keyed E m \<longleftrightarrow> js_wf m \<and> (\<forall>(k, e) \<in> set m. k = normalizeId E (id_of e))"

lemma keyed_map: "keyed E m \<Longrightarrow> map fst m = map (normalizeId E \<circ> id_of) (js_values m)"
  unfolding keyed_def by (induction m) auto

lemma in_js_set: "x \<in> set (js_set k v m) \<Longrightarrow> x = (k, v) \<or> x \<in> set m"
  by (induction m) (auto split: if_splits)

lemma keyed_save: "keyed E m \<Longrightarrow> keyed E (repo_save E e m)"
  by (auto simp: keyed_def repo_save_def dest!: in_js_set)

lemma keyed_delete: "keyed E m \<Longrightarrow> keyed E (snd (repo_delete E i m))"
  by (auto simp: keyed_def repo_delete_def AList.delete_eq split_def distinct_map_filter)

lemma keyed_distinct: "keyed E m \<Longrightarrow> distinct (js_values m)"
  using keyed_map[of E m] unfolding keyed_def by (metis distinct_map)

lemma keyed_inj:
  assumes "keyed E m" "e \<in> set (js_values m)" "f \<in> set (js_values m)" "normalizeId E (id_of e) = normalizeId E (id_of f)"
  shows "e = f"
proof -
  have "distinct (map (normalizeId E \<circ> id_of) (js_values m))"
    using assms(1) keyed_map[OF assms(1)] unfolding keyed_def by metis
  then show ?thesis
    using assms(2-4) by (auto simp: distinct_map inj_on_def)
qed

lemma repo_delete_stored:
  assumes "keyed E m" "e \<in> set (js_values m)"
  shows "repo_delete E (id_of e) m = (True, js_del (normalizeId E (id_of e)) m)"
    "js_values (js_del (normalizeId E (id_of e)) m) = filter (\<lambda>f. f \<noteq> e) (js_values m)"
proof -
  have k: "normalizeId E (id_of e) \<in> fst ` set m"
    using assms unfolding keyed_def by force
  then show "repo_delete E (id_of e) m = (True, js_del (normalizeId E (id_of e)) m)"
    by (simp add: repo_delete_def js_has_iff)
  have other: "normalizeId E (id_of e) \<noteq> fst x \<longleftrightarrow> snd x \<noteq> e" if x: "x \<in> set m" for x
  proof -
    have "fst x = normalizeId E (id_of (snd x))" "snd x \<in> set (js_values m)"
      using x assms(1) unfolding keyed_def by auto
    then show ?thesis
      using keyed_inj[OF assms(1) assms(2), of "snd x"] by metis
  qed
  have "filter (\<lambda>(k, _). normalizeId E (id_of e) \<noteq> k) m = filter (\<lambda>x. snd x \<noteq> e) m"
    unfolding split_def by (rule filter_cong[OF refl other])
  then show "js_values (js_del (normalizeId E (id_of e)) m) = filter (\<lambda>f. f \<noteq> e) (js_values m)"
    by (simp add: AList.delete_eq filter_map o_def)
qed

lemma delete_loop_stored:
  assumes "keyed E m" "set es \<subseteq> set (js_values m)" "distinct es" "\<forall>e \<in> set es. id_of e \<noteq> Undef"
  shows "\<exists>m'. delete_loop name id_of (repo_delete E) es n m = (Inr (Number (n + length es)), m') \<and>
    keyed E m' \<and> js_values m' = filter (\<lambda>e. e \<notin> set es) (js_values m)"
  using assms
proof (induction es arbitrary: n m)
  case (Cons e es)
  let ?m = "js_del (normalizeId E (id_of e)) m"
  have e: "e \<in> set (js_values m)" "id_of e \<noteq> Undef"
    using Cons.prems by auto
  note d = repo_delete_stored[OF Cons.prems(1) e(1)]
  have "keyed E ?m"
    using keyed_delete[OF Cons.prems(1), of "id_of e"] d(1) by simp
  moreover have "set es \<subseteq> set (js_values ?m)"
    unfolding d(2) using Cons.prems(2,3) by auto
  ultimately obtain m' where "delete_loop name id_of (repo_delete E) es (Suc n) ?m = (Inr (Number (Suc n + length es)), m')"
      "keyed E m'" "js_values m' = filter (\<lambda>e. e \<notin> set es) (js_values ?m)"
    using Cons.IH[of ?m "Suc n"] Cons.prems(3,4) by auto
  then show ?case
    using e d by (auto intro!: filter_cong)
qed simp

text \<open>C31: Deleting by a derived name removes exactly the entities the plan selects, keeps the others in their order, and
  returns how many went, in a repository that stores entities under their own, defined ids.\<close>

theorem derived_delete_removes_selected:
  assumes "keyed E m" "dq_subject q = DeleteSubject" "\<forall>e \<in> set (js_values m). id_of e \<noteq> Undef"
  shows "\<exists>m'. executeDerivedQuery E q (memory_repo E) vs m = (Inr (Number (length (selected E q vs (js_values m)))), m') \<and>
    js_values m' = filter (\<lambda>e. e \<notin> set (selected E q vs (js_values m))) (js_values m) \<and> keyed E m'"
proof -
  have "set (selected E q vs (js_values m)) \<subseteq> set (js_values m)"
    using set_selected by fast
  then show ?thesis
    using delete_loop_stored[OF assms(1) _ distinct_selected[OF keyed_distinct[OF assms(1)]], of E q vs "dq_methodName q" 0]
      assms(2,3) by (auto simp: executeDerivedQuery_def memory_repo_def repo_findAll_def)
qed

section \<open>Pages\<close>

lemma slices_concat: "concat (map (\<lambda>i. take n (drop (i * n) xs)) [0..<k]) = take (k * n) xs"
proof (induction k)
  case (Suc k)
  have "take (k * n) xs @ take n (drop (k * n) xs) = take (k * n + n) xs"
    by (rule take_add[symmetric])
  then show ?case
    using Suc by (simp add: add.commute)
qed simp

lemma slice_page:
  assumes "0 < n"
  shows "js_slice_int ((int i + 1 - 1) * int n) ((int i + 1 - 1) * int n + int n) xs = take n (drop (i * n) xs)"
proof -
  have e: "int i * int n = int (i * n)" "int i * int n + int n = int (i * n + n)"
    by simp_all
  have "js_slice_int (int i * int n) (int i * int n + int n) xs =
      take (min (i * n + n) (length xs) - min (i * n) (length xs)) (drop (min (i * n) (length xs)) xs)"
    unfolding e(2) unfolding e(1) js_slice_int_def js_slice_def rel_index_def
    by (simp only: nat_int of_nat_less_0_iff if_False)
  also have "\<dots> = take n (drop (i * n) xs)"
    by (cases "i * n \<le> length xs"; cases "i * n + n \<le> length xs") (auto simp: min_def)
  finally show ?thesis
    by simp
qed

text \<open>The pages from the first to the last one announced, put together, are the filtered entities: none is missed
  and none comes twice.\<close>

theorem pages_partition_entities:
  assumes "0 < sz"
  shows "let one = repo_findPaginated 1 (int sz) filters m;
             matching = filter (\<lambda>e. list_all (\<lambda>(k, v). strict_equal (member k e) v) filters) (js_values m)
         in concat (map (\<lambda>i. pg_items (repo_findPaginated (int i + 1) (int sz) filters m)) [0..<nat (pg_pages one)]) = matching
            \<and> pg_total one = length matching \<and> length (pg_items one) = min sz (length matching)"
proof -
  let ?xs = "filter (\<lambda>e. list_all (\<lambda>(k, v). strict_equal (member k e) v) filters) (js_values m)"
  let ?pages = "nat \<lceil>(of_nat (length ?xs) :: rat) / of_int (int sz)\<rceil>"
  have items: "pg_items (repo_findPaginated (int i + 1) (int sz) filters m) = take sz (drop (i * sz) ?xs)" for i
    using assms slice_page[OF assms, of i ?xs] by (simp add: repo_findPaginated_def repo_findAll_def Let_def)
  have "(of_nat (length ?xs) :: rat) / of_int (int sz) \<le> of_nat ?pages"
    by (rule of_nat_ceiling)
  then have "(of_nat (length ?xs) :: rat) \<le> of_nat (?pages * sz)"
    using assms unfolding of_nat_mult by (simp only: of_int_of_nat_eq divide_le_eq of_nat_0_less_iff if_True)
  then have "length ?xs \<le> ?pages * sz"
    unfolding of_nat_le_iff .
  moreover have "concat (map (\<lambda>i. pg_items (repo_findPaginated (int i + 1) (int sz) filters m)) [0..<?pages]) = take (?pages * sz) ?xs"
    unfolding items by (rule slices_concat)
  moreover have "pg_pages (repo_findPaginated 1 (int sz) filters m) = \<lceil>(of_nat (length ?xs) :: rat) / of_int (int sz)\<rceil>"
      "pg_total (repo_findPaginated 1 (int sz) filters m) = length ?xs"
    using assms by (simp_all add: repo_findPaginated_def repo_findAll_def Let_def)
  moreover have "length (pg_items (repo_findPaginated 1 (int sz) filters m)) = min sz (length ?xs)"
    using items[of 0] by simp
  ultimately show ?thesis
    unfolding Let_def by simp
qed


section \<open>Surprising names\<close>

text \<open>The text between the introducer and By is meant to be ignored, but keywords are found inside its words: a find
  of topics is a find of the first one.\<close>

theorem keyword_found_in_descriptive_text:
  "map_option (\<lambda>q. (dq_limit q, dq_singleResult q, map pc_property (dq_conditions q)))
     (case parseQueryMethod ''findTopicsByName'' of Inr r \<Rightarrow> r | Inl _ \<Rightarrow> None) = Some (Some 1, True, [''name'']) \<and>
   map_option (\<lambda>q. (dq_limit q, dq_singleResult q, map pc_property (dq_conditions q)))
     (case parseQueryMethod ''findUsersByName'' of Inr r \<Rightarrow> r | Inl _ \<Rightarrow> None) = Some (None, False, [''name''])"
  by code_simp

text \<open>A property without a direction is dropped when another one before it has one.\<close>

theorem trailing_order_property_dropped:
  "map_option (\<lambda>q. map (\<lambda>o'. (os_property o', os_direction o')) (dq_orderBy q))
     (case parseQueryMethod ''findByCityOrderByNameAscAge'' of Inr r \<Rightarrow> r | Inl _ \<Rightarrow> None) = Some [(''name'', Asc)] \<and>
   map_option (\<lambda>q. map (\<lambda>o'. (os_property o', os_direction o')) (dq_orderBy q))
     (case parseQueryMethod ''findByCityOrderByAge'' of Inr r \<Rightarrow> r | Inl _ \<Rightarrow> None) = Some [(''age'', Asc)]"
  by code_simp

definition no_text :: text_env where
  "no_text = \<lparr>te_show = (\<lambda>_. ''''), te_time = (\<lambda>_. None), te_json = (\<lambda>_. '''')\<rparr>"

definition flags :: "bool \<Rightarrow> bool \<Rightarrow> bool \<Rightarrow> val" where
  "flags a b c = ObjV 0 [(''a'', BoolV a), (''b'', BoolV b), (''c'', BoolV c)]"

text \<open>Conditions combine from the left, And binding no tighter than Or.\<close>

theorem conditions_combine_left_to_right:
  "case parseQueryMethod ''findByATrueOrBTrueAndCTrue'' of
     Inr (Some q) \<Rightarrow> satisfies no_text q [] (flags a b c) = ((a \<or> b) \<and> c) | _ \<Rightarrow> False"
proof -
  have "list_all (\<lambda>(a, b, c). case parseQueryMethod ''findByATrueOrBTrueAndCTrue'' of
       Inr (Some q) \<Rightarrow> satisfies no_text q [] (flags a b c) = ((a \<or> b) \<and> c) | _ \<Rightarrow> False)
     (List.product [False, True] (List.product [False, True] [False, True]))"
    by code_simp
  moreover have "(a, b, c) \<in> set (List.product [False, True] (List.product [False, True] [False, True]))"
    by auto
  ultimately show ?thesis
    unfolding list_all_iff by (elim ballE[of _ _ "(a, b, c)"]) (simp_all only: split_conv)
qed

text \<open>A pattern's percent sign stops at a line break.\<close>

theorem like_stops_at_line_break:
  "c \<in> {CHR 0x0A, CHR 0x0D} \<Longrightarrow> \<not> likeMatch (s @ c # t) ''%''"
  by (induction s) (auto simp: likeMatch_def reg_dot_def code_def)

lemma like_stops_at_line_break_witness: "\<not> likeMatch (''ab'' @ CHR 0x0A # ''c'') ''%''"
  by (rule like_stops_at_line_break) simp

section \<open>Witnesses\<close>

definition person :: "nat \<Rightarrow> string \<Rightarrow> rat \<Rightarrow> val" where
  "person n name a = ObjV n [(''id'', StrV name), (''age'', NumV a)]"

definition people :: items where
  "people = [(''u'', person 1 ''u'' 7), (''v'', person 2 ''v'' 3), (''w'', person 3 ''w'' 5)]"

definition by_age :: "subject_kind \<Rightarrow> nat option \<Rightarrow> derived_query" where
  "by_age k n = \<lparr>dq_subject = k, dq_methodName = ''m'', dq_distinct = False, dq_limit = n, dq_singleResult = False,
     dq_conditions = [\<lparr>pc_property = ''age'', pc_operator = OpGt, pc_ignoreCase = False, pc_argCount = 1\<rparr>],
     dq_combinators = [], dq_orderBy = [\<lparr>os_property = ''age'', os_direction = Asc\<rparr>]\<rparr>"

lemma derived_query_returns_matches_witness:
  "\<exists>xs. mset xs = filter_mset (satisfies no_text (by_age QuerySubject None) [NumV 4]) (mset (js_values people)) \<and>
    executeDerivedQuery no_text (by_age CountSubject None) (memory_repo no_text) [NumV 4] people = (Inr (Number (length xs)), people)"
  using derived_query_returns_matches[of "by_age QuerySubject None" no_text "[NumV 4]" "memory_repo no_text" people]
  by (auto simp: by_age_def memory_repo_def repo_findAll_def)

lemma limited_query_returns_least_witness:
  "\<exists>xs rest. executeDerivedQuery no_text (by_age QuerySubject (Some 1)) (memory_repo no_text) [NumV 4] people =
      (Inr (Entities xs), people) \<and>
    mset (xs @ rest) = filter_mset (satisfies no_text (by_age QuerySubject (Some 1)) [NumV 4]) (mset (js_values people)) \<and>
    sorted_wrt (\<lambda>a b. entity_cmp no_text (dq_orderBy (by_age QuerySubject (Some 1))) a b \<le> 0) (xs @ rest)"
proof -
  have "numeric (dq_orderBy (by_age QuerySubject (Some 1))) (ro_findAll (memory_repo no_text) people)"
    by code_simp
  moreover have "dq_subject (by_age QuerySubject (Some 1)) = QuerySubject" "\<not> dq_singleResult (by_age QuerySubject (Some 1))"
      "\<not> dq_distinct (by_age QuerySubject (Some 1))" "dq_limit (by_age QuerySubject (Some 1)) = Some 1"
      "dq_orderBy (by_age QuerySubject (Some 1)) \<noteq> []" "ro_findAll (memory_repo no_text) people = js_values people"
    by (simp_all add: by_age_def memory_repo_def repo_findAll_def)
  ultimately show ?thesis
    using limited_query_returns_least[of "by_age QuerySubject (Some 1)" 1 "memory_repo no_text" people no_text "[NumV 4]"]
    by metis
qed

lemma derived_delete_removes_selected_witness:
  "\<exists>m'. executeDerivedQuery no_text (by_age DeleteSubject (Some 1)) (memory_repo no_text) [NumV 4] people = (Inr (Number 1), m') \<and>
    js_values m' = [person 1 ''u'' 7, person 2 ''v'' 3]"
proof -
  have sel: "selected no_text (by_age DeleteSubject (Some 1)) [NumV 4] (js_values people) = [person 3 ''w'' 5]"
    by code_simp
  have "keyed no_text people" "\<forall>e \<in> set (js_values people). id_of e \<noteq> Undef" "dq_subject (by_age DeleteSubject (Some 1)) = DeleteSubject"
    by (simp_all add: keyed_def people_def person_def id_of_def member_def normalizeId_def to_str_def by_age_def)
  moreover have "filter (\<lambda>e. e \<notin> set [person 3 ''w'' 5]) (js_values people) = [person 1 ''u'' 7, person 2 ''v'' 3]"
    by (simp add: people_def person_def)
  ultimately show ?thesis
    using derived_delete_removes_selected[of no_text people "by_age DeleteSubject (Some 1)" "[NumV 4]"] unfolding sel by auto
qed

lemma pages_partition_entities_witness:
  "pg_total (repo_findPaginated 1 2 [] people) = 3 \<and> length (pg_items (repo_findPaginated 1 2 [] people)) = 2"
  using pages_partition_entities[of 2 "[]" people] by (simp add: Let_def people_def)

end
