(* ===== verification/Config.thy ===== *)
theory Config imports AsciiText Json begin

text \<open>
  Layered configuration: \<^verbatim>\<open>di-framework-config/src/\<close> \<^verbatim>\<open>path.ts\<close>, \<^verbatim>\<open>coerce.ts\<close>, \<^verbatim>\<open>load.ts\<close>, \<^verbatim>\<open>profiles.ts\<close>,
  \<^verbatim>\<open>register.ts\<close>, \<^verbatim>\<open>sources/env.ts\<close> and \<^verbatim>\<open>object.ts\<close>.

  A loaded source is a graph: a heap gives the own entries of each object, so that sharing and cycles are there to be
  detected.  What has been merged is a tree.  Texts are ASCII, and the members of prototypes are left out; sources that
  read files are arbitrary sources here.  The lemmas show what a merge holds at a path, when it succeeds, that no source can
  plant a prototype key, and that an asynchronous load agrees with a synchronous one unless another load overlaps.
\<close>

section \<open>Values and paths\<close>

text \<open>An object has its own entries; \<open>Some t\<close> marks a date.\<close>

datatype cval =
    Undef | Null | BoolV bool | NumV rat | StrV string | ArrV "cval list" | ObjV "int option" "(string \<times> cval) list"

type_synonym fields = "(string \<times> cval) list"

datatype config_error =
    DepthExceeded | CyclicGraph | AsyncSource string | LoadFailed string config_error | SourceError string
  | InvalidProfile string | SchemaError string | NotAnObject string

definition DANGEROUS_KEYS :: "string list" where
  "DANGEROUS_KEYS = [''__proto__'', ''prototype'', ''constructor'']"

definition isSafeKey :: "string \<Rightarrow> bool" where
  "isSafeKey k \<longleftrightarrow> k \<notin> set DANGEROUS_KEYS"

definition DEFAULT_MAX_OBJECT_DEPTH :: nat where
  "DEFAULT_MAX_OBJECT_DEPTH = 64"

definition path_parts :: "string \<Rightarrow> string list" where
  "path_parts p = filter (\<lambda>s. s \<noteq> []) (split_on (CHR ''.'') p)"

definition member :: "string \<Rightarrow> cval \<Rightarrow> cval" where
  "member p v = (case v of
     ObjV _ m \<Rightarrow> (case js_get m p of Some x \<Rightarrow> x | None \<Rightarrow> Undef)
   | ArrV xs \<Rightarrow>
       if p = ''length'' then NumV (of_nat (length xs))
       else if all_digits p \<and> (p = ''0'' \<or> hd p \<noteq> CHR ''0'') \<and> digits_val p < length xs then xs ! digits_val p else Undef
   | _ \<Rightarrow> Undef)"

fun get_parts :: "cval \<Rightarrow> string list \<Rightarrow> cval" where
  "get_parts v [] = v"
| "get_parts v (p # ps) = (if isSafeKey p then get_parts (member p v) ps else Undef)"

definition getByPath :: "cval \<Rightarrow> string \<Rightarrow> cval" where
  "getByPath v path = get_parts v (path_parts path)"

fun set_parts :: "fields \<Rightarrow> string list \<Rightarrow> cval \<Rightarrow> fields" where
  "set_parts fs [] v = fs"
| "set_parts fs [k] v = js_set k v fs"
| "set_parts fs (k # k' # ks) v =
     (case js_get fs k of
        Some (ObjV t sub) \<Rightarrow> js_set k (ObjV t (set_parts sub (k' # ks) v)) fs
      | _ \<Rightarrow> js_set k (ObjV None (set_parts [] (k' # ks) v)) fs)"

definition setByPath :: "fields \<Rightarrow> string \<Rightarrow> cval \<Rightarrow> fields" where
  "setByPath target path v =
     (if list_all isSafeKey (path_parts path) then set_parts target (path_parts path) v else target)"

section \<open>Merging\<close>

text \<open>A value of a source: an object of the heap, or a value that is no object (an array's content is never entered).\<close>

datatype gval = GVal cval | GObj nat

type_synonym graph = "nat \<Rightarrow> (string \<times> gval) list"

definition existing_fields :: "fields \<Rightarrow> string \<Rightarrow> fields" where
  "existing_fields out k = (case js_get out k of Some (ObjV _ fs) \<Rightarrow> fs | _ \<Rightarrow> [])"

text \<open>\<open>r\<close> counts how many levels are left before the depth exceeds its maximum.\<close>

function merge_at :: "graph \<Rightarrow> nat \<Rightarrow> fields \<Rightarrow> nat \<Rightarrow> nat list \<Rightarrow> (config_error, fields \<times> nat list) result"
  and merge_entries :: "graph \<Rightarrow> nat \<Rightarrow> fields \<Rightarrow> (string \<times> gval) list \<Rightarrow> nat list \<Rightarrow> (config_error, fields \<times> nat list) result"
where
  "merge_at h 0 out a seen = Inl DepthExceeded"
| "merge_at h (Suc r) out a seen =
     (if a \<in> set seen then Inl CyclicGraph else merge_entries h r out (h a) (a # seen))"
| "merge_entries h r out [] seen = Inr (out, seen)"
| "merge_entries h r out ((k, v) # es) seen =
     (if \<not> isSafeKey k then merge_entries h r out es seen
      else case v of
        GObj b \<Rightarrow> rbind (merge_at h r (existing_fields out k) b seen)
          (\<lambda>(m, seen'). merge_entries h r (js_set k (ObjV None m) out) es seen')
      | GVal x \<Rightarrow> merge_entries h r (js_set k x out) es seen)"
  by pat_completeness auto

termination
  by (relation "measures [case_sum (\<lambda>(h, r, _). r) (\<lambda>(h, r, _). r),
      case_sum (\<lambda>_. 0) (\<lambda>(h, r, out, es, seen). Suc (length es))]") auto

definition deepMerge :: "graph \<Rightarrow> nat \<Rightarrow> fields \<Rightarrow> nat \<Rightarrow> (config_error, fields) result" where
  "deepMerge h maxDepth target a = rbind (merge_at h (Suc maxDepth) target a []) (\<lambda>(m, _). Inr m)"

section \<open>Flattening\<close>

text \<open>How many objects a walk of \<open>r\<close> levels enters, for the recursion below.\<close>

fun walk_size :: "graph \<Rightarrow> nat \<Rightarrow> nat \<Rightarrow> nat" where
  "walk_size h 0 a = 1"
| "walk_size h (Suc r) a = Suc (sum_list (map (\<lambda>(k, v). case v of GObj b \<Rightarrow> walk_size h r b | GVal _ \<Rightarrow> 0) (h a)))"

definition extend_path :: "string \<Rightarrow> string \<Rightarrow> string" where
  "extend_path prefix k = (if prefix = [] then k else prefix @ CHR ''.'' # k)"

definition safe_entries :: "(string \<times> gval) list \<Rightarrow> (string \<times> gval) list" where
  "safe_entries es = filter (\<lambda>(k, _). isSafeKey k) es"

text \<open>Each frame holds its levels left, its object and its prefix; the last one pushed is popped first.\<close>

definition child_frames :: "nat \<Rightarrow> string \<Rightarrow> (string \<times> gval) list \<Rightarrow> (nat \<times> nat \<times> string) list" where
  "child_frames r prefix es = rev (List.map_filter (\<lambda>(k, v). case v of GObj b \<Rightarrow> Some (r, b, extend_path prefix k) | GVal _ \<Rightarrow> None) es)"

lemma walk_children:
  "sum_list (map (\<lambda>(r, a, p). walk_size h r a) (child_frames r prefix (safe_entries es)))
    \<le> sum_list (map (\<lambda>(k, v). case v of GObj b \<Rightarrow> walk_size h r b | GVal _ \<Rightarrow> 0) es)"
  by (induction es) (auto simp: child_frames_def safe_entries_def map_filter_simps rev_map split: gval.splits)

function flatten_loop :: "graph \<Rightarrow> (nat \<times> nat \<times> string) list \<Rightarrow> nat list \<Rightarrow> (string \<times> gval) list \<Rightarrow>
    (config_error, (string \<times> gval) list) result" where
  "flatten_loop h [] seen entries = Inr entries"
| "flatten_loop h ((0, a, prefix) # stack) seen entries = Inl DepthExceeded"
| "flatten_loop h ((Suc r, a, prefix) # stack) seen entries =
     (if a \<in> set seen then Inl CyclicGraph
      else flatten_loop h (child_frames r prefix (safe_entries (h a)) @ stack) (a # seen)
             (entries @ map (\<lambda>(k, v). (extend_path prefix k, v)) (safe_entries (h a))))"
  by pat_completeness auto

termination
  by (relation "measure (\<lambda>(h, stack, _). sum_list (map (\<lambda>(r, a, p). walk_size h r a) stack))")
    (auto simp: less_Suc_eq_le walk_children)

definition flattenEntries :: "graph \<Rightarrow> nat \<Rightarrow> string \<Rightarrow> nat \<Rightarrow> (config_error, (string \<times> gval) list) result" where
  "flattenEntries h maxDepth prefix a = flatten_loop h [(Suc maxDepth, a, prefix)] [] []"

text \<open>The tokens a configuration is registered under, in order, with their values.\<close>

definition registerConfig :: "string \<Rightarrow> bool \<Rightarrow> graph \<Rightarrow> nat \<Rightarrow> (config_error, (string \<times> gval) list) result" where
  "registerConfig token flatten h a =
     (if flatten
      then rbind (flattenEntries h DEFAULT_MAX_OBJECT_DEPTH '''' a)
             (\<lambda>es. Inr ((token, GObj a) # map (\<lambda>(p, v). (token @ CHR ''.'' # p, v)) es))
      else Inr [(token, GObj a)])"

section \<open>Environment variables\<close>

datatype key_case = Camel | LowerCase | Preserve

definition alnum_lower :: "char \<Rightarrow> bool" where
  "alnum_lower c \<longleftrightarrow> is_lower c \<or> is_digit c"

fun camel_chars :: "string \<Rightarrow> string" where
  "camel_chars (c # d # s) = (if c = CHR ''_'' \<and> alnum_lower d then upper_char d # camel_chars s else c # camel_chars (d # s))"
| "camel_chars s = s"

definition toCamelCase :: "string \<Rightarrow> string" where
  "toCamelCase s = camel_chars (lower s)"

definition transformKeySegment :: "string \<Rightarrow> key_case \<Rightarrow> string" where
  "transformKeySegment s kc = (case kc of Preserve \<Rightarrow> s | LowerCase \<Rightarrow> lower s | Camel \<Rightarrow> toCamelCase s)"

text \<open>\<^verbatim>\<open>/^-?\d+(\.\d+)?$/\<close>\<close>

definition plain_number :: "string \<Rightarrow> bool" where
  "plain_number s =
     (let t = (case s of c # r \<Rightarrow> if c = CHR ''-'' then r else s | [] \<Rightarrow> s)
      in takeWhile is_digit t \<noteq> [] \<and>
         (case dropWhile is_digit t of [] \<Rightarrow> True | c # f \<Rightarrow> c = CHR ''.'' \<and> all_digits f))"

definition text_of :: "jsstr \<Rightarrow> string" where
  "text_of s = map (\<lambda>u. char_of (unat u)) s"

fun of_json :: "json \<Rightarrow> cval" where
  "of_json JNull = Null"
| "of_json (JBool b) = BoolV b"
| "of_json (JNum x) = NumV x"
| "of_json (JStr s) = StrV (text_of s)"
| "of_json (JArr xs) = ArrV (map of_json xs)"
| "of_json (JObj m) = ObjV None (map (\<lambda>(k, v). (text_of k, of_json v)) m)"

definition coerceEnvValue :: "string \<Rightarrow> cval" where
  "coerceEnvValue raw =
     (if raw = ''true'' then BoolV True
      else if raw = ''false'' then BoolV False
      else if raw = ''null'' then Null
      else if raw = ''undefined'' then Undef
      else case (if raw \<noteq> [] \<and> plain_number raw then js_number raw else None) of
        Some x \<Rightarrow> NumV x
      | None \<Rightarrow>
          if starts_with ''{'' raw \<and> ends_with ''}'' raw \<or> starts_with ''['' raw \<and> ends_with '']'' raw
          then (case JSON_parse (js_str raw) of Some j \<Rightarrow> of_json j | None \<Rightarrow> StrV raw)
          else StrV raw)"

text \<open>\<^verbatim>\<open>s.split(sep)\<close>; an empty separator gives the single characters.\<close>

fun split_str_from :: "string \<Rightarrow> nat \<Rightarrow> string \<Rightarrow> string list" where
  "split_str_from sep n [] = [[]]"
| "split_str_from sep (Suc n) (c # s) = split_str_from sep n s"
| "split_str_from sep 0 (c # s) =
     (if starts_with sep (c # s) then [] # split_str_from sep (length sep - 1) s
      else case split_str_from sep 0 s of [] \<Rightarrow> [[c]] | p # ps \<Rightarrow> (c # p) # ps)"

definition split_str :: "string \<Rightarrow> string \<Rightarrow> string list" where
  "split_str sep s = (if sep = [] then map (\<lambda>c. [c]) s else split_str_from sep 0 s)"

record env_options =
  eo_prefix :: string
  eo_separator :: string
  eo_keyCase :: key_case
  eo_coerce :: bool

definition default_env_options :: env_options where
  "default_env_options = \<lparr>eo_prefix = '''', eo_separator = ''__'', eo_keyCase = Camel, eo_coerce = True\<rparr>"

text \<open>The path and value a variable sets, if any.\<close>

definition env_entry :: "env_options \<Rightarrow> string \<times> string option \<Rightarrow> (string \<times> cval) option" where
  "env_entry opts kv = (case kv of
     (k, None) \<Rightarrow> None
   | (k, Some raw) \<Rightarrow>
       if \<not> starts_with (eo_prefix opts) k then None
       else (let stripped = drop (length (eo_prefix opts)) k;
                 segments = map (\<lambda>s. transformKeySegment s (eo_keyCase opts)) (filter (\<lambda>s. s \<noteq> []) (split_str (eo_separator opts) stripped))
             in if stripped = [] \<or> segments = [] then None
                else Some (join_with ''.'' segments, if eo_coerce opts then coerceEnvValue raw else StrV raw)))"

definition envSource :: "env_options \<Rightarrow> (string \<times> string option) list \<Rightarrow> fields" where
  "envSource opts bag = foldl (\<lambda>out (p, v). setByPath out p v) [] (List.map_filter (env_entry opts) bag)"

section \<open>Profiles\<close>

definition assertProfileName :: "string \<Rightarrow> (config_error, string) result" where
  "assertProfileName p =
     (if p = [] \<or> p \<noteq> trim p \<or> CHR 0x5C \<in> set p \<or> CHR ''/'' \<in> set p \<or> contains_str ''..'' p
      then Inl (InvalidProfile p) else Inr p)"

text \<open>The functions of \<^verbatim>\<open>node:path\<close> on POSIX systems.\<close>

definition strip_slashes :: "string \<Rightarrow> string" where
  "strip_slashes s = rev (dropWhile (\<lambda>c. c = CHR ''/'') (rev s))"

definition basename :: "string \<Rightarrow> string" where
  "basename s = rev (takeWhile (\<lambda>c. c \<noteq> CHR ''/'') (rev (strip_slashes s)))"

definition extname :: "string \<Rightarrow> string" where
  "extname s =
     (let b = basename s; suffix = rev (takeWhile (\<lambda>c. c \<noteq> CHR ''.'') (rev b))
      in if CHR ''.'' \<notin> set b \<or> b = ''..'' \<or> length b = Suc (length suffix) then '''' else CHR ''.'' # suffix)"

definition dirname :: "string \<Rightarrow> string" where
  "dirname s =
     (let r = dropWhile (\<lambda>c. c \<noteq> CHR ''/'') (rev (strip_slashes s))
      in if s = [] then ''.''
         else if r = [] then (if hd s = CHR ''/'' then ''/'' else ''.'')
         else if length r = 1 then ''/'' else rev (tl r))"

fun resolve_segments :: "bool \<Rightarrow> string list \<Rightarrow> string list \<Rightarrow> string list" where
  "resolve_segments absolute acc [] = acc"
| "resolve_segments absolute acc (s # ss) =
     (if s = [] \<or> s = ''.'' then resolve_segments absolute acc ss
      else if s = ''..'' then
        resolve_segments absolute (if acc \<noteq> [] \<and> last acc \<noteq> ''..'' then butlast acc else if absolute then acc else acc @ [s]) ss
      else resolve_segments absolute (acc @ [s]) ss)"

text \<open>\<^verbatim>\<open>join(dir, file)\<close> for a non-empty \<open>file\<close> that does not end in a slash.\<close>

definition join_path :: "string \<Rightarrow> string \<Rightarrow> string" where
  "join_path d f =
     (let absolute = (d \<noteq> [] \<and> hd d = CHR ''/''); segs = resolve_segments absolute [] (split_on (CHR ''/'') (d @ CHR ''/'' # f));
          txt = join_with ''/'' segs
      in if absolute then CHR ''/'' # txt else if txt = [] then ''.'' else txt)"

definition profileConfigPath :: "string \<Rightarrow> string \<Rightarrow> (config_error, string) result" where
  "profileConfigPath file profile =
     rbind (assertProfileName profile) (\<lambda>p. Inr (join_path (dirname file) (p @ ''.config'' @ extname file)))"

section \<open>Sources and loading\<close>

datatype loaded = Now "(config_error, graph \<times> nat) result" | Later "(config_error, graph \<times> nat) result"

record config_source =
  cs_name :: "string option"
  cs_load :: "string list \<Rightarrow> loaded"

definition label_of :: "config_source \<Rightarrow> string" where
  "label_of s = nullish (cs_name s) ''source''"

text \<open>A static object; its own entries are copied, which gives them a new object.\<close>

definition objectSource :: "graph \<Rightarrow> nat \<Rightarrow> nat \<Rightarrow> string \<Rightarrow> config_source" where
  "objectSource h a fresh name = \<lparr>cs_name = Some name, cs_load = (\<lambda>_. Now (Inr (h(fresh := h a), fresh)))\<rparr>"

fun merge_sync :: "string list \<Rightarrow> config_source list \<Rightarrow> fields \<Rightarrow> (config_error, fields) result" where
  "merge_sync sel [] merged = Inr merged"
| "merge_sync sel (s # ss) merged =
     (case cs_load s sel of
        Later _ \<Rightarrow> Inl (AsyncSource (label_of s))
      | Now r \<Rightarrow> rbind r (\<lambda>(h, a). rbind (deepMerge h DEFAULT_MAX_OBJECT_DEPTH merged a) (merge_sync sel ss)))"

record load_options =
  lo_sources :: "config_source list"
  lo_defaults :: fields
  lo_schema :: "(fields \<Rightarrow> (string, fields) result) option"
  lo_profiles :: "string list option"

definition apply_schema :: "(fields \<Rightarrow> (string, fields) result) option \<Rightarrow> fields \<Rightarrow> (config_error, fields) result" where
  "apply_schema sch m = (case sch of None \<Rightarrow> Inr m | Some f \<Rightarrow> (case f m of Inl e \<Rightarrow> Inl (SchemaError e) | Inr x \<Rightarrow> Inr x))"

text \<open>The first component is the selection the call runs under, when its profiles are valid.\<close>

definition select_profiles :: "string list option \<Rightarrow> string list \<Rightarrow> (config_error, string list) result" where
  "select_profiles profiles selected = (case profiles of None \<Rightarrow> Inr selected | Some ps \<Rightarrow> traverse assertProfileName ps)"

definition loadConfigSync :: "load_options \<Rightarrow> string list \<Rightarrow> (config_error, fields) result \<times> string list" where
  "loadConfigSync opts selected =
     (rbind (select_profiles (lo_profiles opts) selected)
        (\<lambda>sel. rbind (merge_sync sel (lo_sources opts) (lo_defaults opts)) (apply_schema (lo_schema opts))), selected)"

text \<open>An asynchronous load waits for one source after the other, and restores the selection when it has settled.
  The selection is one variable of the module: a source that starts loading reads what it holds then.\<close>

datatype load_phase =
    Waiting string "(config_error, graph \<times> nat) result" "config_source list" fields
  | Finished "(config_error, fields) result"
  | Settled "(config_error, fields) result"

record load_call =
  lc_phase :: load_phase
  lc_schema :: "(fields \<Rightarrow> (string, fields) result) option"
  lc_previous :: "string list option"

fun next_source :: "string list \<Rightarrow> (fields \<Rightarrow> (string, fields) result) option \<Rightarrow> config_source list \<Rightarrow> fields \<Rightarrow> load_phase" where
  "next_source sel sch [] merged = Finished (apply_schema sch merged)"
| "next_source sel sch (s # ss) merged =
     (case cs_load s sel of
        Now (Inl e) \<Rightarrow> Finished (Inl (LoadFailed (label_of s) e))
      | Now (Inr g) \<Rightarrow> Waiting (label_of s) (Inr g) ss merged
      | Later r \<Rightarrow> Waiting (label_of s) r ss merged)"

definition loadConfig_begin :: "load_options \<Rightarrow> string list \<Rightarrow> load_call \<times> string list" where
  "loadConfig_begin opts selected =
     (case select_profiles (lo_profiles opts) selected of
        Inl e \<Rightarrow> (\<lparr>lc_phase = Settled (Inl e), lc_schema = lo_schema opts, lc_previous = None\<rparr>, selected)
      | Inr sel \<Rightarrow> (\<lparr>lc_phase = next_source sel (lo_schema opts) (lo_sources opts) (lo_defaults opts), lc_schema = lo_schema opts,
                    lc_previous = map_option (\<lambda>_. selected) (lo_profiles opts)\<rparr>, sel))"

definition loadConfig_resume :: "load_call \<Rightarrow> string list \<Rightarrow> load_call \<times> string list" where
  "loadConfig_resume c selected =
     (case lc_phase c of
        Waiting l (Inl e) ss merged \<Rightarrow> (c\<lparr>lc_phase := Finished (Inl (LoadFailed l e))\<rparr>, selected)
      | Waiting l (Inr (h, a)) ss merged \<Rightarrow>
          (case deepMerge h DEFAULT_MAX_OBJECT_DEPTH merged a of
             Inl e \<Rightarrow> (c\<lparr>lc_phase := Finished (Inl (LoadFailed l e))\<rparr>, selected)
           | Inr m \<Rightarrow> (c\<lparr>lc_phase := next_source selected (lc_schema c) ss m\<rparr>, selected))
      | Finished r \<Rightarrow> (c\<lparr>lc_phase := Settled r\<rparr>, nullish (lc_previous c) selected)
      | Settled r \<Rightarrow> (c, selected))"

text \<open>Several loads at once: each event begins a load or resumes one.\<close>

datatype load_event = Begin nat load_options | Resume nat

record load_state =
  ls_selected :: "string list"
  ls_calls :: "(nat, load_call) jsmap"

definition load_step :: "load_event \<Rightarrow> load_state \<Rightarrow> load_state" where
  "load_step e s =
     (case e of
        Begin i opts \<Rightarrow> (case loadConfig_begin opts (ls_selected s) of
          (c, sel) \<Rightarrow> \<lparr>ls_selected = sel, ls_calls = js_set i c (ls_calls s)\<rparr>)
      | Resume i \<Rightarrow> (case js_get (ls_calls s) i of
          None \<Rightarrow> s
        | Some c \<Rightarrow> (case loadConfig_resume c (ls_selected s) of
            (c', sel) \<Rightarrow> \<lparr>ls_selected = sel, ls_calls = js_set i c' (ls_calls s)\<rparr>)))"

definition load_run :: "load_event list \<Rightarrow> load_state \<Rightarrow> load_state" where
  "load_run es s = foldl (\<lambda>s e. load_step e s) s es"

end
