(* ===== verification/ConfigLaws.thy ===== *)
theory ConfigLaws imports Config begin

text \<open>
  What the configuration model of \<open>Config\<close> guarantees: the value a merge holds at a path, when merging and
  flattening succeed, keys that no source can plant, variables that are found again, and loads that overlap.
\<close>

section \<open>Values at a path\<close>

fun at_path :: "cval \<Rightarrow> string list \<Rightarrow> cval option" where
  "at_path v [] = Some v"
| "at_path (ObjV t m) (k # ks) = (case js_get m k of None \<Rightarrow> None | Some x \<Rightarrow> at_path x ks)"
| "at_path v (k # ks) = None"

datatype look = Absent | Value "cval option" | AnObject

fun source_at :: "graph \<Rightarrow> gval \<Rightarrow> string list \<Rightarrow> look" where
  "source_at h (GVal x) ks = Value (at_path x ks)"
| "source_at h (GObj a) [] = AnObject"
| "source_at h (GObj a) (k # ks) = (case map_of (h a) k of None \<Rightarrow> Absent | Some v \<Rightarrow> source_at h v ks)"

text \<open>That an object is there, not what it holds: the longer paths say that.\<close>

definition shape :: "cval \<Rightarrow> cval" where
  "shape v = (case v of ObjV _ _ \<Rightarrow> ObjV None [] | _ \<Rightarrow> v)"

definition overlay :: "cval option \<Rightarrow> look \<Rightarrow> cval option" where
  "overlay old l = (case l of Absent \<Rightarrow> old | Value w \<Rightarrow> map_option shape w | AnObject \<Rightarrow> Some (ObjV None []))"

definition seen_at :: "fields \<Rightarrow> string list \<Rightarrow> cval option" where
  "seen_at fs ks = map_option shape (at_path (ObjV None fs) ks)"

lemma shape_idem [simp]: "shape (shape v) = shape v"
  by (cases v) (simp_all add: shape_def)

lemma at_path_get: "at_path v ks = Some x \<Longrightarrow> list_all isSafeKey ks \<Longrightarrow> get_parts v ks = x"
  by (induction v ks rule: at_path.induct) (auto simp: member_def split: option.splits)

lemma at_path_nonobject: "\<forall>t m. v \<noteq> ObjV t m \<Longrightarrow> ks \<noteq> [] \<Longrightarrow> at_path v ks = None"
  by (cases ks; cases v) auto

lemma seen_at_Cons: "seen_at fs (k # ks) = (case js_get fs k of None \<Rightarrow> None | Some x \<Rightarrow> map_option shape (at_path x ks))"
  by (simp add: seen_at_def split: option.split)

lemma at_path_tag: "ks \<noteq> [] \<Longrightarrow> at_path (ObjV t m) ks = at_path (ObjV None m) ks"
  by (cases ks) simp_all

lemma seen_at_existing:
  assumes "ks \<noteq> []"
  shows "seen_at (existing_fields out k) ks = seen_at out (k # ks)"
proof (cases "js_get out k")
  case None
  then show ?thesis
    using assms by (cases ks) (simp_all add: seen_at_def existing_fields_def)
next
  case (Some x)
  then show ?thesis
    using assms at_path_nonobject[OF _ assms, of x] at_path_tag[OF assms]
    by (cases x; cases ks) (simp_all add: seen_at_def existing_fields_def)
qed

section \<open>Merging\<close>

definition graph_ok :: "graph \<Rightarrow> bool" where
  "graph_ok h \<longleftrightarrow> (\<forall>a. distinct (map fst (h a)))"

lemma seen_at_set: "seen_at (js_set k v fs) (k' # ks) = (if k' = k then map_option shape (at_path v ks) else seen_at fs (k' # ks))"
  by (simp add: seen_at_Cons)

lemma merge_lookup:
  "merge_at h r out a seen = Inr (m, seen1) \<Longrightarrow> graph_ok h \<Longrightarrow> ks \<noteq> [] \<Longrightarrow> list_all isSafeKey ks \<Longrightarrow>
    seen_at m ks = overlay (seen_at out ks) (source_at h (GObj a) ks)"
  "merge_entries h r out es seen = Inr (m, seen1) \<Longrightarrow> graph_ok h \<Longrightarrow> distinct (map fst es) \<Longrightarrow> isSafeKey k \<Longrightarrow> list_all isSafeKey ks \<Longrightarrow>
    seen_at m (k # ks) = overlay (seen_at out (k # ks)) (case map_of es k of None \<Rightarrow> Absent | Some v \<Rightarrow> source_at h v ks)"
proof (induction h r out a seen and h r out es seen arbitrary: m seen1 ks and m seen1 k ks rule: merge_at_merge_entries.induct)
  case (2 h r out a seen m seen1 ks)
  obtain k ks' where ks: "ks = k # ks'"
    using "2.prems"(3) by (cases ks) auto
  have "merge_entries h r out (h a) (a # seen) = Inr (m, seen1)" "a \<notin> set seen"
    using "2.prems"(1) by (auto split: if_splits)
  then show ?case
    using "2.IH"[of m seen1 k ks'] "2.prems" by (simp add: ks graph_ok_def)
next
  case (4 h r out k v es seen m seen1 ka ks)
  have es: "distinct (map fst es)" "map_of es k = None"
    using "4.prems"(3) by (auto simp: map_of_eq_None_iff)
  show ?case
  proof (cases "isSafeKey k")
    case False
    have "merge_entries h r out es seen = Inr (m, seen1)" "ka \<noteq> k"
      using "4.prems"(1,4) False by auto
    then show ?thesis
      using "4.IH"(1)[OF False, of m seen1 ka ks] "4.prems" es by simp
  next
    case safe: True
    show ?thesis
    proof (cases v)
      case (GVal x)
      have "merge_entries h r (js_set k x out) es seen = Inr (m, seen1)"
        using "4.prems"(1) safe GVal by simp
      then show ?thesis
        using "4.IH"(2)[of x m seen1 ka ks] "4.prems" es safe GVal by (simp add: seen_at_set overlay_def)
    next
      case (GObj b)
      obtain m1 s1 where m1: "merge_at h r (existing_fields out k) b seen = Inr (m1, s1)"
          "merge_entries h r (js_set k (ObjV None m1) out) es s1 = Inr (m, seen1)"
        using "4.prems"(1) safe GObj by (auto simp: rbind_eq_Inr)
      have rest: "seen_at m (ka # ks) = overlay (seen_at (js_set k (ObjV None m1) out) (ka # ks))
          (case map_of es ka of None \<Rightarrow> Absent | Some v \<Rightarrow> source_at h v ks)"
        using "4.IH"(4)[of b m1 s1 m seen1 ka ks] m1 "4.prems" es safe GObj by simp
      show ?thesis
      proof (cases "ka = k")
        case False
        then show ?thesis
          using rest by (simp add: seen_at_set)
      next
        case True
        then have m: "seen_at m (ka # ks) = map_option shape (at_path (ObjV None m1) ks)"
          using rest es by (simp add: seen_at_set overlay_def)
        show ?thesis
        proof (cases "ks = []")
          case True
          then show ?thesis
            using m \<open>ka = k\<close> GObj by (simp add: overlay_def shape_def)
        next
          case False
          have "seen_at m1 ks = overlay (seen_at (existing_fields out k) ks) (source_at h (GObj b) ks)"
            using "4.IH"(3)[of b m1 s1 ks] safe GObj m1(1) "4.prems" False by simp
          then show ?thesis
            using m \<open>ka = k\<close> GObj seen_at_existing[OF False, of out k] by (simp add: seen_at_def)
        qed
      qed
    qed
  qed
qed (simp_all add: overlay_def)

text \<open>C38: What a merge holds at a path: the source's own value where it has one, an object where it has an object, nothing
  below a value of the source that is not an object, and what was there before where the source has nothing.\<close>

theorem merge_holds_source_over_target:
  assumes "deepMerge h d target a = Inr m" "graph_ok h" "ks \<noteq> []" "list_all isSafeKey ks"
  shows "map_option shape (at_path (ObjV None m) ks) =
    overlay (map_option shape (at_path (ObjV None target) ks)) (source_at h (GObj a) ks)"
  using assms merge_lookup(1)[of h "Suc d" target a "[]" m _ ks] by (auto simp: deepMerge_def rbind_eq_Inr seen_at_def)

section \<open>When merging succeeds\<close>

text \<open>The objects a walk enters, in preorder; \<open>None\<close> when it is too deep.\<close>

fun visits :: "graph \<Rightarrow> nat \<Rightarrow> nat \<Rightarrow> nat list option" where
  "visits h 0 a = None"
| "visits h (Suc r) a =
     map_option (\<lambda>xss. a # concat xss)
       (those (map (\<lambda>(k, v). case v of GObj b \<Rightarrow> visits h r b | GVal _ \<Rightarrow> Some []) (safe_entries (h a))))"

definition visits_entries :: "graph \<Rightarrow> nat \<Rightarrow> (string \<times> gval) list \<Rightarrow> nat list option" where
  "visits_entries h r es =
     map_option concat (those (map (\<lambda>(k, v). case v of GObj b \<Rightarrow> visits h r b | GVal _ \<Rightarrow> Some []) (safe_entries es)))"

lemma visits_Suc: "visits h (Suc r) a = map_option ((#) a) (visits_entries h r (h a))"
  by (simp add: visits_entries_def option.map_comp o_def)

lemma visits_entries_simps:
  "visits_entries h r [] = Some []"
  "visits_entries h r ((k, v) # es) =
     (if \<not> isSafeKey k then visits_entries h r es
      else case (case v of GObj b \<Rightarrow> visits h r b | GVal _ \<Rightarrow> Some []) of None \<Rightarrow> None
         | Some xs \<Rightarrow> map_option ((@) xs) (visits_entries h r es))"
  by (auto simp: visits_entries_def safe_entries_def option.map_comp o_def split: option.splits gval.splits)

declare visits.simps(2) [simp del]

definition fresh_visit :: "nat list option \<Rightarrow> nat list \<Rightarrow> nat list \<Rightarrow> bool" where
  "fresh_visit vs seen seen' \<longleftrightarrow> (case vs of None \<Rightarrow> False | Some xs \<Rightarrow> distinct xs \<and> set xs \<inter> set seen = {} \<and> set seen' = set seen \<union> set xs)"

text \<open>A result tracks a visit when it succeeds exactly if the visit meets nothing twice.\<close>

definition tracks :: "(config_error, fields \<times> nat list) result \<Rightarrow> nat list option \<Rightarrow> nat list \<Rightarrow> bool" where
  "tracks res vs seen \<longleftrightarrow> (case res of Inr (m, s) \<Rightarrow> fresh_visit vs seen s | Inl e \<Rightarrow> \<not> (\<exists>s. fresh_visit vs seen s))"

lemma tracks_simps [simp]:
  "tracks (Inr (m, s)) vs seen = fresh_visit vs seen s"
  "tracks (Inl e) vs seen \<longleftrightarrow> (\<forall>xs. vs = Some xs \<longrightarrow> distinct xs \<longrightarrow> set xs \<inter> set seen \<noteq> {})"
  by (auto simp: tracks_def fresh_visit_def intro: exI[of _ "seen @ xs" for xs] split: option.splits)
    (metis Un_commute set_append)

lemma tracks_bind:
  assumes "tracks res vs seen" "\<And>m s. res = Inr (m, s) \<Longrightarrow> tracks (f (m, s)) ws s"
  shows "tracks (rbind res f) (case vs of None \<Rightarrow> None | Some xs \<Rightarrow> map_option ((@) xs) ws) seen"
proof (cases res)
  case (Inl e)
  then show ?thesis
    using assms(1) by (fastforce split: option.splits)
next
  case (Inr ms)
  obtain m s where ms: "ms = (m, s)"
    by (cases ms)
  obtain xs where xs: "vs = Some xs" "distinct xs" "set xs \<inter> set seen = {}" "set s = set seen \<union> set xs"
    using assms(1) Inr ms by (auto simp: fresh_visit_def split: option.splits)
  show ?thesis
    using assms(2)[of m s] Inr ms xs by (cases "f (m, s)") (auto simp: fresh_visit_def split: option.splits)
qed

lemma tracks_push:
  assumes "tracks res vs (a # seen)" "a \<notin> set seen"
  shows "tracks res (map_option ((#) a) vs) seen"
  using assms by (cases res) (auto simp: fresh_visit_def split: option.splits)

lemma merge_tracks:
  "tracks (merge_at h r out a seen) (visits h r a) seen"
  "tracks (merge_entries h r out es seen) (visits_entries h r es) seen"
proof (induction h r out a seen and h r out es seen rule: merge_at_merge_entries.induct)
  case (2 h r out a seen)
  then show ?case
    by (cases "a \<in> set seen") (auto simp: visits_Suc intro: tracks_push)
next
  case (4 h r out k v es seen)
  have nil: "map_option ((@) []) x = x" for x :: "nat list option"
    by (cases x) simp_all
  show ?case
  proof (cases "isSafeKey k")
    case True
    then show ?thesis
      using "4.IH"(2,3,4) tracks_bind by (cases v) (auto simp: visits_entries_simps nil)
  qed (use "4.IH"(1) in \<open>simp add: visits_entries_simps\<close>)
qed (simp_all add: fresh_visit_def visits_entries_simps)

text \<open>A merge succeeds exactly when the source is a tree within the depth limit: no object is reached twice, by a
  cycle or by sharing.\<close>

theorem merge_succeeds_on_trees:
  "(\<exists>m. deepMerge h d target a = Inr m) \<longleftrightarrow> (case visits h (Suc d) a of None \<Rightarrow> False | Some xs \<Rightarrow> distinct xs)"
  using merge_tracks(1)[of h "Suc d" target a "[]"]
  by (cases "merge_at h (Suc d) target a []") (auto simp: deepMerge_def fresh_visit_def split: option.splits)

text \<open>So an object that is merely shared, as an alias of YAML makes it, is refused as a cycle.\<close>

definition aliased :: graph where
  "aliased a = (if a = 0 then [(''primary'', GObj 1), (''replica'', GObj 1)] else if a = 1 then [(''host'', GVal (StrV ''db''))] else [])"

theorem shared_object_refused: "deepMerge aliased DEFAULT_MAX_OBJECT_DEPTH target 0 = Inl CyclicGraph"
  by (simp add: deepMerge_def aliased_def isSafeKey_def DANGEROUS_KEYS_def DEFAULT_MAX_OBJECT_DEPTH_def numeral_eq_Suc)

section \<open>Keys that cannot be planted\<close>

fun clean :: "cval \<Rightarrow> bool" where
  "clean (ObjV t m) \<longleftrightarrow> list_all (\<lambda>(k, v). isSafeKey k \<and> clean v) m"
| "clean _ \<longleftrightarrow> True"

lemma clean_set: "clean (ObjV t m) \<Longrightarrow> isSafeKey k \<Longrightarrow> clean v \<Longrightarrow> clean (ObjV t (js_set k v m))"
  by (induction m) auto

lemma clean_get: "clean (ObjV t m) \<Longrightarrow> js_get m k = Some v \<Longrightarrow> clean v"
  by (auto simp: list_all_iff dest: map_of_SomeD)

lemma clean_tag: "clean (ObjV t m) = clean (ObjV u m)"
  by simp

lemma clean_existing: "clean (ObjV t out) \<Longrightarrow> clean (ObjV u (existing_fields out k))"
  using clean_get[of t out k] by (auto simp: existing_fields_def split: option.splits cval.splits)

text \<open>A source may hold any keys in its objects; only its other values are taken as they are.\<close>

definition values_clean :: "graph \<Rightarrow> bool" where
  "values_clean h \<longleftrightarrow> (\<forall>a k x. (k, GVal x) \<in> set (h a) \<longrightarrow> clean x)"

lemma merge_clean:
  "merge_at h r out a seen = Inr (m, s) \<Longrightarrow> values_clean h \<Longrightarrow> clean (ObjV None out) \<Longrightarrow> clean (ObjV None m)"
  "merge_entries h r out es seen = Inr (m, s) \<Longrightarrow> values_clean h \<Longrightarrow> \<forall>k x. (k, GVal x) \<in> set es \<longrightarrow> clean x \<Longrightarrow>
    clean (ObjV None out) \<Longrightarrow> clean (ObjV None m)"
proof (induction h r out a seen and h r out es seen arbitrary: m s and m s rule: merge_at_merge_entries.induct)
  case (2 h r out a seen m s)
  then show ?case
    by (auto simp: values_clean_def split: if_splits)
next
  case (4 h r out k v es seen m s)
  have es: "\<forall>k x. (k, GVal x) \<in> set es \<longrightarrow> clean x"
    using "4.prems"(3) by simp
  show ?case
  proof (cases "isSafeKey k")
    case False
    then show ?thesis
      using "4.IH"(1)[OF False _ "4.prems"(2) es "4.prems"(4)] "4.prems"(1) by simp
  next
    case safe: True
    show ?thesis
    proof (cases v)
      case (GVal x)
      have "clean (ObjV None (js_set k x out))"
        using clean_set[OF "4.prems"(4) safe] "4.prems"(3) GVal by simp
      then show ?thesis
        using "4.IH"(2)[OF _ GVal _ "4.prems"(2) es] "4.prems"(1) safe GVal by simp
    next
      case (GObj b)
      obtain m1 s1 where m1: "merge_at h r (existing_fields out k) b seen = Inr (m1, s1)"
          "merge_entries h r (js_set k (ObjV None m1) out) es s1 = Inr (m, s)"
        using "4.prems"(1) safe GObj by (auto simp: rbind_eq_Inr)
      have "clean (ObjV None m1)"
        using "4.IH"(3)[OF _ GObj m1(1) "4.prems"(2) clean_existing[OF "4.prems"(4)]] safe by simp
      then have "clean (ObjV None (js_set k (ObjV None m1) out))"
        using clean_set[OF "4.prems"(4) safe] by blast
      then show ?thesis
        using "4.IH"(4)[OF _ GObj m1(2) "4.prems"(2) es] safe by simp
    qed
  qed
qed auto

text \<open>No source, whatever its keys, puts a prototype key into the configuration.\<close>

theorem merge_plants_no_prototype_key:
  assumes "deepMerge h d target a = Inr m" "values_clean h" "clean (ObjV None target)"
  shows "clean (ObjV None m)"
  using assms merge_clean(1)[of h "Suc d" target a "[]" m] by (auto simp: deepMerge_def rbind_eq_Inr)

section \<open>Flattening\<close>

text \<open>The same walk by recursion: every entry with its path, an object's own entries after it.\<close>

fun walk_entries :: "graph \<Rightarrow> nat \<Rightarrow> string \<Rightarrow> nat \<Rightarrow> (string \<times> gval) list" where
  "walk_entries h 0 prefix a = []"
| "walk_entries h (Suc r) prefix a =
     concat (map (\<lambda>(k, v). (extend_path prefix k, v) #
       (case v of GObj b \<Rightarrow> walk_entries h r (extend_path prefix k) b | GVal _ \<Rightarrow> [])) (safe_entries (h a)))"

fun visits_stack :: "graph \<Rightarrow> (nat \<times> nat \<times> string) list \<Rightarrow> nat list option" where
  "visits_stack h [] = Some []"
| "visits_stack h ((r, a, p) # st) =
     (case visits h r a of None \<Rightarrow> None | Some xs \<Rightarrow> map_option ((@) xs) (visits_stack h st))"

definition stack_entries :: "graph \<Rightarrow> (nat \<times> nat \<times> string) list \<Rightarrow> (string \<times> gval) multiset" where
  "stack_entries h st = sum_list (map (\<lambda>(r, a, p). mset (walk_entries h r p a)) st)"

text \<open>Two visits are the same up to their order.\<close>

definition same_visit :: "nat list option \<Rightarrow> nat list option \<Rightarrow> bool" where
  "same_visit x y \<longleftrightarrow> map_option mset x = map_option mset y"

lemma visits_stack_append:
  "visits_stack h (s @ t) = (case visits_stack h s of None \<Rightarrow> None | Some xs \<Rightarrow> map_option ((@) xs) (visits_stack h t))"
proof (induction s)
  case Nil
  then show ?case
    by (cases "visits_stack h t") simp_all
next
  case (Cons x s)
  then show ?case
    by (cases x; cases "visits_stack h t") (auto split: option.splits)
qed

lemma visits_stack_single: "visits_stack h [(r, a, p)] = visits h r a"
  by (cases "visits h r a") simp_all

lemma visits_stack_children:
  "map_option mset (visits_stack h (child_frames r prefix (safe_entries es))) = map_option mset (visits_entries h r es)"
proof (induction es)
  case (Cons kv es)
  obtain k v where kv: "kv = (k, v)"
    by (cases kv)
  show ?case
  proof (cases "isSafeKey k")
    case False
    then show ?thesis
      using Cons by (simp add: kv visits_entries_simps safe_entries_def)
  next
    case safe: True
    show ?thesis
    proof (cases v)
      case (GVal x)
      then show ?thesis
        using Cons safe
        by (cases "visits_entries h r es") (simp_all add: kv visits_entries_simps safe_entries_def child_frames_def map_filter_simps)
    next
      case (GObj b)
      then have "child_frames r prefix (safe_entries (kv # es)) =
          child_frames r prefix (safe_entries es) @ [(r, b, extend_path prefix k)]"
        using safe by (simp add: kv safe_entries_def child_frames_def map_filter_simps)
      then show ?thesis
        using Cons GObj safe
        by (cases "visits h r b"; cases "visits_entries h r es"; cases "visits_stack h (child_frames r prefix (safe_entries es))")
          (simp_all add: kv visits_entries_simps visits_stack_append visits_stack_single)
    qed
  qed
qed (simp add: visits_entries_simps safe_entries_def child_frames_def map_filter_simps)

lemma stack_entries_children:
  "stack_entries h (child_frames r prefix (safe_entries es)) + mset (map (\<lambda>(k, v). (extend_path prefix k, v)) (safe_entries es)) =
    mset (concat (map (\<lambda>(k, v). (extend_path prefix k, v) #
       (case v of GObj b \<Rightarrow> walk_entries h r (extend_path prefix k) b | GVal _ \<Rightarrow> [])) (safe_entries es)))"
  by (induction es)
    (auto simp: stack_entries_def child_frames_def safe_entries_def map_filter_simps rev_map ac_simps split: gval.splits)

lemma flatten_loop_walks:
  "case flatten_loop h stack seen entries of
     Inr es \<Rightarrow> (\<exists>xs. visits_stack h stack = Some xs \<and> distinct xs \<and> set xs \<inter> set seen = {}) \<and>
        mset es = mset entries + stack_entries h stack
   | Inl e \<Rightarrow> \<not> (\<exists>xs. visits_stack h stack = Some xs \<and> distinct xs \<and> set xs \<inter> set seen = {})"
proof (induction h stack seen entries rule: flatten_loop.induct)
  case (3 h r a prefix stack seen entries)
  let ?children = "child_frames r prefix (safe_entries (h a))"
  show ?case
  proof (cases "a \<in> set seen")
    case True
    then show ?thesis
      by (auto simp: visits_Suc split: option.splits)
  next
    case False
    have same: "(\<exists>xs. visits_stack h (?children @ stack) = Some xs \<and> distinct xs \<and> set xs \<inter> set (a # seen) = {}) \<longleftrightarrow>
        (\<exists>xs. visits_stack h ((Suc r, a, prefix) # stack) = Some xs \<and> distinct xs \<and> set xs \<inter> set seen = {})"
    proof (cases "visits_entries h r (h a)")
      case None
      then have "visits_stack h ?children = None"
        using visits_stack_children[of h r prefix "h a"] by simp
      then show ?thesis
        using None by (simp add: visits_Suc visits_stack_append)
    next
      case (Some xs)
      then obtain ys where ys: "visits_stack h ?children = Some ys" "mset ys = mset xs"
        using visits_stack_children[of h r prefix "h a"] by auto
      then have "set ys = set xs" "distinct ys = distinct xs"
        using mset_eq_setD mset_eq_imp_distinct_iff by blast+
      then show ?thesis
        using ys(1) Some False by (cases "visits_stack h stack") (auto simp: visits_Suc visits_stack_append)
    qed
    have sum: "stack_entries h ((Suc r, a, prefix) # stack) =
        stack_entries h (?children @ stack) + mset (map (\<lambda>(k, v). (extend_path prefix k, v)) (safe_entries (h a)))"
      using stack_entries_children[of h r prefix "h a"] by (simp add: stack_entries_def ac_simps)
    show ?thesis
      using "3.IH"[OF False] False unfolding same sum by (auto split: sum.splits simp: ac_simps)
  qed
qed (auto simp: stack_entries_def)

text \<open>Flattening lists every entry of every object once, with its path, and succeeds exactly where merging does.\<close>

theorem flatten_lists_every_entry:
  "case flattenEntries h d prefix a of
     Inr es \<Rightarrow> mset es = mset (walk_entries h (Suc d) prefix a) \<and> (\<exists>xs. visits h (Suc d) a = Some xs \<and> distinct xs)
   | Inl e \<Rightarrow> \<not> (\<exists>xs. visits h (Suc d) a = Some xs \<and> distinct xs)"
  using flatten_loop_walks[of h "[(Suc d, a, prefix)]" "[]" "[]"]
  by (auto simp: flattenEntries_def stack_entries_def option.map_comp o_def split: sum.splits option.splits)

section \<open>Writing and reading a path\<close>

lemma at_path_set_parts: "ks \<noteq> [] \<Longrightarrow> at_path (ObjV t (set_parts fs ks v)) ks = Some v"
  by (induction fs ks v arbitrary: t rule: set_parts.induct) (auto split: option.splits cval.splits)

definition incomparable :: "string list \<Rightarrow> string list \<Rightarrow> bool" where
  "incomparable ks ls \<longleftrightarrow> take (length ks) ls \<noteq> ks \<and> take (length ls) ks \<noteq> ls"

lemma incomparable_Cons: "incomparable (k # ks) (l # ls) \<longleftrightarrow> k \<noteq> l \<or> incomparable ks ls"
  by (auto simp: incomparable_def)

lemma at_path_set_other:
  "incomparable ks ls \<Longrightarrow> at_path (ObjV t (set_parts fs ks v)) ls = at_path (ObjV t fs) ls"
proof (induction fs ks v arbitrary: t ls rule: set_parts.induct)
  case (2 fs k v)
  then show ?case
    by (cases ls) (auto simp: incomparable_def)
next
  case (3 fs k k' ks v)
  obtain l ls' where ls: "ls = l # ls'"
    using "3.prems" by (cases ls) (auto simp: incomparable_def)
  show ?case
  proof (cases "l = k")
    case False
    then show ?thesis
      by (simp add: ls split: option.split cval.split)
  next
    case True
    then have inc: "incomparable (k' # ks) ls'"
      using "3.prems" by (simp add: ls incomparable_Cons)
    then have ne: "ls' \<noteq> []"
      by (auto simp: incomparable_def)
    have none: "at_path (ObjV None []) ls' = None"
      using ne by (cases ls') simp_all
    have other: "at_path v ls' = None" if "\<forall>t m. v \<noteq> ObjV t m" for v
      using at_path_nonobject[OF that ne] .
    show ?thesis
      using "3.IH" inc none other by (auto simp: ls True split: option.split cval.split)
  qed
qed (simp add: incomparable_def)

text \<open>A value written to a path is read back from it, and what lies neither above nor below the path is untouched.\<close>

theorem set_then_get:
  assumes "path_parts p \<noteq> []" "list_all isSafeKey (path_parts p)" "list_all isSafeKey (path_parts q)"
    "incomparable (path_parts p) (path_parts q)" "at_path (ObjV None fs) (path_parts q) = Some w"
  shows "getByPath (ObjV None (setByPath fs p v)) p = v \<and> getByPath (ObjV None (setByPath fs p v)) q = w"
  using assms at_path_set_parts[of "path_parts p" None fs v] at_path_set_other[OF assms(4), of None fs v]
  by (simp add: getByPath_def setByPath_def at_path_get)

section \<open>Environment variables\<close>

lemma foldl_set_other:
  "\<forall>(q, w) \<in> set es. incomparable (path_parts q) ls \<Longrightarrow>
    at_path (ObjV None (foldl (\<lambda>out (p, v). setByPath out p v) fs es)) ls = at_path (ObjV None fs) ls"
  by (induction es arbitrary: fs) (auto simp: setByPath_def at_path_set_other split: prod.splits)

text \<open>A variable's value is found at its path, unless a later variable writes above or below it.\<close>

theorem env_variable_found:
  assumes "env_entry opts (name, Some raw) = Some (p, v)" "path_parts p \<noteq> []" "list_all isSafeKey (path_parts p)"
    "list_all (\<lambda>e. case env_entry opts e of None \<Rightarrow> True | Some (q, w) \<Rightarrow> incomparable (path_parts q) (path_parts p)) later"
  shows "getByPath (ObjV None (envSource opts (before @ (name, Some raw) # later))) p = v"
proof -
  let ?es = "List.map_filter (env_entry opts) later"
  have "\<forall>(q, w) \<in> set ?es. incomparable (path_parts q) (path_parts p)"
    using assms(4) by (auto simp: map_filter_def list_all_iff split: option.splits prod.splits)
  note other = foldl_set_other[OF this]
  have "at_path (ObjV None (setByPath fs p v)) (path_parts p) = Some v" for fs
    using at_path_set_parts[OF assms(2)] assms(3) by (simp add: setByPath_def)
  then have "at_path (ObjV None (foldl (\<lambda>out (p, v). setByPath out p v) (setByPath fs p v) ?es)) (path_parts p) = Some v" for fs
    unfolding other .
  moreover have "envSource opts (before @ (name, Some raw) # later) =
      foldl (\<lambda>out (p, v). setByPath out p v) (setByPath (envSource opts before) p v) ?es"
    using assms(1) by (simp add: envSource_def map_filter_def)
  ultimately show ?thesis
    using assms(3) by (simp add: getByPath_def at_path_get)
qed

section \<open>Profile files\<close>

lemma split_on_append: "c \<notin> set f \<Longrightarrow> split_on c (d @ c # f) = split_on c d @ [f]"
proof (induction d)
  case (Cons x d)
  then show ?case
    using split_on_nonempty[of c d] by (cases "split_on c d") (auto split: list.split)
qed (simp add: split_on_none)

lemma resolve_last: "f \<notin> {[], ''.'', ''..''} \<Longrightarrow> resolve_segments ab acc (ss @ [f]) = resolve_segments ab acc ss @ [f]"
  by (induction ab acc ss rule: resolve_segments.induct) auto

lemma extname_no_slash: "CHR ''/'' \<notin> set (extname s)"
  by (auto simp: extname_def basename_def Let_def dest: set_takeWhileD)

lemma dirname_ne: "dirname s \<noteq> []"
proof -
  define r where "r = dropWhile (\<lambda>c. c \<noteq> CHR ''/'') (rev (strip_slashes s))"
  show ?thesis
    unfolding dirname_def r_def[symmetric] Let_def by (cases r; cases "tl r") auto
qed

lemma join_with_last: "f \<noteq> [] \<Longrightarrow> join_with sep (ss @ [f]) \<noteq> []"
  by (induction ss rule: induct_list012) (auto simp: join_with_Cons)

lemma join_path_file:
  assumes "d \<noteq> []" "CHR ''/'' \<notin> set f" "f \<notin> {[], ''.'', ''..''}"
  shows "join_path d f = (if hd d = CHR ''/'' then ''/'' else '''') @
    join_with ''/'' (resolve_segments (hd d = CHR ''/'') [] (split_on (CHR ''/'') d) @ [f])"
  using assms join_with_last[of f] by (simp add: join_path_def Let_def split_on_append resolve_last)

text \<open>A profile's file lies in the directory of the base file, whatever the profile is called.\<close>

theorem profile_file_in_directory:
  assumes "profileConfigPath file profile = Inr path"
  shows "let absolute = (hd (dirname file) = CHR ''/''); dir = resolve_segments absolute [] (split_on (CHR ''/'') (dirname file));
             name = profile @ ''.config'' @ extname file
         in path = (if absolute then ''/'' else '''') @ join_with ''/'' (dir @ [name]) \<and> CHR ''/'' \<notin> set name"
proof -
  let ?name = "profile @ ''.config'' @ extname file"
  have ok: "profile \<noteq> []" "CHR ''/'' \<notin> set profile" and path: "path = join_path (dirname file) ?name"
    using assms by (auto simp: profileConfigPath_def assertProfileName_def split: if_splits)
  then have name: "CHR ''/'' \<notin> set ?name" "?name \<notin> {[], ''.'', ''..''}"
    using extname_no_slash by (auto simp: Cons_eq_append_conv append_eq_Cons_conv)
  show ?thesis
    unfolding Let_def path join_path_file[OF dirname_ne name] using name(1) by (intro conjI refl)
qed


section \<open>Loading\<close>

text \<open>The graphs the sources give, when they all give one at once.\<close>

definition gives :: "string list \<Rightarrow> config_source \<Rightarrow> graph \<times> nat \<Rightarrow> bool" where
  "gives sel s g \<longleftrightarrow> (case g of (h, a) \<Rightarrow> cs_load s sel = Now (Inr (h, a)) \<and> graph_ok h)"

lemma merge_sync_lookup:
  "list_all2 (gives sel) ss gs \<Longrightarrow> merge_sync sel ss merged = Inr m \<Longrightarrow> ks \<noteq> [] \<Longrightarrow> list_all isSafeKey ks \<Longrightarrow>
    seen_at m ks = foldl (\<lambda>v (h, a). overlay v (source_at h (GObj a) ks)) (seen_at merged ks) gs"
proof (induction ss gs arbitrary: merged rule: list_all2_induct)
  case (Cons s ss g gs)
  obtain h a where g: "g = (h, a)" "cs_load s sel = Now (Inr (h, a))" "graph_ok h"
    using Cons.hyps(1) by (cases g) (auto simp: gives_def)
  obtain m1 where m1: "deepMerge h DEFAULT_MAX_OBJECT_DEPTH merged a = Inr m1" "merge_sync sel ss m1 = Inr m"
    using Cons.prems(1) g(2) by (auto simp: rbind_eq_Inr)
  have "seen_at m1 ks = overlay (seen_at merged ks) (source_at h (GObj a) ks)"
    using m1(1) g(3) Cons.prems(2,3) merge_lookup(1)[of h "Suc DEFAULT_MAX_OBJECT_DEPTH" merged a "[]" m1 _ ks]
    by (auto simp: deepMerge_def rbind_eq_Inr)
  then show ?case
    using Cons.IH[OF m1(2) Cons.prems(2,3)] by (simp add: g(1))
qed simp

text \<open>At every path the last source that says something there decides, and the defaults where none does.\<close>

theorem later_source_wins:
  assumes "list_all2 (gives sel) (lo_sources opts) gs" "lo_schema opts = None" "select_profiles (lo_profiles opts) selected = Inr sel"
    "loadConfigSync opts selected = (Inr m, selected1)" "ks \<noteq> []" "list_all isSafeKey ks"
  shows "map_option shape (at_path (ObjV None m) ks) =
      foldl (\<lambda>v (h, a). overlay v (source_at h (GObj a) ks)) (map_option shape (at_path (ObjV None (lo_defaults opts)) ks)) gs \<and>
    selected1 = selected"
  using merge_sync_lookup[OF assms(1) _ assms(5,6), of "lo_defaults opts" m] assms(2-4)
  by (auto simp: loadConfigSync_def seen_at_def rbind_eq_Inr apply_schema_def)

definition only_call :: "nat \<Rightarrow> load_call \<Rightarrow> string list \<Rightarrow> load_state" where
  "only_call i c sel = \<lparr>ls_selected = sel, ls_calls = [(i, c)]\<rparr>"

lemma step_only: "load_step (Resume i) (only_call i c sel) = (case loadConfig_resume c sel of (c', sel') \<Rightarrow> only_call i c' sel')"
  by (simp add: load_step_def only_call_def split: prod.splits)

lemma run_Cons: "load_run (e # es) s = load_run es (load_step e s)"
  by (simp add: load_run_def)

lemma run_sources:
  assumes "merge_sync sel ss merged = Inr m"
  shows "load_run (replicate (length ss) (Resume i)) (only_call i \<lparr>lc_phase = next_source sel sch ss merged, lc_schema = sch, lc_previous = prev\<rparr> sel) =
    only_call i \<lparr>lc_phase = Finished (apply_schema sch m), lc_schema = sch, lc_previous = prev\<rparr> sel"
  using assms
proof (induction ss arbitrary: merged)
  case (Cons s ss)
  obtain h a m1 where s: "cs_load s sel = Now (Inr (h, a))" "deepMerge h DEFAULT_MAX_OBJECT_DEPTH merged a = Inr m1" "merge_sync sel ss m1 = Inr m"
    using Cons.prems by (auto simp: rbind_eq_Inr split: loaded.splits)
  then show ?case
    using Cons.IH[OF s(3)] by (simp add: run_Cons step_only loadConfig_resume_def)
qed (simp add: load_run_def)

lemma run_append: "load_run (es @ fs) s = load_run fs (load_run es s)"
  by (simp add: load_run_def)

text \<open>An asynchronous load that nothing overlaps returns, after one step per source and one to restore the selection,
  what the synchronous load returns, and leaves the selected profiles as they were.\<close>

theorem async_load_agrees_with_sync:
  assumes "loadConfigSync opts selected = (Inr m, selected1)"
  shows "load_run (Begin i opts # replicate (Suc (length (lo_sources opts))) (Resume i)) \<lparr>ls_selected = selected, ls_calls = []\<rparr> =
    \<lparr>ls_selected = selected, ls_calls = [(i, \<lparr>lc_phase = Settled (Inr m), lc_schema = lo_schema opts,
       lc_previous = map_option (\<lambda>_. selected) (lo_profiles opts)\<rparr>)]\<rparr>"
proof -
  obtain sel m1 where sel: "select_profiles (lo_profiles opts) selected = Inr sel"
      and m1: "merge_sync sel (lo_sources opts) (lo_defaults opts) = Inr m1" "apply_schema (lo_schema opts) m1 = Inr m"
    using assms by (auto simp: loadConfigSync_def rbind_eq_Inr)
  have begun: "load_step (Begin i opts) \<lparr>ls_selected = selected, ls_calls = []\<rparr> = only_call i \<lparr>lc_phase =
      next_source sel (lo_schema opts) (lo_sources opts) (lo_defaults opts), lc_schema = lo_schema opts,
      lc_previous = map_option (\<lambda>_. selected) (lo_profiles opts)\<rparr> sel"
    by (simp add: load_step_def loadConfig_begin_def sel only_call_def)
  have restored: "nullish (map_option (\<lambda>_. selected) (lo_profiles opts)) sel = selected"
    using sel by (cases "lo_profiles opts") (simp_all add: select_profiles_def)
  have "replicate (Suc (length (lo_sources opts))) (Resume i) = replicate (length (lo_sources opts)) (Resume i) @ [Resume i]"
    by (simp add: replicate_append_same)
  then show ?thesis
    unfolding run_Cons begun
    by (simp only: run_append run_sources[OF m1(1)] m1(2))
      (simp add: run_Cons step_only loadConfig_resume_def restored load_run_def, simp add: only_call_def)
qed

definition slow :: config_source where
  "slow = \<lparr>cs_name = None, cs_load = (\<lambda>_. Later (Inr ((\<lambda>_. []), 0)))\<rparr>"

definition slow_load :: "string \<Rightarrow> load_options" where
  "slow_load profile = \<lparr>lo_sources = [slow], lo_defaults = [], lo_schema = None, lo_profiles = Some [profile]\<rparr>"

lemma merge_nothing: "deepMerge (\<lambda>_. []) DEFAULT_MAX_OBJECT_DEPTH [] 0 = Inr []"
  by (simp add: deepMerge_def DEFAULT_MAX_OBJECT_DEPTH_def numeral_eq_Suc)

text \<open>Two loads that overlap restore each other's selection: when both have settled, the profiles of the first stay
  selected for the whole process.\<close>

theorem overlapped_loads_leak_profile:
  "let s = load_run [Begin 1 (slow_load ''dev''), Begin 2 (slow_load ''test''), Resume 1, Resume 1, Resume 2, Resume 2]
         \<lparr>ls_selected = [], ls_calls = []\<rparr>
   in map (\<lambda>(i, c). lc_phase c) (ls_calls s) = [Settled (Inr []), Settled (Inr [])] \<and> ls_selected s = [''dev'']"
  by (simp add: load_run_def load_step_def loadConfig_begin_def loadConfig_resume_def slow_load_def slow_def select_profiles_def
      assertProfileName_def trim_def is_space_def code_def starts_with_def label_of_def apply_schema_def merge_nothing Let_def)

section \<open>Witnesses\<close>

definition layer :: graph where
  "layer a = (if a = 0 then [(''db'', GObj 1), (''__proto__'', GObj 1)] else if a = 1 then [(''port'', GVal (NumV 5432))] else [])"

definition base_fields :: fields where
  "base_fields = [(''db'', ObjV None [(''host'', StrV ''h''), (''port'', NumV 1)])]"

lemma layer_ok: "graph_ok layer" "values_clean layer"
  by (auto simp: graph_ok_def values_clean_def layer_def)

lemma layer_merged:
  "deepMerge layer DEFAULT_MAX_OBJECT_DEPTH base_fields 0 =
    Inr [(''db'', ObjV None [(''host'', StrV ''h''), (''port'', NumV 5432)])]"
  by (simp add: deepMerge_def layer_def base_fields_def isSafeKey_def DANGEROUS_KEYS_def existing_fields_def
      DEFAULT_MAX_OBJECT_DEPTH_def numeral_eq_Suc)

lemma merge_holds_source_over_target_witness:
  "map_option shape (at_path (ObjV None [(''db'', ObjV None [(''host'', StrV ''h''), (''port'', NumV 5432)])]) [''db'', ''port'']) =
    overlay (map_option shape (at_path (ObjV None base_fields) [''db'', ''port''])) (source_at layer (GObj 0) [''db'', ''port'']) \<and>
   source_at layer (GObj 0) [''db'', ''port''] = Value (Some (NumV 5432))"
  using merge_holds_source_over_target[OF layer_merged layer_ok(1), of "[''db'', ''port'']"]
  by (simp add: isSafeKey_def DANGEROUS_KEYS_def layer_def)

lemma merge_plants_no_prototype_key_witness: "clean (ObjV None [(''db'', ObjV None [(''host'', StrV ''h''), (''port'', NumV 5432)])])"
  by (rule merge_plants_no_prototype_key[OF layer_merged layer_ok(2)])
    (simp add: base_fields_def isSafeKey_def DANGEROUS_KEYS_def)

lemma set_then_get_witness:
  "getByPath (ObjV None (setByPath base_fields ''db.host'' Null)) ''db.host'' = Null \<and>
   getByPath (ObjV None (setByPath base_fields ''db.host'' Null)) ''db.port'' = NumV 1"
  by (rule set_then_get) (simp_all add: path_parts_def isSafeKey_def DANGEROUS_KEYS_def incomparable_def base_fields_def)

lemma env_variable_found_witness:
  "getByPath (ObjV None (envSource (default_env_options\<lparr>eo_prefix := ''APP_''\<rparr>)
     [(''APP_PORT'', Some ''80''), (''APP_DB__MAX_POOL'', Some ''12''), (''HOME'', Some ''/'')])) ''db.maxPool'' = NumV 12"
proof -
  let ?opts = "default_env_options\<lparr>eo_prefix := ''APP_''\<rparr>"
  have "env_entry ?opts (''APP_DB__MAX_POOL'', Some ''12'') = Some (''db.maxPool'', NumV 12)" "path_parts ''db.maxPool'' \<noteq> []"
    "list_all isSafeKey (path_parts ''db.maxPool'')"
    "list_all (\<lambda>e. case env_entry ?opts e of None \<Rightarrow> True | Some (q, w) \<Rightarrow> incomparable (path_parts q) (path_parts ''db.maxPool''))
       [(''HOME'', Some ''/'')]"
    by code_simp+
  from env_variable_found[OF this, of "[(''APP_PORT'', Some ''80'')]"] show ?thesis
    by simp
qed

lemma profile_file_in_directory_witness:
  "''conf/dev.config.yaml'' = join_with ''/'' ([''conf''] @ [''dev'' @ ''.config'' @ ''.yaml'']) \<and>
   (case profileConfigPath ''./conf//app.yaml'' ''dev'' of Inr p \<Rightarrow> p = ''conf/dev.config.yaml'' | _ \<Rightarrow> False)"
proof -
  have p: "profileConfigPath ''./conf//app.yaml'' ''dev'' = Inr ''conf/dev.config.yaml''" "dirname ''./conf//app.yaml'' = ''./conf/''"
      "extname ''./conf//app.yaml'' = ''.yaml''" "resolve_segments False [] (split_on (CHR ''/'') ''./conf/'') = [''conf'']"
    by code_simp+
  show ?thesis
    using profile_file_in_directory[OF p(1)] p by (simp add: Let_def)
qed

definition two_layers :: load_options where
  "two_layers = \<lparr>lo_sources = [\<lparr>cs_name = Some ''object'', cs_load = (\<lambda>_. Now (Inr (layer, 0)))\<rparr>], lo_defaults = base_fields,
     lo_schema = None, lo_profiles = None\<rparr>"

lemma two_layers_loaded:
  "loadConfigSync two_layers [] = (Inr [(''db'', ObjV None [(''host'', StrV ''h''), (''port'', NumV 5432)])], [])"
  by (simp add: loadConfigSync_def two_layers_def select_profiles_def layer_merged apply_schema_def)

lemma later_source_wins_witness:
  "map_option shape (at_path (ObjV None [(''db'', ObjV None [(''host'', StrV ''h''), (''port'', NumV 5432)])]) [''db'', ''host'']) =
    overlay (map_option shape (at_path (ObjV None base_fields) [''db'', ''host''])) (source_at layer (GObj 0) [''db'', ''host''])"
proof -
  have "list_all2 (gives []) (lo_sources two_layers) [(layer, 0)]" "lo_schema two_layers = None"
      "select_profiles (lo_profiles two_layers) [] = Inr []" "list_all isSafeKey [''db'', ''host'']"
    by (simp_all add: two_layers_def gives_def layer_ok select_profiles_def isSafeKey_def DANGEROUS_KEYS_def)
  then show ?thesis
    using later_source_wins[OF _ _ _ two_layers_loaded, of "[]" "[(layer, 0)]" "[''db'', ''host'']"] by (simp add: two_layers_def)
qed

lemma async_load_agrees_with_sync_witness:
  "ls_selected (load_run (Begin 7 two_layers # replicate 2 (Resume 7)) \<lparr>ls_selected = [], ls_calls = []\<rparr>) = []"
  using async_load_agrees_with_sync[OF two_layers_loaded, of 7] by (simp add: two_layers_def numeral_2_eq_2)

end
