(* ===== verification/Keys.thy ===== *)
theory Keys imports Jws AuthStores begin

text \<open>
  Signing keys and signed tokens: \<^verbatim>\<open>di-framework-auth/src/tokens/\<close> \<^verbatim>\<open>jwk.ts\<close>, \<^verbatim>\<open>keystore.ts\<close> and the signing
  half of \<^verbatim>\<open>jwt.ts\<close>, over the in-memory key store of \<open>AuthStores\<close>.

  WebCrypto (\<^verbatim>\<open>importKey\<close>, \<^verbatim>\<open>digest\<close>, the pair that \<^verbatim>\<open>generateKey\<close> returns) and \<^verbatim>\<open>JSON.stringify\<close> are
  parameters.  The cache of imported keys, which remembers the result of a function of the record, is left out,
  and so is the sharing of one bootstrap by concurrent first calls.  The lemmas show what a published key
  contains, that a key's name depends on its public part only, and that a token verifies across a rotation.
\<close>

section \<open>JSON web keys\<close>

record 'k key_env =
  ke_import :: "json_object \<Rightarrow> import_params \<Rightarrow> bool \<Rightarrow> 'k option"
  ke_sha256 :: "byte list \<Rightarrow> byte list"
  ke_stringify :: "json_object \<Rightarrow> jsstr"
  ke_supported :: "signature_algorithm \<Rightarrow> bool"

datatype key_error =
    NoThumbprint | MissingMember string | SymmetricAlgorithm | UnsupportedAlgorithm | KtyMismatch | CurveMismatch
  | ImportRejected | NotSymmetric | SecretTooShort nat | NoCurrentKey | UnknownKid | UnknownAlgorithm

definition member_of :: "json_object \<Rightarrow> string \<Rightarrow> json option" where
  "member_of j n = js_get j (js_str n)"

definition REQUIRED :: "(string \<times> string list) list" where
  "REQUIRED = [(''EC'', [''crv'', ''kty'', ''x'', ''y'']), (''RSA'', [''e'', ''kty'', ''n'']), (''oct'', [''k'', ''kty'']),
     (''OKP'', [''crv'', ''kty'', ''x''])]"

definition required_members :: "json_object \<Rightarrow> string list option" where
  "required_members j = (case member_of j ''kty'' of Some (JStr s) \<Rightarrow> map_of (map (apfst js_str) REQUIRED) s | _ \<Rightarrow> None)"

definition canonical_member :: "json_object \<Rightarrow> string \<Rightarrow> (key_error, jsstr \<times> json) result" where
  "canonical_member j n = (case member_of j n of Some (JStr s) \<Rightarrow> Inr (js_str n, JStr s) | _ \<Rightarrow> Inl (MissingMember n))"

definition jwkThumbprint :: "'k key_env \<Rightarrow> json_object \<Rightarrow> (key_error, jsstr) result" where
  "jwkThumbprint E j =
     (case required_members j of
        None \<Rightarrow> Inl NoThumbprint
      | Some ms \<Rightarrow> rbind (traverse (canonical_member j) ms)
          (\<lambda>canonical. Inr (base64UrlEncode (ke_sha256 E (TextEncoder_encode (ke_stringify E canonical))))))"

definition PRIVATE_MEMBERS :: "string list" where
  "PRIVATE_MEMBERS = [''d'', ''p'', ''q'', ''dp'', ''dq'', ''qi'', ''oth'', ''k'']"

definition toPublicJwk :: "json_object \<Rightarrow> json_object" where
  "toPublicJwk j = filter (\<lambda>(n, _). n \<notin> js_str ` set PRIVATE_MEMBERS) j"

text \<open>What the runtime generates: the exported private and public key.\<close>

record generated_pair =
  gp_kid :: jsstr
  gp_privateJwk :: json_object
  gp_publicJwk :: json_object

definition labelled :: "json_object \<Rightarrow> jsstr \<Rightarrow> signature_algorithm \<Rightarrow> json_object" where
  "labelled j kid a = js_set (js_str ''use'') (JStr (js_str ''sig''))
     (js_set (js_str ''alg'') (JStr (js_str (algorithm_name a))) (js_set (js_str ''kid'') (JStr kid) j))"

definition generateKeyPair :: "'k key_env \<Rightarrow> signature_algorithm \<Rightarrow> json_object \<times> json_object \<Rightarrow> (key_error, generated_pair) result" where
  "generateKeyPair E a pair =
     (if sp_kty (algorithmSpec a) = ''oct'' then Inl SymmetricAlgorithm
      else if \<not> ke_supported E a then Inl UnsupportedAlgorithm
      else case pair of (private, public) \<Rightarrow>
        rbind (jwkThumbprint E public) (\<lambda>kid.
          Inr \<lparr>gp_kid = kid, gp_privateJwk = labelled private kid a, gp_publicJwk = labelled public kid a\<rparr>))"

definition importJwk :: "'k key_env \<Rightarrow> json_object \<Rightarrow> signature_algorithm \<Rightarrow> bool \<Rightarrow> (key_error, 'k) result" where
  "importJwk E j a for_signing =
     (let spec = algorithmSpec a
      in if member_of j ''kty'' \<noteq> Some (JStr (js_str (sp_kty spec))) then Inl KtyMismatch
         else if (case (sp_curve spec, member_of j ''crv'') of (Some c, Some (JStr s)) \<Rightarrow> s \<noteq> js_str c | _ \<Rightarrow> False) then Inl CurveMismatch
         else (case ke_import E j (sp_importParams spec) for_signing of None \<Rightarrow> Inl ImportRejected | Some k \<Rightarrow> Inr k))"

text \<open>The shortest secret allowed, in bytes, is the length of the digest; \<open>import_raw\<close> is \<^verbatim>\<open>importKey('raw', ...)\<close>.\<close>

definition digest_bytes :: "digest \<Rightarrow> nat" where
  "digest_bytes d = (case d of SHA_256 \<Rightarrow> 32 | SHA_384 \<Rightarrow> 48 | SHA_512 \<Rightarrow> 64)"

definition importHmacKey :: "(byte list \<Rightarrow> import_params \<Rightarrow> 'k option) \<Rightarrow> byte list \<Rightarrow> signature_algorithm \<Rightarrow> (key_error, 'k) result" where
  "importHmacKey import_raw secret a =
     (let spec = algorithmSpec a
      in if sp_kty spec \<noteq> ''oct'' then Inl NotSymmetric
         else if length secret < digest_bytes (sp_digest spec) then Inl (SecretTooShort (length secret))
         else (case import_raw secret (sp_importParams spec) of None \<Rightarrow> Inl ImportRejected | Some k \<Rightarrow> Inr k))"

section \<open>The key service\<close>

type_synonym keys = "json_object key_store"

definition ascii_of :: "jsstr \<Rightarrow> string" where
  "ascii_of s = map (\<lambda>u. char_of (unat u)) s"

definition algorithm_of_record :: "json_object signing_key \<Rightarrow> (key_error, signature_algorithm) result" where
  "algorithm_of_record r = (case map_of ALGORITHMS (sk_algorithm r) of None \<Rightarrow> Inl UnknownAlgorithm | Some a \<Rightarrow> Inr a)"

definition importFor :: "'k key_env \<Rightarrow> json_object signing_key \<Rightarrow> bool \<Rightarrow> (key_error, 'k) result" where
  "importFor E r for_signing =
     rbind (algorithm_of_record r) (\<lambda>a. importJwk E (if for_signing then sk_privateJwk r else sk_publicJwk r) a for_signing)"

text \<open>Creating and saving a key: the store reads the clock itself.\<close>

definition create_key ::
  "'k key_env \<Rightarrow> signature_algorithm \<Rightarrow> json_object \<times> json_object \<Rightarrow> int \<Rightarrow> keys \<Rightarrow> (key_error, json_object signing_key \<times> keys) result" where
  "create_key E a pair now st =
     rbind (generateKeyPair E a pair) (\<lambda>g.
       let r = \<lparr>sk_kid = ascii_of (gp_kid g), sk_algorithm = algorithm_name a, sk_privateJwk = gp_privateJwk g,
                sk_publicJwk = gp_publicJwk g, sk_createdAt = now, sk_notAfter = None, sk_expiresAt = None\<rparr>
       in Inr (r, key_save now r st))"

definition signingKey ::
  "'k key_env \<Rightarrow> signature_algorithm \<Rightarrow> json_object \<times> json_object \<Rightarrow> int \<Rightarrow> keys \<Rightarrow>
    (key_error, (json_object signing_key \<times> 'k) \<times> keys) result" where
  "signingKey E a pair now st =
     rbind (case key_current st of Some r \<Rightarrow> Inr (r, st) | None \<Rightarrow> create_key E a pair now st)
       (\<lambda>(r, st1). rbind (importFor E r True) (\<lambda>k. Inr ((r, k), st1)))"

definition falsy :: "json option \<Rightarrow> bool" where
  "falsy v \<longleftrightarrow> v \<in> {None, Some JNull, Some (JBool False), Some (JNum 0), Some (JStr [])}"

definition find_kid :: "json option \<Rightarrow> keys \<Rightarrow> json_object signing_key option" where
  "find_kid kid st = (case kid of Some (JStr s) \<Rightarrow> map_of (map (apfst js_str) (ks_keys st)) s | _ \<Rightarrow> None)"

definition verificationKey :: "'k key_env \<Rightarrow> keys \<Rightarrow> jws_header \<Rightarrow> (key_error, 'k) result" where
  "verificationKey E st header =
     (let kid = js_get (jh_members header) (js_str ''kid'')
      in if falsy kid
         then (case key_current st of None \<Rightarrow> Inl NoCurrentKey | Some r \<Rightarrow> importFor E r False)
         else (case find_kid kid st of None \<Rightarrow> Inl UnknownKid | Some r \<Rightarrow> importFor E r False))"

definition publicJwks :: "int \<Rightarrow> keys \<Rightarrow> json_object list" where
  "publicJwks now st = map (\<lambda>r. toPublicJwk (sk_publicJwk r)) (key_all now st)"

definition rotate_keys ::
  "'k key_env \<Rightarrow> signature_algorithm \<Rightarrow> int \<Rightarrow> json_object \<times> json_object \<Rightarrow> int \<Rightarrow> keys \<Rightarrow>
    (key_error, json_object signing_key \<times> keys) result" where
  "rotate_keys E a retirementSeconds pair at' st =
     rbind (create_key E a pair at' st) (\<lambda>(new, st1).
       case key_current st of
         None \<Rightarrow> Inr (new, st1)
       | Some old \<Rightarrow>
           if sk_kid old = sk_kid new then Inr (new, st1)
           else Inr (new, key_save at' (old\<lparr>sk_notAfter := Some at', sk_expiresAt := Some (at' + retirementSeconds)\<rparr>) st1))"

section \<open>Signing a JWT\<close>

datatype jti_choice = NoJti | GivenJti jsstr | RandomJti

record 'k sign_jwt_options =
  sj_algorithm :: signature_algorithm
  sj_key :: 'k
  sj_kid :: "jsstr option"
  sj_issuer :: "jsstr option"
  sj_audience :: "one_or_many option"
  sj_subject :: "jsstr option"
  sj_expiresInSeconds :: "int option"
  sj_notBeforeSeconds :: "int option"
  sj_jti :: jti_choice

definition set_claim :: "string \<Rightarrow> json option \<Rightarrow> json_object \<Rightarrow> json_object" where
  "set_claim n v c = (case v of None \<Rightarrow> c | Some x \<Rightarrow> js_set (js_str n) x c)"

definition json_of_one_or_many :: "one_or_many \<Rightarrow> json" where
  "json_of_one_or_many v = (case v of One s \<Rightarrow> JStr s | Many ss \<Rightarrow> JArr (map JStr ss))"

definition jwt_payload :: "json_object \<Rightarrow> 'k sign_jwt_options \<Rightarrow> int \<Rightarrow> jsstr \<Rightarrow> json_object" where
  "jwt_payload claims opts at' uuid =
     (let c = js_set (js_str ''iat'') (JNum (of_int at')) claims;
          c1 = set_claim ''iss'' (map_option JStr (sj_issuer opts)) c;
          c2 = set_claim ''aud'' (map_option json_of_one_or_many (sj_audience opts)) c1;
          c3 = set_claim ''sub'' (map_option JStr (sj_subject opts)) c2;
          c4 = set_claim ''exp'' (map_option (\<lambda>n. JNum (of_int (at' + n))) (sj_expiresInSeconds opts)) c3;
          c5 = set_claim ''nbf'' (map_option (\<lambda>n. JNum (of_int (at' + n))) (sj_notBeforeSeconds opts)) c4
      in case sj_jti opts of NoJti \<Rightarrow> c5 | GivenJti s \<Rightarrow> js_set (js_str ''jti'') (JStr s) c5
       | RandomJti \<Rightarrow> js_set (js_str ''jti'') (JStr uuid) c5)"

definition jwt_signing :: "'k sign_jwt_options \<Rightarrow> 'k sign_jws_options" where
  "jwt_signing opts = \<lparr>sg_algorithm = sj_algorithm opts, sg_key = sj_key opts, sg_kid = sj_kid opts, sg_typ = Some (js_str ''JWT''), sg_header = []\<rparr>"

definition signJwt :: "'k key_ops \<Rightarrow> (json_object \<Rightarrow> jsstr) \<Rightarrow> json_object \<Rightarrow> 'k sign_jwt_options \<Rightarrow> int \<Rightarrow> jsstr \<Rightarrow> jsstr" where
  "signJwt K stringify claims opts at' uuid =
     signJws K stringify (TextEncoder_encode (stringify (jwt_payload claims opts at' uuid))) (jwt_signing opts)"


section \<open>What is published\<close>

lemma js_get_filter: "js_get (filter (\<lambda>(n, _). P n) j) m = (if P m then js_get j m else None)"
  by (induction j) auto

lemma member_of_public: "member_of (toPublicJwk j) n = (if n \<in> set PRIVATE_MEMBERS then None else member_of j n)"
  unfolding member_of_def toPublicJwk_def js_get_filter by auto

text \<open>A published key has none of the private members and every other member of the key.\<close>

theorem public_jwk_keeps_no_secret:
  "member_of (toPublicJwk j) n = (if n \<in> {''d'', ''p'', ''q'', ''dp'', ''dq'', ''qi'', ''oth'', ''k''} then None else member_of j n)"
  by (simp add: member_of_public PRIVATE_MEMBERS_def)

lemma required_public:
  assumes "required_members j = Some ms" "n \<in> set ms" "member_of j ''kty'' \<noteq> Some (JStr (js_str ''oct''))"
  shows "n \<notin> set PRIVATE_MEMBERS"
proof -
  obtain s where s: "member_of j ''kty'' = Some (JStr s)" "map_of (map (apfst js_str) REQUIRED) s = Some ms"
    using assms(1) by (auto simp: required_members_def split: option.splits json.splits)
  then have "ms \<in> {[''crv'', ''kty'', ''x'', ''y''], [''e'', ''kty'', ''n''], [''crv'', ''kty'', ''x'']}"
    using assms(3) by (simp add: REQUIRED_def split: if_splits)
  then show ?thesis
    using assms(2) by (auto simp: PRIVATE_MEMBERS_def)
qed

text \<open>The name of an asymmetric key is that of its public part: both ends of a pair carry the same one.\<close>

theorem thumbprint_of_public_part:
  assumes "member_of j ''kty'' \<noteq> Some (JStr (js_str ''oct''))"
  shows "jwkThumbprint E (toPublicJwk j) = jwkThumbprint E j"
proof -
  have req: "required_members (toPublicJwk j) = required_members j"
    by (simp add: required_members_def member_of_public PRIVATE_MEMBERS_def)
  have "canonical_member (toPublicJwk j) n = canonical_member j n" if "required_members j = Some ms" "n \<in> set ms" for ms n
    using required_public[OF that assms] by (simp add: canonical_member_def member_of_public)
  then show ?thesis
    by (auto simp: jwkThumbprint_def req intro!: arg_cong[where f = "\<lambda>x. rbind x _"] traverse_cong [OF refl] split: option.split)
qed

section \<open>Tokens and rotation\<close>

lemma jwt_signing_simps [simp]:
  "sg_algorithm (jwt_signing opts) = sj_algorithm opts" "sg_key (jwt_signing opts) = sj_key opts"
  "plain_header (sg_header (jwt_signing opts))"
  by (simp_all add: jwt_signing_def plain_header_def)

lemma signing_header_kid:
  "js_get (signing_header (jwt_signing opts)) (js_str ''kid'') = map_option JStr (sj_kid opts)"
  by (simp add: signing_header_def jwt_signing_def set_present_def split: option.split)

lemma signed_jwt_verifies:
  assumes "signs_for K (sj_algorithm opts) (sj_key opts) public" "sj_algorithm opts \<in> set (vo_algorithms v)"
    and "json_text (stringify (signing_header (jwt_signing opts))) (JObj (signing_header (jwt_signing opts)))"
    and "json_text (stringify (jwt_payload claims opts at' uuid)) (JObj (jwt_payload claims opts at' uuid))"
    and "resolve_key (vo_key v) \<lparr>jh_alg = sj_algorithm opts, jh_members = signing_header (jwt_signing opts)\<rparr> = Inr public"
    and "0 \<le> tolerance_of v" "tolerance_of v \<le> 300"
    and "issuer_ok (vo_issuer v) (jwt_payload claims opts at' uuid)" "audience_ok (vo_audience v) (jwt_payload claims opts at' uuid)"
    and "subject_ok (vo_subject v) (jwt_payload claims opts at' uuid)"
    and "times_ok (vo_requireExpiry v) (vo_maxTokenAgeSeconds v) (tolerance_of v) now (jwt_payload claims opts at' uuid)"
  shows "verifyJwt K v now (signJwt K stringify claims opts at' uuid) =
    Inr (\<lparr>jh_alg = sj_algorithm opts, jh_members = signing_header (jwt_signing opts)\<rparr>, jwt_payload claims opts at' uuid)"
proof -
  let ?c = "jwt_payload claims opts at' uuid"
  obtain jws where jws: "verifyJws K (vo_algorithms v) (vo_key v) (signJwt K stringify claims opts at' uuid) = Inr jws"
      "vj_header jws = \<lparr>jh_alg = sj_algorithm opts, jh_members = signing_header (jwt_signing opts)\<rparr>"
      "vj_payload jws = TextEncoder_encode (stringify ?c)"
    using signed_token_verifies[of K "jwt_signing opts" public "vo_algorithms v" stringify "vo_key v" "TextEncoder_encode (stringify ?c)"] assms(1-3,5)
    unfolding signJwt_def by (cases "verifyJws K (vo_algorithms v) (vo_key v) (signJws K stringify (TextEncoder_encode (stringify ?c)) (jwt_signing opts))") auto
  have times: "check_expiry (vo_requireExpiry v) (tolerance_of v) now ?c = Inr ()" "check_not_before (tolerance_of v) now ?c = Inr ()"
      "check_issued_at (vo_maxTokenAgeSeconds v) (tolerance_of v) now ?c = Inr ()"
    using assms(11) check_times_ok by blast+
  have checks: "check_issuer (vo_issuer v) ?c = Inr ()" "check_audience (vo_audience v) ?c = Inr ()" "check_subject (vo_subject v) ?c = Inr ()"
    using assms(8-10) by (simp_all add: check_issuer_ok check_audience_ok check_subject_ok)
  show ?thesis
    using assms(6,7) times checks jws parse_json_text[OF assms(4)] by (simp add: verifyJwt_def tolerance_of_def Let_def)
qed


text \<open>Every key is stored under its own name, and no name is empty.\<close>

definition keys_named :: "keys \<Rightarrow> bool" where
  "keys_named st \<longleftrightarrow> js_wf (ks_keys st) \<and> (\<forall>k r. js_get (ks_keys st) k = Some r \<longrightarrow> sk_kid r = k \<and> k \<noteq> '''')"

lemma find_kid_js_str: "find_kid (Some (JStr (js_str kid))) st = js_get (ks_keys st) kid"
proof -
  have "map_of (map (apfst js_str) m) (js_str kid) = js_get m kid" for m :: "(string, json_object signing_key) jsmap"
    by (induction m) auto
  then show ?thesis
    by (simp add: find_kid_def)
qed

lemma verificationKey_named:
  assumes "js_get (jh_members h) (js_str ''kid'') = Some (JStr (js_str kid))" "kid \<noteq> ''''"
  shows "verificationKey E st h = (case js_get (ks_keys st) kid of None \<Rightarrow> Inl UnknownKid | Some r \<Rightarrow> importFor E r False)"
proof -
  have "\<not> falsy (js_get (jh_members h) (js_str ''kid''))"
    unfolding assms(1) using assms(2) by (simp add: falsy_def js_str_def)
  then show ?thesis
    unfolding verificationKey_def Let_def by (simp add: assms(1) find_kid_js_str)
qed

lemma create_key_ok:
  "create_key E a pair now st = Inr (r, st1) \<Longrightarrow>
    st1 = \<lparr>ks_keys = js_set (sk_kid r) r (ks_keys st), ks_current = Some (sk_kid r)\<rparr> \<and> sk_notAfter r = None"
  by (cases st) (auto simp: create_key_def Let_def rbind_eq_Inr key_save_def nonzero_def)

lemma rotate_keys_ok:
  assumes "rotate_keys E a ret pair t st = Inr (new, st2)" "key_current st = Some old" "sk_kid old \<noteq> sk_kid new" "t \<noteq> 0"
  shows "ks_current st2 = Some (sk_kid new)" "js_get (ks_keys st2) (sk_kid new) = Some new"
    "js_get (ks_keys st2) (sk_kid old) = Some (old\<lparr>sk_notAfter := Some t, sk_expiresAt := Some (t + ret)\<rparr>)"
proof -
  obtain st1 where st1: "create_key E a pair t st = Inr (new, st1)"
      "st2 = key_save t (old\<lparr>sk_notAfter := Some t, sk_expiresAt := Some (t + ret)\<rparr>) st1"
    using assms by (auto simp: rotate_keys_def rbind_eq_Inr split: if_splits)
  then show "ks_current st2 = Some (sk_kid new)" "js_get (ks_keys st2) (sk_kid new) = Some new"
    "js_get (ks_keys st2) (sk_kid old) = Some (old\<lparr>sk_notAfter := Some t, sk_expiresAt := Some (t + ret)\<rparr>)"
    using create_key_ok[OF st1(1)] assms(3,4) by (simp_all add: key_save_def nonzero_def)
qed

text \<open>Rotation overlaps: from then on the new key signs, while the old one still verifies what carries its name.\<close>

theorem rotation_overlaps:
  assumes "rotate_keys E a ret pair t st = Inr (new, st2)" "key_current st = Some old"
    "sk_kid old \<noteq> sk_kid new" "t \<noteq> 0" "sk_kid old \<noteq> ''''" "sk_kid new \<noteq> ''''"
    "js_get (jh_members h) (js_str ''kid'') = Some (JStr (js_str (sk_kid old)))"
  shows "key_current st2 = Some new \<and> verificationKey E st2 h = importFor E old False"
  using rotate_keys_ok[OF assms(1-4)] assms(5-7)
  by (simp add: key_current_def present_def verificationKey_named importFor_def algorithm_of_record_def)

text \<open>It never stops: the retired key drops out of the published set when its retirement is over, but the service
  itself goes on verifying with it.\<close>

theorem retired_key_verifies_for_ever:
  assumes "rotate_keys E a ret pair t st = Inr (new, st2)" "key_current st = Some old"
    "sk_kid old \<noteq> sk_kid new" "t \<noteq> 0" "sk_kid old \<noteq> ''''" "t + ret \<noteq> 0" "t + ret \<le> now"
    "js_get (jh_members h) (js_str ''kid'') = Some (JStr (js_str (sk_kid old)))" "keys_named st2"
  shows "sk_kid old \<notin> sk_kid ` set (key_all now st2) \<and> verificationKey E st2 h = importFor E old False"
proof -
  note rot = rotate_keys_ok[OF assms(1-4)]
  have "r = old\<lparr>sk_notAfter := Some t, sk_expiresAt := Some (t + ret)\<rparr>"
    if r: "r \<in> set (js_values (ks_keys st2))" "sk_kid r = sk_kid old" for r
  proof -
    have "js_wf (ks_keys st2)"
      using assms(9) by (simp add: keys_named_def)
    then obtain k where "js_get (ks_keys st2) k = Some r"
      using r(1) js_valuesE by metis
    then show ?thesis
      using assms(9) r(2) rot(3) by (auto simp: keys_named_def)
  qed
  then have "sk_kid old \<notin> sk_kid ` set (key_all now st2)"
    using assms(6,7) by (fastforce simp: key_all_def nonzero_def)
  then show ?thesis
    using rot assms(5,8) by (simp add: verificationKey_named importFor_def algorithm_of_record_def)
qed

text \<open>The key resolver the service gives to a verifier.\<close>

definition service_keys :: "'k key_env \<Rightarrow> keys \<Rightarrow> 'k key_source" where
  "service_keys E st = KeyResolver (\<lambda>h. case verificationKey E st h of Inr k \<Rightarrow> Some k | Inl _ \<Rightarrow> None)"

lemma signingKey_current:
  assumes "signingKey E a pair t0 st = Inr ((r, key), st1)" "sk_kid r \<noteq> ''''"
  shows "key_current st1 = Some r"
proof (cases "key_current st")
  case None
  then have "create_key E a pair t0 st = Inr (r, st1)"
    using assms(1) by (auto simp: signingKey_def rbind_eq_Inr)
  then show ?thesis
    using create_key_ok assms(2) by (fastforce simp: key_current_def present_def)
next
  case (Some r')
  then show ?thesis
    using assms(1) by (auto simp: signingKey_def rbind_eq_Inr)
qed

text \<open>A token signed under the current key verifies with the service's keys after a rotation, as long as its claims
  pass.\<close>

theorem token_survives_rotation:
  assumes "signingKey E a pair t0 st = Inr ((r, key), st1)" "rotate_keys E a ret pair' t st1 = Inr (new, st2)" "t \<noteq> 0"
    "sk_kid r \<noteq> ''''" "sk_kid r \<noteq> sk_kid new" "importFor E r False = Inr public"
    "sj_kid opts = Some (js_str (sk_kid r))" "signs_for K (sj_algorithm opts) (sj_key opts) public"
    "sj_algorithm opts \<in> set (vo_algorithms v)" "vo_key v = service_keys E st2" "0 \<le> tolerance_of v" "tolerance_of v \<le> 300"
    "json_text (stringify (signing_header (jwt_signing opts))) (JObj (signing_header (jwt_signing opts)))"
    "json_text (stringify (jwt_payload claims opts t0 uuid)) (JObj (jwt_payload claims opts t0 uuid))"
    "issuer_ok (vo_issuer v) (jwt_payload claims opts t0 uuid)" "audience_ok (vo_audience v) (jwt_payload claims opts t0 uuid)"
    "subject_ok (vo_subject v) (jwt_payload claims opts t0 uuid)"
    "times_ok (vo_requireExpiry v) (vo_maxTokenAgeSeconds v) (tolerance_of v) now (jwt_payload claims opts t0 uuid)"
  shows "map_sum id snd (verifyJwt K v now (signJwt K stringify claims opts t0 uuid)) = Inr (jwt_payload claims opts t0 uuid)"
proof -
  let ?h = "\<lparr>jh_alg = sj_algorithm opts, jh_members = signing_header (jwt_signing opts)\<rparr>"
  have "js_get (jh_members ?h) (js_str ''kid'') = Some (JStr (js_str (sk_kid r)))"
    using signing_header_kid[of opts] assms(7) by simp
  then have "verificationKey E st2 ?h = Inr public"
    using rotate_keys_ok(3)[OF assms(2) signingKey_current[OF assms(1,4)] assms(5,3)] assms(4,6) by (simp add: verificationKey_named importFor_def algorithm_of_record_def)
  then have "resolve_key (vo_key v) ?h = Inr public"
    by (simp add: assms(10) service_keys_def resolve_key_def)
  then show ?thesis
    using signed_jwt_verifies[OF assms(8,9,13,14) _ assms(11,12,15-18)] by simp
qed

section \<open>Witnesses\<close>

definition okp :: "string \<Rightarrow> json_object" where
  "okp x = [(js_str ''kty'', JStr (js_str ''OKP'')), (js_str ''crv'', JStr (js_str ''Ed25519'')), (js_str ''x'', JStr (js_str x))]"

definition okp_pair :: "string \<Rightarrow> json_object \<times> json_object" where
  "okp_pair x = (okp x @ [(js_str ''d'', JStr (js_str ''s''))], okp x)"

definition okp_header :: jsstr where
  "okp_header = js_str ''{\"alg\":\"EdDSA\",\"kid\":\"YQ\",\"typ\":\"JWT\"}''"

definition okp_claims :: jsstr where
  "okp_claims = js_str ''{\"iat\":100,\"exp\":160}''"

definition okp_text :: "json_object \<Rightarrow> jsstr" where
  "okp_text j = (case member_of j ''x'' of Some (JStr s) \<Rightarrow> s | _ \<Rightarrow> if member_of j ''alg'' = None then okp_claims else okp_header)"

definition okp_env :: "unit key_env" where
  "okp_env = \<lparr>ke_import = (\<lambda>_ _ _. Some ()), ke_sha256 = (\<lambda>b. b), ke_stringify = okp_text, ke_supported = (\<lambda>_. True)\<rparr>"

definition okp_crypto :: "unit key_ops" where
  "okp_crypto = \<lparr>ko_name = (\<lambda>_. Some ''Ed25519''), ko_sign = (\<lambda>_ _ m. m), ko_verify = (\<lambda>_ _ s m. Some (s = m))\<rparr>"

definition okp_record :: "string \<Rightarrow> string \<Rightarrow> int \<Rightarrow> json_object signing_key" where
  "okp_record x kid t = \<lparr>sk_kid = kid, sk_algorithm = ''EdDSA'', sk_privateJwk = labelled (fst (okp_pair x)) (js_str kid) EdDSA,
     sk_publicJwk = labelled (snd (okp_pair x)) (js_str kid) EdDSA, sk_createdAt = t, sk_notAfter = None, sk_expiresAt = None\<rparr>"

definition okp_keys :: keys where
  "okp_keys = \<lparr>ks_keys = [(''YQ'', okp_record ''a'' ''YQ'' 100)], ks_current = Some ''YQ''\<rparr>"

definition okp_rotated :: keys where
  "okp_rotated = \<lparr>ks_keys = [(''YQ'', (okp_record ''a'' ''YQ'' 100)\<lparr>sk_notAfter := Some 120, sk_expiresAt := Some 220\<rparr>), (''Yg'', okp_record ''b'' ''Yg'' 120)],
     ks_current = Some ''Yg''\<rparr>"

lemma okp_names: "base64UrlEncode (TextEncoder_encode (js_str ''a'')) = js_str ''YQ''" "base64UrlEncode (TextEncoder_encode (js_str ''b'')) = js_str ''Yg''"
  by (simp_all add: js_str_def TextEncoder_encode_def alpha_def ALPHABET_def utf8_bytes_def scalar_unit_def is_high_def is_low_def byte_of_def Let_def)

lemma okp_thumbprint: "jwkThumbprint okp_env (okp x) = Inr (base64UrlEncode (TextEncoder_encode (js_str x)))"
  by (simp add: jwkThumbprint_def required_members_def member_of_def okp_def canonical_member_def REQUIRED_def okp_env_def okp_text_def)

lemma okp_import: "importFor okp_env (okp_record x kid t) b = Inr ()"
  by (simp add: importFor_def algorithm_of_record_def okp_record_def ALGORITHMS_def importJwk_def member_of_def labelled_def okp_pair_def okp_def okp_env_def)

lemma okp_generated: "generateKeyPair okp_env EdDSA (okp_pair x) = Inr \<lparr>gp_kid = base64UrlEncode (TextEncoder_encode (js_str x)),
    gp_privateJwk = labelled (fst (okp_pair x)) (base64UrlEncode (TextEncoder_encode (js_str x))) EdDSA,
    gp_publicJwk = labelled (snd (okp_pair x)) (base64UrlEncode (TextEncoder_encode (js_str x))) EdDSA\<rparr>"
  using okp_thumbprint[of x] by (simp add: generateKeyPair_def okp_pair_def okp_env_def)

lemma ascii_of_names: "ascii_of (js_str ''YQ'') = ''YQ''" "ascii_of (js_str ''Yg'') = ''Yg''" "algorithm_name EdDSA = ''EdDSA''"
  by (simp_all add: ascii_of_def js_str_def algorithm_name_def ALGORITHMS_def) code_simp+

lemma okp_signing: "signingKey okp_env EdDSA (okp_pair ''a'') 100 keys_empty = Inr ((okp_record ''a'' ''YQ'' 100, ()), okp_keys)"
proof -
  have "create_key okp_env EdDSA (okp_pair ''a'') 100 keys_empty = Inr (okp_record ''a'' ''YQ'' 100, okp_keys)"
    by (simp add: create_key_def okp_generated okp_names ascii_of_names Let_def okp_record_def okp_keys_def key_save_def keys_empty_def nonzero_def)
  then show ?thesis
    by (simp add: signingKey_def key_current_def keys_empty_def present_def okp_import)
qed

lemma okp_rotation: "rotate_keys okp_env EdDSA 100 (okp_pair ''b'') 120 okp_keys = Inr (okp_record ''b'' ''Yg'' 120, okp_rotated)"
proof -
  have "create_key okp_env EdDSA (okp_pair ''b'') 120 okp_keys = Inr (okp_record ''b'' ''Yg'' 120,
      \<lparr>ks_keys = [(''YQ'', okp_record ''a'' ''YQ'' 100), (''Yg'', okp_record ''b'' ''Yg'' 120)], ks_current = Some ''Yg''\<rparr>)"
    by (simp add: create_key_def okp_generated okp_names ascii_of_names Let_def okp_record_def okp_keys_def key_save_def nonzero_def)
  moreover have "key_current okp_keys = Some (okp_record ''a'' ''YQ'' 100)"
    by (simp add: key_current_def okp_keys_def present_def)
  ultimately show ?thesis
    by (simp add: rotate_keys_def okp_record_def key_save_def nonzero_def okp_rotated_def)
qed

definition okp_options :: "unit sign_jwt_options" where
  "okp_options = \<lparr>sj_algorithm = EdDSA, sj_key = (), sj_kid = Some (js_str ''YQ''), sj_issuer = None, sj_audience = None, sj_subject = None,
     sj_expiresInSeconds = Some 60, sj_notBeforeSeconds = None, sj_jti = NoJti\<rparr>"

definition okp_verify :: "keys \<Rightarrow> unit verify_jwt_options" where
  "okp_verify st = \<lparr>vo_algorithms = [EdDSA], vo_key = service_keys okp_env st, vo_issuer = None, vo_audience = None, vo_subject = None,
     vo_requireExpiry = None, vo_clockToleranceSeconds = None, vo_maxTokenAgeSeconds = None\<rparr>"

lemma okp_options_simps [simp]:
  "sj_algorithm okp_options = EdDSA" "sj_key okp_options = ()" "sj_kid okp_options = Some (js_str ''YQ'')"
  by (simp_all add: okp_options_def)

lemma okp_payload: "jwt_payload [] okp_options 100 [] = [(js_str ''iat'', JNum 100), (js_str ''exp'', JNum 160)]"
  by (simp add: jwt_payload_def okp_options_def Let_def set_claim_def)

lemma okp_json:
  "json_text (okp_text (signing_header (jwt_signing okp_options))) (JObj (signing_header (jwt_signing okp_options)))"
  "json_text (okp_text (jwt_payload [] okp_options 100 [])) (JObj (jwt_payload [] okp_options 100 []))"
proof -
  have header: "signing_header (jwt_signing okp_options) =
      [(js_str ''alg'', JStr (js_str ''EdDSA'')), (js_str ''kid'', JStr (js_str ''YQ'')), (js_str ''typ'', JStr (js_str ''JWT''))]"
    by (simp add: signing_header_def jwt_signing_def okp_options_def set_present_def ascii_of_names)
  show "json_text (okp_text (signing_header (jwt_signing okp_options))) (JObj (signing_header (jwt_signing okp_options)))"
    unfolding header by (simp add: json_text_def okp_text_def member_of_def okp_header_def js_str_def starts_with_bom_def is_high_def is_low_def json_rules)
  show "json_text (okp_text (jwt_payload [] okp_options 100 [])) (JObj (jwt_payload [] okp_options 100 []))"
    unfolding okp_payload
    by (simp add: json_text_def okp_text_def member_of_def okp_claims_def js_str_def starts_with_bom_def is_high_def is_low_def json_rules
        json_number_def json_digits_def json_integer_def json_fraction_def json_exponent_def digit_def digits_value_def number_value_def pow10_def)
qed

lemma thumbprint_of_public_part_witness: "jwkThumbprint okp_env (toPublicJwk (fst (okp_pair ''a''))) = jwkThumbprint okp_env (fst (okp_pair ''a''))"
  by (rule thumbprint_of_public_part) (simp add: okp_pair_def okp_def member_of_def)

definition okp_signed_header :: jws_header where
  "okp_signed_header = \<lparr>jh_alg = EdDSA, jh_members = signing_header (jwt_signing okp_options)\<rparr>"

lemma okp_header_kid: "js_get (jh_members okp_signed_header) (js_str ''kid'') = Some (JStr (js_str ''YQ''))"
  unfolding okp_signed_header_def using signing_header_kid[of okp_options] by (simp add: okp_options_def)

lemma okp_current: "key_current okp_keys = Some (okp_record ''a'' ''YQ'' 100)"
  by (simp add: key_current_def okp_keys_def present_def)

lemma rotation_overlaps_witness:
  "key_current okp_rotated = Some (okp_record ''b'' ''Yg'' 120) \<and> verificationKey okp_env okp_rotated okp_signed_header = Inr ()"
  using rotation_overlaps[OF okp_rotation okp_current, of okp_signed_header] okp_header_kid
  by (simp add: okp_record_def) (simp add: okp_import flip: okp_record_def)

lemma retired_key_verifies_for_ever_witness:
  "''YQ'' \<notin> sk_kid ` set (key_all 1000 okp_rotated) \<and> verificationKey okp_env okp_rotated okp_signed_header = Inr ()"
proof -
  have "keys_named okp_rotated"
    by (auto simp: keys_named_def okp_rotated_def okp_record_def split: if_splits)
  moreover have "sk_kid (okp_record x k t) = k" for x k t
    by (simp add: okp_record_def)
  ultimately show ?thesis
    using retired_key_verifies_for_ever[OF okp_rotation okp_current, of 1000 okp_signed_header] okp_header_kid by (simp add: okp_import)
qed

lemma token_survives_rotation_witness:
  "map_sum id snd (verifyJwt okp_crypto (okp_verify okp_rotated) 150 (signJwt okp_crypto okp_text [] okp_options 100 [])) =
    Inr [(js_str ''iat'', JNum 100), (js_str ''exp'', JNum 160)]"
proof -
  have kid: "sk_kid (okp_record x k t) = k" for x k t
    by (simp add: okp_record_def)
  have "times_ok None None 30 150 (jwt_payload [] okp_options 100 [])"
    unfolding okp_payload by (simp add: times_ok_def claim_def)
  moreover have "signs_for okp_crypto EdDSA () ()"
    by (simp add: signs_for_def okp_crypto_def params_name_def)
  ultimately show ?thesis
    using token_survives_rotation[OF okp_signing okp_rotation, of "()" okp_options okp_crypto "okp_verify okp_rotated" okp_text "[]" "[]" 150] okp_json
    by (simp add: kid okp_import okp_payload okp_verify_def tolerance_of_def issuer_ok_def audience_ok_def subject_ok_def)
qed

end
