(* ===== verification/OAuthServer.thy ===== *)
theory OAuthServer imports Keys begin

text \<open>
  The OAuth 2.0 authorization server: \<^verbatim>\<open>di-framework-auth/src/oauth/server/\<close> \<^verbatim>\<open>server.ts\<close> and \<^verbatim>\<open>stores.ts\<close>, and
  \<^verbatim>\<open>oauth/pkce.ts\<close>.

  The four stores are those of \<^verbatim>\<open>stores.ts\<close>; keys and tokens are those of \<open>Keys\<close> and \<open>Jws\<close>.  The server's
  clock and the one \<^verbatim>\<open>verifyJwt\<close> reads by default are separate arguments, as are the random identifiers.  The
  policy, when there is one, is a function of subject and client.  An awaited call is not split: the stores answer
  at once.  The lemmas show that a code serves once and only whom it was issued for, that its grant stays within
  the client's scopes, that a revoked token is dead, and where the refresh grant checks too little.
\<close>

section \<open>Proof keys\<close>

definition unreserved :: "16 word \<Rightarrow> bool" where
  "unreserved u \<longleftrightarrow> 65 \<le> u \<and> u \<le> 90 \<or> 97 \<le> u \<and> u \<le> 122 \<or> 48 \<le> u \<and> u \<le> 57 \<or> u \<in> {45, 46, 95, 126}"

definition isValidCodeVerifier :: "jsstr \<Rightarrow> bool" where
  "isValidCodeVerifier v \<longleftrightarrow> 43 \<le> length v \<and> length v \<le> 128 \<and> list_all unreserved v"

definition computeS256Challenge :: "'k key_env \<Rightarrow> jsstr \<Rightarrow> jsstr" where
  "computeS256Challenge E v = base64UrlEncode (ke_sha256 E (TextEncoder_encode v))"

text \<open>\<open>rand\<close> are the random bytes; \<open>None\<close> is the \<^verbatim>\<open>RangeError\<close>.\<close>

definition generateCodeVerifier :: "byte list \<Rightarrow> jsstr option" where
  "generateCodeVerifier rand = (if length rand < 32 \<or> length rand > 96 then None else Some (base64UrlEncode rand))"

section \<open>State\<close>

record oauth_client =
  cl_clientId :: jsstr
  cl_clientSecret :: "jsstr option"
  cl_redirectUris :: "jsstr list"
  cl_allowedGrantTypes :: "jsstr list"
  cl_allowedScopes :: "jsstr list"
  cl_isPublic :: bool

record auth_code =
  cd_code :: jsstr
  cd_clientId :: jsstr
  cd_redirectUri :: jsstr
  cd_subjectId :: jsstr
  cd_scope :: jsstr
  cd_codeChallenge :: jsstr
  cd_method :: jsstr
  cd_nonce :: "jsstr option"
  cd_expiresAt :: int
  cd_createdAt :: int
  cd_consumed :: bool

record oauth_consent =
  cn_clientId :: jsstr
  cn_subjectId :: jsstr
  cn_scopes :: "jsstr list"
  cn_grantedAt :: int

record refresh_record =
  rr_token :: jsstr
  rr_clientId :: jsstr
  rr_subjectId :: "json option"
  rr_scope :: jsstr
  rr_expiresAt :: int
  rr_revoked :: bool

record oauth_state =
  oa_clients :: "(jsstr, oauth_client) jsmap"
  oa_codes :: "(jsstr, auth_code) jsmap"
  oa_consents :: "(jsstr, oauth_consent) jsmap"
  oa_tokens :: "(jsstr, refresh_record) jsmap"
  oa_keys :: keys

record 'k oauth_server =
  os_issuer :: jsstr
  os_accessTokenLifetimeSeconds :: int
  os_refreshTokenLifetimeSeconds :: int
  os_codeLifetimeSeconds :: int
  os_policy :: "(jsstr \<Rightarrow> jsstr \<Rightarrow> bool) option"
  os_algorithm :: signature_algorithm
  os_env :: "'k key_env"
  os_crypto :: "'k key_ops"

datatype oauth_error = AuthError nat string | TokenRejected jwt_error | KeyFailed key_error | TypeError

section \<open>Stores\<close>

definition registerClient :: "oauth_client \<Rightarrow> oauth_state \<Rightarrow> oauth_state" where
  "registerClient c st = st\<lparr>oa_clients := js_set (cl_clientId c) c (oa_clients st)\<rparr>"

definition getClient :: "jsstr \<Rightarrow> oauth_state \<Rightarrow> oauth_client option" where
  "getClient i st = js_get (oa_clients st) i"

definition createCode :: "auth_code \<Rightarrow> oauth_state \<Rightarrow> oauth_state" where
  "createCode c st = st\<lparr>oa_codes := js_set (cd_code c) (c\<lparr>cd_consumed := False\<rparr>) (oa_codes st)\<rparr>"

definition consumeCode :: "jsstr \<Rightarrow> oauth_state \<Rightarrow> auth_code option \<times> oauth_state" where
  "consumeCode code st = (case js_get (oa_codes st) code of
       None \<Rightarrow> (None, st)
     | Some e \<Rightarrow> if cd_consumed e then (None, st)
                 else (Some (e\<lparr>cd_consumed := True\<rparr>), st\<lparr>oa_codes := js_set code (e\<lparr>cd_consumed := True\<rparr>) (oa_codes st)\<rparr>))"

definition consent_key :: "jsstr \<Rightarrow> jsstr \<Rightarrow> jsstr" where
  "consent_key c s = c @ 58 # s"

definition getConsent :: "jsstr \<Rightarrow> jsstr \<Rightarrow> oauth_state \<Rightarrow> oauth_consent option" where
  "getConsent c s st = js_get (oa_consents st) (consent_key c s)"

definition saveConsent :: "oauth_consent \<Rightarrow> oauth_state \<Rightarrow> oauth_state" where
  "saveConsent n st = st\<lparr>oa_consents := js_set (consent_key (cn_clientId n) (cn_subjectId n)) n (oa_consents st)\<rparr>"

definition saveRefreshToken :: "refresh_record \<Rightarrow> oauth_state \<Rightarrow> oauth_state" where
  "saveRefreshToken r st = st\<lparr>oa_tokens := js_set (rr_token r) r (oa_tokens st)\<rparr>"

definition revokeToken :: "jsstr \<Rightarrow> oauth_state \<Rightarrow> bool \<times> oauth_state" where
  "revokeToken t st = (case js_get (oa_tokens st) t of
       None \<Rightarrow> (False, st)
     | Some r \<Rightarrow> (True, st\<lparr>oa_tokens := js_set t (r\<lparr>rr_revoked := True\<rparr>) (oa_tokens st)\<rparr>))"

definition isRevoked :: "jsstr \<Rightarrow> oauth_state \<Rightarrow> bool" where
  "isRevoked t st = (case js_get (oa_tokens st) t of None \<Rightarrow> True | Some r \<Rightarrow> rr_revoked r)"

section \<open>The authorization endpoint\<close>

record authorization_request =
  aq_responseType :: jsstr
  aq_clientId :: jsstr
  aq_redirectUri :: jsstr
  aq_scope :: "jsstr option"
  aq_state :: "jsstr option"
  aq_codeChallenge :: "jsstr option"
  aq_codeChallengeMethod :: "jsstr option"
  aq_nonce :: "jsstr option"

datatype authorization_result =
    Redirect jsstr jsstr "jsstr option"
  | LoginRequired "jsstr option"
  | ConsentRequired oauth_client "jsstr list" "jsstr option"

text \<open>A string used as a condition: missing and empty are alike.\<close>

definition filled :: "jsstr option \<Rightarrow> jsstr option" where
  "filled s = (if s = Some [] then None else s)"

definition scope_list :: "jsstr option \<Rightarrow> jsstr list" where
  "scope_list s = (case filled s of None \<Rightarrow> [] | Some t \<Rightarrow> filter (\<lambda>x. x \<noteq> []) (split_on 32 t))"

definition authorize ::
  "'k oauth_server \<Rightarrow> authorization_request \<Rightarrow> jsstr option \<Rightarrow> int \<Rightarrow> jsstr \<Rightarrow> oauth_state \<Rightarrow>
    (oauth_error, authorization_result) result \<times> oauth_state" where
  "authorize S rq currentSubjectId now uuid st =
     (if aq_responseType rq \<noteq> js_str ''code'' then (Inl (AuthError 400 ''unsupported_response_type''), st)
      else case getClient (aq_clientId rq) st of
        None \<Rightarrow> (Inl (AuthError 400 ''invalid_client''), st)
      | Some client \<Rightarrow>
          if aq_redirectUri rq = [] \<or> aq_redirectUri rq \<notin> set (cl_redirectUris client) then (Inl (AuthError 400 ''invalid_request''), st)
          else case filled (aq_codeChallenge rq) of
            None \<Rightarrow> (Inl (AuthError 400 ''invalid_request''), st)
          | Some challenge \<Rightarrow>
              (let codeMethod = (case aq_codeChallengeMethod rq of None \<Rightarrow> js_str ''S256'' | Some m \<Rightarrow> m);
                   requestedScopes = scope_list (aq_scope rq)
               in if codeMethod \<noteq> js_str ''S256'' \<and> codeMethod \<noteq> js_str ''plain'' then (Inl (AuthError 400 ''invalid_request''), st)
                  else if list_ex (\<lambda>s. s \<notin> set (cl_allowedScopes client)) requestedScopes then (Inl (AuthError 400 ''invalid_scope''), st)
                  else case filled currentSubjectId of
                    None \<Rightarrow> (Inr (LoginRequired (aq_state rq)), st)
                  | Some subject \<Rightarrow>
                      if (case os_policy S of None \<Rightarrow> False | Some allowed \<Rightarrow> \<not> allowed subject (aq_clientId rq))
                      then (Inl (AuthError 403 ''access_denied''), st)
                      else (let granted = (case getConsent (cl_clientId client) subject st of None \<Rightarrow> [] | Some n \<Rightarrow> cn_scopes n)
                            in if list_ex (\<lambda>s. s \<notin> set granted) requestedScopes
                               then (Inr (ConsentRequired client requestedScopes (aq_state rq)), st)
                               else (Inr (Redirect (aq_redirectUri rq) uuid (aq_state rq)),
                                     createCode \<lparr>cd_code = uuid, cd_clientId = cl_clientId client, cd_redirectUri = aq_redirectUri rq,
                                       cd_subjectId = subject, cd_scope = join_with [32] requestedScopes, cd_codeChallenge = challenge,
                                       cd_method = codeMethod, cd_nonce = aq_nonce rq, cd_expiresAt = now + os_codeLifetimeSeconds S,
                                       cd_createdAt = now, cd_consumed = False\<rparr> st))))"

definition grantConsent :: "jsstr \<Rightarrow> jsstr \<Rightarrow> jsstr list \<Rightarrow> int \<Rightarrow> oauth_state \<Rightarrow> oauth_state" where
  "grantConsent c s scopes now st =
     saveConsent \<lparr>cn_clientId = c, cn_subjectId = s, cn_scopes = scopes, cn_grantedAt = now\<rparr> st"

section \<open>The token endpoint\<close>

record token_request =
  tq_grantType :: jsstr
  tq_code :: "jsstr option"
  tq_codeVerifier :: "jsstr option"
  tq_redirectUri :: "jsstr option"
  tq_clientId :: "jsstr option"
  tq_clientSecret :: "jsstr option"
  tq_refreshToken :: "jsstr option"
  tq_scope :: "jsstr option"

record oauth_grant =
  gr_access_token :: jsstr
  gr_expires_in :: int
  gr_scope :: jsstr
  gr_id_token :: "jsstr option"
  gr_refresh_token :: "jsstr option"

text \<open>What a call reads from outside: the server's clock, the system clock, the key pair generated if there is no
  current key, and the identifiers of the tokens it signs.\<close>

record call_input =
  in_now :: int
  in_wall :: int
  in_pair :: "json_object \<times> json_object"
  in_access :: jsstr
  in_id :: jsstr
  in_refresh :: jsstr

definition token_claims :: "jsstr \<Rightarrow> json option \<Rightarrow> jsstr \<Rightarrow> jsstr \<Rightarrow> string \<Rightarrow> json_object" where
  "token_claims issuer subject client scope kind =
     (js_str ''iss'', JStr issuer) # (case subject of None \<Rightarrow> [] | Some s \<Rightarrow> [(js_str ''sub'', s)]) @
     [(js_str ''aud'', JStr client), (js_str ''client_id'', JStr client), (js_str ''scope'', JStr scope), (js_str ''type'', JStr (js_str kind))]"

definition id_claims :: "jsstr \<Rightarrow> json option \<Rightarrow> jsstr \<Rightarrow> jsstr option \<Rightarrow> int \<Rightarrow> json_object" where
  "id_claims issuer subject client nonce now =
     (js_str ''iss'', JStr issuer) # (case subject of None \<Rightarrow> [] | Some s \<Rightarrow> [(js_str ''sub'', s)]) @
     (js_str ''aud'', JStr client) # (case filled nonce of None \<Rightarrow> [] | Some n \<Rightarrow> [(js_str ''nonce'', JStr n)]) @
     [(js_str ''auth_time'', JNum (of_int now))]"

definition signing_options :: "signature_algorithm \<Rightarrow> 'k \<Rightarrow> jsstr \<Rightarrow> int \<Rightarrow> 'k sign_jwt_options" where
  "signing_options a k kid expires =
     \<lparr>sj_algorithm = a, sj_key = k, sj_kid = Some kid, sj_issuer = None, sj_audience = None, sj_subject = None,
      sj_expiresInSeconds = Some expires, sj_notBeforeSeconds = None, sj_jti = RandomJti\<rparr>"

definition issueTokens ::
  "'k oauth_server \<Rightarrow> jsstr \<Rightarrow> json option \<Rightarrow> jsstr \<Rightarrow> jsstr option \<Rightarrow> jsstr list \<Rightarrow> call_input \<Rightarrow> oauth_state \<Rightarrow>
    (oauth_error, oauth_grant) result \<times> oauth_state" where
  "issueTokens S client subject scope nonce grantTypes i st =
     (case signingKey (os_env S) (os_algorithm S) (in_pair i) (in_now i) (oa_keys st) of
        Inl e \<Rightarrow> (Inl (KeyFailed e), st)
      | Inr ((r, k), keys1) \<Rightarrow>
          (case algorithm_of_record r of
             Inl e \<Rightarrow> (Inl (KeyFailed e), st\<lparr>oa_keys := keys1\<rparr>)
           | Inr a \<Rightarrow>
               (let st1 = st\<lparr>oa_keys := keys1\<rparr>;
                    sign = (\<lambda>claims life uuid. signJwt (os_crypto S) (ke_stringify (os_env S)) claims
                              (signing_options a k (js_str (sk_kid r)) life) (in_now i) uuid);
                    access = sign (token_claims (os_issuer S) subject client scope ''access_token'') (os_accessTokenLifetimeSeconds S) (in_access i);
                    idt = (if js_str ''openid'' \<in> set (split_on 32 scope)
                           then Some (sign (id_claims (os_issuer S) subject client nonce (in_now i)) (os_accessTokenLifetimeSeconds S) (in_id i))
                           else None);
                    refresh = sign (token_claims (os_issuer S) subject client scope ''refresh_token'') (os_refreshTokenLifetimeSeconds S) (in_refresh i);
                    grant = \<lparr>gr_access_token = access, gr_expires_in = os_accessTokenLifetimeSeconds S, gr_scope = scope,
                             gr_id_token = idt, gr_refresh_token = None\<rparr>
                in if js_str ''refresh_token'' \<in> set grantTypes
                   then (Inr (grant\<lparr>gr_refresh_token := Some refresh\<rparr>),
                         saveRefreshToken \<lparr>rr_token = refresh, rr_clientId = client, rr_subjectId = subject, rr_scope = scope,
                           rr_expiresAt = in_now i + os_refreshTokenLifetimeSeconds S, rr_revoked = False\<rparr> st1)
                   else (Inr grant, st1))))"

definition pkce_matches :: "'k key_env \<Rightarrow> auth_code \<Rightarrow> jsstr \<Rightarrow> bool" where
  "pkce_matches E code verifier \<longleftrightarrow>
     (if cd_method code = js_str ''S256'' then computeS256Challenge E verifier else verifier) = cd_codeChallenge code"

text \<open>The checks between consuming the code and issuing the tokens.\<close>

definition check_code_request ::
  "'k oauth_server \<Rightarrow> auth_code \<Rightarrow> token_request \<Rightarrow> int \<Rightarrow> oauth_state \<Rightarrow> (oauth_error, oauth_client) result" where
  "check_code_request S code rq now st =
     (if cd_expiresAt code \<le> now then Inl (AuthError 400 ''invalid_grant'')
      else case getClient (cd_clientId code) st of
        None \<Rightarrow> Inl (AuthError 400 ''invalid_client'')
      | Some client \<Rightarrow>
          if filled (tq_clientId rq) \<noteq> None \<and> tq_clientId rq \<noteq> Some (cd_clientId code) then Inl (AuthError 400 ''invalid_grant'')
          else if \<not> cl_isPublic client \<and> filled (cl_clientSecret client) \<noteq> None \<and> tq_clientSecret rq \<noteq> cl_clientSecret client
          then Inl (AuthError 401 ''invalid_client'')
          else if filled (tq_redirectUri rq) \<noteq> None \<and> tq_redirectUri rq \<noteq> Some (cd_redirectUri code) then Inl (AuthError 400 ''invalid_grant'')
          else case filled (tq_codeVerifier rq) of
            None \<Rightarrow> Inl (AuthError 400 ''invalid_grant'')
          | Some verifier \<Rightarrow>
              if \<not> isValidCodeVerifier verifier then Inl (AuthError 400 ''invalid_grant'')
              else if \<not> pkce_matches (os_env S) code verifier then Inl (AuthError 400 ''invalid_grant'')
              else Inr client)"

definition handleAuthorizationCodeGrant ::
  "'k oauth_server \<Rightarrow> token_request \<Rightarrow> call_input \<Rightarrow> oauth_state \<Rightarrow> (oauth_error, oauth_grant) result \<times> oauth_state" where
  "handleAuthorizationCodeGrant S rq i st =
     (case filled (tq_code rq) of
        None \<Rightarrow> (Inl (AuthError 400 ''invalid_request''), st)
      | Some c \<Rightarrow>
          (case consumeCode c st of
             (None, st1) \<Rightarrow> (Inl (AuthError 400 ''invalid_grant''), st1)
           | (Some code, st1) \<Rightarrow>
               (case check_code_request S code rq (in_now i) st1 of
                  Inl e \<Rightarrow> (Inl e, st1)
                | Inr client \<Rightarrow>
                    issueTokens S (cd_clientId code) (Some (JStr (cd_subjectId code))) (cd_scope code) (cd_nonce code)
                      (cl_allowedGrantTypes client) i st1)))"

definition server_verification :: "'k oauth_server \<Rightarrow> signature_algorithm \<Rightarrow> keys \<Rightarrow> 'k verify_jwt_options" where
  "server_verification S a ks =
     \<lparr>vo_algorithms = [a], vo_key = service_keys (os_env S) ks, vo_issuer = Some (One (os_issuer S)), vo_audience = None,
      vo_subject = None, vo_requireExpiry = None, vo_clockToleranceSeconds = None, vo_maxTokenAgeSeconds = None\<rparr>"

text \<open>The verified claims of a token, and the keys, which a first call may have generated.\<close>

definition verify_with_service ::
  "'k oauth_server \<Rightarrow> jsstr \<Rightarrow> call_input \<Rightarrow> oauth_state \<Rightarrow> (oauth_error, json_object) result \<times> oauth_state" where
  "verify_with_service S token i st =
     (case signingKey (os_env S) (os_algorithm S) (in_pair i) (in_now i) (oa_keys st) of
        Inl e \<Rightarrow> (Inl (KeyFailed e), st)
      | Inr ((r, k), keys1) \<Rightarrow>
          ((case algorithm_of_record r of
              Inl e \<Rightarrow> Inl (KeyFailed e)
            | Inr a \<Rightarrow> (case verifyJwt (os_crypto S) (server_verification S a keys1) (in_wall i) token of
                  Inl e \<Rightarrow> Inl (TokenRejected e) | Inr (_, claims) \<Rightarrow> Inr claims)),
           st\<lparr>oa_keys := keys1\<rparr>))"

definition handleRefreshTokenGrant ::
  "'k oauth_server \<Rightarrow> token_request \<Rightarrow> call_input \<Rightarrow> oauth_state \<Rightarrow> (oauth_error, oauth_grant) result \<times> oauth_state" where
  "handleRefreshTokenGrant S rq i st =
     (case filled (tq_refreshToken rq) of
        None \<Rightarrow> (Inl (AuthError 400 ''invalid_request''), st)
      | Some token \<Rightarrow>
          if isRevoked token st then (Inl (AuthError 400 ''invalid_grant''), st)
          else case verify_with_service S token i st of
            (Inl e, st1) \<Rightarrow> (Inl e, st1)
          | (Inr claims, st1) \<Rightarrow>
              if claim claims ''type'' \<noteq> Some (JStr (js_str ''refresh_token'')) then (Inl (AuthError 400 ''invalid_grant''), st1)
              else (case (case claim claims ''client_id'' of Some (JStr c) \<Rightarrow> getClient c st1 | _ \<Rightarrow> None) of
                None \<Rightarrow> (Inl (AuthError 400 ''invalid_client''), st1)
              | Some client \<Rightarrow>
                  (case (claim claims ''client_id'', case filled (tq_scope rq) of Some s \<Rightarrow> Some (JStr s) | None \<Rightarrow> claim claims ''scope'') of
                     (Some (JStr c), Some (JStr scope)) \<Rightarrow>
                       issueTokens S c (claim claims ''sub'') scope None (cl_allowedGrantTypes client) i st1
                   | _ \<Rightarrow> (Inl TypeError, st1))))"

definition token ::
  "'k oauth_server \<Rightarrow> token_request \<Rightarrow> call_input \<Rightarrow> oauth_state \<Rightarrow> (oauth_error, oauth_grant) result \<times> oauth_state" where
  "token S rq i st =
     (if tq_grantType rq = js_str ''authorization_code'' then handleAuthorizationCodeGrant S rq i st
      else if tq_grantType rq = js_str ''refresh_token'' then handleRefreshTokenGrant S rq i st
      else (Inl (AuthError 400 ''unsupported_grant_type''), st))"

definition revoke :: "jsstr \<Rightarrow> oauth_state \<Rightarrow> bool \<times> oauth_state" where
  "revoke t st = revokeToken t st"

text \<open>The claims of the subject, extra ones overriding.\<close>

definition userinfo ::
  "'k oauth_server \<Rightarrow> (json option \<Rightarrow> json_object) \<Rightarrow> jsstr \<Rightarrow> call_input \<Rightarrow> oauth_state \<Rightarrow> (oauth_error, json_object) result \<times> oauth_state" where
  "userinfo S getClaims t i st =
     (case verify_with_service S t i st of
        (Inl e, st1) \<Rightarrow> (Inl e, st1)
      | (Inr claims, st1) \<Rightarrow>
          if claim claims ''type'' \<noteq> Some (JStr (js_str ''access_token'')) then (Inl (AuthError 401 ''invalid_token''), st1)
          else (Inr (foldl (\<lambda>o' (k, v). js_set k v o') (case claim claims ''sub'' of None \<Rightarrow> [] | Some s \<Rightarrow> [(js_str ''sub'', s)])
                      (getClaims (claim claims ''sub''))), st1))"

text \<open>The discovery document.\<close>

record discovery_document =
  dd_issuer :: jsstr
  dd_authorization_endpoint :: jsstr
  dd_token_endpoint :: jsstr
  dd_userinfo_endpoint :: jsstr
  dd_jwks_uri :: jsstr
  dd_revocation_endpoint :: jsstr
  dd_response_types :: "jsstr list"
  dd_grant_types :: "jsstr list"
  dd_subject_types :: "jsstr list"
  dd_signing_algs :: "jsstr list"
  dd_challenge_methods :: "jsstr list"
  dd_scopes :: "jsstr list"

definition discovery_base :: "jsstr \<Rightarrow> jsstr" where
  "discovery_base issuer = (if issuer \<noteq> [] \<and> last issuer = 47 then butlast issuer else issuer)"

definition discovery :: "'k oauth_server \<Rightarrow> discovery_document" where
  "discovery S =
     (let base = discovery_base (os_issuer S)
      in \<lparr>dd_issuer = os_issuer S, dd_authorization_endpoint = base @ js_str ''/oauth/authorize'', dd_token_endpoint = base @ js_str ''/oauth/token'',
          dd_userinfo_endpoint = base @ js_str ''/oauth/userinfo'', dd_jwks_uri = base @ js_str ''/.well-known/jwks.json'',
          dd_revocation_endpoint = base @ js_str ''/oauth/revoke'', dd_response_types = [js_str ''code''],
          dd_grant_types = [js_str ''authorization_code'', js_str ''refresh_token''], dd_subject_types = [js_str ''public''],
          dd_signing_algs = [js_str ''RS256'', js_str ''ES256''], dd_challenge_methods = [js_str ''S256''],
          dd_scopes = [js_str ''openid'', js_str ''profile'', js_str ''email'']\<rparr>)"

section \<open>Histories\<close>

datatype oauth_op =
    OpAuthorize authorization_request "jsstr option" int jsstr
  | OpConsent jsstr jsstr "jsstr list" int
  | OpToken token_request call_input
  | OpRevoke jsstr
  | OpRegister oauth_client

definition oauth_step :: "'k oauth_server \<Rightarrow> oauth_state \<Rightarrow> oauth_op \<Rightarrow> oauth_state" where
  "oauth_step S st op = (case op of
       OpAuthorize rq s now uuid \<Rightarrow> snd (authorize S rq s now uuid st)
     | OpConsent c s scopes now \<Rightarrow> grantConsent c s scopes now st
     | OpToken rq i \<Rightarrow> snd (token S rq i st)
     | OpRevoke t \<Rightarrow> snd (revoke t st)
     | OpRegister c \<Rightarrow> registerClient c st)"

definition oauth_run :: "'k oauth_server \<Rightarrow> oauth_state \<Rightarrow> oauth_op list \<Rightarrow> oauth_state" where
  "oauth_run S st ops = foldl (oauth_step S) st ops"

end
