(* ===== verification/OAuthLaws.thy ===== *)
theory OAuthLaws imports OAuthServer begin

text \<open>
  What the authorization server of \<open>OAuthServer\<close> guarantees: authorization codes serve once and only the request they
  were issued for, their grants stay within the client's scopes, an honest client gets its tokens, a revoked token
  is dead; and what it does not: a refresh widens its scope at will and asks for no client credentials.
\<close>

section \<open>Frames\<close>

text \<open>Issuing and verifying touch the keys and the refresh tokens only.\<close>

lemma issueTokens_frame:
  "oa_codes (snd (issueTokens S c s sc n gt i st)) = oa_codes st"
  "oa_clients (snd (issueTokens S c s sc n gt i st)) = oa_clients st"
  "oa_consents (snd (issueTokens S c s sc n gt i st)) = oa_consents st"
  by (auto simp: issueTokens_def Let_def saveRefreshToken_def split: sum.splits prod.splits)

lemma verify_frame:
  "oa_codes (snd (verify_with_service S t i st)) = oa_codes st"
  "oa_clients (snd (verify_with_service S t i st)) = oa_clients st"
  "oa_tokens (snd (verify_with_service S t i st)) = oa_tokens st"
  by (auto simp: verify_with_service_def split: sum.splits prod.splits)

lemma refresh_frame:
  "oa_codes (snd (handleRefreshTokenGrant S rq i st)) = oa_codes st"
  "oa_clients (snd (handleRefreshTokenGrant S rq i st)) = oa_clients st"
  using verify_frame[of S _ i st]
  by (auto simp: handleRefreshTokenGrant_def Let_def issueTokens_frame split: option.splits sum.splits prod.splits json.splits)
    (metis snd_conv)+

lemma consumeCode_cases:
  "consumeCode c st = (r, st1) \<Longrightarrow>
    (r = None \<and> st1 = st \<and> (\<forall>e. js_get (oa_codes st) c = Some e \<longrightarrow> cd_consumed e)) \<or>
    (\<exists>e. js_get (oa_codes st) c = Some e \<and> \<not> cd_consumed e \<and> r = Some (e\<lparr>cd_consumed := True\<rparr>) \<and>
       st1 = st\<lparr>oa_codes := js_set c (e\<lparr>cd_consumed := True\<rparr>) (oa_codes st)\<rparr>)"
  by (auto simp: consumeCode_def split: option.splits if_splits)

lemma code_grant_codes:
  "oa_codes (snd (handleAuthorizationCodeGrant S rq i st)) =
    (case filled (tq_code rq) of None \<Rightarrow> oa_codes st | Some c \<Rightarrow> oa_codes (snd (consumeCode c st)))"
  by (auto simp: handleAuthorizationCodeGrant_def issueTokens_frame split: option.splits prod.splits sum.splits)

lemma code_grant_clients: "oa_clients (snd (handleAuthorizationCodeGrant S rq i st)) = oa_clients st"
  by (auto simp: handleAuthorizationCodeGrant_def issueTokens_frame consumeCode_def split: option.splits prod.splits sum.splits if_splits)

section \<open>A code serves once\<close>

definition spent :: "jsstr \<Rightarrow> oauth_state \<Rightarrow> bool" where
  "spent c st \<longleftrightarrow> (\<forall>e. js_get (oa_codes st) c = Some e \<longrightarrow> cd_consumed e)"

lemma spent_consume: "spent c st \<Longrightarrow> spent c (snd (consumeCode d st))"
  by (auto simp: spent_def consumeCode_def split: option.splits)

lemma consume_spends: "spent c (snd (consumeCode c st))"
  by (auto simp: spent_def consumeCode_def split: option.splits)

text \<open>The code an accepted request stores, and what was checked for it.\<close>

definition code_of :: "'k oauth_server \<Rightarrow> authorization_request \<Rightarrow> oauth_client \<Rightarrow> jsstr \<Rightarrow> jsstr \<Rightarrow> int \<Rightarrow> jsstr \<Rightarrow> auth_code" where
  "code_of S rq client challenge subject now uuid =
     \<lparr>cd_code = uuid, cd_clientId = cl_clientId client, cd_redirectUri = aq_redirectUri rq,
      cd_subjectId = subject, cd_scope = join_with [32] (scope_list (aq_scope rq)), cd_codeChallenge = challenge,
      cd_method = (case aq_codeChallengeMethod rq of None \<Rightarrow> js_str ''S256'' | Some m \<Rightarrow> m), cd_nonce = aq_nonce rq,
      cd_expiresAt = now + os_codeLifetimeSeconds S, cd_createdAt = now, cd_consumed = False\<rparr>"

lemma authorize_cases:
  assumes "authorize S rq s now uuid st = (r, st1)"
  shows "st1 = st \<and> (\<forall>u c x. r \<noteq> Inr (Redirect u c x)) \<or>
    (\<exists>client challenge subject. getClient (aq_clientId rq) st = Some client \<and> aq_redirectUri rq \<in> set (cl_redirectUris client) \<and>
       filled (aq_codeChallenge rq) = Some challenge \<and> filled s = Some subject \<and>
       (\<forall>x \<in> set (scope_list (aq_scope rq)). x \<in> set (cl_allowedScopes client) \<and>
          (\<exists>n. getConsent (cl_clientId client) subject st = Some n \<and> x \<in> set (cn_scopes n))) \<and>
       r = Inr (Redirect (aq_redirectUri rq) uuid (aq_state rq)) \<and> st1 = createCode (code_of S rq client challenge subject now uuid) st)"
proof (cases "\<exists>client challenge subject. getClient (aq_clientId rq) st = Some client \<and> filled (aq_codeChallenge rq) = Some challenge \<and> filled s = Some subject")
  case True
  then obtain client challenge subject where "getClient (aq_clientId rq) st = Some client" "filled (aq_codeChallenge rq) = Some challenge"
      "filled s = Some subject"
    by blast
  then show ?thesis
    using assms
    by (cases "getConsent (cl_clientId client) subject st")
      (auto simp: authorize_def Let_def code_of_def list_ex_iff split: if_splits)
next
  case False
  then show ?thesis
    using assms by (auto simp: authorize_def Let_def split: option.splits if_splits)
qed

lemma authorize_codes:
  "oa_codes (snd (authorize S rq s now uuid st)) = oa_codes st \<or>
    (\<exists>e. oa_codes (snd (authorize S rq s now uuid st)) = js_set uuid e (oa_codes st))"
  using authorize_cases[of S rq s now uuid st] by (cases "authorize S rq s now uuid st") (auto simp: createCode_def code_of_def)

lemma spent_step:
  assumes "spent c st" "\<forall>rq s now. op \<noteq> OpAuthorize rq s now c"
  shows "spent c (oauth_step S st op)"
proof (cases op)
  case (OpAuthorize rq s now uuid)
  then have "uuid \<noteq> c"
    using assms(2) by auto
  then show ?thesis
    using assms(1) authorize_codes[of S rq s now uuid st] OpAuthorize by (auto simp: oauth_step_def spent_def)
next
  case (OpToken rq i)
  then show ?thesis
    using assms(1) spent_consume[OF assms(1)] refresh_frame[of S rq i st] code_grant_codes[of S rq i st]
    by (auto simp: oauth_step_def token_def spent_def split: option.splits)
qed (use assms(1) in \<open>auto simp: oauth_step_def spent_def grantConsent_def saveConsent_def revoke_def revokeToken_def registerClient_def split: option.splits\<close>)

lemma spent_run:
  "spent c st \<Longrightarrow> \<forall>rq s now. OpAuthorize rq s now c \<notin> set ops \<Longrightarrow> spent c (oauth_run S st ops)"
  unfolding oauth_run_def
proof (induction ops arbitrary: st)
  case (Cons op ops)
  then show ?case
    using spent_step[OF Cons.prems(1), of op S] by auto
qed simp

text \<open>C9: Once a code has been presented, whether tokens were granted or not, every later request with it is refused,
  whatever happens in between, as long as the identifier is not drawn again.\<close>

theorem code_serves_once:
  assumes "tq_grantType rq = js_str ''authorization_code''" "tq_code rq = Some c" "c \<noteq> []"
    "tq_grantType rq' = js_str ''authorization_code''" "tq_code rq' = Some c" "\<forall>q s now. OpAuthorize q s now c \<notin> set ops"
  shows "fst (token S rq' i' (oauth_run S (snd (token S rq i st)) ops)) = Inl (AuthError 400 ''invalid_grant'')"
proof -
  have "oa_codes (snd (token S rq i st)) = oa_codes (snd (consumeCode c st))"
    using assms(1-3) code_grant_codes[of S rq i st] by (simp add: token_def filled_def)
  then have "spent c (snd (token S rq i st))"
    using consume_spends[of c st] by (simp add: spent_def)
  then have "spent c (oauth_run S (snd (token S rq i st)) ops)"
    using assms(6) by (rule spent_run)
  then have "consumeCode c (oauth_run S (snd (token S rq i st)) ops) = (None, oauth_run S (snd (token S rq i st)) ops)"
    by (auto simp: spent_def consumeCode_def split: option.splits)
  then show ?thesis
    using assms(3-5) by (simp add: token_def handleAuthorizationCodeGrant_def filled_def)
qed

section \<open>What a code grant was checked for\<close>

lemma issueTokens_grant:
  assumes "issueTokens S c s sc n gt i st = (Inr g, st1)"
  shows "gr_scope g = sc" "gr_refresh_token g \<noteq> None \<Longrightarrow> js_str ''refresh_token'' \<in> set gt"
  using assms by (auto simp: issueTokens_def Let_def split: sum.splits prod.splits if_splits)

lemma code_grant_cases:
  assumes "token S rq i st = (Inr g, st1)" "tq_grantType rq = js_str ''authorization_code''"
  obtains c e client st2 where "tq_code rq = Some c" "c \<noteq> []" "js_get (oa_codes st) c = Some e" "\<not> cd_consumed e"
    "oa_clients st2 = oa_clients st" "check_code_request S (e\<lparr>cd_consumed := True\<rparr>) rq (in_now i) st2 = Inr client"
    "issueTokens S (cd_clientId e) (Some (JStr (cd_subjectId e))) (cd_scope e) (cd_nonce e) (cl_allowedGrantTypes client) i st2 = (Inr g, st1)"
proof -
  obtain c where c: "tq_code rq = Some c" "c \<noteq> []" "handleAuthorizationCodeGrant S rq i st = (Inr g, st1)"
    using assms by (cases "tq_code rq") (auto simp: token_def handleAuthorizationCodeGrant_def filled_def split: if_splits)
  obtain code st2 where con: "consumeCode c st = (Some code, st2)"
    using c by (cases "consumeCode c st"; cases "fst (consumeCode c st)") (auto simp: handleAuthorizationCodeGrant_def filled_def)
  then obtain e where e: "js_get (oa_codes st) c = Some e" "\<not> cd_consumed e" "code = e\<lparr>cd_consumed := True\<rparr>"
      "st2 = st\<lparr>oa_codes := js_set c (e\<lparr>cd_consumed := True\<rparr>) (oa_codes st)\<rparr>"
    using consumeCode_cases[OF con] by auto
  obtain client where "check_code_request S code rq (in_now i) st2 = Inr client"
      "issueTokens S (cd_clientId code) (Some (JStr (cd_subjectId code))) (cd_scope code) (cd_nonce code) (cl_allowedGrantTypes client) i st2 = (Inr g, st1)"
    using c con by (cases "check_code_request S code rq (in_now i) st2") (auto simp: handleAuthorizationCodeGrant_def filled_def)
  then show thesis
    using c e by (intro that[of c e st2 client]) simp_all
qed

text \<open>C39: Tokens for a code are granted only if the code was stored, unused and not expired; the client, if named, is
  its client; a confidential client gave its secret; the redirect URI, if given, is the one authorized; and the
  verifier answers the challenge.  The scope is the code's.\<close>

theorem code_grant_fully_checked:
  assumes "token S rq i st = (Inr g, st1)" "tq_grantType rq = js_str ''authorization_code''"
  shows "\<exists>c e client verifier. tq_code rq = Some c \<and> js_get (oa_codes st) c = Some e \<and> \<not> cd_consumed e \<and> in_now i < cd_expiresAt e \<and>
    getClient (cd_clientId e) st = Some client \<and> (filled (tq_clientId rq) = None \<or> tq_clientId rq = Some (cd_clientId e)) \<and>
    (cl_isPublic client \<or> filled (cl_clientSecret client) = None \<or> tq_clientSecret rq = cl_clientSecret client) \<and>
    (filled (tq_redirectUri rq) = None \<or> tq_redirectUri rq = Some (cd_redirectUri e)) \<and>
    tq_codeVerifier rq = Some verifier \<and> isValidCodeVerifier verifier \<and> pkce_matches (os_env S) e verifier \<and> gr_scope g = cd_scope e"
proof -
  obtain c e client st2 where g: "tq_code rq = Some c" "js_get (oa_codes st) c = Some e" "\<not> cd_consumed e" "oa_clients st2 = oa_clients st"
      "check_code_request S (e\<lparr>cd_consumed := True\<rparr>) rq (in_now i) st2 = Inr client"
      "issueTokens S (cd_clientId e) (Some (JStr (cd_subjectId e))) (cd_scope e) (cd_nonce e) (cl_allowedGrantTypes client) i st2 = (Inr g, st1)"
    using code_grant_cases[OF assms] by metis
  then show ?thesis
    using issueTokens_grant(1)[OF g(6)]
    by (auto simp: check_code_request_def pkce_matches_def getClient_def filled_def split: option.splits if_splits)
qed

section \<open>Codes stay within their client\<close>

definition clients_named :: "oauth_state \<Rightarrow> bool" where
  "clients_named st \<longleftrightarrow> (\<forall>i c. getClient i st = Some c \<longrightarrow> cl_clientId c = i)"

lemma scope_list_words: "x \<in> set (scope_list s) \<Longrightarrow> x \<noteq> [] \<and> 32 \<notin> set x"
  by (auto simp: scope_list_def split: option.splits dest: split_on_parts)

lemma split_join_on:
  "ws \<noteq> [] \<Longrightarrow> \<forall>w \<in> set ws. c \<notin> set w \<Longrightarrow> split_on c (join_with [c] ws) = ws"
proof (induction ws)
  case (Cons w ws)
  then show ?case
    by (cases ws) (simp_all add: split_on_none split_on_first)
qed simp

lemma joined_words: "x \<in> set (split_on 32 (join_with [32] (scope_list s))) \<Longrightarrow> x = [] \<or> x \<in> set (scope_list s)"
  using split_join_on[of "scope_list s" 32] scope_list_words[of _ s] by (cases "scope_list s = []") auto

lemma named_step:
  assumes "clients_named st"
  shows "clients_named (oauth_step S st op)"
proof (cases op)
  case (OpAuthorize rq s now uuid)
  then show ?thesis
    using assms authorize_cases[of S rq s now uuid st]
    by (cases "authorize S rq s now uuid st") (auto simp: oauth_step_def createCode_def clients_named_def getClient_def)
next
  case (OpRegister c)
  then show ?thesis
    using assms by (auto simp: oauth_step_def clients_named_def getClient_def registerClient_def)
qed (use assms in \<open>auto simp: oauth_step_def token_def code_grant_clients refresh_frame grantConsent_def saveConsent_def revoke_def revokeToken_def
    clients_named_def getClient_def split: option.splits\<close>)

lemma oauth_run_snoc: "oauth_run S st (ops @ [op]) = oauth_step S (oauth_run S st ops) op"
  by (simp add: oauth_run_def)

lemma named_run: "clients_named st \<Longrightarrow> clients_named (oauth_run S st ops)"
  by (induction ops rule: rev_induct) (simp add: oauth_run_def, simp add: oauth_run_snoc named_step)

text \<open>What was checked when a stored code was issued, in the state it was issued in.\<close>

definition issued_for :: "oauth_state \<Rightarrow> authorization_request \<Rightarrow> jsstr option \<Rightarrow> oauth_client \<Rightarrow> auth_code \<Rightarrow> bool" where
  "issued_for st q s client e \<longleftrightarrow> getClient (aq_clientId q) st = Some client \<and> aq_redirectUri q \<in> set (cl_redirectUris client) \<and>
     filled s = Some (cd_subjectId e) \<and> cd_clientId e = aq_clientId q \<and> cd_redirectUri e = aq_redirectUri q \<and>
     cd_scope e = join_with [32] (scope_list (aq_scope q)) \<and>
     (\<forall>x \<in> set (scope_list (aq_scope q)). x \<in> set (cl_allowedScopes client) \<and>
        (\<exists>n. getConsent (aq_clientId q) (cd_subjectId e) st = Some n \<and> x \<in> set (cn_scopes n)))"

text \<open>The codes a step leaves are those it found, with the same content, or the one it issued.\<close>

lemma codes_step:
  assumes "clients_named st" "js_get (oa_codes (oauth_step S st op)) c = Some e"
  shows "(\<exists>d. js_get (oa_codes st) c = Some d \<and> cd_clientId e = cd_clientId d \<and> cd_redirectUri e = cd_redirectUri d \<and>
      cd_scope e = cd_scope d \<and> cd_subjectId e = cd_subjectId d) \<or>
    (\<exists>q s now client. op = OpAuthorize q s now c \<and> issued_for st q s client e)"
proof (cases op)
  case (OpAuthorize rq s now uuid)
  obtain r st1 where a: "authorize S rq s now uuid st = (r, st1)"
    by (cases "authorize S rq s now uuid st")
  then have st1: "js_get (oa_codes st1) c = Some e"
    using assms(2) OpAuthorize by (simp add: oauth_step_def)
  consider "st1 = st" | client challenge subject where "getClient (aq_clientId rq) st = Some client"
      "aq_redirectUri rq \<in> set (cl_redirectUris client)" "filled s = Some subject"
      "\<forall>x \<in> set (scope_list (aq_scope rq)). x \<in> set (cl_allowedScopes client) \<and>
        (\<exists>n. getConsent (cl_clientId client) subject st = Some n \<and> x \<in> set (cn_scopes n))"
      "st1 = createCode (code_of S rq client challenge subject now uuid) st"
    using authorize_cases[OF a] by blast
  then show ?thesis
  proof cases
    case 1
    then show ?thesis
      using st1 by blast
  next
    case 2
    then have "cl_clientId client = aq_clientId rq"
      using assms(1) by (simp add: clients_named_def)
    then have "c = uuid \<Longrightarrow> issued_for st rq s client e"
      using st1 2 by (auto simp: issued_for_def createCode_def code_of_def)
    then show ?thesis
      using st1 2(5) OpAuthorize by (cases "c = uuid") (auto simp: createCode_def code_of_def)
  qed
next
  case (OpToken rq i)
  have "js_get (oa_codes (snd (consumeCode k st))) c = Some e \<Longrightarrow> \<exists>d. js_get (oa_codes st) c = Some d \<and> cd_clientId e = cd_clientId d \<and>
      cd_redirectUri e = cd_redirectUri d \<and> cd_scope e = cd_scope d \<and> cd_subjectId e = cd_subjectId d" for k
    by (auto simp: consumeCode_def split: option.splits if_splits)
  then show ?thesis
    using assms(2) OpToken code_grant_codes[of S rq i st] refresh_frame[of S rq i st]
    by (auto simp: oauth_step_def token_def split: option.splits if_splits)
qed (use assms(2) in \<open>auto simp: oauth_step_def grantConsent_def saveConsent_def revoke_def revokeToken_def registerClient_def split: option.splits\<close>)

lemma codes_issued:
  assumes "oa_codes st = []" "clients_named st"
  shows "js_get (oa_codes (oauth_run S st ops)) c = Some e \<Longrightarrow>
    \<exists>ops1 q s now ops2 client. ops = ops1 @ OpAuthorize q s now c # ops2 \<and> issued_for (oauth_run S st ops1) q s client e"
proof (induction ops arbitrary: e rule: rev_induct)
  case Nil
  then show ?case
    using assms(1) by (simp add: oauth_run_def)
next
  case (snoc op ops)
  from codes_step[OF named_run[OF assms(2)] snoc.prems[unfolded oauth_run_snoc]] show ?case
  proof (elim disjE exE conjE)
    fix d
    assume d: "js_get (oa_codes (oauth_run S st ops)) c = Some d" "cd_clientId e = cd_clientId d" "cd_redirectUri e = cd_redirectUri d"
      "cd_scope e = cd_scope d" "cd_subjectId e = cd_subjectId d"
    obtain ops1 q s now ops2 client where i: "ops = ops1 @ OpAuthorize q s now c # ops2" "issued_for (oauth_run S st ops1) q s client d"
      using snoc.IH[OF d(1)] by blast
    then have "issued_for (oauth_run S st ops1) q s client e"
      using d(2-5) by (simp add: issued_for_def)
    with i(1) show ?thesis
      by (intro exI[of _ ops1] exI[of _ q] exI[of _ s] exI[of _ now] exI[of _ "ops2 @ [op]"] exI[of _ client]) simp
  qed blast
qed

text \<open>C10: Whatever came before, clients registered anew included, tokens granted for a code go back to the request that
  issued it: the client was registered then with the redirect URI the code was sent to, every word of the scope was
  allowed to the client and consented to by the subject then, and the exchange names no other client or URI.\<close>

theorem code_grant_within_client:
  assumes "oa_codes st = []" "clients_named st" "token S rq i (oauth_run S st ops) = (Inr g, st1)"
    "tq_grantType rq = js_str ''authorization_code''"
  shows "\<exists>c ops1 q s now ops2 client subject. tq_code rq = Some c \<and> ops = ops1 @ OpAuthorize q s now c # ops2 \<and>
    getClient (aq_clientId q) (oauth_run S st ops1) = Some client \<and> aq_redirectUri q \<in> set (cl_redirectUris client) \<and> s = Some subject \<and>
    (\<forall>x \<in> set (split_on 32 (gr_scope g)). x = [] \<or> x \<in> set (cl_allowedScopes client) \<and>
       (\<exists>n. getConsent (aq_clientId q) subject (oauth_run S st ops1) = Some n \<and> x \<in> set (cn_scopes n))) \<and>
    (filled (tq_redirectUri rq) = None \<or> tq_redirectUri rq = Some (aq_redirectUri q)) \<and>
    (filled (tq_clientId rq) = None \<or> tq_clientId rq = Some (aq_clientId q))"
proof -
  let ?st = "oauth_run S st ops"
  obtain c e client st2 where g: "tq_code rq = Some c" "c \<noteq> []" "js_get (oa_codes ?st) c = Some e" "\<not> cd_consumed e"
      "oa_clients st2 = oa_clients ?st" "check_code_request S (e\<lparr>cd_consumed := True\<rparr>) rq (in_now i) st2 = Inr client"
      "issueTokens S (cd_clientId e) (Some (JStr (cd_subjectId e))) (cd_scope e) (cd_nonce e) (cl_allowedGrantTypes client) i st2 = (Inr g, st1)"
    by (rule code_grant_cases[OF assms(3,4)])
  obtain ops1 q s now ops2 client1 where issued: "ops = ops1 @ OpAuthorize q s now c # ops2" "issued_for (oauth_run S st ops1) q s client1 e"
    using codes_issued[OF assms(1,2) g(3)] by blast
  have "filled (tq_redirectUri rq) = None \<or> tq_redirectUri rq = Some (cd_redirectUri e)"
      "filled (tq_clientId rq) = None \<or> tq_clientId rq = Some (cd_clientId e)"
    using g(6) by (auto simp: check_code_request_def split: option.splits if_splits)
  moreover have "x = [] \<or> x \<in> set (scope_list (aq_scope q))" if "x \<in> set (split_on 32 (gr_scope g))" for x
    using that issueTokens_grant(1)[OF g(7)] issued(2) joined_words by (simp add: issued_for_def)
  moreover have "s = Some (cd_subjectId e)"
    using issued(2) by (simp add: issued_for_def filled_def split: if_splits)
  ultimately show ?thesis
    using g(1) issued unfolding issued_for_def
    by (intro exI[of _ c] exI[of _ ops1] exI[of _ q] exI[of _ s] exI[of _ now] exI[of _ ops2] exI[of _ client1] exI[of _ "cd_subjectId e"]) auto
qed


section \<open>An honest client gets its tokens\<close>

text \<open>The claims a signed token carries.\<close>

definition carries_claims :: "json_object \<Rightarrow> (string \<times> json) list \<Rightarrow> bool" where
  "carries_claims claims expected \<longleftrightarrow> (\<forall>(n, v) \<in> set expected. claim claims n = Some v)"

definition signed_as :: "'k oauth_server \<Rightarrow> signature_algorithm \<Rightarrow> 'k \<Rightarrow> json_object signing_key \<Rightarrow> int \<Rightarrow> int \<Rightarrow> jsstr \<Rightarrow> (string \<times> json) list \<Rightarrow> jsstr \<Rightarrow> bool" where
  "signed_as S a k r life now uuid expected t \<longleftrightarrow> (\<exists>claims. carries_claims claims expected \<and>
     t = signJwt (os_crypto S) (ke_stringify (os_env S)) claims (signing_options a k (js_str (sk_kid r)) life) now uuid)"

lemma signed_token_claims:
  "signed_as S a k r life now uuid [(''iss'', JStr (os_issuer S)), (''sub'', s), (''aud'', JStr c), (''client_id'', JStr c), (''scope'', JStr sc),
     (''type'', JStr (js_str kind))]
   (signJwt (os_crypto S) (ke_stringify (os_env S)) (token_claims (os_issuer S) (Some s) c sc kind) (signing_options a k (js_str (sk_kid r)) life) now uuid)"
  unfolding signed_as_def
  by (rule exI[of _ "token_claims (os_issuer S) (Some s) c sc kind"]) (simp add: carries_claims_def token_claims_def claim_def js_str_def)

lemma signed_id_claims:
  "signed_as S a k r life now uuid [(''iss'', JStr (os_issuer S)), (''sub'', s), (''aud'', JStr c)]
   (signJwt (os_crypto S) (ke_stringify (os_env S)) (id_claims (os_issuer S) (Some s) c nonce t) (signing_options a k (js_str (sk_kid r)) life) now uuid)"
  unfolding signed_as_def
  by (rule exI[of _ "id_claims (os_issuer S) (Some s) c nonce t"]) (simp add: carries_claims_def id_claims_def claim_def js_str_def)

lemma issueTokens_ok:
  assumes "signingKey (os_env S) (os_algorithm S) (in_pair i) (in_now i) (oa_keys st) = Inr ((r, k), keys1)"
    "algorithm_of_record r = Inr a"
  shows "\<exists>g st1. issueTokens S c (Some s) sc n gt i st = (Inr g, st1) \<and> gr_scope g = sc \<and>
    signed_as S a k r (os_accessTokenLifetimeSeconds S) (in_now i) (in_access i)
      [(''iss'', JStr (os_issuer S)), (''sub'', s), (''aud'', JStr c), (''client_id'', JStr c), (''scope'', JStr sc), (''type'', JStr (js_str ''access_token''))]
      (gr_access_token g) \<and>
    (case gr_id_token g of
       None \<Rightarrow> js_str ''openid'' \<notin> set (split_on 32 sc)
     | Some t \<Rightarrow> js_str ''openid'' \<in> set (split_on 32 sc) \<and>
         signed_as S a k r (os_accessTokenLifetimeSeconds S) (in_now i) (in_id i) [(''iss'', JStr (os_issuer S)), (''sub'', s), (''aud'', JStr c)] t) \<and>
    (case gr_refresh_token g of
       None \<Rightarrow> js_str ''refresh_token'' \<notin> set gt
     | Some t \<Rightarrow> js_str ''refresh_token'' \<in> set gt \<and> \<not> isRevoked t st1 \<and>
         signed_as S a k r (os_refreshTokenLifetimeSeconds S) (in_now i) (in_refresh i)
           [(''iss'', JStr (os_issuer S)), (''sub'', s), (''aud'', JStr c), (''client_id'', JStr c), (''scope'', JStr sc), (''type'', JStr (js_str ''refresh_token''))] t)"
  using assms by (simp add: issueTokens_def Let_def signed_token_claims signed_id_claims isRevoked_def saveRefreshToken_def)

lemma issueTokens_grants_iff:
  "(\<exists>g. fst (issueTokens S c s sc n gt i st) = Inr g) \<longleftrightarrow>
    (\<exists>r k keys1 a. signingKey (os_env S) (os_algorithm S) (in_pair i) (in_now i) (oa_keys st) = Inr ((r, k), keys1) \<and>
       algorithm_of_record r = Inr a)"
  by (auto simp: issueTokens_def Let_def split: sum.splits)

text \<open>Operations that neither present a code nor draw its identifier nor register its client.\<close>

definition leaves_code :: "jsstr \<Rightarrow> jsstr \<Rightarrow> oauth_op \<Rightarrow> bool" where
  "leaves_code u c op \<longleftrightarrow> (case op of
     OpAuthorize _ _ _ x \<Rightarrow> x \<noteq> u | OpToken q _ \<Rightarrow> tq_code q \<noteq> Some u | OpRegister cl \<Rightarrow> cl_clientId cl \<noteq> c | _ \<Rightarrow> True)"

lemma code_left:
  assumes "leaves_code u c op"
  shows "js_get (oa_codes (oauth_step S st op)) u = js_get (oa_codes st) u \<and> getClient c (oauth_step S st op) = getClient c st"
proof (cases op)
  case (OpAuthorize rq s now uuid)
  then show ?thesis
    using assms authorize_cases[of S rq s now uuid st]
    by (cases "authorize S rq s now uuid st") (auto simp: oauth_step_def createCode_def leaves_code_def code_of_def getClient_def)
next
  case (OpToken rq i)
  have "k \<noteq> u \<Longrightarrow> js_get (oa_codes (snd (consumeCode k st))) u = js_get (oa_codes st) u" for k
    by (simp add: consumeCode_def split: option.split)
  then show ?thesis
    using assms OpToken code_grant_codes[of S rq i st] code_grant_clients[of S rq i st] refresh_frame[of S rq i st]
    by (auto simp: oauth_step_def token_def leaves_code_def filled_def getClient_def split: option.splits)
qed (use assms in \<open>auto simp: oauth_step_def leaves_code_def grantConsent_def saveConsent_def revoke_def revokeToken_def registerClient_def
    getClient_def split: option.splits\<close>)

lemma code_left_run:
  "\<forall>op \<in> set ops. leaves_code u c op \<Longrightarrow>
    js_get (oa_codes (oauth_run S st ops)) u = js_get (oa_codes st) u \<and> getClient c (oauth_run S st ops) = getClient c st"
proof (induction ops rule: rev_induct)
  case (snoc op ops)
  then show ?case
    using code_left[of u c op S "oauth_run S st ops"] by (simp add: oauth_run_snoc)
qed (simp add: oauth_run_def)

lemma code_flow:
  assumes "authorize S rq s now uuid st = (Inr (Redirect uri uuid x), st1)" "clients_named st" "uuid \<noteq> []"
    "getClient (aq_clientId rq) st = Some client"
    "isValidCodeVerifier verifier" "verifier \<noteq> []" "aq_codeChallenge rq = Some (computeS256Challenge (os_env S) verifier)"
    "aq_codeChallengeMethod rq \<in> {None, Some (js_str ''S256'')}" "\<forall>op \<in> set ops. leaves_code uuid (aq_clientId rq) op"
    "tk = \<lparr>tq_grantType = js_str ''authorization_code'', tq_code = Some uuid, tq_codeVerifier = Some verifier, tq_redirectUri = Some uri,
       tq_clientId = Some (aq_clientId rq), tq_clientSecret = cl_clientSecret client, tq_refreshToken = None, tq_scope = None\<rparr>"
    "in_now i < now + os_codeLifetimeSeconds S"
  obtains subject nonce st2 where "s = Some subject" "oa_keys st2 = oa_keys (oauth_run S st1 ops)"
    "token S tk i (oauth_run S st1 ops) = issueTokens S (aq_clientId rq) (Some (JStr subject)) (join_with [32] (scope_list (aq_scope rq))) nonce
       (cl_allowedGrantTypes client) i st2"
proof -
  obtain client' challenge subject where a: "getClient (aq_clientId rq) st = Some client'" "filled (aq_codeChallenge rq) = Some challenge"
      "uri = aq_redirectUri rq" "filled s = Some subject" "st1 = createCode (code_of S rq client' challenge subject now uuid) st"
    using authorize_cases[OF assms(1)] by auto
  then have c: "client' = client" "challenge = computeS256Challenge (os_env S) verifier" "cl_clientId client = aq_clientId rq" "s = Some subject"
    using assms(2,4,7) by (auto simp: filled_def clients_named_def split: if_splits)
  let ?e = "code_of S rq client challenge subject now uuid" and ?st = "oauth_run S st1 ops"
  let ?st2 = "?st\<lparr>oa_codes := js_set uuid (?e\<lparr>cd_consumed := True\<rparr>) (oa_codes ?st)\<rparr>"
  have "js_get (oa_codes ?st) uuid = Some ?e" "getClient (aq_clientId rq) ?st = Some client"
    using code_left_run[OF assms(9), of S st1] a c by (simp_all add: createCode_def code_of_def getClient_def)
  then have con: "consumeCode uuid ?st = (Some (?e\<lparr>cd_consumed := True\<rparr>), ?st2)" and cl: "getClient (aq_clientId rq) ?st2 = Some client"
    by (simp_all add: consumeCode_def code_of_def getClient_def)
  have check: "check_code_request S (?e\<lparr>cd_consumed := True\<rparr>) tk (in_now i) ?st2 = Inr client"
    using a c cl assms(4-8,10,11) by (auto simp: check_code_request_def code_of_def filled_def pkce_matches_def)
  have "token S tk i ?st = issueTokens S (aq_clientId rq) (Some (JStr subject)) (join_with [32] (scope_list (aq_scope rq))) (aq_nonce rq)
      (cl_allowedGrantTypes client) i ?st2"
    using con check assms(3,10) c(3) by (simp add: token_def handleAuthorizationCodeGrant_def filled_def code_of_def)
  then show ?thesis
    using c(4) by (intro that[of subject ?st2 "aq_nonce rq"]) simp_all
qed

text \<open>C40: The client that was redirected with a code and holds the verifier gets its tokens, whatever happens in between
  that leaves its code and its registration alone: the access token is signed by the server for the subject, the client
  and exactly the scope that was asked; an id token comes if and only if that scope has \<^verbatim>\<open>openid\<close>, and a live refresh token
  if and only if the client may refresh, both for the same subject and client.\<close>

theorem honest_code_flow:
  assumes "authorize S rq s now uuid st = (Inr (Redirect uri uuid x), st1)" "clients_named st" "uuid \<noteq> []"
    "getClient (aq_clientId rq) st = Some client"
    "isValidCodeVerifier verifier" "verifier \<noteq> []" "aq_codeChallenge rq = Some (computeS256Challenge (os_env S) verifier)"
    "aq_codeChallengeMethod rq \<in> {None, Some (js_str ''S256'')}" "\<forall>op \<in> set ops. leaves_code uuid (aq_clientId rq) op"
    "tk = \<lparr>tq_grantType = js_str ''authorization_code'', tq_code = Some uuid, tq_codeVerifier = Some verifier, tq_redirectUri = Some uri,
       tq_clientId = Some (aq_clientId rq), tq_clientSecret = cl_clientSecret client, tq_refreshToken = None, tq_scope = None\<rparr>"
    "in_now i < now + os_codeLifetimeSeconds S"
    "signingKey (os_env S) (os_algorithm S) (in_pair i) (in_now i) (oa_keys (oauth_run S st1 ops)) = Inr ((r, k), keys1)" "algorithm_of_record r = Inr a"
    "scope = join_with [32] (scope_list (aq_scope rq))"
    "base = [(''iss'', JStr (os_issuer S)), (''sub'', JStr (the s)), (''aud'', JStr (aq_clientId rq))]"
    "bearer = base @ [(''client_id'', JStr (aq_clientId rq)), (''scope'', JStr scope)]"
  shows "\<exists>g st2. token S tk i (oauth_run S st1 ops) = (Inr g, st2) \<and> gr_scope g = scope \<and>
    signed_as S a k r (os_accessTokenLifetimeSeconds S) (in_now i) (in_access i) (bearer @ [(''type'', JStr (js_str ''access_token''))]) (gr_access_token g) \<and>
    (case gr_id_token g of
       None \<Rightarrow> js_str ''openid'' \<notin> set (split_on 32 scope)
     | Some t \<Rightarrow> js_str ''openid'' \<in> set (split_on 32 scope) \<and> signed_as S a k r (os_accessTokenLifetimeSeconds S) (in_now i) (in_id i) base t) \<and>
    (case gr_refresh_token g of
       None \<Rightarrow> js_str ''refresh_token'' \<notin> set (cl_allowedGrantTypes client)
     | Some t \<Rightarrow> js_str ''refresh_token'' \<in> set (cl_allowedGrantTypes client) \<and> \<not> isRevoked t st2 \<and>
         signed_as S a k r (os_refreshTokenLifetimeSeconds S) (in_now i) (in_refresh i) (bearer @ [(''type'', JStr (js_str ''refresh_token''))]) t)"
proof -
  obtain subject nonce st2 where t: "s = Some subject" "oa_keys st2 = oa_keys (oauth_run S st1 ops)"
      "token S tk i (oauth_run S st1 ops) = issueTokens S (aq_clientId rq) (Some (JStr subject)) scope nonce (cl_allowedGrantTypes client) i st2"
    using code_flow[OF assms(1-11)] unfolding assms(14) by metis
  have "signingKey (os_env S) (os_algorithm S) (in_pair i) (in_now i) (oa_keys st2) = Inr ((r, k), keys1)"
    unfolding t(2) by (rule assms(12))
  then show ?thesis
    unfolding t(1,3) assms(15,16) append.simps option.sel using assms(13) by (rule issueTokens_ok)
qed

section \<open>Revocation\<close>

definition dead :: "jsstr \<Rightarrow> oauth_state \<Rightarrow> bool" where
  "dead t st \<longleftrightarrow> (\<forall>r. js_get (oa_tokens st) t = Some r \<longrightarrow> rr_revoked r)"

text \<open>Some operation of the history hands out the token \<open>t\<close>.\<close>

fun hands_out :: "'k oauth_server \<Rightarrow> jsstr \<Rightarrow> oauth_state \<Rightarrow> oauth_op list \<Rightarrow> bool" where
  "hands_out S t st [] \<longleftrightarrow> False"
| "hands_out S t st (op # ops) \<longleftrightarrow>
     (case op of OpToken rq i \<Rightarrow> (case fst (token S rq i st) of Inr g \<Rightarrow> gr_refresh_token g = Some t | Inl _ \<Rightarrow> False) | _ \<Rightarrow> False)
     \<or> hands_out S t (oauth_step S st op) ops"

lemma issueTokens_tokens:
  "oa_tokens (snd (issueTokens S c s sc n gt i st)) = oa_tokens st \<or>
    (\<exists>g t r. fst (issueTokens S c s sc n gt i st) = Inr g \<and> gr_refresh_token g = Some t \<and>
       oa_tokens (snd (issueTokens S c s sc n gt i st)) = js_set t r (oa_tokens st))"
  by (auto simp: issueTokens_def Let_def saveRefreshToken_def split: sum.splits prod.splits)

lemma token_tokens:
  "oa_tokens (snd (token S rq i st)) = oa_tokens st \<or>
    (\<exists>g t r. fst (token S rq i st) = Inr g \<and> gr_refresh_token g = Some t \<and> oa_tokens (snd (token S rq i st)) = js_set t r (oa_tokens st))"
proof -
  have code: "oa_tokens (snd (consumeCode c st)) = oa_tokens st" for c
    by (auto simp: consumeCode_def split: option.splits)
  have "oa_tokens (snd (handleAuthorizationCodeGrant S rq i st)) = oa_tokens st \<or>
      (\<exists>c' s sc n gt st1. handleAuthorizationCodeGrant S rq i st = issueTokens S c' s sc n gt i st1 \<and> oa_tokens st1 = oa_tokens st)"
    using code by (auto simp: handleAuthorizationCodeGrant_def split: option.splits prod.splits sum.splits) (metis snd_conv)+
  moreover have "oa_tokens (snd (handleRefreshTokenGrant S rq i st)) = oa_tokens st \<or>
      (\<exists>c' s sc n gt st1. handleRefreshTokenGrant S rq i st = issueTokens S c' s sc n gt i st1 \<and> oa_tokens st1 = oa_tokens st)"
    using verify_frame(3)[of S _ i st]
    by (auto simp: handleRefreshTokenGrant_def Let_def split: option.splits prod.splits sum.splits json.splits) (metis snd_conv)+
  ultimately show ?thesis
    using issueTokens_tokens[of S] by (simp add: token_def) metis
qed

lemma dead_step:
  assumes "dead t st" "\<not> hands_out S t st [op]"
  shows "dead t (oauth_step S st op)"
proof (cases op)
  case (OpAuthorize rq s now uuid)
  then show ?thesis
    using assms(1) authorize_cases[of S rq s now uuid st]
    by (cases "authorize S rq s now uuid st") (auto simp: dead_def oauth_step_def createCode_def)
next
  case (OpToken rq i)
  then show ?thesis
    using assms token_tokens[of S rq i st] by (auto simp: dead_def oauth_step_def)
qed (use assms(1) in \<open>auto simp: dead_def oauth_step_def grantConsent_def saveConsent_def revoke_def revokeToken_def registerClient_def split: option.splits\<close>)

lemma dead_run: "dead t st \<Longrightarrow> \<not> hands_out S t st ops \<Longrightarrow> dead t (oauth_run S st ops)"
  unfolding oauth_run_def
proof (induction ops arbitrary: st)
  case (Cons op ops)
  then show ?case
    using dead_step[of t st S op] by simp
qed simp

text \<open>A revoked refresh token is refused from then on, in every later state, unless it is handed out again.\<close>

theorem revocation_is_final:
  assumes "\<not> hands_out S t (snd (revoke t st)) ops" "t \<noteq> []"
    "tq_grantType rq = js_str ''refresh_token''" "tq_refreshToken rq = Some t"
  shows "fst (token S rq i (oauth_run S (snd (revoke t st)) ops)) = Inl (AuthError 400 ''invalid_grant'')"
proof -
  have "dead t (snd (revoke t st))"
    by (auto simp: dead_def revoke_def revokeToken_def split: option.splits)
  then have "dead t (oauth_run S (snd (revoke t st)) ops)"
    using assms(1) by (rule dead_run)
  then have "isRevoked t (oauth_run S (snd (revoke t st)) ops)"
    by (auto simp: dead_def isRevoked_def split: option.splits)
  then show ?thesis
    using assms(2-4) by (simp add: token_def handleRefreshTokenGrant_def filled_def js_str_def)
qed

section \<open>What a refresh does not check\<close>

lemma refresh_cases:
  assumes "handleRefreshTokenGrant S rq i st = (Inr g, st2)"
  obtains t claims st1 c cl s where "filled (tq_refreshToken rq) = Some t" "\<not> isRevoked t st" "verify_with_service S t i st = (Inr claims, st1)"
      "claim claims ''type'' = Some (JStr (js_str ''refresh_token''))" "claim claims ''client_id'' = Some (JStr c)" "getClient c st1 = Some cl"
      "issueTokens S c (claim claims ''sub'') s None (cl_allowedGrantTypes cl) i st1 = (Inr g, st2)"
proof -
  obtain t where t: "filled (tq_refreshToken rq) = Some t" "\<not> isRevoked t st"
    using assms by (cases "filled (tq_refreshToken rq)") (auto simp: handleRefreshTokenGrant_def split: if_splits)
  obtain claims st1 where v: "verify_with_service S t i st = (Inr claims, st1)"
    using assms t by (cases "verify_with_service S t i st"; cases "fst (verify_with_service S t i st)") (auto simp: handleRefreshTokenGrant_def)
  obtain c where c: "claim claims ''client_id'' = Some (JStr c)"
    using assms t v by (auto simp: handleRefreshTokenGrant_def split: if_splits option.splits json.splits)
  obtain cl where cl: "claim claims ''type'' = Some (JStr (js_str ''refresh_token''))" "getClient c st1 = Some cl"
    using assms t v c by (cases "getClient c st1") (auto simp: handleRefreshTokenGrant_def split: if_splits)
  obtain s where "issueTokens S c (claim claims ''sub'') s None (cl_allowedGrantTypes cl) i st1 = (Inr g, st2)"
    using assms t v c cl by (auto simp: handleRefreshTokenGrant_def split: option.splits json.splits)
  then show thesis
    using t v c cl by (intro that[of t claims st1 c cl s])
qed

text \<open>A refresh request that is granted is granted again with any other scope, any client named and any secret: the
  new tokens carry the scope that was asked.\<close>

theorem refresh_widens_scope:
  assumes "fst (token S rq i st) = Inr g" "tq_grantType rq = js_str ''refresh_token''" "scope \<noteq> []"
  shows "\<exists>g'. fst (token S (rq\<lparr>tq_scope := Some scope, tq_clientId := client, tq_clientSecret := secret\<rparr>) i st) = Inr g' \<and> gr_scope g' = scope"
proof -
  obtain st2 where g: "handleRefreshTokenGrant S rq i st = (Inr g, st2)"
    using assms(1,2) by (cases "token S rq i st") (simp add: token_def js_str_def)
  obtain t claims st1 c cl s where v: "filled (tq_refreshToken rq) = Some t" "\<not> isRevoked t st" "verify_with_service S t i st = (Inr claims, st1)"
      "claim claims ''type'' = Some (JStr (js_str ''refresh_token''))" "claim claims ''client_id'' = Some (JStr c)" "getClient c st1 = Some cl"
      "issueTokens S c (claim claims ''sub'') s None (cl_allowedGrantTypes cl) i st1 = (Inr g, st2)"
    using refresh_cases[OF g] by metis
  let ?g = "issueTokens S c (claim claims ''sub'') scope None (cl_allowedGrantTypes cl) i st1"
  obtain g' where "fst ?g = Inr g'"
    using v(7) issueTokens_grants_iff[of S c _ _ None _ i st1] by (metis fst_conv)
  moreover have "token S (rq\<lparr>tq_scope := Some scope, tq_clientId := client, tq_clientSecret := secret\<rparr>) i st = ?g"
    using v assms(2,3) by (simp add: token_def handleRefreshTokenGrant_def filled_def js_str_def)
  moreover have "gr_scope g' = scope"
    using \<open>fst ?g = Inr g'\<close> issueTokens_grant(1) by (metis prod.collapse)
  ultimately show ?thesis
    by simp
qed


section \<open>The plain challenge method\<close>

text \<open>The discovery document offers \<open>S256\<close> only, and yet a request whose challenge is the verifier in clear, with the
  method \<open>plain\<close>, gets its code and the code its check.\<close>

theorem plain_challenge_accepted:
  assumes "fst (authorize S rq s now uuid st) = Inr (Redirect uri uuid x)" "filled (aq_codeChallenge rq) = Some verifier"
  shows "js_str ''plain'' \<notin> set (dd_challenge_methods (discovery S)) \<and>
    (\<exists>e. fst (authorize S (rq\<lparr>aq_codeChallengeMethod := Some (js_str ''plain'')\<rparr>) s now uuid st) = Inr (Redirect uri uuid x) \<and>
       js_get (oa_codes (snd (authorize S (rq\<lparr>aq_codeChallengeMethod := Some (js_str ''plain'')\<rparr>) s now uuid st))) uuid = Some e \<and>
       pkce_matches (os_env S) e verifier)"
proof -
  let ?rq = "rq\<lparr>aq_codeChallengeMethod := Some (js_str ''plain'')\<rparr>"
  have fst: "fst (authorize S ?rq s now uuid st) = Inr (Redirect uri uuid x)"
    using assms(1) by (auto simp: authorize_def Let_def split: option.splits if_splits)
  obtain st1 where "authorize S ?rq s now uuid st = (Inr (Redirect uri uuid x), st1)"
    using fst by (cases "authorize S ?rq s now uuid st") simp
  moreover from authorize_cases[OF this] have "\<exists>e. js_get (oa_codes st1) uuid = Some e \<and> pkce_matches (os_env S) e verifier"
    using assms(2) by (auto simp: createCode_def code_of_def pkce_matches_def js_str_def)
  ultimately show ?thesis
    using fst by (auto simp: discovery_def Let_def js_str_def)
qed

section \<open>Witnesses\<close>

definition demo_env :: "unit key_env" where
  "demo_env = okp_env\<lparr>ke_sha256 := (\<lambda>_. [0])\<rparr>"

definition shop :: oauth_client where
  "shop = \<lparr>cl_clientId = js_str ''c'', cl_clientSecret = None, cl_redirectUris = [js_str ''u''], cl_allowedGrantTypes = [],
     cl_allowedScopes = [js_str ''s''], cl_isPublic = True\<rparr>"

definition verifier43 :: jsstr where
  "verifier43 = replicate 43 97"

definition demo_server :: "unit oauth_server" where
  "demo_server = \<lparr>os_issuer = js_str ''i'', os_accessTokenLifetimeSeconds = 60, os_refreshTokenLifetimeSeconds = 60,
     os_codeLifetimeSeconds = 30, os_policy = None, os_algorithm = EdDSA, os_env = demo_env, os_crypto = okp_crypto\<rparr>"

definition demo_state :: oauth_state where
  "demo_state = \<lparr>oa_clients = [(js_str ''c'', shop)], oa_codes = [],
     oa_consents = [(consent_key (js_str ''c'') (js_str ''a''), \<lparr>cn_clientId = js_str ''c'', cn_subjectId = js_str ''a'', cn_scopes = [js_str ''s''], cn_grantedAt = 1\<rparr>)],
     oa_tokens = [], oa_keys = okp_keys\<rparr>"

definition demo_request :: authorization_request where
  "demo_request = \<lparr>aq_responseType = js_str ''code'', aq_clientId = js_str ''c'', aq_redirectUri = js_str ''u'', aq_scope = Some (js_str ''s''),
     aq_state = None, aq_codeChallenge = Some (computeS256Challenge demo_env verifier43), aq_codeChallengeMethod = None, aq_nonce = None\<rparr>"

definition demo_exchange :: token_request where
  "demo_exchange = \<lparr>tq_grantType = js_str ''authorization_code'', tq_code = Some (js_str ''k''), tq_codeVerifier = Some verifier43,
     tq_redirectUri = Some (js_str ''u''), tq_clientId = Some (js_str ''c''), tq_clientSecret = None, tq_refreshToken = None, tq_scope = None\<rparr>"

definition demo_input :: call_input where
  "demo_input = \<lparr>in_now = 110, in_wall = 110, in_pair = ([], []), in_access = [1], in_id = [2], in_refresh = [3]\<rparr>"

definition demo_ops :: "oauth_op list" where
  "demo_ops = [OpAuthorize demo_request (Some (js_str ''a'')) 100 (js_str ''k'')]"

lemma demo_import: "importFor demo_env (okp_record x kid t) b = Inr ()"
  by (simp add: importFor_def algorithm_of_record_def okp_record_def ALGORITHMS_def importJwk_def member_of_def labelled_def okp_pair_def
      okp_def demo_env_def okp_env_def)

lemma demo_signing: "signingKey demo_env EdDSA p t okp_keys = Inr ((okp_record ''a'' ''YQ'' 100, ()), okp_keys)"
  using okp_current by (simp add: signingKey_def demo_import)

lemma demo_algorithm: "algorithm_of_record (okp_record x k t) = Inr EdDSA"
  by (simp add: algorithm_of_record_def okp_record_def ALGORITHMS_def)

lemma demo_named: "clients_named demo_state"
  by (auto simp: clients_named_def demo_state_def getClient_def shop_def split: if_splits)

lemma challenge43: "computeS256Challenge demo_env verifier43 = js_str ''AA''"
  by (simp add: computeS256Challenge_def demo_env_def okp_env_def alpha_def ALPHABET_def js_str_def)

lemma demo_authorized:
  "authorize demo_server demo_request (Some (js_str ''a'')) 100 (js_str ''k'') demo_state =
    (Inr (Redirect (js_str ''u'') (js_str ''k'') None),
     createCode (code_of demo_server demo_request shop (computeS256Challenge demo_env verifier43) (js_str ''a'') 100 (js_str ''k'')) demo_state)"
  using challenge43
  by (simp add: authorize_def demo_request_def demo_state_def getClient_def shop_def filled_def js_str_def scope_list_def Let_def demo_server_def
      getConsent_def code_of_def)


lemma demo_grants:
  "\<exists>g st2. token demo_server demo_exchange demo_input (oauth_run demo_server demo_state demo_ops) = (Inr g, st2) \<and> gr_scope g = js_str ''s''"
proof -
  have "valid43": "isValidCodeVerifier verifier43"
    by (simp add: isValidCodeVerifier_def verifier43_def list_all_iff unreserved_def js_str_def)
  have "scope_list (Some (js_str ''s'')) = [js_str ''s'']"
    by (simp add: scope_list_def filled_def js_str_def)
  then have scope: "join_with [32] (scope_list (aq_scope demo_request)) = js_str ''s''"
    by (simp add: demo_request_def)
  let ?st = "createCode (code_of demo_server demo_request shop (computeS256Challenge demo_env verifier43) (js_str ''a'') 100 (js_str ''k'')) demo_state"
  obtain subject nonce st2 where "oa_keys st2 = oa_keys ?st"
      "token demo_server demo_exchange demo_input ?st = issueTokens demo_server (aq_clientId demo_request) (Some (JStr subject)) (js_str ''s'') nonce [] demo_input st2"
  proof (rule code_flow[OF demo_authorized demo_named, of shop verifier43 "[]" demo_exchange demo_input])
    fix subject nonce st2
    assume "oa_keys st2 = oa_keys (oauth_run demo_server ?st [])"
      "token demo_server demo_exchange demo_input (oauth_run demo_server ?st []) = issueTokens demo_server (aq_clientId demo_request) (Some (JStr subject))
        (join_with [32] (scope_list (aq_scope demo_request))) nonce (cl_allowedGrantTypes shop) demo_input st2"
    then show thesis
      unfolding scope by (intro that[of st2 subject nonce]) (simp_all add: oauth_run_def shop_def)
  qed (use valid43 in \<open>simp_all add: demo_request_def demo_exchange_def demo_server_def demo_state_def demo_input_def getClient_def shop_def js_str_def verifier43_def\<close>)
  then have "\<exists>g st2. token demo_server demo_exchange demo_input ?st = (Inr g, st2) \<and> gr_scope g = js_str ''s''"
    using issueTokens_ok[of demo_server demo_input st2 "okp_record ''a'' ''YQ'' 100" "()" okp_keys EdDSA] demo_signing demo_algorithm
    by (auto simp: demo_server_def demo_input_def createCode_def demo_state_def) blast
  then show ?thesis
    by (simp add: demo_ops_def oauth_run_def oauth_step_def demo_authorized)
qed


lemma code_serves_once_witness:
  "fst (token demo_server demo_exchange demo_input
      (oauth_run demo_server (snd (token demo_server demo_exchange demo_input (oauth_run demo_server demo_state demo_ops))) [OpRevoke [1]])) =
    Inl (AuthError 400 ''invalid_grant'')"
  by (rule code_serves_once[of _ "js_str ''k''"]) (simp_all add: demo_exchange_def js_str_def)

lemma code_grant_fully_checked_witness:
  "\<exists>e. js_get (oa_codes (oauth_run demo_server demo_state demo_ops)) (js_str ''k'') = Some e \<and> \<not> cd_consumed e \<and> 110 < cd_expiresAt e"
proof -
  obtain g st2 where "token demo_server demo_exchange demo_input (oauth_run demo_server demo_state demo_ops) = (Inr g, st2)"
    using demo_grants by blast
  from code_grant_fully_checked[OF this] show ?thesis
    by (auto simp: demo_exchange_def demo_input_def)
qed

lemma code_grant_within_client_witness:
  "\<exists>ops1 q s now ops2 client. demo_ops = ops1 @ OpAuthorize q s now (js_str ''k'') # ops2 \<and>
    getClient (aq_clientId q) (oauth_run demo_server demo_state ops1) = Some client"
proof -
  obtain g st2 where g: "token demo_server demo_exchange demo_input (oauth_run demo_server demo_state demo_ops) = (Inr g, st2)"
    using demo_grants by blast
  have codes: "oa_codes demo_state = []" and kind: "tq_grantType demo_exchange = js_str ''authorization_code''"
      and c: "tq_code demo_exchange = Some (js_str ''k'')"
    by (simp_all add: demo_state_def demo_exchange_def)
  from code_grant_within_client[OF codes demo_named g kind] c show ?thesis
    by (elim exE conjE) (simp, blast)
qed

lemma honest_code_flow_witness:
  "\<exists>g st2. token demo_server demo_exchange demo_input (oauth_run demo_server (createCode (code_of demo_server demo_request shop
      (computeS256Challenge demo_env verifier43) (js_str ''a'') 100 (js_str ''k'')) demo_state) [OpRevoke [9]]) = (Inr g, st2)"
proof -
  have valid43: "isValidCodeVerifier verifier43"
    by (simp add: isValidCodeVerifier_def verifier43_def list_all_iff unreserved_def js_str_def)
  let ?st = "createCode (code_of demo_server demo_request shop (computeS256Challenge demo_env verifier43) (js_str ''a'') 100 (js_str ''k'')) demo_state"
  have keys: "oa_keys (oauth_run demo_server ?st [OpRevoke [9]]) = okp_keys"
    by (simp add: oauth_run_def oauth_step_def revoke_def revokeToken_def createCode_def demo_state_def)
  have key: "signingKey (os_env demo_server) (os_algorithm demo_server) (in_pair demo_input) (in_now demo_input) (oa_keys (oauth_run demo_server ?st [OpRevoke [9]])) =
      Inr ((okp_record ''a'' ''YQ'' 100, ()), okp_keys)"
    unfolding keys using demo_signing by (simp add: demo_server_def)
  have "\<exists>g st2. token demo_server demo_exchange demo_input (oauth_run demo_server ?st [OpRevoke [9]]) = (Inr g, st2) \<and>
      gr_scope g = join_with [32] (scope_list (aq_scope demo_request))"
    by (rule exE[OF honest_code_flow[OF demo_authorized demo_named _ _ valid43 _ _ _ _ _ _ key demo_algorithm refl refl refl, of shop demo_exchange]])
      (auto simp: demo_request_def demo_exchange_def demo_server_def demo_state_def demo_input_def getClient_def shop_def js_str_def verifier43_def
        leaves_code_def)
  then show ?thesis
    by blast
qed

definition demo_refresh :: "jsstr \<Rightarrow> token_request" where
  "demo_refresh t = \<lparr>tq_grantType = js_str ''refresh_token'', tq_code = None, tq_codeVerifier = None, tq_redirectUri = None,
     tq_clientId = None, tq_clientSecret = None, tq_refreshToken = Some t, tq_scope = None\<rparr>"

lemma revocation_is_final_witness:
  "fst (token demo_server (demo_refresh [9]) demo_input (oauth_run demo_server (snd (revoke [9] demo_state)) [OpRevoke [9]])) =
    Inl (AuthError 400 ''invalid_grant'')"
  by (rule revocation_is_final) (simp_all add: demo_refresh_def)

definition demo_claims :: json_object where
  "demo_claims = [(js_str ''iss'', JStr (js_str ''i'')), (js_str ''client_id'', JStr (js_str ''c'')), (js_str ''scope'', JStr (js_str ''s'')),
     (js_str ''type'', JStr (js_str ''refresh_token''))]"

definition demo_text :: "json_object \<Rightarrow> jsstr" where
  "demo_text j = (if member_of j ''alg'' = None
     then js_str ''{\"iss\":\"i\",\"client_id\":\"c\",\"scope\":\"s\",\"type\":\"refresh_token\",\"iat\":100,\"exp\":160}'' else okp_header)"

definition demo_token :: jsstr where
  "demo_token = signJwt okp_crypto demo_text demo_claims okp_options 100 []"

definition demo_issued :: oauth_state where
  "demo_issued = demo_state\<lparr>oa_tokens := [(demo_token, \<lparr>rr_token = demo_token, rr_clientId = js_str ''c'', rr_subjectId = None,
     rr_scope = js_str ''s'', rr_expiresAt = 160, rr_revoked = False\<rparr>)]\<rparr>"

lemma demo_payload: "jwt_payload demo_claims okp_options 100 [] = demo_claims @ [(js_str ''iat'', JNum 100), (js_str ''exp'', JNum 160)]"
  by (simp add: jwt_payload_def okp_options_def Let_def set_claim_def demo_claims_def js_str_def)

lemma demo_json:
  "json_text (demo_text (signing_header (jwt_signing okp_options))) (JObj (signing_header (jwt_signing okp_options)))"
  "json_text (demo_text (jwt_payload demo_claims okp_options 100 [])) (JObj (jwt_payload demo_claims okp_options 100 []))"
proof -
  have header: "signing_header (jwt_signing okp_options) =
      [(js_str ''alg'', JStr (js_str ''EdDSA'')), (js_str ''kid'', JStr (js_str ''YQ'')), (js_str ''typ'', JStr (js_str ''JWT''))]"
    by (simp add: signing_header_def jwt_signing_def okp_options_def set_present_def ascii_of_names)
  show "json_text (demo_text (signing_header (jwt_signing okp_options))) (JObj (signing_header (jwt_signing okp_options)))"
    unfolding header by (simp add: json_text_def demo_text_def member_of_def okp_header_def js_str_def starts_with_bom_def is_high_def is_low_def json_rules)
  show "json_text (demo_text (jwt_payload demo_claims okp_options 100 [])) (JObj (jwt_payload demo_claims okp_options 100 []))"
    unfolding demo_payload
    by (simp add: json_text_def demo_text_def demo_claims_def member_of_def js_str_def starts_with_bom_def is_high_def is_low_def json_rules
        json_number_def json_digits_def json_integer_def json_fraction_def json_exponent_def digit_def digits_value_def number_value_def pow10_def)
qed


lemma demo_verified: "verify_with_service demo_server demo_token demo_input demo_issued =
    (Inr (demo_claims @ [(js_str ''iat'', JNum 100), (js_str ''exp'', JNum 160)]), demo_issued)"
proof -
  let ?v = "server_verification demo_server EdDSA okp_keys"
  let ?h = "\<lparr>jh_alg = EdDSA, jh_members = signing_header (jwt_signing okp_options)\<rparr>"
  have "js_get (jh_members ?h) (js_str ''kid'') = Some (JStr (js_str ''YQ''))"
    using signing_header_kid[of okp_options] by simp
  then have key: "verificationKey demo_env okp_keys ?h = Inr ()"
    by (simp add: verificationKey_named okp_keys_def demo_import)
  have claims: "claim (jwt_payload demo_claims okp_options 100 []) ''iss'' = Some (JStr (js_str ''i''))"
      "claim (jwt_payload demo_claims okp_options 100 []) ''exp'' = Some (JNum 160)"
      "claim (jwt_payload demo_claims okp_options 100 []) ''nbf'' = None"
      "claim (jwt_payload demo_claims okp_options 100 []) ''iat'' = Some (JNum 100)"
    unfolding demo_payload by (simp_all add: claim_def demo_claims_def js_str_def)
  have "issuer_ok (vo_issuer ?v) (jwt_payload demo_claims okp_options 100 [])"
      "times_ok (vo_requireExpiry ?v) (vo_maxTokenAgeSeconds ?v) (tolerance_of ?v) 110 (jwt_payload demo_claims okp_options 100 [])"
    by (simp_all add: issuer_ok_def times_ok_def claims permitted_of_def server_verification_def demo_server_def tolerance_of_def)
  then have "verifyJwt okp_crypto ?v 110 demo_token = Inr (?h, jwt_payload demo_claims okp_options 100 [])"
    unfolding demo_token_def
    using signed_jwt_verifies[of okp_crypto okp_options "()" ?v demo_text demo_claims 100 "[]" 110] demo_json key
    by (simp add: server_verification_def tolerance_of_def audience_ok_def subject_ok_def resolve_key_def service_keys_def signs_for_def
        okp_crypto_def params_name_def demo_server_def)
  moreover have "demo_issued\<lparr>oa_keys := okp_keys\<rparr> = demo_issued" "oa_keys demo_issued = okp_keys"
    by (simp_all add: demo_issued_def demo_state_def)
  ultimately show ?thesis
    using demo_signing demo_algorithm by (simp add: verify_with_service_def demo_payload demo_server_def demo_input_def)
qed

lemma demo_refreshed: "\<exists>g. fst (token demo_server (demo_refresh demo_token) demo_input demo_issued) = Inr g"
proof -
  have "demo_token \<noteq> []"
    by (simp add: demo_token_def signJwt_def signJws_def Let_def)
  moreover have "\<exists>g. fst (issueTokens demo_server c sb sc None gt demo_input demo_issued) = Inr g" for c sb sc gt
    unfolding issueTokens_grants_iff using demo_signing demo_algorithm
    by (auto simp: demo_server_def demo_issued_def demo_state_def demo_input_def)
  moreover have "getClient (js_str ''c'') demo_issued = Some shop" "\<not> isRevoked demo_token demo_issued"
    by (simp_all add: getClient_def demo_issued_def demo_state_def isRevoked_def)
  ultimately show ?thesis
    using demo_verified
    by (simp add: token_def demo_refresh_def js_str_def handleRefreshTokenGrant_def filled_def claim_def demo_claims_def)
qed

lemma refresh_widens_scope_witness:
  "\<exists>g'. fst (token demo_server ((demo_refresh demo_token)\<lparr>tq_scope := Some (js_str ''admin''), tq_clientId := Some (js_str ''other''),
      tq_clientSecret := None\<rparr>) demo_input demo_issued) = Inr g' \<and> gr_scope g' = js_str ''admin''"
proof -
  obtain g where "fst (token demo_server (demo_refresh demo_token) demo_input demo_issued) = Inr g"
    using demo_refreshed by blast
  then show ?thesis
    by (rule refresh_widens_scope) (simp_all add: demo_refresh_def js_str_def)
qed


lemma plain_challenge_accepted_witness:
  "fst (authorize demo_server (demo_request\<lparr>aq_codeChallengeMethod := Some (js_str ''plain'')\<rparr>) (Some (js_str ''a'')) 100 (js_str ''k'') demo_state) =
    Inr (Redirect (js_str ''u'') (js_str ''k'') None)"
proof -
  have "filled (aq_codeChallenge demo_request) = Some (js_str ''AA'')"
    using challenge43 by (simp add: demo_request_def filled_def js_str_def)
  then show ?thesis
    using plain_challenge_accepted[of demo_server demo_request "Some (js_str ''a'')" 100 "js_str ''k''" demo_state "js_str ''u''" None "js_str ''AA''"]
    by (simp add: demo_authorized)
qed

end
