(* ===== verification/Cron.thy ===== *)
theory Cron imports AsciiText begin

text \<open>
  Schedules of \<^verbatim>\<open>di-framework-core\<close>: the five-field expressions of \<^verbatim>\<open>container.ts\<close>, the search for the
  next matching minute, and the delay handed to the timer.

  A \<^verbatim>\<open>Date\<close> is a minute of universal time with the local calendar minute it shows, and the milliseconds into that
  minute are kept beside it.  The host's time zone is a parameter: the date that a setter makes of local fields.  So
  \<^verbatim>\<open>setMinutes(getMinutes() + 1)\<close> carries in the calendar and then reads the result in the zone, which may skip
  or repeat local minutes (zones whose offset is no whole number of minutes are left out).  An error is \<^verbatim>\<open>None\<close>.
  The lemmas show that the search returns the first match by the local clock in any zone, what it covers and which
  delays it leads to in a zone of fixed offset, what goes wrong where the clock is set back, and which schedules it
  misses.
\<close>

section \<open>Expressions\<close>

text \<open>\<^verbatim>\<open>parseInt(s, 10)\<close>; \<open>None\<close> is \<^verbatim>\<open>NaN\<close>.\<close>

definition parse_int :: "string \<Rightarrow> int option" where
  "parse_int s = (case take_sign (dropWhile is_space s) of (sg, t) \<Rightarrow>
     (let ds = takeWhile is_digit t in if ds = [] then None else Some (sg * int (digits_val ds))))"

definition parseCronField :: "string \<Rightarrow> int \<Rightarrow> int \<Rightarrow> int option list" where
  "parseCronField field lo hi =
     (if field = ''*'' then map Some [lo..hi]
      else if starts_with ''*/'' field
      then (case parse_int (drop 2 field) of
              None \<Rightarrow> []
            | Some step \<Rightarrow> map Some (filter (\<lambda>i. step \<noteq> 0 \<and> step dvd i) [lo..hi]))
      else if CHR '','' \<in> set field then map (\<lambda>s. parse_int (trim s)) (split_on CHR '','' field)
      else if CHR ''-'' \<in> set field
      then (case map (\<lambda>s. parse_int (trim s)) (split_on CHR ''-'' field) of
              Some a # Some b # _ \<Rightarrow> map Some [a..b]
            | _ \<Rightarrow> [])
      else [parse_int field])"

record cron_fields =
  cf_minute :: "int option list"
  cf_hour :: "int option list"
  cf_dayOfMonth :: "int option list"
  cf_month :: "int option list"
  cf_dayOfWeek :: "int option list"

text \<open>\<^verbatim>\<open>expr.trim().split(/\s+/)\<close>\<close>

definition cron_parts :: "string \<Rightarrow> string list" where
  "cron_parts expr = (let t = trim expr in if t = [] then [[]] else filter (\<lambda>p. p \<noteq> []) (split_if is_space t))"

definition parseCronExpression :: "string \<Rightarrow> cron_fields option" where
  "parseCronExpression expr =
     (case cron_parts expr of
        [a, b, c, d, e] \<Rightarrow>
          Some \<lparr>cf_minute = parseCronField a 0 59, cf_hour = parseCronField b 0 23, cf_dayOfMonth = parseCronField c 1 31,
            cf_month = parseCronField d 1 12, cf_dayOfWeek = parseCronField e 0 6\<rparr>
      | _ \<Rightarrow> None)"

section \<open>The calendar\<close>

record civil =
  cv_year :: int
  cv_month :: int
  cv_day :: int
  cv_hour :: int
  cv_minute :: int

definition leap_year :: "int \<Rightarrow> bool" where
  "leap_year y \<longleftrightarrow> 4 dvd y \<and> (\<not> 100 dvd y \<or> 400 dvd y)"

definition month_days :: "int \<Rightarrow> int \<Rightarrow> int" where
  "month_days y m = (if m = 2 then (if leap_year y then 29 else 28) else if m \<in> {4, 6, 9, 11} then 30 else 31)"

definition valid_civil :: "civil \<Rightarrow> bool" where
  "valid_civil c \<longleftrightarrow> 1 \<le> cv_month c \<and> cv_month c \<le> 12 \<and> 1 \<le> cv_day c \<and> cv_day c \<le> month_days (cv_year c) (cv_month c) \<and>
     0 \<le> cv_hour c \<and> cv_hour c \<le> 23 \<and> 0 \<le> cv_minute c \<and> cv_minute c \<le> 59"

text \<open>\<^verbatim>\<open>setMinutes(getMinutes() + 1)\<close>\<close>

definition next_minute :: "civil \<Rightarrow> civil" where
  "next_minute c =
     (if cv_minute c < 59 then c\<lparr>cv_minute := cv_minute c + 1\<rparr>
      else if cv_hour c < 23 then c\<lparr>cv_minute := 0, cv_hour := cv_hour c + 1\<rparr>
      else if cv_day c < month_days (cv_year c) (cv_month c) then c\<lparr>cv_minute := 0, cv_hour := 0, cv_day := cv_day c + 1\<rparr>
      else if cv_month c < 12 then c\<lparr>cv_minute := 0, cv_hour := 0, cv_day := 1, cv_month := cv_month c + 1\<rparr>
      else \<lparr>cv_year = cv_year c + 1, cv_month = 1, cv_day = 1, cv_hour = 0, cv_minute = 0\<rparr>)"

text \<open>Days before a year, before a month of it, and minutes since the start of year 1.\<close>

definition days_to :: "int \<Rightarrow> int" where
  "days_to y = 365 * (y - 1) + (y - 1) div 4 - (y - 1) div 100 + (y - 1) div 400"

definition year_day :: "int \<Rightarrow> int \<Rightarrow> int" where
  "year_day y m = sum_list (map (month_days y) [1..m - 1])"

definition day_number :: "civil \<Rightarrow> int" where
  "day_number c = days_to (cv_year c) + year_day (cv_year c) (cv_month c) + cv_day c - 1"

definition minute_number :: "civil \<Rightarrow> int" where
  "minute_number c = (day_number c * 24 + cv_hour c) * 60 + cv_minute c"

text \<open>\<^verbatim>\<open>getDay()\<close>, Sunday being 0: the first day of year 1 was a Monday.\<close>

definition weekday :: "civil \<Rightarrow> int" where
  "weekday c = (day_number c + 1) mod 7"

section \<open>The next matching minute\<close>

record js_date =
  jd_local :: civil
  jd_minute :: int

text \<open>A time zone: the date whose local fields are set to the given ones.\<close>

type_synonym time_zone = "civil \<Rightarrow> js_date"

definition fixed_zone :: "int \<Rightarrow> time_zone" where
  "fixed_zone offset c = \<lparr>jd_local = c, jd_minute = minute_number c - offset\<rparr>"

text \<open>\<^verbatim>\<open>setSeconds(0, 0)\<close> and \<^verbatim>\<open>setMinutes(getMinutes() + 1)\<close>\<close>

definition start_of_minute :: "time_zone \<Rightarrow> js_date \<Rightarrow> js_date" where
  "start_of_minute z d = z (jd_local d)"

definition advance_minute :: "time_zone \<Rightarrow> js_date \<Rightarrow> js_date" where
  "advance_minute z d = z (next_minute (jd_local d))"

definition cron_matches :: "cron_fields \<Rightarrow> civil \<Rightarrow> bool" where
  "cron_matches f c \<longleftrightarrow> Some (cv_minute c) \<in> set (cf_minute f) \<and> Some (cv_hour c) \<in> set (cf_hour f) \<and>
     Some (cv_day c) \<in> set (cf_dayOfMonth f) \<and> Some (cv_month c) \<in> set (cf_month f) \<and> Some (weekday c) \<in> set (cf_dayOfWeek f)"

fun search_minutes :: "time_zone \<Rightarrow> nat \<Rightarrow> cron_fields \<Rightarrow> js_date \<Rightarrow> js_date option" where
  "search_minutes z 0 f d = None"
| "search_minutes z (Suc n) f d = (if cron_matches f (jd_local d) then Some d else search_minutes z n f (advance_minute z d))"

definition SEARCH_LIMIT :: nat where
  "SEARCH_LIMIT = 1051920"

definition getNextCronTime :: "time_zone \<Rightarrow> cron_fields \<Rightarrow> js_date \<Rightarrow> js_date option" where
  "getNextCronTime z f from = search_minutes z SEARCH_LIMIT f (advance_minute z (start_of_minute z from))"

text \<open>The delay in milliseconds that \<^verbatim>\<open>scheduleNext\<close> hands to \<^verbatim>\<open>setTimeout\<close>; the time is a minute and the
  milliseconds into it.\<close>

definition timer_delay :: "time_zone \<Rightarrow> cron_fields \<Rightarrow> js_date \<Rightarrow> int \<Rightarrow> int option" where
  "timer_delay z f now ms = map_option (\<lambda>t. (jd_minute t - jd_minute now) * 60000 - ms) (getNextCronTime z f now)"

section \<open>Intervals\<close>

fun decimal :: "nat \<Rightarrow> string" where
  "decimal n = (if n < 10 then [char_of (48 + n)] else decimal (n div 10) @ [char_of (48 + n mod 10)])"

declare decimal.simps [simp del]

text \<open>\<^verbatim>\<open>normalizeCronExpression\<close> of a number of milliseconds, \<^verbatim>\<open>Math.round(x)\<close> being \<open>\<lfloor>x + 1/2\<rfloor>\<close>.\<close>

definition interval_minutes :: "rat \<Rightarrow> nat" where
  "interval_minutes schedule = nat (max 1 \<lfloor>schedule / 60000 + 1 / 2\<rfloor>)"

definition interval_expression :: "rat \<Rightarrow> string" where
  "interval_expression schedule =
     (let mins = interval_minutes schedule in if mins = 1 then ''* * * * *'' else ''*/'' @ decimal mins @ '' * * * *'')"

datatype schedule = Expression string | Interval rat

definition normalizeCronExpression :: "schedule \<Rightarrow> string" where
  "normalizeCronExpression s = (case s of Interval n \<Rightarrow> interval_expression n | Expression e \<Rightarrow> trim e)"

section \<open>The calendar counts\<close>

lemma div_step:
  fixes k y :: int
  assumes "0 < k"
  shows "y div k = (y - 1) div k + (if k dvd y then 1 else 0)"
proof (cases "k dvd y")
  case True
  then obtain q where "y = k * q" by blast
  then show ?thesis
    using assms int_div_pos_eq[of "y - 1" k "q - 1" "k - 1"] by (simp add: algebra_simps)
next
  case False
  then have "0 \<le> y mod k - 1"
    using assms by (simp add: dvd_eq_mod_eq_0 order_less_le)
  moreover have "y - 1 = k * (y div k) + (y mod k - 1)"
    by simp
  moreover have "y mod k - 1 < k"
    using assms pos_mod_bound[of k y] by linarith
  ultimately have "(y - 1) div k = y div k"
    by (intro int_div_pos_eq)
  then show ?thesis
    using False by simp
qed

lemma leap_dvd: "400 dvd y \<Longrightarrow> 100 dvd y" "100 dvd y \<Longrightarrow> 4 dvd y" for y :: int
  by (rule dvd_trans[rotated], assumption, simp)+

lemma leap_count:
  "(C \<longrightarrow> B) \<Longrightarrow> (B \<longrightarrow> A) \<Longrightarrow>
    (if A \<and> (\<not> B \<or> C) then 366 else 365) = 365 + (if A then 1 else 0) - (if B then 1 else 0) + (if C then 1 else (0::int))"
  by (cases A; cases B; cases C) simp_all

lemma day_sum:
  fixes y :: int
  assumes "q4 = p4 + a" "q100 = p100 + b" "q400 = p400 + c" "t = 365 * y + q4 - q100 + q400" "l = 365 + a - b + c"
  shows "t = 365 * (y - 1) + p4 - p100 + p400 + l"
  using assms by simp

lemma days_to_step: "days_to (y + 1) = days_to y + (if leap_year y then 366 else 365)"
proof -
  define a b c :: int where "a = (if 4 dvd y then 1 else 0)" and "b = (if 100 dvd y then 1 else 0)" and "c = (if 400 dvd y then 1 else 0)"
  have "y div 4 = (y - 1) div 4 + a" "y div 100 = (y - 1) div 100 + b" "y div 400 = (y - 1) div 400 + c"
    unfolding a_def b_def c_def by (rule div_step, simp)+
  moreover have "days_to (y + 1) = 365 * y + y div 4 - y div 100 + y div 400"
    unfolding days_to_def add_diff_cancel_right' by (rule refl)
  moreover have "(if leap_year y then 366 else 365) = 365 + a - b + c"
    unfolding leap_year_def a_def b_def c_def by (rule leap_count) (use leap_dvd[of y] in blast)+
  ultimately show ?thesis
    unfolding days_to_def[of y] by (rule day_sum)
qed

lemma year_day_step: "1 \<le> m \<Longrightarrow> year_day y (m + 1) = year_day y m + month_days y m"
  by (simp add: year_day_def upto_rec2)

lemma year_day_1 [simp]: "year_day y 1 = 0"
  by (simp add: year_day_def)

lemma year_days: "year_day y 12 = (if leap_year y then 335 else 334)"
proof -
  have "[1..12 - 1] = [1, 2, 3, 4, 5, 6, 7, 8, 9, 10, 11::int]"
    by (simp add: upto_rec1)
  then show ?thesis
    by (simp add: year_day_def month_days_def)
qed

lemma month_days_pos: "28 \<le> month_days y m" "month_days y m \<le> 31"
  by (simp_all add: month_days_def)

lemma next_minute_number:
  assumes "valid_civil c"
  shows "valid_civil (next_minute c) \<and> minute_number (next_minute c) = minute_number c + 1"
proof -
  consider "cv_minute c < 59" | "cv_minute c = 59" "cv_hour c < 23" | "cv_minute c = 59" "cv_hour c = 23" "cv_day c < month_days (cv_year c) (cv_month c)"
    | "cv_minute c = 59" "cv_hour c = 23" "cv_day c = month_days (cv_year c) (cv_month c)" "cv_month c < 12"
    | "cv_minute c = 59" "cv_hour c = 23" "cv_day c = month_days (cv_year c) (cv_month c)" "cv_month c = 12"
    using assms by (fastforce simp: valid_civil_def)
  then show ?thesis
  proof cases
    case 4
    then have "year_day (cv_year c) (cv_month c + 1) = year_day (cv_year c) (cv_month c) + cv_day c"
      using assms by (simp add: valid_civil_def year_day_step)
    then show ?thesis
      using 4 assms month_days_pos[of "cv_year c" "cv_month c + 1"]
      by (simp add: next_minute_def valid_civil_def minute_number_def day_number_def)
  next
    case 5
    have "cv_day c = 31"
      using 5 by (simp add: month_days_def)
    then show ?thesis
      using 5 days_to_step[of "cv_year c"] year_days[of "cv_year c"]
      by (simp add: next_minute_def valid_civil_def minute_number_def day_number_def month_days_def)
  qed (use assms in \<open>simp_all add: next_minute_def valid_civil_def minute_number_def day_number_def\<close>)
qed


lemma days_to_mono: "y < z \<Longrightarrow> days_to y + 365 \<le> days_to z"
proof (induction "nat (z - y)" arbitrary: z)
  case (Suc n)
  have step: "days_to z \<ge> days_to (z - 1) + 365"
    using days_to_step[of "z - 1"] by simp
  show ?case
  proof (cases "z = y + 1")
    case True
    then show ?thesis
      using step by simp
  next
    case False
    then have "y < z - 1" "n = nat (z - 1 - y)"
      using Suc.hyps(2) Suc.prems by linarith+
    then show ?thesis
      using Suc.hyps(1)[of "z - 1"] step by linarith
  qed
qed simp

lemma year_day_mono: "1 \<le> m \<Longrightarrow> m < n \<Longrightarrow> year_day y m + month_days y m \<le> year_day y n"
proof (induction "nat (n - m)" arbitrary: n)
  case (Suc k)
  have step: "year_day y n = year_day y (n - 1) + month_days y (n - 1)"
    using year_day_step[of "n - 1" y] Suc.prems by simp
  show ?case
  proof (cases "n = m + 1")
    case True
    then show ?thesis
      using step by simp
  next
    case False
    then have "m < n - 1" "k = nat (n - 1 - m)"
      using Suc.hyps(2) Suc.prems by linarith+
    then show ?thesis
      using Suc.hyps(1)[of "n - 1"] Suc.prems step month_days_pos[of y "n - 1"] by linarith
  qed
qed simp

lemma day_within_year:
  assumes "valid_civil c"
  shows "0 \<le> year_day (cv_year c) (cv_month c)" "year_day (cv_year c) (cv_month c) + cv_day c \<le> (if leap_year (cv_year c) then 366 else 365)"
proof -
  show "0 \<le> year_day (cv_year c) (cv_month c)"
    using assms year_day_mono[of 1 "cv_month c" "cv_year c"] month_days_pos[of "cv_year c" 1]
    by (cases "cv_month c = 1") (simp_all add: valid_civil_def)
  show "year_day (cv_year c) (cv_month c) + cv_day c \<le> (if leap_year (cv_year c) then 366 else 365)"
    using assms year_day_mono[of "cv_month c" 12 "cv_year c"] year_days[of "cv_year c"]
    by (cases "cv_month c = 12") (auto simp: valid_civil_def month_days_def)
qed

lemma day_number_bounds:
  assumes "valid_civil c"
  shows "days_to (cv_year c) \<le> day_number c" "day_number c < days_to (cv_year c + 1)"
  using day_within_year[OF assms] assms days_to_step[of "cv_year c"] by (auto simp: day_number_def valid_civil_def split: if_splits)

lemma day_number_year_mono:
  assumes "valid_civil c" "valid_civil d" "cv_year c < cv_year d"
  shows "day_number c < day_number d"
proof -
  have "days_to (cv_year c + 1) \<le> days_to (cv_year d)"
    using days_to_mono[of "cv_year c + 1" "cv_year d"] assms(3) by (cases "cv_year d = cv_year c + 1") simp_all
  then show ?thesis
    using day_number_bounds[OF assms(1)] day_number_bounds[OF assms(2)] by linarith
qed

lemma day_number_month_mono:
  assumes "valid_civil c" "valid_civil d" "cv_year c = cv_year d" "cv_month c < cv_month d"
  shows "day_number c < day_number d"
  using assms year_day_mono[of "cv_month c" "cv_month d" "cv_year c"] by (simp add: day_number_def valid_civil_def)

lemma day_number_inject:
  assumes "valid_civil c" "valid_civil d" "day_number c = day_number d"
  shows "cv_year c = cv_year d \<and> cv_month c = cv_month d \<and> cv_day c = cv_day d"
proof -
  have "cv_year c = cv_year d"
    using day_number_year_mono[of c d] day_number_year_mono[of d c] assms by force
  moreover have "cv_month c = cv_month d"
    using day_number_month_mono[of c d] day_number_month_mono[of d c] assms calculation by force
  ultimately show ?thesis
    using assms(3) by (simp add: day_number_def)
qed

lemma civil_fields:
  assumes "valid_civil x"
  shows "cv_minute x = minute_number x mod 60" "cv_hour x = minute_number x div 60 mod 24" "day_number x = minute_number x div 60 div 24"
proof -
  have v: "0 \<le> cv_minute x" "cv_minute x < 60" "0 \<le> cv_hour x" "cv_hour x < 24"
    using assms by (simp_all add: valid_civil_def)
  then have "minute_number x div 60 = day_number x * 24 + cv_hour x"
    by (simp add: minute_number_def)
  moreover have "minute_number x = 60 * (day_number x * 24 + cv_hour x) + cv_minute x"
    by (simp add: minute_number_def)
  then have "minute_number x mod 60 = cv_minute x"
    using v by (intro int_mod_pos_eq)
  ultimately show "cv_minute x = minute_number x mod 60" "cv_hour x = minute_number x div 60 mod 24" "day_number x = minute_number x div 60 div 24"
    using v by simp_all
qed

text \<open>Minutes are numbered without repetition.\<close>

lemma minute_number_inject:
  assumes "valid_civil c" "valid_civil d" "minute_number c = minute_number d"
  shows "c = d"
proof -
  have "day_number c = day_number d" "cv_minute c = cv_minute d" "cv_hour c = cv_hour d"
    using assms civil_fields[OF assms(1)] civil_fields[OF assms(2)] by simp_all
  then show ?thesis
    using day_number_inject[OF assms(1,2)] by simp
qed

section \<open>Time zones\<close>

text \<open>A local minute the clock shows; setting the fields of a date to it gives a date that shows it.\<close>

definition shown :: "time_zone \<Rightarrow> civil \<Rightarrow> bool" where
  "shown z c \<longleftrightarrow> valid_civil c \<and> jd_local (z c) = c"

text \<open>What a setter does in a zone: it goes from a minute that is shown to the next one that is, as a skipped minute is read
  with the offset before the gap.  A repeated minute may be read as either of its two times.\<close>

definition js_zone :: "time_zone \<Rightarrow> bool" where
  "js_zone z \<longleftrightarrow> (\<forall>c. shown z c \<longrightarrow> shown z (jd_local (z (next_minute c))) \<and> minute_number c < minute_number (jd_local (z (next_minute c))) \<and>
     z (jd_local (z (next_minute c))) = z (next_minute c) \<and>
     (\<forall>d. shown z d \<and> minute_number c < minute_number d \<longrightarrow> minute_number (jd_local (z (next_minute c))) \<le> minute_number d))"

lemma js_zone_total:
  assumes "\<And>c. valid_civil c \<Longrightarrow> jd_local (z c) = c"
  shows "js_zone z"
  using next_minute_number assms by (auto simp: js_zone_def shown_def)

lemma fixed_zone_simps [simp]: "jd_local (fixed_zone k c) = c" "jd_minute (fixed_zone k c) = minute_number c - k"
  by (simp_all add: fixed_zone_def)

lemma js_zone_fixed: "js_zone (fixed_zone k)"
  by (rule js_zone_total) simp

lemma shown_fixed [simp]: "shown (fixed_zone k) c \<longleftrightarrow> valid_civil c"
  by (simp add: shown_def)

section \<open>The search\<close>

lemma search_minutes_first:
  assumes "js_zone z" "shown z (jd_local s)" "z (jd_local s) = s"
  shows "case search_minutes z n f s of
      Some t \<Rightarrow> shown z (jd_local t) \<and> z (jd_local t) = t \<and> cron_matches f (jd_local t) \<and> minute_number (jd_local s) \<le> minute_number (jd_local t) \<and>
        (\<forall>d. shown z d \<and> minute_number (jd_local s) \<le> minute_number d \<and> minute_number d < minute_number (jd_local t) \<longrightarrow> \<not> cron_matches f d)
    | None \<Rightarrow> (\<forall>d. shown z d \<and> minute_number (jd_local s) \<le> minute_number d \<and> minute_number d < minute_number (jd_local s) + int n \<longrightarrow> \<not> cron_matches f d)"
  using assms(2,3)
proof (induction n arbitrary: s)
  case 0
  then show ?case by auto
next
  case (Suc n)
  let ?e = "advance_minute z s"
  have e: "shown z (jd_local ?e)" "z (jd_local ?e) = ?e" "minute_number (jd_local s) < minute_number (jd_local ?e)"
      "\<And>d. shown z d \<Longrightarrow> minute_number (jd_local s) < minute_number d \<Longrightarrow> minute_number (jd_local ?e) \<le> minute_number d"
    using assms(1) Suc.prems(1) unfolding js_zone_def advance_minute_def by blast+
  have "d = jd_local s" if "shown z d" "minute_number d = minute_number (jd_local s)" for d
    using that Suc.prems(1) minute_number_inject by (simp add: shown_def)
  then have split: "d = jd_local s \<or> minute_number (jd_local ?e) \<le> minute_number d" if "shown z d" "minute_number (jd_local s) \<le> minute_number d" for d
    using that e(4) by (metis order_le_less)
  show ?case
  proof (cases "cron_matches f (jd_local s)")
    case True
    then show ?thesis
      using Suc.prems by auto
  next
    case False
    then have step: "search_minutes z (Suc n) f s = search_minutes z n f ?e"
      by simp
    show ?thesis
      unfolding step using Suc.IH[OF e(1,2)] e(3) split False by (cases "search_minutes z n f ?e") fastforce+
  qed
qed

lemma search_start:
  assumes "js_zone z" "shown z (jd_local from)"
  shows "shown z (jd_local (advance_minute z (start_of_minute z from)))"
    "z (jd_local (advance_minute z (start_of_minute z from))) = advance_minute z (start_of_minute z from)"
    "minute_number (jd_local from) < minute_number (jd_local (advance_minute z (start_of_minute z from)))"
    "\<And>d. shown z d \<Longrightarrow> minute_number (jd_local from) < minute_number d \<Longrightarrow>
      minute_number (jd_local (advance_minute z (start_of_minute z from))) \<le> minute_number d"
  using assms unfolding js_zone_def advance_minute_def start_of_minute_def shown_def by simp_all

lemma next_cron_SomeD:
  assumes "js_zone z" "shown z (jd_local from)" "getNextCronTime z f from = Some t"
  shows "shown z (jd_local t)" "z (jd_local t) = t" "cron_matches f (jd_local t)" "minute_number (jd_local from) < minute_number (jd_local t)"
    "\<And>d. shown z d \<Longrightarrow> minute_number (jd_local from) < minute_number d \<Longrightarrow> minute_number d < minute_number (jd_local t) \<Longrightarrow> \<not> cron_matches f d"
  using search_minutes_first[OF assms(1) search_start(1,2)[OF assms(1,2)], of SEARCH_LIMIT f] search_start(3,4)[OF assms(1,2)] assms(3)
  unfolding getNextCronTime_def by force+

lemma next_cron_None:
  assumes "js_zone z" "shown z (jd_local from)" "getNextCronTime z f from = None" "shown z d" "minute_number (jd_local from) < minute_number d"
    "minute_number d \<le> minute_number (jd_local from) + 1051920"
  shows "\<not> cron_matches f d"
  using search_minutes_first[OF assms(1) search_start(1,2)[OF assms(1,2)], of SEARCH_LIMIT f] search_start(3,4)[OF assms(1,2)] assms(3-6)
  unfolding getNextCronTime_def SEARCH_LIMIT_def by force

text \<open>C18: In any time zone, gaps and repetitions included, the search returns the first minute the local clock shows after the
  given one that matches; it fails only if none of the next 1051920 local minutes matches.\<close>

theorem next_cron_time_is_first:
  assumes "js_zone z" "shown z (jd_local from)"
  shows "case getNextCronTime z f from of
      Some t \<Rightarrow> shown z (jd_local t) \<and> z (jd_local t) = t \<and> cron_matches f (jd_local t) \<and> minute_number (jd_local from) < minute_number (jd_local t) \<and>
        (\<forall>d. shown z d \<and> minute_number (jd_local from) < minute_number d \<and> minute_number d < minute_number (jd_local t) \<longrightarrow> \<not> cron_matches f d)
    | None \<Rightarrow> (\<forall>d. shown z d \<and> minute_number (jd_local from) < minute_number d \<and> minute_number d \<le> minute_number (jd_local from) + 1051920 \<longrightarrow>
        \<not> cron_matches f d)"
  using next_cron_SomeD[OF assms] next_cron_None[OF assms] by (cases "getNextCronTime z f from") simp_all

text \<open>In a zone of fixed offset the first match is also the next in time.\<close>

lemma fixed_limit:
  assumes "valid_civil (jd_local s)" "search_minutes (fixed_zone k) n f s = Some t"
  shows "minute_number (jd_local t) < minute_number (jd_local s) + int n"
  using assms
proof (induction n arbitrary: s)
  case (Suc n)
  have "valid_civil (jd_local (advance_minute (fixed_zone k) s)) \<and> minute_number (jd_local (advance_minute (fixed_zone k) s)) = minute_number (jd_local s) + 1"
    using next_minute_number[OF Suc.prems(1)] by (simp add: advance_minute_def)
  then show ?case
    using Suc.IH[of "advance_minute (fixed_zone k) s"] Suc.prems(2) by (simp split: if_splits)
qed simp

lemma fixed_next_le:
  assumes "valid_civil c" "getNextCronTime (fixed_zone k) f (fixed_zone k c) = Some t"
  shows "minute_number (jd_local t) \<le> minute_number c + 1051920" "jd_minute t = minute_number (jd_local t) - k"
proof -
  have "valid_civil (next_minute c)" "minute_number (next_minute c) = minute_number c + 1"
    using next_minute_number[OF assms(1)] by simp_all
  then show "minute_number (jd_local t) \<le> minute_number c + 1051920"
    using fixed_limit[of "fixed_zone k (next_minute c)" k SEARCH_LIMIT f t] assms(2)
    by (simp add: getNextCronTime_def advance_minute_def start_of_minute_def SEARCH_LIMIT_def)
  have "fixed_zone k (jd_local t) = t"
    using next_cron_SomeD(2)[OF js_zone_fixed _ assms(2)] assms(1) by simp
  then show "jd_minute t = minute_number (jd_local t) - k"
    by (metis fixed_zone_simps(2))
qed

lemma fixed_next_first:
  assumes "valid_civil c" "valid_civil t" "cron_matches f t" "minute_number c < minute_number t" "minute_number t \<le> minute_number c + 1051920"
    "\<And>d. valid_civil d \<Longrightarrow> minute_number c < minute_number d \<Longrightarrow> minute_number d < minute_number t \<Longrightarrow> \<not> cron_matches f d"
  shows "getNextCronTime (fixed_zone k) f (fixed_zone k c) = Some (fixed_zone k t)"
proof (cases "getNextCronTime (fixed_zone k) f (fixed_zone k c)")
  case None
  then show ?thesis
    using next_cron_None[OF js_zone_fixed _ None, of t] assms by simp
next
  case (Some u)
  note u = next_cron_SomeD[OF js_zone_fixed _ Some, unfolded fixed_zone_simps shown_fixed, OF assms(1)]
  have "minute_number (jd_local u) = minute_number t"
    using u(1,3,4) u(5)[OF assms(2,4)] assms(3) assms(6)[OF u(1)] by force
  then have "jd_local u = t"
    using minute_number_inject u(1) assms(2) by blast
  then show ?thesis
    using Some u(2) by simp
qed

text \<open>C19: In a zone of fixed offset a schedule fires unless none of the next 1051920 minutes matches; the delay is positive, at
  most 730.5 days, and leads to the first match.\<close>

theorem timer_delay_bounds:
  assumes "valid_civil now" "0 \<le> ms" "ms < 60000"
  shows "case timer_delay (fixed_zone offset) f (fixed_zone offset now) ms of
      Some d \<Rightarrow> 0 < d \<and> d \<le> 63115200000 \<and>
        (\<exists>t. valid_civil t \<and> cron_matches f t \<and> minute_number t * 60000 = minute_number now * 60000 + ms + d \<and>
          (\<forall>u. valid_civil u \<and> minute_number now < minute_number u \<and> minute_number u < minute_number t \<longrightarrow> \<not> cron_matches f u))
    | None \<Rightarrow> (\<forall>t. valid_civil t \<and> minute_number now < minute_number t \<and> minute_number t \<le> minute_number now + 1051920 \<longrightarrow> \<not> cron_matches f t)"
proof (cases "getNextCronTime (fixed_zone offset) f (fixed_zone offset now)")
  case None
  then show ?thesis
    using next_cron_None[OF js_zone_fixed _ None] assms(1) by (simp add: timer_delay_def)
next
  case (Some t)
  note t = next_cron_SomeD[OF js_zone_fixed _ Some, unfolded fixed_zone_simps shown_fixed, OF assms(1)] and le = fixed_next_le[OF assms(1) Some]
  have "timer_delay (fixed_zone offset) f (fixed_zone offset now) ms = Some ((minute_number (jd_local t) - minute_number now) * 60000 - ms)"
    using Some le(2) by (simp add: timer_delay_def)
  then show ?thesis
    using t le(1) assms(2,3) by (auto intro!: exI[of _ "jd_local t"])
qed

section \<open>The hour that is repeated\<close>

text \<open>A zone whose clock is set back when it shows the given time: repeated minutes are read with the offset before.\<close>

definition set_back_zone :: "civil \<Rightarrow> int \<Rightarrow> int \<Rightarrow> time_zone" where
  "set_back_zone switch before after c = (if minute_number c < minute_number switch then fixed_zone before c else fixed_zone after c)"

definition october :: "int \<Rightarrow> int \<Rightarrow> civil" where
  "october h m = \<lparr>cv_year = 2026, cv_month = 10, cv_day = 25, cv_hour = h, cv_minute = m\<rparr>"

text \<open>In the second hour between two and three of such a night the next minute is sought from the first: the delay is
  negative, so the timer fires at once, again and again until the hour is over.\<close>

theorem repeated_hour_delay_negative:
  "map_option (\<lambda>f. timer_delay (set_back_zone (october 3 0) 120 60) f (fixed_zone 60 (october 2 30)) 15000) (parseCronExpression ''* * * * *'') =
    Some (Some (- 3555000))"
proof -
  let ?z = "set_back_zone (october 3 0) 120 60"
  have number: "minute_number (october h m) = minute_number (october 0 0) + h * 60 + m" for h m
    by (simp add: october_def minute_number_def day_number_def)
  have z: "?z (october 2 m) = fixed_zone 120 (october 2 m)" if "m < 60" for m
    using that number[of 3 0] number[of 2 m] by (simp add: set_back_zone_def)
  have nxt: "next_minute (october 2 30) = october 2 31"
    by (simp add: next_minute_def october_def)
  have matches: "cron_matches \<lparr>cf_minute = map Some [0..59], cf_hour = map Some [0..23], cf_dayOfMonth = map Some [1..31],
      cf_month = map Some [1..12], cf_dayOfWeek = map Some [0..6]\<rparr> (october 2 31)" (is "cron_matches ?f _")
    by (auto simp: cron_matches_def october_def weekday_def)
  have "search_minutes ?z (Suc n) ?f (fixed_zone 120 (october 2 31)) = Some (fixed_zone 120 (october 2 31))" for n
    using matches by simp
  from this[of 1051919] have "getNextCronTime ?z ?f (fixed_zone 60 (october 2 30)) = Some (fixed_zone 120 (october 2 31))"
    using z[of 30] z[of 31] nxt by (simp add: getNextCronTime_def advance_minute_def start_of_minute_def SEARCH_LIMIT_def del: search_minutes.simps)
  moreover have "parseCronExpression ''* * * * *'' = Some ?f"
    by (simp add: parseCronExpression_def cron_parts_def trim_def is_space_def code_def parseCronField_def)
  ultimately show ?thesis
    using number[of 2 30] number[of 2 31] by (simp add: timer_delay_def)
qed

section \<open>Schedules that never fire, or at once\<close>

definition yearly :: cron_fields where
  "yearly = \<lparr>cf_minute = [Some 0], cf_hour = [Some 0], cf_dayOfMonth = [Some 1], cf_month = [Some 1], cf_dayOfWeek = map Some [0..6]\<rparr>"

definition leap_days :: cron_fields where
  "leap_days = \<lparr>cf_minute = [Some 0], cf_hour = [Some 0], cf_dayOfMonth = [Some 29], cf_month = [Some 2], cf_dayOfWeek = map Some [0..6]\<rparr>"

lemma parse_int_digits: "all_digits s \<Longrightarrow> parse_int s = Some (int (digits_val s))"
proof -
  assume s: "all_digits s"
  then obtain c t where c: "s = c # t" "is_digit c"
    by (cases s) (auto simp: all_digits_def)
  then have "dropWhile is_space s = s" "take_sign s = (1, s)"
    using digit_not_space[of c] digit_chars[of c] by (simp_all add: take_sign_def)
  moreover have "takeWhile is_digit s = s"
    using s by (simp add: all_digits_def list_all_iff takeWhile_eq_all_conv)
  ultimately show ?thesis
    using s by (simp add: parse_int_def Let_def del: takeWhile_eq_all_conv)
qed

lemma yearly_parsed: "parseCronExpression ''0 0 1 1 *'' = Some yearly"
  by (simp add: parseCronExpression_def cron_parts_def trim_def is_space_def code_def parseCronField_def yearly_def starts_with_def
      parse_int_def take_sign_def is_digit_def digits_val_def)

lemma leap_days_parsed: "parseCronExpression ''0 0 29 2 *'' = Some leap_days"
  by (simp add: parseCronExpression_def cron_parts_def trim_def is_space_def code_def parseCronField_def leap_days_def starts_with_def
      parse_int_def take_sign_def is_digit_def digits_val_def)

lemma minute_of_day: "valid_civil c \<Longrightarrow> minute_number c div 1440 = day_number c"
proof -
  assume "valid_civil c"
  then have "0 \<le> cv_hour c * 60 + cv_minute c" "cv_hour c * 60 + cv_minute c < 1440"
    by (simp_all add: valid_civil_def)
  moreover have "minute_number c = 1440 * day_number c + (cv_hour c * 60 + cv_minute c)"
    by (simp add: minute_number_def)
  ultimately show ?thesis
    by (intro int_div_pos_eq)
qed

lemma later_year:
  assumes "valid_civil c" "valid_civil d" "minute_number c \<le> minute_number d"
  shows "cv_year c \<le> cv_year d"
proof (rule ccontr)
  assume "\<not> cv_year c \<le> cv_year d"
  then have "day_number d < day_number c"
    using day_number_year_mono[OF assms(2,1)] by simp
  moreover have "day_number c \<le> day_number d"
    using assms(3) zdiv_mono1[of "minute_number c" "minute_number d" 1440] by (simp add: minute_of_day[OF assms(1)] minute_of_day[OF assms(2)])
  ultimately show False
    by simp
qed


definition new_year :: "int \<Rightarrow> civil" where
  "new_year y = \<lparr>cv_year = y, cv_month = 1, cv_day = 1, cv_hour = 0, cv_minute = 0\<rparr>"

lemma new_year_number: "valid_civil (new_year y)" "minute_number (new_year y) = days_to y * 1440"
  by (simp_all add: new_year_def valid_civil_def month_days_def minute_number_def day_number_def)

lemma matches_yearly: "cron_matches yearly c \<Longrightarrow> valid_civil c \<Longrightarrow> c = new_year (cv_year c)"
  by (simp add: cron_matches_def yearly_def new_year_def)

text \<open>A yearly schedule asked on the second of January 2026 hands \<open>setTimeout\<close> 364 days, more than the \<open>2147483647\<close>
  milliseconds its argument can hold.\<close>

theorem yearly_delay_exceeds_timer:
  "map_option (\<lambda>f. timer_delay (fixed_zone k) f (fixed_zone k \<lparr>cv_year = 2026, cv_month = 1, cv_day = 2, cv_hour = 0, cv_minute = 0\<rparr>) 0)
     (parseCronExpression ''0 0 1 1 *'') = Some (Some 31449600000) \<and> (2147483647 :: int) < 31449600000"
proof -
  let ?now = "\<lparr>cv_year = 2026, cv_month = 1, cv_day = 2, cv_hour = 0, cv_minute = 0\<rparr>"
  have now: "valid_civil ?now" "minute_number ?now = days_to 2026 * 1440 + 1440"
    by (simp_all add: valid_civil_def month_days_def minute_number_def day_number_def)
  have days: "days_to 2027 = days_to 2026 + 365"
    by (simp add: days_to_def)
  have "(weekday (new_year 2027)) \<in> {0..6}"
    by (simp add: weekday_def)
  then have "cron_matches yearly (new_year 2027)"
    by (auto simp: cron_matches_def yearly_def new_year_def)
  moreover have "\<not> cron_matches yearly d" if "valid_civil d" "minute_number ?now < minute_number d" "minute_number d < minute_number (new_year 2027)" for d
  proof
    assume "cron_matches yearly d"
    then have d: "d = new_year (cv_year d)"
      using that(1) by (rule matches_yearly)
    have "2026 \<le> cv_year d" "cv_year d \<le> 2027"
      using later_year[OF now(1) that(1)] later_year[OF that(1) new_year_number(1)[of 2027]] that by (simp_all add: new_year_def)
    moreover have "cv_year d \<noteq> 2027"
      using that(3) d by (metis order_less_irrefl)
    ultimately have "cv_year d = 2026"
      by linarith
    then have "d = new_year 2026"
      using d by metis
    then show False
      using that(2) now(2) by (simp add: new_year_number)
  qed
  ultimately have "getNextCronTime (fixed_zone k) yearly (fixed_zone k ?now) = Some (fixed_zone k (new_year 2027))"
    using fixed_next_first[where f = yearly and k = k, OF now(1) new_year_number(1)[of 2027]] now(2) days by (simp add: new_year_number)
  then show ?thesis
    using now(2) days by (simp add: yearly_parsed timer_delay_def new_year_number)
qed

text \<open>The twenty-ninth of February is refused as never matching for most of a leap cycle.\<close>

theorem leap_day_schedule_refused:
  "map_option (\<lambda>f. getNextCronTime (fixed_zone k) f (fixed_zone k \<lparr>cv_year = 2025, cv_month = 3, cv_day = 1, cv_hour = 0, cv_minute = 0\<rparr>))
     (parseCronExpression ''0 0 29 2 *'') = Some None"
proof -
  let ?now = "\<lparr>cv_year = 2025, cv_month = 3, cv_day = 1, cv_hour = 0, cv_minute = 0\<rparr>"
  have number: "year_day 2025 3 = 59"
    by (simp add: year_day_def month_days_def leap_year_def upto_rec1)
  have now: "valid_civil ?now" "minute_number ?now = days_to 2025 * 1440 + 59 * 1440"
    using number by (simp_all add: valid_civil_def month_days_def minute_number_def day_number_def)
  have days: "days_to 2028 = days_to 2025 + 1095"
    by (simp add: days_to_def)
  have "\<not> cron_matches leap_days d"
    if "valid_civil d" "minute_number ?now < minute_number d" "minute_number d \<le> minute_number ?now + 1051920" for d
  proof
    assume "cron_matches leap_days d"
    then have d: "cv_month d = 2" "cv_day d = 29" "cv_hour d = 0" "cv_minute d = 0"
      by (auto simp: cron_matches_def leap_days_def)
    then have leap: "leap_year (cv_year d)"
      using that(1) by (simp add: valid_civil_def month_days_def split: if_splits)
    have "cv_year d < 2028"
    proof (rule ccontr)
      assume "\<not> cv_year d < 2028"
      then have "days_to 2028 \<le> days_to (cv_year d)"
        using days_to_mono[of 2028 "cv_year d"] by (cases "cv_year d = 2028") simp_all
      then have "days_to 2028 * 1440 \<le> minute_number d"
        using day_within_year(1)[OF that(1)] d by (simp add: minute_number_def day_number_def)
      then show False
        using that(3) now(2) days by simp
    qed
    moreover have "2025 \<le> cv_year d"
      using later_year[OF now(1) that(1)] that(2) by simp
    ultimately have "cv_year d \<in> {2025, 2026, 2027}"
      by auto
    then show False
      using leap by (auto simp: leap_year_def)
  qed
  then have "getNextCronTime (fixed_zone k) leap_days (fixed_zone k ?now) = None"
    using next_cron_SomeD(1,3,4)[of "fixed_zone k" "fixed_zone k ?now" leap_days, OF js_zone_fixed] fixed_next_le(1)[where f = leap_days and k = k, OF now(1)] now(1)
    by (cases "getNextCronTime (fixed_zone k) leap_days (fixed_zone k ?now)") auto
  then show ?thesis
    by (simp add: leap_days_parsed)
qed


section \<open>Intervals as expressions\<close>

lemma decimal_digits: "all_digits (decimal n) \<and> digits_val (decimal n) = n"
proof (induction n rule: decimal.induct)
  case (1 n)
  have digit: "is_digit (char_of (48 + d)) \<and> code (char_of (48 + d)) = 48 + d" if "d < 10" for d :: nat
    using that by (simp add: is_digit_def code_def)
  show ?case
  proof (cases "n < 10")
    case True
    then show ?thesis
      using digit[of n] by (simp add: decimal.simps[of n] all_digits_def digits_val_def)
  next
    case False
    then show ?thesis
      using 1[OF False] digit[of "n mod 10"] by (simp add: decimal.simps[of n] all_digits_def digits_val_def)
  qed
qed

lemma step_field:
  "0 < n \<Longrightarrow> parseCronField (''*/'' @ decimal n) lo hi = map Some (filter (\<lambda>i. int n dvd i) [lo..hi])"
  using decimal_digits[of n] by (simp add: parseCronField_def parse_int_digits starts_with_def)

text \<open>A step field selects the multiples of its step within the bounds of the field.\<close>

theorem step_field_bounds:
  assumes "0 < n"
  shows "set (parseCronField (''*/'' @ decimal n) lo hi) = Some ` {i. lo \<le> i \<and> i \<le> hi \<and> int n dvd i} \<and>
    sorted (map the (parseCronField (''*/'' @ decimal n) lo hi))"
  unfolding step_field[OF assms] by (auto simp: comp_def intro: sorted_wrt_filter)

lemma interval_parts: "all_digits ds \<Longrightarrow> cron_parts (''*/'' @ ds @ '' * * * *'') = [''*/'' @ ds, ''*'', ''*'', ''*'', ''*'']"
proof -
  assume ds: "all_digits ds"
  have sp: "is_space CHR '' ''" "\<not> is_space CHR ''*''" "\<not> is_space CHR ''/''"
    by (simp_all add: is_space_def code_def)
  have word: "\<forall>c \<in> set (''*/'' @ ds). \<not> is_space c"
    using ds sp digit_not_space by (auto simp: all_digits_def list_all_iff)
  have "split_if is_space (''*/'' @ ds @ '' * * * *'') = (''*/'' @ ds) # split_if is_space ''* * * *''"
    using split_if_first[OF word sp(1), of "''* * * *''"] by simp
  moreover have "trim (''*/'' @ ds @ '' * * * *'') = ''*/'' @ ds @ '' * * * *''"
    by (simp add: trim_def sp)
  ultimately show ?thesis
    by (simp add: cron_parts_def sp)
qed

text \<open>An interval of an hour or more becomes an expression that fires every hour, on the hour.\<close>

theorem long_interval_becomes_hourly:
  assumes "60 \<le> interval_minutes schedule"
  shows "\<exists>f. parseCronExpression (normalizeCronExpression (Interval schedule)) = Some f \<and>
    cf_minute f = [Some 0] \<and> cf_hour f = map Some [0..23]"
proof -
  let ?n = "interval_minutes schedule"
  have "filter (\<lambda>i. int ?n dvd i) [0..59] = [0]"
  proof -
    have "[0..59] = 0 # [1..59::int]"
      by (simp add: upto_rec1)
    moreover have "\<not> int ?n dvd i" if "i \<in> set [1..59]" for i
      using that assms zdvd_not_zless[of i "int ?n"] by auto
    ultimately show ?thesis
      by (simp add: filter_empty_conv)
  qed
  moreover have "normalizeCronExpression (Interval schedule) = ''*/'' @ decimal ?n @ '' * * * *''"
    using assms by (simp add: normalizeCronExpression_def interval_expression_def Let_def)
  ultimately show ?thesis
    using assms interval_parts[of "decimal ?n"] decimal_digits[of ?n] step_field[of ?n 0 59]
    by (simp add: parseCronExpression_def) (simp add: parseCronField_def)
qed

text \<open>Combined list, range and step syntax, the zero step and the seventh weekday are accepted and mean something else.\<close>

theorem combined_syntax_misread:
  "parseCronField ''1,3-5'' 0 59 = [Some 1, Some 3] \<and> parseCronField ''1-5/2'' 0 59 = map Some [1..5] \<and>
   parseCronField ''*/0'' 0 59 = [] \<and> parseCronField ''61'' 0 59 = [Some 61] \<and> parseCronField ''7'' 0 6 = [Some 7]"
  by (simp add: parseCronField_def starts_with_def parse_int_def take_sign_def is_digit_def digits_val_def code_def is_space_def trim_def)

section \<open>Witnesses\<close>

definition demo_time :: civil where
  "demo_time = \<lparr>cv_year = 2026, cv_month = 12, cv_day = 31, cv_hour = 23, cv_minute = 59\<rparr>"

definition every_minute :: cron_fields where
  "every_minute = \<lparr>cf_minute = map Some [0..59], cf_hour = map Some [0..23], cf_dayOfMonth = map Some [1..31], cf_month = map Some [1..12],
     cf_dayOfWeek = map Some [0..6]\<rparr>"

lemma demo_valid: "valid_civil demo_time"
  by (simp add: demo_time_def valid_civil_def month_days_def)

lemma demo_matches: "valid_civil c \<Longrightarrow> cron_matches every_minute c"
  using month_days_pos[of "cv_year c" "cv_month c"] by (auto simp: cron_matches_def every_minute_def weekday_def valid_civil_def)

text \<open>A zone that skips the hour from two to three of a spring night.\<close>

definition spring :: "int \<Rightarrow> int \<Rightarrow> civil" where
  "spring h m = \<lparr>cv_year = 2026, cv_month = 3, cv_day = 29, cv_hour = h, cv_minute = m\<rparr>"

definition spring_zone :: time_zone where
  "spring_zone c = (if minute_number c < minute_number (spring 2 0) then fixed_zone 60 c
     else if minute_number c < minute_number (spring 3 0) then fixed_zone 120 (c\<lparr>cv_hour := 3\<rparr>) else fixed_zone 120 c)"

lemma spring_number: "minute_number (spring h m) = minute_number (spring 0 0) + h * 60 + m"
  by (simp add: spring_def minute_number_def day_number_def)

lemma spring_valid: "0 \<le> h \<Longrightarrow> h \<le> 23 \<Longrightarrow> 0 \<le> m \<Longrightarrow> m \<le> 59 \<Longrightarrow> valid_civil (spring h m)"
  by (simp add: spring_def valid_civil_def month_days_def)

lemma spring_skipped:
  assumes "valid_civil c" "minute_number (spring 2 0) \<le> minute_number c" "minute_number c < minute_number (spring 3 0)"
  shows "c = spring 2 (minute_number c - minute_number (spring 2 0))"
  using assms spring_number[of 2 0] spring_number[of 3 0] spring_number[of 2 "minute_number c - minute_number (spring 2 0)"]
  by (intro minute_number_inject spring_valid) auto

lemma spring_shown: "shown spring_zone c \<longleftrightarrow> valid_civil c \<and> (minute_number c < minute_number (spring 2 0) \<or> minute_number (spring 3 0) \<le> minute_number c)"
proof -
  have "c\<lparr>cv_hour := 3\<rparr> \<noteq> c" if "valid_civil c" "minute_number (spring 2 0) \<le> minute_number c" "minute_number c < minute_number (spring 3 0)"
  proof -
    have "cv_hour c = 2"
      using arg_cong[OF spring_skipped[OF that], of cv_hour] by (simp add: spring_def)
    then have "cv_hour (c\<lparr>cv_hour := 3\<rparr>) \<noteq> cv_hour c"
      by simp
    then show ?thesis
      by metis
  qed
  then show ?thesis
    by (auto simp: shown_def spring_zone_def)
qed

lemma js_zone_spring: "js_zone spring_zone"
  unfolding js_zone_def
proof (intro allI impI)
  fix c assume c: "shown spring_zone c"
  then have v: "valid_civil c" "valid_civil (next_minute c)" "minute_number (next_minute c) = minute_number c + 1"
    using next_minute_number by (simp_all add: shown_def)
  have gap: "minute_number (spring 3 0) = minute_number (spring 2 0) + 60"
    using spring_number[of 3 0] spring_number[of 2 0] by simp
  show "shown spring_zone (jd_local (spring_zone (next_minute c))) \<and> minute_number c < minute_number (jd_local (spring_zone (next_minute c))) \<and>
      spring_zone (jd_local (spring_zone (next_minute c))) = spring_zone (next_minute c) \<and>
      (\<forall>d. shown spring_zone d \<and> minute_number c < minute_number d \<longrightarrow> minute_number (jd_local (spring_zone (next_minute c))) \<le> minute_number d)"
  proof (cases "minute_number (next_minute c) = minute_number (spring 2 0)")
    case True
    then have "next_minute c = spring 2 0"
      using v(2) spring_valid[of 2 0] minute_number_inject by simp
    moreover have "spring_zone (spring 2 0) = fixed_zone 120 (spring 3 0)" "spring_zone (spring 3 0) = fixed_zone 120 (spring 3 0)"
      using gap by (simp_all add: spring_zone_def) (simp add: spring_def)
    ultimately show ?thesis
      using v True gap spring_valid[of 3 0] by (auto simp: spring_shown)
  next
    case False
    then have "minute_number (next_minute c) < minute_number (spring 2 0) \<or> minute_number (spring 3 0) \<le> minute_number (next_minute c)"
      using c v(3) gap by (auto simp: spring_shown)
    then have "shown spring_zone (next_minute c)"
      using v(2) by (simp add: spring_shown)
    then have "jd_local (spring_zone (next_minute c)) = next_minute c"
      by (simp add: shown_def)
    then show ?thesis
      using v \<open>shown spring_zone (next_minute c)\<close> by simp
  qed
qed

lemma next_cron_time_is_first_witness:
  "getNextCronTime spring_zone every_minute (fixed_zone 60 (spring 1 59)) = Some (fixed_zone 120 (spring 3 0))"
proof -
  let ?from = "fixed_zone 60 (spring 1 59)"
  have n: "minute_number (spring 1 59) = minute_number (spring 2 0) - 1" "minute_number (spring 3 0) = minute_number (spring 2 0) + 60"
    using spring_number[of 3 0] spring_number[of 2 0] spring_number[of 1 59] by simp_all
  have begin_shown: "shown spring_zone (jd_local ?from)" and three: "shown spring_zone (spring 3 0)"
    using spring_valid[of 1 59] spring_valid[of 3 0] n by (simp_all add: spring_shown)
  note first = next_cron_time_is_first[OF js_zone_spring begin_shown, of every_minute]
  have m: "cron_matches every_minute (spring 3 0)"
    using three demo_matches by (simp add: shown_def)
  show ?thesis
  proof (cases "getNextCronTime spring_zone every_minute ?from")
    case None
    then show ?thesis
      using first three m n by force
  next
    case (Some t)
    have t: "shown spring_zone (jd_local t)" "spring_zone (jd_local t) = t" "minute_number (spring 1 59) < minute_number (jd_local t)"
        "\<not> minute_number (spring 3 0) < minute_number (jd_local t)"
      using first three m n Some by force+
    then have "minute_number (jd_local t) = minute_number (spring 3 0)"
      using n by (simp add: spring_shown)
    then have "jd_local t = spring 3 0"
      using t(1) three minute_number_inject by (simp add: shown_def)
    then show ?thesis
      using Some t(2) by (simp add: spring_zone_def n)
  qed
qed

lemma timer_delay_bounds_witness:
  "case timer_delay (fixed_zone 60) every_minute (fixed_zone 60 demo_time) 500 of Some d \<Rightarrow> 0 < d \<and> d \<le> 63115200000 | None \<Rightarrow> False"
proof -
  have n: "valid_civil (next_minute demo_time)" "minute_number (next_minute demo_time) = minute_number demo_time + 1"
    using next_minute_number[OF demo_valid] by simp_all
  show ?thesis
    using timer_delay_bounds[where f = every_minute and offset = 60 and ms = 500, OF demo_valid] n demo_matches[OF n(1)] by (force split: option.splits)
qed

lemma step_field_bounds_witness: "set (parseCronField (''*/'' @ decimal 15) 0 59) = Some ` {i. 0 \<le> i \<and> i \<le> 59 \<and> int 15 dvd i}"
  using step_field_bounds[of 15 0 59] by simp

lemma long_interval_becomes_hourly_witness:
  "\<exists>f. parseCronExpression (normalizeCronExpression (Interval 7200000)) = Some f \<and> cf_minute f = [Some 0] \<and> cf_hour f = map Some [0..23]"
proof -
  have "60 \<le> \<lfloor>241 / 2 :: rat\<rfloor>"
    by (simp add: le_floor_iff)
  then show ?thesis
    by (intro long_interval_becomes_hourly) (simp add: interval_minutes_def le_nat_iff)
qed

end
