(* ===== verification/CronRuntime.thy ===== *)
theory CronRuntime imports Cron begin

text \<open>
  Scheduled jobs of \<^verbatim>\<open>di-framework-core\<close>: \<^verbatim>\<open>cron/runtime.ts\<close>.

  \<^verbatim>\<open>invoke\<close> is split at its await: \<open>invoke_begin\<close> up to the start of the method, \<open>invoke_finish\<close> when the method
  or its timeout settles.  What the container resolves a class to is a parameter: \<open>None\<close> if it throws, else the
  names that are methods of the instance.  The step relation \<open>cron_step\<close> interleaves invocations, the ends of
  methods, timeouts, registrations, \<^verbatim>\<open>clear\<close>, and the timers that \<^verbatim>\<open>applyCron\<close> of \<^verbatim>\<open>container.ts\<close> arms for a
  job in process, which call the method without the runtime.  The lemmas show what the concurrency guard excludes,
  and what it does not.
\<close>

section \<open>Jobs\<close>

record cron_job =
  cj_jobId :: string
  cj_name :: "string option"
  cj_targetClassName :: string
  cj_methodName :: string
  cj_schedule :: schedule
  cj_cronExpression :: string
  cj_allowConcurrent :: "bool option"
  cj_timeoutMs :: "int option"

datatype ('v, 'e) run_status = Success 'v | Failure 'e | Skipped

record ('v, 'e) cron_result =
  cr_jobId :: string
  cr_status :: "('v, 'e) run_status"
  cr_startedAt :: int
  cr_completedAt :: int

datatype cron_run_mode = InProcessCron | ExternalCron

record ('v, 'e) cron_runtime =
  rt_jobs :: "(string, cron_job) jsmap"
  rt_aliases :: "(string, string) jsmap"
  rt_running :: "string list"
  rt_lastRuns :: "(string, ('v, 'e) cron_result) jsmap"
  rt_mode :: cron_run_mode

definition runtime_new :: "cron_run_mode \<Rightarrow> ('v, 'e) cron_runtime" where
  "runtime_new m = \<lparr>rt_jobs = [], rt_aliases = [], rt_running = [], rt_lastRuns = [], rt_mode = m\<rparr>"

definition formatJobId :: "string \<Rightarrow> string \<Rightarrow> string option \<Rightarrow> string" where
  "formatJobId cls method custom =
     (case custom of
        Some n \<Rightarrow> if n \<noteq> [] \<and> trim n \<noteq> [] then trim n else cls @ ''.'' @ method
      | None \<Rightarrow> cls @ ''.'' @ method)"

definition setMode :: "cron_run_mode \<Rightarrow> ('v, 'e) cron_runtime \<Rightarrow> ('v, 'e) cron_runtime" where
  "setMode m rt = rt\<lparr>rt_mode := m\<rparr>"

definition isExternal :: "('v, 'e) cron_runtime \<Rightarrow> bool" where
  "isExternal rt \<longleftrightarrow> rt_mode rt = ExternalCron"

definition registerJob :: "cron_job \<Rightarrow> ('v, 'e) cron_runtime \<Rightarrow> ('v, 'e) cron_runtime" where
  "registerJob d rt =
     (let standardKey = cj_targetClassName d @ ''.'' @ cj_methodName d;
          a1 = (if cj_jobId d \<noteq> standardKey then js_set standardKey (cj_jobId d) (rt_aliases rt) else rt_aliases rt);
          a2 = (case cj_name d of Some n \<Rightarrow> if n \<noteq> [] \<and> n \<noteq> cj_jobId d then js_set n (cj_jobId d) a1 else a1 | None \<Rightarrow> a1)
      in rt\<lparr>rt_jobs := js_set (cj_jobId d) d (rt_jobs rt), rt_aliases := a2\<rparr>)"

definition getJob :: "string \<Rightarrow> ('v, 'e) cron_runtime \<Rightarrow> cron_job option" where
  "getJob i rt =
     (case js_get (rt_jobs rt) i of
        Some d \<Rightarrow> Some d
      | None \<Rightarrow> (case js_get (rt_aliases rt) i of
            Some r \<Rightarrow> if r \<noteq> [] then js_get (rt_jobs rt) r else None
          | None \<Rightarrow> None))"

definition getJobs :: "('v, 'e) cron_runtime \<Rightarrow> cron_job list" where
  "getJobs rt = js_values (rt_jobs rt)"

definition isJobRunning :: "string \<Rightarrow> ('v, 'e) cron_runtime \<Rightarrow> bool" where
  "isJobRunning i rt = (case getJob i rt of None \<Rightarrow> False | Some d \<Rightarrow> cj_jobId d \<in> set (rt_running rt))"

definition getLastRun :: "string \<Rightarrow> ('v, 'e) cron_runtime \<Rightarrow> ('v, 'e) cron_result option" where
  "getLastRun i rt = (case getJob i rt of None \<Rightarrow> None | Some d \<Rightarrow> js_get (rt_lastRuns rt) (cj_jobId d))"

definition cron_clear :: "('v, 'e) cron_runtime \<Rightarrow> ('v, 'e) cron_runtime" where
  "cron_clear rt = rt\<lparr>rt_jobs := [], rt_aliases := [], rt_running := [], rt_lastRuns := []\<rparr>"

definition getStatusReports :: "('v, 'e) cron_runtime \<Rightarrow> (cron_job \<times> bool \<times> bool \<times> ('v, 'e) cron_result option) list" where
  "getStatusReports rt =
     map (\<lambda>d. (d, cj_jobId d \<in> set (rt_running rt), nullish (cj_allowConcurrent d) False, js_get (rt_lastRuns rt) (cj_jobId d)))
       (js_values (rt_jobs rt))"

section \<open>Invocations\<close>

datatype ('v, 'e) invoke_begun =
    JobNotFound string "string list"
  | ConcurrencyRefused string
  | SkippedRun "('v, 'e) cron_result"
  | ResolveFailed
  | MethodMissing string
  | Started cron_job

definition invoke_begin ::
  "(string \<Rightarrow> (string \<Rightarrow> bool) option) \<Rightarrow> string \<Rightarrow> bool \<Rightarrow> int \<Rightarrow> ('v, 'e) cron_runtime \<Rightarrow>
    ('v, 'e) invoke_begun \<times> ('v, 'e) cron_runtime" where
  "invoke_begin resolve i throwOnError now rt =
     (case getJob i rt of
        None \<Rightarrow> (JobNotFound i (js_keys (rt_jobs rt)), rt)
      | Some job \<Rightarrow>
          if \<not> nullish (cj_allowConcurrent job) False \<and> cj_jobId job \<in> set (rt_running rt)
          then (if throwOnError then ConcurrencyRefused (cj_jobId job)
                else SkippedRun \<lparr>cr_jobId = cj_jobId job, cr_status = Skipped, cr_startedAt = now, cr_completedAt = now\<rparr>, rt)
          else (case resolve (cj_targetClassName job) of
                  None \<Rightarrow> (ResolveFailed, rt)
                | Some methods \<Rightarrow>
                    if \<not> methods (cj_methodName job) then (MethodMissing (cj_jobId job), rt)
                    else (Started job, rt\<lparr>rt_running := set_add (cj_jobId job) (rt_running rt)\<rparr>)))"

datatype ('v, 'e) invoke_end = Returned "('v, 'e) cron_result" | Threw string 'e

definition invoke_finish ::
  "cron_job \<Rightarrow> bool \<Rightarrow> int \<Rightarrow> int \<Rightarrow> ('e, 'v) result \<Rightarrow> ('v, 'e) cron_runtime \<Rightarrow> ('v, 'e) invoke_end \<times> ('v, 'e) cron_runtime" where
  "invoke_finish job throwOnError startedAt now outcome rt =
     (let r = \<lparr>cr_jobId = cj_jobId job, cr_status = (case outcome of Inr v \<Rightarrow> Success v | Inl e \<Rightarrow> Failure e), cr_startedAt = startedAt, cr_completedAt = now\<rparr>
      in (case outcome of Inl e \<Rightarrow> if throwOnError then Threw (cj_jobId job) e else Returned r | Inr v \<Rightarrow> Returned r,
          rt\<lparr>rt_lastRuns := js_set (cj_jobId job) r (rt_lastRuns rt), rt_running := set_del (cj_jobId job) (rt_running rt)\<rparr>))"

section \<open>Interleavings\<close>

text \<open>An invocation that has started is awaited until it is settled; its method may go on after that.  A run that a timer
  of the container started is known only to the container.\<close>

record ('v, 'e) cron_world =
  cw_runtime :: "('v, 'e) cron_runtime"
  cw_awaited :: "(nat \<times> cron_job) list"
  cw_executing :: "(nat \<times> cron_job) list"
  cw_timers :: "cron_job list"
  cw_timed :: "cron_job list"

definition cron_world_new :: "cron_run_mode \<Rightarrow> ('v, 'e) cron_world" where
  "cron_world_new m = \<lparr>cw_runtime = runtime_new m, cw_awaited = [], cw_executing = [], cw_timers = [], cw_timed = []\<rparr>"

definition has_timeout :: "cron_job \<Rightarrow> bool" where
  "has_timeout job \<longleftrightarrow> (case cj_timeoutMs job of Some t \<Rightarrow> 0 < t | None \<Rightarrow> False)"

text \<open>\<^verbatim>\<open>applyCron\<close> registers a job and, unless the container runs its jobs externally, arms a timer for it.\<close>

definition apply_cron :: "cron_job \<Rightarrow> bool \<Rightarrow> ('v, 'e) cron_world \<Rightarrow> ('v, 'e) cron_world" where
  "apply_cron d external w =
     w\<lparr>cw_runtime := registerJob d (cw_runtime w), cw_timers := (if external then cw_timers w else cw_timers w @ [d])\<rparr>"

datatype cron_event =
    Launched string
  | Settled nat
  | TimedOut nat
  | MethodEnded nat
  | Applied cron_job bool
  | Cleared
  | TimerFired cron_job
  | TimerRunEnded cron_job
  | TimersStopped

inductive cron_step :: "(string \<Rightarrow> (string \<Rightarrow> bool) option) \<Rightarrow> ('v, 'e) cron_world \<Rightarrow> cron_event \<Rightarrow> ('v, 'e) cron_world \<Rightarrow> bool"
  for resolve where
  launch: "invoke_begin resolve i throwOnError now (cw_runtime w) = (Started job, rt) \<Longrightarrow> n \<notin> fst ` set (cw_executing w) \<Longrightarrow>
    cron_step resolve w (Launched i) (w\<lparr>cw_runtime := rt, cw_awaited := (n, job) # cw_awaited w, cw_executing := (n, job) # cw_executing w\<rparr>)"
| settle: "(n, job) \<in> set (cw_awaited w) \<Longrightarrow> invoke_finish job throwOnError t0 now outcome (cw_runtime w) = (r, rt) \<Longrightarrow>
    cron_step resolve w (Settled n) (w\<lparr>cw_runtime := rt, cw_awaited := remove1 (n, job) (cw_awaited w),
      cw_executing := remove1 (n, job) (cw_executing w)\<rparr>)"
| timeout: "(n, job) \<in> set (cw_awaited w) \<Longrightarrow> has_timeout job \<Longrightarrow> invoke_finish job throwOnError t0 now (Inl e) (cw_runtime w) = (r, rt) \<Longrightarrow>
    cron_step resolve w (TimedOut n) (w\<lparr>cw_runtime := rt, cw_awaited := remove1 (n, job) (cw_awaited w)\<rparr>)"
| late: "(n, job) \<in> set (cw_executing w) \<Longrightarrow> (n, job) \<notin> set (cw_awaited w) \<Longrightarrow>
    cron_step resolve w (MethodEnded n) (w\<lparr>cw_executing := remove1 (n, job) (cw_executing w)\<rparr>)"
| applied: "cron_step resolve w (Applied d external) (apply_cron d external w)"
| cleared: "cron_step resolve w Cleared (w\<lparr>cw_runtime := cron_clear (cw_runtime w)\<rparr>)"
| timer_fired: "d \<in> set (cw_timers w) \<Longrightarrow> cron_step resolve w (TimerFired d) (w\<lparr>cw_timed := d # cw_timed w\<rparr>)"
| timer_run_ended: "d \<in> set (cw_timed w) \<Longrightarrow> cron_step resolve w (TimerRunEnded d) (w\<lparr>cw_timed := remove1 d (cw_timed w)\<rparr>)"
| timers_stopped: "cron_step resolve w TimersStopped (w\<lparr>cw_timers := []\<rparr>)"

inductive cron_reachable :: "(string \<Rightarrow> (string \<Rightarrow> bool) option) \<Rightarrow> cron_run_mode \<Rightarrow> cron_event list \<Rightarrow> ('v, 'e) cron_world \<Rightarrow> bool"
  for resolve m where
  start: "cron_reachable resolve m [] (cron_world_new m)"
| step: "cron_reachable resolve m es w \<Longrightarrow> cron_step resolve w e w' \<Longrightarrow> cron_reachable resolve m (es @ [e]) w'"

text \<open>Histories in which a job is registered only as one that satisfies a condition, and the runtime is never cleared.\<close>

definition registered_only :: "(cron_job \<Rightarrow> bool) \<Rightarrow> string \<Rightarrow> cron_event list \<Rightarrow> bool" where
  "registered_only P i es \<longleftrightarrow> Cleared \<notin> set es \<and> (\<forall>d x. Applied d x \<in> set es \<and> cj_jobId d = i \<longrightarrow> P d)"

definition runs_of :: "string \<Rightarrow> (nat \<times> cron_job) list \<Rightarrow> (nat \<times> cron_job) list" where
  "runs_of i xs = filter (\<lambda>x. cj_jobId (snd x) = i) xs"

lemma runs_of_simps [simp]:
  "runs_of i [] = []" "runs_of i (x # xs) = (if cj_jobId (snd x) = i then x # runs_of i xs else runs_of i xs)"
  by (simp_all add: runs_of_def)

lemma runs_of_remove1: "runs_of i (remove1 x xs) = (if cj_jobId (snd x) = i then remove1 x (runs_of i xs) else runs_of i xs)"
  by (induction xs) auto

lemma in_runs_of [simp]: "x \<in> set (runs_of i xs) \<longleftrightarrow> x \<in> set xs \<and> cj_jobId (snd x) = i"
  by (auto simp: runs_of_def)

lemma length_runs_remove1:
  "x \<in> set xs \<Longrightarrow> length (runs_of i (remove1 x xs)) = length (runs_of i xs) - (if cj_jobId (snd x) = i then 1 else 0)"
  by (simp add: runs_of_remove1 length_remove1)

section \<open>The jobs\<close>

definition jobs_keyed :: "('v, 'e) cron_runtime \<Rightarrow> bool" where
  "jobs_keyed rt \<longleftrightarrow> (\<forall>i d. js_get (rt_jobs rt) i = Some d \<longrightarrow> cj_jobId d = i)"

text \<open>Every job under the identifier, stored or running, satisfies the condition it is registered under.\<close>

definition jobs_satisfy :: "(cron_job \<Rightarrow> bool) \<Rightarrow> string \<Rightarrow> ('v, 'e) cron_world \<Rightarrow> bool" where
  "jobs_satisfy P i w \<longleftrightarrow> jobs_keyed (cw_runtime w) \<and> (\<forall>d. js_get (rt_jobs (cw_runtime w)) i = Some d \<longrightarrow> P d) \<and>
     (\<forall>x \<in> set (cw_awaited w). cj_jobId (snd x) = i \<longrightarrow> P (snd x))"

lemma getJob_keyed: "getJob i rt = Some job \<Longrightarrow> jobs_keyed rt \<Longrightarrow> js_get (rt_jobs rt) (cj_jobId job) = Some job"
  by (auto simp: getJob_def jobs_keyed_def split: option.splits if_splits)

lemma invoke_begin_Started:
  assumes "invoke_begin resolve i th now rt = (Started job, rt')"
  shows "getJob i rt = Some job" "\<not> nullish (cj_allowConcurrent job) False \<Longrightarrow> cj_jobId job \<notin> set (rt_running rt)"
    "rt' = rt\<lparr>rt_running := set_add (cj_jobId job) (rt_running rt)\<rparr>"
  using assms by (auto simp: invoke_begin_def split: option.splits if_splits)

lemma invoke_finish_runtime:
  assumes "invoke_finish job th t0 now outcome rt = (r, rt')"
  shows "rt_jobs rt' = rt_jobs rt" "rt_running rt' = set_del (cj_jobId job) (rt_running rt)"
  using assms by (auto simp: invoke_finish_def Let_def)

lemma registerJob_runtime:
  "rt_jobs (registerJob d rt) = js_set (cj_jobId d) d (rt_jobs rt)" "rt_running (registerJob d rt) = rt_running rt"
  by (simp_all add: registerJob_def Let_def)

lemma jobs_satisfy_step:
  assumes "cron_step resolve w e w'" "jobs_satisfy P i w" "registered_only P i [e]"
  shows "jobs_satisfy P i w'"
  using assms
proof cases
  case (launch k th now job rt n)
  have "jobs_keyed (cw_runtime w)"
    using assms(2) by (simp add: jobs_satisfy_def)
  then have "js_get (rt_jobs (cw_runtime w)) (cj_jobId job) = Some job"
    by (rule getJob_keyed[OF invoke_begin_Started(1)[OF launch(3)]])
  then have "cj_jobId job = i \<Longrightarrow> P job"
    using assms(2) by (simp add: jobs_satisfy_def)
  moreover have "jobs_keyed rt = jobs_keyed (cw_runtime w)" "rt_jobs rt = rt_jobs (cw_runtime w)"
    unfolding invoke_begin_Started(3)[OF launch(3)] jobs_keyed_def by simp_all
  ultimately show ?thesis
    using assms(2) unfolding launch(2) jobs_satisfy_def by simp
next
  case (settle n job th t0 now outcome r rt)
  then show ?thesis
    using assms(2) invoke_finish_runtime[OF settle(4)] by (auto simp: jobs_satisfy_def jobs_keyed_def dest: set_remove1_subset[THEN subsetD])
next
  case (timeout n job th t0 now x r rt)
  then show ?thesis
    using assms(2) invoke_finish_runtime[OF timeout(5)] by (auto simp: jobs_satisfy_def jobs_keyed_def dest: set_remove1_subset[THEN subsetD])
next
  case (applied d external)
  then show ?thesis
    using assms(2,3) by (auto simp: jobs_satisfy_def jobs_keyed_def apply_cron_def registerJob_runtime registered_only_def)
qed (simp_all add: jobs_satisfy_def jobs_keyed_def registered_only_def)

lemma registered_only_append [simp]: "registered_only P i (xs @ ys) \<longleftrightarrow> registered_only P i xs \<and> registered_only P i ys"
  by (auto simp: registered_only_def)

lemma jobs_satisfy_reachable: "cron_reachable resolve m es w \<Longrightarrow> registered_only P i es \<Longrightarrow> jobs_satisfy P i w"
proof (induction rule: cron_reachable.induct)
  case start
  then show ?case
    by (simp add: jobs_satisfy_def jobs_keyed_def cron_world_new_def runtime_new_def)
next
  case (step es w e w')
  then show ?case
    using jobs_satisfy_step[OF step.hyps(2)] by simp
qed

section \<open>The runs\<close>

text \<open>Awaited runs are executing, under distinct numbers.\<close>

definition runs_ok :: "('v, 'e) cron_world \<Rightarrow> bool" where
  "runs_ok w \<longleftrightarrow> set (cw_awaited w) \<subseteq> set (cw_executing w) \<and> distinct (map fst (cw_executing w)) \<and> distinct (cw_awaited w)"

lemma distinct_map_remove1: "distinct (map f xs) \<Longrightarrow> distinct (map f (remove1 x xs))"
  by (auto simp: distinct_map intro: inj_on_diff)

lemma runs_ok_step: "cron_step resolve w e w' \<Longrightarrow> runs_ok w \<Longrightarrow> runs_ok w'"
  by (induction rule: cron_step.induct) (force simp: runs_ok_def apply_cron_def distinct_map intro: inj_on_diff)+

lemma runs_ok_reachable: "cron_reachable resolve m es w \<Longrightarrow> runs_ok w"
  by (induction rule: cron_reachable.induct) (auto simp: runs_ok_def cron_world_new_def dest: runs_ok_step[unfolded runs_ok_def])

text \<open>Of a job that excludes overlaps, the awaited runs are those the runtime reports: one or none.\<close>

definition counted :: "string \<Rightarrow> ('v, 'e) cron_world \<Rightarrow> bool" where
  "counted i w \<longleftrightarrow> length (runs_of i (cw_awaited w)) = (if i \<in> set (rt_running (cw_runtime w)) then 1 else 0)"

abbreviation exclusive :: "cron_job \<Rightarrow> bool" where
  "exclusive d \<equiv> cj_allowConcurrent d \<noteq> Some True"

lemma counted_step:
  assumes "cron_step resolve w e w'" "counted i w" "jobs_satisfy exclusive i w" "e \<noteq> Cleared"
  shows "counted i w'"
  using assms
proof cases
  case (launch k th now job rt n)
  show ?thesis
  proof (cases "cj_jobId job = i")
    case True
    then have "exclusive job"
      using getJob_keyed[OF invoke_begin_Started(1)[OF launch(3)]] assms(3) by (auto simp: jobs_satisfy_def)
    then have "\<not> nullish (cj_allowConcurrent job) False"
      by (cases "cj_allowConcurrent job") auto
    then show ?thesis
      using True assms(2) launch(2) invoke_begin_Started(2,3)[OF launch(3)] by (auto simp: counted_def split: if_splits)
  next
    case False
    then show ?thesis
      using assms(2) launch(2) invoke_begin_Started(3)[OF launch(3)] by (auto simp: counted_def)
  qed
next
  case (settle n job th t0 now outcome r rt)
  then show ?thesis
    using assms(2) invoke_finish_runtime[OF settle(4)] by (auto simp: counted_def length_runs_remove1 split: if_splits)
next
  case (timeout n job th t0 now x r rt)
  then show ?thesis
    using assms(2) invoke_finish_runtime[OF timeout(5)] by (auto simp: counted_def length_runs_remove1 split: if_splits)
qed (simp_all add: counted_def apply_cron_def registerJob_runtime)

lemma counted_reachable: "cron_reachable resolve m es w \<Longrightarrow> registered_only exclusive i es \<Longrightarrow> counted i w"
proof (induction rule: cron_reachable.induct)
  case start
  then show ?case
    by (simp add: counted_def cron_world_new_def runtime_new_def)
next
  case (step es w e w')
  then show ?case
    using counted_step[OF step.hyps(2) _ jobs_satisfy_reachable[OF step.hyps(1)]] by (auto simp: registered_only_def)
qed

text \<open>A job without a timeout has no run that is not awaited.\<close>

lemma untimed_runs: "cron_reachable resolve m es w \<Longrightarrow> registered_only (\<lambda>d. \<not> has_timeout d) i es \<Longrightarrow>
  runs_of i (cw_executing w) = runs_of i (cw_awaited w)"
proof (induction rule: cron_reachable.induct)
  case start
  then show ?case
    by (simp add: cron_world_new_def)
next
  case (step es w e w')
  note same = step.IH[OF conjunct1[OF step.prems[simplified]]]
  from step.hyps(2) show ?case
  proof cases
    case (timeout n job th t0 now x r rt)
    then have "cj_jobId job \<noteq> i"
      using jobs_satisfy_reachable[OF step.hyps(1), of "\<lambda>d. \<not> has_timeout d" i] step.prems by (auto simp: jobs_satisfy_def)
    then show ?thesis
      using timeout(2) same by (simp add: runs_of_remove1)
  next
    case (late n job)
    then have "cj_jobId job \<noteq> i"
      using same in_runs_of[of "(n, job)" i] by (metis snd_conv)
    then show ?thesis
      using late(2) same by (simp add: runs_of_remove1)
  qed (use same in \<open>simp_all add: runs_of_remove1 apply_cron_def\<close>)
qed

section \<open>What the guard excludes\<close>

text \<open>C20: A job that is never registered to allow overlaps has, as long as the runtime is not cleared, at most one awaited run,
  which is the one reported; if it has no timeout either, no other run that the runtime started is still executing.  The
  runs that a timer of the container starts are not counted.\<close>

theorem exclusive_job_runs_once:
  assumes "cron_reachable resolve m es w" "registered_only exclusive i es"
  shows "length (runs_of i (cw_awaited w)) = (if i \<in> set (rt_running (cw_runtime w)) then 1 else 0) \<and>
    (registered_only (\<lambda>d. \<not> has_timeout d) i es \<longrightarrow> length (runs_of i (cw_executing w)) = length (runs_of i (cw_awaited w)))"
  using counted_reachable[OF assms] untimed_runs[OF assms(1)] by (simp add: counted_def)

text \<open>An invocation of a registered job is either skipped or refused because it runs, or fails to resolve, or starts
  and marks the job; settling it records the result and unmarks it.\<close>

theorem invocation_cycle:
  assumes "js_get (rt_jobs rt) i = Some job" "cj_jobId job = i" "resolve (cj_targetClassName job) = Some methods" "methods (cj_methodName job)"
    "i \<notin> set (rt_running rt)"
  shows "fst (invoke_begin resolve i th t0 rt) = Started job \<and> isJobRunning i (snd (invoke_begin resolve i th t0 rt)) \<and>
    (\<not> nullish (cj_allowConcurrent job) False \<longrightarrow>
       fst (invoke_begin resolve i False t1 (snd (invoke_begin resolve i th t0 rt))) =
         SkippedRun \<lparr>cr_jobId = i, cr_status = Skipped, cr_startedAt = t1, cr_completedAt = t1\<rparr>) \<and>
    (let rt' = snd (invoke_finish job th t0 t2 outcome (snd (invoke_begin resolve i th t0 rt)))
     in \<not> isJobRunning i rt' \<and> map_option cr_status (getLastRun i rt') = Some (case outcome of Inr v \<Rightarrow> Success v | Inl e \<Rightarrow> Failure e) \<and>
        rt' = rt\<lparr>rt_lastRuns := rt_lastRuns rt'\<rparr>)"
proof -
  have "invoke_begin resolve i th t0 rt = (Started job, rt\<lparr>rt_running := set_add i (rt_running rt)\<rparr>)"
    using assms by (simp add: invoke_begin_def getJob_def)
  moreover have "set_del i (set_add i (rt_running rt)) = rt_running rt"
    using assms(5) by (auto simp: set_del_def set_add_def filter_id_conv)
  ultimately show ?thesis
    using assms(1,2,5) by (simp add: invoke_begin_def invoke_finish_def Let_def isJobRunning_def getLastRun_def getJob_def)
qed

section \<open>What it does not\<close>

definition demo_job :: "bool option \<Rightarrow> int option \<Rightarrow> cron_job" where
  "demo_job allow timeout = \<lparr>cj_jobId = ''J'', cj_name = None, cj_targetClassName = ''C'', cj_methodName = ''m'',
     cj_schedule = Interval 60000, cj_cronExpression = ''* * * * *'', cj_allowConcurrent = allow, cj_timeoutMs = timeout\<rparr>"

definition demo_resolve :: "string \<Rightarrow> (string \<Rightarrow> bool) option" where
  "demo_resolve c = Some (\<lambda>_. True)"

definition demo_world :: "cron_job \<Rightarrow> string list \<Rightarrow> nat list \<Rightarrow> nat list \<Rightarrow> cron_job list \<Rightarrow> (string, (unit, unit) cron_result) jsmap \<Rightarrow>
    (unit, unit) cron_world" where
  "demo_world d running aw ex timed results =
     \<lparr>cw_runtime = (registerJob d (runtime_new InProcessCron))\<lparr>rt_running := running, rt_lastRuns := results\<rparr>,
      cw_awaited = map (\<lambda>n. (n, d)) aw, cw_executing = map (\<lambda>n. (n, d)) ex, cw_timers = [d], cw_timed = timed\<rparr>"

lemma demo_register: "registerJob (demo_job a t) (runtime_new m) = \<lparr>rt_jobs = [(''J'', demo_job a t)], rt_aliases = [(''C.m'', ''J'')],
    rt_running = [], rt_lastRuns = [], rt_mode = m\<rparr>"
  by (simp add: registerJob_def Let_def runtime_new_def demo_job_def)

lemma demo_start: "cron_reachable demo_resolve InProcessCron [Applied (demo_job a t) False] (demo_world (demo_job a t) [] [] [] [] [])"
proof -
  have "apply_cron (demo_job a t) False (cron_world_new InProcessCron) = demo_world (demo_job a t) [] [] [] [] []"
    by (simp add: apply_cron_def cron_world_new_def demo_world_def demo_register)
  moreover have "cron_reachable demo_resolve InProcessCron ([] @ [Applied (demo_job a t) False])
      (apply_cron (demo_job a t) False (cron_world_new InProcessCron :: (unit, unit) cron_world))"
    by (intro cron_reachable.step[OF cron_reachable.start] cron_step.applied)
  ultimately show ?thesis
    by simp
qed

lemma demo_begins:
  assumes "running = [] \<or> a = Some True" "n \<notin> set ex"
  shows "cron_step demo_resolve (demo_world (demo_job a t) running aw ex timed l) (Launched ''J'')
    (demo_world (demo_job a t) (set_add ''J'' running) (n # aw) (n # ex) timed l)"
proof -
  let ?w = "demo_world (demo_job a t) running aw ex timed l"
  have "invoke_begin demo_resolve ''J'' False 0 (cw_runtime ?w) =
      (Started (demo_job a t), (cw_runtime ?w)\<lparr>rt_running := set_add ''J'' running\<rparr>)"
    using assms(1) by (auto simp: invoke_begin_def getJob_def demo_world_def demo_register demo_resolve_def) (auto simp: demo_job_def)
  from cron_step.launch[OF this, of n] assms(2) show ?thesis
    by (auto simp: demo_world_def demo_register image_iff)
qed

definition demo_result :: "(unit, unit) run_status \<Rightarrow> (unit, unit) cron_result" where
  "demo_result s = \<lparr>cr_jobId = ''J'', cr_status = s, cr_startedAt = 0, cr_completedAt = 1\<rparr>"

lemma demo_finish:
  "invoke_finish (demo_job a t) False 0 1 outcome (cw_runtime (demo_world (demo_job a t) running aw ex timed l)) =
    (Returned (demo_result (case outcome of Inr v \<Rightarrow> Success v | Inl e \<Rightarrow> Failure e)),
     cw_runtime (demo_world (demo_job a t) (set_del ''J'' running) aw ex timed
       (js_set ''J'' (demo_result (case outcome of Inr v \<Rightarrow> Success v | Inl e \<Rightarrow> Failure e)) l)))"
  by (auto simp: invoke_finish_def Let_def demo_world_def demo_register demo_result_def split: sum.splits) (simp_all add: demo_job_def)

text \<open>A timeout ends the invocation but not the method: the next invocation runs beside it, although the job excludes
  overlaps.\<close>

theorem timeout_lets_runs_overlap:
  "\<exists>es w. cron_reachable demo_resolve InProcessCron es (w :: (unit, unit) cron_world) \<and> registered_only exclusive ''J'' es \<and>
    length (runs_of ''J'' (cw_executing w)) = 2"
proof -
  let ?d = "demo_job None (Some 10)"
  let ?l = "[(''J'', demo_result (Failure ()))]"
  have s1: "cron_step demo_resolve (demo_world ?d [] [] [] [] []) (Launched ''J'') (demo_world ?d [''J''] [1] [1] [] [])"
    using demo_begins[of "[]" None 1 "[]" "Some 10" "[]" "[]" "[]"] by (simp add: set_add_def)
  have s2: "cron_step demo_resolve (demo_world ?d [''J''] [1] [1] [] []) (TimedOut 1) (demo_world ?d [] [] [1] [] ?l)"
    using cron_step.timeout[OF _ _ demo_finish[of None "Some 10" "Inl ()" "[''J'']" "[1]" "[1]" "[]" "[]"], of 1 demo_resolve]
    by (simp add: demo_world_def demo_register set_del_def) (simp add: has_timeout_def demo_job_def)
  have s3: "cron_step demo_resolve (demo_world ?d [] [] [1] [] ?l) (Launched ''J'') (demo_world ?d [''J''] [2] [2, 1] [] ?l)"
    using demo_begins[of "[]" None 2 "[1]" "Some 10" "[]" "[]" ?l] by (simp add: set_add_def)
  have "cron_reachable demo_resolve InProcessCron ((([Applied ?d False] @ [Launched ''J'']) @ [TimedOut 1]) @ [Launched ''J''])
      (demo_world ?d [''J''] [2] [2, 1] [] ?l)"
    by (rule cron_reachable.step[OF cron_reachable.step[OF cron_reachable.step[OF demo_start s1] s2] s3])
  then show ?thesis
    by (intro exI conjI) (assumption, simp_all add: registered_only_def demo_world_def, simp_all add: demo_job_def)
qed

text \<open>The timer that the container arms for a job in process calls its method beside an invocation that is still running.\<close>

theorem timer_bypasses_guard:
  "\<exists>es w. cron_reachable demo_resolve InProcessCron es (w :: (unit, unit) cron_world) \<and> registered_only exclusive ''J'' es \<and>
    length (runs_of ''J'' (cw_executing w)) = 1 \<and> demo_job None None \<in> set (cw_timed w)"
proof -
  let ?d = "demo_job None None"
  have s1: "cron_step demo_resolve (demo_world ?d [] [] [] [] []) (Launched ''J'') (demo_world ?d [''J''] [1] [1] [] [])"
    using demo_begins[of "[]" None 1 "[]" None "[]" "[]" "[]"] by (simp add: set_add_def)
  have s2: "cron_step demo_resolve (demo_world ?d [''J''] [1] [1] [] []) (TimerFired ?d) (demo_world ?d [''J''] [1] [1] [?d] [])"
    using cron_step.timer_fired[of ?d "demo_world ?d [''J''] [1] [1] [] []" demo_resolve] by (simp add: demo_world_def)
  have "cron_reachable demo_resolve InProcessCron (([Applied ?d False] @ [Launched ''J'']) @ [TimerFired ?d])
      (demo_world ?d [''J''] [1] [1] [?d] [])"
    by (rule cron_reachable.step[OF cron_reachable.step[OF demo_start s1] s2])
  then show ?thesis
    by (intro exI conjI) (assumption, simp_all add: registered_only_def demo_world_def, simp_all add: demo_job_def)
qed

text \<open>With overlaps allowed, the first run to end takes the mark of the job away from the one still running.\<close>

theorem concurrent_run_reported_idle:
  "\<exists>es w. cron_reachable demo_resolve InProcessCron es (w :: (unit, unit) cron_world) \<and> length (runs_of ''J'' (cw_awaited w)) = 1 \<and>
    \<not> isJobRunning ''J'' (cw_runtime w)"
proof -
  let ?d = "demo_job (Some True) None"
  let ?l = "[(''J'', demo_result (Success ()))]"
  have s1: "cron_step demo_resolve (demo_world ?d [] [] [] [] []) (Launched ''J'') (demo_world ?d [''J''] [1] [1] [] [])"
    using demo_begins[of "[]" "Some True" 1 "[]" None "[]" "[]" "[]"] by (simp add: set_add_def)
  have s2: "cron_step demo_resolve (demo_world ?d [''J''] [1] [1] [] []) (Launched ''J'') (demo_world ?d [''J''] [2, 1] [2, 1] [] [])"
    using demo_begins[of "[''J'']" "Some True" 2 "[1]" None "[1]" "[]" "[]"] by (simp add: set_add_def)
  have s3: "cron_step demo_resolve (demo_world ?d [''J''] [2, 1] [2, 1] [] []) (Settled 2) (demo_world ?d [] [1] [1] [] ?l)"
    using cron_step.settle[OF _ demo_finish[of "Some True" None "Inr ()" "[''J'']" "[2, 1]" "[2, 1]" "[]" "[]"], of 2 demo_resolve]
    by (simp add: demo_world_def demo_register set_del_def)
  have "cron_reachable demo_resolve InProcessCron ((([Applied ?d False] @ [Launched ''J'']) @ [Launched ''J'']) @ [Settled 2])
      (demo_world ?d [] [1] [1] [] ?l)"
    by (rule cron_reachable.step[OF cron_reachable.step[OF cron_reachable.step[OF demo_start s1] s2] s3])
  moreover have "length (runs_of ''J'' (cw_awaited (demo_world ?d [] [1] [1] [] ?l))) = 1"
    by (simp add: demo_world_def) (simp add: demo_job_def)
  moreover have "\<not> isJobRunning ''J'' (cw_runtime (demo_world ?d [] [1] [1] [] ?l))"
    by (simp add: isJobRunning_def demo_world_def split: option.splits)
  ultimately show ?thesis
    by blast
qed

section \<open>Witnesses\<close>

lemma demo_reached: "cron_reachable demo_resolve InProcessCron ([Applied (demo_job None None) False] @ [Launched ''J''])
    (demo_world (demo_job None None) [''J''] [1] [1] [] [])"
  using cron_reachable.step[OF demo_start demo_begins[of "[]" None 1 "[]" None "[]" "[]" "[]"]] by (simp add: set_add_def)

lemma exclusive_job_runs_once_witness:
  "length (runs_of ''J'' (cw_executing (demo_world (demo_job None None) [''J''] [1] [1] [] []))) = 1"
  using exclusive_job_runs_once[OF demo_reached, of "''J''"]
  by (simp add: registered_only_def demo_world_def demo_register) (simp add: demo_job_def has_timeout_def)

lemma invocation_cycle_witness:
  "fst (invoke_begin demo_resolve ''J'' False 0 (registerJob (demo_job None None) (runtime_new InProcessCron) :: (unit, unit) cron_runtime)) =
     Started (demo_job None None)"
  by (rule conjunct1[OF invocation_cycle[of _ _ _ _ "\<lambda>_. True"]]) (simp_all add: demo_register demo_resolve_def, simp_all add: demo_job_def)

end
