(* ===== verification/Connection.thy ===== *)
theory Connection imports Utf8 Strings Cron begin

text \<open>
  Relay cursor connections: \<^verbatim>\<open>di-framework-graphql/src/connection.ts\<close>.

  \<^verbatim>\<open>btoa\<close> and \<^verbatim>\<open>atob\<close> on bytes are parameters (\<open>None\<close> if \<^verbatim>\<open>atob\<close> throws), and the lemmas ask of them
  only that the second undoes the first.  The counts of a request are integers, as GraphQL's \<^verbatim>\<open>Int\<close> makes them.
  The lemmas show which window of the array a request cuts, and that a client following the cursors forwards or
  backwards sees every item once.
\<close>

section \<open>Cursors\<close>

record base64_ops =
  b_btoa :: "byte list \<Rightarrow> jsstr"
  b_atob :: "jsstr \<Rightarrow> byte list option"

definition base64_inverse :: "base64_ops \<Rightarrow> bool" where
  "base64_inverse B \<longleftrightarrow> (\<forall>bs. b_atob B (b_btoa B bs) = Some bs)"

datatype connection_error = InvalidCursor | NegativeFirst | NegativeLast

definition ARRAY_CURSOR_PREFIX :: jsstr where
  "ARRAY_CURSOR_PREFIX = js_str ''arrayconnection:''"

definition encodeCursor :: "base64_ops \<Rightarrow> jsstr \<Rightarrow> jsstr" where
  "encodeCursor B s = b_btoa B (TextEncoder_encode s)"

definition decodeCursor :: "base64_ops \<Rightarrow> jsstr \<Rightarrow> (connection_error, jsstr) result" where
  "decodeCursor B c = (case b_atob B c of None \<Rightarrow> Inl InvalidCursor | Some bs \<Rightarrow> Inr (decode_lenient bs))"

definition offsetToCursor :: "base64_ops \<Rightarrow> nat \<Rightarrow> jsstr" where
  "offsetToCursor B i = encodeCursor B (ARRAY_CURSOR_PREFIX @ js_str (decimal i))"

text \<open>A code unit as \<^verbatim>\<open>parseInt\<close> sees it: white space beyond Latin-1 is skipped, anything else ends the number.\<close>

definition unit_char :: "16 word \<Rightarrow> char" where
  "unit_char u = (if unat u < 256 then char_of (unat u) else if js_space u then CHR '' '' else CHR ''?'')"

definition cursorToOffset :: "base64_ops \<Rightarrow> jsstr \<Rightarrow> (connection_error, int) result" where
  "cursorToOffset B c = rbind (decodeCursor B c) (\<lambda>t.
     if take (length ARRAY_CURSOR_PREFIX) t \<noteq> ARRAY_CURSOR_PREFIX then Inr (-1)
     else (case parse_int (map unit_char (drop (length ARRAY_CURSOR_PREFIX) t)) of None \<Rightarrow> Inr (-1) | Some n \<Rightarrow> Inr n))"

section \<open>Slicing\<close>

record page_info =
  pi_hasNextPage :: bool
  pi_hasPreviousPage :: bool
  pi_startCursor :: "jsstr option"
  pi_endCursor :: "jsstr option"

record 'a connection =
  cn_edges :: "('a \<times> jsstr) list"
  cn_pageInfo :: page_info
  cn_totalCount :: "nat option"

record connection_args =
  ca_first :: "int option"
  ca_after :: "jsstr option"
  ca_last :: "int option"
  ca_before :: "jsstr option"

definition offset_of :: "base64_ops \<Rightarrow> jsstr option \<Rightarrow> (connection_error, int option) result" where
  "offset_of B c = (case c of None \<Rightarrow> Inr None
     | Some t \<Rightarrow> rbind (cursorToOffset B t) (\<lambda>n. Inr (if 0 \<le> n then Some n else None)))"

text \<open>The window \<open>[start, end)\<close>: first between the cursors, then trimmed.\<close>

definition cursor_window :: "nat \<Rightarrow> int option \<Rightarrow> int option \<Rightarrow> int \<times> int" where
  "cursor_window n after before =
     (let start = (case after of None \<Rightarrow> 0 | Some k \<Rightarrow> max 0 (min (k + 1) (int n)));
          stop = (case before of None \<Rightarrow> int n | Some k \<Rightarrow> min (int n) (max k 0))
      in (start, if stop < start then start else stop))"

definition trim_first :: "int option \<Rightarrow> int \<times> int \<Rightarrow> (connection_error, int \<times> int) result" where
  "trim_first first w = (case first of None \<Rightarrow> Inr w
     | Some n \<Rightarrow> if n < 0 then Inl NegativeFirst else Inr (fst w, min (snd w) (fst w + n)))"

definition trim_last :: "int option \<Rightarrow> int \<times> int \<Rightarrow> (connection_error, int \<times> int) result" where
  "trim_last last' w = (case last' of None \<Rightarrow> Inr w
     | Some n \<Rightarrow> if n < 0 then Inl NegativeLast else Inr (max (fst w) (snd w - n), snd w))"

definition page_of :: "base64_ops \<Rightarrow> 'a list \<Rightarrow> int \<times> int \<Rightarrow> 'a connection" where
  "page_of B items w =
     (let start = nat (fst w);
          edges = map (\<lambda>(i, x). (x, offsetToCursor B (start + i))) (enumerate 0 (js_slice start (nat (snd w)) items))
      in \<lparr>cn_edges = edges,
          cn_pageInfo = \<lparr>pi_hasNextPage = snd w < int (length items), pi_hasPreviousPage = 0 < fst w,
            pi_startCursor = (if edges = [] then None else Some (snd (hd edges))),
            pi_endCursor = (if edges = [] then None else Some (snd (List.last edges)))\<rparr>,
          cn_totalCount = Some (length items)\<rparr>)"

definition connectionFromArray :: "base64_ops \<Rightarrow> 'a list \<Rightarrow> connection_args \<Rightarrow> (connection_error, 'a connection) result" where
  "connectionFromArray B items args =
     rbind (offset_of B (ca_after args)) (\<lambda>after.
     rbind (offset_of B (ca_before args)) (\<lambda>before.
     rbind (trim_first (ca_first args) (cursor_window (length items) after before)) (\<lambda>w.
     rbind (trim_last (ca_last args) w) (\<lambda>w'.
     Inr (page_of B items w')))))"

text \<open>A page that the data source cut itself.\<close>

record 'a slice_options =
  so_cursorFor :: "'a \<Rightarrow> nat \<Rightarrow> jsstr"
  so_hasNextPage :: "bool option"
  so_hasPreviousPage :: "bool option"
  so_totalCount :: "nat option"

definition connectionFromSlice :: "base64_ops \<Rightarrow> 'a list \<Rightarrow> 'a slice_options \<Rightarrow> 'a connection" where
  "connectionFromSlice B nodes opts =
     (let edges = map (\<lambda>(i, x). (x, encodeCursor B (so_cursorFor opts x i))) (enumerate 0 nodes)
      in \<lparr>cn_edges = edges,
          cn_pageInfo = \<lparr>pi_hasNextPage = nullish (so_hasNextPage opts) False, pi_hasPreviousPage = nullish (so_hasPreviousPage opts) False,
            pi_startCursor = (if edges = [] then None else Some (snd (hd edges))),
            pi_endCursor = (if edges = [] then None else Some (snd (List.last edges)))\<rparr>,
          cn_totalCount = so_totalCount opts\<rparr>)"

text \<open>What a field declared as a connection may return.\<close>

datatype 'a field_value = Missing | Shaped "'a connection" | Items "'a list" | OtherValue

definition toConnection :: "base64_ops \<Rightarrow> 'a field_value \<Rightarrow> connection_args \<Rightarrow> (connection_error, 'a field_value) result" where
  "toConnection B v args = (case v of
       Items xs \<Rightarrow> rbind (connectionFromArray B xs args) (\<lambda>c. Inr (Shaped c))
     | _ \<Rightarrow> Inr v)"

section \<open>Cursors name positions\<close>

lemma unat_js_char: "unat (of_char c :: 16 word) = (of_char c :: nat)"
proof -
  have "take_bit 16 (of_char c :: nat) = of_char c"
    by (rule take_bit_nat_eq_self, rule order_less_trans[OF nat_of_char_less_256]) simp
  then show ?thesis
    by (subst of_nat_of_char[symmetric]) (simp add: unsigned_of_nat)
qed

lemma unit_char_js_str: "map unit_char (js_str s) = s"
  by (simp add: js_str_def comp_def unit_char_def unat_js_char nat_of_char_less_256)

lemma latin_not_surrogate: "unat u < 256 \<Longrightarrow> \<not> is_high u \<and> \<not> is_low u"
  by (auto simp: is_high_def is_low_def word_le_nat_alt word_less_nat_alt)

lemma js_str_well_formed: "well_formed (js_str s)"
proof -
  have "\<not> is_high (of_char c) \<and> \<not> is_low (of_char c)" for c
    by (rule latin_not_surrogate) (simp add: unat_js_char nat_of_char_less_256)
  then show ?thesis
    by (induction s rule: induct_list012) (simp_all add: js_str_def)
qed

lemma js_str_append: "js_str (s @ t) = js_str s @ js_str t"
  by (simp add: js_str_def)

lemma decode_lenient_js_str: "decode_lenient (TextEncoder_encode (js_str s)) = js_str s"
proof -
  have "\<not> starts_with_bom (js_str s)"
  proof -
    have "of_char c \<noteq> (0xFEFF :: 16 word)" for c
    proof
      assume "of_char c = (0xFEFF :: 16 word)"
      then have "unat (of_char c :: 16 word) = 0xFEFF"
        by simp
      then show False
        using nat_of_char_less_256[of c] by (simp add: unat_js_char)
    qed
    then show ?thesis
      by (cases s) (simp_all add: starts_with_bom_def js_str_def)
  qed
  then have "strip_bom (scalars (js_str s)) = scalars (js_str s)"
    by (intro not_bom_strip js_str_well_formed)
  moreover have "u8_run None (TextEncoder_encode (js_str s)) = map Some (scalars (js_str s))"
    using u8_run_scalars[of "scalars (js_str s)"] scalars_scalar by (auto simp: TextEncoder_encode_def)
  ultimately show ?thesis
    using from_scalars_scalars[OF js_str_well_formed[of s]] by (simp add: decode_lenient_def comp_def)
qed

lemma offset_roundtrip:
  assumes "base64_inverse B"
  shows "cursorToOffset B (offsetToCursor B n) = Inr (int n)"
proof -
  define p where "p = ''arrayconnection:''"
  have "decodeCursor B (offsetToCursor B n) = Inr (js_str (p @ decimal n))"
    using assms decode_lenient_js_str[of "p @ decimal n"]
    by (simp add: decodeCursor_def offsetToCursor_def encodeCursor_def base64_inverse_def ARRAY_CURSOR_PREFIX_def flip: js_str_append p_def)
  then show ?thesis
    using decimal_digits[of n]
    by (simp add: cursorToOffset_def ARRAY_CURSOR_PREFIX_def js_str_append unit_char_js_str parse_int_digits flip: p_def)
qed


text \<open>The cursor of a position decodes to that position, and different positions have different cursors.\<close>

theorem cursor_roundtrip:
  assumes "base64_inverse B"
  shows "cursorToOffset B (offsetToCursor B n) = Inr (int n) \<and> (offsetToCursor B n = offsetToCursor B m \<longleftrightarrow> n = m)"
  using offset_roundtrip[OF assms, of n] offset_roundtrip[OF assms, of m] by (metis of_nat_eq_iff sum.inject(2))

section \<open>The window of a request\<close>

lemma page_of_window:
  assumes "0 \<le> a" "a \<le> b" "b \<le> int (length items)"
  shows "page_of B items (a, b) = \<lparr>cn_edges = map (\<lambda>i. (items ! i, offsetToCursor B i)) [nat a..<nat b],
    cn_pageInfo = \<lparr>pi_hasNextPage = b < int (length items), pi_hasPreviousPage = 0 < a,
      pi_startCursor = (if a < b then Some (offsetToCursor B (nat a)) else None),
      pi_endCursor = (if a < b then Some (offsetToCursor B (nat b - 1)) else None)\<rparr>,
    cn_totalCount = Some (length items)\<rparr>"
proof -
  let ?edges = "map (\<lambda>(i, x). (x, offsetToCursor B (nat a + i))) (enumerate 0 (js_slice (nat a) (nat b) items))"
  have edges: "?edges = map (\<lambda>i. (items ! i, offsetToCursor B i)) [nat a..<nat b]"
    using assms by (intro nth_equalityI) (auto simp: js_slice_def nth_enumerate_eq)
  have "[nat a..<nat b] = [] \<longleftrightarrow> \<not> a < b"
    using assms by auto
  moreover have "hd [nat a..<nat b] = nat a" "last [nat a..<nat b] = nat b - 1" if "a < b"
    using that assms by (simp_all add: hd_upt last_upt)
  ultimately show ?thesis
    unfolding page_of_def Let_def fst_conv snd_conv edges by (simp add: hd_map last_map)
qed

lemma connection_windowE:
  assumes "connectionFromArray B items args = Inr c"
  obtains a b where "0 \<le> a" "a \<le> b" "b \<le> int (length items)" "c = page_of B items (a, b)"
    "\<forall>n. ca_first args = Some n \<longrightarrow> b - a \<le> n" "\<forall>n. ca_last args = Some n \<longrightarrow> b - a \<le> n"
proof -
  obtain after before w w' where w: "trim_first (ca_first args) (cursor_window (length items) after before) = Inr w" "trim_last (ca_last args) w = Inr w'"
      "c = page_of B items w'"
    using assms by (auto simp: connectionFromArray_def rbind_eq_Inr)
  have "0 \<le> fst (cursor_window (length items) after before) \<and> fst (cursor_window (length items) after before) \<le> snd (cursor_window (length items) after before) \<and>
      snd (cursor_window (length items) after before) \<le> int (length items)"
    by (auto simp: cursor_window_def Let_def split: option.splits)
  then have "0 \<le> fst w \<and> fst w \<le> snd w \<and> snd w \<le> int (length items) \<and> (\<forall>n. ca_first args = Some n \<longrightarrow> snd w - fst w \<le> n)"
    using w(1) by (auto simp: trim_first_def split: option.splits if_splits)
  then have "0 \<le> fst w' \<and> fst w' \<le> snd w' \<and> snd w' \<le> int (length items) \<and> (\<forall>n. ca_first args = Some n \<longrightarrow> snd w' - fst w' \<le> n) \<and>
      (\<forall>n. ca_last args = Some n \<longrightarrow> snd w' - fst w' \<le> n)"
    using w(2) by (auto simp: trim_last_def split: option.splits if_splits)
  then show thesis
    using w(3) by (intro that[of "fst w'" "snd w'"]) auto
qed

text \<open>A page is a contiguous window of the array, no longer than \<open>first\<close> and \<open>last\<close>, and its page information says
  what lies on either side.\<close>

theorem page_is_window:
  assumes "connectionFromArray B items args = Inr c"
  shows "\<exists>a b. a \<le> b \<and> b \<le> length items \<and> cn_edges c = map (\<lambda>i. (items ! i, offsetToCursor B i)) [a..<b] \<and>
    (\<forall>n. ca_first args = Some n \<longrightarrow> int (b - a) \<le> n) \<and> (\<forall>n. ca_last args = Some n \<longrightarrow> int (b - a) \<le> n) \<and>
    pi_hasNextPage (cn_pageInfo c) = (b < length items) \<and> pi_hasPreviousPage (cn_pageInfo c) = (0 < a) \<and>
    pi_startCursor (cn_pageInfo c) = (if a < b then Some (offsetToCursor B a) else None) \<and>
    pi_endCursor (cn_pageInfo c) = (if a < b then Some (offsetToCursor B (b - 1)) else None) \<and> cn_totalCount c = Some (length items)"
proof -
  obtain a b where w: "0 \<le> a" "a \<le> b" "b \<le> int (length items)" "c = page_of B items (a, b)"
      "\<forall>n. ca_first args = Some n \<longrightarrow> b - a \<le> n" "\<forall>n. ca_last args = Some n \<longrightarrow> b - a \<le> n"
    by (rule connection_windowE[OF assms])
  then show ?thesis
    unfolding w(4) page_of_window[OF w(1-3)] by (intro exI[of _ "nat a"] exI[of _ "nat b"]) auto
qed

section \<open>Following the cursors\<close>

definition page_args :: "nat \<Rightarrow> jsstr option \<Rightarrow> connection_args" where
  "page_args n c = \<lparr>ca_first = Some (int n), ca_after = c, ca_last = None, ca_before = None\<rparr>"

text \<open>A client that asks for pages of \<open>n\<close> items while there is a next one.\<close>

fun collect :: "nat \<Rightarrow> base64_ops \<Rightarrow> 'a list \<Rightarrow> nat \<Rightarrow> jsstr option \<Rightarrow> 'a list option" where
  "collect 0 B items n cursor = None"
| "collect (Suc k) B items n cursor =
     (case connectionFromArray B items (page_args n cursor) of
        Inl e \<Rightarrow> None
      | Inr c \<Rightarrow> if pi_hasNextPage (cn_pageInfo c)
                 then map_option (\<lambda>rest. map fst (cn_edges c) @ rest) (collect k B items n (pi_endCursor (cn_pageInfo c)))
                 else Some (map fst (cn_edges c)))"

lemma forward_page:
  assumes "base64_inverse B" "a \<le> length items" "cursor = (if a = 0 then None else Some (offsetToCursor B (a - 1)))"
  shows "connectionFromArray B items (page_args n cursor) = Inr (page_of B items (int a, min (int (length items)) (int (a + n))))"
proof -
  have "offset_of B cursor = Inr (if a = 0 then None else Some (int (a - 1)))"
    using offset_roundtrip[OF assms(1), of "a - 1"] assms(3) by (simp add: offset_of_def)
  moreover have "cursor_window (length items) (if a = 0 then None else Some (int (a - 1))) None = (int a, int (length items))"
    using assms(2) by (auto simp: cursor_window_def)
  ultimately show ?thesis
    by (simp add: connectionFromArray_def page_args_def offset_of_def trim_first_def trim_last_def)
qed

lemma collect_from:
  assumes "base64_inverse B" "0 < n" "a \<le> length items" "length items - a < k"
  shows "collect k B items n (if a = 0 then None else Some (offsetToCursor B (a - 1))) = Some (drop a items)"
  using assms(3,4)
proof (induction k arbitrary: a)
  case (Suc k)
  let ?b = "min (length items) (a + n)"
  have b: "min (int (length items)) (int (a + n)) = int ?b" "a \<le> ?b" "?b \<le> length items"
    using Suc.prems by auto
  have page: "connectionFromArray B items (page_args n (if a = 0 then None else Some (offsetToCursor B (a - 1)))) = Inr (page_of B items (int a, int ?b))"
    using forward_page[OF assms(1) Suc.prems(1) refl, of n] b(1) by simp
  have window: "page_of B items (int a, int ?b) = \<lparr>cn_edges = map (\<lambda>i. (items ! i, offsetToCursor B i)) [a..<?b],
      cn_pageInfo = \<lparr>pi_hasNextPage = ?b < length items, pi_hasPreviousPage = 0 < a,
        pi_startCursor = (if a < ?b then Some (offsetToCursor B a) else None),
        pi_endCursor = (if a < ?b then Some (offsetToCursor B (?b - 1)) else None)\<rparr>,
      cn_totalCount = Some (length items)\<rparr>"
    using page_of_window[of "int a" "int ?b" items B] b by (simp del: of_nat_min of_nat_add)
  note page' = page[unfolded window]
  have nodes: "map (\<lambda>i. items ! i) [a..<?b] = take (?b - a) (drop a items)"
    using b by (intro nth_equalityI) (auto simp: less_diff_conv add.commute)
  show ?case
  proof (cases "?b < length items")
    case False
    then have eq: "?b = length items"
      using b by simp
    show ?thesis
      using nodes page' unfolding eq by (simp add: comp_def)
  next
    case True
    then have eq: "?b = a + n" "a < ?b"
      using assms(2) by auto
    have "collect k B items n (if ?b = 0 then None else Some (offsetToCursor B (?b - 1))) = Some (drop ?b items)"
      using Suc.IH[of ?b] Suc.prems b eq by simp
    moreover have "take (?b - a) (drop a items) @ drop ?b items = drop a items"
      using eq by (metis append_take_drop_id drop_drop add.commute diff_add_inverse)
    ultimately show ?thesis
      using True eq nodes by (simp add: page' comp_def)
  qed
qed simp

text \<open>C22: Paging forward with any positive page size returns every item once, in order, within one request per item plus
  one.\<close>

theorem paging_collects_everything:
  assumes "base64_inverse B" "0 < n" "length items < k"
  shows "collect k B items n None = Some items"
  using collect_from[OF assms(1,2), of 0 items k] assms(3) by simp


text \<open>The same backwards: \<open>last\<close> and \<open>before\<close>.\<close>

definition back_args :: "nat \<Rightarrow> jsstr option \<Rightarrow> connection_args" where
  "back_args n c = \<lparr>ca_first = None, ca_after = None, ca_last = Some (int n), ca_before = c\<rparr>"

fun collect_back :: "nat \<Rightarrow> base64_ops \<Rightarrow> 'a list \<Rightarrow> nat \<Rightarrow> jsstr option \<Rightarrow> 'a list option" where
  "collect_back 0 B items n cursor = None"
| "collect_back (Suc k) B items n cursor =
     (case connectionFromArray B items (back_args n cursor) of
        Inl e \<Rightarrow> None
      | Inr c \<Rightarrow> if pi_hasPreviousPage (cn_pageInfo c)
                 then map_option (\<lambda>rest. rest @ map fst (cn_edges c)) (collect_back k B items n (pi_startCursor (cn_pageInfo c)))
                 else Some (map fst (cn_edges c)))"

lemma backward_page:
  assumes "base64_inverse B" "b \<le> length items" "cursor = (if b = length items then None else Some (offsetToCursor B b))"
  shows "connectionFromArray B items (back_args n cursor) = Inr (page_of B items (int (b - n), int b))"
proof -
  have "offset_of B cursor = Inr (if b = length items then None else Some (int b))"
    using offset_roundtrip[OF assms(1), of b] assms(3) by (simp add: offset_of_def)
  moreover have "cursor_window (length items) None (if b = length items then None else Some (int b)) = (0, int b)"
    using assms(2) by (auto simp: cursor_window_def)
  moreover have "max 0 (int b - int n) = int (b - n)"
    by simp
  ultimately show ?thesis
    by (simp add: connectionFromArray_def back_args_def offset_of_def trim_first_def trim_last_def)
qed

lemma collect_back_to:
  assumes "base64_inverse B" "0 < n" "b \<le> length items" "b < k"
  shows "collect_back k B items n (if b = length items then None else Some (offsetToCursor B b)) = Some (take b items)"
  using assms(3,4)
proof (induction k arbitrary: b)
  case (Suc k)
  let ?a = "b - n"
  have page: "connectionFromArray B items (back_args n (if b = length items then None else Some (offsetToCursor B b))) = Inr (page_of B items (int ?a, int b))"
    using backward_page[OF assms(1) Suc.prems(1) refl, of n] by simp
  have window: "page_of B items (int ?a, int b) = \<lparr>cn_edges = map (\<lambda>i. (items ! i, offsetToCursor B i)) [?a..<b],
      cn_pageInfo = \<lparr>pi_hasNextPage = b < length items, pi_hasPreviousPage = 0 < ?a,
        pi_startCursor = (if ?a < b then Some (offsetToCursor B ?a) else None),
        pi_endCursor = (if ?a < b then Some (offsetToCursor B (b - 1)) else None)\<rparr>,
      cn_totalCount = Some (length items)\<rparr>"
    using page_of_window[of "int ?a" "int b" items B] Suc.prems(1) by simp
  note page' = page[unfolded window]
  have nodes: "map (\<lambda>i. items ! i) [?a..<b] = drop ?a (take b items)"
    using Suc.prems(1) by (intro nth_equalityI) auto
  show ?case
  proof (cases "0 < ?a")
    case False
    then show ?thesis
      using nodes by (simp add: page' comp_def)
  next
    case True
    have "collect_back k B items n (if ?a = length items then None else Some (offsetToCursor B ?a)) = Some (take ?a items)"
      using Suc.IH[of ?a] Suc.prems True assms(2) by simp
    moreover have "?a < length items" "?a < b"
      using True assms(2) Suc.prems(1) by auto
    moreover have "take ?a items @ drop ?a (take b items) = take b items"
      by (metis append_take_drop_id diff_le_self min.absorb1 take_take)
    ultimately show ?thesis
      using True nodes by (simp add: page' comp_def)
  qed
qed simp

text \<open>Paging backward returns every item once as well.\<close>

theorem paging_back_collects_everything:
  assumes "base64_inverse B" "0 < n" "length items < k"
  shows "collect_back k B items n None = Some items"
  using collect_back_to[OF assms(1,2), of "length items" items k] assms(3) by simp

text \<open>A cursor that is not one of an array is ignored: the request starts over from the first item.\<close>

theorem foreign_cursor_starts_over:
  assumes "cursorToOffset B c = Inr (-1)"
  shows "connectionFromArray B items (page_args n (Some c)) = connectionFromArray B items (page_args n None)"
  using assms by (simp add: connectionFromArray_def page_args_def offset_of_def)

section \<open>Witnesses\<close>

definition toy_base64 :: base64_ops where
  "toy_base64 = \<lparr>b_btoa = map ucast, b_atob = (\<lambda>s. Some (map ucast s))\<rparr>"

lemma toy_inverse: "base64_inverse toy_base64"
proof -
  have "ucast (ucast b :: 16 word) = b" for b :: byte
    by (rule bit_word_eqI) (auto simp: bit_simps)
  then show ?thesis
    by (simp add: base64_inverse_def toy_base64_def comp_def)
qed

lemma cursor_roundtrip_witness: "cursorToOffset toy_base64 (offsetToCursor toy_base64 42) = Inr 42"
  using cursor_roundtrip[OF toy_inverse, of 42] by simp

lemma page_is_window_witness:
  "\<exists>c :: nat connection. connectionFromArray toy_base64 [1, 2, 3] (page_args 2 None) = Inr c \<and> int (length (cn_edges c)) \<le> 2"
proof -
  obtain c :: "nat connection" where c: "connectionFromArray toy_base64 [1, 2, 3] (page_args 2 None) = Inr c"
    using forward_page[OF toy_inverse, of 0 "[1, 2, 3 :: nat]" None 2] by auto
  from page_is_window[OF c] obtain a b where "cn_edges c = map (\<lambda>i. ([1, 2, 3 :: nat] ! i, offsetToCursor toy_base64 i)) [a..<b]"
      "\<forall>n. ca_first (page_args 2 None) = Some n \<longrightarrow> int (b - a) \<le> n"
    by auto
  then show ?thesis
    using c by (intro exI[of _ c]) (simp add: page_args_def)
qed

lemma paging_collects_everything_witness: "collect 5 toy_base64 [1, 2, 3 :: nat] 2 None = Some [1, 2, 3]"
  by (rule paging_collects_everything[OF toy_inverse]) simp_all

lemma paging_back_collects_everything_witness: "collect_back 5 toy_base64 [1, 2, 3 :: nat] 2 None = Some [1, 2, 3]"
  by (rule paging_back_collects_everything[OF toy_inverse]) simp_all

lemma foreign_cursor_starts_over_witness:
  "connectionFromArray toy_base64 [1, 2, 3 :: nat] (page_args 2 (Some [])) = connectionFromArray toy_base64 [1, 2, 3] (page_args 2 None)"
  by (rule foreign_cursor_starts_over)
    (simp add: cursorToOffset_def decodeCursor_def toy_base64_def decode_lenient_def from_scalars_def ARRAY_CURSOR_PREFIX_def js_str_def)

end
