(* ===== verification/GraphqlWs.thy ===== *)
theory GraphqlWs imports Json begin

text \<open>
  The \<^verbatim>\<open>graphql-transport-ws\<close> server of \<^verbatim>\<open>di-framework-socket/src/integrations/graphql-transport-ws.ts\<close>.

  A connection is a state machine over events: a message of the client, and the ends of the awaits it starts.  Each
  call of \<^verbatim>\<open>startOperation\<close> is a task with the phase it waits in.  The schema (\<^verbatim>\<open>execute\<close>, \<^verbatim>\<open>subscribe\<close>, the streams)
  acts through the events; whether a request is a subscription, the printing of a number as an identifier and the merge
  of a context are parameters.  The lemmas show what a client receives, and which cancellations are lost.
\<close>

section \<open>State\<close>

datatype phase = Executing | Subscribing | Streaming

record 'c ws_socket =
  ws_context :: 'c
  ws_operations :: "(jsstr, nat) jsmap"
  ws_acknowledged :: bool
  ws_tasks :: "(nat, jsstr \<times> phase) jsmap"
  ws_inits :: nat
  ws_fresh :: nat

datatype frame = Ack | PongFrame | Next jsstr | CompleteFrame jsstr | ErrorFrame jsstr | CloseWith nat | Thrown

record 'c ws_options =
  wo_isSubscription :: "json \<Rightarrow> bool"
  wo_asyncContext :: bool
  wo_merge :: "'c \<Rightarrow> json \<Rightarrow> 'c"
  wo_number :: "rat \<Rightarrow> jsstr"

definition createData :: "'c \<Rightarrow> 'c ws_socket" where
  "createData ctx = \<lparr>ws_context = ctx, ws_operations = [], ws_acknowledged = False, ws_tasks = [], ws_inits = 0, ws_fresh = 0\<rparr>"

section \<open>Messages\<close>

text \<open>\<^verbatim>\<open>message.name\<close> of a parsed value that is not \<^verbatim>\<open>null\<close>.\<close>

definition member :: "json \<Rightarrow> string \<Rightarrow> json option" where
  "member j name = (case j of JObj o' \<Rightarrow> js_get o' (js_str name) | _ \<Rightarrow> None)"

definition requireOperationId :: "'c ws_options \<Rightarrow> json option \<Rightarrow> jsstr option" where
  "requireOperationId W i = (case i of
       Some (JStr s) \<Rightarrow> if s \<noteq> [] then Some s else None
     | Some (JNum n) \<Rightarrow> Some (wo_number W n)
     | _ \<Rightarrow> None)"

text \<open>\<^verbatim>\<open>x ?? {}\<close>\<close>

definition or_empty :: "json option \<Rightarrow> json" where
  "or_empty p = (case p of None \<Rightarrow> JObj [] | Some JNull \<Rightarrow> JObj [] | Some j \<Rightarrow> j)"

definition startOperation :: "'c ws_options \<Rightarrow> jsstr \<Rightarrow> json \<Rightarrow> 'c ws_socket \<Rightarrow> 'c ws_socket" where
  "startOperation W i payload st =
     st\<lparr>ws_tasks := js_set (ws_fresh st) (i, if wo_isSubscription W payload then Subscribing else Executing) (ws_tasks st),
        ws_fresh := Suc (ws_fresh st)\<rparr>"

definition is_object :: "json option \<Rightarrow> bool" where
  "is_object p \<longleftrightarrow> (case p of Some (JObj _) \<Rightarrow> True | Some (JArr _) \<Rightarrow> True | _ \<Rightarrow> False)"

definition handle_init :: "'c ws_options \<Rightarrow> json option \<Rightarrow> 'c ws_socket \<Rightarrow> 'c ws_socket \<times> frame list" where
  "handle_init W payload st =
     (if wo_asyncContext W then (st\<lparr>ws_inits := Suc (ws_inits st)\<rparr>, [])
      else ((if is_object payload then st\<lparr>ws_context := wo_merge W (ws_context st) (the payload)\<rparr> else st)\<lparr>ws_acknowledged := True\<rparr>, [Ack]))"

text \<open>The switch on \<^verbatim>\<open>message.type\<close>.\<close>

definition dispatch_message :: "'c ws_options \<Rightarrow> json \<Rightarrow> 'c ws_socket \<Rightarrow> 'c ws_socket \<times> frame list" where
  "dispatch_message W m st =
     (let kind = member m ''type''
      in if kind = Some (JStr (js_str ''connection_init'')) then handle_init W (member m ''payload'') st
         else if kind = Some (JStr (js_str ''ping'')) then (st, [PongFrame])
         else if kind = Some (JStr (js_str ''pong'')) then (st, [])
         else if kind = Some (JStr (js_str ''subscribe''))
         then (if \<not> ws_acknowledged st then (st, [CloseWith 4401])
               else case requireOperationId W (member m ''id'') of
                 None \<Rightarrow> (st, [CloseWith 4400])
               | Some i \<Rightarrow> (startOperation W i (or_empty (member m ''payload'')) st, []))
         else if kind = Some (JStr (js_str ''complete''))
         then (case requireOperationId W (member m ''id'') of
                 None \<Rightarrow> (st, [CloseWith 4400])
               | Some i \<Rightarrow> (st\<lparr>ws_operations := js_del i (ws_operations st)\<rparr>, []))
         else (st, [CloseWith 4400]))"

text \<open>A text that is not JSON closes the connection; on \<^verbatim>\<open>null\<close> reading the type throws.\<close>

definition handleMessage :: "'c ws_options \<Rightarrow> json option \<Rightarrow> 'c ws_socket \<Rightarrow> 'c ws_socket \<times> frame list" where
  "handleMessage W parsed st =
     (case parsed of
        None \<Rightarrow> (st, [CloseWith 4400])
      | Some m \<Rightarrow> if m = JNull then (st, [Thrown]) else dispatch_message W m st)"

definition handleClose :: "'c ws_socket \<Rightarrow> 'c ws_socket" where
  "handleClose st = st\<lparr>ws_operations := []\<rparr>"

section \<open>The ends of awaits\<close>

definition drop_task :: "nat \<Rightarrow> 'c ws_socket \<Rightarrow> 'c ws_socket" where
  "drop_task n st = st\<lparr>ws_tasks := js_del n (ws_tasks st)\<rparr>"

datatype subscribed = Stream | NotStream | SubscribeRejected

definition init_done :: "'c option \<Rightarrow> 'c ws_socket \<Rightarrow> 'c ws_socket \<times> frame list" where
  "init_done r st =
     (if ws_inits st = 0 then (st, [])
      else case r of
        Some c \<Rightarrow> (st\<lparr>ws_inits := ws_inits st - 1, ws_context := c, ws_acknowledged := True\<rparr>, [Ack])
      | None \<Rightarrow> (st\<lparr>ws_inits := ws_inits st - 1\<rparr>, [CloseWith 4403]))"

definition execute_done :: "nat \<Rightarrow> bool \<Rightarrow> 'c ws_socket \<Rightarrow> 'c ws_socket \<times> frame list" where
  "execute_done n ok st = (case js_get (ws_tasks st) n of
       Some (i, Executing) \<Rightarrow> (drop_task n st, if ok then [Next i, CompleteFrame i] else [ErrorFrame i])
     | _ \<Rightarrow> (st, []))"

definition subscribe_done :: "nat \<Rightarrow> subscribed \<Rightarrow> 'c ws_socket \<Rightarrow> 'c ws_socket \<times> frame list" where
  "subscribe_done n r st = (case js_get (ws_tasks st) n of
       Some (i, Subscribing) \<Rightarrow>
         (case r of
            Stream \<Rightarrow> (st\<lparr>ws_operations := js_set i n (ws_operations st), ws_tasks := js_set n (i, Streaming) (ws_tasks st)\<rparr>, [])
          | _ \<Rightarrow> (drop_task n st, [ErrorFrame i]))
     | _ \<Rightarrow> (st, []))"

definition stream_next :: "nat \<Rightarrow> 'c ws_socket \<Rightarrow> 'c ws_socket \<times> frame list" where
  "stream_next n st = (case js_get (ws_tasks st) n of
       Some (i, Streaming) \<Rightarrow> if js_has (ws_operations st) i then (st, [Next i]) else (drop_task n st, [])
     | _ \<Rightarrow> (st, []))"

definition stream_end :: "nat \<Rightarrow> 'c ws_socket \<Rightarrow> 'c ws_socket \<times> frame list" where
  "stream_end n st = (case js_get (ws_tasks st) n of
       Some (i, Streaming) \<Rightarrow>
         if js_has (ws_operations st) i
         then (drop_task n (st\<lparr>ws_operations := js_del i (ws_operations st)\<rparr>), [CompleteFrame i])
         else (drop_task n st, [])
     | _ \<Rightarrow> (st, []))"

definition stream_throw :: "nat \<Rightarrow> 'c ws_socket \<Rightarrow> 'c ws_socket \<times> frame list" where
  "stream_throw n st = (case js_get (ws_tasks st) n of
       Some (i, Streaming) \<Rightarrow> (drop_task n (st\<lparr>ws_operations := js_del i (ws_operations st)\<rparr>), [ErrorFrame i])
     | _ \<Rightarrow> (st, []))"

datatype 'c ws_event =
    Message "json option"
  | InitDone "'c option"
  | ExecuteDone nat bool
  | SubscribeDone nat subscribed
  | StreamNext nat
  | StreamEnd nat
  | StreamThrow nat
  | Closed

definition ws_step :: "'c ws_options \<Rightarrow> 'c ws_socket \<Rightarrow> 'c ws_event \<Rightarrow> 'c ws_socket \<times> frame list" where
  "ws_step W st e = (case e of
       Message m \<Rightarrow> handleMessage W m st
     | InitDone r \<Rightarrow> init_done r st
     | ExecuteDone n ok \<Rightarrow> execute_done n ok st
     | SubscribeDone n r \<Rightarrow> subscribe_done n r st
     | StreamNext n \<Rightarrow> stream_next n st
     | StreamEnd n \<Rightarrow> stream_end n st
     | StreamThrow n \<Rightarrow> stream_throw n st
     | Closed \<Rightarrow> (handleClose st, []))"

fun ws_run :: "'c ws_options \<Rightarrow> 'c ws_socket \<Rightarrow> 'c ws_event list \<Rightarrow> 'c ws_socket \<times> frame list" where
  "ws_run W st [] = (st, [])"
| "ws_run W st (e # es) = (case ws_step W st e of (st1, out1) \<Rightarrow> case ws_run W st1 es of (st2, out2) \<Rightarrow> (st2, out1 @ out2))"


section \<open>Nothing before the acknowledgement\<close>

definition op_frame :: "frame \<Rightarrow> bool" where
  "op_frame f \<longleftrightarrow> (case f of Next _ \<Rightarrow> True | CompleteFrame _ \<Rightarrow> True | ErrorFrame _ \<Rightarrow> True | _ \<Rightarrow> False)"

lemma op_frame_simps [simp]:
  "op_frame (Next i)" "op_frame (CompleteFrame i)" "op_frame (ErrorFrame i)" "\<not> op_frame Ack" "\<not> op_frame PongFrame"
  "\<not> op_frame (CloseWith n)" "\<not> op_frame Thrown"
  by (simp_all add: op_frame_def)

lemma handleMessage_frames: "\<not> list_ex op_frame (snd (handleMessage W m st))"
  by (auto simp: handleMessage_def dispatch_message_def handle_init_def Let_def split: option.splits if_splits)

text \<open>What a message may do to the tasks and the acknowledgement.\<close>

lemma handleMessage_state:
  "(ws_tasks (fst (handleMessage W m st)) = ws_tasks st \<and> ws_fresh (fst (handleMessage W m st)) = ws_fresh st) \<or>
   (ws_acknowledged st \<and> (\<exists>i p. fst (handleMessage W m st) = startOperation W i p st))"
  by (auto simp: handleMessage_def dispatch_message_def handle_init_def Let_def split: option.splits if_splits)

definition quiet_socket :: "'c ws_socket \<Rightarrow> bool" where
  "quiet_socket st \<longleftrightarrow> \<not> ws_acknowledged st \<and> ws_tasks st = []"

lemma quiet_step:
  assumes "quiet_socket st" "ws_step W st e = (st1, out)"
  shows "\<not> list_ex op_frame out \<and> (ws_acknowledged st1 \<or> quiet_socket st1)"
proof (cases e)
  case (Message m)
  then show ?thesis
    using assms handleMessage_frames[of W m st] handleMessage_state[of W m st] by (auto simp: ws_step_def quiet_socket_def)
qed (use assms in \<open>auto simp: ws_step_def quiet_socket_def init_done_def execute_done_def subscribe_done_def stream_next_def stream_end_def
      stream_throw_def handleClose_def split: option.splits if_splits\<close>)

lemma ack_message: "ws_acknowledged st \<Longrightarrow> ws_acknowledged (fst (handleMessage W m st))"
  by (auto simp: handleMessage_def dispatch_message_def handle_init_def startOperation_def Let_def split: option.splits if_splits)

lemma ack_step: "ws_acknowledged st \<Longrightarrow> ws_acknowledged (fst (ws_step W st e))"
  by (cases e) (auto simp: ws_step_def ack_message init_done_def execute_done_def subscribe_done_def
      stream_next_def stream_end_def stream_throw_def handleClose_def drop_task_def split: option.splits phase.splits subscribed.splits)

lemma ack_run: "ws_acknowledged st \<Longrightarrow> ws_acknowledged (fst (ws_run W st es))"
proof (induction es arbitrary: st)
  case (Cons e es)
  then show ?case
    using ack_step[OF Cons.prems, of W e] by (auto split: prod.splits) (metis fst_conv)
qed simp

text \<open>Until a connection is acknowledged the client receives no result, completion or error of any operation.\<close>

theorem nothing_before_acknowledgement:
  "\<not> ws_acknowledged (fst (ws_run W (createData ctx) es)) \<longrightarrow> \<not> list_ex op_frame (snd (ws_run W (createData ctx) es))"
proof -
  have "quiet_socket st \<Longrightarrow> \<not> ws_acknowledged (fst (ws_run W st es)) \<Longrightarrow> \<not> list_ex op_frame (snd (ws_run W st es))" for st :: "'a ws_socket"
  proof (induction es arbitrary: st)
    case (Cons e es)
    obtain st1 out1 where s: "ws_step W st e = (st1, out1)"
      by (cases "ws_step W st e")
    have "\<not> ws_acknowledged st1"
      using Cons.prems(2) ack_run[of st1 W es] s by (auto split: prod.splits)
    then show ?case
      using quiet_step[OF Cons.prems(1) s] Cons.IH[of st1] Cons.prems(2) s by (auto split: prod.splits)
  qed simp
  then show ?thesis
    by (simp add: quiet_socket_def createData_def)
qed

section \<open>One stream per operation\<close>

definition frames_of :: "jsstr \<Rightarrow> frame list \<Rightarrow> frame list" where
  "frames_of i out = filter (\<lambda>f. f = Next i \<or> f = CompleteFrame i \<or> f = ErrorFrame i) out"

lemma frames_of_simps [simp]:
  "frames_of i [] = []" "frames_of i (out @ out') = frames_of i out @ frames_of i out'"
  "frames_of i (f # out) = (if f = Next i \<or> f = CompleteFrame i \<or> f = ErrorFrame i then f # frames_of i out else frames_of i out)"
  by (simp_all add: frames_of_def)

lemma frames_of_none: "\<not> list_ex op_frame out \<Longrightarrow> frames_of i out = []"
  by (induction out) auto

text \<open>Results, and then at most one completion or error.\<close>

definition open_stream :: "jsstr \<Rightarrow> frame list \<Rightarrow> bool" where
  "open_stream i fs \<longleftrightarrow> set fs \<subseteq> {Next i}"

definition stream_ok :: "jsstr \<Rightarrow> frame list \<Rightarrow> bool" where
  "stream_ok i fs \<longleftrightarrow> (\<exists>g t. fs = g @ t \<and> open_stream i g \<and> t \<in> {[], [CompleteFrame i], [ErrorFrame i]})"

lemma open_stream_simps [simp]: "open_stream i []" "open_stream i (xs @ ys) \<longleftrightarrow> open_stream i xs \<and> open_stream i ys" "open_stream i [Next i]"
  by (auto simp: open_stream_def)

lemma stream_ok_open: "open_stream i fs \<Longrightarrow> stream_ok i fs"
  by (auto simp: stream_ok_def)

lemma stream_ok_closed: "open_stream i fs \<Longrightarrow> t \<in> {[CompleteFrame i], [ErrorFrame i]} \<Longrightarrow> stream_ok i (fs @ t)"
  by (auto simp: stream_ok_def)

definition subscription_of :: "'c ws_options \<Rightarrow> 'c ws_event \<Rightarrow> jsstr option" where
  "subscription_of W e = (case e of
       Message (Some m) \<Rightarrow> if member m ''type'' = Some (JStr (js_str ''subscribe'')) then requireOperationId W (member m ''id'') else None
     | _ \<Rightarrow> None)"

definition ws_inv :: "jsstr set \<Rightarrow> frame list \<Rightarrow> (nat, jsstr \<times> phase) jsmap \<Rightarrow> nat \<Rightarrow> bool" where
  "ws_inv subs out tasks fresh \<longleftrightarrow>
     (\<forall>n i p. js_get tasks n = Some (i, p) \<longrightarrow> n < fresh \<and> i \<in> subs \<and> open_stream i (frames_of i out) \<and>
        (\<forall>m q. js_get tasks m = Some (i, q) \<longrightarrow> m = n)) \<and>
     (\<forall>i. stream_ok i (frames_of i out) \<and> (i \<notin> subs \<longrightarrow> frames_of i out = []))"

lemma ws_inv_same: "ws_inv subs out tasks fresh \<Longrightarrow> \<not> list_ex op_frame fs \<Longrightarrow> ws_inv subs (out @ fs) tasks fresh"
  by (simp add: ws_inv_def frames_of_none)

lemma ws_inv_next:
  assumes "ws_inv subs out tasks fresh" "js_get tasks n = Some (i, p)"
  shows "ws_inv subs (out @ [Next i]) tasks fresh"
proof -
  have "open_stream i (frames_of i out)" "i \<in> subs"
    using assms unfolding ws_inv_def by blast+
  then have "open_stream i (frames_of i (out @ [Next i]))"
    by simp
  moreover have "frames_of j (out @ [Next i]) = frames_of j out" if "j \<noteq> i" for j
    using that by simp
  ultimately show ?thesis
    using assms(1) \<open>i \<in> subs\<close> stream_ok_open[of i] unfolding ws_inv_def by metis
qed

lemma ws_inv_drop:
  assumes "ws_inv subs out tasks fresh" "js_get tasks n = Some (i, p)" "fs \<in> {[], [CompleteFrame i], [ErrorFrame i]}"
  shows "ws_inv subs (out @ fs) (js_del n tasks) fresh"
proof -
  have i: "open_stream i (frames_of i out)" "i \<in> subs" "\<forall>m q. js_get tasks m = Some (i, q) \<longrightarrow> m = n"
    using assms(1,2) unfolding ws_inv_def by blast+
  then have "stream_ok i (frames_of i (out @ fs))"
    using assms(3) stream_ok_open[of i "frames_of i out"] stream_ok_closed[of i "frames_of i out"] by auto
  moreover have "frames_of j (out @ fs) = frames_of j out" if "j \<noteq> i" for j
    using that assms(3) by auto
  ultimately show ?thesis
    using assms(1) i unfolding ws_inv_def js_get_del by (metis option.distinct(1))
qed

lemma ws_inv_phase:
  assumes "ws_inv subs out tasks fresh" "js_get tasks n = Some (i, p)"
  shows "ws_inv subs out (js_set n (i, q) tasks) fresh"
  using assms unfolding ws_inv_def js_get_set by (metis option.inject prod.inject)

lemma ws_inv_start:
  assumes "ws_inv subs out tasks fresh" "i \<notin> subs"
  shows "ws_inv (insert i subs) out (js_set fresh (i, p) tasks) (Suc fresh)"
proof -
  have "frames_of i out = []" "\<forall>n q. js_get tasks n \<noteq> Some (i, q)"
    using assms unfolding ws_inv_def by blast+
  then show ?thesis
    using assms unfolding ws_inv_def js_get_set by (auto simp: less_Suc_eq)
qed


lemma ws_inv_mono: "ws_inv subs out tasks fresh \<Longrightarrow> ws_inv (insert i subs) out tasks fresh"
  unfolding ws_inv_def by blast

definition with_subscription :: "jsstr option \<Rightarrow> jsstr set \<Rightarrow> jsstr set" where
  "with_subscription i subs = (case i of None \<Rightarrow> subs | Some i \<Rightarrow> insert i subs)"

lemma ws_inv_with: "ws_inv subs out tasks fresh \<Longrightarrow> ws_inv (with_subscription i subs) out tasks fresh"
  by (simp add: with_subscription_def ws_inv_mono split: option.split)

lemma message_starts:
  assumes "ws_tasks (fst (handleMessage W m st)) \<noteq> ws_tasks st \<or> ws_fresh (fst (handleMessage W m st)) \<noteq> ws_fresh st"
  shows "\<exists>i p. subscription_of W (Message m) = Some i \<and> fst (handleMessage W m st) = startOperation W i p st"
  using assms by (auto simp: handleMessage_def dispatch_message_def handle_init_def subscription_of_def Let_def split: option.splits if_splits)

lemma ws_inv_step:
  assumes "ws_inv subs out (ws_tasks st) (ws_fresh st)" "ws_step W st e = (st1, out1)" "\<forall>i. subscription_of W e = Some i \<longrightarrow> i \<notin> subs"
  shows "ws_inv (with_subscription (subscription_of W e) subs) (out @ out1) (ws_tasks st1) (ws_fresh st1)"
proof (cases e)
  case (Message m)
  have frames: "\<not> list_ex op_frame out1" and st1: "st1 = fst (handleMessage W m st)"
    using assms(2) Message handleMessage_frames[of W m st] by (simp_all add: ws_step_def)
  show ?thesis
  proof (cases "ws_tasks st1 = ws_tasks st \<and> ws_fresh st1 = ws_fresh st")
    case True
    then show ?thesis
      using ws_inv_same[OF ws_inv_with[OF assms(1)] frames] by simp
  next
    case False
    then obtain i p where i: "subscription_of W (Message m) = Some i" "st1 = startOperation W i p st"
      using message_starts[of W m st] st1 by auto
    then have "ws_inv (insert i subs) out (ws_tasks st1) (ws_fresh st1)"
      using ws_inv_start[OF assms(1), of i] assms(3) Message by (simp add: startOperation_def)
    then show ?thesis
      using ws_inv_same[OF _ frames] i(1) Message by (simp add: with_subscription_def)
  qed
next
  case (InitDone r)
  then show ?thesis
    using assms(1,2) ws_inv_same[OF assms(1), of "[Ack]"] ws_inv_same[OF assms(1), of "[CloseWith 4403]"]
    by (auto simp: ws_step_def init_done_def subscription_of_def with_subscription_def split: option.splits if_splits)
next
  case (ExecuteDone n ok)
  show ?thesis
  proof (cases "\<exists>i. js_get (ws_tasks st) n = Some (i, Executing)")
    case True
    then obtain i where i: "js_get (ws_tasks st) n = Some (i, Executing)" by blast
    have "ws_inv subs (out @ [Next i] @ [CompleteFrame i]) (js_del n (ws_tasks st)) (ws_fresh st)"
      using ws_inv_drop[OF ws_inv_next[OF assms(1) i] i, of "[CompleteFrame i]"] by simp
    then show ?thesis
      using assms(2) ExecuteDone i ws_inv_drop[OF assms(1) i, of "[ErrorFrame i]"]
      by (auto simp: ws_step_def execute_done_def drop_task_def subscription_of_def with_subscription_def)
  next
    case False
    then show ?thesis
      using assms(1,2) ExecuteDone
      by (auto simp: ws_step_def execute_done_def subscription_of_def with_subscription_def split: option.splits phase.splits)
  qed
next
  case (SubscribeDone n r)
  show ?thesis
  proof (cases "\<exists>i. js_get (ws_tasks st) n = Some (i, Subscribing)")
    case True
    then obtain i where i: "js_get (ws_tasks st) n = Some (i, Subscribing)" by blast
    then show ?thesis
      using assms(2) SubscribeDone ws_inv_drop[OF assms(1) i, of "[ErrorFrame i]"] ws_inv_phase[OF assms(1) i]
      by (cases r) (auto simp: ws_step_def subscribe_done_def drop_task_def subscription_of_def with_subscription_def)
  next
    case False
    then show ?thesis
      using assms(1,2) SubscribeDone
      by (auto simp: ws_step_def subscribe_done_def subscription_of_def with_subscription_def split: option.splits phase.splits)
  qed
next
  case (StreamNext n)
  show ?thesis
  proof (cases "\<exists>i. js_get (ws_tasks st) n = Some (i, Streaming)")
    case True
    then obtain i where i: "js_get (ws_tasks st) n = Some (i, Streaming)" by blast
    then show ?thesis
      using assms(2) StreamNext ws_inv_drop[OF assms(1) i, of "[]"] ws_inv_next[OF assms(1) i]
      by (auto simp: ws_step_def stream_next_def drop_task_def subscription_of_def with_subscription_def split: if_splits)
  next
    case False
    then show ?thesis
      using assms(1,2) StreamNext
      by (auto simp: ws_step_def stream_next_def subscription_of_def with_subscription_def split: option.splits phase.splits)
  qed
next
  case (StreamEnd n)
  show ?thesis
  proof (cases "\<exists>i. js_get (ws_tasks st) n = Some (i, Streaming)")
    case True
    then obtain i where i: "js_get (ws_tasks st) n = Some (i, Streaming)" by blast
    then show ?thesis
      using assms(2) StreamEnd ws_inv_drop[OF assms(1) i, of "[]"] ws_inv_drop[OF assms(1) i, of "[CompleteFrame i]"]
      by (auto simp: ws_step_def stream_end_def drop_task_def subscription_of_def with_subscription_def split: if_splits)
  next
    case False
    then show ?thesis
      using assms(1,2) StreamEnd
      by (auto simp: ws_step_def stream_end_def subscription_of_def with_subscription_def split: option.splits phase.splits)
  qed
next
  case (StreamThrow n)
  show ?thesis
  proof (cases "\<exists>i. js_get (ws_tasks st) n = Some (i, Streaming)")
    case True
    then obtain i where i: "js_get (ws_tasks st) n = Some (i, Streaming)" by blast
    then show ?thesis
      using assms(2) StreamThrow ws_inv_drop[OF assms(1) i, of "[ErrorFrame i]"]
      by (auto simp: ws_step_def stream_throw_def drop_task_def subscription_of_def with_subscription_def)
  next
    case False
    then show ?thesis
      using assms(1,2) StreamThrow
      by (auto simp: ws_step_def stream_throw_def subscription_of_def with_subscription_def split: option.splits phase.splits)
  qed
next
  case Closed
  then show ?thesis
    using assms(1,2) by (auto simp: ws_step_def handleClose_def subscription_of_def with_subscription_def)
qed

text \<open>The identifiers subscribed along a history.\<close>

fun subscriptions :: "'c ws_options \<Rightarrow> 'c ws_event list \<Rightarrow> jsstr list" where
  "subscriptions W [] = []"
| "subscriptions W (e # es) = (case subscription_of W e of None \<Rightarrow> subscriptions W es | Some i \<Rightarrow> i # subscriptions W es)"

lemma ws_inv_run:
  "ws_inv subs out (ws_tasks st) (ws_fresh st) \<Longrightarrow> distinct (subscriptions W es) \<Longrightarrow> set (subscriptions W es) \<inter> subs = {} \<Longrightarrow>
    \<exists>subs'. ws_inv subs' (out @ snd (ws_run W st es)) (ws_tasks (fst (ws_run W st es))) (ws_fresh (fst (ws_run W st es)))"
proof (induction es arbitrary: st subs out)
  case (Cons e es)
  obtain st1 out1 where s: "ws_step W st e = (st1, out1)"
    by (cases "ws_step W st e")
  have "\<forall>i. subscription_of W e = Some i \<longrightarrow> i \<notin> subs"
    using Cons.prems(3) by (auto split: option.splits)
  from ws_inv_step[OF Cons.prems(1) s this]
  have "ws_inv (with_subscription (subscription_of W e) subs) (out @ out1) (ws_tasks st1) (ws_fresh st1)" .
  moreover have "distinct (subscriptions W es)" "set (subscriptions W es) \<inter> with_subscription (subscription_of W e) subs = {}"
    using Cons.prems(2,3) by (auto simp: with_subscription_def split: option.splits)
  ultimately obtain subs' where "ws_inv subs' ((out @ out1) @ snd (ws_run W st1 es)) (ws_tasks (fst (ws_run W st1 es))) (ws_fresh (fst (ws_run W st1 es)))"
    using Cons.IH by blast
  then show ?case
    by (cases "ws_run W st1 es") (auto simp: s)
qed auto

text \<open>C23: When no identifier is subscribed twice, the frames of each operation are results followed by at most one
  completion or error.\<close>

theorem operation_frames_are_a_stream:
  assumes "distinct (subscriptions W es)"
  shows "stream_ok i (frames_of i (snd (ws_run W (createData ctx) es)))"
proof -
  have "ws_inv {} [] (ws_tasks (createData ctx)) (ws_fresh (createData ctx))"
    by (simp add: ws_inv_def createData_def stream_ok_open)
  from ws_inv_run[OF this assms] show ?thesis
    by (auto simp: ws_inv_def)
qed


section \<open>Cancelling\<close>

definition complete_message :: "jsstr \<Rightarrow> json" where
  "complete_message i = JObj [(js_str ''type'', JStr (js_str ''complete'')), (js_str ''id'', JStr i)]"

lemma complete_removes:
  assumes "i \<noteq> []"
  shows "handleMessage W (Some (complete_message i)) st = (st\<lparr>ws_operations := js_del i (ws_operations st)\<rparr>, [])"
  using assms by (simp add: handleMessage_def dispatch_message_def complete_message_def member_def requireOperationId_def js_str_def)

text \<open>An operation is cancelled: no entry for it, and its tasks are streams.\<close>

definition cancelled :: "jsstr \<Rightarrow> 'c ws_socket \<Rightarrow> bool" where
  "cancelled i st \<longleftrightarrow> \<not> js_has (ws_operations st) i \<and> (\<forall>n p. js_get (ws_tasks st) n = Some (i, p) \<longrightarrow> p = Streaming)"

lemma cancelled_step:
  assumes "cancelled i st" "ws_step W st e = (st1, out)" "subscription_of W e \<noteq> Some i"
  shows "cancelled i st1 \<and> set (frames_of i out) \<subseteq> {ErrorFrame i}"
proof (cases e)
  case (Message m)
  have "frames_of i out = []"
    using assms(2) Message handleMessage_frames[of W m st] frames_of_none by (simp add: ws_step_def)
  moreover have "cancelled i st1"
  proof (cases "ws_tasks st1 = ws_tasks st \<and> ws_fresh st1 = ws_fresh st")
    case True
    have "js_has (ws_operations st1) i \<Longrightarrow> js_has (ws_operations st) i"
      using assms(2) Message
      by (auto simp: ws_step_def handleMessage_def dispatch_message_def handle_init_def startOperation_def Let_def split: option.splits if_splits)
    then show ?thesis
      using assms(1) True by (auto simp: cancelled_def)
  next
    case False
    then obtain j p where "subscription_of W (Message m) = Some j" "st1 = startOperation W j p st"
      using message_starts[of W m st] assms(2) Message by (auto simp: ws_step_def)
    then show ?thesis
      using assms(1,3) Message by (auto simp: cancelled_def startOperation_def)
  qed
  ultimately show ?thesis
    by simp
next
  case (InitDone r)
  then show ?thesis
    using assms(1,2) by (auto simp: ws_step_def init_done_def cancelled_def split: option.splits if_splits)
next
  case (ExecuteDone n ok)
  have "js_get (ws_tasks st) n \<noteq> Some (i, Executing)"
    using assms(1) by (auto simp: cancelled_def)
  then show ?thesis
    using assms(1,2) ExecuteDone by (auto simp: ws_step_def execute_done_def drop_task_def cancelled_def split: option.splits phase.splits if_splits)
next
  case (SubscribeDone n r)
  have "js_get (ws_tasks st) n \<noteq> Some (i, Subscribing)"
    using assms(1) by (auto simp: cancelled_def)
  then show ?thesis
    using assms(1,2) SubscribeDone by (auto simp: ws_step_def subscribe_done_def drop_task_def cancelled_def split: option.splits phase.splits if_splits subscribed.splits)
next
  case (StreamNext n)
  then show ?thesis
    using assms(1,2) by (auto simp: ws_step_def stream_next_def drop_task_def cancelled_def split: option.splits phase.splits if_splits)
next
  case (StreamEnd n)
  then show ?thesis
    using assms(1,2) by (auto simp: ws_step_def stream_end_def drop_task_def cancelled_def split: option.splits phase.splits if_splits)
next
  case (StreamThrow n)
  then show ?thesis
    using assms(1,2) by (auto simp: ws_step_def stream_throw_def drop_task_def cancelled_def split: option.splits phase.splits if_splits)
next
  case Closed
  then show ?thesis
    using assms(1,2) by (auto simp: ws_step_def handleClose_def cancelled_def js_has_def)
qed

lemma cancelled_run:
  "cancelled i st \<Longrightarrow> i \<notin> set (subscriptions W es) \<Longrightarrow> set (frames_of i (snd (ws_run W st es))) \<subseteq> {ErrorFrame i}"
proof (induction es arbitrary: st)
  case (Cons e es)
  obtain st1 out1 where s: "ws_step W st e = (st1, out1)"
    by (cases "ws_step W st e")
  have "subscription_of W e \<noteq> Some i" "i \<notin> set (subscriptions W es)"
    using Cons.prems(2) by (auto split: option.splits)
  then show ?case
    using cancelled_step[OF Cons.prems(1) s] Cons.IH[of st1] by (cases "ws_run W st1 es") (auto simp: s)
qed simp

text \<open>Once the client completes a streaming operation it receives no further result or completion of it, whatever
  happens, until it subscribes again.\<close>

theorem complete_silences_stream:
  assumes "i \<noteq> []" "\<forall>n p. js_get (ws_tasks st) n = Some (i, p) \<longrightarrow> p = Streaming" "i \<notin> set (subscriptions W es)"
  shows "Next i \<notin> set (snd (ws_run W st (Message (Some (complete_message i)) # es))) \<and>
    CompleteFrame i \<notin> set (snd (ws_run W st (Message (Some (complete_message i)) # es)))"
proof -
  let ?st = "st\<lparr>ws_operations := js_del i (ws_operations st)\<rparr>"
  have "cancelled i ?st"
    using assms(2) by (simp add: cancelled_def)
  then have "set (frames_of i (snd (ws_run W ?st es))) \<subseteq> {ErrorFrame i}"
    using assms(3) by (rule cancelled_run)
  moreover have "snd (ws_run W st (Message (Some (complete_message i)) # es)) = snd (ws_run W ?st es)"
    by (simp add: ws_step_def complete_removes[OF assms(1)] split: prod.split)
  ultimately show ?thesis
    by (auto simp: frames_of_def)
qed

text \<open>Completed before its stream is there, an operation streams all the same.\<close>

theorem early_complete_is_lost:
  assumes "js_get (ws_tasks st) n = Some (i, Subscribing)" "i \<noteq> []"
  shows "snd (ws_run W st [Message (Some (complete_message i)), SubscribeDone n Stream, StreamNext n]) = [Next i]"
  using assms by (simp add: ws_step_def complete_removes subscribe_done_def stream_next_def)

text \<open>Two operations under one identifier: the end of the first silences the second, which is never completed.\<close>

theorem shared_identifier_loses_completion:
  assumes "js_get (ws_tasks st) n = Some (i, Streaming)" "js_get (ws_tasks st) m = Some (i, Streaming)" "n \<noteq> m" "js_has (ws_operations st) i"
  shows "snd (ws_run W st [StreamEnd n, StreamNext m, StreamEnd m]) = [CompleteFrame i]"
  using assms by (simp add: ws_step_def stream_end_def stream_next_def drop_task_def)

section \<open>Witnesses\<close>

definition demo_ws :: "unit ws_options" where
  "demo_ws = \<lparr>wo_isSubscription = (\<lambda>_. True), wo_asyncContext = False, wo_merge = (\<lambda>c _. c), wo_number = (\<lambda>_. [])\<rparr>"

definition demo_socket :: "phase \<Rightarrow> (jsstr, nat) jsmap \<Rightarrow> unit ws_socket" where
  "demo_socket p ops' = \<lparr>ws_context = (), ws_operations = ops', ws_acknowledged = True, ws_tasks = [(0, ([97], p)), (1, ([97], p))], ws_inits = 0, ws_fresh = 2\<rparr>"

definition subscribe_message :: "jsstr \<Rightarrow> json" where
  "subscribe_message i = JObj [(js_str ''type'', JStr (js_str ''subscribe'')), (js_str ''id'', JStr i)]"

definition init_message :: json where
  "init_message = JObj [(js_str ''type'', JStr (js_str ''connection_init''))]"

definition two_operations :: "unit ws_event list" where
  "two_operations = [Message (Some init_message), Message (Some (subscribe_message [97])), Message (Some (subscribe_message [98])),
     SubscribeDone 1 Stream, SubscribeDone 0 Stream, StreamNext 0, StreamNext 1, StreamNext 0, StreamEnd 0, StreamThrow 1]"

lemma operation_frames_are_a_stream_witness:
  "stream_ok [97] (frames_of [97] (snd (ws_run demo_ws (createData ()) two_operations))) \<and>
   frames_of [97] (snd (ws_run demo_ws (createData ()) two_operations)) = [Next [97], Next [97], CompleteFrame [97]]"
proof
  have run: "distinct (subscriptions demo_ws two_operations)"
    by code_simp
  show "stream_ok [97] (frames_of [97] (snd (ws_run demo_ws (createData ()) two_operations)))"
    by (rule operation_frames_are_a_stream[OF run])
  show "frames_of [97] (snd (ws_run demo_ws (createData ()) two_operations)) = [Next [97], Next [97], CompleteFrame [97]]"
    by code_simp
qed

lemma nothing_before_acknowledgement_witness:
  "\<not> list_ex op_frame (snd (ws_run demo_ws (createData ()) [Message (Some (subscribe_message [97]))]))"
proof -
  have "\<not> ws_acknowledged (fst (ws_run demo_ws (createData ()) [Message (Some (subscribe_message [97]))]))"
    by (simp add: ws_step_def handleMessage_def dispatch_message_def subscribe_message_def member_def js_str_def createData_def)
  then show ?thesis
    using nothing_before_acknowledgement[of demo_ws "()" "[Message (Some (subscribe_message [97]))]"] by blast
qed

lemma complete_silences_stream_witness:
  "Next [97] \<notin> set (snd (ws_run demo_ws (demo_socket Streaming [([97], 0)]) (Message (Some (complete_message [97])) # [StreamNext 0])))"
  by (rule conjunct1[OF complete_silences_stream]) (auto simp: demo_socket_def subscription_of_def split: if_splits)

lemma early_complete_is_lost_witness:
  "snd (ws_run demo_ws (demo_socket Subscribing []) [Message (Some (complete_message [97])), SubscribeDone 0 Stream, StreamNext 0]) = [Next [97]]"
  by (rule early_complete_is_lost) (simp_all add: demo_socket_def)

lemma shared_identifier_loses_completion_witness:
  "snd (ws_run demo_ws (demo_socket Streaming [([97], 1)]) [StreamEnd 0, StreamNext 1, StreamEnd 1]) = [CompleteFrame [97]]"
  by (rule shared_identifier_loses_completion) (simp_all add: demo_socket_def js_has_def)

end
