(* ===== verification/RpcMessages.thy ===== *)
theory RpcMessages imports Strings Utf8 Json Cron begin

text \<open>
  Messages of \<^verbatim>\<open>di-framework-rpc\<close>: the protobuf wire format of \<^verbatim>\<open>src/schema/messages.ts\<close>
  over the messages of the registry.

  A JavaScript value is one of the constructors below; a number is rational, the values that are not are
  \<^verbatim>\<open>VNonFinite\<close>.  A class is named by a number.  Conversions of values that do not have the declared type
  (\<^verbatim>\<open>Number(x)\<close>, \<^verbatim>\<open>String(x)\<close>) and the eight bytes of a double are parameters.  An object is its own
  properties in the order of assignment.  The lemmas show that a message of the declared types survives the wire, and
  which values do not.
\<close>

section \<open>Values and metadata\<close>

datatype rpc_value =
    VBool bool
  | VNum rat
  | VNonFinite
  | VBig int
  | VString jsstr
  | VBytes "byte list"
  | VArray "rpc_value list"
  | VMessage "(jsstr \<times> rpc_value) list"
  | VNull

datatype rpc_type = TString | TBool | TInt32 | TInt64 | TDouble | TBytes | TMessage nat

record rpc_field =
  rf_propertyKey :: jsstr
  rf_number :: int
  rf_type :: "rpc_type option"
  rf_repeated :: bool

record rpc_message =
  rm_target :: nat
  rm_name :: jsstr
  rm_fields :: "rpc_field list"

type_synonym rpc_messages = "(nat, rpc_message) jsmap"

record rpc_env =
  re_number :: "rpc_value \<Rightarrow> rat option"
  re_string :: "rpc_value \<Rightarrow> jsstr"
  re_double :: "rat option \<Rightarrow> byte list"
  re_readDouble :: "byte list \<Rightarrow> rpc_value"

datatype rpc_message_error =
    NotDecorated nat
  | InvalidVarint
  | MustBeArray jsstr
  | TruncatedDouble
  | TruncatedField
  | UnsupportedWire nat
  | RangeError
  | NotAnObject jsstr
  | TypeFailure
  | InvalidBase64

definition metadataFor :: "rpc_messages \<Rightarrow> nat \<Rightarrow> (rpc_message_error, rpc_message) result" where
  "metadataFor R c = (case js_get R c of None \<Rightarrow> Inl (NotDecorated c) | Some m \<Rightarrow> Inr m)"

definition fieldType :: "rpc_field \<Rightarrow> rpc_type" where
  "fieldType f = nullish (rf_type f) TString"

section \<open>Varints\<close>

fun varint_bytes :: "nat \<Rightarrow> byte list" where
  "varint_bytes n = (if n < 128 then [byte_of n] else byte_of (n mod 128 + 128) # varint_bytes (n div 128))"

declare varint_bytes.simps [simp del]

definition encodeVarint :: "int \<Rightarrow> byte list" where
  "encodeVarint v = varint_bytes (nat (if v < 0 then v mod 2 ^ 64 else v))"

fun read_varint :: "nat \<Rightarrow> nat \<Rightarrow> byte list \<Rightarrow> (rpc_message_error, nat \<times> byte list) result" where
  "read_varint shift v [] = Inl InvalidVarint"
| "read_varint shift v (b # bs) =
     (if 70 < shift then Inl InvalidVarint
      else let v' = v + (unat b mod 128) * 2 ^ shift
           in if unat b < 128 then Inr (v', bs) else read_varint (shift + 7) v' bs)"

definition readVarint :: "byte list \<Rightarrow> (rpc_message_error, nat \<times> byte list) result" where
  "readVarint bs = read_varint 0 0 bs"

definition wireType :: "rpc_type \<Rightarrow> nat" where
  "wireType t = (case t of TBool \<Rightarrow> 0 | TInt32 \<Rightarrow> 0 | TInt64 \<Rightarrow> 0 | TDouble \<Rightarrow> 1 | _ \<Rightarrow> 2)"

text \<open>The 32-bit signed value of \<^verbatim>\<open>field.number << 3\<close>, and \<^verbatim>\<open>BigInt.asIntN(32, x)\<close>.\<close>

definition signed32 :: "int \<Rightarrow> int" where
  "signed32 x = (x + 2 ^ 31) mod 2 ^ 32 - 2 ^ 31"

definition tag_of :: "rpc_field \<Rightarrow> int" where
  "tag_of f = signed32 (rf_number f * 8) + int (wireType (fieldType f))"

section \<open>Encoding\<close>

definition js_truthy :: "rpc_value \<Rightarrow> bool" where
  "js_truthy v = (case v of VBool b \<Rightarrow> b | VNum q \<Rightarrow> q \<noteq> 0 | VBig n \<Rightarrow> n \<noteq> 0 | VString s \<Rightarrow> s \<noteq> [] | VNull \<Rightarrow> False | _ \<Rightarrow> True)"

definition to_number :: "rpc_env \<Rightarrow> rpc_value \<Rightarrow> rat option" where
  "to_number E v = (case v of
       VNum q \<Rightarrow> Some q | VBool b \<Rightarrow> Some (if b then 1 else 0) | VNull \<Rightarrow> Some 0 | VMessage _ \<Rightarrow> None | VNonFinite \<Rightarrow> None | _ \<Rightarrow> re_number E v)"

text \<open>\<^verbatim>\<open>BigInt(Number(v))\<close>, which throws on a number that is not an integer.\<close>

definition to_bigint :: "rpc_env \<Rightarrow> rpc_value \<Rightarrow> int option" where
  "to_bigint E v = (case v of
       VBig n \<Rightarrow> Some n
     | _ \<Rightarrow> (case to_number E v of None \<Rightarrow> None | Some q \<Rightarrow> if of_int \<lfloor>q\<rfloor> = q then Some \<lfloor>q\<rfloor> else None))"

definition to_text :: "rpc_env \<Rightarrow> rpc_value \<Rightarrow> jsstr" where
  "to_text E v = (case v of VString s \<Rightarrow> s | _ \<Rightarrow> re_string E v)"

text \<open>The fields of a value read as a record; a primitive, an array or bytes has none (a field that is called
  \<^verbatim>\<open>length\<close> or like another property of theirs is left out), \<^verbatim>\<open>null\<close> throws.\<close>

definition as_record :: "rpc_value \<Rightarrow> (jsstr \<times> rpc_value) list option" where
  "as_record v = (case v of VMessage m \<Rightarrow> Some m | VNull \<Rightarrow> None | _ \<Rightarrow> Some [])"

definition prefixed :: "byte list \<Rightarrow> byte list" where
  "prefixed data = encodeVarint (int (length data)) @ data"

text \<open>One value; \<open>nested\<close> is the encoding of the value as a message, for a field that holds one.\<close>

definition encodeOne :: "rpc_env \<Rightarrow> rpc_field \<Rightarrow> rpc_value \<Rightarrow> (rpc_message_error, byte list) result \<Rightarrow> (rpc_message_error, byte list) result" where
  "encodeOne E f v nested =
     (let out = encodeVarint (tag_of f)
      in case fieldType f of
        TBool \<Rightarrow> Inr (out @ encodeVarint (if js_truthy v then 1 else 0))
      | TInt32 \<Rightarrow> (case to_bigint E v of None \<Rightarrow> Inl RangeError | Some n \<Rightarrow> Inr (out @ encodeVarint n))
      | TInt64 \<Rightarrow> (case to_bigint E v of None \<Rightarrow> Inl RangeError | Some n \<Rightarrow> Inr (out @ encodeVarint n))
      | TDouble \<Rightarrow> Inr (out @ re_double E (to_number E v))
      | TBytes \<Rightarrow> Inr (out @ prefixed (case v of VBytes b \<Rightarrow> b | _ \<Rightarrow> []))
      | TString \<Rightarrow> Inr (out @ prefixed (TextEncoder_encode (to_text E v)))
      | TMessage c \<Rightarrow> (case nested of Inl e \<Rightarrow> Inl e | Inr data \<Rightarrow> Inr (out @ prefixed data)))"

definition by_number :: "rpc_field list \<Rightarrow> rpc_field list" where
  "by_number fs = sort_by (\<lambda>a b. rf_number a \<le> rf_number b) fs"

lemma size_record: "as_record v = Some m \<Longrightarrow> js_get m k = Some x \<Longrightarrow> size x < size v"
proof -
  assume "as_record v = Some m" "js_get m k = Some x"
  then have "v = VMessage m" "(k, x) \<in> set m"
    by (auto simp: as_record_def map_of_SomeD split: rpc_value.splits)
  then show ?thesis
    using size_list_estimation'[of "(k, x)" m "size x" "size_prod (\<lambda>_. 0) size"] by (auto simp: less_Suc_eq_le size_prod_def)
qed

lemma size_item: "x \<in> set xs \<Longrightarrow> size x < size (VArray xs)"
  by (simp add: less_Suc_eq_le size_list_estimation')

function encodeRpcMessage :: "rpc_env \<Rightarrow> rpc_messages \<Rightarrow> nat \<Rightarrow> rpc_value \<Rightarrow> (rpc_message_error, byte list) result" where
  "encodeRpcMessage E R c v =
     (case metadataFor R c of
        Inl e \<Rightarrow> Inl e
      | Inr meta \<Rightarrow>
          (case as_record v of
             None \<Rightarrow> if rm_fields meta = [] then Inr [] else Inl TypeFailure
           | Some m \<Rightarrow>
               map_sum id concat (traverse (\<lambda>f.
                 (case js_get m (rf_propertyKey f) of
                    None \<Rightarrow> Inr []
                  | Some x \<Rightarrow>
                      if x = VNull then Inr []
                      else if rf_repeated f
                      then (case x of
                              VArray xs \<Rightarrow>
                                map_sum id concat (traverse (\<lambda>y. encodeOne E f y (case fieldType f of TMessage d \<Rightarrow> encodeRpcMessage E R d y | _ \<Rightarrow> Inr [])) xs)
                            | _ \<Rightarrow> Inl (MustBeArray (rf_propertyKey f)))
                      else encodeOne E f x (case fieldType f of TMessage d \<Rightarrow> encodeRpcMessage E R d x | _ \<Rightarrow> Inr []))) (by_number (rm_fields meta)))))"
  by pat_completeness auto

termination
proof (relation "measure (\<lambda>(E, R, c, v). size v)")
  show "wf (measure (\<lambda>(E, R, c, v). size v))"
    by simp
next
  fix R c v b m f x xs y d
  assume "as_record v = Some m" "js_get m (rf_propertyKey f) = Some x" "x = VArray xs" "y \<in> set xs"
  then show "((E, R, d, y), E, R, c, v) \<in> measure (\<lambda>(E, R, c, v). size v)" for E
    using size_record[of v m "rf_propertyKey f" x] size_item[of y xs] by simp
next
  fix R c v b m f x d
  assume "as_record v = Some m" "js_get m (rf_propertyKey f) = Some x"
  then show "((E, R, d, x), E, R, c, v) \<in> measure (\<lambda>(E, R, c, v). size v)" for E
    using size_record[of v m "rf_propertyKey f" x] by simp
qed

declare encodeRpcMessage.simps [simp del]


section \<open>Decoding\<close>

lemma read_varint_shorter: "read_varint s v bs = Inr (n, rest) \<Longrightarrow> length rest < length bs"
  by (induction s v bs rule: read_varint.induct) (auto simp: Let_def less_SucI split: if_splits)

lemma readVarint_shorter: "readVarint bs = Inr (n, rest) \<Longrightarrow> length rest < length bs"
  by (auto simp: readVarint_def dest: read_varint_shorter)

text \<open>What a field's payload is: a value, or the bytes of a nested message.\<close>

datatype payload = Value rpc_value | Nested nat "byte list"

definition decodeOne :: "rpc_env \<Rightarrow> rpc_type \<Rightarrow> nat \<Rightarrow> byte list \<Rightarrow> (rpc_message_error, payload \<times> byte list) result" where
  "decodeOne E t wire bs =
     (if wire = 0
      then (case readVarint bs of
              Inl e \<Rightarrow> Inl e
            | Inr (raw, rest) \<Rightarrow>
                Inr (Value (if t = TBool then VBool (raw \<noteq> 0)
                            else if t = TInt64 then (if raw \<le> 9007199254740991 then VNum (of_nat raw) else VBig (int raw))
                            else VNum (of_int (signed32 (int raw)))), rest))
      else if wire = 1 \<and> t = TDouble
      then (if length bs < 8 then Inl TruncatedDouble else Inr (Value (re_readDouble E (take 8 bs)), drop 8 bs))
      else if wire = 2
      then (case readVarint bs of
              Inl e \<Rightarrow> Inl e
            | Inr (len, rest) \<Rightarrow>
                if length rest < len then Inl TruncatedField
                else (case t of
                        TString \<Rightarrow> Inr (Value (VString (decode_lenient (take len rest))), drop len rest)
                      | TBytes \<Rightarrow> Inr (Value (VBytes (take len rest)), drop len rest)
                      | TMessage c \<Rightarrow> Inr (Nested c (take len rest), drop len rest)
                      | _ \<Rightarrow> Inl (UnsupportedWire wire)))
      else Inl (UnsupportedWire wire))"

definition skipField :: "nat \<Rightarrow> byte list \<Rightarrow> (rpc_message_error, byte list) result" where
  "skipField wire bs =
     (if wire = 0 then map_sum id snd (readVarint bs)
      else if wire = 1 then Inr (drop 8 bs)
      else if wire = 2 then map_sum id (\<lambda>(len, rest). drop len rest) (readVarint bs)
      else if wire = 5 then Inr (drop 4 bs)
      else Inl (UnsupportedWire wire))"

definition field_with :: "rpc_message \<Rightarrow> nat \<Rightarrow> rpc_field option" where
  "field_with meta n = List.find (\<lambda>f. rf_number f = int n) (rev (rm_fields meta))"

definition put :: "rpc_field \<Rightarrow> rpc_value \<Rightarrow> (jsstr \<times> rpc_value) list \<Rightarrow> (jsstr \<times> rpc_value) list" where
  "put f v acc =
     (if rf_repeated f
      then js_set (rf_propertyKey f) (VArray ((case js_get acc (rf_propertyKey f) of Some (VArray xs) \<Rightarrow> xs | _ \<Rightarrow> []) @ [v])) acc
      else js_set (rf_propertyKey f) v acc)"

lemma decodeOne_shorter:
  "decodeOne E t w bs = Inr (p, rest) \<Longrightarrow> length rest \<le> length bs \<and> (\<forall>c data. p = Nested c data \<longrightarrow> length data \<le> length bs)"
  using readVarint_shorter[of bs] by (fastforce simp: decodeOne_def split: sum.splits rpc_type.splits if_splits)

lemma skipField_shorter: "skipField w bs = Inr rest \<Longrightarrow> length rest \<le> length bs"
  by (cases "readVarint bs") (auto simp: skipField_def dest: readVarint_shorter split: if_splits)

function decode_fields :: "rpc_env \<Rightarrow> rpc_messages \<Rightarrow> rpc_message \<Rightarrow> byte list \<Rightarrow> (jsstr \<times> rpc_value) list \<Rightarrow>
    (rpc_message_error, (jsstr \<times> rpc_value) list) result" where
  "decode_fields E R meta bs acc =
     (if bs = [] then Inr acc
      else case readVarint bs of
        Inl e \<Rightarrow> Inl e
      | Inr (tag, rest) \<Rightarrow>
          (case field_with meta (tag div 8) of
             None \<Rightarrow> (case skipField (tag mod 8) rest of
                 Inl e \<Rightarrow> Inl e
               | Inr rest' \<Rightarrow> decode_fields E R meta rest' acc)
           | Some f \<Rightarrow>
               (case decodeOne E (fieldType f) (tag mod 8) rest of
                  Inl e \<Rightarrow> Inl e
                | Inr (Value v, rest') \<Rightarrow> decode_fields E R meta rest' (put f v acc)
                | Inr (Nested c data, rest') \<Rightarrow>
                    (case metadataFor R c of
                       Inl e \<Rightarrow> Inl e
                     | Inr meta' \<Rightarrow>
                         (case decode_fields E R meta' data [] of
                            Inl e \<Rightarrow> Inl e
                          | Inr m \<Rightarrow> decode_fields E R meta rest' (put f (VMessage m) acc))))))"
  by pat_completeness auto

termination
proof (relation "measure (\<lambda>(E, R, meta, bs, acc). length bs)")
  show "wf (measure (\<lambda>(E, R, meta, bs, acc). length bs))"
    by simp
qed (auto dest!: readVarint_shorter skipField_shorter decodeOne_shorter)

declare decode_fields.simps [simp del]

definition decodeRpcMessage :: "rpc_env \<Rightarrow> rpc_messages \<Rightarrow> nat \<Rightarrow> byte list \<Rightarrow> (rpc_message_error, rpc_value) result" where
  "decodeRpcMessage E R c bs =
     rbind (metadataFor R c) (\<lambda>meta. map_sum id VMessage (decode_fields E R meta bs []))"

section \<open>Proto-JSON\<close>

text \<open>\<^verbatim>\<open>hydrateRpcMessage\<close> with \<^verbatim>\<open>atob\<close> as a parameter; a missing property is \<^verbatim>\<open>undefined\<close>.\<close>

function hydrateRpcMessage :: "(jsstr \<Rightarrow> byte list option) \<Rightarrow> rpc_messages \<Rightarrow> nat \<Rightarrow> rpc_value \<Rightarrow> (rpc_message_error, rpc_value) result" where
  "hydrateRpcMessage atob R c input =
     (case metadataFor R c of
        Inl e \<Rightarrow> Inl e
      | Inr meta \<Rightarrow>
          (case input of
             VMessage m \<Rightarrow>
               map_sum id (\<lambda>ps. VMessage (foldl (\<lambda>o' (k, v). js_set k v o') [] (concat ps)))
                 (traverse (\<lambda>f.
                   (case js_get m (rf_propertyKey f) of
                      None \<Rightarrow> Inr []
                    | Some x \<Rightarrow>
                        map_sum id (\<lambda>v. [(rf_propertyKey f, v)])
                          (case fieldType f of
                             TMessage d \<Rightarrow>
                               if rf_repeated f
                               then (case x of
                                       VArray xs \<Rightarrow> map_sum id VArray (traverse (\<lambda>y. hydrateRpcMessage atob R d y) xs)
                                     | _ \<Rightarrow> Inl TypeFailure)
                               else hydrateRpcMessage atob R d x
                           | TBytes \<Rightarrow> (case x of
                                 VString s \<Rightarrow> (case atob s of None \<Rightarrow> Inl InvalidBase64 | Some b \<Rightarrow> Inr (VBytes b))
                               | _ \<Rightarrow> Inr x)
                           | _ \<Rightarrow> Inr x))) (rm_fields meta))
           | VBytes b \<Rightarrow> Inr (VMessage [])
           | _ \<Rightarrow> Inl (NotAnObject (rm_name meta))))"
  by pat_completeness auto

termination
proof (relation "measure (\<lambda>(atob, R, c, v). size v)")
  show "wf (measure (\<lambda>(atob, R, c, v). size v))"
    by simp
next
  fix R c input b m f x d xs y
  assume "input = VMessage m" "js_get m (rf_propertyKey f) = Some x" "x = VArray xs" "y \<in> set xs"
  then show "((atob, R, d, y), atob, R, c, input) \<in> measure (\<lambda>(atob, R, c, v). size v)" for atob
    using size_record[of input m "rf_propertyKey f" x] size_item[of y xs] by (simp add: as_record_def)
next
  fix R c input b m f x d
  assume "input = VMessage m" "js_get m (rf_propertyKey f) = Some x"
  then show "((atob, R, d, x), atob, R, c, input) \<in> measure (\<lambda>(atob, R, c, v). size v)" for atob
    using size_record[of input m "rf_propertyKey f" x] by (simp add: as_record_def)
qed

declare hydrateRpcMessage.simps [simp del]

text \<open>
  \<^verbatim>\<open>rpcMessageToJson\<close> with \<^verbatim>\<open>btoa\<close> as a parameter.  A missing value is the empty object; a value that
  is neither an array nor bytes has no \<^verbatim>\<open>map\<close> (bytes have one of their own, which is left out).
\<close>

definition bigint_text :: "int \<Rightarrow> jsstr" where
  "bigint_text n = js_str ((if n < 0 then ''-'' else []) @ decimal (nat \<bar>n\<bar>))"

definition json_item :: "(byte list \<Rightarrow> jsstr) \<Rightarrow> rpc_type \<Rightarrow> rpc_value \<Rightarrow> (rpc_message_error, rpc_value) result \<Rightarrow> (rpc_message_error, rpc_value) result" where
  "json_item btoa t item nested =
     (case t of
        TMessage d \<Rightarrow> nested
      | _ \<Rightarrow> Inr (case item of
            VBytes b \<Rightarrow> if t = TBytes then VString (btoa b) else item
          | VBig n \<Rightarrow> VString (bigint_text n)
          | _ \<Rightarrow> item))"

lemma size_property:
  assumes "js_get (nullish (as_record v) []) k = Some x"
  shows "size x < size v"
  using assms by (cases "as_record v") (auto intro: size_record)

function rpcMessageToJson :: "(byte list \<Rightarrow> jsstr) \<Rightarrow> rpc_messages \<Rightarrow> nat \<Rightarrow> rpc_value \<Rightarrow> (rpc_message_error, rpc_value) result" where
  "rpcMessageToJson btoa R c v =
     (case metadataFor R c of
        Inl e \<Rightarrow> Inl e
      | Inr meta \<Rightarrow>
          map_sum id (\<lambda>ps. VMessage (foldl (\<lambda>o' (k, w). js_set k w o') [] (concat ps)))
            (traverse (\<lambda>f.
               (case js_get (nullish (as_record v) []) (rf_propertyKey f) of
                  None \<Rightarrow> Inr []
                | Some x \<Rightarrow>
                    map_sum id (\<lambda>w. [(rf_propertyKey f, w)])
                      (if rf_repeated f
                       then (case x of
                               VArray xs \<Rightarrow> map_sum id VArray (traverse (\<lambda>y.
                                 json_item btoa (fieldType f) y (case fieldType f of TMessage d \<Rightarrow> rpcMessageToJson btoa R d y | _ \<Rightarrow> Inr y)) xs)
                             | _ \<Rightarrow> Inl TypeFailure)
                       else json_item btoa (fieldType f) x (case fieldType f of TMessage d \<Rightarrow> rpcMessageToJson btoa R d x | _ \<Rightarrow> Inr x)))) (rm_fields meta)))"
  by pat_completeness auto

termination
proof (relation "measure (\<lambda>(btoa, R, c, v). size v)")
  show "wf (measure (\<lambda>(btoa, R, c, v). size v))"
    by simp
next
  fix R c v b f x xs y d
  assume "js_get (nullish (as_record v) []) (rf_propertyKey f) = Some x" "x = VArray xs" "y \<in> set xs"
  then show "((btoa, R, d, y), btoa, R, c, v) \<in> measure (\<lambda>(btoa, R, c, v). size v)" for btoa
    using size_property[of v "rf_propertyKey f" x] size_item[of y xs] by simp
next
  fix R c v b f x d
  assume "js_get (nullish (as_record v) []) (rf_propertyKey f) = Some x"
  then show "((btoa, R, d, x), btoa, R, c, v) \<in> measure (\<lambda>(btoa, R, c, v). size v)" for btoa
    using size_property[of v "rf_propertyKey f" x] by simp
qed

declare rpcMessageToJson.simps [simp del]

section \<open>A message of the declared types survives the wire\<close>

lemma unat_byte_of [simp]: "unat (byte_of n) = n mod 256"
  by (simp add: byte_of_def unat_of_nat)

lemma varint_small: "n < 128 \<Longrightarrow> varint_bytes n = [byte_of n]"
  by (subst varint_bytes.simps) simp

lemma varint_large: "128 \<le> n \<Longrightarrow> varint_bytes n = byte_of (n mod 128 + 128) # varint_bytes (n div 128)"
  by (subst varint_bytes.simps) simp

lemma varint_not_Nil [simp]: "varint_bytes n \<noteq> []"
  by (subst varint_bytes.simps) simp

lemma read_varint_bytes:
  "n * 2 ^ (7 * k) < 2 ^ 77 \<Longrightarrow> k \<le> 10 \<Longrightarrow> read_varint (7 * k) v (varint_bytes n @ rest) = Inr (v + n * 2 ^ (7 * k), rest)"
proof (induction n arbitrary: k v rule: varint_bytes.induct)
  case (1 n)
  show ?case
  proof (cases "n < 128")
    case True
    then show ?thesis
      using 1 by (simp add: varint_small Let_def)
  next
    case False
    have "(2::nat) ^ (7 * k + 7) \<le> n * 2 ^ (7 * k)"
      using False by (simp add: power_add)
    then have "(2::nat) ^ (7 * k + 7) < 2 ^ 77"
      using 1(2) by linarith
    then have k: "k < 10"
      by (simp only: power_strict_increasing_iff)
    have split: "n mod 128 * 2 ^ (7 * k) + n div 128 * 2 ^ (7 * Suc k) = n * 2 ^ (7 * k)"
    proof -
      have "n mod 128 * x + n div 128 * (128 * x) = (n div 128 * 128 + n mod 128) * x" for x :: nat
        by (simp only: add_mult_distrib mult.assoc add.commute)
      then show ?thesis
        by (simp add: power_add)
    qed
    then have "n div 128 * 2 ^ (7 * Suc k) < 2 ^ 77"
      using 1(2) by linarith
    then show ?thesis
      using 1(1)[OF False, of "Suc k" "v + n mod 128 * 2 ^ (7 * k)"] False k split
      by (simp add: varint_large Let_def add.commute[of 7] add.assoc mod_add_left_eq)
  qed
qed

definition varint_value :: "int \<Rightarrow> nat" where
  "varint_value v = nat (if v < 0 then v mod 2 ^ 64 else v)"

lemma readVarint_encode: "v < 2 ^ 77 \<Longrightarrow> readVarint (encodeVarint v @ rest) = Inr (varint_value v, rest)"
proof -
  assume v: "v < 2 ^ 77"
  have "v mod 2 ^ 64 < 2 ^ 64"
    by simp
  then have "varint_value v < 2 ^ 77"
    using v by (auto simp: varint_value_def nat_less_iff)
  then show ?thesis
    using read_varint_bytes[of "varint_value v" 0 0 rest] by (simp add: readVarint_def encodeVarint_def varint_value_def)
qed

lemma varint_bytes_length: "n < 128 ^ Suc k \<Longrightarrow> length (varint_bytes n) \<le> Suc k"
proof (induction k arbitrary: n)
  case 0
  then show ?case by (simp add: varint_small)
next
  case (Suc k)
  have "n div 128 < 128 ^ Suc k"
    using Suc.prems by (simp add: less_mult_imp_div_less)
  then show ?case
    using Suc.IH[of "n div 128"] by (cases "n < 128") (simp_all add: varint_small varint_large)
qed


text \<open>
  A value that has the type of its field: a 32-bit integer, a 64-bit one that is not negative and a number exactly when
  it is safe, a number the eight bytes of a double keep, a string without lone surrogates that does not start with a
  byte order mark, bytes, and a message that is \<open>nested\<close>.
\<close>

definition item_ok :: "rpc_env \<Rightarrow> rpc_field \<Rightarrow> rpc_value \<Rightarrow> bool \<Rightarrow> bool" where
  "item_ok E f y nested =
     (case fieldType f of
        TBool \<Rightarrow> (case y of VBool b \<Rightarrow> True | _ \<Rightarrow> False)
      | TInt32 \<Rightarrow> (case y of VNum q \<Rightarrow> of_int \<lfloor>q\<rfloor> = q \<and> - (2 ^ 31) \<le> \<lfloor>q\<rfloor> \<and> \<lfloor>q\<rfloor> < 2 ^ 31 | _ \<Rightarrow> False)
      | TInt64 \<Rightarrow> (case y of VNum q \<Rightarrow> of_int \<lfloor>q\<rfloor> = q \<and> 0 \<le> \<lfloor>q\<rfloor> \<and> \<lfloor>q\<rfloor> < 2 ^ 53 | VBig n \<Rightarrow> 2 ^ 53 \<le> n \<and> n < 2 ^ 64 | _ \<Rightarrow> False)
      | TDouble \<Rightarrow> (case y of VNum q \<Rightarrow> length (re_double E (Some q)) = 8 \<and> re_readDouble E (re_double E (Some q)) = VNum q | _ \<Rightarrow> False)
      | TBytes \<Rightarrow> (case y of VBytes b \<Rightarrow> True | _ \<Rightarrow> False)
      | TString \<Rightarrow> (case y of VString s \<Rightarrow> well_formed s \<and> \<not> starts_with_bom s | _ \<Rightarrow> False)
      | TMessage c \<Rightarrow> nested)"

definition fields_ok :: "rpc_message \<Rightarrow> bool" where
  "fields_ok meta \<longleftrightarrow>
     distinct (map rf_number (rm_fields meta)) \<and> distinct (map rf_propertyKey (rm_fields meta)) \<and>
     list_all (\<lambda>f. 1 \<le> rf_number f \<and> rf_number f < 2 ^ 28) (rm_fields meta)"

text \<open>The declared properties an object has, in the order of their field numbers.\<close>

definition declared :: "rpc_field list \<Rightarrow> (jsstr \<times> rpc_value) list \<Rightarrow> (jsstr \<times> rpc_value) list" where
  "declared fs m = concat (map (\<lambda>f. case js_get m (rf_propertyKey f) of None \<Rightarrow> [] | Some x \<Rightarrow> [(rf_propertyKey f, x)]) fs)"

function wire_safe_message :: "rpc_env \<Rightarrow> rpc_messages \<Rightarrow> nat \<Rightarrow> rpc_value \<Rightarrow> bool" where
  "wire_safe_message E R c v =
     (case js_get R c of
        None \<Rightarrow> False
      | Some meta \<Rightarrow> fields_ok meta \<and>
          (case v of
             VMessage m \<Rightarrow> m = declared (by_number (rm_fields meta)) m \<and>
               list_all (\<lambda>f.
                 (case js_get m (rf_propertyKey f) of
                    None \<Rightarrow> True
                  | Some x \<Rightarrow>
                      if rf_repeated f
                      then (case x of
                              VArray xs \<Rightarrow> xs \<noteq> [] \<and> list_all (\<lambda>y. item_ok E f y (case fieldType f of TMessage d \<Rightarrow> wire_safe_message E R d y | _ \<Rightarrow> True)) xs
                            | _ \<Rightarrow> False)
                      else item_ok E f x (case fieldType f of TMessage d \<Rightarrow> wire_safe_message E R d x | _ \<Rightarrow> True))) (by_number (rm_fields meta))
           | _ \<Rightarrow> False))"
  by pat_completeness auto

termination
proof (relation "measure (\<lambda>(E, R, c, v). size v)")
  show "wf (measure (\<lambda>(E, R, c, v). size v))"
    by simp
next
  fix R c v meta m f x xs y d
  assume "v = VMessage m" "js_get m (rf_propertyKey f) = Some x" "x = VArray xs" "y \<in> set xs"
  then show "((E, R, d, y), E, R, c, v) \<in> measure (\<lambda>(E, R, c, v). size v)" for E
    using size_record[of v m "rf_propertyKey f" x] size_item[of y xs] by (simp add: as_record_def)
next
  fix R c v meta m f x d
  assume "v = VMessage m" "js_get m (rf_propertyKey f) = Some x"
  then show "((E, R, d, x), E, R, c, v) \<in> measure (\<lambda>(E, R, c, v). size v)" for E
    using size_record[of v m "rf_propertyKey f" x] by (simp add: as_record_def)
qed

declare wire_safe_message.simps [simp del]

lemma signed32_small: "- (2 ^ 31) \<le> x \<Longrightarrow> x < 2 ^ 31 \<Longrightarrow> signed32 x = x"
  by (simp add: signed32_def)

lemma signed32_unsigned: "- (2 ^ 31) \<le> x \<Longrightarrow> x < 2 ^ 31 \<Longrightarrow> signed32 (x mod 2 ^ 64) = x"
proof -
  assume x: "- (2 ^ 31) \<le> x" "x < 2 ^ 31"
  have "(x mod 2 ^ 64 + 2 ^ 31) mod 2 ^ 32 = (x + 2 ^ 31) mod (2 ^ 32 :: int)"
    by (metis (no_types, opaque_lifting) mod_add_left_eq mod_mod_cancel dvd_power_le le_refl numeral_le_iff dvd_refl le_imp_power_dvd Num.numeral_le_iff semiring_norm(68,71,72,73,76,78))
  then show ?thesis
    using x by (simp add: signed32_def)
qed

lemma wireType_less: "wireType t < 8"
  by (simp add: wireType_def split: rpc_type.split)

lemma tag_bytes:
  assumes "1 \<le> rf_number f" "rf_number f < 2 ^ 28"
  shows "readVarint (encodeVarint (tag_of f) @ rest) = Inr (nat (rf_number f) * 8 + wireType (fieldType f), rest)"
proof -
  have tag: "tag_of f = rf_number f * 8 + int (wireType (fieldType f))"
    using assms by (simp add: tag_of_def signed32_small)
  then have "0 \<le> tag_of f" "tag_of f < 2 ^ 77"
    using assms wireType_less[of "fieldType f"] by (linarith, simp)
  then show ?thesis
    using assms readVarint_encode[of "tag_of f" rest] by (simp add: varint_value_def tag nat_add_distrib nat_mult_distrib)
qed


lemma find_distinct: "distinct (map g xs) \<Longrightarrow> x \<in> set xs \<Longrightarrow> List.find (\<lambda>y. g y = g x) xs = Some x"
  by (induction xs) auto

lemma field_with_ok:
  assumes "fields_ok meta" "f \<in> set (rm_fields meta)"
  shows "field_with meta (nat (rf_number f)) = Some f"
proof -
  have "0 \<le> rf_number f"
    using assms by (auto simp: fields_ok_def list_all_iff)
  then show ?thesis
    using find_distinct[of rf_number "rev (rm_fields meta)" f] assms by (simp add: field_with_def fields_ok_def rev_map[symmetric])
qed

lemma readVarint_prefixed: "length data < 2 ^ 77 \<Longrightarrow> readVarint (prefixed data @ rest) = Inr (length data, data @ rest)"
  using readVarint_encode[of "int (length data)" "data @ rest"] by (simp add: prefixed_def varint_value_def)

lemma of_nat_rat: "of_int \<lfloor>q\<rfloor> = q \<Longrightarrow> 0 \<le> \<lfloor>q\<rfloor> \<Longrightarrow> of_nat (nat \<lfloor>q\<rfloor>) = (q :: rat)"
  by (metis of_int_of_nat_eq nat_0_le)

text \<open>What one typed value is on the wire, before its field is assigned.\<close>

definition item_payload :: "rpc_field \<Rightarrow> rpc_value \<Rightarrow> byte list \<Rightarrow> payload" where
  "item_payload f y data = (case fieldType f of TMessage d \<Rightarrow> Nested d data | _ \<Rightarrow> Value y)"

lemma item_bytes:
  assumes "item_ok E f y True" "\<And>d. fieldType f = TMessage d \<Longrightarrow> nested = Inr data"
  obtains b where "encodeOne E f y nested = Inr (encodeVarint (tag_of f) @ b)"
    "\<And>rest. length b < 2 ^ 77 \<Longrightarrow> decodeOne E (fieldType f) (wireType (fieldType f)) (b @ rest) = Inr (item_payload f y data, rest)"
    "(\<exists>d. fieldType f = TMessage d) \<Longrightarrow> length data \<le> length b"
proof (cases "fieldType f")
  case TBool
  then obtain v where "y = VBool v"
    using assms by (auto simp: item_ok_def split: rpc_value.splits)
  then show ?thesis
    using TBool
    by (intro that[of "encodeVarint (if v then 1 else 0)"])
      (auto simp: encodeOne_def js_truthy_def decodeOne_def wireType_def readVarint_encode readVarint_prefixed varint_value_def item_payload_def)
next
  case TInt32
  then obtain q where q: "y = VNum q" "of_int \<lfloor>q\<rfloor> = q" "- (2 ^ 31) \<le> \<lfloor>q\<rfloor>" "\<lfloor>q\<rfloor> < 2 ^ 31"
    using assms by (auto simp: item_ok_def split: rpc_value.splits)
  have "signed32 (int (varint_value \<lfloor>q\<rfloor>)) = \<lfloor>q\<rfloor>"
    using q signed32_small[of "\<lfloor>q\<rfloor>"] signed32_unsigned[of "\<lfloor>q\<rfloor>"] by (simp add: varint_value_def)
  then show ?thesis
    using TInt32 q
    by (intro that[of "encodeVarint \<lfloor>q\<rfloor>"])
      (auto simp: encodeOne_def to_bigint_def to_number_def decodeOne_def wireType_def readVarint_encode readVarint_prefixed item_payload_def)
next
  case TInt64
  show ?thesis
  proof (cases y)
    case (VNum q)
    then have q: "of_int \<lfloor>q\<rfloor> = q" "0 \<le> \<lfloor>q\<rfloor>" "\<lfloor>q\<rfloor> < 2 ^ 53"
      using assms TInt64 by (auto simp: item_ok_def)
    then show ?thesis
      using TInt64 VNum of_nat_rat[OF q(1,2)]
      by (intro that[of "encodeVarint \<lfloor>q\<rfloor>"])
        (auto simp: encodeOne_def to_bigint_def to_number_def decodeOne_def wireType_def readVarint_encode readVarint_prefixed item_payload_def varint_value_def)
  next
    case (VBig n)
    then have n: "2 ^ 53 \<le> n" "n < 2 ^ 64"
      using assms TInt64 by (auto simp: item_ok_def)
    then show ?thesis
      using TInt64 VBig
      by (intro that[of "encodeVarint n"])
        (auto simp: encodeOne_def to_bigint_def decodeOne_def wireType_def readVarint_encode readVarint_prefixed item_payload_def varint_value_def)
  qed (use assms TInt64 in \<open>simp_all add: item_ok_def\<close>)
next
  case TDouble
  then obtain q where "y = VNum q" "length (re_double E (Some q)) = 8" "re_readDouble E (re_double E (Some q)) = VNum q"
    using assms by (auto simp: item_ok_def split: rpc_value.splits)
  then show ?thesis
    using TDouble by (intro that[of "re_double E (Some q)"])
      (auto simp: encodeOne_def to_number_def decodeOne_def wireType_def readVarint_encode readVarint_prefixed item_payload_def)
next
  case TString
  then obtain s where s: "y = VString s" "well_formed s" "\<not> starts_with_bom s"
    using assms by (auto simp: item_ok_def split: rpc_value.splits)
  have "length (TextEncoder_encode s) \<le> length (prefixed (TextEncoder_encode s))"
    by (simp add: prefixed_def)
  then show ?thesis
    using TString s
    by (intro that[of "prefixed (TextEncoder_encode s)"])
      (auto simp: encodeOne_def to_text_def decodeOne_def wireType_def readVarint_encode readVarint_prefixed item_payload_def decode_lenient_roundtrip)
next
  case TBytes
  then obtain s where s: "y = VBytes s"
    using assms by (auto simp: item_ok_def split: rpc_value.splits)
  have "length s \<le> length (prefixed s)"
    by (simp add: prefixed_def)
  then show ?thesis
    using TBytes s
    by (intro that[of "prefixed s"])
      (auto simp: encodeOne_def decodeOne_def wireType_def readVarint_encode readVarint_prefixed item_payload_def)
next
  case (TMessage d)
  have "length data \<le> length (prefixed data)"
    by (simp add: prefixed_def)
  then show ?thesis
    using TMessage assms(2)[OF TMessage]
    by (intro that[of "prefixed data"])
      (auto simp: encodeOne_def decodeOne_def wireType_def readVarint_encode readVarint_prefixed item_payload_def)
qed


lemma item_ok_True: "item_ok E f y ok \<Longrightarrow> item_ok E f y True"
  by (simp add: item_ok_def split: rpc_type.splits)

lemma item_decodes:
  assumes "fields_ok meta" "f \<in> set (rm_fields meta)" "item_ok E f y ok"
    and nested: "\<And>d. fieldType f = TMessage d \<Longrightarrow> nested = Inr data \<and> (length data < 2 ^ 77 \<longrightarrow> decodeRpcMessage E R d data = Inr y)"
  obtains b where "encodeOne E f y nested = Inr b"
    "\<And>rest acc. length b < 2 ^ 77 \<Longrightarrow> decode_fields E R meta (b @ rest) acc = decode_fields E R meta rest (put f y acc)"
proof -
  obtain b where b: "encodeOne E f y nested = Inr (encodeVarint (tag_of f) @ b)"
    and one: "\<And>rest. length b < 2 ^ 77 \<Longrightarrow> decodeOne E (fieldType f) (wireType (fieldType f)) (b @ rest) = Inr (item_payload f y data, rest)"
    and short: "(\<exists>d. fieldType f = TMessage d) \<Longrightarrow> length data \<le> length b"
    using item_bytes[OF item_ok_True[OF assms(3)], of nested data] nested by metis
  have number: "1 \<le> rf_number f" "rf_number f < 2 ^ 28"
    using assms(1,2) by (auto simp: fields_ok_def list_all_iff)
  show ?thesis
  proof (rule that[OF b])
    fix rest acc
    assume len: "length (encodeVarint (tag_of f) @ b) < 2 ^ 77"
    have notnil: "encodeVarint (tag_of f) \<noteq> []"
      by (simp add: encodeVarint_def)
    have start: "decode_fields E R meta ((encodeVarint (tag_of f) @ b) @ rest) acc =
        (case item_payload f y data of
           Value v \<Rightarrow> decode_fields E R meta rest (put f v acc)
         | Nested c bs \<Rightarrow> (case metadataFor R c of
              Inl e \<Rightarrow> Inl e
            | Inr meta' \<Rightarrow> (case decode_fields E R meta' bs [] of
                 Inl e \<Rightarrow> Inl e
               | Inr m \<Rightarrow> decode_fields E R meta rest (put f (VMessage m) acc))))"
      using one[of rest] len notnil wireType_less[of "fieldType f"]
      by (subst decode_fields.simps) (simp add: tag_bytes[OF number] field_with_ok[OF assms(1,2)] split: payload.split)
    show "decode_fields E R meta ((encodeVarint (tag_of f) @ b) @ rest) acc = decode_fields E R meta rest (put f y acc)"
    proof (cases "\<exists>d. fieldType f = TMessage d")
      case True
      then obtain d where d: "fieldType f = TMessage d"
        by blast
      then have "decodeRpcMessage E R d data = Inr y"
        using nested[OF d] short len by simp
      then obtain meta' m where "metadataFor R d = Inr meta'" "decode_fields E R meta' data [] = Inr m" "y = VMessage m"
        unfolding decodeRpcMessage_def by (cases "metadataFor R d"; cases "decode_fields E R (projr (metadataFor R d)) data []") auto
      then show ?thesis
        using start d by (simp add: item_payload_def)
    next
      case False
      then have "item_payload f y data = Value y"
        by (cases "fieldType f") (auto simp: item_payload_def)
      then show ?thesis
        using start by simp
    qed
  qed
qed

lemma items_decode:
  assumes "\<And>y. y \<in> set xs \<Longrightarrow> \<exists>b. enc y = Inr b \<and>
      (length b < 2 ^ 77 \<longrightarrow> (\<forall>rest acc. decode_fields E R meta (b @ rest) acc = decode_fields E R meta rest (put f y acc)))"
  shows "\<exists>bs. traverse enc xs = Inr bs \<and> (length (concat bs) < 2 ^ 77 \<longrightarrow>
      (\<forall>rest acc. decode_fields E R meta (concat bs @ rest) acc = decode_fields E R meta rest (fold (put f) xs acc)))"
  using assms
proof (induction xs)
  case (Cons x xs)
  obtain b where "enc x = Inr b"
    "length b < 2 ^ 77 \<longrightarrow> (\<forall>rest acc. decode_fields E R meta (b @ rest) acc = decode_fields E R meta rest (put f x acc))"
    using Cons.prems[of x] by auto
  moreover obtain bs where "traverse enc xs = Inr bs"
    "length (concat bs) < 2 ^ 77 \<longrightarrow> (\<forall>rest acc. decode_fields E R meta (concat bs @ rest) acc = decode_fields E R meta rest (fold (put f) xs acc))"
    using Cons by auto
  ultimately show ?case
    by (intro exI[of _ "b # bs"]) simp
qed simp

lemma js_set_absent: "js_get m k = None \<Longrightarrow> js_set k v m = m @ [(k, v)]"
  by (induction m) (auto split: if_splits)

lemma js_set_last: "js_get m k = None \<Longrightarrow> js_set k w (m @ [(k, v)]) = m @ [(k, w)]"
  by (induction m) (auto split: if_splits)

lemma fold_put_repeated:
  assumes "rf_repeated f" "js_get acc (rf_propertyKey f) = None"
  shows "fold (put f) xs (acc @ [(rf_propertyKey f, VArray ys)]) = acc @ [(rf_propertyKey f, VArray (ys @ xs))]"
proof (induction xs arbitrary: ys)
  case (Cons x xs)
  have "put f x (acc @ [(rf_propertyKey f, VArray ys)]) = acc @ [(rf_propertyKey f, VArray (ys @ [x]))]"
    using assms by (simp add: put_def map_add_def js_set_last)
  then show ?case
    using Cons[of "ys @ [x]"] by simp
qed simp

lemma put_repeated:
  assumes "rf_repeated f" "js_get acc (rf_propertyKey f) = None" "xs \<noteq> []"
  shows "fold (put f) xs acc = acc @ [(rf_propertyKey f, VArray xs)]"
proof (cases xs)
  case (Cons x ys)
  have "put f x acc = acc @ [(rf_propertyKey f, VArray [x])]"
    using assms by (simp add: put_def js_set_absent)
  then show ?thesis
    using Cons fold_put_repeated[OF assms(1,2), of ys "[x]"] by simp
qed (use assms in simp)


definition field_decodes :: "rpc_env \<Rightarrow> rpc_messages \<Rightarrow> rpc_message \<Rightarrow> (jsstr \<times> rpc_value) list \<Rightarrow>
    (rpc_field \<Rightarrow> (rpc_message_error, byte list) result) \<Rightarrow> rpc_field \<Rightarrow> bool" where
  "field_decodes E R meta m enc f \<longleftrightarrow>
     (\<exists>b. enc f = Inr b \<and> (length b < 2 ^ 77 \<longrightarrow> (\<forall>rest acc. js_get acc (rf_propertyKey f) = None \<longrightarrow>
        decode_fields E R meta (b @ rest) acc = decode_fields E R meta rest (acc @ declared [f] m))))"

lemma declared_Cons: "declared (f # fs) m = declared [f] m @ declared fs m"
  by (simp add: declared_def)

lemma declared_keys: "js_get (declared [f] m) k = (if k = rf_propertyKey f then js_get m k else None)"
  by (auto simp: declared_def split: option.split)

lemma fields_decode:
  assumes "distinct (map rf_propertyKey fs)" "\<And>f. f \<in> set fs \<Longrightarrow> field_decodes E R meta m enc f"
  shows "\<exists>bs. traverse enc fs = Inr bs \<and> (length (concat bs) < 2 ^ 77 \<longrightarrow>
      (\<forall>acc. (\<forall>f\<in>set fs. js_get acc (rf_propertyKey f) = None) \<longrightarrow> decode_fields E R meta (concat bs) acc = Inr (acc @ declared fs m)))"
  using assms
proof (induction fs)
  case Nil
  then show ?case
    by (simp add: decode_fields.simps declared_def)
next
  case (Cons f fs)
  have "field_decodes E R meta m enc f"
    using Cons.prems(2) by simp
  then obtain b where b: "enc f = Inr b" "length b < 2 ^ 77 \<longrightarrow> (\<forall>rest acc. js_get acc (rf_propertyKey f) = None \<longrightarrow>
      decode_fields E R meta (b @ rest) acc = decode_fields E R meta rest (acc @ declared [f] m))"
    by (auto simp: field_decodes_def)
  obtain bs where bs: "traverse enc fs = Inr bs" "length (concat bs) < 2 ^ 77 \<longrightarrow>
      (\<forall>acc. (\<forall>f\<in>set fs. js_get acc (rf_propertyKey f) = None) \<longrightarrow> decode_fields E R meta (concat bs) acc = Inr (acc @ declared fs m))"
    using Cons by auto
  have "decode_fields E R meta (b @ concat bs) acc = Inr (acc @ declared (f # fs) m)"
    if "length (b @ concat bs) < 2 ^ 77" "\<forall>g\<in>set (f # fs). js_get acc (rf_propertyKey g) = None" for acc
  proof -
    have "\<forall>g\<in>set fs. js_get (acc @ declared [f] m) (rf_propertyKey g) = None"
      using that(2) Cons.prems(1) by (auto simp: map_add_def declared_keys) (metis imageI)
    then show ?thesis
      using b(2) bs(2) that by (simp add: declared_Cons[of f fs])
  qed
  then show ?case
    using b(1) bs(1) by (intro exI[of _ "b # bs"]) simp
qed

lemma typed_survives:
  "wire_safe_message E R c v \<Longrightarrow> \<exists>bs. encodeRpcMessage E R c v = Inr bs \<and> (length bs < 2 ^ 77 \<longrightarrow> decodeRpcMessage E R c bs = Inr v)"
proof (induction "size v" arbitrary: c v rule: less_induct)
  case less
  obtain meta m where meta: "js_get R c = Some meta" "fields_ok meta" and v: "v = VMessage m"
    and m: "m = declared (by_number (rm_fields meta)) m"
    and typed: "\<And>f x. f \<in> set (rm_fields meta) \<Longrightarrow> js_get m (rf_propertyKey f) = Some x \<Longrightarrow>
        (if rf_repeated f
         then (case x of VArray xs \<Rightarrow> xs \<noteq> [] \<and> list_all (\<lambda>y. item_ok E f y (case fieldType f of TMessage d \<Rightarrow> wire_safe_message E R d y | _ \<Rightarrow> True)) xs | _ \<Rightarrow> False)
         else item_ok E f x (case fieldType f of TMessage d \<Rightarrow> wire_safe_message E R d x | _ \<Rightarrow> True))"
    using less.prems by (subst (asm) wire_safe_message.simps) (fastforce simp: list_all_iff by_number_def split: option.splits rpc_value.splits)
  define enc1 where "enc1 f y = encodeOne E f y (case fieldType f of TMessage d \<Rightarrow> encodeRpcMessage E R d y | _ \<Rightarrow> Inr [])" for f y
  define enc where "enc f = (case js_get m (rf_propertyKey f) of
       None \<Rightarrow> Inr []
     | Some x \<Rightarrow>
         if x = VNull then Inr []
         else if rf_repeated f
         then (case x of VArray xs \<Rightarrow> map_sum id concat (traverse (enc1 f) xs) | _ \<Rightarrow> Inl (MustBeArray (rf_propertyKey f)))
         else enc1 f x)" for f
  have item: "\<exists>b. enc1 f y = Inr b \<and> (length b < 2 ^ 77 \<longrightarrow>
      (\<forall>rest acc. decode_fields E R meta (b @ rest) acc = decode_fields E R meta rest (put f y acc)))"
    if f: "f \<in> set (rm_fields meta)" and y: "size y < size v"
      and ok: "item_ok E f y (case fieldType f of TMessage d \<Rightarrow> wire_safe_message E R d y | _ \<Rightarrow> True)" for f y
  proof -
    have "\<exists>data. \<forall>d. fieldType f = TMessage d \<longrightarrow> (case fieldType f of TMessage d \<Rightarrow> encodeRpcMessage E R d y | _ \<Rightarrow> Inr []) = Inr data \<and>
        (length data < 2 ^ 77 \<longrightarrow> decodeRpcMessage E R d data = Inr y)"
      using less.hyps[OF y] ok by (cases "fieldType f") (auto simp: item_ok_def)
    then obtain data where "\<And>d. fieldType f = TMessage d \<Longrightarrow> (case fieldType f of TMessage d \<Rightarrow> encodeRpcMessage E R d y | _ \<Rightarrow> Inr []) = Inr data \<and>
        (length data < 2 ^ 77 \<longrightarrow> decodeRpcMessage E R d data = Inr y)"
      by blast
    from item_decodes[OF meta(2) f ok this] show ?thesis
      unfolding enc1_def by metis
  qed
  have field: "field_decodes E R meta m enc f" if f: "f \<in> set (rm_fields meta)" for f
  proof (cases "js_get m (rf_propertyKey f)")
    case None
    then show ?thesis
      by (simp add: field_decodes_def enc_def declared_def)
  next
    case (Some x)
    have smaller: "size x < size v"
      using size_record[of v m "rf_propertyKey f" x] Some v by (simp add: as_record_def)
    show ?thesis
    proof (cases "rf_repeated f")
      case True
      then obtain xs where xs: "x = VArray xs" "xs \<noteq> []"
        and ok: "\<And>y. y \<in> set xs \<Longrightarrow> item_ok E f y (case fieldType f of TMessage d \<Rightarrow> wire_safe_message E R d y | _ \<Rightarrow> True)"
        using typed[OF f Some] by (auto simp: list_all_iff split: rpc_value.splits)
      have "\<exists>bs. traverse (enc1 f) xs = Inr bs \<and> (length (concat bs) < 2 ^ 77 \<longrightarrow>
          (\<forall>rest acc. decode_fields E R meta (concat bs @ rest) acc = decode_fields E R meta rest (fold (put f) xs acc)))"
      proof (rule items_decode, rule item[OF f])
        fix y assume y: "y \<in> set xs"
        show "size y < size v" using size_item[OF y] smaller xs by simp
        show "item_ok E f y (case fieldType f of TMessage d \<Rightarrow> wire_safe_message E R d y | _ \<Rightarrow> True)" using ok[OF y] .
      qed
      then show ?thesis
        using True Some xs put_repeated[OF True _ xs(2)] by (auto simp: field_decodes_def enc_def declared_def)
    next
      case False
      have ok: "item_ok E f x (case fieldType f of TMessage d \<Rightarrow> wire_safe_message E R d x | _ \<Rightarrow> True)"
        using typed[OF f Some] False by simp
      have notnull: "x \<noteq> VNull"
      proof
        assume "x = VNull"
        then show False
          using ok by (auto simp: item_ok_def wire_safe_message.simps split: rpc_type.splits option.splits)
      qed
      show ?thesis
        using item[OF f smaller ok] False Some notnull
        by (auto simp: field_decodes_def enc_def declared_def put_def js_set_absent)
    qed
  qed
  have "distinct (map rf_propertyKey (by_number (rm_fields meta)))"
    using meta(2) mset_eq_imp_distinct_iff[of "map rf_propertyKey (by_number (rm_fields meta))" "map rf_propertyKey (rm_fields meta)"]
    by (simp add: fields_ok_def by_number_def mset_sort_by)
  from fields_decode[OF this, of E R meta m enc] field
  obtain bs where bs: "traverse enc (by_number (rm_fields meta)) = Inr bs"
    "length (concat bs) < 2 ^ 77 \<longrightarrow> decode_fields E R meta (concat bs) [] = Inr (declared (by_number (rm_fields meta)) m)"
    by (auto simp: by_number_def)
  have "encodeRpcMessage E R c v = map_sum id concat (traverse enc (by_number (rm_fields meta)))"
    unfolding encodeRpcMessage.simps[of E R c v] enc_def[abs_def] enc1_def[abs_def] by (simp add: metadataFor_def meta v as_record_def)
  then show ?case
    using bs m v by (intro exI[of _ "concat bs"]) (simp add: decodeRpcMessage_def metadataFor_def meta)
qed


section \<open>Properties\<close>

text \<open>C14: 
  A message whose values the wire can carry, nested and repeated fields included, is encoded, and decoding the bytes,
  if they are fewer than 2^53, gives the same object.  The values are booleans, 32-bit integers in range, 64-bit
  integers that are not negative (numbers below 2^53, bigints from there on), doubles that their eight bytes keep,
  bytes, strings without lone surrogates and without a leading byte order mark, arrays that are not empty for
  repeated fields, and nested messages; field numbers are distinct and below 2^28, and an object lists its properties
  in the order of their numbers.
\<close>

theorem message_roundtrip:
  assumes "wire_safe_message E R c v"
  shows "\<exists>bs. encodeRpcMessage E R c v = Inr bs \<and> (length bs < 2 ^ 53 \<longrightarrow> decodeRpcMessage E R c bs = Inr v)"
proof -
  have "(2::nat) ^ 53 < 2 ^ 77"
    by (intro power_strict_increasing) auto
  then show ?thesis
    using typed_survives[OF assms] by (meson less_trans)
qed

text \<open>Two message classes: a point with a repeated field, and a message that holds points.\<close>

definition toy_point :: rpc_message where
  "toy_point = \<lparr>rm_target = 0, rm_name = [80],
     rm_fields = [\<lparr>rf_propertyKey = [121], rf_number = 2, rf_type = Some TInt64, rf_repeated = True\<rparr>,
                  \<lparr>rf_propertyKey = [120], rf_number = 1, rf_type = Some TInt32, rf_repeated = False\<rparr>]\<rparr>"

definition toy_shape :: rpc_message where
  "toy_shape = \<lparr>rm_target = 1, rm_name = [83],
     rm_fields = [\<lparr>rf_propertyKey = [110], rf_number = 1, rf_type = None, rf_repeated = False\<rparr>,
                  \<lparr>rf_propertyKey = [112], rf_number = 5, rf_type = Some (TMessage 0), rf_repeated = True\<rparr>]\<rparr>"

definition toy_messages :: rpc_messages where
  "toy_messages = [(0, toy_point), (1, toy_shape)]"

definition toy_rpc_env :: rpc_env where
  "toy_rpc_env = \<lparr>re_number = (\<lambda>_. None), re_string = (\<lambda>_. []), re_double = (\<lambda>_. replicate 8 0), re_readDouble = (\<lambda>_. VNum 0)\<rparr>"

definition toy_value :: rpc_value where
  "toy_value = VMessage [([110], VString [104, 105]),
     ([112], VArray [VMessage [([120], VNum (- 3)), ([121], VArray [VNum 300, VBig (2 ^ 60)])], VMessage []])]"

lemmas toy_rpc_defs = toy_messages_def toy_point_def toy_shape_def toy_rpc_env_def toy_value_def fields_ok_def by_number_def
  declared_def item_ok_def fieldType_def starts_with_bom_def is_high_def is_low_def

lemma toy_point_typed: "wire_safe_message toy_rpc_env toy_messages 0 (VMessage [([120], VNum (- 3)), ([121], VArray [VNum 300, VBig (2 ^ 60)])])"
  by (simp add: wire_safe_message.simps toy_rpc_defs)

lemma toy_empty_typed: "wire_safe_message toy_rpc_env toy_messages 0 (VMessage [])"
  by (simp add: wire_safe_message.simps toy_rpc_defs)

lemma toy_value_typed: "wire_safe_message toy_rpc_env toy_messages 1 toy_value"
  using toy_point_typed toy_empty_typed
  by (subst wire_safe_message.simps) (simp add: toy_rpc_defs)

lemma message_roundtrip_witness:
  "\<exists>bs. encodeRpcMessage toy_rpc_env toy_messages 1 toy_value = Inr bs \<and>
     (length bs < 2 ^ 53 \<longrightarrow> decodeRpcMessage toy_rpc_env toy_messages 1 bs = Inr toy_value)"
  by (rule message_roundtrip[OF toy_value_typed])

text \<open>C24: 
  An unsigned 64-bit value takes at most ten bytes, and reading them gives it back and leaves what
  follows them.
\<close>

theorem varint_roundtrip:
  assumes "0 \<le> v" "v < 2 ^ 64"
  shows "length (encodeVarint v) \<le> 10 \<and> readVarint (encodeVarint v @ rest) = Inr (nat v, rest)"
proof
  have "nat v < 128 ^ Suc 9"
    using assms by (simp add: nat_less_iff)
  then show "length (encodeVarint v) \<le> 10"
    using varint_bytes_length[of "nat v" 9] assms by (simp add: encodeVarint_def)
  show "readVarint (encodeVarint v @ rest) = Inr (nat v, rest)"
    using readVarint_encode[of v rest] assms by (simp add: varint_value_def)
qed

lemma varint_roundtrip_witness: "length (encodeVarint (2 ^ 63)) \<le> 10 \<and> readVarint (encodeVarint (2 ^ 63) @ [1]) = Inr (nat (2 ^ 63), [1])"
  by (rule varint_roundtrip) simp_all

text \<open>
  A negative value of an int64 field comes back as a large positive one: the reader
  does not take the 64 bits as signed.
\<close>

theorem negative_int64_becomes_unsigned:
  assumes "fieldType f = TInt64" "- (2 ^ 63) \<le> n" "n < 0"
  shows "encodeOne E f (VBig n) nested = Inr (encodeVarint (tag_of f) @ encodeVarint n) \<and>
    decodeOne E TInt64 0 (encodeVarint n @ rest) = Inr (Value (VBig (n + 2 ^ 64)), rest)"
proof
  show "encodeOne E f (VBig n) nested = Inr (encodeVarint (tag_of f) @ encodeVarint n)"
    using assms by (simp add: encodeOne_def to_bigint_def)
  have "n mod 2 ^ 64 = n + 2 ^ 64"
    using assms mod_pos_pos_trivial[of "n + 2 ^ 64" "2 ^ 64"] by (simp add: mod_add_self2)
  then have v: "varint_value n = nat (n + 2 ^ 64)"
    using assms by (simp add: varint_value_def)
  show "decodeOne E TInt64 0 (encodeVarint n @ rest) = Inr (Value (VBig (n + 2 ^ 64)), rest)"
    using assms readVarint_encode[of n rest] by (simp add: decodeOne_def v)
qed

lemma negative_int64_becomes_unsigned_witness:
  "decodeOne toy_rpc_env TInt64 0 (encodeVarint (- 1) @ []) = Inr (Value (VBig (- 1 + 2 ^ 64)), [])"
  using negative_int64_becomes_unsigned[of "\<lparr>rf_propertyKey = [120], rf_number = 1, rf_type = Some TInt64, rf_repeated = False\<rparr>" "- 1" toy_rpc_env "Inr []" "[]"]
  by (simp add: fieldType_def)

text \<open>
  A field number of 2 to the 28 or more, which protobuf allows up to 2 to the 29, is
  shifted as a signed 32-bit integer, so that its tag becomes a negative 64-bit varint: the message that is encoded
  decodes to an empty one.
\<close>

theorem large_field_number_is_lost:
  assumes "js_get R c = Some meta" "rm_fields meta = [f]"
    and f: "2 ^ 28 \<le> rf_number f" "rf_number f < 2 ^ 29" "fieldType f = TInt32" "\<not> rf_repeated f"
    and q: "of_int \<lfloor>q\<rfloor> = q" "\<lfloor>q\<rfloor> < 2 ^ 77"
  shows "\<exists>bs. encodeRpcMessage E R c (VMessage [(rf_propertyKey f, VNum q)]) = Inr bs \<and> decodeRpcMessage E R c bs = Inr (VMessage [])"
proof -
  define bs where "bs = encodeVarint (tag_of f) @ encodeVarint \<lfloor>q\<rfloor>"
  have enc: "encodeRpcMessage E R c (VMessage [(rf_propertyKey f, VNum q)]) = Inr bs"
    using assms by (subst encodeRpcMessage.simps)
      (simp add: metadataFor_def as_record_def by_number_def encodeOne_def to_bigint_def to_number_def bs_def)
  have "(rf_number f * 8 + 2 ^ 31) mod 2 ^ 32 = rf_number f * 8 - 2 ^ 31"
    using f(1,2) mod_pos_pos_trivial[of "rf_number f * 8 - 2 ^ 31" "2 ^ 32"] mod_add_self2[of "rf_number f * 8 - 2 ^ 31" "2 ^ 32"]
    by (simp add: add.commute)
  then have tag: "tag_of f = rf_number f * 8 - 2 ^ 32"
    using f(3) by (simp add: tag_of_def signed32_def wireType_def)
  have "tag_of f mod 2 ^ 64 = tag_of f + 2 ^ 64"
  proof -
    have "(tag_of f + 2 ^ 64) mod 2 ^ 64 = tag_of f + 2 ^ 64"
      using f(1,2) by (intro mod_pos_pos_trivial) (simp_all add: tag)
    then show ?thesis
      by (simp only: mod_add_self2)
  qed
  then obtain k where wire_value: "varint_value (tag_of f) = k * 8" and k: "int k = rf_number f + 2 ^ 61 - 2 ^ 29"
    using f(1,2) by (intro that[of "nat (rf_number f + 2 ^ 61 - 2 ^ 29)"]) (simp_all add: varint_value_def tag nat_mult_distrib[symmetric])
  have unknown: "field_with meta k = None"
    using assms(2) f(1,2) k by (simp add: field_with_def)
  have notnil: "bs \<noteq> []"
    by (simp add: bs_def encodeVarint_def)
  have "tag_of f < 2 ^ 77"
    using f(1,2) by (simp add: tag)
  then have first: "readVarint bs = Inr (k * 8, encodeVarint \<lfloor>q\<rfloor>)"
    using readVarint_encode[of "tag_of f" "encodeVarint \<lfloor>q\<rfloor>"] by (simp add: bs_def wire_value)
  have skip: "skipField 0 (encodeVarint \<lfloor>q\<rfloor>) = Inr []"
    using readVarint_encode[OF q(2), of "[]"] by (simp add: skipField_def)
  have "decode_fields E R meta bs [] = Inr []"
    by (subst decode_fields.simps) (simp add: notnil first unknown skip decode_fields.simps[of E R meta "[]"])
  then show ?thesis
    using enc assms(1) by (simp add: decodeRpcMessage_def metadataFor_def)
qed

lemma large_field_number_is_lost_witness:
  "\<exists>bs. encodeRpcMessage toy_rpc_env [(0, \<lparr>rm_target = 0, rm_name = [], rm_fields = [\<lparr>rf_propertyKey = [120], rf_number = 2 ^ 28, rf_type = Some TInt32, rf_repeated = False\<rparr>]\<rparr>)] 0
      (VMessage [([120], VNum 7)]) = Inr bs \<and>
    decodeRpcMessage toy_rpc_env [(0, \<lparr>rm_target = 0, rm_name = [], rm_fields = [\<lparr>rf_propertyKey = [120], rf_number = 2 ^ 28, rf_type = Some TInt32, rf_repeated = False\<rparr>]\<rparr>)] 0 bs = Inr (VMessage [])"
  using large_field_number_is_lost[of "[(0, \<lparr>rm_target = 0, rm_name = [], rm_fields = [\<lparr>rf_propertyKey = [120], rf_number = 2 ^ 28, rf_type = Some TInt32, rf_repeated = False\<rparr>]\<rparr>)]" 0 _
      "\<lparr>rf_propertyKey = [120], rf_number = 2 ^ 28, rf_type = Some TInt32, rf_repeated = False\<rparr>" 7 toy_rpc_env]
  by (simp add: fieldType_def)

text \<open>
  A numeric field that arrives length-delimited, which is how proto3 writers send a repeated
  one by default, is refused.
\<close>

theorem packed_repeated_refused:
  assumes "t \<in> {TBool, TInt32, TInt64, TDouble}" "length data < 2 ^ 53"
  shows "decodeOne E t 2 (prefixed data @ rest) = Inl (UnsupportedWire 2)"
proof -
  have "(2::nat) ^ 53 < 2 ^ 77"
    by (intro power_strict_increasing) auto
  then have "length data < 2 ^ 77"
    using assms(2) by (rule less_trans[rotated])
  then show ?thesis
    using assms(1) by (auto simp: decodeOne_def readVarint_prefixed)
qed

lemma packed_repeated_refused_witness: "decodeOne toy_rpc_env TInt32 2 (prefixed [1, 2, 3] @ []) = Inl (UnsupportedWire 2)"
  by (rule packed_repeated_refused) simp_all

text \<open>
  The wire type of a varint is not compared with the declared type: a string, bytes or a
  message field holds a number after such a field was read.
\<close>

theorem varint_taken_for_any_type:
  assumes "t \<noteq> TBool" "t \<noteq> TInt64" "0 \<le> n" "n < 2 ^ 31"
  shows "decodeOne E t 0 (encodeVarint n @ rest) = Inr (Value (VNum (of_int n)), rest)"
  using assms readVarint_encode[of n rest] by (simp add: decodeOne_def varint_value_def signed32_small)

lemma varint_taken_for_any_type_witness: "decodeOne toy_rpc_env (TMessage 0) 0 (encodeVarint 7 @ []) = Inr (Value (VNum (of_int 7)), [])"
  by (rule varint_taken_for_any_type) simp_all

text \<open>
  A 64-bit value that is not a safe number leaves as its decimal text, and hydrating that
  JSON leaves it a string; nothing turns it back.
\<close>

theorem json_keeps_bigint_as_text:
  assumes "js_get R c = Some meta" "rm_fields meta = [f]" "fieldType f = TInt64" "\<not> rf_repeated f"
  shows "rbind (rpcMessageToJson btoa R c (VMessage [(rf_propertyKey f, VBig n)])) (hydrateRpcMessage atob R c) =
    Inr (VMessage [(rf_propertyKey f, VString (bigint_text n))])"
  using assms
  by (simp add: rpcMessageToJson.simps hydrateRpcMessage.simps metadataFor_def as_record_def json_item_def)

lemma json_keeps_bigint_as_text_witness:
  "rbind (rpcMessageToJson (\<lambda>_. []) [(0, \<lparr>rm_target = 0, rm_name = [], rm_fields = [\<lparr>rf_propertyKey = [120], rf_number = 1, rf_type = Some TInt64, rf_repeated = False\<rparr>]\<rparr>)] 0
      (VMessage [([120], VBig (2 ^ 60))]))
    (hydrateRpcMessage (\<lambda>_. None) [(0, \<lparr>rm_target = 0, rm_name = [], rm_fields = [\<lparr>rf_propertyKey = [120], rf_number = 1, rf_type = Some TInt64, rf_repeated = False\<rparr>]\<rparr>)] 0) =
   Inr (VMessage [([120], VString (bigint_text (2 ^ 60)))])"
  using json_keeps_bigint_as_text[of "[(0, \<lparr>rm_target = 0, rm_name = [], rm_fields = [\<lparr>rf_propertyKey = [120], rf_number = 1, rf_type = Some TInt64, rf_repeated = False\<rparr>]\<rparr>)]" 0 _
      "\<lparr>rf_propertyKey = [120], rf_number = 1, rf_type = Some TInt64, rf_repeated = False\<rparr>" "\<lambda>_. []" "2 ^ 60" "\<lambda>_. None"]
  by (simp add: fieldType_def)

end
