(* ===== verification/RpcRegistry.thy ===== *)
theory RpcRegistry imports RpcMessages begin

text \<open>
  The registry of \<^verbatim>\<open>di-framework-rpc\<close> (\<^verbatim>\<open>src/registry.ts\<close>, the field decorator of
  \<^verbatim>\<open>src/decorators.ts\<close> and the printed IDL of \<^verbatim>\<open>src/schema/messages.ts\<close>).  A class is a number; \<open>N\<close>
  gives the name of a class.  The type of a field and the messages of a method, lazy factories in the source, are the
  classes they return.  The lemmas show that names and numbers stay unique, which messages a package needs, that a method
  is found by its path, and what copying and printing a registry lose.
\<close>

section \<open>Registration\<close>

record rpc_method =
  me_propertyKey :: jsstr
  me_name :: jsstr
  me_input :: nat
  me_output :: "nat option"
  me_notification :: bool
  me_clientStreaming :: bool
  me_serverStreaming :: bool

record rpc_service =
  sv_target :: nat
  sv_package :: jsstr
  sv_name :: jsstr
  sv_methods :: "rpc_method list"

record rpc_registry =
  rg_messages :: rpc_messages
  rg_services :: "(nat, rpc_service) jsmap"

definition new_registry :: rpc_registry where
  "new_registry = \<lparr>rg_messages = [], rg_services = []\<rparr>"

datatype registry_error =
    DuplicateField jsstr jsstr int
  | DuplicateMethod jsstr jsstr
  | InvalidFieldNumber int
  | NotMessage nat

definition message_entry :: "rpc_registry \<Rightarrow> nat \<Rightarrow> jsstr \<Rightarrow> rpc_message" where
  "message_entry rg target name =
     (case js_get (rg_messages rg) target of
        None \<Rightarrow> \<lparr>rm_target = target, rm_name = name, rm_fields = []\<rparr>
      | Some entry \<Rightarrow> entry\<lparr>rm_name := name\<rparr>)"

definition put_message :: "nat \<Rightarrow> rpc_message \<Rightarrow> rpc_registry \<Rightarrow> rpc_registry" where
  "put_message target entry rg = rg\<lparr>rg_messages := js_set target entry (rg_messages rg)\<rparr>"

definition put_service :: "nat \<Rightarrow> rpc_service \<Rightarrow> rpc_registry \<Rightarrow> rpc_registry" where
  "put_service target entry rg = rg\<lparr>rg_services := js_set target entry (rg_services rg)\<rparr>"

definition addMessage :: "rpc_registry \<Rightarrow> nat \<Rightarrow> jsstr \<Rightarrow> rpc_registry" where
  "addMessage rg target name = put_message target (message_entry rg target name) rg"

definition addField :: "(nat \<Rightarrow> jsstr) \<Rightarrow> rpc_registry \<Rightarrow> nat \<Rightarrow> rpc_field \<Rightarrow> (registry_error, rpc_registry) result" where
  "addField N rg target field =
     (let entry = message_entry rg target (N target)
      in if list_ex (\<lambda>c. rf_number c = rf_number field \<or> rf_propertyKey c = rf_propertyKey field) (rm_fields entry)
         then Inl (DuplicateField (rm_name entry) (rf_propertyKey field) (rf_number field))
         else Inr (put_message target (entry\<lparr>rm_fields := rm_fields entry @ [field]\<rparr>) rg))"

definition RpcField :: "(nat \<Rightarrow> jsstr) \<Rightarrow> rpc_registry \<Rightarrow> nat \<Rightarrow> rpc_field \<Rightarrow> (registry_error, rpc_registry) result" where
  "RpcField N rg target field =
     (if rf_number field < 1 \<or> 536870911 < rf_number field then Inl (InvalidFieldNumber (rf_number field)) else addField N rg target field)"

definition service_entry :: "rpc_registry \<Rightarrow> nat \<Rightarrow> jsstr \<Rightarrow> jsstr \<Rightarrow> rpc_service" where
  "service_entry rg target package name =
     (case js_get (rg_services rg) target of
        None \<Rightarrow> \<lparr>sv_target = target, sv_package = package, sv_name = name, sv_methods = []\<rparr>
      | Some entry \<Rightarrow> entry\<lparr>sv_package := package, sv_name := name\<rparr>)"

definition addService :: "(nat \<Rightarrow> jsstr) \<Rightarrow> rpc_registry \<Rightarrow> nat \<Rightarrow> jsstr \<Rightarrow> jsstr option \<Rightarrow> rpc_registry" where
  "addService N rg target package name = put_service target (service_entry rg target package (nullish name (N target))) rg"

definition addMethod :: "(nat \<Rightarrow> jsstr) \<Rightarrow> rpc_registry \<Rightarrow> nat \<Rightarrow> rpc_method \<Rightarrow> (registry_error, rpc_registry) result" where
  "addMethod N rg target method =
     (let entry = (case js_get (rg_services rg) target of
                     None \<Rightarrow> \<lparr>sv_target = target, sv_package = [], sv_name = N target, sv_methods = []\<rparr>
                   | Some entry \<Rightarrow> entry)
      in if list_ex (\<lambda>c. me_name c = me_name method \<or> me_propertyKey c = me_propertyKey method) (sv_methods entry)
         then Inl (DuplicateMethod (sv_name entry) (me_name method))
         else Inr (put_service target (entry\<lparr>sv_methods := sv_methods entry @ [method]\<rparr>) rg))"

definition getMessages :: "rpc_registry \<Rightarrow> rpc_message list" where
  "getMessages rg = js_values (rg_messages rg)"

definition getServices :: "rpc_registry \<Rightarrow> rpc_service list" where
  "getServices rg = js_values (rg_services rg)"

definition moveService :: "(nat \<Rightarrow> jsstr) \<Rightarrow> rpc_registry \<Rightarrow> nat \<Rightarrow> nat \<Rightarrow> jsstr \<Rightarrow> jsstr option \<Rightarrow> rpc_registry" where
  "moveService N rg source target package name =
     (let previous = js_get (rg_services rg) source;
          rg' = rg\<lparr>rg_services := js_del source (rg_services rg)\<rparr>;
          entry = service_entry rg' target package (nullish name (N target))
      in put_service target (case previous of None \<Rightarrow> entry | Some p \<Rightarrow> entry\<lparr>sv_methods := sv_methods entry @ sv_methods p\<rparr>) rg')"

section \<open>Finding a method\<close>

definition service_prefix :: "rpc_service \<Rightarrow> jsstr" where
  "service_prefix s = sv_package s @ js_str ''.'' @ sv_name s @ js_str ''/''"

fun find_method :: "rpc_service list \<Rightarrow> jsstr \<Rightarrow> (rpc_service \<times> rpc_method) option" where
  "find_method [] path = None"
| "find_method (s # ss) path =
     (let prefix = service_prefix s
      in if take (length prefix) path \<noteq> prefix then find_method ss path
         else (case List.find (\<lambda>m. me_name m = drop (length prefix) path) (sv_methods s) of
                 Some m \<Rightarrow> Some (s, m)
               | None \<Rightarrow> find_method ss path))"

definition findMethod :: "rpc_registry \<Rightarrow> jsstr \<Rightarrow> (rpc_service \<times> rpc_method) option" where
  "findMethod rg path = find_method (getServices rg) path"

section \<open>The messages of a package\<close>

definition message_fields :: "rpc_message \<Rightarrow> nat list" where
  "message_fields meta = concat (map (\<lambda>f. case rf_type f of Some (TMessage c) \<Rightarrow> [c] | _ \<Rightarrow> []) (rm_fields meta))"

lemma fresh_key_decreases:
  "t \<notin> set seen \<Longrightarrow> js_get R t = Some meta \<Longrightarrow>
    card (fst ` set R - set (t # seen)) < card (fst ` set R - set seen)"
proof -
  assume "t \<notin> set seen" "js_get R t = Some meta"
  then have "t \<in> fst ` set R - set seen"
    by (force dest: map_of_SomeD)
  then show ?thesis
    by (intro psubset_card_mono) auto
qed

lemma fresh_key_not_more: "card (fst ` set R - set (t # seen)) \<le> card (fst ` set R - set seen)"
  by (intro card_mono) auto

text \<open>
  \<^verbatim>\<open>visit\<close> over a list of classes: the fields of a message that is new are visited before the rest of the list
  (\<open>visits_append\<close> below shows that this is the recursion of the source).
\<close>

function visits :: "rpc_messages \<Rightarrow> nat list \<Rightarrow> nat list \<Rightarrow> rpc_message list \<Rightarrow> nat list \<times> rpc_message list" where
  "visits R [] seen ordered = (seen, ordered)"
| "visits R (t # ts) seen ordered =
     (if t \<in> set seen then visits R ts seen ordered
      else case js_get R t of
             None \<Rightarrow> visits R ts (t # seen) ordered
           | Some meta \<Rightarrow> visits R (message_fields meta @ ts) (t # seen) (ordered @ [meta]))"
  by pat_completeness auto

termination
proof (relation "measures [\<lambda>(R, ts, seen, ordered). card (fst ` set R - set seen), \<lambda>(R, ts, seen, ordered). length ts]")
  show "wf (measures [\<lambda>(R, ts, seen, ordered). card (fst ` set R - set seen), \<lambda>(R, ts, seen, ordered). length ts])"
    by simp
next
  fix R :: rpc_messages and t :: nat and ts seen :: "nat list" and ordered :: "rpc_message list"
  assume "t \<in> set seen"
  show "((R, ts, seen, ordered), R, t # ts, seen, ordered) \<in>
      measures [\<lambda>(R, ts, seen, ordered). card (fst ` set R - set seen), \<lambda>(R, ts, seen, ordered). length ts]"
    by simp
next
  fix R :: rpc_messages and t :: nat and ts seen :: "nat list" and ordered :: "rpc_message list"
  show "((R, ts, t # seen, ordered), R, t # ts, seen, ordered) \<in>
      measures [\<lambda>(R, ts, seen, ordered). card (fst ` set R - set seen), \<lambda>(R, ts, seen, ordered). length ts]"
    using fresh_key_not_more[of R t seen] by (simp add: le_less)
next
  fix R :: rpc_messages and t :: nat and ts seen :: "nat list" and ordered :: "rpc_message list" and meta
  assume "t \<notin> set seen" "js_get R t = Some meta"
  then show "((R, message_fields meta @ ts, t # seen, ordered @ [meta]), R, t # ts, seen, ordered) \<in>
      measures [\<lambda>(R, ts, seen, ordered). card (fst ` set R - set seen), \<lambda>(R, ts, seen, ordered). length ts]"
    using fresh_key_decreases[of t seen R meta] by simp
qed

definition package_roots :: "rpc_registry \<Rightarrow> jsstr \<Rightarrow> nat list" where
  "package_roots rg package = concat (map (\<lambda>s. if sv_package s \<noteq> package then []
     else concat (map (\<lambda>m. me_input m # (case me_output m of None \<Rightarrow> [] | Some c \<Rightarrow> [c])) (sv_methods s))) (getServices rg))"

definition messagesForPackage :: "rpc_registry \<Rightarrow> jsstr \<Rightarrow> rpc_message list" where
  "messagesForPackage rg package = snd (visits (rg_messages rg) (package_roots rg package) [] [])"

section \<open>Copying a registry\<close>

text \<open>\<^verbatim>\<open>setRegistry\<close>: the registry is cleared and filled from another one.\<close>

fun add_all :: "('a \<Rightarrow> 's \<Rightarrow> ('e, 's) result) \<Rightarrow> 'a list \<Rightarrow> 's \<Rightarrow> ('e, 's) result" where
  "add_all f [] s = Inr s"
| "add_all f (x # xs) s = rbind (f x s) (add_all f xs)"

definition copy_message :: "(nat \<Rightarrow> jsstr) \<Rightarrow> rpc_message \<Rightarrow> rpc_registry \<Rightarrow> (registry_error, rpc_registry) result" where
  "copy_message N m rg = add_all (\<lambda>f rg. addField N rg (rm_target m) f) (rm_fields m) (addMessage rg (rm_target m) (rm_name m))"

definition copy_service :: "(nat \<Rightarrow> jsstr) \<Rightarrow> rpc_service \<Rightarrow> rpc_registry \<Rightarrow> (registry_error, rpc_registry) result" where
  "copy_service N s rg =
     add_all (\<lambda>m rg. addMethod N rg (sv_target s) m) (sv_methods s) (addService N rg (sv_target s) (sv_package s) (Some (sv_name s)))"

definition setRegistry :: "(nat \<Rightarrow> jsstr) \<Rightarrow> rpc_registry \<Rightarrow> (registry_error, rpc_registry) result" where
  "setRegistry N next =
     rbind (add_all (copy_message N) (getMessages next) new_registry) (add_all (copy_service N) (getServices next))"

section \<open>The printed IDL\<close>

definition line_feed :: jsstr where
  "line_feed = [10]"

definition join_units :: "jsstr \<Rightarrow> jsstr list \<Rightarrow> jsstr" where
  "join_units sep xs = (case xs of [] \<Rightarrow> [] | x # ys \<Rightarrow> x @ concat (map (\<lambda>y. sep @ y) ys))"

definition scalar_name :: "rpc_type \<Rightarrow> string" where
  "scalar_name t = (case t of TString \<Rightarrow> ''string'' | TBool \<Rightarrow> ''bool'' | TInt32 \<Rightarrow> ''int32'' | TInt64 \<Rightarrow> ''int64''
     | TDouble \<Rightarrow> ''double'' | TBytes \<Rightarrow> ''bytes'' | TMessage _ \<Rightarrow> [])"

definition message_name :: "rpc_registry \<Rightarrow> nat \<Rightarrow> (registry_error, jsstr) result" where
  "message_name rg c = (case js_get (rg_messages rg) c of None \<Rightarrow> Inl (NotMessage c) | Some m \<Rightarrow> Inr (rm_name m))"

definition protoType :: "rpc_registry \<Rightarrow> rpc_field \<Rightarrow> (registry_error, jsstr) result" where
  "protoType rg f = (case fieldType f of TMessage c \<Rightarrow> message_name rg c | t \<Rightarrow> Inr (js_str (scalar_name t)))"

definition print_field :: "rpc_registry \<Rightarrow> rpc_field \<Rightarrow> (registry_error, jsstr) result" where
  "print_field rg f =
     rbind (protoType rg f) (\<lambda>t. Inr (js_str ''  '' @ (if rf_repeated f then js_str ''repeated '' else []) @ t @ js_str '' '' @
       rf_propertyKey f @ js_str '' = '' @ bigint_text (rf_number f) @ js_str '';''))"

definition print_message :: "rpc_registry \<Rightarrow> rpc_message \<Rightarrow> (registry_error, jsstr) result" where
  "print_message rg m =
     rbind (traverse (print_field rg) (by_number (rm_fields m))) (\<lambda>ls.
       Inr (js_str ''message '' @ rm_name m @ js_str '' {'' @ line_feed @ join_units line_feed ls @ line_feed @ js_str ''}''))"

definition print_method :: "rpc_registry \<Rightarrow> rpc_method \<Rightarrow> (registry_error, jsstr) result" where
  "print_method rg m =
     rbind (message_name rg (me_input m)) (\<lambda>i.
     rbind (case me_output m of Some c \<Rightarrow> message_name rg c | None \<Rightarrow> Inr (js_str ''RpcEmpty'')) (\<lambda>out.
       Inr (js_str ''  rpc '' @ me_name m @ js_str '' ('' @ i @ js_str '') returns ('' @ out @ js_str '');'')))"

definition print_service :: "rpc_registry \<Rightarrow> rpc_service \<Rightarrow> (registry_error, jsstr) result" where
  "print_service rg s =
     rbind (traverse (print_method rg) (sv_methods s)) (\<lambda>ls.
       Inr (js_str ''service '' @ sv_name s @ js_str '' {'' @ line_feed @ join_units line_feed ls @ line_feed @ js_str ''}''))"

text \<open>The services of each package, packages in the order of their first service.\<close>

definition packages_of :: "rpc_service list \<Rightarrow> (jsstr, rpc_service list) jsmap" where
  "packages_of ss = foldl (\<lambda>m s. js_set (sv_package s) (nullish (js_get m (sv_package s)) [] @ [s]) m) [] ss"

definition print_package :: "rpc_registry \<Rightarrow> jsstr \<times> rpc_service list \<Rightarrow> (registry_error, jsstr) result" where
  "print_package rg p =
     rbind (traverse (print_message rg) (messagesForPackage rg (fst p))) (\<lambda>ms.
     rbind (traverse (print_service rg) (snd p)) (\<lambda>ss.
       Inr (join_units (line_feed @ line_feed)
         ([js_str ''syntax = \"proto3\";'', js_str ''package '' @ fst p @ js_str '';''] @ ms @ [js_str ''message RpcEmpty {}''] @ ss))))"

definition printProto :: "rpc_registry \<Rightarrow> (registry_error, jsstr) result" where
  "printProto rg =
     rbind (traverse (print_package rg) (packages_of (getServices rg))) (\<lambda>files.
       Inr (if files = [] then js_str ''syntax = \"proto3\";'' @ line_feed
            else join_units (line_feed @ line_feed @ js_str ''// ---- next generated file ----'' @ line_feed @ line_feed) files @ line_feed))"


section \<open>Names and numbers are unique\<close>

text \<open>The registries that decorators build.\<close>

inductive registered :: "(nat \<Rightarrow> jsstr) \<Rightarrow> rpc_registry \<Rightarrow> bool" for N where
  new: "registered N new_registry"
| message: "registered N rg \<Longrightarrow> registered N (addMessage rg t name)"
| field: "registered N rg \<Longrightarrow> RpcField N rg t f = Inr rg' \<Longrightarrow> registered N rg'"
| service: "registered N rg \<Longrightarrow> registered N (addService N rg t package name)"
| added: "registered N rg \<Longrightarrow> addMethod N rg t m = Inr rg' \<Longrightarrow> registered N rg'"
| move: "registered N rg \<Longrightarrow> \<not> js_has (rg_services rg) t \<Longrightarrow> registered N (moveService N rg source t package name)"

definition message_ok :: "rpc_message \<Rightarrow> bool" where
  "message_ok m \<longleftrightarrow> distinct (map rf_number (rm_fields m)) \<and> distinct (map rf_propertyKey (rm_fields m)) \<and>
     list_all (\<lambda>f. 1 \<le> rf_number f \<and> rf_number f \<le> 536870911) (rm_fields m)"

definition service_ok :: "rpc_service \<Rightarrow> bool" where
  "service_ok s \<longleftrightarrow> distinct (map me_name (sv_methods s)) \<and> distinct (map me_propertyKey (sv_methods s))"

definition registry_ok :: "rpc_registry \<Rightarrow> bool" where
  "registry_ok rg \<longleftrightarrow> js_wf (rg_messages rg) \<and> js_wf (rg_services rg) \<and>
     js_all (\<lambda>t m. rm_target m = t \<and> message_ok m) (rg_messages rg) \<and> js_all (\<lambda>t s. sv_target s = t \<and> service_ok s) (rg_services rg)"

lemma registry_ok_put_message:
  "registry_ok rg \<Longrightarrow> rm_target m = t \<Longrightarrow> message_ok m \<Longrightarrow> registry_ok (put_message t m rg)"
  by (auto simp: registry_ok_def put_message_def)

lemma registry_ok_put_service:
  "registry_ok rg \<Longrightarrow> sv_target s = t \<Longrightarrow> service_ok s \<Longrightarrow> registry_ok (put_service t s rg)"
  by (auto simp: registry_ok_def put_service_def)

lemma message_entry_ok:
  assumes "registry_ok rg"
  shows "rm_target (message_entry rg t name) = t" "message_ok (message_entry rg t name)"
  using assms by (auto simp: message_entry_def registry_ok_def message_ok_def dest: js_allD split: option.split)

lemma service_entry_ok:
  assumes "registry_ok rg"
  shows "sv_target (service_entry rg t package name) = t" "service_ok (service_entry rg t package name)"
  using assms by (auto simp: service_entry_def registry_ok_def service_ok_def dest: js_allD split: option.split)

lemma registry_ok_addMessage: "registry_ok rg \<Longrightarrow> registry_ok (addMessage rg t name)"
  by (simp add: addMessage_def registry_ok_put_message message_entry_ok)

lemma registry_ok_RpcField: "registry_ok rg \<Longrightarrow> RpcField N rg t f = Inr rg' \<Longrightarrow> registry_ok rg'"
proof -
  assume ok: "registry_ok rg" and "RpcField N rg t f = Inr rg'"
  define e where "e = message_entry rg t (N t)"
  have "1 \<le> rf_number f" "rf_number f \<le> 536870911" "rg' = put_message t (e\<lparr>rm_fields := rm_fields e @ [f]\<rparr>) rg"
    "\<forall>c\<in>set (rm_fields e). rf_number c \<noteq> rf_number f \<and> rf_propertyKey c \<noteq> rf_propertyKey f"
    using \<open>RpcField N rg t f = Inr rg'\<close> by (auto simp: RpcField_def addField_def e_def Let_def list_ex_iff split: if_splits)
  moreover have "rm_target e = t" "message_ok e"
    using message_entry_ok[OF ok, of t "N t"] by (simp_all add: e_def)
  ultimately show ?thesis
    by (auto intro!: registry_ok_put_message ok simp: message_ok_def) blast+
qed

lemma registry_ok_addMethod: "registry_ok rg \<Longrightarrow> addMethod N rg t m = Inr rg' \<Longrightarrow> registry_ok rg'"
proof -
  assume ok: "registry_ok rg" and m: "addMethod N rg t m = Inr rg'"
  define e where "e = (case js_get (rg_services rg) t of
      None \<Rightarrow> \<lparr>sv_target = t, sv_package = [], sv_name = N t, sv_methods = []\<rparr> | Some entry \<Rightarrow> entry)"
  have "rg' = put_service t (e\<lparr>sv_methods := sv_methods e @ [m]\<rparr>) rg"
    "\<forall>c\<in>set (sv_methods e). me_name c \<noteq> me_name m \<and> me_propertyKey c \<noteq> me_propertyKey m"
    using m unfolding addMethod_def e_def[symmetric] by (auto simp: Let_def list_ex_iff split: if_splits)
  moreover have "sv_target e = t" "service_ok e"
    using ok by (auto simp: e_def registry_ok_def service_ok_def dest: js_allD split: option.split)
  ultimately show ?thesis
    by (auto intro!: registry_ok_put_service ok simp: service_ok_def) blast+
qed

lemma registry_ok_moveService:
  assumes "registry_ok rg" "\<not> js_has (rg_services rg) t"
  shows "registry_ok (moveService N rg source t package name)"
proof -
  define rg' where "rg' = rg\<lparr>rg_services := js_del source (rg_services rg)\<rparr>"
  have ok: "registry_ok rg'"
    using assms(1) by (auto simp: registry_ok_def rg'_def js_all_def)
  have "js_get (rg_services rg') t = None"
    using assms(2) by (simp add: rg'_def js_has_def)
  then have entry: "service_entry rg' t p n = \<lparr>sv_target = t, sv_package = p, sv_name = n, sv_methods = []\<rparr>" for p n
    by (simp add: service_entry_def)
  show ?thesis
  proof (cases "js_get (rg_services rg) source")
    case None
    then show ?thesis
      unfolding moveService_def rg'_def[symmetric] Let_def by (auto intro!: registry_ok_put_service ok simp: entry service_ok_def)
  next
    case (Some p)
    then have "service_ok p"
      using assms(1) by (auto simp: registry_ok_def dest: js_allD)
    then show ?thesis
      using Some unfolding moveService_def rg'_def[symmetric] Let_def
      by (auto intro!: registry_ok_put_service ok simp: entry service_ok_def)
  qed
qed

lemma registered_ok: "registered N rg \<Longrightarrow> registry_ok rg"
proof (induction rule: registered.induct)
  case new
  then show ?case by (simp add: registry_ok_def new_registry_def)
next
  case (service rg t package name)
  then show ?case by (simp add: addService_def registry_ok_put_service service_entry_ok)
qed (blast intro: registry_ok_addMessage registry_ok_RpcField registry_ok_addMethod registry_ok_moveService)+


section \<open>The messages of a package are those its methods reach\<close>

lemma visits_append:
  "visits R (xs @ ys) seen ordered = (let r = visits R xs seen ordered in visits R ys (fst r) (snd r))"
  by (induction R xs seen ordered arbitrary: ys rule: visits.induct) (auto simp: Let_def split: option.split)

definition field_edges :: "rpc_messages \<Rightarrow> (nat \<times> nat) set" where
  "field_edges R = {(a, b). \<exists>meta. js_get R a = Some meta \<and> b \<in> set (message_fields meta)}"

lemma visits_within:
  "set (fst (visits R ts seen ordered)) \<subseteq> set seen \<union> (field_edges R)\<^sup>* `` set ts"
proof (induction R ts seen ordered rule: visits.induct)
  case (2 R t ts seen ordered)
  show ?case
  proof (cases "t \<in> set seen")
    case True
    then show ?thesis
      using 2(1) by auto
  next
    case False
    show ?thesis
    proof (cases "js_get R t")
      case None
      then show ?thesis
        using 2(2) False by auto
    next
      case (Some meta)
      have "b \<in> (field_edges R)\<^sup>* `` {t}" if "a \<in> set (message_fields meta)" "(a, b) \<in> (field_edges R)\<^sup>*" for a b
        using that Some by (auto simp: field_edges_def intro: converse_rtrancl_into_rtrancl)
      then have sub: "(field_edges R)\<^sup>* `` set (message_fields meta) \<subseteq> (field_edges R)\<^sup>* `` {t}"
        by blast
      have "set (fst (visits R (message_fields meta @ ts) (t # seen) (ordered @ [meta])))
          \<subseteq> set (t # seen) \<union> (field_edges R)\<^sup>* `` set (message_fields meta @ ts)"
        by (rule 2(3)[OF False Some])
      also have "\<dots> \<subseteq> set seen \<union> (field_edges R)\<^sup>* `` set (t # ts)"
        using sub by auto
      finally show ?thesis
        by (simp add: Some False)
    qed
  qed
qed simp

lemma visits_covers:
  assumes "\<forall>a\<in>set seen. \<forall>b. (a, b) \<in> field_edges R \<longrightarrow> b \<in> set seen \<union> set ts"
  shows "set seen \<union> set ts \<subseteq> set (fst (visits R ts seen ordered)) \<and>
    (\<forall>a\<in>set (fst (visits R ts seen ordered)). \<forall>b. (a, b) \<in> field_edges R \<longrightarrow> b \<in> set (fst (visits R ts seen ordered)))"
  using assms
proof (induction R ts seen ordered rule: visits.induct)
  case (2 R t ts seen ordered)
  show ?case
  proof (cases "t \<in> set seen")
    case True
    then show ?thesis
      using 2(1) 2(4) by auto
  next
    case False
    show ?thesis
    proof (cases "js_get R t")
      case None
      have "\<forall>a\<in>set (t # seen). \<forall>b. (a, b) \<in> field_edges R \<longrightarrow> b \<in> set (t # seen) \<union> set ts"
        using 2(4) None by (auto simp: field_edges_def)
      then show ?thesis
        using 2(2)[OF False None] False None by simp
    next
      case (Some meta)
      have "\<forall>a\<in>set (t # seen). \<forall>b. (a, b) \<in> field_edges R \<longrightarrow> b \<in> set (t # seen) \<union> set (message_fields meta @ ts)"
        using 2(4) Some by (auto simp: field_edges_def)
      then show ?thesis
        using 2(3)[OF False Some] False Some by auto
    qed
  qed
qed auto

lemma visits_reach: "set (fst (visits R ts [] ordered)) = (field_edges R)\<^sup>* `` set ts"
proof
  show "set (fst (visits R ts [] ordered)) \<subseteq> (field_edges R)\<^sup>* `` set ts"
    using visits_within[of R ts "[]" ordered] by simp
  have covers: "set ts \<subseteq> set (fst (visits R ts [] ordered))"
    and closed: "\<forall>a\<in>set (fst (visits R ts [] ordered)). \<forall>b. (a, b) \<in> field_edges R \<longrightarrow> b \<in> set (fst (visits R ts [] ordered))"
    using visits_covers[of "[]" R ts ordered] by simp_all
  have "b \<in> set (fst (visits R ts [] ordered))" if "(a, b) \<in> (field_edges R)\<^sup>*" "a \<in> set (fst (visits R ts [] ordered))" for a b
    using that closed by (induction rule: rtrancl_induct) auto
  then show "(field_edges R)\<^sup>* `` set ts \<subseteq> set (fst (visits R ts [] ordered))"
    using covers by blast
qed

lemma visits_messages:
  "set (snd (visits R ts seen ordered)) = set ordered \<union> {meta. \<exists>t\<in>set (fst (visits R ts seen ordered)) - set seen. js_get R t = Some meta} \<and>
   set seen \<subseteq> set (fst (visits R ts seen ordered))"
proof (induction R ts seen ordered rule: visits.induct)
  case (2 R t ts seen ordered)
  then show ?case
    by (cases "t \<in> set seen"; cases "js_get R t") auto
qed simp

lemma visits_new:
  assumes "js_all (\<lambda>t m. rm_target m = t \<and> Q m) R" "distinct (map rm_target ordered)" "rm_target ` set ordered \<subseteq> set seen"
  shows "distinct (map rm_target (snd (visits R ts seen ordered)))"
  using assms
proof (induction R ts seen ordered rule: visits.induct)
  case (2 R t ts seen ordered)
  then show ?case
    by (cases "t \<in> set seen"; cases "js_get R t") (auto dest: js_allD)
qed simp

section \<open>A method is found by its path\<close>

lemma find_method_Some:
  "find_method ss path = Some (s, m) \<Longrightarrow> s \<in> set ss \<and> m \<in> set (sv_methods s) \<and> path = service_prefix s @ me_name m"
proof (induction ss)
  case (Cons a ss)
  show ?case
  proof (cases "take (length (service_prefix a)) path = service_prefix a")
    case True
    show ?thesis
    proof (cases "List.find (\<lambda>m. me_name m = drop (length (service_prefix a)) path) (sv_methods a)")
      case None
      then show ?thesis
        using Cons True by (simp add: Let_def)
    next
      case (Some m')
      then have "m' \<in> set (sv_methods a)" "me_name m' = drop (length (service_prefix a)) path"
        by (auto simp: find_Some_iff)
      then show ?thesis
        using Some True Cons.prems by (auto simp: Let_def) (metis append_take_drop_id)
    qed
  next
    case False
    then show ?thesis
      using Cons by (simp add: Let_def)
  qed
qed simp

lemma find_method_None:
  "find_method ss path = None \<Longrightarrow> s \<in> set ss \<Longrightarrow> m \<in> set (sv_methods s) \<Longrightarrow> path \<noteq> service_prefix s @ me_name m"
  by (induction ss) (auto simp: Let_def find_None_iff split: if_splits option.splits)


section \<open>Copying\<close>

definition reset_name :: "(nat \<Rightarrow> jsstr) \<Rightarrow> nat \<Rightarrow> rpc_message \<Rightarrow> rpc_message" where
  "reset_name N t m = m\<lparr>rm_name := if rm_fields m = [] then rm_name m else N t\<rparr>"

lemma copy_fields:
  assumes "js_get M t = None" "distinct (map rf_number (fs @ gs))" "distinct (map rf_propertyKey (fs @ gs))"
    "rg_messages rg = M @ [(t, \<lparr>rm_target = t, rm_name = if fs = [] then n else N t, rm_fields = fs\<rparr>)]"
  shows "add_all (\<lambda>f rg. addField N rg t f) gs rg =
    Inr (rg\<lparr>rg_messages := M @ [(t, \<lparr>rm_target = t, rm_name = if fs @ gs = [] then n else N t, rm_fields = fs @ gs\<rparr>)]\<rparr>)"
  using assms
proof (induction gs arbitrary: fs rg)
  case Nil
  then show ?case
    by (cases rg) auto
next
  case (Cons g gs)
  let ?e = "\<lparr>rm_target = t, rm_name = N t, rm_fields = fs\<rparr>"
  have "message_entry rg t (N t) = ?e"
    using Cons.prems by (simp add: message_entry_def map_add_def)
  moreover have "\<not> list_ex (\<lambda>c. rf_number c = rf_number g \<or> rf_propertyKey c = rf_propertyKey g) fs"
    using Cons.prems by (auto simp: list_ex_iff) (metis imageI)+
  ultimately have "addField N rg t g = Inr (put_message t (?e\<lparr>rm_fields := fs @ [g]\<rparr>) rg)"
    by (simp add: addField_def)
  moreover have "rg_messages (put_message t (?e\<lparr>rm_fields := fs @ [g]\<rparr>) rg) = M @ [(t, \<lparr>rm_target = t, rm_name = N t, rm_fields = fs @ [g]\<rparr>)]"
    using Cons.prems by (simp add: put_message_def js_set_last)
  ultimately show ?case
    using Cons.IH[of "fs @ [g]" "put_message t (?e\<lparr>rm_fields := fs @ [g]\<rparr>) rg"] Cons.prems by (simp add: put_message_def)
qed

lemma copy_message_eq:
  assumes "js_get (rg_messages rg) (rm_target m) = None" "message_ok m"
  shows "copy_message N m rg = Inr (rg\<lparr>rg_messages := rg_messages rg @ [(rm_target m, reset_name N (rm_target m) m)]\<rparr>)"
proof -
  have "addMessage rg (rm_target m) (rm_name m) =
      rg\<lparr>rg_messages := rg_messages rg @ [(rm_target m, \<lparr>rm_target = rm_target m, rm_name = rm_name m, rm_fields = []\<rparr>)]\<rparr>"
    using assms(1) by (simp add: addMessage_def put_message_def message_entry_def js_set_absent)
  then show ?thesis
    using copy_fields[of "rg_messages rg" "rm_target m" "[]" "rm_fields m" "addMessage rg (rm_target m) (rm_name m)" "rm_name m" N] assms
    by (cases m) (simp add: copy_message_def message_ok_def reset_name_def)
qed

lemma js_all_Cons: "k \<notin> fst ` set m \<Longrightarrow> js_all P ((k, v) # m) \<longleftrightarrow> P k v \<and> js_all P m"
proof -
  assume "k \<notin> fst ` set m"
  then have "js_get m k = None"
    by (simp add: map_of_eq_None_iff)
  then show ?thesis
    by (simp add: js_all_def) (metis option.distinct(1) option.inject)
qed

lemma js_all_entry: "js_all P m \<Longrightarrow> js_wf m \<Longrightarrow> (k, v) \<in> set m \<Longrightarrow> P k v"
  by (simp add: js_all_def js_get_wf_iff)

lemma copy_messages:
  assumes "js_wf (M @ ms)" "js_all (\<lambda>t m. rm_target m = t \<and> message_ok m) ms" "rg_messages rg = M"
  shows "add_all (copy_message N) (js_values ms) rg = Inr (rg\<lparr>rg_messages := M @ js_mapv (reset_name N) ms\<rparr>)"
  using assms
proof (induction ms arbitrary: M rg)
  case Nil
  then show ?case by (cases rg) (simp add: js_mapv_def)
next
  case (Cons e ms)
  obtain t m where e: "e = (t, m)"
    by (cases e)
  have m: "rm_target m = t" "message_ok m" and rest: "js_all (\<lambda>t m. rm_target m = t \<and> message_ok m) ms"
    using Cons.prems(1,2) e by (simp_all add: js_all_Cons)
  have "js_get M t = None"
    using Cons.prems(1) e by (auto simp: map_of_eq_None_iff)
  then have "copy_message N m rg = Inr (rg\<lparr>rg_messages := M @ [(t, reset_name N t m)]\<rparr>)"
    using copy_message_eq[of rg m N] m Cons.prems(3) by simp
  then show ?case
    using Cons.IH[of "M @ [(t, reset_name N t m)]" "rg\<lparr>rg_messages := M @ [(t, reset_name N t m)]\<rparr>"] Cons.prems(1) rest e
    by (simp add: js_mapv_def)
qed

lemma copy_methods:
  assumes "js_get S t = None" "distinct (map me_name (fs @ gs))" "distinct (map me_propertyKey (fs @ gs))"
    "rg_services rg = S @ [(t, s\<lparr>sv_methods := fs\<rparr>)]"
  shows "add_all (\<lambda>m rg. addMethod N rg t m) gs rg = Inr (rg\<lparr>rg_services := S @ [(t, s\<lparr>sv_methods := fs @ gs\<rparr>)]\<rparr>)"
  using assms
proof (induction gs arbitrary: fs rg)
  case Nil
  then show ?case by (cases rg) auto
next
  case (Cons g gs)
  have "js_get (rg_services rg) t = Some (s\<lparr>sv_methods := fs\<rparr>)"
    using Cons.prems by (simp add: map_add_def)
  moreover have "\<not> list_ex (\<lambda>c. me_name c = me_name g \<or> me_propertyKey c = me_propertyKey g) fs"
    using Cons.prems by (auto simp: list_ex_iff) (metis imageI)+
  ultimately have "addMethod N rg t g = Inr (put_service t (s\<lparr>sv_methods := fs @ [g]\<rparr>) rg)"
    by (simp add: addMethod_def)
  moreover have "rg_services (put_service t (s\<lparr>sv_methods := fs @ [g]\<rparr>) rg) = S @ [(t, s\<lparr>sv_methods := fs @ [g]\<rparr>)]"
    using Cons.prems by (simp add: put_service_def js_set_last)
  ultimately show ?case
    using Cons.IH[of "fs @ [g]" "put_service t (s\<lparr>sv_methods := fs @ [g]\<rparr>) rg"] Cons.prems by (simp add: put_service_def)
qed

lemma copy_service_eq:
  assumes "js_get (rg_services rg) (sv_target s) = None" "service_ok s"
  shows "copy_service N s rg = Inr (rg\<lparr>rg_services := rg_services rg @ [(sv_target s, s)]\<rparr>)"
proof -
  have "addService N rg (sv_target s) (sv_package s) (Some (sv_name s)) =
      rg\<lparr>rg_services := rg_services rg @ [(sv_target s, s\<lparr>sv_methods := []\<rparr>)]\<rparr>"
    using assms(1) by (cases s) (simp add: addService_def put_service_def service_entry_def js_set_absent)
  then show ?thesis
    using copy_methods[of "rg_services rg" "sv_target s" "[]" "sv_methods s" "addService N rg (sv_target s) (sv_package s) (Some (sv_name s))" s N] assms
    by (cases s) (simp add: copy_service_def service_ok_def)
qed

lemma copy_services:
  assumes "js_wf (S @ ss)" "js_all (\<lambda>t s. sv_target s = t \<and> service_ok s) ss" "rg_services rg = S"
  shows "add_all (copy_service N) (js_values ss) rg = Inr (rg\<lparr>rg_services := S @ ss\<rparr>)"
  using assms
proof (induction ss arbitrary: S rg)
  case Nil
  then show ?case by (cases rg) simp
next
  case (Cons e ss)
  obtain t s where e: "e = (t, s)"
    by (cases e)
  have s: "sv_target s = t" "service_ok s" and rest: "js_all (\<lambda>t s. sv_target s = t \<and> service_ok s) ss"
    using Cons.prems(1,2) e by (simp_all add: js_all_Cons)
  have "js_get S t = None"
    using Cons.prems(1) e by (auto simp: map_of_eq_None_iff)
  then have "copy_service N s rg = Inr (rg\<lparr>rg_services := S @ [(t, s)]\<rparr>)"
    using copy_service_eq[of rg s N] s Cons.prems(3) by simp
  then show ?case
    using Cons.IH[of "S @ [(t, s)]" "rg\<lparr>rg_services := S @ [(t, s)]\<rparr>"] Cons.prems(1) rest e by simp
qed

lemma setRegistry_eq:
  assumes "registry_ok rg"
  shows "setRegistry N rg = Inr (rg\<lparr>rg_messages := js_mapv (reset_name N) (rg_messages rg)\<rparr>)"
  using assms copy_messages[of "[]" "rg_messages rg" new_registry N]
    copy_services[of "[]" "rg_services rg" "new_registry\<lparr>rg_messages := js_mapv (reset_name N) (rg_messages rg)\<rparr>" N]
  by (cases rg) (simp add: setRegistry_def getMessages_def getServices_def registry_ok_def new_registry_def)


section \<open>The printed IDL has no streams\<close>

definition unary_method :: "rpc_method \<Rightarrow> rpc_method" where
  "unary_method m = m\<lparr>me_clientStreaming := False, me_serverStreaming := False\<rparr>"

definition unary_service :: "rpc_service \<Rightarrow> rpc_service" where
  "unary_service s = s\<lparr>sv_methods := map unary_method (sv_methods s)\<rparr>"

definition unary_registry :: "rpc_registry \<Rightarrow> rpc_registry" where
  "unary_registry rg = rg\<lparr>rg_services := js_mapv (\<lambda>_. unary_service) (rg_services rg)\<rparr>"

lemma unary_simps [simp]:
  "rg_messages (unary_registry rg) = rg_messages rg" "getServices (unary_registry rg) = map unary_service (getServices rg)"
  "sv_package (unary_service s) = sv_package s" "sv_name (unary_service s) = sv_name s"
  by (simp_all add: unary_registry_def unary_service_def getServices_def js_mapv_def case_prod_unfold comp_def)

lemma message_name_unary [simp]: "message_name (unary_registry rg) = message_name rg"
  by (rule ext) (simp add: message_name_def)

lemma traverse_map: "traverse f (map g xs) = traverse (\<lambda>x. f (g x)) xs"
  by (induction xs) simp_all

lemma print_message_unary: "print_message (unary_registry rg) m = print_message rg m"
proof -
  have "protoType (unary_registry rg) f = protoType rg f" for f
    by (simp add: protoType_def split: rpc_type.split)
  then have "print_field (unary_registry rg) = print_field rg"
    by (intro ext) (simp add: print_field_def)
  then show ?thesis
    by (simp add: print_message_def)
qed

lemma print_service_unary: "print_service (unary_registry rg) (unary_service s) = print_service rg s"
proof -
  have "print_method (unary_registry rg) (unary_method m) = print_method rg m" for m
    by (simp add: print_method_def unary_method_def split: option.split)
  then show ?thesis
    by (simp add: print_service_def unary_service_def traverse_map)
qed

lemma messagesForPackage_unary: "messagesForPackage (unary_registry rg) p = messagesForPackage rg p"
proof -
  have "package_roots (unary_registry rg) p = package_roots rg p"
    by (simp add: package_roots_def comp_def unary_service_def unary_method_def cong: if_cong)
  then show ?thesis
    by (simp add: messagesForPackage_def)
qed

lemma js_set_map: "js_set k (g v) (map (apsnd g) m) = map (apsnd g) (js_set k v m)"
  by (induction m) auto

lemma js_get_map: "js_get (map (apsnd g) m) k = map_option g (js_get m k)"
  by (induction m) auto

lemma packages_unary: "packages_of (map unary_service ss) = map (apsnd (map unary_service)) (packages_of ss)"
proof -
  have "foldl (\<lambda>m s. js_set (sv_package s) (nullish (js_get m (sv_package s)) [] @ [s]) m) (map (apsnd (map unary_service)) m) (map unary_service ss) =
      map (apsnd (map unary_service)) (foldl (\<lambda>m s. js_set (sv_package s) (nullish (js_get m (sv_package s)) [] @ [s]) m) m ss)" for m
  proof (induction ss arbitrary: m)
    case (Cons s ss)
    have "nullish (js_get (map (apsnd (map unary_service)) m) (sv_package s)) [] @ [unary_service s] =
        map unary_service (nullish (js_get m (sv_package s)) [] @ [s])"
      by (cases "js_get m (sv_package s)") (simp_all add: js_get_map)
    then show ?case
      using Cons by (simp del: map_append add: js_set_map)
  qed simp
  from this[of "[]"] show ?thesis
    by (simp add: packages_of_def)
qed

lemma printProto_unary: "printProto (unary_registry rg) = printProto rg"
proof -
  have "print_package (unary_registry rg) (apsnd (map unary_service) p) = print_package rg p" for p
    by (simp add: print_package_def messagesForPackage_unary traverse_map print_service_unary print_message_unary[abs_def])
  then show ?thesis
    by (simp add: printProto_def packages_unary traverse_map)
qed

section \<open>Properties\<close>

text \<open>
  In every registry that decorators build, the fields of a message have numbers of their own, from 1 to 536870911, and
  names of their own, and so have the methods of a service.
\<close>

theorem registered_names_unique:
  assumes "registered N rg"
  shows "list_all message_ok (getMessages rg) \<and> list_all service_ok (getServices rg)"
  using registered_ok[OF assms]
  by (auto simp: registry_ok_def getMessages_def getServices_def list_all_iff dest!: js_all_entry)

definition toy_method :: rpc_method where
  "toy_method = \<lparr>me_propertyKey = [109], me_name = [77], me_input = 1, me_output = Some 1, me_notification = False,
     me_clientStreaming = True, me_serverStreaming = True\<rparr>"

definition toy_service :: rpc_service where
  "toy_service = \<lparr>sv_target = 7, sv_package = [112], sv_name = [83], sv_methods = [toy_method]\<rparr>"

definition toy_registry :: rpc_registry where
  "toy_registry = \<lparr>rg_messages = toy_messages, rg_services = [(7, toy_service)]\<rparr>"

lemma toy_service_registered:
  "registered (\<lambda>_. [67]) \<lparr>rg_messages = [], rg_services = [(7, toy_service)]\<rparr>"
proof -
  have "registered (\<lambda>_. [67]) (addService (\<lambda>_. [67]) new_registry 7 [112] (Some [83]))"
    by (rule registered.service[OF registered.new])
  from registered.added[OF this, of 7 toy_method] show ?thesis
    by (simp add: addService_def addMethod_def new_registry_def put_service_def service_entry_def toy_service_def)
qed

lemma registered_names_unique_witness:
  "list_all message_ok (getMessages \<lparr>rg_messages = [], rg_services = [(7, toy_service)]\<rparr>) \<and>
   list_all service_ok (getServices \<lparr>rg_messages = [], rg_services = [(7, toy_service)]\<rparr>)"
  by (rule registered_names_unique[OF toy_service_registered])

text \<open>C17: 
  The messages of a package are exactly the registered ones that the inputs and outputs of its methods reach through
  their fields, each once.
\<close>

theorem package_messages_are_reachable:
  assumes "registry_ok rg"
  shows "set (messagesForPackage rg p) =
      {meta. \<exists>r\<in>set (package_roots rg p). \<exists>t. (r, t) \<in> (field_edges (rg_messages rg))\<^sup>* \<and> js_get (rg_messages rg) t = Some meta} \<and>
    distinct (map rm_target (messagesForPackage rg p))"
proof
  show "set (messagesForPackage rg p) =
      {meta. \<exists>r\<in>set (package_roots rg p). \<exists>t. (r, t) \<in> (field_edges (rg_messages rg))\<^sup>* \<and> js_get (rg_messages rg) t = Some meta}"
    using visits_messages[of "rg_messages rg" "package_roots rg p" "[]" "[]"]
    unfolding messagesForPackage_def visits_reach[of "rg_messages rg" "package_roots rg p" "[]"] by auto
  show "distinct (map rm_target (messagesForPackage rg p))"
    using assms visits_new[of message_ok "rg_messages rg" "[]" "[]" "package_roots rg p"] by (simp add: messagesForPackage_def registry_ok_def)
qed

lemma toy_registry_ok: "registry_ok toy_registry"
  by (simp add: registry_ok_def toy_registry_def toy_messages_def toy_point_def toy_shape_def toy_service_def toy_method_def
      js_all_Cons message_ok_def service_ok_def)

lemma package_messages_are_reachable_witness:
  "set (messagesForPackage toy_registry [112]) =
      {meta. \<exists>r\<in>set (package_roots toy_registry [112]). \<exists>t. (r, t) \<in> (field_edges (rg_messages toy_registry))\<^sup>* \<and>
         js_get (rg_messages toy_registry) t = Some meta} \<and>
    distinct (map rm_target (messagesForPackage toy_registry [112]))"
  by (rule package_messages_are_reachable[OF toy_registry_ok])

text \<open>
  A path is resolved exactly when it is the package, the service and the method of a registered one; what is found has
  that path.
\<close>

theorem method_found_by_path:
  "(findMethod rg path \<noteq> None) = (\<exists>s\<in>set (getServices rg). \<exists>m\<in>set (sv_methods s). path = service_prefix s @ me_name m) \<and>
   (\<forall>s m. findMethod rg path = Some (s, m) \<longrightarrow> s \<in> set (getServices rg) \<and> m \<in> set (sv_methods s) \<and> path = service_prefix s @ me_name m)"
  using find_method_Some[of "getServices rg" path] find_method_None[of "getServices rg" path] unfolding findMethod_def by fastforce

lemma method_found_by_path_witness:
  "findMethod toy_registry (js_str ''p.S/M'') = Some (toy_service, toy_method)"
  using method_found_by_path[of toy_registry "js_str ''p.S/M''"]
  by (simp add: findMethod_def toy_registry_def getServices_def toy_service_def toy_method_def service_prefix_def js_str_def)

text \<open>
  Copying a registry keeps services, methods and fields, and gives every message with a field the name of its class: a
  name that was declared is lost.
\<close>

theorem copied_registry_loses_names:
  assumes "registry_ok rg"
  shows "setRegistry N rg = Inr (rg\<lparr>rg_messages := js_mapv (reset_name N) (rg_messages rg)\<rparr>)"
  by (rule setRegistry_eq[OF assms])

lemma copied_registry_loses_names_witness:
  "\<exists>rg. setRegistry (\<lambda>_. [67]) toy_registry = Inr rg \<and> map_option rm_name (js_get (rg_messages toy_registry) 0) = Some [80] \<and>
     map_option rm_name (js_get (rg_messages rg) 0) = Some [67]"
  using copied_registry_loses_names[OF toy_registry_ok, of "\<lambda>_. [67]"]
  by (simp add: toy_registry_def toy_messages_def toy_point_def reset_name_def)

text \<open>Streaming methods are printed like unary ones: the IDL is that of the registry with every stream flag cleared.\<close>

theorem printed_proto_has_no_streams:
  "printProto rg = printProto (unary_registry rg)"
  by (simp add: printProto_unary)

end
