(* ===== verification/RpcCalls.thy ===== *)
theory RpcCalls imports RpcRegistry begin

text \<open>
  Calls of \<^verbatim>\<open>di-framework-rpc\<close>: the push streams both ends use, JSON-RPC payloads
  (\<^verbatim>\<open>src/codec.ts\<close>), the dispatcher of a server (\<^verbatim>\<open>src/dispatcher.ts\<close>) and the pending calls of a
  client (\<^verbatim>\<open>src/client.ts\<close>).

  A payload is a value of \<open>RpcMessages\<close>.  User code (the method with the interceptors around it) is a parameter
  over a world it may change.  The lemmas show that a stream delivers what was pushed in order, that each request of a
  batch is answered once, that a call settles at most once, and which failures no end of a call ever hears of.
\<close>

section \<open>Push streams\<close>

text \<open>
  \<^verbatim>\<open>PushStream\<close> with one consumer.  An item or an error may be \<^verbatim>\<open>undefined\<close>, which is \<open>None\<close>;
  \<open>ps_over\<close> says that the generator of the consumer has returned.
\<close>

record ('v, 'e) push_stream =
  ps_queue :: "'v option list"
  ps_waiting :: bool
  ps_done :: bool
  ps_failure :: "'e option"
  ps_over :: bool

datatype ('v, 'e) delivery = Item "'v option" | Finished | Failed "'e option"

definition new_stream :: "('v, 'e) push_stream" where
  "new_stream = \<lparr>ps_queue = [], ps_waiting = False, ps_done = False, ps_failure = None, ps_over = False\<rparr>"

definition ps_stopped :: "('v, 'e) push_stream \<Rightarrow> bool" where
  "ps_stopped s \<longleftrightarrow> ps_done s \<or> ps_failure s \<noteq> None"

definition ps_push :: "'v option \<Rightarrow> ('v, 'e) push_stream \<Rightarrow> ('v, 'e) push_stream \<times> ('v, 'e) delivery list" where
  "ps_push v s =
     (if ps_stopped s then (s, [])
      else if ps_waiting s then (s\<lparr>ps_waiting := False\<rparr>, [Item v])
      else (s\<lparr>ps_queue := ps_queue s @ [v]\<rparr>, []))"

definition ps_end :: "('v, 'e) push_stream \<Rightarrow> ('v, 'e) push_stream \<times> ('v, 'e) delivery list" where
  "ps_end s =
     (if ps_stopped s then (s, [])
      else (s\<lparr>ps_done := True, ps_waiting := False, ps_over := ps_over s \<or> ps_waiting s\<rparr>, if ps_waiting s then [Finished] else []))"

text \<open>The consumer leaves its loop: \<^verbatim>\<open>finally { this.end() }\<close>.\<close>

definition leave :: "('v, 'e) push_stream \<Rightarrow> ('v, 'e) push_stream" where
  "leave s = (fst (ps_end s))\<lparr>ps_over := True\<rparr>"

definition ps_error :: "'e option \<Rightarrow> ('v, 'e) push_stream \<Rightarrow> ('v, 'e) push_stream \<times> ('v, 'e) delivery list" where
  "ps_error e s =
     (if ps_stopped s then (s, [])
      else if ps_waiting s then (leave (s\<lparr>ps_failure := e, ps_waiting := False\<rparr>), [Failed e])
      else (s\<lparr>ps_failure := e\<rparr>, []))"

text \<open>The consumer asks for the next item: queued ones that are \<^verbatim>\<open>undefined\<close> are passed over.\<close>

definition ps_next :: "('v, 'e) push_stream \<Rightarrow> ('v, 'e) push_stream \<times> ('v, 'e) delivery list" where
  "ps_next s =
     (if ps_waiting s \<or> ps_over s then (s, [])
      else case dropWhile (\<lambda>v. v = None) (ps_queue s) of
             v # vs \<Rightarrow> (s\<lparr>ps_queue := vs\<rparr>, [Item v])
           | [] \<Rightarrow>
               (let s' = s\<lparr>ps_queue := []\<rparr>
                in if ps_done s then (leave s', [Finished])
                   else if ps_failure s \<noteq> None then (leave s', [Failed (ps_failure s)])
                   else (s'\<lparr>ps_waiting := True\<rparr>, [])))"

datatype ('v, 'e) stream_event = Push "'v option" | End | Error "'e option" | Next

definition stream_step :: "('v, 'e) stream_event \<Rightarrow> ('v, 'e) push_stream \<Rightarrow> ('v, 'e) push_stream \<times> ('v, 'e) delivery list" where
  "stream_step e s = (case e of Push v \<Rightarrow> ps_push v s | End \<Rightarrow> ps_end s | Error x \<Rightarrow> ps_error x s | Next \<Rightarrow> ps_next s)"

fun stream_run :: "('v, 'e) push_stream \<Rightarrow> ('v, 'e) stream_event list \<Rightarrow> ('v, 'e) push_stream \<times> ('v, 'e) delivery list" where
  "stream_run s [] = (s, [])"
| "stream_run s (e # es) = (let r = stream_step e s; r' = stream_run (fst r) es in (fst r', snd r @ snd r'))"


text \<open>Streams whose items and errors are defined.\<close>

fun defined_event :: "('v, 'e) stream_event \<Rightarrow> bool" where
  "defined_event (Push v) = (v \<noteq> None)"
| "defined_event (Error e) = (e \<noteq> None)"
| "defined_event _ = True"

fun accepted :: "('v, 'e) stream_event list \<Rightarrow> 'v list" where
  "accepted [] = []"
| "accepted (Push v # es) = (case v of Some x \<Rightarrow> [x] | None \<Rightarrow> []) @ accepted es"
| "accepted (Next # es) = accepted es"
| "accepted (End # es) = []"
| "accepted (Error e # es) = []"

definition stream_inv :: "('v, 'e) push_stream \<Rightarrow> bool" where
  "stream_inv s \<longleftrightarrow> None \<notin> set (ps_queue s) \<and> (ps_waiting s \<longrightarrow> ps_queue s = [] \<and> \<not> ps_stopped s) \<and> (ps_over s \<longrightarrow> ps_queue s = [] \<and> ps_stopped s)"

lemma dropWhile_defined: "None \<notin> set q \<Longrightarrow> dropWhile (\<lambda>v. v = None) q = q"
  by (cases q) auto

lemmas stream_defs = stream_step_def ps_push_def ps_end_def ps_error_def ps_next_def leave_def ps_stopped_def stream_inv_def

lemma stream_step_inv: "stream_inv s \<Longrightarrow> defined_event e \<Longrightarrow> stream_inv (fst (stream_step e s))"
  by (cases e) (auto simp: stream_defs dropWhile_defined Let_def split: list.split)

definition tail_ok :: "('v, 'e) delivery list \<Rightarrow> bool" where
  "tail_ok t \<longleftrightarrow> t = [] \<or> t = [Finished] \<or> (\<exists>e. t = [Failed (Some e)])"

lemma over_silent: "ps_over s \<Longrightarrow> stream_inv s \<Longrightarrow> stream_step e s = (s, [])"
  by (cases e) (auto simp: stream_defs)

lemma over_run: "ps_over s \<Longrightarrow> stream_inv s \<Longrightarrow> stream_run s es = (s, [])"
  by (induction es) (simp_all add: over_silent Let_def)

lemma stream_step_shape:
  assumes "stream_inv s" "defined_event e" "stream_step e s = (s', outs)"
  obtains vs t where "outs = map (Item \<circ> Some) vs @ t" "tail_ok t" "t \<noteq> [] \<longrightarrow> ps_over s'"
    "map Some vs @ ps_queue s' = ps_queue s @ (if ps_stopped s then [] else map Some (accepted [e]))"
    "ps_stopped s' \<longleftrightarrow> ps_stopped s \<or> e = End \<or> (\<exists>x. e = Error x)"
proof -
  have "\<exists>vs t. outs = map (Item \<circ> Some) vs @ t \<and> tail_ok t \<and> (t \<noteq> [] \<longrightarrow> ps_over s') \<and>
      map Some vs @ ps_queue s' = ps_queue s @ (if ps_stopped s then [] else map Some (accepted [e])) \<and>
      (ps_stopped s' \<longleftrightarrow> ps_stopped s \<or> e = End \<or> (\<exists>x. e = Error x))"
  proof (cases e)
    case (Push v)
    then obtain x where v: "v = Some x"
      using assms(2) by auto
    consider "ps_stopped s" | "\<not> ps_stopped s" "ps_waiting s" | "\<not> ps_stopped s" "\<not> ps_waiting s"
      by blast
    then show ?thesis
    proof cases
      case 2
      then show ?thesis
        using assms Push v by (intro exI[of _ "[x]"] exI[of _ "[]"]) (auto simp: stream_defs tail_ok_def)
    qed (use assms Push v in \<open>intro exI[of _ "[]"], auto simp: stream_defs tail_ok_def\<close>)+
  next
    case End
    then show ?thesis
      using assms by (intro exI[of _ "[]"] exI[of _ outs]) (auto simp: stream_defs tail_ok_def split: if_splits)
  next
    case (Error x)
    then show ?thesis
      using assms by (intro exI[of _ "[]"] exI[of _ outs]) (auto simp: stream_defs tail_ok_def split: if_splits)
  next
    case Next
    show ?thesis
    proof (cases "ps_waiting s \<or> ps_over s")
      case True
      then show ?thesis
        using assms Next by (intro exI[of _ "[]"]) (auto simp: stream_defs tail_ok_def)
    next
      case False
      show ?thesis
      proof (cases "ps_queue s")
        case Nil
        then show ?thesis
          using assms Next False
          by (intro exI[of _ "[]"] exI[of _ outs]) (auto simp: stream_defs tail_ok_def Let_def split: if_splits)
      next
        case (Cons v q)
        then obtain x where "v = Some x"
          using assms(1) by (cases v) (auto simp: stream_inv_def)
        then show ?thesis
          using assms Next False Cons
          by (intro exI[of _ "[x]"] exI[of _ "[]"]) (auto simp: stream_defs tail_ok_def)
      qed
    qed
  qed
  then show ?thesis
    using that by blast
qed

lemma stream_run_shape:
  assumes "stream_inv s" "list_all defined_event es" "stream_run s es = (s', outs)"
  shows "\<exists>vs t. outs = map (Item \<circ> Some) vs @ t \<and> tail_ok t \<and> (t \<noteq> [] \<longrightarrow> ps_over s') \<and>
    map Some vs @ ps_queue s' = ps_queue s @ (if ps_stopped s then [] else map Some (accepted es))"
  using assms
proof (induction es arbitrary: s outs)
  case Nil
  then show ?case
    by (intro exI[of _ "[]"]) (auto simp: tail_ok_def)
next
  case (Cons e es)
  obtain s1 outs1 where step: "stream_step e s = (s1, outs1)"
    by (cases "stream_step e s")
  obtain outs2 where run: "stream_run s1 es = (s', outs2)" and outs: "outs = outs1 @ outs2"
    using Cons.prems(3) step by (cases "stream_run s1 es") (auto simp: Let_def)
  have inv: "stream_inv s1"
    using stream_step_inv[OF Cons.prems(1), of e] Cons.prems(2) step by simp
  have def1: "defined_event e"
    using Cons.prems(2) by simp
  obtain vs1 t1 where 1: "outs1 = map (Item \<circ> Some) vs1 @ t1" "tail_ok t1" "t1 \<noteq> [] \<longrightarrow> ps_over s1"
    "map Some vs1 @ ps_queue s1 = ps_queue s @ (if ps_stopped s then [] else map Some (accepted [e]))"
    "ps_stopped s1 \<longleftrightarrow> ps_stopped s \<or> e = End \<or> (\<exists>x. e = Error x)"
    by (rule stream_step_shape[OF Cons.prems(1) def1 step])
  have "list_all defined_event es"
    using Cons.prems(2) by simp
  then obtain vs2 t2 where 2: "outs2 = map (Item \<circ> Some) vs2 @ t2" "tail_ok t2" "t2 \<noteq> [] \<longrightarrow> ps_over s'"
    "map Some vs2 @ ps_queue s' = ps_queue s1 @ (if ps_stopped s1 then [] else map Some (accepted es))"
    using Cons.IH[OF inv _ run] by blast
  have acc: "(if ps_stopped s then [] else map Some (accepted (e # es))) =
      (if ps_stopped s then [] else map Some (accepted [e])) @ (if ps_stopped s1 then [] else map Some (accepted es))"
    using 1(5) by (cases e) auto
  have "map Some (vs1 @ vs2) @ ps_queue s' = ps_queue s @ (if ps_stopped s then [] else map Some (accepted (e # es)))"
    unfolding acc using 1(4) 2(4) by (metis append.assoc map_append)
  moreover have "t1 \<noteq> [] \<longrightarrow> outs2 = [] \<and> ps_over s'"
    using over_run[OF _ inv, of es] 1(3) run by auto
  then have "t1 = [] \<or> vs2 = [] \<and> t2 = [] \<and> ps_over s'"
    using 2(1) by auto
  then have "outs = map (Item \<circ> Some) (vs1 @ vs2) @ (t1 @ t2) \<and> tail_ok (t1 @ t2) \<and> (t1 @ t2 \<noteq> [] \<longrightarrow> ps_over s')"
    using outs 1(1,2) 2(1,2,3) by auto
  ultimately show ?case
    by blast
qed


lemma stream_run_append:
  "stream_run s (es @ fs) = (let r = stream_run s es; r' = stream_run (fst r) fs in (fst r', snd r @ snd r'))"
  by (induction es arbitrary: s) (simp_all add: Let_def)

lemma stream_run_inv: "stream_inv s \<Longrightarrow> list_all defined_event es \<Longrightarrow> stream_inv (fst (stream_run s es))"
  by (induction es arbitrary: s) (simp_all add: Let_def stream_step_inv)

lemma drain_ended:
  assumes "stream_inv s" "ps_done s" "\<not> ps_over s" "ps_queue s = map Some q"
  shows "snd (stream_run s (replicate (Suc (length q)) Next)) = map (Item \<circ> Some) q @ [Finished] \<and>
    ps_over (fst (stream_run s (replicate (Suc (length q)) Next)))"
  using assms
proof (induction q arbitrary: s)
  case Nil
  then show ?case
    by (auto simp: stream_defs Let_def)
next
  case (Cons x q)
  let ?s = "s\<lparr>ps_queue := map Some q\<rparr>"
  have "stream_step Next s = (?s, [Item (Some x)])"
    using Cons.prems by (auto simp: stream_defs)
  moreover have "stream_inv ?s"
    using Cons.prems by (auto simp: stream_defs)
  ultimately show ?case
    using Cons.IH[of ?s] Cons.prems by (simp add: Let_def)
qed

text \<open>A stream of pushes that was ended delivers exactly what was pushed, in order, and then finishes, however the
  consumer's requests fall between the pushes.\<close>

definition plain_event :: "('v, 'e) stream_event \<Rightarrow> bool" where
  "plain_event e \<longleftrightarrow> (case e of Push v \<Rightarrow> v \<noteq> None | Next \<Rightarrow> True | _ \<Rightarrow> False)"

lemma plain_not_stopped:
  "\<not> ps_stopped s \<Longrightarrow> \<not> ps_over s \<Longrightarrow> list_all plain_event es \<Longrightarrow>
    \<not> ps_stopped (fst (stream_run s es)) \<and> \<not> ps_over (fst (stream_run s es))"
proof (induction es arbitrary: s)
  case (Cons e es)
  have "\<not> ps_stopped (fst (stream_step e s)) \<and> \<not> ps_over (fst (stream_step e s))"
    using Cons.prems by (cases e) (auto simp: stream_defs plain_event_def Let_def split: list.split)
  then show ?case
    using Cons by (simp add: Let_def)
qed simp

lemma plain_defined: "list_all plain_event es \<Longrightarrow> list_all defined_event es"
proof -
  have "plain_event e \<Longrightarrow> defined_event e" for e :: "('v, 'e) stream_event"
    by (cases e) (auto simp: plain_event_def)
  then show "list_all plain_event es \<Longrightarrow> list_all defined_event es" for es :: "('v, 'e) stream_event list"
    by (auto simp: list_all_iff)
qed

lemma new_stream_inv [simp]: "stream_inv new_stream" "\<not> ps_stopped new_stream" "\<not> ps_over new_stream"
  by (simp_all add: stream_defs new_stream_def)

lemma map_Some_inj: "map Some xs = map Some ys \<longleftrightarrow> xs = ys"
  by (simp add: inj_map_eq_map)

lemma ended_stream:
  fixes es :: "('v, 'e) stream_event list"
  assumes "list_all plain_event es"
  shows "snd (stream_run new_stream (es @ End # replicate (Suc (length (accepted es))) Next)) = map (Item \<circ> Some) (accepted es) @ [Finished]"
proof -
  obtain s outs where run: "stream_run (new_stream :: ('v, 'e) push_stream) es = (s, outs)"
    by (cases "stream_run (new_stream :: ('v, 'e) push_stream) es")
  have inv: "stream_inv s"
    using stream_run_inv[OF new_stream_inv(1) plain_defined[OF assms]] run by (metis fst_conv)
  have open': "\<not> ps_stopped s" "\<not> ps_over s"
    using plain_not_stopped[OF new_stream_inv(2,3) assms] run by (metis fst_conv)+
  obtain vs t where vs: "outs = map (Item \<circ> Some) vs @ t" "t \<noteq> [] \<longrightarrow> ps_over s" "map Some vs @ ps_queue s = map Some (accepted es)"
    using stream_run_shape[OF new_stream_inv(1) plain_defined[OF assms] run] by (auto simp: new_stream_def ps_stopped_def)
  obtain q where q: "ps_queue s = map Some q" "accepted es = vs @ q"
    using vs(3) by (metis append_eq_map_conv map_Some_inj)
  have outs: "outs = map (Item \<circ> Some) vs"
    using vs(1,2) open'(2) by auto
  let ?s = "fst (stream_step End s)"
  have inv': "stream_inv ?s"
    by (rule stream_step_inv[OF inv]) simp
  have "snd (stream_step End s) @ snd (stream_run ?s (replicate (Suc (length (accepted es))) Next)) = map (Item \<circ> Some) q @ [Finished]"
  proof (cases "ps_waiting s")
    case True
    then have "q = []" "snd (stream_step End s) = [Finished]" "ps_over ?s"
      using inv open' q by (auto simp: stream_defs)
    then show ?thesis
      using over_run[OF _ inv'] by (simp del: stream_run.simps)
  next
    case False
    then have s: "snd (stream_step End s) = []" "ps_done ?s" "\<not> ps_over ?s" "ps_queue ?s = map Some q"
      using inv open' q by (auto simp: stream_defs)
    have split: "replicate (Suc (length (accepted es))) Next = replicate (Suc (length q)) Next @ replicate (length vs) (Next :: ('v, 'e) stream_event)"
      using q(2) replicate_add[of "Suc (length q)" "length vs" Next] by (simp add: add.commute)
    let ?t = "fst (stream_run ?s (replicate (Suc (length q)) Next))"
    have "stream_inv ?t"
      by (rule stream_run_inv[OF inv']) (simp add: list_all_iff)
    then have "stream_run ?t (replicate (length vs) Next) = (?t, [])"
      using over_run drain_ended[OF inv' s(2-4)] by blast
    then show ?thesis
      unfolding split stream_run_append Let_def using drain_ended[OF inv' s(2-4)] s(1) by simp
  qed
  then show ?thesis
    using run outs q(2) by (simp add: stream_run_append Let_def)
qed


section \<open>Payloads\<close>

definition property :: "rpc_value \<Rightarrow> string \<Rightarrow> rpc_value option" where
  "property v k = (case v of VMessage m \<Rightarrow> js_get m (js_str k) | _ \<Rightarrow> None)"

definition is_record :: "rpc_value \<Rightarrow> bool" where
  "is_record v \<longleftrightarrow> (case v of VMessage _ \<Rightarrow> True | _ \<Rightarrow> False)"

definition is_text :: "rpc_value option \<Rightarrow> bool" where
  "is_text v \<longleftrightarrow> (case v of Some (VString _) \<Rightarrow> True | _ \<Rightarrow> False)"

definition is_id :: "rpc_value \<Rightarrow> bool" where
  "is_id v \<longleftrightarrow> (case v of VString _ \<Rightarrow> True | VNum _ \<Rightarrow> True | VNonFinite \<Rightarrow> True | _ \<Rightarrow> False)"

definition version_2 :: "rpc_value \<Rightarrow> bool" where
  "version_2 v \<longleftrightarrow> property v ''jsonrpc'' = Some (VString (js_str ''2.0''))"

definition isJsonRpcCall :: "rpc_value \<Rightarrow> bool" where
  "isJsonRpcCall v \<longleftrightarrow> is_record v \<and> version_2 v \<and> is_text (property v ''method'') \<and>
     (case property v ''id'' of None \<Rightarrow> True | Some i \<Rightarrow> is_id i)"

definition nullable_id :: "rpc_value option \<Rightarrow> bool" where
  "nullable_id i \<longleftrightarrow> (case i of None \<Rightarrow> False | Some v \<Rightarrow> v = VNull \<or> is_id v)"

definition isJsonRpcStreamFrame :: "rpc_value \<Rightarrow> bool" where
  "isJsonRpcStreamFrame v \<longleftrightarrow> is_record v \<and> version_2 v \<and>
     property v ''stream'' \<in> Some ` VString ` js_str ` {''next'', ''complete'', ''error''} \<and> nullable_id (property v ''id'')"

definition isJsonRpcResponse :: "rpc_value \<Rightarrow> bool" where
  "isJsonRpcResponse v \<longleftrightarrow> is_record v \<and> version_2 v \<and>
     (property v ''result'' \<noteq> None \<or> property v ''error'' \<noteq> None \<or> property v ''stream'' \<noteq> None) \<and> nullable_id (property v ''id'')"

text \<open>An answer; \<open>id\<close> is \<open>None\<close> for \<^verbatim>\<open>null\<close>.\<close>

datatype rpc_frame =
    Success "rpc_value option" rpc_value
  | Failure "rpc_value option" int jsstr "rpc_value option"
  | StreamNext "rpc_value option" rpc_value
  | StreamComplete "rpc_value option"
  | StreamError "rpc_value option" int jsstr "rpc_value option"

definition PARSE_ERROR :: int where "PARSE_ERROR = - 32700"
definition INVALID_REQUEST :: int where "INVALID_REQUEST = - 32600"
definition METHOD_NOT_FOUND :: int where "METHOD_NOT_FOUND = - 32601"
definition INVALID_PARAMS :: int where "INVALID_PARAMS = - 32602"
definition SERVER_ERROR :: int where "SERVER_ERROR = - 32000"

definition invalid_request :: rpc_frame where
  "invalid_request = Failure None INVALID_REQUEST (js_str ''Invalid Request'') None"

fun json_rpc_value :: "json \<Rightarrow> rpc_value" where
  "json_rpc_value JNull = VNull"
| "json_rpc_value (JBool b) = VBool b"
| "json_rpc_value (JNum q) = VNum q"
| "json_rpc_value (JStr s) = VString s"
| "json_rpc_value (JArr xs) = VArray (map json_rpc_value xs)"
| "json_rpc_value (JObj m) = VMessage (map (\<lambda>(k, v). (k, json_rpc_value v)) m)"

definition well_framed :: "rpc_value \<Rightarrow> bool" where
  "well_framed v \<longleftrightarrow> isJsonRpcCall v \<or> isJsonRpcResponse v \<or> isJsonRpcStreamFrame v"

definition check_payload :: "rpc_value \<Rightarrow> (rpc_frame, rpc_value) result" where
  "check_payload v =
     (case v of
        VArray xs \<Rightarrow> if xs = [] \<or> \<not> list_all well_framed xs then Inl invalid_request else Inr v
      | _ \<Rightarrow> if well_framed v then Inr v else Inl invalid_request)"

definition parseJsonRpc :: "rpc_value \<Rightarrow> (rpc_frame, rpc_value) result" where
  "parseJsonRpc input =
     (case input of
        VString s \<Rightarrow> (case JSON_parse s of
            None \<Rightarrow> Inl (Failure None PARSE_ERROR (js_str ''Parse error'') None)
          | Some j \<Rightarrow> check_payload (json_rpc_value j))
      | _ \<Rightarrow> check_payload input)"

section \<open>The dispatcher\<close>

text \<open>
  What a call may throw: an \<^verbatim>\<open>RpcAppError\<close>, or another value with whether it is a \<^verbatim>\<open>TypeError\<close> (or an
  error that tells of its input) and its message.
\<close>

datatype rpc_thrown = AppError int jsstr "rpc_value option" | Thrown bool jsstr

text \<open>
  The user's side, over a world \<open>'w\<close>: resolving the service and its method, calling it with the interceptors around it,
  the interceptors around one streamed item, whether the method is an async generator, and the messages of the errors
  of \<open>RpcMessages\<close>.
\<close>

record 'w rpc_host =
  rh_registry :: rpc_registry
  rh_atob :: "jsstr \<Rightarrow> byte list option"
  rh_btoa :: "byte list \<Rightarrow> jsstr"
  rh_resolve :: "rpc_service \<Rightarrow> rpc_method \<Rightarrow> 'w \<Rightarrow> (rpc_thrown, unit) result \<times> 'w"
  rh_call :: "rpc_service \<Rightarrow> rpc_method \<Rightarrow> rpc_value \<Rightarrow> 'w \<Rightarrow> (rpc_thrown, rpc_value) result \<times> 'w"
  rh_item :: "rpc_method \<Rightarrow> rpc_value \<Rightarrow> (rpc_thrown, rpc_value) result"
  rh_generator :: "rpc_service \<Rightarrow> rpc_method \<Rightarrow> bool"
  rh_text :: "rpc_message_error \<Rightarrow> jsstr"

definition thrown_of :: "'w rpc_host \<Rightarrow> rpc_message_error \<Rightarrow> rpc_thrown" where
  "thrown_of H e = Thrown (case e of NotAnObject _ \<Rightarrow> True | MustBeArray _ \<Rightarrow> True | TypeFailure \<Rightarrow> True | _ \<Rightarrow> False) (rh_text H e)"

definition hydrate :: "'w rpc_host \<Rightarrow> nat \<Rightarrow> rpc_value \<Rightarrow> (rpc_thrown, rpc_value) result" where
  "hydrate H c v = map_sum (thrown_of H) id (hydrateRpcMessage (rh_atob H) (rg_messages (rh_registry H)) c v)"

definition jsonify :: "'w rpc_host \<Rightarrow> nat option \<Rightarrow> rpc_value \<Rightarrow> (rpc_thrown, rpc_value) result" where
  "jsonify H out v = (case out of None \<Rightarrow> Inr v | Some c \<Rightarrow> map_sum (thrown_of H) id (rpcMessageToJson (rh_btoa H) (rg_messages (rh_registry H)) c v))"

text \<open>The failure frame of the outer \<^verbatim>\<open>catch\<close>, and the error frame of a stream.\<close>

definition failure_frame :: "rpc_value \<Rightarrow> rpc_thrown \<Rightarrow> rpc_frame" where
  "failure_frame i t =
     (case t of
        AppError cd message data \<Rightarrow> Failure (Some i) cd message data
      | Thrown invalid message \<Rightarrow>
          if invalid then Failure (Some i) INVALID_PARAMS (js_str ''Invalid params'') None else Failure (Some i) SERVER_ERROR message None)"

definition stream_failure :: "rpc_value option \<Rightarrow> rpc_thrown \<Rightarrow> rpc_frame" where
  "stream_failure i t =
     (case t of AppError cd message data \<Rightarrow> StreamError i cd message data | Thrown invalid message \<Rightarrow> StreamError i SERVER_ERROR message None)"

text \<open>
  A call that streams runs as a task: whether it streams its results, the stream of what the client sends, whether the
  client aborted it, and the rest of the batch it holds up.  A session is the task that frames with its identifier go to.
  Frames are sent as they are made (\<^verbatim>\<open>sendFrame\<close>, as \<^verbatim>\<open>createRpcServer\<close> uses the dispatcher).
\<close>

record rpc_task =
  tk_id :: "rpc_value option"
  tk_method :: rpc_method
  tk_server :: bool
  tk_stream :: "(rpc_value, rpc_value) push_stream"
  tk_aborted :: bool
  tk_rest :: "rpc_value list"

record 'w dispatcher =
  ds_world :: 'w
  ds_sessions :: "(rpc_value, nat) jsmap"
  ds_tasks :: "(nat, rpc_task) jsmap"
  ds_next :: nat

definition add_task :: "rpc_task \<Rightarrow> 'w dispatcher \<Rightarrow> 'w dispatcher" where
  "add_task t D = D\<lparr>ds_tasks := js_set (ds_next D) t (ds_tasks D), ds_next := Suc (ds_next D),
     ds_sessions := (case tk_id t of None \<Rightarrow> ds_sessions D | Some i \<Rightarrow> js_set i (ds_next D) (ds_sessions D))\<rparr>"

definition drop_session :: "rpc_value option \<Rightarrow> 'w dispatcher \<Rightarrow> 'w dispatcher" where
  "drop_session i D = (case i of None \<Rightarrow> D | Some v \<Rightarrow> D\<lparr>ds_sessions := js_del v (ds_sessions D)\<rparr>)"

definition put_task :: "nat \<Rightarrow> rpc_task \<Rightarrow> 'w dispatcher \<Rightarrow> 'w dispatcher" where
  "put_task n t D = D\<lparr>ds_tasks := js_set n t (ds_tasks D)\<rparr>"

definition frame_item :: "rpc_value \<Rightarrow> rpc_value option" where
  "frame_item frame = (case property frame ''params'' of
     None \<Rightarrow> property frame ''result'' | Some v \<Rightarrow> if v = VNull then property frame ''result'' else Some v)"

definition dispatchStreamFrame :: "rpc_value \<Rightarrow> 'w dispatcher \<Rightarrow> 'w dispatcher" where
  "dispatchStreamFrame frame D =
     (case property frame ''id'' of
        None \<Rightarrow> D
      | Some i \<Rightarrow>
          (case js_get (ds_sessions D) i of
             None \<Rightarrow> D
           | Some n \<Rightarrow>
               (case js_get (ds_tasks D) n of
                  None \<Rightarrow> D
                | Some t \<Rightarrow>
                    if property frame ''stream'' = Some (VString (js_str ''next''))
                    then put_task n (t\<lparr>tk_stream := fst (ps_push (frame_item frame) (tk_stream t))\<rparr>) D
                    else if property frame ''stream'' = Some (VString (js_str ''complete''))
                    then drop_session (Some i) (put_task n (t\<lparr>tk_stream := fst (ps_end (tk_stream t))\<rparr>) D)
                    else drop_session (Some i)
                           (put_task n (t\<lparr>tk_stream := fst (ps_error (property frame ''error'') (tk_stream t)), tk_aborted := True\<rparr>) D))))"

text \<open>What dispatching one call comes to: an answer, or a task.\<close>

datatype dispatched = Answered "rpc_frame option" | Running rpc_task

definition unary_call :: "'w rpc_host \<Rightarrow> rpc_service \<Rightarrow> rpc_method \<Rightarrow> rpc_value option \<Rightarrow> rpc_value \<Rightarrow> 'w \<Rightarrow> (rpc_thrown, rpc_frame option) result \<times> 'w" where
  "unary_call H s m i params w =
     (case hydrate H (me_input m) params of
        Inl t \<Rightarrow> (Inl t, w)
      | Inr input \<Rightarrow>
          (case rh_call H s m input w of
             (Inl t, w') \<Rightarrow> (Inl t, w')
           | (Inr r, w') \<Rightarrow>
               (case i of
                  None \<Rightarrow> (Inr None, w')
                | Some v \<Rightarrow>
                    if me_notification m then (Inr None, w')
                    else (map_sum id (\<lambda>j. Some (Success (Some v) j))
                            (case me_output m of None \<Rightarrow> Inr VNull | Some c \<Rightarrow> jsonify H (Some c) r), w'))))"

definition call_path :: "rpc_value \<Rightarrow> jsstr" where
  "call_path call = (case property call ''method'' of Some (VString p) \<Rightarrow> p | _ \<Rightarrow> [])"

definition call_params :: "rpc_value \<Rightarrow> rpc_value" where
  "call_params call = (case property call ''params'' of None \<Rightarrow> VMessage [] | Some v \<Rightarrow> if v = VNull then VMessage [] else v)"

definition dispatchOne :: "'w rpc_host \<Rightarrow> rpc_value \<Rightarrow> 'w dispatcher \<Rightarrow> dispatched \<times> 'w dispatcher" where
  "dispatchOne H call D =
     (let i = property call ''id''
      in case findMethod (rh_registry H) (call_path call) of
           None \<Rightarrow> (Answered (map_option (\<lambda>v. Failure (Some v) METHOD_NOT_FOUND (js_str ''Method not found'') None) i), D)
         | Some (s, m) \<Rightarrow>
             (case rh_resolve H s m (ds_world D) of
                (Inl t, w) \<Rightarrow> (Answered (map_option (\<lambda>v. failure_frame v t) i), D\<lparr>ds_world := w\<rparr>)
              | (Inr _, w) \<Rightarrow>
                  (let D' = D\<lparr>ds_world := w\<rparr>;
                       server = me_serverStreaming m \<or> rh_generator H s m;
                       task = \<lparr>tk_id = i, tk_method = m, tk_server = server, tk_stream = new_stream, tk_aborted = False, tk_rest = []\<rparr>
                   in if me_clientStreaming m then (Running task, D')
                      else if server
                      then (case hydrate H (me_input m) (call_params call) of
                              Inl t \<Rightarrow> (Answered (Some (stream_failure i t)), drop_session i D')
                            | Inr _ \<Rightarrow> (Running task, D'))
                      else (case unary_call H s m i (call_params call) w of
                              (Inl t, w') \<Rightarrow> (Answered (map_option (\<lambda>v. failure_frame v t) i), D\<lparr>ds_world := w'\<rparr>)
                            | (Inr r, w') \<Rightarrow> (Answered r, D\<lparr>ds_world := w'\<rparr>)))))"

text \<open>The items of a batch, one after another; a streaming call holds up the rest.\<close>

definition frames_of :: "rpc_frame option \<Rightarrow> rpc_frame list" where
  "frames_of r = (case r of None \<Rightarrow> [] | Some f \<Rightarrow> [f])"

fun dispatch_items :: "'w rpc_host \<Rightarrow> rpc_value list \<Rightarrow> 'w dispatcher \<Rightarrow> 'w dispatcher \<times> rpc_frame list" where
  "dispatch_items H [] D = (D, [])"
| "dispatch_items H (x # xs) D =
     (if isJsonRpcStreamFrame x then dispatch_items H xs (dispatchStreamFrame x D)
      else case dispatchOne H x D of
             (Answered r, D') \<Rightarrow> (let z = dispatch_items H xs D' in (fst z, frames_of r @ snd z))
           | (Running t, D') \<Rightarrow> (add_task (t\<lparr>tk_rest := xs\<rparr>) D', []))"

definition dispatch :: "'w rpc_host \<Rightarrow> rpc_value \<Rightarrow> 'w dispatcher \<Rightarrow> 'w dispatcher \<times> rpc_frame list" where
  "dispatch H payload D =
     (case payload of
        VArray xs \<Rightarrow>
          if xs = [] \<or> \<not> list_all (\<lambda>x. isJsonRpcCall x \<or> isJsonRpcStreamFrame x) xs then (D, [invalid_request])
          else dispatch_items H xs D
      | _ \<Rightarrow>
          if isJsonRpcStreamFrame payload then (dispatchStreamFrame payload D, [])
          else if \<not> isJsonRpcCall payload then (D, [invalid_request])
          else dispatch_items H [payload] D)"

text \<open>
  What user code does to a running task: it asks for the next item of its input, its generator yields an item or returns, the method returns a value that is no
  iterable, it throws.  The task then answers, gives up its session and lets the rest of its batch go on.
\<close>

datatype task_event = Pulls | Yields rpc_value | Returns | Gives rpc_value | Throws rpc_thrown

definition finish_task :: "'w rpc_host \<Rightarrow> nat \<Rightarrow> rpc_task \<Rightarrow> rpc_frame list \<Rightarrow> 'w dispatcher \<Rightarrow> 'w dispatcher \<times> rpc_frame list" where
  "finish_task H n t fs D =
     (let z = dispatch_items H (tk_rest t) (drop_session (tk_id t) (D\<lparr>ds_tasks := js_del n (ds_tasks D)\<rparr>))
      in (fst z, fs @ snd z))"

definition task_step :: "'w rpc_host \<Rightarrow> nat \<Rightarrow> task_event \<Rightarrow> 'w dispatcher \<Rightarrow> 'w dispatcher \<times> rpc_frame list" where
  "task_step H n e D =
     (case js_get (ds_tasks D) n of
        None \<Rightarrow> (D, [])
      | Some t \<Rightarrow>
          (case e of
             Pulls \<Rightarrow> (put_task n (t\<lparr>tk_stream := fst (ps_next (tk_stream t))\<rparr>) D, [])
           | Yields v \<Rightarrow>
               if \<not> tk_server t then (D, [])
               else if tk_aborted t then finish_task H n t [StreamComplete (tk_id t)] D
               else (case rbind (rh_item H (tk_method t) v) (jsonify H (me_output (tk_method t))) of
                       Inl x \<Rightarrow> finish_task H n t [stream_failure (tk_id t) x] D
                     | Inr j \<Rightarrow> (D, [StreamNext (tk_id t) j]))
           | Returns \<Rightarrow> if \<not> tk_server t then (D, []) else finish_task H n t [StreamComplete (tk_id t)] D
           | Gives r \<Rightarrow>
               if me_clientStreaming (tk_method t)
               then (case jsonify H (me_output (tk_method t)) r of
                       Inl x \<Rightarrow> finish_task H n t [stream_failure (tk_id t) x] D
                     | Inr j \<Rightarrow> finish_task H n t [Success (tk_id t) j] D)
               else finish_task H n t [] D
           | Throws x \<Rightarrow> finish_task H n t [stream_failure (tk_id t) x] D))"


section \<open>The client\<close>

text \<open>
  The calls a client waits for and the streams it reads (\<^verbatim>\<open>createRpcClient\<close>).  An identifier is the time in base
  36, a hyphen and a sequence number.  The frames of one stream are handled in order (\<^verbatim>\<open>streamEntry.chain\<close>), so
  that handling one when it arrives is the same.  \<open>cl_timers\<close> are the calls whose timer runs, \<open>cl_listeners\<close> and
  \<open>cl_watched\<close> the calls and streams whose abort listener is attached, \<open>cl_open\<close> the identifiers of streams that
  frames still go to.  An output \<open>Settled\<close> is one call of \<^verbatim>\<open>resolve\<close> or \<^verbatim>\<open>reject\<close>.  \<open>item_of\<close> is the hydration of an item with the interceptors around it.
\<close>

datatype outcome = Resolved rpc_value | RemoteError int jsstr "rpc_value option" | LocalError

record rpc_client =
  cl_pending :: "jsstr list"
  cl_timers :: "jsstr list"
  cl_listeners :: "jsstr list"
  cl_open :: "jsstr list"
  cl_watched :: "jsstr list"
  cl_streams :: "(jsstr, (rpc_value, outcome) push_stream) jsmap"
  cl_sequence :: nat

definition new_client :: rpc_client where
  "new_client = \<lparr>cl_pending = [], cl_timers = [], cl_listeners = [], cl_open = [], cl_watched = [], cl_streams = [], cl_sequence = 0\<rparr>"

definition call_id :: "jsstr \<Rightarrow> nat \<Rightarrow> jsstr" where
  "call_id time n = time @ js_str ''-'' @ js_str (decimal n)"

datatype client_output = Settled jsstr outcome | Delivered jsstr "(rpc_value, outcome) delivery"

text \<open>A call is made: registered with its timer and its abort listener, if it has them, unless its signal was aborted
  before.\<close>

datatype signal = NoSignal | Signal | AbortedSignal

definition registerPending :: "jsstr \<Rightarrow> signal \<Rightarrow> bool \<Rightarrow> rpc_client \<Rightarrow> rpc_client \<times> client_output list" where
  "registerPending i sig timeout C =
     (if sig = AbortedSignal then (C, [Settled i LocalError])
      else (C\<lparr>cl_listeners := (if sig = Signal then i # cl_listeners C else cl_listeners C),
              cl_timers := (if timeout then i # cl_timers C else cl_timers C),
              cl_pending := i # cl_pending C\<rparr>, []))"

definition next_id :: "jsstr \<Rightarrow> rpc_client \<Rightarrow> jsstr \<times> rpc_client" where
  "next_id time C = (call_id time (Suc (cl_sequence C)), C\<lparr>cl_sequence := Suc (cl_sequence C)\<rparr>)"

definition invoke :: "jsstr \<Rightarrow> signal \<Rightarrow> bool \<Rightarrow> rpc_client \<Rightarrow> rpc_client \<times> client_output list" where
  "invoke time sig timeout C = (let (i, C') = next_id time C in registerPending i sig timeout C')"

definition open_stream_call :: "jsstr \<Rightarrow> bool \<Rightarrow> rpc_client \<Rightarrow> rpc_client" where
  "open_stream_call time signalled C =
     (let (i, C') = next_id time C
      in C'\<lparr>cl_open := i # cl_open C', cl_watched := (if signalled then i # cl_watched C' else cl_watched C'),
            cl_streams := js_set i new_stream (cl_streams C')\<rparr>)"

definition clear_timer :: "jsstr \<Rightarrow> rpc_client \<Rightarrow> rpc_client" where
  "clear_timer i C = C\<lparr>cl_timers := removeAll i (cl_timers C)\<rparr>"

definition drop_listener :: "jsstr \<Rightarrow> rpc_client \<Rightarrow> rpc_client" where
  "drop_listener i C = C\<lparr>cl_listeners := removeAll i (cl_listeners C)\<rparr>"

definition forget :: "jsstr \<Rightarrow> rpc_client \<Rightarrow> rpc_client" where
  "forget i C = C\<lparr>cl_pending := removeAll i (cl_pending C)\<rparr>"

text \<open>An answer, or a request that was not sent, looks the call up.\<close>

definition settle_call :: "jsstr \<Rightarrow> outcome \<Rightarrow> rpc_client \<Rightarrow> rpc_client \<times> client_output list" where
  "settle_call i out C =
     (if i \<in> set (cl_pending C) then (drop_listener i (clear_timer i (forget i C)), [Settled i out]) else (C, []))"

text \<open>The timer and the abort listener do not: they reject whenever they fire.\<close>

definition timer_fires :: "jsstr \<Rightarrow> rpc_client \<Rightarrow> rpc_client \<times> client_output list" where
  "timer_fires i C =
     (if i \<in> set (cl_timers C) then (drop_listener i (forget i (clear_timer i C)), [Settled i LocalError]) else (C, []))"

definition call_aborted :: "jsstr \<Rightarrow> rpc_client \<Rightarrow> rpc_client \<times> client_output list" where
  "call_aborted i C =
     (if i \<in> set (cl_listeners C) then (clear_timer i (forget i (drop_listener i C)), [Settled i LocalError]) else (C, []))"

definition on_stream :: "jsstr \<Rightarrow> ((rpc_value, outcome) push_stream \<Rightarrow> (rpc_value, outcome) push_stream \<times> (rpc_value, outcome) delivery list) \<Rightarrow>
    rpc_client \<Rightarrow> rpc_client \<times> client_output list" where
  "on_stream i f C =
     (case js_get (cl_streams C) i of
        None \<Rightarrow> (C, [])
      | Some s \<Rightarrow> (C\<lparr>cl_streams := js_set i (fst (f s)) (cl_streams C)\<rparr>, map (Delivered i) (snd (f s))))"

definition close_stream :: "jsstr \<Rightarrow> rpc_client \<Rightarrow> rpc_client" where
  "close_stream i C = C\<lparr>cl_open := removeAll i (cl_open C), cl_watched := removeAll i (cl_watched C)\<rparr>"

definition on_open :: "jsstr \<Rightarrow> bool \<Rightarrow> ((rpc_value, outcome) push_stream \<Rightarrow> (rpc_value, outcome) push_stream \<times> (rpc_value, outcome) delivery list) \<Rightarrow>
    rpc_client \<Rightarrow> rpc_client \<times> client_output list" where
  "on_open i ends f C =
     (if i \<notin> set (cl_open C) then (C, []) else on_stream i f (if ends then close_stream i C else C))"

fun frame_id :: "rpc_frame \<Rightarrow> rpc_value option" where
  "frame_id (Success i r) = i"
| "frame_id (Failure i c m d) = i"
| "frame_id (StreamNext i r) = i"
| "frame_id (StreamComplete i) = i"
| "frame_id (StreamError i c m d) = i"

definition id_text :: "rpc_value option \<Rightarrow> jsstr" where
  "id_text i = (case i of Some (VString s) \<Rightarrow> s | _ \<Rightarrow> js_str ''null'')"

definition settle :: "(rpc_value \<Rightarrow> rpc_value option) \<Rightarrow> rpc_frame \<Rightarrow> rpc_client \<Rightarrow> rpc_client \<times> client_output list" where
  "settle item_of frame C =
     (let i = id_text (frame_id frame)
      in case frame of
           StreamNext _ v \<Rightarrow> on_open i False (case item_of v of Some x \<Rightarrow> ps_push (Some x) | None \<Rightarrow> ps_error (Some LocalError)) C
         | StreamComplete _ \<Rightarrow> on_open i True ps_end C
         | StreamError _ cd message data \<Rightarrow> on_open i True (ps_error (Some (RemoteError cd message data))) C
         | Failure _ cd message data \<Rightarrow> settle_call i (RemoteError cd message data) C
         | Success _ r \<Rightarrow> settle_call i (Resolved r) C)"

text \<open>\<^verbatim>\<open>rejectPayload\<close>, for the identifiers of a request that could not be sent.\<close>

definition reject_one :: "jsstr \<Rightarrow> rpc_client \<Rightarrow> rpc_client \<times> client_output list" where
  "reject_one i C =
     (let (C1, o1) = settle_call i LocalError C; (C2, o2) = on_open i True (ps_error (Some LocalError)) C1 in (C2, o1 @ o2))"

text \<open>The abort listener of a stream, which also tells the server (not modelled).\<close>

definition stream_aborted :: "jsstr \<Rightarrow> rpc_client \<Rightarrow> rpc_client \<times> client_output list" where
  "stream_aborted i C =
     (if i \<in> set (cl_watched C) then on_stream i (ps_error (Some LocalError)) (close_stream i C) else (C, []))"

datatype client_event =
    Invoke jsstr signal bool
  | OpenStream jsstr bool
  | Receive rpc_frame
  | TimedOut jsstr
  | Aborted jsstr
  | StreamAborted jsstr
  | NotSent jsstr
  | Reads jsstr

definition client_step :: "(rpc_value \<Rightarrow> rpc_value option) \<Rightarrow> client_event \<Rightarrow> rpc_client \<Rightarrow> rpc_client \<times> client_output list" where
  "client_step item_of e C =
     (case e of
        Invoke time sig timeout \<Rightarrow> invoke time sig timeout C
      | OpenStream time signalled \<Rightarrow> (open_stream_call time signalled C, [])
      | Receive frame \<Rightarrow> settle item_of frame C
      | TimedOut i \<Rightarrow> timer_fires i C
      | Aborted i \<Rightarrow> call_aborted i C
      | StreamAborted i \<Rightarrow> stream_aborted i C
      | NotSent i \<Rightarrow> reject_one i C
      | Reads i \<Rightarrow> on_stream i ps_next C)"

fun client_run :: "(rpc_value \<Rightarrow> rpc_value option) \<Rightarrow> rpc_client \<Rightarrow> client_event list \<Rightarrow> rpc_client \<times> client_output list" where
  "client_run item_of C [] = (C, [])"
| "client_run item_of C (e # es) =
     (let r = client_step item_of e C; r' = client_run item_of (fst r) es in (fst r', snd r @ snd r'))"

section \<open>Client batches\<close>

text \<open>
  The calls of a batch become ready one by one (their interceptors may wait) and are sent together when
  \<^verbatim>\<open>markReady\<close> has counted as many as were queued; a call that fails counts again.
\<close>

record rpc_batch =
  bt_size :: nat
  bt_payload :: "nat list"
  bt_settled :: nat
  bt_started :: bool
  bt_sent :: "nat list option"

datatype batch_event = Ready nat | Fails nat

definition new_batch :: "nat \<Rightarrow> rpc_batch" where
  "new_batch n = \<lparr>bt_size = n, bt_payload = [], bt_settled = 0, bt_started = False, bt_sent = None\<rparr>"

definition startSend :: "rpc_batch \<Rightarrow> rpc_batch" where
  "startSend b =
     (if bt_started b then b
      else b\<lparr>bt_started := True, bt_sent := (if bt_payload b = [] then bt_sent b else Some (bt_payload b))\<rparr>)"

definition markReady :: "rpc_batch \<Rightarrow> rpc_batch" where
  "markReady b = (let b' = b\<lparr>bt_settled := Suc (bt_settled b)\<rparr> in if bt_settled b' = bt_size b' then startSend b' else b')"

definition batch_step :: "batch_event \<Rightarrow> rpc_batch \<Rightarrow> rpc_batch" where
  "batch_step e b = (case e of Ready i \<Rightarrow> markReady (b\<lparr>bt_payload := bt_payload b @ [i]\<rparr>) | Fails i \<Rightarrow> markReady b)"


section \<open>A call settles once\<close>

fun settled_ids :: "client_output list \<Rightarrow> jsstr list" where
  "settled_ids [] = []"
| "settled_ids (Settled i out # os) = i # settled_ids os"
| "settled_ids (Delivered i d # os) = settled_ids os"

lemma settled_ids_append [simp]: "settled_ids (xs @ ys) = settled_ids xs @ settled_ids ys"
  by (induction xs rule: settled_ids.induct) simp_all

lemma settled_ids_delivered [simp]: "settled_ids (map (Delivered i) ds) = []"
  by (induction ds) simp_all

lemma decimal_units: "45 \<notin> set (js_str (decimal n))"
proof -
  have "\<forall>c\<in>set (decimal n). is_digit c"
    using decimal_digits[of n] by (auto simp: all_digits_def list_all_iff)
  then have "CHR ''-'' \<notin> set (decimal n)"
    by (auto simp: is_digit_def code_def)
  moreover have "x = CHR ''-''" if "of_char x = (45 :: 16 word)" for x
    using js_str_inject[of "[x]" "''-''"] that by (simp add: js_str_def)
  ultimately show ?thesis
    by (auto simp: js_str_def)
qed

lemma decimal_inj: "decimal m = decimal n \<Longrightarrow> m = n"
  using decimal_digits by metis

lemma hyphen_split: "t @ h # u = t' @ h # u' \<Longrightarrow> h \<notin> set u \<Longrightarrow> h \<notin> set u' \<Longrightarrow> u = u'"
proof (induction t arbitrary: t')
  case Nil
  then show ?case
    by (cases t') auto
next
  case (Cons a t)
  then show ?case
    by (cases t') auto
qed


lemma call_id_inj: "call_id t m = call_id t' n \<Longrightarrow> m = n"
proof -
  assume "call_id t m = call_id t' n"
  then have "t @ 45 # js_str (decimal m) = t' @ 45 # js_str (decimal n)"
    by (simp add: call_id_def js_str_def)
  then have "js_str (decimal m) = js_str (decimal n)"
    by (rule hyphen_split) (rule decimal_units)+
  then show ?thesis
    by (auto dest: decimal_inj)
qed

text \<open>Identifiers up to a sequence number.\<close>

definition issued :: "nat \<Rightarrow> jsstr set" where
  "issued n = {call_id t k | t k. 1 \<le> k \<and> k \<le> n}"

lemma issued_new: "call_id t (Suc n) \<in> issued (Suc n)"
  unfolding issued_def by (intro CollectI exI[of _ t] exI[of _ "Suc n"]) simp

lemma issued_mono: "issued n \<subseteq> issued (Suc n)"
  unfolding issued_def using le_SucI by blast

lemma issued_fresh: "call_id t (Suc n) \<notin> issued n"
  unfolding issued_def by (auto dest: call_id_inj)

definition client_inv :: "jsstr list \<Rightarrow> rpc_client \<Rightarrow> bool" where
  "client_inv settled C \<longleftrightarrow> distinct settled \<and> distinct (cl_pending C) \<and> set settled \<inter> set (cl_pending C) = {} \<and>
     set settled \<union> set (cl_pending C) \<subseteq> issued (cl_sequence C) \<and>
     set (cl_timers C) \<union> set (cl_listeners C) \<subseteq> set (cl_pending C)"

lemma on_stream_simps [simp]:
  "cl_pending (fst (on_stream i f C)) = cl_pending C" "cl_sequence (fst (on_stream i f C)) = cl_sequence C"
  "cl_timers (fst (on_stream i f C)) = cl_timers C" "cl_listeners (fst (on_stream i f C)) = cl_listeners C"
  "settled_ids (snd (on_stream i f C)) = []"
  by (simp_all add: on_stream_def split: option.split)

lemma on_open_simps [simp]:
  "cl_pending (fst (on_open i e f C)) = cl_pending C" "cl_sequence (fst (on_open i e f C)) = cl_sequence C"
  "cl_timers (fst (on_open i e f C)) = cl_timers C" "cl_listeners (fst (on_open i e f C)) = cl_listeners C"
  "settled_ids (snd (on_open i e f C)) = []"
  by (simp_all add: on_open_def close_stream_def)

lemmas call_table_defs = settle_call_def timer_fires_def call_aborted_def forget_def clear_timer_def drop_listener_def

lemma client_inv_settle:
  "client_inv settled C \<Longrightarrow> client_inv (settled @ settled_ids (snd (settle_call i out C))) (fst (settle_call i out C))"
  by (auto simp: client_inv_def call_table_defs distinct_removeAll)

lemma client_inv_timer:
  "client_inv settled C \<Longrightarrow> client_inv (settled @ settled_ids (snd (timer_fires i C))) (fst (timer_fires i C))"
  by (auto simp: client_inv_def call_table_defs distinct_removeAll)

lemma client_inv_aborted:
  "client_inv settled C \<Longrightarrow> client_inv (settled @ settled_ids (snd (call_aborted i C))) (fst (call_aborted i C))"
  by (auto simp: client_inv_def call_table_defs distinct_removeAll)

lemma client_inv_cong:
  "client_inv settled C \<Longrightarrow> cl_pending C' = cl_pending C \<Longrightarrow> cl_timers C' = cl_timers C \<Longrightarrow> cl_listeners C' = cl_listeners C \<Longrightarrow>
    cl_sequence C' = cl_sequence C \<Longrightarrow> client_inv settled C'"
  by (simp add: client_inv_def)

lemma client_inv_reject:
  assumes "client_inv settled C"
  shows "client_inv (settled @ settled_ids (snd (reject_one i C))) (fst (reject_one i C))"
proof -
  have "fst (reject_one i C) = fst (on_open i True (ps_error (Some LocalError)) (fst (settle_call i LocalError C)))"
    "settled_ids (snd (reject_one i C)) = settled_ids (snd (settle_call i LocalError C))"
    by (simp_all add: reject_one_def Let_def case_prod_unfold)
  then show ?thesis
    using client_inv_cong[OF client_inv_settle[OF assms, of i LocalError]] by simp
qed

lemma client_inv_settle_frame:
  assumes "client_inv settled C"
  shows "client_inv (settled @ settled_ids (snd (settle item_of f C))) (fst (settle item_of f C))"
proof (cases f)
  case (Success x r)
  then show ?thesis
    using client_inv_settle[OF assms] by (simp add: settle_def)
next
  case (Failure x c m d)
  then show ?thesis
    using client_inv_settle[OF assms] by (simp add: settle_def)
qed (use client_inv_cong[OF assms] in \<open>simp_all add: settle_def\<close>)

lemma client_inv_invoke:
  assumes "client_inv settled C"
  shows "client_inv (settled @ settled_ids (snd (invoke t sig timeout C))) (fst (invoke t sig timeout C))"
proof -
  let ?i = "call_id t (Suc (cl_sequence C))"
  have "?i \<in> issued (Suc (cl_sequence C))" "issued (cl_sequence C) \<subseteq> issued (Suc (cl_sequence C))" "?i \<notin> issued (cl_sequence C)"
    by (rule issued_new issued_mono issued_fresh)+
  then show ?thesis
    using assms by (cases sig; auto simp: invoke_def next_id_def registerPending_def client_inv_def)
qed

lemma client_inv_step:
  assumes "client_inv settled C"
  shows "client_inv (settled @ settled_ids (snd (client_step item_of e C))) (fst (client_step item_of e C))"
proof (cases e)
  case (OpenStream t s)
  then show ?thesis
    using assms issued_mono[of "cl_sequence C"] by (auto simp: client_step_def open_stream_call_def next_id_def client_inv_def)
next
  case (StreamAborted i)
  then show ?thesis
    using client_inv_cong[OF assms] by (simp add: client_step_def stream_aborted_def close_stream_def)
qed (use assms client_inv_invoke client_inv_settle_frame client_inv_settle client_inv_timer client_inv_aborted client_inv_reject client_inv_cong[OF assms]
    in \<open>simp_all add: client_step_def\<close>)

lemma client_run_inv:
  "client_inv settled C \<Longrightarrow> client_inv (settled @ settled_ids (snd (client_run item_of C es))) (fst (client_run item_of C es))"
proof (induction es arbitrary: settled C)
  case (Cons e es)
  show ?case
    using Cons.IH[OF client_inv_step[OF Cons.prems, of item_of e]] by (simp add: Let_def)
qed simp


section \<open>Every request of a batch is answered once\<close>

definition unary_methods :: "'w rpc_host \<Rightarrow> bool" where
  "unary_methods H \<longleftrightarrow> (\<forall>s\<in>set (getServices (rh_registry H)). \<forall>m\<in>set (sv_methods s).
     \<not> me_clientStreaming m \<and> \<not> me_serverStreaming m \<and> \<not> rh_generator H s m)"

text \<open>What a call may be answered with: nothing for a notification, else its result or its failure under its identifier.\<close>

definition answers_call :: "'w rpc_host \<Rightarrow> rpc_value \<Rightarrow> rpc_frame option \<Rightarrow> bool" where
  "answers_call H call r \<longleftrightarrow>
     (case r of
        None \<Rightarrow> property call ''id'' = None \<or> (\<exists>s m. findMethod (rh_registry H) (call_path call) = Some (s, m) \<and> me_notification m)
      | Some f \<Rightarrow> property call ''id'' \<noteq> None \<and> frame_id f = property call ''id'' \<and>
          ((\<exists>i x. f = Success i x) \<or> (\<exists>i c t d. f = Failure i c t d)))"

lemma failure_frame_answers: "property call ''id'' = Some v \<Longrightarrow> answers_call H call (Some (failure_frame v t))"
  by (cases t) (auto simp: answers_call_def failure_frame_def)

lemma failures_answer: "answers_call H call (map_option (\<lambda>v. failure_frame v t) (property call ''id''))"
  using failure_frame_answers[of call] by (cases "property call ''id''") (simp_all add: answers_call_def)

lemma map_sum_eq_Inr: "map_sum f g x = Inr y \<longleftrightarrow> (\<exists>z. x = Inr z \<and> y = g z)"
  by (cases x) auto

lemma unary_call_answers:
  assumes "findMethod (rh_registry H) (call_path call) = Some (s, m)"
    "unary_call H s m (property call ''id'') params w = (Inr r, w')"
  shows "answers_call H call r"
  using assms
  by (auto simp: unary_call_def answers_call_def map_sum_eq_Inr split: sum.splits prod.splits option.splits if_splits)

lemma dispatchOne_answers:
  assumes "unary_methods H"
  obtains r D' where "dispatchOne H call D = (Answered r, D')" "answers_call H call r"
proof (cases "findMethod (rh_registry H) (call_path call)")
  case None
  then show ?thesis
    using that by (cases "property call ''id''") (auto simp: dispatchOne_def answers_call_def)
next
  case (Some sm)
  obtain s m where sm: "sm = (s, m)"
    by (cases sm)
  then have unary: "\<not> me_clientStreaming m" "\<not> me_serverStreaming m" "\<not> rh_generator H s m"
    using assms Some find_method_Some[of "getServices (rh_registry H)" "call_path call" s m]
    by (auto simp: unary_methods_def findMethod_def)
  obtain x w where res: "rh_resolve H s m (ds_world D) = (x, w)"
    by (cases "rh_resolve H s m (ds_world D)")
  show ?thesis
  proof (cases x)
    case (Inl t)
    then show ?thesis
      using that[OF _ failures_answer] Some sm res by (simp add: dispatchOne_def)
  next
    case (Inr u)
    obtain y w' where call: "unary_call H s m (property call ''id'') (call_params call) w = (y, w')"
      by (cases "unary_call H s m (property call ''id'') (call_params call) w")
    show ?thesis
    proof (cases y)
      case (Inl t)
      then show ?thesis
        using that[OF _ failures_answer] Some sm res \<open>x = Inr u\<close> unary call by (simp add: dispatchOne_def Let_def)
    next
      case (Inr r)
      have "answers_call H call r"
        using unary_call_answers[of H call s m] Some sm call Inr by simp
      then show ?thesis
        using that Some sm res \<open>x = Inr u\<close> unary call Inr by (simp add: dispatchOne_def Let_def)
    qed
  qed
qed

lemma call_not_stream_frame:
  "isJsonRpcCall x \<Longrightarrow> property x ''stream'' = None \<Longrightarrow> \<not> isJsonRpcStreamFrame x"
  by (auto simp: isJsonRpcStreamFrame_def)

lemma dispatch_items_answers:
  assumes "unary_methods H" "list_all (\<lambda>x. isJsonRpcCall x \<and> property x ''stream'' = None) xs"
  shows "\<exists>rs. snd (dispatch_items H xs D) = concat (map frames_of rs) \<and> list_all2 (answers_call H) xs rs"
  using assms(2)
proof (induction xs arbitrary: D)
  case (Cons x xs)
  obtain r D' where r: "dispatchOne H x D = (Answered r, D')" "answers_call H x r"
    by (rule dispatchOne_answers[OF assms(1)])
  have "list_all (\<lambda>x. isJsonRpcCall x \<and> property x ''stream'' = None) xs" and x: "isJsonRpcCall x" "property x ''stream'' = None"
    using Cons.prems by simp_all
  then obtain rs where "snd (dispatch_items H xs D') = concat (map frames_of rs)" "list_all2 (answers_call H) xs rs"
    using Cons.IH[of D'] by blast
  then show ?case
    using r call_not_stream_frame[OF x] by (intro exI[of _ "r # rs"]) (simp add: Let_def)
qed simp


section \<open>Properties\<close>

text \<open>C16: A stream to which items other than undefined were pushed and that was then ended delivers exactly those
  items, in order, and then finishes, however the consumer's requests fall between the pushes (an undefined item that
  has to wait in the queue is dropped, so pushes of undefined are left out).\<close>

theorem ended_stream_delivers_pushes:
  assumes "list_all plain_event es"
  shows "snd (stream_run new_stream (es @ End # replicate (Suc (length (accepted es))) Next)) = map (Item \<circ> Some) (accepted es) @ [Finished]"
  by (rule ended_stream[OF assms])

lemma ended_stream_delivers_pushes_witness:
  "snd (stream_run (new_stream :: (nat, nat) push_stream)
     ([Push (Some 1), Next, Next, Push (Some 2), Push (Some 3)] @ End # replicate (Suc (length (accepted [Push (Some 1), Next, Next, Push (Some 2), Push (Some 3) :: (nat, nat) stream_event]))) Next))
   = map (Item \<circ> Some) (accepted [Push (Some 1), Next, Next, Push (Some 2), Push (Some 3) :: (nat, nat) stream_event]) @ [Finished]"
  by (rule ended_stream_delivers_pushes) (simp add: plain_event_def)

text \<open>
  Each call of a batch of unary calls is answered in turn: one frame under its identifier with its result or failure,
  and none for a notification.
\<close>

theorem batch_calls_answered_once:
  assumes "unary_methods H" "xs \<noteq> []" "list_all (\<lambda>x. isJsonRpcCall x \<and> property x ''stream'' = None) xs"
  shows "\<exists>rs. snd (dispatch H (VArray xs) D) = concat (map frames_of rs) \<and> list_all2 (answers_call H) xs rs"
proof -
  have "list_all (\<lambda>x. isJsonRpcCall x \<or> isJsonRpcStreamFrame x) xs"
    using assms(3) by (auto simp: list_all_iff)
  then show ?thesis
    using dispatch_items_answers[OF assms(1,3), of D] assms(2) by (simp add: dispatch_def)
qed

definition toy_host :: "unit rpc_host" where
  "toy_host = \<lparr>rh_registry = new_registry, rh_atob = (\<lambda>_. None), rh_btoa = (\<lambda>_. []), rh_resolve = (\<lambda>_ _ w. (Inr (), w)),
     rh_call = (\<lambda>_ _ v w. (Inr v, w)), rh_item = (\<lambda>_ v. Inr v), rh_generator = (\<lambda>_ _. False), rh_text = (\<lambda>_. [])\<rparr>"

definition toy_call :: "jsstr \<Rightarrow> rpc_value" where
  "toy_call i = VMessage [(js_str ''jsonrpc'', VString (js_str ''2.0'')), (js_str ''id'', VString i), (js_str ''method'', VString (js_str ''p.S/M''))]"

definition toy_dispatcher :: "unit dispatcher" where
  "toy_dispatcher = \<lparr>ds_world = (), ds_sessions = [], ds_tasks = [], ds_next = 0\<rparr>"

lemma toy_call_ok: "isJsonRpcCall (toy_call i) \<and> property (toy_call i) ''stream'' = None \<and> property (toy_call i) ''id'' = Some (VString i)"
  by (simp add: isJsonRpcCall_def toy_call_def property_def is_record_def version_2_def is_text_def is_id_def)

lemma toy_host_unary: "unary_methods toy_host"
  by (simp add: unary_methods_def toy_host_def new_registry_def getServices_def)

lemma batch_calls_answered_once_witness:
  "\<exists>rs. snd (dispatch toy_host (VArray [toy_call [97], toy_call [98]]) toy_dispatcher) = concat (map frames_of rs) \<and>
     list_all2 (answers_call toy_host) [toy_call [97], toy_call [98]] rs"
  by (rule batch_calls_answered_once[OF toy_host_unary]) (simp_all add: toy_call_ok)

text \<open>C15: Whatever arrives, runs out or is aborted, and in whatever order, a client settles each call at most once (it calls
  resolve or reject once), a call still pending has not settled, and a settled call leaves no entry, timer or abort listener behind,
  although the timer and the listener reject without looking whether the call is pending.\<close>

theorem calls_settle_at_most_once:
  "let r = client_run item_of new_client es; settled = settled_ids (snd r)
   in distinct (settled @ cl_pending (fst r)) \<and> set settled \<inter> (set (cl_timers (fst r)) \<union> set (cl_listeners (fst r))) = {}"
  using client_run_inv[of "[]" new_client item_of es] by (auto simp: client_inv_def new_client_def Let_def)

text \<open>A streaming call of a method that does not exist is answered by a failure that the client's open stream never
  hears of: its state does not change, and the stream neither delivers nor ends.\<close>

theorem refused_stream_hangs:
  assumes "isJsonRpcCall call" "property call ''stream'' = None" "property call ''id'' = Some (VString i)"
    "findMethod (rh_registry H) (call_path call) = None" "i \<in> set (cl_open C)" "i \<notin> set (cl_pending C)"
  shows "\<exists>f. snd (dispatch H call D) = [f] \<and> settle item_of f C = (C, [])"
proof -
  have "dispatchOne H call D = (Answered (Some (Failure (Some (VString i)) METHOD_NOT_FOUND (js_str ''Method not found'') None)), D)"
    using assms(3,4) by (simp add: dispatchOne_def)
  moreover have "\<not> isJsonRpcStreamFrame call"
    by (rule call_not_stream_frame[OF assms(1,2)])
  moreover obtain m where "call = VMessage m"
    using assms(1) by (cases call) (auto simp: isJsonRpcCall_def is_record_def)
  ultimately show ?thesis
    using assms(1,6) by (simp add: dispatch_def Let_def frames_of_def settle_def settle_call_def id_text_def)
qed

lemma refused_stream_hangs_witness:
  "\<exists>f. snd (dispatch toy_host (toy_call (call_id [] 1)) toy_dispatcher) = [f] \<and>
    settle Some f (open_stream_call [] False new_client) = (open_stream_call [] False new_client, [])"
  by (rule refused_stream_hangs[where i = "call_id [] 1"])
    (simp_all add: toy_call_ok toy_host_def findMethod_def getServices_def new_registry_def open_stream_call_def next_id_def new_client_def)

text \<open>When the method of a client-streaming call throws, the server answers with an error frame of a stream, and the
  client, which waits for a response, stays as it is: the call never settles.\<close>

theorem failed_client_stream_hangs:
  assumes "js_get (ds_tasks D) n = Some t" "tk_id t = Some (VString i)" "tk_rest t = []" "i \<in> set (cl_pending C)" "i \<notin> set (cl_open C)"
  shows "\<exists>f. snd (task_step H n (Throws x) D) = [f] \<and> settle item_of f C = (C, [])"
  using assms by (cases x) (simp_all add: task_step_def finish_task_def Let_def stream_failure_def settle_def on_open_def id_text_def)

lemma failed_client_stream_hangs_witness:
  "\<exists>f. snd (task_step toy_host 0 (Throws (Thrown False []))
        (add_task \<lparr>tk_id = Some (VString (call_id [] 1)), tk_method = toy_method, tk_server = False, tk_stream = new_stream, tk_aborted = False, tk_rest = []\<rparr> toy_dispatcher)) = [f] \<and>
    settle Some f (fst (invoke [] NoSignal False new_client)) = (fst (invoke [] NoSignal False new_client), [])"
  by (rule failed_client_stream_hangs)
    (simp_all add: add_task_def toy_dispatcher_def invoke_def next_id_def registerPending_def new_client_def)+

section \<open>Client batches are sent whole, unless one call fails early\<close>

lemma fold_ready:
  "\<not> bt_started b \<Longrightarrow> bt_settled b + length xs \<le> bt_size b \<Longrightarrow> xs \<noteq> [] \<Longrightarrow>
    bt_sent (fold batch_step (map Ready xs) b) =
      (if bt_settled b + length xs = bt_size b then Some (bt_payload b @ xs) else bt_sent b)"
proof (induction xs arbitrary: b)
  case (Cons x xs)
  show ?case
  proof (cases xs)
    case Nil
    then show ?thesis
      using Cons.prems by (simp add: batch_step_def markReady_def startSend_def Let_def)
  next
    case (Cons y ys)
    then have "batch_step (Ready x) b = b\<lparr>bt_payload := bt_payload b @ [x], bt_settled := Suc (bt_settled b)\<rparr>"
      using Cons.prems by (simp add: batch_step_def markReady_def Let_def)
    then show ?thesis
      using Cons.IH[of "b\<lparr>bt_payload := bt_payload b @ [x], bt_settled := Suc (bt_settled b)\<rparr>"] Cons.prems Cons by simp
  qed
qed simp

lemma sent_stays: "bt_sent b \<noteq> None \<Longrightarrow> bt_started b \<Longrightarrow> bt_sent (fold batch_step es b) = bt_sent b"
proof (induction es arbitrary: b)
  case (Cons e es)
  have "bt_sent (batch_step e b) = bt_sent b" "bt_started (batch_step e b)"
    using Cons.prems by (cases e; simp add: batch_step_def markReady_def startSend_def Let_def)+
  then show ?case
    using Cons by simp
qed simp

text \<open>When every call of a batch becomes ready before one of them fails, the batch is sent whole, in the order they
  became ready.\<close>

theorem batch_sent_whole:
  assumes "xs \<noteq> []"
  shows "bt_sent (fold batch_step (map Ready xs) (new_batch (length xs))) = Some xs"
  using fold_ready[of "new_batch (length xs)" xs] assms by (simp add: new_batch_def)

lemma batch_sent_whole_witness: "bt_sent (fold batch_step (map Ready [0, 1, 2]) (new_batch (length [0, 1, 2 :: nat]))) = Some [0, 1, 2]"
  by (rule batch_sent_whole) simp

text \<open>A call that is ready and fails (its signal was aborted, say) before the last one is ready is counted twice: the
  batch leaves without the calls that are ready later, and nothing sends them.\<close>

theorem failing_call_cuts_batch:
  "bt_sent (fold batch_step ([Ready i, Fails i] @ Ready j # es) (new_batch 2)) = Some [i]"
proof -
  have "bt_sent (fold batch_step [Ready i, Fails i] (new_batch 2)) = Some [i] \<and> bt_started (fold batch_step [Ready i, Fails i] (new_batch 2))"
    by (simp add: batch_step_def markReady_def startSend_def new_batch_def Let_def)
  then have "bt_sent (fold batch_step (Ready j # es) (fold batch_step [Ready i, Fails i] (new_batch 2))) = Some [i]"
    using sent_stays[of "fold batch_step [Ready i, Fails i] (new_batch 2)" "Ready j # es"] by (metis option.distinct(1))
  then show ?thesis
    by (simp only: fold_append comp_apply)
qed

end
