(* ===== verification/Spec2Isabelle.thy ===== *)
theory Spec2Isabelle
  imports Worker Session RefreshTokens ActorRuntime WebAuthn Authz Container Migrations QueryResults ConfigLaws OAuthLaws CronRuntime
    Connection GraphqlWs RpcCalls
begin

text \<open>
  A model of di-framework, a TypeScript framework of packages around a dependency injection container, with the
  theorems that make its core correct.  Sources are named relative to \<^verbatim>\<open>src/packages/\<close>.

  \<^bold>\<open>The program and its theories.\<close>

  \<^item> \<^verbatim>\<open>di-framework-core\<close>: the container that every other package registers with and resolves from
    (\<^verbatim>\<open>container.ts\<close>, theory \<open>Container\<close>), the cron schedules of its decorator (\<^verbatim>\<open>container.ts\<close>,
    \<open>Cron\<close>) and the cron jobs with their locks and statuses (\<^verbatim>\<open>cron/runtime.ts\<close>, \<open>CronRuntime\<close>).
  \<^item> \<^verbatim>\<open>di-framework-queues\<close>: job queues.  The in-memory backend with leases and retries
    (\<^verbatim>\<open>backend/memory.ts\<close>, theory \<open>Queues\<close>), the dispatcher and the polling worker (theory \<open>Worker\<close>).
  \<^item> \<^verbatim>\<open>di-framework-actors\<close>: virtual actors.  Mailboxes (\<^verbatim>\<open>runtime/mailbox.ts\<close>, \<open>Mailbox\<close>), storage with
    transactions, ownership and idempotency records (\<^verbatim>\<open>storage/memory.ts\<close>, \<open>ActorStorage\<close>), names, files
    and authorisation rules (\<open>ActorIdentity\<close>), and the runtime that runs a call: admission, deadline, replayed
    response, migration, ownership, transaction (\<^verbatim>\<open>runtime/runtime.ts\<close>, \<open>ActorRuntime\<close>).
  \<^item> \<^verbatim>\<open>di-framework-socket\<close>: frames and stream framing (\<open>Frames\<close>), the AEAD channel and its wire format
    (\<open>Channel\<close>), the key agreement (\<open>Handshake\<close>) and the session state machine over them with hibernation
    snapshots (\<open>Session\<close>); GraphQL over WebSocket (\<^verbatim>\<open>integrations/graphql-transport-ws.ts\<close>, \<open>GraphqlWs\<close>).
  \<^item> \<^verbatim>\<open>di-framework-graphql\<close>: Relay cursors and pages (\<^verbatim>\<open>connection.ts\<close>, \<open>Connection\<close>).
  \<^item> \<^verbatim>\<open>di-framework-rpc\<close>: the protobuf wire format of decorated messages (\<^verbatim>\<open>schema/messages.ts\<close>,
    \<open>RpcMessages\<close>), the registry and its printed IDL (\<^verbatim>\<open>registry.ts\<close>, \<open>RpcRegistry\<close>), and calls: push streams,
    the dispatcher of a server and the pending calls of a client (\<^verbatim>\<open>dispatcher.ts\<close>, \<^verbatim>\<open>client.ts\<close>,
    \<open>RpcCalls\<close>).
  \<^item> \<^verbatim>\<open>di-framework-auth\<close>: base64url (\<open>Bytes\<close>), the in-memory stores (\<open>AuthStores\<close>), login sessions
    (\<open>LoginSessions\<close>), refresh tokens (\<open>RefreshTokens\<close>), JWS and JWT (\<open>Jws\<close>), CBOR (\<open>Cbor\<close>), WebAuthn
    data and ceremonies (\<open>WebAuthnData\<close>, \<open>WebAuthn\<close>), signing keys and their rotation (\<open>Keys\<close>), and the OAuth
    authorization server (\<^verbatim>\<open>oauth/server/\<close>; definitions in \<open>OAuthServer\<close>, laws in \<open>OAuthLaws\<close>).
  \<^item> \<^verbatim>\<open>di-framework-authz\<close>: resource policies, the decorator registry and the authorization manager
    (\<open>Authz\<close>).
  \<^item> \<^verbatim>\<open>di-framework-repo\<close>: queries derived from method names and the in-memory repository they run on
    (\<^verbatim>\<open>query-derivation.ts\<close>, \<^verbatim>\<open>in-memory.ts\<close>, theories \<open>QueryMethods\<close>, \<open>QueryNames\<close>, \<open>QueryResults\<close>) and
    database migrations (\<^verbatim>\<open>migrations/runner.ts\<close>, \<open>Migrations\<close>).
  \<^item> \<^verbatim>\<open>di-framework-config\<close>: layered configuration (\<^verbatim>\<open>path.ts\<close>, \<^verbatim>\<open>load.ts\<close>, \<^verbatim>\<open>profiles.ts\<close>,
    \<^verbatim>\<open>sources/env.ts\<close>; definitions in \<open>Config\<close>, laws in \<open>ConfigLaws\<close>).

  \<open>Prelude\<close>, \<open>AsciiText\<close>, \<open>Strings\<close>, \<open>Utf8\<close> and \<open>Json\<close> hold what the sources use of the language: maps that keep insertion
  order, stable sorting, UTF-16 strings, the text codec, \<^verbatim>\<open>JSON.parse\<close>.

  \<^bold>\<open>Conventions.\<close>  A class instance is a record of its fields; a method is a function on that record which
  returns the new one.  A thrown error is the left side of a sum.  An asynchronous method whose awaits matter is
  split at them (mailbox loop, channel \<open>open_begin\<close> and \<open>open_finish\<close>, the decryption of a session's frame, token
  rotation, the stored-record read and the checked write of a WebAuthn ceremony, actor deactivation), so
  that other calls may be interleaved; the theories that say so hold step relations or event runs.  Clocks, random
  bytes and identifiers are arguments.  Code outside the repository (WebCrypto, the JSON printer, URL parsing,
  user code) is a parameter, and what the theorems need of it is a named hypothesis (\<open>aes_correct\<close>,
  \<open>valid_pair\<close>, \<open>json_ok\<close>, \<open>migrations_keep_records\<close>), which a witness instantiates.

  \<^bold>\<open>What the lemmas show.\<close>  \<open>Queues\<close>: a lease is exclusive, attempts stay within the limit, the best job is
  leased first.  \<open>Worker\<close>: a processed job is settled, and the concurrency limit is overrun by two pollers.
  \<open>Mailbox\<close>: calls of one actor never overlap, every accepted call settles once.  \<open>ActorStorage\<close>: a
  committed transaction equals its operations run directly, and only the owner of the newest generation commits.
  \<open>ActorRuntime\<close>: a retried request is answered from its record.  \<open>Session\<close>: over a link that keeps the order of
  frames, two ends that send and receive in any interleaving deliver what was sent, in order; only authentic frames
  are delivered, by a session that was closed meanwhile too.  \<open>AuthStores\<close>, \<open>LoginSessions\<close>,
  \<open>RefreshTokens\<close>: the stores' indices agree with their tables, no session outlives its ceiling, a family has no more
  live tokens than were issued into it, reuse burns the family.  \<open>Jws\<close>, \<open>Cbor\<close>, \<open>WebAuthn\<close>: what is accepted was verified, the
  accepted encoding of a value is the only one with map entries in that order, which follows the order of their keys
  as the code compares them, counters increase however ceremonies interleave and a challenge serves one of them.  \<open>Keys\<close>: a token survives a key rotation.  \<open>OAuthLaws\<close>: a code serves once, and
  only the client, redirect URI, verifier and scope it was issued for, also when clients are registered anew.  \<open>Authz\<close>: deny overrides, default deny, compiled documents are sound.
  \<open>Cron\<close>: the time zone of the host is a parameter; in any zone the next time is the first matching
  minute the local clock shows after the given one, at a fixed offset the timer waits neither too short nor too long, and in a repeated hour the delay is
  negative.  \<open>CronRuntime\<close>: dispatched runs of an exclusive job do not overlap unless one timed out, and the timers of
  the process pass that guard by.  \<open>Connection\<close>: a page is the window asked for, and following
  the cursors collects every element.  \<open>GraphqlWs\<close>: nothing before the acknowledgement, and the frames of an operation
  are a stream.  \<open>RpcMessages\<close>: a message of values the wire can carry survives it.  \<open>RpcRegistry\<close>: the messages of a package are
  those its methods reach.  \<open>RpcCalls\<close>: a stream delivers what was pushed, a call settles at most once, a batch is
  answered call by call, and some failures are never heard of.
  \<open>Container\<close>: resolution ends, is well typed, and a singleton is one instance until its key is registered anew.  \<open>QueryNames\<close>: a name printed
  from a plan parses to it.  \<open>QueryResults\<close>: what a derived query returns and deletes, and how pages cut a list.
  \<open>Migrations\<close>: the schema is the recorded history, a failed run leaves a prefix, the lock excludes.
  \<open>ConfigLaws\<close>: which source decides at a path, when merging succeeds, and how overlapping loads leak profiles.  The findings of the manifest name
  the places where code and comments disagree.

  \<^bold>\<open>Bounds and fuel.\<close>  \<open>Container.resolve\<close> recurses with fuel, the depth of nested calls, and \<open>resolution_terminates\<close> shows that twice
  the number of registrations plus two is enough, for constructors and factories that do not call the container.  The CBOR decoder recurses with the depth limit of the source.
  \<open>Json\<close> recurses on the length of the text; a parser that did not consume would stop, and
  \<open>json_parsers_consume\<close> shows that none does.  \<open>Mailbox.drive\<close> runs a mailbox for a number of events, of which
  twice the queue plus two are enough.  \<open>Cron\<close> searches the minutes of two years, the bound of the source.
  The encoders and decoders of \<open>RpcMessages\<close> recurse on the size of the value and on the bytes left.  Machine integers that may wrap are words; JavaScript numbers used as
  counters and times are integers (rationals for queue times), below \<^verbatim>\<open>2^53\<close> as the sources assume.

  \<^bold>\<open>Not modelled.\<close>  Adapters to databases, object stores, brokers and runtimes (their behaviour is that of the
  service behind them); the GraphQL schema, OpenAPI, the RPC transports and HTTP glue that maps decorators to third-party libraries; the
  command line, code generation and build plugins.  The manifest lists each with its reason.
\<close>

end
